(* ===== verification/Prelude.thy ===== *)
theory Prelude
  imports
    Main
    "HOL-Library.Word"
    "HOL-Library.Monad_Syntax"
    "HOL-Library.Code_Target_Numeral"
begin

text \<open>
  Shared vocabulary of the development: the machine-integer types of the Rust sources with their
  checked and saturating operations, indexing of preallocated vectors by \<open>u32\<close> values,
  results as sums (\<open>Inl\<close> is \<open>Err\<close>, \<open>Inr\<close> is \<open>Ok\<close>), and the generic
  locale of inductive invariants of a transition relation, which every stateful component
  interprets on its own step relation.
\<close>

section \<open>Machine integers\<close>

type_synonym u8 = "8 word"
type_synonym u32 = "32 word"
type_synonym u64 = "64 word"
type_synonym u128 = "128 word"

named_theorems machine_simps \<open>arithmetic facts on checked and saturating machine operations\<close>
named_theorems vec_simps \<open>reads and writes of preallocated vectors\<close>

definition u_max :: "'a::len word" where
  "u_max = - 1"

definition checked_add :: "'a::len word \<Rightarrow> 'a word \<Rightarrow> 'a word option" where
  "checked_add a b = (if unat a + unat b < 2 ^ LENGTH('a) then Some (a + b) else None)"

definition checked_sub :: "'a::len word \<Rightarrow> 'a word \<Rightarrow> 'a word option" where
  "checked_sub a b = (if b \<le> a then Some (a - b) else None)"

definition checked_mul :: "'a::len word \<Rightarrow> 'a word \<Rightarrow> 'a word option" where
  "checked_mul a b = (if unat a * unat b < 2 ^ LENGTH('a) then Some (a * b) else None)"

definition saturating_add :: "'a::len word \<Rightarrow> 'a word \<Rightarrow> 'a word" where
  "saturating_add a b = (case checked_add a b of Some c \<Rightarrow> c | None \<Rightarrow> u_max)"

definition saturating_sub :: "'a::len word \<Rightarrow> 'a word \<Rightarrow> 'a word" where
  "saturating_sub a b = (case checked_sub a b of Some c \<Rightarrow> c | None \<Rightarrow> 0)"

lemma unat_u_max: "unat (u_max :: 'a::len word) = 2 ^ LENGTH('a) - 1"
  by (simp add: u_max_def unsigned_minus_1_eq_mask mask_eq_exp_minus_1)

lemma unat_lt_size: "unat (a :: 'a::len word) < 2 ^ LENGTH('a)"
  by (rule unsigned_less)

lemma unat_le_u_max: "unat (a :: 'a::len word) \<le> 2 ^ LENGTH('a) - 1"
  using unat_lt_size[of a] by linarith

lemma unat_word_of_nat:
  "n < 2 ^ LENGTH('a) \<Longrightarrow> unat (word_of_nat n :: 'a::len word) = n"
  by (simp add: unsigned_of_nat take_bit_nat_eq_self)

lemma word_with_unat:
  assumes "n < 2 ^ LENGTH('a)"
  obtains w :: "'a::len word" where "unat w = n"
  using unat_word_of_nat[OF assms] by blast

lemma word_below:
  assumes "k \<le> unat (s :: ('a::len) word)"
  obtains w :: "'a::len word" where "unat w = k"
  using word_with_unat[where 'a = 'a, of k] unat_lt_size[of s] assms by auto

lemma checked_add_Some_iff [machine_simps]:
  "checked_add a b = Some c \<longleftrightarrow> unat c = unat a + unat b"
proof
  assume "checked_add a b = Some c"
  then show "unat c = unat a + unat b"
    by (auto simp: checked_add_def unat_word_ariths split: if_splits)
next
  assume c: "unat c = unat a + unat b"
  then have "unat a + unat b < 2 ^ LENGTH('a)"
    using unat_lt_size[of c] by simp
  moreover from this c have "c = a + b"
    by (intro word_unat_eq_iff[THEN iffD2]) (simp add: unat_word_ariths)
  ultimately show "checked_add a b = Some c"
    by (simp add: checked_add_def)
qed

lemma checked_add_None_iff [machine_simps]:
  "checked_add (a :: 'a::len word) b = None \<longleftrightarrow> 2 ^ LENGTH('a) \<le> unat a + unat b"
  by (simp add: checked_add_def not_less)

lemma checked_sub_Some_iff [machine_simps]:
  "checked_sub a b = Some c \<longleftrightarrow> unat a = unat b + unat c"
proof
  assume "checked_sub a b = Some c"
  then have "b \<le> a" and c: "c = a - b"
    by (auto simp: checked_sub_def split: if_splits)
  then show "unat a = unat b + unat c"
    by (simp add: unat_sub word_le_nat_alt)
next
  assume a: "unat a = unat b + unat c"
  then have le: "b \<le> a" by (simp add: word_le_nat_alt)
  then have "unat (a - b) = unat c" using a by (simp add: unat_sub)
  then show "checked_sub a b = Some c"
    using le by (simp add: checked_sub_def word_unat_eq_iff)
qed

lemma checked_sub_None_iff [machine_simps]:
  "checked_sub a b = None \<longleftrightarrow> unat a < unat b"
  by (simp add: checked_sub_def word_le_nat_alt)

lemma checked_mul_Some_iff [machine_simps]:
  "checked_mul a b = Some c \<longleftrightarrow> unat c = unat a * unat b"
proof
  assume "checked_mul a b = Some c"
  then show "unat c = unat a * unat b"
    by (auto simp: checked_mul_def unat_word_ariths split: if_splits)
next
  assume c: "unat c = unat a * unat b"
  then have "unat a * unat b < 2 ^ LENGTH('a)"
    using unat_lt_size[of c] by simp
  moreover from this c have "c = a * b"
    by (intro word_unat_eq_iff[THEN iffD2]) (simp add: unat_word_ariths)
  ultimately show "checked_mul a b = Some c"
    by (simp add: checked_mul_def)
qed

lemma checked_mul_None_iff [machine_simps]:
  "checked_mul (a :: 'a::len word) b = None \<longleftrightarrow> 2 ^ LENGTH('a) \<le> unat a * unat b"
  by (simp add: checked_mul_def not_less)

lemma unat_saturating_add:
  "unat (saturating_add (a :: 'a::len word) b) = min (unat a + unat b) (2 ^ LENGTH('a) - 1)"
proof (cases "checked_add a b")
  case None
  then have "2 ^ LENGTH('a) \<le> unat a + unat b" by (simp add: checked_add_None_iff)
  moreover have "saturating_add a b = u_max" using None by (simp add: saturating_add_def)
  ultimately show ?thesis by (simp add: unat_u_max)
next
  case (Some c)
  then have c: "unat c = unat a + unat b" by (simp add: checked_add_Some_iff)
  then have "unat a + unat b \<le> 2 ^ LENGTH('a) - 1" using unat_le_u_max[of c] by simp
  with c Some show ?thesis by (simp add: saturating_add_def)
qed

lemma unat_saturating_sub [machine_simps]:
  "unat (saturating_sub a b) = unat a - unat b"
proof (cases "checked_sub a b")
  case None
  then have "unat a < unat b" by (simp add: checked_sub_None_iff)
  moreover have "saturating_sub a b = 0" using None by (simp add: saturating_sub_def)
  ultimately show ?thesis by simp
next
  case (Some c)
  then have "unat a = unat b + unat c" by (simp add: checked_sub_Some_iff)
  with Some show ?thesis by (simp add: saturating_sub_def)
qed

lemma not_u_max_iff: "(a :: 'a::len word) \<noteq> u_max \<longleftrightarrow> a < u_max"
  by (simp add: u_max_def order.not_eq_order_implies_strict less_le)

lemma unat_saturating_add_exact:
  "unat a + unat b < 2 ^ LENGTH('a) \<Longrightarrow> unat (saturating_add (a :: 'a::len word) b) = unat a + unat b"
  by (simp add: unat_saturating_add)

section \<open>Preallocated vectors\<close>

text \<open>
  \<open>Vec::get(i as usize)\<close> and the write through \<open>Vec::get_mut\<close>: out of range the
  read is \<open>None\<close> and the write does nothing, as the \<open>if let Some\<close> of the sources.
\<close>

definition get_idx :: "'a list \<Rightarrow> u32 \<Rightarrow> 'a option" where
  "get_idx xs i = (if unat i < length xs then Some (xs ! unat i) else None)"

definition upd_idx :: "'a list \<Rightarrow> u32 \<Rightarrow> ('a \<Rightarrow> 'a) \<Rightarrow> 'a list" where
  "upd_idx xs i f = (case get_idx xs i of Some v \<Rightarrow> xs[unat i := f v] | None \<Rightarrow> xs)"

lemma length_upd_idx [simp]: "length (upd_idx xs i f) = length xs"
  by (simp add: upd_idx_def split: option.split)

lemma get_upd_idx [vec_simps]:
  "get_idx (upd_idx xs i f) j = (if j = i then map_option f (get_idx xs j) else get_idx xs j)"
  by (auto simp: upd_idx_def get_idx_def nth_list_update word_unat_eq_iff)

lemma get_upd_idx_same [simp]: "get_idx (upd_idx xs i f) i = map_option f (get_idx xs i)"
  by (simp add: vec_simps)

lemma get_upd_idx_other [simp]: "j \<noteq> i \<Longrightarrow> get_idx (upd_idx xs i f) j = get_idx xs j"
  by (simp add: vec_simps)

lemma get_idx_Some_iff: "get_idx xs i = Some v \<longleftrightarrow> unat i < length xs \<and> xs ! unat i = v"
  by (simp add: get_idx_def)

lemma get_idx_None_iff: "get_idx xs i = None \<longleftrightarrow> length xs \<le> unat i"
  by (simp add: get_idx_def not_less)

lemma upd_idx_None [simp]: "get_idx xs i = None \<Longrightarrow> upd_idx xs i f = xs"
  by (simp add: upd_idx_def)

lemma get_idx_replicate:
  "get_idx (replicate n v) i = (if unat i < n then Some v else None)"
  by (simp add: get_idx_def)

section \<open>Results\<close>

text \<open>\<open>Result<T, E>\<close> is \<open>'e + 'a\<close>; \<open>and_then\<close> is the \<open>?\<close> operator on a pure result.\<close>

definition and_then :: "'e + 'a \<Rightarrow> ('a \<Rightarrow> 'e + 'b) \<Rightarrow> 'e + 'b" where
  "and_then r f = (case r of Inl e \<Rightarrow> Inl e | Inr v \<Rightarrow> f v)"

definition ok_or :: "'a option \<Rightarrow> 'e \<Rightarrow> 'e + 'a" where
  "ok_or x e = (case x of None \<Rightarrow> Inl e | Some v \<Rightarrow> Inr v)"

definition is_ok :: "'e + 'a \<Rightarrow> bool" where
  "is_ok r = (case r of Inl _ \<Rightarrow> False | Inr _ \<Rightarrow> True)"

lemma and_then_simps [simp]: "and_then (Inl e) f = Inl e" "and_then (Inr v) f = f v"
  by (simp_all add: and_then_def)

lemma and_then_Inr_iff: "and_then r f = Inr v \<longleftrightarrow> (\<exists>u. r = Inr u \<and> f u = Inr v)"
  by (simp add: and_then_def split: sum.split)

lemma ok_or_simps [simp]: "ok_or None e = Inl e" "ok_or (Some v) e = Inr v"
  by (simp_all add: ok_or_def)

lemma ok_or_Inr_iff [simp]: "ok_or x e = Inr v \<longleftrightarrow> x = Some v"
  by (simp add: ok_or_def split: option.split)

lemma is_ok_simps [simp]: "is_ok (Inl e) = False" "is_ok (Inr v) = True"
  by (simp_all add: is_ok_def)

text \<open>
  Loops over a list: with an early return (\<open>fold_res\<close>), and over a body that may not return
  (\<open>fold_opt\<close>). \<open>somes\<close> is \<open>Iterator::flatten\<close> on options.
\<close>

fun fold_res :: "('a \<Rightarrow> 's \<Rightarrow> 'e + 's) \<Rightarrow> 'a list \<Rightarrow> 's \<Rightarrow> 'e + 's" where
  "fold_res f [] s = Inr s"
| "fold_res f (x # xs) s = and_then (f x s) (fold_res f xs)"

fun fold_opt :: "('a \<Rightarrow> 's \<Rightarrow> 's option) \<Rightarrow> 'a list \<Rightarrow> 's \<Rightarrow> 's option" where
  "fold_opt f [] s = Some s"
| "fold_opt f (x # xs) s = Option.bind (f x s) (fold_opt f xs)"

fun somes :: "'a option list \<Rightarrow> 'a list" where
  "somes [] = []"
| "somes (None # xs) = somes xs"
| "somes (Some x # xs) = x # somes xs"

lemma fold_res_append: "fold_res f (xs @ ys) s = and_then (fold_res f xs s) (fold_res f ys)"
  by (induction xs arbitrary: s) (auto simp: and_then_def split: sum.split)

lemma fold_opt_append: "fold_opt f (xs @ ys) s = Option.bind (fold_opt f xs s) (fold_opt f ys)"
  by (induction xs arbitrary: s) (auto split: Option.bind_split)

text \<open>A loop whose body returns on every state of an invariant returns.\<close>

lemma fold_opt_inv:
  assumes "P s" and "\<And>x s. x \<in> set xs \<Longrightarrow> P s \<Longrightarrow> \<exists>t. f x s = Some t \<and> P t"
  shows "\<exists>t. fold_opt f xs s = Some t \<and> P t"
  using assms
proof (induction xs arbitrary: s)
  case (Cons x xs)
  from Cons.prems(2)[of x s] Cons.prems(1) obtain t where "f x s = Some t" "P t" by auto
  with Cons.IH[of t] Cons.prems(2) show ?case by simp
qed simp

lemma set_somes [simp]: "set (somes xs) = {x. Some x \<in> set xs}"
  by (induction xs rule: somes.induct) auto

lemma somes_map_Some [simp]: "somes (map Some xs) = xs"
  by (induction xs) auto

lemma somes_append [simp]: "somes (xs @ ys) = somes xs @ somes ys"
  by (induction xs rule: somes.induct) auto

lemma somes_replicate_None [simp]: "somes (replicate n None) = []"
  by (induction n) auto

section \<open>Inductive invariants of a transition system\<close>

text \<open>
  The shared contract of the stateful components: initial states, a step relation, and a
  predicate that holds at the start and is kept by every step. The client lemma is that it
  holds in every reachable state.
\<close>

inductive reaches :: "('s \<Rightarrow> bool) \<Rightarrow> ('s \<Rightarrow> 's \<Rightarrow> bool) \<Rightarrow> 's \<Rightarrow> bool"
  for start :: "'s \<Rightarrow> bool" and step :: "'s \<Rightarrow> 's \<Rightarrow> bool" where
  reaches_start: "start s \<Longrightarrow> reaches start step s"
| reaches_step: "reaches start step s \<Longrightarrow> step s t \<Longrightarrow> reaches start step t"

locale inductive_invariant =
  fixes start :: "'s \<Rightarrow> bool"
    and step :: "'s \<Rightarrow> 's \<Rightarrow> bool"
    and inv :: "'s \<Rightarrow> bool"
  assumes inv_start: "start s \<Longrightarrow> inv s"
    and inv_step: "inv s \<Longrightarrow> step s t \<Longrightarrow> inv t"
begin

lemma reachable_inv: "reaches start step s \<Longrightarrow> inv s"
  by (induction rule: reaches.induct) (auto intro: inv_start inv_step)

lemma invariant_along: "step\<^sup>*\<^sup>* s t \<Longrightarrow> inv s \<Longrightarrow> inv t"
  by (induction rule: rtranclp_induct) (auto intro: inv_step)

end

end
