(* ===== verification/Slab.thy ===== *)
theory Slab
  imports Prelude
begin

text \<open>
  The generation-counted slab of \<open>crates/core/src/slab.rs\<close>: a preallocated vector of slots
  threaded by an intrusive free list, with handles that carry the generation they were issued
  against. The well-formedness invariant \<open>slab_wf\<close> describes the free list; the operations are
  characterised through \<open>slab_view\<close>, the occupied slots as a partial map from index to
  generation and value. The locale \<open>handle_store\<close> states what the clients rely on, and is
  interpreted on the slab's own operations.
\<close>

section \<open>Data\<close>

definition NIL :: u32 where
  "NIL = u_max"

record handle =
  h_index :: u32
  h_generation :: u32

datatype slab_full = SlabFull

datatype 'a slot_state = Vacant u32 | Occupied 'a

record 'a slot =
  sl_generation :: u32
  sl_state :: "'a slot_state"

record 'a slab =
  slots :: "'a slot list"
  free_head :: u32
  live :: u32

section \<open>Operations\<close>

text \<open>\<open>None\<close> is the panic of \<open>assert!(capacity < NIL)\<close>.\<close>

definition slab_with_capacity :: "u32 \<Rightarrow> 'a slab option" where
  "slab_with_capacity capacity =
     (if capacity < NIL then
        Some \<lparr> slots = map (\<lambda>index. \<lparr> sl_generation = 0,
                 sl_state = Vacant (case checked_add (word_of_nat index) (1 :: u32) of
                    Some next \<Rightarrow> if next < capacity then next else NIL
                  | None \<Rightarrow> NIL) \<rparr>) [0..<unat capacity],
               free_head = (if capacity = 0 then NIL else 0), live = 0 \<rparr>
      else None)"

definition slab_capacity :: "'a slab \<Rightarrow> u32" where
  "slab_capacity s = (if length (slots s) < 2 ^ 32 then word_of_nat (length (slots s)) else NIL)"

definition slab_has_room :: "'a slab \<Rightarrow> bool" where
  "slab_has_room s \<longleftrightarrow> free_head s \<noteq> NIL"

definition slab_len :: "'a slab \<Rightarrow> u32" where
  "slab_len s = live s"

definition slab_is_empty :: "'a slab \<Rightarrow> bool" where
  "slab_is_empty s \<longleftrightarrow> live s = 0"

definition slab_insert :: "'a slab \<Rightarrow> 'a \<Rightarrow> slab_full + handle \<times> 'a slab" where
  "slab_insert s value =
     (let index = free_head s in
      case get_idx (slots s) index of
        None \<Rightarrow> Inl SlabFull
      | Some slot \<Rightarrow>
          (case sl_state slot of
             Occupied _ \<Rightarrow> Inl SlabFull
           | Vacant next \<Rightarrow>
               Inr (\<lparr> h_index = index, h_generation = sl_generation slot \<rparr>,
                    s\<lparr> slots := upd_idx (slots s) index (sl_state_update (\<lambda>_. Occupied value)),
                       free_head := next,
                       live := saturating_add (live s) 1 \<rparr>)))"

definition slab_resolve :: "'a slab \<Rightarrow> handle \<Rightarrow> 'a slot_state option" where
  "slab_resolve s h =
     (case get_idx (slots s) (h_index h) of
        None \<Rightarrow> None
      | Some slot \<Rightarrow> if sl_generation slot = h_generation h then Some (sl_state slot) else None)"

definition slab_get :: "'a slab \<Rightarrow> handle \<Rightarrow> 'a option" where
  "slab_get s h =
     (case slab_resolve s h of
        None \<Rightarrow> None
      | Some (Occupied value) \<Rightarrow> Some value
      | Some (Vacant _) \<Rightarrow> None)"

text \<open>
  A write through \<open>get_mut\<close>: \<open>f\<close> is applied to the entry the handle names, and nothing
  happens when the handle is stale.
\<close>

definition slab_update :: "'a slab \<Rightarrow> handle \<Rightarrow> ('a \<Rightarrow> 'a) \<Rightarrow> 'a slab" where
  "slab_update s h f =
     (case get_idx (slots s) (h_index h) of
        None \<Rightarrow> s
      | Some slot \<Rightarrow>
          if sl_generation slot \<noteq> h_generation h then s
          else (case sl_state slot of
                  Occupied value \<Rightarrow>
                    s\<lparr> slots := upd_idx (slots s) (h_index h)
                                 (sl_state_update (\<lambda>_. Occupied (f value))) \<rparr>
                | Vacant _ \<Rightarrow> s))"

definition slab_contains :: "'a slab \<Rightarrow> handle \<Rightarrow> bool" where
  "slab_contains s h \<longleftrightarrow> slab_get s h \<noteq> None"

definition slab_remove :: "'a slab \<Rightarrow> handle \<Rightarrow> 'a option \<times> 'a slab" where
  "slab_remove s h =
     (case get_idx (slots s) (h_index h) of
        None \<Rightarrow> (None, s)
      | Some slot \<Rightarrow>
          if sl_generation slot \<noteq> h_generation h then (None, s)
          else (case sl_state slot of
                  Vacant _ \<Rightarrow> (None, s)
                | Occupied value \<Rightarrow>
                    (case checked_add (sl_generation slot) 1 of
                       Some next_generation \<Rightarrow>
                         (Some value,
                          s\<lparr> slots := upd_idx (slots s) (h_index h)
                               (\<lambda>_. \<lparr> sl_generation = next_generation,
                                     sl_state = Vacant (free_head s) \<rparr>),
                             free_head := h_index h,
                             live := saturating_sub (live s) 1 \<rparr>)
                     | None \<Rightarrow>
                         (Some value,
                          s\<lparr> slots := upd_idx (slots s) (h_index h)
                               (sl_state_update (\<lambda>_. Vacant NIL)),
                             live := saturating_sub (live s) 1 \<rparr>))))"

definition slab_handle_at :: "'a slab \<Rightarrow> u32 \<Rightarrow> handle option" where
  "slab_handle_at s index =
     (case get_idx (slots s) index of
        None \<Rightarrow> None
      | Some slot \<Rightarrow>
          (case sl_state slot of
             Occupied _ \<Rightarrow> Some \<lparr> h_index = index, h_generation = sl_generation slot \<rparr>
           | Vacant _ \<Rightarrow> None))"

text \<open>Occupied slots in ascending index order; an index beyond \<open>u32\<close> is skipped.\<close>

definition slab_iter :: "'a slab \<Rightarrow> (handle \<times> 'a) list" where
  "slab_iter s = List.map_filter
     (\<lambda>(index, slot). if index < 2 ^ 32 then
        (case sl_state slot of
           Occupied value \<Rightarrow>
             Some (\<lparr> h_index = word_of_nat index, h_generation = sl_generation slot \<rparr>, value)
         | Vacant _ \<Rightarrow> None)
      else None)
     (enumerate 0 (slots s))"

section \<open>Occupied slots as a map\<close>

definition slab_view :: "'a slab \<Rightarrow> u32 \<Rightarrow> (u32 \<times> 'a) option" where
  "slab_view s i =
     (case get_idx (slots s) i of
        None \<Rightarrow> None
      | Some slot \<Rightarrow>
          (case sl_state slot of
             Occupied v \<Rightarrow> Some (sl_generation slot, v)
           | Vacant _ \<Rightarrow> None))"

lemma slab_get_view:
  "slab_get s h = (case slab_view s (h_index h) of
     None \<Rightarrow> None | Some (g, v) \<Rightarrow> if g = h_generation h then Some v else None)"
  by (simp add: slab_get_def slab_resolve_def slab_view_def split: option.split slot_state.split)

lemma slab_get_Some_iff:
  "slab_get s h = Some v \<longleftrightarrow> slab_view s (h_index h) = Some (h_generation h, v)"
  by (auto simp: slab_get_view split: option.splits if_splits)

lemma slab_handle_at_view:
  "slab_handle_at s i = map_option (\<lambda>(g, _). \<lparr> h_index = i, h_generation = g \<rparr>) (slab_view s i)"
  by (simp add: slab_handle_at_def slab_view_def split: option.split slot_state.split)

lemma slab_handle_at_Some_iff:
  "slab_handle_at s i = Some h \<longleftrightarrow> h_index h = i \<and> (\<exists>v. slab_view s i = Some (h_generation h, v))"
  by (cases h) (auto simp: slab_handle_at_view)

lemma slab_view_update:
  "slab_view (slab_update s h f) =
     (case slab_get s h of
        None \<Rightarrow> slab_view s
      | Some v \<Rightarrow> (slab_view s)(h_index h \<mapsto> (h_generation h, f v)))"
proof (cases "slab_get s h")
  case None
  then have "slab_update s h f = s"
    by (auto simp: slab_update_def slab_get_def slab_resolve_def
        split: option.splits slot_state.splits if_splits)
  with None show ?thesis by simp
next
  case (Some v)
  then obtain slot where "get_idx (slots s) (h_index h) = Some slot"
    and "sl_generation slot = h_generation h" and "sl_state slot = Occupied v"
    by (auto simp: slab_get_def slab_resolve_def split: option.splits slot_state.splits if_splits)
  with Some show ?thesis
    by (auto simp: slab_update_def slab_view_def fun_eq_iff vec_simps)
qed

lemma slab_update_shape [simp]:
  "length (slots (slab_update s h f)) = length (slots s)"
  "free_head (slab_update s h f) = free_head s"
  "live (slab_update s h f) = live s"
  by (simp_all add: slab_update_def split: option.split slot_state.split)

lemma slab_capacity_update [simp]: "slab_capacity (slab_update s h f) = slab_capacity s"
  by (simp add: slab_capacity_def)

lemma slab_get_update:
  "slab_get (slab_update s h f) k = (if k = h then map_option f (slab_get s h) else slab_get s k)"
  by (cases h; cases k) (auto simp: slab_get_view slab_view_update split: option.splits)

section \<open>The free list and well-formedness\<close>

fun free_path :: "'a slot list \<Rightarrow> u32 \<Rightarrow> u32 list \<Rightarrow> bool" where
  "free_path ss i [] \<longleftrightarrow> i = NIL"
| "free_path ss i (x # xs) \<longleftrightarrow> i = x \<and>
     (case get_idx ss x of
        None \<Rightarrow> False
      | Some slot \<Rightarrow> (case sl_state slot of Vacant next \<Rightarrow> free_path ss next xs | Occupied _ \<Rightarrow> False))"

fun free_walk :: "nat \<Rightarrow> 'a slot list \<Rightarrow> u32 \<Rightarrow> u32 list" where
  "free_walk 0 ss i = []"
| "free_walk (Suc n) ss i =
     (case get_idx ss i of
        None \<Rightarrow> []
      | Some slot \<Rightarrow> (case sl_state slot of Vacant next \<Rightarrow> i # free_walk n ss next | Occupied _ \<Rightarrow> []))"

definition free_list :: "'a slab \<Rightarrow> u32 list" where
  "free_list s = free_walk (length (slots s)) (slots s) (free_head s)"

definition vacant_at :: "'a slab \<Rightarrow> u32 \<Rightarrow> bool" where
  "vacant_at s i \<longleftrightarrow> unat i < length (slots s) \<and> slab_view s i = None"

definition generation_at :: "'a slab \<Rightarrow> u32 \<Rightarrow> u32 option" where
  "generation_at s i = map_option sl_generation (get_idx (slots s) i)"

definition slab_wf :: "'a slab \<Rightarrow> bool" where
  "slab_wf s \<longleftrightarrow> length (slots s) < 2 ^ 32 - 1 \<and>
     free_path (slots s) (free_head s) (free_list s) \<and> distinct (free_list s) \<and>
     (\<forall>i. vacant_at s i \<and> i \<notin> set (free_list s) \<longrightarrow> generation_at s i = Some u_max) \<and>
     unat (live s) = card {i. slab_view s i \<noteq> None}"

text \<open>
  A handle is spent once the entry it named has been removed: its slot has moved to a later
  generation, or the slot is retired (vacant, at the last generation, off the free list).
\<close>

definition slab_spent :: "'a slab \<Rightarrow> handle \<Rightarrow> bool" where
  "slab_spent s h \<longleftrightarrow>
     (case generation_at s (h_index h) of
        None \<Rightarrow> False
      | Some g \<Rightarrow> h_generation h < g \<or>
          (h_generation h = g \<and> vacant_at s (h_index h) \<and> h_index h \<notin> set (free_list s)))"

lemma unat_NIL: "unat NIL = 2 ^ 32 - 1"
  by (simp add: NIL_def unat_u_max)

lemma get_idx_NIL: "length xs < 2 ^ 32 \<Longrightarrow> get_idx xs NIL = None"
  by (simp add: get_idx_def unat_NIL)

lemma lt_NIL_iff: "i < NIL \<longleftrightarrow> i \<noteq> NIL"
  by (metis NIL_def not_u_max_iff)

lemma free_walk_path:
  assumes "free_path ss i xs" and "length ss < 2 ^ 32" and "length xs \<le> n"
  shows "free_walk n ss i = xs"
  using assms
proof (induction xs arbitrary: i n)
  case Nil
  then show ?case by (cases n) (simp_all add: get_idx_NIL)
next
  case (Cons x xs)
  then obtain m where "n = Suc m" by (cases n) auto
  with Cons show ?case by (auto split: option.splits slot_state.splits)
qed

lemma free_path_vacant:
  "free_path ss i xs \<Longrightarrow> x \<in> set xs \<Longrightarrow> \<exists>slot n. get_idx ss x = Some slot \<and> sl_state slot = Vacant n"
  by (induction xs arbitrary: i) (auto split: option.splits slot_state.splits)

lemma free_path_frame:
  "free_path ss i xs \<Longrightarrow> (\<And>x. x \<in> set xs \<Longrightarrow> get_idx ss' x = get_idx ss x) \<Longrightarrow> free_path ss' i xs"
  by (induction xs arbitrary: i) (auto split: option.splits slot_state.splits)

lemma distinct_indices_length:
  assumes "distinct xs" and "\<And>x. x \<in> set xs \<Longrightarrow> unat x < n"
  shows "length xs \<le> n"
proof -
  have "inj_on unat (set xs)" by (auto intro!: inj_onI simp: word_unat_eq_iff)
  then have "card (unat ` set xs) = length xs" by (simp add: card_image assms(1) distinct_card)
  moreover have "unat ` set xs \<subseteq> {..<n}" using assms(2) by auto
  ultimately show ?thesis using card_mono[of "{..<n}" "unat ` set xs"] by simp
qed

lemma free_list_eqI:
  assumes "free_path (slots s) (free_head s) xs" and "distinct xs" and "length (slots s) < 2 ^ 32"
  shows "free_list s = xs"
proof -
  have "length xs \<le> length (slots s)"
    using free_path_vacant[OF assms(1)] by (intro distinct_indices_length assms) (force simp: get_idx_Some_iff)
  with assms show ?thesis by (simp add: free_list_def free_walk_path)
qed

lemma slab_wfI:
  assumes "length (slots s) < 2 ^ 32 - 1" and "free_path (slots s) (free_head s) xs" and "distinct xs"
    and "\<And>i. vacant_at s i \<Longrightarrow> i \<notin> set xs \<Longrightarrow> generation_at s i = Some u_max"
    and "unat (live s) = card {i. slab_view s i \<noteq> None}"
  shows "slab_wf s \<and> free_list s = xs"
  using assms free_list_eqI[of s xs] by (simp add: slab_wf_def)

lemma slab_wfD:
  assumes "slab_wf s"
  shows "length (slots s) < 2 ^ 32" and "free_path (slots s) (free_head s) (free_list s)"
    and "distinct (free_list s)"
    and "\<And>i. vacant_at s i \<Longrightarrow> i \<notin> set (free_list s) \<Longrightarrow> generation_at s i = Some u_max"
    and "unat (live s) = card {i. slab_view s i \<noteq> None}"
    and "length (slots s) < 2 ^ 32 - 1"
  using assms by (auto simp: slab_wf_def)

lemma slab_wf_capacity: "slab_wf s \<Longrightarrow> slab_capacity s < NIL"
  using slab_wfD(1,6)[of s] by (simp add: slab_capacity_def word_less_nat_alt unat_NIL unat_word_of_nat)

lemma free_list_head: "slab_wf s \<Longrightarrow> free_head s \<noteq> NIL \<Longrightarrow> \<exists>xs. free_list s = free_head s # xs"
  using slab_wfD(2)[of s] by (cases "free_list s") auto

lemma slab_view_range: "slab_view s i = Some gv \<Longrightarrow> unat i < length (slots s)"
  by (auto simp: slab_view_def get_idx_def split: option.splits if_splits)

lemma occupied_card: "card {i. slab_view s i \<noteq> None} \<le> length (slots s)"
proof -
  have "inj_on unat {i. slab_view s i \<noteq> None}" by (auto intro!: inj_onI simp: word_unat_eq_iff)
  then have "card (unat ` {i. slab_view s i \<noteq> None}) = card {i. slab_view s i \<noteq> None}"
    by (rule card_image)
  moreover have "unat ` {i. slab_view s i \<noteq> None} \<subseteq> {..<length (slots s)}"
    using slab_view_range by fastforce
  ultimately show ?thesis using card_mono[of "{..<length (slots s)}" "unat ` {i. slab_view s i \<noteq> None}"]
    by simp
qed

lemma slab_view_NIL: "slab_wf s \<Longrightarrow> slab_view s NIL = None"
  using slab_wfD(1)[of s] by (simp add: slab_view_def get_idx_NIL)

section \<open>Every operation keeps the slab well formed\<close>

lemma slab_with_capacity_wf:
  assumes "slab_with_capacity c = Some s"
  shows "slab_wf s \<and> slab_view s = (\<lambda>_. None) \<and> length (slots s) = unat c"
proof -
  from assms have c: "c < NIL" and ss: "length (slots s) = unat c"
    and at: "\<And>k. k < unat c \<Longrightarrow> slots s ! k = \<lparr>sl_generation = 0,
      sl_state = Vacant (if Suc k < unat c then word_of_nat (Suc k) else NIL)\<rparr>"
    and hd: "free_head s = (if c = 0 then NIL else 0)" and lv: "live s = 0"
  proof -
    from assms show "c < NIL" and "length (slots s) = unat c"
      and "free_head s = (if c = 0 then NIL else 0)" and "live s = 0"
      by (auto simp: slab_with_capacity_def split: if_splits)
    fix k assume k: "k < unat c"
    then have small: "unat (word_of_nat k :: u32) = k"
      using unat_lt_size[of c] by (intro unat_word_of_nat) simp
    have "Suc k < 2 ^ 32" using k \<open>c < NIL\<close> by (simp add: word_less_nat_alt unat_NIL)
    then have suc: "unat (word_of_nat (Suc k) :: u32) = Suc k" by (intro unat_word_of_nat) simp
    have "checked_add (word_of_nat k) (1 :: u32) = Some (word_of_nat (Suc k))"
      using small suc by (simp add: checked_add_Some_iff del: of_nat_Suc)
    then show "slots s ! k = \<lparr>sl_generation = 0,
      sl_state = Vacant (if Suc k < unat c then word_of_nat (Suc k) else NIL)\<rparr>"
      using assms k suc by (auto simp: slab_with_capacity_def word_less_nat_alt simp del: of_nat_Suc split: if_splits)
  qed
  have len: "length (slots s) < 2 ^ 32 - 1" using ss c by (simp add: word_less_nat_alt unat_NIL)
  have view: "slab_view s = (\<lambda>_. None)"
    by (rule ext) (simp add: slab_view_def get_idx_def at ss)
  have path: "free_path (slots s) (if k < unat c then word_of_nat k else NIL)
      (map word_of_nat [k..<unat c])" for k
  proof (induction "unat c - k" arbitrary: k)
    case 0
    then show ?case by simp
  next
    case (Suc d)
    then have k: "k < unat c" by simp
    then have small: "unat (word_of_nat k :: u32) = k"
      using unat_lt_size[of c] by (intro unat_word_of_nat) simp
    have "get_idx (slots s) (word_of_nat k) = Some (slots s ! k)"
      using k small ss by (simp add: get_idx_def)
    moreover have "free_path (slots s) (if Suc k < unat c then word_of_nat (Suc k) else NIL)
        (map word_of_nat [Suc k..<unat c])"
      using Suc.hyps by (intro Suc.hyps(1)) simp
    ultimately show ?case using k by (simp add: at upt_conv_Cons del: of_nat_Suc)
  qed
  have fl: "free_path (slots s) (free_head s) (map word_of_nat [0..<unat c])"
    using path[of 0] by (auto simp: hd unat_eq_0 split: if_splits)
  have "distinct (map (word_of_nat :: nat \<Rightarrow> u32) [0..<unat c])"
    using unat_lt_size[of c]
    by (auto simp: distinct_map intro!: inj_onI dest!: arg_cong[where f = unat] simp: unat_word_of_nat)
  moreover have "i \<in> set (map (word_of_nat :: nat \<Rightarrow> u32) [0..<unat c])" if "vacant_at s i" for i
    using that by (auto simp: vacant_at_def ss image_iff intro!: bexI[of _ "unat i"])
  ultimately have "slab_wf s"
    using slab_wfI[OF len fl] by (auto simp: view lv)
  with view ss show ?thesis by simp
qed

lemma slab_insert_None:
  "slab_wf s \<Longrightarrow> slab_insert s v = Inl e \<longleftrightarrow> \<not> slab_has_room s"
proof -
  assume wf: "slab_wf s"
  show ?thesis
  proof (cases "free_head s = NIL")
    case True
    then show ?thesis
      using get_idx_NIL[OF slab_wfD(1)[OF wf]]
      by (cases e) (simp add: slab_insert_def slab_has_room_def)
  next
    case False
    then obtain xs where "free_list s = free_head s # xs" using free_list_head[OF wf] by blast
    with slab_wfD(2)[OF wf] False show ?thesis
      by (auto simp: slab_insert_def slab_has_room_def Let_def split: option.splits slot_state.splits)
  qed
qed

lemma slab_insert_cases:
  assumes wf: "slab_wf s" and ins: "slab_insert s v = Inr (h, s')"
  obtains slot xs where "h_index h = free_head s" and "get_idx (slots s) (h_index h) = Some slot"
    and "h_generation h = sl_generation slot" and "free_list s = h_index h # xs"
    and "sl_state slot = Vacant (free_head s')" and "free_path (slots s) (free_head s') xs"
    and "slots s' = upd_idx (slots s) (h_index h) (sl_state_update (\<lambda>_. Occupied v))"
    and "live s' = saturating_add (live s) 1"
proof -
  from ins obtain slot nxt where sl: "get_idx (slots s) (free_head s) = Some slot"
    and st: "sl_state slot = Vacant nxt" and h: "h = \<lparr>h_index = free_head s, h_generation = sl_generation slot\<rparr>"
    and s': "s' = s\<lparr>slots := upd_idx (slots s) (free_head s) (sl_state_update (\<lambda>_. Occupied v)),
      free_head := nxt, live := saturating_add (live s) 1\<rparr>"
    by (auto simp: slab_insert_def Let_def split: option.splits slot_state.splits)
  from sl have "free_head s \<noteq> NIL" using get_idx_NIL[OF slab_wfD(1)[OF wf]] by auto
  then obtain xs where fl: "free_list s = free_head s # xs" using free_list_head[OF wf] by blast
  with slab_wfD(2)[OF wf] sl st have "free_path (slots s) nxt xs" by simp
  with sl st h s' fl show ?thesis by (intro that) auto
qed

lemma slab_insert_spec:
  assumes wf: "slab_wf s" and ins: "slab_insert s v = Inr (h, s')"
  shows "slab_view s (h_index h) = None"
    and "slab_view s' = (slab_view s)(h_index h \<mapsto> (h_generation h, v))"
    and "length (slots s') = length (slots s)" and "slab_wf s'"
    and "free_list s = h_index h # free_list s'"
    and "generation_at s' = generation_at s"
    and "generation_at s (h_index h) = Some (h_generation h)"
proof -
  obtain slot xs where idx: "h_index h = free_head s" "get_idx (slots s) (h_index h) = Some slot"
    "h_generation h = sl_generation slot" and fl: "free_list s = h_index h # xs"
    and st: "sl_state slot = Vacant (free_head s')" and path: "free_path (slots s) (free_head s') xs"
    and ss: "slots s' = upd_idx (slots s) (h_index h) (sl_state_update (\<lambda>_. Occupied v))"
    and lv: "live s' = saturating_add (live s) 1"
    by (rule slab_insert_cases[OF wf ins])
  show none: "slab_view s (h_index h) = None" using idx st by (simp add: slab_view_def)
  show view: "slab_view s' = (slab_view s)(h_index h \<mapsto> (h_generation h, v))"
    using idx by (auto simp: slab_view_def fun_eq_iff ss vec_simps)
  show len: "length (slots s') = length (slots s)" by (simp add: ss)
  show gen: "generation_at s' = generation_at s"
    by (rule ext) (auto simp: generation_at_def ss vec_simps option.map_comp o_def)
  show "generation_at s (h_index h) = Some (h_generation h)" using idx by (simp add: generation_at_def)
  from fl slab_wfD(3)[OF wf] have d: "distinct xs" and hx: "h_index h \<notin> set xs" by auto
  have path': "free_path (slots s') (free_head s') xs"
    using path by (rule free_path_frame) (use hx in \<open>auto simp: ss vec_simps\<close>)
  have occ: "{i. slab_view s' i \<noteq> None} = insert (h_index h) {i. slab_view s i \<noteq> None}"
    by (auto simp: view)
  have "unat (live s') = card {i. slab_view s' i \<noteq> None}"
  proof -
    have "unat (live s) + 1 = card {i. slab_view s' i \<noteq> None}"
      unfolding occ slab_wfD(5)[OF wf] using none by simp
    then have "unat (live s) + 1 < 2 ^ 32"
      using occupied_card[of s'] slab_wfD(1)[OF wf] len by linarith
    then have "unat (live s') = Suc (unat (live s))"
      by (simp add: lv unat_saturating_add_exact)
    then show ?thesis unfolding occ slab_wfD(5)[OF wf] using none by simp
  qed
  moreover have "generation_at s' i = Some u_max" if "vacant_at s' i" "i \<notin> set xs" for i
  proof -
    have "i \<noteq> h_index h" and "vacant_at s i" using that by (auto simp: vacant_at_def view len split: if_splits)
    then show ?thesis using that slab_wfD(4)[OF wf, of i] by (simp add: fl gen)
  qed
  ultimately have "slab_wf s' \<and> free_list s' = xs"
    using slab_wfD(6)[OF wf] len path' d by (intro slab_wfI) auto
  then show "slab_wf s'" and "free_list s = h_index h # free_list s'" using fl by auto
qed

lemma slab_update_wf:
  assumes wf: "slab_wf s"
  shows "slab_wf (slab_update s h f)" and "free_list (slab_update s h f) = free_list s"
    and "generation_at (slab_update s h f) = generation_at s"
proof -
  have gen: "generation_at (slab_update s h f) = generation_at s"
    by (rule ext) (auto simp: generation_at_def slab_update_def vec_simps option.map_comp o_def
        split: option.split slot_state.split)
  have dom: "slab_view (slab_update s h f) i = None \<longleftrightarrow> slab_view s i = None" for i
    by (auto simp: slab_view_update slab_get_Some_iff split: option.split)
  have "get_idx (slots (slab_update s h f)) x = get_idx (slots s) x" if "slab_view s x = None" for x
    using that by (auto simp: slab_update_def slab_view_def vec_simps split: option.splits slot_state.splits)
  moreover have "slab_view s x = None" if "x \<in> set (free_list s)" for x
    using free_path_vacant[OF slab_wfD(2)[OF wf] that] by (auto simp: slab_view_def)
  ultimately have "free_path (slots (slab_update s h f)) (free_head (slab_update s h f)) (free_list s)"
    using slab_wfD(2)[OF wf] by (simp add: free_path_frame)
  then have "slab_wf (slab_update s h f) \<and> free_list (slab_update s h f) = free_list s"
    using slab_wfD[OF wf] by (intro slab_wfI) (auto simp: gen dom vacant_at_def)
  then show "slab_wf (slab_update s h f)" and "free_list (slab_update s h f) = free_list s" by auto
  show "generation_at (slab_update s h f) = generation_at s" by (rule gen)
qed

lemma slab_remove_None:
  "slab_remove s h = (None, s') \<Longrightarrow> s' = s \<and> slab_get s h = None"
  by (auto simp: slab_remove_def slab_get_def slab_resolve_def split: option.splits slot_state.splits if_splits)

lemma slab_remove_get: "fst (slab_remove s h) = slab_get s h"
  by (auto simp: slab_remove_def slab_get_def slab_resolve_def split: option.splits slot_state.splits)

lemma slab_remove_cases:
  assumes "slab_remove s h = (Some v, s')"
  obtains slot where "get_idx (slots s) (h_index h) = Some slot" and "sl_generation slot = h_generation h"
    and "sl_state slot = Occupied v" and "live s' = saturating_sub (live s) 1"
    and "length (slots s') = length (slots s)"
    and "\<And>i. i \<noteq> h_index h \<Longrightarrow> get_idx (slots s') i = get_idx (slots s) i"
    and "h_generation h = u_max \<and> free_head s' = free_head s \<and>
           get_idx (slots s') (h_index h) = Some \<lparr>sl_generation = u_max, sl_state = Vacant NIL\<rparr> \<or>
         h_generation h < u_max \<and> free_head s' = h_index h \<and>
           (\<exists>g. h_generation h < g \<and> get_idx (slots s') (h_index h)
              = Some \<lparr>sl_generation = g, sl_state = Vacant (free_head s)\<rparr>)"
proof -
  from assms obtain slot where sl: "get_idx (slots s) (h_index h) = Some slot"
    "sl_generation slot = h_generation h" "sl_state slot = Occupied v"
    by (auto simp: slab_remove_def split: option.splits slot_state.splits if_splits)
  show ?thesis
  proof (cases "checked_add (h_generation h) 1")
    case None
    then have "h_generation h = u_max"
      using not_u_max_iff[of "h_generation h"] unat_lt_size[of "h_generation h"]
      by (auto simp: checked_add_None_iff word_less_nat_alt unat_u_max)
    with None assms sl show ?thesis
      by (intro that[OF sl]) (auto simp: slab_remove_def)
  next
    case (Some g)
    then have "unat g = Suc (unat (h_generation h))" by (simp add: checked_add_Some_iff)
    then have "h_generation h < g" and "h_generation h < u_max"
      using unat_lt_size[of g] by (auto simp: word_less_nat_alt unat_u_max)
    with Some assms sl show ?thesis
      by (intro that[OF sl]) (auto simp: slab_remove_def)
  qed
qed

lemma slab_view_remove:
  "slab_view (snd (slab_remove s h)) =
     (if slab_get s h = None then slab_view s else (slab_view s)(h_index h := None))"
proof (cases "slab_get s h")
  case None
  then show ?thesis
    using slab_remove_get[of s h] slab_remove_None[of s h "snd (slab_remove s h)"]
    by (cases "slab_remove s h") simp
next
  case (Some v)
  then obtain s' where rem: "slab_remove s h = (Some v, s')"
    using slab_remove_get[of s h] by (cases "slab_remove s h") auto
  have "slab_view s' i = ((slab_view s)(h_index h := None)) i" for i
    by (rule slab_remove_cases[OF rem]) (auto simp: slab_view_def)
  with rem Some show ?thesis by (simp add: fun_eq_iff)
qed

lemma slab_remove_spec:
  assumes wf: "slab_wf s" and rem: "slab_remove s h = (Some v, s')"
  shows "slab_view s (h_index h) = Some (h_generation h, v)"
    and "slab_view s' = (slab_view s)(h_index h := None)"
    and "length (slots s') = length (slots s)" and "slab_wf s'"
    and "free_list s' = (if h_generation h = u_max then free_list s else h_index h # free_list s)"
    and "generation_at s' = (generation_at s)(h_index h := generation_at s' (h_index h))"
    and "\<exists>g. generation_at s' (h_index h) = Some g \<and>
           (if h_generation h = u_max then g = u_max else h_generation h < g)"
proof -
  obtain slot where sl: "get_idx (slots s) (h_index h) = Some slot" "sl_generation slot = h_generation h"
    "sl_state slot = Occupied v" and lv: "live s' = saturating_sub (live s) 1"
    and len: "length (slots s') = length (slots s)"
    and frame: "\<And>i. i \<noteq> h_index h \<Longrightarrow> get_idx (slots s') i = get_idx (slots s) i"
    and at: "h_generation h = u_max \<and> free_head s' = free_head s \<and>
           get_idx (slots s') (h_index h) = Some \<lparr>sl_generation = u_max, sl_state = Vacant NIL\<rparr> \<or>
         h_generation h < u_max \<and> free_head s' = h_index h \<and>
           (\<exists>g. h_generation h < g \<and> get_idx (slots s') (h_index h)
              = Some \<lparr>sl_generation = g, sl_state = Vacant (free_head s)\<rparr>)"
    by (rule slab_remove_cases[OF rem]) blast
  show here: "slab_view s (h_index h) = Some (h_generation h, v)" using sl by (simp add: slab_view_def)
  show view: "slab_view s' = (slab_view s)(h_index h := None)"
    using frame at by (auto simp: slab_view_def fun_eq_iff)
  show "length (slots s') = length (slots s)" by (rule len)
  show gen: "generation_at s' = (generation_at s)(h_index h := generation_at s' (h_index h))"
    using frame by (auto simp: generation_at_def fun_eq_iff)
  show "\<exists>g. generation_at s' (h_index h) = Some g \<and>
      (if h_generation h = u_max then g = u_max else h_generation h < g)"
    using at by (auto simp: generation_at_def)
  have hx: "h_index h \<notin> set (free_list s)"
    using free_path_vacant[OF slab_wfD(2)[OF wf]] sl by fastforce
  define fl where "fl = (if h_generation h = u_max then free_list s else h_index h # free_list s)"
  have "free_path (slots s') (free_head s) (free_list s)"
    using slab_wfD(2)[OF wf] by (rule free_path_frame) (metis hx frame)
  then have path: "free_path (slots s') (free_head s') fl"
    using at by (auto simp: fl_def)
  have "{i. slab_view s' i \<noteq> None} = {i. slab_view s i \<noteq> None} - {h_index h}"
    by (auto simp: view)
  moreover have "h_index h \<in> {i. slab_view s i \<noteq> None}" using here by simp
  ultimately have "card {i. slab_view s' i \<noteq> None} = card {i. slab_view s i \<noteq> None} - 1"
    by (simp only: card_Diff_singleton)
  then have "unat (live s') = card {i. slab_view s' i \<noteq> None}"
    by (simp only: lv unat_saturating_sub slab_wfD(5)[OF wf] unsigned_1)
  moreover have "generation_at s' i = Some u_max" if "vacant_at s' i" "i \<notin> set fl" for i
  proof (cases "i = h_index h")
    case True
    with that at show ?thesis by (auto simp: fl_def generation_at_def split: if_splits)
  next
    case False
    with that have "vacant_at s i" and "i \<notin> set (free_list s)"
      by (auto simp: vacant_at_def view len fl_def split: if_splits)
    then have "generation_at s i = Some u_max" by (rule slab_wfD(4)[OF wf])
    with False show ?thesis by (simp add: generation_at_def frame)
  qed
  ultimately have "slab_wf s' \<and> free_list s' = fl"
    using slab_wfD(3,6)[OF wf] len path hx by (intro slab_wfI) (auto simp: fl_def)
  then show "slab_wf s'" and "free_list s' = (if h_generation h = u_max then free_list s else h_index h # free_list s)"
    by (auto simp: fl_def)
qed

section \<open>Spent handles never resolve again\<close>

lemma spent_get: "slab_spent s h \<Longrightarrow> slab_get s h = None"
  by (auto simp: slab_spent_def slab_get_view slab_view_def generation_at_def vacant_at_def
      split: option.splits slot_state.splits if_splits)

lemma spent_after_remove:
  assumes "slab_wf s" and "slab_remove s h = (Some v, s')"
  shows "slab_spent s' h"
proof -
  note spec = slab_remove_spec[OF assms]
  from spec(7) obtain g where g: "generation_at s' (h_index h) = Some g"
    "if h_generation h = u_max then g = u_max else h_generation h < g" by blast
  have "unat (h_index h) < length (slots s')" using slab_view_range[OF spec(1)] spec(3) by simp
  then have "vacant_at s' (h_index h)" by (simp add: vacant_at_def spec(2))
  moreover have "h_index h \<notin> set (free_list s)"
    using free_path_vacant[OF slab_wfD(2)[OF assms(1)]] spec(1) by (fastforce simp: slab_view_def)
  ultimately show ?thesis using g spec(5) by (auto simp: slab_spent_def split: if_splits)
qed

lemma spent_insert:
  assumes "slab_wf s" and "slab_insert s v = Inr (k, s')" and "slab_spent s h"
  shows "slab_spent s' h"
  using assms(3) slab_insert_spec[OF assms(1,2)]
  by (auto simp: slab_spent_def vacant_at_def split: option.splits)

lemma fresh_not_spent:
  assumes "slab_wf s" and "slab_insert s v = Inr (k, s')"
  shows "\<not> slab_spent s k"
  using slab_insert_spec[OF assms] by (auto simp: slab_spent_def)

lemma spent_update:
  assumes "slab_wf s" and "slab_spent s h"
  shows "slab_spent (slab_update s k f) h"
  using assms(2) slab_update_wf[OF assms(1)]
  by (auto simp: slab_spent_def vacant_at_def slab_view_update slab_get_Some_iff split: option.splits)

lemma spent_remove:
  assumes wf: "slab_wf s" and rem: "slab_remove s k = (Some v, s')" and sp: "slab_spent s h"
  shows "slab_spent s' h"
proof (cases "h_index h = h_index k")
  case True
  note spec = slab_remove_spec[OF wf rem]
  from spec(1) have "generation_at s (h_index k) = Some (h_generation k)"
    by (auto simp: slab_view_def generation_at_def split: option.splits slot_state.splits)
  moreover have "\<not> vacant_at s (h_index k)" using spec(1) by (simp add: vacant_at_def)
  ultimately have "h_generation h < h_generation k" using sp True by (auto simp: slab_spent_def)
  with spec(7) obtain g where "generation_at s' (h_index h) = Some g" and "h_generation h < g"
    using True by (auto split: if_splits)
  then show ?thesis by (simp add: slab_spent_def)
next
  case False
  note spec = slab_remove_spec[OF wf rem]
  have "generation_at s' (h_index h) = generation_at s (h_index h)"
    using False spec(6) by (metis fun_upd_other)
  with False sp spec(2,3,5) show ?thesis
    by (auto simp: slab_spent_def vacant_at_def split: option.splits)
qed

section \<open>The interface of a handle store\<close>

locale handle_store =
  fixes get :: "'s \<Rightarrow> handle \<Rightarrow> 'a option"
    and ins :: "'s \<Rightarrow> 'a \<Rightarrow> 'e + handle \<times> 's"
    and upd :: "'s \<Rightarrow> handle \<Rightarrow> ('a \<Rightarrow> 'a) \<Rightarrow> 's"
    and rem :: "'s \<Rightarrow> handle \<Rightarrow> 'a option \<times> 's"
    and inv :: "'s \<Rightarrow> bool"
    and spent :: "'s \<Rightarrow> handle \<Rightarrow> bool"
  assumes get_ins: "inv s \<Longrightarrow> ins s v = Inr (h, s') \<Longrightarrow> get s' = (get s)(h \<mapsto> v)"
    and ins_fresh: "inv s \<Longrightarrow> ins s v = Inr (h, s') \<Longrightarrow> get s h = None \<and> \<not> spent s h"
    and get_upd: "get (upd s k f) = (get s)(k := map_option f (get s k))"
    and get_rem: "inv s \<Longrightarrow> rem s k = (Some v, s') \<Longrightarrow> get s k = Some v \<and> get s' = (get s)(k := None)"
    and rem_stale: "rem s k = (None, s') \<Longrightarrow> s' = s \<and> get s k = None"
    and inv_ins: "inv s \<Longrightarrow> ins s v = Inr (h, s') \<Longrightarrow> inv s'"
    and inv_upd: "inv s \<Longrightarrow> inv (upd s k f)"
    and inv_rem: "inv s \<Longrightarrow> rem s k = (Some v, s') \<Longrightarrow> inv s'"
    and spent_rem: "inv s \<Longrightarrow> rem s k = (Some v, s') \<Longrightarrow> spent s' k"
    and spent_stale: "spent s h \<Longrightarrow> get s h = None"
    and spent_ins_mono: "inv s \<Longrightarrow> ins s v = Inr (k, s') \<Longrightarrow> spent s h \<Longrightarrow> spent s' h"
    and spent_upd_mono: "inv s \<Longrightarrow> spent s h \<Longrightarrow> spent (upd s k f) h"
    and spent_rem_mono: "inv s \<Longrightarrow> rem s k = (Some v, s') \<Longrightarrow> spent s h \<Longrightarrow> spent s' h"
begin

lemma ins_keeps:
  assumes "inv s" and "ins s v = Inr (h, s')" and "get s k = Some w"
  shows "k \<noteq> h" and "get s' k = Some w"
  using get_ins[OF assms(1,2)] ins_fresh[OF assms(1,2)] assms(3) by auto

lemma rem_keeps:
  assumes "inv s" and "rem s k = (r, s')" and "h \<noteq> k"
  shows "get s' h = get s h"
  using assms get_rem rem_stale by (cases r) (auto, metis fun_upd_other)

text \<open>A spent handle stays spent, and the store stays well formed, under each operation.\<close>

lemma spent_kept_ins: "inv s \<and> spent s h \<Longrightarrow> ins s v = Inr (k, s') \<Longrightarrow> inv s' \<and> spent s' h"
  using inv_ins spent_ins_mono by blast

lemma spent_kept_upd: "inv s \<and> spent s h \<Longrightarrow> inv (upd s k f) \<and> spent (upd s k f) h"
  using inv_upd spent_upd_mono by blast

lemma spent_kept_rem: "inv s \<and> spent s h \<Longrightarrow> rem s k = (r, s') \<Longrightarrow> inv s' \<and> spent s' h"
  using inv_rem spent_rem_mono rem_stale by (cases r) blast+

end

lemma slab_get_ins:
  assumes "slab_wf s" and "slab_insert s v = Inr (h, s')"
  shows "slab_get s' = (slab_get s)(h \<mapsto> v)"
proof
  fix k
  show "slab_get s' k = ((slab_get s)(h \<mapsto> v)) k"
    using slab_insert_spec(1,2)[OF assms] by (cases k; cases h) (auto simp: slab_get_view)
qed

lemma slab_get_rem:
  assumes "slab_wf s" and "slab_remove s h = (Some v, s')"
  shows "slab_get s h = Some v \<and> slab_get s' = (slab_get s)(h := None)"
proof
  show "slab_get s h = Some v" using slab_remove_get[of s h] assms(2) by simp
  show "slab_get s' = (slab_get s)(h := None)"
  proof
    fix k
    show "slab_get s' k = ((slab_get s)(h := None)) k"
      using slab_remove_spec(1,2)[OF assms] by (cases k; cases h) (auto simp: slab_get_view)
  qed
qed

interpretation slab_store:
  handle_store slab_get slab_insert slab_update slab_remove slab_wf slab_spent
proof unfold_locales
  fix s :: "'a slab" and v h s'
  assume "slab_wf s" and "slab_insert s v = Inr (h, s')"
  from slab_insert_spec(1)[OF this] fresh_not_spent[OF this]
  show "slab_get s h = None \<and> \<not> slab_spent s h" by (simp add: slab_get_view)
next
  fix s :: "'a slab" and k f
  show "slab_get (slab_update s k f) = (slab_get s)(k := map_option f (slab_get s k))"
    by (auto simp: slab_get_update fun_eq_iff)
qed (auto intro: slab_get_ins slab_get_rem[THEN conjunct1] slab_get_rem[THEN conjunct2] slab_insert_spec(4) slab_update_wf(1) slab_remove_spec(4)
  spent_after_remove spent_get spent_insert spent_update spent_remove dest: slab_remove_None)

text \<open>One operation of a client: a successful insert, a write, or a removal.\<close>

inductive slab_step :: "'a slab \<Rightarrow> 'a slab \<Rightarrow> bool" where
  step_insert: "slab_insert s v = Inr (h, s') \<Longrightarrow> slab_step s s'"
| step_update: "slab_step s (slab_update s k f)"
| step_remove: "slab_remove s k = (r, s') \<Longrightarrow> slab_step s s'"

inductive_cases slab_stepE: "slab_step s t"

interpretation spent_along:
  inductive_invariant "\<lambda>s. slab_wf s \<and> slab_spent s h" slab_step "\<lambda>s. slab_wf s \<and> slab_spent s h" for h
proof unfold_locales
  fix h and s t :: "'a slab"
  assume inv: "slab_wf s \<and> slab_spent s h" and "slab_step s t"
  from this(2) show "slab_wf t \<and> slab_spent t h"
  proof (rule slab_stepE)
    fix v k assume "slab_insert s v = Inr (k, t)"
    with inv show ?thesis by (rule slab_store.spent_kept_ins)
  next
    fix k f assume "t = slab_update s k f"
    with slab_store.spent_kept_upd[OF inv] show ?thesis by simp
  next
    fix k r assume "slab_remove s k = (r, t)"
    with inv show ?thesis by (rule slab_store.spent_kept_rem)
  qed
qed simp

lemma removed_stays_spent:
  assumes "slab_wf s" and "slab_remove s h = (Some v, s')" and "slab_step\<^sup>*\<^sup>* s' t"
  shows "slab_spent t h"
  using spent_along.invariant_along[OF assms(3), of h] slab_remove_spec(4)[OF assms(1,2)]
    spent_after_remove[OF assms(1,2)] by blast

section \<open>Iteration\<close>

lemma distinct_keys_map_filter:
  "distinct xs \<Longrightarrow> (\<And>x x' y y'. x \<in> set xs \<Longrightarrow> x' \<in> set xs \<Longrightarrow> f x = Some y \<Longrightarrow> f x' = Some y' \<Longrightarrow> fst y = fst y' \<Longrightarrow> x = x') \<Longrightarrow>
     distinct (map fst (List.map_filter f xs))"
proof (induction xs)
  case (Cons x xs)
  have IH: "distinct (map fst (List.map_filter f xs))"
    by (rule Cons.IH) (use Cons.prems in auto)
  show ?case
  proof (cases "f x")
    case None
    then show ?thesis using IH by (simp add: List.map_filter_simps)
  next
    case (Some y)
    have "fst y \<notin> set (map fst (List.map_filter f xs))"
    proof
      assume "fst y \<in> set (map fst (List.map_filter f xs))"
      then obtain x' y' where "x' \<in> set xs" "f x' = Some y'" "fst y' = fst y" by (auto simp: map_filter_def)
      with Cons.prems(2)[of x x' y y'] Some Cons.prems(1) show False by auto
    qed
    then show ?thesis using IH Some by (simp add: List.map_filter_simps)
  qed
qed (simp add: List.map_filter_simps)

lemma distinct_slab_iter: "distinct (map fst (slab_iter s))"
  unfolding slab_iter_def
proof (rule distinct_keys_map_filter)
  show "distinct (enumerate 0 (slots s))" by (simp add: distinct_enumerate)
  fix x x' y y'
  assume "x \<in> set (enumerate 0 (slots s))" "x' \<in> set (enumerate 0 (slots s))"
    "(case x of (index, slot) \<Rightarrow> if index < 2 ^ 32 then (case sl_state slot of
           Occupied value \<Rightarrow> Some (\<lparr> h_index = word_of_nat index, h_generation = sl_generation slot \<rparr>, value)
         | Vacant _ \<Rightarrow> None) else None) = Some y"
    "(case x' of (index, slot) \<Rightarrow> if index < 2 ^ 32 then (case sl_state slot of
           Occupied value \<Rightarrow> Some (\<lparr> h_index = word_of_nat index, h_generation = sl_generation slot \<rparr>, value)
         | Vacant _ \<Rightarrow> None) else None) = Some y'" "fst y = fst y'"
  then have "(word_of_nat (fst x) :: u32) = word_of_nat (fst x')" "fst x < 2 ^ 32" "fst x' < 2 ^ 32"
    "snd x = slots s ! fst x" "snd x' = slots s ! fst x'"
    by (auto split: prod.splits if_splits slot_state.splits simp: in_set_enumerate_eq)
  then show "x = x'" using unat_word_of_nat[where 'a = 32, of "fst x"] unat_word_of_nat[where 'a = 32, of "fst x'"]
    by (cases x; cases x') simp
qed

lemma set_slab_iter:
  assumes "slab_wf s"
  shows "set (slab_iter s) = {(h, v). slab_get s h = Some v}"
proof -
  have len: "length (slots s) < 2 ^ 32" using slab_wfD(1)[OF assms] .
  have "(h, v) \<in> set (slab_iter s) \<longleftrightarrow> slab_get s h = Some v" for h v
  proof
    assume "(h, v) \<in> set (slab_iter s)"
    then obtain k slot where k: "k < length (slots s)" "slots s ! k = slot" "sl_state slot = Occupied v"
      and h: "h = \<lparr>h_index = word_of_nat k, h_generation = sl_generation slot\<rparr>"
      by (auto simp: slab_iter_def map_filter_def in_set_enumerate_eq split: slot_state.splits if_splits)
    moreover have "unat (word_of_nat k :: u32) = k" using k(1) len by (intro unat_word_of_nat) simp
    ultimately show "slab_get s h = Some v" by (simp add: slab_get_Some_iff slab_view_def get_idx_def)
  next
    assume "slab_get s h = Some v"
    then obtain slot where "unat (h_index h) < length (slots s)" "slots s ! unat (h_index h) = slot"
      "sl_generation slot = h_generation h" "sl_state slot = Occupied v"
      by (auto simp: slab_get_def slab_resolve_def get_idx_def split: option.splits slot_state.splits if_splits)
    then show "(h, v) \<in> set (slab_iter s)"
      using len by (cases h) (force simp: slab_iter_def map_filter_def in_set_enumerate_eq
          intro!: image_eqI[of _ _ "(unat (h_index h), slots s ! unat (h_index h))"])
  qed
  then show ?thesis by auto
qed

section \<open>Properties\<close>

text \<open>
  C21. A handle whose entry was removed never resolves again: after the removal, no sequence of
  inserts, writes and removals on the slab, however often the slot is reused, makes the old handle
  name an entry (including the slot whose generation counter is exhausted, which is retired).
\<close>

theorem removed_handle_never_resolves:
  assumes "slab_wf s" and "slab_remove s h = (Some v, s')" and "slab_step\<^sup>*\<^sup>* s' t"
  shows "slab_get t h = None"
  using removed_stays_spent[OF assms] by (rule spent_get)

text \<open>A one-slot slab, its entry removed, and the slot taken again.\<close>

definition reuse_example :: "(handle \<times> u64 slab \<times> u64 slab \<times> u64 slab \<times> handle) option" where
  "reuse_example = do {
     s0 \<leftarrow> slab_with_capacity 1;
     (h, s1) \<leftarrow> (case slab_insert s0 7 of Inl _ \<Rightarrow> None | Inr r \<Rightarrow> Some r);
     let s2 = snd (slab_remove s1 h);
     (k, s3) \<leftarrow> (case slab_insert s2 9 of Inl _ \<Rightarrow> None | Inr r \<Rightarrow> Some r);
     Some (h, s1, s2, s3, k) }"

theorem removed_handle_never_resolves_witness:
  "\<exists>h s1 s2 s3 k. reuse_example = Some (h, s1, s2, s3, k) \<and> slab_get s3 h = None \<and>
     slab_get s3 k = Some 9 \<and> h_index k = h_index h"
proof -
  define s0 :: "u64 slab" where "s0 = the (slab_with_capacity 1)"
  define s1 where "s1 = snd (projr (slab_insert s0 7))"
  define h where "h = fst (projr (slab_insert s0 7))"
  define s2 where "s2 = snd (slab_remove s1 h)"
  define s3 where "s3 = snd (projr (slab_insert s2 9))"
  define k where "k = fst (projr (slab_insert s2 9))"
  note defs = s0_def s1_def h_def s2_def s3_def k_def
  have e0: "slab_with_capacity 1 = Some s0" and e1: "slab_insert s0 7 = Inr (h, s1)"
    and e2: "slab_remove s1 h = (Some 7, s2)" and e3: "slab_insert s2 9 = Inr (k, s3)"
    and k: "slab_get s3 k = Some 9" "h_index k = h_index h"
    unfolding defs by code_simp+
  have "slab_wf s1" using slab_with_capacity_wf[OF e0] slab_insert_spec(4)[OF _ e1] by blast
  moreover have "slab_step\<^sup>*\<^sup>* s2 s3"
    using slab_step.step_insert[OF e3] by blast
  ultimately have "slab_get s3 h = None" using removed_handle_never_resolves[OF _ e2] by blast
  with e0 e1 e2 e3 k show ?thesis by (auto simp: reuse_example_def)
qed

text \<open>
  C22. Inserting into a well-formed slab never grows it and is refused exactly when no slot is free;
  when it succeeds the new handle is fresh (it never named anything before), it resolves to the
  inserted value, every other handle resolves to what it did, and removing it gives the value back
  and restores every lookup.
\<close>

theorem insert_lookup_remove_roundtrip:
  assumes "slab_wf s"
  shows "case slab_insert s v of
      Inl _ \<Rightarrow> \<not> slab_has_room s
    | Inr (h, s') \<Rightarrow> slab_has_room s \<and> slab_wf s' \<and> slab_capacity s' = slab_capacity s \<and>
        slab_get s h = None \<and> \<not> slab_spent s h \<and>
        slab_get s' = (slab_get s)(h \<mapsto> v) \<and>
        fst (slab_remove s' h) = Some v \<and> slab_get (snd (slab_remove s' h)) = slab_get s"
proof (cases "slab_insert s v")
  case (Inl e)
  then show ?thesis using slab_insert_None[OF assms, of v e] by simp
next
  case (Inr r)
  obtain h s' where r: "r = (h, s')" by (cases r)
  note ins = Inr[unfolded r]
  note wf' = slab_insert_spec(4)[OF assms ins]
  have get': "slab_get s' = (slab_get s)(h \<mapsto> v)" by (rule slab_get_ins[OF assms ins])
  have fresh: "slab_get s h = None \<and> \<not> slab_spent s h" by (rule slab_store.ins_fresh[OF assms ins])
  have room: "slab_has_room s"
  proof (rule ccontr)
    assume "\<not> slab_has_room s"
    then have "slab_insert s v = Inl SlabFull" using slab_insert_None[OF assms] by blast
    with ins show False by simp
  qed
  obtain s'' where rem: "slab_remove s' h = (Some v, s'')"
    using slab_remove_get[of s' h] get' by (cases "slab_remove s' h") simp
  have "slab_get s'' = slab_get s"
    using slab_get_rem[OF wf' rem] get' fresh by (auto simp: fun_eq_iff)
  with ins r rem get' fresh room wf' slab_insert_spec(3)[OF assms ins] show ?thesis
    by (simp add: slab_capacity_def)
qed

theorem insert_lookup_remove_roundtrip_witness:
  "slab_wf (the (slab_with_capacity 2) :: u64 slab) \<and>
   (case slab_insert (the (slab_with_capacity 2)) (5 :: u64) of
      Inl _ \<Rightarrow> False
    | Inr (h, s') \<Rightarrow> slab_get s' h = Some 5 \<and> fst (slab_remove s' h) = Some 5)"
proof -
  have "slab_with_capacity 2 = Some (the (slab_with_capacity 2) :: u64 slab)" by code_simp
  then have wf: "slab_wf (the (slab_with_capacity 2) :: u64 slab)" using slab_with_capacity_wf by blast
  moreover have "slab_has_room (the (slab_with_capacity 2) :: u64 slab)" by code_simp
  ultimately show ?thesis
    using insert_lookup_remove_roundtrip[OF wf, of 5] by (auto split: sum.splits)
qed

end
