(* ===== verification/Chains.thy ===== *)
theory Chains
  imports Slab
begin

text \<open>
  Intrusive chains threaded by \<open>u32\<close> links, \<open>NIL\<close> being the nil link
  (\<open>Link\<close> of \<open>crates/core/src/account.rs\<close>). A chain is read through a map from an index to
  its neighbours, and described by the list of the indices on it: \<open>dll\<close> for the doubly linked
  chains of claims. The lemmas say what the
  link writes of the sources (splice after an entry, splice at the head, unlink) do to that list.
\<close>

section \<open>Links\<close>

type_synonym link = u32

definition link_to :: "u32 \<Rightarrow> link" where
  "link_to index = index"

definition link_index :: "link \<Rightarrow> u32 option" where
  "link_index l = (if l = NIL then None else Some l)"

lemma link_index_Some_iff [simp]: "link_index l = Some i \<longleftrightarrow> i = l \<and> l \<noteq> NIL"
  by (auto simp: link_index_def)

lemma link_index_None_iff [simp]: "link_index l = None \<longleftrightarrow> l = NIL"
  by (simp add: link_index_def)

lemma link_index_NIL [simp]: "link_index NIL = None"
  by simp

named_theorems chain_intros \<open>what the link writes do to the list of a chain\<close>

section \<open>Doubly linked segments\<close>

type_synonym nbrs = "u32 \<Rightarrow> (link \<times> link) option"

fun dseg :: "nbrs \<Rightarrow> link \<Rightarrow> link \<Rightarrow> u32 list \<Rightarrow> link \<Rightarrow> link \<Rightarrow> bool" where
  "dseg m p s [] q e \<longleftrightarrow> s = e \<and> q = p"
| "dseg m p s (x # xs) q e \<longleftrightarrow> s = x \<and> x \<noteq> NIL \<and>
     (case m x of None \<Rightarrow> False | Some (p', n) \<Rightarrow> p' = p \<and> dseg m x n xs q e)"

definition dll :: "nbrs \<Rightarrow> link \<Rightarrow> link \<Rightarrow> u32 list \<Rightarrow> bool" where
  "dll m head tail xs \<longleftrightarrow> dseg m NIL head xs tail NIL"

definition set_nx :: "nbrs \<Rightarrow> u32 \<Rightarrow> link \<Rightarrow> nbrs" where
  "set_nx m a n = m(a := map_option (\<lambda>(p, _). (p, n)) (m a))"

definition set_pv :: "nbrs \<Rightarrow> u32 \<Rightarrow> link \<Rightarrow> nbrs" where
  "set_pv m a p = m(a := map_option (\<lambda>(_, n). (p, n)) (m a))"

lemma dseg_append:
  "dseg m p s (xs @ ys) q e \<longleftrightarrow> (\<exists>k n. dseg m p s xs k n \<and> dseg m k n ys q e)"
  by (induction xs arbitrary: p s) (auto split: option.split)

lemma dseg_frame:
  "dseg m p s xs q e \<Longrightarrow> (\<And>x. x \<in> set xs \<Longrightarrow> m' x = m x) \<Longrightarrow> dseg m' p s xs q e"
  by (induction xs arbitrary: p s) (auto split: option.splits)

lemma dseg_members: "dseg m p s xs q e \<Longrightarrow> x \<in> set xs \<Longrightarrow> x \<noteq> NIL \<and> m x \<noteq> None"
  by (induction xs arbitrary: p s) (auto split: option.splits)

lemma dseg_last: "dseg m p s xs q e \<Longrightarrow> q = (if xs = [] then p else last xs)"
  by (induction xs arbitrary: p s) (auto split: option.splits)

lemma dseg_first: "dseg m p s xs q e \<Longrightarrow> s = (if xs = [] then e else hd xs)"
  by (cases xs) (auto split: option.splits)

lemma dseg_unique:
  "dseg m p s xs q NIL \<Longrightarrow> dseg m p' s ys q' NIL \<Longrightarrow> xs = ys"
proof (induction xs arbitrary: p p' s ys)
  case Nil
  then show ?case by (cases ys) auto
next
  case (Cons x xs)
  then show ?case by (cases ys) (auto split: option.splits)
qed

lemma dll_distinct: "dseg m p s xs q NIL \<Longrightarrow> distinct xs"
proof (induction xs arbitrary: p s)
  case Nil
  then show ?case by simp
next
  case (Cons x xs)
  then obtain n where x: "m x = Some (p, n)" and rest: "dseg m x n xs q NIL"
    by (auto split: option.splits)
  have "x \<notin> set xs"
  proof
    assume "x \<in> set xs"
    then obtain as bs where xs: "xs = as @ x # bs" by (auto simp: in_set_conv_decomp)
    with rest obtain k where "dseg m k x (x # bs) q NIL"
      by (auto simp: dseg_append dest: dseg_first)
    then have "dseg m x n bs q NIL" using x by (auto split: option.splits)
    then have "bs = xs" using rest by (rule dseg_unique)
    with xs show False by simp
  qed
  with Cons.IH[OF rest] show ?case by simp
qed

lemma dll_empty [simp]: "dll m h t [] \<longleftrightarrow> h = NIL \<and> t = NIL"
  by (auto simp: dll_def)

lemma dll_NIL_iff: "dll m h t xs \<Longrightarrow> h = NIL \<longleftrightarrow> xs = []"
  by (cases xs) (auto simp: dll_def)

lemma dll_head: "dll m h t (x # xs) \<Longrightarrow> h = x"
  by (simp add: dll_def)

lemma dll_tail: "dll m h t xs \<Longrightarrow> t = (if xs = [] then NIL else last xs)"
  unfolding dll_def by (rule dseg_last)

lemma dll_frame: "dll m h t xs \<Longrightarrow> (\<And>x. x \<in> set xs \<Longrightarrow> m' x = m x) \<Longrightarrow> dll m' h t xs"
  unfolding dll_def by (rule dseg_frame)

lemma dll_members: "dll m h t xs \<Longrightarrow> x \<in> set xs \<Longrightarrow> x \<noteq> NIL \<and> m x \<noteq> None"
  unfolding dll_def by (rule dseg_members)

lemma dll_unique: "dll m h t xs \<Longrightarrow> dll m h t' ys \<Longrightarrow> xs = ys"
  unfolding dll_def by (rule dseg_unique)

lemma dll_distinctD: "dll m h t xs \<Longrightarrow> distinct xs"
  unfolding dll_def by (rule dll_distinct)

text \<open>Writing the successor of the last entry, or the predecessor of the first.\<close>

lemma dseg_set_last:
  assumes "dseg m p s (as @ [a]) q e" and "a \<notin> set as"
  shows "dseg (set_nx m a e') p s (as @ [a]) a e'"
proof -
  from assms(1) obtain k n where as: "dseg m p s as k n" and an: "dseg m k n [a] q e"
    unfolding dseg_append by blast
  from an have [simp]: "n = a" and a: "m a = Some (k, e)" "a \<noteq> NIL" by (auto split: option.splits)
  have "dseg (set_nx m a e') p s as k a"
    by (rule dseg_frame[where m = m]) (use as assms(2) in \<open>auto simp: set_nx_def\<close>)
  moreover have "dseg (set_nx m a e') k a [a] a e'" using a by (simp add: set_nx_def)
  ultimately show ?thesis unfolding dseg_append by blast
qed

lemma dseg_set_first:
  assumes "dseg m p s (b # bs) q e" and "b \<notin> set bs"
  shows "dseg (set_pv m b p') p' s (b # bs) q e"
proof -
  from assms obtain n where "m b = Some (p, n)" "s = b" "b \<noteq> NIL" "dseg m b n bs q e"
    by (auto split: option.splits)
  with assms(2) show ?thesis by (auto simp: set_pv_def intro: dseg_frame)
qed

lemma set_nx_other [simp]: "x \<noteq> a \<Longrightarrow> set_nx m a n x = m x"
  by (simp add: set_nx_def)

lemma set_pv_other [simp]: "x \<noteq> a \<Longrightarrow> set_pv m a p x = m x"
  by (simp add: set_pv_def)

text \<open>The neighbours of an entry in the middle.\<close>

lemma dll_split:
  assumes "dll m h t (as @ i # bs)"
  obtains p n where "m i = Some (p, n)" and "i \<noteq> NIL" and "dseg m NIL h as p i" and "dseg m i n bs t NIL"
    and "p = (if as = [] then NIL else last as)" and "n = (if bs = [] then NIL else hd bs)"
    and "distinct (as @ i # bs)"
proof -
  from assms obtain p n where "m i = Some (p, n)" "i \<noteq> NIL" "dseg m NIL h as p i" "dseg m i n bs t NIL"
    by (auto simp: dll_def dseg_append split: option.splits)
  then show ?thesis
    using dseg_last[of m NIL h as p i] dseg_first[of m i n bs t NIL] dll_distinctD[OF assms]
    by (intro that) auto
qed

section \<open>The three link surgeries\<close>

definition unlink_nbrs :: "nbrs \<Rightarrow> u32 \<Rightarrow> link \<Rightarrow> link \<Rightarrow> nbrs" where
  "unlink_nbrs m i p n =
     (let m1 = (if p = NIL then m else set_nx m p n);
          m2 = (if n = NIL then m1 else set_pv m1 n p)
      in m2(i := map_option (\<lambda>_. (NIL, NIL)) (m2 i)))"

lemma unlink_dll:
  assumes dl: "dll m h t (as @ i # bs)" and i: "m i = Some (p, n)"
  shows "dll (unlink_nbrs m i p n) (if p = NIL then n else h) (if n = NIL then p else t) (as @ bs)"
proof -
  obtain p' n' where pn: "m i = Some (p', n')" "i \<noteq> NIL" and segs: "dseg m NIL h as p' i" "dseg m i n' bs t NIL"
    and p': "p' = (if as = [] then NIL else last as)" and n': "n' = (if bs = [] then NIL else hd bs)"
    and dist: "distinct (as @ i # bs)"
    by (rule dll_split[OF dl])
  from pn i have [simp]: "p' = p" "n' = n" by auto
  define m1 where "m1 = (if p = NIL then m else set_nx m p n)"
  define m2 where "m2 = (if n = NIL then m1 else set_pv m1 n p)"
  define h' where "h' = (if p = NIL then n else h)"
  have m3: "unlink_nbrs m i p n = m2(i := map_option (\<lambda>_. (NIL, NIL)) (m2 i))"
    by (simp add: unlink_nbrs_def m1_def m2_def Let_def)
  have as1: "dseg m1 NIL h' as p n"
  proof (cases as rule: rev_cases)
    case Nil
    with p' show ?thesis by (simp add: m1_def h'_def)
  next
    case (snoc as' a)
    with segs dist p' have "p = a" "a \<noteq> NIL" by (auto simp: dseg_append split: option.splits)
    with dseg_set_last[of m NIL h as' a p i n] segs snoc dist show ?thesis
      by (simp add: m1_def h'_def)
  qed
  have bs1: "dseg m1 i n bs t NIL"
  proof (rule dseg_frame)
    show "dseg m i n bs t NIL" using segs by simp
    show "m1 x = m x" if "x \<in> set bs" for x
    proof -
      have "set as \<inter> set bs = {}" using dist by simp
      then have "as \<noteq> [] \<Longrightarrow> last as \<notin> set bs" using last_in_set[of as] by blast
      then have "p = NIL \<or> x \<noteq> p" using that p' by auto
      then show ?thesis by (auto simp: m1_def)
    qed
  qed
  have as2: "dseg m2 NIL h' as p n"
  proof (rule dseg_frame[OF as1])
    show "m2 x = m1 x" if "x \<in> set as" for x
      using that dist n' by (cases bs) (auto simp: m2_def set_pv_def)
  qed
  have bs2: "dseg m2 p n bs (if n = NIL then p else t) NIL"
  proof (cases bs)
    case Nil
    with bs1 show ?thesis by simp
  next
    case (Cons b bs')
    with bs1 have "n = b" "b \<noteq> NIL" by auto
    with dseg_set_first[of m1 i n b bs' t NIL p] bs1 Cons dist show ?thesis
      by (simp add: m2_def)
  qed
  have "dseg m2 NIL h' (as @ bs) (if n = NIL then p else t) NIL"
    using as2 bs2 unfolding dseg_append by blast
  then show ?thesis unfolding dll_def m3 h'_def
    by (rule dseg_frame) (use dist in auto)
qed

definition splice_after_nbrs :: "nbrs \<Rightarrow> u32 \<Rightarrow> u32 \<Rightarrow> link \<Rightarrow> nbrs" where
  "splice_after_nbrs m i a n =
     (let m1 = set_nx m a i;
          m2 = m1(i := map_option (\<lambda>_. (a, n)) (m1 i))
      in if n = NIL then m2 else set_pv m2 n i)"

lemma splice_after_dll:
  assumes dl: "dll m h t (as @ a # bs)" and a: "m a = Some (p, n)"
    and i: "i \<notin> set (as @ a # bs)" "i \<noteq> NIL" "m i \<noteq> None"
  shows "dll (splice_after_nbrs m i a n) h (if n = NIL then i else t) (as @ a # i # bs)"
proof -
  obtain p' n' where pn: "m a = Some (p', n')" "a \<noteq> NIL" and segs: "dseg m NIL h as p' a" "dseg m a n' bs t NIL"
    and n': "n' = (if bs = [] then NIL else hd bs)" and dist: "distinct (as @ a # bs)"
    by (rule dll_split[OF dl])
  from pn a have [simp]: "p' = p" "n' = n" by auto
  define m1 where "m1 = set_nx m a i"
  define m2 where "m2 = m1(i := map_option (\<lambda>_. (a, n)) (m1 i))"
  define m3 where "m3 = (if n = NIL then m2 else set_pv m2 n i)"
  have m3: "splice_after_nbrs m i a n = m3" by (simp add: splice_after_nbrs_def m1_def m2_def m3_def Let_def)
  have m2i: "m2 i = Some (a, n)" using i by (auto simp: m2_def m1_def)
  have frame: "m3 x = m x" if "x \<notin> {a, i, n}" for x
    using that by (simp add: m3_def m2_def m1_def)
  have na: "n \<noteq> a" "n \<noteq> i" and nas: "n \<notin> set as"
    using dist n' i pn(2) dseg_members[OF segs(1)] by (auto split: if_splits)
  have as3: "dseg m3 NIL h as p a"
  proof (rule dseg_frame)
    show "dseg m NIL h as p a" using segs by simp
    show "m3 x = m x" if "x \<in> set as" for x
      using that dist i nas by (intro frame) auto
  qed
  have a3: "m3 a = Some (p, i)" using na i a by (auto simp: m3_def m2_def m1_def set_nx_def)
  have bs2: "dseg m2 a n bs t NIL"
  proof (rule dseg_frame)
    show "dseg m a n bs t NIL" using segs by simp
    show "m2 x = m x" if "x \<in> set bs" for x
      using that dist i by (auto simp: m2_def m1_def set_nx_def)
  qed
  have bs3: "dseg m3 i n bs (if n = NIL then i else t) NIL"
  proof (cases bs)
    case Nil
    with bs2 show ?thesis by (simp add: m3_def)
  next
    case (Cons b bs')
    with bs2 have "n = b" "b \<noteq> NIL" by auto
    with dseg_set_first[of m2 a n b bs' t NIL i] bs2 Cons dist show ?thesis
      by (simp add: m3_def)
  qed
  have "m3 i = Some (a, n)" using na m2i by (auto simp: m3_def)
  with a3 bs3 pn(2) i(2) have "dseg m3 p a (a # i # bs) (if n = NIL then i else t) NIL" by simp
  with as3 show ?thesis unfolding dll_def m3 dseg_append by blast
qed

definition splice_head_nbrs :: "nbrs \<Rightarrow> u32 \<Rightarrow> link \<Rightarrow> nbrs" where
  "splice_head_nbrs m i head =
     (let m1 = m(i := map_option (\<lambda>_. (NIL, head)) (m i))
      in if head = NIL then m1 else set_pv m1 head i)"

lemma splice_head_dll:
  assumes dl: "dll m h t xs" and i: "i \<notin> set xs" "i \<noteq> NIL" "m i \<noteq> None"
  shows "dll (splice_head_nbrs m i h) i (if h = NIL then i else t) (i # xs)"
proof -
  define m1 where "m1 = m(i := map_option (\<lambda>_. (NIL, h)) (m i))"
  define m2 where "m2 = (if h = NIL then m1 else set_pv m1 h i)"
  have m2: "splice_head_nbrs m i h = m2" by (simp add: splice_head_nbrs_def m1_def m2_def Let_def)
  have xs1: "dseg m1 NIL h xs t NIL"
    using dl i unfolding dll_def m1_def by (auto intro: dseg_frame)
  have xs2: "dseg m2 i h xs (if h = NIL then i else t) NIL"
  proof (cases xs)
    case Nil
    with xs1 show ?thesis by (simp add: m2_def)
  next
    case (Cons b bs)
    with xs1 have "h = b" "b \<noteq> NIL" by auto
    with dseg_set_first[of m1 NIL h b bs t NIL i] xs1 Cons dll_distinctD[OF dl] show ?thesis
      by (simp add: m2_def)
  qed
  have "h \<noteq> i" using dl i by (cases xs) (auto simp: dll_def)
  then have "m2 i = Some (NIL, h)" using i by (auto simp: m2_def m1_def)
  with xs2 i show ?thesis unfolding dll_def m2 by simp
qed

lemmas surgery_intros [chain_intros] = unlink_dll splice_after_dll splice_head_dll

end
