(* ===== verification/Money_Types.thy ===== *)
theory Money_Types
  imports Prelude
begin

text \<open>
  The money and time newtypes of \<open>crates/core/src/types.rs\<close>: amounts, prices, sizes, sides,
  instants and durations, each an unsigned word of the source's width, with the checked and
  saturating operations the sources allow on them. The central fact is that the two
  contributions of a leg sum to its notional exactly, with no rounding.
\<close>

section \<open>Newtypes\<close>

type_synonym amount = u64
type_synonym price = u32
type_synonym leg_id = u8
type_synonym size = u64
type_synonym ts = u64
type_synonym dur = u64

definition UNIT :: price where
  "UNIT = 1000000"

datatype side = SideYes | SideNo

fun side_opposite :: "side \<Rightarrow> side" where
  "side_opposite SideYes = SideNo"
| "side_opposite SideNo = SideYes"

section \<open>Amounts\<close>

definition amount_checked_add :: "amount \<Rightarrow> amount \<Rightarrow> amount option" where
  "amount_checked_add a b = checked_add a b"

definition amount_checked_sub :: "amount \<Rightarrow> amount \<Rightarrow> amount option" where
  "amount_checked_sub a b = checked_sub a b"

section \<open>Sizes: the money products\<close>

text \<open>
  The product is taken in \<open>u128\<close> and narrowed with \<open>u64::try_from\<close>; overflow is
  \<open>None\<close>.
\<close>

definition size_checked_mul :: "size \<Rightarrow> price \<Rightarrow> amount option" where
  "size_checked_mul s p =
     (case checked_mul (ucast s :: u128) (ucast p) of
        None \<Rightarrow> None
      | Some product \<Rightarrow> if unat product < 2 ^ 64 then Some (ucast product) else None)"

definition requester_contribution :: "size \<Rightarrow> price \<Rightarrow> amount option" where
  "requester_contribution s p = size_checked_mul s p"

definition maker_contribution :: "size \<Rightarrow> price \<Rightarrow> amount option" where
  "maker_contribution s p =
     (case checked_sub UNIT p of
        None \<Rightarrow> None
      | Some complement \<Rightarrow> size_checked_mul s complement)"

definition notional :: "size \<Rightarrow> amount option" where
  "notional s = size_checked_mul s UNIT"

section \<open>Instants and durations\<close>

definition ts_checked_add :: "ts \<Rightarrow> dur \<Rightarrow> ts option" where
  "ts_checked_add t d = checked_add t d"

definition ts_saturating_add :: "ts \<Rightarrow> dur \<Rightarrow> ts" where
  "ts_saturating_add t d = saturating_add t d"

definition ts_saturating_sub :: "ts \<Rightarrow> ts \<Rightarrow> dur" where
  "ts_saturating_sub t earlier = saturating_sub t earlier"

definition dur_checked_add :: "dur \<Rightarrow> dur \<Rightarrow> dur option" where
  "dur_checked_add a b = checked_add a b"

definition dur_checked_mul :: "dur \<Rightarrow> u32 \<Rightarrow> dur option" where
  "dur_checked_mul a count = checked_mul a (ucast count)"

lemmas money_defs =
  amount_checked_add_def amount_checked_sub_def ts_checked_add_def ts_saturating_add_def
  ts_saturating_sub_def dur_checked_add_def dur_checked_mul_def

lemma unat_UNIT [simp]: "unat UNIT = 1000000"
  by (simp add: UNIT_def)

lemma unat_ucast_u128 [simp]:
  "unat (ucast (s :: u64) :: u128) = unat s" "unat (ucast (p :: u32) :: u128) = unat p"
  by (simp_all add: unsigned_ucast_eq take_bit_nat_eq_self order.strict_trans2[OF unat_lt_size])

lemma unat_ucast_u32_u64 [simp]: "unat (ucast (c :: u32) :: u64) = unat c"
  by (simp add: unsigned_ucast_eq take_bit_nat_eq_self order.strict_trans2[OF unat_lt_size])

text \<open>The product never overflows \<open>u128\<close>, so the narrowing is the only test.\<close>

lemma size_checked_mul_Some_iff [machine_simps]:
  "size_checked_mul s p = Some a \<longleftrightarrow> unat a = unat s * unat p"
proof -
  have "unat s * unat p < 2 ^ 64 * 2 ^ 32"
    using unat_lt_size[of s] unat_lt_size[of p]
    by (intro mult_strict_mono) simp_all
  then have lt: "unat s * unat p < 2 ^ 128" by simp
  then obtain q :: u128 where q: "checked_mul (ucast s) (ucast p) = Some q"
    by (simp add: checked_mul_def)
  then have uq: "unat q = unat s * unat p" by (simp add: checked_mul_Some_iff)
  have narrow: "unat (ucast q :: u64) = unat q" if "unat q < 2 ^ 64"
    using that by (simp add: unsigned_ucast_eq take_bit_nat_eq_self)
  show ?thesis
  proof (cases "unat q < 2 ^ 64")
    case True
    then have "size_checked_mul s p = Some (ucast q)" by (simp add: size_checked_mul_def q)
    with narrow[OF True] uq show ?thesis by (auto simp: word_unat_eq_iff)
  next
    case False
    moreover have "unat a < 2 ^ 64" using unat_lt_size[of a] by simp
    ultimately show ?thesis using uq by (simp add: size_checked_mul_def q)
  qed
qed

lemma size_checked_mul_None_iff [machine_simps]:
  "size_checked_mul s p = None \<longleftrightarrow> 2 ^ 64 \<le> unat s * unat p"
proof
  assume none: "size_checked_mul s p = None"
  show "2 ^ 64 \<le> unat s * unat p"
  proof (rule ccontr)
    assume "\<not> 2 ^ 64 \<le> unat s * unat p"
    then obtain a :: amount where "unat a = unat s * unat p"
      using word_with_unat[where 'a = 64, of "unat s * unat p"] by auto
    then have "size_checked_mul s p = Some a"
      by (simp add: size_checked_mul_Some_iff)
    with none show False by simp
  qed
next
  assume big: "2 ^ 64 \<le> unat s * unat p"
  show "size_checked_mul s p = None"
  proof (cases "size_checked_mul s p")
    case (Some a)
    then have "unat a = unat s * unat p" by (simp add: size_checked_mul_Some_iff)
    with big unat_lt_size[of a] show ?thesis by simp
  qed simp
qed

lemma maker_contribution_Some_iff [machine_simps]:
  "maker_contribution s p = Some a \<longleftrightarrow> p \<le> UNIT \<and> unat a = unat s * (1000000 - unat p)"
proof (cases "checked_sub UNIT p")
  case None
  then have "\<not> p \<le> UNIT" by (simp add: checked_sub_def split: if_splits)
  with None show ?thesis by (simp add: maker_contribution_def)
next
  case (Some c)
  then have "unat c = 1000000 - unat p" and "p \<le> UNIT"
    by (auto simp: checked_sub_Some_iff word_le_nat_alt)
  with Some show ?thesis by (simp add: maker_contribution_def size_checked_mul_Some_iff)
qed

lemma contributions_split:
  assumes "notional s = Some n" and "p \<le> UNIT"
  shows "\<exists>m r. maker_contribution s p = Some m \<and> requester_contribution s p = Some r
    \<and> unat m + unat r = unat n"
proof -
  from assms(1) have n: "unat n = unat s * 1000000" by (simp add: notional_def size_checked_mul_Some_iff)
  from assms(2) have p: "unat p \<le> 1000000" by (simp add: word_le_nat_alt)
  then have "unat s * (1000000 - unat p) + unat s * unat p = unat n"
    by (simp add: n flip: distrib_left)
  moreover have small: "k < 2 ^ 64" if "k \<le> unat n" for k
    using that unat_lt_size[of n] by simp
  obtain m :: amount where "unat m = unat s * (1000000 - unat p)"
    using small[of "unat s * (1000000 - unat p)"] n
      word_with_unat[where 'a = 64, of "unat s * (1000000 - unat p)"] by auto
  moreover obtain r :: amount where "unat r = unat s * unat p"
    using small[of "unat s * unat p"] n p
      word_with_unat[where 'a = 64, of "unat s * unat p"] by auto
  ultimately have "maker_contribution s p = Some m" and "requester_contribution s p = Some r"
    and "unat m + unat r = unat n"
    using assms(2)
    by (simp_all add: maker_contribution_Some_iff requester_contribution_def size_checked_mul_Some_iff)
  then show ?thesis by blast
qed

lemma contributions_sum:
  assumes "maker_contribution s p = Some m" and "requester_contribution s p = Some r"
  shows "unat m + unat r = unat s * 1000000"
proof -
  from assms have "p \<le> UNIT" and m: "unat m = unat s * (1000000 - unat p)"
    and r: "unat r = unat s * unat p"
    by (auto simp: maker_contribution_Some_iff requester_contribution_def size_checked_mul_Some_iff)
  then have "unat p \<le> 1000000" by (simp add: word_le_nat_alt)
  with m r show ?thesis by (simp flip: distrib_left)
qed

section \<open>Properties\<close>

text \<open>
  The two contributions of a leg sum to its notional exactly: whenever the notional
  \<open>size * UNIT\<close> fits in an amount and the price is admissible, both contributions are
  defined and their checked sum is the notional. No unit is lost or created by rounding.
\<close>

theorem contributions_sum_to_notional:
  assumes "notional s = Some n" and "p \<le> UNIT"
  shows "\<exists>m r. maker_contribution s p = Some m \<and> requester_contribution s p = Some r
    \<and> amount_checked_add m r = Some n"
  using contributions_split[OF assms] by (auto simp: amount_checked_add_def checked_add_Some_iff)

theorem contributions_sum_to_notional_witness:
  "notional 5 = Some 5000000 \<and> (420000 :: price) \<le> UNIT \<and>
   (\<exists>m r. maker_contribution 5 420000 = Some m \<and> requester_contribution 5 420000 = Some r
     \<and> amount_checked_add m r = Some 5000000)"
proof -
  have "notional 5 = Some 5000000" and "(420000 :: price) \<le> UNIT" by code_simp+
  with contributions_sum_to_notional[of 5 5000000 420000] show ?thesis by blast
qed

end
