(* ===== verification/Config.thy ===== *)
theory Config
  imports Money_Types
begin

text \<open>
  The venue policy of \<open>crates/core/src/config.rs\<close>: the injectable configuration, the
  compile-time storage bounds, and \<open>Config::validate\<close> with its two startup inequalities.
  Lemma \<open>validate_ok_iff\<close> says exactly which configurations start, with every term read as
  a natural number, so no wrap-around can hide a violation.
\<close>

section \<open>Configuration\<close>

definition MAX_LEGS :: nat where
  "MAX_LEGS = 8"

definition MAX_QUOTES_PER_LEG :: nat where
  "MAX_QUOTES_PER_LEG = 16"

type_synonym account_idx = u32
type_synonym contract_idx = u32

record config =
  max_legs :: u8
  max_quotes_per_leg :: u8
  max_quote_ttl :: dur
  max_request_ttl :: dur
  min_horizon :: dur
  max_settling_time :: dur
  stall_grace :: dur
  challenge_window :: dur
  escalation_authority :: account_idx
  withdrawal_delay :: dur
  max_accounts :: u32
  max_reservations :: u32
  max_requests :: u32
  max_quotes :: u32
  max_escrows :: u32
  max_contracts :: u32
  confirmations :: u32
  block_time :: dur
  max_indexer_lag :: dur
  max_settlement_inclusion_time :: dur

datatype config_error =
    MaxLegsExceedsStorage
  | MaxQuotesPerLegExceedsStorage
  | CapacityTooLarge
  | HorizonTermOverflow
  | HorizonTooShort
  | TimelockTermOverflow
  | WithdrawalDelayTooShort

definition config_validate :: "config \<Rightarrow> config_error + unit" where
  "config_validate c =
     (if unat (max_legs c) > MAX_LEGS then Inl MaxLegsExceedsStorage
      else if unat (max_quotes_per_leg c) > MAX_QUOTES_PER_LEG then Inl MaxQuotesPerLegExceedsStorage
      else if u_max \<in> set [max_accounts c, max_reservations c, max_requests c, max_quotes c,
                           max_contracts c, max_escrows c] then Inl CapacityTooLarge
      else case dur_checked_add (max_request_ttl c) (max_settling_time c) of
        None \<Rightarrow> Inl HorizonTermOverflow
      | Some latest_escrow_formation \<Rightarrow>
          if min_horizon c \<le> latest_escrow_formation then Inl HorizonTooShort
          else
            let claim_window = (if max_quote_ttl c > latest_escrow_formation
                                then max_quote_ttl c else latest_escrow_formation)
            in case dur_checked_mul (block_time c) (confirmations c) of
                 None \<Rightarrow> Inl TimelockTermOverflow
               | Some mirror_confirmation_lag \<Rightarrow>
                   (case do { sum1 \<leftarrow> dur_checked_add claim_window mirror_confirmation_lag;
                              sum2 \<leftarrow> dur_checked_add sum1 (max_indexer_lag c);
                              dur_checked_add sum2 (max_settlement_inclusion_time c) } of
                      None \<Rightarrow> Inl TimelockTermOverflow
                    | Some must_exceed \<Rightarrow>
                        if withdrawal_delay c \<le> must_exceed then Inl WithdrawalDelayTooShort
                        else Inr ()))"

definition config_default :: config where
  "config_default = \<lparr>
     max_legs = 4, max_quotes_per_leg = 8, max_quote_ttl = 30000, max_request_ttl = 300000,
     min_horizon = 3600000, max_settling_time = 60000, stall_grace = 86400000,
     challenge_window = 7200000, escalation_authority = 0, withdrawal_delay = 600000,
     max_accounts = 256, max_reservations = 4096, max_requests = 1024, max_quotes = 4096,
     max_escrows = 4096, max_contracts = 1024, confirmations = 0, block_time = 0,
     max_indexer_lag = 0, max_settlement_inclusion_time = 0 \<rparr>"

section \<open>What a startable configuration guarantees\<close>

definition capacities_ok :: "config \<Rightarrow> bool" where
  "capacities_ok c \<longleftrightarrow> max_accounts c < u_max \<and> max_reservations c < u_max \<and>
     max_requests c < u_max \<and> max_quotes c < u_max \<and> max_contracts c < u_max \<and>
     max_escrows c < u_max"

definition escrow_window :: "config \<Rightarrow> nat" where
  "escrow_window c = unat (max_request_ttl c) + unat (max_settling_time c)"

definition chain_lag :: "config \<Rightarrow> nat" where
  "chain_lag c = unat (block_time c) * unat (confirmations c) + unat (max_indexer_lag c)
     + unat (max_settlement_inclusion_time c)"

definition startable :: "config \<Rightarrow> bool" where
  "startable c \<longleftrightarrow> unat (max_legs c) \<le> MAX_LEGS \<and>
     unat (max_quotes_per_leg c) \<le> MAX_QUOTES_PER_LEG \<and> capacities_ok c \<and>
     escrow_window c < unat (min_horizon c) \<and>
     max (unat (max_quote_ttl c)) (escrow_window c) + chain_lag c < unat (withdrawal_delay c)"

lemma capacities_ok_iff:
  "capacities_ok c \<longleftrightarrow> u_max \<notin> set [max_accounts c, max_reservations c, max_requests c,
     max_quotes c, max_contracts c, max_escrows c]"
  by (auto simp: capacities_ok_def simp flip: not_u_max_iff)

text \<open>The timelock sum, once its terms are known to be representable.\<close>

definition timelock_sum :: "config \<Rightarrow> dur \<Rightarrow> dur option" where
  "timelock_sum c window =
     (case dur_checked_mul (block_time c) (confirmations c) of
        None \<Rightarrow> None
      | Some lag \<Rightarrow> do { sum1 \<leftarrow> dur_checked_add window lag;
                       sum2 \<leftarrow> dur_checked_add sum1 (max_indexer_lag c);
                       dur_checked_add sum2 (max_settlement_inclusion_time c) })"

lemma timelock_sum_Some_iff:
  "timelock_sum c window = Some s \<longleftrightarrow> unat s = unat window + chain_lag c"
proof
  assume "timelock_sum c window = Some s"
  then show "unat s = unat window + chain_lag c"
    by (auto simp: timelock_sum_def money_defs machine_simps chain_lag_def
        split: option.splits Option.bind_splits)
next
  assume s: "unat s = unat window + chain_lag c"
  have "unat (block_time c) * unat (confirmations c) \<le> unat s"
    by (simp add: s chain_lag_def)
  then obtain lag :: dur where lag: "unat lag = unat (block_time c) * unat (confirmations c)"
    by (rule word_below)
  have "unat window + unat lag \<le> unat s" by (simp add: s chain_lag_def lag)
  then obtain a :: dur where a: "unat a = unat window + unat lag" by (rule word_below)
  have "unat a + unat (max_indexer_lag c) \<le> unat s" by (simp add: s chain_lag_def lag a)
  then obtain b :: dur where b: "unat b = unat a + unat (max_indexer_lag c)" by (rule word_below)
  have "dur_checked_mul (block_time c) (confirmations c) = Some lag"
    "dur_checked_add window lag = Some a" "dur_checked_add a (max_indexer_lag c) = Some b"
    "dur_checked_add b (max_settlement_inclusion_time c) = Some s"
    using lag a b s by (simp_all add: money_defs machine_simps chain_lag_def)
  then show "timelock_sum c window = Some s" by (simp add: timelock_sum_def)
qed

lemma config_validate_via_sum:
  "config_validate c =
     (if unat (max_legs c) > MAX_LEGS then Inl MaxLegsExceedsStorage
      else if unat (max_quotes_per_leg c) > MAX_QUOTES_PER_LEG then Inl MaxQuotesPerLegExceedsStorage
      else if \<not> capacities_ok c then Inl CapacityTooLarge
      else case dur_checked_add (max_request_ttl c) (max_settling_time c) of
        None \<Rightarrow> Inl HorizonTermOverflow
      | Some e \<Rightarrow> if min_horizon c \<le> e then Inl HorizonTooShort
          else case timelock_sum c (if max_quote_ttl c > e then max_quote_ttl c else e) of
                 None \<Rightarrow> Inl TimelockTermOverflow
               | Some m \<Rightarrow> if withdrawal_delay c \<le> m then Inl WithdrawalDelayTooShort else Inr ())"
  unfolding config_validate_def capacities_ok_iff timelock_sum_def Let_def not_not
  by (cases "dur_checked_mul (block_time c) (confirmations c)") (simp_all only: option.case)

lemma timelock_ok_iff:
  "(case timelock_sum c w of None \<Rightarrow> Inl TimelockTermOverflow
     | Some m \<Rightarrow> if withdrawal_delay c \<le> m then Inl WithdrawalDelayTooShort else Inr ()) = Inr ()
   \<longleftrightarrow> unat w + chain_lag c < unat (withdrawal_delay c)"
proof (cases "timelock_sum c w")
  case None
  have "\<not> unat w + chain_lag c < unat (withdrawal_delay c)"
  proof
    assume "unat w + chain_lag c < unat (withdrawal_delay c)"
    then have "unat w + chain_lag c < 2 ^ 64" using unat_lt_size[of "withdrawal_delay c"] by simp
    then obtain s :: dur where "unat s = unat w + chain_lag c"
      using word_with_unat[where 'a = 64] by auto
    with None timelock_sum_Some_iff[of c w s] show False by simp
  qed
  with None show ?thesis by simp
next
  case (Some m)
  then have "unat m = unat w + chain_lag c" by (simp add: timelock_sum_Some_iff)
  with Some show ?thesis by (auto simp: word_le_nat_alt)
qed

lemma validate_ok_iff: "config_validate c = Inr () \<longleftrightarrow> startable c"
proof (cases "dur_checked_add (max_request_ttl c) (max_settling_time c)")
  case None
  then have "2 ^ 64 \<le> escrow_window c"
    by (simp add: money_defs checked_add_None_iff escrow_window_def)
  then have "\<not> escrow_window c < unat (min_horizon c)"
    using unat_lt_size[of "min_horizon c"] by simp
  with None show ?thesis by (simp add: config_validate_via_sum startable_def)
next
  case (Some e)
  then have e: "unat e = escrow_window c"
    by (simp add: money_defs checked_add_Some_iff escrow_window_def)
  define w where "w = (if max_quote_ttl c > e then max_quote_ttl c else e)"
  have w: "unat w = max (unat (max_quote_ttl c)) (escrow_window c)"
    by (simp add: w_def e[symmetric] word_less_nat_alt max_def)
  show ?thesis
    using timelock_ok_iff[of c w] Some w
    by (auto simp: config_validate_via_sum startable_def w_def[symmetric] e[symmetric]
        word_le_nat_alt not_le not_less)
qed

section \<open>Properties\<close>

text \<open>
  C20. \<open>Config::validate\<close> accepts exactly the configurations in which, read as natural numbers
  with no wrap-around, the storage bounds hold, no capacity collides with the nil link, the horizon
  exceeds the latest escrow formation, and the withdrawal delay exceeds the wider claim window plus
  every lag term. An overflowing term is always a rejection, never a small wrapped bound.
\<close>

theorem validate_accepts_exactly_startable:
  "config_validate c = Inr () \<longleftrightarrow>
     unat (max_legs c) \<le> 8 \<and> unat (max_quotes_per_leg c) \<le> 16 \<and>
     (\<forall>cap \<in> {max_accounts c, max_reservations c, max_requests c, max_quotes c, max_contracts c,
              max_escrows c}. unat cap < 2 ^ 32 - 1) \<and>
     unat (max_request_ttl c) + unat (max_settling_time c) < unat (min_horizon c) \<and>
     max (unat (max_quote_ttl c)) (unat (max_request_ttl c) + unat (max_settling_time c))
       + unat (block_time c) * unat (confirmations c) + unat (max_indexer_lag c)
       + unat (max_settlement_inclusion_time c) < unat (withdrawal_delay c)"
  unfolding validate_ok_iff startable_def capacities_ok_def escrow_window_def chain_lag_def
    MAX_LEGS_def MAX_QUOTES_PER_LEG_def
  by (simp add: word_less_nat_alt unat_u_max add.assoc)

theorem validate_accepts_exactly_startable_witness:
  "config_validate config_default = Inr () \<and>
   config_validate (config_default\<lparr>withdrawal_delay := 360000\<rparr>) = Inl WithdrawalDelayTooShort"
proof -
  have "config_validate config_default = Inr ()"
    unfolding validate_accepts_exactly_startable by (simp add: config_default_def)
  moreover have "config_validate (config_default\<lparr>withdrawal_delay := 360000\<rparr>)
    = Inl WithdrawalDelayTooShort" by code_simp
  ultimately show ?thesis by simp
qed

end
