(* ===== verification/Claims.thy ===== *)
theory Claims
  imports Chains Config
begin

text \<open>
  Accounts and claims: the mirrored balance of \<open>crates/core/src/account.rs\<close> and the
  reservation record of \<open>crates/core/src/reservation.rs\<close>. Handles are untyped here (the
  \<open>PhantomData\<close> marker of the sources carries no value), so \<open>ResIdx\<close>,
  \<open>QuoteIdx\<close> and \<open>ReqIdx\<close> are synonyms of \<open>handle\<close>.
\<close>

type_synonym res_idx = handle
type_synonym quote_idx = handle
type_synonym req_idx = handle

named_theorems claim_simps \<open>reads and writes of a claim record\<close>

section \<open>Accounts\<close>

record mirrored_balance =
  mb_free :: amount
  mb_reserved :: amount
  mb_committed :: amount
  expiry_head :: link
  expiry_tail :: link

definition mirrored_balance_default :: mirrored_balance where
  "mirrored_balance_default = \<lparr> mb_free = 0, mb_reserved = 0, mb_committed = 0,
     expiry_head = NIL, expiry_tail = NIL \<rparr>"

definition mb_available :: "mirrored_balance \<Rightarrow> amount" where
  "mb_available b = saturating_sub (saturating_sub (mb_free b) (mb_reserved b)) (mb_committed b)"

definition set_free :: "amount \<Rightarrow> mirrored_balance \<Rightarrow> mirrored_balance" where
  "set_free v b = b\<lparr> mb_free := v \<rparr>"

definition set_reserved :: "amount \<Rightarrow> mirrored_balance \<Rightarrow> mirrored_balance" where
  "set_reserved v b = b\<lparr> mb_reserved := v \<rparr>"

definition set_committed :: "amount \<Rightarrow> mirrored_balance \<Rightarrow> mirrored_balance" where
  "set_committed v b = b\<lparr> mb_committed := v \<rparr>"

lemmas balance_setters [claim_simps] = set_free_def set_reserved_def set_committed_def

section \<open>Claims\<close>

datatype res_owner = OwnerQuote quote_idx | OwnerRequest req_idx

datatype claim_links = Reserved ts link link | Committed req_idx link link

record reservation =
  res_account :: account_idx
  res_amount :: amount
  res_owner_of :: res_owner
  res_links :: claim_links

definition reservation_reserved :: "account_idx \<Rightarrow> amount \<Rightarrow> res_owner \<Rightarrow> ts \<Rightarrow> reservation" where
  "reservation_reserved account amount owner expires_at =
     \<lparr> res_account = account, res_amount = amount, res_owner_of = owner,
       res_links = Reserved expires_at NIL NIL \<rparr>"

definition res_expires_at :: "reservation \<Rightarrow> ts option" where
  "res_expires_at r = (case res_links r of Reserved e _ _ \<Rightarrow> Some e | Committed _ _ _ \<Rightarrow> None)"

definition is_committed :: "reservation \<Rightarrow> bool" where
  "is_committed r = (case res_links r of Reserved _ _ _ \<Rightarrow> False | Committed _ _ _ \<Rightarrow> True)"

definition committed_to :: "reservation \<Rightarrow> req_idx option" where
  "committed_to r = (case res_links r of Reserved _ _ _ \<Rightarrow> None | Committed req _ _ \<Rightarrow> Some req)"

definition res_is_expired_at :: "reservation \<Rightarrow> ts \<Rightarrow> bool option" where
  "res_is_expired_at r now =
     (case res_links r of Reserved e _ _ \<Rightarrow> Some (now \<ge> e) | Committed _ _ _ \<Rightarrow> None)"

definition set_amount :: "amount \<Rightarrow> reservation \<Rightarrow> reservation" where
  "set_amount amount r = r\<lparr> res_amount := amount \<rparr>"

definition set_links :: "claim_links \<Rightarrow> reservation \<Rightarrow> reservation" where
  "set_links links r = r\<lparr> res_links := links \<rparr>"

definition neighbours :: "reservation \<Rightarrow> link \<times> link" where
  "neighbours r = (case res_links r of Reserved _ p n \<Rightarrow> (p, n) | Committed _ p n \<Rightarrow> (p, n))"

definition set_prev :: "link \<Rightarrow> reservation \<Rightarrow> reservation" where
  "set_prev l r = r\<lparr> res_links := (case res_links r of
     Reserved e _ n \<Rightarrow> Reserved e l n | Committed q _ n \<Rightarrow> Committed q l n) \<rparr>"

definition set_next :: "link \<Rightarrow> reservation \<Rightarrow> reservation" where
  "set_next l r = r\<lparr> res_links := (case res_links r of
     Reserved e p _ \<Rightarrow> Reserved e p l | Committed q p _ \<Rightarrow> Committed q p l) \<rparr>"

text \<open>
  What a claim is, apart from its links: account, amount, owner, and which chain it is on
  (its expiry, or the request whose committed list holds it).
\<close>

datatype claim_kind = OnExpiry ts | OnCommitted req_idx

type_synonym claim = "account_idx \<times> amount \<times> res_owner \<times> claim_kind"

definition kind_of :: "reservation \<Rightarrow> claim_kind" where
  "kind_of r = (case res_links r of Reserved e _ _ \<Rightarrow> OnExpiry e | Committed q _ _ \<Rightarrow> OnCommitted q)"

definition claim_of :: "reservation \<Rightarrow> claim" where
  "claim_of r = (res_account r, res_amount r, res_owner_of r, kind_of r)"

lemma neighbours_setters [claim_simps]:
  "neighbours (set_prev l r) = (l, snd (neighbours r))"
  "neighbours (set_next l r) = (fst (neighbours r), l)"
  "neighbours (set_amount a r) = neighbours r"
  by (simp_all add: neighbours_def set_prev_def set_next_def set_amount_def split: claim_links.split)

lemma claim_of_setters [claim_simps]:
  "claim_of (set_prev l r) = claim_of r"
  "claim_of (set_next l r) = claim_of r"
  "claim_of (set_amount a r) = (res_account r, a, res_owner_of r, kind_of r)"
  "claim_of (set_links (Committed q p n) r) = (res_account r, res_amount r, res_owner_of r, OnCommitted q)"
  by (simp_all add: claim_of_def kind_of_def set_prev_def set_next_def set_amount_def set_links_def
      split: claim_links.split)

lemma claim_of_reserved [claim_simps]:
  "claim_of (reservation_reserved a m ow e) = (a, m, ow, OnExpiry e)"
  "neighbours (reservation_reserved a m ow e) = (NIL, NIL)"
  by (simp_all add: claim_of_def kind_of_def reservation_reserved_def neighbours_def)

lemma kind_of_cases:
  "kind_of r = OnExpiry e \<longleftrightarrow> res_expires_at r = Some e"
  "kind_of r = OnCommitted q \<longleftrightarrow> committed_to r = Some q"
  "is_committed r \<longleftrightarrow> (\<exists>q. kind_of r = OnCommitted q)"
  by (simp_all add: kind_of_def res_expires_at_def committed_to_def is_committed_def
      split: claim_links.split)

lemma res_is_expired_at_kind:
  "res_is_expired_at r now = (case kind_of r of OnExpiry e \<Rightarrow> Some (now \<ge> e) | OnCommitted _ \<Rightarrow> None)"
  by (simp add: res_is_expired_at_def kind_of_def split: claim_links.split)

end
