(* ===== verification/Market_Records.thy ===== *)
theory Market_Records
  imports Claims
begin

text \<open>
  The records of the market: quotes (\<open>crates/core/src/quote.rs\<close>), requests, legs and nonces
  (\<open>crates/core/src/request.rs\<close>), the settlement status (\<open>crates/core/src/settlement.rs\<close>)
  and the escrow id (\<open>crates/core/src/escrow.rs\<close>).
\<close>

section \<open>Quotes\<close>

datatype quote_state = QuoteActive | QuoteConsumed | QuoteReleased

record quote =
  q_maker :: account_idx
  q_request :: req_idx
  q_leg :: leg_id
  q_price :: price
  q_size :: size
  q_expires_at :: ts
  q_arrival :: u64
  q_state :: quote_state
  q_next_on_leg :: link
  q_claim :: "res_idx option"

definition quote_new ::
  "account_idx \<Rightarrow> req_idx \<Rightarrow> leg_id \<Rightarrow> price \<Rightarrow> size \<Rightarrow> ts \<Rightarrow> u64 \<Rightarrow> quote" where
  "quote_new maker request leg price sz expires_at arrival =
     \<lparr> q_maker = maker, q_request = request, q_leg = leg, q_price = price, q_size = sz,
       q_expires_at = expires_at, q_arrival = arrival, q_state = QuoteActive,
       q_next_on_leg = NIL, q_claim = None \<rparr>"

definition quote_is_live_at :: "quote \<Rightarrow> ts \<Rightarrow> bool" where
  "quote_is_live_at q now \<longleftrightarrow> q_state q = QuoteActive \<and> now < q_expires_at q"

definition quote_set_claim :: "res_idx option \<Rightarrow> quote \<Rightarrow> quote" where
  "quote_set_claim c q = q\<lparr> q_claim := c \<rparr>"

definition quote_set_state :: "quote_state \<Rightarrow> quote \<Rightarrow> quote" where
  "quote_set_state st q = q\<lparr> q_state := st \<rparr>"

definition quote_set_next :: "link \<Rightarrow> quote \<Rightarrow> quote" where
  "quote_set_next l q = q\<lparr> q_next_on_leg := l \<rparr>"

section \<open>Requests\<close>

record nonce =
  n_request :: u32
  n_generation :: u32

definition nonce_of :: "req_idx \<Rightarrow> nonce" where
  "nonce_of request = \<lparr> n_request = h_index request, n_generation = h_generation request \<rparr>"

datatype request_state =
    ReqOpen
  | ReqSettling nonce ts
  | ReqEscrowed
  | ReqRejected
  | ReqSettlementFailed

fun request_state_is_terminal :: "request_state \<Rightarrow> bool" where
  "request_state_is_terminal ReqEscrowed = True"
| "request_state_is_terminal ReqRejected = True"
| "request_state_is_terminal ReqSettlementFailed = True"
| "request_state_is_terminal _ = False"

fun request_state_nonce :: "request_state \<Rightarrow> nonce option" where
  "request_state_nonce (ReqSettling n _) = Some n"
| "request_state_nonce _ = None"

record leg =
  leg_contract :: contract_idx
  leg_side :: side
  leg_size :: size
  leg_limit :: price
  leg_quotes_head :: link
  leg_quote_count :: u8
  leg_published :: "price option"

definition leg_new :: "contract_idx \<Rightarrow> side \<Rightarrow> size \<Rightarrow> price \<Rightarrow> leg" where
  "leg_new contract side quantity limit =
     \<lparr> leg_contract = contract, leg_side = side, leg_size = quantity, leg_limit = limit,
       leg_quotes_head = NIL, leg_quote_count = 0, leg_published = None \<rparr>"

definition leg_default :: leg where
  "leg_default = leg_new 0 SideYes 0 0"

record request =
  rq_requester :: account_idx
  rq_deadline :: ts
  rq_state :: request_state
  rq_n_legs :: u8
  rq_legs :: "leg list"
  rq_claim :: "res_idx option"
  rq_committed_head :: link

definition request_new :: "account_idx \<Rightarrow> ts \<Rightarrow> leg list \<Rightarrow> u8 \<Rightarrow> request" where
  "request_new requester deadline legs n_legs =
     \<lparr> rq_requester = requester, rq_deadline = deadline, rq_state = ReqOpen, rq_n_legs = n_legs,
       rq_legs = legs, rq_claim = None, rq_committed_head = NIL \<rparr>"

definition request_is_expired_at :: "request \<Rightarrow> ts \<Rightarrow> bool" where
  "request_is_expired_at r now \<longleftrightarrow> rq_state r = ReqOpen \<and> now \<ge> rq_deadline r"

definition request_is_live_at :: "request \<Rightarrow> ts \<Rightarrow> bool" where
  "request_is_live_at r now \<longleftrightarrow> rq_state r = ReqOpen \<and> now < rq_deadline r"

text \<open>\<open>self.legs.get(..n_legs).unwrap_or(&[])\<close>\<close>

definition request_legs :: "request \<Rightarrow> leg list" where
  "request_legs r = (if unat (rq_n_legs r) \<le> length (rq_legs r) then take (unat (rq_n_legs r)) (rq_legs r) else [])"

definition nth_opt :: "'a list \<Rightarrow> nat \<Rightarrow> 'a option" where
  "nth_opt xs k = (if k < length xs then Some (xs ! k) else None)"

definition request_leg :: "request \<Rightarrow> leg_id \<Rightarrow> leg option" where
  "request_leg r l = nth_opt (request_legs r) (unat l)"

text \<open>A write through \<open>leg_mut\<close>; nothing happens when the leg does not exist.\<close>

definition request_leg_update :: "leg_id \<Rightarrow> (leg \<Rightarrow> leg) \<Rightarrow> request \<Rightarrow> request" where
  "request_leg_update l f r =
     (if unat l \<ge> unat (rq_n_legs r) then r
      else case nth_opt (rq_legs r) (unat l) of
             None \<Rightarrow> r
           | Some leg \<Rightarrow> r\<lparr> rq_legs := (rq_legs r)[unat l := f leg] \<rparr>)"

definition request_set_claim :: "res_idx option \<Rightarrow> request \<Rightarrow> request" where
  "request_set_claim c r = r\<lparr> rq_claim := c \<rparr>"

definition request_set_state :: "request_state \<Rightarrow> request \<Rightarrow> request" where
  "request_set_state st r = r\<lparr> rq_state := st \<rparr>"

definition request_set_head :: "link \<Rightarrow> request \<Rightarrow> request" where
  "request_set_head l r = r\<lparr> rq_committed_head := l \<rparr>"

record selection =
  sel_quote :: quote_idx
  sel_price :: price

section \<open>Settlement status\<close>

datatype tx_status = TxUnknown | TxPending | TxSettled | TxReverted

fun tx_is_terminal :: "tx_status \<Rightarrow> bool" where
  "tx_is_terminal TxSettled = True"
| "tx_is_terminal TxReverted = True"
| "tx_is_terminal _ = False"

type_synonym escrow_id = u32

lemmas record_setters =
  quote_set_claim_def quote_set_state_def quote_set_next_def
  request_set_claim_def request_set_state_def request_set_head_def

declare record_setters [claim_simps]

lemma request_leg_update_other [simp]:
  "rq_requester (request_leg_update l f r) = rq_requester r"
  "rq_deadline (request_leg_update l f r) = rq_deadline r"
  "rq_state (request_leg_update l f r) = rq_state r"
  "rq_n_legs (request_leg_update l f r) = rq_n_legs r"
  "rq_claim (request_leg_update l f r) = rq_claim r"
  "rq_committed_head (request_leg_update l f r) = rq_committed_head r"
  "length (rq_legs (request_leg_update l f r)) = length (rq_legs r)"
  by (simp_all add: request_leg_update_def split: option.split)

lemma request_leg_of_update:
  "request_leg (request_leg_update l f r) k =
     (if k = l then map_option f (request_leg r k) else request_leg r k)"
  by (auto simp: request_leg_def request_leg_update_def request_legs_def nth_opt_def
      nth_list_update word_unat_eq_iff split: option.split)

lemma request_legs_setters [claim_simps]:
  "request_leg (request_set_claim c r) l = request_leg r l"
  "request_leg (request_set_state st r) l = request_leg r l"
  "request_leg (request_set_head h r) l = request_leg r l"
  "request_legs (request_set_claim c r) = request_legs r"
  "request_legs (request_set_state st r) = request_legs r"
  "request_legs (request_set_head h r) = request_legs r"
  by (simp_all add: request_leg_def request_legs_def record_setters)

end
