(* ===== verification/Contract.thy ===== *)
theory Contract
  imports Config
begin

text \<open>
  Contracts and the oracle status beside them (\<open>crates/core/src/contract.rs\<close>): the monotone
  status, the outcome derived at the point of use, and the payout mapping.
\<close>

section \<open>Data and operations\<close>

datatype outcome = OutcomeYes | OutcomeNo | OutcomeVoid

datatype oracle_status = Silent | InProgress | Final outcome

datatype contract_state = Unresolved | Resolved outcome

datatype not_yet = NotYet

record contract =
  c_event_date :: ts
  c_state :: contract_state
  c_oracle_status :: oracle_status

definition contract_new :: "ts \<Rightarrow> contract" where
  "contract_new event_date =
     \<lparr> c_event_date = event_date, c_state = Unresolved, c_oracle_status = Silent \<rparr>"

fun status_rank :: "oracle_status \<Rightarrow> u8" where
  "status_rank Silent = 0"
| "status_rank InProgress = 1"
| "status_rank (Final _) = 2"

definition may_report :: "contract \<Rightarrow> oracle_status \<Rightarrow> bool" where
  "may_report c next \<longleftrightarrow> status_rank next > status_rank (c_oracle_status c)"

definition contract_set_oracle_status :: "oracle_status \<Rightarrow> contract \<Rightarrow> contract" where
  "contract_set_oracle_status status c =
     (let c' = c\<lparr> c_oracle_status := status \<rparr> in
      case status of Final outcome \<Rightarrow> c'\<lparr> c_state := Resolved outcome \<rparr> | _ \<Rightarrow> c')"

definition contract_outcome :: "contract \<Rightarrow> ts \<Rightarrow> dur \<Rightarrow> not_yet + outcome" where
  "contract_outcome c now grace =
     (case c_state c of
        Resolved outcome \<Rightarrow> Inr outcome
      | Unresolved \<Rightarrow>
          (case c_oracle_status c of
             Silent \<Rightarrow>
               (case ts_checked_add (c_event_date c) grace of
                  Some stall_exit \<Rightarrow> if now > stall_exit then Inr OutcomeVoid else Inl NotYet
                | None \<Rightarrow> Inl NotYet)
           | _ \<Rightarrow> Inl NotYet))"

fun payout_goes_to_requester :: "outcome \<Rightarrow> side \<Rightarrow> bool option" where
  "payout_goes_to_requester OutcomeYes SideYes = Some True"
| "payout_goes_to_requester OutcomeNo SideNo = Some True"
| "payout_goes_to_requester OutcomeYes SideNo = Some False"
| "payout_goes_to_requester OutcomeNo SideYes = Some False"
| "payout_goes_to_requester OutcomeVoid _ = None"

section \<open>Resolution\<close>

text \<open>Status and state agree: resolved exactly when the status is final, with the same outcome.\<close>

definition contract_wf :: "contract \<Rightarrow> bool" where
  "contract_wf c \<longleftrightarrow> (\<forall>out. c_state c = Resolved out \<longleftrightarrow> c_oracle_status c = Final out)"

text \<open>The engine's only write to a contract: an admissible report.\<close>

definition contract_report :: "contract \<Rightarrow> oracle_status \<Rightarrow> contract" where
  "contract_report c status = (if may_report c status then contract_set_oracle_status status c else c)"

lemma contract_new_wf: "contract_wf (contract_new d)"
  by (simp add: contract_wf_def contract_new_def)

lemma status_rank_gt: "status_rank a < status_rank b \<longleftrightarrow>
    (a = Silent \<and> b \<noteq> Silent) \<or> (a = InProgress \<and> (\<exists>out. b = Final out))"
  by (cases a; cases b) (simp_all add: word_less_nat_alt)

lemma set_oracle_status_wf:
  assumes "contract_wf c" and "may_report c st"
  shows "contract_wf (contract_set_oracle_status st c)"
proof -
  have "c_oracle_status c \<noteq> Final out" for out
    using assms(2) by (auto simp: may_report_def status_rank_gt)
  with assms(1) have "c_state c = Unresolved"
    by (cases "c_state c") (auto simp: contract_wf_def)
  then show ?thesis
    by (cases st) (auto simp: contract_set_oracle_status_def contract_wf_def)
qed

lemma contract_report_wf: "contract_wf c \<Longrightarrow> contract_wf (contract_report c st)"
  by (simp add: contract_report_def set_oracle_status_wf)

lemma contract_report_date [simp]: "c_event_date (contract_report c st) = c_event_date c"
  by (simp add: contract_report_def contract_set_oracle_status_def Let_def split: oracle_status.split)

lemma final_report_kept:
  "c_oracle_status c = Final out \<Longrightarrow> contract_report c st = c"
  by (simp add: contract_report_def may_report_def status_rank_gt del: status_rank.simps)

lemma final_kept_fold:
  "c_oracle_status c = Final out \<Longrightarrow> foldl contract_report c reports = c"
  by (induction reports arbitrary: c) (simp_all add: final_report_kept)

lemma reported_not_silent:
  "c_oracle_status c \<noteq> Silent \<Longrightarrow> c_oracle_status (contract_report c st) \<noteq> Silent"
  by (auto simp: contract_report_def contract_set_oracle_status_def may_report_def Let_def
      status_rank_gt split: oracle_status.split)

lemma fold_report_wf: "contract_wf c \<Longrightarrow> contract_wf (foldl contract_report c reports)"
  by (induction reports arbitrary: c) (simp_all add: contract_report_wf)

lemma outcome_resolved:
  "c_oracle_status c = Final out \<Longrightarrow> contract_wf c \<Longrightarrow> contract_outcome c now g = Inr out"
  by (auto simp: contract_outcome_def contract_wf_def dest!: spec[of _ out])

lemma outcome_in_progress:
  assumes "c_oracle_status c = InProgress" and "contract_wf c"
  shows "contract_outcome c now g = Inl NotYet"
proof -
  have "c_state c = Unresolved" using assms by (cases "c_state c") (auto simp: contract_wf_def)
  with assms(1) show ?thesis by (simp add: contract_outcome_def)
qed

section \<open>Properties\<close>

text \<open>
  The outcome of a contract is settled once and for all: after any sequence of admissible
  reports that ends with a final status, every later sequence of reports leaves the contract, and so
  the outcome every escrow on it is paid by, unchanged at every instant; and while the oracle is in
  progress the contract never times out into a void outcome.
\<close>

theorem final_outcome_is_immutable:
  assumes "c = foldl contract_report (contract_new date) earlier"
  shows "(\<forall>out. c_oracle_status c = Final out \<longrightarrow>
            (\<forall>later now. contract_outcome (foldl contract_report c later) now grace = Inr out)) \<and>
         (c_oracle_status c = InProgress \<longrightarrow> (\<forall>now. contract_outcome c now grace = Inl NotYet))"
proof -
  have wf: "contract_wf c" unfolding assms by (intro fold_report_wf contract_new_wf)
  then show ?thesis by (auto simp: final_kept_fold outcome_resolved outcome_in_progress)
qed

theorem final_outcome_is_immutable_witness:
  "contract_outcome (foldl contract_report
      (foldl contract_report (contract_new 100) [InProgress, Final OutcomeYes])
      [Silent, Final OutcomeNo, InProgress]) 999999 10 = Inr OutcomeYes \<and>
   contract_outcome (foldl contract_report (contract_new 100) [InProgress]) 999999 10 = Inl NotYet"
proof -
  have "c_oracle_status (foldl contract_report (contract_new 100) [InProgress, Final OutcomeYes])
      = Final OutcomeYes"
    and "c_oracle_status (foldl contract_report (contract_new 100) [InProgress]) = InProgress"
    by code_simp+
  with final_outcome_is_immutable[OF refl, of 100 "[InProgress, Final OutcomeYes]" 10]
    final_outcome_is_immutable[OF refl, of 100 "[InProgress]" 10]
  show ?thesis by blast
qed

text \<open>
  The stall exit opens by time alone: on a contract built by any sequence of reports, the derived
  outcome is void without a report exactly when the oracle has never spoken and the stall grace
  after the event date (without wrap-around) is strictly in the past.
\<close>

theorem void_by_stall_iff_silent_and_late:
  assumes "c = foldl contract_report (contract_new date) reports"
  shows "contract_outcome c now grace = Inr OutcomeVoid \<longleftrightarrow>
    c_oracle_status c = Final OutcomeVoid \<or>
    (c_oracle_status c = Silent \<and> unat date + unat grace < unat now)"
proof -
  have wf: "contract_wf c" unfolding assms by (intro fold_report_wf contract_new_wf)
  have "c_event_date (foldl contract_report c' rs) = c_event_date c'" for c' rs
    by (induction rs arbitrary: c') simp_all
  then have d: "c_event_date c = date" by (simp add: assms contract_new_def)
  show ?thesis
  proof (cases "c_oracle_status c")
    case Silent
    then have "c_state c = Unresolved" using wf by (cases "c_state c") (auto simp: contract_wf_def)
    moreover have "(case ts_checked_add date grace of None \<Rightarrow> Inl NotYet
        | Some t \<Rightarrow> if now > t then Inr OutcomeVoid else Inl NotYet) = Inr OutcomeVoid
        \<longleftrightarrow> unat date + unat grace < unat now"
    proof (cases "ts_checked_add date grace")
      case None
      then have "2 ^ 64 \<le> unat date + unat grace" by (simp add: money_defs checked_add_None_iff)
      with None unat_lt_size[of now] show ?thesis by simp
    next
      case (Some t)
      then have "unat t = unat date + unat grace" by (simp add: money_defs checked_add_Some_iff)
      with Some show ?thesis by (simp add: word_less_nat_alt)
    qed
    ultimately show ?thesis using Silent by (simp add: contract_outcome_def d)
  qed (use wf in \<open>auto simp: outcome_resolved outcome_in_progress\<close>)
qed

theorem void_by_stall_iff_silent_and_late_witness:
  "contract_outcome (foldl contract_report (contract_new 100) []) 111 10 = Inr OutcomeVoid \<and>
   contract_outcome (foldl contract_report (contract_new 100) []) 110 10 \<noteq> Inr OutcomeVoid"
  using void_by_stall_iff_silent_and_late[OF refl, of 100 "[]" 111 10]
    void_by_stall_iff_silent_and_late[OF refl, of 100 "[]" 110 10]
  by (simp add: contract_new_def)

end
