(* ===== verification/Ledger.thy ===== *)
theory Ledger
  imports Market_Records Contract
begin

text \<open>
  The ledger of \<open>crates/core/src/ledger.rs\<close>: the balance mirror, the contract table, the claim,
  request and quote slabs, and the operations that move a claim between free, reserved and committed
  capital. Every operation is explicit state passing in the order of the source's writes. A walk
  along an intrusive chain that the source does not bound is a \<open>partial_function\<close>, so an
  operation that might not return has an option result whose \<open>None\<close> is not returning; the theory
  \<open>Ledger_Inv\<close> shows that none of them occurs on a reachable ledger.
\<close>

section \<open>Errors and state\<close>

datatype slab_kind = ReservationSlab | RequestSlab | QuoteSlab

datatype ledger_error =
    UnknownAccount
  | SlabExhausted slab_kind
  | StaleReservation
  | ReservationCommitted
  | StaleOwner
  | OwnerAlreadyClaimed
  | OwnerStillClaimed
  | StaleRequest
  | InsufficientFree
  | AmountOverflow
  | UnknownContract
  | ContractIdentityChanged

datatype invariant_violation =
    ReservedTotalMismatch account_idx
  | CommittedTotalMismatch account_idx
  | ExpiryChainOutOfOrder account_idx
  | ChainLinksInconsistent account_idx
  | CommittedClaimOnExpiryChain account_idx
  | ClaimOnForeignChain account_idx
  | ReservedClaimOnCommittedList req_idx
  | ClaimOnForeignCommittedList req_idx
  | OwnerDoesNotResolve res_idx
  | OwnerDoesNotPointBack res_idx
  | ClaimNotOnExactlyOneChain
  | ExpiredClaimAfterNormalisation account_idx
  | ClaimCoverageBroken account_idx
  | ReservedClaimOwnerNotStanding res_idx
  | CommittedClaimOwnerNotConsumed res_idx
  | CommittedClaimRequestNotSettling res_idx

record ledger =
  l_accounts :: "mirrored_balance list"
  l_contracts :: "contract option list"
  l_reservations :: "reservation slab"
  l_requests :: "request slab"
  l_quotes :: "quote slab"

type_synonym 'a lres = "((ledger_error + 'a) \<times> ledger) option"

text \<open>\<open>None\<close> is the panic of a slab whose capacity is not below the nil link.\<close>

definition ledger_new :: "config \<Rightarrow> ledger option" where
  "ledger_new config = do {
     reservations \<leftarrow> slab_with_capacity (max_reservations config);
     requests \<leftarrow> slab_with_capacity (max_requests config);
     quotes \<leftarrow> slab_with_capacity (max_quotes config);
     Some \<lparr> l_accounts = replicate (unat (max_accounts config)) mirrored_balance_default,
            l_contracts = replicate (unat (max_contracts config)) None,
            l_reservations = reservations, l_requests = requests, l_quotes = quotes \<rparr> }"

section \<open>Lookups and field writes\<close>

definition vec_len :: "'a list \<Rightarrow> u32" where
  "vec_len xs = (if length xs < 2 ^ 32 then word_of_nat (length xs) else u_max)"

definition account_count :: "ledger \<Rightarrow> u32" where
  "account_count l = vec_len (l_accounts l)"

definition account :: "ledger \<Rightarrow> account_idx \<Rightarrow> mirrored_balance option" where
  "account l a = get_idx (l_accounts l) a"

definition account_update :: "account_idx \<Rightarrow> (mirrored_balance \<Rightarrow> mirrored_balance) \<Rightarrow> ledger \<Rightarrow> ledger" where
  "account_update a f l = l\<lparr> l_accounts := upd_idx (l_accounts l) a f \<rparr>"

definition contract_at :: "ledger \<Rightarrow> contract_idx \<Rightarrow> contract option" where
  "contract_at l c = Option.bind (get_idx (l_contracts l) c) (\<lambda>entry. entry)"

definition contract_capacity :: "ledger \<Rightarrow> u32" where
  "contract_capacity l = vec_len (l_contracts l)"

definition request :: "ledger \<Rightarrow> req_idx \<Rightarrow> request option" where
  "request l r = slab_get (l_requests l) r"

definition request_update :: "req_idx \<Rightarrow> (request \<Rightarrow> request) \<Rightarrow> ledger \<Rightarrow> ledger" where
  "request_update r f l = l\<lparr> l_requests := slab_update (l_requests l) r f \<rparr>"

definition request_handle_at :: "ledger \<Rightarrow> u32 \<Rightarrow> req_idx option" where
  "request_handle_at l index = slab_handle_at (l_requests l) index"

definition quote :: "ledger \<Rightarrow> quote_idx \<Rightarrow> quote option" where
  "quote l q = slab_get (l_quotes l) q"

definition quote_update :: "quote_idx \<Rightarrow> (quote \<Rightarrow> quote) \<Rightarrow> ledger \<Rightarrow> ledger" where
  "quote_update q f l = l\<lparr> l_quotes := slab_update (l_quotes l) q f \<rparr>"

definition quote_handle_at :: "ledger \<Rightarrow> u32 \<Rightarrow> quote_idx option" where
  "quote_handle_at l index = slab_handle_at (l_quotes l) index"

definition reservation :: "ledger \<Rightarrow> res_idx \<Rightarrow> reservation option" where
  "reservation l claim = slab_get (l_reservations l) claim"

definition reservation_at :: "ledger \<Rightarrow> u32 \<Rightarrow> reservation option" where
  "reservation_at l index =
     (case slab_handle_at (l_reservations l) index of
        None \<Rightarrow> None
      | Some h \<Rightarrow> slab_get (l_reservations l) h)"

definition reservation_at_update :: "u32 \<Rightarrow> (reservation \<Rightarrow> reservation) \<Rightarrow> ledger \<Rightarrow> ledger" where
  "reservation_at_update index f l =
     (case slab_handle_at (l_reservations l) index of
        None \<Rightarrow> l
      | Some h \<Rightarrow> l\<lparr> l_reservations := slab_update (l_reservations l) h f \<rparr>)"

definition remove_claim :: "res_idx \<Rightarrow> ledger \<Rightarrow> ledger" where
  "remove_claim claim l = l\<lparr> l_reservations := snd (slab_remove (l_reservations l) claim) \<rparr>"

definition owner_claim :: "ledger \<Rightarrow> res_owner \<Rightarrow> res_idx option option" where
  "owner_claim l owner =
     (case owner of
        OwnerQuote q \<Rightarrow> map_option q_claim (quote l q)
      | OwnerRequest r \<Rightarrow> map_option rq_claim (request l r))"

definition set_owner_claim :: "res_owner \<Rightarrow> res_idx option \<Rightarrow> ledger \<Rightarrow> ledger" where
  "set_owner_claim owner claim l =
     (case owner of
        OwnerQuote q \<Rightarrow> quote_update q (quote_set_claim claim) l
      | OwnerRequest r \<Rightarrow> request_update r (request_set_claim claim) l)"

section \<open>The mirror and the contract table\<close>

definition apply_mirror_update :: "ledger \<Rightarrow> account_idx \<Rightarrow> amount \<Rightarrow> (ledger_error + unit) \<times> ledger" where
  "apply_mirror_update l a free =
     (case account l a of
        None \<Rightarrow> (Inl UnknownAccount, l)
      | Some _ \<Rightarrow> (Inr (), account_update a (set_free free) l))"

definition register_contract :: "ledger \<Rightarrow> contract_idx \<Rightarrow> ts \<Rightarrow> (ledger_error + unit) \<times> ledger" where
  "register_contract l c event_date =
     (case get_idx (l_contracts l) c of
        None \<Rightarrow> (Inl UnknownContract, l)
      | Some (Some existing) \<Rightarrow>
          if c_event_date existing = event_date then (Inr (), l) else (Inl ContractIdentityChanged, l)
      | Some None \<Rightarrow>
          (Inr (), l\<lparr> l_contracts := upd_idx (l_contracts l) c (\<lambda>_. Some (contract_new event_date)) \<rparr>))"

definition set_oracle_status :: "contract_idx \<Rightarrow> oracle_status \<Rightarrow> ledger \<Rightarrow> ledger" where
  "set_oracle_status c status l =
     l\<lparr> l_contracts := upd_idx (l_contracts l) c (map_option (contract_set_oracle_status status)) \<rparr>"

section \<open>Freeing owners\<close>

definition close_quote :: "ledger \<Rightarrow> quote_idx \<Rightarrow> (ledger_error + unit) \<times> ledger" where
  "close_quote l q =
     (case quote l q of
        None \<Rightarrow> (Inl StaleOwner, l)
      | Some record \<Rightarrow>
          if q_claim record \<noteq> None then (Inl OwnerStillClaimed, l)
          else (Inr (), l\<lparr> l_quotes := snd (slab_remove (l_quotes l) q) \<rparr>))"

definition close_request :: "ledger \<Rightarrow> req_idx \<Rightarrow> (ledger_error + unit) \<times> ledger" where
  "close_request l r =
     (case request l r of
        None \<Rightarrow> (Inl StaleRequest, l)
      | Some entry \<Rightarrow>
          if rq_claim entry \<noteq> None \<or> link_index (rq_committed_head entry) \<noteq> None
          then (Inl OwnerStillClaimed, l)
          else (Inr (), l\<lparr> l_requests := snd (slab_remove (l_requests l) r) \<rparr>))"

section \<open>Chain plumbing\<close>

definition splice_after :: "account_idx \<Rightarrow> u32 \<Rightarrow> u32 \<Rightarrow> ledger \<Rightarrow> ledger" where
  "splice_after a index after l =
     (let nx = (case reservation_at l after of None \<Rightarrow> NIL | Some r \<Rightarrow> snd (neighbours r));
          l1 = reservation_at_update after (set_next (link_to index)) l;
          l2 = reservation_at_update index (\<lambda>r. set_next nx (set_prev (link_to after) r)) l1
      in case link_index nx of
           Some n \<Rightarrow> reservation_at_update n (set_prev (link_to index)) l2
         | None \<Rightarrow> account_update a (expiry_tail_update (\<lambda>_. link_to index)) l2)"

definition splice_at_head :: "account_idx \<Rightarrow> u32 \<Rightarrow> ledger \<Rightarrow> ledger" where
  "splice_at_head a index l =
     (let head = (case account l a of None \<Rightarrow> NIL | Some entry \<Rightarrow> expiry_head entry);
          l1 = reservation_at_update index (\<lambda>r. set_next head (set_prev NIL r)) l;
          l2 = (case link_index head of
                  Some h \<Rightarrow> reservation_at_update h (set_prev (link_to index)) l1
                | None \<Rightarrow> account_update a (expiry_tail_update (\<lambda>_. link_to index)) l1)
      in account_update a (expiry_head_update (\<lambda>_. link_to index)) l2)"

text \<open>
  The walk back from the tail: the inner option is the \<open>break\<close> value of the source's loop (the
  entry to insert after), the outer one whether the loop ends.
\<close>

partial_function (option) expiry_position :: "ledger \<Rightarrow> ts \<Rightarrow> link \<Rightarrow> u32 option option" where
  "expiry_position l expires_at cursor =
     (case link_index cursor of
        None \<Rightarrow> Some None
      | Some candidate \<Rightarrow>
          (case reservation_at l candidate of
             None \<Rightarrow> Some None
           | Some r \<Rightarrow>
               (case res_links r of
                  Committed _ _ _ \<Rightarrow> Some None
                | Reserved theirs prev _ \<Rightarrow>
                    if theirs \<le> expires_at then Some (Some candidate)
                    else expiry_position l expires_at prev)))"

declare expiry_position.simps [code]

definition link_into_expiry_chain :: "account_idx \<Rightarrow> u32 \<Rightarrow> ts \<Rightarrow> ledger \<Rightarrow> ledger option" where
  "link_into_expiry_chain a index expires_at l =
     (case account l a of
        None \<Rightarrow> Some l
      | Some entry \<Rightarrow>
          (case expiry_position l expires_at (expiry_tail entry) of
             None \<Rightarrow> None
           | Some (Some after) \<Rightarrow> Some (splice_after a index after l)
           | Some None \<Rightarrow> Some (splice_at_head a index l)))"

definition unlink_from_chain :: "account_idx \<Rightarrow> u32 \<Rightarrow> ledger \<Rightarrow> ledger" where
  "unlink_from_chain a index l =
     (case reservation_at l index of
        None \<Rightarrow> l
      | Some r \<Rightarrow>
          (let (prev, nx) = neighbours r;
               l1 = (case link_index prev of
                       Some p \<Rightarrow> reservation_at_update p (set_next nx) l
                     | None \<Rightarrow> account_update a (expiry_head_update (\<lambda>_. nx)) l);
               l2 = (case link_index nx of
                       Some n \<Rightarrow> reservation_at_update n (set_prev prev) l1
                     | None \<Rightarrow> account_update a (expiry_tail_update (\<lambda>_. prev)) l1)
           in reservation_at_update index (\<lambda>r. set_next NIL (set_prev NIL r)) l2))"

definition link_into_committed_list :: "req_idx \<Rightarrow> u32 \<Rightarrow> ledger \<Rightarrow> ledger" where
  "link_into_committed_list req index l =
     (let head = (case request l req of None \<Rightarrow> NIL | Some r \<Rightarrow> rq_committed_head r);
          l1 = reservation_at_update index (set_links (Committed req NIL head)) l;
          l2 = (case link_index head of
                  Some h \<Rightarrow> reservation_at_update h (set_prev (link_to index)) l1
                | None \<Rightarrow> l1)
      in request_update req (request_set_head (link_to index)) l2)"

section \<open>Moving a claim\<close>

definition check_reservable :: "ledger \<Rightarrow> account_idx \<Rightarrow> amount \<Rightarrow> ledger_error + amount" where
  "check_reservable l a amount =
     (case account l a of
        None \<Rightarrow> Inl UnknownAccount
      | Some entry \<Rightarrow>
          (case do { total \<leftarrow> amount_checked_add (mb_reserved entry) (mb_committed entry);
                     amount_checked_add total amount } of
             None \<Rightarrow> Inl AmountOverflow
           | Some claimed \<Rightarrow>
               if claimed > mb_free entry then Inl InsufficientFree
               else ok_or (amount_checked_add (mb_reserved entry) amount) AmountOverflow))"

definition link_claim ::
  "account_idx \<Rightarrow> res_idx \<Rightarrow> ts \<Rightarrow> res_owner \<Rightarrow> amount \<Rightarrow> ledger \<Rightarrow> ledger option" where
  "link_claim a claim expires_at owner reserved l =
     (case link_into_expiry_chain a (h_index claim) expires_at l of
        None \<Rightarrow> None
      | Some l1 \<Rightarrow>
          Some (set_owner_claim owner (Some claim) (account_update a (set_reserved reserved) l1)))"

text \<open>The shared tail of the three reserving operations: insert the claim, then link it.\<close>

definition insert_claim ::
  "account_idx \<Rightarrow> amount \<Rightarrow> res_owner \<Rightarrow> ts \<Rightarrow> ledger \<Rightarrow> ledger_error + res_idx \<times> ledger" where
  "insert_claim a amount owner expires_at l =
     (case slab_insert (l_reservations l) (reservation_reserved a amount owner expires_at) of
        Inl _ \<Rightarrow> Inl (SlabExhausted ReservationSlab)
      | Inr (claim, reservations) \<Rightarrow> Inr (claim, l\<lparr> l_reservations := reservations \<rparr>))"

definition reserve :: "ledger \<Rightarrow> account_idx \<Rightarrow> amount \<Rightarrow> ts \<Rightarrow> res_owner \<Rightarrow> res_idx lres" where
  "reserve l a amount expires_at owner =
     (case owner_claim l owner of
        None \<Rightarrow> Some (Inl StaleOwner, l)
      | Some (Some _) \<Rightarrow> Some (Inl OwnerAlreadyClaimed, l)
      | Some None \<Rightarrow>
          (case check_reservable l a amount of
             Inl e \<Rightarrow> Some (Inl e, l)
           | Inr reserved \<Rightarrow>
               (case insert_claim a amount owner expires_at l of
                  Inl e \<Rightarrow> Some (Inl e, l)
                | Inr (claim, l1) \<Rightarrow>
                    map_option (\<lambda>l2. (Inr claim, l2)) (link_claim a claim expires_at owner reserved l1))))"

text \<open>
  Reserving against a fresh owner. A failed claim insert after the owner's insert would leave the
  owner's slot taken: the written order is kept, and the room checks make the branch unreachable.
\<close>

definition open_quote_reserving :: "ledger \<Rightarrow> quote \<Rightarrow> amount \<Rightarrow> (quote_idx \<times> res_idx) lres" where
  "open_quote_reserving l record amount =
     (let expires_at = q_expires_at record; a = q_maker record in
      case check_reservable l a amount of
        Inl e \<Rightarrow> Some (Inl e, l)
      | Inr reserved \<Rightarrow>
          if \<not> slab_has_room (l_quotes l) then Some (Inl (SlabExhausted QuoteSlab), l)
          else if \<not> slab_has_room (l_reservations l) then Some (Inl (SlabExhausted ReservationSlab), l)
          else (case slab_insert (l_quotes l) record of
                  Inl _ \<Rightarrow> Some (Inl (SlabExhausted QuoteSlab), l)
                | Inr (q, quotes) \<Rightarrow>
                    (let l1 = l\<lparr> l_quotes := quotes \<rparr>; owner = OwnerQuote q in
                     case insert_claim a amount owner expires_at l1 of
                       Inl e \<Rightarrow> Some (Inl e, l1)
                     | Inr (claim, l2) \<Rightarrow>
                         map_option (\<lambda>l3. (Inr (q, claim), l3))
                           (link_claim a claim expires_at owner reserved l2))))"

definition open_request_reserving :: "ledger \<Rightarrow> request \<Rightarrow> amount \<Rightarrow> (req_idx \<times> res_idx) lres" where
  "open_request_reserving l record amount =
     (let expires_at = rq_deadline record; a = rq_requester record in
      case check_reservable l a amount of
        Inl e \<Rightarrow> Some (Inl e, l)
      | Inr reserved \<Rightarrow>
          if \<not> slab_has_room (l_requests l) then Some (Inl (SlabExhausted RequestSlab), l)
          else if \<not> slab_has_room (l_reservations l) then Some (Inl (SlabExhausted ReservationSlab), l)
          else (case slab_insert (l_requests l) record of
                  Inl _ \<Rightarrow> Some (Inl (SlabExhausted RequestSlab), l)
                | Inr (r, requests) \<Rightarrow>
                    (let l1 = l\<lparr> l_requests := requests \<rparr>; owner = OwnerRequest r in
                     case insert_claim a amount owner expires_at l1 of
                       Inl e \<Rightarrow> Some (Inl e, l1)
                     | Inr (claim, l2) \<Rightarrow>
                         map_option (\<lambda>l3. (Inr (r, claim), l3))
                           (link_claim a claim expires_at owner reserved l2))))"

definition release :: "ledger \<Rightarrow> res_idx \<Rightarrow> (ledger_error + amount) \<times> ledger" where
  "release l claim =
     (case reservation l claim of
        None \<Rightarrow> (Inl StaleReservation, l)
      | Some r \<Rightarrow>
          if is_committed r then (Inl ReservationCommitted, l)
          else
            (let a = res_account r; amount = res_amount r; owner = res_owner_of r in
             case account l a of
               None \<Rightarrow> (Inl UnknownAccount, l)
             | Some entry \<Rightarrow>
                 (case amount_checked_sub (mb_reserved entry) amount of
                    None \<Rightarrow> (Inl AmountOverflow, l)
                  | Some reserved \<Rightarrow>
                      (Inr amount,
                       remove_claim claim
                         (set_owner_claim owner None
                           (account_update a (set_reserved reserved)
                             (unlink_from_chain a (h_index claim) l)))))))"

definition commit :: "ledger \<Rightarrow> res_idx \<Rightarrow> req_idx \<Rightarrow> (ledger_error + unit) \<times> ledger" where
  "commit l claim req =
     (case reservation l claim of
        None \<Rightarrow> (Inl StaleReservation, l)
      | Some r \<Rightarrow>
          if is_committed r then (Inl ReservationCommitted, l)
          else
            (let a = res_account r; amount = res_amount r in
             if request l req = None then (Inl StaleRequest, l)
             else
               (case account l a of
                  None \<Rightarrow> (Inl UnknownAccount, l)
                | Some entry \<Rightarrow>
                    (case amount_checked_sub (mb_reserved entry) amount of
                       None \<Rightarrow> (Inl AmountOverflow, l)
                     | Some reserved \<Rightarrow>
                         (case amount_checked_add (mb_committed entry) amount of
                            None \<Rightarrow> (Inl AmountOverflow, l)
                          | Some committed \<Rightarrow>
                              (Inr (),
                               account_update a (\<lambda>b. set_committed committed (set_reserved reserved b))
                                 (link_into_committed_list req (h_index claim)
                                   (unlink_from_chain a (h_index claim) l))))))))"

section \<open>Normalisation\<close>

text \<open>One reclamation of the loop of \<open>release_expired\<close>.\<close>

definition reclaim :: "account_idx \<Rightarrow> u32 \<Rightarrow> handle \<Rightarrow> reservation \<Rightarrow> ledger \<Rightarrow> ledger" where
  "reclaim a index h r l =
     remove_claim h
       (set_owner_claim (res_owner_of r) None
         (account_update a (\<lambda>b. set_reserved (saturating_sub (mb_reserved b) (res_amount r)) b)
           (unlink_from_chain a index l)))"

definition occupied :: "ledger \<Rightarrow> u32 set" where
  "occupied l = {i. slab_view (l_reservations l) i \<noteq> None}"

lemma account_update_frame [simp]:
  "l_reservations (account_update a f l) = l_reservations l"
  "l_requests (account_update a f l) = l_requests l"
  "l_quotes (account_update a f l) = l_quotes l"
  "l_contracts (account_update a f l) = l_contracts l"
  by (simp_all add: account_update_def)

lemma set_owner_claim_frame [simp]:
  "l_reservations (set_owner_claim ow c l) = l_reservations l"
  "l_accounts (set_owner_claim ow c l) = l_accounts l"
  "l_contracts (set_owner_claim ow c l) = l_contracts l"
  by (simp_all add: set_owner_claim_def quote_update_def request_update_def split: res_owner.split)

lemma reservation_at_update_frame [simp]:
  "l_accounts (reservation_at_update i f l) = l_accounts l"
  "l_requests (reservation_at_update i f l) = l_requests l"
  "l_quotes (reservation_at_update i f l) = l_quotes l"
  "l_contracts (reservation_at_update i f l) = l_contracts l"
  by (simp_all add: reservation_at_update_def split: option.split)

lemma slab_view_at_update:
  "slab_view (l_reservations (reservation_at_update i f l)) j =
     (if j = i then map_option (\<lambda>(g, r). (g, f r)) (slab_view (l_reservations l) j)
      else slab_view (l_reservations l) j)"
  by (auto simp: reservation_at_update_def slab_handle_at_view slab_view_update slab_get_view
      split: option.split)

lemma reservation_at_view: "reservation_at l i = map_option snd (slab_view (l_reservations l) i)"
  by (auto simp: reservation_at_def slab_handle_at_view slab_get_view split: option.splits)

lemma occupied_at_update [simp]: "occupied (reservation_at_update i f l) = occupied l"
  by (auto simp: occupied_def slab_view_at_update split: if_splits)

lemma occupied_frame [simp]:
  "occupied (account_update a f l) = occupied l"
  "occupied (set_owner_claim ow c l) = occupied l"
  by (simp_all add: occupied_def)

lemma occupied_unlink [simp]: "occupied (unlink_from_chain a i l) = occupied l"
  by (auto simp: unlink_from_chain_def Let_def split: option.split prod.split)

lemma finite_u32 [simp]: "finite (A :: u32 set)"
  by (rule finite_subset[OF subset_UNIV finite])

lemma handle_at_update [simp]:
  "slab_handle_at (l_reservations (reservation_at_update i f l)) j = slab_handle_at (l_reservations l) j"
  by (cases "slab_view (l_reservations l) j") (auto simp: slab_handle_at_view slab_view_at_update)

lemma handle_at_unlink [simp]:
  "slab_handle_at (l_reservations (unlink_from_chain a i l)) j = slab_handle_at (l_reservations l) j"
  by (auto simp: unlink_from_chain_def Let_def split: option.split prod.split)

lemma card_remove_claim:
  assumes "slab_handle_at (l_reservations l) i = Some h"
  shows "card (occupied (remove_claim h l)) < card (occupied l)"
proof -
  from assms obtain v where "h_index h = i" "slab_get (l_reservations l) h = Some v"
    by (auto simp: slab_handle_at_Some_iff slab_get_Some_iff)
  then have "occupied (remove_claim h l) = occupied l - {i}" and "i \<in> occupied l"
    by (auto simp: occupied_def remove_claim_def slab_view_remove slab_get_view split: if_splits option.splits)
  then show ?thesis by (metis card_Diff1_less finite_u32)
qed

lemma card_reclaim:
  "slab_handle_at (l_reservations l) i = Some h \<Longrightarrow>
     card (occupied (reclaim a i h r l)) < card (occupied l)"
  using card_remove_claim[of "set_owner_claim (res_owner_of r) None (account_update a
      (\<lambda>b. set_reserved (saturating_sub (mb_reserved b) (res_amount r)) b) (unlink_from_chain a i l))" i h]
  by (simp add: reclaim_def)

text \<open>
  The loop of \<open>release_expired\<close>. It always ends, on any ledger: each turn frees a slot of the
  claim slab.
\<close>

function reclaim_loop :: "account_idx \<Rightarrow> ts \<Rightarrow> link \<Rightarrow> u32 \<Rightarrow> ledger \<Rightarrow> u32 \<times> ledger" where
  "reclaim_loop a now cursor reclaimed l =
     (case link_index cursor of
        None \<Rightarrow> (reclaimed, l)
      | Some index \<Rightarrow>
          (case reservation_at l index of
             None \<Rightarrow> (reclaimed, l)
           | Some r \<Rightarrow>
               (case res_is_expired_at r now of
                  None \<Rightarrow> (reclaimed, l)
                | Some expired \<Rightarrow>
                    if \<not> expired then (reclaimed, l)
                    else
                      (case slab_handle_at (l_reservations l) index of
                         None \<Rightarrow> (reclaimed, l)
                       | Some h \<Rightarrow>
                           reclaim_loop a now (snd (neighbours r)) (saturating_add reclaimed 1)
                             (reclaim a index h r l)))))"
  by pat_completeness auto

termination
  by (relation "measure (\<lambda>(a, now, cursor, reclaimed, l). card (occupied l))")
    (auto intro: card_reclaim)

declare reclaim_loop.simps [simp del]

definition release_expired :: "ledger \<Rightarrow> account_idx \<Rightarrow> ts \<Rightarrow> (ledger_error + u32) \<times> ledger" where
  "release_expired l a now =
     (case account l a of
        None \<Rightarrow> (Inl UnknownAccount, l)
      | Some entry \<Rightarrow>
          (let (reclaimed, l') = reclaim_loop a now (expiry_head entry) 0 l in (Inr reclaimed, l')))"

definition ledger_free :: "ledger \<Rightarrow> account_idx \<Rightarrow> ts \<Rightarrow> (ledger_error + amount) \<times> ledger" where
  "ledger_free l a now =
     (case release_expired l a now of
        (Inl e, l') \<Rightarrow> (Inl e, l')
      | (Inr _, l') \<Rightarrow> (ok_or (map_option mb_available (account l' a)) UnknownAccount, l'))"

section \<open>The commit phase\<close>

text \<open>\<open>CommitPhase\<close>: the same moves without an error channel; a broken precondition does nothing.\<close>

definition cp_release :: "res_idx \<Rightarrow> ledger \<Rightarrow> ledger" where
  "cp_release claim l =
     (case reservation l claim of
        None \<Rightarrow> l
      | Some r \<Rightarrow>
          if is_committed r then l
          else
            (let a = res_account r; amount = res_amount r; owner = res_owner_of r in
             remove_claim claim
               (set_owner_claim owner None
                 (account_update a (\<lambda>b. set_reserved (saturating_sub (mb_reserved b) amount) b)
                   (unlink_from_chain a (h_index claim) l)))))"

definition cp_commit :: "res_idx \<Rightarrow> req_idx \<Rightarrow> amount \<Rightarrow> ledger \<Rightarrow> ledger" where
  "cp_commit claim req keep l =
     (case reservation l claim of
        None \<Rightarrow> l
      | Some r \<Rightarrow>
          if is_committed r then l
          else
            (let a = res_account r;
                 reserved_before = res_amount r;
                 kept = min keep reserved_before
             in account_update a
                  (\<lambda>b. set_committed (saturating_add (mb_committed b) kept)
                         (set_reserved (saturating_sub (mb_reserved b) reserved_before) b))
                  (link_into_committed_list req (h_index claim)
                    (reservation_at_update (h_index claim) (set_amount kept)
                      (unlink_from_chain a (h_index claim) l)))))"

definition cp_close_quote :: "quote_idx \<Rightarrow> ledger \<Rightarrow> ledger" where
  "cp_close_quote q l = l\<lparr> l_quotes := snd (slab_remove (l_quotes l) q) \<rparr>"

text \<open>One turn of the loop of \<open>discharge_committed\<close>, without the caller's visit.\<close>

definition discharge_claim :: "handle \<Rightarrow> reservation \<Rightarrow> ledger \<Rightarrow> ledger" where
  "discharge_claim h r l =
     remove_claim h
       (set_owner_claim (res_owner_of r) None
         (account_update (res_account r)
           (\<lambda>b. set_committed (saturating_sub (mb_committed b) (res_amount r)) b) l))"

lemma card_discharge:
  "slab_handle_at (l_reservations l) i = Some h \<Longrightarrow>
     card (occupied (discharge_claim h r l)) < card (occupied l)"
  using card_remove_claim[of "set_owner_claim (res_owner_of r) None (account_update (res_account r)
      (\<lambda>b. set_committed (saturating_sub (mb_committed b) (res_amount r)) b) l)" i h]
  by (simp add: discharge_claim_def)

text \<open>\<open>visit\<close> is the caller's closure, threading the caller's state \<open>'s\<close>.\<close>

function discharge_loop ::
  "(res_owner \<Rightarrow> amount \<Rightarrow> 's \<Rightarrow> 's) \<Rightarrow> link \<Rightarrow> u32 \<Rightarrow> ledger \<times> 's \<Rightarrow> ledger \<times> 's" where
  "discharge_loop visit cursor steps (l, st) =
     (case link_index cursor of
        None \<Rightarrow> (l, st)
      | Some index \<Rightarrow>
          (case reservation_at l index of
             None \<Rightarrow> (l, st)
           | Some r \<Rightarrow>
               (case slab_handle_at (l_reservations l) index of
                  None \<Rightarrow> (l, st)
                | Some h \<Rightarrow>
                    (let l' = discharge_claim h r l;
                         st' = visit (res_owner_of r) (res_amount r) st;
                         steps' = saturating_add steps 1
                     in if steps' > slab_capacity (l_reservations l') then (l', st')
                        else discharge_loop visit (snd (neighbours r)) steps' (l', st')))))"
  by pat_completeness auto

termination
  by (relation "measure (\<lambda>(visit, cursor, steps, l, st). card (occupied l))")
    (auto intro: card_discharge)

declare discharge_loop.simps [simp del]

definition discharge_committed ::
  "req_idx \<Rightarrow> (res_owner \<Rightarrow> amount \<Rightarrow> 's \<Rightarrow> 's) \<Rightarrow> ledger \<times> 's \<Rightarrow> ledger \<times> 's" where
  "discharge_committed req visit ls =
     (let cursor = (case request (fst ls) req of None \<Rightarrow> NIL | Some r \<Rightarrow> rq_committed_head r);
          (l', st') = discharge_loop visit cursor 0 ls
      in (request_update req (\<lambda>r. request_set_claim None (request_set_head NIL r)) l', st'))"

end
