(* ===== verification/Selection.thy ===== *)
theory Selection
  imports Ledger
begin

text \<open>
  Selection over live quotes, \<open>crates/core/src/selection.rs\<close>: the walk of a leg's chain that
  ranks eligible quotes by price and arrival, the search for a maker's standing quote, and the
  visit of a whole chain. The walks are not bounded by the source, so they are partial functions
  whose \<open>None\<close> is not returning.
\<close>

datatype no_quote_reason = NoQuotes | AllExpired | OutsideLimit | SizeTooSmall

section \<open>The best eligible quote\<close>

text \<open>The loop's local variables.\<close>

record scan =
  sc_best :: "selection option"
  sc_best_arrival :: u64
  sc_saw_quote :: bool
  sc_saw_live :: bool
  sc_saw_big_enough :: bool

definition scan_start :: scan where
  "scan_start = \<lparr> sc_best = None, sc_best_arrival = u_max, sc_saw_quote = False,
     sc_saw_live = False, sc_saw_big_enough = False \<rparr>"

definition scan_quote :: "leg \<Rightarrow> ts \<Rightarrow> quote_idx \<Rightarrow> quote \<Rightarrow> scan \<Rightarrow> scan" where
  "scan_quote leg now handle q s =
     (let s = s\<lparr> sc_saw_quote := True \<rparr> in
      if \<not> quote_is_live_at q now then s
      else
        let s = s\<lparr> sc_saw_live := True \<rparr> in
        if q_size q < leg_size leg then s
        else
          let s = s\<lparr> sc_saw_big_enough := True \<rparr> in
          if q_price q > leg_limit leg then s
          else
            let better = (case sc_best s of
                  None \<Rightarrow> True
                | Some current \<Rightarrow> q_price q < sel_price current \<or>
                    (q_price q = sel_price current \<and> q_arrival q < sc_best_arrival s))
            in if better then s\<lparr> sc_best := Some \<lparr> sel_quote = handle, sel_price = q_price q \<rparr>,
                                  sc_best_arrival := q_arrival q \<rparr>
               else s)"

partial_function (option) best_walk :: "ledger \<Rightarrow> leg \<Rightarrow> ts \<Rightarrow> link \<Rightarrow> scan \<Rightarrow> scan option" where
  "best_walk l leg now cursor s =
     (case link_index cursor of
        None \<Rightarrow> Some s
      | Some index \<Rightarrow>
          (case quote_handle_at l index of
             None \<Rightarrow> Some s
           | Some handle \<Rightarrow>
               (case quote l handle of
                  None \<Rightarrow> Some s
                | Some q \<Rightarrow> best_walk l leg now (q_next_on_leg q) (scan_quote leg now handle q s))))"

declare best_walk.simps [code]

definition scan_result :: "scan \<Rightarrow> no_quote_reason + selection" where
  "scan_result s = ok_or (sc_best s)
     (if \<not> sc_saw_quote s then NoQuotes
      else if \<not> sc_saw_live s then AllExpired
      else if sc_saw_big_enough s then OutsideLimit
      else SizeTooSmall)"

definition best_on_leg :: "ledger \<Rightarrow> leg \<Rightarrow> ts \<Rightarrow> (no_quote_reason + selection) option" where
  "best_on_leg l leg now = map_option scan_result (best_walk l leg now (leg_quotes_head leg) scan_start)"

section \<open>A maker's standing quote, and the visit of a chain\<close>

partial_function (option) standing_walk :: "ledger \<Rightarrow> account_idx \<Rightarrow> link \<Rightarrow> quote_idx option option" where
  "standing_walk l maker cursor =
     (case link_index cursor of
        None \<Rightarrow> Some None
      | Some index \<Rightarrow>
          (case quote_handle_at l index of
             None \<Rightarrow> Some None
           | Some handle \<Rightarrow>
               (case quote l handle of
                  None \<Rightarrow> Some None
                | Some q \<Rightarrow>
                    if q_maker q = maker \<and> q_state q = QuoteActive then Some (Some handle)
                    else standing_walk l maker (q_next_on_leg q))))"

declare standing_walk.simps [code]

definition standing_quote_of :: "ledger \<Rightarrow> leg \<Rightarrow> account_idx \<Rightarrow> quote_idx option option" where
  "standing_quote_of l leg maker = standing_walk l maker (leg_quotes_head leg)"

text \<open>\<open>visit\<close> is the caller's closure, threading the caller's state.\<close>

partial_function (option) leg_walk :: "ledger \<Rightarrow> (quote_idx \<Rightarrow> 's \<Rightarrow> 's) \<Rightarrow> link \<Rightarrow> 's \<Rightarrow> 's option" where
  "leg_walk l visit cursor st =
     (case link_index cursor of
        None \<Rightarrow> Some st
      | Some index \<Rightarrow>
          (case quote_handle_at l index of
             None \<Rightarrow> Some st
           | Some handle \<Rightarrow>
               (case quote l handle of
                  None \<Rightarrow> Some st
                | Some q \<Rightarrow> leg_walk l visit (q_next_on_leg q) (visit handle st))))"

declare leg_walk.simps [code]

definition walk_leg :: "ledger \<Rightarrow> leg \<Rightarrow> (quote_idx \<Rightarrow> 's \<Rightarrow> 's) \<Rightarrow> 's \<Rightarrow> 's option" where
  "walk_leg l leg visit st = leg_walk l visit (leg_quotes_head leg) st"

end
