(* ===== verification/Commands.thy ===== *)
theory Commands
  imports Market_Records Contract
begin

text \<open>
  The engine's inputs and outputs: the command set of \<open>crates/core/src/command.rs\<close>, and the events
  and the caller-provided event buffer of \<open>crates/core/src/event.rs\<close>. The fixed-size arrays of
  \<open>MAX_LEGS\<close> entries are lists.
\<close>

section \<open>Commands\<close>

record leg_spec =
  ls_contract :: contract_idx
  ls_side :: side
  ls_size :: size
  ls_limit :: price

record expected_fill =
  ef_leg :: leg_id
  ef_price :: price

datatype command =
    CreditAccount account_idx amount
  | RegisterContract contract_idx ts
  | SubmitRequest account_idx ts "leg_spec list" u8
  | RejectRequest req_idx
  | SubmitQuote account_idx req_idx leg_id price size ts
  | CancelQuote quote_idx
  | ReportOracleStatus contract_idx oracle_status
  | SettleEscrow escrow_id contract_idx
  | PollSettlement nonce tx_status
  | AcceptRequest req_idx "expected_fill list" u8

section \<open>Events\<close>

record open_leg =
  ol_contract :: contract_idx
  ol_side :: side
  ol_size :: size

definition open_leg_default :: open_leg where
  "open_leg_default = \<lparr> ol_contract = 0, ol_side = SideYes, ol_size = 0 \<rparr>"

record intent_leg =
  il_contract :: contract_idx
  il_side :: side
  il_size :: size
  il_maker :: account_idx
  il_fill_price :: price
  il_quote_expiry :: ts

definition intent_leg_default :: intent_leg where
  "intent_leg_default = \<lparr> il_contract = 0, il_side = SideYes, il_size = 0, il_maker = 0,
     il_fill_price = 0, il_quote_expiry = 0 \<rparr>"

datatype quote_reject_reason = Outbid | SettlementFailed | Replaced | RequestRejected

datatype event =
    RequestOpened req_idx ts "open_leg list" u8
  | BestSelectionChanged req_idx leg_id price
  | QuoteRejected quote_idx account_idx quote_reject_reason
  | QuoteExpired quote_idx account_idx
  | ContractResolved contract_idx outcome
  | SettleIntent escrow_id contract_idx outcome
  | RequestEscrowed req_idx nonce
  | RequestSettlementFailed req_idx nonce
  | SettlementStalled req_idx nonce tx_status
  | SubmitIntent req_idx nonce account_idx "intent_leg list" u8

section \<open>The event buffer\<close>

text \<open>
  \<open>usize\<close> values are naturals; the checked addition of the source fails at \<open>2 ^ 64\<close>. The field
  \<open>eb_dropped\<close> is not in the code: it counts the pushes that found no room since the buffer was last
  emptied, each of which is the failed assertion of \<open>push\<close> in a debug build and a dropped event in a
  release build.
\<close>

record event_buffer =
  eb_events :: "event list"
  eb_capacity :: nat
  eb_dropped :: nat

datatype event_buffer_full = BufferFull

definition eb_with_capacity :: "nat \<Rightarrow> event_buffer" where
  "eb_with_capacity n = \<lparr> eb_events = [], eb_capacity = n, eb_dropped = 0 \<rparr>"

definition eb_len :: "event_buffer \<Rightarrow> nat" where
  "eb_len b = length (eb_events b)"

definition eb_is_empty :: "event_buffer \<Rightarrow> bool" where
  "eb_is_empty b \<longleftrightarrow> eb_events b = []"

definition eb_headroom :: "event_buffer \<Rightarrow> nat \<Rightarrow> event_buffer_full + unit" where
  "eb_headroom b needed =
     (let total = eb_len b + needed in
      if total < 2 ^ 64 \<and> total \<le> eb_capacity b then Inr () else Inl BufferFull)"

text \<open>The release build's \<open>push\<close>: an event that does not fit is dropped.\<close>

definition eb_push :: "event \<Rightarrow> event_buffer \<Rightarrow> event_buffer" where
  "eb_push e b = (if eb_len b < eb_capacity b then b\<lparr> eb_events := eb_events b @ [e] \<rparr>
     else b\<lparr> eb_dropped := Suc (eb_dropped b) \<rparr>)"

definition eb_clear :: "event_buffer \<Rightarrow> event_buffer" where
  "eb_clear b = b\<lparr> eb_events := [], eb_dropped := 0 \<rparr>"

definition eb_drain :: "event_buffer \<Rightarrow> event list \<times> event_buffer" where
  "eb_drain b = (eb_events b, eb_clear b)"

lemma eb_push_capacity [simp]: "eb_capacity (eb_push e b) = eb_capacity b"
  by (simp add: eb_push_def)

text \<open>After a successful headroom check the promised pushes all land, in order, and none is dropped.\<close>

lemma eb_push_all:
  "eb_len b + length es \<le> eb_capacity b \<Longrightarrow>
     eb_events (foldl (\<lambda>b e. eb_push e b) b es) = eb_events b @ es \<and>
     eb_dropped (foldl (\<lambda>b e. eb_push e b) b es) = eb_dropped b"
  by (induction es arbitrary: b) (simp_all add: eb_push_def eb_len_def)

lemma eb_headroom_iff: "eb_headroom b n = Inr () \<longleftrightarrow> eb_len b + n < 2 ^ 64 \<and> eb_len b + n \<le> eb_capacity b"
  by (simp add: eb_headroom_def Let_def)

end
