(* ===== verification/Claim_Structure.thy ===== *)
theory Claim_Structure
  imports Ledger
begin

text \<open>
  The structure of the claim slab, apart from the slab: a map from slot to claim, a map from slot to
  its two links, the ends of each account's expiry chain and the head of each request's committed
  list. The predicates say that the links thread exactly the claims of each chain, the expiry chains
  in ascending order, and that the stored totals are the sums over the chains; the lemmas say that
  adding, dropping and moving a claim with the link surgeries of the sources keep all of it.
\<close>

section \<open>Predicates\<close>

type_synonym claim_map = "u32 \<Rightarrow> (u32 \<times> claim) option"
type_synonym end_map = "account_idx \<Rightarrow> (link \<times> link) option"
type_synonym head_map = "req_idx \<Rightarrow> link option"
type_synonym money_map = "account_idx \<Rightarrow> (amount \<times> amount \<times> amount) option"
type_synonym owner_map = "res_owner \<Rightarrow> res_idx option option"

definition on_expiry :: "claim_map \<Rightarrow> account_idx \<Rightarrow> u32 set" where
  "on_expiry cl a = {i. \<exists>g m ow e. cl i = Some (g, a, m, ow, OnExpiry e)}"

definition on_list :: "claim_map \<Rightarrow> req_idx \<Rightarrow> u32 set" where
  "on_list cl q = {i. \<exists>g a m ow. cl i = Some (g, a, m, ow, OnCommitted q)}"

definition committed_of :: "claim_map \<Rightarrow> account_idx \<Rightarrow> u32 set" where
  "committed_of cl a = {i. \<exists>g m ow q. cl i = Some (g, a, m, ow, OnCommitted q)}"

definition amount_at :: "claim_map \<Rightarrow> u32 \<Rightarrow> nat" where
  "amount_at cl i = (case cl i of Some (_, _, m, _) \<Rightarrow> unat m | None \<Rightarrow> 0)"

definition expiry_at :: "claim_map \<Rightarrow> u32 \<Rightarrow> ts" where
  "expiry_at cl i = (case cl i of Some (_, _, _, _, OnExpiry e) \<Rightarrow> e | _ \<Rightarrow> 0)"

definition expiry_chain :: "claim_map \<Rightarrow> nbrs \<Rightarrow> account_idx \<Rightarrow> link \<Rightarrow> link \<Rightarrow> u32 list \<Rightarrow> bool" where
  "expiry_chain cl nb a h t xs \<longleftrightarrow>
     dll nb h t xs \<and> set xs = on_expiry cl a \<and> sorted (map (expiry_at cl) xs)"

definition committed_list :: "claim_map \<Rightarrow> nbrs \<Rightarrow> req_idx \<Rightarrow> link \<Rightarrow> u32 list \<Rightarrow> bool" where
  "committed_list cl nb q h xs \<longleftrightarrow> (\<exists>t. dll nb h t xs) \<and> set xs = on_list cl q"

definition expiry_ok :: "claim_map \<Rightarrow> nbrs \<Rightarrow> end_map \<Rightarrow> bool" where
  "expiry_ok cl nb en \<longleftrightarrow> (\<forall>a h t. en a = Some (h, t) \<longrightarrow> (\<exists>xs. expiry_chain cl nb a h t xs))"

definition committed_ok :: "claim_map \<Rightarrow> nbrs \<Rightarrow> head_map \<Rightarrow> bool" where
  "committed_ok cl nb rh \<longleftrightarrow> (\<forall>q h. rh q = Some h \<longrightarrow> (\<exists>xs. committed_list cl nb q h xs))"

definition placed_ok :: "claim_map \<Rightarrow> end_map \<Rightarrow> head_map \<Rightarrow> bool" where
  "placed_ok cl en rh \<longleftrightarrow> (\<forall>i g a m ow k. cl i = Some (g, a, m, ow, k) \<longrightarrow>
     i \<noteq> NIL \<and> en a \<noteq> None \<and> (\<forall>q. k = OnCommitted q \<longrightarrow> rh q \<noteq> None))"

definition totals_ok :: "claim_map \<Rightarrow> money_map \<Rightarrow> bool" where
  "totals_ok cl mo \<longleftrightarrow> (\<forall>a f r c. mo a = Some (f, r, c) \<longrightarrow>
     unat r = sum (amount_at cl) (on_expiry cl a) \<and> unat c = sum (amount_at cl) (committed_of cl a) \<and>
     unat r + unat c < 2 ^ 64)"

definition owners_ok :: "claim_map \<Rightarrow> owner_map \<Rightarrow> bool" where
  "owners_ok cl oc \<longleftrightarrow> (\<forall>ow h. oc ow = Some (Some h) \<longleftrightarrow>
     (\<exists>a m k. cl (h_index h) = Some (h_generation h, a, m, ow, k)))"

lemmas member_defs = on_expiry_def on_list_def committed_of_def

section \<open>Membership under updates\<close>

lemma on_expiry_drop [simp]: "on_expiry (cl(i := None)) a = on_expiry cl a - {i}"
  by (auto simp: on_expiry_def)

lemma on_list_drop [simp]: "on_list (cl(i := None)) q = on_list cl q - {i}"
  by (auto simp: on_list_def)

lemma committed_of_drop [simp]: "committed_of (cl(i := None)) a = committed_of cl a - {i}"
  by (auto simp: committed_of_def)

lemma on_expiry_add [simp]:
  "cl i = None \<Longrightarrow> on_expiry (cl(i \<mapsto> (g, a, m, ow, k))) b =
     (if a = b \<and> (\<exists>e. k = OnExpiry e) then insert i (on_expiry cl b) else on_expiry cl b)"
  by (auto simp: on_expiry_def)

lemma on_list_add [simp]:
  "cl i = None \<Longrightarrow> on_list (cl(i \<mapsto> (g, a, m, ow, k))) q =
     (if k = OnCommitted q then insert i (on_list cl q) else on_list cl q)"
  by (auto simp: on_list_def)

lemma committed_of_add [simp]:
  "cl i = None \<Longrightarrow> committed_of (cl(i \<mapsto> (g, a, m, ow, k))) b =
     (if a = b \<and> (\<exists>q. k = OnCommitted q) then insert i (committed_of cl b) else committed_of cl b)"
  by (auto simp: committed_of_def)

lemma not_member [simp]:
  "cl i = None \<Longrightarrow> i \<notin> on_expiry cl a" "cl i = None \<Longrightarrow> i \<notin> on_list cl q"
  "cl i = None \<Longrightarrow> i \<notin> committed_of cl a"
  by (auto simp: member_defs)

lemma members_disjoint:
  "a \<noteq> b \<Longrightarrow> on_expiry cl a \<inter> on_expiry cl b = {}"
  "on_expiry cl a \<inter> on_list cl q = {}"
  "q \<noteq> q' \<Longrightarrow> on_list cl q \<inter> on_list cl q' = {}"
  by (auto simp: member_defs)

lemma expiry_at_other [simp]: "j \<noteq> i \<Longrightarrow> expiry_at (cl(i := v)) j = expiry_at cl j"
  by (simp add: expiry_at_def)

lemma expiry_at_same [simp]: "expiry_at (cl(i \<mapsto> (g, a, m, ow, OnExpiry e))) i = e"
  by (simp add: expiry_at_def)

lemma amount_at_other [simp]: "j \<noteq> i \<Longrightarrow> amount_at (cl(i := v)) j = amount_at cl j"
  by (simp add: amount_at_def)

lemma amount_at_same [simp]: "amount_at (cl(i \<mapsto> (g, a, m, ow, k))) i = unat m"
  by (simp add: amount_at_def)

lemma map_expiry_at_upd [simp]: "i \<notin> set xs \<Longrightarrow> map (expiry_at (cl(i := v))) xs = map (expiry_at cl) xs"
  by (induction xs) auto

lemma sum_amount_upd:
  "i \<notin> A \<Longrightarrow> sum (amount_at (cl(i := v))) A = sum (amount_at cl) A"
  by (rule sum.cong) (auto intro!: amount_at_other)

section \<open>Locality of the surgeries\<close>

lemma unlink_nbrs_frame: "x \<notin> {i, p, n} \<Longrightarrow> unlink_nbrs m i p n x = m x"
  by (auto simp: unlink_nbrs_def Let_def)

lemma splice_after_frame: "x \<notin> {i, b, n} \<Longrightarrow> splice_after_nbrs m i b n x = m x"
  by (auto simp: splice_after_nbrs_def Let_def)

lemma splice_head_frame: "x \<notin> {i, h} \<Longrightarrow> splice_head_nbrs m i h x = m x"
  by (auto simp: splice_head_nbrs_def Let_def)

text \<open>A chain none of whose entries was written is still a chain.\<close>

lemma expiry_chain_frame:
  assumes "expiry_chain cl nb a h t xs" and "on_expiry cl' a = on_expiry cl a"
    and "\<And>x. x \<in> on_expiry cl a \<Longrightarrow> nb' x = nb x \<and> expiry_at cl' x = expiry_at cl x"
  shows "expiry_chain cl' nb' a h t xs"
proof -
  have "map (expiry_at cl') xs = map (expiry_at cl) xs"
    using assms by (intro map_cong) (auto simp: expiry_chain_def)
  moreover have "dll nb' h t xs"
    by (rule dll_frame[of nb]) (use assms in \<open>simp_all add: expiry_chain_def\<close>)
  ultimately show ?thesis using assms(1,2) unfolding expiry_chain_def by metis
qed

lemma committed_list_frame:
  assumes "committed_list cl nb q h xs" and "on_list cl' q = on_list cl q"
    and "\<And>x. x \<in> on_list cl q \<Longrightarrow> nb' x = nb x"
  shows "committed_list cl' nb' q h xs"
proof -
  from assms(1) obtain t where "dll nb h t xs" by (auto simp: committed_list_def)
  then have "dll nb' h t xs"
    by (rule dll_frame[of nb]) (use assms in \<open>simp_all add: committed_list_def\<close>)
  with assms(1,2) show ?thesis by (auto simp: committed_list_def)
qed

lemma expiry_chain_members:
  assumes "expiry_chain cl nb a h t xs" and "x \<in> set xs"
  shows "\<exists>g m ow e. cl x = Some (g, a, m, ow, OnExpiry e)" and "nb x \<noteq> None" and "x \<noteq> NIL"
  using assms dll_members[of nb h t xs x] by (auto simp: expiry_chain_def on_expiry_def)

lemma dll_nbr_members:
  assumes "dll nb h t xs" and "i \<in> set xs" and "nb i = Some (p, n)"
  shows "p \<noteq> NIL \<longrightarrow> p \<in> set xs" and "n \<noteq> NIL \<longrightarrow> n \<in> set xs"
    and "p \<noteq> i" and "n \<noteq> i"
proof -
  from assms(2) obtain as bs where xs: "xs = as @ i # bs" by (auto simp: in_set_conv_decomp)
  from assms(1)[unfolded xs] obtain p' n' where "nb i = Some (p', n')"
    "p' = (if as = [] then NIL else last as)" "n' = (if bs = [] then NIL else hd bs)"
    and d: "distinct (as @ i # bs)" "i \<noteq> NIL"
    by (rule dll_split)
  with assms(3) have p: "p = (if as = [] then NIL else last as)" and n: "n = (if bs = [] then NIL else hd bs)"
    by auto
  show "p \<noteq> NIL \<longrightarrow> p \<in> set xs" "n \<noteq> NIL \<longrightarrow> n \<in> set xs"
    using last_in_set[of as] hd_in_set[of bs] by (auto simp: xs p n)
  show "p \<noteq> i" using last_in_set[of as] d p by (cases "as = []") auto
  show "n \<noteq> i" using hd_in_set[of bs] d n by (cases "bs = []") auto
qed

lemma expiry_okE:
  assumes "expiry_ok cl nb en" and "en a = Some (h, t)"
  obtains xs where "expiry_chain cl nb a h t xs"
  using assms unfolding expiry_ok_def by blast

lemma committed_okE:
  assumes "committed_ok cl nb rh" and "rh q = Some h"
  obtains xs where "committed_list cl nb q h xs"
  using assms unfolding committed_ok_def by blast

section \<open>Taking a claim off its expiry chain\<close>

lemma sorted_drop_mid: "sorted (map f (as @ i # bs)) \<Longrightarrow> sorted (map f (as @ bs))"
  by (auto simp: sorted_append)

lemma expiry_ok_drop:
  assumes ok: "expiry_ok cl nb en" and i: "cl i = Some (g, a, m, ow, OnExpiry e)" "nb i = Some (p, n)"
    and en: "en a = Some (h, t)"
    and nb': "\<And>x. x \<noteq> i \<Longrightarrow> nb' x = unlink_nbrs nb i p n x"
  shows "expiry_ok (cl(i := None)) nb'
    (en(a \<mapsto> (if p = NIL then n else h, if n = NIL then p else t)))"
  unfolding expiry_ok_def
proof (intro allI impI)
  fix b h' t'
  assume b: "(en(a \<mapsto> (if p = NIL then n else h, if n = NIL then p else t))) b = Some (h', t')"
  obtain xs where xs: "expiry_chain cl nb a h t xs" using expiry_okE[OF ok en] .
  then have ix: "i \<in> set xs" and dl: "dll nb h t xs" using i by (auto simp: expiry_chain_def on_expiry_def)
  note nbrs = dll_nbr_members[OF dl ix i(2)]
  show "\<exists>ys. expiry_chain (cl(i := None)) nb' b h' t' ys"
  proof (cases "b = a")
    case True
    from ix obtain as bs where sp: "xs = as @ i # bs" by (auto simp: in_set_conv_decomp)
    have dist: "i \<notin> set (as @ bs)" using dll_distinctD[OF dl] by (auto simp: sp)
    have "dll nb' h' t' (as @ bs)"
      using unlink_dll[OF dl[unfolded sp] i(2)] True b
      by (auto intro!: dll_frame[where m = "unlink_nbrs nb i p n"] nb' simp: dist[simplified])
    moreover have "set (as @ bs) = on_expiry (cl(i := None)) a"
      using xs dist by (auto simp: sp expiry_chain_def)
    moreover have "sorted (map (expiry_at (cl(i := None))) (as @ bs))"
      using xs dist sorted_drop_mid[of "expiry_at cl" as i bs] by (simp add: expiry_chain_def sp)
    ultimately show ?thesis using True by (auto simp: expiry_chain_def)
  next
    case False
    then have "en b = Some (h', t')" using b by simp
    then obtain ys where ys: "expiry_chain cl nb b h' t' ys" using expiry_okE[OF ok] by blast
    have "expiry_chain (cl(i := None)) nb' b h' t' ys"
    proof (rule expiry_chain_frame[OF ys])
      have disj: "on_expiry cl b \<inter> set xs = {}"
        using xs members_disjoint(1)[OF False] by (auto simp: expiry_chain_def)
      then have ib: "i \<notin> on_expiry cl b" using ix by blast
      then show "on_expiry (cl(i := None)) b = on_expiry cl b" by simp
      fix x assume x: "x \<in> on_expiry cl b"
      then have "x \<noteq> NIL" using expiry_chain_members(3)[OF ys, of x] ys by (simp add: expiry_chain_def)
      then have "x \<notin> {i, p, n}" using nbrs x disj ix by auto
      then show "nb' x = nb x \<and> expiry_at (cl(i := None)) x = expiry_at cl x"
        using nb'[of x] unlink_nbrs_frame[of x i p n nb] by simp
    qed
    then show ?thesis by blast
  qed
qed

lemma committed_ok_drop_expiry:
  assumes ok: "expiry_ok cl nb en" and co: "committed_ok cl nb rh"
    and i: "cl i = Some (g, a, m, ow, OnExpiry e)" "nb i = Some (p, n)" and en: "en a = Some (h, t)"
    and nb': "\<And>x. x \<noteq> i \<Longrightarrow> nb' x = unlink_nbrs nb i p n x"
  shows "committed_ok (cl(i := None)) nb' rh"
  unfolding committed_ok_def
proof (intro allI impI)
  fix q hq assume "rh q = Some hq"
  then obtain ys where ys: "committed_list cl nb q hq ys" using committed_okE[OF co] by blast
  obtain xs where xs: "expiry_chain cl nb a h t xs" using expiry_okE[OF ok en] .
  then have ix: "i \<in> set xs" and dl: "dll nb h t xs" using i by (auto simp: expiry_chain_def on_expiry_def)
  note nbrs = dll_nbr_members[OF dl ix i(2)]
  have disj: "on_list cl q \<inter> set xs = {}"
    using xs members_disjoint(2)[of cl a q] by (auto simp: expiry_chain_def)
  have "committed_list (cl(i := None)) nb' q hq ys"
  proof (rule committed_list_frame[OF ys])
    show "on_list (cl(i := None)) q = on_list cl q" using disj ix by auto
    fix x assume x: "x \<in> on_list cl q"
    from ys x obtain u where "dll nb hq u ys" "x \<in> set ys" by (auto simp: committed_list_def)
    then have "x \<noteq> NIL" using dll_members by blast
    then have "x \<notin> {i, p, n}" using nbrs x disj ix by auto
    then show "nb' x = nb x" using nb'[of x] unlink_nbrs_frame[of x i p n nb] by simp
  qed
  then show "\<exists>ys. committed_list (cl(i := None)) nb' q hq ys" by blast
qed

section \<open>Putting a claim on an expiry chain\<close>

text \<open>
  \<open>on_expiry_frame\<close> and \<open>on_list_frame\<close> are the other chains of an insertion or of a move
  to a committed list: the slot is new to all of them, and the surgery wrote only entries of one chain.
\<close>

lemma other_chains_frame:
  assumes ok: "expiry_ok cl nb en" and fresh: "cl i = None"
    and nb': "\<And>x. x \<notin> insert i W \<Longrightarrow> x \<noteq> NIL \<Longrightarrow> nb' x = nb x"
    and W: "W \<inter> on_expiry cl b = {}" and b: "en b = Some (h, t)"
    and cl': "cl' = cl(i \<mapsto> (g, a, m, ow, k))" and k: "a = b \<longrightarrow> (\<forall>e. k \<noteq> OnExpiry e)"
  shows "\<exists>xs. expiry_chain cl' nb' b h t xs"
proof -
  obtain ys where ys: "expiry_chain cl nb b h t ys" using expiry_okE[OF ok b] .
  have "expiry_chain cl' nb' b h t ys"
  proof (rule expiry_chain_frame[OF ys])
    show "on_expiry cl' b = on_expiry cl b" using fresh k by (auto simp: cl')
    fix x assume x: "x \<in> on_expiry cl b"
    then have "x \<noteq> NIL" using expiry_chain_members(3)[OF ys, of x] ys by (simp add: expiry_chain_def)
    moreover have "x \<noteq> i" using x fresh by auto
    ultimately show "nb' x = nb x \<and> expiry_at cl' x = expiry_at cl x"
      using nb'[of x] x W by (auto simp: cl')
  qed
  then show ?thesis by blast
qed

lemma other_lists_frame:
  assumes ok: "committed_ok cl nb rh" and fresh: "cl i = None"
    and nb': "\<And>x. x \<notin> insert i W \<Longrightarrow> x \<noteq> NIL \<Longrightarrow> nb' x = nb x"
    and W: "W \<inter> on_list cl q = {}" and q: "rh q = Some h"
    and cl': "cl' = cl(i \<mapsto> (g, a, m, ow, k))" and k: "k \<noteq> OnCommitted q"
  shows "\<exists>xs. committed_list cl' nb' q h xs"
proof -
  obtain ys where ys: "committed_list cl nb q h ys" using committed_okE[OF ok q] .
  have "committed_list cl' nb' q h ys"
  proof (rule committed_list_frame[OF ys])
    show "on_list cl' q = on_list cl q" using fresh k by (auto simp: cl')
    fix x assume x: "x \<in> on_list cl q"
    from ys x obtain u where "dll nb h u ys" "x \<in> set ys" by (auto simp: committed_list_def)
    then have "x \<noteq> NIL" using dll_members by blast
    moreover have "x \<noteq> i" using x fresh by auto
    ultimately show "nb' x = nb x" using nb'[of x] x W by auto
  qed
  then show ?thesis by blast
qed

text \<open>
  The new chain of the account: after the last entry that does not expire later, or at the head.
\<close>

lemma expiry_chain_insert_after:
  assumes ch: "expiry_chain cl nb a h t (as @ b # bs)" and fresh: "cl i = None" "i \<noteq> NIL"
    and nb0: "nb0 = nb(i \<mapsto> (NIL, NIL))" and b: "nb b = Some (p, n)"
    and lo: "expiry_at cl b \<le> e" and hi: "\<forall>x \<in> set bs. e < expiry_at cl x"
  shows "expiry_chain (cl(i \<mapsto> (g, a, m, ow, OnExpiry e))) (splice_after_nbrs nb0 i b n) a h
    (if n = NIL then i else t) (as @ b # i # bs)"
proof -
  from ch have dl: "dll nb h t (as @ b # bs)" and st: "set (as @ b # bs) = on_expiry cl a"
    and so: "sorted (map (expiry_at cl) (as @ b # bs))" by (simp_all add: expiry_chain_def)
  have ni: "i \<notin> set (as @ b # bs)" using st fresh by simp
  have "dll nb0 h t (as @ b # bs)"
    by (rule dll_frame[OF dl]) (use ni in \<open>auto simp: nb0\<close>)
  moreover have "nb0 b = Some (p, n)" using b ni by (auto simp: nb0)
  ultimately have "dll (splice_after_nbrs nb0 i b n) h (if n = NIL then i else t) (as @ b # i # bs)"
    using splice_after_dll ni fresh(2) by (simp add: nb0)
  moreover have "set (as @ b # i # bs) = insert i (on_expiry cl a)" using st by auto
  moreover have "sorted (map (expiry_at (cl(i \<mapsto> (g, a, m, ow, OnExpiry e)))) (as @ b # i # bs))"
  proof -
    have "\<forall>x \<in> set as. expiry_at cl x \<le> e" using so lo by (auto simp: sorted_append intro: order_trans)
    then show ?thesis using so lo hi ni by (auto simp: sorted_append less_imp_le)
  qed
  ultimately show ?thesis using fresh by (simp add: expiry_chain_def)
qed

lemma expiry_chain_insert_head:
  assumes ch: "expiry_chain cl nb a h t xs" and fresh: "cl i = None" "i \<noteq> NIL"
    and nb0: "nb0 = nb(i \<mapsto> (NIL, NIL))" and hi: "\<forall>x \<in> set xs. e < expiry_at cl x"
  shows "expiry_chain (cl(i \<mapsto> (g, a, m, ow, OnExpiry e))) (splice_head_nbrs nb0 i h) a i
    (if h = NIL then i else t) (i # xs)"
proof -
  from ch have dl: "dll nb h t xs" and st: "set xs = on_expiry cl a"
    and so: "sorted (map (expiry_at cl) xs)" by (simp_all add: expiry_chain_def)
  have ni: "i \<notin> set xs" using st fresh by simp
  have "dll nb0 h t xs"
    by (rule dll_frame[OF dl]) (use ni in \<open>auto simp: nb0\<close>)
  then have "dll (splice_head_nbrs nb0 i h) i (if h = NIL then i else t) (i # xs)"
    using splice_head_dll ni fresh(2) by (simp add: nb0)
  moreover have "sorted (map (expiry_at (cl(i \<mapsto> (g, a, m, ow, OnExpiry e)))) (i # xs))"
    using so hi ni by (auto simp: less_imp_le)
  ultimately show ?thesis using fresh st by (simp add: expiry_chain_def)
qed

section \<open>Putting a claim on a committed list, and taking the first one off\<close>

lemma committed_list_push:
  assumes cl: "committed_list cl nb q h xs" and fresh: "cl i = None" "i \<noteq> NIL" "nb i \<noteq> None"
  shows "committed_list (cl(i \<mapsto> (g, a, m, ow, OnCommitted q))) (splice_head_nbrs nb i h) q i (i # xs)"
proof -
  from cl obtain t where dl: "dll nb h t xs" and st: "set xs = on_list cl q"
    by (auto simp: committed_list_def)
  have "i \<notin> set xs" using st fresh by simp
  from splice_head_dll[OF dl this fresh(2,3)] show ?thesis
    using fresh st by (auto simp: committed_list_def)
qed

lemma committed_push_ok:
  assumes ex: "expiry_ok cl nb en" and co: "committed_ok cl nb rh" and q: "rh q = Some h"
    and fresh: "cl i = None" "i \<noteq> NIL" "nb i \<noteq> None"
  shows "expiry_ok (cl(i \<mapsto> (g, a, m, ow, OnCommitted q))) (splice_head_nbrs nb i h) en"
    and "committed_ok (cl(i \<mapsto> (g, a, m, ow, OnCommitted q))) (splice_head_nbrs nb i h) (rh(q \<mapsto> i))"
proof -
  obtain xs where xs: "committed_list cl nb q h xs" using committed_okE[OF co q] .
  then obtain u where u: "dll nb h u xs" and W: "set xs = on_list cl q" by (auto simp: committed_list_def)
  have hx: "h = NIL \<or> h \<in> set xs" using u by (cases xs) (auto simp: dll_def)
  have nb': "splice_head_nbrs nb i h x = nb x" if "x \<notin> insert i (set xs)" "x \<noteq> NIL" for x
    using that hx by (intro splice_head_frame) auto
  show "expiry_ok (cl(i \<mapsto> (g, a, m, ow, OnCommitted q))) (splice_head_nbrs nb i h) en"
    unfolding expiry_ok_def
    using members_disjoint(2)[of cl _ q] W
    by (intro allI impI other_chains_frame[OF ex fresh(1) nb']) auto
  show "committed_ok (cl(i \<mapsto> (g, a, m, ow, OnCommitted q))) (splice_head_nbrs nb i h) (rh(q \<mapsto> i))"
    unfolding committed_ok_def
  proof (intro allI impI)
    fix q' h' assume h': "(rh(q \<mapsto> i)) q' = Some h'"
    show "\<exists>ys. committed_list (cl(i \<mapsto> (g, a, m, ow, OnCommitted q))) (splice_head_nbrs nb i h) q' h' ys"
    proof (cases "q' = q")
      case True
      with h' have "h' = i" by simp
      with True committed_list_push[OF xs fresh] show ?thesis by blast
    next
      case False
      then show ?thesis using h' members_disjoint(3)[of q q' cl] W
        by (intro other_lists_frame[OF co fresh(1) nb']) auto
    qed
  qed
qed

text \<open>Where a new claim goes on its account's chain, as the walk of the sources finds it.\<close>

definition insert_position :: "claim_map \<Rightarrow> u32 list \<Rightarrow> ts \<Rightarrow> u32 option \<Rightarrow> bool" where
  "insert_position cl xs e pos \<longleftrightarrow>
     (case pos of
        Some b \<Rightarrow> \<exists>as bs. xs = as @ b # bs \<and> expiry_at cl b \<le> e \<and> (\<forall>x \<in> set bs. e < expiry_at cl x)
      | None \<Rightarrow> \<forall>x \<in> set xs. e < expiry_at cl x)"

lemma expiry_push_ok:
  assumes ex: "expiry_ok cl nb en" and co: "committed_ok cl nb rh"
    and ch: "expiry_chain cl nb a h t xs" and fresh: "cl i = None" "i \<noteq> NIL"
    and new: "expiry_chain cl' nb' a h' t' ys"
    and cl': "cl' = cl(i \<mapsto> (g, a, m, ow, OnExpiry e))"
    and nb': "\<And>x. x \<notin> insert i (set xs) \<Longrightarrow> x \<noteq> NIL \<Longrightarrow> nb' x = nb x"
  shows "expiry_ok cl' nb' (en(a \<mapsto> (h', t')))" and "committed_ok cl' nb' rh"
proof -
  have W: "set xs = on_expiry cl a" using ch by (simp add: expiry_chain_def)
  show "expiry_ok cl' nb' (en(a \<mapsto> (h', t')))"
    unfolding expiry_ok_def
  proof (intro allI impI)
    fix b hb tb assume b: "(en(a \<mapsto> (h', t'))) b = Some (hb, tb)"
    show "\<exists>zs. expiry_chain cl' nb' b hb tb zs"
    proof (cases "b = a")
      case True
      with b new show ?thesis by auto
    next
      case False
      then show ?thesis using b members_disjoint(1)[of a b cl] W
        by (intro other_chains_frame[OF ex fresh(1) nb' _ _ cl']) auto
    qed
  qed
  show "committed_ok cl' nb' rh"
    unfolding committed_ok_def
    using members_disjoint(2)[of cl a] W
    by (intro allI impI other_lists_frame[OF co fresh(1) nb' _ _ cl']) auto
qed

text \<open>
  While a committed list is being discharged its head link still names the first entry: the part not
  yet visited is a segment whose first predecessor no longer matters.
\<close>

definition list_rest :: "claim_map \<Rightarrow> nbrs \<Rightarrow> req_idx \<Rightarrow> link \<Rightarrow> u32 list \<Rightarrow> bool" where
  "list_rest cl nb q cursor xs \<longleftrightarrow> (\<exists>p t. dseg nb p cursor xs t NIL) \<and> set xs = on_list cl q"

lemma list_rest_start: "committed_list cl nb q h xs \<Longrightarrow> list_rest cl nb q h xs"
  by (auto simp: committed_list_def list_rest_def dll_def)

lemma list_rest_pop:
  assumes "list_rest cl nb q cursor (x # xs)"
  shows "cursor = x" and "x \<noteq> NIL" and "\<exists>p n. nb x = Some (p, n) \<and>
    list_rest (cl(x := None)) (nb(x := None)) q n xs"
proof -
  from assms obtain p t where seg: "dseg nb p cursor (x # xs) t NIL" and st: "set (x # xs) = on_list cl q"
    by (auto simp: list_rest_def)
  then obtain n where n: "nb x = Some (p, n)" "dseg nb x n xs t NIL"
    by (auto split: option.splits)
  have "x \<notin> set xs" using dll_distinct[OF seg] by simp
  then have "dseg (nb(x := None)) x n xs t NIL" and "set xs = on_list cl q - {x}"
    using n(2) st by (auto intro: dseg_frame)
  then show "\<exists>p n. nb x = Some (p, n) \<and> list_rest (cl(x := None)) (nb(x := None)) q n xs"
    using n(1) by (auto simp: list_rest_def)
  show "cursor = x" "x \<noteq> NIL" using seg by auto
qed

section \<open>Totals and owners\<close>

lemma totals_okD:
  assumes "totals_ok cl mo" and "mo a = Some (f, r, c)"
  shows "unat r = sum (amount_at cl) (on_expiry cl a)" and "unat c = sum (amount_at cl) (committed_of cl a)"
    and "unat r + unat c < 2 ^ 64"
  using assms unfolding totals_ok_def by blast+

lemma totals_ok_upd:
  assumes ok: "totals_ok cl mo"
    and at: "unat r = sum (amount_at cl') (on_expiry cl' a)" "unat c = sum (amount_at cl') (committed_of cl' a)"
      "unat r + unat c < 2 ^ 64"
    and other: "\<And>b. b \<noteq> a \<Longrightarrow> sum (amount_at cl') (on_expiry cl' b) = sum (amount_at cl) (on_expiry cl b) \<and>
      sum (amount_at cl') (committed_of cl' b) = sum (amount_at cl) (committed_of cl b)"
  shows "totals_ok cl' (mo(a \<mapsto> (f, r, c)))"
  unfolding totals_ok_def
proof (intro allI impI)
  fix b f' r' c' assume b: "(mo(a \<mapsto> (f, r, c))) b = Some (f', r', c')"
  show "unat r' = sum (amount_at cl') (on_expiry cl' b) \<and> unat c' = sum (amount_at cl') (committed_of cl' b) \<and>
    unat r' + unat c' < 2 ^ 64"
  proof (cases "b = a")
    case True
    with b at show ?thesis by simp
  next
    case False
    with b have "mo b = Some (f', r', c')" by simp
    from totals_okD[OF ok this] other[OF False] show ?thesis by simp
  qed
qed

lemma totals_drop_expiry:
  assumes ok: "totals_ok cl mo" and i: "cl i = Some (g, a, m, ow, OnExpiry e)"
    and mo: "mo a = Some (f, r, c)"
  shows "unat m \<le> unat r" and "totals_ok (cl(i := None)) (mo(a \<mapsto> (f, r - m, c)))"
proof -
  note T = totals_okD[OF ok mo]
  have ia: "i \<in> on_expiry cl a" using i by (auto simp: on_expiry_def)
  have am: "amount_at cl i = unat m" using i by (simp add: amount_at_def)
  have split: "sum (amount_at cl) (on_expiry cl a) = unat m + sum (amount_at cl) (on_expiry cl a - {i})"
    using sum.remove[of "on_expiry cl a" i "amount_at cl"] ia am by simp
  with T show le: "unat m \<le> unat r" by simp
  then have rm: "unat (r - m) = unat r - unat m" by (simp add: unat_sub word_le_nat_alt)
  have ni: "i \<notin> committed_of cl b" "b \<noteq> a \<Longrightarrow> i \<notin> on_expiry cl b" for b
    using i by (auto simp: member_defs)
  show "totals_ok (cl(i := None)) (mo(a \<mapsto> (f, r - m, c)))"
    using T split rm ni by (intro totals_ok_upd[OF ok]) (simp_all add: sum_amount_upd)
qed

lemma totals_add_expiry:
  assumes ok: "totals_ok cl mo" and fresh: "cl i = None"
    and mo: "mo a = Some (f, r, c)" and r': "unat r' = unat r + unat m" "unat r' + unat c < 2 ^ 64"
  shows "totals_ok (cl(i \<mapsto> (g, a, m, ow, OnExpiry e))) (mo(a \<mapsto> (f, r', c)))"
  using totals_okD[OF ok mo] fresh r' by (intro totals_ok_upd[OF ok]) (simp_all add: sum_amount_upd)

lemma totals_add_committed:
  assumes ok: "totals_ok cl mo" and fresh: "cl i = None"
    and mo: "mo a = Some (f, r, c)" and c': "unat c' = unat c + unat m" "unat r + unat c' < 2 ^ 64"
  shows "totals_ok (cl(i \<mapsto> (g, a, m, ow, OnCommitted q))) (mo(a \<mapsto> (f, r, c')))"
  using totals_okD[OF ok mo] fresh c' by (intro totals_ok_upd[OF ok]) (simp_all add: sum_amount_upd)

lemma totals_drop_committed:
  assumes ok: "totals_ok cl mo" and i: "cl i = Some (g, a, m, ow, OnCommitted q)"
    and mo: "mo a = Some (f, r, c)"
  shows "unat m \<le> unat c" and "totals_ok (cl(i := None)) (mo(a \<mapsto> (f, r, c - m)))"
proof -
  note T = totals_okD[OF ok mo]
  have ia: "i \<in> committed_of cl a" using i by (auto simp: committed_of_def)
  have am: "amount_at cl i = unat m" using i by (simp add: amount_at_def)
  have split: "sum (amount_at cl) (committed_of cl a) = unat m + sum (amount_at cl) (committed_of cl a - {i})"
    using sum.remove[of "committed_of cl a" i "amount_at cl"] ia am by simp
  with T show le: "unat m \<le> unat c" by simp
  then have cm: "unat (c - m) = unat c - unat m" by (simp add: unat_sub word_le_nat_alt)
  have ni: "i \<notin> on_expiry cl b" "b \<noteq> a \<Longrightarrow> i \<notin> committed_of cl b" for b
    using i by (auto simp: member_defs)
  show "totals_ok (cl(i := None)) (mo(a \<mapsto> (f, r, c - m)))"
    using T split cm ni by (intro totals_ok_upd[OF ok]) (simp_all add: sum_amount_upd)
qed

lemma owners_okD:
  "owners_ok cl oc \<Longrightarrow> cl (h_index h) = Some (h_generation h, a, m, ow, k) \<Longrightarrow> oc ow = Some (Some h)"
  "owners_ok cl oc \<Longrightarrow> oc ow = Some (Some h) \<Longrightarrow> \<exists>a m k. cl (h_index h) = Some (h_generation h, a, m, ow, k)"
  unfolding owners_ok_def by blast+

lemma owners_ok_add:
  assumes ok: "owners_ok cl oc" and fresh: "cl (h_index (h :: handle)) = None" and ow: "oc ow = Some None"
  shows "owners_ok (cl(h_index h \<mapsto> (h_generation h, a, m, ow, k))) (oc(ow \<mapsto> Some h))"
  unfolding owners_ok_def
proof (intro allI)
  fix ow' and h' :: handle
  have none: "cl (h_index h') = Some (h_generation h', a', m', ow', k') \<Longrightarrow> ow' \<noteq> ow \<and> h' \<noteq> h" for a' m' k'
    using owners_okD(1)[OF ok] ow fresh by fastforce
  show "(oc(ow \<mapsto> Some h)) ow' = Some (Some h') \<longleftrightarrow>
    (\<exists>a' m' k'. (cl(h_index h \<mapsto> (h_generation h, a, m, ow, k))) (h_index h') = Some (h_generation h', a', m', ow', k'))"
  proof (cases "h_index h' = h_index h")
    case True
    then have "h' = h \<longleftrightarrow> h_generation h' = h_generation h" by (cases h; cases h') simp
    moreover have "oc ow' \<noteq> Some (Some h')" using owners_okD(2)[OF ok, of ow' h'] True fresh by auto
    ultimately show ?thesis using True by auto
  next
    case False
    then show ?thesis using none owners_okD[OF ok] by auto
  qed
qed

lemma owners_ok_drop:
  assumes ok: "owners_ok cl oc" and at: "cl (h_index (h :: handle)) = Some (h_generation h, a, m, ow, k)"
  shows "owners_ok (cl(h_index h := None)) (oc(ow \<mapsto> None))"
  unfolding owners_ok_def
proof (intro allI)
  fix ow' and h' :: handle
  have oc: "oc ow = Some (Some h)" using owners_okD(1)[OF ok at] .
  show "(oc(ow \<mapsto> None)) ow' = Some (Some h') \<longleftrightarrow>
    (\<exists>a' m' k'. (cl(h_index h := None)) (h_index h') = Some (h_generation h', a', m', ow', k'))"
  proof (cases "h_index h' = h_index h")
    case True
    have "oc ow' \<noteq> Some (Some h')" if "ow' \<noteq> ow"
    proof
      assume c: "oc ow' = Some (Some h')"
      with owners_okD(2)[OF ok] at True have "cl (h_index h') = Some (h_generation h', a, m, ow, k)" by fastforce
      with owners_okD(2)[OF ok c] that show False by auto
    qed
    then show ?thesis using True by auto
  next
    case False
    then have "h' \<noteq> h" by auto
    then have "(oc(ow \<mapsto> None)) ow' = Some (Some h') \<longleftrightarrow> oc ow' = Some (Some h')" using oc by auto
    also have "\<dots> \<longleftrightarrow> (\<exists>a' m' k'. cl (h_index h') = Some (h_generation h', a', m', ow', k'))"
      using ok unfolding owners_ok_def by blast
    finally show ?thesis using False by simp
  qed
qed

lemma owners_ok_new:
  assumes ok: "owners_ok cl oc" and new: "oc ow = None"
  shows "owners_ok cl (oc(ow \<mapsto> None))"
  unfolding owners_ok_def
proof (intro allI)
  fix ow' and h' :: handle
  have "(oc(ow \<mapsto> None)) ow' = Some (Some h') \<longleftrightarrow> oc ow' = Some (Some h')" using new by simp
  also have "\<dots> \<longleftrightarrow> (\<exists>a m k. cl (h_index h') = Some (h_generation h', a, m, ow', k))"
    using ok unfolding owners_ok_def by blast
  finally show "(oc(ow \<mapsto> None)) ow' = Some (Some h') \<longleftrightarrow>
    (\<exists>a m k. cl (h_index h') = Some (h_generation h', a, m, ow', k))" .
qed

lemma owners_ok_kind:
  assumes ok: "owners_ok cl oc" and "cl i = Some (g, a, m, ow, k)"
  shows "owners_ok (cl(i \<mapsto> (g, a, m', ow, k'))) oc"
  using assms by (auto simp: owners_ok_def)

end
