(* ===== verification/Ledger_Inv.thy ===== *)
theory Ledger_Inv
  imports Claim_Structure
begin

text \<open>
  The invariant of the ledger and its preservation by every operation of
  \<open>crates/core/src/ledger.rs\<close>: the three slabs are well formed, the links thread exactly the claims
  of each expiry chain (in ascending order) and of each committed list, the stored totals are the
  sums over the chains, and claims and owners point at each other. With it, every walk returns.
\<close>

section \<open>The ledger seen as maps\<close>

definition claims :: "ledger \<Rightarrow> claim_map" where
  "claims l i = map_option (\<lambda>(g, r). (g, claim_of r)) (slab_view (l_reservations l) i)"

definition links :: "ledger \<Rightarrow> nbrs" where
  "links l i = map_option (\<lambda>(g, r). neighbours r) (slab_view (l_reservations l) i)"

definition ends :: "ledger \<Rightarrow> end_map" where
  "ends l a = map_option (\<lambda>b. (expiry_head b, expiry_tail b)) (account l a)"

definition money :: "ledger \<Rightarrow> money_map" where
  "money l a = map_option (\<lambda>b. (mb_free b, mb_reserved b, mb_committed b)) (account l a)"

definition heads :: "ledger \<Rightarrow> head_map" where
  "heads l q = map_option rq_committed_head (request l q)"

definition slabs_wf :: "ledger \<Rightarrow> bool" where
  "slabs_wf l \<longleftrightarrow> slab_wf (l_reservations l) \<and> slab_wf (l_requests l) \<and> slab_wf (l_quotes l) \<and>
     length (l_accounts l) < 2 ^ 32"

definition ledger_inv :: "ledger \<Rightarrow> bool" where
  "ledger_inv l \<longleftrightarrow> slabs_wf l \<and> expiry_ok (claims l) (links l) (ends l) \<and>
     committed_ok (claims l) (links l) (heads l) \<and> placed_ok (claims l) (ends l) (heads l) \<and>
     totals_ok (claims l) (money l) \<and> owners_ok (claims l) (owner_claim l)"

named_theorems effects \<open>what the primitive writes do to the maps of a ledger\<close>

lemma reservation_Some_iff:
  "reservation l h = Some r \<longleftrightarrow> slab_view (l_reservations l) (h_index h) = Some (h_generation h, r)"
  by (simp add: reservation_def slab_get_Some_iff)

lemma reservation_at_index: "reservation l h = Some r \<Longrightarrow> reservation_at l (h_index h) = Some r"
  by (simp add: reservation_Some_iff reservation_at_view)

lemma reservation_at_Some_iff:
  "reservation_at l i = Some r \<longleftrightarrow> (\<exists>g. slab_view (l_reservations l) i = Some (g, r))"
  by (auto simp: reservation_at_view)

lemma claims_Some_iff:
  "claims l i = Some (g, a, m, ow, k) \<longleftrightarrow> (\<exists>r. slab_view (l_reservations l) i = Some (g, r) \<and>
     res_account r = a \<and> res_amount r = m \<and> res_owner_of r = ow \<and> kind_of r = k)"
  by (auto simp: claims_def claim_of_def)

lemma claims_None_iff: "claims l i = None \<longleftrightarrow> slab_view (l_reservations l) i = None"
  by (simp add: claims_def)

lemma links_view: "slab_view (l_reservations l) i = Some (g, r) \<Longrightarrow> links l i = Some (neighbours r)"
  by (simp add: links_def)

lemma account_Some_maps:
  "account l a = Some b \<Longrightarrow> ends l a = Some (expiry_head b, expiry_tail b)"
  "account l a = Some b \<Longrightarrow> money l a = Some (mb_free b, mb_reserved b, mb_committed b)"
  by (simp_all add: ends_def money_def)

subsection \<open>Account writes\<close>

lemma account_of_account_update [simp]:
  "account (account_update a f l) b = (if b = a then map_option f (account l b) else account l b)"
  by (simp add: account_def account_update_def vec_simps)

lemma account_update_maps [effects]:
  "claims (account_update a f l) = claims l" "links (account_update a f l) = links l"
  "heads (account_update a f l) = heads l" "owner_claim (account_update a f l) = owner_claim l"
  "request (account_update a f l) = request l" "quote (account_update a f l) = quote l"
  by (auto simp: fun_eq_iff claims_def links_def heads_def owner_claim_def request_def quote_def
      split: res_owner.split)

lemma account_update_ends [effects]:
  "ends (account_update a f l) = (\<lambda>b. if b = a then map_option (\<lambda>e. (expiry_head (f e), expiry_tail (f e))) (account l a)
     else ends l b)"
  by (auto simp: fun_eq_iff ends_def option.map_comp comp_def)

lemma account_update_money [effects]:
  "money (account_update a f l) = (\<lambda>b. if b = a then map_option (\<lambda>e. (mb_free (f e), mb_reserved (f e), mb_committed (f e))) (account l a)
     else money l b)"
  by (auto simp: fun_eq_iff money_def option.map_comp comp_def)

lemma slabs_wf_account_update [simp]: "slabs_wf (account_update a f l) = slabs_wf l"
  by (simp add: slabs_wf_def account_update_def)

lemma ends_account_update_same:
  "(\<And>e. expiry_head (f e) = expiry_head e \<and> expiry_tail (f e) = expiry_tail e) \<Longrightarrow>
     ends (account_update a f l) = ends l"
  by (auto simp: fun_eq_iff ends_def option.map_comp comp_def)

lemma money_account_update:
  "account l a = Some b \<Longrightarrow>
     money (account_update a f l) = (money l)(a \<mapsto> (mb_free (f b), mb_reserved (f b), mb_committed (f b)))"
  by (auto simp: fun_eq_iff money_def)

subsection \<open>Claim writes\<close>

lemma account_at_update [simp]: "account (reservation_at_update i f l) = account l"
  by (simp add: fun_eq_iff account_def)

lemma at_update_maps [effects]:
  "ends (reservation_at_update i f l) = ends l" "money (reservation_at_update i f l) = money l"
  "heads (reservation_at_update i f l) = heads l"
  "owner_claim (reservation_at_update i f l) = owner_claim l"
  "request (reservation_at_update i f l) = request l" "quote (reservation_at_update i f l) = quote l"
  by (auto simp: fun_eq_iff ends_def money_def heads_def owner_claim_def request_def quote_def
      split: res_owner.split)

lemma at_update_claims:
  "(\<And>r. claim_of (f r) = claim_of r) \<Longrightarrow> claims (reservation_at_update i f l) = claims l"
  by (auto simp: fun_eq_iff claims_def slab_view_at_update option.map_comp comp_def split_def)

lemma at_update_links:
  "links (reservation_at_update i f l) = (\<lambda>j. if j = i
     then map_option (\<lambda>(g, r). neighbours (f r)) (slab_view (l_reservations l) j) else links l j)"
  by (auto simp: fun_eq_iff links_def slab_view_at_update option.map_comp comp_def split_def)

lemma slabs_wf_at_update [simp]: "slabs_wf l \<Longrightarrow> slabs_wf (reservation_at_update i f l)"
  by (auto simp: slabs_wf_def reservation_at_update_def slab_update_wf(1) split: option.split)

lemma at_update_set_next [effects]:
  "claims (reservation_at_update i (set_next n) l) = claims l"
  "links (reservation_at_update i (set_next n) l) = set_nx (links l) i n"
proof -
  show "claims (reservation_at_update i (set_next n) l) = claims l"
    by (rule at_update_claims) (simp add: claim_simps)
  show "links (reservation_at_update i (set_next n) l) = set_nx (links l) i n"
    by (auto simp: at_update_links fun_eq_iff set_nx_def links_def option.map_comp comp_def
        split_def claim_simps)
qed

lemma at_update_set_prev [effects]:
  "claims (reservation_at_update i (set_prev p) l) = claims l"
  "links (reservation_at_update i (set_prev p) l) = set_pv (links l) i p"
proof -
  show "claims (reservation_at_update i (set_prev p) l) = claims l"
    by (rule at_update_claims) (simp add: claim_simps)
  show "links (reservation_at_update i (set_prev p) l) = set_pv (links l) i p"
    by (auto simp: at_update_links fun_eq_iff set_pv_def links_def option.map_comp comp_def
        split_def claim_simps)
qed

lemma at_update_set_both [effects]:
  "claims (reservation_at_update i (\<lambda>r. set_next n (set_prev p r)) l) = claims l"
  "links (reservation_at_update i (\<lambda>r. set_next n (set_prev p r)) l)
     = (links l)(i := map_option (\<lambda>_. (p, n)) (links l i))"
proof -
  show "claims (reservation_at_update i (\<lambda>r. set_next n (set_prev p r)) l) = claims l"
    by (rule at_update_claims) (simp add: claim_simps)
  show "links (reservation_at_update i (\<lambda>r. set_next n (set_prev p r)) l)
     = (links l)(i := map_option (\<lambda>_. (p, n)) (links l i))"
    by (auto simp: at_update_links fun_eq_iff links_def option.map_comp comp_def
        split_def claim_simps)
qed

subsection \<open>Owner and request writes\<close>

lemma set_owner_claim_maps [effects]:
  "claims (set_owner_claim ow c l) = claims l" "links (set_owner_claim ow c l) = links l"
  "ends (set_owner_claim ow c l) = ends l" "money (set_owner_claim ow c l) = money l"
  "account (set_owner_claim ow c l) = account l"
  by (auto simp: fun_eq_iff claims_def links_def ends_def money_def account_def)

lemma request_of_update [simp]:
  "request (request_update q f l) r = (if r = q then map_option f (request l q) else request l r)"
  by (simp add: request_def request_update_def slab_get_update)

lemma quote_of_update [simp]:
  "quote (quote_update q f l) r = (if r = q then map_option f (quote l q) else quote l r)"
  by (simp add: quote_def quote_update_def slab_get_update)

lemma update_others [simp]:
  "quote (request_update q f l) = quote l" "request (quote_update k g l) = request l"
  "account (request_update q f l) = account l" "account (quote_update k g l) = account l"
  "l_reservations (request_update q f l) = l_reservations l"
  "l_reservations (quote_update k g l) = l_reservations l"
  "l_accounts (request_update q f l) = l_accounts l" "l_accounts (quote_update k g l) = l_accounts l"
  "l_contracts (request_update q f l) = l_contracts l" "l_contracts (quote_update k g l) = l_contracts l"
  by (auto simp: fun_eq_iff quote_def request_def account_def request_update_def quote_update_def)

lemma record_update_maps [effects]:
  "claims (request_update q f l) = claims l" "links (request_update q f l) = links l"
  "ends (request_update q f l) = ends l" "money (request_update q f l) = money l"
  "claims (quote_update k g l) = claims l" "links (quote_update k g l) = links l"
  "ends (quote_update k g l) = ends l" "money (quote_update k g l) = money l"
  by (auto simp: fun_eq_iff claims_def links_def ends_def money_def)

lemma request_of_set_owner_claim:
  "request (set_owner_claim ow c l) q =
     (if ow = OwnerRequest q then map_option (request_set_claim c) (request l q) else request l q)"
  by (auto simp: set_owner_claim_def split: res_owner.split)

lemma quote_of_set_owner_claim:
  "quote (set_owner_claim ow c l) q =
     (if ow = OwnerQuote q then map_option (quote_set_claim c) (quote l q) else quote l q)"
  by (auto simp: set_owner_claim_def split: res_owner.split)

lemma set_owner_claim_heads [effects]: "heads (set_owner_claim ow c l) = heads l"
  by (auto simp: fun_eq_iff heads_def request_of_set_owner_claim option.map_comp comp_def record_setters)

lemma set_owner_claim_owner [effects]:
  "owner_claim (set_owner_claim ow c l) = (\<lambda>ow'. if ow' = ow then map_option (\<lambda>_. c) (owner_claim l ow) else owner_claim l ow')"
  by (auto simp: fun_eq_iff owner_claim_def request_of_set_owner_claim quote_of_set_owner_claim
      option.map_comp comp_def record_setters split: res_owner.split)

lemma slabs_wf_updates [simp]:
  "slabs_wf l \<Longrightarrow> slabs_wf (request_update q f l)" "slabs_wf l \<Longrightarrow> slabs_wf (quote_update k g l)"
  by (auto simp: slabs_wf_def request_update_def quote_update_def slab_update_wf(1))

lemma slabs_wf_set_owner [simp]: "slabs_wf l \<Longrightarrow> slabs_wf (set_owner_claim ow c l)"
  by (simp add: set_owner_claim_def split: res_owner.split)

lemma request_set_head_maps [effects]:
  "heads (request_update q (request_set_head h) l) = (heads l)(q := map_option (\<lambda>_. h) (heads l q))"
  "owner_claim (request_update q (request_set_head h) l) = owner_claim l"
  by (auto simp: fun_eq_iff heads_def owner_claim_def option.map_comp comp_def record_setters
      split: res_owner.split)

subsection \<open>Removing a claim\<close>

lemma remove_claim_maps:
  assumes "reservation l h = Some r"
  shows "claims (remove_claim h l) = (claims l)(h_index h := None)"
    and "links (remove_claim h l) = (links l)(h_index h := None)"
  using assms
  by (auto simp: fun_eq_iff claims_def links_def remove_claim_def slab_view_remove reservation_def)

lemma remove_claim_frame [effects]:
  "ends (remove_claim h l) = ends l" "money (remove_claim h l) = money l"
  "heads (remove_claim h l) = heads l" "owner_claim (remove_claim h l) = owner_claim l"
  "request (remove_claim h l) = request l" "quote (remove_claim h l) = quote l"
  "account (remove_claim h l) = account l"
  by (auto simp: fun_eq_iff ends_def money_def heads_def owner_claim_def request_def quote_def
      account_def remove_claim_def split: res_owner.split)

lemma slabs_wf_remove_claim [simp]: "slabs_wf l \<Longrightarrow> slabs_wf (remove_claim h l)"
  using slab_remove_spec(4)[of "l_reservations l" h] slab_remove_None[of "l_reservations l" h]
  by (cases "slab_remove (l_reservations l) h"; cases "fst (slab_remove (l_reservations l) h)")
    (auto simp: slabs_wf_def remove_claim_def)

section \<open>The link surgeries of the ledger\<close>

lemma unlink_effect:
  assumes "reservation_at l i = Some r" and "neighbours r = (p, n)"
  shows "claims (unlink_from_chain a i l) = claims l"
    and "links (unlink_from_chain a i l) = unlink_nbrs (links l) i p n"
    and "ends (unlink_from_chain a i l) = (ends l)(a := map_option (\<lambda>(h, t).
           (if p = NIL then n else h, if n = NIL then p else t)) (ends l a))"
    and "money (unlink_from_chain a i l) = money l"
    and "heads (unlink_from_chain a i l) = heads l"
    and "owner_claim (unlink_from_chain a i l) = owner_claim l"
    and "request (unlink_from_chain a i l) = request l" and "quote (unlink_from_chain a i l) = quote l"
    and "slabs_wf l \<Longrightarrow> slabs_wf (unlink_from_chain a i l)"
  using assms
  by (auto simp: unlink_from_chain_def Let_def effects unlink_nbrs_def link_index_def fun_eq_iff
      ends_def money_def option.map_comp comp_def split: option.splits)

lemma splice_after_effect:
  assumes "reservation_at l b = Some r" and "neighbours r = (p, n)"
  shows "claims (splice_after a i b l) = claims l"
    and "links (splice_after a i b l) = splice_after_nbrs (links l) i b n"
    and "ends (splice_after a i b l) = (ends l)(a := map_option (\<lambda>(h, t). (h, if n = NIL then i else t)) (ends l a))"
    and "money (splice_after a i b l) = money l"
    and "heads (splice_after a i b l) = heads l" and "owner_claim (splice_after a i b l) = owner_claim l"
    and "request (splice_after a i b l) = request l" and "quote (splice_after a i b l) = quote l"
    and "slabs_wf l \<Longrightarrow> slabs_wf (splice_after a i b l)"
  using assms
  by (auto simp: splice_after_def Let_def effects splice_after_nbrs_def link_index_def link_to_def fun_eq_iff
      ends_def money_def option.map_comp comp_def split: option.splits)

lemma splice_at_head_effect:
  assumes "ends l a = Some (h, t)"
  shows "claims (splice_at_head a i l) = claims l"
    and "links (splice_at_head a i l) = splice_head_nbrs (links l) i h"
    and "ends (splice_at_head a i l) = (ends l)(a \<mapsto> (i, if h = NIL then i else t))"
    and "money (splice_at_head a i l) = money l"
    and "heads (splice_at_head a i l) = heads l" and "owner_claim (splice_at_head a i l) = owner_claim l"
    and "request (splice_at_head a i l) = request l" and "quote (splice_at_head a i l) = quote l"
    and "slabs_wf l \<Longrightarrow> slabs_wf (splice_at_head a i l)"
  using assms
  by (auto simp: splice_at_head_def Let_def effects splice_head_nbrs_def link_index_def link_to_def fun_eq_iff
      ends_def money_def option.map_comp comp_def split: option.splits)

lemma link_into_list_effect:
  assumes "heads l q = Some h" and "claims l i = Some (g, a, m, ow, k)"
  shows "claims (link_into_committed_list q i l) = (claims l)(i \<mapsto> (g, a, m, ow, OnCommitted q))"
    and "links (link_into_committed_list q i l) = splice_head_nbrs (links l) i h"
    and "ends (link_into_committed_list q i l) = ends l"
    and "money (link_into_committed_list q i l) = money l"
    and "heads (link_into_committed_list q i l) = (heads l)(q \<mapsto> i)"
    and "owner_claim (link_into_committed_list q i l) = owner_claim l"
    and "quote (link_into_committed_list q i l) = quote l"
    and "request (link_into_committed_list q i l) = (\<lambda>r. if r = q
           then map_option (request_set_head i) (request l q) else request l r)"
    and "slabs_wf l \<Longrightarrow> slabs_wf (link_into_committed_list q i l)"
proof -
  obtain rq where rq: "request l q = Some rq" "rq_committed_head rq = h"
    using assms(1) by (auto simp: heads_def)
  have c1: "claims (reservation_at_update i (set_links (Committed q NIL h')) l)
      = (claims l)(i \<mapsto> (g, a, m, ow, OnCommitted q))" for h'
    using assms(2) by (auto simp: fun_eq_iff claims_def slab_view_at_update claim_of_def
        set_links_def kind_of_def)
  have k1: "links (reservation_at_update i (set_links (Committed q NIL h')) l)
      = (links l)(i := map_option (\<lambda>_. (NIL, h')) (links l i))" for h'
    by (auto simp: at_update_links fun_eq_iff links_def option.map_comp comp_def split_def
        set_links_def neighbours_def)
  show "claims (link_into_committed_list q i l) = (claims l)(i \<mapsto> (g, a, m, ow, OnCommitted q))"
    "links (link_into_committed_list q i l) = splice_head_nbrs (links l) i h"
    by (simp_all add: link_into_committed_list_def Let_def rq effects c1 k1 link_index_def link_to_def
        splice_head_nbrs_def)
  show "ends (link_into_committed_list q i l) = ends l"
    "money (link_into_committed_list q i l) = money l"
    "heads (link_into_committed_list q i l) = (heads l)(q \<mapsto> i)"
    "owner_claim (link_into_committed_list q i l) = owner_claim l"
    "quote (link_into_committed_list q i l) = quote l"
    "request (link_into_committed_list q i l) = (\<lambda>r. if r = q
           then map_option (request_set_head i) (request l q) else request l r)"
    "slabs_wf l \<Longrightarrow> slabs_wf (link_into_committed_list q i l)"
    using rq by (auto simp: link_into_committed_list_def Let_def effects link_index_def link_to_def
        heads_def fun_eq_iff split: option.splits)
qed

section \<open>Dropping a reserved claim\<close>

lemma ledger_invD:
  assumes "ledger_inv l"
  shows "slabs_wf l" and "expiry_ok (claims l) (links l) (ends l)"
    and "committed_ok (claims l) (links l) (heads l)" and "placed_ok (claims l) (ends l) (heads l)"
    and "totals_ok (claims l) (money l)" and "owners_ok (claims l) (owner_claim l)"
  using assms by (auto simp: ledger_inv_def)

lemma claim_facts:
  assumes inv: "ledger_inv l" and r: "reservation l h = Some r"
  obtains b where "account l (res_account r) = Some b"
    and "claims l (h_index h) = Some (h_generation h, res_account r, res_amount r, res_owner_of r, kind_of r)"
    and "links l (h_index h) = Some (neighbours r)"
    and "owner_claim l (res_owner_of r) = Some (Some h)" and "h_index h \<noteq> NIL"
    and "is_committed r \<or> unat (res_amount r) \<le> unat (mb_reserved b)"
    and "\<not> is_committed r \<or> unat (res_amount r) \<le> unat (mb_committed b)"
proof -
  have v: "slab_view (l_reservations l) (h_index h) = Some (h_generation h, r)"
    using r by (simp add: reservation_Some_iff)
  then have c: "claims l (h_index h) = Some (h_generation h, res_account r, res_amount r, res_owner_of r, kind_of r)"
    and n: "links l (h_index h) = Some (neighbours r)"
    by (simp_all add: claims_Some_iff links_view)
  then have "ends l (res_account r) \<noteq> None" and nil: "h_index h \<noteq> NIL"
    using ledger_invD(4)[OF inv] unfolding placed_ok_def by blast+
  then obtain b where b: "account l (res_account r) = Some b" by (auto simp: ends_def)
  have "is_committed r \<or> unat (res_amount r) \<le> unat (mb_reserved b)"
    using totals_drop_expiry(1)[OF ledger_invD(5)[OF inv], of "h_index h"] c account_Some_maps(2)[OF b]
    by (cases "kind_of r") (auto simp: kind_of_cases(3))
  moreover have "\<not> is_committed r \<or> unat (res_amount r) \<le> unat (mb_committed b)"
    using totals_drop_committed(1)[OF ledger_invD(5)[OF inv], of "h_index h"] c account_Some_maps(2)[OF b]
    by (cases "kind_of r") (auto simp: kind_of_cases(3))
  ultimately show ?thesis using that b c n nil owners_okD(1)[OF ledger_invD(6)[OF inv] c] by blast
qed

lemma not_committed_kind: "\<not> is_committed r \<Longrightarrow> \<exists>e. kind_of r = OnExpiry e"
  by (cases "kind_of r") (auto simp: kind_of_cases(3))

text \<open>The shared body of \<open>release\<close>, of the commit phase's \<open>release\<close> and of \<open>reclaim\<close>.\<close>

definition drop_reserved :: "(mirrored_balance \<Rightarrow> mirrored_balance) \<Rightarrow> res_idx \<Rightarrow> reservation \<Rightarrow> ledger \<Rightarrow> ledger" where
  "drop_reserved f h r l = remove_claim h (set_owner_claim (res_owner_of r) None
     (account_update (res_account r) f (unlink_from_chain (res_account r) (h_index h) l)))"

lemma reservation_survives:
  assumes "reservation l h = Some r" and "claims l' = claims l"
  shows "\<exists>r'. reservation l' h = Some r'"
proof -
  have "claims l (h_index h) = Some (h_generation h, claim_of r)"
    using assms(1) by (simp add: claims_def reservation_Some_iff)
  then have "claims l' (h_index h) = Some (h_generation h, claim_of r)" using assms(2) by simp
  then show ?thesis by (auto simp: claims_def reservation_Some_iff)
qed

lemma reservation_None_iff:
  "reservation l h = None \<longleftrightarrow> (\<forall>c. claims l (h_index h) \<noteq> Some (h_generation h, c))"
proof -
  have "reservation l h = Some r \<Longrightarrow> claims l (h_index h) = Some (h_generation h, claim_of r)" for r
    by (simp add: claims_def reservation_Some_iff)
  moreover have "claims l (h_index h) = Some (h_generation h, c) \<Longrightarrow> \<exists>r. reservation l h = Some r" for c
    by (auto simp: claims_def reservation_Some_iff)
  ultimately show ?thesis by (metis not_Some_eq)
qed

lemma reservation_drop_iff:
  assumes "claims l' = (claims l)(h_index h := None)" and "reservation l h \<noteq> None"
  shows "reservation l' h' = None \<longleftrightarrow> h' = h \<or> reservation l h' = None"
proof (cases "h_index h' = h_index h")
  case True
  obtain c where "claims l (h_index h) = Some (h_generation h, c)"
    using assms(2) by (auto simp: reservation_None_iff)
  with True show ?thesis by (cases h; cases h') (auto simp: reservation_None_iff assms(1))
next
  case False
  then have "h' \<noteq> h" by auto
  with False show ?thesis by (simp add: reservation_None_iff assms(1))
qed

lemma drop_reserved_effect:
  assumes inv: "ledger_inv l" and r: "reservation l h = Some r" "\<not> is_committed r"
    and b: "account l (res_account r) = Some b"
    and f: "\<forall>e. expiry_head (f e) = expiry_head e \<and> expiry_tail (f e) = expiry_tail e \<and>
              mb_free (f e) = mb_free e \<and> mb_committed (f e) = mb_committed e"
      "\<forall>e. mb_reserved e = mb_reserved b \<longrightarrow> mb_reserved (f e) = mb_reserved b - res_amount r"
  defines "l' \<equiv> drop_reserved f h r l"
  shows "ledger_inv l'" and "claims l' = (claims l)(h_index h := None)"
    and "money l' = (money l)(res_account r \<mapsto> (mb_free b, mb_reserved b - res_amount r, mb_committed b))"
    and "request l' q = (if res_owner_of r = OwnerRequest q
           then map_option (request_set_claim None) (request l q) else request l q)"
    and "quote l' k = (if res_owner_of r = OwnerQuote k
           then map_option (quote_set_claim None) (quote l k) else quote l k)"
    and "reservation l' h' = None \<longleftrightarrow> h' = h \<or> reservation l h' = None"
    and "ends l' = (ends l)(res_account r := map_option (\<lambda>(hd0, tl0).
           (if fst (neighbours r) = NIL then snd (neighbours r) else hd0,
            if snd (neighbours r) = NIL then fst (neighbours r) else tl0)) (ends l (res_account r)))"
proof -
  define a i where "a = res_account r" and "i = h_index h"
  obtain p n where pn: "neighbours r = (p, n)" by (cases "neighbours r")
  obtain e where e: "kind_of r = OnExpiry e" using not_committed_kind[OF r(2)] by blast
  have c: "claims l i = Some (h_generation h, a, res_amount r, res_owner_of r, OnExpiry e)"
    and k: "links l i = Some (p, n)" and oc: "owner_claim l (res_owner_of r) = Some (Some h)"
    using claim_facts[OF inv r(1)] e pn by (auto simp: a_def i_def)
  define l1 where "l1 = unlink_from_chain a i l"
  note u = unlink_effect[OF reservation_at_index[OF r(1)] pn, folded a_def i_def, of a, folded l1_def]
  define l2 where "l2 = set_owner_claim (res_owner_of r) None (account_update a f l1)"
  have c2: "claims l2 = claims l" and k2: "links l2 = unlink_nbrs (links l) i p n"
    by (simp_all add: l2_def effects u)
  have l': "l' = remove_claim h l2" by (simp add: l'_def drop_reserved_def l2_def l1_def a_def i_def)
  obtain r2 where r2: "reservation l2 h = Some r2" using reservation_survives[OF r(1) c2] by blast
  show cl': "claims l' = (claims l)(h_index h := None)"
    using remove_claim_maps(1)[OF r2] by (simp add: l' c2)
  have k': "links l' = (unlink_nbrs (links l) i p n)(i := None)"
    using remove_claim_maps(2)[OF r2] by (simp add: l' k2 i_def)
  obtain hd0 tl0 where ht: "ends l a = Some (hd0, tl0)" using b by (simp add: ends_def a_def)
  have mo: "money l a = Some (mb_free b, mb_reserved b, mb_committed b)"
    using b by (simp add: money_def a_def)
  obtain b1 where b1: "account l1 a = Some b1" using u(3) ht by (auto simp: ends_def fun_eq_iff split: if_splits)
  then have b1': "mb_free b1 = mb_free b" "mb_reserved b1 = mb_reserved b" "mb_committed b1 = mb_committed b"
    using u(4) mo by (auto simp: money_def fun_eq_iff dest!: spec[of _ a])
  have en': "ends l' = (ends l)(a \<mapsto> (if p = NIL then n else hd0, if n = NIL then p else tl0))"
    using u(3) ht f(1) ends_account_update_same[of f a l1] by (simp add: l' l2_def effects fun_eq_iff)
  show mo': "money l' = (money l)(res_account r \<mapsto> (mb_free b, mb_reserved b - res_amount r, mb_committed b))"
    using u(4) b1' f money_account_update[OF b1] by (simp add: l' l2_def effects a_def del: fun_upd_apply)
  have hd': "heads l' = heads l" by (simp add: l' l2_def effects u)
  have oc': "owner_claim l' = (owner_claim l)(res_owner_of r \<mapsto> None)"
    using oc by (auto simp: l' l2_def effects u fun_eq_iff)
  note D = ledger_invD[OF inv]
  show "ledger_inv l'"
    unfolding ledger_inv_def
  proof (intro conjI)
    show "slabs_wf l'" using u(9) D(1) by (simp add: l' l2_def)
    show "expiry_ok (claims l') (links l') (ends l')"
      using expiry_ok_drop[OF D(2) c k ht, of "links l'"] by (simp add: cl' en' k' i_def)
    show "committed_ok (claims l') (links l') (heads l')"
      using committed_ok_drop_expiry[OF D(2,3) c k ht, of "links l'"] by (simp add: cl' hd' k' i_def)
    show "placed_ok (claims l') (ends l') (heads l')"
      using D(4) by (auto simp: placed_ok_def cl' en' hd')
    show "totals_ok (claims l') (money l')"
      using totals_drop_expiry(2)[OF D(5) c mo] by (simp add: cl' mo' i_def a_def)
    show "owners_ok (claims l') (owner_claim l')"
      using owners_ok_drop[OF D(6), of h] c by (simp add: cl' oc' i_def)
  qed
  show "request l' q = (if res_owner_of r = OwnerRequest q
           then map_option (request_set_claim None) (request l q) else request l q)"
    "quote l' k = (if res_owner_of r = OwnerQuote k
           then map_option (quote_set_claim None) (quote l k) else quote l k)" for q k
    by (simp_all add: l' l2_def effects request_of_set_owner_claim quote_of_set_owner_claim u)
  show "reservation l' h' = None \<longleftrightarrow> h' = h \<or> reservation l h' = None"
    using reservation_drop_iff[OF cl'] r(1) by simp
  show "ends l' = (ends l)(res_account r := map_option (\<lambda>(hd0, tl0).
           (if fst (neighbours r) = NIL then snd (neighbours r) else hd0,
            if snd (neighbours r) = NIL then fst (neighbours r) else tl0)) (ends l (res_account r)))"
    using en' ht pn by (simp add: a_def)
qed

section \<open>Release\<close>

text \<open>What a claim move leaves alone: every request and quote but for its claim field, and the mirror.\<close>

definition same_market :: "ledger \<Rightarrow> ledger \<Rightarrow> bool" where
  "same_market l l' \<longleftrightarrow>
     (\<forall>q. map_option (request_set_claim None) (request l' q) = map_option (request_set_claim None) (request l q)) \<and>
     (\<forall>k. map_option (quote_set_claim None) (quote l' k) = map_option (quote_set_claim None) (quote l k)) \<and>
     (\<forall>a. map_option mb_free (account l' a) = map_option mb_free (account l a)) \<and>
     l_contracts l' = l_contracts l"

lemma same_market_refl [simp]: "same_market l l"
  by (simp add: same_market_def)

lemma same_market_trans: "same_market l l' \<Longrightarrow> same_market l' l'' \<Longrightarrow> same_market l l''"
  by (simp add: same_market_def)

lemma set_claim_twice [simp]:
  "request_set_claim c (request_set_claim d r) = request_set_claim c r"
  "quote_set_claim c (quote_set_claim d k) = quote_set_claim c k"
  by (simp_all add: record_setters)

lemma contracts_frame [simp]:
  "l_contracts (unlink_from_chain a i l) = l_contracts l"
  "l_contracts (splice_after a i b l) = l_contracts l"
  "l_contracts (splice_at_head a i l) = l_contracts l"
  "l_contracts (link_into_committed_list q i l) = l_contracts l"
  "l_contracts (remove_claim h l) = l_contracts l"
  "l_contracts (drop_reserved f h r l) = l_contracts l"
  by (auto simp: unlink_from_chain_def splice_after_def splice_at_head_def link_into_committed_list_def
      remove_claim_def drop_reserved_def Let_def split: option.splits prod.splits)

lemma saturating_sub_exact: "unat m \<le> unat r \<Longrightarrow> saturating_sub r m = r - m"
  by (simp add: saturating_sub_def checked_sub_def word_le_nat_alt)

lemma checked_sub_exact: "unat m \<le> unat r \<Longrightarrow> checked_sub r m = Some (r - m)"
  by (simp add: checked_sub_def word_le_nat_alt)

definition lower_reserved :: "amount \<Rightarrow> mirrored_balance \<Rightarrow> mirrored_balance" where
  "lower_reserved m b = set_reserved (saturating_sub (mb_reserved b) m) b"

text \<open>A reserved claim dropped with its account's total lowered: the effect of every release.\<close>

lemma drop_lowered:
  assumes inv: "ledger_inv l" and r: "reservation l h = Some r" "\<not> is_committed r"
    and b: "account l (res_account r) = Some b"
    and f: "f = lower_reserved (res_amount r) \<or> f = set_reserved (mb_reserved b - res_amount r)"
  shows "ledger_inv (drop_reserved f h r l)"
    and "claims (drop_reserved f h r l) = (claims l)(h_index h := None)"
    and "same_market l (drop_reserved f h r l)"
    and "money (drop_reserved f h r l) = (money l)(res_account r \<mapsto>
           (mb_free b, mb_reserved b - res_amount r, mb_committed b))"
    and "reservation (drop_reserved f h r l) h' = None \<longleftrightarrow> h' = h \<or> reservation l h' = None"
    and "ends (drop_reserved f h r l) = (ends l)(res_account r := map_option (\<lambda>(hd0, tl0).
           (if fst (neighbours r) = NIL then snd (neighbours r) else hd0,
            if snd (neighbours r) = NIL then fst (neighbours r) else tl0)) (ends l (res_account r)))"
proof -
  obtain b' where "account l (res_account r) = Some b'" and le: "unat (res_amount r) \<le> unat (mb_reserved b')"
    using claim_facts[OF inv r(1)] r(2) by metis
  with b have "unat (res_amount r) \<le> unat (mb_reserved b)" by simp
  then have f1: "\<forall>e. mb_reserved e = mb_reserved b \<longrightarrow> mb_reserved (f e) = mb_reserved b - res_amount r"
    using f by (auto simp: lower_reserved_def balance_setters saturating_sub_exact)
  have f2: "\<forall>e. expiry_head (f e) = expiry_head e \<and> expiry_tail (f e) = expiry_tail e \<and>
      mb_free (f e) = mb_free e \<and> mb_committed (f e) = mb_committed e"
    using f by (auto simp: lower_reserved_def balance_setters)
  note E = drop_reserved_effect[OF inv r b f2 f1]
  show "ledger_inv (drop_reserved f h r l)"
    "claims (drop_reserved f h r l) = (claims l)(h_index h := None)"
    and mo: "money (drop_reserved f h r l) = (money l)(res_account r \<mapsto>
           (mb_free b, mb_reserved b - res_amount r, mb_committed b))"
    and "reservation (drop_reserved f h r l) h' = None \<longleftrightarrow> h' = h \<or> reservation l h' = None"
    and "ends (drop_reserved f h r l) = (ends l)(res_account r := map_option (\<lambda>(hd0, tl0).
           (if fst (neighbours r) = NIL then snd (neighbours r) else hd0,
            if snd (neighbours r) = NIL then fst (neighbours r) else tl0)) (ends l (res_account r)))"
    by (rule E(1) E(2) E(3) E(6) E(7))+
  have "map_option mb_free (account (drop_reserved f h r l) a) = map_option mb_free (account l a)" for a
  proof -
    have fr: "map_option mb_free (account x a) = map_option fst (money x a)" for x
      by (simp add: money_def option.map_comp comp_def)
    show ?thesis unfolding fr mo using account_Some_maps(2)[OF b] by simp
  qed
  then show "same_market l (drop_reserved f h r l)"
    using E(4,5) by (auto simp: same_market_def option.map_comp comp_def)
qed

lemma release_cases:
  assumes inv: "ledger_inv l"
  shows "release l h = (case reservation l h of
      None \<Rightarrow> (Inl StaleReservation, l)
    | Some r \<Rightarrow> if is_committed r then (Inl ReservationCommitted, l)
        else (Inr (res_amount r),
              drop_reserved (set_reserved (mb_reserved (the (account l (res_account r))) - res_amount r)) h r l))"
proof (cases "reservation l h")
  case None
  then show ?thesis by (simp add: release_def)
next
  case (Some r)
  obtain b where "account l (res_account r) = Some b"
    "is_committed r \<or> unat (res_amount r) \<le> unat (mb_reserved b)"
    using claim_facts[OF inv Some] by metis
  with Some show ?thesis
    by (auto simp: release_def Let_def drop_reserved_def amount_checked_sub_def checked_sub_exact)
qed

lemma cp_release_eq:
  "cp_release h l = (case reservation l h of
      None \<Rightarrow> l
    | Some r \<Rightarrow> if is_committed r then l else drop_reserved (lower_reserved (res_amount r)) h r l)"
  by (auto simp: cp_release_def drop_reserved_def lower_reserved_def[abs_def] Let_def split: option.split)

lemma reclaim_eq:
  "res_account r = a \<Longrightarrow> h_index h = i \<Longrightarrow> reclaim a i h r l = drop_reserved (lower_reserved (res_amount r)) h r l"
  by (simp add: reclaim_def drop_reserved_def lower_reserved_def[abs_def])

lemma release_inv:
  assumes inv: "ledger_inv l"
  shows "ledger_inv (snd (release l h))"
proof (cases "reservation l h")
  case (Some r)
  obtain b where "account l (res_account r) = Some b" using claim_facts[OF inv Some] by metis
  with drop_lowered(1)[OF inv Some] inv Some show ?thesis by (simp add: release_cases[OF inv])
qed (simp add: release_cases inv)

lemma cp_release_inv:
  assumes inv: "ledger_inv l"
  shows "ledger_inv (cp_release h l)"
proof (cases "reservation l h")
  case (Some r)
  obtain b where "account l (res_account r) = Some b" using claim_facts[OF inv Some] by metis
  with drop_lowered(1)[OF inv Some] inv Some show ?thesis by (simp add: cp_release_eq)
qed (simp add: cp_release_eq inv)

text \<open>The commit phase's \<open>release\<close> on a reserved claim, field by field.\<close>

lemma cp_release_spec:
  assumes inv: "ledger_inv l" and r: "reservation l h = Some r" "\<not> is_committed r"
  shows "ledger_inv (cp_release h l)" and "claims (cp_release h l) = (claims l)(h_index h := None)"
    and "request (cp_release h l) = (\<lambda>q. if res_owner_of r = OwnerRequest q
           then map_option (request_set_claim None) (request l q) else request l q)"
    and "quote (cp_release h l) = (\<lambda>k. if res_owner_of r = OwnerQuote k
           then map_option (quote_set_claim None) (quote l k) else quote l k)"
    and "same_market l (cp_release h l)"
proof -
  obtain b where b: "account l (res_account r) = Some b" and le: "unat (res_amount r) \<le> unat (mb_reserved b)"
    using claim_facts[OF inv r(1)] r(2) by metis
  define f where "f = lower_reserved (res_amount r)"
  have eq: "cp_release h l = drop_reserved f h r l" using r by (simp add: cp_release_eq f_def)
  have f1: "\<forall>e. expiry_head (f e) = expiry_head e \<and> expiry_tail (f e) = expiry_tail e \<and>
      mb_free (f e) = mb_free e \<and> mb_committed (f e) = mb_committed e"
    by (simp add: f_def lower_reserved_def balance_setters)
  have f2: "\<forall>e. mb_reserved e = mb_reserved b \<longrightarrow> mb_reserved (f e) = mb_reserved b - res_amount r"
    using le by (simp add: f_def lower_reserved_def balance_setters saturating_sub_exact)
  note E = drop_reserved_effect[OF inv r b f1 f2, folded eq]
  show "ledger_inv (cp_release h l)" "claims (cp_release h l) = (claims l)(h_index h := None)"
    by (rule E(1) E(2))+
  show "request (cp_release h l) = (\<lambda>q. if res_owner_of r = OwnerRequest q
           then map_option (request_set_claim None) (request l q) else request l q)"
    "quote (cp_release h l) = (\<lambda>k. if res_owner_of r = OwnerQuote k
           then map_option (quote_set_claim None) (quote l k) else quote l k)"
    using E(4,5) by (simp_all add: fun_eq_iff)
  show "same_market l (cp_release h l)"
    unfolding eq by (rule drop_lowered(3)[OF inv r b]) (simp add: f_def)
qed

section \<open>Normalisation\<close>

definition expired_of :: "claim_map \<Rightarrow> account_idx \<Rightarrow> ts \<Rightarrow> u32 set" where
  "expired_of cl a now = {i \<in> on_expiry cl a. expiry_at cl i \<le> now}"

lemma reclaim_loop_spec:
  assumes "ledger_inv l" and "ends l a = Some (cursor, t)"
  shows "\<exists>n' l'. reclaim_loop a now cursor n l = (n', l') \<and> ledger_inv l' \<and> same_market l l' \<and>
    claims l' = (\<lambda>i. if i \<in> expired_of (claims l) a now then None else claims l i) \<and>
    unat n' = min (unat n + card (expired_of (claims l) a now)) (2 ^ 32 - 1)"
  using assms
proof (induction a now cursor n l arbitrary: t rule: reclaim_loop.induct)
  case (1 a now cursor n l)
  note inv = 1(2)
  obtain xs where xs: "expiry_chain (claims l) (links l) a cursor t xs"
    using expiry_okE[OF ledger_invD(2)[OF inv] 1(3)] .
  have n_ok: "unat n = min (unat n) (2 ^ 32 - 1)" using unat_le_u_max[of n] by simp
  show ?case
  proof (cases xs)
    case Nil
    with xs have "cursor = NIL" and "expired_of (claims l) a now = {}"
      by (auto simp: expiry_chain_def expired_of_def)
    with inv n_ok show ?thesis by (simp add: reclaim_loop.simps)
  next
    case (Cons x rest)
    then have cx: "cursor = x" "x \<noteq> NIL" and xin: "x \<in> on_expiry (claims l) a"
      using xs by (auto simp: expiry_chain_def dll_def)
    then obtain g m ow e where c: "claims l x = Some (g, a, m, ow, OnExpiry e)" by (auto simp: on_expiry_def)
    then obtain r where v: "slab_view (l_reservations l) x = Some (g, r)"
      and r: "res_account r = a" "kind_of r = OnExpiry e" by (auto simp: claims_Some_iff)
    define h where "h = \<lparr>h_index = x, h_generation = g\<rparr>"
    have hr: "reservation l h = Some r" "slab_handle_at (l_reservations l) x = Some h"
      "reservation_at l x = Some r" "h_index h = x"
      using v by (auto simp: reservation_Some_iff slab_handle_at_view reservation_at_view h_def)
    have nc: "\<not> is_committed r" using r(2) by (simp add: kind_of_cases(3))
    have ex: "res_is_expired_at r now = Some (e \<le> now)" by (simp add: res_is_expired_at_kind r)
    have ee: "expiry_at (claims l) x = e" using c by (simp add: expiry_at_def)
    show ?thesis
    proof (cases "e \<le> now")
      case False
      have "\<forall>y \<in> on_expiry (claims l) a. e \<le> expiry_at (claims l) y"
      proof -
        have so: "sorted (map (expiry_at (claims l)) (x # rest))" and st: "set (x # rest) = on_expiry (claims l) a"
          using xs Cons by (simp_all add: expiry_chain_def)
        from so have "\<forall>y \<in> set (x # rest). expiry_at (claims l) x \<le> expiry_at (claims l) y" by auto
        then show ?thesis unfolding st ee .
      qed
      then have "expired_of (claims l) a now = {}" using False by (auto simp: expired_of_def)
      with False cx hr ex inv n_ok show ?thesis by (simp add: reclaim_loop.simps link_index_def)
    next
      case True
      define l1 where "l1 = reclaim a x h r l"
      have l1: "l1 = drop_reserved (lower_reserved (res_amount r)) h r l"
        unfolding l1_def by (rule reclaim_eq) (simp_all add: r hr)
      obtain b where b: "account l (res_account r) = Some b" using claim_facts[OF inv hr(1)] by metis
      note D = drop_lowered[OF inv hr(1) nc b disjI1[OF refl], folded l1]
      from xs Cons have "dll (links l) cursor t (x # rest)" by (simp add: expiry_chain_def)
      then have "fst (neighbours r) = NIL"
        using links_view[OF v] by (cases "neighbours r") (auto simp: dll_def)
      then obtain t' where en1: "ends l1 a = Some (snd (neighbours r), t')"
        using D(6) 1(3) r(1) by auto
      have step: "reclaim_loop a now cursor n l = reclaim_loop a now (snd (neighbours r)) (saturating_add n 1) l1"
        using True cx hr ex by (subst reclaim_loop.simps) (simp add: l1_def link_index_def)
      have cur: "link_index cursor = Some x" using cx by simp
      note IH0 = 1(1)[OF cur hr(3) ex _ hr(2), folded l1_def, OF _ D(1) en1]
      obtain n' l' where IH: "reclaim_loop a now (snd (neighbours r)) (saturating_add n 1) l1 = (n', l')"
        "ledger_inv l'" "same_market l1 l'"
        "claims l' = (\<lambda>i. if i \<in> expired_of (claims l1) a now then None else claims l1 i)"
        "unat n' = min (unat (saturating_add n 1) + card (expired_of (claims l1) a now)) (2 ^ 32 - 1)"
        using IH0 True by blast
      have exp1: "expired_of (claims l1) a now = expired_of (claims l) a now - {x}"
        by (auto simp: expired_of_def D(2) hr(4))
      have xe: "x \<in> expired_of (claims l) a now" using xin ee True by (simp add: expired_of_def)
      then have "card (expired_of (claims l) a now) = Suc (card (expired_of (claims l1) a now))"
        using card.remove[of "expired_of (claims l) a now" x] by (simp add: exp1)
      moreover have "claims l' = (\<lambda>i. if i \<in> expired_of (claims l) a now then None else claims l i)"
        unfolding IH(4) exp1 using xe by (auto simp: D(2) hr(4) fun_eq_iff)
      moreover have "same_market l l'" using same_market_trans[OF D(3) IH(3)] .
      ultimately show ?thesis
        using step IH(1,2,5) by (auto simp: unat_saturating_add)
    qed
  qed
qed

lemma release_expired_spec:
  assumes inv: "ledger_inv l" and b: "account l a = Some b"
  obtains n l' where "release_expired l a now = (Inr n, l')" and "ledger_inv l'" and "same_market l l'"
    and "claims l' = (\<lambda>i. if i \<in> expired_of (claims l) a now then None else claims l i)"
    and "unat n = card (expired_of (claims l) a now)"
proof -
  obtain n l' where L: "reclaim_loop a now (expiry_head b) 0 l = (n, l')" "ledger_inv l'" "same_market l l'"
    "claims l' = (\<lambda>i. if i \<in> expired_of (claims l) a now then None else claims l i)"
    "unat n = min (unat (0 :: u32) + card (expired_of (claims l) a now)) (2 ^ 32 - 1)"
    using reclaim_loop_spec[OF inv account_Some_maps(1)[OF b]] by blast
  have "card (expired_of (claims l) a now) \<le> card {i. slab_view (l_reservations l) i \<noteq> None}"
    by (rule card_mono) (auto simp: expired_of_def on_expiry_def claims_Some_iff)
  also have "\<dots> < 2 ^ 32"
    using occupied_card[of "l_reservations l"] slab_wfD(1) ledger_invD(1)[OF inv]
    by (fastforce simp: slabs_wf_def)
  finally have "unat n = card (expired_of (claims l) a now)" using L(5) by simp
  with L show ?thesis using b by (intro that[of n l']) (simp_all add: release_expired_def)
qed

lemma release_expired_unknown:
  "account l a = None \<Longrightarrow> release_expired l a now = (Inl UnknownAccount, l)"
  by (simp add: release_expired_def)

lemma release_expired_inv:
  assumes "ledger_inv l"
  shows "ledger_inv (snd (release_expired l a now)) \<and> same_market l (snd (release_expired l a now))"
proof (cases "account l a")
  case None
  with assms show ?thesis by (simp add: release_expired_unknown)
next
  case (Some b)
  from release_expired_spec[OF assms this, of now] show ?thesis by (metis snd_conv)
qed

section \<open>Inserting a claim\<close>

lemma res_links_expiry:
  "kind_of r = OnExpiry e \<Longrightarrow> neighbours r = (p, n) \<Longrightarrow> res_links r = Reserved e p n"
  by (cases "res_links r") (auto simp: kind_of_def neighbours_def)

lemma expiry_position_spec:
  assumes "dseg (links l) NIL h ys c k" and "\<And>y. y \<in> set ys \<Longrightarrow> y \<in> on_expiry (claims l) a"
  shows "\<exists>pos. expiry_position l e c = Some pos \<and> insert_position (claims l) ys e pos"
  using assms
proof (induction ys arbitrary: c k rule: rev_induct)
  case Nil
  then show ?case by (simp add: expiry_position.simps insert_position_def)
next
  case (snoc y ys)
  from snoc.prems(1) obtain c' k' where seg': "dseg (links l) NIL h ys c' k'"
    and last: "dseg (links l) c' k' [y] c k" unfolding dseg_append by blast
  from last have cy: "c = y" "y \<noteq> NIL" "k' = y" and y: "links l y = Some (c', k)"
    by (auto split: option.splits)
  with seg' have seg: "dseg (links l) NIL h ys c' y" by simp
  from snoc.prems(2)[of y] obtain g m ow ey where c: "claims l y = Some (g, a, m, ow, OnExpiry ey)"
    by (auto simp: on_expiry_def)
  then obtain r where r: "slab_view (l_reservations l) y = Some (g, r)" "kind_of r = OnExpiry ey"
    by (auto simp: claims_Some_iff)
  have "neighbours r = (c', k)" using links_view[OF r(1)] y by simp
  from res_links_expiry[OF r(2) this]
  have step: "expiry_position l e c = (if ey \<le> e then Some (Some y) else expiry_position l e c')"
    using r(1) cy by (subst expiry_position.simps) (simp add: reservation_at_view link_index_def)
  have ee: "expiry_at (claims l) y = ey" using c by (simp add: expiry_at_def)
  show ?case
  proof (cases "ey \<le> e")
    case True
    then have "insert_position (claims l) (ys @ [y]) e (Some y)"
      unfolding insert_position_def option.case using ee
      by (intro exI[of _ ys] exI[of _ "[] :: u32 list"]) simp
    with True step show ?thesis by auto
  next
    case False
    have "z \<in> on_expiry (claims l) a" if "z \<in> set ys" for z using snoc.prems(2)[of z] that by simp
    from snoc.IH[OF seg this] obtain pos where
      pos: "expiry_position l e c' = Some pos" "insert_position (claims l) ys e pos" by blast
    have "insert_position (claims l) (ys @ [y]) e pos"
    proof (cases pos)
      case None
      with pos(2) False ee show ?thesis by (auto simp: insert_position_def)
    next
      case (Some b)
      with pos(2) obtain as bs where "ys = as @ b # bs" "expiry_at (claims l) b \<le> e"
        "\<forall>x \<in> set bs. e < expiry_at (claims l) x" by (auto simp: insert_position_def)
      with False ee have "ys @ [y] = as @ b # (bs @ [y])" "\<forall>x \<in> set (bs @ [y]). e < expiry_at (claims l) x"
        by auto
      with \<open>expiry_at (claims l) b \<le> e\<close> show ?thesis
        unfolding Some insert_position_def option.case by blast
    qed
    with False step pos show ?thesis by auto
  qed
qed

lemma insert_claim_spec:
  assumes wf: "slabs_wf l" and ins: "insert_claim a m ow e l = Inr (h, l1)"
  shows "claims l (h_index h) = None" and "h_index h \<noteq> NIL" and "slabs_wf l1"
    and "claims l1 = (claims l)(h_index h \<mapsto> (h_generation h, a, m, ow, OnExpiry e))"
    and "links l1 = (links l)(h_index h \<mapsto> (NIL, NIL))"
    and "account l1 = account l" and "request l1 = request l" and "quote l1 = quote l"
    and "l_contracts l1 = l_contracts l"
    and "reservation l1 = (reservation l)(h \<mapsto> reservation_reserved a m ow e)" and "reservation l h = None"
proof -
  have wfr: "slab_wf (l_reservations l)" using wf by (simp add: slabs_wf_def)
  from ins obtain rs where rs: "slab_insert (l_reservations l) (reservation_reserved a m ow e) = Inr (h, rs)"
    and l1: "l1 = l\<lparr>l_reservations := rs\<rparr>"
    by (auto simp: insert_claim_def split: sum.splits)
  note S = slab_insert_spec[OF wfr rs]
  show "claims l (h_index h) = None" using S(1) by (simp add: claims_None_iff)
  show "slabs_wf l1" using wf S(4) by (simp add: l1 slabs_wf_def)
  show "claims l1 = (claims l)(h_index h \<mapsto> (h_generation h, a, m, ow, OnExpiry e))"
    "links l1 = (links l)(h_index h \<mapsto> (NIL, NIL))"
    by (auto simp: fun_eq_iff claims_def links_def l1 S(2) claim_simps)
  show "account l1 = account l" "request l1 = request l" "quote l1 = quote l" "l_contracts l1 = l_contracts l"
    by (auto simp: fun_eq_iff l1 account_def request_def quote_def)
  have "unat (h_index h) < length (slots rs)" using slab_view_range[of rs "h_index h"] S(2) by simp
  then show "h_index h \<noteq> NIL" using slab_wfD(1)[OF S(4)] by (auto simp: unat_NIL)
  show "reservation l1 = (reservation l)(h \<mapsto> reservation_reserved a m ow e)"
    using slab_get_ins[OF wfr rs] by (simp add: fun_eq_iff reservation_def l1)
  show "reservation l h = None"
    using slab_store.ins_fresh[OF wfr rs] by (simp add: reservation_def)
qed

lemma insert_claim_fails_iff:
  "slabs_wf l \<Longrightarrow> (\<exists>x. insert_claim a m ow e l = Inl x) \<longleftrightarrow> \<not> slab_has_room (l_reservations l)"
  using slab_insert_None[of "l_reservations l" "reservation_reserved a m ow e"]
  by (auto simp: insert_claim_def slabs_wf_def split: sum.split)

lemma insert_claim_error: "insert_claim a m ow e l = Inl x \<Longrightarrow> x = SlabExhausted ReservationSlab"
  by (auto simp: insert_claim_def split: sum.splits)

text \<open>The link writes of a fresh claim of account \<open>a\<close>: the walk returns and the splice keeps the structure.\<close>

lemma link_fresh_claim:
  assumes inv: "ledger_inv l" and ins: "insert_claim a m ow e l = Inr (h, l1)"
    and en: "ends l a = Some (hd0, tl0)"
  obtains l2 where "link_into_expiry_chain a (h_index h) e l1 = Some l2"
    and "claims l2 = claims l1" and "money l2 = money l" and "heads l2 = heads l"
    and "owner_claim l2 = owner_claim l" and "request l2 = request l" and "quote l2 = quote l"
    and "l_contracts l2 = l_contracts l" and "slabs_wf l2"
    and "expiry_ok (claims l1) (links l2) (ends l2)" and "committed_ok (claims l1) (links l2) (heads l)"
    and "\<And>b. ends l2 b = None \<longleftrightarrow> ends l b = None"
proof -
  note D = ledger_invD[OF inv] and I = insert_claim_spec[OF ledger_invD(1)[OF inv] ins]
  define i where "i = h_index h"
  obtain xs where xs: "expiry_chain (claims l) (links l) a hd0 tl0 xs" using expiry_okE[OF D(2) en] .
  then have dl: "dll (links l) hd0 tl0 xs" and st: "set xs = on_expiry (claims l) a"
    by (simp_all add: expiry_chain_def)
  have ni: "i \<notin> set xs" using I(1) st by (simp add: i_def)
  have maps1: "ends l1 = ends l" "money l1 = money l" "heads l1 = heads l" "owner_claim l1 = owner_claim l"
    by (auto simp: fun_eq_iff ends_def money_def heads_def owner_claim_def I(6,7,8) split: res_owner.split)
  have dl1: "dll (links l1) hd0 tl0 xs"
    by (rule dll_frame[OF dl]) (use ni in \<open>auto simp: I(5) i_def\<close>)
  have st1: "y \<in> on_expiry (claims l1) a" if "y \<in> set xs" for y
    using that I(1) st by (auto simp: I(4))
  obtain pos where pos: "expiry_position l1 e tl0 = Some pos" "insert_position (claims l1) xs e pos"
    using expiry_position_spec[OF dl1[unfolded dll_def] st1] by blast
  obtain b where b: "account l1 a = Some b" "expiry_tail b = tl0"
    using en maps1(1) by (auto simp: ends_def I(6))
  have ex: "expiry_at (claims l1) x = expiry_at (claims l) x" if "x \<in> set xs" for x
    using that ni unfolding I(4) i_def by (metis expiry_at_other)
  show ?thesis
  proof (cases pos)
    case None
    define l2 where "l2 = splice_at_head a i l1"
    note S = splice_at_head_effect[of l1 a hd0 tl0 i, folded l2_def, unfolded maps1, OF en]
    have new: "expiry_chain (claims l1) (links l2) a i (if hd0 = NIL then i else tl0) (i # xs)"
      unfolding I(4) S(2) unfolding i_def
      using expiry_chain_insert_head[OF xs I(1,2) I(5)] pos(2) None ex
      by (simp add: insert_position_def)
    have fr: "links l2 x = links l x" if "x \<notin> insert i (set xs)" "x \<noteq> NIL" for x
    proof -
      have "hd0 = NIL \<or> hd0 \<in> set xs" using dl by (cases xs) (auto simp: dll_def)
      then show ?thesis using that splice_head_frame[of x i hd0 "links l1"] by (auto simp: S(2) I(5) i_def)
    qed
    note P = expiry_push_ok[OF D(2,3) xs I(1,2) new I(4) fr[unfolded i_def]]
    show ?thesis
      using P b pos(1) None S I(9) en
      by (intro that[of l2]) (auto simp: link_into_expiry_chain_def l2_def[symmetric] i_def I(3,6,7,8)
          maps1 l2_def)
  next
    case (Some y)
    then obtain as bs where sp: "xs = as @ y # bs" and lo: "expiry_at (claims l1) y \<le> e"
      and hi: "\<forall>x \<in> set bs. e < expiry_at (claims l1) x" using pos(2) by (auto simp: insert_position_def)
    obtain p n where pn: "links l y = Some (p, n)" and n: "n = (if bs = [] then NIL else hd bs)"
      using dll_split[OF dl[unfolded sp]] by metis
    have yi: "y \<noteq> i" using ni sp by auto
    then obtain g r where r: "slab_view (l_reservations l1) y = Some (g, r)" "neighbours r = (p, n)"
      using pn I(5) by (auto simp: links_def fun_eq_iff i_def dest!: spec[of _ y])
    have r1: "reservation_at l1 y = Some r" using r(1) by (simp add: reservation_at_view)
    define l2 where "l2 = splice_after a i y l1"
    note S = splice_after_effect[OF r1 r(2), of a i, folded l2_def, unfolded maps1]
    have new: "expiry_chain (claims l1) (links l2) a hd0 (if n = NIL then i else tl0) (as @ y # i # bs)"
      unfolding I(4) S(2) unfolding i_def
      using lo hi ex sp
      by (intro expiry_chain_insert_after[OF xs[unfolded sp] I(1,2) I(5) pn]) auto
    have fr: "links l2 x = links l x" if "x \<notin> insert i (set xs)" "x \<noteq> NIL" for x
    proof -
      have "n = NIL \<or> n \<in> set xs" using n hd_in_set[of bs] by (auto simp: sp)
      then show ?thesis using that splice_after_frame[of x i y n "links l1"] by (auto simp: S(2) I(5) i_def sp)
    qed
    note P = expiry_push_ok[OF D(2,3) xs I(1,2) new I(4) fr[unfolded i_def]]
    show ?thesis
      using P b pos(1) Some S I(9) en
      by (intro that[of l2]) (auto simp: link_into_expiry_chain_def l2_def[symmetric] i_def I(3,6,7,8)
          maps1 l2_def)
  qed
qed

lemma link_claim_spec:
  assumes inv: "ledger_inv l" and ins: "insert_claim a m ow e l = Inr (h, l1)"
    and b: "account l a = Some b" and ow: "owner_claim l ow = Some None"
    and r': "unat r' = unat (mb_reserved b) + unat m" "unat r' + unat (mb_committed b) < 2 ^ 64"
  obtains l' where "link_claim a h e ow r' l1 = Some l'" and "ledger_inv l'"
    and "claims l' = (claims l)(h_index h \<mapsto> (h_generation h, a, m, ow, OnExpiry e))"
    and "money l' = (money l)(a \<mapsto> (mb_free b, r', mb_committed b))"
    and "request l' = (\<lambda>q. if ow = OwnerRequest q then map_option (request_set_claim (Some h)) (request l q) else request l q)"
    and "quote l' = (\<lambda>k. if ow = OwnerQuote k then map_option (quote_set_claim (Some h)) (quote l k) else quote l k)"
    and "l_contracts l' = l_contracts l" and "claims l (h_index h) = None"
proof -
  note D = ledger_invD[OF inv] and I = insert_claim_spec[OF ledger_invD(1)[OF inv] ins]
  have en: "ends l a = Some (expiry_head b, expiry_tail b)" and mo: "money l a = Some (mb_free b, mb_reserved b, mb_committed b)"
    using account_Some_maps[OF b] by auto
  obtain l2 where L: "link_into_expiry_chain a (h_index h) e l1 = Some l2"
    "claims l2 = claims l1" "money l2 = money l" "heads l2 = heads l"
    "owner_claim l2 = owner_claim l" "request l2 = request l" "quote l2 = quote l"
    "l_contracts l2 = l_contracts l" "slabs_wf l2"
    "expiry_ok (claims l1) (links l2) (ends l2)" "committed_ok (claims l1) (links l2) (heads l)"
    and en2: "\<And>b. ends l2 b = None \<longleftrightarrow> ends l b = None"
    using link_fresh_claim[OF inv ins en] by blast
  define l' where "l' = set_owner_claim ow (Some h) (account_update a (set_reserved r') l2)"
  obtain b2 where b2: "account l2 a = Some b2" using en2[of a] en by (auto simp: ends_def)
  then have b2': "mb_free b2 = mb_free b" "mb_committed b2 = mb_committed b"
    using L(3) mo by (auto simp: money_def fun_eq_iff dest!: spec[of _ a])
  have cl': "claims l' = (claims l)(h_index h \<mapsto> (h_generation h, a, m, ow, OnExpiry e))"
    by (simp add: l'_def effects L(2) I(4))
  have mo': "money l' = (money l)(a \<mapsto> (mb_free b, r', mb_committed b))"
    by (simp add: l'_def set_owner_claim_maps money_account_update[OF b2] balance_setters b2' L(3))
  have en': "ends l' = ends l2" and k': "links l' = links l2" and hd': "heads l' = heads l"
    using ends_account_update_same[of "set_reserved r'" a l2] by (simp_all add: l'_def effects L(4) balance_setters)
  have oc': "owner_claim l' = (owner_claim l)(ow \<mapsto> Some h)"
    using ow by (auto simp: l'_def effects L(5) fun_eq_iff)
  have "ledger_inv l'"
    unfolding ledger_inv_def
  proof (intro conjI)
    show "slabs_wf l'" using L(9) by (simp add: l'_def)
    show "expiry_ok (claims l') (links l') (ends l')" using L(10) by (simp add: cl' k' en' I(4))
    show "committed_ok (claims l') (links l') (heads l')" using L(11) by (simp add: cl' k' hd' I(4))
    show "placed_ok (claims l') (ends l') (heads l')"
      using D(4) I(2) en2 en by (auto simp: placed_ok_def cl' en' hd')
    show "totals_ok (claims l') (money l')"
      using totals_add_expiry[OF D(5) I(1) mo r'(1,2)] by (simp add: cl' mo')
    show "owners_ok (claims l') (owner_claim l')"
      using owners_ok_add[OF D(6) I(1) ow] by (simp add: cl' oc')
  qed
  moreover have "link_claim a h e ow r' l1 = Some l'" by (simp add: link_claim_def L(1) l'_def)
  moreover have "request l' = (\<lambda>q. if ow = OwnerRequest q then map_option (request_set_claim (Some h)) (request l q) else request l q)"
    "quote l' = (\<lambda>k. if ow = OwnerQuote k then map_option (quote_set_claim (Some h)) (quote l k) else quote l k)"
    by (auto simp: fun_eq_iff l'_def request_of_set_owner_claim quote_of_set_owner_claim effects L(6,7))
  moreover have "l_contracts l' = l_contracts l" by (simp add: l'_def L(8))
  ultimately show ?thesis using that cl' mo' I(1) by blast
qed

lemma check_reservable_spec:
  "check_reservable l a m = Inr r' \<longleftrightarrow> (\<exists>b. account l a = Some b \<and>
     unat r' = unat (mb_reserved b) + unat m \<and>
     unat (mb_reserved b) + unat (mb_committed b) + unat m \<le> unat (mb_free b))"
proof (cases "account l a")
  case None
  then show ?thesis by (simp add: check_reservable_def)
next
  case (Some b)
  define need where "need = unat (mb_reserved b) + unat (mb_committed b) + unat m"
  show ?thesis
  proof (cases "need < 2 ^ 64")
    case True
    then obtain c :: amount where c: "unat c = need" using word_with_unat[where 'a = 64, of need] by auto
    obtain t :: amount where t: "unat t = unat (mb_reserved b) + unat (mb_committed b)"
      using word_with_unat[where 'a = 64, of "unat (mb_reserved b) + unat (mb_committed b)"] True
      by (auto simp: need_def)
    have t': "amount_checked_add (mb_reserved b) (mb_committed b) = Some t" and c': "amount_checked_add t m = Some c"
      using t c by (simp_all add: amount_checked_add_def checked_add_Some_iff need_def)
    have "check_reservable l a m = (if c > mb_free b then Inl InsufficientFree
        else ok_or (amount_checked_add (mb_reserved b) m) AmountOverflow)"
      by (simp add: check_reservable_def Some t' c')
    then show ?thesis using c Some
      by (auto simp: need_def word_less_nat_alt amount_checked_add_def checked_add_Some_iff)
  next
    case False
    then have "amount_checked_add t m = None"
      if "amount_checked_add (mb_reserved b) (mb_committed b) = Some t" for t
      using that by (simp add: amount_checked_add_def checked_add_Some_iff checked_add_None_iff need_def)
    then have "Option.bind (amount_checked_add (mb_reserved b) (mb_committed b)) (\<lambda>t. amount_checked_add t m) = None"
      by (cases "amount_checked_add (mb_reserved b) (mb_committed b)") simp_all
    moreover have "\<not> need \<le> unat (mb_free b)" using False unat_lt_size[of "mb_free b"] by simp
    ultimately show ?thesis using Some by (simp add: check_reservable_def need_def)
  qed
qed

section \<open>The reserving operations\<close>

lemma reserve_spec:
  assumes inv: "ledger_inv l"
  shows "\<exists>res l'. reserve l a m e ow = Some (res, l') \<and> ledger_inv l' \<and>
    (case res of
       Inl _ \<Rightarrow> l' = l
     | Inr h \<Rightarrow> \<exists>b. account l a = Some b \<and> owner_claim l ow = Some None \<and>
         unat (mb_reserved b) + unat (mb_committed b) + unat m \<le> unat (mb_free b) \<and>
         claims l (h_index h) = None \<and>
         claims l' = (claims l)(h_index h \<mapsto> (h_generation h, a, m, ow, OnExpiry e)) \<and>
         money l' = (money l)(a \<mapsto> (mb_free b, mb_reserved b + m, mb_committed b)))"
proof (cases "owner_claim l ow = Some None")
  case False
  then show ?thesis using inv by (auto simp: reserve_def split: option.split)
next
  case ow: True
  show ?thesis
  proof (cases "check_reservable l a m")
    case (Inl err)
    then show ?thesis using inv ow by (simp add: reserve_def)
  next
    case (Inr r')
    then obtain b where b: "account l a = Some b" "unat r' = unat (mb_reserved b) + unat m"
      "unat (mb_reserved b) + unat (mb_committed b) + unat m \<le> unat (mb_free b)"
      by (auto simp: check_reservable_spec)
    have r': "r' = mb_reserved b + m"
      using b(2) checked_add_Some_iff[of "mb_reserved b" m r'] by (auto simp: checked_add_def split: if_splits)
    have fit: "unat r' + unat (mb_committed b) < 2 ^ 64"
      using b(2,3) unat_lt_size[of "mb_free b"] by simp
    show ?thesis
    proof (cases "insert_claim a m ow e l")
      case ins: (Inl err)
      then show ?thesis using inv ow Inr by (simp add: reserve_def)
    next
      case ins: (Inr hl)
      obtain h l1 where hl: "hl = (h, l1)" by (cases hl)
      obtain l' where
        L: "link_claim a h e ow r' l1 = Some l'" "ledger_inv l'" "claims l (h_index h) = None"
        "claims l' = (claims l)(h_index h \<mapsto> (h_generation h, a, m, ow, OnExpiry e))"
        "money l' = (money l)(a \<mapsto> (mb_free b, r', mb_committed b))"
        by (rule link_claim_spec[OF inv ins[unfolded hl] b(1) ow b(2) fit])
      have "reserve l a m e ow = Some (Inr h, l')"
        using ow Inr ins hl L(1) by (simp add: reserve_def)
      then show ?thesis
        by (rule_tac x = "Inr h" in exI, rule_tac x = l' in exI)
          (use L(2-5) b(1,3) ow r' in \<open>simp only: sum.case simp_thms ex_simps, blast\<close>)
    qed
  qed
qed

lemma slab_no_room_unless_inserted:
  "slab_wf s \<Longrightarrow> slab_has_room s \<Longrightarrow> \<exists>h s'. slab_insert s v = Inr (h, s')"
  using slab_insert_None[of s v] by (cases "slab_insert s v") auto

text \<open>A fresh owner slot changes nothing the ledger's structure is about.\<close>

lemma insert_quote_inv:
  assumes inv: "ledger_inv l" and ins: "slab_insert (l_quotes l) k = Inr (q, qs)" and none: "q_claim k = None"
  defines "l' \<equiv> l\<lparr>l_quotes := qs\<rparr>"
  shows "ledger_inv l'" and "quote l' = (quote l)(q \<mapsto> k)" and "quote l q = None"
    and "request l' = request l" and "account l' = account l" and "claims l' = claims l"
    and "l_contracts l' = l_contracts l" and "l_reservations l' = l_reservations l" and "money l' = money l"
proof -
  have wf: "slab_wf (l_quotes l)" using ledger_invD(1)[OF inv] by (simp add: slabs_wf_def)
  show q': "quote l' = (quote l)(q \<mapsto> k)"
    using slab_get_ins[OF wf ins] by (auto simp: quote_def l'_def fun_eq_iff)
  show q0: "quote l q = None" using slab_store.ins_fresh[OF wf ins] by (simp add: quote_def)
  show same: "request l' = request l" "account l' = account l" "claims l' = claims l" "money l' = money l"
    "l_contracts l' = l_contracts l" "l_reservations l' = l_reservations l"
    by (auto simp: fun_eq_iff request_def account_def claims_def money_def l'_def)
  have "heads l' = heads l" by (simp add: fun_eq_iff heads_def same)
  moreover have "links l' = links l" "ends l' = ends l"
    by (auto simp: fun_eq_iff links_def ends_def account_def l'_def)
  moreover have "owners_ok (claims l) (owner_claim l')"
  proof -
    have "owner_claim l (OwnerQuote q) = None" using q0 by (simp add: owner_claim_def)
    moreover have "owner_claim l' = (owner_claim l)(OwnerQuote q \<mapsto> None)"
      using none by (auto simp: fun_eq_iff owner_claim_def q' same split: res_owner.splits)
    ultimately show ?thesis using owners_ok_new[OF ledger_invD(6)[OF inv]] by simp
  qed
  moreover have "slabs_wf l'"
    using ledger_invD(1)[OF inv] slab_insert_spec(4)[OF wf ins] by (simp add: slabs_wf_def l'_def)
  ultimately show "ledger_inv l'" using ledger_invD[OF inv] same by (simp add: ledger_inv_def)
qed

lemma insert_request_inv:
  assumes inv: "ledger_inv l" and ins: "slab_insert (l_requests l) r = Inr (q, rs)"
    and none: "rq_claim r = None" "rq_committed_head r = NIL"
  defines "l' \<equiv> l\<lparr>l_requests := rs\<rparr>"
  shows "ledger_inv l'" and "request l' = (request l)(q \<mapsto> r)" and "request l q = None"
    and "quote l' = quote l" and "account l' = account l" and "claims l' = claims l"
    and "l_contracts l' = l_contracts l" and "l_reservations l' = l_reservations l" and "money l' = money l"
proof -
  have wf: "slab_wf (l_requests l)" using ledger_invD(1)[OF inv] by (simp add: slabs_wf_def)
  show q': "request l' = (request l)(q \<mapsto> r)"
    using slab_get_ins[OF wf ins] by (auto simp: request_def l'_def fun_eq_iff)
  show q0: "request l q = None" using slab_store.ins_fresh[OF wf ins] by (simp add: request_def)
  show same: "quote l' = quote l" "account l' = account l" "claims l' = claims l" "money l' = money l"
    "l_contracts l' = l_contracts l" "l_reservations l' = l_reservations l"
    by (auto simp: fun_eq_iff quote_def account_def claims_def money_def l'_def)
  have hd': "heads l' = (heads l)(q \<mapsto> NIL)" using none by (auto simp: fun_eq_iff heads_def q')
  have lk: "links l' = links l" "ends l' = ends l"
    by (auto simp: fun_eq_iff links_def ends_def l'_def account_def)
  note D = ledger_invD[OF inv]
  have "heads l q = None" using q0 by (simp add: heads_def)
  then have empty: "on_list (claims l) q = {}"
    using D(4) by (force simp: placed_ok_def on_list_def)
  have "committed_ok (claims l) (links l) (heads l')"
    unfolding committed_ok_def
  proof (intro allI impI)
    fix q' h assume h: "heads l' q' = Some h"
    show "\<exists>xs. committed_list (claims l) (links l) q' h xs"
    proof (cases "q' = q")
      case True
      with h hd' empty show ?thesis by (auto simp: committed_list_def intro!: exI[of _ "[] :: u32 list"])
    next
      case False
      with h hd' show ?thesis using D(3) by (auto simp: committed_ok_def)
    qed
  qed
  moreover have "placed_ok (claims l) (ends l) (heads l')" using D(4) by (auto simp: placed_ok_def hd')
  moreover have "owners_ok (claims l) (owner_claim l')"
  proof -
    have "owner_claim l (OwnerRequest q) = None" using q0 by (simp add: owner_claim_def)
    moreover have "owner_claim l' = (owner_claim l)(OwnerRequest q \<mapsto> None)"
      using none by (auto simp: fun_eq_iff owner_claim_def q' same split: res_owner.splits)
    ultimately show ?thesis using owners_ok_new[OF D(6)] by simp
  qed
  moreover have "slabs_wf l'"
    using D(1) slab_insert_spec(4)[OF wf ins] by (simp add: slabs_wf_def l'_def)
  ultimately show "ledger_inv l'" using D same lk by (simp add: ledger_inv_def)
qed

end
