(* ===== verification/Ledger_Commit.thy ===== *)
theory Ledger_Commit
  imports Ledger_Inv
begin

text \<open>
  The rest of the ledger invariant's preservation: the two operations that open an owner together
  with its claim, the move of a claim to a request's committed list (\<open>Ledger::commit\<close> and the
  commit phase's \<open>commit\<close>), the discharge of a whole committed list, freeing owners, and the mirror
  and contract writes.
\<close>

section \<open>Opening an owner with its claim\<close>

lemma open_quote_reserving_spec:
  assumes inv: "ledger_inv l" and none: "q_claim rec = None"
  shows "\<exists>res l'. open_quote_reserving l rec m = Some (res, l') \<and> ledger_inv l' \<and>
    (case res of
       Inl _ \<Rightarrow> l' = l
     | Inr (q, h) \<Rightarrow> \<exists>b. account l (q_maker rec) = Some b \<and> quote l q = None \<and> claims l (h_index h) = None \<and>
         unat (mb_reserved b) + unat (mb_committed b) + unat m \<le> unat (mb_free b) \<and>
         quote l' = (quote l)(q \<mapsto> quote_set_claim (Some h) rec) \<and> request l' = request l \<and>
         claims l' = (claims l)(h_index h \<mapsto>
           (h_generation h, q_maker rec, m, OwnerQuote q, OnExpiry (q_expires_at rec))) \<and>
         money l' = (money l)(q_maker rec \<mapsto> (mb_free b, mb_reserved b + m, mb_committed b)) \<and>
         l_contracts l' = l_contracts l)"
proof (cases "check_reservable l (q_maker rec) m")
  case (Inl err)
  then show ?thesis using inv by (simp add: open_quote_reserving_def Let_def)
next
  case (Inr r')
  define a e where "a = q_maker rec" and "e = q_expires_at rec"
  obtain b where b: "account l a = Some b" "unat r' = unat (mb_reserved b) + unat m"
    "unat (mb_reserved b) + unat (mb_committed b) + unat m \<le> unat (mb_free b)"
    using Inr by (auto simp: check_reservable_spec a_def)
  have r': "r' = mb_reserved b + m"
    using b(2) checked_add_Some_iff[of "mb_reserved b" m r'] by (auto simp: checked_add_def split: if_splits)
  have fit: "unat r' + unat (mb_committed b) < 2 ^ 64"
    using b(2,3) unat_lt_size[of "mb_free b"] by simp
  show ?thesis
  proof (cases "slab_has_room (l_quotes l) \<and> slab_has_room (l_reservations l)")
    case False
    then show ?thesis using inv Inr by (auto simp: open_quote_reserving_def Let_def)
  next
    case True
    have wf: "slab_wf (l_quotes l)" using ledger_invD(1)[OF inv] by (simp add: slabs_wf_def)
    obtain q qs where ins: "slab_insert (l_quotes l) rec = Inr (q, qs)"
      using slab_no_room_unless_inserted[OF wf] True by blast
    define l1 where "l1 = l\<lparr>l_quotes := qs\<rparr>"
    note Q = insert_quote_inv[OF inv ins none, folded l1_def]
    have "slab_has_room (l_reservations l1)" using True Q(8) by simp
    then obtain h l2 where cl: "insert_claim a m (OwnerQuote q) e l1 = Inr (h, l2)"
      using insert_claim_fails_iff[OF ledger_invD(1)[OF Q(1)], of a m "OwnerQuote q" e]
      by (cases "insert_claim a m (OwnerQuote q) e l1") auto
    have b1: "account l1 a = Some b" using b(1) Q(5) by simp
    have ow: "owner_claim l1 (OwnerQuote q) = Some None" using none by (simp add: owner_claim_def Q(2))
    obtain l' where L: "link_claim a h e (OwnerQuote q) r' l2 = Some l'" "ledger_inv l'"
      "claims l' = (claims l1)(h_index h \<mapsto> (h_generation h, a, m, OwnerQuote q, OnExpiry e))"
      "money l' = (money l1)(a \<mapsto> (mb_free b, r', mb_committed b))"
      "request l' = request l1"
      "quote l' = (\<lambda>k. if OwnerQuote q = OwnerQuote k then map_option (quote_set_claim (Some h)) (quote l1 k) else quote l1 k)"
      "l_contracts l' = l_contracts l1" "claims l1 (h_index h) = None"
      by (rule link_claim_spec[OF Q(1) cl b1 ow b(2) fit]) (auto simp: fun_eq_iff)
    have "open_quote_reserving l rec m = Some (Inr (q, h), l')"
      using Inr True ins cl L(1) by (simp add: open_quote_reserving_def Let_def l1_def a_def e_def)
    moreover have "quote l' = (quote l)(q \<mapsto> quote_set_claim (Some h) rec)"
      by (auto simp: L(6) Q(2) fun_eq_iff)
    ultimately show ?thesis
      using L b Q(3,4,6,7,9) by (simp add: r' a_def[symmetric] e_def[symmetric])
  qed
qed

lemma open_request_reserving_spec:
  assumes inv: "ledger_inv l" and none: "rq_claim rec = None" "rq_committed_head rec = NIL"
  shows "\<exists>res l'. open_request_reserving l rec m = Some (res, l') \<and> ledger_inv l' \<and>
    (case res of
       Inl _ \<Rightarrow> l' = l
     | Inr (q, h) \<Rightarrow> \<exists>b. account l (rq_requester rec) = Some b \<and> request l q = None \<and> claims l (h_index h) = None \<and>
         unat (mb_reserved b) + unat (mb_committed b) + unat m \<le> unat (mb_free b) \<and>
         request l' = (request l)(q \<mapsto> request_set_claim (Some h) rec) \<and> quote l' = quote l \<and>
         claims l' = (claims l)(h_index h \<mapsto>
           (h_generation h, rq_requester rec, m, OwnerRequest q, OnExpiry (rq_deadline rec))) \<and>
         money l' = (money l)(rq_requester rec \<mapsto> (mb_free b, mb_reserved b + m, mb_committed b)) \<and>
         l_contracts l' = l_contracts l)"
proof (cases "check_reservable l (rq_requester rec) m")
  case (Inl err)
  then show ?thesis using inv by (simp add: open_request_reserving_def Let_def)
next
  case (Inr r')
  define a e where "a = rq_requester rec" and "e = rq_deadline rec"
  obtain b where b: "account l a = Some b" "unat r' = unat (mb_reserved b) + unat m"
    "unat (mb_reserved b) + unat (mb_committed b) + unat m \<le> unat (mb_free b)"
    using Inr by (auto simp: check_reservable_spec a_def)
  have r': "r' = mb_reserved b + m"
    using b(2) checked_add_Some_iff[of "mb_reserved b" m r'] by (auto simp: checked_add_def split: if_splits)
  have fit: "unat r' + unat (mb_committed b) < 2 ^ 64"
    using b(2,3) unat_lt_size[of "mb_free b"] by simp
  show ?thesis
  proof (cases "slab_has_room (l_requests l) \<and> slab_has_room (l_reservations l)")
    case False
    then show ?thesis using inv Inr by (auto simp: open_request_reserving_def Let_def)
  next
    case True
    have wf: "slab_wf (l_requests l)" using ledger_invD(1)[OF inv] by (simp add: slabs_wf_def)
    obtain q qs where ins: "slab_insert (l_requests l) rec = Inr (q, qs)"
      using slab_no_room_unless_inserted[OF wf] True by blast
    define l1 where "l1 = l\<lparr>l_requests := qs\<rparr>"
    note Q = insert_request_inv[OF inv ins none, folded l1_def]
    have "slab_has_room (l_reservations l1)" using True Q(8) by simp
    then obtain h l2 where cl: "insert_claim a m (OwnerRequest q) e l1 = Inr (h, l2)"
      using insert_claim_fails_iff[OF ledger_invD(1)[OF Q(1)], of a m "OwnerRequest q" e]
      by (cases "insert_claim a m (OwnerRequest q) e l1") auto
    have b1: "account l1 a = Some b" using b(1) Q(5) by simp
    have ow: "owner_claim l1 (OwnerRequest q) = Some None" using none by (simp add: owner_claim_def Q(2))
    obtain l' where L: "link_claim a h e (OwnerRequest q) r' l2 = Some l'" "ledger_inv l'"
      "claims l' = (claims l1)(h_index h \<mapsto> (h_generation h, a, m, OwnerRequest q, OnExpiry e))"
      "money l' = (money l1)(a \<mapsto> (mb_free b, r', mb_committed b))"
      "request l' = (\<lambda>k. if OwnerRequest q = OwnerRequest k then map_option (request_set_claim (Some h)) (request l1 k) else request l1 k)"
      "quote l' = quote l1"
      "l_contracts l' = l_contracts l1" "claims l1 (h_index h) = None"
      by (rule link_claim_spec[OF Q(1) cl b1 ow b(2) fit]) (auto simp: fun_eq_iff)
    have "open_request_reserving l rec m = Some (Inr (q, h), l')"
      using Inr True ins cl L(1) by (simp add: open_request_reserving_def Let_def l1_def a_def e_def)
    moreover have "request l' = (request l)(q \<mapsto> request_set_claim (Some h) rec)"
      by (auto simp: L(5) Q(2) fun_eq_iff)
    ultimately show ?thesis
      using L b Q(3,4,6,7,9) by (simp add: r' a_def[symmetric] e_def[symmetric])
  qed
qed

section \<open>Committing a claim\<close>

definition raise_committed :: "amount \<Rightarrow> amount \<Rightarrow> mirrored_balance \<Rightarrow> mirrored_balance" where
  "raise_committed reserved_before kept b =
     set_committed (saturating_add (mb_committed b) kept)
       (set_reserved (saturating_sub (mb_reserved b) reserved_before) b)"

text \<open>
  The shared body of both commits: unlink, optionally lower the amount, link into the list, and
  move the totals.
\<close>

definition move_claim ::
  "(ledger \<Rightarrow> ledger) \<Rightarrow> (mirrored_balance \<Rightarrow> mirrored_balance) \<Rightarrow> res_idx \<Rightarrow> req_idx \<Rightarrow> account_idx \<Rightarrow> ledger \<Rightarrow> ledger" where
  "move_claim lower f h q a l = account_update a f
     (link_into_committed_list q (h_index h) (lower (unlink_from_chain a (h_index h) l)))"

lemma set_amount_fields [simp]:
  "res_account (set_amount m r) = res_account r" "res_amount (set_amount m r) = m"
  "res_owner_of (set_amount m r) = res_owner_of r" "kind_of (set_amount m r) = kind_of r"
  by (simp_all add: set_amount_def kind_of_def)

lemma move_claim_effect:
  assumes inv: "ledger_inv l" and r: "reservation l h = Some r" "\<not> is_committed r"
    and b: "account l (res_account r) = Some b" and q: "heads l q = Some hq"
    and m': "m' \<le> res_amount r"
    and lower: "lower = (\<lambda>x. x) \<and> m' = res_amount r \<or> lower = reservation_at_update (h_index h) (set_amount m')"
    and f: "\<forall>e. expiry_head (f e) = expiry_head e \<and> expiry_tail (f e) = expiry_tail e \<and> mb_free (f e) = mb_free e"
      "\<forall>e. mb_reserved e = mb_reserved b \<longrightarrow> mb_reserved (f e) = mb_reserved b - res_amount r"
      "\<forall>e. mb_committed e = mb_committed b \<longrightarrow> mb_committed (f e) = mb_committed b + m'"
  defines "l' \<equiv> move_claim lower f h q (res_account r) l"
  shows "ledger_inv l'"
    and "claims l' = (claims l)(h_index h \<mapsto> (h_generation h, res_account r, m', res_owner_of r, OnCommitted q))"
    and "money l' = (money l)(res_account r \<mapsto> (mb_free b, mb_reserved b - res_amount r, mb_committed b + m'))"
    and "request l' = (\<lambda>k. if k = q then map_option (request_set_head (h_index h)) (request l q) else request l k)"
    and "quote l' = quote l" and "l_contracts l' = l_contracts l"
proof -
  define a i g where "a = res_account r" and "i = h_index h" and "g = h_generation h"
  note D = ledger_invD[OF inv]
  obtain p n where pn: "neighbours r = (p, n)" by (cases "neighbours r")
  obtain e where e: "kind_of r = OnExpiry e" using not_committed_kind[OF r(2)] by blast
  obtain b' where b': "account l (res_account r) = Some b'" and c: "claims l i = Some (g, a, res_amount r, res_owner_of r, OnExpiry e)"
    and k: "links l i = Some (p, n)" and le: "unat (res_amount r) \<le> unat (mb_reserved b')" and nil: "i \<noteq> NIL"
    using claim_facts[OF inv r(1)] e pn r(2) unfolding a_def i_def g_def by metis
  have bb: "b' = b" using b b' by simp
  define l1 where "l1 = unlink_from_chain a i l"
  note u = unlink_effect[OF reservation_at_index[OF r(1)] pn, folded a_def i_def, of a, folded l1_def]
  define l2 where "l2 = lower l1"
  have c0: "l_contracts l1 = l_contracts l" by (simp add: l1_def)
  have c1: "claims l1 i = Some (g, a, res_amount r, res_owner_of r, OnExpiry e)" using u(1) c by simp
  have low: "claims l2 = (claims l)(i \<mapsto> (g, a, m', res_owner_of r, OnExpiry e))"
    "links l2 = links l1" "ends l2 = ends l1" "money l2 = money l" "heads l2 = heads l"
    "owner_claim l2 = owner_claim l" "request l2 = request l" "quote l2 = quote l"
    "l_contracts l2 = l_contracts l" "slabs_wf l2" "account l2 = account l1"
  proof -
    from lower consider "lower = (\<lambda>x. x)" "m' = res_amount r" | "lower = reservation_at_update i (set_amount m')"
      by (auto simp: i_def)
    then have "claims l2 = (claims l)(i \<mapsto> (g, a, m', res_owner_of r, OnExpiry e)) \<and>
      links l2 = links l1 \<and> slabs_wf l2 \<and> ends l2 = ends l1 \<and> money l2 = money l1 \<and> heads l2 = heads l1 \<and>
      owner_claim l2 = owner_claim l1 \<and> request l2 = request l1 \<and> quote l2 = quote l1 \<and>
      l_contracts l2 = l_contracts l1 \<and> account l2 = account l1"
    proof cases
      case 1
      then show ?thesis using u(9) D(1) c by (simp add: l2_def u(1) fun_upd_idem)
    next
      case 2
      have "claims l2 j = ((claims l)(i \<mapsto> (g, a, m', res_owner_of r, OnExpiry e))) j" for j
        using c1 fun_cong[OF u(1), of j] unfolding l2_def 2
        by (auto simp: claims_def slab_view_at_update claim_simps claim_of_def)
      moreover have "links l2 j = links l1 j" for j
        unfolding l2_def 2 by (auto simp: at_update_links links_def claim_simps)
      ultimately show ?thesis using u(9) D(1) by (auto simp: l2_def 2 effects fun_eq_iff)
    qed
    then show "claims l2 = (claims l)(i \<mapsto> (g, a, m', res_owner_of r, OnExpiry e))"
      "links l2 = links l1" "ends l2 = ends l1" "money l2 = money l" "heads l2 = heads l"
      "owner_claim l2 = owner_claim l" "request l2 = request l" "quote l2 = quote l"
      "l_contracts l2 = l_contracts l" "slabs_wf l2" "account l2 = account l1"
      by (simp_all add: u c0)
  qed
  have c2: "claims l2 i = Some (g, a, m', res_owner_of r, OnExpiry e)" by (simp add: low(1))
  have q2: "heads l2 q = Some hq" using q low(5) by simp
  define l3 where "l3 = link_into_committed_list q i l2"
  note M = link_into_list_effect[OF q2 c2, folded l3_def]
  have l': "l' = account_update a f l3" by (simp add: l'_def move_claim_def l3_def l2_def l1_def a_def i_def)
  have cl3: "claims l3 = (claims l)(i := None, i \<mapsto> (g, a, m', res_owner_of r, OnCommitted q))"
    by (simp add: M(1) low(1))
  have li3: "links l3 = splice_head_nbrs (unlink_nbrs (links l) i p n) i hq" by (simp add: M(2) low(2) u(2))
  obtain hd0 tl0 where ht: "ends l a = Some (hd0, tl0)" using b by (simp add: ends_def a_def)
  define en1 where "en1 = (ends l)(a \<mapsto> (if p = NIL then n else hd0, if n = NIL then p else tl0))"
  have en3: "ends l3 = en1" using ht by (simp add: M(3) low(3) u(3) en1_def)
  have ex: "expiry_ok ((claims l)(i := None)) (unlink_nbrs (links l) i p n) en1"
    unfolding en1_def by (rule expiry_ok_drop[OF D(2) c k ht]) simp
  have co: "committed_ok ((claims l)(i := None)) (unlink_nbrs (links l) i p n) (heads l)"
    by (rule committed_ok_drop_expiry[OF D(2,3) c k ht]) simp
  have "unlink_nbrs (links l) i p n i \<noteq> None"
    using k by (auto simp: unlink_nbrs_def Let_def set_nx_def set_pv_def)
  note P = committed_push_ok[OF ex co q, of i g a m' "res_owner_of r", OF _ nil this]
  have mo: "money l a = Some (mb_free b, mb_reserved b, mb_committed b)" using b by (simp add: money_def a_def)
  have fit: "unat (mb_reserved b) + unat (mb_committed b) < 2 ^ 64" by (rule totals_okD(3)[OF D(5) mo])
  have um: "unat m' \<le> unat (res_amount r)" using m' by (simp add: word_le_nat_alt)
  have ur: "unat (mb_reserved b - res_amount r) = unat (mb_reserved b) - unat (res_amount r)"
    using le bb by (simp add: unat_sub word_le_nat_alt)
  have "checked_add (mb_committed b) m' = Some (mb_committed b + m')"
    using fit um le bb by (simp add: checked_add_def)
  then have uc: "unat (mb_committed b + m') = unat (mb_committed b) + unat m'" by (simp add: checked_add_Some_iff)
  obtain b3 where b3: "account l3 a = Some b3" using en3 by (auto simp: ends_def en1_def fun_eq_iff dest!: spec[of _ a])
  have b3': "mb_free b3 = mb_free b" "mb_reserved b3 = mb_reserved b" "mb_committed b3 = mb_committed b"
    using M(4) low(4) mo b3 by (auto simp: money_def fun_eq_iff dest!: spec[of _ a])
  show cl': "claims l' = (claims l)(h_index h \<mapsto> (h_generation h, res_account r, m', res_owner_of r, OnCommitted q))"
    by (simp add: l' effects cl3 i_def g_def a_def)
  show mo': "money l' = (money l)(res_account r \<mapsto> (mb_free b, mb_reserved b - res_amount r, mb_committed b + m'))"
    using f b3' by (simp add: l' money_account_update[OF b3] M(4) low(4) flip: a_def)
  have en': "ends l' = en1" using f ends_account_update_same[of f a l3] by (simp add: l' en3)
  have hd': "heads l' = (heads l)(q \<mapsto> i)" by (simp add: l' effects M(5) low(5))
  have oc': "owner_claim l' = owner_claim l" by (simp add: l' effects M(6) low(6))
  show "ledger_inv l'"
    unfolding ledger_inv_def
  proof (intro conjI)
    show "slabs_wf l'" using M(9) low(10) by (simp add: l')
    show "expiry_ok (claims l') (links l') (ends l')"
      unfolding en' using P(1) by (simp add: l' account_update_maps cl3 li3)
    show "committed_ok (claims l') (links l') (heads l')"
      using P(2) by (simp add: l' effects cl3 li3 M(5) low(5))
    show "placed_ok (claims l') (ends l') (heads l')"
      using D(4) nil ht by (auto simp: placed_ok_def cl' en' hd' en1_def i_def a_def)
    have "totals_ok ((claims l)(i := None)) ((money l)(a \<mapsto> (mb_free b, mb_reserved b - res_amount r, mb_committed b)))"
      by (rule totals_drop_expiry(2)[OF D(5) c mo])
    from totals_add_committed[OF this, of i a "mb_free b" "mb_reserved b - res_amount r" "mb_committed b" "mb_committed b + m'" m']
    have "totals_ok ((claims l)(i := None, i \<mapsto> (g, a, m', res_owner_of r, OnCommitted q)))
      ((money l)(a \<mapsto> (mb_free b, mb_reserved b - res_amount r, mb_committed b + m')))"
      using uc ur fit um le bb by simp
    then show "totals_ok (claims l') (money l')" by (simp add: cl' mo' i_def a_def g_def)
    show "owners_ok (claims l') (owner_claim l')"
      using owners_ok_kind[OF D(6) c] by (simp add: cl' oc' i_def a_def g_def)
  qed
  show "request l' = (\<lambda>k. if k = q then map_option (request_set_head (h_index h)) (request l q) else request l k)"
    unfolding l' account_update_maps M(8) low(7) i_def ..
  show "quote l' = quote l" by (simp add: l' effects M(7) low(8))
  show "l_contracts l' = l_contracts l" by (simp add: l' l3_def low(9))
qed

lemma committed_fits:
  assumes inv: "ledger_inv l" and r: "reservation l h = Some r" "\<not> is_committed r"
    and b: "account l (res_account r) = Some b"
  shows "unat (mb_committed b) + unat (res_amount r) < 2 ^ 64" and "unat (res_amount r) \<le> unat (mb_reserved b)"
proof -
  show le: "unat (res_amount r) \<le> unat (mb_reserved b)"
    using claim_facts[OF inv r(1)] r(2) b by (metis option.inject)
  with totals_okD(3)[OF ledger_invD(5)[OF inv] account_Some_maps(2)[OF b]]
  show "unat (mb_committed b) + unat (res_amount r) < 2 ^ 64" by simp
qed

lemma saturating_add_fits:
  "unat a + unat b < 2 ^ 64 \<Longrightarrow> saturating_add a (b :: u64) = a + b"
  by (simp add: saturating_add_def checked_add_def)

text \<open>The commit phase's \<open>commit\<close>, on a reserved claim and a resolving request: nothing saturates.\<close>

lemma cp_commit_spec:
  assumes inv: "ledger_inv l" and r: "reservation l h = Some r" "\<not> is_committed r"
    and b: "account l (res_account r) = Some b" and q: "request l q \<noteq> None" and keep: "keep \<le> res_amount r"
  shows "ledger_inv (cp_commit h q keep l)"
    and "claims (cp_commit h q keep l) = (claims l)(h_index h \<mapsto>
           (h_generation h, res_account r, keep, res_owner_of r, OnCommitted q))"
    and "money (cp_commit h q keep l) = (money l)(res_account r \<mapsto>
           (mb_free b, mb_reserved b - res_amount r, mb_committed b + keep))"
    and "request (cp_commit h q keep l) = (\<lambda>k. if k = q
           then map_option (request_set_head (h_index h)) (request l q) else request l k)"
    and "quote (cp_commit h q keep l) = quote l" and "l_contracts (cp_commit h q keep l) = l_contracts l"
proof -
  obtain hq where hq: "heads l q = Some hq" using q by (auto simp: heads_def)
  note F = committed_fits[OF inv r b]
  have "unat keep \<le> unat (res_amount r)" using keep by (simp add: word_le_nat_alt)
  then have sat: "saturating_add (mb_committed b) keep = mb_committed b + keep"
    using F(1) by (intro saturating_add_fits) simp
  have eq: "cp_commit h q keep l = move_claim (reservation_at_update (h_index h) (set_amount keep))
      (raise_committed (res_amount r) keep) h q (res_account r) l"
    using r keep by (simp add: cp_commit_def Let_def move_claim_def raise_committed_def[abs_def] min_def)
  note M = move_claim_effect[OF inv r b hq keep, of "reservation_at_update (h_index h) (set_amount keep)"
      "raise_committed (res_amount r) keep", folded eq]
  have f: "\<forall>e. expiry_head (raise_committed (res_amount r) keep e) = expiry_head e \<and>
      expiry_tail (raise_committed (res_amount r) keep e) = expiry_tail e \<and>
      mb_free (raise_committed (res_amount r) keep e) = mb_free e"
    "\<forall>e. mb_reserved e = mb_reserved b \<longrightarrow>
      mb_reserved (raise_committed (res_amount r) keep e) = mb_reserved b - res_amount r"
    "\<forall>e. mb_committed e = mb_committed b \<longrightarrow>
      mb_committed (raise_committed (res_amount r) keep e) = mb_committed b + keep"
    using F(2) sat by (simp_all add: raise_committed_def balance_setters saturating_sub_exact)
  from M(1)[OF disjI2[OF refl] f] show "ledger_inv (cp_commit h q keep l)" .
  from M(2-6)[OF disjI2[OF refl] f] show "claims (cp_commit h q keep l) = (claims l)(h_index h \<mapsto>
           (h_generation h, res_account r, keep, res_owner_of r, OnCommitted q))"
    "money (cp_commit h q keep l) = (money l)(res_account r \<mapsto>
           (mb_free b, mb_reserved b - res_amount r, mb_committed b + keep))"
    "request (cp_commit h q keep l) = (\<lambda>k. if k = q
           then map_option (request_set_head (h_index h)) (request l q) else request l k)"
    "quote (cp_commit h q keep l) = quote l" "l_contracts (cp_commit h q keep l) = l_contracts l"
    by simp_all
qed

text \<open>\<open>Ledger::commit\<close>: on a reserved claim only a stale request can make it fail.\<close>

lemma commit_spec:
  assumes inv: "ledger_inv l"
  shows "ledger_inv (snd (commit l h q))"
    and "fst (commit l h q) = (case reservation l h of
           None \<Rightarrow> Inl StaleReservation
         | Some r \<Rightarrow> if is_committed r then Inl ReservationCommitted
             else if request l q = None then Inl StaleRequest else Inr ())"
    and "fst (commit l h q) \<noteq> Inr () \<Longrightarrow> snd (commit l h q) = l"
    and "fst (commit l h q) = Inr () \<Longrightarrow> reservation l h = Some r \<Longrightarrow>
           claims (snd (commit l h q)) = (claims l)(h_index h \<mapsto>
             (h_generation h, res_account r, res_amount r, res_owner_of r, OnCommitted q))"
proof -
  have "ledger_inv (snd (commit l h q)) \<and>
    fst (commit l h q) = (case reservation l h of
           None \<Rightarrow> Inl StaleReservation
         | Some r \<Rightarrow> if is_committed r then Inl ReservationCommitted
             else if request l q = None then Inl StaleRequest else Inr ()) \<and>
    (fst (commit l h q) \<noteq> Inr () \<longrightarrow> snd (commit l h q) = l) \<and>
    (\<forall>r. fst (commit l h q) = Inr () \<longrightarrow> reservation l h = Some r \<longrightarrow>
           claims (snd (commit l h q)) = (claims l)(h_index h \<mapsto>
             (h_generation h, res_account r, res_amount r, res_owner_of r, OnCommitted q)))"
  proof (cases "\<exists>r. reservation l h = Some r \<and> \<not> is_committed r \<and> request l q \<noteq> None")
    case False
    then show ?thesis using inv by (auto simp: commit_def Let_def split: option.splits)
  next
    case True
    then obtain r hq where r: "reservation l h = Some r" "\<not> is_committed r" and q: "request l q \<noteq> None"
      and hq: "heads l q = Some hq" by (auto simp: heads_def)
    obtain b where b: "account l (res_account r) = Some b" using claim_facts[OF inv r(1)] by metis
    note F = committed_fits[OF inv r b]
    define f where "f = (\<lambda>b'. set_committed (mb_committed b + res_amount r)
      (set_reserved (mb_reserved b - res_amount r) b'))"
    have "checked_add (mb_committed b) (res_amount r) = Some (mb_committed b + res_amount r)"
      using F(1) by (simp add: checked_add_def)
    then have eq: "commit l h q = (Inr (), move_claim (\<lambda>x. x) f h q (res_account r) l)"
      using r q b F(2) by (simp add: commit_def Let_def move_claim_def f_def amount_checked_sub_def
          amount_checked_add_def checked_sub_exact)
    have f: "\<forall>e. expiry_head (f e) = expiry_head e \<and> expiry_tail (f e) = expiry_tail e \<and> mb_free (f e) = mb_free e"
      "\<forall>e. mb_reserved e = mb_reserved b \<longrightarrow> mb_reserved (f e) = mb_reserved b - res_amount r"
      "\<forall>e. mb_committed e = mb_committed b \<longrightarrow> mb_committed (f e) = mb_committed b + res_amount r"
      by (simp_all add: f_def balance_setters)
    have "(\<lambda>x. x) = (\<lambda>x. x) \<and> res_amount r = res_amount r \<or>
      (\<lambda>x. x) = reservation_at_update (h_index h) (set_amount (res_amount r))" by simp
    note M = move_claim_effect[OF inv r b hq order_refl this f]
    from M(1,2) show ?thesis using r q by (simp add: eq)
  qed
  then show "ledger_inv (snd (commit l h q))"
    "fst (commit l h q) = (case reservation l h of
           None \<Rightarrow> Inl StaleReservation
         | Some r \<Rightarrow> if is_committed r then Inl ReservationCommitted
             else if request l q = None then Inl StaleRequest else Inr ())"
    "fst (commit l h q) \<noteq> Inr () \<Longrightarrow> snd (commit l h q) = l"
    "fst (commit l h q) = Inr () \<Longrightarrow> reservation l h = Some r \<Longrightarrow>
           claims (snd (commit l h q)) = (claims l)(h_index h \<mapsto>
             (h_generation h, res_account r, res_amount r, res_owner_of r, OnCommitted q))"
    by blast+
qed

section \<open>Discharging a committed list\<close>

definition discharging :: "req_idx \<Rightarrow> link \<Rightarrow> u32 list \<Rightarrow> ledger \<Rightarrow> bool" where
  "discharging q cursor xs l \<longleftrightarrow> slabs_wf l \<and> expiry_ok (claims l) (links l) (ends l) \<and>
     committed_ok (claims l) (links l) ((heads l)(q := None)) \<and>
     placed_ok (claims l) (ends l) (heads l) \<and> totals_ok (claims l) (money l) \<and>
     owners_ok (claims l) (owner_claim l) \<and> list_rest (claims l) (links l) q cursor xs"

lemma capacity_kept [simp]:
  "length (slots (l_reservations (discharge_claim h r l))) = length (slots (l_reservations l))"
proof -
  have "length (slots (snd (slab_remove s h))) = length (slots s)" for s :: "reservation slab"
    by (auto simp: slab_remove_def split: option.split slot_state.split)
  then show ?thesis by (simp add: discharge_claim_def remove_claim_def)
qed

lemma discharge_step:
  assumes dis: "discharging q cursor (x # xs) l"
  obtains r h n where "cursor = x" and "x \<noteq> NIL" and "reservation_at l x = Some r"
    and "slab_handle_at (l_reservations l) x = Some h" and "snd (neighbours r) = n"
    and "discharging q n xs (discharge_claim h r l)"
    and "claims (discharge_claim h r l) = (claims l)(x := None)"
    and "same_market l (discharge_claim h r l)"
    and "\<exists>g a. claims l x = Some (g, a, res_amount r, res_owner_of r, OnCommitted q)"
proof -
  from dis have D: "slabs_wf l" "expiry_ok (claims l) (links l) (ends l)"
    "committed_ok (claims l) (links l) ((heads l)(q := None))" "placed_ok (claims l) (ends l) (heads l)"
    "totals_ok (claims l) (money l)" "owners_ok (claims l) (owner_claim l)"
    "list_rest (claims l) (links l) q cursor (x # xs)"
    by (simp_all add: discharging_def)
  note pop = list_rest_pop[OF D(7)]
  have "x \<in> on_list (claims l) q" using D(7) unfolding list_rest_def by (metis list.set_intros(1))
  then obtain g a m ow where c: "claims l x = Some (g, a, m, ow, OnCommitted q)"
    by (auto simp: on_list_def)
  then obtain r where v: "slab_view (l_reservations l) x = Some (g, r)" and r: "res_account r = a"
    "res_amount r = m" "res_owner_of r = ow" "kind_of r = OnCommitted q" by (auto simp: claims_Some_iff)
  define h where "h = \<lparr>h_index = x, h_generation = g\<rparr>"
  have hr: "reservation l h = Some r" "reservation_at l x = Some r" "slab_handle_at (l_reservations l) x = Some h"
    "h_index h = x" "h_generation h = g"
    using v by (auto simp: reservation_Some_iff reservation_at_view slab_handle_at_view h_def)
  from pop(3) obtain p n where pn: "links l x = Some (p, n)"
    "list_rest ((claims l)(x := None)) ((links l)(x := None)) q n xs" by blast
  then have n: "snd (neighbours r) = n" using links_view[OF v] by simp
  have "ends l a \<noteq> None" using D(4) c unfolding placed_ok_def by blast
  then obtain b where b: "account l a = Some b" by (auto simp: ends_def)
  note mo = account_Some_maps(2)[OF b] and oc = owners_okD(1)[OF D(6), of h a m ow "OnCommitted q"]
  define f where "f = (\<lambda>e. set_committed (saturating_sub (mb_committed e) m) e)"
  define l1 where "l1 = set_owner_claim ow None (account_update a f l)"
  define l' where "l' = discharge_claim h r l"
  have l': "l' = remove_claim h l1" by (simp add: l'_def discharge_claim_def l1_def f_def r)
  have c1: "claims l1 = claims l" by (simp add: l1_def effects)
  obtain r1 where r1: "reservation l1 h = Some r1" using reservation_survives[OF hr(1) c1] by blast
  have cl': "claims l' = (claims l)(x := None)" using remove_claim_maps(1)[OF r1] by (simp add: l' c1 hr(4))
  have li': "links l' = (links l)(x := None)"
    using remove_claim_maps(2)[OF r1] by (simp add: l' l1_def effects hr(4))
  have en': "ends l' = ends l"
    using ends_account_update_same[of f a l] by (simp add: l' l1_def remove_claim_frame set_owner_claim_maps f_def balance_setters)
  have le: "unat m \<le> unat (mb_committed b)" by (rule totals_drop_committed(1)[OF D(5) c mo])
  have mo': "money l' = (money l)(a \<mapsto> (mb_free b, mb_reserved b, mb_committed b - m))"
    by (simp add: l' l1_def remove_claim_frame set_owner_claim_maps money_account_update[OF b] f_def
        balance_setters saturating_sub_exact[OF le])
  have hd': "heads l' = heads l" by (simp add: l' l1_def effects)
  have oc': "owner_claim l' = (owner_claim l)(ow \<mapsto> None)"
    using oc c by (auto simp: l' l1_def effects fun_eq_iff hr)
  have xin: "x \<in> on_list (claims l) q" using c by (auto simp: on_list_def)
  have "discharging q n xs l'"
    unfolding discharging_def
  proof (intro conjI)
    show "slabs_wf l'" using D(1) by (simp add: l' l1_def)
    show "expiry_ok (claims l') (links l') (ends l')"
      unfolding expiry_ok_def en'
    proof (intro allI impI)
      fix a' h' t' assume "ends l a' = Some (h', t')"
      then obtain ys where ys: "expiry_chain (claims l) (links l) a' h' t' ys" using expiry_okE[OF D(2)] by blast
      have "x \<notin> on_expiry (claims l) a'" using members_disjoint(2)[of "claims l" a' q] xin by blast
      then have "expiry_chain (claims l') (links l') a' h' t' ys"
        by (intro expiry_chain_frame[OF ys]) (auto simp: cl' li')
      then show "\<exists>ys. expiry_chain (claims l') (links l') a' h' t' ys" by blast
    qed
    show "committed_ok (claims l') (links l') ((heads l')(q := None))"
      unfolding committed_ok_def hd'
    proof (intro allI impI)
      fix q' h' assume h': "((heads l)(q := None)) q' = Some h'"
      then have ne: "q \<noteq> q'" by (auto split: if_splits)
      obtain ys where ys: "committed_list (claims l) (links l) q' h' ys" using committed_okE[OF D(3) h'] .
      have "x \<notin> on_list (claims l) q'" using members_disjoint(3)[OF ne, of "claims l"] xin by blast
      then have "committed_list (claims l') (links l') q' h' ys"
        by (intro committed_list_frame[OF ys]) (auto simp: cl' li')
      then show "\<exists>ys. committed_list (claims l') (links l') q' h' ys" by blast
    qed
    show "placed_ok (claims l') (ends l') (heads l')" using D(4) by (auto simp: placed_ok_def cl' en' hd')
    show "totals_ok (claims l') (money l')"
      using totals_drop_committed(2)[OF D(5) c mo] by (simp add: cl' mo')
    show "owners_ok (claims l') (owner_claim l')"
      using owners_ok_drop[OF D(6), of h] c by (simp add: cl' oc' hr)
    show "list_rest (claims l') (links l') q n xs" using pn(2) by (simp add: cl' li')
  qed
  moreover have "same_market l l'"
  proof -
    have "map_option mb_free (account l' a') = map_option mb_free (account l a')" for a'
      by (auto simp: l' l1_def remove_claim_frame set_owner_claim_maps f_def balance_setters option.map_comp comp_def)
    then show ?thesis
      by (auto simp: same_market_def l' l1_def remove_claim_frame request_of_set_owner_claim
          quote_of_set_owner_claim account_update_maps option.map_comp comp_def)
  qed
  ultimately show ?thesis
    using that[of r h n] pop(1,2) hr n cl' c r unfolding l'_def by blast
qed

text \<open>The order in which the claims of a list are visited.\<close>

definition visit_all :: "(res_owner \<Rightarrow> amount \<Rightarrow> 's \<Rightarrow> 's) \<Rightarrow> claim_map \<Rightarrow> u32 list \<Rightarrow> 's \<Rightarrow> 's" where
  "visit_all visit cl xs st = foldl (\<lambda>st i. case cl i of
     Some (_, _, m, ow, _) \<Rightarrow> visit ow m st | None \<Rightarrow> st) st xs"

lemma visit_all_drop:
  "x \<notin> set xs \<Longrightarrow> visit_all visit (cl(x := None)) xs st = visit_all visit cl xs st"
  unfolding visit_all_def by (rule foldl_cong) auto

lemma list_rest_distinct: "list_rest cl nb q c xs \<Longrightarrow> distinct xs"
  by (auto simp: list_rest_def intro: dll_distinct)

lemma discharge_loop_spec:
  assumes "discharging q cursor xs l"
    and "unat steps + length xs \<le> length (slots (l_reservations l))"
  shows "\<exists>l'. discharge_loop visit cursor steps (l, st) = (l', visit_all visit (claims l) xs st) \<and>
    discharging q NIL [] l' \<and> same_market l l' \<and>
    claims l' = (\<lambda>i. if i \<in> set xs then None else claims l i)"
  using assms
proof (induction xs arbitrary: cursor steps l st)
  case Nil
  then have "cursor = NIL" by (auto simp: discharging_def list_rest_def)
  with Nil show ?case by (simp add: discharge_loop.simps visit_all_def)
next
  case (Cons x xs)
  obtain r h n where S: "cursor = x" "x \<noteq> NIL" "reservation_at l x = Some r"
    "slab_handle_at (l_reservations l) x = Some h" "snd (neighbours r) = n"
    "discharging q n xs (discharge_claim h r l)"
    "claims (discharge_claim h r l) = (claims l)(x := None)" "same_market l (discharge_claim h r l)"
    and c: "\<exists>g a. claims l x = Some (g, a, res_amount r, res_owner_of r, OnCommitted q)"
    by (rule discharge_step[OF Cons.prems(1)])
  define l1 where "l1 = discharge_claim h r l"
  define st1 where "st1 = visit (res_owner_of r) (res_amount r) st"
  have len: "length (slots (l_reservations l1)) = length (slots (l_reservations l))" by (simp add: l1_def)
  have small: "length (slots (l_reservations l)) < 2 ^ 32"
    using Cons.prems(1) slab_wfD(1) by (auto simp: discharging_def slabs_wf_def)
  have us: "unat (saturating_add steps 1) = Suc (unat steps)"
    using Cons.prems(2) small unat_saturating_add_exact[of steps 1] by simp
  have "unat (slab_capacity (l_reservations l1)) = length (slots (l_reservations l))"
    using small by (simp add: slab_capacity_def len unat_word_of_nat)
  then have go: "\<not> saturating_add steps 1 > slab_capacity (l_reservations l1)"
    using us Cons.prems(2) by (simp add: word_less_nat_alt)
  have step: "discharge_loop visit cursor steps (l, st) = discharge_loop visit n (saturating_add steps 1) (l1, st1)"
    using S(1-5) go by (subst discharge_loop.simps) (simp add: link_index_def Let_def l1_def st1_def)
  obtain l' where IH: "discharge_loop visit n (saturating_add steps 1) (l1, st1) = (l', visit_all visit (claims l1) xs st1)"
    "discharging q NIL [] l'" "same_market l1 l'" "claims l' = (\<lambda>i. if i \<in> set xs then None else claims l1 i)"
    using Cons.IH[OF S(6)[folded l1_def], of "saturating_add steps 1" st1] us len Cons.prems(2) by auto
  have "x \<notin> set xs" using Cons.prems(1) list_rest_distinct by (fastforce simp: discharging_def)
  then have "visit_all visit (claims l1) xs st1 = visit_all visit (claims l) (x # xs) st"
    using c S(7) by (auto simp: l1_def st1_def visit_all_drop) (simp add: visit_all_def)
  moreover have "claims l' = (\<lambda>i. if i \<in> set (x # xs) then None else claims l i)"
    using S(7) by (auto simp: IH(4) l1_def)
  ultimately show ?case using step IH(1,2) same_market_trans[OF S(8)[folded l1_def] IH(3)] by auto
qed

text \<open>
  The whole discharge, for a request whose own claim (if it holds one) is on its committed list:
  every claim of the list leaves the books, in list order, and nothing else changes.
\<close>

lemma discharge_committed_spec:
  assumes inv: "ledger_inv l" and q: "request l q = Some rq"
    and own: "\<And>i g a m k. claims l i = Some (g, a, m, OwnerRequest q, k) \<Longrightarrow> k = OnCommitted q"
  obtains xs l' where "set xs = on_list (claims l) q" and "distinct xs"
    and "committed_list (claims l) (links l) q (rq_committed_head rq) xs"
    and "discharge_committed q visit (l, st) = (l', visit_all visit (claims l) xs st)"
    and "ledger_inv l'" and "claims l' = (\<lambda>i. if i \<in> on_list (claims l) q then None else claims l i)"
    and "\<And>k. k \<noteq> q \<Longrightarrow> map_option (request_set_claim None) (request l' k) = map_option (request_set_claim None) (request l k)"
    and "request l' q = Some (request_set_claim None (request_set_head NIL rq))"
    and "\<And>k. map_option (quote_set_claim None) (quote l' k) = map_option (quote_set_claim None) (quote l k)"
    and "\<And>a. map_option mb_free (account l' a) = map_option mb_free (account l a)"
    and "l_contracts l' = l_contracts l"
proof -
  note D = ledger_invD[OF inv]
  have "heads l q = Some (rq_committed_head rq)" using q by (simp add: heads_def)
  then obtain xs where xs: "committed_list (claims l) (links l) q (rq_committed_head rq) xs"
    using committed_okE[OF D(3)] by blast
  then have st: "set xs = on_list (claims l) q" by (simp add: committed_list_def)
  have "committed_ok (claims l) (links l) ((heads l)(q := None))"
    using D(3) by (auto simp: committed_ok_def)
  then have dis: "discharging q (rq_committed_head rq) xs l"
    using D list_rest_start[OF xs] by (simp add: discharging_def)
  have dist: "distinct xs" using list_rest_distinct[OF list_rest_start[OF xs]] .
  have small: "length (slots (l_reservations l)) < 2 ^ 32" using D(1) slab_wfD(1) by (auto simp: slabs_wf_def)
  have "unat x < length (slots (l_reservations l))" if "x \<in> set xs" for x
    using that slab_view_range[of "l_reservations l" x] by (auto simp: st on_list_def claims_Some_iff)
  then have "length xs \<le> length (slots (l_reservations l))" by (rule distinct_indices_length[OF dist])
  then obtain l1 where L: "discharge_loop visit (rq_committed_head rq) 0 (l, st) = (l1, visit_all visit (claims l) xs st)"
    "discharging q NIL [] l1" "same_market l l1" "claims l1 = (\<lambda>i. if i \<in> set xs then None else claims l i)"
    using discharge_loop_spec[OF dis, of 0 visit st] by auto
  define f where "f = (\<lambda>r. request_set_claim None (request_set_head NIL r))"
  define l' where "l' = request_update q f l1"
  have "discharge_committed q visit (l, st) = (l', visit_all visit (claims l) xs st)"
    using q L(1) by (simp add: discharge_committed_def Let_def l'_def f_def)
  moreover have cl1: "claims l1 = (\<lambda>i. if i \<in> on_list (claims l) q then None else claims l i)" using L(4) st by simp
  have same: "claims l' = claims l1" "links l' = links l1" "ends l' = ends l1" "money l' = money l1"
    "quote l' = quote l1" "account l' = account l1" by (simp_all add: l'_def effects)
  from L(3) q have "map_option (request_set_claim None) (request l1 q) = Some (request_set_claim None rq)"
    by (simp add: same_market_def)
  then obtain rq1 where rq1: "request l1 q = Some rq1" "request_set_claim None rq1 = request_set_claim None rq" by auto
  then have frq: "f rq1 = request_set_claim None (request_set_head NIL rq)"
    unfolding f_def by (cases rq1; cases rq) (auto simp: record_setters)
  have D1: "slabs_wf l1" "expiry_ok (claims l1) (links l1) (ends l1)"
    "committed_ok (claims l1) (links l1) ((heads l1)(q := None))" "placed_ok (claims l1) (ends l1) (heads l1)"
    "totals_ok (claims l1) (money l1)" "owners_ok (claims l1) (owner_claim l1)" "on_list (claims l1) q = {}"
    using L(2) by (simp_all add: discharging_def list_rest_def)
  have hd': "heads l' = (heads l1)(q \<mapsto> NIL)"
    using rq1 by (auto simp: l'_def heads_def fun_eq_iff f_def record_setters)
  have "owner_claim l1 (OwnerRequest q) = Some None"
  proof -
    have "owner_claim l1 (OwnerRequest q) \<noteq> Some (Some h)" for h
    proof
      assume "owner_claim l1 (OwnerRequest q) = Some (Some h)"
      from owners_okD(2)[OF D1(6) this] obtain a m k where
        "claims l1 (h_index h) = Some (h_generation h, a, m, OwnerRequest q, k)" by blast
      then show False using own[of "h_index h"] by (auto simp: cl1 on_list_def split: if_splits)
    qed
    then show ?thesis using rq1(1) by (cases "rq_claim rq1") (auto simp: owner_claim_def)
  qed
  then have oc': "owner_claim l' = owner_claim l1"
    using rq1(1) by (auto simp: fun_eq_iff l'_def owner_claim_def f_def record_setters split: res_owner.split)
  have "ledger_inv l'"
    unfolding ledger_inv_def
  proof (intro conjI)
    show "slabs_wf l'" using D1(1) by (simp add: l'_def)
    show "expiry_ok (claims l') (links l') (ends l')" using D1(2) by (simp add: same)
    show "committed_ok (claims l') (links l') (heads l')"
      unfolding committed_ok_def same hd'
    proof (intro allI impI)
      fix q' h' assume h': "((heads l1)(q \<mapsto> NIL)) q' = Some h'"
      show "\<exists>xs. committed_list (claims l1) (links l1) q' h' xs"
      proof (cases "q' = q")
        case True
        with h' D1(7) show ?thesis by (auto simp: committed_list_def intro!: exI[of _ "[] :: u32 list"])
      next
        case False
        with h' have "((heads l1)(q := None)) q' = Some h'" by simp
        then show ?thesis using committed_okE[OF D1(3)] by blast
      qed
    qed
    show "placed_ok (claims l') (ends l') (heads l')" using D1(4) by (auto simp: placed_ok_def same hd')
    show "totals_ok (claims l') (money l')" using D1(5) by (simp add: same)
    show "owners_ok (claims l') (owner_claim l')" using D1(6) by (simp add: same oc')
  qed
  moreover have "request l' q = Some (request_set_claim None (request_set_head NIL rq))"
    using rq1(1) frq by (simp add: l'_def)
  moreover have "map_option (request_set_claim None) (request l' k) = map_option (request_set_claim None) (request l k)"
    if "k \<noteq> q" for k using that L(3) by (simp add: l'_def same_market_def)
  moreover have "l_contracts l' = l_contracts l" using L(3) by (simp add: l'_def same_market_def)
  ultimately show ?thesis
    using that[OF st dist xs] L(3) cl1 by (simp add: same same_market_def)
qed

section \<open>Freeing owners, and the writes that move no claim\<close>

lemma quote_update_inv:
  assumes inv: "ledger_inv l" and f: "\<And>k. q_claim (f k) = q_claim k"
  shows "ledger_inv (quote_update q f l)"
proof -
  have "owner_claim (quote_update q f l) = owner_claim l"
    by (auto simp: fun_eq_iff owner_claim_def option.map_comp comp_def f split: res_owner.split)
  moreover have "heads (quote_update q f l) = heads l" by (simp add: fun_eq_iff heads_def)
  ultimately show ?thesis using ledger_invD[OF inv] by (simp add: ledger_inv_def effects)
qed

lemma request_update_inv:
  assumes inv: "ledger_inv l" and f: "\<And>r. rq_claim (f r) = rq_claim r \<and> rq_committed_head (f r) = rq_committed_head r"
  shows "ledger_inv (request_update q f l)"
proof -
  have "owner_claim (request_update q f l) = owner_claim l"
    by (auto simp: fun_eq_iff owner_claim_def option.map_comp comp_def f split: res_owner.split)
  moreover have "heads (request_update q f l) = heads l"
    by (auto simp: fun_eq_iff heads_def option.map_comp comp_def f)
  ultimately show ?thesis using ledger_invD[OF inv] by (simp add: ledger_inv_def effects)
qed

lemma owners_ok_gone:
  assumes ok: "owners_ok cl oc" and gone: "oc ow = Some None"
  shows "owners_ok cl (oc(ow := None))"
  unfolding owners_ok_def
proof (intro allI)
  fix ow' and h' :: handle
  have "(oc(ow := None)) ow' = Some (Some h') \<longleftrightarrow> oc ow' = Some (Some h')" using gone by auto
  also have "\<dots> \<longleftrightarrow> (\<exists>a m k. cl (h_index h') = Some (h_generation h', a, m, ow', k))"
    using ok unfolding owners_ok_def by blast
  finally show "(oc(ow := None)) ow' = Some (Some h') \<longleftrightarrow>
    (\<exists>a m k. cl (h_index h') = Some (h_generation h', a, m, ow', k))" .
qed

lemma remove_quote_spec:
  assumes inv: "ledger_inv l" and q: "quote l q = Some k" "q_claim k = None"
  defines "l' \<equiv> l\<lparr>l_quotes := snd (slab_remove (l_quotes l) q)\<rparr>"
  shows "ledger_inv l'" and "quote l' = (quote l)(q := None)" and "request l' = request l"
    and "account l' = account l" and "claims l' = claims l" and "l_contracts l' = l_contracts l"
proof -
  have wf: "slab_wf (l_quotes l)" using ledger_invD(1)[OF inv] by (simp add: slabs_wf_def)
  obtain qs where rem: "slab_remove (l_quotes l) q = (Some k, qs)"
    using slab_remove_get[of "l_quotes l" q] q by (cases "slab_remove (l_quotes l) q") (auto simp: quote_def)
  have l': "l' = l\<lparr>l_quotes := qs\<rparr>" by (simp add: l'_def rem)
  show q': "quote l' = (quote l)(q := None)"
    using slab_get_rem[OF wf rem] by (auto simp: fun_eq_iff quote_def l')
  show same: "request l' = request l" "account l' = account l" "claims l' = claims l" "l_contracts l' = l_contracts l"
    by (auto simp: fun_eq_iff request_def account_def claims_def l')
  have "links l' = links l" "ends l' = ends l" "money l' = money l" "heads l' = heads l"
    by (auto simp: fun_eq_iff links_def ends_def money_def heads_def account_def request_def l')
  moreover have "owners_ok (claims l) (owner_claim l')"
  proof -
    have "owner_claim l (OwnerQuote q) = Some None" using q by (simp add: owner_claim_def)
    moreover have "owner_claim l' = (owner_claim l)(OwnerQuote q := None)"
      by (auto simp: fun_eq_iff owner_claim_def q' same(1) split: res_owner.splits)
    ultimately show ?thesis using owners_ok_gone[OF ledger_invD(6)[OF inv]] by simp
  qed
  moreover have "slabs_wf l'" using ledger_invD(1)[OF inv] slab_remove_spec(4)[OF wf rem] by (simp add: slabs_wf_def l')
  ultimately show "ledger_inv l'" using ledger_invD[OF inv] same(3) by (simp add: ledger_inv_def)
qed

lemma remove_request_spec:
  assumes inv: "ledger_inv l" and q: "request l q = Some r" "rq_claim r = None" "rq_committed_head r = NIL"
  defines "l' \<equiv> l\<lparr>l_requests := snd (slab_remove (l_requests l) q)\<rparr>"
  shows "ledger_inv l'" and "request l' = (request l)(q := None)" and "quote l' = quote l"
    and "account l' = account l" and "claims l' = claims l" and "l_contracts l' = l_contracts l"
proof -
  note D = ledger_invD[OF inv]
  have wf: "slab_wf (l_requests l)" using D(1) by (simp add: slabs_wf_def)
  obtain qs where rem: "slab_remove (l_requests l) q = (Some r, qs)"
    using slab_remove_get[of "l_requests l" q] q by (cases "slab_remove (l_requests l) q") (auto simp: request_def)
  have l': "l' = l\<lparr>l_requests := qs\<rparr>" by (simp add: l'_def rem)
  show q': "request l' = (request l)(q := None)"
    using slab_get_rem[OF wf rem] by (auto simp: fun_eq_iff request_def l')
  show same: "quote l' = quote l" "account l' = account l" "claims l' = claims l" "l_contracts l' = l_contracts l"
    by (auto simp: fun_eq_iff quote_def account_def claims_def l')
  have lk: "links l' = links l" "ends l' = ends l" "money l' = money l"
    by (auto simp: fun_eq_iff links_def ends_def money_def account_def l')
  have hd': "heads l' = (heads l)(q := None)" by (auto simp: fun_eq_iff heads_def q')
  have "heads l q = Some NIL" using q by (simp add: heads_def)
  then obtain xs where "committed_list (claims l) (links l) q NIL xs" using committed_okE[OF D(3)] by blast
  then obtain t where "dll (links l) NIL t xs" and st: "set xs = on_list (claims l) q"
    by (auto simp: committed_list_def)
  then have "xs = []" using dll_NIL_iff by blast
  with st have empty: "on_list (claims l) q = {}" by simp
  have "committed_ok (claims l) (links l) (heads l')" using D(3) by (auto simp: committed_ok_def hd')
  moreover have "placed_ok (claims l) (ends l) (heads l')"
    using D(4) empty by (fastforce simp: placed_ok_def hd' on_list_def)
  moreover have "owners_ok (claims l) (owner_claim l')"
  proof -
    have "owner_claim l (OwnerRequest q) = Some None" using q by (simp add: owner_claim_def)
    moreover have "owner_claim l' = (owner_claim l)(OwnerRequest q := None)"
      by (auto simp: fun_eq_iff owner_claim_def q' same(1) split: res_owner.splits)
    ultimately show ?thesis using owners_ok_gone[OF D(6)] by simp
  qed
  moreover have "slabs_wf l'" using D(1) slab_remove_spec(4)[OF wf rem] by (simp add: slabs_wf_def l')
  ultimately show "ledger_inv l'" using D same(3) lk by (simp add: ledger_inv_def)
qed

lemma close_quote_inv:
  assumes "ledger_inv l" shows "ledger_inv (snd (close_quote l q))"
  using assms remove_quote_spec(1)[OF assms] by (auto simp: close_quote_def split: option.split)

lemma close_request_inv:
  assumes "ledger_inv l" shows "ledger_inv (snd (close_request l q))"
  using assms remove_request_spec(1)[OF assms] by (auto simp: close_request_def split: option.split)

lemma ledger_inv_cong:
  assumes "ledger_inv l" and "l_accounts l' = l_accounts l" and "l_reservations l' = l_reservations l"
    and "l_requests l' = l_requests l" and "l_quotes l' = l_quotes l"
  shows "ledger_inv l'"
proof -
  have "claims l' = claims l" "links l' = links l" "ends l' = ends l" "money l' = money l" "heads l' = heads l"
    "owner_claim l' = owner_claim l" "slabs_wf l' = slabs_wf l"
    using assms(2-) by (auto simp: fun_eq_iff claims_def links_def ends_def money_def heads_def account_def
        owner_claim_def quote_def request_def slabs_wf_def split: res_owner.split)
  with assms(1) show ?thesis by (simp add: ledger_inv_def)
qed

lemma mirror_update_inv:
  assumes inv: "ledger_inv l" shows "ledger_inv (snd (apply_mirror_update l a v))"
proof (cases "account l a")
  case None
  with inv show ?thesis by (simp add: apply_mirror_update_def)
next
  case (Some b)
  define l' where "l' = account_update a (set_free v) l"
  have "ends l' = ends l" using ends_account_update_same[of "set_free v" a l] by (simp add: l'_def balance_setters)
  moreover have "money l' = (money l)(a \<mapsto> (v, mb_reserved b, mb_committed b))"
    by (simp add: l'_def money_account_update[OF Some] balance_setters)
  moreover have "totals_ok (claims l) ((money l)(a \<mapsto> (v, mb_reserved b, mb_committed b)))"
    using totals_okD[OF ledger_invD(5)[OF inv] account_Some_maps(2)[OF Some]]
    by (intro totals_ok_upd[OF ledger_invD(5)[OF inv]]) simp_all
  ultimately have "ledger_inv l'"
    using ledger_invD[OF inv] by (simp add: ledger_inv_def l'_def account_update_maps)
  with Some show ?thesis by (simp add: apply_mirror_update_def l'_def)
qed

lemma register_contract_inv: "ledger_inv l \<Longrightarrow> ledger_inv (snd (register_contract l c d))"
  by (auto simp: register_contract_def split: option.split intro: ledger_inv_cong)

lemma set_oracle_status_inv: "ledger_inv l \<Longrightarrow> ledger_inv (set_oracle_status c s l)"
  by (rule ledger_inv_cong) (auto simp: set_oracle_status_def)

lemma ledger_new_inv:
  assumes new: "ledger_new cfg = Some l" and acc: "max_accounts cfg < u_max"
  shows "ledger_inv l" and "claims l = (\<lambda>_. None)" and "request l = (\<lambda>_. None)" and "quote l = (\<lambda>_. None)"
proof -
  from new obtain rs qs ks where s: "slab_with_capacity (max_reservations cfg) = Some rs"
    "slab_with_capacity (max_requests cfg) = Some qs" "slab_with_capacity (max_quotes cfg) = Some ks"
    and l: "l = \<lparr>l_accounts = replicate (unat (max_accounts cfg)) mirrored_balance_default,
      l_contracts = replicate (unat (max_contracts cfg)) None, l_reservations = rs, l_requests = qs, l_quotes = ks\<rparr>"
    by (auto simp: ledger_new_def split: Option.bind_splits)
  note W = s[THEN slab_with_capacity_wf]
  show cl: "claims l = (\<lambda>_. None)" using W(1) by (auto simp: l claims_def fun_eq_iff)
  have "slab_get qs h = None" "slab_get ks h = None" for h using W(2,3) by (auto simp: slab_get_view)
  then show rq: "request l = (\<lambda>_. None)" and qt: "quote l = (\<lambda>_. None)"
    by (auto simp: l request_def quote_def fun_eq_iff)
  have acct: "account l a = (if unat a < unat (max_accounts cfg) then Some mirrored_balance_default else None)" for a
    by (simp add: l account_def get_idx_replicate)
  have "expiry_ok (claims l) (links l) (ends l)"
    unfolding expiry_ok_def
    by (auto simp: cl expiry_chain_def on_expiry_def ends_def acct mirrored_balance_default_def
        intro!: exI[of _ "[] :: u32 list"] split: if_splits)
  moreover have "totals_ok (claims l) (money l)"
    by (auto simp: totals_ok_def cl on_expiry_def committed_of_def money_def acct mirrored_balance_default_def
        split: if_splits)
  moreover have "slabs_wf l" using W unat_lt_size[of "max_accounts cfg"] by (simp add: slabs_wf_def l)
  ultimately show "ledger_inv l"
    by (auto simp: ledger_inv_def committed_ok_def heads_def rq placed_ok_def cl owners_ok_def owner_claim_def qt
        split: res_owner.splits)
qed

end
