(* ===== verification/Ledger_Steps.thy ===== *)
theory Ledger_Steps
  imports Ledger_Commit
begin

text \<open>
  The ledger as a transition system: one step per operation of \<open>crates/core/src/ledger.rs\<close>, the
  commit-phase operations under the preconditions the source documents for them. Every reachable
  ledger satisfies the invariant, and the properties of the claim operations are stated over it.
\<close>

section \<open>Steps\<close>

definition ledger_start :: "ledger \<Rightarrow> bool" where
  "ledger_start l \<longleftrightarrow> (\<exists>cfg. config_validate cfg = Inr () \<and> ledger_new cfg = Some l)"

inductive ledger_step :: "ledger \<Rightarrow> ledger \<Rightarrow> bool" where
  step_mirror: "ledger_step l (snd (apply_mirror_update l a v))"
| step_register: "ledger_step l (snd (register_contract l c d))"
| step_oracle: "ledger_step l (set_oracle_status c s l)"
| step_close_quote: "ledger_step l (snd (close_quote l q))"
| step_close_request: "ledger_step l (snd (close_request l r))"
| step_reserve: "reserve l a m e ow = Some (res, l') \<Longrightarrow> ledger_step l l'"
| step_open_quote: "q_claim rec = None \<Longrightarrow> open_quote_reserving l rec m = Some (resq, l') \<Longrightarrow> ledger_step l l'"
| step_open_request: "rq_claim rec = None \<Longrightarrow> rq_committed_head rec = NIL \<Longrightarrow>
    open_request_reserving l rec m = Some (resq, l') \<Longrightarrow> ledger_step l l'"
| step_release: "ledger_step l (snd (release l h))"
| step_commit: "ledger_step l (snd (commit l h q))"
| step_release_expired: "ledger_step l (snd (release_expired l a now))"
| step_free: "ledger_step l (snd (ledger_free l a now))"
| step_cp_release: "ledger_step l (cp_release h l)"
| step_cp_commit: "reservation l h = Some r \<Longrightarrow> keep \<le> res_amount r \<Longrightarrow> request l q \<noteq> None \<Longrightarrow>
    ledger_step l (cp_commit h q keep l)"
| step_cp_close_quote: "quote l q = Some k \<Longrightarrow> q_claim k = None \<Longrightarrow> ledger_step l (cp_close_quote q l)"
| step_discharge: "request l q = Some rq \<Longrightarrow>
    (\<And>i g a m k. claims l i = Some (g, a, m, OwnerRequest q, k) \<Longrightarrow> k = OnCommitted q) \<Longrightarrow>
    discharge_committed q (\<lambda>ow m seen. seen @ [(ow, m)]) (l, []) = (l', seen') \<Longrightarrow> ledger_step l l'"

inductive_cases ledger_stepE: "ledger_step l l'"

lemma startable_accounts: "config_validate cfg = Inr () \<Longrightarrow> max_accounts cfg < u_max"
  by (simp add: validate_ok_iff startable_def capacities_ok_def)

lemma ledger_start_inv: "ledger_start l \<Longrightarrow> ledger_inv l"
  using ledger_new_inv(1) startable_accounts by (auto simp: ledger_start_def)

lemma reserve_inv: "ledger_inv l \<Longrightarrow> reserve l a m e ow = Some (res, l') \<Longrightarrow> ledger_inv l'"
  using reserve_spec[of l a m e ow] by auto

lemma open_quote_inv:
  "ledger_inv l \<Longrightarrow> q_claim rec = None \<Longrightarrow> open_quote_reserving l rec m = Some (res, l') \<Longrightarrow> ledger_inv l'"
  using open_quote_reserving_spec[of l rec m] by auto

lemma open_request_inv:
  "ledger_inv l \<Longrightarrow> rq_claim rec = None \<Longrightarrow> rq_committed_head rec = NIL \<Longrightarrow>
     open_request_reserving l rec m = Some (res, l') \<Longrightarrow> ledger_inv l'"
  using open_request_reserving_spec[of l rec m] by auto

lemma ledger_free_snd: "snd (ledger_free l a now) = snd (release_expired l a now)"
  by (simp add: ledger_free_def split: prod.split sum.split)

lemma cp_commit_inv:
  assumes inv: "ledger_inv l" and r: "reservation l h = Some r" and keep: "keep \<le> res_amount r" and q: "request l q \<noteq> None"
  shows "ledger_inv (cp_commit h q keep l)"
proof (cases "is_committed r")
  case True
  with inv r show ?thesis by (simp add: cp_commit_def)
next
  case False
  obtain b where "account l (res_account r) = Some b" using claim_facts[OF inv r] by metis
  from cp_commit_spec(1)[OF inv r False this q keep] show ?thesis .
qed

lemma discharge_inv:
  assumes "ledger_inv l" and "request l q = Some rq"
    and "\<And>i g a m k. claims l i = Some (g, a, m, OwnerRequest q, k) \<Longrightarrow> k = OnCommitted q"
    and "discharge_committed q visit (l, st) = (l', st')"
  shows "ledger_inv l'"
proof (rule discharge_committed_spec[OF assms(1,2), where visit = visit and st = st])
  fix i g a m k assume "claims l i = Some (g, a, m, OwnerRequest q, k)"
  then show "k = OnCommitted q" by (rule assms(3))
next
  fix xs l''
  assume "discharge_committed q visit (l, st) = (l'', visit_all visit (claims l) xs st)" and "ledger_inv l''"
  then show "ledger_inv l'" using assms(4) by simp
qed

lemma ledger_step_inv:
  assumes inv: "ledger_inv l" and "ledger_step l l'"
  shows "ledger_inv l'"
  using assms(2)
proof (cases rule: ledger_step.cases)
  case (step_discharge q rq seen')
  show ?thesis by (rule discharge_inv[OF inv step_discharge(1) _ step_discharge(3)]) (rule step_discharge(2))
next
  case (step_cp_close_quote q k)
  then show ?thesis using remove_quote_spec(1)[OF inv] by (simp add: cp_close_quote_def)
next
  case (step_reserve a m e ow res)
  then show ?thesis using reserve_inv[OF inv] by blast
next
  case (step_open_quote rec m resq)
  then show ?thesis using open_quote_inv[OF inv] by blast
next
  case (step_open_request rec m resq)
  then show ?thesis using open_request_inv[OF inv] by blast
qed (use inv mirror_update_inv register_contract_inv set_oracle_status_inv close_quote_inv close_request_inv
    release_inv commit_spec(1) release_expired_inv cp_release_inv cp_commit_inv ledger_free_snd in simp_all)

interpretation ledger_system: inductive_invariant ledger_start ledger_step ledger_inv
  by unfold_locales (auto intro: ledger_start_inv ledger_step_inv)

section \<open>What the invariant says of the code's own fields\<close>

definition reserved_claims :: "ledger \<Rightarrow> account_idx \<Rightarrow> (handle \<times> reservation) set" where
  "reserved_claims l a = {(h, r). reservation l h = Some r \<and> res_account r = a \<and> \<not> is_committed r}"

definition committed_claims :: "ledger \<Rightarrow> account_idx \<Rightarrow> (handle \<times> reservation) set" where
  "committed_claims l a = {(h, r). reservation l h = Some r \<and> res_account r = a \<and> is_committed r}"

definition claimed :: "(handle \<times> reservation) set \<Rightarrow> nat" where
  "claimed X = (\<Sum>(h, r) \<in> X. unat (res_amount r))"

lemma reserved_kind_iff: "(\<exists>e. kind_of r = OnExpiry e) \<longleftrightarrow> \<not> is_committed r"
  by (cases "kind_of r") (auto simp: kind_of_cases(3))

lemma claims_bij:
  assumes "\<And>i. P i \<longleftrightarrow> (\<exists>g r. slab_view (l_reservations l) i = Some (g, r) \<and> Q r)"
  shows "claimed {(h, r). reservation l h = Some r \<and> Q r} = sum (amount_at (claims l)) {i. P i}"
  unfolding claimed_def
proof (rule sum.reindex_cong[symmetric])
  show "inj_on (\<lambda>(h, r). h_index h) {(h, r). reservation l h = Some r \<and> Q r}"
    by (rule inj_onI) (auto simp: reservation_Some_iff)
  show "{i. P i} = (\<lambda>(h, r). h_index h) ` {(h, r). reservation l h = Some r \<and> Q r}"
  proof (intro set_eqI iffI)
    fix i assume "i \<in> {i. P i}"
    then obtain g r where "slab_view (l_reservations l) i = Some (g, r)" "Q r" using assms by auto
    then have "(\<lparr>h_index = i, h_generation = g\<rparr>, r) \<in> {(h, r). reservation l h = Some r \<and> Q r}"
      by (simp add: reservation_Some_iff)
    then show "i \<in> (\<lambda>(h, r). h_index h) ` {(h, r). reservation l h = Some r \<and> Q r}"
      by (rule rev_image_eqI) simp
  qed (auto simp: assms reservation_Some_iff)
qed (auto simp: amount_at_def claims_def claim_of_def reservation_Some_iff)

lemma claimed_totals:
  assumes inv: "ledger_inv l" and b: "account l a = Some b"
  shows "claimed (reserved_claims l a) = unat (mb_reserved b)"
    and "claimed (committed_claims l a) = unat (mb_committed b)"
proof -
  note T = totals_okD[OF ledger_invD(5)[OF inv] account_Some_maps(2)[OF b]]
  have "claimed (reserved_claims l a) = sum (amount_at (claims l)) {i. i \<in> on_expiry (claims l) a}"
    unfolding reserved_claims_def
    by (rule claims_bij) (auto simp: on_expiry_def claims_Some_iff simp flip: reserved_kind_iff)
  then show "claimed (reserved_claims l a) = unat (mb_reserved b)" using T(1) by simp
  have "claimed (committed_claims l a) = sum (amount_at (claims l)) {i. i \<in> committed_of (claims l) a}"
    unfolding committed_claims_def
    by (rule claims_bij) (auto simp: committed_of_def claims_Some_iff kind_of_cases(3))
  then show "claimed (committed_claims l a) = unat (mb_committed b)" using T(2) by simp
qed

lemma owner_points_back:
  assumes inv: "ledger_inv l"
  shows "owner_claim l ow = Some (Some h) \<longleftrightarrow> (\<exists>r. reservation l h = Some r \<and> res_owner_of r = ow)"
  using owners_okD[OF ledger_invD(6)[OF inv]]
  by (auto simp: reservation_Some_iff claims_Some_iff)

section \<open>A small ledger for the witnesses\<close>

definition demo_config :: config where
  "demo_config = config_default\<lparr> max_accounts := 3, max_reservations := 4, max_requests := 2,
     max_quotes := 4, max_contracts := 2 \<rparr>"

definition demo_request :: request where
  "demo_request = request_new 0 500 (leg_new 0 SideYes 5 600000 # replicate 7 leg_default) 1"

definition demo_req :: req_idx where
  "demo_req = \<lparr>h_index = 0, h_generation = 0\<rparr>"

definition demo_quote :: "price \<Rightarrow> ts \<Rightarrow> quote" where
  "demo_quote p e = quote_new 1 demo_req 0 p 5 e 0"

definition ok_state :: "((ledger_error + 'a) \<times> ledger) option \<Rightarrow> ledger option" where
  "ok_state r = (case r of Some (Inr _, l) \<Rightarrow> Some l | _ \<Rightarrow> None)"

text \<open>
  Two accounts credited, a request opened by one, two quotes with different expiries by the other,
  and the first of them committed to the request.
\<close>

definition demo_run :: "ledger option" where
  "demo_run = do {
     l0 \<leftarrow> ledger_new demo_config;
     let l1 = snd (apply_mirror_update l0 0 9000000);
     let l2 = snd (apply_mirror_update l1 1 9000000);
     l3 \<leftarrow> ok_state (open_request_reserving l2 demo_request 3000000);
     l4 \<leftarrow> ok_state (open_quote_reserving l3 (demo_quote 500000 300) 2500000);
     l5 \<leftarrow> ok_state (open_quote_reserving l4 (demo_quote 400000 200) 3000000);
     Some (snd (commit l5 \<lparr>h_index = 1, h_generation = 0\<rparr> demo_req)) }"

definition demo_ledger :: ledger where
  "demo_ledger = the demo_run"

text \<open>Its claims: handle, account, amount, and whether it is committed; then free capital at 250.\<close>

definition claim_summary :: "ledger \<Rightarrow> (u32 \<times> account_idx \<times> amount \<times> bool) list" where
  "claim_summary l = map (\<lambda>(h, r). (h_index h, res_account r, res_amount r, is_committed r))
     (slab_iter (l_reservations l))"

lemma demo_facts:
  "(case demo_run of
      None \<Rightarrow> False
    | Some l \<Rightarrow> claim_summary l = [(0, 0, 3000000, False), (1, 1, 2500000, True), (2, 1, 3000000, False)] \<and>
        map_option (\<lambda>b. (mb_reserved b, mb_committed b)) (account l 1) = Some (3000000, 2500000) \<and>
        map_option res_expires_at (reservation l \<lparr>h_index = 2, h_generation = 0\<rparr>) = Some (Some 200) \<and>
        map_option is_committed (reservation l \<lparr>h_index = 1, h_generation = 0\<rparr>) = Some True \<and>
        owner_claim l (OwnerQuote \<lparr>h_index = 7, h_generation = 0\<rparr>) = None)"
  unfolding demo_run_def by code_simp

abbreviation reachable :: "ledger \<Rightarrow> bool" where
  "reachable l \<equiv> reaches ledger_start ledger_step l"

lemma ok_state_Some: "ok_state r = Some l \<Longrightarrow> \<exists>v. r = Some (Inr v, l)"
  by (auto simp: ok_state_def split: option.splits sum.splits prod.splits)

lemma demo_reachable: "demo_run = Some demo_ledger" "reachable demo_ledger"
proof -
  show run: "demo_run = Some demo_ledger"
  proof (cases demo_run)
    case None
    with demo_facts show ?thesis by simp
  next
    case (Some l)
    show ?thesis unfolding demo_ledger_def Some option.sel ..
  qed
  then obtain l0 l1 l2 l3 l4 l5 where s0: "ledger_new demo_config = Some l0"
    and s1: "l1 = snd (apply_mirror_update l0 0 9000000)" and s2: "l2 = snd (apply_mirror_update l1 1 9000000)"
    and s3: "ok_state (open_request_reserving l2 demo_request 3000000) = Some l3"
    and s4: "ok_state (open_quote_reserving l3 (demo_quote 500000 300) 2500000) = Some l4"
    and s5: "ok_state (open_quote_reserving l4 (demo_quote 400000 200) 3000000) = Some l5"
    and s6: "demo_ledger = snd (commit l5 \<lparr>h_index = 1, h_generation = 0\<rparr> demo_req)"
    by (auto simp: demo_run_def Let_def split: Option.bind_splits)
  have "config_validate demo_config = Inr ()" by code_simp
  with s0 have "reachable l0" by (intro reaches_start) (auto simp: ledger_start_def)
  then have "reachable l1" unfolding s1 by (rule reaches_step) (rule step_mirror)
  then have "reachable l2" unfolding s2 by (rule reaches_step) (rule step_mirror)
  then have "reachable l3"
    using ok_state_Some[OF s3]
    by (auto intro!: reaches_step[of _ _ l2 l3] step_open_request[of demo_request]
        simp: demo_request_def request_new_def)
  then have "reachable l4"
    using ok_state_Some[OF s4]
    by (auto intro!: reaches_step[of _ _ l3 l4] step_open_quote[of "demo_quote 500000 300"]
        simp: demo_quote_def quote_new_def)
  then have "reachable l5"
    using ok_state_Some[OF s5]
    by (auto intro!: reaches_step[of _ _ l4 l5] step_open_quote[of "demo_quote 400000 200"]
        simp: demo_quote_def quote_new_def)
  then show "reachable demo_ledger" unfolding s6 by (rule reaches_step) (rule step_commit)
qed

lemma demo_values:
  "claim_summary demo_ledger = [(0, 0, 3000000, False), (1, 1, 2500000, True), (2, 1, 3000000, False)]"
  "\<exists>b. account demo_ledger 1 = Some b \<and> mb_reserved b = 3000000 \<and> mb_committed b = 2500000"
  "\<exists>r. reservation demo_ledger \<lparr>h_index = 2, h_generation = 0\<rparr> = Some r \<and> res_expires_at r = Some 200"
  "\<exists>r. reservation demo_ledger \<lparr>h_index = 1, h_generation = 0\<rparr> = Some r \<and> is_committed r"
  and demo_stale: "owner_claim demo_ledger (OwnerQuote \<lparr>h_index = 7, h_generation = 0\<rparr>) = None"
  using demo_facts[unfolded demo_reachable(1) option.case] by auto

lemma reachable_ledger_inv: "reachable l \<Longrightarrow> ledger_inv l"
  by (rule ledger_system.reachable_inv)

lemma claim_view:
  "map_option claim_of (reservation x h) =
     (case claims x (h_index h) of Some (g, c) \<Rightarrow> if g = h_generation h then Some c else None | None \<Rightarrow> None)"
  by (simp add: reservation_def slab_get_view claims_def split: option.split)

section \<open>Properties\<close>

text \<open>
  C7. Chain-sum conservation. In every ledger reachable by any sequence of ledger operations, each
  account's stored reserved (committed) total is exactly the sum of the amounts of its reserved
  (committed) claims, the two together fit in an amount so no total ever wraps, and claims and
  owners point at each other: an owner holds a claim exactly when that claim resolves and names it.
\<close>

theorem reachable_totals_are_sums:
  assumes "reachable l"
  shows "(\<forall>a b. account l a = Some b \<longrightarrow>
       unat (mb_reserved b) = claimed (reserved_claims l a) \<and>
       unat (mb_committed b) = claimed (committed_claims l a) \<and>
       unat (mb_reserved b) + unat (mb_committed b) < 2 ^ 64) \<and>
     (\<forall>ow h. owner_claim l ow = Some (Some h) \<longleftrightarrow> (\<exists>r. reservation l h = Some r \<and> res_owner_of r = ow))"
proof -
  note inv = reachable_ledger_inv[OF assms]
  show ?thesis
    using claimed_totals[OF inv] owner_points_back[OF inv]
      totals_okD(3)[OF ledger_invD(5)[OF inv] account_Some_maps(2)] by simp
qed

theorem reachable_totals_are_sums_witness:
  "reachable demo_ledger \<and> claimed (reserved_claims demo_ledger 1) = 3000000 \<and>
   claimed (committed_claims demo_ledger 1) = 2500000"
proof -
  obtain b where "account demo_ledger 1 = Some b" "mb_reserved b = 3000000" "mb_committed b = 2500000"
    using demo_values(2) by blast
  with reachable_totals_are_sums[OF demo_reachable(2)] demo_reachable(2) show ?thesis by force
qed

text \<open>
  C10. Normalisation reclaims exactly the expired: on a reachable ledger, \<open>release_expired\<close> of a known
  account returns (it never loops), reports exactly the number of that account's reserved claims with
  \<open>expires_at <= now\<close>, frees exactly those, and keeps every other claim with its amount, owner and
  expiry, the mirrored balances, the contracts, and every request and quote but for the claim
  field of the owners it freed.
\<close>

theorem release_expired_reclaims_exactly_expired:
  assumes "reachable l" and "account l a = Some b"
  shows "\<exists>n l'. release_expired l a now = (Inr n, l') \<and>
    unat n = card {h. \<exists>r e. reservation l h = Some r \<and> res_account r = a \<and> res_expires_at r = Some e \<and> e \<le> now} \<and>
    (\<forall>h. map_option claim_of (reservation l' h) =
       (if \<exists>r e. reservation l h = Some r \<and> res_account r = a \<and> res_expires_at r = Some e \<and> e \<le> now
        then None else map_option claim_of (reservation l h))) \<and>
    same_market l l'"
proof -
  note inv = reachable_ledger_inv[OF assms(1)]
  obtain n l' where R: "release_expired l a now = (Inr n, l')" "ledger_inv l'" "same_market l l'"
    "claims l' = (\<lambda>i. if i \<in> expired_of (claims l) a now then None else claims l i)"
    "unat n = card (expired_of (claims l) a now)"
    by (rule release_expired_spec[OF inv assms(2)])
  define E where "E = {h. \<exists>r e. reservation l h = Some r \<and> res_account r = a \<and> res_expires_at r = Some e \<and> e \<le> now}"
  have mem: "h \<in> E \<longleftrightarrow> h_index h \<in> expired_of (claims l) a now \<and> reservation l h \<noteq> None" for h
    by (auto simp: E_def expired_of_def on_expiry_def expiry_at_def claims_Some_iff reservation_Some_iff
        kind_of_cases(1) split: option.splits claim_kind.splits)
      (auto simp: claims_def claim_of_def kind_of_cases(1)[symmetric])
  have "bij_betw h_index E (expired_of (claims l) a now)"
  proof (rule bij_betwI')
    show "h \<in> E \<Longrightarrow> k \<in> E \<Longrightarrow> h_index h = h_index k \<longleftrightarrow> h = k" for h k
      by (auto simp: E_def reservation_Some_iff)
    show "h \<in> E \<Longrightarrow> h_index h \<in> expired_of (claims l) a now" for h by (simp add: mem)
    show "i \<in> expired_of (claims l) a now \<Longrightarrow> \<exists>h \<in> E. i = h_index h" for i
    proof -
      assume i: "i \<in> expired_of (claims l) a now"
      then obtain g r where v: "slab_view (l_reservations l) i = Some (g, r)"
        by (auto simp: expired_of_def on_expiry_def claims_Some_iff)
      then have "\<lparr>h_index = i, h_generation = g\<rparr> \<in> E" using i by (simp add: mem reservation_Some_iff)
      then show ?thesis by force
    qed
  qed
  then have "card E = card (expired_of (claims l) a now)" by (rule bij_betw_same_card)
  moreover have "map_option claim_of (reservation l' h) = (if h \<in> E then None else map_option claim_of (reservation l h))" for h
  proof (cases "h_index h \<in> expired_of (claims l) a now")
    case True
    then show ?thesis using mem[of h] claim_view[of l' h] by (auto simp: R(4))
  next
    case False
    then show ?thesis using mem[of h] claim_view[of l' h] claim_view[of l h] by (auto simp: R(4))
  qed
  ultimately show ?thesis using R(1,3,5) unfolding E_def by auto
qed

theorem release_expired_reclaims_exactly_expired_witness:
  "\<exists>b. account demo_ledger 1 = Some b \<and>
   reservation (snd (release_expired demo_ledger 1 250)) \<lparr>h_index = 2, h_generation = 0\<rparr> = None"
proof -
  obtain b r where b: "account demo_ledger 1 = Some b"
    and r: "reservation demo_ledger \<lparr>h_index = 2, h_generation = 0\<rparr> = Some r" "res_expires_at r = Some 200"
    using demo_values(2,3) by blast
  have "res_account r = 1"
  proof -
    have "(\<lparr>h_index = 2, h_generation = 0\<rparr>, r) \<in> set (slab_iter (l_reservations demo_ledger))"
      using r(1) set_slab_iter[of "l_reservations demo_ledger"] ledger_invD(1)[OF reachable_ledger_inv[OF demo_reachable(2)]]
      by (simp add: slabs_wf_def reservation_def)
    then have "(2, res_account r, res_amount r, is_committed r) \<in> set (claim_summary demo_ledger)"
      by (force simp: claim_summary_def)
    then show ?thesis by (simp add: demo_values(1))
  qed
  with release_expired_reclaims_exactly_expired[OF demo_reachable(2) b, of 250] r b
  show ?thesis by (auto simp: map_option_is_None dest!: spec[of _ "\<lparr>h_index = 2, h_generation = 0\<rparr>"])
qed

text \<open>
  C11. Reserving is total and all or nothing. On a reachable ledger \<open>reserve\<close> returns; it succeeds exactly
  when the owner resolves and holds no claim, the account is known, the new claim together with
  everything already claimed fits in the mirrored balance (computed without wrap-around), and a claim
  slot is free; a rejection changes nothing at all; a success adds exactly that claim, points its
  owner at it, and leaves every other claim as it was.
\<close>

theorem reserve_is_all_or_nothing:
  assumes "reachable l"
  shows "\<exists>res l'. reserve l a m e ow = Some (res, l') \<and>
    (is_ok res \<longleftrightarrow> owner_claim l ow = Some None \<and> slab_has_room (l_reservations l) \<and>
       (\<exists>b. account l a = Some b \<and>
          unat (mb_reserved b) + unat (mb_committed b) + unat m \<le> unat (mb_free b))) \<and>
    (case res of
       Inl _ \<Rightarrow> l' = l
     | Inr h \<Rightarrow> reservation l h = None \<and> owner_claim l' ow = Some (Some h) \<and>
         (\<forall>k. map_option claim_of (reservation l' k) =
            (if k = h then Some (a, m, ow, OnExpiry e) else map_option claim_of (reservation l k))))"
proof -
  note inv = reachable_ledger_inv[OF assms]
  obtain res l' where R: "reserve l a m e ow = Some (res, l')" and inv': "ledger_inv l'"
    and S: "case res of Inl _ \<Rightarrow> l' = l
     | Inr h \<Rightarrow> \<exists>b. account l a = Some b \<and> owner_claim l ow = Some None \<and>
         unat (mb_reserved b) + unat (mb_committed b) + unat m \<le> unat (mb_free b) \<and>
         claims l (h_index h) = None \<and>
         claims l' = (claims l)(h_index h \<mapsto> (h_generation h, a, m, ow, OnExpiry e)) \<and>
         money l' = (money l)(a \<mapsto> (mb_free b, mb_reserved b + m, mb_committed b))"
    using reserve_spec[OF inv, of a m e ow] by blast
  have "is_ok res \<longleftrightarrow> owner_claim l ow = Some None \<and> slab_has_room (l_reservations l) \<and>
       (\<exists>b. account l a = Some b \<and>
          unat (mb_reserved b) + unat (mb_committed b) + unat m \<le> unat (mb_free b))" (is "_ \<longleftrightarrow> ?ok")
  proof
    assume "is_ok res"
    then obtain h where h: "res = Inr h" by (auto simp: is_ok_def split: sum.splits)
    have "slab_has_room (l_reservations l)"
    proof (rule ccontr)
      assume "\<not> slab_has_room (l_reservations l)"
      then obtain err where "insert_claim a m ow e l = Inl err"
        using insert_claim_fails_iff[OF ledger_invD(1)[OF inv]] by blast
      then show False using R h by (auto simp: reserve_def split: option.splits sum.splits)
    qed
    then show ?ok using S h by auto
  next
    assume ok: ?ok
    then obtain b where b: "account l a = Some b"
      and fit: "unat (mb_reserved b) + unat (mb_committed b) + unat m \<le> unat (mb_free b)" by blast
    obtain r' :: amount where r': "unat r' = unat (mb_reserved b) + unat m"
      using word_below[of "unat (mb_reserved b) + unat m" "mb_free b"] fit by auto
    then have chk: "check_reservable l a m = Inr r'" using b fit by (simp add: check_reservable_spec)
    obtain h l1 where ins: "insert_claim a m ow e l = Inr (h, l1)"
      using insert_claim_fails_iff[OF ledger_invD(1)[OF inv], of a m ow e] ok
      by (cases "insert_claim a m ow e l") auto
    show "is_ok res"
      using R ok chk ins by (auto simp: reserve_def split: option.splits)
  qed
  moreover have "case res of Inl _ \<Rightarrow> l' = l
     | Inr h \<Rightarrow> reservation l h = None \<and> owner_claim l' ow = Some (Some h) \<and>
         (\<forall>k. map_option claim_of (reservation l' k) =
            (if k = h then Some (a, m, ow, OnExpiry e) else map_option claim_of (reservation l k)))"
  proof (cases res)
    case (Inr h)
    with S have c: "claims l (h_index h) = None"
      and c': "claims l' = (claims l)(h_index h \<mapsto> (h_generation h, a, m, ow, OnExpiry e))" by auto
    have "owner_claim l' ow = Some (Some h)"
      by (rule owners_okD(1)[OF ledger_invD(6)[OF inv'], of h a m ow "OnExpiry e"]) (simp add: c')
    moreover have "reservation l h = None" using c by (simp add: reservation_None_iff)
    moreover have "map_option claim_of (reservation l' k) =
        (if k = h then Some (a, m, ow, OnExpiry e) else map_option claim_of (reservation l k))" for k
      using c by (cases h; cases k) (auto simp: claim_view c')
    ultimately show ?thesis using Inr by simp
  qed (use S in simp)
  ultimately show ?thesis using R by blast
qed

theorem reserve_is_all_or_nothing_witness:
  "(\<exists>l'. reserve demo_ledger 0 1 900 (OwnerQuote \<lparr>h_index = 7, h_generation = 0\<rparr>) = Some (Inl StaleOwner, l')
      \<and> l' = demo_ledger) \<and> reachable demo_ledger"
proof -
  have none: "owner_claim demo_ledger (OwnerQuote \<lparr>h_index = 7, h_generation = 0\<rparr>) = None"
    using demo_stale by simp
  define ow where "ow = OwnerQuote \<lparr>h_index = 7, h_generation = 0\<rparr>"
  from reserve_is_all_or_nothing[OF demo_reachable(2), of 0 1 900 ow]
  obtain res l' where R: "reserve demo_ledger 0 1 900 ow = Some (res, l')"
    and ok: "is_ok res \<longrightarrow> owner_claim demo_ledger ow = Some None"
    and S: "case res of Inl _ \<Rightarrow> l' = demo_ledger | Inr h \<Rightarrow> reservation demo_ledger h = None \<and>
      owner_claim l' ow = Some (Some h) \<and> (\<forall>k. map_option claim_of (reservation l' k) =
            (if k = h then Some (0, 1, ow, OnExpiry 900) else map_option claim_of (reservation demo_ledger k)))"
    by blast
  from ok none obtain err where "res = Inl err" by (cases res) (auto simp: ow_def)
  moreover from R none have "res = Inl StaleOwner" by (simp add: reserve_def ow_def)
  ultimately show ?thesis using R S demo_reachable(2) by (simp add: ow_def)
qed

text \<open>
  C12. Committed capital is never released on a guess: on a reachable ledger a committed claim survives
  \<open>release\<close> (which names the cause and changes nothing), the commit phase's release, and
  normalisation of any account at any time, still committed to the same request with the same amount.
\<close>

theorem committed_capital_is_never_released:
  assumes "reachable l" and "reservation l h = Some r" and "committed_to r = Some q"
  shows "release l h = (Inl ReservationCommitted, l) \<and> cp_release h l = l \<and>
    (\<exists>r'. reservation (snd (release_expired l a now)) h = Some r' \<and> committed_to r' = Some q \<and>
       res_amount r' = res_amount r \<and> res_owner_of r' = res_owner_of r)"
proof -
  note inv = reachable_ledger_inv[OF assms(1)]
  have com: "is_committed r" using assms(3) by (auto simp: committed_to_def is_committed_def split: claim_links.splits)
  have c: "claims l (h_index h) = Some (h_generation h, res_account r, res_amount r, res_owner_of r, OnCommitted q)"
    using assms(2,3) by (auto simp: claims_Some_iff reservation_Some_iff kind_of_cases(2))
  have "claims (snd (release_expired l a now)) (h_index h) = claims l (h_index h)"
  proof (cases "account l a")
    case None
    then show ?thesis by (simp add: release_expired_unknown)
  next
    case (Some b)
    obtain n l' where "release_expired l a now = (Inr n, l')"
      "claims l' = (\<lambda>i. if i \<in> expired_of (claims l) a now then None else claims l i)"
      by (rule release_expired_spec[OF inv Some])
    then show ?thesis using c by (auto simp: expired_of_def on_expiry_def)
  qed
  then obtain r' where "reservation (snd (release_expired l a now)) h = Some r'"
    "res_amount r' = res_amount r" "res_owner_of r' = res_owner_of r" "kind_of r' = OnCommitted q"
    using c by (auto simp: claims_Some_iff reservation_Some_iff)
  then show ?thesis
    using com assms(2) release_cases[OF inv, of h] by (auto simp: cp_release_def kind_of_cases(2))
qed

theorem committed_capital_is_never_released_witness:
  "\<exists>r. reservation demo_ledger \<lparr>h_index = 1, h_generation = 0\<rparr> = Some r \<and>
     release demo_ledger \<lparr>h_index = 1, h_generation = 0\<rparr> = (Inl ReservationCommitted, demo_ledger)"
proof -
  obtain r where r: "reservation demo_ledger \<lparr>h_index = 1, h_generation = 0\<rparr> = Some r" "is_committed r"
    using demo_values(4) by blast
  then obtain q where "committed_to r = Some q"
    by (auto simp: committed_to_def is_committed_def split: claim_links.splits)
  from committed_capital_is_never_released[OF demo_reachable(2) r(1) this] r(1) show ?thesis by blast
qed

end
