(* ===== verification/Engine.thy ===== *)
theory Engine
  imports Selection Commands Ledger_Steps
begin

text \<open>
  The single-writer state machine of \<open>crates/core/src/engine.rs\<close>: one command applied at one sampled
  instant, normalisation first, then the handler. A handler takes and returns the engine and the event
  buffer; its error is a value, and \<open>None\<close> is not returning (the walks of a corrupt leg chain). The
  theory \<open>Engine_Inv\<close> shows that it never happens on a reachable engine.
\<close>

section \<open>Errors and state\<close>

datatype engine_error =
    LedgerErr ledger_error
  | EventBufferFull
  | ExpiryOverflow
  | E_AmountOverflow
  | DeadlineTooFar
  | DeadlineInThePast
  | ContractTooNear
  | E_UnknownContract
  | TooManyLegs
  | NoLegs
  | PriceOutOfRange
  | ZeroSize
  | UnknownRequest
  | RequestNotOpen
  | RequestDeadlinePassed
  | UnknownLeg
  | QuoteExpiryInThePast
  | QuoteTtlTooLong
  | QuoteTooSmall
  | WorseReplacement
  | LegQuoteLimitReached
  | QuotesAreIrrevocable
  | UnknownQuote
  | LegCountMismatch
  | StaleNonce
  | RequestNotSettling
  | OracleStatusRegression
  | OutcomeNotYet
  | NoEligibleQuote u8 no_quote_reason
  | PresentationStale u8 price price
  | ReservationShortfall

record engine =
  e_config :: config
  e_ledger :: ledger
  e_next_arrival :: u64

type_synonym world = "engine \<times> event_buffer"
type_synonym outcome_of = "((engine_error + unit) \<times> world) option"

text \<open>\<open>Inl\<close> is the configuration error; \<open>None\<close> the panic of a slab too large, which validation excludes.\<close>

definition engine_new :: "config \<Rightarrow> (config_error + engine) option" where
  "engine_new config =
     (case config_validate config of
        Inl e \<Rightarrow> Some (Inl e)
      | Inr _ \<Rightarrow>
          (case ledger_new config of
             None \<Rightarrow> None
           | Some l \<Rightarrow> Some (Inr \<lparr> e_config = config, e_ledger = l, e_next_arrival = 0 \<rparr>)))"

definition upd_ledger :: "(ledger \<Rightarrow> ledger) \<Rightarrow> engine \<Rightarrow> engine" where
  "upd_ledger f e = e\<lparr> e_ledger := f (e_ledger e) \<rparr>"

definition resolve_nonce :: "engine \<Rightarrow> nonce \<Rightarrow> req_idx option" where
  "resolve_nonce e n =
     (case request_handle_at (e_ledger e) (n_request n) of
        None \<Rightarrow> None
      | Some handle \<Rightarrow> if h_generation handle = n_generation n then Some handle else None)"

definition touched_accounts :: "engine \<Rightarrow> command \<Rightarrow> account_idx option list" where
  "touched_accounts e c =
     (let l = e_ledger e; requester = (\<lambda>r. map_option rq_requester (request l r)) in
      case c of
        CreditAccount a _ \<Rightarrow> [Some a, None]
      | RegisterContract _ _ \<Rightarrow> [None, None]
      | ReportOracleStatus _ _ \<Rightarrow> [None, None]
      | SettleEscrow _ _ \<Rightarrow> [None, None]
      | SubmitRequest a _ _ _ \<Rightarrow> [Some a, None]
      | SubmitQuote maker r _ _ _ _ \<Rightarrow> [Some maker, requester r]
      | RejectRequest r \<Rightarrow> [requester r, None]
      | AcceptRequest r _ _ \<Rightarrow> [requester r, None]
      | PollSettlement n _ \<Rightarrow> [Option.bind (resolve_nonce e n) requester, None]
      | CancelQuote q \<Rightarrow> [map_option q_maker (quote l q), None])"

definition normalise :: "ts \<Rightarrow> account_idx \<Rightarrow> engine \<Rightarrow> engine" where
  "normalise now a e = upd_ledger (\<lambda>l. snd (release_expired l a now)) e"

section \<open>Leg chains\<close>

definition leg_of :: "ledger \<Rightarrow> req_idx \<Rightarrow> leg_id \<Rightarrow> leg option" where
  "leg_of l r lid = Option.bind (request l r) (\<lambda>record. request_leg record lid)"

definition leg_update :: "req_idx \<Rightarrow> leg_id \<Rightarrow> (leg \<Rightarrow> leg) \<Rightarrow> ledger \<Rightarrow> ledger" where
  "leg_update r lid f l = request_update r (request_leg_update lid f) l"

definition link_quote :: "req_idx \<Rightarrow> leg_id \<Rightarrow> quote_idx \<Rightarrow> ledger \<Rightarrow> ledger" where
  "link_quote r lid q l =
     (let head = (case leg_of l r lid of None \<Rightarrow> NIL | Some leg \<Rightarrow> leg_quotes_head leg)
      in leg_update r lid
           (\<lambda>leg. leg\<lparr> leg_quotes_head := link_to (h_index q),
                       leg_quote_count := saturating_add (leg_quote_count leg) 1 \<rparr>)
           (quote_update q (quote_set_next head) l))"

definition lower_count :: "leg \<Rightarrow> leg" where
  "lower_count leg = leg\<lparr> leg_quote_count := saturating_sub (leg_quote_count leg) 1 \<rparr>"

definition next_of :: "ledger \<Rightarrow> quote_idx \<Rightarrow> link" where
  "next_of l q = (case quote l q of None \<Rightarrow> NIL | Some record \<Rightarrow> q_next_on_leg record)"

text \<open>The search for the predecessor, and the unlink there.\<close>

partial_function (option) unlink_walk ::
  "req_idx \<Rightarrow> leg_id \<Rightarrow> quote_idx \<Rightarrow> link \<Rightarrow> ledger \<Rightarrow> ledger option" where
  "unlink_walk r lid q cursor l =
     (case link_index cursor of
        None \<Rightarrow> Some l
      | Some index \<Rightarrow>
          (case quote_handle_at l index of
             None \<Rightarrow> Some l
           | Some handle \<Rightarrow>
               (case quote l handle of
                  None \<Rightarrow> Some l
                | Some current \<Rightarrow>
                    if link_index (q_next_on_leg current) = Some (h_index q) then
                      Some (leg_update r lid lower_count
                              (quote_update handle (quote_set_next (next_of l q)) l))
                    else unlink_walk r lid q (q_next_on_leg current) l)))"

declare unlink_walk.simps [code]

definition unlink_quote :: "req_idx \<Rightarrow> leg_id \<Rightarrow> quote_idx \<Rightarrow> ledger \<Rightarrow> ledger option" where
  "unlink_quote r lid q l =
     (case leg_of l r lid of
        None \<Rightarrow> Some l
      | Some leg \<Rightarrow>
          if link_index (leg_quotes_head leg) = Some (h_index q) then
            Some (leg_update r lid (\<lambda>leg. lower_count (leg\<lparr> leg_quotes_head := next_of l q \<rparr>)) l)
          else unlink_walk r lid q (leg_quotes_head leg) l)"

definition publish_selection :: "req_idx \<Rightarrow> leg_id \<Rightarrow> ts \<Rightarrow> ledger \<times> event_buffer \<Rightarrow> (ledger \<times> event_buffer) option" where
  "publish_selection r lid now lb =
     (let l = fst lb; b = snd lb in
      case leg_of l r lid of
        None \<Rightarrow> Some lb
      | Some leg \<Rightarrow>
          (case best_on_leg l leg now of
             None \<Rightarrow> None
           | Some (Inl _) \<Rightarrow> Some lb
           | Some (Inr best) \<Rightarrow>
               if leg_published leg = Some (sel_price best) then Some lb
               else Some (leg_update r lid (leg_published_update (\<lambda>_. Some (sel_price best))) l,
                          eb_push (BestSelectionChanged r lid (sel_price best)) b)))"

text \<open>
  One turn of the release loop of \<open>release_leg\<close>, and the collection of the doomed quotes in the
  fixed array (an index past its end is counted and dropped).
\<close>

definition release_one ::
  "req_idx \<Rightarrow> leg_id \<Rightarrow> ts \<Rightarrow> quote_reject_reason \<Rightarrow> quote_idx \<Rightarrow> ledger \<times> event_buffer \<Rightarrow> (ledger \<times> event_buffer) option" where
  "release_one r lid now reason handle lb =
     (let l = fst lb; b = snd lb in
      case quote l handle of
        None \<Rightarrow> Some lb
      | Some q \<Rightarrow>
          (let maker = q_maker q;
               expired = (\<not> quote_is_live_at q now);
               l1 = (case q_claim q of None \<Rightarrow> l | Some claim \<Rightarrow> cp_release claim l);
               l2 = quote_update handle (quote_set_state QuoteReleased) l1;
               b' = eb_push (if expired then QuoteExpired handle maker
                             else QuoteRejected handle maker reason) b
           in case unlink_quote r lid handle l2 of
                None \<Rightarrow> None
              | Some l3 \<Rightarrow> Some (cp_close_quote handle l3, b')))"

definition doom :: "selection option \<Rightarrow> quote_idx \<Rightarrow> quote_idx option list \<times> nat \<Rightarrow> quote_idx option list \<times> nat" where
  "doom keep handle dc =
     (if (case keep of None \<Rightarrow> False | Some k \<Rightarrow> sel_quote k = handle) then dc
      else (if snd dc < length (fst dc) then (fst dc)[snd dc := Some handle] else fst dc, Suc (snd dc)))"

definition release_leg ::
  "req_idx \<Rightarrow> leg_id \<Rightarrow> selection option \<Rightarrow> ts \<Rightarrow> quote_reject_reason \<Rightarrow> ledger \<times> event_buffer \<Rightarrow> (ledger \<times> event_buffer) option" where
  "release_leg r lid keep now reason lb =
     (case leg_of (fst lb) r lid of
        None \<Rightarrow> Some lb
      | Some leg \<Rightarrow>
          (case walk_leg (fst lb) leg (doom keep) (replicate MAX_QUOTES_PER_LEG None, 0) of
             None \<Rightarrow> None
           | Some (doomed, _) \<Rightarrow> fold_opt (release_one r lid now reason) (somes doomed) lb))"

section \<open>SubmitRequest\<close>

definition lift_ledger :: "ledger_error + 'a \<Rightarrow> engine_error + 'a" where
  "lift_ledger r = (case r of Inl e \<Rightarrow> Inl (LedgerErr e) | Inr v \<Rightarrow> Inr v)"

definition lift_buffer :: "event_buffer_full + 'a \<Rightarrow> engine_error + 'a" where
  "lift_buffer r = (case r of Inl _ \<Rightarrow> Inl EventBufferFull | Inr v \<Rightarrow> Inr v)"

text \<open>One turn of the leg loop: admission of a leg, its share of the reservation, the stored legs.\<close>

definition set_at :: "'a list \<Rightarrow> nat \<Rightarrow> 'a \<Rightarrow> 'a list" where
  "set_at xs k v = (if k < length xs then xs[k := v] else xs)"

definition admit_leg ::
  "config \<Rightarrow> ledger \<Rightarrow> ts \<Rightarrow> leg_spec list \<Rightarrow> nat \<Rightarrow> leg list \<times> open_leg list \<times> amount
     \<Rightarrow> engine_error + leg list \<times> open_leg list \<times> amount" where
  "admit_leg config l now legs index acc =
     (let (stored, opened, reservation) = acc in
      case nth_opt legs index of
        None \<Rightarrow> Inl TooManyLegs
      | Some spec \<Rightarrow>
          if ls_size spec = 0 then Inl ZeroSize
          else if ls_limit spec > UNIT then Inl PriceOutOfRange
          else
            (case contract_at l (ls_contract spec) of
               None \<Rightarrow> Inl E_UnknownContract
             | Some contract \<Rightarrow>
                 (case checked_sub (c_event_date contract) (min_horizon config) of
                    None \<Rightarrow> Inl ContractTooNear
                  | Some horizon \<Rightarrow>
                      if now \<ge> horizon then Inl ContractTooNear
                      else
                        (case size_checked_mul (ls_size spec) (ls_limit spec) of
                           None \<Rightarrow> Inl E_AmountOverflow
                         | Some leg_reservation \<Rightarrow>
                             (case amount_checked_add reservation leg_reservation of
                                None \<Rightarrow> Inl E_AmountOverflow
                              | Some reservation' \<Rightarrow>
                                  Inr (set_at stored index
                                         (leg_new (ls_contract spec) (ls_side spec) (ls_size spec) (ls_limit spec)),
                                       set_at opened index
                                         \<lparr> ol_contract = ls_contract spec, ol_side = ls_side spec,
                                           ol_size = ls_size spec \<rparr>,
                                       reservation'))))))"

definition submit_request ::
  "account_idx \<Rightarrow> ts \<Rightarrow> leg_spec list \<Rightarrow> u8 \<Rightarrow> ts \<Rightarrow> world \<Rightarrow> outcome_of" where
  "submit_request requester deadline legs n_legs now w =
     (let (e, b) = w; config = e_config e; l = e_ledger e in
      if n_legs = 0 then Some (Inl NoLegs, w)
      else if unat n_legs > unat (max_legs config) then Some (Inl TooManyLegs, w)
      else if deadline \<le> now then Some (Inl DeadlineInThePast, w)
      else if ts_saturating_sub deadline now > max_request_ttl config then Some (Inl DeadlineTooFar, w)
      else
        (case fold_res (admit_leg config l now legs) [0..<unat n_legs]
                (replicate MAX_LEGS leg_default, replicate MAX_LEGS open_leg_default, 0) of
           Inl err \<Rightarrow> Some (Inl err, w)
         | Inr (stored, opened, amount) \<Rightarrow>
             (case eb_headroom b 1 of
                Inl _ \<Rightarrow> Some (Inl EventBufferFull, w)
              | Inr _ \<Rightarrow>
                  (case open_request_reserving l (request_new requester deadline stored n_legs) amount of
                     None \<Rightarrow> None
                   | Some (Inl err, l') \<Rightarrow> Some (Inl (LedgerErr err), (e\<lparr> e_ledger := l' \<rparr>, b))
                   | Some (Inr (r, _), l') \<Rightarrow>
                       Some (Inr (), (e\<lparr> e_ledger := l' \<rparr>,
                                      eb_push (RequestOpened r deadline opened n_legs) b))))))"

section \<open>RejectRequest\<close>

definition leg_ids :: "u8 \<Rightarrow> leg_id list" where
  "leg_ids n = map word_of_nat [0..<unat n]"

definition reject_request :: "req_idx \<Rightarrow> ts \<Rightarrow> world \<Rightarrow> outcome_of" where
  "reject_request r now w =
     (let (e, b) = w; l = e_ledger e in
      case request l r of
        None \<Rightarrow> Some (Inl UnknownRequest, w)
      | Some record \<Rightarrow>
          if rq_state record \<noteq> ReqOpen then Some (Inl RequestNotOpen, w)
          else
            let claim = rq_claim record;
                n_legs = rq_n_legs record;
                worst_case = unat n_legs * unat (max_quotes_per_leg (e_config e))
            in if worst_case \<ge> 2 ^ 64 then Some (Inl E_AmountOverflow, w)
               else
                 (case eb_headroom b worst_case of
                    Inl _ \<Rightarrow> Some (Inl EventBufferFull, w)
                  | Inr _ \<Rightarrow>
                      (case fold_opt (\<lambda>lid. release_leg r lid None now RequestRejected) (leg_ids n_legs) (l, b) of
                         None \<Rightarrow> None
                       | Some (l1, b1) \<Rightarrow>
                           let l2 = (case claim of None \<Rightarrow> l1 | Some c \<Rightarrow> cp_release c l1)
                           in Some (Inr (), (e\<lparr> e_ledger := request_update r (request_set_state ReqRejected) l2 \<rparr>, b1)))))"

section \<open>SubmitQuote\<close>

text \<open>The release of the maker's standing quote by a better one.\<close>

definition replace_standing ::
  "account_idx \<Rightarrow> req_idx \<Rightarrow> leg_id \<Rightarrow> quote_idx option \<Rightarrow> ledger \<times> event_buffer \<Rightarrow> (ledger \<times> event_buffer) option" where
  "replace_standing maker r lid standing lb =
     (case standing of
        None \<Rightarrow> Some lb
      | Some q \<Rightarrow>
          (let l = fst lb;
               l1 = (case Option.bind (quote l q) q_claim of None \<Rightarrow> l | Some claim \<Rightarrow> cp_release claim l);
               l2 = quote_update q (quote_set_state QuoteReleased) l1;
               b' = eb_push (QuoteRejected q maker Replaced) (snd lb)
           in case unlink_quote r lid q l2 of
                None \<Rightarrow> None
              | Some l3 \<Rightarrow> Some (cp_close_quote q l3, b')))"

text \<open>The admission checks, in order; the value is the leg and the standing quote.\<close>

definition check_quote ::
  "engine \<Rightarrow> account_idx \<Rightarrow> req_idx \<Rightarrow> leg_id \<Rightarrow> price \<Rightarrow> size \<Rightarrow> ts \<Rightarrow> ts
     \<Rightarrow> (engine_error + leg \<times> quote_idx option) option" where
  "check_quote e maker r lid p sz expires_at now =
     (let l = e_ledger e; config = e_config e in
      case request l r of
        None \<Rightarrow> Some (Inl UnknownRequest)
      | Some record \<Rightarrow>
          if rq_state record \<noteq> ReqOpen then Some (Inl RequestNotOpen)
          else if now \<ge> rq_deadline record then Some (Inl RequestDeadlinePassed)
          else
            (case request_leg record lid of
               None \<Rightarrow> Some (Inl UnknownLeg)
             | Some leg \<Rightarrow>
                 if now \<ge> expires_at then Some (Inl QuoteExpiryInThePast)
                 else if ts_saturating_sub expires_at now > max_quote_ttl config then Some (Inl QuoteTtlTooLong)
                 else if p > UNIT then Some (Inl PriceOutOfRange)
                 else if sz < leg_size leg then Some (Inl QuoteTooSmall)
                 else
                   (case standing_quote_of l leg maker of
                      None \<Rightarrow> None
                    | Some None \<Rightarrow>
                        if leg_quote_count leg \<ge> max_quotes_per_leg config then Some (Inl LegQuoteLimitReached)
                        else Some (Inr (leg, None))
                    | Some (Some standing) \<Rightarrow>
                        (case quote l standing of
                           None \<Rightarrow> Some (Inl UnknownQuote)
                         | Some existing \<Rightarrow>
                             if p > q_price existing then Some (Inl WorseReplacement)
                             else Some (Inr (leg, Some standing))))))"

definition submit_quote ::
  "account_idx \<Rightarrow> req_idx \<Rightarrow> leg_id \<Rightarrow> price \<Rightarrow> size \<Rightarrow> ts \<Rightarrow> ts \<Rightarrow> world \<Rightarrow> outcome_of" where
  "submit_quote maker r lid p sz expires_at now w =
     (let (e, b) = w in
      case check_quote e maker r lid p sz expires_at now of
        None \<Rightarrow> None
      | Some (Inl err) \<Rightarrow> Some (Inl err, w)
      | Some (Inr (leg, standing)) \<Rightarrow>
          (case maker_contribution (leg_size leg) p of
             None \<Rightarrow> Some (Inl E_AmountOverflow, w)
           | Some contribution \<Rightarrow>
               (case eb_headroom b 2 of
                  Inl _ \<Rightarrow> Some (Inl EventBufferFull, w)
                | Inr _ \<Rightarrow>
                    (case replace_standing maker r lid standing (e_ledger e, b) of
                       None \<Rightarrow> None
                     | Some (l1, b1) \<Rightarrow>
                         let arrival = e_next_arrival e;
                             e1 = e\<lparr> e_ledger := l1, e_next_arrival := saturating_add arrival 1 \<rparr>
                         in (case open_quote_reserving l1 (quote_new maker r lid p sz expires_at arrival) contribution of
                               None \<Rightarrow> None
                             | Some (Inl err, l2) \<Rightarrow> Some (Inl (LedgerErr err), (e1\<lparr> e_ledger := l2 \<rparr>, b1))
                             | Some (Inr (q, _), l2) \<Rightarrow>
                                 (case publish_selection r lid now (link_quote r lid q l2, b1) of
                                    None \<Rightarrow> None
                                  | Some (l3, b2) \<Rightarrow> Some (Inr (), (e1\<lparr> e_ledger := l3 \<rparr>, b2))))))))"

section \<open>AcceptRequest\<close>

text \<open>One turn of the loop of \<open>plan_accept\<close>.\<close>

definition plan_leg ::
  "ledger \<Rightarrow> request \<Rightarrow> expected_fill list \<Rightarrow> ts \<Rightarrow> nat \<Rightarrow> selection option list \<times> amount
     \<Rightarrow> (engine_error + selection option list \<times> amount) option" where
  "plan_leg l record expected now index acc =
     (let (plan, total) = acc; lid = (if index < 2 ^ 8 then word_of_nat index else u_max) :: u8 in
      case nth_opt (request_legs record) index of
        None \<Rightarrow> Some (Inl UnknownLeg)
      | Some leg \<Rightarrow>
          (case best_on_leg l leg now of
             None \<Rightarrow> None
           | Some (Inl reason) \<Rightarrow> Some (Inl (NoEligibleQuote lid reason))
           | Some (Inr selection) \<Rightarrow>
               (case nth_opt expected index of
                  None \<Rightarrow> Some (Inl LegCountMismatch)
                | Some view \<Rightarrow>
                    if ef_leg view \<noteq> lid then Some (Inl LegCountMismatch)
                    else if sel_price selection > ef_price view
                    then Some (Inl (PresentationStale lid (ef_price view) (sel_price selection)))
                    else
                      (case requester_contribution (leg_size leg) (sel_price selection) of
                         None \<Rightarrow> Some (Inl E_AmountOverflow)
                       | Some contribution \<Rightarrow>
                           (case amount_checked_add total contribution of
                              None \<Rightarrow> Some (Inl E_AmountOverflow)
                            | Some total' \<Rightarrow> Some (Inr (set_at plan index (Some selection), total')))))))"

fun fold_plan ::
  "(nat \<Rightarrow> 's \<Rightarrow> ('e + 's) option) \<Rightarrow> nat list \<Rightarrow> 's \<Rightarrow> ('e + 's) option" where
  "fold_plan f [] s = Some (Inr s)"
| "fold_plan f (k # ks) s =
     (case f k s of None \<Rightarrow> None | Some (Inl err) \<Rightarrow> Some (Inl err) | Some (Inr s') \<Rightarrow> fold_plan f ks s')"

definition plan_accept ::
  "ledger \<Rightarrow> request \<Rightarrow> expected_fill list \<Rightarrow> ts \<Rightarrow> (engine_error + selection option list \<times> amount) option" where
  "plan_accept l record expected now =
     fold_plan (plan_leg l record expected now) [0..<unat (rq_n_legs record)] (replicate MAX_LEGS None, 0)"

definition intent_step ::
  "ledger \<Rightarrow> request \<Rightarrow> selection option list \<Rightarrow> nat \<Rightarrow> intent_leg list \<Rightarrow> engine_error + intent_leg list" where
  "intent_step l record plan index intent =
     (case (nth_opt plan index, nth_opt (request_legs record) index) of
        (Some (Some selection), Some leg) \<Rightarrow>
          (case quote l (sel_quote selection) of
             None \<Rightarrow> Inl UnknownQuote
           | Some winner \<Rightarrow>
               Inr (set_at intent index
                 \<lparr> il_contract = leg_contract leg, il_side = leg_side leg, il_size = leg_size leg,
                   il_maker = q_maker winner, il_fill_price = sel_price selection,
                   il_quote_expiry = q_expires_at winner \<rparr>))
      | _ \<Rightarrow> Inl LegCountMismatch)"

definition build_intent :: "ledger \<Rightarrow> request \<Rightarrow> selection option list \<Rightarrow> engine_error + intent_leg list" where
  "build_intent l record plan =
     fold_res (intent_step l record plan) [0..<unat (rq_n_legs record)] (replicate MAX_LEGS intent_leg_default)"

text \<open>The commit of one leg: release the losers, consume the winner, commit its claim in full.\<close>

definition commit_winner :: "req_idx \<Rightarrow> selection \<Rightarrow> ledger \<Rightarrow> ledger" where
  "commit_winner r winner l =
     (let claim = Option.bind (quote l (sel_quote winner)) q_claim;
          amount = (case Option.bind claim (reservation l) of None \<Rightarrow> 0 | Some c \<Rightarrow> res_amount c);
          l1 = quote_update (sel_quote winner) (quote_set_state QuoteConsumed) l
      in case claim of None \<Rightarrow> l1 | Some c \<Rightarrow> cp_commit c r amount l1)"

definition accept_leg ::
  "req_idx \<Rightarrow> selection option list \<Rightarrow> ts \<Rightarrow> nat \<Rightarrow> ledger \<times> event_buffer \<Rightarrow> (ledger \<times> event_buffer) option" where
  "accept_leg r plan now index lb =
     (let winner = Option.bind (nth_opt plan index) (\<lambda>w. w) in
      case release_leg r (word_of_nat index) winner now Outbid lb of
        None \<Rightarrow> None
      | Some (l1, b1) \<Rightarrow>
          Some (case winner of None \<Rightarrow> (l1, b1) | Some s \<Rightarrow> (commit_winner r s l1, b1)))"

text \<open>The checks of the whole basket: the plan, the requester's claim and total, and the intent.\<close>

definition check_accept ::
  "engine \<Rightarrow> event_buffer \<Rightarrow> req_idx \<Rightarrow> expected_fill list \<Rightarrow> u8 \<Rightarrow> ts
     \<Rightarrow> (engine_error + request \<times> selection option list \<times> amount \<times> res_idx \<times> intent_leg list) option" where
  "check_accept e b r expected n_legs now =
     (let l = e_ledger e in
      case request l r of
        None \<Rightarrow> Some (Inl UnknownRequest)
      | Some record \<Rightarrow>
          if rq_state record \<noteq> ReqOpen then Some (Inl RequestNotOpen)
          else if now \<ge> rq_deadline record then Some (Inl RequestDeadlinePassed)
          else if n_legs \<noteq> rq_n_legs record then Some (Inl LegCountMismatch)
          else
            (case plan_accept l record expected now of
               None \<Rightarrow> None
             | Some (Inl err) \<Rightarrow> Some (Inl err)
             | Some (Inr (plan, requester_total)) \<Rightarrow> Some
                 (case rq_claim record of
                    None \<Rightarrow> Inl ReservationShortfall
                  | Some claim \<Rightarrow>
                      (case reservation l claim of
                         None \<Rightarrow> Inl ReservationShortfall
                       | Some c \<Rightarrow>
                           if requester_total > res_amount c then Inl ReservationShortfall
                           else
                             let worst_case = unat (rq_n_legs record) * unat (max_quotes_per_leg (e_config e)) + 1
                             in if worst_case \<ge> 2 ^ 64 then Inl E_AmountOverflow
                                else and_then (lift_buffer (eb_headroom b worst_case)) (\<lambda>_.
                                     and_then (build_intent l record plan) (\<lambda>intent.
                                       Inr (record, plan, requester_total, claim, intent)))))))"

definition accept_request ::
  "req_idx \<Rightarrow> expected_fill list \<Rightarrow> u8 \<Rightarrow> ts \<Rightarrow> world \<Rightarrow> outcome_of" where
  "accept_request r expected n_legs now w =
     (let (e, b) = w in
      case check_accept e b r expected n_legs now of
        None \<Rightarrow> None
      | Some (Inl err) \<Rightarrow> Some (Inl err, w)
      | Some (Inr (record, plan, requester_total, claim, intent)) \<Rightarrow>
          (case fold_opt (accept_leg r plan now) [0..<unat (rq_n_legs record)] (e_ledger e, b) of
             None \<Rightarrow> None
           | Some (l1, b1) \<Rightarrow>
               let l2 = cp_commit claim r requester_total l1;
                   deadline = ts_saturating_add now (max_settling_time (e_config e));
                   l3 = request_update r (request_set_state (ReqSettling (nonce_of r) deadline)) l2
               in Some (Inr (), (e\<lparr> e_ledger := l3 \<rparr>,
                    eb_push (SubmitIntent r (nonce_of r) (rq_requester record) intent (rq_n_legs record)) b1))))"

section \<open>PollSettlement\<close>

definition consumed_of :: "ledger \<Rightarrow> req_idx \<Rightarrow> quote_idx list" where
  "consumed_of l r = map fst (filter (\<lambda>(_, q). q_request q = r \<and> q_state q = QuoteConsumed \<and> q_claim q = None)
     (slab_iter (l_quotes l)))"

text \<open>The doomed array holds the first \<open>MAX_LEGS\<close> of them.\<close>

definition close_consumed_quotes :: "req_idx \<Rightarrow> ledger \<Rightarrow> ledger" where
  "close_consumed_quotes r l = fold cp_close_quote (take MAX_LEGS (consumed_of l r)) l"

definition notice :: "res_owner \<Rightarrow> amount \<Rightarrow> (quote_idx \<times> account_idx) option list \<times> nat
    \<Rightarrow> (quote_idx \<times> account_idx) option list \<times> nat" where
  "notice owner amount nc =
     (case owner of
        OwnerRequest _ \<Rightarrow> nc
      | OwnerQuote q \<Rightarrow>
          if snd nc < length (fst nc) then ((fst nc)[snd nc := Some (q, 0)], Suc (snd nc)) else nc)"

definition with_maker :: "ledger \<Rightarrow> quote_idx \<times> account_idx \<Rightarrow> quote_idx \<times> account_idx" where
  "with_maker l entry =
     (case quote l (fst entry) of None \<Rightarrow> entry | Some q \<Rightarrow> (fst entry, q_maker q))"

definition poll_settlement :: "nonce \<Rightarrow> tx_status \<Rightarrow> ts \<Rightarrow> world \<Rightarrow> (engine_error + unit) \<times> world" where
  "poll_settlement reported status now w =
     (let (e, b) = w; l = e_ledger e in
      case resolve_nonce e reported of
        None \<Rightarrow> (Inl StaleNonce, w)
      | Some r \<Rightarrow>
          (case request l r of
             None \<Rightarrow> (Inl UnknownRequest, w)
           | Some record \<Rightarrow>
               (case rq_state record of
                  ReqSettling n deadline \<Rightarrow>
                    if n \<noteq> reported then (Inl StaleNonce, w)
                    else
                      let unresolved =
                            (if now < deadline then (Inr (), w)
                             else if eb_headroom b 1 = Inr ()
                             then (Inr (), (e, eb_push (SettlementStalled r n status) b))
                             else (Inl EventBufferFull, w))
                      in (case status of
                            TxUnknown \<Rightarrow> unresolved
                          | TxPending \<Rightarrow> unresolved
                          | TxSettled \<Rightarrow>
                              if eb_headroom b 1 \<noteq> Inr () then (Inl EventBufferFull, w)
                              else
                                let l1 = fst (discharge_committed r (\<lambda>_ _ u. u) (l, ()));
                                    l2 = request_update r (request_set_state ReqEscrowed) l1;
                                    l3 = close_consumed_quotes r l2
                                in (Inr (), (e\<lparr> e_ledger := l3 \<rparr>, eb_push (RequestEscrowed r n) b))
                          | TxReverted \<Rightarrow>
                              let worst_case = unat (rq_n_legs record) + 1
                              in if eb_headroom b worst_case \<noteq> Inr () then (Inl EventBufferFull, w)
                                 else
                                   let (l1, nc) = discharge_committed r notice (l, (replicate MAX_LEGS None, 0));
                                       notices = map (with_maker l1) (somes (fst nc));
                                       b1 = foldl (\<lambda>b (q, maker). eb_push (QuoteRejected q maker SettlementFailed) b) b notices;
                                       l2 = close_consumed_quotes r l1;
                                       l3 = request_update r (request_set_state ReqSettlementFailed) l2
                                   in (Inr (), (e\<lparr> e_ledger := l3 \<rparr>, eb_push (RequestSettlementFailed r n) b1)))
                | _ \<Rightarrow> (Inl RequestNotSettling, w))))"

section \<open>Resolution\<close>

definition report_oracle_status :: "contract_idx \<Rightarrow> oracle_status \<Rightarrow> world \<Rightarrow> (engine_error + unit) \<times> world" where
  "report_oracle_status c status w =
     (let (e, b) = w in
      case contract_at (e_ledger e) c of
        None \<Rightarrow> (Inl E_UnknownContract, w)
      | Some record \<Rightarrow>
          if \<not> may_report record status then (Inl OracleStatusRegression, w)
          else
            let needed = (case status of Final _ \<Rightarrow> 1 | _ \<Rightarrow> 0)
            in if eb_headroom b needed \<noteq> Inr () then (Inl EventBufferFull, w)
               else (Inr (), (upd_ledger (Ledger.set_oracle_status c status) e,
                              (case status of Final out \<Rightarrow> eb_push (ContractResolved c out) b | _ \<Rightarrow> b))))"

definition settle_escrow :: "escrow_id \<Rightarrow> contract_idx \<Rightarrow> ts \<Rightarrow> world \<Rightarrow> (engine_error + unit) \<times> world" where
  "settle_escrow escrow c now w =
     (let (e, b) = w in
      case contract_at (e_ledger e) c of
        None \<Rightarrow> (Inl E_UnknownContract, w)
      | Some record \<Rightarrow>
          (case contract_outcome record now (stall_grace (e_config e)) of
             Inl _ \<Rightarrow> (Inl OutcomeNotYet, w)
           | Inr out \<Rightarrow>
               if eb_headroom b 1 \<noteq> Inr () then (Inl EventBufferFull, w)
               else (Inr (), (e, eb_push (SettleIntent escrow c out) b))))"

section \<open>One command\<close>

definition lift_ledger_op ::
  "(ledger \<Rightarrow> (ledger_error + unit) \<times> ledger) \<Rightarrow> world \<Rightarrow> (engine_error + unit) \<times> world" where
  "lift_ledger_op f w =
     (let (res, l) = f (e_ledger (fst w)) in (lift_ledger res, ((fst w)\<lparr> e_ledger := l \<rparr>, snd w)))"

definition dispatch :: "command \<Rightarrow> ts \<Rightarrow> world \<Rightarrow> outcome_of" where
  "dispatch c now w =
     (case c of
        CreditAccount a free \<Rightarrow> Some (lift_ledger_op (\<lambda>l. apply_mirror_update l a free) w)
      | RegisterContract k event_date \<Rightarrow> Some (lift_ledger_op (\<lambda>l. register_contract l k event_date) w)
      | SubmitRequest requester deadline legs n_legs \<Rightarrow> submit_request requester deadline legs n_legs now w
      | RejectRequest r \<Rightarrow> reject_request r now w
      | SubmitQuote maker r lid p sz expires_at \<Rightarrow> submit_quote maker r lid p sz expires_at now w
      | CancelQuote q \<Rightarrow>
          Some (Inl (if quote (e_ledger (fst w)) q = None then UnknownQuote else QuotesAreIrrevocable), w)
      | AcceptRequest r expected n_legs \<Rightarrow> accept_request r expected n_legs now w
      | PollSettlement n status \<Rightarrow> Some (poll_settlement n status now w)
      | ReportOracleStatus k status \<Rightarrow> Some (report_oracle_status k status w)
      | SettleEscrow escrow k \<Rightarrow> Some (settle_escrow escrow k now w))"

definition normalised :: "command \<Rightarrow> ts \<Rightarrow> engine \<Rightarrow> engine" where
  "normalised c now e = fold (normalise now) (somes (touched_accounts e c)) e"

definition engine_apply :: "command \<Rightarrow> ts \<Rightarrow> world \<Rightarrow> outcome_of" where
  "engine_apply c now w = dispatch c now (normalised c now (fst w), snd w)"

end
