(* ===== verification/Leg_Chain.thy ===== *)
theory Leg_Chain
  imports Engine
begin

text \<open>
  The chain of quotes of a leg: the list of handles reached from the leg's head over
  \<open>next_on_leg\<close>. On a chain the walks of \<open>crates/core/src/selection.rs\<close> and the unlink of
  \<open>crates/core/src/engine.rs\<close> return, and compute a fold, a search and the removal of a list
  element. From it follows what the selection rule promises: the eligible quote least in price and
  then in arrival, and the reason why there is none.
\<close>

section \<open>Chains\<close>

type_synonym quote_map = "quote_idx \<Rightarrow> quote option"

fun leg_chain :: "quote_map \<Rightarrow> link \<Rightarrow> quote_idx list \<Rightarrow> bool" where
  "leg_chain qt s [] \<longleftrightarrow> s = NIL"
| "leg_chain qt s (h # hs) \<longleftrightarrow> s = h_index h \<and> s \<noteq> NIL \<and>
     (\<exists>q. qt h = Some q \<and> leg_chain qt (q_next_on_leg q) hs)"

definition index_inj :: "quote_map \<Rightarrow> bool" where
  "index_inj qt \<longleftrightarrow> (\<forall>h h'. qt h \<noteq> None \<longrightarrow> qt h' \<noteq> None \<longrightarrow> h_index h = h_index h' \<longrightarrow> h = h')"

lemma index_injD: "index_inj qt \<Longrightarrow> qt h = Some q \<Longrightarrow> qt h' = Some q' \<Longrightarrow> h_index h = h_index h' \<Longrightarrow> h = h'"
  unfolding index_inj_def by blast

lemma quote_Some_iff:
  "quote l h = Some q \<longleftrightarrow> slab_view (l_quotes l) (h_index h) = Some (h_generation h, q)"
  by (simp add: quote_def slab_get_Some_iff)

lemma quote_index_inj [simp]: "index_inj (quote l)"
  by (auto simp: index_inj_def quote_Some_iff)

lemma quote_handle_at_index: "quote l h = Some q \<Longrightarrow> quote_handle_at l (h_index h) = Some h"
  by (simp add: quote_handle_at_def quote_Some_iff slab_handle_at_Some_iff slab_handle_at_view)

lemma leg_chain_members: "leg_chain qt s hs \<Longrightarrow> h \<in> set hs \<Longrightarrow> \<exists>q. qt h = Some q"
  by (induction qt s hs rule: leg_chain.induct) auto

lemma leg_chain_frame:
  "leg_chain qt s hs \<Longrightarrow>
     (\<And>h q. h \<in> set hs \<Longrightarrow> qt h = Some q \<Longrightarrow> \<exists>q'. qt' h = Some q' \<and> q_next_on_leg q' = q_next_on_leg q) \<Longrightarrow>
     leg_chain qt' s hs"
proof (induction qt s hs rule: leg_chain.induct)
  case (2 qt s h hs)
  then obtain q where q: "s = h_index h" "s \<noteq> NIL" "qt h = Some q" "leg_chain qt (q_next_on_leg q) hs" by auto
  moreover from 2(3)[OF _ q(3)] obtain q' where "qt' h = Some q'" "q_next_on_leg q' = q_next_on_leg q" by auto
  moreover have "leg_chain qt' (q_next_on_leg q) hs" by (rule 2(1)[OF q(4)]) (use 2(3) in auto)
  ultimately show ?case by auto
qed simp

lemma leg_chain_unique: "index_inj qt \<Longrightarrow> leg_chain qt s hs \<Longrightarrow> leg_chain qt s hs' \<Longrightarrow> hs = hs'"
proof (induction qt s hs arbitrary: hs' rule: leg_chain.induct)
  case (1 qt s)
  then show ?case by (cases hs') auto
next
  case (2 qt s h hs)
  then obtain q where q: "s = h_index h" "s \<noteq> NIL" "qt h = Some q" "leg_chain qt (q_next_on_leg q) hs" by auto
  with 2(4) obtain h' ys where hs': "hs' = h' # ys" by (cases hs') auto
  with 2(4) obtain q' where q': "s = h_index h'" "qt h' = Some q'" "leg_chain qt (q_next_on_leg q') ys" by auto
  have "h = h'" using index_injD[OF 2(2) q(3) q'(2)] q(1) q'(1) by simp
  with q q' hs' 2(1)[OF 2(2) q(4)] show ?case by simp
qed

lemma leg_chain_append:
  "leg_chain qt s (xs @ h # ys) \<Longrightarrow> leg_chain qt (h_index h) (h # ys)"
  by (induction xs arbitrary: s) auto

lemma leg_chain_distinct: "index_inj qt \<Longrightarrow> leg_chain qt s hs \<Longrightarrow> distinct hs"
proof (induction qt s hs rule: leg_chain.induct)
  case (2 qt s h hs)
  then obtain q where q: "s = h_index h" "leg_chain qt (q_next_on_leg q) hs" "qt h = Some q" by auto
  have "h \<notin> set hs"
  proof
    assume "h \<in> set hs"
    then obtain xs ys where hs: "hs = xs @ h # ys" by (auto simp: in_set_conv_decomp)
    have "leg_chain qt s (h # ys)" using leg_chain_append[of qt "q_next_on_leg q" xs h ys] q(1,2) hs by simp
    from leg_chain_unique[OF 2(2,3) this] hs show False by simp
  qed
  with 2(1)[OF 2(2) q(2)] show ?case by simp
qed simp

section \<open>Walks over a chain\<close>

lemma link_index_chain: "s \<noteq> NIL \<Longrightarrow> link_index s = Some s"
  by (simp add: link_index_def)

lemma best_walk_chain:
  "leg_chain (quote l) s hs \<Longrightarrow>
     best_walk l leg now s st = Some (fold (\<lambda>h. scan_quote leg now h (the (quote l h))) hs st)"
  by (induction "quote l" s hs arbitrary: st rule: leg_chain.induct)
    (auto simp: best_walk.simps[of l leg now "h_index h" for h] best_walk.simps[of l leg now NIL]
      link_index_chain quote_handle_at_index link_index_def[of NIL])

definition standing_in :: "quote_map \<Rightarrow> account_idx \<Rightarrow> quote_idx \<Rightarrow> bool" where
  "standing_in qt maker h \<longleftrightarrow> (\<exists>q. qt h = Some q \<and> q_maker q = maker \<and> q_state q = QuoteActive)"

lemma standing_walk_chain:
  "leg_chain (quote l) s hs \<Longrightarrow> standing_walk l maker s = Some (find (standing_in (quote l) maker) hs)"
  by (induction "quote l" s hs rule: leg_chain.induct)
    (auto simp: standing_walk.simps[of l maker "h_index h" for h] standing_walk.simps[of l maker NIL]
      link_index_chain quote_handle_at_index link_index_def[of NIL] standing_in_def)

lemma leg_walk_chain:
  "leg_chain (quote l) s hs \<Longrightarrow> leg_walk l visit s st = Some (fold visit hs st)"
  by (induction "quote l" s hs arbitrary: st rule: leg_chain.induct)
    (auto simp: leg_walk.simps[of l visit "h_index h" for h] leg_walk.simps[of l visit NIL]
      link_index_chain quote_handle_at_index link_index_def[of NIL])

section \<open>The best eligible quote\<close>

definition eligible :: "leg \<Rightarrow> ts \<Rightarrow> quote \<Rightarrow> bool" where
  "eligible leg now q \<longleftrightarrow> quote_is_live_at q now \<and> leg_size leg \<le> q_size q \<and> q_price q \<le> leg_limit leg"

text \<open>Price first, then arrival.\<close>

definition ranks_before :: "quote \<Rightarrow> quote \<Rightarrow> bool" where
  "ranks_before q q' \<longleftrightarrow> q_price q < q_price q' \<or> q_price q = q_price q' \<and> q_arrival q \<le> q_arrival q'"

lemma ranks_before_refl [simp]: "ranks_before q q"
  by (simp add: ranks_before_def)

lemma ranks_before_trans: "ranks_before a b \<Longrightarrow> ranks_before b c \<Longrightarrow> ranks_before a c"
  by (auto simp: ranks_before_def)

text \<open>What the scan knows after the quotes \<open>qs\<close>.\<close>

definition scan_knows :: "leg \<Rightarrow> ts \<Rightarrow> (quote_idx \<times> quote) list \<Rightarrow> scan \<Rightarrow> bool" where
  "scan_knows leg now qs s \<longleftrightarrow>
     (sc_saw_quote s \<longleftrightarrow> qs \<noteq> []) \<and>
     (sc_saw_live s \<longleftrightarrow> (\<exists>(h, q) \<in> set qs. quote_is_live_at q now)) \<and>
     (sc_saw_big_enough s \<longleftrightarrow> (\<exists>(h, q) \<in> set qs. quote_is_live_at q now \<and> leg_size leg \<le> q_size q)) \<and>
     (case sc_best s of
        None \<Rightarrow> \<forall>(h, q) \<in> set qs. \<not> eligible leg now q
      | Some b \<Rightarrow> \<exists>q. (sel_quote b, q) \<in> set qs \<and> eligible leg now q \<and> sel_price b = q_price q \<and>
          sc_best_arrival s = q_arrival q \<and> (\<forall>(h', q') \<in> set qs. eligible leg now q' \<longrightarrow> ranks_before q q'))"

lemma scan_knows_start: "scan_knows leg now [] scan_start"
  by (simp add: scan_knows_def scan_start_def)

lemma scan_fields:
  "sc_saw_quote (scan_quote leg now h q s)"
  "sc_saw_live (scan_quote leg now h q s) \<longleftrightarrow> sc_saw_live s \<or> quote_is_live_at q now"
  "sc_saw_big_enough (scan_quote leg now h q s) \<longleftrightarrow>
     sc_saw_big_enough s \<or> quote_is_live_at q now \<and> leg_size leg \<le> q_size q"
  "\<not> eligible leg now q \<Longrightarrow> sc_best (scan_quote leg now h q s) = sc_best s \<and>
     sc_best_arrival (scan_quote leg now h q s) = sc_best_arrival s"
  by (auto simp: scan_quote_def Let_def eligible_def split: option.split)

lemma scan_eligible:
  "eligible leg now q \<Longrightarrow> sc_best s = None \<or> (\<exists>b. sc_best s = Some b \<and>
      (q_price q < sel_price b \<or> q_price q = sel_price b \<and> q_arrival q < sc_best_arrival s)) \<Longrightarrow>
     sc_best (scan_quote leg now h q s) = Some \<lparr> sel_quote = h, sel_price = q_price q \<rparr> \<and>
     sc_best_arrival (scan_quote leg now h q s) = q_arrival q"
  by (auto simp: scan_quote_def Let_def eligible_def)

lemma scan_worse:
  "sc_best s = Some b \<Longrightarrow> \<not> (q_price q < sel_price b \<or> q_price q = sel_price b \<and> q_arrival q < sc_best_arrival s) \<Longrightarrow>
     sc_best (scan_quote leg now h q s) = Some b \<and> sc_best_arrival (scan_quote leg now h q s) = sc_best_arrival s"
  by (auto simp: scan_quote_def Let_def eligible_def)

lemma scan_knows_step:
  assumes k: "scan_knows leg now qs s"
  shows "scan_knows leg now (qs @ [(h, q)]) (scan_quote leg now h q s)"
proof (cases "eligible leg now q")
  case False
  then show ?thesis using k scan_fields(4)[OF False, of h s]
    by (auto simp: scan_knows_def scan_fields(1-3) split: option.splits)
next
  case True
  show ?thesis
  proof (cases "sc_best s")
    case None
    then show ?thesis using k scan_eligible[OF True, of s h] True
      by (auto simp: scan_knows_def scan_fields(1-3) split: option.splits)
  next
    case (Some b)
    then obtain q0 where q0: "(sel_quote b, q0) \<in> set qs" "eligible leg now q0" "sel_price b = q_price q0"
        "sc_best_arrival s = q_arrival q0" "\<forall>(h', q') \<in> set qs. eligible leg now q' \<longrightarrow> ranks_before q0 q'"
      using k by (auto simp: scan_knows_def)
    show ?thesis
    proof (cases "q_price q < sel_price b \<or> q_price q = sel_price b \<and> q_arrival q < sc_best_arrival s")
      case better: True
      then have "ranks_before q q0" using q0(3,4) by (auto simp: ranks_before_def)
      then have "\<forall>(h', q') \<in> set qs. eligible leg now q' \<longrightarrow> ranks_before q q'"
        using q0(5) ranks_before_trans by blast
      with k Some True better show ?thesis using scan_eligible[OF True, of s h]
        by (auto simp: scan_knows_def scan_fields(1-3))
    next
      case worse: False
      then have "ranks_before q0 q" using q0(3,4) by (auto simp: ranks_before_def)
      with k Some True q0 show ?thesis using scan_worse[OF Some worse, of leg now h]
        by (auto simp: scan_knows_def scan_fields(1-3) intro!: exI[of _ q0])
    qed
  qed
qed

lemma scan_knows_fold:
  "scan_knows leg now qs s \<Longrightarrow>
     scan_knows leg now (qs @ map (\<lambda>h. (h, f h)) hs) (fold (\<lambda>h. scan_quote leg now h (f h)) hs s)"
proof (induction hs arbitrary: qs s)
  case (Cons h hs)
  from Cons.IH[OF scan_knows_step[OF Cons.prems, of h "f h"]] show ?case by simp
qed simp

text \<open>The quotes reached from a leg's head, with their records.\<close>

definition is_best :: "quote_map \<Rightarrow> leg \<Rightarrow> ts \<Rightarrow> quote_idx list \<Rightarrow> selection \<Rightarrow> bool" where
  "is_best qt leg now hs b \<longleftrightarrow> (\<exists>q. sel_quote b \<in> set hs \<and> qt (sel_quote b) = Some q \<and> eligible leg now q \<and>
     sel_price b = q_price q \<and> (\<forall>h' \<in> set hs. \<forall>q'. qt h' = Some q' \<longrightarrow> eligible leg now q' \<longrightarrow> ranks_before q q'))"

definition no_quote_because :: "quote_map \<Rightarrow> leg \<Rightarrow> ts \<Rightarrow> quote_idx list \<Rightarrow> no_quote_reason" where
  "no_quote_because qt leg now hs =
     (if hs = [] then NoQuotes
      else if \<forall>h \<in> set hs. \<forall>q. qt h = Some q \<longrightarrow> \<not> quote_is_live_at q now then AllExpired
      else if \<exists>h \<in> set hs. \<exists>q. qt h = Some q \<and> quote_is_live_at q now \<and> leg_size leg \<le> q_size q then OutsideLimit
      else SizeTooSmall)"

lemma chain_records:
  assumes "leg_chain qt s hs"
  shows "(h, q) \<in> set (map (\<lambda>h. (h, the (qt h))) hs) \<longleftrightarrow> h \<in> set hs \<and> qt h = Some q"
  using leg_chain_members[OF assms] by force

lemma best_on_leg_chain:
  assumes chain: "leg_chain (quote l) (leg_quotes_head leg) hs"
  shows "\<exists>res. best_on_leg l leg now = Some res \<and>
    (case res of
       Inr b \<Rightarrow> is_best (quote l) leg now hs b
     | Inl why \<Rightarrow> (\<forall>h \<in> set hs. \<forall>q. quote l h = Some q \<longrightarrow> \<not> eligible leg now q) \<and>
         why = no_quote_because (quote l) leg now hs)"
proof -
  let ?qs = "map (\<lambda>h. (h, the (quote l h))) hs"
  let ?s = "fold (\<lambda>h. scan_quote leg now h (the (quote l h))) hs scan_start"
  have k: "scan_knows leg now ?qs ?s"
    using scan_knows_fold[OF scan_knows_start, of leg now "\<lambda>h. the (quote l h)" hs] by simp
  have b: "best_on_leg l leg now = Some (scan_result ?s)"
    by (simp add: best_on_leg_def best_walk_chain[OF chain])
  have ex: "(\<exists>(h, q) \<in> set ?qs. P q) \<longleftrightarrow> (\<exists>h \<in> set hs. \<exists>q. quote l h = Some q \<and> P q)" for P
    using chain_records[OF chain] by (auto simp del: set_map)
  have all: "(\<forall>(h, q) \<in> set ?qs. P q) \<longleftrightarrow> (\<forall>h \<in> set hs. \<forall>q. quote l h = Some q \<longrightarrow> P q)" for P
    using chain_records[OF chain] unfolding Ball_def by (auto simp del: set_map)
  show ?thesis
  proof (cases "sc_best ?s")
    case None
    with k all[of "\<lambda>q. \<not> eligible leg now q"] have "\<forall>h \<in> set hs. \<forall>q. quote l h = Some q \<longrightarrow> \<not> eligible leg now q"
      unfolding scan_knows_def by simp
    moreover have "scan_result ?s = Inl (no_quote_because (quote l) leg now hs)"
      using None k ex[of "\<lambda>q. quote_is_live_at q now"]
        ex[of "\<lambda>q. quote_is_live_at q now \<and> leg_size leg \<le> q_size q"]
      unfolding scan_knows_def by (auto simp: scan_result_def no_quote_because_def)
    ultimately show ?thesis using b by simp
  next
    case (Some x)
    with k obtain q where q: "(sel_quote x, q) \<in> set ?qs" "eligible leg now q" "sel_price x = q_price q"
        "\<forall>(h', q') \<in> set ?qs. eligible leg now q' \<longrightarrow> ranks_before q q'"
      unfolding scan_knows_def by auto
    with all[of "\<lambda>q'. eligible leg now q' \<longrightarrow> ranks_before q q'"] chain_records[OF chain, of "sel_quote x" q]
    have "is_best (quote l) leg now hs x" by (auto simp: is_best_def)
    then show ?thesis using b Some by (simp add: scan_result_def)
  qed
qed

end
