(* ===== verification/Market_Inv.thy ===== *)
theory Market_Inv
  imports Leg_Chain
begin

text \<open>
  The invariant of the engine of \<open>crates/core/src/engine.rs\<close> over its ledger: what ties quotes,
  requests, legs and claims together. It is stated over the records without their intrusive links
  (the chains are a component of their own), so that a surgery on the links changes nothing else.
\<close>

section \<open>Records without their links\<close>

definition bare_quote :: "quote \<Rightarrow> quote" where
  "bare_quote q = q\<lparr> q_next_on_leg := NIL \<rparr>"

definition bare_leg :: "leg \<Rightarrow> leg" where
  "bare_leg leg = leg\<lparr> leg_quotes_head := NIL, leg_quote_count := 0 \<rparr>"

definition bare_request :: "request \<Rightarrow> request" where
  "bare_request r = r\<lparr> rq_legs := map bare_leg (rq_legs r), rq_committed_head := NIL \<rparr>"

type_synonym request_map = "req_idx \<Rightarrow> request option"

definition quotes_of :: "ledger \<Rightarrow> quote_map" where
  "quotes_of l h = map_option bare_quote (quote l h)"

definition requests_of :: "ledger \<Rightarrow> request_map" where
  "requests_of l r = map_option bare_request (request l r)"

lemma bare_quote_fields [simp]:
  "q_maker (bare_quote q) = q_maker q" "q_request (bare_quote q) = q_request q" "q_leg (bare_quote q) = q_leg q"
  "q_price (bare_quote q) = q_price q" "q_size (bare_quote q) = q_size q" "q_expires_at (bare_quote q) = q_expires_at q"
  "q_arrival (bare_quote q) = q_arrival q" "q_state (bare_quote q) = q_state q" "q_claim (bare_quote q) = q_claim q"
  by (simp_all add: bare_quote_def)

lemma bare_leg_fields [simp]:
  "leg_contract (bare_leg g) = leg_contract g" "leg_side (bare_leg g) = leg_side g" "leg_size (bare_leg g) = leg_size g"
  "leg_limit (bare_leg g) = leg_limit g" "leg_published (bare_leg g) = leg_published g"
  by (simp_all add: bare_leg_def)

lemma bare_request_fields [simp]:
  "rq_requester (bare_request r) = rq_requester r" "rq_deadline (bare_request r) = rq_deadline r"
  "rq_state (bare_request r) = rq_state r" "rq_n_legs (bare_request r) = rq_n_legs r"
  "rq_claim (bare_request r) = rq_claim r" "length (rq_legs (bare_request r)) = length (rq_legs r)"
  by (simp_all add: bare_request_def)

lemma bare_request_legs [simp]: "request_legs (bare_request r) = map bare_leg (request_legs r)"
  by (simp add: request_legs_def bare_request_def take_map)

lemma bare_request_leg [simp]: "request_leg (bare_request r) lid = map_option bare_leg (request_leg r lid)"
  by (simp add: request_leg_def nth_opt_def)

lemma bare_setters [simp]:
  "bare_quote (quote_set_claim c q) = quote_set_claim c (bare_quote q)"
  "bare_quote (quote_set_state s q) = quote_set_state s (bare_quote q)"
  "bare_quote (quote_set_next n q) = bare_quote q"
  "bare_request (request_set_claim c r) = request_set_claim c (bare_request r)"
  "bare_request (request_set_state st r) = request_set_state st (bare_request r)"
  "bare_request (request_set_head n r) = bare_request r"
  by (simp_all add: bare_quote_def bare_request_def record_setters)

lemma bare_request_update_links:
  "(\<And>g. bare_leg (f g) = bare_leg g) \<Longrightarrow> bare_request (request_leg_update lid f r) = bare_request r"
  by (auto simp: bare_request_def request_leg_update_def nth_opt_def map_update list_update_same_conv
      split: option.split)

section \<open>The parts of the invariant\<close>

definition quotes_at :: "quote_map \<Rightarrow> req_idx \<Rightarrow> leg_id \<Rightarrow> quote_idx set" where
  "quotes_at qt r lid = {h. \<exists>q. qt h = Some q \<and> q_request q = r \<and> q_leg q = lid}"

definition is_settling :: "request_state \<Rightarrow> bool" where
  "is_settling st \<longleftrightarrow> (\<exists>n d. st = ReqSettling n d)"

text \<open>
  The chain of every leg of a running request holds exactly the quotes of the leg, and the stored
  count is its length.
\<close>

definition chain_at :: "u8 \<Rightarrow> quote_map \<Rightarrow> req_idx \<Rightarrow> leg_id \<Rightarrow> leg \<Rightarrow> quote_idx list \<Rightarrow> bool" where
  "chain_at mq qt r lid leg hs \<longleftrightarrow> leg_chain qt (leg_quotes_head leg) hs \<and> set hs = quotes_at qt r lid \<and>
     unat (leg_quote_count leg) = length hs \<and> length hs \<le> unat mq"

definition chains_ok :: "u8 \<Rightarrow> request_map \<Rightarrow> quote_map \<Rightarrow> bool" where
  "chains_ok mq rq qt \<longleftrightarrow> (\<forall>r rec lid leg. rq r = Some rec \<longrightarrow> \<not> request_state_is_terminal (rq_state rec) \<longrightarrow>
     request_leg rec lid = Some leg \<longrightarrow> (\<exists>hs. chain_at mq qt r lid leg hs))"

text \<open>
  \<open>t\<close> is an instant up to which claims may have expired; \<open>S\<close> is the request whose acceptance is
  under way, when one is.
\<close>

definition quote_ok :: "ts \<Rightarrow> req_idx option \<Rightarrow> request_map \<Rightarrow> quote \<Rightarrow> bool" where
  "quote_ok t S rq q \<longleftrightarrow> (\<exists>rec leg. rq (q_request q) = Some rec \<and> request_leg rec (q_leg q) = Some leg \<and>
     leg_size leg \<le> q_size q \<and> q_price q \<le> UNIT \<and>
     (case q_state q of
        QuoteActive \<Rightarrow> rq_state rec = ReqOpen \<and> (q_claim q = None \<longrightarrow> q_expires_at q \<le> t)
      | QuoteConsumed \<Rightarrow> q_claim q \<noteq> None \<and> (S = Some (q_request q) \<or> is_settling (rq_state rec))
      | QuoteReleased \<Rightarrow> False))"

definition quotes_ok :: "ts \<Rightarrow> req_idx option \<Rightarrow> request_map \<Rightarrow> quote_map \<Rightarrow> bool" where
  "quotes_ok t S rq qt \<longleftrightarrow> (\<forall>h q. qt h = Some q \<longrightarrow> quote_ok t S rq q)"

definition leg_ok :: "config \<Rightarrow> (contract_idx \<Rightarrow> contract option) \<Rightarrow> ts \<Rightarrow> leg \<Rightarrow> bool" where
  "leg_ok cfg ct deadline leg \<longleftrightarrow> leg_size leg \<noteq> 0 \<and> leg_limit leg \<le> UNIT \<and>
     (\<forall>p. leg_published leg = Some p \<longrightarrow> p \<le> leg_limit leg) \<and>
     (\<exists>c. ct (leg_contract leg) = Some c \<and>
        unat deadline + unat (max_settling_time cfg) < unat (c_event_date c))"

definition request_static :: "config \<Rightarrow> (contract_idx \<Rightarrow> contract option) \<Rightarrow> request \<Rightarrow> bool" where
  "request_static cfg ct rec \<longleftrightarrow> length (rq_legs rec) = MAX_LEGS \<and> 0 < rq_n_legs rec \<and>
     unat (rq_n_legs rec) \<le> MAX_LEGS \<and> rq_n_legs rec \<le> max_legs cfg \<and>
     (\<forall>lid leg. request_leg rec lid = Some leg \<longrightarrow> leg_ok cfg ct (rq_deadline rec) leg)"

definition unquoted :: "quote_map \<Rightarrow> req_idx \<Rightarrow> bool" where
  "unquoted qt r \<longleftrightarrow> (\<forall>h q. qt h = Some q \<longrightarrow> q_request q \<noteq> r)"

definition request_status :: "config \<Rightarrow> ts \<Rightarrow> quote_map \<Rightarrow> req_idx \<Rightarrow> request \<Rightarrow> bool" where
  "request_status cfg t qt r rec \<longleftrightarrow>
     (case rq_state rec of
        ReqOpen \<Rightarrow> rq_claim rec = None \<longrightarrow> rq_deadline rec \<le> t
      | ReqSettling n d \<Rightarrow> n = nonce_of r \<and> rq_claim rec \<noteq> None \<and>
          unat d \<le> unat (rq_deadline rec) + unat (max_settling_time cfg)
      | _ \<Rightarrow> rq_claim rec = None \<and> unquoted qt r)"

definition request_ok ::
  "config \<Rightarrow> ts \<Rightarrow> (contract_idx \<Rightarrow> contract option) \<Rightarrow> quote_map \<Rightarrow> req_idx \<Rightarrow> request \<Rightarrow> bool" where
  "request_ok cfg t ct qt r rec \<longleftrightarrow> request_static cfg ct rec \<and> request_status cfg t qt r rec"

definition requests_ok ::
  "config \<Rightarrow> ts \<Rightarrow> (contract_idx \<Rightarrow> contract option) \<Rightarrow> request_map \<Rightarrow> quote_map \<Rightarrow> bool" where
  "requests_ok cfg t ct rq qt \<longleftrightarrow> (\<forall>r rec. rq r = Some rec \<longrightarrow> request_ok cfg t ct qt r rec)"

text \<open>A maker has one quote on a leg, and a consumed quote is the only one of its leg.\<close>

definition unique_ok :: "quote_map \<Rightarrow> bool" where
  "unique_ok qt \<longleftrightarrow> (\<forall>h h' q q'. qt h = Some q \<longrightarrow> qt h' = Some q' \<longrightarrow> q_request q = q_request q' \<longrightarrow>
     q_leg q = q_leg q' \<longrightarrow> q_maker q = q_maker q' \<or> q_state q = QuoteConsumed \<longrightarrow> h = h')"

text \<open>The requester's worst case over the legs, and its exact price at the winners.\<close>

definition worst_case :: "request \<Rightarrow> nat" where
  "worst_case rec = (\<Sum>k<unat (rq_n_legs rec). unat (leg_size (rq_legs rec ! k)) * unat (leg_limit (rq_legs rec ! k)))"

definition filled :: "quote_map \<Rightarrow> req_idx \<Rightarrow> request \<Rightarrow> amount \<Rightarrow> bool" where
  "filled qt r rec m \<longleftrightarrow> (\<exists>fill. unat m = (\<Sum>k<unat (rq_n_legs rec). unat (leg_size (rq_legs rec ! k)) * unat (fill k :: price)) \<and>
     (\<forall>k<unat (rq_n_legs rec). \<exists>h q. qt h = Some q \<and> q_request q = r \<and> q_leg q = word_of_nat k \<and>
        q_price q = fill k \<and> q_state q = QuoteConsumed))"

definition claim_ok ::
  "request_map \<Rightarrow> quote_map \<Rightarrow> account_idx \<Rightarrow> amount \<Rightarrow> res_owner \<Rightarrow> claim_kind \<Rightarrow> bool" where
  "claim_ok rq qt a m ow k \<longleftrightarrow>
     (case ow of
        OwnerQuote h \<Rightarrow> \<exists>q rec leg. qt h = Some q \<and> rq (q_request q) = Some rec \<and>
          request_leg rec (q_leg q) = Some leg \<and> a = q_maker q \<and>
          maker_contribution (leg_size leg) (q_price q) = Some m \<and>
          (case k of OnExpiry e \<Rightarrow> e = q_expires_at q \<and> q_state q = QuoteActive
           | OnCommitted r \<Rightarrow> r = q_request q \<and> q_state q = QuoteConsumed)
      | OwnerRequest r \<Rightarrow> \<exists>rec. rq r = Some rec \<and> a = rq_requester rec \<and>
          (case k of OnExpiry e \<Rightarrow> e = rq_deadline rec \<and> rq_state rec = ReqOpen \<and> unat m = worst_case rec
           | OnCommitted r' \<Rightarrow> r' = r \<and> is_settling (rq_state rec) \<and> filled qt r rec m))"

definition claims_ok :: "request_map \<Rightarrow> quote_map \<Rightarrow> claim_map \<Rightarrow> bool" where
  "claims_ok rq qt cl \<longleftrightarrow> (\<forall>i g a m ow k. cl i = Some (g, a, m, ow, k) \<longrightarrow> claim_ok rq qt a m ow k)"

definition market_ok ::
  "config \<Rightarrow> ts \<Rightarrow> req_idx option \<Rightarrow> (contract_idx \<Rightarrow> contract option) \<Rightarrow> request_map \<Rightarrow> quote_map \<Rightarrow> claim_map \<Rightarrow> bool" where
  "market_ok cfg t S ct rq qt cl \<longleftrightarrow> quotes_ok t S rq qt \<and> requests_ok cfg t ct rq qt \<and> unique_ok qt \<and> claims_ok rq qt cl"

definition market_inv :: "config \<Rightarrow> ts \<Rightarrow> req_idx option \<Rightarrow> ledger \<Rightarrow> bool" where
  "market_inv cfg t S l \<longleftrightarrow> ledger_inv l \<and> chains_ok (max_quotes_per_leg cfg) (request l) (quote l) \<and>
     market_ok cfg t S (contract_at l) (requests_of l) (quotes_of l) (claims l)"

lemma market_okD:
  assumes "market_ok cfg t S ct rq qt cl"
  shows "quotes_ok t S rq qt" and "requests_ok cfg t ct rq qt" and "unique_ok qt" and "claims_ok rq qt cl"
  using assms by (simp_all add: market_ok_def)

lemma market_invD:
  assumes "market_inv cfg t S l"
  shows "ledger_inv l" and "chains_ok (max_quotes_per_leg cfg) (request l) (quote l)"
    and "market_ok cfg t S (contract_at l) (requests_of l) (quotes_of l) (claims l)"
  using assms by (simp_all add: market_inv_def)

lemma quote_okD:
  assumes "quotes_ok t S rq qt" and "qt h = Some q"
  obtains rec leg where "rq (q_request q) = Some rec" and "request_leg rec (q_leg q) = Some leg"
    and "leg_size leg \<le> q_size q" and "q_price q \<le> UNIT" and "q_state q \<noteq> QuoteReleased"
    and "q_state q = QuoteActive \<Longrightarrow> rq_state rec = ReqOpen"
    and "q_state q = QuoteActive \<Longrightarrow> q_claim q = None \<Longrightarrow> q_expires_at q \<le> t"
    and "q_state q = QuoteConsumed \<Longrightarrow> q_claim q \<noteq> None \<and> (S = Some (q_request q) \<or> is_settling (rq_state rec))"
proof -
  have "quote_ok t S rq q" using assms unfolding quotes_ok_def by blast
  then obtain rec leg where "rq (q_request q) = Some rec" "request_leg rec (q_leg q) = Some leg"
    "leg_size leg \<le> q_size q" "q_price q \<le> UNIT" and
    "case q_state q of
        QuoteActive \<Rightarrow> rq_state rec = ReqOpen \<and> (q_claim q = None \<longrightarrow> q_expires_at q \<le> t)
      | QuoteConsumed \<Rightarrow> q_claim q \<noteq> None \<and> (S = Some (q_request q) \<or> is_settling (rq_state rec))
      | QuoteReleased \<Rightarrow> False" unfolding quote_ok_def by blast
  then show thesis by (intro that[of rec leg]) (auto split: quote_state.splits)
qed

lemma request_okD: "requests_ok cfg t ct rq qt \<Longrightarrow> rq r = Some rec \<Longrightarrow> request_ok cfg t ct qt r rec"
  unfolding requests_ok_def by blast

lemma request_ok_fields:
  assumes "request_ok cfg t ct qt r rec"
  shows "length (rq_legs rec) = MAX_LEGS" and "0 < rq_n_legs rec" and "unat (rq_n_legs rec) \<le> MAX_LEGS"
    and "request_leg rec lid = Some leg \<Longrightarrow> leg_ok cfg ct (rq_deadline rec) leg"
    and "rq_state rec = ReqOpen \<Longrightarrow> rq_claim rec = None \<Longrightarrow> rq_deadline rec \<le> t"
    and "rq_state rec = ReqSettling n d \<Longrightarrow> n = nonce_of r \<and> rq_claim rec \<noteq> None \<and>
          unat d \<le> unat (rq_deadline rec) + unat (max_settling_time cfg)"
    and "request_state_is_terminal (rq_state rec) \<Longrightarrow> rq_claim rec = None \<and> unquoted qt r"
  using assms unfolding request_ok_def request_static_def request_status_def by (auto split: request_state.splits)

lemma claim_okD: "claims_ok rq qt cl \<Longrightarrow> cl i = Some (g, a, m, ow, k) \<Longrightarrow> claim_ok rq qt a m ow k"
  unfolding claims_ok_def by blast

lemma unique_okD:
  "unique_ok qt \<Longrightarrow> qt h = Some q \<Longrightarrow> qt h' = Some q' \<Longrightarrow> q_request q = q_request q' \<Longrightarrow> q_leg q = q_leg q' \<Longrightarrow>
     q_maker q = q_maker q' \<or> q_state q = QuoteConsumed \<Longrightarrow> h = h'"
  unfolding unique_ok_def by blast

lemma is_settling_simps [simp]:
  "is_settling (ReqSettling n d)" "\<not> is_settling ReqOpen" "\<not> is_settling ReqEscrowed" "\<not> is_settling ReqRejected"
  "\<not> is_settling ReqSettlementFailed"
  by (simp_all add: is_settling_def)

lemma terminal_iff: "request_state_is_terminal st \<longleftrightarrow> st \<noteq> ReqOpen \<and> \<not> is_settling st"
  by (cases st) auto

lemma quote_okI:
  assumes "rq (q_request q) = Some rec" and "request_leg rec (q_leg q) = Some leg"
    and "leg_size leg \<le> q_size q" and "q_price q \<le> UNIT"
    and "q_state q = QuoteActive \<and> rq_state rec = ReqOpen \<and> (q_claim q = None \<longrightarrow> q_expires_at q \<le> t) \<or>
         q_state q = QuoteConsumed \<and> q_claim q \<noteq> None \<and> (S = Some (q_request q) \<or> is_settling (rq_state rec))"
  shows "quote_ok t S rq q"
  using assms unfolding quote_ok_def by auto

lemma static_setters [simp]:
  "request_static cfg ct (request_set_claim c rec) = request_static cfg ct rec"
  "request_static cfg ct (request_set_state st rec) = request_static cfg ct rec"
  by (simp_all add: request_static_def claim_simps request_leg_def request_legs_def)

section \<open>Records without their claims\<close>

definition no_claim_q :: "quote_map \<Rightarrow> quote_map" where
  "no_claim_q qt = (\<lambda>h. map_option (quote_set_claim None) (qt h))"

definition no_claim_r :: "request_map \<Rightarrow> request_map" where
  "no_claim_r rq = (\<lambda>r. map_option (request_set_claim None) (rq r))"

lemma no_claim_q_Some: "no_claim_q qt h = Some q' \<longleftrightarrow> (\<exists>q. qt h = Some q \<and> q' = quote_set_claim None q)"
  by (auto simp: no_claim_q_def)

lemma no_claim_r_Some: "no_claim_r rq h = Some q' \<longleftrightarrow> (\<exists>q. rq h = Some q \<and> q' = request_set_claim None q)"
  by (auto simp: no_claim_r_def)

lemma set_claim_fields [simp]:
  "q_maker (quote_set_claim c q) = q_maker q" "q_request (quote_set_claim c q) = q_request q"
  "q_leg (quote_set_claim c q) = q_leg q" "q_price (quote_set_claim c q) = q_price q"
  "q_size (quote_set_claim c q) = q_size q" "q_expires_at (quote_set_claim c q) = q_expires_at q"
  "q_state (quote_set_claim c q) = q_state q" "q_claim (quote_set_claim c q) = c"
  "q_arrival (quote_set_claim c q) = q_arrival q"
  "q_next_on_leg (quote_set_claim c q) = q_next_on_leg q"
  "rq_requester (request_set_claim c r) = rq_requester r" "rq_deadline (request_set_claim c r) = rq_deadline r"
  "rq_state (request_set_claim c r) = rq_state r" "rq_n_legs (request_set_claim c r) = rq_n_legs r"
  "rq_legs (request_set_claim c r) = rq_legs r" "rq_claim (request_set_claim c r) = c"
  "request_leg (request_set_claim c r) lid = request_leg r lid"
  by (simp_all add: record_setters request_leg_def request_legs_def)

lemma set_state_fields [simp]:
  "q_maker (quote_set_state c q) = q_maker q" "q_request (quote_set_state c q) = q_request q"
  "q_leg (quote_set_state c q) = q_leg q" "q_price (quote_set_state c q) = q_price q"
  "q_size (quote_set_state c q) = q_size q" "q_expires_at (quote_set_state c q) = q_expires_at q"
  "q_state (quote_set_state c q) = c" "q_claim (quote_set_state c q) = q_claim q"
  "q_arrival (quote_set_state c q) = q_arrival q"
  "q_next_on_leg (quote_set_state c q) = q_next_on_leg q"
  "rq_requester (request_set_state st r) = rq_requester r" "rq_deadline (request_set_state st r) = rq_deadline r"
  "rq_state (request_set_state st r) = st" "rq_n_legs (request_set_state st r) = rq_n_legs r"
  "rq_legs (request_set_state st r) = rq_legs r" "rq_claim (request_set_state st r) = rq_claim r"
  "request_leg (request_set_state st r) lid = request_leg r lid"
  by (simp_all add: record_setters request_leg_def request_legs_def)

lemma worst_case_setters [simp]:
  "worst_case (request_set_claim c r) = worst_case r" "worst_case (request_set_state st r) = worst_case r"
  by (simp_all add: worst_case_def)

lemma ex_no_claim: "(\<exists>q'. no_claim_q qt h = Some q' \<and> P q') \<longleftrightarrow> (\<exists>q. qt h = Some q \<and> P (quote_set_claim None q))"
  by (auto simp: no_claim_q_Some)

lemma ex_no_claim_r: "(\<exists>q'. no_claim_r rq h = Some q' \<and> P q') \<longleftrightarrow> (\<exists>q. rq h = Some q \<and> P (request_set_claim None q))"
  by (auto simp: no_claim_r_Some)

lemma all_no_claim: "(\<forall>q'. no_claim_q qt h = Some q' \<longrightarrow> P q') \<longleftrightarrow> (\<forall>q. qt h = Some q \<longrightarrow> P (quote_set_claim None q))"
  by (auto simp: no_claim_q_Some)

lemma unquoted_no_claim: "unquoted (no_claim_q qt) r = unquoted qt r"
  by (simp add: unquoted_def all_no_claim)

lemma unique_no_claim: "unique_ok (no_claim_q qt) = unique_ok qt"
  by (auto simp: unique_ok_def no_claim_q_Some)

lemma filled_no_claim: "filled (no_claim_q qt) r (request_set_claim None rec) m = filled qt r rec m"
  by (simp add: filled_def ex_no_claim)

lemma claim_no_claim: "claim_ok (no_claim_r rq) (no_claim_q qt) a m ow k = claim_ok rq qt a m ow k"
  by (cases ow; cases k) (simp_all add: claim_ok_def ex_no_claim ex_no_claim_r filled_no_claim)

lemma claims_no_claim: "claims_ok (no_claim_r rq) (no_claim_q qt) cl = claims_ok rq qt cl"
  by (simp add: claims_ok_def claim_no_claim)

section \<open>Time passes\<close>

lemma quote_ok_later: "quote_ok t S rq q \<Longrightarrow> t \<le> t' \<Longrightarrow> quote_ok t' S rq q"
  unfolding quote_ok_def by (fastforce split: quote_state.splits)

lemma request_status_later: "request_status cfg t qt r rec \<Longrightarrow> t \<le> t' \<Longrightarrow> request_status cfg t' qt r rec"
  unfolding request_status_def by (auto split: request_state.splits)

lemma market_ok_later:
  assumes "market_ok cfg t S ct rq qt cl" and "t \<le> t'"
  shows "market_ok cfg t' S ct rq qt cl"
  using assms quote_ok_later request_status_later
  unfolding market_ok_def quotes_ok_def requests_ok_def request_ok_def by blast

lemma market_inv_later: "market_inv cfg t S l \<Longrightarrow> t \<le> t' \<Longrightarrow> market_inv cfg t' S l"
  using market_ok_later by (auto simp: market_inv_def)

section \<open>Claims expire\<close>

lemma market_ok_lose:
  assumes ok: "market_ok cfg t S ct rq qt cl"
    and qt': "no_claim_q qt' = no_claim_q qt" and rq': "no_claim_r rq' = no_claim_r rq"
    and cl': "\<And>i v. cl' i = Some v \<Longrightarrow> cl i = Some v"
    and lost: "\<And>h q q'. qt h = Some q \<Longrightarrow> qt' h = Some q' \<Longrightarrow>
       q_claim q' = q_claim q \<or> q_state q = QuoteActive \<and> q_expires_at q \<le> t"
      "\<And>r rec rec'. rq r = Some rec \<Longrightarrow> rq' r = Some rec' \<Longrightarrow>
       rq_claim rec' = rq_claim rec \<or> rq_claim rec' = None \<and> rq_state rec = ReqOpen \<and> rq_deadline rec \<le> t"
  shows "market_ok cfg t S ct rq' qt' cl'"
  unfolding market_ok_def
proof (intro conjI)
  note O = market_okD[OF ok]
  have q: "\<exists>q. qt h = Some q \<and> q' = quote_set_claim (q_claim q') q" if "qt' h = Some q'" for h q'
  proof -
    have "no_claim_q qt h = Some (quote_set_claim None q')" using that qt'[symmetric] by (simp add: no_claim_q_def)
    then obtain q where q: "qt h = Some q" "quote_set_claim None q' = quote_set_claim None q" by (auto simp: no_claim_q_Some)
    from q(2) have "q' = quote_set_claim (q_claim q') q" by (cases q; cases q') (simp add: quote_set_claim_def)
    with q show ?thesis by blast
  qed
  have rv: "\<exists>rec'. rq' r = Some rec' \<and> rec' = request_set_claim (rq_claim rec') rec" if "rq r = Some rec" for r rec
  proof -
    have "no_claim_r rq' r = Some (request_set_claim None rec)" using that rq' by (simp add: no_claim_r_def)
    then obtain rec' where q: "rq' r = Some rec'" "request_set_claim None rec = request_set_claim None rec'" by (auto simp: no_claim_r_Some)
    from q(2) have "rec' = request_set_claim (rq_claim rec') rec" by (cases rec; cases rec') (simp add: request_set_claim_def)
    with q show ?thesis by blast
  qed
  have rb: "\<exists>rec. rq r = Some rec \<and> rec' = request_set_claim (rq_claim rec') rec" if "rq' r = Some rec'" for r rec'
  proof -
    have "no_claim_r rq r = Some (request_set_claim None rec')" using that rq'[symmetric] by (simp add: no_claim_r_def)
    then obtain rec where "rq r = Some rec" by (auto simp: no_claim_r_Some)
    with rv[OF this] that show ?thesis by auto
  qed
  show "quotes_ok t S rq' qt'"
    unfolding quotes_ok_def
  proof (intro allI impI)
    fix h q' assume q': "qt' h = Some q'"
    from q[OF q'] obtain q where q: "qt h = Some q" "q' = quote_set_claim (q_claim q') q" by blast
    obtain rec leg where f: "rq (q_request q) = Some rec" "request_leg rec (q_leg q) = Some leg"
      "leg_size leg \<le> q_size q" "q_price q \<le> UNIT" "q_state q \<noteq> QuoteReleased"
      "q_state q = QuoteActive \<Longrightarrow> rq_state rec = ReqOpen"
      "q_state q = QuoteActive \<Longrightarrow> q_claim q = None \<Longrightarrow> q_expires_at q \<le> t"
      "q_state q = QuoteConsumed \<Longrightarrow> q_claim q \<noteq> None \<and> (S = Some (q_request q) \<or> is_settling (rq_state rec))"
      by (rule quote_okD[OF O(1) q(1)]) metis
    from rv[OF f(1)] obtain rec' where rec': "rq' (q_request q) = Some rec'" "rec' = request_set_claim (rq_claim rec') rec"
      by blast
    have st: "rq_state rec' = rq_state rec" by (subst rec'(2)) simp
    have qf: "q_request q' = q_request q" "q_leg q' = q_leg q" "q_size q' = q_size q" "q_price q' = q_price q"
      "q_state q' = q_state q" "q_expires_at q' = q_expires_at q"
      by (subst q(2), simp)+
    have "request_leg rec' (q_leg q) = Some leg" by (subst rec'(2)) (simp add: f)
    then show "quote_ok t S rq' q'"
      using f rec'(1) lost(1)[OF q(1) q'] qf st by (intro quote_okI) (cases "q_state q"; auto)+
  qed
  show "requests_ok cfg t ct rq' qt'"
    unfolding requests_ok_def
  proof (intro allI impI)
    fix r rec' assume rec': "rq' r = Some rec'"
    from rb[OF rec'] obtain rec where rec: "rq r = Some rec" "rec' = request_set_claim (rq_claim rec') rec" by blast
    have ok: "request_ok cfg t ct qt r rec" by (rule request_okD[OF O(2) rec(1)])
    have "request_static cfg ct rec'" using ok by (subst rec(2)) (simp add: request_ok_def)
    moreover have "rq_state rec' = rq_state rec" "rq_deadline rec' = rq_deadline rec" by (subst rec(2), simp)+
    moreover have "unquoted qt' r = unquoted qt r"
      using unquoted_no_claim[of qt r] unquoted_no_claim[of qt' r] qt' by simp
    moreover have "request_status cfg t qt r rec" using ok by (simp add: request_ok_def)
    ultimately have "request_static cfg ct rec' \<and> request_status cfg t qt' r rec'"
      using lost(2)[OF rec(1) rec'] by (cases "rq_state rec") (auto simp: request_status_def)
    then show "request_ok cfg t ct qt' r rec'" by (simp add: request_ok_def)
  qed
  show "unique_ok qt'" using O(3) unique_no_claim[of qt] unique_no_claim[of qt'] qt' by simp
  have "claims_ok rq' qt' cl" using O(4) claims_no_claim[of rq qt cl] claims_no_claim[of rq' qt' cl] qt' rq' by simp
  then show "claims_ok rq' qt' cl'" using cl' unfolding claims_ok_def by blast
qed

lemma owned_claim_iff:
  assumes "ledger_inv l" and "owner_claim l ow = Some x"
  shows "x = Some c \<longleftrightarrow> (\<exists>a m k. claims l (h_index c) = Some (h_generation c, a, m, ow, k))"
  using owners_okD[OF ledger_invD(6)[OF assms(1)]] assms(2) by auto

lemma quote_claim_iff:
  "ledger_inv l \<Longrightarrow> quote l h = Some q \<Longrightarrow> q_claim q = Some c \<longleftrightarrow>
     (\<exists>a m k. claims l (h_index c) = Some (h_generation c, a, m, OwnerQuote h, k))"
  by (rule owned_claim_iff) (simp_all add: owner_claim_def)

lemma request_claim_iff:
  "ledger_inv l \<Longrightarrow> request l r = Some rec \<Longrightarrow> rq_claim rec = Some c \<longleftrightarrow>
     (\<exists>a m k. claims l (h_index c) = Some (h_generation c, a, m, OwnerRequest r, k))"
  by (rule owned_claim_iff) (simp_all add: owner_claim_def)

lemma map_option_eqE:
  assumes "map_option f x = map_option f y" and "x = Some a"
  obtains b where "y = Some b" and "f a = f b"
  using assms by (cases y) auto

lemma quotes_of_Some: "quotes_of l h = Some q' \<longleftrightarrow> (\<exists>q. quote l h = Some q \<and> q' = bare_quote q)"
  by (auto simp: quotes_of_def)

lemma requests_of_Some: "requests_of l h = Some q' \<longleftrightarrow> (\<exists>q. request l h = Some q \<and> q' = bare_request q)"
  by (auto simp: requests_of_def)

text \<open>The chains depend on links, counts and places only.\<close>

lemma chains_ok_cong:
  assumes ok: "chains_ok mq rq qt"
    and q: "\<And>h. map_option (\<lambda>q. (q_next_on_leg q, q_request q, q_leg q)) (qt' h)
              = map_option (\<lambda>q. (q_next_on_leg q, q_request q, q_leg q)) (qt h)"
    and r: "\<And>r rec' lid leg'. rq' r = Some rec' \<Longrightarrow> \<not> request_state_is_terminal (rq_state rec') \<Longrightarrow>
        request_leg rec' lid = Some leg' \<Longrightarrow> \<exists>rec leg. rq r = Some rec \<and> \<not> request_state_is_terminal (rq_state rec) \<and>
        request_leg rec lid = Some leg \<and> leg_quotes_head leg' = leg_quotes_head leg \<and> leg_quote_count leg' = leg_quote_count leg"
  shows "chains_ok mq rq' qt'"
  unfolding chains_ok_def
proof (intro allI impI)
  fix r rec' lid leg'
  assume "rq' r = Some rec'" "\<not> request_state_is_terminal (rq_state rec')" "request_leg rec' lid = Some leg'"
  from r[OF this] obtain rec leg where rec: "rq r = Some rec" "\<not> request_state_is_terminal (rq_state rec)"
    "request_leg rec lid = Some leg" "leg_quotes_head leg' = leg_quotes_head leg" "leg_quote_count leg' = leg_quote_count leg"
    by blast
  from ok rec(1-3) obtain hs where hs: "chain_at mq qt r lid leg hs" unfolding chains_ok_def by blast
  have qq: "\<exists>q'. qt' h = Some q' \<and> q_next_on_leg q' = q_next_on_leg q \<and> q_request q' = q_request q \<and> q_leg q' = q_leg q"
    if "qt h = Some q" for h q
    by (rule map_option_eqE[OF q[symmetric] that]) simp
  have qr: "\<exists>q'. qt h = Some q' \<and> q_request q' = q_request q \<and> q_leg q' = q_leg q" if "qt' h = Some q" for h q
    by (rule map_option_eqE[OF q that]) simp
  have "quotes_at qt' r lid = quotes_at qt r lid"
    unfolding quotes_at_def using qq qr by (intro Collect_cong) metis
  moreover have "leg_chain qt' (leg_quotes_head leg) hs"
  proof (rule leg_chain_frame[of qt])
    show "leg_chain qt (leg_quotes_head leg) hs" using hs by (simp add: chain_at_def)
  qed (use qq in blast)
  ultimately show "\<exists>hs. chain_at mq qt' r lid leg' hs" using hs rec(4,5) unfolding chain_at_def by auto
qed

lemma same_market_views:
  assumes "same_market l l'"
  shows "no_claim_q (quotes_of l') = no_claim_q (quotes_of l)" and "no_claim_r (requests_of l') = no_claim_r (requests_of l)"
    and "contract_at l' = contract_at l"
proof -
  have "no_claim_q (quotes_of l) h = map_option bare_quote (map_option (quote_set_claim None) (quote l h))" for l h
    by (cases "quote l h") (simp_all add: no_claim_q_def quotes_of_def)
  with assms show "no_claim_q (quotes_of l') = no_claim_q (quotes_of l)" by (simp add: same_market_def fun_eq_iff)
  have "no_claim_r (requests_of l) h = map_option bare_request (map_option (request_set_claim None) (request l h))" for l h
    by (cases "request l h") (simp_all add: no_claim_r_def requests_of_def)
  with assms show "no_claim_r (requests_of l') = no_claim_r (requests_of l)" by (simp add: same_market_def fun_eq_iff)
  show "contract_at l' = contract_at l" using assms by (simp add: same_market_def contract_at_def fun_eq_iff)
qed

lemma same_market_quote:
  assumes "same_market l l'" and "quote l h = Some q"
  shows "\<exists>q'. quote l' h = Some q' \<and> quote_set_claim None q' = quote_set_claim None q"
proof -
  have "map_option (quote_set_claim None) (quote l' h) = Some (quote_set_claim None q)"
    using assms by (simp add: same_market_def)
  then show ?thesis by auto
qed

lemma same_market_request:
  assumes "same_market l l'" and "request l h = Some q"
  shows "\<exists>q'. request l' h = Some q' \<and> request_set_claim None q' = request_set_claim None q"
proof -
  have "map_option (request_set_claim None) (request l' h) = Some (request_set_claim None q)"
    using assms by (simp add: same_market_def)
  then show ?thesis by auto
qed

lemma same_market_sym: "same_market l l' \<Longrightarrow> same_market l' l"
  by (simp add: same_market_def)

lemma set_claim_None_eq:
  "quote_set_claim None q' = quote_set_claim None q \<Longrightarrow> q_next_on_leg q' = q_next_on_leg q \<and>
     q_request q' = q_request q \<and> q_leg q' = q_leg q \<and> q_state q' = q_state q \<and> q_expires_at q' = q_expires_at q \<and> q_maker q' = q_maker q"
  by (cases q; cases q') (simp add: quote_set_claim_def)

lemma set_claim_None_eq_r:
  "request_set_claim None q' = request_set_claim None q \<Longrightarrow> rq_state q' = rq_state q \<and>
     request_leg q' lid = request_leg q lid \<and> rq_deadline q' = rq_deadline q \<and> rq_requester q' = rq_requester q"
  by (cases q; cases q') (simp add: request_set_claim_def request_leg_def request_legs_def)

lemma same_market_chains:
  assumes sm: "same_market l l'" and ok: "chains_ok mq (request l) (quote l)"
  shows "chains_ok mq (request l') (quote l')"
proof (rule chains_ok_cong[OF ok])
  fix h
  show "map_option (\<lambda>q. (q_next_on_leg q, q_request q, q_leg q)) (quote l' h)
      = map_option (\<lambda>q. (q_next_on_leg q, q_request q, q_leg q)) (quote l h)"
  proof (cases "quote l h")
    case None
    with same_market_quote[OF same_market_sym[OF sm], of h] show ?thesis by (cases "quote l' h") auto
  next
    case (Some q)
    from same_market_quote[OF sm this] obtain q' where "quote l' h = Some q'" "quote_set_claim None q' = quote_set_claim None q"
      by blast
    with set_claim_None_eq[OF this(2)] Some show ?thesis by simp
  qed
next
  fix r rec' lid leg'
  assume a: "request l' r = Some rec'" "\<not> request_state_is_terminal (rq_state rec')" "request_leg rec' lid = Some leg'"
  from same_market_request[OF same_market_sym[OF sm] a(1)] obtain rec where
    "request l r = Some rec" "request_set_claim None rec = request_set_claim None rec'" by blast
  with set_claim_None_eq_r[OF this(2), of lid] a show "\<exists>rec leg. request l r = Some rec \<and>
      \<not> request_state_is_terminal (rq_state rec) \<and> request_leg rec lid = Some leg \<and>
      leg_quotes_head leg' = leg_quotes_head leg \<and> leg_quote_count leg' = leg_quote_count leg" by simp
qed

section \<open>Normalisation\<close>

lemma expired_kind:
  assumes "i \<in> expired_of cl a now" and "cl i = Some (g, a', m, ow, k)"
  shows "\<exists>e. k = OnExpiry e \<and> e \<le> now"
  using assms by (auto simp: expired_of_def on_expiry_def expiry_at_def)

lemma market_inv_expired:
  assumes inv: "market_inv cfg now S l" and l': "ledger_inv l'" and sm: "same_market l l'"
    and cl: "claims l' = (\<lambda>i. if i \<in> expired_of (claims l) a now then None else claims l i)"
  shows "market_inv cfg now S l'"
proof -
  note I = market_invD[OF inv]
  note O = market_okD[OF I(3)]
  have "market_ok cfg now S (contract_at l) (requests_of l') (quotes_of l') (claims l')"
  proof (rule market_ok_lose[OF I(3) same_market_views(1,2)[OF sm]])
    show "claims l i = Some v" if "claims l' i = Some v" for i v
      using that by (simp add: cl split: if_splits)
    show "q_claim q' = q_claim q \<or> q_state q = QuoteActive \<and> q_expires_at q \<le> now"
      if h: "quotes_of l h = Some q" "quotes_of l' h = Some q'" for h q q'
    proof (rule disjCI)
      assume no: "\<not> (q_state q = QuoteActive \<and> q_expires_at q \<le> now)"
      from h obtain q0 q0' where q0: "quote l h = Some q0" "q = bare_quote q0" "quote l' h = Some q0'" "q' = bare_quote q0'"
        by (auto simp: quotes_of_Some)
      have "q_claim q0' = Some c \<longleftrightarrow> q_claim q0 = Some c" for c
      proof -
        have "h_index c \<notin> expired_of (claims l) a now"
          if c: "claims l (h_index c) = Some (h_generation c, a', m, OwnerQuote h, k)" for a' m k
        proof
          assume "h_index c \<in> expired_of (claims l) a now"
          from expired_kind[OF this c] obtain e where "k = OnExpiry e" "e \<le> now" by blast
          with claim_okD[OF O(4) c] no h(1) show False by (auto simp: claim_ok_def)
        qed
        then show ?thesis unfolding quote_claim_iff[OF I(1) q0(1)] quote_claim_iff[OF l' q0(3)] cl by auto
      qed
      then show "q_claim q' = q_claim q" using q0 by (cases "q_claim q0"; cases "q_claim q0'") auto
    qed
    show "rq_claim rec' = rq_claim rec \<or> rq_claim rec' = None \<and> rq_state rec = ReqOpen \<and> rq_deadline rec \<le> now"
      if h: "requests_of l r = Some rec" "requests_of l' r = Some rec'" for r rec rec'
    proof -
      from h obtain q0 q0' where q0: "request l r = Some q0" "rec = bare_request q0" "request l' r = Some q0'" "rec' = bare_request q0'"
        by (auto simp: requests_of_Some)
      note iff = request_claim_iff[OF I(1) q0(1)] request_claim_iff[OF l' q0(3)]
      have kept: "rq_claim q0' = Some c \<longleftrightarrow> rq_claim q0 = Some c \<and> h_index c \<notin> expired_of (claims l) a now" for c
        unfolding iff cl by auto
      show ?thesis
      proof (cases "\<exists>c. rq_claim q0 = Some c \<and> h_index c \<in> expired_of (claims l) a now")
        case True
        then obtain c where c: "rq_claim q0 = Some c" "h_index c \<in> expired_of (claims l) a now" by blast
        from c(1) obtain a' m k where k: "claims l (h_index c) = Some (h_generation c, a', m, OwnerRequest r, k)"
          unfolding iff(1) by blast
        from expired_kind[OF c(2) k] obtain e where "k = OnExpiry e" "e \<le> now" by blast
        with claim_okD[OF O(4) k] h(1) have "rq_state rec = ReqOpen" "rq_deadline rec \<le> now" by (auto simp: claim_ok_def)
        moreover have "rq_claim q0' \<noteq> Some c'" for c'
        proof
          assume "rq_claim q0' = Some c'"
          with kept[of c'] c show False by simp
        qed
        ultimately show ?thesis using q0 by (cases "rq_claim q0'") auto
      next
        case False
        have "rq_claim q0' = Some c \<longleftrightarrow> rq_claim q0 = Some c" for c
          using kept False by blast
        then show ?thesis using q0 by (cases "rq_claim q0"; cases "rq_claim q0'") auto
      qed
    qed
  qed
  then show ?thesis using l' same_market_chains[OF sm I(2)] same_market_views(3)[OF sm] by (simp add: market_inv_def)
qed

lemma market_inv_normalise:
  assumes inv: "market_inv cfg t S l" and t: "t \<le> now"
  shows "market_inv cfg now S (snd (release_expired l a now))"
proof (cases "account l a")
  case None
  then show ?thesis using market_inv_later[OF inv t] by (simp add: release_expired_unknown)
next
  case (Some b)
  note now = market_inv_later[OF inv t]
  show ?thesis
  proof (rule release_expired_spec[OF market_invD(1)[OF now] Some, of now])
    fix n l' assume "release_expired l a now = (Inr n, l')" "ledger_inv l'" "same_market l l'"
      "claims l' = (\<lambda>i. if i \<in> expired_of (claims l) a now then None else claims l i)"
    then show ?thesis using market_inv_expired[OF now] by simp
  qed
qed

end
