(* ===== verification/Quote_Moves.thy ===== *)
theory Quote_Moves
  imports Market_Inv
begin

text \<open>
  The moves of quotes in \<open>crates/core/src/engine.rs\<close> and what they do to the market: a quote is
  linked into its leg's chain or unlinked from it, retired (its claim released, its record closed),
  published, consumed. Each move is described by its effect on the records without links and on the
  chains, and the invariant of \<open>Market_Inv\<close> is preserved.
\<close>

section \<open>Unlinking\<close>

lemma link_index_eq: "link_index s = Some i \<longleftrightarrow> s = i \<and> i \<noteq> NIL"
  by (auto simp: link_index_def)

lemma unlink_walk_chain:
  assumes "leg_chain (quote l) c (xs @ p # h # ys)" and "distinct (xs @ p # h # ys)" and "quote l h = Some qh"
  shows "unlink_walk r lid h c l = Some (leg_update r lid lower_count
           (quote_update p (quote_set_next (q_next_on_leg qh)) l))"
  using assms
proof (induction xs arbitrary: c)
  case Nil
  then obtain qp where p: "c = h_index p" "c \<noteq> NIL" "quote l p = Some qp" "q_next_on_leg qp = h_index h" "h_index h \<noteq> NIL"
    by auto
  then show ?case
    by (subst unlink_walk.simps) (simp add: link_index_eq link_index_chain quote_handle_at_index next_of_def Nil.prems(3))
next
  case (Cons x xs)
  then obtain qx where x: "c = h_index x" "c \<noteq> NIL" "quote l x = Some qx"
    "leg_chain (quote l) (q_next_on_leg qx) (xs @ p # h # ys)" by auto
  obtain z zs where z: "xs @ p # h # ys = z # zs" "h \<noteq> z" using Cons.prems(2) by (cases xs) auto
  then obtain qz where "q_next_on_leg qx = h_index z" "quote l z = Some qz" using x(4) by auto
  with z(2) index_injD[OF quote_index_inj Cons.prems(3), of z qz] have "q_next_on_leg qx \<noteq> h_index h" by auto
  with x Cons.IH[OF x(4) _ Cons.prems(3)] Cons.prems(2) show ?case
    by (subst unlink_walk.simps) (simp add: link_index_eq link_index_chain quote_handle_at_index)
qed

lemma leg_chain_skip:
  assumes "leg_chain qt c (xs @ p # h # ys)" and "distinct (xs @ p # h # ys)" and "qt h = Some qh"
    and "\<And>k. k \<noteq> p \<Longrightarrow> qt' k = qt k" and "\<And>qp. qt p = Some qp \<Longrightarrow> qt' p = Some (quote_set_next (q_next_on_leg qh) qp)"
  shows "leg_chain qt' c (xs @ p # ys)"
  using assms(1,2)
proof (induction xs arbitrary: c)
  case Nil
  then obtain qp where p: "c = h_index p" "c \<noteq> NIL" "qt p = Some qp" "leg_chain qt (q_next_on_leg qh) ys"
    using assms(3) by auto
  have "leg_chain qt' (q_next_on_leg qh) ys"
  proof (rule leg_chain_frame[OF p(4)])
    fix k q assume "k \<in> set ys" "qt k = Some q"
    moreover from this Nil.prems(2) have "k \<noteq> p" by auto
    ultimately show "\<exists>q'. qt' k = Some q' \<and> q_next_on_leg q' = q_next_on_leg q" using assms(4) by simp
  qed
  then show ?case using p assms(5)[OF p(3)] by (simp add: record_setters)
next
  case (Cons x xs)
  then obtain qx where "c = h_index x" "c \<noteq> NIL" "qt x = Some qx" "leg_chain qt (q_next_on_leg qx) (xs @ p # h # ys)" by auto
  with Cons.IH[OF this(4)] Cons.prems(2) assms(4)[of x] show ?case by auto
qed

definition lowered :: "link \<Rightarrow> leg \<Rightarrow> leg" where
  "lowered head leg = lower_count (leg\<lparr> leg_quotes_head := head \<rparr>)"

lemma lowered_self: "leg_quotes_head g = head \<Longrightarrow> lowered head g = lower_count g"
  by (cases g) (simp add: lowered_def)

lemma bare_lowered [simp]: "bare_leg (lowered head g) = bare_leg g"
  by (simp add: bare_leg_def lowered_def lower_count_def)

lemma request_leg_update_cong:
  "request_leg rec lid = Some leg \<Longrightarrow> f leg = g leg \<Longrightarrow> request_leg_update lid f rec = request_leg_update lid g rec"
  by (auto simp: request_leg_update_def request_leg_def request_legs_def nth_opt_def split: if_splits)

lemma contract_at_cong: "l_contracts l' = l_contracts l \<Longrightarrow> contract_at l' = contract_at l"
  by (auto simp: contract_at_def)

lemma unlink_quote_spec:
  assumes inv: "ledger_inv l" and rec: "request l r = Some rec" "request_leg rec lid = Some leg"
    and chain: "leg_chain (quote l) (leg_quotes_head leg) hs" and h: "h \<in> set hs"
  obtains l' head' where "unlink_quote r lid h l = Some l'" and "ledger_inv l'"
    and "leg_chain (quote l') head' (remove1 h hs)"
    and "request l' = (request l)(r \<mapsto> request_leg_update lid (lowered head') rec)"
    and "claims l' = claims l" and "contract_at l' = contract_at l" and "quotes_of l' = quotes_of l"
    and "\<And>k. k \<notin> set hs \<Longrightarrow> quote l' k = quote l k"
proof -
  have leg: "leg_of l r lid = Some leg" using rec by (simp add: leg_of_def)
  have dist: "distinct hs" by (rule leg_chain_distinct[OF quote_index_inj chain])
  obtain qh where qh: "quote l h = Some qh" using leg_chain_members[OF chain h] by blast
  obtain xs ys where hs: "hs = xs @ h # ys" using h by (auto simp: in_set_conv_decomp)
  with dist have rem: "remove1 h hs = xs @ ys" by (simp add: remove1_append)
  have inv_leg: "ledger_inv (leg_update r lid f l'')" if "ledger_inv l''" for f l''
    unfolding leg_update_def by (rule request_update_inv[OF that]) simp
  show thesis
  proof (cases xs rule: rev_cases)
    case Nil
    let ?f = "\<lambda>leg. lower_count (leg\<lparr> leg_quotes_head := next_of l h \<rparr>)"
    from Nil chain hs qh have c: "leg_quotes_head leg = h_index h" "h_index h \<noteq> NIL" "leg_chain (quote l) (q_next_on_leg qh) ys"
      by auto
    have u: "unlink_quote r lid h l = Some (leg_update r lid ?f l)"
      using leg c by (simp add: unlink_quote_def link_index_eq)
    show ?thesis
      by (rule that[OF u inv_leg[OF inv], of "q_next_on_leg qh"])
        (use rem Nil c qh rec in \<open>auto simp: leg_update_def next_of_def fun_eq_iff lowered_def[abs_def] effects
          quotes_of_def contract_at_def\<close>)
  next
    case (snoc xs' p)
    let ?l = "leg_update r lid lower_count (quote_update p (quote_set_next (q_next_on_leg qh)) l)"
    have ne: "leg_quotes_head leg \<noteq> h_index h"
    proof
      assume e: "leg_quotes_head leg = h_index h"
      obtain z zs where z: "hs = z # zs" "h \<noteq> z" using snoc hs dist by (cases xs') auto
      with chain obtain qz where qz: "leg_quotes_head leg = h_index z" "quote l z = Some qz" by auto
      show False using index_injD[OF quote_index_inj qh qz(2)] qz(1) e z(2) by simp
    qed
    have ch: "leg_chain (quote l) (leg_quotes_head leg) (xs' @ p # h # ys)" using chain hs snoc by simp
    have di: "distinct (xs' @ p # h # ys)" using dist hs snoc by simp
    have u: "unlink_quote r lid h l = Some ?l"
      by (simp add: unlink_quote_def link_index_eq leg ne ne[symmetric] unlink_walk_chain[OF ch di qh])
    have "leg_chain (quote ?l) (leg_quotes_head leg) (xs' @ p # ys)"
      by (rule leg_chain_skip[OF ch di qh]) (simp_all add: leg_update_def)
    moreover have "request_leg_update lid lower_count rec = request_leg_update lid (lowered (leg_quotes_head leg)) rec"
      by (rule request_leg_update_cong[OF rec(2)]) (simp add: lowered_self)
    moreover have "ledger_inv ?l"
      by (intro inv_leg quote_update_inv[OF inv]) (simp add: record_setters)
    moreover have "quotes_of ?l = quotes_of l"
      by (auto simp: fun_eq_iff quotes_of_def leg_update_def option.map_comp comp_def)
    ultimately show ?thesis using rem snoc rec hs
      by (intro that[OF u, of "leg_quotes_head leg"])
        (auto simp: leg_update_def fun_eq_iff effects contract_at_def)
  qed
qed

section \<open>A change to the chain of one leg\<close>

definition place :: "quote \<Rightarrow> link \<times> req_idx \<times> leg_id" where
  "place q = (q_next_on_leg q, q_request q, q_leg q)"

definition tip :: "leg \<Rightarrow> link \<times> u8" where
  "tip leg = (leg_quotes_head leg, leg_quote_count leg)"

lemma chains_ok_update:
  assumes ok: "chains_ok mq rq qt"
    and new: "\<And>rec leg. rq' r = Some rec \<Longrightarrow> request_leg rec lid = Some leg \<Longrightarrow> \<exists>hs. chain_at mq qt' r lid leg hs"
    and others: "\<And>r' rec' lid' leg'. (r', lid') \<noteq> (r, lid) \<Longrightarrow> rq' r' = Some rec' \<Longrightarrow>
        \<not> request_state_is_terminal (rq_state rec') \<Longrightarrow> request_leg rec' lid' = Some leg' \<Longrightarrow>
        \<exists>rec leg. rq r' = Some rec \<and> \<not> request_state_is_terminal (rq_state rec) \<and> request_leg rec lid' = Some leg \<and> tip leg' = tip leg"
    and kept: "\<And>k. k \<notin> A \<Longrightarrow> map_option place (qt' k) = map_option place (qt k)"
    and here: "\<And>k q. k \<in> A \<Longrightarrow> qt k = Some q \<or> qt' k = Some q \<Longrightarrow> q_request q = r \<and> q_leg q = lid"
  shows "chains_ok mq rq' qt'"
  unfolding chains_ok_def
proof (intro allI impI)
  fix r' rec' lid' leg'
  assume a: "rq' r' = Some rec'" "\<not> request_state_is_terminal (rq_state rec')" "request_leg rec' lid' = Some leg'"
  show "\<exists>hs. chain_at mq qt' r' lid' leg' hs"
  proof (cases "(r', lid') = (r, lid)")
    case True
    then show ?thesis using new a by simp
  next
    case False
    from others[OF this a] obtain rec leg where rec: "rq r' = Some rec" "\<not> request_state_is_terminal (rq_state rec)"
      "request_leg rec lid' = Some leg" "tip leg' = tip leg" by blast
    from ok rec(1-3) obtain hs where hs: "chain_at mq qt r' lid' leg hs" unfolding chains_ok_def by blast
    have to: "\<exists>q'. qt' k = Some q' \<and> place q' = place q"
      if "qt k = Some q" "q_request q = r'" "q_leg q = lid'" for k q
    proof -
      have "k \<notin> A" using here[of k q] that False by auto
      from map_option_eqE[OF kept[OF this, symmetric] that(1)] show ?thesis by metis
    qed
    have fro: "\<exists>q'. qt k = Some q' \<and> place q' = place q"
      if "qt' k = Some q" "q_request q = r'" "q_leg q = lid'" for k q
    proof -
      have "k \<notin> A" using here[of k q] that False by auto
      from map_option_eqE[OF kept[OF this] that(1)] show ?thesis by metis
    qed
    have "quotes_at qt' r' lid' = quotes_at qt r' lid'"
      unfolding quotes_at_def using to fro by (intro Collect_cong) (fastforce simp: place_def)
    moreover have "leg_chain qt' (leg_quotes_head leg) hs"
    proof (rule leg_chain_frame[of qt])
      show "leg_chain qt (leg_quotes_head leg) hs" using hs by (simp add: chain_at_def)
      fix k q assume k: "k \<in> set hs" "qt k = Some q"
      then have "q_request q = r'" "q_leg q = lid'" using hs by (auto simp: chain_at_def quotes_at_def)
      from to[OF k(2) this] show "\<exists>q'. qt' k = Some q' \<and> q_next_on_leg q' = q_next_on_leg q" by (auto simp: place_def)
    qed
    ultimately show ?thesis using hs rec(4) unfolding chain_at_def tip_def by auto
  qed
qed

lemma chain_card: "index_inj qt \<Longrightarrow> chain_at mq qt r lid leg hs \<Longrightarrow> card (quotes_at qt r lid) = unat (leg_quote_count leg)"
  using leg_chain_distinct[of qt "leg_quotes_head leg" hs] distinct_card[of hs] by (simp add: chain_at_def)

section \<open>Disowning claims\<close>

definition disown_all :: "quote_idx set \<Rightarrow> claim_map \<Rightarrow> claim_map" where
  "disown_all A cl i = (case cl i of
     Some (g, a, m, OwnerQuote h, k) \<Rightarrow> if h \<in> A then None else cl i
   | v \<Rightarrow> v)"

lemma disown_all_empty [simp]: "disown_all {} cl = cl"
  by (auto simp: disown_all_def fun_eq_iff split: option.split res_owner.split)

lemma disown_all_Un [simp]: "disown_all B (disown_all A cl) = disown_all (A \<union> B) cl"
  by (auto simp: disown_all_def fun_eq_iff split: option.split res_owner.split)

definition disown :: "res_owner \<Rightarrow> claim_map \<Rightarrow> claim_map" where
  "disown ow cl i = (case cl i of Some (g, a, m, ow', k) \<Rightarrow> if ow' = ow then None else cl i | None \<Rightarrow> None)"

lemma disown_Some: "disown ow cl i = Some (g, a, m, ow', k) \<longleftrightarrow> cl i = Some (g, a, m, ow', k) \<and> ow' \<noteq> ow"
  by (auto simp: disown_def split: option.splits)

lemma disown_eq:
  assumes inv: "ledger_inv l" and ow: "owner_claim l ow = Some x"
  shows "disown ow (claims l) = (case x of None \<Rightarrow> claims l | Some c \<Rightarrow> (claims l)(h_index c := None))"
proof -
  note iff = owned_claim_iff[OF inv ow]
  have only: "x = Some \<lparr>h_index = i, h_generation = g\<rparr>" if "claims l i = Some (g, a, m, ow, k)" for i g a m k
    using that iff by simp
  show ?thesis
  proof (cases x)
    case None
    with only show ?thesis by (fastforce simp: disown_def fun_eq_iff split: option.split)
  next
    case (Some c)
    with iff[of c] obtain a m k where "claims l (h_index c) = Some (h_generation c, a, m, ow, k)" by auto
    moreover have "i = h_index c" if "claims l i = Some (g, a', m', ow, k')" for i g a' m' k'
      using only[OF that] Some by simp
    ultimately show ?thesis using Some by (fastforce simp: disown_def fun_eq_iff split: option.split)
  qed
qed

lemma request_status_fewer:
  "request_status cfg t qt r rec \<Longrightarrow> (request_state_is_terminal (rq_state rec) \<Longrightarrow> unquoted qt r \<Longrightarrow> unquoted qt' r) \<Longrightarrow>
     request_status cfg t qt' r rec"
  unfolding request_status_def by (auto split: request_state.splits)

lemma requests_ok_fewer:
  assumes "requests_ok cfg t ct rq qt"
    and "\<And>r rec. rq r = Some rec \<Longrightarrow> request_state_is_terminal (rq_state rec) \<Longrightarrow> unquoted qt r \<Longrightarrow> unquoted qt' r"
  shows "requests_ok cfg t ct rq qt'"
  unfolding requests_ok_def
proof (intro allI impI)
  fix r rec assume rec: "rq r = Some rec"
  from request_okD[OF assms(1) rec] have "request_static cfg ct rec" "request_status cfg t qt r rec" by (simp_all add: request_ok_def)
  with request_status_fewer[OF this(2) assms(2)[OF rec]] show "request_ok cfg t ct qt' r rec" by (simp add: request_ok_def)
qed

lemma filled_mono:
  assumes "filled qt r rec m"
    and keep: "\<And>h q. qt h = Some q \<Longrightarrow> q_state q = QuoteConsumed \<Longrightarrow> q_request q = r \<Longrightarrow> \<exists>q'. qt' h = Some q' \<and>
      q_request q' = q_request q \<and> q_leg q' = q_leg q \<and> q_price q' = q_price q \<and> q_state q' = QuoteConsumed"
  shows "filled qt' r rec m"
proof -
  from assms(1) obtain fill where m: "unat m = (\<Sum>k<unat (rq_n_legs rec). unat (leg_size (rq_legs rec ! k)) * unat (fill k :: price))"
    and f: "\<And>k. k < unat (rq_n_legs rec) \<Longrightarrow> \<exists>h q. qt h = Some q \<and> q_request q = r \<and> q_leg q = word_of_nat k \<and>
        q_price q = fill k \<and> q_state q = QuoteConsumed" unfolding filled_def by blast
  have "\<exists>h q. qt' h = Some q \<and> q_request q = r \<and> q_leg q = word_of_nat k \<and> q_price q = fill k \<and> q_state q = QuoteConsumed"
    if k: "k < unat (rq_n_legs rec)" for k
  proof -
    from f[OF k] obtain h q where q: "qt h = Some q" "q_request q = r" "q_leg q = word_of_nat k" "q_price q = fill k"
      "q_state q = QuoteConsumed" by blast
    with keep[OF q(1,5,2)] show ?thesis by auto
  qed
  with m show ?thesis unfolding filled_def by blast
qed

lemma market_ok_retire:
  assumes ok: "market_ok cfg t S ct rq qt cl" and h: "qt h = Some q" "q_state q = QuoteActive"
  shows "market_ok cfg t S ct rq (qt(h := None)) (disown (OwnerQuote h) cl)"
  unfolding market_ok_def
proof (intro conjI)
  note O = market_okD[OF ok]
  show "quotes_ok t S rq (qt(h := None))" using O(1) by (simp add: quotes_ok_def)
  show "requests_ok cfg t ct rq (qt(h := None))"
    by (rule requests_ok_fewer[OF O(2)]) (simp add: unquoted_def)
  show "unique_ok (qt(h := None))" using O(3) by (simp add: unique_ok_def)
  have filled: "filled qt r rec m \<Longrightarrow> filled (qt(h := None)) r rec m" for r rec m
    by (erule filled_mono) (use h in \<open>auto split: if_splits\<close>)
  show "claims_ok rq (qt(h := None)) (disown (OwnerQuote h) cl)"
    unfolding claims_ok_def
  proof (intro allI impI)
    fix i g a m ow k assume "disown (OwnerQuote h) cl i = Some (g, a, m, ow, k)"
    then have "claim_ok rq qt a m ow k" "ow \<noteq> OwnerQuote h" using claim_okD[OF O(4)] by (auto simp: disown_Some)
    then show "claim_ok rq (qt(h := None)) a m ow k"
      using filled by (auto simp: claim_ok_def split: res_owner.splits claim_kind.splits)
  qed
qed

section \<open>Retiring a quote\<close>

lemma quotes_at_bare: "quotes_at (quotes_of l) r lid = quotes_at (quote l) r lid"
  by (auto simp: quotes_at_def quotes_of_Some)

lemma open_quote_context:
  assumes inv: "market_inv cfg t S l" and h: "quote l h = Some q" "q_state q = QuoteActive"
  obtains rec leg hs where "request l (q_request q) = Some rec" and "rq_state rec = ReqOpen"
    and "request_leg rec (q_leg q) = Some leg"
    and "chain_at (max_quotes_per_leg cfg) (quote l) (q_request q) (q_leg q) leg hs" and "h \<in> set hs"
proof -
  note I = market_invD[OF inv]
  have "quotes_of l h = Some (bare_quote q)" using h(1) by (simp add: quotes_of_def)
  from quote_okD[OF market_okD(1)[OF I(3)] this] h(2) obtain rec' leg' where
    "requests_of l (q_request q) = Some rec'" "request_leg rec' (q_leg q) = Some leg'" "rq_state rec' = ReqOpen"
    by (metis bare_quote_fields)
  then obtain rec leg where rec: "request l (q_request q) = Some rec" "request_leg rec (q_leg q) = Some leg" "rq_state rec = ReqOpen"
    by (auto simp: requests_of_Some)
  with I(2) obtain hs where hs: "chain_at (max_quotes_per_leg cfg) (quote l) (q_request q) (q_leg q) leg hs"
    unfolding chains_ok_def by fastforce
  moreover have "h \<in> set hs" using hs h(1) by (auto simp: chain_at_def quotes_at_def)
  ultimately show thesis using that rec by blast
qed

definition let_go :: "quote_idx \<Rightarrow> quote \<Rightarrow> ledger \<Rightarrow> ledger" where
  "let_go h q l = quote_update h (quote_set_state QuoteReleased)
     (case q_claim q of None \<Rightarrow> l | Some claim \<Rightarrow> cp_release claim l)"

text \<open>The claim of an active quote is still reserved.\<close>

lemma active_claim:
  assumes inv: "market_inv cfg t S l" and h: "quote l h = Some q" "q_state q = QuoteActive" and c: "q_claim q = Some c"
  obtains r where "reservation l c = Some r" and "\<not> is_committed r" and "res_owner_of r = OwnerQuote h"
proof -
  note I = market_invD[OF inv]
  from quote_claim_iff[OF I(1) h(1), of c] c obtain a m k where k: "claims l (h_index c) = Some (h_generation c, a, m, OwnerQuote h, k)"
    by auto
  then obtain r where r: "reservation l c = Some r" "res_owner_of r = OwnerQuote h" "kind_of r = k"
    by (auto simp: claims_Some_iff reservation_Some_iff)
  have "claim_ok (requests_of l) (quotes_of l) a m (OwnerQuote h) k" by (rule claim_okD[OF market_okD(4)[OF I(3)] k])
  then have "\<exists>e. k = OnExpiry e" using h by (auto simp: claim_ok_def quotes_of_Some split: claim_kind.splits)
  with r show thesis using that by (auto simp: kind_of_cases(3))
qed

lemma let_go_spec:
  assumes inv: "market_inv cfg t S l" and h: "quote l h = Some q" "q_state q = QuoteActive"
  shows "ledger_inv (let_go h q l)" and "request (let_go h q l) = request l"
    and "quote (let_go h q l) = (quote l)(h \<mapsto> quote_set_state QuoteReleased (quote_set_claim None q))"
    and "claims (let_go h q l) = disown (OwnerQuote h) (claims l)" and "contract_at (let_go h q l) = contract_at l"
proof -
  note I = market_invD[OF inv]
  have dis: "disown (OwnerQuote h) (claims l) = (case q_claim q of None \<Rightarrow> claims l | Some c \<Rightarrow> (claims l)(h_index c := None))"
    by (rule disown_eq[OF I(1)]) (simp add: owner_claim_def h)
  define l1 where "l1 = (case q_claim q of None \<Rightarrow> l | Some claim \<Rightarrow> cp_release claim l)"
  have l1: "ledger_inv l1 \<and> request l1 = request l \<and> quote l1 = (quote l)(h \<mapsto> quote_set_claim None q) \<and>
    claims l1 = disown (OwnerQuote h) (claims l) \<and> contract_at l1 = contract_at l"
  proof (cases "q_claim q")
    case None
    then have "quote_set_claim None q = q" by (cases q) (simp add: quote_set_claim_def)
    then show ?thesis using None I(1) h dis by (auto simp: l1_def)
  next
    case (Some c)
    from active_claim[OF inv h Some] obtain r where r: "reservation l c = Some r" "\<not> is_committed r" "res_owner_of r = OwnerQuote h" .
    note R = cp_release_spec[OF I(1) r(1,2)]
    show ?thesis using Some R(1,2) dis h same_market_views(3)[OF R(5)] by (simp add: l1_def R(3,4) r(3) fun_eq_iff)
  qed
  have eq: "let_go h q l = quote_update h (quote_set_state QuoteReleased) l1" by (simp add: let_go_def l1_def)
  show "ledger_inv (let_go h q l)" unfolding eq using l1 by (intro quote_update_inv) simp_all
  show "request (let_go h q l) = request l"
    "quote (let_go h q l) = (quote l)(h \<mapsto> quote_set_state QuoteReleased (quote_set_claim None q))"
    "claims (let_go h q l) = disown (OwnerQuote h) (claims l)" "contract_at (let_go h q l) = contract_at l"
    unfolding eq using l1 by (simp_all add: fun_eq_iff effects contract_at_def)
qed

lemma retire_spec:
  assumes inv: "market_inv cfg t S l" and h: "quote l h = Some q" "q_state q = QuoteActive"
  obtains l3 where "unlink_quote (q_request q) (q_leg q) h (let_go h q l) = Some l3"
    and "market_inv cfg t S (cp_close_quote h l3)"
    and "quotes_of (cp_close_quote h l3) = (quotes_of l)(h := None)"
    and "requests_of (cp_close_quote h l3) = requests_of l"
    and "claims (cp_close_quote h l3) = disown (OwnerQuote h) (claims l)"
    and "contract_at (cp_close_quote h l3) = contract_at l"
proof -
  note I = market_invD[OF inv]
  let ?r = "q_request q" and ?lid = "q_leg q" and ?mq = "max_quotes_per_leg cfg"
  obtain rec leg hs where rec: "request l ?r = Some rec" "rq_state rec = ReqOpen" "request_leg rec ?lid = Some leg"
    and hs: "chain_at ?mq (quote l) ?r ?lid leg hs" "h \<in> set hs"
    by (rule open_quote_context[OF inv h])
  have chain: "leg_chain (quote l) (leg_quotes_head leg) hs" and set_hs: "set hs = quotes_at (quote l) ?r ?lid"
    and cnt: "unat (leg_quote_count leg) = length hs" "length hs \<le> unat ?mq" using hs(1) by (auto simp: chain_at_def)
  note L = let_go_spec[OF inv h]
  have chain2: "leg_chain (quote (let_go h q l)) (leg_quotes_head leg) hs"
    by (rule leg_chain_frame[OF chain]) (use h L(3) in \<open>auto simp: record_setters\<close>)
  have rec2: "request (let_go h q l) ?r = Some rec" using rec L(2) by simp
  obtain l3 head' where u: "unlink_quote ?r ?lid h (let_go h q l) = Some l3" and inv3: "ledger_inv l3"
    and c3: "leg_chain (quote l3) head' (remove1 h hs)"
    and r3: "request l3 = (request (let_go h q l))(?r \<mapsto> request_leg_update ?lid (lowered head') rec)"
    and cl3: "claims l3 = claims (let_go h q l)" and ct3: "contract_at l3 = contract_at (let_go h q l)"
    and q3: "quotes_of l3 = quotes_of (let_go h q l)"
    and o3: "\<And>k. k \<notin> set hs \<Longrightarrow> quote l3 k = quote (let_go h q l) k"
    by (rule unlink_quote_spec[OF L(1) rec2 rec(3) chain2 hs(2)]) blast
  obtain q' where q': "quote l3 h = Some q'" "q_claim q' = None"
    using fun_cong[OF q3, of h] L(3) by (auto simp: quotes_of_def dest: arg_cong[of _ _ q_claim])
  define l' where "l' = cp_close_quote h l3"
  note R = remove_quote_spec[OF inv3 q', folded cp_close_quote_def, folded l'_def]
  have ql': "quotes_of l' = (quotes_of l)(h := None)"
    using q3 L(3) R(2) by (auto simp: fun_eq_iff quotes_of_def)
  have rl': "requests_of l' = requests_of l"
    using R(3) r3 L(2) rec(1) by (auto simp: fun_eq_iff requests_of_def bare_request_update_links)
  have cll': "claims l' = disown (OwnerQuote h) (claims l)" using R(5) cl3 L(4) by simp
  have ctl': "contract_at l' = contract_at l" using contract_at_cong[OF R(6)] ct3 L(5) by simp
  have at': "quotes_at (quote l') ?r ?lid = set hs - {h}"
    unfolding set_hs quotes_at_bare[symmetric] ql' by (auto simp: quotes_at_def)
  have dist: "distinct hs" by (rule leg_chain_distinct[OF quote_index_inj chain])
  have "chains_ok ?mq (request l') (quote l')"
  proof (rule chains_ok_update[OF I(2), where r = ?r and lid = ?lid and A = "set hs"])
    fix rec' leg' assume "request l' ?r = Some rec'" "request_leg rec' ?lid = Some leg'"
    then have leg': "leg' = lowered head' leg" using R(3) r3 rec(3) by (auto simp: request_leg_of_update)
    have "leg_chain (quote l') head' (remove1 h hs)"
      by (rule leg_chain_frame[OF c3]) (use dist R(2) in \<open>auto simp: set_remove1_eq\<close>)
    moreover have "unat (saturating_sub (leg_quote_count leg) 1) = length (remove1 h hs)"
      using cnt hs(2) by (simp add: length_remove1 unat_saturating_sub)
    ultimately have "chain_at ?mq (quote l') ?r ?lid leg' (remove1 h hs)"
      using cnt dist at' hs(2) by (simp add: chain_at_def leg' lowered_def lower_count_def length_remove1 set_remove1_eq)
    then show "\<exists>hs. chain_at ?mq (quote l') ?r ?lid leg' hs" by blast
  next
    fix r' rec' lid' leg'
    assume a: "(r', lid') \<noteq> (?r, ?lid)" "request l' r' = Some rec'" "\<not> request_state_is_terminal (rq_state rec')"
      "request_leg rec' lid' = Some leg'"
    then show "\<exists>rec leg. request l r' = Some rec \<and> \<not> request_state_is_terminal (rq_state rec) \<and>
        request_leg rec lid' = Some leg \<and> tip leg' = tip leg"
      using R(3) r3 L(2) rec(1) by (cases "r' = ?r") (auto simp: request_leg_of_update)
  next
    fix k assume "k \<notin> set hs"
    then show "map_option place (quote l' k) = map_option place (quote l k)"
      using o3[of k] R(2) L(3) hs(2) by auto
  next
    fix k qk assume k: "k \<in> set hs" and "quote l k = Some qk \<or> quote l' k = Some qk"
    then have "quotes_of l k = Some (bare_quote qk)" using fun_cong[OF ql', of k] by (cases "quote l k") (auto simp: quotes_of_def split: if_splits)
    moreover from k have "k \<in> quotes_at (quotes_of l) ?r ?lid" by (simp add: quotes_at_bare set_hs)
    ultimately show "q_request qk = ?r \<and> q_leg qk = ?lid" by (auto simp: quotes_at_def)
  qed
  moreover have "market_ok cfg t S (contract_at l') (requests_of l') (quotes_of l') (claims l')"
    unfolding ql' rl' cll' ctl' by (rule market_ok_retire[OF I(3), where q = "bare_quote q"]) (use h in \<open>simp_all add: quotes_of_def\<close>)
  ultimately have "market_inv cfg t S l'" using R(1) by (simp add: market_inv_def)
  then show thesis using u ql' rl' cll' ctl' that unfolding l'_def by blast
qed

section \<open>Retiring the quotes of a leg\<close>

lemma disown_one: "disown (OwnerQuote h) cl = disown_all {h} cl"
  by (auto simp: disown_def disown_all_def fun_eq_iff split: option.split res_owner.split)

text \<open>The market of \<open>l'\<close> is that of \<open>l\<close> without the quotes \<open>A\<close> and their claims.\<close>

definition retires :: "ledger \<Rightarrow> quote_idx set \<Rightarrow> ledger \<Rightarrow> bool" where
  "retires l A l' \<longleftrightarrow> quotes_of l' = (\<lambda>k. if k \<in> A then None else quotes_of l k) \<and> requests_of l' = requests_of l \<and>
     claims l' = disown_all A (claims l) \<and> contract_at l' = contract_at l"

lemma retires_refl [simp]: "retires l {} l"
  by (simp add: retires_def)

lemma retires_trans: "retires l A l' \<Longrightarrow> retires l' B l'' \<Longrightarrow> retires l (A \<union> B) l''"
  by (simp add: retires_def) (auto simp: fun_eq_iff)

definition push_events :: "event list \<Rightarrow> event_buffer \<Rightarrow> event_buffer" where
  "push_events es b = fold eb_push es b"

lemma push_events_simps [simp]:
  "push_events [] b = b" "push_events es (eb_push e b) = push_events (e # es) b"
  "eb_push e (push_events es b) = push_events (es @ [e]) b"
  "push_events es' (push_events es b) = push_events (es @ es') b"
  by (simp_all add: push_events_def)

lemma push_events_one: "eb_push e b = push_events [e] b"
  by (simp add: push_events_def)

lemma push_events_fit:
  "eb_len b + length es \<le> eb_capacity b \<Longrightarrow> eb_events (push_events es b) = eb_events b @ es"
  "eb_len b + length es \<le> eb_capacity b \<Longrightarrow> eb_dropped (push_events es b) = eb_dropped b"
  using eb_push_all[of b es] by (simp_all add: push_events_def foldl_conv_fold)

definition release_event :: "quote_reject_reason \<Rightarrow> ts \<Rightarrow> quote_map \<Rightarrow> quote_idx \<Rightarrow> event" where
  "release_event reason now qt h = (let q = the (qt h) in
     if quote_is_live_at q now then QuoteRejected h (q_maker q) reason else QuoteExpired h (q_maker q))"

lemma live_bare [simp]: "quote_is_live_at (bare_quote q) now = quote_is_live_at q now"
  by (simp add: quote_is_live_at_def)

lemma release_one_spec:
  assumes inv: "market_inv cfg t S l" and h: "quotes_of l h = Some q" "q_state q = QuoteActive" "q_request q = r" "q_leg q = lid"
  shows "\<exists>l'. release_one r lid now reason h (l, b) = Some (l', eb_push (release_event reason now (quotes_of l) h) b) \<and>
    market_inv cfg t S l' \<and> retires l {h} l'"
proof -
  from h obtain q0 where q0: "quote l h = Some q0" "q = bare_quote q0" "q_state q0 = QuoteActive" "q_request q0 = r" "q_leg q0 = lid"
    by (auto simp: quotes_of_Some)
  obtain l3 where l3: "unlink_quote r lid h (let_go h q0 l) = Some l3" "market_inv cfg t S (cp_close_quote h l3)"
    "quotes_of (cp_close_quote h l3) = (quotes_of l)(h := None)" "requests_of (cp_close_quote h l3) = requests_of l"
    "claims (cp_close_quote h l3) = disown (OwnerQuote h) (claims l)" "contract_at (cp_close_quote h l3) = contract_at l"
    using retire_spec[OF inv q0(1,3)] q0(4,5) by metis
  have "release_one r lid now reason h (l, b)
      = Some (cp_close_quote h l3, eb_push (release_event reason now (quotes_of l) h) b)"
    using l3(1) q0 h(1) unfolding release_one_def let_go_def by (simp add: release_event_def Let_def)
  moreover have "retires l {h} (cp_close_quote h l3)"
    using l3(3-6) by (auto simp: retires_def disown_one fun_eq_iff)
  ultimately show ?thesis using l3(2) by blast
qed

definition active_at :: "ledger \<Rightarrow> req_idx \<Rightarrow> leg_id \<Rightarrow> quote_idx \<Rightarrow> bool" where
  "active_at l r lid h \<longleftrightarrow> (\<exists>q. quotes_of l h = Some q \<and> q_state q = QuoteActive \<and> q_request q = r \<and> q_leg q = lid)"

lemma release_many_spec:
  assumes "market_inv cfg t S l" and "\<forall>h \<in> set hs. active_at l r lid h" and "distinct hs"
  shows "\<exists>l'. fold_opt (release_one r lid now reason) hs (l, b)
      = Some (l', push_events (map (release_event reason now (quotes_of l)) hs) b) \<and>
    market_inv cfg t S l' \<and> retires l (set hs) l'"
  using assms
proof (induction hs arbitrary: l b)
  case (Cons h hs)
  from Cons.prems(2) obtain q where "quotes_of l h = Some q" "q_state q = QuoteActive" "q_request q = r" "q_leg q = lid"
    by (auto simp: active_at_def)
  from release_one_spec[OF Cons.prems(1) this, of now reason b] obtain l1 where
    l1: "release_one r lid now reason h (l, b) = Some (l1, eb_push (release_event reason now (quotes_of l) h) b)"
      "market_inv cfg t S l1" "retires l {h} l1" by blast
  have same: "quotes_of l1 k = quotes_of l k" if "k \<in> set hs" for k
    using that l1(3) Cons.prems(3) by (auto simp: retires_def)
  have "\<forall>k \<in> set hs. active_at l1 r lid k" using Cons.prems(2) same by (simp add: active_at_def)
  from Cons.IH[OF l1(2) this, of "eb_push (release_event reason now (quotes_of l) h) b"] Cons.prems(3) obtain l' where
    l': "fold_opt (release_one r lid now reason) hs (l1, eb_push (release_event reason now (quotes_of l) h) b)
        = Some (l', push_events (map (release_event reason now (quotes_of l1)) hs) (eb_push (release_event reason now (quotes_of l) h) b))"
      "market_inv cfg t S l'" "retires l1 (set hs) l'" by auto
  have "map (release_event reason now (quotes_of l1)) hs = map (release_event reason now (quotes_of l)) hs"
    using same by (simp add: release_event_def)
  with l1(1) l' retires_trans[OF l1(3) l'(3)] show ?case by auto
qed simp

text \<open>The doomed array holds every quote of the chain but the kept one.\<close>

definition kept_is :: "selection option \<Rightarrow> quote_idx \<Rightarrow> bool" where
  "kept_is keep h \<longleftrightarrow> (\<exists>k. keep = Some k \<and> sel_quote k = h)"

lemma doom_fold:
  "length ds + length hs \<le> N \<Longrightarrow>
     fold (doom keep) hs (map Some ds @ replicate (N - length ds) None, length ds)
     = (let ds' = ds @ filter (\<lambda>h. \<not> kept_is keep h) hs in (map Some ds' @ replicate (N - length ds') None, length ds'))"
proof (induction hs arbitrary: ds)
  case (Cons h hs)
  show ?case
  proof (cases "kept_is keep h")
    case True
    then have "doom keep h dc = dc" for dc by (auto simp: doom_def kept_is_def)
    with Cons True show ?thesis by simp
  next
    case False
    then have no: "\<not> (case keep of None \<Rightarrow> False | Some k \<Rightarrow> sel_quote k = h)" by (auto simp: kept_is_def split: option.splits)
    have "N - length ds = Suc (N - Suc (length ds))" using Cons.prems by simp
    then have "doom keep h (map Some ds @ replicate (N - length ds) None, length ds)
        = (map Some (ds @ [h]) @ replicate (N - length (ds @ [h])) None, length (ds @ [h]))"
      using no Cons.prems by (simp add: doom_def list_update_append)
    with Cons.IH[of "ds @ [h]"] Cons.prems False show ?thesis by (simp add: Let_def)
  qed
qed (simp add: Let_def)

lemma walk_leg_doomed:
  assumes hs: "chain_at mq (quote l) r lid leg hs" and mq: "unat mq \<le> MAX_QUOTES_PER_LEG"
  shows "\<exists>arr n. walk_leg l leg (doom keep) (replicate MAX_QUOTES_PER_LEG None, 0) = Some (arr, n) \<and>
    somes arr = filter (\<lambda>h. \<not> kept_is keep h) hs"
proof -
  have "length hs \<le> MAX_QUOTES_PER_LEG" using hs mq by (simp add: chain_at_def)
  with doom_fold[of "[]" hs MAX_QUOTES_PER_LEG keep] leg_walk_chain[of l "leg_quotes_head leg" hs "doom keep"] hs
  show ?thesis by (simp add: walk_leg_def chain_at_def Let_def)
qed

text \<open>\<open>release_leg\<close>: every active quote of the leg but the kept one goes, in the order of the chain.\<close>

lemma release_leg_spec:
  assumes inv: "market_inv cfg t S l" and mq: "unat (max_quotes_per_leg cfg) \<le> MAX_QUOTES_PER_LEG"
    and rec: "requests_of l r = Some rec" "\<not> request_state_is_terminal (rq_state rec)" "request_leg rec lid = Some leg"
    and act: "\<And>h. h \<in> quotes_at (quotes_of l) r lid \<Longrightarrow> \<not> kept_is keep h \<Longrightarrow> active_at l r lid h"
  shows "\<exists>l' hs. release_leg r lid keep now reason (l, b)
      = Some (l', push_events (map (release_event reason now (quotes_of l)) hs) b) \<and>
    distinct hs \<and> set hs = {h \<in> quotes_at (quotes_of l) r lid. \<not> kept_is keep h} \<and>
    length hs \<le> unat (max_quotes_per_leg cfg) \<and> market_inv cfg t S l' \<and> retires l (set hs) l'"
proof -
  note I = market_invD[OF inv]
  from rec obtain rec0 leg0 where rec0: "request l r = Some rec0" "\<not> request_state_is_terminal (rq_state rec0)"
    "request_leg rec0 lid = Some leg0" by (auto simp: requests_of_Some)
  with I(2) obtain hs where hs: "chain_at (max_quotes_per_leg cfg) (quote l) r lid leg0 hs"
    unfolding chains_ok_def by blast
  let ?ds = "filter (\<lambda>h. \<not> kept_is keep h) hs"
  from walk_leg_doomed[OF hs mq, of keep] obtain arr n where
    arr: "walk_leg l leg0 (doom keep) (replicate MAX_QUOTES_PER_LEG None, 0) = Some (arr, n)" "somes arr = ?ds" by blast
  have dist: "distinct hs" using hs leg_chain_distinct[OF quote_index_inj] by (auto simp: chain_at_def)
  have set_ds: "set ?ds = {h \<in> quotes_at (quotes_of l) r lid. \<not> kept_is keep h}"
    using hs by (auto simp: chain_at_def quotes_at_bare)
  with act have "\<forall>h \<in> set ?ds. active_at l r lid h" by auto
  from release_many_spec[OF inv this, of now reason b] dist obtain l' where
    l': "fold_opt (release_one r lid now reason) ?ds (l, b) = Some (l', push_events (map (release_event reason now (quotes_of l)) ?ds) b)"
      "market_inv cfg t S l'" "retires l (set ?ds) l'" by auto
  have "release_leg r lid keep now reason (l, b) = fold_opt (release_one r lid now reason) (somes arr) (l, b)"
    using rec0 arr(1) by (simp add: release_leg_def leg_of_def)
  moreover have "length ?ds \<le> unat (max_quotes_per_leg cfg)"
    by (rule le_trans[OF length_filter_le]) (use hs in \<open>simp add: chain_at_def\<close>)
  ultimately show ?thesis using l' set_ds dist arr(2) by (intro exI[of _ l'] exI[of _ ?ds]) (simp del: set_filter)
qed

end
