(* ===== verification/Market_Moves.thy ===== *)
theory Market_Moves
  imports Quote_Moves
begin

text \<open>
  The moves of the market as updates of its maps: a quote is opened, a leg's best price published, a
  winner consumed, a settlement begun and finished, a request opened and rejected, a contract
  registered or resolved. Each of them preserves the market part of the invariant.
\<close>

text \<open>A claim is written or rewritten, and the claims of the other owners stay right.\<close>

lemma claims_ok_write:
  assumes ok: "claims_ok rq qt cl" and new: "claim_ok rq' qt' a m ow k"
    and other: "\<And>a' m' ow' k'. claim_ok rq qt a' m' ow' k' \<Longrightarrow> ow' \<noteq> ow \<Longrightarrow> claim_ok rq' qt' a' m' ow' k'"
    and only: "\<And>j g' a' m' k'. cl j = Some (g', a', m', ow, k') \<Longrightarrow> j = i"
  shows "claims_ok rq' qt' (cl(i \<mapsto> (g, a, m, ow, k)))"
  unfolding claims_ok_def
proof (intro allI impI)
  fix j g' a' m' ow' k' assume j: "(cl(i \<mapsto> (g, a, m, ow, k))) j = Some (g', a', m', ow', k')"
  show "claim_ok rq' qt' a' m' ow' k'"
  proof (cases "j = i")
    case True
    then show ?thesis using j new by simp
  next
    case False
    with j have "cl j = Some (g', a', m', ow', k')" by simp
    moreover from this only[of j g' a' m' k'] False have "ow' \<noteq> ow" by auto
    ultimately show ?thesis using other claim_okD[OF ok] by blast
  qed
qed

section \<open>Opening a quote\<close>

lemma market_ok_open_quote:
  assumes ok: "market_ok cfg t None ct rq qt cl" and h: "qt h = None" and i: "cl i = None"
    and q: "q_state q = QuoteActive" "q_claim q \<noteq> None" "q_price q \<le> UNIT"
    and rec: "rq (q_request q) = Some rec" "rq_state rec = ReqOpen" "request_leg rec (q_leg q) = Some leg" "leg_size leg \<le> q_size q"
    and m: "maker_contribution (leg_size leg) (q_price q) = Some m"
    and fresh: "\<And>k q'. qt k = Some q' \<Longrightarrow> q_request q' = q_request q \<Longrightarrow> q_leg q' = q_leg q \<Longrightarrow> q_maker q' \<noteq> q_maker q"
  shows "market_ok cfg t None ct rq (qt(h \<mapsto> q)) (cl(i \<mapsto> (g, q_maker q, m, OwnerQuote h, OnExpiry (q_expires_at q))))"
  unfolding market_ok_def
proof (intro conjI)
  note O = market_okD[OF ok]
  have "quote_ok t None rq q"
  proof (rule quote_okI)
    show "rq (q_request q) = Some rec" "request_leg rec (q_leg q) = Some leg" "leg_size leg \<le> q_size q" "q_price q \<le> UNIT"
      by fact+
  qed (simp add: q rec)
  then show "quotes_ok t None rq (qt(h \<mapsto> q))" using O(1) by (simp add: quotes_ok_def)
  show "requests_ok cfg t ct rq (qt(h \<mapsto> q))"
    by (rule requests_ok_fewer[OF O(2)]) (use rec in \<open>auto simp: unquoted_def\<close>)
  have live: "q_state q' \<noteq> QuoteConsumed" if "qt k = Some q'" "q_request q' = q_request q" for k q'
    by (rule quote_okD[OF O(1) that(1)]) (use rec that in auto)
  show "unique_ok (qt(h \<mapsto> q))"
    unfolding unique_ok_def
  proof (intro allI impI)
    fix k k' x x' assume a: "(qt(h \<mapsto> q)) k = Some x" "(qt(h \<mapsto> q)) k' = Some x'" "q_request x = q_request x'"
      "q_leg x = q_leg x'" "q_maker x = q_maker x' \<or> q_state x = QuoteConsumed"
    show "k = k'"
      using a fresh live q(1) unique_okD[OF O(3) _ _ a(3,4,5), of k k'] by (cases "k = h"; cases "k' = h") auto
  qed
  have new: "claim_ok rq (qt(h \<mapsto> q)) (q_maker q) m (OwnerQuote h) (OnExpiry (q_expires_at q))"
    using rec m q by (simp add: claim_ok_def)
  have keep: "filled qt r rec m \<Longrightarrow> filled (qt(h \<mapsto> q)) r rec m" for r rec m
    by (erule filled_mono) (use h in auto)
  show "claims_ok rq (qt(h \<mapsto> q)) (cl(i \<mapsto> (g, q_maker q, m, OwnerQuote h, OnExpiry (q_expires_at q))))"
  proof (rule claims_ok_write[OF O(4) new])
    show "claim_ok rq (qt(h \<mapsto> q)) a' m' ow' k'" if "claim_ok rq qt a' m' ow' k'" for a' m' ow' k'
      using that h keep by (auto simp: claim_ok_def split: res_owner.splits claim_kind.splits)
    show "j = i" if "cl j = Some (g', a', m', OwnerQuote h, k')" for j g' a' m' k'
      using claim_okD[OF O(4) that] h by (simp add: claim_ok_def)
  qed
qed

section \<open>Publishing a price\<close>

text \<open>\<open>rec'\<close> is \<open>rec\<close> but for the published prices, each within the leg's limit.\<close>

definition same_terms :: "leg \<Rightarrow> leg \<Rightarrow> bool" where
  "same_terms leg leg' \<longleftrightarrow> leg_contract leg' = leg_contract leg \<and> leg_side leg' = leg_side leg \<and>
     leg_size leg' = leg_size leg \<and> leg_limit leg' = leg_limit leg \<and>
     (leg_published leg' = leg_published leg \<or> (\<exists>p. leg_published leg' = Some p \<and> p \<le> leg_limit leg))"

lemma same_terms_refl [simp]: "same_terms leg leg"
  by (simp add: same_terms_def)

lemma leg_ok_terms: "same_terms leg leg' \<Longrightarrow> leg_ok cfg ct d leg \<Longrightarrow> leg_ok cfg ct d leg'"
  by (auto simp: leg_ok_def same_terms_def)

lemma request_leg_nth: "request_leg rec lid = Some leg \<longleftrightarrow>
    unat lid < unat (rq_n_legs rec) \<and> unat (rq_n_legs rec) \<le> length (rq_legs rec) \<and> leg = rq_legs rec ! unat lid"
  by (auto simp: request_leg_def request_legs_def nth_opt_def)

lemma request_leg_update_nth:
  "k < length (rq_legs r) \<Longrightarrow> rq_legs (request_leg_update lid f r) ! k =
     (if k = unat lid \<and> k < unat (rq_n_legs r) then f (rq_legs r ! k) else rq_legs r ! k)"
  by (auto simp: request_leg_update_def nth_opt_def)

definition terms_kept :: "request \<Rightarrow> request \<Rightarrow> bool" where
  "terms_kept rec rec' \<longleftrightarrow> rq_requester rec' = rq_requester rec \<and> rq_deadline rec' = rq_deadline rec \<and>
     rq_state rec' = rq_state rec \<and> rq_n_legs rec' = rq_n_legs rec \<and> rq_claim rec' = rq_claim rec \<and>
     length (rq_legs rec') = length (rq_legs rec) \<and>
     (\<forall>k<unat (rq_n_legs rec). same_terms (rq_legs rec ! k) (rq_legs rec' ! k))"

lemma terms_kept_sums:
  "terms_kept rec rec' \<Longrightarrow> worst_case rec' = worst_case rec"
  "terms_kept rec rec' \<Longrightarrow> filled qt r rec' m = filled qt r rec m"
  by (auto simp: terms_kept_def worst_case_def filled_def same_terms_def intro!: sum.cong)

lemma terms_kept_leg:
  assumes "terms_kept rec rec'" and "unat (rq_n_legs rec) \<le> length (rq_legs rec)"
  shows "request_leg rec lid = Some leg \<Longrightarrow> \<exists>leg'. request_leg rec' lid = Some leg' \<and> same_terms leg leg'"
    and "request_leg rec' lid = Some leg' \<Longrightarrow> \<exists>leg. request_leg rec lid = Some leg \<and> same_terms leg leg'"
  using assms by (auto simp: terms_kept_def request_leg_nth)

lemma market_ok_terms:
  assumes ok: "market_ok cfg t S ct rq qt cl" and rec: "rq r = Some rec" and terms: "terms_kept rec rec'"
  shows "market_ok cfg t S ct (rq(r \<mapsto> rec')) qt cl"
  unfolding market_ok_def
proof (intro conjI)
  note O = market_okD[OF ok]
  note R = request_okD[OF O(2) rec]
  have len: "unat (rq_n_legs rec) \<le> length (rq_legs rec)" using request_ok_fields(1,3)[OF R] by simp
  note legs = terms_kept_leg[OF terms len]
  have st: "rq_state rec' = rq_state rec" "rq_requester rec' = rq_requester rec" "rq_deadline rec' = rq_deadline rec"
    "rq_claim rec' = rq_claim rec" "rq_n_legs rec' = rq_n_legs rec" "length (rq_legs rec') = length (rq_legs rec)"
    using terms by (simp_all add: terms_kept_def)
  show "quotes_ok t S (rq(r \<mapsto> rec')) qt"
    unfolding quotes_ok_def
  proof (intro allI impI)
    fix h q assume h: "qt h = Some q"
    show "quote_ok t S (rq(r \<mapsto> rec')) q"
    proof (cases "q_request q = r")
      case False
      with O(1) h show ?thesis by (auto simp: quotes_ok_def quote_ok_def)
    next
      case True
      have "quote_ok t S rq q" using O(1) h by (simp add: quotes_ok_def)
      with True rec obtain leg where leg: "request_leg rec (q_leg q) = Some leg" "leg_size leg \<le> q_size q" "q_price q \<le> UNIT"
        and s: "case q_state q of QuoteActive \<Rightarrow> rq_state rec = ReqOpen \<and> (q_claim q = None \<longrightarrow> q_expires_at q \<le> t)
          | QuoteConsumed \<Rightarrow> q_claim q \<noteq> None \<and> (S = Some (q_request q) \<or> is_settling (rq_state rec)) | QuoteReleased \<Rightarrow> False"
        by (auto simp: quote_ok_def)
      from legs(1)[OF leg(1)] obtain leg' where "request_leg rec' (q_leg q) = Some leg'" "leg_size leg' = leg_size leg"
        by (auto simp: same_terms_def)
      with leg s True show ?thesis by (cases "q_state q") (auto simp: quote_ok_def st)
    qed
  qed
  have "request_static cfg ct rec'"
    using R legs(2) leg_ok_terms unfolding request_ok_def request_static_def st by blast
  moreover have "request_status cfg t qt r rec'"
    using R unfolding request_ok_def request_status_def st by (simp split: request_state.splits)
  ultimately show "requests_ok cfg t ct (rq(r \<mapsto> rec')) qt" using O(2) by (simp add: requests_ok_def request_ok_def)
  show "unique_ok qt" by (rule O(3))
  have "claim_ok (rq(r \<mapsto> rec')) qt a m ow k" if c: "claim_ok rq qt a m ow k" for a m ow k
  proof (cases ow)
    case (OwnerRequest r')
    then show ?thesis using c rec terms_kept_sums[OF terms] by (cases k) (auto simp: claim_ok_def st)
  next
    case (OwnerQuote h)
    with c obtain q rec0 leg where q: "qt h = Some q" "rq (q_request q) = Some rec0" "request_leg rec0 (q_leg q) = Some leg"
      "a = q_maker q" "maker_contribution (leg_size leg) (q_price q) = Some m"
      and k: "case k of OnExpiry e \<Rightarrow> e = q_expires_at q \<and> q_state q = QuoteActive
           | OnCommitted r \<Rightarrow> r = q_request q \<and> q_state q = QuoteConsumed" by (auto simp: claim_ok_def)
    show ?thesis
    proof (cases "q_request q = r")
      case True
      with q rec legs(1)[of "q_leg q" leg] obtain leg' where "request_leg rec' (q_leg q) = Some leg'" "leg_size leg' = leg_size leg"
        by (auto simp: same_terms_def)
      with True q k show ?thesis by (simp add: claim_ok_def OwnerQuote)
    next
      case False
      with q k show ?thesis by (simp add: claim_ok_def OwnerQuote)
    qed
  qed
  then show "claims_ok (rq(r \<mapsto> rec')) qt cl" using O(4) by (simp add: claims_ok_def)
qed

lemma terms_kept_update:
  assumes "unat (rq_n_legs rec) \<le> length (rq_legs rec)" and "\<And>leg. request_leg rec lid = Some leg \<Longrightarrow> same_terms leg (f leg)"
  shows "terms_kept rec (request_leg_update lid f rec)"
  using assms by (auto simp: terms_kept_def request_leg_update_nth request_leg_nth)

section \<open>Consuming a winner\<close>

lemma market_ok_consume:
  assumes ok: "market_ok cfg t (Some r) ct rq qt cl" and h: "qt h = Some q" "q_state q = QuoteActive" "q_request q = r"
    and c: "q_claim q \<noteq> None" and i: "cl i = Some (g, a, m, OwnerQuote h, OnExpiry e)"
    and only: "\<And>j g' a' m' k'. cl j = Some (g', a', m', OwnerQuote h, k') \<Longrightarrow> j = i"
    and alone: "\<And>k q'. qt k = Some q' \<Longrightarrow> q_request q' = r \<Longrightarrow> q_leg q' = q_leg q \<Longrightarrow> k = h"
  shows "market_ok cfg t (Some r) ct rq (qt(h \<mapsto> quote_set_state QuoteConsumed q)) (cl(i \<mapsto> (g, a, m, OwnerQuote h, OnCommitted r)))"
  unfolding market_ok_def
proof (intro conjI)
  note O = market_okD[OF ok]
  let ?q = "quote_set_state QuoteConsumed q"
  have "quote_ok t (Some r) rq ?q"
    using O(1) h c unfolding quotes_ok_def quote_ok_def by fastforce
  then show "quotes_ok t (Some r) rq (qt(h \<mapsto> ?q))" using O(1) by (simp add: quotes_ok_def)
  show "requests_ok cfg t ct rq (qt(h \<mapsto> ?q))"
    by (rule requests_ok_fewer[OF O(2)]) (use h in \<open>auto simp: unquoted_def\<close>)
  show "unique_ok (qt(h \<mapsto> ?q))"
    unfolding unique_ok_def
  proof (intro allI impI)
    fix k k' x x' assume a: "(qt(h \<mapsto> ?q)) k = Some x" "(qt(h \<mapsto> ?q)) k' = Some x'" "q_request x = q_request x'"
      "q_leg x = q_leg x'" "q_maker x = q_maker x' \<or> q_state x = QuoteConsumed"
    show "k = k'"
    proof (cases "k = h \<or> k' = h")
      case True
      then show ?thesis using a(1-4) alone[of k x] alone[of k' x'] h(3) by (auto split: if_splits)
    next
      case False
      with a(1,2) unique_okD[OF O(3) _ _ a(3,4,5), of k k'] show ?thesis by simp
    qed
  qed
  have keep: "filled qt r' rec m' \<Longrightarrow> filled (qt(h \<mapsto> ?q)) r' rec m'" for r' rec m'
    by (erule filled_mono) (use h in auto)
  have other: "claim_ok rq (qt(h \<mapsto> ?q)) a' m' ow k" if "claim_ok rq qt a' m' ow k" "ow \<noteq> OwnerQuote h" for a' m' ow k
    using that keep by (auto simp: claim_ok_def split: res_owner.splits claim_kind.splits)
  have "claim_ok rq qt a m (OwnerQuote h) (OnExpiry e)" by (rule claim_okD[OF O(4) i])
  then have new: "claim_ok rq (qt(h \<mapsto> ?q)) a m (OwnerQuote h) (OnCommitted r)" using h by (auto simp: claim_ok_def)
  show "claims_ok rq (qt(h \<mapsto> ?q)) (cl(i \<mapsto> (g, a, m, OwnerQuote h, OnCommitted r)))"
    by (rule claims_ok_write[OF O(4) new other only])
qed

section \<open>Beginning a settlement\<close>

lemma market_ok_settle:
  assumes ok: "market_ok cfg t (Some r) ct rq qt cl" and rec: "rq r = Some rec" "rq_state rec = ReqOpen" "rq_claim rec \<noteq> None"
    and i: "cl i = Some (g, a, m, OwnerRequest r, OnExpiry e)"
    and only: "\<And>j g' a' m' k'. cl j = Some (g', a', m', OwnerRequest r, k') \<Longrightarrow> j = i"
    and cons: "\<And>k q. qt k = Some q \<Longrightarrow> q_request q = r \<Longrightarrow> q_state q = QuoteConsumed"
    and fill: "filled qt r rec m'" and d: "unat d \<le> unat (rq_deadline rec) + unat (max_settling_time cfg)"
  shows "market_ok cfg t None ct (rq(r \<mapsto> request_set_state (ReqSettling (nonce_of r) d) rec)) qt
    (cl(i \<mapsto> (g, a, m', OwnerRequest r, OnCommitted r)))" (is "market_ok cfg t None ct ?rq qt ?cl")
  unfolding market_ok_def
proof (intro conjI)
  note O = market_okD[OF ok]
  let ?rec = "request_set_state (ReqSettling (nonce_of r) d) rec"
  show "quotes_ok t None ?rq qt"
    unfolding quotes_ok_def
  proof (intro allI impI)
    fix h q assume h: "qt h = Some q"
    then have "quote_ok t (Some r) rq q" using O(1) by (simp add: quotes_ok_def)
    then show "quote_ok t None ?rq q"
      using rec cons[OF h] by (cases "q_request q = r") (auto simp: quote_ok_def split: quote_state.splits)
  qed
  have "request_ok cfg t ct qt r rec" by (rule request_okD[OF O(2) rec(1)])
  then have "request_ok cfg t ct qt r ?rec" using rec(3) d by (simp add: request_ok_def request_status_def)
  then show "requests_ok cfg t ct ?rq qt" using O(2) by (simp add: requests_ok_def)
  show "unique_ok qt" by (rule O(3))
  have fl: "filled qt r (request_set_state st rec) x = filled qt r rec x" for st x by (simp add: filled_def)
  have other: "claim_ok ?rq qt a' x ow k" if c: "claim_ok rq qt a' x ow k" "ow \<noteq> OwnerRequest r" for a' x ow k
  proof (cases ow)
    case (OwnerQuote h)
    with c obtain q rec0 leg where q: "qt h = Some q" "rq (q_request q) = Some rec0" "request_leg rec0 (q_leg q) = Some leg"
      "a' = q_maker q" "maker_contribution (leg_size leg) (q_price q) = Some x"
      and k: "case k of OnExpiry e \<Rightarrow> e = q_expires_at q \<and> q_state q = QuoteActive
           | OnCommitted r \<Rightarrow> r = q_request q \<and> q_state q = QuoteConsumed" by (auto simp: claim_ok_def)
    then show ?thesis using rec by (cases "q_request q = r") (auto simp: claim_ok_def OwnerQuote)
  next
    case (OwnerRequest r')
    with c show ?thesis by (auto simp: claim_ok_def)
  qed
  have "claim_ok rq qt a m (OwnerRequest r) (OnExpiry e)" by (rule claim_okD[OF O(4) i])
  then have new: "claim_ok ?rq qt a m' (OwnerRequest r) (OnCommitted r)" using rec fill by (auto simp: claim_ok_def fl)
  show "claims_ok ?rq qt ?cl" by (rule claims_ok_write[OF O(4) new other only])
qed

section \<open>Ending a request\<close>

text \<open>A request ends with no quote and no claim left of it.\<close>

lemma market_ok_end:
  assumes ok: "market_ok cfg t None ct rq qt cl" and rec: "rq r = Some rec" and st: "request_state_is_terminal st"
    and qt': "qt' = (\<lambda>h. case qt h of Some q \<Rightarrow> if q_request q = r then None else Some q | None \<Rightarrow> None)"
    and cl': "\<And>i g a m ow k. cl' i = Some (g, a, m, ow, k) \<Longrightarrow> cl i = Some (g, a, m, ow, k) \<and> ow \<noteq> OwnerRequest r \<and>
        (\<forall>h q. ow = OwnerQuote h \<longrightarrow> qt h = Some q \<longrightarrow> q_request q \<noteq> r)"
  shows "market_ok cfg t None ct (rq(r \<mapsto> request_set_state st (request_set_claim None rec))) qt' cl'" (is "market_ok _ _ _ _ ?rq _ _")
  unfolding market_ok_def
proof (intro conjI)
  note O = market_okD[OF ok]
  have q: "qt h = Some q \<and> q_request q \<noteq> r" if "qt' h = Some q" for h q
    using that by (auto simp: qt' split: option.splits if_splits)
  have q': "qt' h = Some q" if "qt h = Some q" "q_request q \<noteq> r" for h q
    using that by (simp add: qt')
  show "quotes_ok t None ?rq qt'"
    unfolding quotes_ok_def
  proof (intro allI impI)
    fix h x assume "qt' h = Some x"
    then have x: "qt h = Some x" "q_request x \<noteq> r" using q by auto
    from x(1) O(1) have "quote_ok t None rq x" by (simp add: quotes_ok_def)
    with x(2) show "quote_ok t None ?rq x" by (simp add: quote_ok_def)
  qed
  have "request_ok cfg t ct qt' r (request_set_state st (request_set_claim None rec))"
    using request_okD[OF O(2) rec] st q by (cases st) (auto simp: request_ok_def request_status_def unquoted_def)
  moreover have "requests_ok cfg t ct rq qt'"
    by (rule requests_ok_fewer[OF O(2)]) (use q in \<open>auto simp: unquoted_def\<close>)
  ultimately show "requests_ok cfg t ct ?rq qt'" by (simp add: requests_ok_def)
  show "unique_ok qt'" using O(3) q unfolding unique_ok_def by blast
  show "claims_ok ?rq qt' cl'"
    unfolding claims_ok_def
  proof (intro allI impI)
    fix i g a m ow k assume "cl' i = Some (g, a, m, ow, k)"
    from cl'[OF this] have c: "claim_ok rq qt a m ow k" "ow \<noteq> OwnerRequest r"
      "\<And>h q. ow = OwnerQuote h \<Longrightarrow> qt h = Some q \<Longrightarrow> q_request q \<noteq> r" using claim_okD[OF O(4)] by blast+
    show "claim_ok ?rq qt' a m ow k"
    proof (cases ow)
      case (OwnerQuote h)
      with c obtain x where x: "qt h = Some x" "q_request x \<noteq> r" by (auto simp: claim_ok_def)
      then show ?thesis using c q'[OF x] OwnerQuote by (simp add: claim_ok_def)
    next
      case (OwnerRequest r')
      with c have "r' \<noteq> r" by simp
      then have "filled qt r' rec' m \<Longrightarrow> filled qt' r' rec' m" for rec' by (auto elim!: filled_mono dest: q')
      with \<open>r' \<noteq> r\<close> c OwnerRequest show ?thesis by (cases k) (auto simp: claim_ok_def)
    qed
  qed
qed

section \<open>Opening a request\<close>

lemma market_ok_open_request:
  assumes ok: "market_ok cfg t None ct rq qt cl" and r: "rq r = None" and i: "cl i = None"
    and rec: "rq_state rec = ReqOpen" "rq_claim rec \<noteq> None" "request_static cfg ct rec" "unat m = worst_case rec"
  shows "market_ok cfg t None ct (rq(r \<mapsto> rec)) qt (cl(i \<mapsto> (g, rq_requester rec, m, OwnerRequest r, OnExpiry (rq_deadline rec))))"
    (is "market_ok _ _ _ _ ?rq _ _")
  unfolding market_ok_def
proof (intro conjI)
  note O = market_okD[OF ok]
  show "quotes_ok t None ?rq qt"
    unfolding quotes_ok_def
  proof (intro allI impI)
    fix h q assume "qt h = Some q"
    with O(1) have q: "quote_ok t None rq q" by (simp add: quotes_ok_def)
    then have "q_request q \<noteq> r" using r by (auto simp: quote_ok_def)
    with q show "quote_ok t None ?rq q" by (simp add: quote_ok_def)
  qed
  have "request_ok cfg t ct qt r rec" using rec by (auto simp: request_ok_def request_status_def)
  with O(2) show "requests_ok cfg t ct ?rq qt" by (simp add: requests_ok_def)
  show "unique_ok qt" by (rule O(3))
  have new: "claim_ok ?rq qt (rq_requester rec) m (OwnerRequest r) (OnExpiry (rq_deadline rec))"
    using rec by (simp add: claim_ok_def)
  show "claims_ok ?rq qt (cl(i \<mapsto> (g, rq_requester rec, m, OwnerRequest r, OnExpiry (rq_deadline rec))))"
  proof (rule claims_ok_write[OF O(4) new])
    fix a' m' ow' k' assume c: "claim_ok rq qt a' m' ow' k'" "ow' \<noteq> OwnerRequest r"
    then show "claim_ok ?rq qt a' m' ow' k'" using r
      by (cases ow') (auto simp: claim_ok_def split: if_splits)
  next
    show "j = i" if "cl j = Some (g', a', m', OwnerRequest r, k')" for j g' a' m' k'
      using claim_okD[OF O(4) that] r by (simp add: claim_ok_def)
  qed
qed

section \<open>The contract table\<close>

lemma market_ok_contracts:
  assumes ok: "market_ok cfg t S ct rq qt cl"
    and keep: "\<And>k c. ct k = Some c \<Longrightarrow> \<exists>c'. ct' k = Some c' \<and> c_event_date c' = c_event_date c"
  shows "market_ok cfg t S ct' rq qt cl"
proof -
  have leg: "leg_ok cfg ct' d leg" if "leg_ok cfg ct d leg" for d leg
  proof -
    from that obtain c where c: "ct (leg_contract leg) = Some c"
      "unat d + unat (max_settling_time cfg) < unat (c_event_date c)" unfolding leg_ok_def by blast
    from keep[OF c(1)] c(2) that show ?thesis by (auto simp: leg_ok_def)
  qed
  then have "request_ok cfg t ct qt r rec \<Longrightarrow> request_ok cfg t ct' qt r rec" for r rec
    unfolding request_ok_def request_static_def by blast
  with ok show ?thesis by (simp add: market_ok_def requests_ok_def)
qed

end
