(* ===== verification/Engine_Inv.thy ===== *)
theory Engine_Inv
  imports Market_Moves
begin

text \<open>
  The invariant of the engine of \<open>crates/core/src/engine.rs\<close>, and its preservation by every command
  handler. Each handler returns, keeps the configuration, emits only events that fit the buffer, and
  leaves a state that satisfies the invariant, whether it accepts the command or refuses it.
\<close>

section \<open>The invariant\<close>

definition engine_inv :: "ts \<Rightarrow> engine \<Rightarrow> bool" where
  "engine_inv t e \<longleftrightarrow> startable (e_config e) \<and> market_inv (e_config e) t None (e_ledger e)"

lemma engine_invD:
  assumes "engine_inv t e"
  shows "startable (e_config e)" and "market_inv (e_config e) t None (e_ledger e)" and "ledger_inv (e_ledger e)"
  using assms by (simp_all add: engine_inv_def market_inv_def)

text \<open>The events of a handler are appended, and all of them fit.\<close>

definition emits :: "event_buffer \<Rightarrow> event list \<Rightarrow> event_buffer \<Rightarrow> bool" where
  "emits b es b' \<longleftrightarrow> b' = push_events es b \<and> (es = [] \<or> eb_len b + length es \<le> eb_capacity b)"

lemma emits_none [simp]: "emits b [] b"
  by (simp add: emits_def)

lemma emits_one: "eb_headroom b 1 = Inr () \<Longrightarrow> emits b [ev] (eb_push ev b)"
  by (simp add: emits_def eb_headroom_iff push_events_one)

lemma emits_events: "emits b es b' \<Longrightarrow> eb_events b' = eb_events b @ es"
  by (auto simp: emits_def push_events_fit(1))

lemma emits_dropped: "emits b es b' \<Longrightarrow> eb_dropped b' = eb_dropped b"
  by (auto simp: emits_def push_events_fit(2))

lemma headroom_cases: "eb_headroom b n = Inr () \<or> eb_headroom b n = Inl BufferFull"
  by (simp add: eb_headroom_def Let_def)

text \<open>What every handler guarantees, whatever it answers.\<close>

definition handled :: "ts \<Rightarrow> world \<Rightarrow> outcome_of \<Rightarrow> bool" where
  "handled now w out \<longleftrightarrow> (\<exists>res e' b' es. out = Some (res, (e', b')) \<and> engine_inv now e' \<and>
     e_config e' = e_config (fst w) \<and> emits (snd w) es b')"

lemma handled_same: "engine_inv now (fst w) \<Longrightarrow> handled now w (Some (res, w))"
  by (cases w) (auto simp: handled_def intro: exI[of _ "[]"])

lemma handledI:
  "engine_inv now e' \<Longrightarrow> e_config e' = e_config e \<Longrightarrow> emits b es b' \<Longrightarrow> handled now (e, b) (Some (res, (e', b')))"
  by (auto simp: handled_def)

lemma engine_inv_ledger:
  "engine_inv t e \<Longrightarrow> market_inv (e_config e) t' None l \<Longrightarrow> engine_inv t' (e\<lparr>e_ledger := l\<rparr>)"
  by (simp add: engine_inv_def)

section \<open>Commands that move no claim\<close>

lemma market_inv_frame:
  assumes inv: "market_inv cfg t S l" and l': "ledger_inv l'" and same: "request l' = request l" "quote l' = quote l" "claims l' = claims l"
    and ct: "\<And>k c. contract_at l k = Some c \<Longrightarrow> \<exists>c'. contract_at l' k = Some c' \<and> c_event_date c' = c_event_date c"
  shows "market_inv cfg t S l'"
proof -
  note I = market_invD[OF inv]
  have "requests_of l' = requests_of l" "quotes_of l' = quotes_of l" using same by (simp_all add: fun_eq_iff requests_of_def quotes_of_def)
  with I market_ok_contracts[OF I(3) ct] l' same show ?thesis by (simp add: market_inv_def)
qed

lemma mirror_update_market:
  assumes inv: "market_inv cfg t S l" shows "market_inv cfg t S (snd (apply_mirror_update l a v))"
proof (rule market_inv_frame[OF inv mirror_update_inv[OF market_invD(1)[OF inv]]])
  fix k c assume "contract_at l k = Some c"
  then show "\<exists>c'. contract_at (snd (apply_mirror_update l a v)) k = Some c' \<and> c_event_date c' = c_event_date c"
    by (simp add: apply_mirror_update_def contract_at_def split: option.split)
qed (simp_all add: apply_mirror_update_def effects split: option.split)

lemma contract_write_maps:
  "request (l\<lparr>l_contracts := x\<rparr>) = request l" "quote (l\<lparr>l_contracts := x\<rparr>) = quote l" "claims (l\<lparr>l_contracts := x\<rparr>) = claims l"
  by (auto simp: fun_eq_iff request_def quote_def claims_def)

lemma register_contract_market:
  assumes inv: "market_inv cfg t S l" shows "market_inv cfg t S (snd (register_contract l k d))"
proof (rule market_inv_frame[OF inv register_contract_inv[OF market_invD(1)[OF inv]]])
  fix k' c assume "contract_at l k' = Some c"
  then show "\<exists>c'. contract_at (snd (register_contract l k d)) k' = Some c' \<and> c_event_date c' = c_event_date c"
    by (auto simp: register_contract_def contract_at_def vec_simps split: option.split)
qed (simp_all add: register_contract_def contract_write_maps split: option.split)

lemma oracle_status_date [simp]: "c_event_date (contract_set_oracle_status s c) = c_event_date c"
  by (cases s) (simp_all add: contract_set_oracle_status_def Let_def)

lemma set_oracle_status_market:
  assumes inv: "market_inv cfg t S l" shows "market_inv cfg t S (set_oracle_status k s l)"
proof (rule market_inv_frame[OF inv set_oracle_status_inv[OF market_invD(1)[OF inv]]])
  fix k' c assume "contract_at l k' = Some c"
  then show "\<exists>c'. contract_at (set_oracle_status k s l) k' = Some c' \<and> c_event_date c' = c_event_date c"
    by (auto simp: set_oracle_status_def contract_at_def vec_simps bind_eq_Some_conv split: option.split)
qed (simp_all add: set_oracle_status_def contract_write_maps)

lemma ledger_op_handled:
  assumes inv: "engine_inv now e" and keep: "market_inv (e_config e) now None (snd (f (e_ledger e)))"
  shows "handled now (e, b) (Some (lift_ledger_op f (e, b)))"
proof -
  obtain res l where f: "f (e_ledger e) = (res, l)" by (cases "f (e_ledger e)")
  have "handled now (e, b) (Some (lift_ledger res, (e\<lparr>e_ledger := l\<rparr>, b)))"
    by (rule handledI[where es = "[]"]) (use keep f in \<open>simp_all add: engine_inv_ledger[OF inv]\<close>)
  then show ?thesis by (simp add: lift_ledger_op_def f)
qed

lemma report_oracle_handled:
  assumes inv: "engine_inv now e"
  shows "handled now (e, b) (Some (report_oracle_status k s (e, b)))"
proof -
  have e': "engine_inv now (upd_ledger (Ledger.set_oracle_status k s) e)"
    unfolding upd_ledger_def by (rule engine_inv_ledger[OF inv set_oracle_status_market[OF engine_invD(2)[OF inv]]])
  have ok: "handled now (e, b) (Some (Inr (), (upd_ledger (Ledger.set_oracle_status k s) e,
      (case s of Final out \<Rightarrow> eb_push (ContractResolved k out) b | _ \<Rightarrow> b))))"
    if room: "eb_headroom b (case s of Final _ \<Rightarrow> 1 | _ \<Rightarrow> 0) = Inr ()"
  proof (cases "\<exists>out. s = Final out")
    case True
    then obtain out where "s = Final out" by blast
    with room e' show ?thesis by (intro handledI[where es = "[ContractResolved k out]"])
        (simp_all add: upd_ledger_def emits_one)
  next
    case False
    then have "(case s of Final out \<Rightarrow> eb_push (ContractResolved k out) b | _ \<Rightarrow> b) = b" by (cases s) auto
    with e' show ?thesis by (intro handledI[where es = "[]"]) (simp_all add: upd_ledger_def)
  qed
  show ?thesis
    unfolding report_oracle_status_def using ok inv
    by (auto simp: Let_def handled_same split: option.split)
qed

lemma settle_escrow_handled:
  assumes inv: "engine_inv now e"
  shows "handled now (e, b) (Some (settle_escrow escrow k now (e, b)))"
proof -
  have "handled now (e, b) (Some (Inr (), (e, eb_push (SettleIntent escrow k out) b)))" if "eb_headroom b 1 = Inr ()" for out
    by (rule handledI[where es = "[SettleIntent escrow k out]"]) (use inv that in \<open>simp_all add: emits_one\<close>)
  then show ?thesis
    unfolding settle_escrow_def using inv by (auto simp: handled_same split: option.split sum.split)
qed

section \<open>SubmitRequest\<close>

text \<open>What the leg loop knows after the first \<open>n\<close> legs.\<close>

definition admitted ::
  "config \<Rightarrow> ledger \<Rightarrow> ts \<Rightarrow> leg_spec list \<Rightarrow> nat \<Rightarrow> leg list \<times> open_leg list \<times> amount \<Rightarrow> bool" where
  "admitted cfg l now legs n acc \<longleftrightarrow> (case acc of (stored, opened, tot) \<Rightarrow>
     length stored = MAX_LEGS \<and> length opened = MAX_LEGS \<and> n \<le> length legs \<and>
     unat tot = (\<Sum>k<n. unat (ls_size (legs ! k)) * unat (ls_limit (legs ! k))) \<and>
     (\<forall>k<n. stored ! k = leg_new (ls_contract (legs ! k)) (ls_side (legs ! k)) (ls_size (legs ! k)) (ls_limit (legs ! k)) \<and>
        ls_size (legs ! k) \<noteq> 0 \<and> ls_limit (legs ! k) \<le> UNIT \<and>
        (\<exists>c. contract_at l (ls_contract (legs ! k)) = Some c \<and> unat now + unat (min_horizon cfg) < unat (c_event_date c))))"

lemma admit_leg_step:
  assumes adm: "admitted cfg l now legs n acc" and n: "n < MAX_LEGS" and step: "admit_leg cfg l now legs n acc = Inr acc'"
  shows "admitted cfg l now legs (Suc n) acc'"
proof -
  obtain stored opened tot where acc: "acc = (stored, opened, tot)" by (cases acc)
  from step obtain sp c horizon res tot' where sp: "nth_opt legs n = Some sp" "ls_size sp \<noteq> 0" "\<not> UNIT < ls_limit sp"
    and c: "contract_at l (ls_contract sp) = Some c" "checked_sub (c_event_date c) (min_horizon cfg) = Some horizon" "\<not> horizon \<le> now"
    and res: "size_checked_mul (ls_size sp) (ls_limit sp) = Some res" "amount_checked_add tot res = Some tot'"
    and acc': "acc' = (set_at stored n (leg_new (ls_contract sp) (ls_side sp) (ls_size sp) (ls_limit sp)),
        set_at opened n \<lparr> ol_contract = ls_contract sp, ol_side = ls_side sp, ol_size = ls_size sp \<rparr>, tot')"
    by (auto simp: admit_leg_def acc split: option.splits if_splits)
  have "unat (c_event_date c) = unat horizon + unat (min_horizon cfg)" using c(2) by (auto simp: checked_sub_Some_iff)
  then have date: "unat now + unat (min_horizon cfg) < unat (c_event_date c)" using c(3) by (simp add: word_less_nat_alt not_le)
  have leg: "n < length legs" "legs ! n = sp" using sp(1) by (auto simp: nth_opt_def split: if_splits)
  have sum: "unat tot' = unat tot + unat (ls_size sp) * unat (ls_limit sp)"
    using res by (simp add: machine_simps amount_checked_add_def)
  show ?thesis
    using adm n leg sum sp(2,3) c(1) date
    by (auto simp: admitted_def acc acc' set_at_def nth_list_update less_Suc_eq)
qed

lemma admit_legs:
  assumes "n \<le> MAX_LEGS" and "fold_res (admit_leg cfg l now legs) [0..<n] acc = Inr acc'" and "admitted cfg l now legs 0 acc"
  shows "admitted cfg l now legs n acc'"
  using assms
proof (induction n arbitrary: acc')
  case (Suc n)
  then obtain acc1 where "fold_res (admit_leg cfg l now legs) [0..<n] acc = Inr acc1" "admit_leg cfg l now legs n acc1 = Inr acc'"
    by (cases "fold_res (admit_leg cfg l now legs) [0..<n] acc";
        cases "admit_leg cfg l now legs n (projr (fold_res (admit_leg cfg l now legs) [0..<n] acc))")
      (auto simp: fold_res_append)
  with Suc admit_leg_step[of cfg l now legs n acc1 acc'] show ?case by simp
qed simp

lemma admitted_start: "admitted cfg l now legs 0 (replicate MAX_LEGS leg_default, replicate MAX_LEGS open_leg_default, 0)"
  by (simp add: admitted_def)

lemma leg_new_fields [simp]:
  "leg_contract (leg_new c s q p) = c" "leg_size (leg_new c s q p) = q" "leg_limit (leg_new c s q p) = p"
  "leg_published (leg_new c s q p) = None" "leg_quotes_head (leg_new c s q p) = NIL" "leg_quote_count (leg_new c s q p) = 0"
  by (simp_all add: leg_new_def)

lemma request_new_fields [simp]:
  "rq_requester (request_new a d legs n) = a" "rq_deadline (request_new a d legs n) = d" "rq_state (request_new a d legs n) = ReqOpen"
  "rq_n_legs (request_new a d legs n) = n" "rq_legs (request_new a d legs n) = legs" "rq_claim (request_new a d legs n) = None"
  "rq_committed_head (request_new a d legs n) = NIL"
  by (simp_all add: request_new_def)

text \<open>The timing of an admitted request: it can be settled only before the event dates of its legs.\<close>

lemma settles_before_event:
  assumes cfg: "startable cfg" and ttl: "\<not> ts_saturating_sub deadline now > max_request_ttl cfg"
    and date: "unat now + unat (min_horizon cfg) < d"
  shows "unat deadline + unat (max_settling_time cfg) < d"
proof -
  have "unat deadline - unat now \<le> unat (max_request_ttl cfg)"
    using ttl by (simp add: ts_saturating_sub_def word_less_nat_alt not_less unat_saturating_sub)
  moreover have "unat (max_request_ttl cfg) + unat (max_settling_time cfg) < unat (min_horizon cfg)"
    using cfg by (simp add: startable_def escrow_window_def)
  ultimately show ?thesis using date by linarith
qed

lemma admitted_static:
  assumes adm: "admitted cfg l now legs (unat n) (stored, opened, tot)" and cfg: "startable cfg"
    and n: "n \<noteq> 0" "\<not> unat n > unat (max_legs cfg)" and ttl: "\<not> ts_saturating_sub deadline now > max_request_ttl cfg"
  shows "request_static cfg (contract_at l) (request_new a deadline stored n)"
    and "unat tot = worst_case (request_new a deadline stored n)"
proof -
  have mx: "unat n \<le> MAX_LEGS" using n cfg by (simp add: startable_def)
  have "leg_ok cfg (contract_at l) deadline leg" if leg: "request_leg (request_new a deadline stored n) lid = Some leg" for lid leg
  proof -
    from leg have k: "unat lid < unat n" "leg = stored ! unat lid" by (auto simp: request_leg_nth)
    with adm obtain c where
      "leg = leg_new (ls_contract (legs ! unat lid)) (ls_side (legs ! unat lid)) (ls_size (legs ! unat lid)) (ls_limit (legs ! unat lid))"
      "ls_size (legs ! unat lid) \<noteq> 0" "ls_limit (legs ! unat lid) \<le> UNIT" "contract_at l (ls_contract (legs ! unat lid)) = Some c"
      "unat now + unat (min_horizon cfg) < unat (c_event_date c)" by (auto simp: admitted_def)
    with settles_before_event[OF cfg ttl] show ?thesis by (simp add: leg_ok_def)
  qed
  then show "request_static cfg (contract_at l) (request_new a deadline stored n)"
    using adm n mx by (simp add: request_static_def admitted_def word_le_nat_alt word_gt_0)
  show "unat tot = worst_case (request_new a deadline stored n)"
    using adm by (simp add: admitted_def worst_case_def)
qed

lemma requests_of_upd: "request l' = (request l)(r \<mapsto> rec) \<Longrightarrow> requests_of l' = (requests_of l)(r \<mapsto> bare_request rec)"
  by (auto simp: fun_eq_iff requests_of_def)

lemma quotes_of_upd: "quote l' = (quote l)(h \<mapsto> q) \<Longrightarrow> quotes_of l' = (quotes_of l)(h \<mapsto> bare_quote q)"
  by (auto simp: fun_eq_iff quotes_of_def)

lemma views_cong:
  "request l' = request l \<Longrightarrow> requests_of l' = requests_of l" "quote l' = quote l \<Longrightarrow> quotes_of l' = quotes_of l"
  by (auto simp: fun_eq_iff requests_of_def quotes_of_def)

lemma static_bare: "request_static cfg ct (bare_request rec) = request_static cfg ct rec"
proof -
  have "leg_ok cfg ct d (bare_leg g) = leg_ok cfg ct d g" for d g by (simp add: leg_ok_def)
  then show ?thesis by (fastforce simp: request_static_def)
qed

lemma worst_case_bare: "unat (rq_n_legs rec) \<le> length (rq_legs rec) \<Longrightarrow> worst_case (bare_request rec) = worst_case rec"
  by (simp add: worst_case_def bare_request_def)

text \<open>A request without quotes brings chains without entries.\<close>

lemma chains_ok_new_request:
  assumes ok: "chains_ok mq rq qt" and r: "rq r = None"
    and no: "\<And>h q. qt h = Some q \<Longrightarrow> q_request q \<noteq> r"
    and legs: "\<And>lid leg. request_leg rec lid = Some leg \<Longrightarrow> leg_quotes_head leg = NIL \<and> leg_quote_count leg = 0"
  shows "chains_ok mq (rq(r \<mapsto> rec)) qt"
  unfolding chains_ok_def
proof (intro allI impI)
  fix r' rec' lid leg
  assume a: "(rq(r \<mapsto> rec)) r' = Some rec'" "\<not> request_state_is_terminal (rq_state rec')" "request_leg rec' lid = Some leg"
  show "\<exists>hs. chain_at mq qt r' lid leg hs"
  proof (cases "r' = r")
    case True
    then have "chain_at mq qt r' lid leg []" using legs a no by (auto simp: chain_at_def quotes_at_def)
    then show ?thesis by blast
  next
    case False
    then show ?thesis using ok a unfolding chains_ok_def by auto
  qed
qed

lemma open_request_market:
  assumes inv: "market_inv cfg t None l" and cfg: "startable cfg"
    and new: "rq_state rec = ReqOpen" "rq_claim rec = None" "rq_committed_head rec = NIL"
    and static: "request_static cfg (contract_at l) rec" and m: "unat m = worst_case rec"
    and empty: "\<And>lid leg. request_leg rec lid = Some leg \<Longrightarrow> leg_quotes_head leg = NIL \<and> leg_quote_count leg = 0"
    and op: "open_request_reserving l rec m = Some (res, l')"
  shows "market_inv cfg t None l'"
proof -
  note I = market_invD[OF inv]
  from open_request_reserving_spec[OF I(1) new(2,3), of m] op have l': "ledger_inv l'" and
    sp: "case res of
       Inl _ \<Rightarrow> l' = l
     | Inr (q, h) \<Rightarrow> \<exists>b. account l (rq_requester rec) = Some b \<and> request l q = None \<and> claims l (h_index h) = None \<and>
         unat (mb_reserved b) + unat (mb_committed b) + unat m \<le> unat (mb_free b) \<and>
         request l' = (request l)(q \<mapsto> request_set_claim (Some h) rec) \<and> quote l' = quote l \<and>
         claims l' = (claims l)(h_index h \<mapsto>
           (h_generation h, rq_requester rec, m, OwnerRequest q, OnExpiry (rq_deadline rec))) \<and>
         money l' = (money l)(rq_requester rec \<mapsto> (mb_free b, mb_reserved b + m, mb_committed b)) \<and>
         l_contracts l' = l_contracts l" by auto
  show ?thesis
  proof (cases res)
    case (Inl x)
    with sp inv show ?thesis by simp
  next
    case (Inr x)
    obtain r h where x: "x = (r, h)" by (cases x)
    with sp Inr have r: "request l r = None" "claims l (h_index h) = None" and
      e: "request l' = (request l)(r \<mapsto> request_set_claim (Some h) rec)" "quote l' = quote l"
        "claims l' = (claims l)(h_index h \<mapsto> (h_generation h, rq_requester rec, m, OwnerRequest r, OnExpiry (rq_deadline rec)))"
        "l_contracts l' = l_contracts l" by auto
    let ?rec = "bare_request (request_set_claim (Some h) rec)"
    have none: "requests_of l r = None" using r by (simp add: requests_of_def)
    have "q_request q \<noteq> r" if "quote l k = Some q" for k q
    proof -
      have "quote_ok t None (requests_of l) (bare_quote q)"
        using market_okD(1)[OF I(3)] that by (auto simp: quotes_ok_def quotes_of_def)
      with none show ?thesis by (auto simp: quote_ok_def)
    qed
    with I(2) r(1) empty have "chains_ok (max_quotes_per_leg cfg) (request l') (quote l')"
      unfolding e by (intro chains_ok_new_request) auto
    moreover have "market_ok cfg t None (contract_at l) ((requests_of l)(r \<mapsto> ?rec)) (quotes_of l)
      ((claims l)(h_index h \<mapsto> (h_generation h, rq_requester ?rec, m, OwnerRequest r, OnExpiry (rq_deadline ?rec))))"
    proof (rule market_ok_open_request[OF I(3) none r(2)])
      show "request_static cfg (contract_at l) ?rec" using static by (simp only: static_bare static_setters)
      show "unat m = worst_case ?rec" using m static by (subst worst_case_bare) (auto simp: request_static_def)
    qed (simp_all add: new)
    ultimately show ?thesis
      using l' unfolding market_inv_def requests_of_upd[OF e(1)] views_cong(2)[OF e(2)] contract_at_cong[OF e(4)] e(3)
      by (simp add: new)
  qed
qed

lemma submit_request_handled:
  assumes inv: "engine_inv now e"
  shows "handled now (e, b) (submit_request a deadline legs n now (e, b))"
proof -
  note E = engine_invD[OF inv]
  have ok: "handled now (e, b) (case open_request_reserving (e_ledger e) (request_new a deadline stored n) tot of
         None \<Rightarrow> None
       | Some (Inl err, l') \<Rightarrow> Some (Inl (LedgerErr err), (e\<lparr> e_ledger := l' \<rparr>, b))
       | Some (Inr (r, _), l') \<Rightarrow> Some (Inr (), (e\<lparr> e_ledger := l' \<rparr>, eb_push (RequestOpened r deadline opened n) b)))"
    if f: "fold_res (admit_leg (e_config e) (e_ledger e) now legs) [0..<unat n]
                (replicate MAX_LEGS leg_default, replicate MAX_LEGS open_leg_default, 0) = Inr (stored, opened, tot)"
      and n: "n \<noteq> 0" "\<not> unat n > unat (max_legs (e_config e))"
      and ttl: "\<not> ts_saturating_sub deadline now > max_request_ttl (e_config e)"
      and room: "eb_headroom b 1 = Inr ()" for stored opened tot
  proof -
    have "unat n \<le> MAX_LEGS" using n E(1) by (simp add: startable_def)
    from admit_legs[OF this f admitted_start] have adm: "admitted (e_config e) (e_ledger e) now legs (unat n) (stored, opened, tot)" .
    let ?rec = "request_new a deadline stored n"
    note S = admitted_static[OF adm E(1) n ttl, of a]
    have empty: "leg_quotes_head leg = NIL \<and> leg_quote_count leg = 0" if "request_leg ?rec lid = Some leg" for lid leg
      using that adm by (auto simp: request_leg_nth admitted_def)
    obtain res l' where op: "open_request_reserving (e_ledger e) ?rec tot = Some (res, l')"
      using open_request_reserving_spec[OF E(3), of ?rec tot] by auto
    have "market_inv (e_config e) now None l'"
      by (rule open_request_market[OF E(2,1) _ _ _ S empty op]) simp_all
    then have e': "engine_inv now (e\<lparr>e_ledger := l'\<rparr>)" by (rule engine_inv_ledger[OF inv])
    show ?thesis
    proof (cases res)
      case (Inl err)
      then show ?thesis using op e' by (auto intro!: handledI[where es = "[]"])
    next
      case (Inr x)
      then show ?thesis using op e' room by (cases x) (auto intro!: handledI emits_one)
    qed
  qed
  note same = handled_same[of now "(e, b)", simplified, OF inv]
  show ?thesis
  proof (cases "n = 0 \<or> unat n > unat (max_legs (e_config e)) \<or> deadline \<le> now \<or>
      ts_saturating_sub deadline now > max_request_ttl (e_config e)")
    case True
    then have "\<exists>err. submit_request a deadline legs n now (e, b) = Some (Inl err, (e, b))"
      by (auto simp: submit_request_def Let_def)
    with same show ?thesis by auto
  next
    case False
    note def = submit_request_def[of a deadline legs n now "(e, b)", unfolded Let_def prod.case]
    show ?thesis
    proof (cases "fold_res (admit_leg (e_config e) (e_ledger e) now legs) [0..<unat n]
                (replicate MAX_LEGS leg_default, replicate MAX_LEGS open_leg_default, 0)")
      case (Inl err)
      with False same show ?thesis by (simp add: def)
    next
      case (Inr x)
      obtain stored opened tot where x: "x = (stored, opened, tot)" by (cases x)
      from headroom_cases[of b 1] show ?thesis
      proof
        assume room: "eb_headroom b 1 = Inr ()"
        from ok[OF Inr[unfolded x] _ _ _ room] False show ?thesis by (simp add: def Inr x room del: One_nat_def)
      next
        assume "eb_headroom b 1 = Inl BufferFull"
        with False same show ?thesis by (simp add: def Inr x del: One_nat_def)
      qed
    qed
  qed
qed

section \<open>RejectRequest\<close>

lemma open_quotes_active:
  assumes inv: "market_inv cfg t None l" and rec: "requests_of l r = Some rec" "rq_state rec = ReqOpen"
    and h: "h \<in> quotes_at (quotes_of l) r lid"
  shows "active_at l r lid h"
proof -
  from h obtain q where q: "quotes_of l h = Some q" "q_request q = r" "q_leg q = lid" by (auto simp: quotes_at_def)
  have "q_state q = QuoteActive"
    by (rule quote_okD[OF market_okD(1)[OF market_invD(3)[OF inv]] q(1)]) (use q rec in \<open>cases "q_state q"; auto\<close>)
  with q show ?thesis by (simp add: active_at_def)
qed

lemma release_legs_spec:
  assumes "market_inv cfg t None l" and mq: "unat (max_quotes_per_leg cfg) \<le> MAX_QUOTES_PER_LEG"
    and rec: "requests_of l r = Some rec" "rq_state rec = ReqOpen"
    and "\<forall>lid \<in> set lids. request_leg rec lid \<noteq> None"
  shows "\<exists>l' es. fold_opt (\<lambda>lid. release_leg r lid None now reason) lids (l, b) = Some (l', push_events es b) \<and>
    length es \<le> length lids * unat (max_quotes_per_leg cfg) \<and> market_inv cfg t None l' \<and>
    retires l {h. \<exists>lid \<in> set lids. h \<in> quotes_at (quotes_of l) r lid} l'"
  using assms
proof (induction lids arbitrary: l b)
  case (Cons lid lids)
  from Cons.prems(5) obtain leg where leg: "request_leg rec lid = Some leg" by auto
  have "\<exists>l1 hs. release_leg r lid None now reason (l, b)
      = Some (l1, push_events (map (release_event reason now (quotes_of l)) hs) b) \<and>
    distinct hs \<and> set hs = {h \<in> quotes_at (quotes_of l) r lid. \<not> kept_is None h} \<and>
    length hs \<le> unat (max_quotes_per_leg cfg) \<and> market_inv cfg t None l1 \<and> retires l (set hs) l1"
    by (rule release_leg_spec[OF Cons.prems(1) mq Cons.prems(3) _ leg])
      (simp add: Cons.prems(4), rule open_quotes_active[OF Cons.prems(1,3,4)])
  then obtain l1 hs where l1: "release_leg r lid None now reason (l, b)
      = Some (l1, push_events (map (release_event reason now (quotes_of l)) hs) b)"
      "set hs = {h \<in> quotes_at (quotes_of l) r lid. \<not> kept_is None h}" "length hs \<le> unat (max_quotes_per_leg cfg)"
      "market_inv cfg t None l1" "retires l (set hs) l1" by blast
  have req: "requests_of l1 r = Some rec" using l1(5) Cons.prems(3) by (simp add: retires_def)
  from Cons.IH[OF l1(4) mq req Cons.prems(4), of "push_events (map (release_event reason now (quotes_of l)) hs) b"] Cons.prems(5)
  obtain l' es where l': "fold_opt (\<lambda>lid. release_leg r lid None now reason) lids
        (l1, push_events (map (release_event reason now (quotes_of l)) hs) b)
      = Some (l', push_events es (push_events (map (release_event reason now (quotes_of l)) hs) b))"
    "length es \<le> length lids * unat (max_quotes_per_leg cfg)" "market_inv cfg t None l'"
    "retires l1 {h. \<exists>lid \<in> set lids. h \<in> quotes_at (quotes_of l1) r lid} l'" by auto
  have "set hs \<union> {h. \<exists>lid \<in> set lids. h \<in> quotes_at (quotes_of l1) r lid} = {h. \<exists>k \<in> set (lid # lids). h \<in> quotes_at (quotes_of l) r k}"
    using l1(2,5) by (auto simp: quotes_at_def retires_def kept_is_def split: if_splits)
  with retires_trans[OF l1(5) l'(4)] have "retires l {h. \<exists>k \<in> set (lid # lids). h \<in> quotes_at (quotes_of l) r k} l'" by simp
  with l1(1,3) l'(1-3) show ?case
    by (intro exI[of _ l'] exI[of _ "map (release_event reason now (quotes_of l)) hs @ es"]) simp
qed (auto intro: exI[of _ "[]"])

lemma unat_word_of_nat_u8: "k < 256 \<Longrightarrow> unat (word_of_nat k :: u8) = k"
  by (simp add: unat_of_nat take_bit_nat_eq_self)

lemma set_leg_ids: "lid \<in> set (leg_ids n) \<longleftrightarrow> unat lid < unat n"
proof
  assume "lid \<in> set (leg_ids n)"
  then obtain k where "k < unat n" "lid = word_of_nat k" by (auto simp: leg_ids_def)
  with unat_lt_size[of n] show "unat lid < unat n" by (simp add: unat_word_of_nat_u8)
next
  assume "unat lid < unat n"
  then show "lid \<in> set (leg_ids n)" unfolding leg_ids_def by (auto intro!: image_eqI[of _ _ "unat lid"])
qed

text \<open>The quotes of a request are those of its legs.\<close>

lemma request_quotes:
  assumes inv: "market_inv cfg t S l" and rec: "requests_of l r = Some rec" and q: "quotes_of l h = Some q" "q_request q = r"
  shows "\<exists>leg. request_leg rec (q_leg q) = Some leg"
  by (rule quote_okD[OF market_okD(1)[OF market_invD(3)[OF inv]] q(1)]) (use q rec in auto)

lemma chains_ok_end:
  assumes "chains_ok mq rq qt" and "request_state_is_terminal (rq_state rec)"
  shows "chains_ok mq (rq(r \<mapsto> rec)) qt"
  by (rule chains_ok_cong[OF assms(1)]) (use assms(2) in \<open>auto split: if_splits\<close>)

lemma open_request_claim:
  assumes inv: "market_inv cfg t S l" and rec: "request l r = Some rec" "rq_state rec = ReqOpen" and c: "rq_claim rec = Some c"
  obtains res where "reservation l c = Some res" and "\<not> is_committed res" and "res_owner_of res = OwnerRequest r"
    and "unat (res_amount res) = worst_case rec" and "res_account res = rq_requester rec"
    and "claims l (h_index c) = Some (h_generation c, rq_requester rec, res_amount res, OwnerRequest r, OnExpiry (rq_deadline rec))"
proof -
  note I = market_invD[OF inv]
  from request_claim_iff[OF I(1) rec(1), of c] c obtain a m k where
    k: "claims l (h_index c) = Some (h_generation c, a, m, OwnerRequest r, k)" by auto
  then obtain res where res: "reservation l c = Some res" "res_owner_of res = OwnerRequest r" "kind_of res = k"
      "res_amount res = m" "res_account res = a"
    by (auto simp: claims_Some_iff reservation_Some_iff)
  have rv: "requests_of l r = Some (bare_request rec)" using rec by (simp add: requests_of_def)
  have "unat (rq_n_legs (bare_request rec)) \<le> length (rq_legs (bare_request rec))"
    using request_ok_fields(1,3)[OF request_okD[OF market_okD(2)[OF I(3)] rv]] by simp
  then have w: "worst_case (bare_request rec) = worst_case rec" by (intro worst_case_bare) simp
  have "claim_ok (requests_of l) (quotes_of l) a m (OwnerRequest r) k" by (rule claim_okD[OF market_okD(4)[OF I(3)] k])
  then have ok: "a = rq_requester rec" "case k of OnExpiry e \<Rightarrow> e = rq_deadline rec \<and> unat m = worst_case rec | OnCommitted _ \<Rightarrow> False"
    by (simp_all add: claim_ok_def rv rec(2) w split: claim_kind.splits)
  then obtain e where e: "k = OnExpiry e" by (cases k) auto
  show thesis
    by (rule that[OF res(1)]) (use res k ok e in \<open>simp_all add: kind_of_cases(3)\<close>)
qed

lemma close_out_request:
  assumes inv: "market_inv cfg t None l" and rec: "request l r = Some rec" "rq_state rec = ReqOpen" and no: "unquoted (quotes_of l) r"
  shows "market_inv cfg t None (request_update r (request_set_state ReqRejected)
    (case rq_claim rec of None \<Rightarrow> l | Some c \<Rightarrow> cp_release c l))" (is "market_inv _ _ _ ?l'")
proof -
  note I = market_invD[OF inv]
  define l1 where "l1 = (case rq_claim rec of None \<Rightarrow> l | Some c \<Rightarrow> cp_release c l)"
  have dis: "disown (OwnerRequest r) (claims l) = (case rq_claim rec of None \<Rightarrow> claims l | Some c \<Rightarrow> (claims l)(h_index c := None))"
    by (rule disown_eq[OF I(1)]) (simp add: owner_claim_def rec)
  have l1: "ledger_inv l1 \<and> quote l1 = quote l \<and> request l1 = (request l)(r \<mapsto> request_set_claim None rec) \<and>
    claims l1 = disown (OwnerRequest r) (claims l) \<and> contract_at l1 = contract_at l"
  proof (cases "rq_claim rec")
    case None
    then have "request_set_claim None rec = rec" by (cases rec) (simp add: request_set_claim_def)
    then show ?thesis using None I(1) rec dis by (auto simp: l1_def)
  next
    case (Some c)
    obtain res where r: "reservation l c = Some res" "\<not> is_committed res" "res_owner_of res = OwnerRequest r"
      by (rule open_request_claim[OF inv rec Some])
    note R = cp_release_spec[OF I(1) r(1,2)]
    show ?thesis using Some R(1,2) dis rec same_market_views(3)[OF R(5)] by (simp add: l1_def R(3,4) r(3) fun_eq_iff)
  qed
  let ?rec = "request_set_state ReqRejected (request_set_claim None rec)"
  have l': "ledger_inv ?l'" "quote ?l' = quote l" "request ?l' = (request l)(r \<mapsto> ?rec)"
    "claims ?l' = disown (OwnerRequest r) (claims l)" "contract_at ?l' = contract_at l"
    unfolding l1_def[symmetric] using l1 request_update_inv[of l1 "request_set_state ReqRejected" r]
    by (simp_all add: fun_eq_iff effects contract_at_def) (simp add: record_setters)
  have "chains_ok (max_quotes_per_leg cfg) (request ?l') (quote ?l')"
    unfolding l'(2,3) by (rule chains_ok_end[OF I(2)]) simp
  moreover have "market_ok cfg t None (contract_at l)
      ((requests_of l)(r \<mapsto> request_set_state ReqRejected (request_set_claim None (bare_request rec)))) (quotes_of l)
      (disown (OwnerRequest r) (claims l))"
  proof (rule market_ok_end[OF I(3)])
    show "quotes_of l = (\<lambda>h. case quotes_of l h of Some q \<Rightarrow> if q_request q = r then None else Some q | None \<Rightarrow> None)"
      using no by (auto simp: unquoted_def fun_eq_iff split: option.split)
  qed (use rec no in \<open>auto simp: requests_of_def disown_Some unquoted_def\<close>)
  ultimately show ?thesis
    using l' unfolding market_inv_def requests_of_upd[OF l'(3)] views_cong(2)[OF l'(2)] by simp
qed

lemma emitsI: "eb_headroom b n = Inr () \<Longrightarrow> length es \<le> n \<Longrightarrow> emits b es (push_events es b)"
  by (auto simp: emits_def eb_headroom_iff)

lemma bare_request_eq:
  "bare_request a = bare_request b \<Longrightarrow> rq_claim a = rq_claim b \<and> rq_state a = rq_state b \<and> rq_n_legs a = rq_n_legs b \<and>
     rq_requester a = rq_requester b \<and> rq_deadline a = rq_deadline b"
  by (metis bare_request_fields)

lemma requests_of_same:
  assumes "requests_of l' = requests_of l" and "request l r = Some rec"
  obtains rec' where "request l' r = Some rec'" and "bare_request rec' = bare_request rec"
proof -
  have "map_option bare_request (request l' r) = Some (bare_request rec)"
    using fun_cong[OF assms(1), of r] assms(2) by (simp add: requests_of_def)
  then show thesis using that by auto
qed

lemma quotes_valid_leg:
  assumes inv: "market_inv cfg t S l" and rec: "requests_of l r = Some rec"
  shows "\<And>h q. quotes_of l h = Some q \<Longrightarrow> q_request q = r \<Longrightarrow> q_leg q \<in> set (leg_ids (rq_n_legs rec))"
    and "\<And>lid. lid \<in> set (leg_ids (rq_n_legs rec)) \<Longrightarrow> request_leg rec lid \<noteq> None"
proof -
  have "unat (rq_n_legs rec) \<le> length (rq_legs rec)"
    using request_ok_fields(1,3)[OF request_okD[OF market_okD(2)[OF market_invD(3)[OF inv]] rec]] by simp
  then show "request_leg rec lid \<noteq> None" if "lid \<in> set (leg_ids (rq_n_legs rec))" for lid
    using that unfolding set_leg_ids by (simp add: request_leg_nth)
  show "q_leg q \<in> set (leg_ids (rq_n_legs rec))" if "quotes_of l h = Some q" "q_request q = r" for h q
    using request_quotes[OF inv rec that] by (auto simp: set_leg_ids request_leg_nth)
qed

lemma reject_request_handled:
  assumes inv: "engine_inv now e"
  shows "handled now (e, b) (reject_request r now (e, b))"
proof -
  note E = engine_invD[OF inv]
  note same = handled_same[of now "(e, b)", simplified, OF inv]
  note def = reject_request_def[of r now "(e, b)", unfolded Let_def prod.case]
  let ?mq = "max_quotes_per_leg (e_config e)"
  have mq: "unat ?mq \<le> MAX_QUOTES_PER_LEG" using E(1) by (simp add: startable_def)
  show ?thesis
  proof (cases "\<exists>rec. request (e_ledger e) r = Some rec \<and> rq_state rec = ReqOpen")
    case False
    with same show ?thesis by (auto simp: def split: option.split)
  next
    case True
    then obtain rec where rec: "request (e_ledger e) r = Some rec" "rq_state rec = ReqOpen" by blast
    let ?n = "unat (rq_n_legs rec) * unat ?mq"
    from headroom_cases[of b ?n] show ?thesis
    proof
      assume "eb_headroom b ?n = Inl BufferFull"
      with rec same show ?thesis by (simp add: def)
    next
      assume room: "eb_headroom b ?n = Inr ()"
      then have small: "?n < 2 ^ 64" by (simp add: eb_headroom_iff)
      have rv: "requests_of (e_ledger e) r = Some (bare_request rec)" using rec by (simp add: requests_of_def)
      note V = quotes_valid_leg[OF E(2) rv]
      have "\<forall>lid \<in> set (leg_ids (rq_n_legs rec)). request_leg (bare_request rec) lid \<noteq> None" using V(2) by auto
      from release_legs_spec[OF E(2) mq rv _ this, of now RequestRejected b] rec(2)
      obtain l1 es where l1: "fold_opt (\<lambda>lid. release_leg r lid None now RequestRejected) (leg_ids (rq_n_legs rec)) (e_ledger e, b)
          = Some (l1, push_events es b)"
        "length es \<le> length (leg_ids (rq_n_legs rec)) * unat ?mq" "market_inv (e_config e) now None l1"
        "retires (e_ledger e) {h. \<exists>lid \<in> set (leg_ids (rq_n_legs rec)). h \<in> quotes_at (quotes_of (e_ledger e)) r lid} l1"
        by auto
      have "requests_of l1 = requests_of (e_ledger e)" using l1(4) by (simp add: retires_def)
      then obtain rec1 where rec1: "request l1 r = Some rec1" "bare_request rec1 = bare_request rec"
        by (rule requests_of_same[OF _ rec(1)])
      have "unquoted (quotes_of l1) r"
        using l1(4) V(1) by (fastforce simp: unquoted_def retires_def quotes_at_def split: if_splits)
      from close_out_request[OF l1(3) rec1(1) _ this] bare_request_eq[OF rec1(2)] rec(2)
      have "market_inv (e_config e) now None (request_update r (request_set_state ReqRejected)
          (case rq_claim rec of None \<Rightarrow> l1 | Some c \<Rightarrow> cp_release c l1))" by simp
      moreover have "emits b es (push_events es b)"
        by (rule emitsI[OF room]) (use l1(2) in \<open>simp add: leg_ids_def\<close>)
      ultimately show ?thesis using rec small room l1(1)
        by (auto simp: def intro!: handledI engine_inv_ledger[OF inv])
    qed
  qed
qed

end
