(* ===== verification/Engine_Quotes.thy ===== *)
theory Engine_Quotes
  imports Engine_Inv
begin

text \<open>
  The \<open>SubmitQuote\<close> handler of \<open>crates/core/src/engine.rs\<close>: the replacement of the maker's standing
  quote, the new quote with its claim and its place at the head of the leg's chain, and the
  publication of the leg's best price.
\<close>

section \<open>Publication\<close>

lemma leg_of_context:
  assumes inv: "market_inv cfg t S l" and rec: "request l r = Some rec" "\<not> request_state_is_terminal (rq_state rec)"
    and leg: "request_leg rec lid = Some leg"
  obtains hs where "chain_at (max_quotes_per_leg cfg) (quote l) r lid leg hs" and "leg_of l r lid = Some leg"
proof -
  from market_invD(2)[OF inv] rec leg obtain hs where "chain_at (max_quotes_per_leg cfg) (quote l) r lid leg hs"
    unfolding chains_ok_def by blast
  then show thesis using rec leg by (intro that) (simp_all add: leg_of_def)
qed

lemma leg_update_terms:
  assumes inv: "market_inv cfg t S l" and rec: "request l r = Some rec" and leg: "request_leg rec lid = Some leg"
    and f: "tip (f leg) = tip leg" "same_terms leg (f leg)"
  shows "market_inv cfg t S (leg_update r lid f l)" (is "market_inv cfg t S ?l'")
proof -
  note I = market_invD[OF inv]
  have rv: "requests_of l r = Some (bare_request rec)" using rec by (simp add: requests_of_def)
  have len: "unat (rq_n_legs rec) \<le> length (rq_legs rec)"
    using request_ok_fields(1,3)[OF request_okD[OF market_okD(2)[OF I(3)] rv]] by simp
  have req: "request ?l' = (request l)(r \<mapsto> request_leg_update lid f rec)"
    using rec by (auto simp: leg_update_def fun_eq_iff)
  have inv': "ledger_inv ?l'" unfolding leg_update_def by (rule request_update_inv[OF I(1)]) simp
  have same: "quote ?l' = quote l" "claims ?l' = claims l" "contract_at ?l' = contract_at l"
    by (simp_all add: leg_update_def effects contract_at_def fun_eq_iff)
  have "terms_kept (bare_request rec) (bare_request (request_leg_update lid f rec))"
    using terms_kept_update[OF len, of lid f] leg f(2) len
    by (auto simp: terms_kept_def bare_request_def same_terms_def)
  with market_ok_terms[OF I(3) rv] have "market_ok cfg t S (contract_at l)
      ((requests_of l)(r \<mapsto> bare_request (request_leg_update lid f rec))) (quotes_of l) (claims l)" by blast
  moreover have "chains_ok (max_quotes_per_leg cfg) (request ?l') (quote l)"
    unfolding req
  proof (rule chains_ok_cong[OF I(2)])
    fix r' rec' lid' leg'
    assume "((request l)(r \<mapsto> request_leg_update lid f rec)) r' = Some rec'" "\<not> request_state_is_terminal (rq_state rec')"
      "request_leg rec' lid' = Some leg'"
    then show "\<exists>rec leg. request l r' = Some rec \<and> \<not> request_state_is_terminal (rq_state rec) \<and>
        request_leg rec lid' = Some leg \<and> leg_quotes_head leg' = leg_quotes_head leg \<and> leg_quote_count leg' = leg_quote_count leg"
      using rec leg f(1) by (cases "r' = r") (auto simp: request_leg_of_update tip_def split: if_splits)
  qed simp
  ultimately show ?thesis
    using inv' unfolding market_inv_def same requests_of_upd[OF req] views_cong(2)[OF same(1)] by simp
qed

text \<open>The published price becomes the best price of the leg when there is one.\<close>

lemma publish_spec:
  assumes inv: "market_inv cfg t S l" and rec: "request l r = Some rec" "\<not> request_state_is_terminal (rq_state rec)"
    and leg: "request_leg rec lid = Some leg"
  shows "\<exists>l' es. publish_selection r lid now (l, b) = Some (l', push_events es b) \<and> length es \<le> 1 \<and> market_inv cfg t S l' \<and>
    (case best_on_leg l leg now of
       Some (Inr best) \<Rightarrow> \<exists>leg'. leg_of l' r lid = Some leg' \<and> leg_published leg' = Some (sel_price best) \<and>
          (es = [] \<longleftrightarrow> leg_published leg = Some (sel_price best)) \<and> set es \<subseteq> {BestSelectionChanged r lid (sel_price best)}
     | _ \<Rightarrow> l' = l \<and> es = [])"
proof -
  obtain hs where hs: "chain_at (max_quotes_per_leg cfg) (quote l) r lid leg hs" and lo: "leg_of l r lid = Some leg"
    by (rule leg_of_context[OF inv rec leg])
  from best_on_leg_chain[of l leg hs now] hs obtain res where res: "best_on_leg l leg now = Some res"
    "\<And>b. res = Inr b \<Longrightarrow> is_best (quote l) leg now hs b"
    unfolding chain_at_def by fastforce
  show ?thesis
  proof (cases res)
    case (Inl why)
    then show ?thesis using lo res inv
      by (intro exI[of _ l] exI[of _ "[]"]) (simp add: publish_selection_def)
  next
    case (Inr best)
    with res have limit: "sel_price best \<le> leg_limit leg" by (auto simp: is_best_def eligible_def)
    show ?thesis
    proof (cases "leg_published leg = Some (sel_price best)")
      case True
      then show ?thesis using lo res inv Inr
        by (intro exI[of _ l] exI[of _ "[]"]) (simp add: publish_selection_def)
    next
      case False
      let ?f = "leg_published_update (\<lambda>_. Some (sel_price best))"
      have "market_inv cfg t S (leg_update r lid ?f l)"
        by (rule leg_update_terms[OF inv rec(1) leg]) (use limit in \<open>auto simp: tip_def same_terms_def\<close>)
      moreover have "leg_of (leg_update r lid ?f l) r lid = Some (?f leg)"
        using rec leg by (simp add: leg_of_def leg_update_def request_leg_of_update)
      ultimately show ?thesis using lo res False Inr
        by (intro exI[of _ "leg_update r lid ?f l"] exI[of _ "[BestSelectionChanged r lid (sel_price best)]"])
          (simp add: publish_selection_def push_events_one)
    qed
  qed
qed

section \<open>Replacing the standing quote\<close>

lemma standing_spec:
  assumes inv: "market_inv cfg t None l" and rec: "request l r = Some rec" "rq_state rec = ReqOpen"
    and leg: "request_leg rec lid = Some leg"
  shows "\<exists>standing. standing_quote_of l leg maker = Some standing \<and>
    (case standing of
       None \<Rightarrow> \<forall>h q. quotes_of l h = Some q \<longrightarrow> q_request q = r \<longrightarrow> q_leg q = lid \<longrightarrow> q_maker q \<noteq> maker
     | Some s \<Rightarrow> \<exists>q. quote l s = Some q \<and> q_maker q = maker \<and> q_state q = QuoteActive \<and> q_request q = r \<and> q_leg q = lid)"
proof -
  have nt: "\<not> request_state_is_terminal (rq_state rec)" using rec by simp
  obtain hs where hs: "chain_at (max_quotes_per_leg cfg) (quote l) r lid leg hs"
    by (rule leg_of_context[OF inv rec(1) nt leg])
  then have st: "standing_quote_of l leg maker = Some (find (standing_in (quote l) maker) hs)"
    unfolding standing_quote_of_def chain_at_def by (intro standing_walk_chain) blast
  have set_hs: "set hs = quotes_at (quote l) r lid" using hs by (simp add: chain_at_def)
  have rv: "requests_of l r = Some (bare_request rec)" using rec by (simp add: requests_of_def)
  show ?thesis
  proof (cases "find (standing_in (quote l) maker) hs")
    case None
    have "q_maker q \<noteq> maker" if q: "quotes_of l h = Some q" "q_request q = r" "q_leg q = lid" for h q
    proof
      assume m: "q_maker q = maker"
      have at: "h \<in> quotes_at (quotes_of l) r lid" using q by (auto simp: quotes_at_def)
      then have "active_at l r lid h" using open_quotes_active[OF inv rv] rec(2) by simp
      with q m have "standing_in (quote l) maker h" by (auto simp: active_at_def standing_in_def quotes_of_Some)
      moreover have "h \<in> set hs" using at by (simp add: set_hs quotes_at_bare)
      ultimately show False using None by (auto simp: find_None_iff)
    qed
    then show ?thesis using st None by auto
  next
    case (Some s)
    then have "s \<in> set hs" "standing_in (quote l) maker s" by (auto simp: find_Some_iff)
    then show ?thesis using st Some by (auto simp: set_hs quotes_at_def standing_in_def)
  qed
qed

lemma card_quotes_at:
  assumes inv: "market_inv cfg t S l" and rec: "request l r = Some rec" "\<not> request_state_is_terminal (rq_state rec)"
    and leg: "request_leg rec lid = Some leg"
  shows "finite (quotes_at (quotes_of l) r lid)" and "card (quotes_at (quotes_of l) r lid) = unat (leg_quote_count leg)"
    and "leg_quote_count leg \<le> max_quotes_per_leg cfg"
proof -
  obtain hs where hs: "chain_at (max_quotes_per_leg cfg) (quote l) r lid leg hs" by (rule leg_of_context[OF inv rec leg])
  then show "leg_quote_count leg \<le> max_quotes_per_leg cfg" by (simp add: chain_at_def word_le_nat_alt)
  show "card (quotes_at (quotes_of l) r lid) = unat (leg_quote_count leg)"
    using chain_card[OF quote_index_inj hs] by (simp add: quotes_at_bare)
  have "set hs = quotes_at (quotes_of l) r lid" using hs by (simp add: chain_at_def quotes_at_bare)
  then show "finite (quotes_at (quotes_of l) r lid)" by (metis List.finite_set)
qed

lemma replace_standing_spec:
  assumes inv: "market_inv cfg t None l" and rec: "request l r = Some rec" "rq_state rec = ReqOpen"
    and leg: "request_leg rec lid = Some leg" and st: "standing_quote_of l leg maker = Some standing"
    and room: "standing = None \<Longrightarrow> leg_quote_count leg < max_quotes_per_leg cfg"
  shows "\<exists>l1. replace_standing maker r lid standing (l, b)
      = Some (l1, push_events (map (\<lambda>s. QuoteRejected s maker Replaced) (case standing of None \<Rightarrow> [] | Some s \<Rightarrow> [s])) b) \<and>
    market_inv cfg t None l1 \<and> retires l (set_option standing) l1 \<and>
    card (quotes_at (quotes_of l1) r lid) < unat (max_quotes_per_leg cfg) \<and>
    (\<forall>h q. quotes_of l1 h = Some q \<longrightarrow> q_request q = r \<longrightarrow> q_leg q = lid \<longrightarrow> q_maker q \<noteq> maker)"
proof -
  have nt: "\<not> request_state_is_terminal (rq_state rec)" using rec by simp
  note C = card_quotes_at[OF inv rec(1) nt leg]
  from standing_spec[OF inv rec leg, of maker] st have sp: "case standing of
       None \<Rightarrow> \<forall>h q. quotes_of l h = Some q \<longrightarrow> q_request q = r \<longrightarrow> q_leg q = lid \<longrightarrow> q_maker q \<noteq> maker
     | Some s \<Rightarrow> \<exists>q. quote l s = Some q \<and> q_maker q = maker \<and> q_state q = QuoteActive \<and> q_request q = r \<and> q_leg q = lid"
    by simp
  show ?thesis
  proof (cases standing)
    case None
    with sp room C inv show ?thesis by (simp add: replace_standing_def word_less_nat_alt)
  next
    case (Some s)
    with sp obtain q where q: "quote l s = Some q" "q_maker q = maker" "q_state q = QuoteActive" "q_request q = r" "q_leg q = lid"
      by auto
    obtain l3 where l3: "unlink_quote r lid s (let_go s q l) = Some l3" "market_inv cfg t None (cp_close_quote s l3)"
      "quotes_of (cp_close_quote s l3) = (quotes_of l)(s := None)" "requests_of (cp_close_quote s l3) = requests_of l"
      "claims (cp_close_quote s l3) = disown (OwnerQuote s) (claims l)" "contract_at (cp_close_quote s l3) = contract_at l"
      using retire_spec[OF inv q(1,3)] q(4,5) by metis
    let ?l1 = "cp_close_quote s l3"
    have step: "replace_standing maker r lid standing (l, b) = Some (?l1, eb_push (QuoteRejected s maker Replaced) b)"
      using l3(1) q Some unfolding replace_standing_def let_go_def by (simp add: Let_def)
    have at: "quotes_at (quotes_of ?l1) r lid = quotes_at (quotes_of l) r lid - {s}" "s \<in> quotes_at (quotes_of l) r lid"
      unfolding l3(3) using q by (auto simp: quotes_at_def quotes_of_Some)
    then have "card (quotes_at (quotes_of ?l1) r lid) < card (quotes_at (quotes_of l) r lid)"
      using C(1) by (metis card_Diff1_less)
    then have "card (quotes_at (quotes_of ?l1) r lid) < unat (max_quotes_per_leg cfg)"
      using C(2,3) by (simp add: word_le_nat_alt)
    moreover have "q_maker q' \<noteq> maker" if h: "quotes_of ?l1 h = Some q'" "q_request q' = r" "q_leg q' = lid" for h q'
    proof
      assume "q_maker q' = maker"
      moreover from h(1) l3(3) have "quotes_of l h = Some q'" "h \<noteq> s" by (auto split: if_splits)
      ultimately show False
        using unique_okD[OF market_okD(3)[OF market_invD(3)[OF inv]], of h q' s "bare_quote q"] q h(2,3) by (simp add: quotes_of_def)
    qed
    moreover have "retires l {s} ?l1" using l3(3-6) by (auto simp: retires_def disown_one fun_eq_iff)
    ultimately show ?thesis using step l3(2) Some by (simp add: push_events_one)
  qed
qed

section \<open>The new quote\<close>

lemma quote_new_fields [simp]:
  "q_maker (quote_new m r lid p s x a) = m" "q_request (quote_new m r lid p s x a) = r" "q_leg (quote_new m r lid p s x a) = lid"
  "q_price (quote_new m r lid p s x a) = p" "q_size (quote_new m r lid p s x a) = s" "q_expires_at (quote_new m r lid p s x a) = x"
  "q_arrival (quote_new m r lid p s x a) = a" "q_state (quote_new m r lid p s x a) = QuoteActive"
  "q_claim (quote_new m r lid p s x a) = None" "q_next_on_leg (quote_new m r lid p s x a) = NIL"
  by (simp_all add: quote_new_def)

lemma quote_index_not_nil: "ledger_inv l \<Longrightarrow> quote l h = Some q \<Longrightarrow> h_index h \<noteq> NIL"
  using slab_view_NIL[of "l_quotes l"] ledger_invD(1)[of l] by (auto simp: quote_Some_iff slabs_wf_def)

lemma link_quote_spec:
  assumes inv: "ledger_inv l2" and new: "quote l2 h = Some q" and rec: "request l2 r = Some rec" and leg: "request_leg rec lid = Some leg"
  defines "l3 \<equiv> link_quote r lid h l2"
  defines "f \<equiv> \<lambda>leg. leg\<lparr> leg_quotes_head := h_index h, leg_quote_count := saturating_add (leg_quote_count leg) 1 \<rparr>"
  shows "ledger_inv l3" and "quote l3 = (quote l2)(h \<mapsto> quote_set_next (leg_quotes_head leg) q)"
    and "request l3 = (request l2)(r \<mapsto> request_leg_update lid f rec)" and "claims l3 = claims l2" and "contract_at l3 = contract_at l2"
proof -
  have eq: "l3 = leg_update r lid f (quote_update h (quote_set_next (leg_quotes_head leg)) l2)"
    using rec leg by (simp add: l3_def link_quote_def leg_of_def f_def link_to_def)
  have "ledger_inv (quote_update h (quote_set_next (leg_quotes_head leg)) l2)"
    by (rule quote_update_inv[OF inv]) (simp add: record_setters)
  then show "ledger_inv l3" unfolding eq leg_update_def by (rule request_update_inv) simp
  show "quote l3 = (quote l2)(h \<mapsto> quote_set_next (leg_quotes_head leg) q)"
    "request l3 = (request l2)(r \<mapsto> request_leg_update lid f rec)" "claims l3 = claims l2" "contract_at l3 = contract_at l2"
    unfolding eq leg_update_def using new rec by (simp_all add: fun_eq_iff effects contract_at_def)
qed

lemma open_quote_market:
  assumes inv: "market_inv cfg t None l" and rec: "request l r = Some rec" "rq_state rec = ReqOpen"
    and leg: "request_leg rec lid = Some leg" "leg_size leg \<le> q_size q"
    and q: "q_request q = r" "q_leg q = lid" "q_state q = QuoteActive" "q_claim q = None" "q_next_on_leg q = NIL" "q_price q \<le> UNIT"
    and m: "maker_contribution (leg_size leg) (q_price q) = Some m"
    and fresh: "\<forall>h q'. quotes_of l h = Some q' \<longrightarrow> q_request q' = r \<longrightarrow> q_leg q' = lid \<longrightarrow> q_maker q' \<noteq> q_maker q"
    and room: "card (quotes_at (quotes_of l) r lid) < unat (max_quotes_per_leg cfg)"
    and op: "open_quote_reserving l q m = Some (Inr (h, c), l2)"
  defines "l3 \<equiv> link_quote r lid h l2"
  shows "market_inv cfg t None l3" and "quotes_of l3 = (quotes_of l)(h \<mapsto> quote_set_claim (Some c) (bare_quote q))"
    and "requests_of l3 = requests_of l" and "\<exists>rec'. request l3 r = Some rec' \<and> bare_request rec' = bare_request rec"
    and "quotes_of l h = None" and "claims l (h_index c) = None"
    and "claims l3 = (claims l)(h_index c \<mapsto> (h_generation c, q_maker q, m, OwnerQuote h, OnExpiry (q_expires_at q)))"
proof -
  note I = market_invD[OF inv]
  have nt: "\<not> request_state_is_terminal (rq_state rec)" using rec by simp
  let ?mq = "max_quotes_per_leg cfg"
  from open_quote_reserving_spec[OF I(1) q(4), of m] op have inv2: "ledger_inv l2" and
    none: "quote l h = None" "claims l (h_index c) = None" and
    q2: "quote l2 = (quote l)(h \<mapsto> quote_set_claim (Some c) q)" and r2: "request l2 = request l" and
    c2: "claims l2 = (claims l)(h_index c \<mapsto> (h_generation c, q_maker q, m, OwnerQuote h, OnExpiry (q_expires_at q)))" and
    ct2: "l_contracts l2 = l_contracts l" by auto
  have new: "quote l2 h = Some (quote_set_claim (Some c) q)" and rec2: "request l2 r = Some rec" using q2 r2 rec by simp_all
  note L = link_quote_spec[OF inv2 new rec2 leg(1), folded l3_def]
  obtain hs where hs: "chain_at ?mq (quote l) r lid leg hs" by (rule leg_of_context[OF inv rec(1) nt leg(1)])
  have chain: "leg_chain (quote l) (leg_quotes_head leg) hs" and set_hs: "set hs = quotes_at (quote l) r lid"
    and cnt: "unat (leg_quote_count leg) = length hs" using hs by (auto simp: chain_at_def)
  have "card (quotes_at (quote l) r lid) = length hs" using chain_card[OF quote_index_inj hs] cnt by simp
  with room have len: "length hs < unat ?mq" by (simp add: quotes_at_bare)
  have h_notin: "h \<notin> set hs" using leg_chain_members[OF chain] none(1) by force
  let ?f = "\<lambda>leg. leg\<lparr> leg_quotes_head := h_index h, leg_quote_count := saturating_add (leg_quote_count leg) 1 \<rparr>"
  show ql3: "quotes_of l3 = (quotes_of l)(h \<mapsto> quote_set_claim (Some c) (bare_quote q))"
    using L(2) q2 by (auto simp: fun_eq_iff quotes_of_def)
  have bare: "bare_request (request_leg_update lid ?f rec) = bare_request rec"
    by (rule bare_request_update_links) (simp add: bare_leg_def)
  then show rl3: "requests_of l3 = requests_of l"
    using L(3) r2 rec by (auto simp: fun_eq_iff requests_of_def)
  show "\<exists>rec'. request l3 r = Some rec' \<and> bare_request rec' = bare_request rec" using L(3) bare by simp
  show "quotes_of l h = None" "claims l (h_index c) = None" using none by (simp_all add: quotes_of_def)
  show cl3: "claims l3 = (claims l)(h_index c \<mapsto> (h_generation c, q_maker q, m, OwnerQuote h, OnExpiry (q_expires_at q)))"
    using L(4) c2 by simp
  have ct3: "contract_at l3 = contract_at l" using L(5) contract_at_cong[OF ct2] by simp
  have ql3': "quote l3 = (quote l)(h \<mapsto> quote_set_next (leg_quotes_head leg) (quote_set_claim (Some c) q))"
    using L(2) q2 by simp
  have "chains_ok ?mq (request l3) (quote l3)"
  proof (rule chains_ok_update[OF I(2), where r = r and lid = lid and A = "{h}"])
    fix rec' leg' assume a: "request l3 r = Some rec'" "request_leg rec' lid = Some leg'"
    then have leg': "leg' = ?f leg" using L(3) leg(1) by (auto simp: request_leg_of_update)
    have "leg_chain (quote l3) (leg_quotes_head leg) hs"
      by (rule leg_chain_frame[OF chain]) (use h_notin ql3' in auto)
    then have "leg_chain (quote l3) (h_index h) (h # hs)"
      using ql3' quote_index_not_nil[OF inv2 new] by (simp add: record_setters)
    moreover have "set (h # hs) = quotes_at (quote l3) r lid"
      unfolding ql3' list.set(2) set_hs using none(1) q by (auto simp: quotes_at_def record_setters)
    moreover have "unat (saturating_add (leg_quote_count leg) 1) = Suc (length hs)"
      using cnt len unat_lt_size[of ?mq] by (simp add: unat_saturating_add)
    ultimately have "chain_at ?mq (quote l3) r lid leg' (h # hs)"
      using len by (simp add: chain_at_def leg')
    then show "\<exists>hs. chain_at ?mq (quote l3) r lid leg' hs" by blast
  next
    fix r' rec' lid' leg'
    assume a: "(r', lid') \<noteq> (r, lid)" "request l3 r' = Some rec'" "\<not> request_state_is_terminal (rq_state rec')"
      "request_leg rec' lid' = Some leg'"
    then show "\<exists>rec leg. request l r' = Some rec \<and> \<not> request_state_is_terminal (rq_state rec) \<and>
        request_leg rec lid' = Some leg \<and> tip leg' = tip leg"
      using L(3) r2 rec(1) by (cases "r' = r") (auto simp: request_leg_of_update)
  next
    show "map_option place (quote l3 k) = map_option place (quote l k)" if "k \<notin> {h}" for k
      using that ql3' by simp
    show "q_request x = r \<and> q_leg x = lid" if "k \<in> {h}" "quote l k = Some x \<or> quote l3 k = Some x" for k x
      using that ql3' none(1) q by (auto simp: record_setters)
  qed
  moreover have "market_ok cfg t None (contract_at l) (requests_of l) ((quotes_of l)(h \<mapsto> quote_set_claim (Some c) (bare_quote q)))
      ((claims l)(h_index c \<mapsto> (h_generation c, q_maker (quote_set_claim (Some c) (bare_quote q)), m, OwnerQuote h,
         OnExpiry (q_expires_at (quote_set_claim (Some c) (bare_quote q))))))"
  proof (rule market_ok_open_quote[OF I(3) _ none(2)])
    show "quotes_of l h = None" using none(1) by (simp add: quotes_of_def)
    show "requests_of l (q_request (quote_set_claim (Some c) (bare_quote q))) = Some (bare_request rec)"
      using rec q by (simp add: requests_of_def)
    show "request_leg (bare_request rec) (q_leg (quote_set_claim (Some c) (bare_quote q))) = Some (bare_leg leg)"
      using leg q by simp
  qed (use q rec leg m fresh in auto)
  ultimately show "market_inv cfg t None l3"
    using L(1) by (simp add: market_inv_def ql3 rl3 cl3 ct3)
qed

section \<open>The handler\<close>

lemma check_quote_returns:
  assumes inv: "market_inv (e_config e) t None (e_ledger e)"
  shows "check_quote e maker r lid p sz x now \<noteq> None"
proof (cases "\<exists>rec leg. request (e_ledger e) r = Some rec \<and> rq_state rec = ReqOpen \<and> request_leg rec lid = Some leg")
  case True
  then obtain rec leg where "request (e_ledger e) r = Some rec" "rq_state rec = ReqOpen" "request_leg rec lid = Some leg" by blast
  moreover from standing_spec[OF inv this, of maker] obtain standing where "standing_quote_of (e_ledger e) leg maker = Some standing" by blast
  ultimately show ?thesis by (cases standing) (auto simp: check_quote_def Let_def split: option.split)
next
  case False
  then show ?thesis by (auto simp: check_quote_def Let_def split: option.split)
qed

lemma check_quote_accepts:
  assumes "check_quote e maker r lid p sz x now = Some (Inr (leg, standing))"
  obtains rec where "request (e_ledger e) r = Some rec" and "rq_state rec = ReqOpen" and "now < rq_deadline rec"
    and "request_leg rec lid = Some leg" and "now < x" and "\<not> ts_saturating_sub x now > max_quote_ttl (e_config e)"
    and "p \<le> UNIT" and "leg_size leg \<le> sz" and "standing_quote_of (e_ledger e) leg maker = Some standing"
    and "standing = None \<Longrightarrow> leg_quote_count leg < max_quotes_per_leg (e_config e)"
    and "\<And>s. standing = Some s \<Longrightarrow> \<exists>old. quote (e_ledger e) s = Some old \<and> p \<le> q_price old"
  using assms by (auto simp: check_quote_def Let_def not_le not_less split: option.splits if_splits)

text \<open>An accepted submission: what the ledger, the counter and the events are afterwards.\<close>

lemma submit_quote_steps:
  assumes inv: "engine_inv now e" and chk: "check_quote e maker r lid p sz x now = Some (Inr (leg, standing))"
    and m: "maker_contribution (leg_size leg) p = Some m" and room: "eb_headroom b 2 = Inr ()"
  obtains (refused) l1 err e' where
      "submit_quote maker r lid p sz x now (e, b) = Some (Inl (LedgerErr err), (e', push_events
         (map (\<lambda>s. QuoteRejected s maker Replaced) (case standing of None \<Rightarrow> [] | Some s \<Rightarrow> [s])) b))"
      and "e' = e\<lparr>e_ledger := l1, e_next_arrival := saturating_add (e_next_arrival e) 1\<rparr>"
      and "engine_inv now e'" and "retires (e_ledger e) (set_option standing) l1"
  | (placed) l1 h c l3 l4 es where
      "submit_quote maker r lid p sz x now (e, b) = Some (Inr (), (e\<lparr>e_ledger := l4, e_next_arrival := saturating_add (e_next_arrival e) 1\<rparr>,
         push_events (map (\<lambda>s. QuoteRejected s maker Replaced) (case standing of None \<Rightarrow> [] | Some s \<Rightarrow> [s]) @ es) b))"
      and "length es \<le> 1" and "market_inv (e_config e) now None l4" and "retires (e_ledger e) (set_option standing) l1"
      and "quotes_of l1 h = None" and "claims l1 (h_index c) = None"
      and "quotes_of l3 = (quotes_of l1)(h \<mapsto> quote_set_claim (Some c) (quote_new maker r lid p sz x (e_next_arrival e)))"
      and "claims l3 = (claims l1)(h_index c \<mapsto> (h_generation c, maker, m, OwnerQuote h, OnExpiry x))"
      and "\<exists>leg3. leg_of l3 r lid = Some leg3 \<and> bare_leg leg3 = bare_leg leg \<and>
           publish_selection r lid now (l3, push_events (map (\<lambda>s. QuoteRejected s maker Replaced)
             (case standing of None \<Rightarrow> [] | Some s \<Rightarrow> [s])) b)
           = Some (l4, push_events (map (\<lambda>s. QuoteRejected s maker Replaced) (case standing of None \<Rightarrow> [] | Some s \<Rightarrow> [s]) @ es) b)"
      and "market_inv (e_config e) now None l3"
proof -
  note E = engine_invD[OF inv]
  obtain rec where rec: "request (e_ledger e) r = Some rec" "rq_state rec = ReqOpen" "request_leg rec lid = Some leg"
    and ok: "now < x" "p \<le> UNIT" "leg_size leg \<le> sz" "standing_quote_of (e_ledger e) leg maker = Some standing"
      "standing = None \<Longrightarrow> leg_quote_count leg < max_quotes_per_leg (e_config e)"
    by (rule check_quote_accepts[OF chk]) blast
  let ?gone = "map (\<lambda>s. QuoteRejected s maker Replaced) (case standing of None \<Rightarrow> [] | Some s \<Rightarrow> [s])"
  obtain l1 where l1: "replace_standing maker r lid standing (e_ledger e, b) = Some (l1, push_events ?gone b)"
    "market_inv (e_config e) now None l1" "retires (e_ledger e) (set_option standing) l1"
    "card (quotes_at (quotes_of l1) r lid) < unat (max_quotes_per_leg (e_config e))"
    "\<And>h q. quotes_of l1 h = Some q \<Longrightarrow> q_request q = r \<Longrightarrow> q_leg q = lid \<Longrightarrow> q_maker q \<noteq> maker"
    using replace_standing_spec[OF E(2) rec ok(4,5)] by blast
  let ?q = "quote_new maker r lid p sz x (e_next_arrival e)"
  note def = submit_quote_def[of maker r lid p sz x now "(e, b)", unfolded Let_def prod.case]
  obtain res l2 where op: "open_quote_reserving l1 ?q m = Some (res, l2)"
    and sp: "\<And>err. res = Inl err \<Longrightarrow> l2 = l1"
    using open_quote_reserving_spec[OF market_invD(1)[OF l1(2)] quote_new_fields(9), of maker r lid p sz x "e_next_arrival e" m]
    by fastforce
  show thesis
  proof (cases res)
    case (Inl err)
    let ?e' = "e\<lparr>e_ledger := l1, e_next_arrival := saturating_add (e_next_arrival e) 1\<rparr>"
    have "submit_quote maker r lid p sz x now (e, b) = Some (Inl (LedgerErr err), (?e', push_events ?gone b))"
      using op sp[OF Inl] Inl l1(1) by (simp add: def chk m room)
    moreover have "engine_inv now ?e'" using l1(2) E(1) by (simp add: engine_inv_def)
    ultimately show ?thesis using refused l1(3) by blast
  next
    case (Inr hc)
    obtain h c where hc: "hc = (h, c)" by (cases hc)
    have "requests_of l1 = requests_of (e_ledger e)" using l1(3) by (simp add: retires_def)
    then obtain rec1 where rec1: "request l1 r = Some rec1" "bare_request rec1 = bare_request rec"
      by (rule requests_of_same[OF _ rec(1)])
    have "map_option bare_leg (request_leg rec1 lid) = Some (bare_leg leg)"
      using rec1(2) rec(3) by (metis bare_request_leg option.simps(9))
    then obtain leg1 where leg1: "request_leg rec1 lid = Some leg1" "bare_leg leg1 = bare_leg leg" by auto
    then have sz1: "leg_size leg1 = leg_size leg" by (metis bare_leg_fields(3))
    have open1: "rq_state rec1 = ReqOpen" using bare_request_eq[OF rec1(2)] rec(2) by simp
    have szle: "leg_size leg1 \<le> q_size ?q" using ok(3) sz1 by simp
    have m1: "maker_contribution (leg_size leg1) (q_price ?q) = Some m" using m sz1 by simp
    have op': "open_quote_reserving l1 ?q m = Some (Inr (h, c), l2)" using op Inr hc by simp
    let ?l3 = "link_quote r lid h l2"
    have fresh: "\<forall>k q'. quotes_of l1 k = Some q' \<longrightarrow> q_request q' = r \<longrightarrow> q_leg q' = lid \<longrightarrow> q_maker q' \<noteq> q_maker ?q"
      using l1(5) by simp
    have p: "q_price ?q \<le> UNIT" using ok(2) by simp
    note O = open_quote_market[OF l1(2) rec1(1) open1 leg1(1) szle quote_new_fields(2,3,8,9,10) p m1 fresh l1(4) op',
      unfolded quote_new_fields]
    obtain rec3 where rec3: "request ?l3 r = Some rec3" "bare_request rec3 = bare_request rec1" using O(4) by blast
    have "map_option bare_leg (request_leg rec3 lid) = Some (bare_leg leg)"
      using rec3(2) leg1 by (metis bare_request_leg option.simps(9))
    then obtain leg3 where leg3: "request_leg rec3 lid = Some leg3" "bare_leg leg3 = bare_leg leg" by auto
    have nt3: "\<not> request_state_is_terminal (rq_state rec3)" using bare_request_eq[OF rec3(2)] open1 by simp
    from publish_spec[OF O(1) rec3(1) nt3 leg3(1), of now "push_events ?gone b"] obtain l4 es where
      l4: "publish_selection r lid now (?l3, push_events ?gone b) = Some (l4, push_events es (push_events ?gone b))"
        "length es \<le> 1" "market_inv (e_config e) now None l4" by blast
    have "submit_quote maker r lid p sz x now (e, b)
      = Some (Inr (), (e\<lparr>e_ledger := l4, e_next_arrival := saturating_add (e_next_arrival e) 1\<rparr>, push_events (?gone @ es) b))"
      using op' l1(1) l4(1) by (simp add: def chk m room)
    moreover have "bare_quote ?q = ?q" by (simp add: bare_quote_def quote_new_def)
    moreover have "leg_of ?l3 r lid = Some leg3" using rec3 leg3 by (simp add: leg_of_def)
    ultimately show ?thesis
      by (intro placed[of l4 es l1 h c ?l3]) (use l4 l1(3) O leg3 in \<open>simp_all\<close>)
  qed
qed

lemma submit_quote_handled:
  assumes inv: "engine_inv now e"
  shows "handled now (e, b) (submit_quote maker r lid p sz x now (e, b))"
proof -
  note E = engine_invD[OF inv]
  note same = handled_same[of now "(e, b)", simplified, OF inv]
  note def = submit_quote_def[of maker r lid p sz x now "(e, b)", unfolded Let_def prod.case]
  obtain res where chk: "check_quote e maker r lid p sz x now = Some res"
    using check_quote_returns[OF E(2)] by blast
  show ?thesis
  proof (cases res)
    case (Inl err)
    with chk same show ?thesis by (simp add: def)
  next
    case (Inr y)
    obtain leg standing where y: "y = (leg, standing)" by (cases y)
    have gone: "length (case standing of None \<Rightarrow> [] | Some s \<Rightarrow> [s]) \<le> 1" by (simp split: option.split)
    show ?thesis
    proof (cases "maker_contribution (leg_size leg) p")
      case None
      with chk Inr y same show ?thesis by (simp add: def)
    next
      case (Some m)
      from headroom_cases[of b 2] show ?thesis
      proof
        assume "eb_headroom b 2 = Inl BufferFull"
        with chk Inr y Some same show ?thesis by (simp add: def)
      next
        assume room: "eb_headroom b 2 = Inr ()"
        from chk Inr y have chk': "check_quote e maker r lid p sz x now = Some (Inr (leg, standing))" by simp
        show ?thesis
        proof (rule submit_quote_steps[OF inv chk' Some room])
          fix l1 err e'
          assume s: "submit_quote maker r lid p sz x now (e, b) = Some (Inl (LedgerErr err), (e', push_events
              (map (\<lambda>s. QuoteRejected s maker Replaced) (case standing of None \<Rightarrow> [] | Some s \<Rightarrow> [s])) b))"
            and e': "e' = e\<lparr>e_ledger := l1, e_next_arrival := saturating_add (e_next_arrival e) 1\<rparr>" "engine_inv now e'"
          show ?thesis unfolding s by (rule handledI[OF e'(2) _ emitsI[OF room]]) (use e' gone in simp_all)
        next
          fix l4 es assume s: "submit_quote maker r lid p sz x now (e, b) = Some (Inr (), (e\<lparr>e_ledger := l4, e_next_arrival := saturating_add (e_next_arrival e) 1\<rparr>,
               push_events (map (\<lambda>s. QuoteRejected s maker Replaced) (case standing of None \<Rightarrow> [] | Some s \<Rightarrow> [s]) @ es) b))"
            and k: "length es \<le> 1" "market_inv (e_config e) now None l4"
          show ?thesis unfolding s
            by (rule handledI[OF _ _ emitsI[OF room]]) (use k E(1) gone in \<open>simp_all add: engine_inv_def\<close>)
        qed
      qed
    qed
  qed
qed

end
