(* ===== verification/Engine_Accept.thy ===== *)
theory Engine_Accept
  imports Engine_Quotes
begin

text \<open>
  The \<open>AcceptRequest\<close> handler of \<open>crates/core/src/engine.rs\<close>: the plan picks the best quote of every
  leg, the commit releases the other quotes, consumes the winners and commits their claims in full and
  the requester's claim at the exact total, and the request begins to settle.
\<close>

section \<open>The plan\<close>

lemma nth_opt_Some: "nth_opt xs k = Some x \<longleftrightarrow> k < length xs \<and> x = xs ! k"
  by (auto simp: nth_opt_def)

text \<open>What the plan holds after its first \<open>n\<close> legs.\<close>

definition planned ::
  "ledger \<Rightarrow> request \<Rightarrow> expected_fill list \<Rightarrow> ts \<Rightarrow> nat \<Rightarrow> selection option list \<times> amount \<Rightarrow> bool" where
  "planned l rec expected now n acc \<longleftrightarrow> (case acc of (plan, tot) \<Rightarrow> length plan = MAX_LEGS \<and>
     (\<forall>k<n. \<exists>b v. plan ! k = Some b \<and> best_on_leg l (rq_legs rec ! k) now = Some (Inr b) \<and>
        nth_opt expected k = Some v \<and> ef_leg v = word_of_nat k \<and> sel_price b \<le> ef_price v) \<and>
     unat tot = (\<Sum>k<n. unat (leg_size (rq_legs rec ! k)) * unat (sel_price (the (plan ! k)))))"

lemma request_legs_nth:
  "k < unat (rq_n_legs rec) \<Longrightarrow> unat (rq_n_legs rec) \<le> length (rq_legs rec) \<Longrightarrow> nth_opt (request_legs rec) k = Some (rq_legs rec ! k)"
  by (simp add: request_legs_def nth_opt_def)

lemma plan_leg_step:
  assumes pl: "planned l rec expected now n acc" and n: "n < unat (rq_n_legs rec)" "unat (rq_n_legs rec) \<le> length (rq_legs rec)"
    and small: "n < MAX_LEGS" and step: "plan_leg l rec expected now n acc = Some (Inr acc')"
  shows "planned l rec expected now (Suc n) acc'"
proof -
  obtain plan tot where acc: "acc = (plan, tot)" by (cases acc)
  have lid: "n < 256" using small by (simp add: MAX_LEGS_def)
  from step n obtain b v c tot' where b: "best_on_leg l (rq_legs rec ! n) now = Some (Inr b)"
    and v: "nth_opt expected n = Some v" "ef_leg v = word_of_nat n" "\<not> ef_price v < sel_price b"
    and c: "requester_contribution (leg_size (rq_legs rec ! n)) (sel_price b) = Some c" "amount_checked_add tot c = Some tot'"
    and acc': "acc' = (set_at plan n (Some b), tot')"
    by (auto simp: plan_leg_def acc lid request_legs_nth Let_def split: option.splits sum.splits if_splits)
  have "unat tot' = unat tot + unat (leg_size (rq_legs rec ! n)) * unat (sel_price b)"
    using c by (simp add: requester_contribution_def machine_simps amount_checked_add_def)
  then show ?thesis
    using pl b v small by (auto simp: planned_def acc acc' set_at_def nth_list_update less_Suc_eq MAX_LEGS_def intro!: sum.cong)
qed

lemma fold_plan_append:
  "fold_plan f (xs @ ys) s = (case fold_plan f xs s of None \<Rightarrow> None | Some (Inl e) \<Rightarrow> Some (Inl e) | Some (Inr s') \<Rightarrow> fold_plan f ys s')"
  by (induction xs arbitrary: s) (auto split: option.split sum.split)

lemma plan_prefix:
  assumes "n \<le> unat (rq_n_legs rec)" and "unat (rq_n_legs rec) \<le> length (rq_legs rec)" and "unat (rq_n_legs rec) \<le> MAX_LEGS"
    and "fold_plan (plan_leg l rec expected now) [0..<n] (replicate MAX_LEGS None, 0) = Some (Inr acc)"
  shows "planned l rec expected now n acc"
  using assms
proof (induction n arbitrary: acc)
  case (Suc n)
  from Suc.prems(4) obtain acc1 where
    "fold_plan (plan_leg l rec expected now) [0..<n] (replicate MAX_LEGS None, 0) = Some (Inr acc1)"
    "plan_leg l rec expected now n acc1 = Some (Inr acc)"
    by (auto simp: fold_plan_append split: option.splits sum.splits)
  with Suc plan_leg_step[of l rec expected now n acc1 acc] show ?case by simp
qed (auto simp: planned_def)

lemma fold_plan_returns:
  "(\<And>k s. k \<in> set ks \<Longrightarrow> f k s \<noteq> None) \<Longrightarrow> fold_plan f ks s \<noteq> None"
proof (induction ks arbitrary: s)
  case (Cons k ks)
  from Cons.prems[of k s] obtain x where "f k s = Some x" by auto
  with Cons show ?case by (cases x) auto
qed simp

lemma leg_index: "k < MAX_LEGS \<Longrightarrow> unat (word_of_nat k :: u8) = k"
  by (simp add: MAX_LEGS_def unat_word_of_nat_u8)

lemma request_leg_index:
  assumes "k < unat (rq_n_legs rec)" "unat (rq_n_legs rec) \<le> length (rq_legs rec)" "unat (rq_n_legs rec) \<le> MAX_LEGS"
  shows "request_leg rec (word_of_nat k) = Some (rq_legs rec ! k)"
  using assms by (simp add: request_leg_nth leg_index)

lemma running_legs:
  assumes inv: "market_inv cfg t S l" and rec: "request l r = Some rec"
  shows "unat (rq_n_legs rec) \<le> length (rq_legs rec)" and "unat (rq_n_legs rec) \<le> MAX_LEGS" and "0 < unat (rq_n_legs rec)"
proof -
  have rv: "requests_of l r = Some (bare_request rec)" using rec by (simp add: requests_of_def)
  note F = request_ok_fields(1-3)[OF request_okD[OF market_okD(2)[OF market_invD(3)[OF inv]] rv]]
  then show "unat (rq_n_legs rec) \<le> length (rq_legs rec)" "unat (rq_n_legs rec) \<le> MAX_LEGS" "0 < unat (rq_n_legs rec)"
    by (simp_all add: word_less_nat_alt)
qed

lemma plan_returns:
  assumes inv: "market_inv cfg t S l" and rec: "request l r = Some rec" "\<not> request_state_is_terminal (rq_state rec)"
  shows "plan_accept l rec expected now \<noteq> None"
  unfolding plan_accept_def
proof (rule fold_plan_returns)
  note N = running_legs[OF inv rec(1)]
  fix k and s :: "selection option list \<times> amount" assume "k \<in> set [0..<unat (rq_n_legs rec)]"
  then have k: "k < unat (rq_n_legs rec)" by simp
  obtain hs where "chain_at (max_quotes_per_leg cfg) (quote l) r (word_of_nat k) (rq_legs rec ! k) hs"
    by (rule leg_of_context[OF inv rec request_leg_index[OF k N(1,2)]])
  then obtain res where "best_on_leg l (rq_legs rec ! k) now = Some res"
    using best_on_leg_chain[of l "rq_legs rec ! k" hs now] by (auto simp: chain_at_def)
  then show "plan_leg l rec expected now k s \<noteq> None"
    using k N(1) by (cases s) (auto simp: plan_leg_def request_legs_nth Let_def split: option.split sum.split)
qed

text \<open>The winner of a planned leg: a live quote of the leg, at or below the limit, with its claim reserved.\<close>

lemma planned_winner:
  assumes inv: "market_inv cfg now S l" and rec: "request l r = Some rec" "rq_state rec = ReqOpen"
    and pl: "planned l rec expected now (unat (rq_n_legs rec)) (plan, tot)" and k: "k < unat (rq_n_legs rec)"
  obtains b q c where "plan ! k = Some b" and "quotes_of l (sel_quote b) = Some q" and "q_request q = r" and "q_leg q = word_of_nat k"
    and "q_state q = QuoteActive" and "now < q_expires_at q" and "q_price q = sel_price b" and "q_claim q = Some c"
    and "sel_price b \<le> leg_limit (rq_legs rec ! k)"
    and "\<forall>h' q'. quotes_of l h' = Some q' \<longrightarrow> q_request q' = r \<longrightarrow> q_leg q' = word_of_nat k \<longrightarrow>
           eligible (rq_legs rec ! k) now q' \<longrightarrow> ranks_before q q'"
proof -
  note N = running_legs[OF inv rec(1)]
  have nt: "\<not> request_state_is_terminal (rq_state rec)" using rec by simp
  from pl k obtain b where b: "plan ! k = Some b" "best_on_leg l (rq_legs rec ! k) now = Some (Inr b)"
    by (auto simp: planned_def)
  obtain hs where hs: "chain_at (max_quotes_per_leg cfg) (quote l) r (word_of_nat k) (rq_legs rec ! k) hs"
    by (rule leg_of_context[OF inv rec(1) nt request_leg_index[OF k N(1,2)]])
  with best_on_leg_chain[of l "rq_legs rec ! k" hs now] b(2) have "is_best (quote l) (rq_legs rec ! k) now hs b"
    by (auto simp: chain_at_def)
  then obtain q0 where q0: "sel_quote b \<in> set hs" "quote l (sel_quote b) = Some q0" "eligible (rq_legs rec ! k) now q0"
    "sel_price b = q_price q0" "\<And>h' q'. h' \<in> set hs \<Longrightarrow> quote l h' = Some q' \<Longrightarrow> eligible (rq_legs rec ! k) now q' \<Longrightarrow> ranks_before q0 q'"
    unfolding is_best_def by blast
  have set_hs: "set hs = quotes_at (quotes_of l) r (word_of_nat k)" using hs by (simp add: chain_at_def quotes_at_bare)
  have q: "quotes_of l (sel_quote b) = Some (bare_quote q0)" using q0(2) by (simp add: quotes_of_def)
  have at: "q_request q0 = r" "q_leg q0 = word_of_nat k" using q0(1) q unfolding set_hs by (auto simp: quotes_at_def)
  have live: "q_state q0 = QuoteActive" "now < q_expires_at q0" "q_price q0 \<le> leg_limit (rq_legs rec ! k)"
    using q0(3) by (auto simp: eligible_def quote_is_live_at_def)
  have "q_claim (bare_quote q0) \<noteq> None"
    by (rule quote_okD[OF market_okD(1)[OF market_invD(3)[OF inv]] q]) (use live in \<open>cases "q_claim q0"; auto\<close>)
  then obtain c where "q_claim (bare_quote q0) = Some c" by blast
  moreover have "\<forall>h' q'. quotes_of l h' = Some q' \<longrightarrow> q_request q' = r \<longrightarrow> q_leg q' = word_of_nat k \<longrightarrow>
           eligible (rq_legs rec ! k) now q' \<longrightarrow> ranks_before (bare_quote q0) q'"
  proof (intro allI impI)
    fix h' q' assume a: "quotes_of l h' = Some q'" "q_request q' = r" "q_leg q' = word_of_nat k" "eligible (rq_legs rec ! k) now q'"
    then have "h' \<in> set hs" unfolding set_hs by (auto simp: quotes_at_def)
    moreover from a obtain x where "quote l h' = Some x" "q' = bare_quote x" by (auto simp: quotes_of_Some)
    ultimately show "ranks_before (bare_quote q0) q'" using q0(5)[of h' x] a(4) by (simp add: ranks_before_def eligible_def)
  qed
  ultimately show thesis using that[OF b(1) q] at live q0(4) by simp
qed

section \<open>Committing the winner of a leg\<close>

lemma claim_index_unique:
  assumes inv: "ledger_inv l" and c: "owner_claim l ow = Some (Some c)" and i: "claims l i = Some (g, a, m, ow, k)"
  shows "i = h_index c"
  using owned_claim_iff[OF inv c, of "\<lparr>h_index = i, h_generation = g\<rparr>"] i by auto

lemma commit_winner_spec:
  assumes inv: "market_inv cfg t (Some r) l" and q: "quotes_of l (sel_quote b) = Some q" "q_state q = QuoteActive" "q_request q = r"
    and c: "q_claim q = Some c" and alone: "\<And>k q'. quotes_of l k = Some q' \<Longrightarrow> q_request q' = r \<Longrightarrow> q_leg q' = q_leg q \<Longrightarrow> k = sel_quote b"
  obtains a m e where "claims l (h_index c) = Some (h_generation c, a, m, OwnerQuote (sel_quote b), OnExpiry e)"
    and "market_inv cfg t (Some r) (commit_winner r b l)"
    and "quotes_of (commit_winner r b l) = (quotes_of l)(sel_quote b \<mapsto> quote_set_state QuoteConsumed q)"
    and "requests_of (commit_winner r b l) = requests_of l"
    and "claims (commit_winner r b l) = (claims l)(h_index c \<mapsto> (h_generation c, a, m, OwnerQuote (sel_quote b), OnCommitted r))"
    and "contract_at (commit_winner r b l) = contract_at l"
proof -
  note I = market_invD[OF inv]
  let ?w = "sel_quote b" and ?l1 = "quote_update (sel_quote b) (quote_set_state QuoteConsumed) l"
  from q(1) obtain q0 where q0: "quote l ?w = Some q0" "q = bare_quote q0" by (auto simp: quotes_of_Some)
  then have q0s: "q_state q0 = QuoteActive" "q_claim q0 = Some c" "q_request q0 = r" using q c by simp_all
  obtain res where res: "reservation l c = Some res" "\<not> is_committed res" "res_owner_of res = OwnerQuote ?w"
    by (rule active_claim[OF inv q0(1) q0s(1,2)])
  obtain e where e: "kind_of res = OnExpiry e" using not_committed_kind[OF res(2)] by blast
  have cl: "claims l (h_index c) = Some (h_generation c, res_account res, res_amount res, OwnerQuote ?w, OnExpiry e)"
    using res e by (auto simp: claims_Some_iff reservation_Some_iff)
  obtain rec where rv: "requests_of l r = Some rec" using quote_okD[OF market_okD(1)[OF I(3)] q(1)] q(3) by metis
  then have rq: "request l r \<noteq> None" by (auto simp: requests_of_def)
  have inv1: "ledger_inv ?l1" by (rule quote_update_inv[OF I(1)]) simp
  have res1: "reservation ?l1 c = Some res" using res(1) by (simp add: reservation_def)
  obtain bal where bal: "account ?l1 (res_account res) = Some bal" using claim_facts[OF inv1 res1] by metis
  have rq1: "request ?l1 r \<noteq> None" using rq by simp
  note C = cp_commit_spec[OF inv1 res1 res(2) bal rq1 order_refl]
  have eq: "commit_winner r b l = cp_commit c r (res_amount res) ?l1"
    using q0 q0s res by (simp add: commit_winner_def Let_def)
  have ql: "quote ?l1 = (quote l)(?w \<mapsto> quote_set_state QuoteConsumed q0)" using q0 by (auto simp: fun_eq_iff)
  have v: "quotes_of (commit_winner r b l) = (quotes_of l)(?w \<mapsto> quote_set_state QuoteConsumed q)"
    "requests_of (commit_winner r b l) = requests_of l"
    "claims (commit_winner r b l) = (claims l)(h_index c \<mapsto> (h_generation c, res_account res, res_amount res, OwnerQuote ?w, OnCommitted r))"
    "contract_at (commit_winner r b l) = contract_at l"
    unfolding eq using C(2,4,5) contract_at_cong[OF C(6)] q0 ql res(3)
    by (auto simp: fun_eq_iff quotes_of_def requests_of_def effects contract_at_def option.map_comp comp_def)
  have "chains_ok (max_quotes_per_leg cfg) (request (commit_winner r b l)) (quote (commit_winner r b l))"
  proof (rule chains_ok_cong[OF I(2)])
    show "map_option (\<lambda>q. (q_next_on_leg q, q_request q, q_leg q)) (quote (commit_winner r b l) h)
        = map_option (\<lambda>q. (q_next_on_leg q, q_request q, q_leg q)) (quote l h)" for h
      unfolding eq C(5) ql using q0(1) by simp
    fix r' rec' lid' leg'
    assume "request (commit_winner r b l) r' = Some rec'" "\<not> request_state_is_terminal (rq_state rec')" "request_leg rec' lid' = Some leg'"
    then show "\<exists>rec leg. request l r' = Some rec \<and> \<not> request_state_is_terminal (rq_state rec) \<and>
        request_leg rec lid' = Some leg \<and> leg_quotes_head leg' = leg_quotes_head leg \<and> leg_quote_count leg' = leg_quote_count leg"
      unfolding eq C(4) by (auto simp: request_legs_setters record_setters request_leg_def request_legs_def split: if_splits)
  qed
  moreover have "market_ok cfg t (Some r) (contract_at l) (requests_of l) ((quotes_of l)(?w \<mapsto> quote_set_state QuoteConsumed q))
      ((claims l)(h_index c \<mapsto> (h_generation c, res_account res, res_amount res, OwnerQuote ?w, OnCommitted r)))"
  proof (rule market_ok_consume[OF I(3) q _ cl])
    show "k = ?w" if "quotes_of l k = Some q'" "q_request q' = r" "q_leg q' = q_leg q" for k q'
      by (rule alone[OF that])
    show "j = h_index c" if "claims l j = Some (g', a', m', OwnerQuote ?w, k')" for j g' a' m' k'
      by (rule claim_index_unique[OF I(1) _ that]) (simp add: owner_claim_def q0 q0s)
  qed (use c in auto)
  ultimately have "market_inv cfg t (Some r) (commit_winner r b l)"
    using C(1) unfolding market_inv_def v by (simp add: eq)
  then show thesis using that cl v by blast
qed

section \<open>The commit loop\<close>

definition won :: "selection option list \<Rightarrow> quote_idx \<Rightarrow> quote \<Rightarrow> bool" where
  "won plan h q \<longleftrightarrow> (\<exists>b. plan ! unat (q_leg q) = Some b \<and> sel_quote b = h)"

text \<open>The quotes and the claims once the first \<open>k\<close> legs of \<open>r\<close> are committed.\<close>

definition accepted_quotes :: "req_idx \<Rightarrow> selection option list \<Rightarrow> nat \<Rightarrow> quote_map \<Rightarrow> quote_map" where
  "accepted_quotes r plan k qt h = (case qt h of
     None \<Rightarrow> None
   | Some q \<Rightarrow> if q_request q = r \<and> unat (q_leg q) < k
               then (if won plan h q then Some (quote_set_state QuoteConsumed q) else None) else Some q)"

lemma accepted_quotes_Some:
  "accepted_quotes r plan k qt h = Some q \<longleftrightarrow> (\<exists>q0. qt h = Some q0 \<and>
     (if q_request q0 = r \<and> unat (q_leg q0) < k then won plan h q0 \<and> q = quote_set_state QuoteConsumed q0 else q = q0))"
  by (auto simp: accepted_quotes_def split: option.split)

definition accepted_claims :: "req_idx \<Rightarrow> selection option list \<Rightarrow> nat \<Rightarrow> quote_map \<Rightarrow> claim_map \<Rightarrow> claim_map" where
  "accepted_claims r plan k qt cl i = (case cl i of
     Some (g, a, m, OwnerQuote h, kd) \<Rightarrow>
       (case qt h of
          Some q \<Rightarrow> if q_request q = r \<and> unat (q_leg q) < k
                    then (if won plan h q then Some (g, a, m, OwnerQuote h, OnCommitted r) else None) else cl i
        | None \<Rightarrow> cl i)
   | v \<Rightarrow> v)"

definition accepting :: "ledger \<Rightarrow> req_idx \<Rightarrow> selection option list \<Rightarrow> nat \<Rightarrow> ledger \<Rightarrow> bool" where
  "accepting l0 r plan k l \<longleftrightarrow> quotes_of l = accepted_quotes r plan k (quotes_of l0) \<and> requests_of l = requests_of l0 \<and>
     claims l = accepted_claims r plan k (quotes_of l0) (claims l0) \<and> contract_at l = contract_at l0"

lemma accepting_start: "accepting l r plan 0 l"
  by (auto simp: accepting_def accepted_quotes_def accepted_claims_def fun_eq_iff split: option.split res_owner.split)

text \<open>One more leg: its losers go, its winner is consumed.\<close>

lemma leg_lt_Suc: "k < MAX_LEGS \<Longrightarrow> unat (lid :: u8) < Suc k \<longleftrightarrow> unat lid < k \<or> lid = word_of_nat k"
  using leg_index[of k] by (auto simp: less_Suc_eq word_unat_eq_iff)

lemma accepted_quotes_Suc:
  assumes k: "k < MAX_LEGS" and b: "plan ! k = Some b" and q: "qt (sel_quote b) = Some q" "q_request q = r" "q_leg q = word_of_nat k"
    and A: "A = {h \<in> quotes_at (accepted_quotes r plan k qt) r (word_of_nat k). h \<noteq> sel_quote b}"
  shows "(\<lambda>h. if h \<in> A then None else accepted_quotes r plan k qt h)(sel_quote b \<mapsto> quote_set_state QuoteConsumed q)
      = accepted_quotes r plan (Suc k) qt"
proof
  fix h
  have lid: "\<not> unat (word_of_nat k :: u8) < k" using leg_index[OF k] by simp
  show "((\<lambda>h. if h \<in> A then None else accepted_quotes r plan k qt h)(sel_quote b \<mapsto> quote_set_state QuoteConsumed q)) h
      = accepted_quotes r plan (Suc k) qt h"
  proof (cases "qt h")
    case None
    then show ?thesis using q by (auto simp: accepted_quotes_def)
  next
    case (Some x)
    have mem: "h \<in> A \<longleftrightarrow> q_request x = r \<and> q_leg x = word_of_nat k \<and> h \<noteq> sel_quote b"
      using Some lid by (auto simp: A quotes_at_def accepted_quotes_def split: if_splits)
    show ?thesis
    proof (cases "q_request x = r \<and> q_leg x = word_of_nat k")
      case True
      then have "won plan h x \<longleftrightarrow> h = sel_quote b" using b leg_index[OF k] by (auto simp: won_def)
      moreover have "unat (q_leg x) < Suc k" "\<not> unat (q_leg x) < k" using True leg_index[OF k] by simp_all
      moreover have "h = sel_quote b \<Longrightarrow> x = q" using q(1) Some by simp
      ultimately show ?thesis using True Some mem by (cases "h = sel_quote b") (simp_all add: accepted_quotes_def)
    next
      case False
      have "h \<noteq> sel_quote b"
      proof
        assume "h = sel_quote b"
        then have "x = q" using q(1) Some by simp
        with False q(2,3) show False by blast
      qed
      with False show ?thesis using Some mem k by (auto simp: accepted_quotes_def leg_lt_Suc)
    qed
  qed
qed

lemma accepted_claims_Suc:
  assumes k: "k < MAX_LEGS" and b: "plan ! k = Some b" and q: "qt (sel_quote b) = Some q" "q_request q = r" "q_leg q = word_of_nat k"
    and A: "A = {h \<in> quotes_at (accepted_quotes r plan k qt) r (word_of_nat k). h \<noteq> sel_quote b}"
    and c: "cl j = Some (g, a, m, OwnerQuote (sel_quote b), kd)"
    and only: "\<forall>i g' a' m' kd'. cl i = Some (g', a', m', OwnerQuote (sel_quote b), kd') \<longrightarrow> i = j"
  shows "(disown_all A (accepted_claims r plan k qt cl))(j \<mapsto> (g, a, m, OwnerQuote (sel_quote b), OnCommitted r))
      = accepted_claims r plan (Suc k) qt cl"
proof
  fix i
  have lid: "\<not> unat (word_of_nat k :: u8) < k" using leg_index[OF k] by simp
  show "((disown_all A (accepted_claims r plan k qt cl))(j \<mapsto> (g, a, m, OwnerQuote (sel_quote b), OnCommitted r))) i
      = accepted_claims r plan (Suc k) qt cl i"
  proof (cases "i = j")
    case True
    have "won plan (sel_quote b) q" using b q leg_index[OF k] by (simp add: won_def)
    then show ?thesis using True c q k by (simp add: accepted_claims_def leg_lt_Suc)
  next
    case ij: False
    show ?thesis
    proof (cases "\<exists>g' a' m' h kd' x. cl i = Some (g', a', m', OwnerQuote h, kd') \<and> qt h = Some x")
      case False
      moreover have "h \<notin> A" if "qt h = None" for h using that by (simp add: A quotes_at_def accepted_quotes_def)
      ultimately show ?thesis using ij
        by (auto simp: accepted_claims_def disown_all_def split: option.split res_owner.split)
    next
      case True
      then obtain g' a' m' h kd' x where i: "cl i = Some (g', a', m', OwnerQuote h, kd')" "qt h = Some x" by blast
      have hb: "h \<noteq> sel_quote b" using only i(1) ij by auto
      have mem: "h \<in> A \<longleftrightarrow> q_request x = r \<and> q_leg x = word_of_nat k"
        using i(2) lid hb by (auto simp: A quotes_at_def accepted_quotes_def split: if_splits)
      show ?thesis
      proof (cases "q_request x = r \<and> q_leg x = word_of_nat k")
        case True
        then have "\<not> won plan h x" using b leg_index[OF k] hb by (auto simp: won_def)
        then show ?thesis using True i mem k lid ij by (simp add: accepted_claims_def disown_all_def leg_lt_Suc)
      next
        case False
        then show ?thesis using i mem k ij by (auto simp: accepted_claims_def disown_all_def leg_lt_Suc)
      qed
    qed
  qed
qed

lemma accept_leg_step:
  assumes inv0: "market_inv cfg now None l0" and rec: "requests_of l0 r = Some rec" "rq_state rec = ReqOpen" "request_leg rec (word_of_nat k) = Some leg"
    and mq: "unat (max_quotes_per_leg cfg) \<le> MAX_QUOTES_PER_LEG" and k: "k < MAX_LEGS" "k < length plan" and b: "plan ! k = Some s"
    and q: "quotes_of l0 (sel_quote s) = Some q" "q_request q = r" "q_leg q = word_of_nat k" "q_state q = QuoteActive" "q_claim q = Some c"
    and inv: "market_inv cfg now (Some r) l" and acc: "accepting l0 r plan k l"
  shows "\<exists>l' es. accept_leg r plan now k (l, b) = Some (l', push_events es b) \<and> length es \<le> unat (max_quotes_per_leg cfg) \<and>
    market_inv cfg now (Some r) l' \<and> accepting l0 r plan (Suc k) l'"
proof -
  let ?lid = "word_of_nat k :: u8"
  have lid: "\<not> unat ?lid < k" using leg_index[OF k(1)] by simp
  have ql: "quotes_of l = accepted_quotes r plan k (quotes_of l0)" and rl: "requests_of l = requests_of l0"
    and cl: "claims l = accepted_claims r plan k (quotes_of l0) (claims l0)" and ctl: "contract_at l = contract_at l0"
    using acc by (simp_all add: accepting_def)
  have same: "quotes_of l h = Some x \<longleftrightarrow> quotes_of l0 h = Some x" if "q_leg x = ?lid" for h x
    using that lid unfolding ql by (auto simp: accepted_quotes_def split: option.splits if_splits)
  have nt: "\<not> request_state_is_terminal (rq_state rec)" using rec by simp
  have act: "active_at l r ?lid h" if "h \<in> quotes_at (quotes_of l) r ?lid" for h
  proof -
    from that have "h \<in> quotes_at (quotes_of l0) r ?lid" using same by (auto simp: quotes_at_def)
    from open_quotes_active[OF inv0 rec(1,2) this] show ?thesis using same by (auto simp: active_at_def)
  qed
  have rec': "requests_of l r = Some rec" using rec rl by simp
  obtain l1 hs where l1: "release_leg r ?lid (Some s) now Outbid (l, b)
      = Some (l1, push_events (map (release_event Outbid now (quotes_of l)) hs) b)"
    "set hs = {h \<in> quotes_at (quotes_of l) r ?lid. \<not> kept_is (Some s) h}" "length hs \<le> unat (max_quotes_per_leg cfg)"
    "market_inv cfg now (Some r) l1" "retires l (set hs) l1"
    using release_leg_spec[OF inv mq rec' nt rec(3), where keep = "Some s" and reason = Outbid and now = now and b = b] act by blast
  have A: "set hs = {h \<in> quotes_at (accepted_quotes r plan k (quotes_of l0)) r ?lid. h \<noteq> sel_quote s}"
    using l1(2) unfolding ql by (auto simp: kept_is_def)
  have q1: "quotes_of l1 (sel_quote s) = Some q" using l1(5) A same[OF q(3)] q(1) by (simp add: retires_def)
  have alone: "h = sel_quote s" if "quotes_of l1 h = Some x" "q_request x = r" "q_leg x = q_leg q" for h x
  proof (rule ccontr)
    assume "h \<noteq> sel_quote s"
    moreover from that(1) l1(5) have "h \<notin> set hs" "quotes_of l h = Some x" by (auto simp: retires_def split: if_splits)
    ultimately show False using that(2,3) q(3) A by (auto simp: quotes_at_def ql)
  qed
  obtain a m e where w: "claims l1 (h_index c) = Some (h_generation c, a, m, OwnerQuote (sel_quote s), OnExpiry e)"
    "market_inv cfg now (Some r) (commit_winner r s l1)"
    "quotes_of (commit_winner r s l1) = (quotes_of l1)(sel_quote s \<mapsto> quote_set_state QuoteConsumed q)"
    "requests_of (commit_winner r s l1) = requests_of l1"
    "claims (commit_winner r s l1) = (claims l1)(h_index c \<mapsto> (h_generation c, a, m, OwnerQuote (sel_quote s), OnCommitted r))"
    "contract_at (commit_winner r s l1) = contract_at l1"
    by (rule commit_winner_spec[OF l1(4) q1 q(4,2,5) alone]) blast
  obtain q0 where q0: "quote l0 (sel_quote s) = Some q0" "q_claim q0 = Some c" using q(1,5) by (auto simp: quotes_of_Some)
  from quote_claim_iff[OF market_invD(1)[OF inv0] q0(1), of c] q0(2) obtain a0 m0 k0 where
    c0: "claims l0 (h_index c) = Some (h_generation c, a0, m0, OwnerQuote (sel_quote s), k0)" by auto
  have "claims l1 (h_index c) = claims l0 (h_index c)"
    using l1(5) c0 q(1,3) lid A cl by (simp add: retires_def disown_all_def accepted_claims_def)
  with c0 w(1) have am: "a0 = a" "m0 = m" by simp_all
  have "owner_claim l0 (OwnerQuote (sel_quote s)) = Some (Some c)" by (simp add: owner_claim_def q0)
  from claim_index_unique[OF market_invD(1)[OF inv0] this]
  have only: "\<forall>i g' a' m' kd'. claims l0 i = Some (g', a', m', OwnerQuote (sel_quote s), kd') \<longrightarrow> i = h_index c" by blast
  have "quotes_of l1 = (\<lambda>h. if h \<in> set hs then None else accepted_quotes r plan k (quotes_of l0) h)"
    "claims l1 = disown_all (set hs) (accepted_claims r plan k (quotes_of l0) (claims l0))"
    using l1(5) unfolding retires_def ql cl by simp_all
  note views = w(3,5)[unfolded this]
  have "quotes_of (commit_winner r s l1) = accepted_quotes r plan (Suc k) (quotes_of l0)"
    unfolding views by (rule accepted_quotes_Suc[where q = q]) (use k b q A in simp_all)
  moreover have "claims (commit_winner r s l1) = accepted_claims r plan (Suc k) (quotes_of l0) (claims l0)"
    unfolding views by (rule accepted_claims_Suc[where q = q and kd = k0]) (use k b q A c0 am only in simp_all)
  ultimately have "accepting l0 r plan (Suc k) (commit_winner r s l1)"
    using w(4,6) l1(5) rl ctl by (simp add: accepting_def retires_def)
  moreover have "accept_leg r plan now k (l, b) = Some (commit_winner r s l1, push_events (map (release_event Outbid now (quotes_of l)) hs) b)"
    using l1(1) b k(2) by (simp add: accept_leg_def nth_opt_def)
  ultimately show ?thesis using w(2) l1(3) by (metis length_map)
qed

lemma market_inv_begin: "market_inv cfg t None l \<Longrightarrow> market_inv cfg t (Some r) l"
proof -
  have "quote_ok t None rq q \<Longrightarrow> quote_ok t (Some r) rq q" for rq q
    unfolding quote_ok_def by (fastforce split: quote_state.splits)
  then show "market_inv cfg t None l \<Longrightarrow> market_inv cfg t (Some r) l"
    by (simp add: market_inv_def market_ok_def quotes_ok_def)
qed

lemma accept_loop:
  assumes inv0: "market_inv cfg now None l0" and rec: "request l0 r = Some rec" "rq_state rec = ReqOpen"
    and mq: "unat (max_quotes_per_leg cfg) \<le> MAX_QUOTES_PER_LEG"
    and pl: "planned l0 rec expected now (unat (rq_n_legs rec)) (plan, tot)" and n: "n \<le> unat (rq_n_legs rec)"
  shows "\<exists>l' es. fold_opt (accept_leg r plan now) [0..<n] (l0, b) = Some (l', push_events es b) \<and>
    length es \<le> n * unat (max_quotes_per_leg cfg) \<and> market_inv cfg now (Some r) l' \<and> accepting l0 r plan n l'"
  using n
proof (induction n)
  case 0
  show ?case using market_inv_begin[OF inv0] accepting_start by (auto intro: exI[of _ "[]"])
next
  case (Suc n)
  then obtain l1 es where l1: "fold_opt (accept_leg r plan now) [0..<n] (l0, b) = Some (l1, push_events es b)"
    "length es \<le> n * unat (max_quotes_per_leg cfg)" "market_inv cfg now (Some r) l1" "accepting l0 r plan n l1" by auto
  have n: "n < unat (rq_n_legs rec)" using Suc.prems by simp
  note N = running_legs[OF inv0 rec(1)]
  obtain s q c where w: "plan ! n = Some s" "quotes_of l0 (sel_quote s) = Some q" "q_request q = r" "q_leg q = word_of_nat n"
    "q_state q = QuoteActive" "q_claim q = Some c"
    by (rule planned_winner[OF inv0 rec pl n]) blast
  have rv: "requests_of l0 r = Some (bare_request rec)" using rec by (simp add: requests_of_def)
  have lg: "request_leg (bare_request rec) (word_of_nat n) = Some (bare_leg (rq_legs rec ! n))"
    using request_leg_index[OF n N(1,2)] by simp
  have nn: "n < MAX_LEGS" "n < length plan" using n N(2) pl by (auto simp: planned_def)
  have st: "rq_state (bare_request rec) = ReqOpen" using rec by simp
  obtain l' es' where l': "accept_leg r plan now n (l1, push_events es b) = Some (l', push_events es' (push_events es b))"
    "length es' \<le> unat (max_quotes_per_leg cfg)" "market_inv cfg now (Some r) l'" "accepting l0 r plan (Suc n) l'"
    using accept_leg_step[OF inv0 rv st lg mq nn w(1-6) l1(3,4)] by blast
  then show ?case using l1(1,2)
    by (intro exI[of _ l'] exI[of _ "es @ es'"]) (simp add: fold_opt_append)
qed

section \<open>The requester's claim, and the settling request\<close>

lemma worst_case_views:
  assumes "market_inv cfg t S l" and "request l r = Some rec"
  shows "worst_case (bare_request rec) = worst_case rec"
  by (rule worst_case_bare) (rule running_legs(1)[OF assms])

lemma begin_settlement:
  assumes inv: "market_inv cfg t (Some r) l" and rec: "request l r = Some rec" "rq_state rec = ReqOpen" "rq_claim rec = Some c"
    and tot: "unat tot \<le> worst_case rec" and cons: "\<And>k q. quotes_of l k = Some q \<Longrightarrow> q_request q = r \<Longrightarrow> q_state q = QuoteConsumed"
    and fill: "filled (quotes_of l) r (bare_request rec) tot" and d: "unat d \<le> unat (rq_deadline rec) + unat (max_settling_time cfg)"
  defines "l' \<equiv> request_update r (request_set_state (ReqSettling (nonce_of r) d)) (cp_commit c r tot l)"
  shows "market_inv cfg t None l'" and "quotes_of l' = quotes_of l"
    and "requests_of l' = (requests_of l)(r \<mapsto> request_set_state (ReqSettling (nonce_of r) d) (bare_request rec))"
    and "claims l' = (claims l)(h_index c \<mapsto> (h_generation c, rq_requester rec, tot, OwnerRequest r, OnCommitted r))"
    and "contract_at l' = contract_at l"
proof -
  note I = market_invD[OF inv]
  obtain res where res: "reservation l c = Some res" "\<not> is_committed res" "res_owner_of res = OwnerRequest r"
    "unat (res_amount res) = worst_case rec" "res_account res = rq_requester rec"
    "claims l (h_index c) = Some (h_generation c, rq_requester rec, res_amount res, OwnerRequest r, OnExpiry (rq_deadline rec))"
    by (rule open_request_claim[OF inv rec])
  obtain bal where bal: "account l (res_account res) = Some bal" using claim_facts[OF I(1) res(1)] by metis
  have rq: "request l r \<noteq> None" using rec by simp
  have keep: "tot \<le> res_amount res" using tot res(4) by (simp add: word_le_nat_alt)
  note C = cp_commit_spec[OF I(1) res(1,2) bal rq keep]
  let ?st = "ReqSettling (nonce_of r) d"
  have rl': "request l' = (request l)(r \<mapsto> request_set_state ?st (request_set_head (h_index c) rec))"
    unfolding l'_def using C(4) rec(1) by (auto simp: fun_eq_iff)
  have ql': "quote l' = quote l" unfolding l'_def using C(5) by simp
  show q: "quotes_of l' = quotes_of l" by (rule views_cong(2)[OF ql'])
  show r: "requests_of l' = (requests_of l)(r \<mapsto> request_set_state ?st (bare_request rec))"
    using requests_of_upd[OF rl'] by simp
  show c: "claims l' = (claims l)(h_index c \<mapsto> (h_generation c, rq_requester rec, tot, OwnerRequest r, OnCommitted r))"
    unfolding l'_def using C(2) res(3,5) by (simp add: effects)
  show ct: "contract_at l' = contract_at l" unfolding l'_def using contract_at_cong[OF C(6)] by (simp add: contract_at_def fun_eq_iff)
  have inv': "ledger_inv l'" unfolding l'_def by (rule request_update_inv[OF C(1)]) (simp add: record_setters)
  have "chains_ok (max_quotes_per_leg cfg) (request l') (quote l')"
  proof (rule chains_ok_cong[OF I(2)])
    fix r' rec' lid' leg'
    assume "request l' r' = Some rec'" "\<not> request_state_is_terminal (rq_state rec')" "request_leg rec' lid' = Some leg'"
    then show "\<exists>rec leg. request l r' = Some rec \<and> \<not> request_state_is_terminal (rq_state rec) \<and>
        request_leg rec lid' = Some leg \<and> leg_quotes_head leg' = leg_quotes_head leg \<and> leg_quote_count leg' = leg_quote_count leg"
      using rec unfolding rl' by (auto simp: request_legs_setters split: if_splits)
  qed (simp add: ql')
  moreover have rv: "requests_of l r = Some (bare_request rec)" using rec by (simp add: requests_of_def)
  have "owner_claim l (OwnerRequest r) = Some (Some c)" using rec by (simp add: owner_claim_def)
  note only = claim_index_unique[OF I(1) this]
  have "market_ok cfg t None (contract_at l) ((requests_of l)(r \<mapsto> request_set_state ?st (bare_request rec))) (quotes_of l)
      ((claims l)(h_index c \<mapsto> (h_generation c, rq_requester rec, tot, OwnerRequest r, OnCommitted r)))"
    by (rule market_ok_settle[OF I(3) rv _ _ res(6)]) (use rec only cons fill d in auto)
  ultimately show "market_inv cfg t None l'" using inv' by (simp add: market_inv_def q r c ct)
qed

section \<open>The handler\<close>

lemma check_accept_accepts:
  assumes "check_accept e b r expected n_legs now = Some (Inr (rec, plan, tot, claim, intent))"
  obtains c where "request (e_ledger e) r = Some rec" and "rq_state rec = ReqOpen" and "now < rq_deadline rec"
    and "n_legs = rq_n_legs rec" and "plan_accept (e_ledger e) rec expected now = Some (Inr (plan, tot))"
    and "rq_claim rec = Some claim" and "reservation (e_ledger e) claim = Some c" and "tot \<le> res_amount c"
    and "eb_headroom b (unat (rq_n_legs rec) * unat (max_quotes_per_leg (e_config e)) + 1) = Inr ()"
    and "build_intent (e_ledger e) rec plan = Inr intent"
proof -
  let ?l = "e_ledger e"
  obtain rec' where rec: "request ?l r = Some rec'" using assms by (auto simp: check_accept_def Let_def split: option.splits)
  note a = assms[unfolded check_accept_def Let_def rec option.case]
  have st: "rq_state rec' = ReqOpen" "\<not> rq_deadline rec' \<le> now" "n_legs = rq_n_legs rec'"
    using a by (auto split: if_splits)
  obtain plan' tot' where pl: "plan_accept ?l rec' expected now = Some (Inr (plan', tot'))"
    using a st by (auto split: option.splits sum.splits)
  obtain claim' where cl: "rq_claim rec' = Some claim'" using a st pl by (auto split: option.splits)
  obtain c where c: "reservation ?l claim' = Some c" using a st pl cl by (auto split: option.splits)
  have le: "tot' \<le> res_amount c" using a st pl cl c by (auto simp: not_le split: if_splits)
  let ?n = "unat (rq_n_legs rec') * unat (max_quotes_per_leg (e_config e)) + 1"
  have room: "eb_headroom b ?n = Inr ()"
    using a st pl cl c le headroom_cases[of b ?n] by (auto simp: lift_buffer_def split: if_splits)
  have "build_intent ?l rec' plan' = Inr intent \<and> rec' = rec \<and> plan' = plan \<and> tot' = tot \<and> claim' = claim"
    using a st pl cl c le room by (cases "build_intent ?l rec' plan'") (auto simp: lift_buffer_def split: if_splits)
  then have bi: "build_intent ?l rec' plan' = Inr intent" and eq: "rec' = rec" "plan' = plan" "tot' = tot" "claim' = claim"
    by blast+
  have "now < rq_deadline rec'" using st(2) by simp
  then show thesis using that[of c] rec st pl cl c le room bi unfolding eq by blast
qed

lemma check_accept_returns:
  assumes "market_inv (e_config e) t None (e_ledger e)"
  shows "check_accept e b r expected n_legs now \<noteq> None"
proof (cases "\<exists>rec. request (e_ledger e) r = Some rec \<and> rq_state rec = ReqOpen")
  case True
  then obtain rec where rec: "request (e_ledger e) r = Some rec" "rq_state rec = ReqOpen" by blast
  then have "\<not> request_state_is_terminal (rq_state rec)" by simp
  from plan_returns[OF assms rec(1) this, of expected now] rec show ?thesis
    by (auto simp: check_accept_def Let_def split: option.split sum.split)
next
  case False
  then show ?thesis by (auto simp: check_accept_def Let_def split: option.split)
qed

text \<open>A successful acceptance, in full.\<close>

lemma accept_request_spec:
  assumes inv: "engine_inv now e" and chk: "check_accept e b r expected n_legs now = Some (Inr (rec, plan, tot, claim, intent))"
  defines "n \<equiv> unat (rq_n_legs rec)"
  defines "st \<equiv> ReqSettling (nonce_of r) (ts_saturating_add now (max_settling_time (e_config e)))"
  shows "\<exists>l3 es. accept_request r expected n_legs now (e, b) = Some (Inr (), (e\<lparr>e_ledger := l3\<rparr>,
      push_events (es @ [SubmitIntent r (nonce_of r) (rq_requester rec) intent (rq_n_legs rec)]) b)) \<and>
    emits b (es @ [SubmitIntent r (nonce_of r) (rq_requester rec) intent (rq_n_legs rec)])
      (push_events (es @ [SubmitIntent r (nonce_of r) (rq_requester rec) intent (rq_n_legs rec)]) b) \<and>
    market_inv (e_config e) now None l3 \<and>
    planned (e_ledger e) rec expected now n (plan, tot) \<and>
    quotes_of l3 = accepted_quotes r plan n (quotes_of (e_ledger e)) \<and>
    requests_of l3 = (requests_of (e_ledger e))(r \<mapsto> request_set_state st (bare_request rec)) \<and>
    claims l3 = (accepted_claims r plan n (quotes_of (e_ledger e)) (claims (e_ledger e)))
      (h_index claim \<mapsto> (h_generation claim, rq_requester rec, tot, OwnerRequest r, OnCommitted r)) \<and>
    contract_at l3 = contract_at (e_ledger e)"
proof -
  note E = engine_invD[OF inv]
  let ?l0 = "e_ledger e" and ?mq = "max_quotes_per_leg (e_config e)"
  have mq: "unat ?mq \<le> MAX_QUOTES_PER_LEG" using E(1) by (simp add: startable_def)
  obtain c where rec: "request ?l0 r = Some rec" "rq_state rec = ReqOpen" and dl: "now < rq_deadline rec"
    and pa: "plan_accept ?l0 rec expected now = Some (Inr (plan, tot))" and cl: "rq_claim rec = Some claim"
    and c: "reservation ?l0 claim = Some c" "tot \<le> res_amount c"
    and room: "eb_headroom b (n * unat ?mq + 1) = Inr ()"
    unfolding n_def by (rule check_accept_accepts[OF chk]) blast
  note N = running_legs[OF E(2) rec(1), folded n_def]
  have pl: "planned ?l0 rec expected now n (plan, tot)"
    using plan_prefix[of "unat (rq_n_legs rec)" rec ?l0 expected now "(plan, tot)"] N pa
    unfolding plan_accept_def n_def by simp
  obtain l1 es where l1: "fold_opt (accept_leg r plan now) [0..<n] (?l0, b) = Some (l1, push_events es b)"
    "length es \<le> n * unat ?mq" "market_inv (e_config e) now (Some r) l1" "accepting ?l0 r plan n l1"
    using accept_loop[OF E(2) rec mq pl[unfolded n_def] order_refl, of b] unfolding n_def by blast
  have ql1: "quotes_of l1 = accepted_quotes r plan n (quotes_of ?l0)" and rl1: "requests_of l1 = requests_of ?l0"
    and cl1: "claims l1 = accepted_claims r plan n (quotes_of ?l0) (claims ?l0)" and ctl1: "contract_at l1 = contract_at ?l0"
    using l1(4) by (simp_all add: accepting_def)
  obtain rec1 where rec1: "request l1 r = Some rec1" "bare_request rec1 = bare_request rec"
    by (rule requests_of_same[OF rl1 rec(1)])
  note R1 = bare_request_eq[OF rec1(2)]
  obtain res where "reservation ?l0 claim = Some res" "unat (res_amount res) = worst_case rec"
    by (rule open_request_claim[OF E(2) rec cl])
  then have "unat tot \<le> worst_case rec" using c by (simp add: word_le_nat_alt)
  then have tot: "unat tot \<le> worst_case rec1"
    using worst_case_views[OF l1(3) rec1(1)] worst_case_views[OF E(2) rec(1)] rec1(2) by simp
  have rv: "requests_of ?l0 r = Some (bare_request rec)" using rec by (simp add: requests_of_def)
  have all: "unat (q_leg q) < n" if "quotes_of ?l0 h = Some q" "q_request q = r" for h q
    using quotes_valid_leg(1)[OF E(2) rv that] by (simp add: set_leg_ids n_def)
  have cons: "q_state q = QuoteConsumed" if "quotes_of l1 h = Some q" "q_request q = r" for h q
  proof -
    from that(1) obtain q0 where q0: "quotes_of ?l0 h = Some q0"
      "if q_request q0 = r \<and> unat (q_leg q0) < n then won plan h q0 \<and> q = quote_set_state QuoteConsumed q0 else q = q0"
      unfolding ql1 accepted_quotes_Some by blast
    with that(2) all[OF q0(1)] show ?thesis by (auto split: if_splits)
  qed
  have fill: "filled (quotes_of l1) r (bare_request rec1) tot"
    unfolding filled_def
  proof (intro exI[of _ "\<lambda>k. sel_price (the (plan ! k))"] conjI allI impI)
    show "unat tot = (\<Sum>k<unat (rq_n_legs (bare_request rec1)). unat (leg_size (rq_legs (bare_request rec1) ! k)) * unat (sel_price (the (plan ! k))))"
      using pl N(1) unfolding rec1(2) by (simp add: planned_def n_def bare_request_def)
    fix k assume "k < unat (rq_n_legs (bare_request rec1))"
    then have k: "k < n" unfolding rec1(2) n_def by simp
    obtain s q where w: "plan ! k = Some s" "quotes_of ?l0 (sel_quote s) = Some q" "q_request q = r" "q_leg q = word_of_nat k"
      "q_price q = sel_price s"
      by (rule planned_winner[OF E(2) rec pl[unfolded n_def] k[unfolded n_def]]) blast
    have "unat (word_of_nat k :: u8) = k" using leg_index k N(2) by simp
    then have "quotes_of l1 (sel_quote s) = Some (quote_set_state QuoteConsumed q)"
      using w k unfolding ql1 by (simp add: accepted_quotes_def won_def)
    then show "\<exists>h q. quotes_of l1 h = Some q \<and> q_request q = r \<and> q_leg q = word_of_nat k \<and>
        q_price q = sel_price (the (plan ! k)) \<and> q_state q = QuoteConsumed"
      using w by (intro exI[of _ "sel_quote s"] exI[of _ "quote_set_state QuoteConsumed q"]) simp
  qed
  let ?d = "ts_saturating_add now (max_settling_time (e_config e))"
  have d: "unat ?d \<le> unat (rq_deadline rec1) + unat (max_settling_time (e_config e))"
    using dl R1 by (simp add: ts_saturating_add_def unat_saturating_add word_less_nat_alt)
  have st1: "rq_state rec1 = ReqOpen" "rq_claim rec1 = Some claim" using R1 rec cl by simp_all
  note B = begin_settlement[OF l1(3) rec1(1) st1 tot cons fill d]
  let ?l3 = "request_update r (request_set_state st) (cp_commit claim r tot l1)"
  let ?ev = "SubmitIntent r (nonce_of r) (rq_requester rec) intent (rq_n_legs rec)"
  have "accept_request r expected n_legs now (e, b) = Some (Inr (), (e\<lparr>e_ledger := ?l3\<rparr>, push_events (es @ [?ev]) b))"
    using l1(1) by (simp add: accept_request_def chk Let_def n_def st_def)
  moreover have "emits b (es @ [?ev]) (push_events (es @ [?ev]) b)"
    by (rule emitsI[OF room]) (use l1(2) in simp)
  ultimately show ?thesis
    using B pl R1 unfolding st_def ql1 rl1 cl1 ctl1 rec1(2) by (intro exI[of _ ?l3] exI[of _ es]) (simp add: st_def)
qed

lemma accept_request_handled:
  assumes inv: "engine_inv now e"
  shows "handled now (e, b) (accept_request r expected n_legs now (e, b))"
proof -
  note E = engine_invD[OF inv]
  obtain res where chk: "check_accept e b r expected n_legs now = Some res"
    using check_accept_returns[OF E(2)] by blast
  show ?thesis
  proof (cases res)
    case (Inl err)
    with chk handled_same[of now "(e, b)"] inv show ?thesis by (simp add: accept_request_def)
  next
    case (Inr x)
    obtain rec plan tot claim intent where x: "x = (rec, plan, tot, claim, intent)" by (cases x)
    from accept_request_spec[OF inv chk[unfolded Inr x]] obtain l3 es where
      s: "accept_request r expected n_legs now (e, b) = Some (Inr (), (e\<lparr>e_ledger := l3\<rparr>, push_events es b))"
        "emits b es (push_events es b)" "market_inv (e_config e) now None l3" by blast
    show ?thesis unfolding s(1) by (rule handledI[OF engine_inv_ledger[OF inv s(3)] _ s(2)]) simp
  qed
qed

end
