(* ===== verification/Engine_Settle.thy ===== *)
theory Engine_Settle
  imports Engine_Accept
begin

text \<open>
  The \<open>PollSettlement\<close> handler of \<open>crates/core/src/engine.rs\<close>: on a terminal status the committed
  claims of the request are discharged, the consumed quotes are closed and the request ends; on any
  other status nothing moves. With it every command is covered, and the engine is a transition
  system whose reachable states satisfy the invariant.
\<close>

section \<open>The consumed quotes of a request\<close>

lemma set_consumed_of:
  assumes "ledger_inv l"
  shows "set (consumed_of l r) = {h. \<exists>q. quote l h = Some q \<and> q_request q = r \<and> q_state q = QuoteConsumed \<and> q_claim q = None}"
    and "distinct (consumed_of l r)"
proof -
  have "slab_wf (l_quotes l)" using ledger_invD(1)[OF assms] by (simp add: slabs_wf_def)
  from set_slab_iter[OF this] show "set (consumed_of l r)
      = {h. \<exists>q. quote l h = Some q \<and> q_request q = r \<and> q_state q = QuoteConsumed \<and> q_claim q = None}"
    by (force simp: consumed_of_def quote_def)
  show "distinct (consumed_of l r)"
    using distinct_slab_iter[of "l_quotes l"] by (simp add: consumed_of_def distinct_map_filter)
qed

lemma close_quotes_spec:
  assumes "ledger_inv l" and "distinct hs" and "\<forall>h \<in> set hs. \<exists>q. quote l h = Some q \<and> q_claim q = None"
  shows "ledger_inv (fold cp_close_quote hs l)" and "quote (fold cp_close_quote hs l) = (\<lambda>k. if k \<in> set hs then None else quote l k)"
    and "request (fold cp_close_quote hs l) = request l" and "claims (fold cp_close_quote hs l) = claims l"
    and "contract_at (fold cp_close_quote hs l) = contract_at l"
proof -
  have "ledger_inv (fold cp_close_quote hs l) \<and> quote (fold cp_close_quote hs l) = (\<lambda>k. if k \<in> set hs then None else quote l k) \<and>
    request (fold cp_close_quote hs l) = request l \<and> claims (fold cp_close_quote hs l) = claims l \<and>
    contract_at (fold cp_close_quote hs l) = contract_at l"
    using assms
  proof (induction hs arbitrary: l)
    case (Cons h hs)
    then obtain q where q: "quote l h = Some q" "q_claim q = None" by auto
    note R = remove_quote_spec[OF Cons.prems(1) q, folded cp_close_quote_def]
    have "\<forall>k \<in> set hs. \<exists>q. quote (cp_close_quote h l) k = Some q \<and> q_claim q = None"
      using Cons.prems(2,3) R(2) by auto
    from Cons.IH[OF R(1) _ this] Cons.prems(2) show ?case
      using R(2,3,5) contract_at_cong[OF R(6)] by (auto simp: fun_eq_iff)
  qed simp
  then show "ledger_inv (fold cp_close_quote hs l)" "quote (fold cp_close_quote hs l) = (\<lambda>k. if k \<in> set hs then None else quote l k)"
    "request (fold cp_close_quote hs l) = request l" "claims (fold cp_close_quote hs l) = claims l"
    "contract_at (fold cp_close_quote hs l) = contract_at l" by blast+
qed

lemma option_eqI: "(\<And>c. x = Some c \<longleftrightarrow> y = Some c) \<Longrightarrow> x = y"
  by (cases x; cases y) auto

section \<open>Discharging a settling request\<close>

text \<open>The committed list of a settling request holds exactly its own claim and those of its quotes.\<close>

definition owner_of_request :: "quote_map \<Rightarrow> req_idx \<Rightarrow> res_owner \<Rightarrow> bool" where
  "owner_of_request qt r ow \<longleftrightarrow> ow = OwnerRequest r \<or> (\<exists>h q. ow = OwnerQuote h \<and> qt h = Some q \<and> q_request q = r)"

lemma settling_quote:
  assumes inv: "market_inv cfg t None l" and rec: "requests_of l r = Some rec" "is_settling (rq_state rec)"
    and q: "quotes_of l h = Some q" "q_request q = r"
  shows "q_state q = QuoteConsumed" and "q_claim q \<noteq> None"
proof -
  obtain rec' where "requests_of l (q_request q) = Some rec'" "q_state q \<noteq> QuoteReleased"
    "q_state q = QuoteActive \<Longrightarrow> rq_state rec' = ReqOpen" "q_state q = QuoteConsumed \<Longrightarrow> q_claim q \<noteq> None"
    by (rule quote_okD[OF market_okD(1)[OF market_invD(3)[OF inv]] q(1)]) blast
  then show "q_state q = QuoteConsumed" "q_claim q \<noteq> None" using rec q(2) by (cases "q_state q"; auto)+
qed

lemma on_list_owner:
  assumes inv: "market_inv cfg t None l" and rec: "requests_of l r = Some rec" "is_settling (rq_state rec)"
    and c: "claims l i = Some (g, a, m, ow, k)"
  shows "i \<in> on_list (claims l) r \<longleftrightarrow> owner_of_request (quotes_of l) r ow"
proof -
  have ok: "claim_ok (requests_of l) (quotes_of l) a m ow k" by (rule claim_okD[OF market_okD(4)[OF market_invD(3)[OF inv]] c])
  have mem: "i \<in> on_list (claims l) r \<longleftrightarrow> k = OnCommitted r" using c by (simp add: on_list_def)
  show ?thesis
  proof (cases ow)
    case (OwnerRequest r')
    then show ?thesis using ok rec unfolding mem by (cases k) (auto simp: claim_ok_def owner_of_request_def)
  next
    case (OwnerQuote h)
    with ok obtain q where q: "quotes_of l h = Some q" and k: "case k of OnExpiry e \<Rightarrow> e = q_expires_at q \<and> q_state q = QuoteActive
           | OnCommitted r \<Rightarrow> r = q_request q \<and> q_state q = QuoteConsumed" by (auto simp: claim_ok_def)
    have "owner_of_request (quotes_of l) r ow \<longleftrightarrow> q_request q = r" using q OwnerQuote by (simp add: owner_of_request_def)
    then show ?thesis using k settling_quote(1)[OF inv rec q] unfolding mem by (cases k) auto
  qed
qed

lemma discharge_settling:
  assumes inv: "market_inv cfg t None l" and rec: "request l r = Some rec" "rq_state rec = ReqSettling n d"
  obtains xs l1 where "set xs = on_list (claims l) r" and "distinct xs"
    and "discharge_committed r visit (l, st) = (l1, visit_all visit (claims l) xs st)" and "ledger_inv l1"
    and "claims l1 = (\<lambda>i. if i \<in> on_list (claims l) r then None else claims l i)"
    and "\<And>h q. quote l h = Some q \<Longrightarrow> quote l1 h = Some (if q_request q = r then quote_set_claim None q else q)"
    and "\<And>h. quote l h = None \<Longrightarrow> quote l1 h = None"
    and "requests_of l1 = (requests_of l)(r \<mapsto> request_set_claim None (bare_request rec))"
    and "\<And>k lid. k \<noteq> r \<Longrightarrow> map_option (\<lambda>x. (rq_state x, request_leg x lid)) (request l1 k)
           = map_option (\<lambda>x. (rq_state x, request_leg x lid)) (request l k)"
    and "contract_at l1 = contract_at l"
proof -
  note I = market_invD[OF inv]
  have rv: "requests_of l r = Some (bare_request rec)" and st: "is_settling (rq_state (bare_request rec))"
    using rec by (simp_all add: requests_of_def)
  have own: "k = OnCommitted r" if c: "claims l i = Some (g, a, m, OwnerRequest r, k)" for i g a m k
  proof -
    have "claim_ok (requests_of l) (quotes_of l) a m (OwnerRequest r) k" by (rule claim_okD[OF market_okD(4)[OF I(3)] c])
    then show ?thesis using rv rec by (cases k) (auto simp: claim_ok_def)
  qed
  have "\<exists>xs l1. set xs = on_list (claims l) r \<and> distinct xs \<and>
    discharge_committed r visit (l, st) = (l1, visit_all visit (claims l) xs st) \<and> ledger_inv l1 \<and>
    claims l1 = (\<lambda>i. if i \<in> on_list (claims l) r then None else claims l i) \<and>
    (\<forall>k. k \<noteq> r \<longrightarrow> map_option (request_set_claim None) (request l1 k) = map_option (request_set_claim None) (request l k)) \<and>
    request l1 r = Some (request_set_claim None (request_set_head NIL rec)) \<and>
    (\<forall>k. map_option (quote_set_claim None) (quote l1 k) = map_option (quote_set_claim None) (quote l k)) \<and>
    l_contracts l1 = l_contracts l" (is ?ex)
  proof (rule discharge_committed_spec[OF I(1) rec(1), where visit = visit and st = st])
    fix i g a m k assume "claims l i = Some (g, a, m, OwnerRequest r, k)"
    then show "k = OnCommitted r" by (rule own)
  next
    fix xs l1 assume "set xs = on_list (claims l) r" "distinct xs"
      "discharge_committed r visit (l, st) = (l1, visit_all visit (claims l) xs st)" "ledger_inv l1"
      "claims l1 = (\<lambda>i. if i \<in> on_list (claims l) r then None else claims l i)"
      "\<And>k. k \<noteq> r \<Longrightarrow> map_option (request_set_claim None) (request l1 k) = map_option (request_set_claim None) (request l k)"
      "request l1 r = Some (request_set_claim None (request_set_head NIL rec))"
      "\<And>k. map_option (quote_set_claim None) (quote l1 k) = map_option (quote_set_claim None) (quote l k)"
      "l_contracts l1 = l_contracts l"
    then show ?ex by (intro exI[of _ xs] exI[of _ l1]) simp
  qed
  then obtain xs l1 where xs: "set xs = on_list (claims l) r" "distinct xs"
    and dis: "discharge_committed r visit (l, st) = (l1, visit_all visit (claims l) xs st)" and inv1: "ledger_inv l1"
    and cl1: "claims l1 = (\<lambda>i. if i \<in> on_list (claims l) r then None else claims l i)"
    and r1: "\<And>k. k \<noteq> r \<Longrightarrow> map_option (request_set_claim None) (request l1 k) = map_option (request_set_claim None) (request l k)"
      "request l1 r = Some (request_set_claim None (request_set_head NIL rec))"
    and q1: "\<And>k. map_option (quote_set_claim None) (quote l1 k) = map_option (quote_set_claim None) (quote l k)"
    and ct1: "l_contracts l1 = l_contracts l" by blast
  have none: "quote l1 h = None" if "quote l h = None" for h
    using q1[of h] that by simp
  have some: "quote l1 h = Some (if q_request q = r then quote_set_claim None q else q)" if h: "quote l h = Some q" for h q
  proof -
    obtain q' where q': "quote l1 h = Some q'" "quote_set_claim None q = quote_set_claim None q'"
      by (rule map_option_eqE[OF q1[symmetric] h])
    have qv: "quotes_of l h = Some (bare_quote q)" using h by (simp add: quotes_of_def)
    have iff: "q_claim q' = Some c \<longleftrightarrow> q_claim q = Some c \<and> q_request q \<noteq> r" for c
    proof -
      have "h_index c \<in> on_list (claims l) r \<longleftrightarrow> q_request q = r"
        if "claims l (h_index c) = Some (h_generation c, a, m, OwnerQuote h, k)" for a m k
        using on_list_owner[OF inv rv st that] qv by (simp add: owner_of_request_def)
      then show ?thesis unfolding quote_claim_iff[OF inv1 q'(1)] quote_claim_iff[OF I(1) h] cl1 by auto
    qed
    have claim: "q_claim q' = (if q_request q = r then None else q_claim q)"
      by (rule option_eqI) (simp add: iff)
    from q'(2) have q'_eq: "q' = quote_set_claim (q_claim q') q" by (cases q; cases q') (simp add: quote_set_claim_def)
    have "quote_set_claim (q_claim q) q = q" by (cases q) (simp add: quote_set_claim_def)
    then have "q' = (if q_request q = r then quote_set_claim None q else q)" by (subst q'_eq) (simp add: claim)
    then show ?thesis using q'(1) by simp
  qed
  have other: "request l1 k = None" if "k \<noteq> r" "request l k = None" for k using r1(1)[OF that(1)] that(2) by simp
  have keep: "\<exists>x'. request l1 k = Some x' \<and> bare_request x' = bare_request x \<and> (\<forall>lid. request_leg x' lid = request_leg x lid)"
    if k: "k \<noteq> r" "request l k = Some x" for k x
  proof -
    obtain x' where x': "request l1 k = Some x'" "request_set_claim None x = request_set_claim None x'"
      by (rule map_option_eqE[OF r1(1)[OF k(1), symmetric] k(2)])
    have kv: "requests_of l k = Some (bare_request x)" using k by (simp add: requests_of_def)
    have iff: "rq_claim x' = Some c \<longleftrightarrow> rq_claim x = Some c" for c
    proof -
      have "h_index c \<notin> on_list (claims l) r"
        if "claims l (h_index c) = Some (h_generation c, a, m, OwnerRequest k, kd)" for a m kd
        using on_list_owner[OF inv rv st that] k(1) by (simp add: owner_of_request_def)
      then show ?thesis unfolding request_claim_iff[OF inv1 x'(1)] request_claim_iff[OF I(1) k(2)] cl1 by auto
    qed
    have "rq_claim x' = rq_claim x" by (rule option_eqI) (simp add: iff)
    with x'(2) have "x' = x" by (cases x; cases x') (simp add: request_set_claim_def)
    with x'(1) show ?thesis by simp
  qed
  have req: "requests_of l1 = (requests_of l)(r \<mapsto> request_set_claim None (bare_request rec))"
  proof
    fix k show "requests_of l1 k = ((requests_of l)(r \<mapsto> request_set_claim None (bare_request rec))) k"
      using r1(2) other[of k] keep[of k] by (cases "k = r"; cases "request l k") (auto simp: requests_of_def)
  qed
  have legs: "map_option (\<lambda>x. (rq_state x, request_leg x lid)) (request l1 k)
           = map_option (\<lambda>x. (rq_state x, request_leg x lid)) (request l k)" if "k \<noteq> r" for k lid
  proof (cases "request l k")
    case None
    then show ?thesis using other[OF that] by simp
  next
    case (Some x)
    from keep[OF that Some] obtain x' where "request l1 k = Some x'" "bare_request x' = bare_request x"
      "request_leg x' lid = request_leg x lid" by blast
    with Some bare_request_eq[of x' x] show ?thesis by simp
  qed
  show thesis by (rule that[OF xs dis inv1 cl1 some none req legs contract_at_cong[OF ct1]])
qed

section \<open>Ending the request\<close>

definition quotes_on :: "quote_map \<Rightarrow> req_idx \<Rightarrow> quote_idx set" where
  "quotes_on qt r = {h. \<exists>q. qt h = Some q \<and> q_request q = r}"

text \<open>A settling request has one quote per leg at most.\<close>

lemma card_quotes_on:
  assumes inv: "market_inv cfg t None l" and rec: "requests_of l r = Some rec" "is_settling (rq_state rec)"
  shows "finite (quotes_on (quotes_of l) r)" and "card (quotes_on (quotes_of l) r) \<le> unat (rq_n_legs rec)"
proof -
  let ?f = "\<lambda>h. q_leg (the (quotes_of l h))" and ?S = "quotes_on (quotes_of l) r"
  have inj: "inj_on ?f ?S"
  proof (rule inj_onI)
    fix h h' assume "h \<in> ?S" "h' \<in> ?S" and eq: "?f h = ?f h'"
    then obtain q q' where q: "quotes_of l h = Some q" "q_request q = r" "quotes_of l h' = Some q'" "q_request q' = r"
      by (auto simp: quotes_on_def)
    have "q_state q = QuoteConsumed" by (rule settling_quote(1)[OF inv rec q(1,2)])
    then show "h = h'" using unique_okD[OF market_okD(3)[OF market_invD(3)[OF inv]] q(1,3)] q eq by simp
  qed
  have sub: "?f ` ?S \<subseteq> set (leg_ids (rq_n_legs rec))"
    using quotes_valid_leg(1)[OF inv rec(1)] by (auto simp: quotes_on_def)
  then show fin: "finite ?S" by (metis inj List.finite_set finite_subset finite_imageD)
  have "card ?S = card (?f ` ?S)" using inj by (simp add: card_image)
  also have "\<dots> \<le> card (set (leg_ids (rq_n_legs rec)))" using sub by (intro card_mono) simp_all
  also have "\<dots> \<le> length (leg_ids (rq_n_legs rec))" by (rule card_length)
  finally show "card ?S \<le> unat (rq_n_legs rec)" by (simp add: leg_ids_def)
qed

lemma close_consumed_request_update:
  "close_consumed_quotes r (request_update k f l) = request_update k f (close_consumed_quotes r l)"
proof -
  have one: "cp_close_quote h (request_update k f l) = request_update k f (cp_close_quote h l)" for h l
    by (simp add: cp_close_quote_def request_update_def)
  have "fold cp_close_quote hs (request_update k f l) = request_update k f (fold cp_close_quote hs l)" for hs
    by (induction hs arbitrary: l) (simp_all add: one)
  moreover have "consumed_of (request_update k f l) r = consumed_of l r"
    by (simp add: consumed_of_def request_update_def)
  ultimately show ?thesis by (simp add: close_consumed_quotes_def)
qed

lemma chains_ok_drop_request:
  assumes ok: "chains_ok mq rq qt" and r: "\<And>rec. rq' r = Some rec \<Longrightarrow> request_state_is_terminal (rq_state rec)"
    and legs: "\<And>k lid. k \<noteq> r \<Longrightarrow> map_option (\<lambda>x. (rq_state x, request_leg x lid)) (rq' k)
           = map_option (\<lambda>x. (rq_state x, request_leg x lid)) (rq k)"
    and q: "\<And>h. qt' h = (case qt h of Some q \<Rightarrow> if q_request q = r then None else Some q | None \<Rightarrow> None)"
  shows "chains_ok mq rq' qt'"
  unfolding chains_ok_def
proof (intro allI impI)
  fix k rec' lid leg
  assume a: "rq' k = Some rec'" "\<not> request_state_is_terminal (rq_state rec')" "request_leg rec' lid = Some leg"
  have k: "k \<noteq> r" using r a by auto
  obtain rec where rec: "rq k = Some rec" "rq_state rec = rq_state rec'" "request_leg rec lid = Some leg"
    by (rule map_option_eqE[OF legs[OF k, of lid] a(1)]) (use a(3) in auto)
  with ok a(2) obtain hs where hs: "chain_at mq qt k lid leg hs" unfolding chains_ok_def by fastforce
  have "quotes_at qt' k lid = quotes_at qt k lid"
    using k q by (auto simp: quotes_at_def split: option.splits if_splits)
  moreover have "leg_chain qt' (leg_quotes_head leg) hs"
  proof (rule leg_chain_frame[of qt])
    show "leg_chain qt (leg_quotes_head leg) hs" using hs by (simp add: chain_at_def)
    fix h x assume h: "h \<in> set hs" "qt h = Some x"
    then have "q_request x = k" using hs by (auto simp: chain_at_def quotes_at_def)
    with h k q show "\<exists>q'. qt' h = Some q' \<and> q_next_on_leg q' = q_next_on_leg x" by simp
  qed
  ultimately show "\<exists>hs. chain_at mq qt' k lid leg hs" using hs by (auto simp: chain_at_def)
qed

lemma end_settlement:
  assumes inv: "market_inv cfg t None l" and rec: "request l r = Some rec" "rq_state rec = ReqSettling n d"
    and st: "request_state_is_terminal st"
  obtains xs l1 where "set xs = on_list (claims l) r" and "distinct xs"
    and "discharge_committed r visit (l, s) = (l1, visit_all visit (claims l) xs s)"
    and "\<And>h q. quote l h = Some q \<Longrightarrow> q_request q = r \<Longrightarrow> \<exists>q'. quote l1 h = Some q' \<and> q_maker q' = q_maker q"
    and "market_inv cfg t None (request_update r (request_set_state st) (close_consumed_quotes r l1))"
    and "quotes_of (request_update r (request_set_state st) (close_consumed_quotes r l1))
      = (\<lambda>h. case quotes_of l h of Some q \<Rightarrow> if q_request q = r then None else Some q | None \<Rightarrow> None)"
    and "requests_of (request_update r (request_set_state st) (close_consumed_quotes r l1))
      = (requests_of l)(r \<mapsto> request_set_state st (request_set_claim None (bare_request rec)))"
    and "claims (request_update r (request_set_state st) (close_consumed_quotes r l1))
      = (\<lambda>i. if i \<in> on_list (claims l) r then None else claims l i)"
    and "contract_at (request_update r (request_set_state st) (close_consumed_quotes r l1)) = contract_at l"
proof -
  note I = market_invD[OF inv]
  have rv: "requests_of l r = Some (bare_request rec)" and se: "is_settling (rq_state (bare_request rec))"
    using rec by (simp_all add: requests_of_def)
  obtain xs l1 where xs: "set xs = on_list (claims l) r" "distinct xs"
    and dis: "discharge_committed r visit (l, s) = (l1, visit_all visit (claims l) xs s)" and inv1: "ledger_inv l1"
    and cl1: "claims l1 = (\<lambda>i. if i \<in> on_list (claims l) r then None else claims l i)"
    and q1: "\<forall>h q. quote l h = Some q \<longrightarrow> quote l1 h = Some (if q_request q = r then quote_set_claim None q else q)"
      "\<forall>h. quote l h = None \<longrightarrow> quote l1 h = None"
    and r1: "requests_of l1 = (requests_of l)(r \<mapsto> request_set_claim None (bare_request rec))"
    and legs: "\<forall>k lid. k \<noteq> r \<longrightarrow> map_option (\<lambda>x. (rq_state x, request_leg x lid)) (request l1 k)
           = map_option (\<lambda>x. (rq_state x, request_leg x lid)) (request l k)"
    and ct1: "contract_at l1 = contract_at l"
    by (rule discharge_settling[OF inv rec, where visit = visit and st = s]) blast
  note q1 = q1[rule_format] and legs = legs[rule_format]
  have set_c: "set (consumed_of l1 r) = quotes_on (quotes_of l) r"
  proof (intro set_eqI iffI)
    fix h assume "h \<in> set (consumed_of l1 r)"
    then obtain q' where q': "quote l1 h = Some q'" "q_request q' = r" by (auto simp: set_consumed_of(1)[OF inv1])
    then obtain q where "quote l h = Some q" using q1(2)[of h] by (cases "quote l h") auto
    with q1(1)[OF this] q' show "h \<in> quotes_on (quotes_of l) r" by (auto simp: quotes_on_def quotes_of_Some split: if_splits)
  next
    fix h assume "h \<in> quotes_on (quotes_of l) r"
    then obtain q where q: "quote l h = Some q" "q_request q = r" by (auto simp: quotes_on_def quotes_of_Some)
    then have "quotes_of l h = Some (bare_quote q)" by (simp add: quotes_of_def)
    from settling_quote(1)[OF inv rv se this] q q1(1)[OF q(1)] show "h \<in> set (consumed_of l1 r)"
      by (simp add: set_consumed_of(1)[OF inv1])
  qed
  have "length (consumed_of l1 r) = card (quotes_on (quotes_of l) r)"
    using distinct_card[OF set_consumed_of(2)[OF inv1, of r]] set_c by simp
  then have "length (consumed_of l1 r) \<le> MAX_LEGS"
    using card_quotes_on(2)[OF inv rv se] running_legs(2)[OF inv rec(1)] by simp
  then have cc: "close_consumed_quotes r l1 = fold cp_close_quote (consumed_of l1 r) l1" by (simp add: close_consumed_quotes_def)
  have no: "\<forall>h \<in> set (consumed_of l1 r). \<exists>q. quote l1 h = Some q \<and> q_claim q = None"
    using set_consumed_of(1)[OF inv1] by auto
  note K = close_quotes_spec[OF inv1 set_consumed_of(2)[OF inv1] no, folded cc]
  let ?l3 = "request_update r (request_set_state st) (close_consumed_quotes r l1)"
  obtain rec1 where rec1: "request l1 r = Some rec1" "bare_request rec1 = request_set_claim None (bare_request rec)"
    using fun_cong[OF r1, of r] by (auto simp: requests_of_def)
  have req3: "request ?l3 = (request l1)(r \<mapsto> request_set_state st rec1)" using K(3) rec1(1) by (auto simp: fun_eq_iff)
  have q3: "quote ?l3 h = (case quote l h of Some q \<Rightarrow> if q_request q = r then None else Some q | None \<Rightarrow> None)" for h
  proof (cases "quote l h")
    case None
    then show ?thesis using K(2) q1(2) by simp
  next
    case (Some q)
    then have "h \<in> quotes_on (quotes_of l) r \<longleftrightarrow> q_request q = r" by (auto simp: quotes_on_def quotes_of_Some)
    then show ?thesis using K(2) q1(1)[OF Some] Some set_c by simp
  qed
  have v: "quotes_of ?l3 = (\<lambda>h. case quotes_of l h of Some q \<Rightarrow> if q_request q = r then None else Some q | None \<Rightarrow> None)"
    unfolding quotes_of_def q3 by (auto split: option.split simp: fun_eq_iff)
  have rq3: "requests_of ?l3 = (requests_of l)(r \<mapsto> request_set_state st (request_set_claim None (bare_request rec)))"
    using requests_of_upd[OF req3] r1 rec1(2) by simp
  have cl3: "claims ?l3 = (\<lambda>i. if i \<in> on_list (claims l) r then None else claims l i)" using K(4) cl1 by (simp add: effects)
  have ct3: "contract_at ?l3 = contract_at l" using K(5) ct1 by (simp add: contract_at_def fun_eq_iff)
  have inv3: "ledger_inv ?l3" by (rule request_update_inv[OF K(1)]) (simp add: record_setters)
  have "chains_ok (max_quotes_per_leg cfg) (request ?l3) (quote ?l3)"
    by (rule chains_ok_drop_request[OF I(2), where r = r]) (use req3 st legs q3 in auto)
  moreover have "market_ok cfg t None (contract_at l)
      ((requests_of l)(r \<mapsto> request_set_state st (request_set_claim None (bare_request rec))))
      (\<lambda>h. case quotes_of l h of Some q \<Rightarrow> if q_request q = r then None else Some q | None \<Rightarrow> None)
      (\<lambda>i. if i \<in> on_list (claims l) r then None else claims l i)"
  proof (rule market_ok_end[OF I(3) rv st refl])
    fix i g a m ow k assume "(if i \<in> on_list (claims l) r then None else claims l i) = Some (g, a, m, ow, k)"
    then have c: "claims l i = Some (g, a, m, ow, k)" "i \<notin> on_list (claims l) r" by (auto split: if_splits)
    with on_list_owner[OF inv rv se c(1)] show "claims l i = Some (g, a, m, ow, k) \<and> ow \<noteq> OwnerRequest r \<and>
        (\<forall>h q. ow = OwnerQuote h \<longrightarrow> quotes_of l h = Some q \<longrightarrow> q_request q \<noteq> r)" by (auto simp: owner_of_request_def)
  qed
  ultimately have "market_inv cfg t None ?l3" using inv3 by (simp add: market_inv_def v rq3 cl3 ct3)
  moreover have "\<exists>q'. quote l1 h = Some q' \<and> q_maker q' = q_maker q" if "quote l h = Some q" "q_request q = r" for h q
    using q1(1)[OF that(1)] that(2) by simp
  ultimately show thesis using that[OF xs dis] v rq3 cl3 ct3 by blast
qed

end
