(* ===== verification/Engine_Poll.thy ===== *)
theory Engine_Poll
  imports Engine_Settle
begin

text \<open>
  \<open>Engine::poll_settlement\<close> of \<open>crates/core/src/engine.rs\<close>: a terminal status ends the request, gives
  every committed claim back and tells each winning maker of a revert exactly once; any other status
  moves nothing. The fixed array of notices never overflows.
\<close>

section \<open>The notices of a revert\<close>

definition quote_owners :: "claim_map \<Rightarrow> u32 list \<Rightarrow> quote_idx list" where
  "quote_owners cl xs = List.map_filter (\<lambda>i. case cl i of
     Some (_, _, _, OwnerQuote h, _) \<Rightarrow> Some h | _ \<Rightarrow> None) xs"

lemma quote_owners_simps [simp]:
  "quote_owners cl [] = []"
  "quote_owners cl (i # xs) = (case cl i of Some (_, _, _, OwnerQuote h, _) \<Rightarrow> h # quote_owners cl xs | _ \<Rightarrow> quote_owners cl xs)"
  by (auto simp: quote_owners_def List.map_filter_simps split: option.split res_owner.split)

lemma set_quote_owners:
  "h \<in> set (quote_owners cl xs) \<longleftrightarrow> (\<exists>i \<in> set xs. \<exists>g a m k. cl i = Some (g, a, m, OwnerQuote h, k))"
  by (induction xs) (auto split: option.splits res_owner.splits)

lemma notice_all:
  "length ds + length (quote_owners cl xs) \<le> N \<Longrightarrow>
     visit_all notice cl xs (map Some ds @ replicate (N - length ds) None, length ds)
     = (let ds' = ds @ map (\<lambda>h. (h, 0)) (quote_owners cl xs) in (map Some ds' @ replicate (N - length ds') None, length ds'))"
proof (induction xs arbitrary: ds)
  case (Cons i xs)
  have step: "visit_all notice cl (i # xs) st = visit_all notice cl xs (case cl i of
     Some (_, _, m, ow, _) \<Rightarrow> notice ow m st | None \<Rightarrow> st)" for st by (simp add: visit_all_def)
  show ?case
  proof (cases "\<exists>g a m h k. cl i = Some (g, a, m, OwnerQuote h, k)")
    case True
    then obtain g a m h k where c: "cl i = Some (g, a, m, OwnerQuote h, k)" by blast
    have len: "N - length ds = Suc (N - Suc (length ds))" using Cons.prems c by simp
    then have "notice (OwnerQuote h) m (map Some ds @ replicate (N - length ds) None, length ds)
        = (map Some (ds @ [(h, 0)]) @ replicate (N - length (ds @ [(h, 0)])) None, length (ds @ [(h, 0)]))"
      by (simp add: notice_def list_update_append)
    with Cons.IH[of "ds @ [(h, 0)]"] Cons.prems c show ?thesis by (simp add: step Let_def)
  next
    case False
    then have "(case cl i of Some (_, _, m, ow, _) \<Rightarrow> notice ow m st | None \<Rightarrow> st) = st" for st
      by (auto simp: notice_def split: option.split res_owner.split)
    moreover have "quote_owners cl (i # xs) = quote_owners cl xs"
      using False by (auto split: option.split res_owner.split)
    ultimately show ?thesis using Cons by (simp add: step)
  qed
qed (simp add: visit_all_def Let_def)

text \<open>Each quote of the request owns one claim of its committed list.\<close>

lemma quote_owners_of_list:
  assumes inv: "market_inv cfg t None l" and rec: "request l r = Some rec" "rq_state rec = ReqSettling n d"
    and xs: "set xs = on_list (claims l) r" "distinct xs"
  shows "set (quote_owners (claims l) xs) = quotes_on (quotes_of l) r" and "distinct (quote_owners (claims l) xs)"
    and "length (quote_owners (claims l) xs) \<le> unat (rq_n_legs rec)"
proof -
  note I = market_invD[OF inv]
  have rv: "requests_of l r = Some (bare_request rec)" and se: "is_settling (rq_state (bare_request rec))"
    using rec by (simp_all add: requests_of_def)
  show set: "set (quote_owners (claims l) xs) = quotes_on (quotes_of l) r"
  proof (intro set_eqI iffI)
    fix h assume "h \<in> set (quote_owners (claims l) xs)"
    then obtain i g a m k where "i \<in> on_list (claims l) r" "claims l i = Some (g, a, m, OwnerQuote h, k)"
      by (auto simp: set_quote_owners xs)
    with on_list_owner[OF inv rv se this(2)] show "h \<in> quotes_on (quotes_of l) r"
      by (auto simp: owner_of_request_def quotes_on_def)
  next
    fix h assume "h \<in> quotes_on (quotes_of l) r"
    then obtain q where q: "quotes_of l h = Some q" "q_request q = r" by (auto simp: quotes_on_def)
    then obtain q0 where q0: "quote l h = Some q0" "q = bare_quote q0" by (auto simp: quotes_of_Some)
    with settling_quote(2)[OF inv rv se q] obtain c where "q_claim q0 = Some c" by auto
    then obtain a m k where k: "claims l (h_index c) = Some (h_generation c, a, m, OwnerQuote h, k)"
      by (auto simp: quote_claim_iff[OF I(1) q0(1)])
    with on_list_owner[OF inv rv se k] q have "h_index c \<in> set xs" by (auto simp: xs owner_of_request_def)
    with k show "h \<in> set (quote_owners (claims l) xs)" unfolding set_quote_owners by blast
  qed
  have one: "i = i'" if c: "claims l i = Some (g, a, m, OwnerQuote h, k)" "claims l i' = Some (g', a', m', OwnerQuote h, k')" for i i' g g' a a' m m' h k k'
  proof -
    have "claim_ok (requests_of l) (quotes_of l) a m (OwnerQuote h) k" by (rule claim_okD[OF market_okD(4)[OF I(3)] c(1)])
    then obtain q where q: "quote l h = Some q" by (auto simp: claim_ok_def quotes_of_Some)
    have "q_claim q = Some \<lparr>h_index = i, h_generation = g\<rparr>" "q_claim q = Some \<lparr>h_index = i', h_generation = g'\<rparr>"
      unfolding quote_claim_iff[OF I(1) q] using c by auto
    then show ?thesis by simp
  qed
  have dist: "distinct (quote_owners (claims l) xs)" if "distinct xs" for xs
    using that
  proof (induction xs)
    case (Cons i xs)
    show ?case
    proof (cases "\<exists>g a m h k. claims l i = Some (g, a, m, OwnerQuote h, k)")
      case True
      then obtain g a m h k where c: "claims l i = Some (g, a, m, OwnerQuote h, k)" by blast
      have "h \<notin> set (quote_owners (claims l) xs)" using one[OF c] Cons.prems by (auto simp: set_quote_owners)
      then show ?thesis using Cons c by simp
    next
      case False
      then have "quote_owners (claims l) (i # xs) = quote_owners (claims l) xs"
        by (auto split: option.split res_owner.split)
      then show ?thesis using Cons by simp
    qed
  qed simp
  then show "distinct (quote_owners (claims l) xs)" using xs by blast
  then have "length (quote_owners (claims l) xs) = card (quotes_on (quotes_of l) r)" using distinct_card set by metis
  then show "length (quote_owners (claims l) xs) \<le> unat (rq_n_legs rec)"
    using card_quotes_on(2)[OF inv rv se] by simp
qed

lemma notices_of_revert:
  assumes "length (quote_owners cl xs) \<le> MAX_LEGS"
  shows "somes (fst (visit_all notice cl xs (replicate MAX_LEGS None, 0))) = map (\<lambda>h. (h, 0)) (quote_owners cl xs)"
  using notice_all[of "[]" cl xs MAX_LEGS] assms by (simp add: Let_def flip: map_map)

section \<open>The outcome of a poll\<close>

lemma request_slot: "ledger_inv l \<Longrightarrow> request l r = Some rec \<Longrightarrow> request_handle_at l (h_index r) = Some r"
  by (auto simp: request_def request_handle_at_def slab_handle_at_Some_iff slab_get_view split: if_splits option.splits)

lemma resolve_settling:
  assumes inv: "engine_inv t e" and rec: "request (e_ledger e) r = Some rec" "rq_state rec = ReqSettling n d"
  shows "n = nonce_of r" and "resolve_nonce e n = Some r"
proof -
  have rv: "requests_of (e_ledger e) r = Some (bare_request rec)" using rec by (simp add: requests_of_def)
  from request_ok_fields(6)[OF request_okD[OF market_okD(2)[OF market_invD(3)[OF engine_invD(2)[OF inv]]] rv]] rec
  show n: "n = nonce_of r" by simp
  show "resolve_nonce e n = Some r"
    using request_slot[OF engine_invD(3)[OF inv] rec(1)] by (simp add: n resolve_nonce_def nonce_of_def)
qed

text \<open>The state of the market after request \<open>r\<close> has ended in state \<open>st\<close>.\<close>

definition ended :: "req_idx \<Rightarrow> request_state \<Rightarrow> ledger \<Rightarrow> ledger \<Rightarrow> bool" where
  "ended r st l l' \<longleftrightarrow>
     quotes_of l' = (\<lambda>h. case quotes_of l h of Some q \<Rightarrow> if q_request q = r then None else Some q | None \<Rightarrow> None) \<and>
     requests_of l' = (requests_of l)(r := map_option (\<lambda>rec. request_set_state st (request_set_claim None rec)) (requests_of l r)) \<and>
     claims l' = (\<lambda>i. case claims l i of Some (g, a, m, ow, k) \<Rightarrow> if k = OnCommitted r then None else Some (g, a, m, ow, k) | None \<Rightarrow> None) \<and>
     contract_at l' = contract_at l"

lemma drop_on_list:
  "(\<lambda>i. if i \<in> on_list cl r then None else cl i)
     = (\<lambda>i. case cl i of Some (g, a, m, ow, k) \<Rightarrow> if k = OnCommitted r then None else Some (g, a, m, ow, k) | None \<Rightarrow> None)"
  by (rule ext) (auto simp: on_list_def split: option.splits)

lemma poll_settled:
  assumes inv: "engine_inv now e" and rec: "request (e_ledger e) r = Some rec" "rq_state rec = ReqSettling n d"
    and room: "eb_headroom b 1 = Inr ()"
  shows "\<exists>l'. poll_settlement n TxSettled now (e, b) = (Inr (), (e\<lparr>e_ledger := l'\<rparr>, push_events [RequestEscrowed r n] b)) \<and>
    market_inv (e_config e) now None l' \<and> ended r ReqEscrowed (e_ledger e) l'"
proof -
  note E = engine_invD[OF inv]
  have rv: "requests_of (e_ledger e) r = Some (bare_request rec)" using rec by (simp add: requests_of_def)
  have tm: "request_state_is_terminal ReqEscrowed" by simp
  obtain xs l1 where l1: "discharge_committed r (\<lambda>_ _ u. u) (e_ledger e, ()) = (l1, visit_all (\<lambda>_ _ u. u) (claims (e_ledger e)) xs ())"
    and m: "market_inv (e_config e) now None (request_update r (request_set_state ReqEscrowed) (close_consumed_quotes r l1))"
    and v: "ended r ReqEscrowed (e_ledger e) (request_update r (request_set_state ReqEscrowed) (close_consumed_quotes r l1))"
    by (rule end_settlement[OF E(2) rec tm, where visit = "\<lambda>_ _ u. u" and s = "()"])
      (simp add: ended_def rv drop_on_list)
  have "poll_settlement n TxSettled now (e, b) = (Inr (), (e\<lparr>e_ledger := request_update r (request_set_state ReqEscrowed) (close_consumed_quotes r l1)\<rparr>,
      push_events [RequestEscrowed r n] b))"
    using resolve_settling[OF inv rec] rec room l1
    by (simp add: poll_settlement_def Let_def push_events_one close_consumed_request_update)
  with m v show ?thesis by blast
qed

lemma poll_reverted:
  assumes inv: "engine_inv now e" and rec: "request (e_ledger e) r = Some rec" "rq_state rec = ReqSettling n d"
    and room: "eb_headroom b (unat (rq_n_legs rec) + 1) = Inr ()"
  shows "\<exists>l' hs. poll_settlement n TxReverted now (e, b) = (Inr (), (e\<lparr>e_ledger := l'\<rparr>,
      push_events (map (\<lambda>h. QuoteRejected h (q_maker (the (quotes_of (e_ledger e) h))) SettlementFailed) hs @ [RequestSettlementFailed r n]) b)) \<and>
    distinct hs \<and> set hs = quotes_on (quotes_of (e_ledger e)) r \<and> length hs \<le> unat (rq_n_legs rec) \<and>
    market_inv (e_config e) now None l' \<and> ended r ReqSettlementFailed (e_ledger e) l'"
proof -
  note E = engine_invD[OF inv]
  let ?l = "e_ledger e" and ?ev = "\<lambda>(q, maker). QuoteRejected q maker SettlementFailed"
  have rv: "requests_of ?l r = Some (bare_request rec)" using rec by (simp add: requests_of_def)
  have tm: "request_state_is_terminal ReqSettlementFailed" by simp
  obtain xs l1 where xs: "set xs = on_list (claims ?l) r" "distinct xs"
    and l1: "discharge_committed r notice (?l, (replicate MAX_LEGS None, 0)) = (l1, visit_all notice (claims ?l) xs (replicate MAX_LEGS None, 0))"
    and mk: "\<forall>h q. quote ?l h = Some q \<longrightarrow> q_request q = r \<longrightarrow> (\<exists>q'. quote l1 h = Some q' \<and> q_maker q' = q_maker q)"
    and m: "market_inv (e_config e) now None (request_update r (request_set_state ReqSettlementFailed) (close_consumed_quotes r l1))"
    and v: "ended r ReqSettlementFailed ?l (request_update r (request_set_state ReqSettlementFailed) (close_consumed_quotes r l1))"
    by (rule end_settlement[OF E(2) rec tm, where visit = notice and s = "(replicate MAX_LEGS None, 0)"])
      (simp add: ended_def rv drop_on_list)
  note O = quote_owners_of_list[OF E(2) rec xs]
  let ?hs = "quote_owners (claims ?l) xs"
  have "length ?hs \<le> MAX_LEGS" using O(3) running_legs(2)[OF E(2) rec(1)] by simp
  note N = notices_of_revert[OF this]
  have "with_maker l1 (h, 0) = (h, q_maker (the (quotes_of ?l h)))" if "h \<in> set ?hs" for h
  proof -
    from that obtain q where q: "quote ?l h = Some q" "q_request q = r" by (auto simp: O(1) quotes_on_def quotes_of_Some)
    with mk obtain q' where "quote l1 h = Some q'" "q_maker q' = q_maker q" by blast
    with q show ?thesis by (simp add: with_maker_def quotes_of_def)
  qed
  then have mks: "map (with_maker l1) (map (\<lambda>h. (h, 0)) ?hs) = map (\<lambda>h. (h, q_maker (the (quotes_of ?l h)))) ?hs" by simp
  have pushes: "foldl (\<lambda>b (q, maker). eb_push (QuoteRejected q maker SettlementFailed) b) b (map (\<lambda>h. (h, f h)) hs)
      = push_events (map (\<lambda>h. QuoteRejected h (f h) SettlementFailed) hs) b" for f hs b
    by (induction hs arbitrary: b) simp_all
  have "poll_settlement n TxReverted now (e, b) = (Inr (), (e\<lparr>e_ledger := request_update r (request_set_state ReqSettlementFailed) (close_consumed_quotes r l1)\<rparr>,
      push_events (map (\<lambda>h. QuoteRejected h (q_maker (the (quotes_of ?l h))) SettlementFailed) ?hs @ [RequestSettlementFailed r n]) b))"
    using resolve_settling[OF inv rec] rec room l1 N by (simp add: poll_settlement_def Let_def mks pushes del: map_map)
  with m v O show ?thesis by blast
qed

lemma poll_settlement_handled:
  assumes inv: "engine_inv now e"
  shows "handled now (e, b) (Some (poll_settlement n status now (e, b)))"
proof -
  note same = handled_same[of now "(e, b)", simplified, OF inv]
  show ?thesis
  proof (cases "\<exists>r rec d. resolve_nonce e n = Some r \<and> request (e_ledger e) r = Some rec \<and> rq_state rec = ReqSettling n d")
    case False
    then have "\<exists>err. poll_settlement n status now (e, b) = (Inl err, (e, b))"
      by (auto simp: poll_settlement_def Let_def split: option.split request_state.split)
    then show ?thesis using same by auto
  next
    case True
    then obtain r rec d where rec: "resolve_nonce e n = Some r" "request (e_ledger e) r = Some rec" "rq_state rec = ReqSettling n d" by blast
    have wait: "handled now (e, b) (Some (poll_settlement n status now (e, b)))" if "status = TxUnknown \<or> status = TxPending"
    proof (cases "now < d \<or> eb_headroom b 1 \<noteq> Inr ()")
      case True
      then have "snd (poll_settlement n status now (e, b)) = (e, b)" using that rec by (auto simp: poll_settlement_def Let_def)
      then show ?thesis using same by (cases "poll_settlement n status now (e, b)") simp
    next
      case False
      then have "poll_settlement n status now (e, b) = (Inr (), (e, eb_push (SettlementStalled r n status) b))"
        using that rec by (auto simp: poll_settlement_def Let_def)
      then show ?thesis using False by (auto intro!: handledI[OF inv, where es = "[SettlementStalled r n status]"] emits_one)
    qed
    show ?thesis
    proof (cases status)
      case TxSettled
      show ?thesis
      proof (cases "eb_headroom b 1 = Inr ()")
        case True
        with poll_settled[OF inv rec(2,3)] obtain l' where
          "poll_settlement n TxSettled now (e, b) = (Inr (), (e\<lparr>e_ledger := l'\<rparr>, push_events [RequestEscrowed r n] b))"
          "market_inv (e_config e) now None l'" by blast
        then show ?thesis unfolding TxSettled
          by (auto intro!: handledI[OF engine_inv_ledger[OF inv] _ emitsI[OF True]])
      next
        case False
        then show ?thesis using same rec TxSettled by (simp add: poll_settlement_def Let_def)
      qed
    next
      case TxReverted
      show ?thesis
      proof (cases "eb_headroom b (unat (rq_n_legs rec) + 1) = Inr ()")
        case True
        from poll_reverted[OF inv rec(2,3) True] obtain l' hs where
          "poll_settlement n TxReverted now (e, b) = (Inr (), (e\<lparr>e_ledger := l'\<rparr>,
             push_events (map (\<lambda>h. QuoteRejected h (q_maker (the (quotes_of (e_ledger e) h))) SettlementFailed) hs @ [RequestSettlementFailed r n]) b))"
          "market_inv (e_config e) now None l'" "length hs \<le> unat (rq_n_legs rec)" by blast
        then show ?thesis unfolding TxReverted
          by (auto intro!: handledI[OF engine_inv_ledger[OF inv] _ emitsI[OF True]])
      next
        case False
        then show ?thesis using same rec TxReverted by (simp add: poll_settlement_def Let_def)
      qed
    qed (use wait in simp_all)
  qed
qed

end
