(* ===== verification/Engine_Runs.thy ===== *)
theory Engine_Runs
  imports Engine_Poll
begin

text \<open>
  \<open>Engine::apply\<close> of \<open>crates/core/src/engine.rs\<close> as a transition system: a validated configuration
  starts it, and a step applies any command at an instant no earlier than the last. Every reachable
  engine satisfies the invariant; the properties of the engine are stated over reachable engines.
\<close>

section \<open>Normalisation and dispatch\<close>

lemma normalise_inv:
  assumes inv: "engine_inv t e" and t: "t \<le> now"
  shows "engine_inv now (normalise now a e)" and "e_config (normalise now a e) = e_config e"
    and "e_next_arrival (normalise now a e) = e_next_arrival e"
  using engine_inv_ledger[OF inv market_inv_normalise[OF engine_invD(2)[OF inv] t]]
  by (simp_all add: normalise_def upd_ledger_def)

lemma engine_inv_later: "engine_inv t e \<Longrightarrow> t \<le> t' \<Longrightarrow> engine_inv t' e"
  using market_inv_later by (auto simp: engine_inv_def)

lemma normalised_inv:
  assumes inv: "engine_inv t e" and t: "t \<le> now"
  shows "engine_inv now (normalised c now e)" and "e_config (normalised c now e) = e_config e"
    and "e_next_arrival (normalised c now e) = e_next_arrival e"
proof -
  have "engine_inv now (fold (normalise now) as e) \<and> e_config (fold (normalise now) as e) = e_config e \<and>
      e_next_arrival (fold (normalise now) as e) = e_next_arrival e" for as
    using engine_inv_later[OF inv t] by (induction as arbitrary: e) (simp_all add: normalise_inv)
  then show "engine_inv now (normalised c now e)" "e_config (normalised c now e) = e_config e"
    "e_next_arrival (normalised c now e) = e_next_arrival e"
    by (simp_all add: normalised_def)
qed

lemma dispatch_handled:
  assumes inv: "engine_inv now e"
  shows "handled now (e, b) (dispatch c now (e, b))"
proof (cases c)
  case (CreditAccount a v)
  show ?thesis unfolding CreditAccount dispatch_def command.case
    by (rule ledger_op_handled[OF inv]) (rule mirror_update_market[OF engine_invD(2)[OF inv]])
next
  case (RegisterContract k d)
  show ?thesis unfolding RegisterContract dispatch_def command.case
    by (rule ledger_op_handled[OF inv]) (rule register_contract_market[OF engine_invD(2)[OF inv]])
next
  case (CancelQuote q)
  show ?thesis unfolding CancelQuote dispatch_def command.case by (rule handled_same) (simp add: inv)
qed (simp_all add: dispatch_def submit_request_handled[OF inv] reject_request_handled[OF inv] submit_quote_handled[OF inv]
    accept_request_handled[OF inv] poll_settlement_handled[OF inv] report_oracle_handled[OF inv] settle_escrow_handled[OF inv])

lemma engine_apply_handled:
  assumes inv: "engine_inv t e" and t: "t \<le> now"
  shows "\<exists>res e' b' es. engine_apply c now (e, b) = Some (res, (e', b')) \<and> engine_inv now e' \<and>
     e_config e' = e_config e \<and> emits b es b'"
  using dispatch_handled[OF normalised_inv(1)[OF inv t]]
  by (simp add: handled_def engine_apply_def normalised_inv(2)[OF inv t])

section \<open>Reachable engines\<close>

type_synonym at_instant = "ts \<times> engine"

definition engine_start :: "at_instant \<Rightarrow> bool" where
  "engine_start s \<longleftrightarrow> fst s = 0 \<and> (\<exists>cfg. engine_new cfg = Some (Inr (snd s)))"

inductive engine_step :: "at_instant \<Rightarrow> at_instant \<Rightarrow> bool" where
  engine_applies: "t \<le> now \<Longrightarrow> engine_apply c now (e, b) = Some (res, (e', b')) \<Longrightarrow> engine_step (t, e) (now, e')"

inductive_cases engine_stepE: "engine_step s s'"

lemma engine_new_cases:
  "engine_new cfg = Some (Inr e) \<longleftrightarrow> config_validate cfg = Inr () \<and>
     (\<exists>l. ledger_new cfg = Some l \<and> e = \<lparr>e_config = cfg, e_ledger = l, e_next_arrival = 0\<rparr>)"
  by (auto simp: engine_new_def split: sum.splits option.splits)

lemma engine_start_inv:
  assumes "engine_start s" shows "engine_inv (fst s) (snd s)"
proof -
  from assms obtain cfg l where cfg: "config_validate cfg = Inr ()" and l: "ledger_new cfg = Some l"
    and s: "snd s = \<lparr>e_config = cfg, e_ledger = l, e_next_arrival = 0\<rparr>"
    by (auto simp: engine_start_def engine_new_cases)
  note N = ledger_new_inv[OF l startable_accounts[OF cfg]]
  have "quotes_of l = (\<lambda>_. None)" "requests_of l = (\<lambda>_. None)"
    using N(3,4) by (auto simp: quotes_of_def requests_of_def)
  with N have "market_inv cfg (fst s) None l"
    by (simp add: market_inv_def chains_ok_def market_ok_def quotes_ok_def requests_ok_def unique_ok_def claims_ok_def)
  with cfg s show ?thesis by (simp add: engine_inv_def validate_ok_iff)
qed

interpretation engine_system: inductive_invariant engine_start engine_step "\<lambda>s. engine_inv (fst s) (snd s)"
proof unfold_locales
  fix s s' assume inv: "engine_inv (fst s) (snd s)" and "engine_step s s'"
  from this(2) show "engine_inv (fst s') (snd s')"
  proof (cases rule: engine_step.cases)
    case (engine_applies t now c e b res e' b')
    with engine_apply_handled[of t e now c b] inv show ?thesis by auto
  qed
qed (rule engine_start_inv)

abbreviation reachable_engine :: "ts \<Rightarrow> engine \<Rightarrow> bool" where
  "reachable_engine t e \<equiv> reaches engine_start engine_step (t, e)"

lemma reachable_engine_inv: "reachable_engine t e \<Longrightarrow> engine_inv t e"
  using engine_system.reachable_inv by fastforce

lemma reachable_normalised: "reachable_engine t e \<Longrightarrow> t \<le> now \<Longrightarrow> engine_inv now (normalised c now e)"
  by (rule normalised_inv(1)[OF reachable_engine_inv])

text \<open>A run of commands, each with an empty buffer of the given capacity.\<close>

fun run_commands :: "nat \<Rightarrow> (ts \<times> command) list \<Rightarrow> at_instant \<Rightarrow> at_instant option" where
  "run_commands n [] s = Some s"
| "run_commands n ((now, c) # cs) s =
     (if fst s \<le> now then
        (case engine_apply c now (snd s, eb_with_capacity n) of
           Some (Inr _, (e, _)) \<Rightarrow> run_commands n cs (now, e)
         | _ \<Rightarrow> None)
      else None)"

lemma run_reaches: "run_commands n cs s = Some s' \<Longrightarrow> reaches engine_start engine_step s \<Longrightarrow> reaches engine_start engine_step s'"
proof (induction cs arbitrary: s)
  case (Cons x cs)
  obtain now c where x: "x = (now, c)" by (cases x)
  from Cons.prems(1) obtain u e b where step: "fst s \<le> now" "engine_apply c now (snd s, eb_with_capacity n) = Some (Inr u, (e, b))"
    "run_commands n cs (now, e) = Some s'"
    by (auto simp: x split: if_splits option.splits sum.splits prod.splits)
  have "engine_step s (now, e)" using engine_applies[OF step(1,2)] by simp
  from Cons.IH[OF step(3) reaches_step[OF Cons.prems(2) this]] show ?case .
qed simp

end
