(* ===== verification/Engine_Props.thy ===== *)
theory Engine_Props
  imports Engine_Runs
begin

text \<open>
  What the invariant says of a reachable engine (\<open>crates/core/src/engine.rs\<close>) in terms of the code's
  own records: every quote is backed by its maker's exact contribution, a settling request holds
  exactly its notional, and each command does to them what it promises. The properties themselves,
  with their witnesses, are in \<open>Engine_Claims\<close>.
\<close>

section \<open>Reading the records\<close>

text \<open>What backs a quote of a reachable engine.\<close>

definition backed :: "ts \<Rightarrow> ledger \<Rightarrow> quote_idx \<Rightarrow> quote \<Rightarrow> size \<Rightarrow> bool" where
  "backed t l h q sz \<longleftrightarrow> (case q_claim q of
      None \<Rightarrow> q_state q = QuoteActive \<and> q_expires_at q \<le> t
    | Some c \<Rightarrow> \<exists>res. reservation l c = Some res \<and> res_account res = q_maker q \<and> res_owner_of res = OwnerQuote h \<and>
        unat (res_amount res) = unat sz * (1000000 - unat (q_price q)) \<and>
        (case q_state q of
           QuoteActive \<Rightarrow> res_expires_at res = Some (q_expires_at q)
         | QuoteConsumed \<Rightarrow> committed_to res = Some (q_request q)
         | QuoteReleased \<Rightarrow> False))"

lemma claim_resolves:
  assumes "claims l (h_index c) = Some (h_generation c, a, m, ow, k)"
  obtains res where "reservation l c = Some res" and "res_account res = a" and "res_amount res = m"
    and "res_owner_of res = ow" and "kind_of res = k"
  using assms that by (auto simp: claims_Some_iff reservation_Some_iff)

lemma kind_fields:
  "kind_of res = OnExpiry e \<longleftrightarrow> res_expires_at res = Some e"
  "kind_of res = OnCommitted q \<longleftrightarrow> committed_to res = Some q"
  by (simp_all add: kind_of_cases(1,2))

lemma quote_record:
  assumes inv: "market_inv cfg t None l" and q: "quote l h = Some q"
  obtains rec leg where "request l (q_request q) = Some rec" and "request_leg rec (q_leg q) = Some leg"
    and "leg_size leg \<le> q_size q" and "q_price q \<le> UNIT" and "q_state q \<noteq> QuoteReleased"
    and "q_state q = QuoteActive \<Longrightarrow> rq_state rec = ReqOpen"
    and "q_state q = QuoteConsumed \<Longrightarrow> is_settling (rq_state rec)"
    and "backed t l h q (leg_size leg)"
proof -
  note I = market_invD[OF inv]
  have qv: "quotes_of l h = Some (bare_quote q)" using q by (simp add: quotes_of_def)
  obtain rec' leg' where v: "requests_of l (q_request q) = Some rec'" "request_leg rec' (q_leg q) = Some leg'"
    "leg_size leg' \<le> q_size q" "q_price q \<le> UNIT" "q_state q \<noteq> QuoteReleased"
    "q_state q = QuoteActive \<Longrightarrow> rq_state rec' = ReqOpen"
    "q_state q = QuoteActive \<Longrightarrow> q_claim q = None \<Longrightarrow> q_expires_at q \<le> t"
    "q_state q = QuoteConsumed \<Longrightarrow> q_claim q \<noteq> None \<and> is_settling (rq_state rec')"
    by (rule quote_okD[OF market_okD(1)[OF I(3)] qv]) auto
  from v(1) obtain rec where rec: "request l (q_request q) = Some rec" "rec' = bare_request rec" by (auto simp: requests_of_Some)
  with v(2) obtain leg where leg: "request_leg rec (q_leg q) = Some leg" "leg' = bare_leg leg" by auto
  have "backed t l h q (leg_size leg)"
  proof (cases "q_claim q")
    case None
    then show ?thesis using v(5,7,8) by (cases "q_state q") (auto simp: backed_def)
  next
    case (Some c)
    with quote_claim_iff[OF I(1) q, of c] obtain a m k where k: "claims l (h_index c) = Some (h_generation c, a, m, OwnerQuote h, k)" by auto
    have "claim_ok (requests_of l) (quotes_of l) a m (OwnerQuote h) k" by (rule claim_okD[OF market_okD(4)[OF I(3)] k])
    then have ok: "a = q_maker q" "maker_contribution (leg_size leg) (q_price q) = Some m"
      "case k of OnExpiry e \<Rightarrow> e = q_expires_at q \<and> q_state q = QuoteActive | OnCommitted r \<Rightarrow> r = q_request q \<and> q_state q = QuoteConsumed"
      using qv v(1,2) leg by (auto simp: claim_ok_def split: claim_kind.splits)
    obtain res where res: "reservation l c = Some res" "res_account res = a" "res_amount res = m"
      "res_owner_of res = OwnerQuote h" "kind_of res = k" by (rule claim_resolves[OF k])
    with ok show ?thesis
      by (cases k) (auto simp: backed_def Some maker_contribution_Some_iff kind_fields)
  qed
  then show thesis using that[OF rec(1) leg(1)] v rec(2) leg(2) by simp
qed

text \<open>The claim of a request: its worst case while it is open, its exact price once it settles.\<close>

lemma request_record:
  assumes inv: "market_inv cfg t None l" and rec: "request l r = Some rec" and c: "rq_claim rec = Some c"
  obtains res where "reservation l c = Some res" and "res_account res = rq_requester rec" and "res_owner_of res = OwnerRequest r"
    and "rq_state rec = ReqOpen \<Longrightarrow> res_expires_at res = Some (rq_deadline rec) \<and> unat (res_amount res) = worst_case rec"
    and "is_settling (rq_state rec) \<Longrightarrow> committed_to res = Some r \<and> filled (quotes_of l) r rec (res_amount res)"
    and "rq_state rec = ReqOpen \<or> is_settling (rq_state rec)"
proof -
  note I = market_invD[OF inv]
  have rv: "requests_of l r = Some (bare_request rec)" using rec by (simp add: requests_of_def)
  from request_claim_iff[OF I(1) rec, of c] c obtain a m k where k: "claims l (h_index c) = Some (h_generation c, a, m, OwnerRequest r, k)" by auto
  have ok: "claim_ok (requests_of l) (quotes_of l) a m (OwnerRequest r) k" by (rule claim_okD[OF market_okD(4)[OF I(3)] k])
  obtain res where res: "reservation l c = Some res" "res_account res = a" "res_amount res = m"
    "res_owner_of res = OwnerRequest r" "kind_of res = k" by (rule claim_resolves[OF k])
  have W: "worst_case (bare_request rec) = worst_case rec" by (rule worst_case_views[OF inv rec])
  have "rq_legs (bare_request rec) ! i = bare_leg (rq_legs rec ! i)" if "i < unat (rq_n_legs rec)" for i
    using running_legs(1)[OF inv rec] that by (simp add: bare_request_def)
  then have F: "filled (quotes_of l) r (bare_request rec) m = filled (quotes_of l) r rec m" for m by (simp add: filled_def)
  show thesis
    by (rule that[OF res(1)]) (use ok res rv W F in \<open>auto simp: claim_ok_def kind_fields split: claim_kind.splits\<close>)
qed

section \<open>The capital of a settling request\<close>

definition committed_to_request :: "ledger \<Rightarrow> req_idx \<Rightarrow> (handle \<times> reservation) set" where
  "committed_to_request l r = {(h, res). reservation l h = Some res \<and> committed_to res = Some r}"

lemma claimed_committed_to:
  "claimed (committed_to_request l r) = sum (amount_at (claims l)) (on_list (claims l) r)"
proof -
  have "claimed (committed_to_request l r) = sum (amount_at (claims l)) {i. i \<in> on_list (claims l) r}"
    unfolding committed_to_request_def
    by (rule claims_bij) (auto simp: on_list_def claims_Some_iff kind_fields)
  then show ?thesis by simp
qed

text \<open>One claim of the requester and one of each winner, which together make the notional.\<close>

lemma settling_sum:
  fixes f price :: "nat \<Rightarrow> nat"
  assumes "S = insert i0 (g ` {..<n})" and "i0 \<notin> g ` {..<n}" and "inj_on g {..<n}"
    and "a i0 = (\<Sum>k<n. f k * price k)" and "\<And>k. k < n \<Longrightarrow> a (g k) = f k * (N - price k) \<and> price k \<le> N"
  shows "sum a S = (\<Sum>k<n. f k * N)"
proof -
  have "sum a S = a i0 + (\<Sum>k<n. a (g k))" using assms(1-3) by (simp add: sum.reindex)
  also have "\<dots> = (\<Sum>k<n. f k * price k) + (\<Sum>k<n. f k * (N - price k))" using assms(4,5) by simp
  also have "\<dots> = (\<Sum>k<n. f k * N)"
    using assms(5) by (simp flip: sum.distrib distrib_left)
  finally show ?thesis .
qed

lemma settling_claims:
  assumes inv: "market_inv cfg t None l" and rec: "request l r = Some rec" "rq_state rec = ReqSettling n d"
  obtains win fill c res qi where
    "\<forall>k<unat (rq_n_legs rec). \<exists>q. quote l (win k) = Some q \<and> q_request q = r \<and> q_leg q = word_of_nat k \<and>
       q_price q = fill k \<and> q_state q = QuoteConsumed \<and> backed t l (win k) q (leg_size (rq_legs rec ! k))"
    and "rq_claim rec = Some c" "reservation l c = Some res" "res_account res = rq_requester rec" "committed_to res = Some r"
    and "unat (res_amount res) = (\<Sum>k<unat (rq_n_legs rec). unat (leg_size (rq_legs rec ! k)) * unat (fill k))"
    and "claims l (h_index c) = Some (h_generation c, rq_requester rec, res_amount res, OwnerRequest r, OnCommitted r)"
    and "\<forall>k<unat (rq_n_legs rec). \<exists>g m. claims l (qi k) = Some (g, q_maker (the (quote l (win k))), m, OwnerQuote (win k), OnCommitted r) \<and>
       unat m = unat (leg_size (rq_legs rec ! k)) * (1000000 - unat (fill k)) \<and> unat (fill k) \<le> 1000000"
    and "on_list (claims l) r = insert (h_index c) (qi ` {..<unat (rq_n_legs rec)})"
    and "h_index c \<notin> qi ` {..<unat (rq_n_legs rec)}" and "inj_on qi {..<unat (rq_n_legs rec)}"
proof -
  note I = market_invD[OF inv] and N = running_legs[OF inv rec(1)]
  let ?n = "unat (rq_n_legs rec)" and ?sz = "\<lambda>k. unat (leg_size (rq_legs rec ! k))"
  have rv: "requests_of l r = Some (bare_request rec)" and se: "is_settling (rq_state (bare_request rec))"
    using rec by (simp_all add: requests_of_def)
  from request_ok_fields(6)[OF request_okD[OF market_okD(2)[OF I(3)] rv]] rec(2) obtain c where c: "rq_claim rec = Some c" by auto
  obtain res where res: "reservation l c = Some res" "res_account res = rq_requester rec" "res_owner_of res = OwnerRequest r"
    "committed_to res = Some r" "filled (quotes_of l) r rec (res_amount res)"
    by (rule request_record[OF inv rec(1) c]) (use rec(2) in auto)
  from res(5) obtain fill where fill: "unat (res_amount res) = (\<Sum>k<?n. ?sz k * unat (fill k :: price))"
    "\<forall>k<?n. \<exists>h q. quotes_of l h = Some q \<and> q_request q = r \<and> q_leg q = word_of_nat k \<and> q_price q = fill k \<and> q_state q = QuoteConsumed"
    by (auto simp: filled_def)
  then obtain win where win: "\<forall>k<?n. \<exists>q. quote l (win k) = Some q \<and> q_request q = r \<and> q_leg q = word_of_nat k \<and> q_price q = fill k \<and> q_state q = QuoteConsumed"
    by (simp add: quotes_of_Some) (metis bare_quote_fields)
  have B: "backed t l (win k) q (leg_size (rq_legs rec ! k)) \<and> q_price q \<le> UNIT" if k: "k < ?n" and q: "quote l (win k) = Some q" for k q
  proof -
    have q': "q_request q = r" "q_leg q = word_of_nat k" using win k q by auto
    obtain rec' leg where "request l (q_request q) = Some rec'" "request_leg rec' (q_leg q) = Some leg"
      "backed t l (win k) q (leg_size leg)" "q_price q \<le> UNIT" by (rule quote_record[OF inv q])
    with q' rec(1) request_leg_index[OF k N(1,2)] show ?thesis by simp
  qed
  define qi where "qi k = h_index (the (q_claim (the (quote l (win k)))))" for k
  have at: "\<exists>g m. claims l (qi k) = Some (g, q_maker (the (quote l (win k))), m, OwnerQuote (win k), OnCommitted r) \<and>
      unat m = ?sz k * (1000000 - unat (fill k)) \<and> unat (fill k) \<le> 1000000" if k: "k < ?n" for k
  proof -
    from win k obtain q where q: "quote l (win k) = Some q" "q_request q = r" "q_price q = fill k" "q_state q = QuoteConsumed" by auto
    from B[OF k q(1)] q obtain cq res' where "q_claim q = Some cq" "reservation l cq = Some res'" "res_account res' = q_maker q"
      "res_owner_of res' = OwnerQuote (win k)" "unat (res_amount res') = ?sz k * (1000000 - unat (fill k))" "committed_to res' = Some r"
      "fill k \<le> UNIT" by (auto simp: backed_def split: option.splits)
    then show ?thesis using q(1)
      by (auto simp: qi_def claims_Some_iff reservation_Some_iff kind_fields word_le_nat_alt)
  qed
  have c_at: "claims l (h_index c) = Some (h_generation c, rq_requester rec, res_amount res, OwnerRequest r, OnCommitted r)"
    using res by (simp add: claims_Some_iff reservation_Some_iff kind_fields)
  have list: "on_list (claims l) r = insert (h_index c) (qi ` {..<?n})"
  proof (intro set_eqI iffI)
    fix i assume i: "i \<in> on_list (claims l) r"
    then obtain g a m ow where ci: "claims l i = Some (g, a, m, ow, OnCommitted r)" by (auto simp: on_list_def)
    from on_list_owner[OF inv rv se ci] i have "owner_of_request (quotes_of l) r ow" by simp
    then consider "ow = OwnerRequest r" | h q where "ow = OwnerQuote h" "quotes_of l h = Some q" "q_request q = r"
      unfolding owner_of_request_def by blast
    then show "i \<in> insert (h_index c) (qi ` {..<?n})"
    proof cases
      case 1
      then show ?thesis using claim_index_unique[OF I(1) _ ci, of c] rec(1) c by (simp add: owner_claim_def)
    next
      case 2
      then obtain k where k: "k < ?n" "q_leg q = word_of_nat k"
        using quotes_valid_leg(1)[OF inv rv 2(2,3)] that[of "unat (q_leg q)"] by (simp add: set_leg_ids)
      from win k obtain q' where q': "quotes_of l (win k) = Some q'" "q_request q' = r" "q_leg q' = word_of_nat k" "q_state q' = QuoteConsumed"
        by (auto simp: quotes_of_Some)
      have "win k = h" by (rule unique_okD[OF market_okD(3)[OF I(3)] q'(1) 2(2)]) (use q' 2 k in auto)
      with at[OF k(1)] obtain g' a' m' where ck: "claims l (qi k) = Some (g', a', m', OwnerQuote h, OnCommitted r)" by auto
      from 2(2) obtain q0 where q0: "quote l h = Some q0" by (auto simp: quotes_of_Some)
      have "q_claim q0 = Some \<lparr>h_index = qi k, h_generation = g'\<rparr>" using quote_claim_iff[OF I(1) q0] ck by simp
      then have "i = qi k" using claim_index_unique[OF I(1) _ ci, of "\<lparr>h_index = qi k, h_generation = g'\<rparr>"] 2(1) q0
        by (simp add: owner_claim_def)
      with k show ?thesis by auto
    qed
  next
    fix i assume "i \<in> insert (h_index c) (qi ` {..<?n})"
    then show "i \<in> on_list (claims l) r" using c_at at by (fastforce simp: on_list_def)
  qed
  have fresh: "h_index c \<notin> qi ` {..<?n}"
  proof
    assume "h_index c \<in> qi ` {..<?n}"
    then obtain k where "k < ?n" "qi k = h_index c" by auto
    with at[of k] c_at show False by auto
  qed
  have inj: "inj_on qi {..<?n}"
  proof (rule inj_onI)
    fix k k' assume k: "k \<in> {..<?n}" "k' \<in> {..<?n}" "qi k = qi k'"
    then have "win k = win k'" using at[of k] at[of k'] by auto
    with win k have "(word_of_nat k :: u8) = word_of_nat k'" by (metis lessThan_iff option.inject)
    moreover have "k < MAX_LEGS" "k' < MAX_LEGS" using k N(2) by auto
    ultimately show "k = k'" using leg_index by metis
  qed
  show thesis
  proof (rule that[OF _ c res(1,2,4) fill(1) c_at _ list fresh inj])
    show "\<forall>k<?n. \<exists>q. quote l (win k) = Some q \<and> q_request q = r \<and> q_leg q = word_of_nat k \<and>
       q_price q = fill k \<and> q_state q = QuoteConsumed \<and> backed t l (win k) q (leg_size (rq_legs rec ! k))"
      using win B by blast
  qed (use at in blast)
qed

lemma settling_capital:
  assumes inv: "market_inv cfg t None l" and rec: "request l r = Some rec" "rq_state rec = ReqSettling n d"
  shows "\<exists>win. (\<forall>k < unat (rq_n_legs rec). \<exists>q. quote l (win k) = Some q \<and> q_request q = r \<and> q_leg q = word_of_nat k \<and>
        q_state q = QuoteConsumed \<and> backed t l (win k) q (leg_size (rq_legs rec ! k))) \<and>
     (\<exists>c res. rq_claim rec = Some c \<and> reservation l c = Some res \<and> res_account res = rq_requester rec \<and> committed_to res = Some r \<and>
        unat (res_amount res) = (\<Sum>k<unat (rq_n_legs rec). unat (leg_size (rq_legs rec ! k)) * unat (q_price (the (quote l (win k)))))) \<and>
     claimed (committed_to_request l r) = (\<Sum>k<unat (rq_n_legs rec). unat (leg_size (rq_legs rec ! k)) * 1000000)"
proof -
  obtain win fill c res qi where
    win: "\<forall>k<unat (rq_n_legs rec). \<exists>q. quote l (win k) = Some q \<and> q_request q = r \<and> q_leg q = word_of_nat k \<and>
       q_price q = fill k \<and> q_state q = QuoteConsumed \<and> backed t l (win k) q (leg_size (rq_legs rec ! k))"
    and c: "rq_claim rec = Some c" "reservation l c = Some res" "res_account res = rq_requester rec" "committed_to res = Some r"
    and fill: "unat (res_amount res) = (\<Sum>k<unat (rq_n_legs rec). unat (leg_size (rq_legs rec ! k)) * unat (fill k))"
    and c_at: "claims l (h_index c) = Some (h_generation c, rq_requester rec, res_amount res, OwnerRequest r, OnCommitted r)"
    and at: "\<forall>k<unat (rq_n_legs rec). \<exists>g m. claims l (qi k) = Some (g, q_maker (the (quote l (win k))), m, OwnerQuote (win k), OnCommitted r) \<and>
       unat m = unat (leg_size (rq_legs rec ! k)) * (1000000 - unat (fill k)) \<and> unat (fill k) \<le> 1000000"
    and list: "on_list (claims l) r = insert (h_index c) (qi ` {..<unat (rq_n_legs rec)})"
    and fresh: "h_index c \<notin> qi ` {..<unat (rq_n_legs rec)}" and inj: "inj_on qi {..<unat (rq_n_legs rec)}"
    by (rule settling_claims[OF assms])
  let ?n = "unat (rq_n_legs rec)" and ?sz = "\<lambda>k. unat (leg_size (rq_legs rec ! k))"
  have am: "amount_at (claims l) (h_index c) = (\<Sum>k<?n. ?sz k * unat (fill k))" using c_at fill by (simp add: amount_at_def)
  have "claimed (committed_to_request l r) = (\<Sum>k<?n. ?sz k * 1000000)"
    unfolding claimed_committed_to
    by (rule settling_sum[where price = "\<lambda>k. unat (fill k)" and f = ?sz and a = "amount_at (claims l)", OF list fresh inj am]) (use at in \<open>fastforce simp: amount_at_def\<close>)
  moreover have same: "(\<Sum>k<?n. ?sz k * unat (fill k)) = (\<Sum>k<?n. ?sz k * unat (q_price (the (quote l (win k)))))"
    by (rule sum.cong) (use win in auto)
  ultimately show ?thesis using win c fill by (intro exI[of _ win]) (metis (no_types, lifting))
qed

section \<open>The submitted intent\<close>

definition intended :: "ledger \<Rightarrow> request \<Rightarrow> selection option list \<Rightarrow> nat \<Rightarrow> intent_leg list \<Rightarrow> bool" where
  "intended l rec plan n intent \<longleftrightarrow> length intent = MAX_LEGS \<and> (\<forall>k<n. \<exists>s q. plan ! k = Some s \<and> quote l (sel_quote s) = Some q \<and>
     intent ! k = \<lparr> il_contract = leg_contract (rq_legs rec ! k), il_side = leg_side (rq_legs rec ! k),
        il_size = leg_size (rq_legs rec ! k), il_maker = q_maker q, il_fill_price = sel_price s,
        il_quote_expiry = q_expires_at q \<rparr>)"

lemma intent_leg_step:
  assumes i: "intended l rec plan n intent" and n: "n < unat (rq_n_legs rec)" "unat (rq_n_legs rec) \<le> length (rq_legs rec)" "n < MAX_LEGS"
    and step: "intent_step l rec plan n intent = Inr intent'"
  shows "intended l rec plan (Suc n) intent'"
proof -
  from step n obtain s q where "plan ! n = Some s" "quote l (sel_quote s) = Some q"
    "intent' = set_at intent n \<lparr> il_contract = leg_contract (rq_legs rec ! n), il_side = leg_side (rq_legs rec ! n),
        il_size = leg_size (rq_legs rec ! n), il_maker = q_maker q, il_fill_price = sel_price s,
        il_quote_expiry = q_expires_at q \<rparr>"
    by (auto simp: intent_step_def nth_opt_Some request_legs_nth split: option.splits)
  with i n(3) show ?thesis by (auto simp: intended_def set_at_def nth_list_update less_Suc_eq)
qed

lemma intent_built:
  assumes "n \<le> unat (rq_n_legs rec)" and "unat (rq_n_legs rec) \<le> length (rq_legs rec)" and "unat (rq_n_legs rec) \<le> MAX_LEGS"
    and "fold_res (intent_step l rec plan) [0..<n] (replicate MAX_LEGS intent_leg_default) = Inr intent"
  shows "intended l rec plan n intent"
  using assms
proof (induction n arbitrary: intent)
  case (Suc n)
  then obtain i1 where i1: "fold_res (intent_step l rec plan) [0..<n] (replicate MAX_LEGS intent_leg_default) = Inr i1"
    "intent_step l rec plan n i1 = Inr intent"
    by (cases "fold_res (intent_step l rec plan) [0..<n] (replicate MAX_LEGS intent_leg_default)";
        cases "intent_step l rec plan n (projr (fold_res (intent_step l rec plan) [0..<n] (replicate MAX_LEGS intent_leg_default)))")
      (auto simp: fold_res_append)
  from Suc.prems(1-3) have "n \<le> unat (rq_n_legs rec)" "n < MAX_LEGS" "n < unat (rq_n_legs rec)" by linarith+
  with Suc.IH[OF _ Suc.prems(2,3) i1(1)] intent_leg_step[OF _ _ Suc.prems(2) _ i1(2)] show ?case by blast
qed (auto simp: intended_def)

section \<open>Accepting, over the code's records\<close>

text \<open>The quotes of a leg.\<close>

definition on_leg :: "ledger \<Rightarrow> req_idx \<Rightarrow> leg_id \<Rightarrow> quote_idx \<Rightarrow> quote \<Rightarrow> bool" where
  "on_leg l r lid h q \<longleftrightarrow> quote l h = Some q \<and> q_request q = r \<and> q_leg q = lid"

text \<open>\<open>h\<close> is the best eligible quote of the leg: cheapest, and the earliest of the cheapest.\<close>

definition best_quote :: "ledger \<Rightarrow> req_idx \<Rightarrow> leg_id \<Rightarrow> leg \<Rightarrow> ts \<Rightarrow> quote_idx \<Rightarrow> quote \<Rightarrow> bool" where
  "best_quote l r lid leg now h q \<longleftrightarrow> on_leg l r lid h q \<and> eligible leg now q \<and>
     (\<forall>h' q'. on_leg l r lid h' q' \<longrightarrow> eligible leg now q' \<longrightarrow> ranks_before q q')"

lemma best_on_leg_open:
  assumes inv: "market_inv cfg t S l" and rec: "request l r = Some rec" "\<not> request_state_is_terminal (rq_state rec)"
    and leg: "request_leg rec lid = Some leg"
  shows "\<exists>res. best_on_leg l leg now = Some res \<and>
    (case res of
       Inr b \<Rightarrow> \<exists>q. best_quote l r lid leg now (sel_quote b) q \<and> sel_price b = q_price q
     | Inl why \<Rightarrow> (\<forall>h q. on_leg l r lid h q \<longrightarrow> \<not> eligible leg now q) \<and>
         why = (if \<forall>h q. \<not> on_leg l r lid h q then NoQuotes
                else if \<forall>h q. on_leg l r lid h q \<longrightarrow> \<not> quote_is_live_at q now then AllExpired
                else OutsideLimit))"
proof -
  obtain hs where hs: "chain_at (max_quotes_per_leg cfg) (quote l) r lid leg hs"
    by (rule leg_of_context[OF inv rec leg])
  have mem: "h \<in> set hs \<longleftrightarrow> (\<exists>q. on_leg l r lid h q)" for h
    using hs by (auto simp: chain_at_def quotes_at_def on_leg_def)
  have rcd: "quote l h = Some q \<longleftrightarrow> on_leg l r lid h q" if "h \<in> set hs" for h q
    using that mem by (auto simp: on_leg_def)
  have big: "leg_size leg \<le> q_size q" if on: "on_leg l r lid h q" for h q
  proof -
    have "quotes_of l h = Some (bare_quote q)" using on by (simp add: quotes_of_def on_leg_def)
    then obtain rec' leg' where "requests_of l r = Some rec'" "request_leg rec' lid = Some leg'" "leg_size leg' \<le> q_size q"
      by (rule quote_okD[OF market_okD(1)[OF market_invD(3)[OF inv]]]) (use on in \<open>simp add: on_leg_def\<close>)
    with rec leg show ?thesis by (auto simp: requests_of_def)
  qed
  from best_on_leg_chain[of l leg hs now] hs obtain res where res: "best_on_leg l leg now = Some res"
    "case res of
       Inr b \<Rightarrow> is_best (quote l) leg now hs b
     | Inl why \<Rightarrow> (\<forall>h \<in> set hs. \<forall>q. quote l h = Some q \<longrightarrow> \<not> eligible leg now q) \<and>
         why = no_quote_because (quote l) leg now hs" by (auto simp: chain_at_def)
  show ?thesis
  proof (cases res)
    case (Inr b)
    then show ?thesis using res mem rcd by (auto simp: is_best_def best_quote_def) (metis on_leg_def)
  next
    case (Inl why)
    have each: "(\<forall>h \<in> set hs. \<forall>q. quote l h = Some q \<longrightarrow> P q) \<longleftrightarrow> (\<forall>h q. on_leg l r lid h q \<longrightarrow> P q)" for P
      using mem by (auto simp: on_leg_def)
    have none: "hs = [] \<longleftrightarrow> (\<forall>h q. \<not> on_leg l r lid h q)" using mem mem[of "hd hs"] by (cases hs) auto
    have some: "\<exists>h \<in> set hs. \<exists>q. quote l h = Some q \<and> quote_is_live_at q now \<and> leg_size leg \<le> q_size q"
      if live: "\<not> (\<forall>h q. on_leg l r lid h q \<longrightarrow> \<not> quote_is_live_at q now)"
    proof -
      from live obtain h q where q: "on_leg l r lid h q" "quote_is_live_at q now" by blast
      with mem big[OF q(1)] show ?thesis by (auto simp: on_leg_def intro!: bexI[of _ h])
    qed
    have "why = (if \<forall>h q. \<not> on_leg l r lid h q then NoQuotes
                else if \<forall>h q. on_leg l r lid h q \<longrightarrow> \<not> quote_is_live_at q now then AllExpired else OutsideLimit)"
      using res(2) some by (simp add: Inl no_quote_because_def none each)
    moreover have "\<forall>h q. on_leg l r lid h q \<longrightarrow> \<not> eligible leg now q" using res(2) by (simp add: Inl each)
    ultimately show ?thesis using res(1) Inl by simp
  qed
qed

section \<open>Refusals\<close>

lemma publish_keeps_quotes:
  "publish_selection r lid now (l, b) = Some (l', b') \<Longrightarrow> quote l' = quote l"
  by (auto simp: publish_selection_def leg_update_def split: option.splits sum.splits if_splits)

lemma refused_mirror: "apply_mirror_update l a v = (Inl err, l') \<Longrightarrow> l' = l"
  by (auto simp: apply_mirror_update_def split: option.splits)

lemma refused_register: "register_contract l k d = (Inl err, l') \<Longrightarrow> l' = l"
  by (auto simp: register_contract_def split: option.splits if_splits)

lemma refused_ledger_op:
  "(\<And>err l'. f (e_ledger e) = (Inl err, l') \<Longrightarrow> l' = e_ledger e) \<Longrightarrow>
     lift_ledger_op f (e, b) = (Inl err, w) \<Longrightarrow> w = (e, b)"
  by (auto simp: lift_ledger_op_def lift_ledger_def split: prod.splits sum.splits)

lemma refused_submit_request:
  assumes inv: "engine_inv now e" and "submit_request a deadline legs n now (e, b) = Some (Inl err, w)"
  shows "w = (e, b)"
proof -
  have "l' = e_ledger e" if op: "open_request_reserving (e_ledger e) (request_new a deadline stored n) tot = Some (Inl err', l')"
    for stored tot err' l'
    using open_request_reserving_spec[OF engine_invD(3)[OF inv], of "request_new a deadline stored n" tot] op by auto
  then show ?thesis using assms(2)
    by (auto simp: submit_request_def Let_def split: if_splits sum.splits option.splits prod.splits)
qed

lemma refused_reject:
  "reject_request r now (e, b) = Some (Inl err, w) \<Longrightarrow> w = (e, b)"
  by (auto simp: reject_request_def Let_def split: option.splits if_splits sum.splits prod.splits)

lemma refused_accept: "accept_request r expected n now (e, b) = Some (Inl err, w) \<Longrightarrow> w = (e, b)"
  by (auto simp: accept_request_def Let_def split: option.splits sum.splits prod.splits)

lemma refused_poll: "poll_settlement n status now (e, b) = (Inl err, w) \<Longrightarrow> w = (e, b)"
  by (auto simp: poll_settlement_def Let_def split: option.splits request_state.splits tx_status.splits if_splits prod.splits)

lemma refused_oracle: "report_oracle_status k s (e, b) = (Inl err, w) \<Longrightarrow> w = (e, b)"
  by (auto simp: report_oracle_status_def Let_def split: option.splits if_splits)

lemma refused_settle: "settle_escrow x k now (e, b) = (Inl err, w) \<Longrightarrow> w = (e, b)"
  by (auto simp: settle_escrow_def split: option.splits sum.splits if_splits)

text \<open>A quote the ledger refuses: the maker's standing quote of the leg is gone all the same.\<close>

lemma refused_quote:
  assumes inv: "engine_inv now e" and s: "submit_quote maker r lid p sz x now (e, b) = Some (Inl err, w)"
  shows "w = (e, b) \<or> (\<exists>rec leg standing err' l1. request (e_ledger e) r = Some rec \<and> request_leg rec lid = Some leg \<and>
     standing_quote_of (e_ledger e) leg maker = Some standing \<and> err = LedgerErr err' \<and>
     retires (e_ledger e) (set_option standing) l1 \<and>
     w = (e\<lparr>e_ledger := l1, e_next_arrival := saturating_add (e_next_arrival e) 1\<rparr>,
          push_events (map (\<lambda>s. QuoteRejected s maker Replaced) (case standing of None \<Rightarrow> [] | Some s \<Rightarrow> [s])) b))"
proof -
  note E = engine_invD[OF inv]
  note def = submit_quote_def[of maker r lid p sz x now "(e, b)", unfolded Let_def prod.case]
  obtain res where chk: "check_quote e maker r lid p sz x now = Some res"
    using check_quote_returns[OF E(2)] by blast
  show ?thesis
  proof (cases "\<exists>leg standing m. res = Inr (leg, standing) \<and> maker_contribution (leg_size leg) p = Some m \<and> eb_headroom b 2 = Inr ()")
    case False
    with s chk headroom_cases[of b 2] show ?thesis by (cases res) (auto simp: def split: option.splits)
  next
    case True
    then obtain leg standing m where ok: "check_quote e maker r lid p sz x now = Some (Inr (leg, standing))"
      "maker_contribution (leg_size leg) p = Some m" "eb_headroom b 2 = Inr ()" using chk by auto
    obtain rec where rec: "request (e_ledger e) r = Some rec" "request_leg rec lid = Some leg"
      "standing_quote_of (e_ledger e) leg maker = Some standing"
      by (rule check_quote_accepts[OF ok(1)]) blast
    show ?thesis
    proof (rule submit_quote_steps[OF inv ok])
      fix l1 err' e'
      assume "submit_quote maker r lid p sz x now (e, b) = Some (Inl (LedgerErr err'), (e', push_events
          (map (\<lambda>s. QuoteRejected s maker Replaced) (case standing of None \<Rightarrow> [] | Some s \<Rightarrow> [s])) b))"
        "e' = e\<lparr>e_ledger := l1, e_next_arrival := saturating_add (e_next_arrival e) 1\<rparr>"
        "retires (e_ledger e) (set_option standing) l1"
      with s rec show ?thesis by auto
    qed (use s in auto)
  qed
qed

lemma refused_dispatch:
  assumes inv: "engine_inv now e" and d: "dispatch c now (e, b) = Some (Inl err, w)"
  shows "w = (e, b) \<or> (\<exists>maker r lid p sz x. c = SubmitQuote maker r lid p sz x \<and>
     submit_quote maker r lid p sz x now (e, b) = Some (Inl err, w))"
proof (cases c)
  case (CreditAccount a v)
  with d refused_mirror show ?thesis by (auto simp: dispatch_def dest!: refused_ledger_op[rotated])
next
  case (RegisterContract k v)
  with d refused_register show ?thesis by (auto simp: dispatch_def dest!: refused_ledger_op[rotated])
qed (use d refused_submit_request[OF inv] refused_reject refused_accept refused_poll refused_oracle refused_settle in
    \<open>auto simp: dispatch_def\<close>)

section \<open>An accepted request\<close>

lemma accepted_over_records:
  assumes inv: "engine_inv now e" and ok: "accept_request r expected n_legs now (e, b) = Some (Inr (), (e', b'))"
  defines "l \<equiv> e_ledger e"
  shows "\<exists>rec win intent es. request l r = Some rec \<and> rq_state rec = ReqOpen \<and> now < rq_deadline rec \<and> n_legs = rq_n_legs rec \<and>
    (\<forall>k < unat n_legs. \<exists>q q' leg view. request_leg rec (word_of_nat k) = Some leg \<and> best_quote l r (word_of_nat k) leg now (win k) q \<and>
       nth_opt expected k = Some view \<and> q_price q \<le> ef_price view \<and> q_price q \<le> leg_limit leg \<and>
       quote (e_ledger e') (win k) = Some q' \<and> bare_quote q' = bare_quote (quote_set_state QuoteConsumed q) \<and>
       intent ! k = \<lparr> il_contract = leg_contract leg, il_side = leg_side leg, il_size = leg_size leg, il_maker = q_maker q,
          il_fill_price = q_price q, il_quote_expiry = q_expires_at q \<rparr>) \<and>
    (\<forall>h q. quote l h = Some q \<longrightarrow> q_request q = r \<longrightarrow> h \<notin> win ` {..<unat n_legs} \<longrightarrow> quote (e_ledger e') h = None) \<and>
    (\<forall>h. (\<forall>q. quote l h = Some q \<longrightarrow> q_request q \<noteq> r) \<longrightarrow>
       map_option bare_quote (quote (e_ledger e') h) = map_option bare_quote (quote l h)) \<and>
    (\<exists>rec'. request (e_ledger e') r = Some rec' \<and>
       rq_state rec' = ReqSettling (nonce_of r) (ts_saturating_add now (max_settling_time (e_config e)))) \<and>
    eb_events b' = eb_events b @ es @ [SubmitIntent r (nonce_of r) (rq_requester rec) intent n_legs]"
proof -
  note E = engine_invD[OF inv, folded l_def]
  obtain rec plan tot claim intent where chk: "check_accept e b r expected n_legs now = Some (Inr (rec, plan, tot, claim, intent))"
    using ok by (auto simp: accept_request_def split: option.splits sum.splits prod.splits)
  have rec: "request l r = Some rec" "rq_state rec = ReqOpen" "now < rq_deadline rec" and n: "n_legs = rq_n_legs rec"
    and bi: "build_intent l rec plan = Inr intent"
    by (rule check_accept_accepts[OF chk, folded l_def], blast)+
  let ?n = "unat (rq_n_legs rec)" and ?st = "ReqSettling (nonce_of r) (ts_saturating_add now (max_settling_time (e_config e)))"
  note N = running_legs[OF E(2) rec(1)]
  obtain l3 es where e': "e' = e\<lparr>e_ledger := l3\<rparr>" "b' = push_events (es @ [SubmitIntent r (nonce_of r) (rq_requester rec) intent (rq_n_legs rec)]) b"
    and em: "emits b (es @ [SubmitIntent r (nonce_of r) (rq_requester rec) intent (rq_n_legs rec)]) b'"
    and pl: "planned l rec expected now ?n (plan, tot)"
    and qs: "quotes_of l3 = accepted_quotes r plan ?n (quotes_of l)"
    and rs: "requests_of l3 = (requests_of l)(r \<mapsto> request_set_state ?st (bare_request rec))"
    using accept_request_spec[OF inv chk] ok unfolding l_def by auto
  have it: "intended l rec plan ?n intent"
    using intent_built[OF order_refl N(1,2)] bi by (simp add: build_intent_def)
  define win where "win k = sel_quote (the (plan ! k))" for k
  have q3: "map_option bare_quote (quote l3 h) = accepted_quotes r plan ?n (quotes_of l) h" for h
    using fun_cong[OF qs, of h] by (simp add: quotes_of_def)
  have won_iff: "won plan h q \<longleftrightarrow> h = win (unat (q_leg q))" if "unat (q_leg q) < ?n" for h q
    using pl that by (auto simp: won_def win_def planned_def)
  have leg: "\<exists>q q' leg view. request_leg rec (word_of_nat k) = Some leg \<and> best_quote l r (word_of_nat k) leg now (win k) q \<and>
       nth_opt expected k = Some view \<and> q_price q \<le> ef_price view \<and> q_price q \<le> leg_limit leg \<and>
       quote l3 (win k) = Some q' \<and> bare_quote q' = bare_quote (quote_set_state QuoteConsumed q) \<and>
       intent ! k = \<lparr> il_contract = leg_contract leg, il_side = leg_side leg, il_size = leg_size leg, il_maker = q_maker q,
          il_fill_price = q_price q, il_quote_expiry = q_expires_at q \<rparr>" if k: "k < ?n" for k
  proof -
    from pl k obtain s v where s: "plan ! k = Some s" "best_on_leg l (rq_legs rec ! k) now = Some (Inr s)"
      "nth_opt expected k = Some v" "sel_price s \<le> ef_price v" by (auto simp: planned_def)
    note lg = request_leg_index[OF k N(1,2)]
    have "\<not> request_state_is_terminal (rq_state rec)" using rec(2) by simp
    from best_on_leg_open[OF E(2) rec(1) this lg, of now] s(2) obtain q where
      q: "best_quote l r (word_of_nat k) (rq_legs rec ! k) now (sel_quote s) q" "sel_price s = q_price q" by auto
    then have h: "quote l (win k) = Some q" "q_request q = r" "q_leg q = word_of_nat k" "q_price q \<le> leg_limit (rq_legs rec ! k)"
      using s(1) by (simp_all add: best_quote_def on_leg_def win_def eligible_def)
    have lid: "unat (q_leg q) = k" using h(3) k N(2) leg_index[of k] by simp
    have "map_option bare_quote (quote l3 (win k)) = Some (quote_set_state QuoteConsumed (bare_quote q))"
      unfolding q3 using h lid k won_iff[of "bare_quote q" "win k"] by (simp add: accepted_quotes_def quotes_of_def)
    then obtain q' where "quote l3 (win k) = Some q'" "bare_quote q' = bare_quote (quote_set_state QuoteConsumed q)" by auto
    moreover have "intent ! k = \<lparr> il_contract = leg_contract (rq_legs rec ! k), il_side = leg_side (rq_legs rec ! k),
        il_size = leg_size (rq_legs rec ! k), il_maker = q_maker q, il_fill_price = q_price q, il_quote_expiry = q_expires_at q \<rparr>"
      using it k s(1) h(1) q(2) by (auto simp: intended_def win_def)
    ultimately show ?thesis using lg q s h(4) by (auto simp: win_def)
  qed
  have gone: "quote l3 h = None" if "quote l h = Some q" "q_request q = r" "h \<notin> win ` {..<?n}" for h q
  proof -
    have qv: "quotes_of l h = Some (bare_quote q)" using that by (simp add: quotes_of_def)
    have "requests_of l r = Some (bare_request rec)" using rec by (simp add: requests_of_def)
    from quotes_valid_leg(1)[OF E(2) this qv] that(2) have "unat (q_leg q) < ?n" by (simp add: set_leg_ids)
    then have "accepted_quotes r plan ?n (quotes_of l) h = None"
      using qv that won_iff[of "bare_quote q" h] by (auto simp: accepted_quotes_def)
    with q3[of h] show ?thesis by simp
  qed
  have rest: "map_option bare_quote (quote l3 h) = map_option bare_quote (quote l h)"
    if "\<forall>q. quote l h = Some q \<longrightarrow> q_request q \<noteq> r" for h
    unfolding q3 using that by (auto simp: accepted_quotes_def quotes_of_def split: option.split)
  have "\<exists>rec'. request l3 r = Some rec' \<and> rq_state rec' = ?st"
    using fun_cong[OF rs, of r] by (auto simp: requests_of_def) (metis bare_request_fields(3) set_state_fields(13))
  moreover have "eb_events b' = eb_events b @ es @ [SubmitIntent r (nonce_of r) (rq_requester rec) intent n_legs]"
    using emits_events[OF em] n by simp
  ultimately show ?thesis
    using rec n leg gone rest unfolding e' by (intro exI[of _ rec] exI[of _ win] exI[of _ intent] exI[of _ es]) simp
qed

section \<open>A request that has ended\<close>

lemma poll_ends:
  assumes inv: "engine_inv now e" and rec: "request (e_ledger e) r = Some rec" "rq_state rec = ReqSettling n d"
    and st: "status = TxSettled \<or> status = TxReverted" and room: "eb_headroom b (unat (rq_n_legs rec) + 1) = Inr ()"
  shows "\<exists>e' b' st. poll_settlement n status now (e, b) = (Inr (), (e', b')) \<and>
    st = (if status = TxSettled then ReqEscrowed else ReqSettlementFailed) \<and> ended r st (e_ledger e) (e_ledger e')"
  using st
proof
  assume s: "status = TxSettled"
  have "eb_headroom b 1 = Inr ()" using room by (simp add: eb_headroom_iff)
  from poll_settled[OF inv rec this] s show ?thesis by auto
next
  assume s: "status = TxReverted"
  from poll_reverted[OF inv rec room] s show ?thesis by auto
qed

lemma ended_records:
  assumes "ended r st l l'"
  shows "request l r = Some rec \<Longrightarrow> \<exists>rec'. request l' r = Some rec' \<and> rq_state rec' = st \<and> rq_claim rec' = None"
    and "\<forall>h q. quote l' h = Some q \<longrightarrow> q_request q \<noteq> r"
    and "committed_to_request l' r = {}"
    and "\<forall>h. map_option claim_of (reservation l' h) =
       (if \<exists>res. reservation l h = Some res \<and> committed_to res = Some r then None else map_option claim_of (reservation l h))"
proof -
  have q: "quotes_of l' = (\<lambda>h. case quotes_of l h of Some q \<Rightarrow> if q_request q = r then None else Some q | None \<Rightarrow> None)"
    and r: "requests_of l' = (requests_of l)(r := map_option (\<lambda>rec. request_set_state st (request_set_claim None rec)) (requests_of l r))"
    and c: "claims l' = (\<lambda>i. case claims l i of Some (g, a, m, ow, k) \<Rightarrow> if k = OnCommitted r then None else Some (g, a, m, ow, k) | None \<Rightarrow> None)"
    using assms by (auto simp: ended_def)
  show "\<exists>rec'. request l' r = Some rec' \<and> rq_state rec' = st \<and> rq_claim rec' = None" if "request l r = Some rec"
  proof -
    have "requests_of l' r = Some (request_set_state st (request_set_claim None (bare_request rec)))"
      using that by (simp add: r requests_of_def)
    then obtain rec' where "request l' r = Some rec'" "bare_request rec' = request_set_state st (request_set_claim None (bare_request rec))"
      by (auto simp: requests_of_Some)
    then show ?thesis by (metis bare_request_fields(3,5) set_claim_fields(16) set_state_fields(13,16))
  qed
  show "\<forall>h q. quote l' h = Some q \<longrightarrow> q_request q \<noteq> r"
  proof (intro allI impI)
    fix h k assume "quote l' h = Some k"
    then have "quotes_of l' h = Some (bare_quote k)" by (simp add: quotes_of_def)
    then show "q_request k \<noteq> r" by (auto simp: q split: option.splits if_splits)
  qed
  have at: "claims l' i = Some (g, a, m, ow, k) \<longleftrightarrow> claims l i = Some (g, a, m, ow, k) \<and> k \<noteq> OnCommitted r" for i g a m ow k
    by (auto simp: c split: option.splits)
  show "committed_to_request l' r = {}"
  proof -
    have False if "reservation l' h = Some res" "committed_to res = Some r" for h res
    proof -
      have "claims l' (h_index h) = Some (h_generation h, res_account res, res_amount res, res_owner_of res, OnCommitted r)"
        using that by (auto simp: claims_Some_iff reservation_Some_iff kind_fields)
      then show False by (simp add: at)
    qed
    then show ?thesis by (auto simp: committed_to_request_def)
  qed
  show "\<forall>h. map_option claim_of (reservation l' h) =
       (if \<exists>res. reservation l h = Some res \<and> committed_to res = Some r then None else map_option claim_of (reservation l h))"
  proof
    fix h
    have "(\<exists>res. reservation l h = Some res \<and> committed_to res = Some r)
        \<longleftrightarrow> (\<exists>a m ow. claims l (h_index h) = Some (h_generation h, a, m, ow, OnCommitted r))"
      by (auto simp: claims_Some_iff reservation_Some_iff kind_fields)
    then show "map_option claim_of (reservation l' h) =
       (if \<exists>res. reservation l h = Some res \<and> committed_to res = Some r then None else map_option claim_of (reservation l h))"
      unfolding claim_view c by (auto split: option.split)
  qed
qed

lemma finished_request:
  assumes inv: "market_inv cfg t None l" and rec: "request l r = Some rec" "request_state_is_terminal (rq_state rec)"
  shows "rq_claim rec = None \<and> (\<forall>h q. quote l h = Some q \<longrightarrow> q_request q \<noteq> r) \<and> committed_to_request l r = {} \<and>
    (\<forall>h res. reservation l h = Some res \<longrightarrow> res_owner_of res \<noteq> OwnerRequest r)"
proof -
  note I = market_invD[OF inv]
  have rv: "requests_of l r = Some (bare_request rec)" using rec by (simp add: requests_of_def)
  from request_ok_fields(7)[OF request_okD[OF market_okD(2)[OF I(3)] rv]] rec(2)
  have none: "rq_claim rec = None" and un: "unquoted (quotes_of l) r" by simp_all
  have no: "q_request q \<noteq> r" if "quote l h = Some q" for h q
  proof -
    have "quotes_of l h = Some (bare_quote q)" using that by (simp add: quotes_of_def)
    with un show ?thesis unfolding unquoted_def by (metis bare_quote_fields(2))
  qed
  have own: "ow \<noteq> OwnerRequest r \<and> k \<noteq> OnCommitted r" if "claims l i = Some (g, a, m, ow, k)" for i g a m ow k
  proof -
    have "claim_ok (requests_of l) (quotes_of l) a m ow k" by (rule claim_okD[OF market_okD(4)[OF I(3)] that])
    then show ?thesis using rv rec(2) un
      by (cases ow; cases k) (auto simp: claim_ok_def terminal_iff unquoted_def)
  qed
  have "res_owner_of res \<noteq> OwnerRequest r \<and> committed_to res \<noteq> Some r" if "reservation l h = Some res" for h res
  proof -
    have "claims l (h_index h) = Some (h_generation h, res_account res, res_amount res, res_owner_of res, kind_of res)"
      using that by (simp add: claims_Some_iff reservation_Some_iff)
    from own[OF this] show ?thesis by (simp flip: kind_fields)
  qed
  with none no show ?thesis by (auto simp: committed_to_request_def)
qed

text \<open>Normalisation keeps every request but for the claim that expired.\<close>

lemma normalised_same_market:
  assumes "engine_inv t e" and "t \<le> now"
  shows "same_market (e_ledger e) (e_ledger (normalised c now e))"
proof -
  have one: "engine_inv now e \<Longrightarrow> same_market (e_ledger e) (e_ledger (normalise now a e))" for a e
  proof (cases "account (e_ledger e) a")
    case None
    then show ?thesis by (simp add: normalise_def upd_ledger_def release_expired_unknown same_market_def)
  next
    case (Some b)
    assume i: "engine_inv now e"
    obtain n l' where "release_expired (e_ledger e) a now = (Inr n, l')" "same_market (e_ledger e) l'"
      by (rule release_expired_spec[OF engine_invD(3)[OF i] Some])
    then show ?thesis by (simp add: normalise_def upd_ledger_def)
  qed
  have "engine_inv now e \<Longrightarrow> same_market (e_ledger e) (e_ledger (fold (normalise now) as e))" for as
  proof (induction as arbitrary: e)
    case (Cons a as)
    from one[OF Cons.prems, of a] Cons.IH[OF normalise_inv(1)[OF Cons.prems order_refl], of a]
    show ?case by (auto simp: same_market_def)
  qed (simp add: same_market_def)
  from this[OF engine_inv_later[OF assms]] show ?thesis by (simp add: normalised_def)
qed

lemma normalised_keeps_records:
  assumes "reachable_engine t e" and "t \<le> now" and "request (e_ledger e) r = Some rec"
  shows "\<exists>rec'. request (e_ledger (normalised c now e)) r = Some rec' \<and> rq_state rec' = rq_state rec \<and>
    rq_n_legs rec' = rq_n_legs rec \<and> rq_legs rec' = rq_legs rec"
proof -
  have "map_option (request_set_claim None) (request (e_ledger (normalised c now e)) r) = Some (request_set_claim None rec)"
    using normalised_same_market[OF reachable_engine_inv[OF assms(1)] assms(2), of c] assms(3) by (simp add: same_market_def)
  then obtain rec' where "request (e_ledger (normalised c now e)) r = Some rec'" "request_set_claim None rec' = request_set_claim None rec"
    by auto
  then show ?thesis by (metis set_claim_fields(13-15))
qed

lemma normalised_keeps_quotes:
  assumes "reachable_engine t e" and "t \<le> now" and "quote (e_ledger e) h = Some q"
  shows "\<exists>q'. quote (e_ledger (normalised c now e)) h = Some q' \<and> q_maker q' = q_maker q \<and> q_request q' = q_request q \<and>
    q_leg q' = q_leg q \<and> q_price q' = q_price q \<and> q_size q' = q_size q \<and> q_expires_at q' = q_expires_at q \<and> q_state q' = q_state q"
proof -
  have "map_option (quote_set_claim None) (quote (e_ledger (normalised c now e)) h) = Some (quote_set_claim None q)"
    using normalised_same_market[OF reachable_engine_inv[OF assms(1)] assms(2), of c] assms(3) by (simp add: same_market_def)
  then obtain q' where "quote (e_ledger (normalised c now e)) h = Some q'" "quote_set_claim None q' = quote_set_claim None q"
    by auto
  then have q': "quote (e_ledger (normalised c now e)) h = Some q'" "quote_set_claim None q' = quote_set_claim None q" .
  from q'(1) arg_cong[OF q'(2), of q_maker] arg_cong[OF q'(2), of q_request] arg_cong[OF q'(2), of q_leg] arg_cong[OF q'(2), of q_price]
    arg_cong[OF q'(2), of q_size] arg_cong[OF q'(2), of q_expires_at] arg_cong[OF q'(2), of q_state]
  show ?thesis by simp
qed

section \<open>A quote that is placed\<close>

lemma standing_is_own:
  assumes inv: "market_inv cfg t None l" and rec: "request l r = Some rec" "rq_state rec = ReqOpen" "request_leg rec lid = Some leg"
    and s: "standing_quote_of l leg maker = Some standing"
  shows "k \<in> set_option standing \<longleftrightarrow> (\<exists>q. on_leg l r lid k q \<and> q_maker q = maker)"
proof -
  have nt: "\<not> request_state_is_terminal (rq_state rec)" using rec(2) by simp
  obtain hs where hs: "chain_at (max_quotes_per_leg cfg) (quote l) r lid leg hs"
    by (rule leg_of_context[OF inv rec(1) nt rec(3)])
  then have f: "standing = find (standing_in (quote l) maker) hs"
    using s standing_walk_chain[of l "leg_quotes_head leg" hs maker] by (simp add: standing_quote_of_def chain_at_def)
  have mem: "h \<in> set hs \<longleftrightarrow> (\<exists>q. on_leg l r lid h q)" for h
    using hs by (auto simp: chain_at_def quotes_at_def on_leg_def)
  have act: "q_state q = QuoteActive" if "on_leg l r lid h q" for h q
    by (rule quote_record[OF inv, of h q]) (use that rec in \<open>cases "q_state q"; auto simp: on_leg_def\<close>)+
  have one: "h = h'" if on: "on_leg l r lid h q" "on_leg l r lid h' q'" "q_maker q = q_maker q'" for h h' q q'
  proof -
    have "quotes_of l h = Some (bare_quote q)" "quotes_of l h' = Some (bare_quote q')"
      using on by (simp_all add: on_leg_def quotes_of_def)
    from unique_okD[OF market_okD(3)[OF market_invD(3)[OF inv]] this] on show ?thesis by (simp add: on_leg_def)
  qed
  have st: "standing_in (quote l) maker h \<longleftrightarrow> (\<exists>q. on_leg l r lid h q \<and> q_maker q = maker)" if "h \<in> set hs" for h
    using that mem[of h] act by (auto simp: standing_in_def on_leg_def)
  show ?thesis
  proof
    assume "k \<in> set_option standing"
    then have "k \<in> set hs" "standing_in (quote l) maker k" using f by (auto simp: find_Some_iff)
    with st show "\<exists>q. on_leg l r lid k q \<and> q_maker q = maker" by blast
  next
    assume a: "\<exists>q. on_leg l r lid k q \<and> q_maker q = maker"
    with mem st have k: "k \<in> set hs" "standing_in (quote l) maker k" by blast+
    then have "find (standing_in (quote l) maker) hs \<noteq> None" unfolding find_None_iff by blast
    then obtain k' where k': "standing = Some k'" using f by blast
    then have "k' \<in> set hs" "standing_in (quote l) maker k'" using f by (metis find_Some_iff nth_mem)+
    with st obtain q' where "on_leg l r lid k' q'" "q_maker q' = maker" by blast
    with a one k' show "k \<in> set_option standing" by auto
  qed
qed

lemma placed_quote:
  assumes inv: "engine_inv now e" and ok: "submit_quote maker r lid p sz x now (e, b) = Some (Inr (), (e', b'))"
  defines "l \<equiv> e_ledger e"
  shows "now < x \<and> e_next_arrival e' = saturating_add (e_next_arrival e) 1 \<and>
    (\<exists>h q. quote (e_ledger e') h = Some q \<and> q_maker q = maker \<and> q_request q = r \<and> q_leg q = lid \<and> q_price q = p \<and> q_size q = sz \<and>
       q_expires_at q = x \<and> q_state q = QuoteActive \<and> q_arrival q = e_next_arrival e \<and> q_claim q \<noteq> None \<and>
       (\<forall>q0. quote l h = Some q0 \<longrightarrow> on_leg l r lid h q0 \<and> q_maker q0 = maker) \<and>
       (\<forall>k. k \<noteq> h \<longrightarrow> map_option bare_quote (quote (e_ledger e') k) =
          (if \<exists>q0. on_leg l r lid k q0 \<and> q_maker q0 = maker then None else map_option bare_quote (quote l k))))"
proof -
  note E = engine_invD[OF inv, folded l_def]
  note def = submit_quote_def[of maker r lid p sz x now "(e, b)", unfolded Let_def prod.case]
  obtain leg standing m where chk: "check_quote e maker r lid p sz x now = Some (Inr (leg, standing))"
    and m: "maker_contribution (leg_size leg) p = Some m" and room: "eb_headroom b 2 = Inr ()"
    using ok by (auto simp: def split: option.splits sum.splits prod.splits)
  obtain rec where rec: "request l r = Some rec" "rq_state rec = ReqOpen" "request_leg rec lid = Some leg"
    and st: "now < x" "standing_quote_of l leg maker = Some standing"
    unfolding l_def by (rule check_quote_accepts[OF chk]) blast
  note own = standing_is_own[OF E(2) rec st(2)]
  show ?thesis
  proof (rule submit_quote_steps[OF inv chk m room])
    fix l1 h c l3 l4 es leg3
    let ?gone = "map (\<lambda>s. QuoteRejected s maker Replaced) (case standing of None \<Rightarrow> [] | Some s \<Rightarrow> [s])"
    assume s: "submit_quote maker r lid p sz x now (e, b) = Some (Inr (), (e\<lparr>e_ledger := l4, e_next_arrival := saturating_add (e_next_arrival e) 1\<rparr>,
         push_events (?gone @ es) b))"
      and ret: "retires (e_ledger e) (set_option standing) l1" and fresh: "quotes_of l1 h = None"
      and q3: "quotes_of l3 = (quotes_of l1)(h \<mapsto> quote_set_claim (Some c) (quote_new maker r lid p sz x (e_next_arrival e)))"
      and pub: "\<exists>leg3. leg_of l3 r lid = Some leg3 \<and> bare_leg leg3 = bare_leg leg \<and>
           publish_selection r lid now (l3, push_events ?gone b) = Some (l4, push_events (?gone @ es) b)"
    have e': "e' = e\<lparr>e_ledger := l4, e_next_arrival := saturating_add (e_next_arrival e) 1\<rparr>" using s ok by simp
    have "quote l4 = quote l3" using pub publish_keeps_quotes by blast
    then have q4: "map_option bare_quote (quote l4 k) =
        ((\<lambda>k. if k \<in> set_option standing then None else quotes_of l k)(h \<mapsto> quote_set_claim (Some c) (quote_new maker r lid p sz x (e_next_arrival e)))) k" for k
      using fun_cong[OF q3, of k] ret by (simp add: quotes_of_def retires_def l_def)
    from q4[of h] obtain q where q: "quote l4 h = Some q" "bare_quote q = quote_set_claim (Some c) (quote_new maker r lid p sz x (e_next_arrival e))" by auto
    from arg_cong[OF q(2), of q_maker] arg_cong[OF q(2), of q_request] arg_cong[OF q(2), of q_leg] arg_cong[OF q(2), of q_price]
      arg_cong[OF q(2), of q_size] arg_cong[OF q(2), of q_expires_at] arg_cong[OF q(2), of q_state] arg_cong[OF q(2), of q_arrival]
      arg_cong[OF q(2), of q_claim]
    have f: "q_maker q = maker" "q_request q = r" "q_leg q = lid" "q_price q = p" "q_size q = sz" "q_expires_at q = x"
      "q_state q = QuoteActive" "q_arrival q = e_next_arrival e" "q_claim q = Some c"
      by (simp_all add: quote_new_def)
    have "map_option bare_quote (quote l4 k) = (if \<exists>q0. on_leg l r lid k q0 \<and> q_maker q0 = maker then None else map_option bare_quote (quote l k))"
      if "k \<noteq> h" for k
      using q4[of k] own[of k] that by (auto simp: quotes_of_def)
    moreover have "on_leg l r lid h q0 \<and> q_maker q0 = maker" if q0: "quote l h = Some q0" for q0
    proof -
      have "quotes_of l1 h = (if h \<in> set_option standing then None else quotes_of l h)" using ret by (simp add: retires_def l_def)
      moreover have "quotes_of l h \<noteq> None" using q0 by (simp add: quotes_of_def)
      ultimately have "h \<in> set_option standing" using fresh by (simp split: if_splits)
      with own[of h] obtain q1 where "on_leg l r lid h q1" "q_maker q1 = maker" by blast
      with q0 show ?thesis by (simp add: on_leg_def)
    qed
    ultimately show ?thesis using q(1) f st(1)
      unfolding e' by (intro conjI exI[of _ h] exI[of _ q]) simp_all
  qed (use ok in auto)
qed

text \<open>A quote refused by the ledger: the maker's standing quote is gone, and only that.\<close>

lemma lost_quote:
  assumes inv: "engine_inv now e" and s: "submit_quote maker r lid p sz x now (e, b) = Some (Inl (LedgerErr err), (e', b'))"
  defines "l \<equiv> e_ledger e"
  shows "map_option bare_quote (quote (e_ledger e') k) =
      (if \<exists>q0. on_leg l r lid k q0 \<and> q_maker q0 = maker then None else map_option bare_quote (quote l k))"
    and "on_leg l r lid k q0 \<Longrightarrow> q_maker q0 = maker \<Longrightarrow> p \<le> q_price q0 \<and> eb_events b' = eb_events b @ [QuoteRejected k maker Replaced]"
proof -
  note E = engine_invD[OF inv, folded l_def]
  note def = submit_quote_def[of maker r lid p sz x now "(e, b)", unfolded Let_def prod.case]
  have "check_quote e maker r lid p sz x now \<noteq> Some (Inl (LedgerErr err))"
    by (auto simp: check_quote_def Let_def split: option.splits if_splits)
  then obtain leg standing m where chk: "check_quote e maker r lid p sz x now = Some (Inr (leg, standing))"
    and m: "maker_contribution (leg_size leg) p = Some m" and room: "eb_headroom b 2 = Inr ()"
    using s by (auto simp: def split: option.splits sum.splits prod.splits)
  obtain rec where rec: "request l r = Some rec" "rq_state rec = ReqOpen" "request_leg rec lid = Some leg"
    and st: "standing_quote_of l leg maker = Some standing"
    and better: "\<And>k. standing = Some k \<Longrightarrow> \<exists>old. quote l k = Some old \<and> p \<le> q_price old"
    unfolding l_def by (rule check_quote_accepts[OF chk]) blast
  note own = standing_is_own[OF E(2) rec st]
  let ?gone = "map (\<lambda>s. QuoteRejected s maker Replaced) (case standing of None \<Rightarrow> [] | Some s \<Rightarrow> [s])"
  obtain l1 where w: "e_ledger e' = l1" "b' = push_events ?gone b" and ret: "retires l (set_option standing) l1"
    by (rule submit_quote_steps[OF inv chk m room]) (use s in \<open>auto simp: l_def\<close>)
  show "map_option bare_quote (quote (e_ledger e') k) =
      (if \<exists>q0. on_leg l r lid k q0 \<and> q_maker q0 = maker then None else map_option bare_quote (quote l k))"
    using fun_cong[OF conjunct1[OF ret[unfolded retires_def]], of k] own[of k] by (auto simp: w(1) quotes_of_def)
  assume q0: "on_leg l r lid k q0" "q_maker q0 = maker"
  then have k: "standing = Some k" using own[of k] by (auto simp: elem_set)
  have "eb_events b' = eb_events b @ ?gone"
    unfolding w(2) by (rule push_events_fit(1)) (use room in \<open>simp add: eb_headroom_iff k\<close>)
  with better[OF k] q0(1) k show "p \<le> q_price q0 \<and> eb_events b' = eb_events b @ [QuoteRejected k maker Replaced]"
    by (auto simp: on_leg_def)
qed

end
