(* ===== verification/Engine_Demo.thy ===== *)
theory Engine_Demo
  imports Engine_Runs
begin

text \<open>
  One concrete run of the engine, evaluated once for the witnesses: two makers quote a one-leg
  request of account 0, which is then accepted and settled. On the side, the better quote that
  maker 1 cannot afford.
\<close>

definition desk_config :: config where
  "desk_config = config_default\<lparr> max_accounts := 3, max_reservations := 3, max_requests := 1,
     max_quotes := 2, max_contracts := 1, max_quotes_per_leg := 2 \<rparr>"

definition desk_opening :: "(ts \<times> command) list" where
  "desk_opening = [(10, CreditAccount 0 9000000), (10, CreditAccount 1 2600000), (10, CreditAccount 2 9000000),
     (11, RegisterContract 0 9000000),
     (12, SubmitRequest 0 5000 [\<lparr>ls_contract = 0, ls_side = SideYes, ls_size = 5, ls_limit = 600000\<rparr>] 1),
     (13, SubmitQuote 1 demo_req 0 500000 5 900)]"

definition desk_cheaper :: command where
  "desk_cheaper = SubmitQuote 2 demo_req 0 450000 6 800"

definition desk_accept :: command where
  "desk_accept = AcceptRequest demo_req [\<lparr>ef_leg = 0, ef_price = 450000\<rparr>] 1"

definition desk_poll :: command where
  "desk_poll = PollSettlement \<lparr>n_request = 0, n_generation = 0\<rparr> TxSettled"

definition desk_better :: command where
  "desk_better = SubmitQuote 1 demo_req 0 400000 5 900"

definition desk_run :: "(at_instant \<times> world \<times> world \<times> world \<times> world) option" where
  "desk_run = (case engine_new desk_config of
     Some (Inr e0) \<Rightarrow> do {
       s \<leftarrow> run_commands 64 desk_opening (0, e0);
       w1 \<leftarrow> (case engine_apply desk_cheaper 14 (snd s, eb_with_capacity 64) of Some (Inr _, w) \<Rightarrow> Some w | _ \<Rightarrow> None);
       w2 \<leftarrow> (case engine_apply desk_accept 20 (fst w1, eb_with_capacity 64) of Some (Inr _, w) \<Rightarrow> Some w | _ \<Rightarrow> None);
       w3 \<leftarrow> (case engine_apply desk_poll 30 (fst w2, eb_with_capacity 64) of Some (Inr _, w) \<Rightarrow> Some w | _ \<Rightarrow> None);
       w4 \<leftarrow> (case engine_apply desk_better 15 (fst w1, eb_with_capacity 64) of Some (Inl (LedgerErr InsufficientFree), w) \<Rightarrow> Some w | _ \<Rightarrow> None);
       Some (s, w1, w2, w3, w4) }
   | _ \<Rightarrow> None)"

abbreviation quote0 :: quote_idx where "quote0 \<equiv> \<lparr>h_index = 0, h_generation = 0\<rparr>"
abbreviation quote1 :: quote_idx where "quote1 \<equiv> \<lparr>h_index = 1, h_generation = 0\<rparr>"

definition summary :: "quote \<Rightarrow> account_idx \<times> req_idx \<times> leg_id \<times> price \<times> size \<times> ts \<times> quote_state" where
  "summary q = (q_maker q, q_request q, q_leg q, q_price q, q_size q, q_expires_at q, q_state q)"

lemma desk_facts:
  "(case desk_run of
      None \<Rightarrow> False
    | Some ((t, e0), (e1, b1), (e2, b2), (e3, b3), (e4, b4)) \<Rightarrow>
        t = 13 \<and>
        map_option summary (quote (e_ledger e1) quote0) = Some (1, demo_req, 0, 500000, 5, 900, QuoteActive) \<and>
        map_option summary (quote (e_ledger e1) quote1) = Some (2, demo_req, 0, 450000, 6, 800, QuoteActive) \<and>
        map fst (slab_iter (l_quotes (e_ledger e1))) = [quote0, quote1] \<and>
        map_option (\<lambda>r. (rq_state r, rq_n_legs r, map_option leg_published (request_leg r 0))) (request (e_ledger e1) demo_req)
          = Some (ReqOpen, 1, Some (Some 450000)) \<and>
        map_option (\<lambda>r. (rq_state r, rq_n_legs r)) (request (e_ledger e2) demo_req)
          = Some (ReqSettling \<lparr>n_request = 0, n_generation = 0\<rparr> 60020, 1) \<and>
        map_option summary (quote (e_ledger e2) quote1) = Some (2, demo_req, 0, 450000, 6, 800, QuoteConsumed) \<and>
        claim_summary (e_ledger e2) = [(0, 0, 2250000, True), (2, 2, 2750000, True)] \<and>
        map_option rq_state (request (e_ledger e3) demo_req) = Some ReqEscrowed \<and>
        quote (e_ledger e4) quote0 = None)"
  unfolding desk_run_def by code_simp

definition desk_first :: engine where "desk_first = snd (fst (the desk_run))"
definition desk_open :: engine where "desk_open = fst (fst (snd (the desk_run)))"
definition desk_settling :: engine where "desk_settling = fst (fst (snd (snd (the desk_run))))"
definition desk_escrowed :: engine where "desk_escrowed = fst (fst (snd (snd (snd (the desk_run)))))"

lemma desk_split:
  obtains t b1 b2 b3 e4 b4 where "desk_run = Some ((t, desk_first), (desk_open, b1), (desk_settling, b2), (desk_escrowed, b3), (e4, b4))"
proof (cases desk_run)
  case None
  with desk_facts show thesis by simp
next
  case (Some x)
  obtain t e0 e1 b1 e2 b2 e3 b3 e4 b4 where x: "x = ((t, e0), (e1, b1), (e2, b2), (e3, b3), (e4, b4))" by (metis prod.exhaust)
  show thesis by (rule that[of t b1 b2 b3 e4 b4]) (simp add: desk_first_def desk_open_def desk_settling_def desk_escrowed_def Some x)
qed

lemma desk_steps:
  obtains b1 b2 b3 e4 b4 where "reachable_engine 13 desk_first"
    and "engine_apply desk_cheaper 14 (desk_first, eb_with_capacity 64) = Some (Inr (), (desk_open, b1))"
    and "engine_apply desk_accept 20 (desk_open, eb_with_capacity 64) = Some (Inr (), (desk_settling, b2))"
    and "engine_apply desk_poll 30 (desk_settling, eb_with_capacity 64) = Some (Inr (), (desk_escrowed, b3))"
    and "engine_apply desk_better 15 (desk_open, eb_with_capacity 64) = Some (Inl (LedgerErr InsufficientFree), (e4, b4))"
    and "quote (e_ledger e4) quote0 = None"
proof -
  obtain t b1 b2 b3 e4 b4 where run: "desk_run = Some ((t, desk_first), (desk_open, b1), (desk_settling, b2), (desk_escrowed, b3), (e4, b4))"
    by (rule desk_split)
  note F = desk_facts[unfolded run option.case prod.case]
  from run[unfolded desk_run_def] obtain e0 where e0: "engine_new desk_config = Some (Inr e0)"
    and r: "run_commands 64 desk_opening (0, e0) = Some (t, desk_first)"
    and s: "engine_apply desk_cheaper 14 (desk_first, eb_with_capacity 64) = Some (Inr (), (desk_open, b1))"
      "engine_apply desk_accept 20 (desk_open, eb_with_capacity 64) = Some (Inr (), (desk_settling, b2))"
      "engine_apply desk_poll 30 (desk_settling, eb_with_capacity 64) = Some (Inr (), (desk_escrowed, b3))"
      "engine_apply desk_better 15 (desk_open, eb_with_capacity 64) = Some (Inl (LedgerErr InsufficientFree), (e4, b4))"
    by (auto split: option.splits sum.splits Option.bind_splits prod.splits engine_error.splits ledger_error.splits)
  have "reaches engine_start engine_step (0, e0)" by (rule reaches_start) (use e0 in \<open>auto simp: engine_start_def\<close>)
  from run_reaches[OF r this] F have "reachable_engine 13 desk_first" by simp
  with s F that show thesis by blast
qed

lemma desk_reachable: "reachable_engine 14 desk_open" "reachable_engine 20 desk_settling" "reachable_engine 30 desk_escrowed"
proof -
  obtain b1 b2 b3 where s: "reachable_engine 13 desk_first"
    "engine_apply desk_cheaper 14 (desk_first, eb_with_capacity 64) = Some (Inr (), (desk_open, b1))"
    "engine_apply desk_accept 20 (desk_open, eb_with_capacity 64) = Some (Inr (), (desk_settling, b2))"
    "engine_apply desk_poll 30 (desk_settling, eb_with_capacity 64) = Some (Inr (), (desk_escrowed, b3))"
    by (rule desk_steps)
  show 1: "reachable_engine 14 desk_open" by (rule reaches_step[OF s(1) engine_applies[OF _ s(2)]]) simp
  show 2: "reachable_engine 20 desk_settling" by (rule reaches_step[OF 1 engine_applies[OF _ s(3)]]) simp
  show "reachable_engine 30 desk_escrowed" by (rule reaches_step[OF 2 engine_applies[OF _ s(4)]]) simp
qed

lemma desk_values:
  "map_option summary (quote (e_ledger desk_open) quote0) = Some (1, demo_req, 0, 500000, 5, 900, QuoteActive)"
  "map_option summary (quote (e_ledger desk_open) quote1) = Some (2, demo_req, 0, 450000, 6, 800, QuoteActive)"
  "map_option (\<lambda>r. (rq_state r, rq_n_legs r, map_option leg_published (request_leg r 0))) (request (e_ledger desk_open) demo_req)
          = Some (ReqOpen, 1, Some (Some 450000))"
  "map_option (\<lambda>r. (rq_state r, rq_n_legs r)) (request (e_ledger desk_settling) demo_req)
          = Some (ReqSettling \<lparr>n_request = 0, n_generation = 0\<rparr> 60020, 1)"
  "map_option summary (quote (e_ledger desk_settling) quote1) = Some (2, demo_req, 0, 450000, 6, 800, QuoteConsumed)"
  "claim_summary (e_ledger desk_settling) = [(0, 0, 2250000, True), (2, 2, 2750000, True)]"
  "map_option rq_state (request (e_ledger desk_escrowed) demo_req) = Some ReqEscrowed"
  "map fst (slab_iter (l_quotes (e_ledger desk_open))) = [quote0, quote1]"
proof -
  obtain t b1 b2 b3 e4 b4 where run: "desk_run = Some ((t, desk_first), (desk_open, b1), (desk_settling, b2), (desk_escrowed, b3), (e4, b4))"
    by (rule desk_split)
  note F = desk_facts[unfolded run option.case prod.case]
  show "map_option summary (quote (e_ledger desk_open) quote0) = Some (1, demo_req, 0, 500000, 5, 900, QuoteActive)"
    "map_option summary (quote (e_ledger desk_open) quote1) = Some (2, demo_req, 0, 450000, 6, 800, QuoteActive)"
    "map_option (\<lambda>r. (rq_state r, rq_n_legs r, map_option leg_published (request_leg r 0))) (request (e_ledger desk_open) demo_req)
          = Some (ReqOpen, 1, Some (Some 450000))"
    "map_option (\<lambda>r. (rq_state r, rq_n_legs r)) (request (e_ledger desk_settling) demo_req)
          = Some (ReqSettling \<lparr>n_request = 0, n_generation = 0\<rparr> 60020, 1)"
    "map_option summary (quote (e_ledger desk_settling) quote1) = Some (2, demo_req, 0, 450000, 6, 800, QuoteConsumed)"
    "claim_summary (e_ledger desk_settling) = [(0, 0, 2250000, True), (2, 2, 2750000, True)]"
    "map_option rq_state (request (e_ledger desk_escrowed) demo_req) = Some ReqEscrowed"
    "map fst (slab_iter (l_quotes (e_ledger desk_open))) = [quote0, quote1]"
    using F by blast+
qed

lemma desk_quotes_only:
  assumes "quote (e_ledger desk_open) h = Some q"
  shows "h = quote0 \<or> h = quote1"
proof -
  have "slab_wf (l_quotes (e_ledger desk_open))"
    using ledger_invD(1)[OF engine_invD(3)[OF reachable_engine_inv[OF desk_reachable(1)]]] by (simp add: slabs_wf_def)
  with assms have "h \<in> set (map fst (slab_iter (l_quotes (e_ledger desk_open))))"
    by (force simp: set_slab_iter quote_def)
  then show ?thesis by (simp add: desk_values(8))
qed

end
