(* ===== verification/Engine_Claims.thy ===== *)
theory Engine_Claims
  imports Engine_Props Engine_Demo
begin

text \<open>
  The properties of the engine (\<open>crates/core/src/engine.rs\<close>), each over every reachable engine: a
  validated configuration, then any commands at instants that never go back. Every witness is taken
  from the run of \<open>Engine_Demo\<close>.
\<close>

section \<open>Every command returns\<close>

text \<open>
  C1. Totality of \<open>Engine::apply\<close>. On every reachable engine, every command at an instant no earlier
  than the last one returns (no walk of a leg chain or of a claim chain loops, and no access panics),
  the configuration is unchanged, the engine it leaves is reachable again, and no push of an event finds
  the buffer full: the count of refused pushes stands where it stood, for a buffer of any room and any
  contents, so the events emitted are exactly what the buffer has gained.
\<close>

theorem engine_apply_total:
  assumes "reachable_engine t e" and "t \<le> now"
  shows "\<exists>res e' b' es. engine_apply c now (e, b) = Some (res, (e', b')) \<and> reachable_engine now e' \<and>
    e_config e' = e_config e \<and> eb_dropped b' = eb_dropped b \<and> b' = push_events es b \<and>
    eb_events b' = eb_events b @ es"
proof -
  from engine_apply_handled[OF reachable_engine_inv[OF assms(1)] assms(2), of c b] obtain res e' b' es where
    a: "engine_apply c now (e, b) = Some (res, (e', b'))" "e_config e' = e_config e" "emits b es b'" by blast
  have "reachable_engine now e'" by (rule reaches_step[OF assms(1) engine_applies[OF assms(2) a(1)]])
  with a emits_events[OF a(3)] emits_dropped[OF a(3)] show ?thesis unfolding emits_def by blast
qed

theorem engine_apply_total_witness:
  "\<exists>e' b'. engine_apply desk_accept 20 (desk_open, eb_with_capacity 64) = Some (Inr (), (e', b')) \<and> reachable_engine 20 e'"
proof -
  obtain b2 where s: "engine_apply desk_accept 20 (desk_open, eb_with_capacity 64) = Some (Inr (), (desk_settling, b2))"
    by (rule desk_steps)
  from engine_apply_total[OF desk_reachable(1), of 20 desk_accept "eb_with_capacity 64"] s show ?thesis by fastforce
qed

section \<open>What backs a quote\<close>

text \<open>
  C6. Every quote is backed. In every reachable engine each stored quote names a request and a leg that
  exist, offers at least the leg's size, and either holds a claim of its own maker for exactly
  \<open>leg size * (UNIT - price)\<close>, which expires with the quote while it is active and is committed to its
  request once it is consumed, or is an expired active quote whose claim has been reclaimed. The
  request of an active quote is open, and that of a consumed one is settling.
\<close>

theorem quotes_are_backed:
  assumes "reachable_engine t e" and "quote (e_ledger e) h = Some q"
  shows "\<exists>rec leg. request (e_ledger e) (q_request q) = Some rec \<and> request_leg rec (q_leg q) = Some leg \<and>
    leg_size leg \<le> q_size q \<and> q_price q \<le> UNIT \<and> q_state q \<noteq> QuoteReleased \<and>
    (q_state q = QuoteActive \<longrightarrow> rq_state rec = ReqOpen) \<and>
    (q_state q = QuoteConsumed \<longrightarrow> is_settling (rq_state rec)) \<and>
    backed t (e_ledger e) h q (leg_size leg)"
  by (rule quote_record[OF engine_invD(2)[OF reachable_engine_inv[OF assms(1)]] assms(2)]) blast

theorem quotes_are_backed_witness:
  "\<exists>q rec leg. quote (e_ledger desk_open) quote0 = Some q \<and> request (e_ledger desk_open) demo_req = Some rec \<and>
     request_leg rec 0 = Some leg \<and> backed 14 (e_ledger desk_open) quote0 q (leg_size leg)"
proof -
  obtain q where q: "quote (e_ledger desk_open) quote0 = Some q" "q_request q = demo_req" "q_leg q = 0"
    using desk_values(1) by (auto simp: summary_def)
  with quotes_are_backed[OF desk_reachable(1) q(1)] show ?thesis by auto
qed

text \<open>
  C16. A maker stands once. In every reachable engine a maker has at most one quote on a leg of a request,
  so no maker's capital is claimed twice for the same leg, and a consumed quote is the only quote left
  on its leg.
\<close>

theorem one_quote_per_maker_and_leg:
  assumes "reachable_engine t e" and "on_leg (e_ledger e) r lid h q" and "on_leg (e_ledger e) r lid h' q'"
    and "q_maker q = q_maker q' \<or> q_state q = QuoteConsumed"
  shows "h = h'"
proof -
  note U = market_okD(3)[OF market_invD(3)[OF engine_invD(2)[OF reachable_engine_inv[OF assms(1)]]]]
  have "quotes_of (e_ledger e) h = Some (bare_quote q)" "quotes_of (e_ledger e) h' = Some (bare_quote q')"
    using assms(2,3) by (simp_all add: on_leg_def quotes_of_def)
  from unique_okD[OF U this] assms(2-4) show ?thesis by (simp add: on_leg_def)
qed

theorem one_quote_per_maker_and_leg_witness:
  "\<exists>q. on_leg (e_ledger desk_settling) demo_req 0 quote1 q \<and>
     (\<forall>h' q'. on_leg (e_ledger desk_settling) demo_req 0 h' q' \<longrightarrow> h' = quote1)"
proof -
  obtain q where q: "on_leg (e_ledger desk_settling) demo_req 0 quote1 q" "q_state q = QuoteConsumed"
    using desk_values(5) by (auto simp: summary_def on_leg_def)
  with one_quote_per_maker_and_leg[OF desk_reachable(2) q(1)] show ?thesis by blast
qed

section \<open>Selection\<close>

text \<open>
  Selection is exact. On a leg of an open request of a reachable engine, \<open>best_on_leg\<close> returns; if it
  selects a quote, that quote is stored on this leg, live, large enough and within the limit, the
  selection carries its price, and no such quote is cheaper or equally cheap and earlier; if it
  refuses, no quote of the leg is eligible and the reason is the right one: no quote at all, none
  live, or none within the limit (a quote too small for the leg is never stored).
\<close>

theorem best_on_leg_is_best:
  assumes "reachable_engine t e" and "request (e_ledger e) r = Some rec" and "rq_state rec = ReqOpen"
    and "request_leg rec lid = Some leg"
  shows "\<exists>res. best_on_leg (e_ledger e) leg now = Some res \<and>
    (case res of
       Inr b \<Rightarrow> \<exists>q. best_quote (e_ledger e) r lid leg now (sel_quote b) q \<and> sel_price b = q_price q
     | Inl why \<Rightarrow> (\<forall>h q. on_leg (e_ledger e) r lid h q \<longrightarrow> \<not> eligible leg now q) \<and>
         why = (if \<forall>h q. \<not> on_leg (e_ledger e) r lid h q then NoQuotes
                else if \<forall>h q. on_leg (e_ledger e) r lid h q \<longrightarrow> \<not> quote_is_live_at q now then AllExpired
                else OutsideLimit))"
  by (rule best_on_leg_open[OF engine_invD(2)[OF reachable_engine_inv[OF assms(1)]] assms(2) _ assms(4)]) (simp add: assms(3))

theorem best_on_leg_is_best_witness:
  "\<exists>rec leg why. request (e_ledger desk_open) demo_req = Some rec \<and> request_leg rec 0 = Some leg \<and>
     best_on_leg (e_ledger desk_open) leg 900 = Some (Inl why) \<and> why = AllExpired"
proof -
  let ?l = "e_ledger desk_open"
  obtain rec leg where rec: "request ?l demo_req = Some rec" "rq_state rec = ReqOpen" "request_leg rec 0 = Some leg"
    using desk_values(3) by auto
  obtain q0 q1 where q: "quote ?l quote0 = Some q0" "summary q0 = (1, demo_req, 0, 500000, 5, 900, QuoteActive)"
    "quote ?l quote1 = Some q1" "summary q1 = (2, demo_req, 0, 450000, 6, 800, QuoteActive)"
    using desk_values(1,2) by auto
  obtain res where res: "best_on_leg ?l leg 900 = Some res"
    "case res of
       Inr b \<Rightarrow> \<exists>q. best_quote ?l demo_req 0 leg 900 (sel_quote b) q \<and> sel_price b = q_price q
     | Inl why \<Rightarrow> (\<forall>h q. on_leg ?l demo_req 0 h q \<longrightarrow> \<not> eligible leg 900 q) \<and>
         why = (if \<forall>h q. \<not> on_leg ?l demo_req 0 h q then NoQuotes
                else if \<forall>h q. on_leg ?l demo_req 0 h q \<longrightarrow> \<not> quote_is_live_at q 900 then AllExpired
                else OutsideLimit)"
    using best_on_leg_is_best[OF desk_reachable(1) rec, of 900] by blast
  have dead: "\<not> quote_is_live_at q 900" if "on_leg ?l demo_req 0 h q" for h q
    using that desk_quotes_only[of h q] q by (auto simp: on_leg_def summary_def quote_is_live_at_def)
  have "on_leg ?l demo_req 0 quote0 q0" using q by (simp add: on_leg_def summary_def)
  with res rec dead show ?thesis by (cases res) (auto simp: best_quote_def eligible_def)
qed

section \<open>Acceptance\<close>

text \<open>
  C5. A successful \<open>AcceptRequest\<close> takes the best quote of every leg, all of them or none. Where the
  engine accepts the command, the request was open and before its deadline with that many legs; each
  leg has a winner, the best eligible quote at that instant, whose price is within the price the
  requester expected of that leg and within its limit; afterwards exactly the winners are left of the
  request's quotes, consumed and otherwise unchanged, the quotes of other requests are as they were,
  the request is settling under its own nonce with the deadline \<open>now + max_settling_time\<close>, and the
  last event is the submit intent, which names for each leg the contract, side and size of the leg,
  and the maker, the price and the expiry of the winner.
\<close>

theorem accept_takes_the_best_quotes:
  assumes "reachable_engine t e" and "t \<le> now"
    and "engine_apply (AcceptRequest r expected n_legs) now (e, b) = Some (Inr (), (e', b'))"
  defines "l \<equiv> e_ledger (normalised (AcceptRequest r expected n_legs) now e)"
  shows "\<exists>rec win intent es. request l r = Some rec \<and> rq_state rec = ReqOpen \<and> now < rq_deadline rec \<and> n_legs = rq_n_legs rec \<and>
    (\<forall>k < unat n_legs. \<exists>q q' leg view. request_leg rec (word_of_nat k) = Some leg \<and> best_quote l r (word_of_nat k) leg now (win k) q \<and>
       nth_opt expected k = Some view \<and> q_price q \<le> ef_price view \<and> q_price q \<le> leg_limit leg \<and>
       quote (e_ledger e') (win k) = Some q' \<and> bare_quote q' = bare_quote (quote_set_state QuoteConsumed q) \<and>
       intent ! k = \<lparr> il_contract = leg_contract leg, il_side = leg_side leg, il_size = leg_size leg, il_maker = q_maker q,
          il_fill_price = q_price q, il_quote_expiry = q_expires_at q \<rparr>) \<and>
    (\<forall>h q. quote l h = Some q \<longrightarrow> q_request q = r \<longrightarrow> h \<notin> win ` {..<unat n_legs} \<longrightarrow> quote (e_ledger e') h = None) \<and>
    (\<forall>h. (\<forall>q. quote l h = Some q \<longrightarrow> q_request q \<noteq> r) \<longrightarrow>
       map_option bare_quote (quote (e_ledger e') h) = map_option bare_quote (quote l h)) \<and>
    (\<exists>rec'. request (e_ledger e') r = Some rec' \<and>
       rq_state rec' = ReqSettling (nonce_of r) (ts_saturating_add now (max_settling_time (e_config e)))) \<and>
    eb_events b' = eb_events b @ es @ [SubmitIntent r (nonce_of r) (rq_requester rec) intent n_legs]"
proof -
  note cfg = normalised_inv(2)[OF reachable_engine_inv[OF assms(1)] assms(2)]
  have "accept_request r expected n_legs now (normalised (AcceptRequest r expected n_legs) now e, b) = Some (Inr (), (e', b'))"
    using assms(3) by (simp add: engine_apply_def dispatch_def)
  from accepted_over_records[OF reachable_normalised[OF assms(1,2)] this] show ?thesis unfolding l_def cfg .
qed

theorem accept_takes_the_best_quotes_witness:
  "\<exists>rec win q q' b2. engine_apply desk_accept 20 (desk_open, eb_with_capacity 64) = Some (Inr (), (desk_settling, b2)) \<and>
     request (e_ledger (normalised desk_accept 20 desk_open)) demo_req = Some rec \<and>
     quote (e_ledger (normalised desk_accept 20 desk_open)) (win 0) = Some q \<and> q_price q \<le> 450000 \<and>
     quote (e_ledger desk_settling) (win (0::nat)) = Some q' \<and> q_state q' = QuoteConsumed"
proof -
  obtain b2 where s: "engine_apply desk_accept 20 (desk_open, eb_with_capacity 64) = Some (Inr (), (desk_settling, b2))"
    by (rule desk_steps)
  have "(14 :: ts) \<le> 20" by simp
  note A = accept_takes_the_best_quotes[OF desk_reachable(1) this s[unfolded desk_accept_def], folded desk_accept_def]
  let ?l = "e_ledger (normalised desk_accept 20 desk_open)"
  from A obtain rec win intent where rec: "request ?l demo_req = Some rec"
    and legs: "\<forall>k < unat (1::u8). \<exists>q q' leg view. request_leg rec (word_of_nat k) = Some leg \<and>
       best_quote ?l demo_req (word_of_nat k) leg 20 (win k) q \<and>
       nth_opt [\<lparr>ef_leg = 0, ef_price = 450000\<rparr>] k = Some view \<and> q_price q \<le> ef_price view \<and> q_price q \<le> leg_limit leg \<and>
       quote (e_ledger desk_settling) (win k) = Some q' \<and> bare_quote q' = bare_quote (quote_set_state QuoteConsumed q) \<and>
       intent ! k = \<lparr> il_contract = leg_contract leg, il_side = leg_side leg, il_size = leg_size leg, il_maker = q_maker q,
          il_fill_price = q_price q, il_quote_expiry = q_expires_at q \<rparr>"
    by (elim exE conjE) (rule that, assumption+)
  have "0 < unat (1::u8)" by simp
  from legs[rule_format, OF this] obtain q q' where q: "quote ?l (win 0) = Some q" "q_price q \<le> 450000"
    "quote (e_ledger desk_settling) (win 0) = Some q'" "bare_quote q' = bare_quote (quote_set_state QuoteConsumed q)"
    by (auto simp: best_quote_def on_leg_def nth_opt_def)
  from q(4) have "q_state q' = QuoteConsumed" by (metis bare_quote_fields(8) set_state_fields(7))
  with s rec q show ?thesis by blast
qed

section \<open>Settlement\<close>

text \<open>
  C2. A settling request holds exactly its notional. In every reachable engine a settling request has one
  consumed quote per leg, each backed by a claim of its maker for \<open>size * (UNIT - price)\<close> committed to
  the request; the requester's claim, committed to the request, is the sum over the legs of
  \<open>size * price\<close> at those prices; and all the claims committed to the request sum to
  \<open>UNIT\<close> times the sizes of its legs: the capital to escrow is there, once, and no more than that.
\<close>

theorem settling_capital_is_notional:
  assumes "reachable_engine t e" and "request (e_ledger e) r = Some rec" and "rq_state rec = ReqSettling n d"
  shows "\<exists>win. (\<forall>k < unat (rq_n_legs rec). \<exists>q. quote (e_ledger e) (win k) = Some q \<and> q_request q = r \<and>
        q_leg q = word_of_nat k \<and> q_state q = QuoteConsumed \<and> backed t (e_ledger e) (win k) q (leg_size (rq_legs rec ! k))) \<and>
     (\<exists>c res. rq_claim rec = Some c \<and> reservation (e_ledger e) c = Some res \<and> res_account res = rq_requester rec \<and>
        committed_to res = Some r \<and>
        unat (res_amount res) = (\<Sum>k<unat (rq_n_legs rec). unat (leg_size (rq_legs rec ! k)) *
          unat (q_price (the (quote (e_ledger e) (win k)))))) \<and>
     claimed (committed_to_request (e_ledger e) r) = (\<Sum>k<unat (rq_n_legs rec). unat (leg_size (rq_legs rec ! k)) * 1000000)"
  by (rule settling_capital[OF engine_invD(2)[OF reachable_engine_inv[OF assms(1)]] assms(2,3)])

theorem settling_capital_is_notional_witness:
  "\<exists>rec. request (e_ledger desk_settling) demo_req = Some rec \<and> rq_n_legs rec = 1 \<and>
     claimed (committed_to_request (e_ledger desk_settling) demo_req) = unat (leg_size (rq_legs rec ! 0)) * 1000000"
proof -
  obtain rec d n where rec: "request (e_ledger desk_settling) demo_req = Some rec" "rq_state rec = ReqSettling n d" "rq_n_legs rec = 1"
    using desk_values(4) by auto
  with settling_capital_is_notional[OF desk_reachable(2) rec(1,2)] show ?thesis by auto
qed

text \<open>
  C13. A terminal status always ends the request. On a reachable engine with room in the buffer for one event
  per leg and one more, polling a settling request with \<open>Settled\<close> or \<open>Reverted\<close> succeeds; the request
  is then escrowed, respectively failed; it holds no claim, no quote names it, and nothing is
  committed to it any more, while every claim that was not committed to it is still there, with its
  account, amount, owner and standing.
\<close>

theorem terminal_status_ends_the_request:
  assumes "reachable_engine t e" and "t \<le> now" and "request (e_ledger (normalised (PollSettlement n status) now e)) r = Some rec"
    and "rq_state rec = ReqSettling n d" and "status = TxSettled \<or> status = TxReverted"
    and "eb_headroom b (unat (rq_n_legs rec) + 1) = Inr ()"
  defines "l \<equiv> e_ledger (normalised (PollSettlement n status) now e)"
  shows "\<exists>e' b' rec'. engine_apply (PollSettlement n status) now (e, b) = Some (Inr (), (e', b')) \<and>
    request (e_ledger e') r = Some rec' \<and>
    rq_state rec' = (if status = TxSettled then ReqEscrowed else ReqSettlementFailed) \<and> rq_claim rec' = None \<and>
    (\<forall>h q. quote (e_ledger e') h = Some q \<longrightarrow> q_request q \<noteq> r) \<and>
    committed_to_request (e_ledger e') r = {} \<and>
    (\<forall>h. map_option claim_of (reservation (e_ledger e') h) =
       (if \<exists>res. reservation l h = Some res \<and> committed_to res = Some r then None else map_option claim_of (reservation l h)))"
proof -
  note inv = reachable_normalised[OF assms(1,2), of "PollSettlement n status"]
  obtain e' b' st where e': "poll_settlement n status now (normalised (PollSettlement n status) now e, b) = (Inr (), (e', b'))"
    and st: "st = (if status = TxSettled then ReqEscrowed else ReqSettlementFailed)"
    and ended: "ended r st l (e_ledger e')"
    using poll_ends[OF inv assms(3-6)] unfolding l_def by blast
  from ended_records[OF ended, folded l_def] assms(3) have "\<exists>rec'. request (e_ledger e') r = Some rec' \<and> rq_state rec' = st \<and> rq_claim rec' = None"
    unfolding l_def by blast
  moreover have "engine_apply (PollSettlement n status) now (e, b) = Some (Inr (), (e', b'))"
    using e' by (simp add: engine_apply_def dispatch_def)
  ultimately show ?thesis using ended_records(2-4)[OF ended] st by blast
qed

theorem terminal_status_ends_the_request_witness:
  "\<exists>e' b' rec'. engine_apply desk_poll 30 (desk_settling, eb_with_capacity 64) = Some (Inr (), (e', b')) \<and>
    request (e_ledger e') demo_req = Some rec' \<and> rq_state rec' = ReqEscrowed \<and> committed_to_request (e_ledger e') demo_req = {}"
proof -
  let ?n = "\<lparr>n_request = 0, n_generation = 0\<rparr> :: nonce" and ?l = "e_ledger (normalised desk_poll 30 desk_settling)"
  obtain rec d where rec: "request (e_ledger desk_settling) demo_req = Some rec" "rq_state rec = ReqSettling ?n d" "rq_n_legs rec = 1"
    using desk_values(4) by auto
  from normalised_keeps_records[OF desk_reachable(2), of 30 demo_req rec desk_poll] rec obtain rec0 where
    r0: "request ?l demo_req = Some rec0" "rq_state rec0 = ReqSettling ?n d" "rq_n_legs rec0 = 1" by auto
  have "eb_headroom (eb_with_capacity 64) (unat (rq_n_legs rec0) + 1) = Inr ()"
    by (simp add: r0(3) eb_headroom_iff eb_with_capacity_def eb_len_def)
  from terminal_status_ends_the_request[OF desk_reachable(2) _ r0(1)[unfolded desk_poll_def] r0(2) _ this]
  show ?thesis unfolding desk_poll_def by auto
qed

text \<open>
  C19. A finished request holds nothing. In every reachable engine a request that is escrowed, rejected or
  failed has no claim, no quote names it, and no claim of the ledger belongs to it or is committed
  to it.
\<close>

theorem finished_requests_hold_nothing:
  assumes "reachable_engine t e" and "request (e_ledger e) r = Some rec" and "request_state_is_terminal (rq_state rec)"
  shows "rq_claim rec = None \<and> (\<forall>h q. quote (e_ledger e) h = Some q \<longrightarrow> q_request q \<noteq> r) \<and>
    committed_to_request (e_ledger e) r = {} \<and>
    (\<forall>h res. reservation (e_ledger e) h = Some res \<longrightarrow> res_owner_of res \<noteq> OwnerRequest r)"
  by (rule finished_request[OF engine_invD(2)[OF reachable_engine_inv[OF assms(1)]] assms(2,3)])

theorem finished_requests_hold_nothing_witness:
  "committed_to_request (e_ledger desk_escrowed) demo_req = {}"
proof -
  obtain rec where "request (e_ledger desk_escrowed) demo_req = Some rec" "rq_state rec = ReqEscrowed"
    using desk_values(7) by auto
  with finished_requests_hold_nothing[OF desk_reachable(3), of demo_req rec] show ?thesis by simp
qed

section \<open>Bounds of a request\<close>

text \<open>
  C17. Time and price bounds of a leg. In every reachable engine each leg of each request has a size above
  zero, a limit of at most \<open>UNIT\<close>, a published price within that limit, and a registered contract
  whose event date lies after the request's deadline plus the settling time; a settling request
  carries its own nonce, and the instant at which its settlement is reported as stalled lies before
  the event of any of its legs. (Reaching that instant releases nothing: a settlement reported later
  is still taken.)
\<close>

theorem deadlines_precede_the_event:
  assumes "reachable_engine t e" and "request (e_ledger e) r = Some rec" and "request_leg rec lid = Some leg"
  shows "leg_size leg \<noteq> 0 \<and> leg_limit leg \<le> UNIT \<and> (\<forall>p. leg_published leg = Some p \<longrightarrow> p \<le> leg_limit leg) \<and>
    (\<exists>c. contract_at (e_ledger e) (leg_contract leg) = Some c \<and>
       unat (rq_deadline rec) + unat (max_settling_time (e_config e)) < unat (c_event_date c) \<and>
       (\<forall>n d. rq_state rec = ReqSettling n d \<longrightarrow> n = nonce_of r \<and> d < c_event_date c))"
proof -
  note inv = engine_invD(2)[OF reachable_engine_inv[OF assms(1)]]
  have rv: "requests_of (e_ledger e) r = Some (bare_request rec)" using assms(2) by (simp add: requests_of_def)
  note F = request_ok_fields[OF request_okD[OF market_okD(2)[OF market_invD(3)[OF inv]] rv]]
  from F(4)[of lid "bare_leg leg"] assms(3) have ok: "leg_ok (e_config e) (contract_at (e_ledger e)) (rq_deadline rec) (bare_leg leg)" by simp
  with F(6) show ?thesis by (fastforce simp: leg_ok_def word_less_nat_alt)
qed

theorem deadlines_precede_the_event_witness:
  "\<exists>rec leg c. request (e_ledger desk_settling) demo_req = Some rec \<and> request_leg rec 0 = Some leg \<and>
     contract_at (e_ledger desk_settling) (leg_contract leg) = Some c \<and> 60020 < c_event_date c"
proof -
  obtain rec where rec: "request (e_ledger desk_settling) demo_req = Some rec"
    "rq_state rec = ReqSettling \<lparr>n_request = 0, n_generation = 0\<rparr> 60020"
    using desk_values(4) by auto
  obtain q where q: "quote (e_ledger desk_settling) quote1 = Some q" "q_request q = demo_req" "q_leg q = 0"
    using desk_values(5) by (auto simp: summary_def)
  obtain leg where "request_leg rec 0 = Some leg"
    using quote_record[OF engine_invD(2)[OF reachable_engine_inv[OF desk_reachable(2)]] q(1)] q rec by fastforce
  with deadlines_precede_the_event[OF desk_reachable(2) rec(1), of 0 leg] rec show ?thesis by blast
qed

section \<open>Quoting and refusing\<close>

text \<open>
  C18. A placed quote. Where a reachable engine accepts a \<open>SubmitQuote\<close>, a quote of that maker, request,
  leg, price, size and expiry is stored, active, with a claim, and with the engine's arrival number,
  which then goes up. Its handle named no quote before, or the maker's own earlier quote on the leg;
  under every other handle the quotes are as they were, but for that earlier quote, which is gone.
\<close>

theorem submitted_quote_is_placed:
  assumes "reachable_engine t e" and "t \<le> now"
    and "engine_apply (SubmitQuote maker r lid p sz x) now (e, b) = Some (Inr (), (e', b'))"
  defines "l \<equiv> e_ledger (normalised (SubmitQuote maker r lid p sz x) now e)"
  shows "now < x \<and> e_next_arrival e' = saturating_add (e_next_arrival e) 1 \<and>
    (\<exists>h q. quote (e_ledger e') h = Some q \<and> q_maker q = maker \<and> q_request q = r \<and> q_leg q = lid \<and> q_price q = p \<and> q_size q = sz \<and>
       q_expires_at q = x \<and> q_state q = QuoteActive \<and> q_arrival q = e_next_arrival e \<and> q_claim q \<noteq> None \<and>
       (\<forall>q0. quote l h = Some q0 \<longrightarrow> on_leg l r lid h q0 \<and> q_maker q0 = maker) \<and>
       (\<forall>k. k \<noteq> h \<longrightarrow> map_option bare_quote (quote (e_ledger e') k) =
          (if \<exists>q0. on_leg l r lid k q0 \<and> q_maker q0 = maker then None else map_option bare_quote (quote l k))))"
proof -
  let ?c = "SubmitQuote maker r lid p sz x"
  have "submit_quote maker r lid p sz x now (normalised ?c now e, b) = Some (Inr (), (e', b'))"
    using assms(3) by (simp add: engine_apply_def dispatch_def)
  from placed_quote[OF reachable_normalised[OF assms(1,2)] this, folded l_def] show ?thesis
    by (simp add: normalised_inv(3)[OF reachable_engine_inv[OF assms(1)] assms(2)])
qed

theorem submitted_quote_is_placed_witness:
  "\<exists>b1 h q. engine_apply desk_cheaper 14 (desk_first, eb_with_capacity 64) = Some (Inr (), (desk_open, b1)) \<and>
     quote (e_ledger desk_open) h = Some q \<and> q_price q = 450000 \<and> q_maker q = 2"
proof -
  obtain b1 where r: "reachable_engine 13 desk_first"
    and s: "engine_apply desk_cheaper 14 (desk_first, eb_with_capacity 64) = Some (Inr (), (desk_open, b1))"
    by (rule desk_steps)
  have "(13 :: ts) \<le> 14" by simp
  from submitted_quote_is_placed[OF r this s[unfolded desk_cheaper_def]] obtain h q where
    "quote (e_ledger desk_open) h = Some q" "q_price q = 450000" "q_maker q = 2" by blast
  with s show ?thesis by blast
qed

text \<open>
  C14. A refused command changes nothing, with one exception. On a reachable engine a command that is
  refused leaves the engine as normalisation left it and the buffer as it was, unless it is a
  \<open>SubmitQuote\<close> refused by the ledger itself (no capital, no free slot): then the arrival number has
  gone up and the maker's standing quote on that leg, if there was one, is gone, with its rejection as
  the only event; every other quote and every request is as it was.
\<close>

theorem refused_commands_change_nothing:
  assumes "reachable_engine t e" and "t \<le> now"
    and "engine_apply c now (e, b) = Some (Inl err, (e', b'))"
  defines "n \<equiv> normalised c now e"
  shows "e' = n \<and> b' = b \<or>
    (\<exists>maker r lid p sz x err' standing. c = SubmitQuote maker r lid p sz x \<and> err = LedgerErr err' \<and>
       (\<exists>rec leg. request (e_ledger n) r = Some rec \<and> request_leg rec lid = Some leg \<and>
          standing_quote_of (e_ledger n) leg maker = Some standing) \<and>
       e_next_arrival e' = saturating_add (e_next_arrival e) 1 \<and>
       b' = push_events (map (\<lambda>s. QuoteRejected s maker Replaced) (case standing of None \<Rightarrow> [] | Some s \<Rightarrow> [s])) b \<and>
       (\<forall>h. map_option bare_quote (quote (e_ledger e') h) =
          (if standing = Some h then None else map_option bare_quote (quote (e_ledger n) h))) \<and>
       (\<forall>h. map_option bare_request (request (e_ledger e') h) = map_option bare_request (request (e_ledger n) h)))"
proof -
  have inv: "engine_inv now n" unfolding n_def by (rule reachable_normalised[OF assms(1,2)])
  have arr: "e_next_arrival n = e_next_arrival e"
    unfolding n_def by (rule normalised_inv(3)[OF reachable_engine_inv[OF assms(1)] assms(2)])
  have "dispatch c now (n, b) = Some (Inl err, (e', b'))" using assms(3) by (simp add: engine_apply_def n_def)
  from refused_dispatch[OF inv this] consider "e' = n \<and> b' = b"
    | maker r lid p sz x where "c = SubmitQuote maker r lid p sz x" "submit_quote maker r lid p sz x now (n, b) = Some (Inl err, (e', b'))"
    by auto
  then show ?thesis
  proof cases
    case 2
    from refused_quote[OF inv 2(2)] show ?thesis
    proof (elim disjE exE conjE)
      fix rec leg standing err' l1
      assume a: "request (e_ledger n) r = Some rec" "request_leg rec lid = Some leg"
        "standing_quote_of (e_ledger n) leg maker = Some standing" "err = LedgerErr err'"
        "(e', b') = (n\<lparr>e_ledger := l1, e_next_arrival := saturating_add (e_next_arrival n) 1\<rparr>,
          push_events (map (\<lambda>s. QuoteRejected s maker Replaced) (case standing of None \<Rightarrow> [] | Some s \<Rightarrow> [s])) b)"
        and ret: "retires (e_ledger n) (set_option standing) l1"
      have v: "quotes_of l1 = (\<lambda>k. if k \<in> set_option standing then None else quotes_of (e_ledger n) k)"
        "requests_of l1 = requests_of (e_ledger n)" using ret by (simp_all add: retires_def)
      have "map_option bare_quote (quote l1 h) = (if standing = Some h then None else map_option bare_quote (quote (e_ledger n) h))"
        "map_option bare_request (request l1 h) = map_option bare_request (request (e_ledger n) h)" for h
        using fun_cong[OF v(1), of h] fun_cong[OF v(2), of h] by (auto simp: quotes_of_def requests_of_def)
      with a 2(1) arr show ?thesis by auto
    qed simp
  qed simp
qed

theorem refused_commands_change_nothing_witness:
  "\<exists>e4 b4. engine_apply desk_better 15 (desk_open, eb_with_capacity 64) = Some (Inl (LedgerErr InsufficientFree), (e4, b4)) \<and>
     (e4 = normalised desk_better 15 desk_open \<or> e_next_arrival e4 = saturating_add (e_next_arrival desk_open) 1)"
proof -
  obtain e4 b4 where s: "engine_apply desk_better 15 (desk_open, eb_with_capacity 64) = Some (Inl (LedgerErr InsufficientFree), (e4, b4))"
    by (rule desk_steps)
  have "(14 :: ts) \<le> 15" by simp
  from refused_commands_change_nothing[OF desk_reachable(1) this s] s show ?thesis by blast
qed

text \<open>
  C15. What the exception costs. Where a reachable engine refuses a \<open>SubmitQuote\<close> with an error of the
  ledger (no free capital, no free slot), a quote the maker had standing on that leg is deleted,
  although the new one was not worse than it, and its rejection is the only event; no quote of the
  maker is left on the leg, and every other quote is as it was. A better price needs more of the
  maker's capital, and the standing quote is closed before the new claim is tried.
\<close>

theorem refused_replacement_loses_the_quote:
  assumes "reachable_engine t e" and "t \<le> now"
    and "engine_apply (SubmitQuote maker r lid p sz x) now (e, b) = Some (Inl (LedgerErr err), (e', b'))"
  defines "l \<equiv> e_ledger (normalised (SubmitQuote maker r lid p sz x) now e)"
  shows "(\<forall>h q. on_leg l r lid h q \<and> q_maker q = maker \<longrightarrow>
       quote (e_ledger e') h = None \<and> p \<le> q_price q \<and> eb_events b' = eb_events b @ [QuoteRejected h maker Replaced]) \<and>
     (\<forall>h q. \<not> (on_leg (e_ledger e') r lid h q \<and> q_maker q = maker)) \<and>
     (\<forall>h. (\<forall>q. \<not> (on_leg l r lid h q \<and> q_maker q = maker)) \<longrightarrow>
       map_option bare_quote (quote (e_ledger e') h) = map_option bare_quote (quote l h))"
proof -
  let ?c = "SubmitQuote maker r lid p sz x"
  have s: "submit_quote maker r lid p sz x now (normalised ?c now e, b) = Some (Inl (LedgerErr err), (e', b'))"
    using assms(3) by (simp add: engine_apply_def dispatch_def)
  note lost = lost_quote[OF reachable_normalised[OF assms(1,2)] s, folded l_def]
  have "\<not> (on_leg (e_ledger e') r lid h q \<and> q_maker q = maker)" for h q
  proof
    assume on: "on_leg (e_ledger e') r lid h q \<and> q_maker q = maker"
    with lost(1)[of h] have "map_option bare_quote (quote l h) = Some (bare_quote q)" by (auto simp: on_leg_def split: if_splits)
    then obtain q0 where q0: "quote l h = Some q0" "bare_quote q0 = bare_quote q" by auto
    with on have "on_leg l r lid h q0 \<and> q_maker q0 = maker" by (metis bare_quote_fields(1-3) on_leg_def)
    with lost(1)[of h] on show False by (auto simp: on_leg_def)
  qed
  moreover have "quote (e_ledger e') h = None" if "on_leg l r lid h q \<and> q_maker q = maker" for h q
  proof -
    have "\<exists>q0. on_leg l r lid h q0 \<and> q_maker q0 = maker" using that by blast
    with lost(1)[of h] show ?thesis by (simp only: if_True map_option_is_None)
  qed
  moreover have "map_option bare_quote (quote (e_ledger e') h) = map_option bare_quote (quote l h)"
    if "\<forall>q. \<not> (on_leg l r lid h q \<and> q_maker q = maker)" for h
    using lost(1)[of h] that by auto
  ultimately show ?thesis using lost(2) by blast
qed

theorem refused_replacement_loses_the_quote_witness:
  "\<exists>q e4 b4. quote (e_ledger (normalised desk_better 15 desk_open)) quote0 = Some q \<and> 15 < q_expires_at q \<and> 400000 < q_price q \<and>
     engine_apply desk_better 15 (desk_open, eb_with_capacity 64) = Some (Inl (LedgerErr InsufficientFree), (e4, b4)) \<and>
     quote (e_ledger e4) quote0 = None"
proof -
  obtain e4 b4 where s: "engine_apply desk_better 15 (desk_open, eb_with_capacity 64) = Some (Inl (LedgerErr InsufficientFree), (e4, b4))"
    by (rule desk_steps)
  obtain q where q: "quote (e_ledger desk_open) quote0 = Some q" "summary q = (1, demo_req, 0, 500000, 5, 900, QuoteActive)"
    using desk_values(1) by auto
  let ?l = "e_ledger (normalised desk_better 15 desk_open)"
  have t: "(14 :: ts) \<le> 15" by simp
  obtain q0 where q0: "quote ?l quote0 = Some q0" "summary q0 = summary q"
    using normalised_keeps_quotes[OF desk_reachable(1) t q(1), of desk_better] by (auto simp: summary_def)
  then have f: "q_maker q0 = 1" "q_request q0 = demo_req" "q_leg q0 = 0" "q_price q0 = 500000" "q_expires_at q0 = 900"
    using q(2) by (simp_all add: summary_def)
  have "on_leg ?l demo_req 0 quote0 q0 \<and> q_maker q0 = 1" using q0(1) f by (simp add: on_leg_def)
  with refused_replacement_loses_the_quote[OF desk_reachable(1) t s[unfolded desk_better_def], folded desk_better_def]
  have "quote (e_ledger e4) quote0 = None" by blast
  with q0(1) f s show ?thesis by auto
qed

end
