(* ===== verification/Refinement.thy ===== *)
theory Refinement
  imports Prelude
begin

text \<open>
  The interface of a refinement: a concrete transition system with an invariant, an abstract one, and
  an abstraction function that takes every concrete start to an abstract start and every concrete step
  to an abstract step or to no step at all. The client lemmas carry reachability down and invariants
  back up.
\<close>

locale refinement = inductive_invariant cstart cstep cinv
  for cstart :: "'c \<Rightarrow> bool" and cstep :: "'c \<Rightarrow> 'c \<Rightarrow> bool" and cinv :: "'c \<Rightarrow> bool" +
  fixes astart :: "'a \<Rightarrow> bool"
    and astep :: "'a \<Rightarrow> 'a \<Rightarrow> bool"
    and abs :: "'c \<Rightarrow> 'a"
  assumes abs_start: "cstart s \<Longrightarrow> astart (abs s)"
    and abs_step: "cinv s \<Longrightarrow> cstep s t \<Longrightarrow> astep\<^sup>*\<^sup>* (abs s) (abs t)"
begin

lemma reaches_along: "astep\<^sup>*\<^sup>* a b \<Longrightarrow> reaches astart astep a \<Longrightarrow> reaches astart astep b"
  by (induction rule: rtranclp_induct) (auto intro: reaches_step)

lemma refines: "reaches cstart cstep s \<Longrightarrow> reaches astart astep (abs s)"
proof (induction rule: reaches.induct)
  case (reaches_start s)
  then show ?case by (intro reaches.reaches_start abs_start)
next
  case (reaches_step s t)
  have "cinv s" by (rule reachable_inv[OF reaches_step(1)])
  with reaches_step show ?case by (blast intro: reaches_along abs_step)
qed

lemma simulates_run: "cstep\<^sup>*\<^sup>* s t \<Longrightarrow> cinv s \<Longrightarrow> astep\<^sup>*\<^sup>* (abs s) (abs t)"
proof (induction rule: rtranclp_induct)
  case (step t u)
  have "cinv t" by (rule invariant_along[OF step(1) step.prems])
  from abs_step[OF this step(2)] step show ?case by (auto intro: rtranclp_trans)
qed simp

lemma pull_back:
  assumes "\<And>a. reaches astart astep a \<Longrightarrow> P a" and "reaches cstart cstep s"
  shows "P (abs s)"
  by (rule assms(1)[OF refines[OF assms(2)]])

end

end
