(* ===== verification/Oracle.thy ===== *)
theory Oracle
  imports Contract Refinement
begin

text \<open>
  The optimistic oracle, \<open>crates/chain/src/oracle.rs\<close>: propose, a challenge window, contestation,
  finality and an escalation authority. The instant a call samples from the oracle's clock is an
  argument. A \<open>BTreeMap\<close> is a partial function. The last parts relate the oracle to the abstract
  status machine the engine sees, and to one contract record that hears its statuses late.
\<close>

section \<open>Data\<close>

datatype oracle_error =
    AlreadyProposed
  | NothingProposed
  | WindowOpen
  | ContestedError
  | AlreadyFinal
  | NotTheEscalationAuthority

datatype proposal =
    Proposed outcome ts
  | Contested
  | ProposalFinal outcome

record oracle_state =
  or_challenge_window :: dur
  or_escalation_authority :: account_idx
  or_contracts :: "contract_idx \<rightharpoonup> proposal"

definition oracle_new :: "dur \<Rightarrow> account_idx \<Rightarrow> oracle_state" where
  "oracle_new window authority =
     \<lparr> or_challenge_window = window, or_escalation_authority = authority,
       or_contracts = Map.empty \<rparr>"

definition status_of :: "oracle_state \<Rightarrow> contract_idx \<Rightarrow> oracle_status" where
  "status_of s contract =
     (case or_contracts s contract of
        None \<Rightarrow> Silent
      | Some (Proposed _ _) \<Rightarrow> InProgress
      | Some Contested \<Rightarrow> InProgress
      | Some (ProposalFinal outcome) \<Rightarrow> Final outcome)"

definition put :: "contract_idx \<Rightarrow> proposal \<Rightarrow> oracle_state \<Rightarrow> oracle_state" where
  "put contract p s = s\<lparr> or_contracts := (or_contracts s)(contract \<mapsto> p) \<rparr>"

section \<open>Operations\<close>

definition propose :: "ts \<Rightarrow> contract_idx \<Rightarrow> outcome \<Rightarrow> oracle_state \<Rightarrow> (oracle_error + ts) \<times> oracle_state" where
  "propose now contract outcome s =
     (case or_contracts s contract of
        Some (ProposalFinal _) \<Rightarrow> (Inl AlreadyFinal, s)
      | Some (Proposed _ _) \<Rightarrow> (Inl AlreadyProposed, s)
      | Some Contested \<Rightarrow> (Inl AlreadyProposed, s)
      | None \<Rightarrow>
          (case ts_checked_add now (or_challenge_window s) of
             None \<Rightarrow> (Inl WindowOpen, s)
           | Some window_closes \<Rightarrow> (Inr window_closes, put contract (Proposed outcome window_closes) s)))"

definition contest :: "contract_idx \<Rightarrow> oracle_state \<Rightarrow> (oracle_error + unit) \<times> oracle_state" where
  "contest contract s =
     (case or_contracts s contract of
        Some (Proposed _ _) \<Rightarrow> (Inr (), put contract Contested s)
      | Some Contested \<Rightarrow> (Inr (), s)
      | Some (ProposalFinal _) \<Rightarrow> (Inl AlreadyFinal, s)
      | None \<Rightarrow> (Inl NothingProposed, s))"

definition finalise :: "ts \<Rightarrow> contract_idx \<Rightarrow> oracle_state \<Rightarrow> (oracle_error + outcome) \<times> oracle_state" where
  "finalise now contract s =
     (case or_contracts s contract of
        Some (Proposed outcome window_closes) \<Rightarrow>
          if now < window_closes then (Inl WindowOpen, s)
          else (Inr outcome, put contract (ProposalFinal outcome) s)
      | Some Contested \<Rightarrow> (Inl ContestedError, s)
      | Some (ProposalFinal _) \<Rightarrow> (Inl AlreadyFinal, s)
      | None \<Rightarrow> (Inl NothingProposed, s))"

definition escalate :: "contract_idx \<Rightarrow> outcome \<Rightarrow> account_idx \<Rightarrow> oracle_state \<Rightarrow> (oracle_error + unit) \<times> oracle_state" where
  "escalate contract outcome who s =
     (if who \<noteq> or_escalation_authority s then (Inl NotTheEscalationAuthority, s)
      else case or_contracts s contract of
          Some (ProposalFinal _) \<Rightarrow> (Inl AlreadyFinal, s)
        | _ \<Rightarrow> (Inr (), put contract (ProposalFinal outcome) s))"

section \<open>Histories of calls\<close>

text \<open>A call with the instant it sampled; a history is a list of calls, oldest first.\<close>

datatype oracle_call =
    Propose contract_idx outcome
  | Contest contract_idx
  | Finalise contract_idx
  | Escalate contract_idx outcome account_idx

fun oracle_exec :: "ts \<times> oracle_call \<Rightarrow> oracle_state \<Rightarrow> oracle_state" where
  "oracle_exec (now, Propose k out) s = snd (propose now k out s)"
| "oracle_exec (now, Contest k) s = snd (contest k s)"
| "oracle_exec (now, Finalise k) s = snd (finalise now k s)"
| "oracle_exec (now, Escalate k out who) s = snd (escalate k out who s)"

definition oracle_run :: "(ts \<times> oracle_call) list \<Rightarrow> oracle_state \<Rightarrow> oracle_state" where
  "oracle_run calls s = fold oracle_exec calls s"

lemma oracle_run_snoc [simp]: "oracle_run (calls @ [c]) s = oracle_exec c (oracle_run calls s)"
  by (simp add: oracle_run_def)

lemma put_simps [simp]:
  "or_contracts (put k p s) = (or_contracts s)(k \<mapsto> p)"
  "or_challenge_window (put k p s) = or_challenge_window s"
  "or_escalation_authority (put k p s) = or_escalation_authority s"
  by (simp_all add: put_def)

lemmas oracle_ops = propose_def contest_def finalise_def escalate_def

lemma oracle_exec_keeps [simp]:
  "or_challenge_window (oracle_exec c s) = or_challenge_window s"
  "or_escalation_authority (oracle_exec c s) = or_escalation_authority s"
  by (cases "(c, s)" rule: oracle_exec.cases; simp add: oracle_ops split: option.split proposal.split)+

lemma oracle_run_keeps [simp]:
  "or_challenge_window (oracle_run calls s) = or_challenge_window s"
  "or_escalation_authority (oracle_run calls s) = or_escalation_authority s"
  by (induction calls rule: rev_induct) (simp_all add: oracle_run_def)

text \<open>What one call can have done to one contract.\<close>

lemma oracle_exec_cases:
  assumes "or_contracts (oracle_exec c s) k = Some p"
  obtains (same) "or_contracts s k = Some p"
  | (proposed) now out w where "c = (now, Propose k out)" "ts_checked_add now (or_challenge_window s) = Some w"
      "p = Proposed out w" "or_contracts s k = None"
  | (contested) now out w where "c = (now, Contest k)" "or_contracts s k = Some (Proposed out w)" "p = Contested"
  | (finalised) now out w where "c = (now, Finalise k)" "or_contracts s k = Some (Proposed out w)" "w \<le> now"
      "p = ProposalFinal out"
  | (ruled) now out where "c = (now, Escalate k out (or_escalation_authority s))" "p = ProposalFinal out"
      "\<And>out'. or_contracts s k \<noteq> Some (ProposalFinal out')"
  using assms
  by (cases "(c, s)" rule: oracle_exec.cases)
    (auto simp: oracle_ops split: option.splits proposal.splits if_splits)

text \<open>A standing proposal was never contested since it was made.\<close>

definition proposed_in :: "dur \<Rightarrow> (ts \<times> oracle_call) list \<Rightarrow> contract_idx \<Rightarrow> outcome \<Rightarrow> ts \<Rightarrow> bool" where
  "proposed_in window calls k out w \<longleftrightarrow> (\<exists>pre mid t. calls = pre @ (t, Propose k out) # mid \<and>
     unat w = unat t + unat window \<and> (\<forall>u. (u, Contest k) \<notin> set mid))"

definition unchallenged :: "dur \<Rightarrow> (ts \<times> oracle_call) list \<Rightarrow> contract_idx \<Rightarrow> outcome \<Rightarrow> bool" where
  "unchallenged window calls k out \<longleftrightarrow> (\<exists>pre mid post t t'.
     calls = pre @ (t, Propose k out) # mid @ (t', Finalise k) # post \<and>
     unat t + unat window \<le> unat t' \<and> (\<forall>u. (u, Contest k) \<notin> set mid))"

definition ruled_by :: "account_idx \<Rightarrow> (ts \<times> oracle_call) list \<Rightarrow> contract_idx \<Rightarrow> outcome \<Rightarrow> bool" where
  "ruled_by who calls k out \<longleftrightarrow> (\<exists>now. (now, Escalate k out who) \<in> set calls)"

lemma proposed_in_snoc:
  "proposed_in win calls k out w \<Longrightarrow> \<forall>u. c \<noteq> (u, Contest k) \<Longrightarrow> proposed_in win (calls @ [c]) k out w"
  unfolding proposed_in_def by (elim exE conjE) (rule exI, rule exI, rule exI, rule conjI, simp, auto)

lemma unchallenged_snoc: "unchallenged win calls k out \<Longrightarrow> unchallenged win (calls @ [c]) k out"
  unfolding unchallenged_def by (elim exE conjE) (rule exI, rule exI, rule exI, rule exI, rule exI, rule conjI, simp, auto)

lemma ruled_by_snoc: "ruled_by who calls k out \<Longrightarrow> ruled_by who (calls @ [c]) k out"
  by (auto simp: ruled_by_def)

lemma contested_not_standing: "or_contracts (oracle_exec (u, Contest k) s) k \<noteq> Some (Proposed out w)"
  by (simp add: contest_def split: option.split proposal.split)

lemma standing_proposal:
  assumes "or_contracts s = Map.empty"
  shows "or_contracts (oracle_run calls s) k = Some (Proposed out w) \<Longrightarrow>
    proposed_in (or_challenge_window s) calls k out w"
proof (induction calls rule: rev_induct)
  case Nil
  then show ?case using assms by (simp add: oracle_run_def)
next
  case (snoc c calls)
  from snoc.prems[simplified] show ?case
  proof (cases rule: oracle_exec_cases)
    case same
    moreover have "\<forall>u. c \<noteq> (u, Contest k)" using snoc.prems contested_not_standing by auto
    ultimately show ?thesis using snoc.IH by (simp add: proposed_in_snoc)
  next
    case (proposed now out' w')
    then show ?thesis
      unfolding proposed_in_def by (intro exI[of _ calls] exI[of _ "[]"] exI[of _ now])
        (simp add: ts_checked_add_def checked_add_Some_iff)
  qed simp_all
qed

lemma final_reason:
  assumes "or_contracts s = Map.empty"
  shows "or_contracts (oracle_run calls s) k = Some (ProposalFinal out) \<Longrightarrow>
    unchallenged (or_challenge_window s) calls k out \<or> ruled_by (or_escalation_authority s) calls k out"
proof (induction calls rule: rev_induct)
  case Nil
  then show ?case using assms by (simp add: oracle_run_def)
next
  case (snoc c calls)
  from snoc.prems[simplified] show ?case
  proof (cases rule: oracle_exec_cases)
    case same
    then show ?thesis using snoc.IH unchallenged_snoc ruled_by_snoc by blast
  next
    case (finalised now out' w)
    then have c: "c = (now, Finalise k)" and "w \<le> now"
      and p: "or_contracts (oracle_run calls s) k = Some (Proposed out w)" by simp_all
    from standing_proposal[OF assms p] obtain pre mid t where
      calls: "calls = pre @ (t, Propose k out) # mid" and w: "unat w = unat t + unat (or_challenge_window s)"
      and mid: "\<forall>u. (u, Contest k) \<notin> set mid" by (auto simp: proposed_in_def)
    have "unat t + unat (or_challenge_window s) \<le> unat now"
      using \<open>w \<le> now\<close> w by (simp add: word_le_nat_alt)
    moreover have "calls @ [c] = pre @ (t, Propose k out) # mid @ (now, Finalise k) # []" by (simp add: calls c)
    ultimately show ?thesis using mid unfolding unchallenged_def by blast
  next
    case (ruled now out')
    then show ?thesis by (auto simp: ruled_by_def)
  qed simp_all
qed

section \<open>The status machine\<close>

text \<open>What the engine sees of the oracle: one status per contract, which only moves forward.\<close>

definition status_start :: "(contract_idx \<Rightarrow> oracle_status) \<Rightarrow> bool" where
  "status_start st \<longleftrightarrow> st = (\<lambda>_. Silent)"

inductive status_step :: "(contract_idx \<Rightarrow> oracle_status) \<Rightarrow> (contract_idx \<Rightarrow> oracle_status) \<Rightarrow> bool" where
  status_advances: "status_rank (st k) < status_rank next \<Longrightarrow> status_step st (st(k := next))"

lemma status_run_final: "status_step\<^sup>*\<^sup>* st st' \<Longrightarrow> st k = Final out \<Longrightarrow> st' k = Final out"
proof (induction rule: rtranclp_induct)
  case (step t u)
  from step(2) show ?case
    by (cases rule: status_step.cases) (use step in \<open>auto simp: status_rank_gt simp del: status_rank.simps\<close>)
qed simp

lemma status_run_rank: "status_step\<^sup>*\<^sup>* st st' \<Longrightarrow> status_rank (st k) \<le> status_rank (st' k)"
proof (induction rule: rtranclp_induct)
  case (step t u)
  from step(2) have "status_rank (t k) \<le> status_rank (u k)"
    by (cases rule: status_step.cases) (auto simp del: status_rank.simps)
  with step show ?case by (auto intro: order_trans)
qed simp

definition oracle_start :: "oracle_state \<Rightarrow> bool" where
  "oracle_start s \<longleftrightarrow> (\<exists>window who. s = oracle_new window who)"

inductive oracle_step :: "oracle_state \<Rightarrow> oracle_state \<Rightarrow> bool" where
  oracle_called: "oracle_step s (oracle_exec c s)"

lemma status_advance:
  assumes "s' = put k p s" and "status_rank (status_of s k) < status_rank (status_of s' k)"
  shows "status_step (status_of s) (status_of s')"
proof -
  have "status_of s' = (status_of s)(k := status_of s' k)"
    using assms(1) by (auto simp: status_of_def)
  with status_step.status_advances[where st = "status_of s", OF assms(2)] show ?thesis by simp
qed

lemma oracle_exec_forward: "status_step\<^sup>*\<^sup>* (status_of s) (status_of (oracle_exec c s))"
proof -
  have step: "status_step\<^sup>*\<^sup>* (status_of s) (status_of (put k p s))"
    if "status_rank (status_of s k) < status_rank (status_of (put k p s) k) \<or> status_of (put k p s) k = status_of s k" for k p
    using that
  proof
    assume "status_of (put k p s) k = status_of s k"
    then have "status_of (put k p s) = status_of s" by (auto simp: status_of_def fun_eq_iff)
    then show ?thesis by simp
  qed (blast intro: status_advance)
  show ?thesis
    by (cases "(c, s)" rule: oracle_exec.cases)
      (auto simp: oracle_ops status_of_def status_rank_gt simp del: status_rank.simps
        split: option.split proposal.split intro!: step)
qed

interpretation oracle_refines: refinement oracle_start oracle_step "\<lambda>_. True" status_start status_step status_of
proof unfold_locales
  fix s t
  show "oracle_start s \<Longrightarrow> status_start (status_of s)"
    by (auto simp: oracle_start_def oracle_new_def status_start_def status_of_def)
  show "oracle_step s t \<Longrightarrow> status_step\<^sup>*\<^sup>* (status_of s) (status_of t)"
    by (auto simp: oracle_exec_forward elim: oracle_step.cases)
qed simp_all

section \<open>A status heard late\<close>

text \<open>A status the oracle had, or has: not ahead of it, and never a different final outcome.\<close>

definition behind :: "oracle_status \<Rightarrow> oracle_status \<Rightarrow> bool" where
  "behind st now \<longleftrightarrow> status_rank st < status_rank now \<or> st = now"

lemma behind_trans: "behind a b \<Longrightarrow> behind b c \<Longrightarrow> behind a c"
  unfolding behind_def by (elim disjE) (auto intro: less_trans simp del: status_rank.simps)

lemma behind_run: "status_step\<^sup>*\<^sup>* st st' \<Longrightarrow> behind (st k) (st' k)"
proof (induction rule: rtranclp_induct)
  case (step t u)
  from step(2) have "behind (t k) (u k)"
    by (cases rule: status_step.cases) (auto simp: behind_def simp del: status_rank.simps)
  with step show ?case by (blast intro: behind_trans)
qed (simp add: behind_def)

lemma behind_silent: "behind Silent st"
  by (auto simp: behind_def status_rank_gt simp del: status_rank.simps)

lemma report_behind:
  "behind (c_oracle_status c) st \<Longrightarrow> behind next st \<Longrightarrow> behind (c_oracle_status (contract_report c next)) st"
  by (auto simp: contract_report_def contract_set_oracle_status_def Let_def split: oracle_status.split)

lemma deliver_current:
  assumes "behind (c_oracle_status c) st"
  shows "c_oracle_status (contract_report c st) = st"
  using assms by (auto simp: behind_def contract_report_def may_report_def contract_set_oracle_status_def Let_def
      split: oracle_status.split)

lemma outcome_cases:
  assumes "contract_wf c" and "contract_outcome c now grace = Inr out"
  shows "c_oracle_status c = Final out \<or>
    (c_oracle_status c = Silent \<and> out = OutcomeVoid \<and> unat (c_event_date c) + unat grace < unat now)"
proof (cases "c_oracle_status c")
  case (Final out')
  with assms outcome_resolved[OF Final assms(1), of now grace] show ?thesis by simp
next
  case InProgress
  with assms outcome_in_progress show ?thesis by simp
next
  case Silent
  then have "c_state c = Unresolved" using assms(1) by (cases "c_state c") (auto simp: contract_wf_def)
  with assms(2) Silent show ?thesis
    by (auto simp: contract_outcome_def ts_checked_add_def checked_add_Some_iff word_less_nat_alt
        split: option.splits if_splits)
qed

section \<open>Properties\<close>

text \<open>
  C38. A final answer always has a reason. After any history of calls on a new oracle, whatever the
  instants they sampled: a contract is final with an outcome only if that outcome was proposed, not
  contested since, and finalised at least a challenge window later, or the escalation authority
  itself ruled it; nobody else can decide, and a contest rules the first way out. Whatever is called
  afterwards, the answer stays.
\<close>

theorem final_answers_have_a_reason:
  assumes "status_of (oracle_run calls (oracle_new window authority)) k = Final out"
  shows "(unchallenged window calls k out \<or> ruled_by authority calls k out) \<and>
    (\<forall>later. status_of (oracle_run (calls @ later) (oracle_new window authority)) k = Final out)"
proof -
  let ?o = "oracle_new window authority"
  have "or_contracts (oracle_run calls ?o) k = Some (ProposalFinal out)"
    using assms by (simp add: status_of_def split: option.splits proposal.splits)
  from final_reason[OF _ this] have "unchallenged window calls k out \<or> ruled_by authority calls k out"
    by (simp add: oracle_new_def)
  moreover have "status_of (oracle_run (calls @ later) ?o) k = Final out" for later
  proof (induction later rule: rev_induct)
    case Nil
    then show ?case using assms by simp
  next
    case (snoc c later)
    then show ?case
      using status_run_final[OF oracle_exec_forward, of _ k out c] by (simp flip: append_assoc)
  qed
  ultimately show ?thesis by blast
qed

definition demo_calls :: "(ts \<times> oracle_call) list" where
  "demo_calls = [(10, Propose 1 OutcomeYes), (50, Finalise 1), (110, Finalise 1),
     (120, Propose 2 OutcomeNo), (130, Contest 2), (400, Finalise 2), (500, Escalate 2 OutcomeVoid 9)]"

theorem final_answers_have_a_reason_witness:
  "status_of (oracle_run demo_calls (oracle_new 100 9)) 2 = Final OutcomeVoid \<and>
   (unchallenged 100 demo_calls 2 OutcomeVoid \<or> ruled_by 9 demo_calls 2 OutcomeVoid)"
proof -
  have "status_of (oracle_run demo_calls (oracle_new 100 9)) 2 = Final OutcomeVoid" by code_simp
  with final_answers_have_a_reason[OF this] show ?thesis by blast
qed

text \<open>
  C39. The oracle refines the status machine the engine is built for. Every reachable oracle, seen
  through \<open>status\<close>, is a reachable state of the abstract machine in which each contract has one of
  three statuses that only move up; every call takes it there by steps of that machine; so along any
  calls the rank of a status never falls and a final status never changes.
\<close>

theorem oracle_refines_the_status_machine:
  assumes "reaches oracle_start oracle_step s"
  shows "reaches status_start status_step (status_of s) \<and>
    (\<forall>s'. oracle_step\<^sup>*\<^sup>* s s' \<longrightarrow> status_step\<^sup>*\<^sup>* (status_of s) (status_of s') \<and>
       status_rank (status_of s k) \<le> status_rank (status_of s' k) \<and>
       (\<forall>out. status_of s k = Final out \<longrightarrow> status_of s' k = Final out))"
  using oracle_refines.refines[OF assms] oracle_refines.simulates_run[of s] status_run_rank status_run_final
  by (metis (no_types, lifting))

lemma demo_oracle_reached: "reaches oracle_start oracle_step (oracle_run calls (oracle_new w a))"
proof (induction calls rule: rev_induct)
  case Nil
  then show ?case by (auto simp: oracle_run_def oracle_start_def intro: reaches_start)
next
  case (snoc c calls)
  then show ?case by (auto intro: reaches_step oracle_called)
qed

theorem oracle_refines_the_status_machine_witness:
  "reaches status_start status_step (status_of (oracle_run demo_calls (oracle_new 100 9)))"
  using oracle_refines_the_status_machine[OF demo_oracle_reached] by blast

end
