(* ===== verification/Contract_Moves.thy ===== *)
theory Contract_Moves
  imports Engine_Runs
begin

text \<open>
  What the commands of the engine do to its contract table. Two commands write to it: a registration
  fills an empty entry, and an admissible oracle report moves the status of one entry. Every other
  operation of \<open>crates/core/src/ledger.rs\<close> and handler of \<open>crates/core/src/engine.rs\<close> leaves the table
  as it is.
\<close>

section \<open>Operations of the ledger\<close>

named_theorems contracts

lemma contracts_insert_claim [contracts]: "insert_claim a m ow x l = Inr (c, l') \<Longrightarrow> l_contracts l' = l_contracts l"
  by (auto simp: insert_claim_def split: sum.splits)

lemma contracts_link_expiry [contracts]: "link_into_expiry_chain a i x l = Some l' \<Longrightarrow> l_contracts l' = l_contracts l"
  by (auto simp: link_into_expiry_chain_def split: option.splits)

lemma contracts_link_claim [contracts]: "link_claim a c x ow reserved l = Some l' \<Longrightarrow> l_contracts l' = l_contracts l"
  by (auto simp: link_claim_def split: option.splits dest: contracts)

lemma contracts_open [contracts]:
  "open_quote_reserving l q m = Some (res, l') \<Longrightarrow> l_contracts l' = l_contracts l"
  "open_request_reserving l r m = Some (res', l'') \<Longrightarrow> l_contracts l'' = l_contracts l"
  by (auto simp: open_quote_reserving_def open_request_reserving_def Let_def split: sum.splits if_splits option.splits
      dest!: contracts)

lemma contracts_cp [simp]:
  "l_contracts (cp_release c l) = l_contracts l" "l_contracts (cp_commit c r m l) = l_contracts l"
  "l_contracts (cp_close_quote q l) = l_contracts l"
  by (simp_all add: cp_release_def cp_commit_def cp_close_quote_def Let_def split: option.split)

lemma contracts_close_quotes [simp]: "l_contracts (fold cp_close_quote qs l) = l_contracts l"
  by (induction qs arbitrary: l) simp_all

lemma contracts_reclaim_loop: "l_contracts (snd (reclaim_loop a now cur n l)) = l_contracts l"
proof (induction a now cur n l rule: reclaim_loop.induct)
  case (1 a now cur n l)
  then show ?case by (subst reclaim_loop.simps) (auto simp: reclaim_def split: option.split)
qed

lemma contracts_release_expired [simp]: "l_contracts (snd (release_expired l a now)) = l_contracts l"
  using contracts_reclaim_loop[of a now]
  by (auto simp: release_expired_def Let_def split: option.split prod.split) (metis snd_conv)

lemma contracts_discharge_loop: "l_contracts (fst (discharge_loop visit cur n ls)) = l_contracts (fst ls)"
proof (induction visit cur n ls rule: discharge_loop.induct)
  case (1 visit cur n l st)
  then show ?case by (subst discharge_loop.simps) (auto simp: discharge_claim_def Let_def split: option.split)
qed

lemma contracts_discharge: "discharge_committed r visit (l, st) = x \<Longrightarrow> l_contracts (fst x) = l_contracts l"
  using contracts_discharge_loop[of visit]
  by (auto simp: discharge_committed_def Let_def split: prod.splits) (metis fst_conv)+

section \<open>Handlers of the engine\<close>

lemma contracts_legs [simp]:
  "l_contracts (leg_update r lid f l) = l_contracts l" "l_contracts (link_quote r lid q l) = l_contracts l"
  by (simp_all add: leg_update_def link_quote_def Let_def)

lemma contracts_unlink_walk: "unlink_walk r lid q cur l = Some l' \<Longrightarrow> l_contracts l' = l_contracts l"
proof (induction rule: unlink_walk.raw_induct[rotated, consumes 1])
  case (1 walk r lid q cur l l')
  then show ?case by (auto split: option.splits if_splits)
qed

lemma contracts_unlink [contracts]: "unlink_quote r lid q l = Some l' \<Longrightarrow> l_contracts l' = l_contracts l"
  by (auto simp: unlink_quote_def split: option.splits if_splits dest: contracts_unlink_walk)

lemma contracts_publish [contracts]:
  "publish_selection r lid now lb = Some lb' \<Longrightarrow> l_contracts (fst lb') = l_contracts (fst lb)"
  by (auto simp: publish_selection_def Let_def split: option.splits sum.splits if_splits)

lemma contracts_release_one [contracts]:
  "release_one r lid now why h lb = Some lb' \<Longrightarrow> l_contracts (fst lb') = l_contracts (fst lb)"
  by (auto simp: release_one_def Let_def split: option.splits dest!: contracts)

lemma contracts_fold_opt:
  assumes "\<And>x s s'. f x s = Some s' \<Longrightarrow> l_contracts (fst s') = l_contracts (fst s)"
  shows "fold_opt f xs s = Some s' \<Longrightarrow> l_contracts (fst s') = l_contracts (fst s)"
proof (induction xs arbitrary: s)
  case (Cons x xs)
  then obtain t where "f x s = Some t" "fold_opt f xs t = Some s'" by (auto simp: bind_eq_Some_conv)
  with Cons assms show ?case by metis
qed simp

lemma contracts_release_leg [contracts]:
  "release_leg r lid keep now why lb = Some lb' \<Longrightarrow> l_contracts (fst lb') = l_contracts (fst lb)"
  unfolding release_leg_def
  by (auto split: option.splits dest: contracts contracts_fold_opt[where f = "release_one r lid now why", rotated])

lemma contracts_release_legs [contracts]:
  "fold_opt (\<lambda>lid. release_leg r lid keep now why) ids lb = Some lb' \<Longrightarrow> l_contracts (fst lb') = l_contracts (fst lb)"
  by (rule contracts_fold_opt[where f = "\<lambda>lid. release_leg r lid keep now why"]) (auto dest: contracts)

lemma contracts_submit_request [contracts]:
  "submit_request a dl legs n now w = Some (res, w') \<Longrightarrow> l_contracts (e_ledger (fst w')) = l_contracts (e_ledger (fst w))"
  by (auto simp: submit_request_def Let_def split: if_splits sum.splits option.splits prod.splits dest: contracts)

lemma contracts_reject_request [contracts]:
  "reject_request r now w = Some (res, w') \<Longrightarrow> l_contracts (e_ledger (fst w')) = l_contracts (e_ledger (fst w))"
  by (auto simp: reject_request_def Let_def split: if_splits sum.splits option.splits prod.splits dest!: contracts)

lemma contracts_replace [contracts]:
  "replace_standing m r lid st lb = Some lb' \<Longrightarrow> l_contracts (fst lb') = l_contracts (fst lb)"
  by (auto simp: replace_standing_def Let_def split: option.splits dest!: contracts)

lemma contracts_submit_quote [contracts]:
  "submit_quote m r lid p sz x now w = Some (res, w') \<Longrightarrow> l_contracts (e_ledger (fst w')) = l_contracts (e_ledger (fst w))"
  by (auto simp: submit_quote_def Let_def split: sum.splits option.splits prod.splits dest!: contracts)

lemma contracts_accept_leg [contracts]:
  "accept_leg r plan now i lb = Some lb' \<Longrightarrow> l_contracts (fst lb') = l_contracts (fst lb)"
  by (auto simp: accept_leg_def commit_winner_def Let_def split: option.splits prod.splits dest!: contracts)

lemma contracts_accept_request [contracts]:
  "accept_request r exp n now w = Some (res, w') \<Longrightarrow> l_contracts (e_ledger (fst w')) = l_contracts (e_ledger (fst w))"
  by (auto simp: accept_request_def Let_def split: sum.splits option.splits prod.splits
      dest!: contracts_fold_opt[where f = "accept_leg r _ now", rotated] dest: contracts)

lemma contracts_discharged: "l_contracts (fst (discharge_committed r visit (l, st))) = l_contracts l"
  by (rule contracts_discharge[OF refl])

lemma contracts_poll: "l_contracts (e_ledger (fst (snd (poll_settlement n st now w)))) = l_contracts (e_ledger (fst w))"
proof -
  obtain e b where w: "w = (e, b)" by (cases w)
  show ?thesis
    by (auto simp: w poll_settlement_def close_consumed_quotes_def Let_def contracts_discharged dest: contracts_discharge
        split: option.split request_state.split tx_status.split prod.split)
qed

lemma contracts_settle_escrow: "fst (snd (settle_escrow x k now w)) = fst w"
  by (cases w) (simp add: settle_escrow_def Let_def split: option.split sum.split)

lemma contracts_mirror_update: "l_contracts (snd (apply_mirror_update l a v)) = l_contracts l"
  by (simp add: apply_mirror_update_def split: option.split)

lemma contracts_normalised [simp]: "contract_at (e_ledger (normalised c now e)) = contract_at (e_ledger e)"
proof -
  have "l_contracts (e_ledger (fold (normalise now) as e)) = l_contracts (e_ledger e)" for as
    by (induction as arbitrary: e) (simp_all add: normalise_def upd_ledger_def)
  from contract_at_cong[OF this] show ?thesis by (simp add: normalised_def)
qed

section \<open>Commands\<close>

text \<open>The two commands that write to the table.\<close>

lemma contract_at_register:
  "contract_at (snd (register_contract l k d)) = contract_at l \<or>
   contract_at l k = None \<and> contract_at (snd (register_contract l k d)) = (contract_at l)(k \<mapsto> contract_new d)"
  by (auto simp: register_contract_def contract_at_def fun_eq_iff split: option.split)

lemma contract_at_set_status:
  "contract_at (Ledger.set_oracle_status k st l) =
     (contract_at l)(k := map_option (contract_set_oracle_status st) (contract_at l k))"
  by (cases "get_idx (l_contracts l) k") (auto simp: Ledger.set_oracle_status_def contract_at_def fun_eq_iff)

lemma contract_at_report:
  "contract_at (e_ledger (fst (snd (report_oracle_status k st w)))) = contract_at (e_ledger (fst w)) \<or>
   (\<exists>c. contract_at (e_ledger (fst w)) k = Some c \<and> may_report c st \<and>
      contract_at (e_ledger (fst (snd (report_oracle_status k st w)))) =
        (contract_at (e_ledger (fst w)))(k \<mapsto> contract_set_oracle_status st c))"
  by (cases w) (simp add: report_oracle_status_def upd_ledger_def contract_at_set_status Let_def split: option.split)

text \<open>Everything a command can have done to the table.\<close>

lemma contract_table_cases:
  assumes run: "engine_apply c now (e, b) = Some (res, (e', b'))"
  obtains (same) "contract_at (e_ledger e') = contract_at (e_ledger e)"
  | (registered) k d where "c = RegisterContract k d" "contract_at (e_ledger e) k = None"
      "contract_at (e_ledger e') = (contract_at (e_ledger e))(k \<mapsto> contract_new d)"
  | (reported) k st r where "c = ReportOracleStatus k st" "contract_at (e_ledger e) k = Some r" "may_report r st"
      "contract_at (e_ledger e') = (contract_at (e_ledger e))(k \<mapsto> contract_set_oracle_status st r)"
proof -
  let ?w = "(normalised c now e, b)"
  have d: "dispatch c now ?w = Some (res, (e', b'))" using run by (simp add: engine_apply_def)
  have keep: thesis if "l_contracts (e_ledger e') = l_contracts (e_ledger (normalised c now e))"
    using contract_at_cong[OF that] by (simp add: same)
  show thesis
  proof (cases c)
    case (CreditAccount a v)
    with d contracts_mirror_update[of "e_ledger (fst ?w)" a v] show thesis
      by (intro keep) (auto simp: dispatch_def lift_ledger_op_def split: prod.splits)
  next
    case (RegisterContract k date)
    with d have "e_ledger e' = snd (register_contract (e_ledger (normalised c now e)) k date)"
      by (auto simp: dispatch_def lift_ledger_op_def split: prod.splits)
    with contract_at_register[of "e_ledger (normalised c now e)" k date] RegisterContract show thesis
      using same registered by auto
  next
    case (ReportOracleStatus k st)
    with d contract_at_report[of k st ?w] show thesis using same reported by (auto simp: dispatch_def)
  next
    case (PollSettlement n st)
    with d contracts_poll[of n st now ?w] show thesis by (intro keep) (simp add: dispatch_def)
  next
    case (SettleEscrow x k)
    with d contracts_settle_escrow[of x k now ?w] show thesis by (intro keep) (simp add: dispatch_def)
  qed (use d in \<open>auto simp: dispatch_def intro!: keep dest: contracts\<close>)
qed

end
