(* ===== verification/Oracle_Engine.thy ===== *)
theory Oracle_Engine
  imports Oracle Contract_Moves
begin

text \<open>
  The oracle of \<open>crates/chain/src/oracle.rs\<close> beside the engine of \<open>crates/core/src/engine.rs\<close>. An adapter
  reads statuses off the oracle and reports what it read to the engine, late, repeatedly and in any
  order; every other command reaches the engine freely. The engine here is the whole engine, its
  commands are those of \<open>engine_apply\<close>, and the only thing assumed of the reports is that each names a
  status that was read for its contract.
\<close>

section \<open>The joint system\<close>

record oracle_beside =
  ob_oracle :: oracle_state
  ob_read :: "(contract_idx \<times> oracle_status) list"
  ob_now :: ts
  ob_engine :: engine

datatype oracle_beside_action =
    CallOracle "ts \<times> oracle_call"
  | ReadStatus contract_idx
  | Command command ts event_buffer

text \<open>A report is honest if its status was read off the oracle for its contract at some time.\<close>

fun honest :: "(contract_idx \<times> oracle_status) list \<Rightarrow> command \<Rightarrow> bool" where
  "honest seen (ReportOracleStatus k st) \<longleftrightarrow> (k, st) \<in> set seen"
| "honest seen _ \<longleftrightarrow> True"

definition beside_act :: "oracle_beside_action \<Rightarrow> oracle_beside \<Rightarrow> oracle_beside option" where
  "beside_act act d =
     (case act of
        CallOracle call \<Rightarrow> Some (d\<lparr> ob_oracle := oracle_exec call (ob_oracle d) \<rparr>)
      | ReadStatus k \<Rightarrow> Some (d\<lparr> ob_read := (k, status_of (ob_oracle d) k) # ob_read d \<rparr>)
      | Command c now b \<Rightarrow>
          if ob_now d \<le> now \<and> honest (ob_read d) c
          then map_option (\<lambda>(_, (e, _)). d\<lparr> ob_now := now, ob_engine := e \<rparr>) (engine_apply c now (ob_engine d, b))
          else None)"

definition beside_start :: "oracle_beside \<Rightarrow> bool" where
  "beside_start d \<longleftrightarrow> oracle_start (ob_oracle d) \<and> ob_read d = [] \<and> engine_start (ob_now d, ob_engine d)"

inductive beside_step :: "oracle_beside \<Rightarrow> oracle_beside \<Rightarrow> bool" where
  beside_acts: "beside_act act d = Some d' \<Longrightarrow> beside_step d d'"

text \<open>The engine's record of a contract.\<close>

definition heard :: "oracle_beside \<Rightarrow> contract_idx \<Rightarrow> contract option" where
  "heard d k = contract_at (e_ledger (ob_engine d)) k"

lemma beside_step_cases:
  assumes "beside_step d d'"
  obtains (called) call where "d' = d\<lparr> ob_oracle := oracle_exec call (ob_oracle d) \<rparr>"
  | (read) k where "d' = d\<lparr> ob_read := (k, status_of (ob_oracle d) k) # ob_read d \<rparr>"
  | (applied) c now b res e b' where "ob_now d \<le> now" "honest (ob_read d) c"
      "engine_apply c now (ob_engine d, b) = Some (res, (e, b'))" "d' = d\<lparr> ob_now := now, ob_engine := e \<rparr>"
  using assms
  by cases (auto simp: beside_act_def split: oracle_beside_action.splits if_splits)

text \<open>What one step can have done to the engine's records.\<close>

lemma heard_cases:
  assumes "beside_step d d'"
  obtains (same) "heard d' = heard d"
  | (registered) k date where "heard d k = None" "heard d' = (heard d)(k \<mapsto> contract_new date)"
  | (reported) k st r where "heard d k = Some r" "may_report r st" "(k, st) \<in> set (ob_read d)"
      "heard d' = (heard d)(k \<mapsto> contract_set_oracle_status st r)" "ob_oracle d' = ob_oracle d"
  using assms
proof (cases rule: beside_step_cases)
  case (applied c now b res e b')
  from applied(3) show thesis
  proof (cases rule: contract_table_cases)
    case same
    with applied(4) have "heard d' = heard d" by (simp add: heard_def fun_eq_iff)
    then show thesis by (rule that(1))
  next
    case (registered k date)
    with applied(4) that(2)[of k date] show thesis by (simp add: heard_def fun_eq_iff)
  next
    case (reported k st r)
    with applied(2,4) that(3)[of k r st] show thesis by (simp add: heard_def fun_eq_iff)
  qed
next
  case (called call)
  then have "heard d' = heard d" by (simp add: heard_def fun_eq_iff)
  then show thesis by (rule that(1))
next
  case (read k)
  then have "heard d' = heard d" by (simp add: heard_def fun_eq_iff)
  then show thesis by (rule that(1))
qed

section \<open>The invariant\<close>

definition beside_ok :: "oracle_beside \<Rightarrow> bool" where
  "beside_ok d \<longleftrightarrow> reachable_engine (ob_now d) (ob_engine d) \<and>
     (\<forall>(k, st) \<in> set (ob_read d). behind st (status_of (ob_oracle d) k)) \<and>
     (\<forall>k c. heard d k = Some c \<longrightarrow> contract_wf c \<and> behind (c_oracle_status c) (status_of (ob_oracle d) k))"

lemma oracle_moves_on: "beside_step d d' \<Longrightarrow> behind (status_of (ob_oracle d) k) (status_of (ob_oracle d') k)"
  by (erule beside_step_cases) (auto intro: behind_run[OF oracle_exec_forward], simp_all add: behind_def)

lemma contract_at_new: "ledger_new cfg = Some l \<Longrightarrow> contract_at l k = None"
  by (auto simp: ledger_new_def contract_at_def get_idx_def bind_eq_Some_conv)

lemma set_status_fields: "c_oracle_status (contract_set_oracle_status st c) = st"
  by (simp add: contract_set_oracle_status_def Let_def split: oracle_status.split)

lemma beside_step_ok:
  assumes ok: "beside_ok d" and step: "beside_step d d'"
  shows "beside_ok d'"
proof -
  have engine: "reachable_engine (ob_now d') (ob_engine d')" using step
  proof (cases rule: beside_step_cases)
    case (applied c now b res e b')
    have "reachable_engine (ob_now d) (ob_engine d)" using ok by (simp add: beside_ok_def)
    from reaches_step[OF this engine_applies[OF applied(1,3)]] show ?thesis by (simp add: applied(4))
  qed (use ok in \<open>simp_all add: beside_ok_def\<close>)
  have "behind st (status_of (ob_oracle d') k)" if "(k, st) \<in> set (ob_read d')" for k st
    using step
  proof (cases rule: beside_step_cases)
    case (called call)
    with ok that behind_trans[OF _ oracle_moves_on[OF step]] show ?thesis by (auto simp: beside_ok_def)
  qed (use ok that in \<open>auto simp: beside_ok_def behind_def\<close>)
  moreover have "contract_wf c \<and> behind (c_oracle_status c) (status_of (ob_oracle d') k)" if c: "heard d' k = Some c" for k c
    using step
  proof (cases rule: heard_cases)
    case same
    with ok c behind_trans[OF _ oracle_moves_on[OF step]] show ?thesis by (auto simp: beside_ok_def)
  next
    case (registered k' date)
    with ok c behind_trans[OF _ oracle_moves_on[OF step]] contract_new_wf show ?thesis
      by (auto simp: beside_ok_def behind_silent contract_new_def split: if_splits)
  next
    case (reported k' st r)
    with ok c set_oracle_status_wf show ?thesis
      by (auto simp: beside_ok_def set_status_fields split: if_splits)
  qed
  ultimately show ?thesis using engine by (auto simp: beside_ok_def)
qed

interpretation beside_system: inductive_invariant beside_start beside_step beside_ok
proof unfold_locales
  fix d assume d: "beside_start d"
  then have "heard d k = None" for k
    by (auto simp: beside_start_def engine_start_def engine_new_cases heard_def contract_at_new)
  with d show "beside_ok d" by (auto simp: beside_start_def beside_ok_def intro: reaches_start)
qed (rule beside_step_ok)

text \<open>The engine's own status of a contract only moves forward, and its event date is fixed.\<close>

lemma heard_forward:
  assumes "beside_step\<^sup>*\<^sup>* d d'" and "heard d k = Some c"
  shows "\<exists>c'. heard d' k = Some c' \<and> c_event_date c' = c_event_date c \<and> behind (c_oracle_status c) (c_oracle_status c')"
  using assms
proof (induction rule: rtranclp_induct)
  case base
  then show ?case by (simp add: behind_def)
next
  case (step d1 d2)
  then obtain c1 where c1: "heard d1 k = Some c1" "c_event_date c1 = c_event_date c"
    "behind (c_oracle_status c) (c_oracle_status c1)" by blast
  from step(2) show ?case
  proof (cases rule: heard_cases)
    case (reported k' st r)
    have "behind (c_oracle_status r) st" using reported(2) by (simp add: may_report_def behind_def)
    with c1 reported behind_trans[OF c1(3)] show ?thesis by (auto simp: set_status_fields)
  qed (use c1 in auto)
qed

section \<open>The two handlers\<close>

lemma report_status_apply:
  assumes c: "contract_at (e_ledger e) k = Some c" and room: "eb_headroom b 1 = Inr ()"
  obtains res e' b' where "engine_apply (ReportOracleStatus k st) now (e, b) = Some (res, (e', b'))"
    and "res = (if may_report c st then Inr () else Inl OracleStatusRegression)"
    and "contract_at (e_ledger e') = (contract_at (e_ledger e))(k \<mapsto> contract_report c st)"
proof -
  have "eb_headroom b 0 = Inr ()" using room by (simp add: eb_headroom_iff)
  with room have fits: "eb_headroom b (case st of Final _ \<Rightarrow> 1 | _ \<Rightarrow> 0) = Inr ()" by (simp split: oracle_status.split)
  have run: "engine_apply (ReportOracleStatus k st) now (e, b) = Some (report_oracle_status k st (e, b))"
    by (simp add: engine_apply_def dispatch_def normalised_def touched_accounts_def)
  obtain res e' b' where r: "report_oracle_status k st (e, b) = (res, (e', b'))" by (metis prod.exhaust)
  show thesis
  proof (rule that[OF run[unfolded r]])
    show "res = (if may_report c st then Inr () else Inl OracleStatusRegression)"
      using r fits by (auto simp: report_oracle_status_def c Let_def split: if_splits)
    show "contract_at (e_ledger e') = (contract_at (e_ledger e))(k \<mapsto> contract_report c st)"
      using r fits c by (auto simp: report_oracle_status_def Let_def upd_ledger_def contract_at_set_status contract_report_def
          fun_eq_iff split: if_splits)
  qed
qed

lemma settle_escrow_apply:
  "engine_apply (SettleEscrow x k) now (e, b) = Some (settle_escrow x k now (e, b))"
  by (simp add: engine_apply_def dispatch_def normalised_def touched_accounts_def)

lemma settle_escrow_accepted:
  assumes "settle_escrow x k now (e, b) = (Inr (), w)"
  obtains c out where "contract_at (e_ledger e) k = Some c" "contract_outcome c now (stall_grace (e_config e)) = Inr out"
    "fst w = e" "eb_events (snd w) = eb_events b @ [SettleIntent x k out]"
  using assms emits_events[OF emits_one]
  by (auto simp: settle_escrow_def Let_def split: option.splits sum.splits if_splits)

section \<open>Properties\<close>

text \<open>
  C40. The engine can only ever act on the oracle's answer. With the statuses read off the oracle at any
  time and reported to the engine late, repeatedly and in any order, between any other commands: the
  engine's status of a contract is one the oracle has or had; no command takes it back, so a final one
  stays; a settlement command that is accepted leaves the engine as it was and asks for exactly one
  payout, and its outcome is the oracle's final answer, or else the engine has heard nothing at all
  until after the event date plus the grace and the outcome is void; and reporting the oracle's present
  status, with room for an event, brings the engine level with the oracle.
\<close>

theorem engine_outcome_is_the_oracles:
  assumes "reaches beside_start beside_step d"
  shows "(\<forall>k c. heard d k = Some c \<longrightarrow> behind (c_oracle_status c) (status_of (ob_oracle d) k)) \<and>
    (\<forall>k c d'. heard d k = Some c \<longrightarrow> beside_step\<^sup>*\<^sup>* d d' \<longrightarrow>
       (\<exists>c'. heard d' k = Some c' \<and> c_event_date c' = c_event_date c \<and> behind (c_oracle_status c) (c_oracle_status c'))) \<and>
    (\<forall>x k now b w. engine_apply (SettleEscrow x k) now (ob_engine d, b) = Some (Inr (), w) \<longrightarrow>
       (\<exists>out. fst w = ob_engine d \<and> eb_events (snd w) = eb_events b @ [SettleIntent x k out] \<and>
          (status_of (ob_oracle d) k = Final out \<or>
           (\<exists>c. heard d k = Some c \<and> c_oracle_status c = Silent \<and> out = OutcomeVoid \<and>
              unat (c_event_date c) + unat (stall_grace (e_config (ob_engine d))) < unat now)))) \<and>
    (\<forall>k c now b. heard d k = Some c \<longrightarrow> eb_headroom b 1 = Inr () \<longrightarrow>
       (\<exists>res e' b' c'. engine_apply (ReportOracleStatus k (status_of (ob_oracle d) k)) now (ob_engine d, b) = Some (res, (e', b')) \<and>
          contract_at (e_ledger e') k = Some c' \<and> c_oracle_status c' = status_of (ob_oracle d) k))"
    (is "?behind \<and> ?forward \<and> ?settles \<and> ?level")
proof (intro conjI)
  have ok: "contract_wf c \<and> behind (c_oracle_status c) (status_of (ob_oracle d) k)" if "heard d k = Some c" for k c
    using beside_system.reachable_inv[OF assms] that by (simp add: beside_ok_def)
  then show ?behind by blast
  show ?forward using heard_forward by blast
  show ?settles
  proof (intro allI impI)
    fix x k now b w assume "engine_apply (SettleEscrow x k) now (ob_engine d, b) = Some (Inr (), w)"
    then have "settle_escrow x k now (ob_engine d, b) = (Inr (), w)" by (simp add: settle_escrow_apply)
    then obtain c out where c: "heard d k = Some c"
      and out: "contract_outcome c now (stall_grace (e_config (ob_engine d))) = Inr out"
      and w: "fst w = ob_engine d" "eb_events (snd w) = eb_events b @ [SettleIntent x k out]"
      by (rule settle_escrow_accepted) (auto simp: heard_def)
    have final: "status_of (ob_oracle d) k = Final out" if "c_oracle_status c = Final out"
      using ok[OF c] that by (auto simp: behind_def status_rank_gt simp del: status_rank.simps)
    show "\<exists>out. fst w = ob_engine d \<and> eb_events (snd w) = eb_events b @ [SettleIntent x k out] \<and>
          (status_of (ob_oracle d) k = Final out \<or>
           (\<exists>c. heard d k = Some c \<and> c_oracle_status c = Silent \<and> out = OutcomeVoid \<and>
              unat (c_event_date c) + unat (stall_grace (e_config (ob_engine d))) < unat now))"
      using outcome_cases[OF _ out] ok[OF c] final w c by blast
  qed
  show ?level
  proof (intro allI impI)
    fix k c now b assume c: "heard d k = Some c" and room: "eb_headroom b 1 = Inr ()"
    obtain res e' b' where "engine_apply (ReportOracleStatus k (status_of (ob_oracle d) k)) now (ob_engine d, b) = Some (res, (e', b'))"
      and "contract_at (e_ledger e') = (contract_at (e_ledger (ob_engine d)))(k \<mapsto> contract_report c (status_of (ob_oracle d) k))"
      by (rule report_status_apply[OF c[unfolded heard_def] room])
    with deliver_current ok[OF c]
    show "\<exists>res e' b' c'. engine_apply (ReportOracleStatus k (status_of (ob_oracle d) k)) now (ob_engine d, b) = Some (res, (e', b')) \<and>
          contract_at (e_ledger e') k = Some c' \<and> c_oracle_status c' = status_of (ob_oracle d) k" by auto
  qed
qed

text \<open>
  A run: the oracle's answer on contract 0 is read twice, in progress and final, and reported in the
  wrong order; the late report is refused and an escrow settles on the final answer.
\<close>

fun beside_run :: "oracle_beside_action list \<Rightarrow> oracle_beside \<Rightarrow> oracle_beside option" where
  "beside_run [] d = Some d"
| "beside_run (act # acts) d = Option.bind (beside_act act d) (beside_run acts)"

lemma beside_run_reaches:
  "reaches beside_start beside_step d \<Longrightarrow> beside_run acts d = Some d' \<Longrightarrow> reaches beside_start beside_step d'"
proof (induction acts arbitrary: d)
  case (Cons act acts)
  then obtain d1 where "beside_act act d = Some d1" "beside_run acts d1 = Some d'" by (auto simp: bind_eq_Some_conv)
  with Cons.IH[OF reaches_step[OF Cons.prems(1) beside_acts]] show ?case by blast
qed simp

definition beside_demo :: "oracle_beside_action list" where
  "beside_demo =
     (let b = eb_with_capacity 4 in
      [Command (RegisterContract 0 70) 5 b, CallOracle (10, Propose 0 OutcomeYes), ReadStatus 0,
       CallOracle (110, Finalise 0), ReadStatus 0,
       Command (ReportOracleStatus 0 (Final OutcomeYes)) 115 b, Command (ReportOracleStatus 0 InProgress) 116 b])"

definition beside_config :: config where
  "beside_config = config_default\<lparr> max_accounts := 3, max_reservations := 3, max_requests := 1,
     max_quotes := 2, max_contracts := 1, max_quotes_per_leg := 2 \<rparr>"

definition beside_demo_run :: "oracle_beside option" where
  "beside_demo_run =
     (case engine_new beside_config of
        Some (Inr e) \<Rightarrow> beside_run beside_demo \<lparr> ob_oracle = oracle_new 100 9, ob_read = [], ob_now = 0, ob_engine = e \<rparr>
      | _ \<Rightarrow> None)"

lemma beside_demo_facts:
  "(case beside_demo_run of
      None \<Rightarrow> False
    | Some d \<Rightarrow> status_of (ob_oracle d) 0 = Final OutcomeYes \<and> map snd (ob_read d) = [Final OutcomeYes, InProgress] \<and>
        map_option c_oracle_status (heard d 0) = Some (Final OutcomeYes) \<and>
        (case engine_apply (SettleEscrow 7 0) 120 (ob_engine d, eb_with_capacity 4) of
           Some (Inr _, w) \<Rightarrow> True | _ \<Rightarrow> False))"
  unfolding beside_demo_run_def by code_simp

theorem engine_outcome_is_the_oracles_witness:
  "\<exists>d w. reaches beside_start beside_step d \<and> map snd (ob_read d) = [Final OutcomeYes, InProgress] \<and>
     engine_apply (SettleEscrow 7 0) 120 (ob_engine d, eb_with_capacity 4) = Some (Inr (), w) \<and>
     eb_events (snd w) = eb_events (eb_with_capacity 4) @ [SettleIntent 7 0 OutcomeYes]"
proof -
  obtain d w where run: "beside_demo_run = Some d" and read: "map snd (ob_read d) = [Final OutcomeYes, InProgress]"
    and final: "status_of (ob_oracle d) 0 = Final OutcomeYes" "map_option c_oracle_status (heard d 0) = Some (Final OutcomeYes)"
    and ap: "engine_apply (SettleEscrow 7 0) 120 (ob_engine d, eb_with_capacity 4) = Some (Inr (), w)"
    using beside_demo_facts by (auto split: option.splits sum.splits prod.splits)
  from run obtain e where e: "engine_new beside_config = Some (Inr e)"
    and acts: "beside_run beside_demo \<lparr> ob_oracle = oracle_new 100 9, ob_read = [], ob_now = 0, ob_engine = e \<rparr> = Some d"
    by (auto simp: beside_demo_run_def split: option.splits sum.splits)
  have "reaches beside_start beside_step \<lparr> ob_oracle = oracle_new 100 9, ob_read = [], ob_now = 0, ob_engine = e \<rparr>"
    using e by (intro reaches_start) (auto simp: beside_start_def oracle_start_def engine_start_def)
  from beside_run_reaches[OF this acts] have d: "reaches beside_start beside_step d" .
  from engine_outcome_is_the_oracles[OF d, THEN conjunct2, THEN conjunct2, THEN conjunct1, rule_format, OF ap]
  obtain out where "eb_events (snd w) = eb_events (eb_with_capacity 4) @ [SettleIntent 7 0 out]"
    and "Final OutcomeYes = Final out \<or> (\<exists>c. heard d 0 = Some c \<and> c_oracle_status c = Silent)"
    unfolding final(1) by blast
  with final(2) have "eb_events (snd w) = eb_events (eb_with_capacity 4) @ [SettleIntent 7 0 OutcomeYes]" by auto
  with d read ap show ?thesis by (intro exI[of _ d] exI[of _ w] conjI)
qed

end
