(* ===== verification/Settlement_Bundle.thy ===== *)
theory Settlement_Bundle
  imports Market_Records Contract
begin

text \<open>
  Escrows (\<open>crates/chain/src/escrow.rs\<close>) and the settlement bundle (\<open>crates/chain/src/bundle.rs\<close>).
  The array of legs of a bundle is a list of \<open>MAX_LEGS\<close> entries of which the first \<open>n_legs\<close> are real.
\<close>

section \<open>Escrows\<close>

datatype escrow_state = EsLocked | EsSettled

record escrow =
  es_contract :: contract_idx
  es_side :: side
  es_size :: size
  es_requester :: account_idx
  es_maker :: account_idx
  es_requester_contribution :: amount
  es_maker_contribution :: amount
  es_state :: escrow_state

definition escrow_locked ::
  "contract_idx \<Rightarrow> side \<Rightarrow> size \<Rightarrow> account_idx \<Rightarrow> account_idx \<Rightarrow> amount \<Rightarrow> amount \<Rightarrow> escrow" where
  "escrow_locked contract side quantity requester maker rc mc =
     \<lparr> es_contract = contract, es_side = side, es_size = quantity, es_requester = requester,
       es_maker = maker, es_requester_contribution = rc, es_maker_contribution = mc,
       es_state = EsLocked \<rparr>"

definition escrow_notional :: "escrow \<Rightarrow> amount" where
  "escrow_notional x = saturating_add (es_requester_contribution x) (es_maker_contribution x)"

definition mark_settled :: "escrow \<Rightarrow> escrow" where
  "mark_settled x = x\<lparr> es_state := EsSettled \<rparr>"

definition escrow_is_locked :: "escrow \<Rightarrow> bool" where
  "escrow_is_locked x \<longleftrightarrow> es_state x = EsLocked"

section \<open>Bundles\<close>

record bundle_leg =
  bl_contract :: contract_idx
  bl_side :: side
  bl_size :: size
  bl_maker :: account_idx
  bl_fill_price :: price
  bl_quote_expiry :: ts

definition bundle_leg_default :: bundle_leg where
  "bundle_leg_default = \<lparr> bl_contract = 0, bl_side = SideYes, bl_size = 0, bl_maker = 0,
     bl_fill_price = 0, bl_quote_expiry = 0 \<rparr>"

definition bl_requester_contribution :: "bundle_leg \<Rightarrow> amount option" where
  "bl_requester_contribution x = requester_contribution (bl_size x) (bl_fill_price x)"

definition bl_maker_contribution :: "bundle_leg \<Rightarrow> amount option" where
  "bl_maker_contribution x = maker_contribution (bl_size x) (bl_fill_price x)"

definition bl_notional :: "bundle_leg \<Rightarrow> amount option" where
  "bl_notional x = size_checked_mul (bl_size x) UNIT"

record settlement_bundle =
  bu_nonce :: nonce
  bu_requester :: account_idx
  bu_legs :: "bundle_leg list"
  bu_n_legs :: u8

definition bundle_legs :: "settlement_bundle \<Rightarrow> bundle_leg list" where
  "bundle_legs b = (if unat (bu_n_legs b) \<le> length (bu_legs b) then take (unat (bu_n_legs b)) (bu_legs b) else [])"

section \<open>What a bundle owes\<close>

definition rc_nat :: "bundle_leg \<Rightarrow> nat" where
  "rc_nat x = unat (bl_size x) * unat (bl_fill_price x)"

definition mc_nat :: "bundle_leg \<Rightarrow> nat" where
  "mc_nat x = unat (bl_size x) * (1000000 - unat (bl_fill_price x))"

text \<open>What one leg, and a list of legs of one requester, debits an account.\<close>

definition leg_due :: "account_idx \<Rightarrow> account_idx \<Rightarrow> bundle_leg \<Rightarrow> nat" where
  "leg_due requester a x = (if bl_maker x = a then mc_nat x else 0) + (if requester = a then rc_nat x else 0)"

definition legs_due :: "account_idx \<Rightarrow> bundle_leg list \<Rightarrow> account_idx \<Rightarrow> nat" where
  "legs_due requester legs a = (\<Sum>x\<leftarrow>legs. leg_due requester a x)"

definition bundle_due :: "settlement_bundle \<Rightarrow> account_idx \<Rightarrow> nat" where
  "bundle_due b a = legs_due (bu_requester b) (bundle_legs b) a"

definition named_accounts :: "account_idx \<Rightarrow> bundle_leg list \<Rightarrow> account_idx set" where
  "named_accounts requester legs = (if legs = [] then {} else insert requester (bl_maker ` set legs))"

lemma bl_contribution_Some_iff:
  "bl_maker_contribution x = Some m \<longleftrightarrow> bl_fill_price x \<le> UNIT \<and> unat m = mc_nat x"
  "bl_requester_contribution x = Some r \<longleftrightarrow> unat r = rc_nat x"
  by (simp_all add: bl_maker_contribution_def maker_contribution_Some_iff mc_nat_def
      bl_requester_contribution_def requester_contribution_def size_checked_mul_Some_iff rc_nat_def)

lemma leg_nat_sum: "bl_fill_price x \<le> UNIT \<Longrightarrow> rc_nat x + mc_nat x = unat (bl_size x) * 1000000"
  by (simp add: rc_nat_def mc_nat_def word_le_nat_alt flip: distrib_left)

lemma legs_due_simps [simp]:
  "legs_due r [] a = 0"
  "legs_due r (x # xs) a = leg_due r a x + legs_due r xs a"
  "legs_due r (xs @ ys) a = legs_due r xs a + legs_due r ys a"
  by (simp_all add: legs_due_def)

lemma legs_due_unnamed: "a \<notin> named_accounts r legs \<Longrightarrow> legs_due r legs a = 0"
  by (induction legs) (auto simp: named_accounts_def leg_due_def split: if_splits)

text \<open>Over all accounts, a bundle debits exactly what its legs lock.\<close>

lemma sum_leg_due: "(\<Sum>a\<in>UNIV. leg_due r a x) = rc_nat x + mc_nat x"
  by (simp add: leg_due_def sum.distrib)

lemma sum_legs_due: "(\<Sum>a\<in>UNIV. legs_due r legs a) = (\<Sum>x\<leftarrow>legs. rc_nat x + mc_nat x)"
  by (induction legs) (simp_all add: sum.distrib sum_leg_due)

end
