(* ===== verification/Chain_Log.thy ===== *)
theory Chain_Log
  imports Commands
begin

text \<open>
  The append-only log of the chain, \<open>crates/chain/src/log.rs\<close>, and the indexer that turns its
  confirmed entries into commands, \<open>crates/chain/src/indexer.rs\<close>. A byte array is a list of bytes,
  a \<open>BTreeSet\<close> a set. The last part proves that entries are delivered once, in order, and only when
  no reorganisation within the confirmation depth can remove them.
\<close>

section \<open>The log\<close>

type_synonym tx_hash = "u8 list"

datatype chain_payload =
    BalanceChanged account_idx amount
  | OracleStatusReported contract_idx oracle_status
  | SettlementResolved nonce tx_status
  | EscrowSettled escrow_id contract_idx outcome

record chain_event =
  ev_block :: u64
  ev_tx_hash :: tx_hash
  ev_log_index :: u32
  ev_payload :: chain_payload

record chain_log =
  lg_entries :: "chain_event list"
  lg_head :: u64
  lg_next_tx :: u64

definition chain_log_new :: chain_log where
  "chain_log_new = \<lparr> lg_entries = [], lg_head = 0, lg_next_tx = 0 \<rparr>"

definition advance_block :: "chain_log \<Rightarrow> chain_log" where
  "advance_block g = g\<lparr> lg_head := saturating_add (lg_head g) 1 \<rparr>"

text \<open>\<open>to_be_bytes\<close>: most significant byte first; the other bytes of the hash stay zero.\<close>

definition to_be_bytes :: "u64 \<Rightarrow> u8 list" where
  "to_be_bytes n = map (\<lambda>k. ucast (drop_bit (8 * k) n)) (rev [0..<8])"

definition tx_hash_of :: "u64 \<Rightarrow> tx_hash" where
  "tx_hash_of n = to_be_bytes n @ replicate 24 0"

definition log_append :: "chain_payload \<Rightarrow> chain_log \<Rightarrow> chain_log" where
  "log_append payload g =
     g\<lparr> lg_next_tx := saturating_add (lg_next_tx g) 1,
        lg_entries := lg_entries g @ [\<lparr> ev_block = lg_head g, ev_tx_hash = tx_hash_of (lg_next_tx g),
          ev_log_index = 0, ev_payload = payload \<rparr>] \<rparr>"

definition append_transaction :: "chain_payload list \<Rightarrow> chain_log \<Rightarrow> chain_log" where
  "append_transaction payloads g =
     g\<lparr> lg_next_tx := saturating_add (lg_next_tx g) 1,
        lg_entries := lg_entries g @ map (\<lambda>(index, payload).
          \<lparr> ev_block = lg_head g, ev_tx_hash = tx_hash_of (lg_next_tx g),
            ev_log_index = (if index < 2 ^ 32 then word_of_nat index else u_max), ev_payload = payload \<rparr>)
          (enumerate 0 payloads) \<rparr>"

definition reorg :: "u64 \<Rightarrow> chain_log \<Rightarrow> chain_log" where
  "reorg block g = g\<lparr> lg_entries := filter (\<lambda>entry. ev_block entry < block) (lg_entries g),
     lg_head := saturating_sub block 1 \<rparr>"

section \<open>The indexer\<close>

type_synonym event_key = "tx_hash \<times> u32"

record indexer =
  ix_cursor :: nat
  ix_confirmations :: u64
  ix_delivered :: "event_key set"

definition indexer_new :: "u64 \<Rightarrow> indexer" where
  "indexer_new depth = \<lparr> ix_cursor = 0, ix_confirmations = depth, ix_delivered = {} \<rparr>"

definition horizon :: "indexer \<Rightarrow> u64 \<Rightarrow> u64 option" where
  "horizon ix head = checked_sub head (ix_confirmations ix)"

definition delivered_count :: "indexer \<Rightarrow> nat" where
  "delivered_count ix = card (ix_delivered ix)"

definition rewind :: "indexer \<Rightarrow> indexer" where
  "rewind ix = ix\<lparr> ix_cursor := 0 \<rparr>"

definition forget_everything :: "indexer \<Rightarrow> indexer" where
  "forget_everything ix = ix\<lparr> ix_cursor := 0, ix_delivered := {} \<rparr>"

fun translate :: "chain_payload \<Rightarrow> command" where
  "translate (BalanceChanged account available) = CreditAccount account available"
| "translate (OracleStatusReported contract status) = ReportOracleStatus contract status"
| "translate (SettlementResolved n status) = PollSettlement n status"
| "translate (EscrowSettled escrow contract _) = SettleEscrow escrow contract"

definition key_of :: "chain_event \<Rightarrow> event_key" where
  "key_of entry = (ev_tx_hash entry, ev_log_index entry)"

text \<open>
  The loop of \<open>drain\<close> over the entries from the cursor on; the cursor is a \<open>usize\<close> bounded by the
  length of the log.
\<close>

fun drain_loop :: "u64 \<Rightarrow> chain_event list \<Rightarrow> indexer \<times> command list \<Rightarrow> indexer \<times> command list" where
  "drain_loop hz [] acc = acc"
| "drain_loop hz (entry # rest) (ix, commands) =
     (if ev_block entry > hz then (ix, commands)
      else
        let ix1 = ix\<lparr> ix_cursor := Suc (ix_cursor ix) \<rparr> in
        if key_of entry \<in> ix_delivered ix1 then drain_loop hz rest (ix1, commands)
        else drain_loop hz rest (ix1\<lparr> ix_delivered := insert (key_of entry) (ix_delivered ix1) \<rparr>,
               commands @ [translate (ev_payload entry)]))"

definition drain :: "chain_log \<Rightarrow> indexer \<Rightarrow> indexer \<times> command list" where
  "drain g ix =
     (case horizon ix (lg_head g) of
        None \<Rightarrow> (ix, [])
      | Some hz \<Rightarrow> drain_loop hz (drop (ix_cursor ix) (lg_entries g)) (ix, []))"

section \<open>Identities of log entries\<close>

lemma to_be_bytes_inj: "to_be_bytes a = to_be_bytes b \<Longrightarrow> a = b"
proof (rule bit_word_eqI)
  fix n assume eq: "to_be_bytes a = to_be_bytes b" and n: "n < LENGTH(64)"
  have byte: "(ucast (drop_bit (8 * k) a) :: u8) = ucast (drop_bit (8 * k) b)" if "k < 8" for k
  proof -
    have "\<forall>k \<in> set (rev [0..<8]). (ucast (drop_bit (8 * k) a) :: u8) = ucast (drop_bit (8 * k) b)"
      using eq unfolding to_be_bytes_def by (simp only: map_eq_conv)
    with that show ?thesis by simp
  qed
  have "n div 8 < 8" using n by simp
  from byte[OF this] have "bit (ucast (drop_bit (8 * (n div 8)) a) :: u8) (n mod 8) = bit (ucast (drop_bit (8 * (n div 8)) b) :: u8) (n mod 8)" by simp
  then show "bit a n = bit b n" by (simp add: bit_ucast_iff bit_drop_bit_eq)
qed

lemma tx_hash_of_inj: "tx_hash_of a = tx_hash_of b \<longleftrightarrow> a = b"
  using to_be_bytes_inj[of a b] by (auto simp: tx_hash_of_def)

section \<open>The invariant of the log\<close>

text \<open>
  Blocks never go down along the log and never pass the head; as long as the transaction counter has
  not saturated, no two entries have the same key.
\<close>

definition log_ok :: "chain_log \<Rightarrow> bool" where
  "log_ok g \<longleftrightarrow> sorted (map ev_block (lg_entries g)) \<and> (\<forall>e \<in> set (lg_entries g). ev_block e \<le> lg_head g) \<and>
     (lg_next_tx g < u_max \<longrightarrow> distinct (map key_of (lg_entries g)) \<and>
        (\<forall>e \<in> set (lg_entries g). \<exists>n < lg_next_tx g. ev_tx_hash e = tx_hash_of n))"

lemma saturating_inc: "(n :: u64) < u_max \<Longrightarrow> n < saturating_add n 1 \<and> unat (saturating_add n 1) = unat n + 1"
  using unat_le_u_max[of n] by (auto simp: word_less_nat_alt unat_saturating_add unat_u_max)

lemma saturating_inc_mono: "(n :: u64) \<le> saturating_add n 1"
  using unat_le_u_max[of n] by (simp add: word_le_nat_alt unat_saturating_add)

lemma log_ok_new: "log_ok chain_log_new"
  by (simp add: log_ok_def chain_log_new_def)

lemma log_ok_advance: "log_ok g \<Longrightarrow> log_ok (advance_block g)"
  unfolding log_ok_def advance_block_def using saturating_inc_mono[of "lg_head g"] by (auto intro: order_trans)

lemma sorted_same: "\<forall>x \<in> set xs. f x = c \<Longrightarrow> sorted (map f xs)"
  by (induction xs) auto

lemma log_ok_add:
  assumes ok: "log_ok g" and new: "\<forall>e \<in> set es. ev_block e = lg_head g \<and> ev_tx_hash e = tx_hash_of (lg_next_tx g)"
    and dist: "distinct (map key_of es)"
  shows "log_ok (g\<lparr> lg_next_tx := saturating_add (lg_next_tx g) 1, lg_entries := lg_entries g @ es \<rparr>)"
proof -
  have "sorted (map ev_block (lg_entries g @ es))"
    using ok new sorted_same[of es ev_block "lg_head g"] by (auto simp: log_ok_def sorted_append)
  moreover have "distinct (map key_of (lg_entries g @ es)) \<and>
      (\<forall>e \<in> set (lg_entries g @ es). \<exists>n < saturating_add (lg_next_tx g) 1. ev_tx_hash e = tx_hash_of n)"
    if lt: "saturating_add (lg_next_tx g) 1 < u_max"
  proof -
    have old: "lg_next_tx g < u_max" using lt saturating_inc_mono[of "lg_next_tx g"] by (rule le_less_trans[rotated])
    note inc = saturating_inc[OF old]
    have "distinct (map key_of (lg_entries g))" and h: "\<forall>e \<in> set (lg_entries g). \<exists>n < lg_next_tx g. ev_tx_hash e = tx_hash_of n"
      using ok old by (auto simp: log_ok_def)
    moreover have "key_of e \<noteq> key_of e'" if "e \<in> set (lg_entries g)" "e' \<in> set es" for e e'
      using that h new by (auto simp: key_of_def tx_hash_of_inj)
    moreover have "\<exists>n < saturating_add (lg_next_tx g) 1. ev_tx_hash e = tx_hash_of n" if e: "e \<in> set (lg_entries g @ es)" for e
    proof (cases "e \<in> set es")
      case True
      then show ?thesis using new inc(1) by blast
    next
      case False
      then obtain n where "n < lg_next_tx g" "ev_tx_hash e = tx_hash_of n" using e h by auto
      then show ?thesis using inc less_trans by blast
    qed
    ultimately show ?thesis using dist by fastforce
  qed
  ultimately show ?thesis using ok new by (auto simp: log_ok_def)
qed

lemma log_ok_append: "log_ok g \<Longrightarrow> log_ok (log_append p g)"
  unfolding log_append_def by (rule log_ok_add) simp_all

lemma in_enumerate: "x \<in> set (enumerate 0 ps) \<Longrightarrow> x = (fst x, ps ! fst x) \<and> fst x < length ps"
  by (cases x) (simp add: in_set_enumerate_eq)

lemma log_ok_transaction:
  assumes "log_ok g" and len: "length ps \<le> 2 ^ 32"
  shows "log_ok (append_transaction ps g)"
  unfolding append_transaction_def
proof (rule log_ok_add[OF assms(1)])
  let ?f = "\<lambda>(index, payload). \<lparr> ev_block = lg_head g, ev_tx_hash = tx_hash_of (lg_next_tx g),
    ev_log_index = (if index < 2 ^ 32 then word_of_nat index else u_max), ev_payload = payload \<rparr>"
  have "inj_on (key_of \<circ> ?f) (set (enumerate 0 ps))"
  proof (rule inj_onI)
    fix x y assume x: "x \<in> set (enumerate 0 ps)" "y \<in> set (enumerate 0 ps)" "(key_of \<circ> ?f) x = (key_of \<circ> ?f) y"
    obtain i j where ij: "x = (i, ps ! i)" "i < length ps" "y = (j, ps ! j)" "j < length ps"
      using in_enumerate[OF x(1)] in_enumerate[OF x(2)] by blast
    then have lt: "i < 2 ^ 32" "j < 2 ^ 32" using len by simp_all
    have key: "snd (key_of (?f (k, p))) = word_of_nat k" if "k < 2 ^ 32" for k p
      unfolding prod.case key_of_def using that by simp
    have "snd (key_of (?f (i, ps ! i))) = snd (key_of (?f (j, ps ! j)))" using x(3) unfolding ij comp_def by (rule arg_cong)
    then have "(word_of_nat i :: u32) = word_of_nat j" unfolding key[OF lt(1)] key[OF lt(2)] .
    moreover have "unat (word_of_nat i :: u32) = i" "unat (word_of_nat j :: u32) = j"
      using lt by (auto intro: unat_word_of_nat)
    ultimately have "i = j" by metis
    then show "x = y" by (simp add: ij)
  qed
  then show "distinct (map key_of (map ?f (enumerate 0 ps)))" by (simp add: distinct_map)
qed auto

lemma saturating_pred: "(b :: u64) \<noteq> 0 \<Longrightarrow> unat (saturating_sub b 1) + 1 = unat b"
  by (simp add: unat_saturating_sub) (metis One_nat_def Suc_pred' add.commute plus_1_eq_Suc unat_gt_0)

lemma log_ok_reorg: "log_ok g \<Longrightarrow> log_ok (reorg b g)"
proof -
  assume ok: "log_ok g"
  have "ev_block e \<le> saturating_sub b 1" if "ev_block e < b" for e :: chain_event
  proof -
    have "b \<noteq> 0" using that by auto
    with saturating_pred[OF this] that show ?thesis by (simp add: word_le_nat_alt word_less_nat_alt)
  qed
  moreover have "sorted (map ev_block (filter (\<lambda>e. ev_block e < b) (lg_entries g)))"
    using ok unfolding log_ok_def by (auto intro: sorted_filter)
  moreover have "distinct (map key_of (filter P es))" if "distinct (map key_of es)" for P and es :: "chain_event list"
    using that by (rule distinct_map_filter)
  ultimately show ?thesis using ok by (simp add: log_ok_def reorg_def)
qed

section \<open>What one drain delivers\<close>

lemma drain_loop_spec:
  assumes "distinct (map key_of xs)"
  shows "drain_loop hz xs (ix, cmds) =
    (let seen = takeWhile (\<lambda>e. ev_block e \<le> hz) xs in
     (ix\<lparr> ix_cursor := ix_cursor ix + length seen, ix_delivered := ix_delivered ix \<union> key_of ` set seen \<rparr>,
      cmds @ map (translate \<circ> ev_payload) (filter (\<lambda>e. key_of e \<notin> ix_delivered ix) seen)))"
  using assms
proof (induction xs arbitrary: ix cmds)
  case (Cons e xs)
  show ?case
  proof (cases "ev_block e > hz")
    case False
    have other: "key_of e' \<noteq> key_of e" if "e' \<in> set (takeWhile (\<lambda>e. ev_block e \<le> hz) xs)" for e'
      using that Cons.prems by (auto dest!: set_takeWhileD simp: image_iff)
    have "filter (\<lambda>x. key_of x \<notin> insert (key_of e) (ix_delivered ix)) (takeWhile (\<lambda>e. ev_block e \<le> hz) xs)
        = filter (\<lambda>x. key_of x \<notin> ix_delivered ix) (takeWhile (\<lambda>e. ev_block e \<le> hz) xs)"
      by (rule filter_cong) (use other in auto)
    moreover have "(hz < ev_block e) = False" "ev_block e \<le> hz" using False by simp_all
    ultimately show ?thesis using Cons by (simp add: Let_def insert_absorb)
  next
    case True
    then have "(ev_block e \<le> hz) = False" by simp
    with True show ?thesis by (simp add: Let_def)
  qed
qed (simp add: Let_def)

lemma drain_spec:
  assumes "distinct (map key_of (lg_entries g))"
  shows "drain g ix = (case horizon ix (lg_head g) of None \<Rightarrow> (ix, []) | Some hz \<Rightarrow>
    (let seen = takeWhile (\<lambda>e. ev_block e \<le> hz) (drop (ix_cursor ix) (lg_entries g)) in
     (ix\<lparr> ix_cursor := ix_cursor ix + length seen, ix_delivered := ix_delivered ix \<union> key_of ` set seen \<rparr>,
      map (translate \<circ> ev_payload) (filter (\<lambda>e. key_of e \<notin> ix_delivered ix) seen))))"
proof -
  have "distinct (map key_of (drop (ix_cursor ix) (lg_entries g)))" using assms by (simp flip: drop_map)
  from drain_loop_spec[OF this] show ?thesis by (simp add: drain_def Let_def split: option.split)
qed

section \<open>The feed\<close>

text \<open>
  The log, the indexer that reads it, the commands it has produced so far, and the highest block the
  chain has ever reached. A reorganisation is within the confirmation depth when it starts less than
  that many blocks below the highest block.
\<close>

record feed =
  fd_log :: chain_log
  fd_indexer :: indexer
  fd_out :: "command list"
  fd_high :: u64

definition feed_start :: "feed \<Rightarrow> bool" where
  "feed_start f \<longleftrightarrow> (\<exists>depth. f = \<lparr> fd_log = chain_log_new, fd_indexer = indexer_new depth, fd_out = [], fd_high = 0 \<rparr>)"

definition with_log :: "(chain_log \<Rightarrow> chain_log) \<Rightarrow> feed \<Rightarrow> feed" where
  "with_log h f = f\<lparr> fd_log := h (fd_log f), fd_high := max (fd_high f) (lg_head (h (fd_log f))) \<rparr>"

inductive feed_step :: "feed \<Rightarrow> feed \<Rightarrow> bool" where
  feed_append: "feed_step f (with_log (log_append p) f)"
| feed_transaction: "length ps \<le> 2 ^ 32 \<Longrightarrow> feed_step f (with_log (append_transaction ps) f)"
| feed_mine: "feed_step f (with_log advance_block f)"
| feed_reorg: "unat (fd_high f) < unat b + unat (ix_confirmations (fd_indexer f)) \<Longrightarrow> feed_step f (with_log (reorg b) f)"
| feed_rewind: "feed_step f (f\<lparr> fd_indexer := rewind (fd_indexer f) \<rparr>)"
| feed_drain: "drain (fd_log f) (fd_indexer f) = (ix, cmds) \<Longrightarrow> feed_step f (f\<lparr> fd_indexer := ix, fd_out := fd_out f @ cmds \<rparr>)"

text \<open>
  The first \<open>k\<close> entries, and only they, have been delivered, in the order of the log; they are so deep
  that no reorganisation within the depth reaches them.
\<close>

definition fed :: "feed \<Rightarrow> nat \<Rightarrow> bool" where
  "fed f k \<longleftrightarrow> (let es = take k (lg_entries (fd_log f)); ix = fd_indexer f in
     k \<le> length (lg_entries (fd_log f)) \<and> ix_cursor ix \<le> k \<and> ix_delivered ix = key_of ` set es \<and>
     fd_out f = map (translate \<circ> ev_payload) es \<and>
     (\<forall>e \<in> set es. unat (ev_block e) + unat (ix_confirmations ix) \<le> unat (fd_high f)))"

definition feed_ok :: "feed \<Rightarrow> bool" where
  "feed_ok f \<longleftrightarrow> log_ok (fd_log f) \<and> lg_head (fd_log f) \<le> fd_high f \<and>
     (lg_next_tx (fd_log f) < u_max \<longrightarrow> (\<exists>k. fed f k))"

lemma fed_extend:
  assumes "fed f k" and "lg_entries (h (fd_log f)) = lg_entries (fd_log f) @ es"
  shows "fed (with_log h f) k"
  using assms by (auto simp: fed_def Let_def with_log_def max_def word_le_nat_alt intro: order_trans)

lemma take_filter_prefix:
  assumes "sorted (map ev_block es)" and "\<forall>e \<in> set (take k es). ev_block e < b" and "k \<le> length es"
  shows "take k (filter (\<lambda>e. ev_block e < b) es) = take k es \<and> k \<le> length (filter (\<lambda>e. ev_block e < b) es)"
proof -
  have "filter (\<lambda>e. ev_block e < b) es = take k es @ filter (\<lambda>e. ev_block e < b) (drop k es)"
    by (subst append_take_drop_id[of k es, symmetric], subst filter_append) (use assms(2) in simp)
  then show ?thesis using assms(3) by simp
qed

lemma fed_drain:
  assumes ok: "log_ok (fd_log f)" "lg_next_tx (fd_log f) < u_max" "lg_head (fd_log f) \<le> fd_high f" and k: "fed f k"
    and d: "drain (fd_log f) (fd_indexer f) = (ix, cmds)"
  shows "\<exists>k'. fed (f\<lparr> fd_indexer := ix, fd_out := fd_out f @ cmds \<rparr>) k' \<and>
    (ix_cursor (fd_indexer f) = k \<longrightarrow> k' = k + length (takeWhile (\<lambda>e. unat (ev_block e) + unat (ix_confirmations (fd_indexer f)) \<le> unat (lg_head (fd_log f)))
       (drop k (lg_entries (fd_log f)))))"
proof -
  let ?g = "fd_log f" and ?ix = "fd_indexer f"
  let ?es = "lg_entries ?g" and ?c = "ix_cursor ?ix" and ?n = "unat (ix_confirmations ?ix)"
  have dist: "distinct (map key_of ?es)" using ok by (simp add: log_ok_def)
  have K: "k \<le> length ?es" "?c \<le> k" "ix_delivered ?ix = key_of ` set (take k ?es)"
    "fd_out f = map (translate \<circ> ev_payload) (take k ?es)"
    "\<forall>e \<in> set (take k ?es). unat (ev_block e) + ?n \<le> unat (fd_high f)"
    using k by (simp_all add: fed_def Let_def)
  show ?thesis
  proof (cases "horizon ?ix (lg_head ?g)")
    case None
    then have "(ix, cmds) = (?ix, [])" using d by (simp add: drain_spec[OF dist])
    moreover have "\<not> unat b + ?n \<le> unat (lg_head ?g)" for b :: u64
      using None by (simp add: horizon_def checked_sub_def word_le_nat_alt split: if_splits)
    ultimately show ?thesis using k by (intro exI[of _ k]) (auto simp: takeWhile_eq_Nil_iff)
  next
    case (Some hz)
    then have hz: "unat (lg_head ?g) = unat hz + ?n" by (auto simp: horizon_def checked_sub_Some_iff)
    define m where "m = length (takeWhile (\<lambda>e. ev_block e \<le> hz) (drop ?c ?es))"
    have seen: "takeWhile (\<lambda>e. ev_block e \<le> hz) (drop ?c ?es) = take m (drop ?c ?es)"
      unfolding m_def by (rule takeWhile_eq_take)
    have m: "?c + m \<le> length ?es" using length_takeWhile_le[of "\<lambda>e. ev_block e \<le> hz" "drop ?c ?es", folded m_def] K(1,2) by simp
    have deep: "unat (ev_block e) + ?n \<le> unat (lg_head ?g)" if "e \<in> set (take m (drop ?c ?es))" for e
    proof -
      have "ev_block e \<le> hz" using that set_takeWhileD[of e "\<lambda>e. ev_block e \<le> hz" "drop ?c ?es"] unfolding seen by blast
      then show ?thesis by (simp add: hz word_le_nat_alt)
    qed
    define k' where "k' = max k (?c + m)"
    have split: "take k' ?es = take k ?es @ filter (\<lambda>e. key_of e \<notin> key_of ` set (take k ?es)) (take m (drop ?c ?es))"
    proof (cases "?c + m \<le> k")
      case True
      have "set (take m (drop ?c ?es)) \<subseteq> set (take k ?es)"
      proof -
        have "set (take m (drop ?c ?es)) \<subseteq> set (take (?c + m) ?es)" by (simp add: take_drop add.commute set_drop_subset)
        also have "\<dots> \<subseteq> set (take k ?es)" by (rule set_take_subset_set_take[OF True])
        finally show ?thesis .
      qed
      with True show ?thesis by (auto simp: k'_def filter_empty_conv)
    next
      case False
      have e1: "take m (drop ?c ?es) = drop ?c (take k ?es) @ take (?c + m - k) (drop k ?es)"
      proof -
        have "take m (drop ?c ?es) = drop ?c (take (k + (?c + m - k)) ?es)" using False by (simp add: take_drop add.commute)
        also have "\<dots> = drop ?c (take k ?es @ take (?c + m - k) (drop k ?es))" by (simp only: take_add)
        also have "\<dots> = drop ?c (take k ?es) @ take (?c + m - k) (drop k ?es)" using K(1,2) by simp
        finally show ?thesis .
      qed
      have e2: "filter (\<lambda>e. key_of e \<notin> key_of ` set (take k ?es)) (drop ?c (take k ?es)) = []"
        by (auto simp: filter_empty_conv dest: in_set_dropD)
      have e3: "filter (\<lambda>e. key_of e \<notin> key_of ` set (take k ?es)) (take (?c + m - k) (drop k ?es)) = take (?c + m - k) (drop k ?es)"
      proof (rule filter_True, rule ballI, rule notI)
        fix e assume e: "e \<in> set (take (?c + m - k) (drop k ?es))" "key_of e \<in> key_of ` set (take k ?es)"
        have "distinct (map key_of (take k ?es @ drop k ?es))" using dist by simp
        then have "key_of ` set (take k ?es) \<inter> key_of ` set (drop k ?es) = {}" unfolding map_append distinct_append by simp
        with e show False by (auto dest: in_set_takeD)
      qed
      have "take k' ?es = take k ?es @ take (?c + m - k) (drop k ?es)"
        using False by (simp add: k'_def max_def take_add[symmetric])
      then show ?thesis by (simp add: e1 e2 e3)
    qed
    have len: "length (take m (drop ?c ?es)) = m" using m by simp
    have out: "ix = ?ix\<lparr> ix_cursor := ?c + m, ix_delivered := ix_delivered ?ix \<union> key_of ` set (take m (drop ?c ?es)) \<rparr>"
      "cmds = map (translate \<circ> ev_payload) (filter (\<lambda>e. key_of e \<notin> key_of ` set (take k ?es)) (take m (drop ?c ?es)))"
      using d unfolding drain_spec[OF dist] Some option.case Let_def seen len by (simp_all add: K(3))
    have "set (take m (drop ?c ?es)) \<subseteq> set (take (?c + m) ?es)"
      by (simp add: take_drop add.commute set_drop_subset)
    also have "\<dots> \<subseteq> set (take k' ?es)" by (rule set_take_subset_set_take) (simp add: k'_def)
    finally have sub: "set (take k' ?es) = set (take k ?es) \<union> set (take m (drop ?c ?es))"
      using arg_cong[where f = set, OF split] by (auto simp only: set_append set_filter)
    have dk: "\<forall>e \<in> set (take k' ?es). unat (ev_block e) + ?n \<le> unat (fd_high f)"
      unfolding sub using K(5) deep ok(3) by (auto simp: word_le_nat_alt intro: order_trans)
    have o': "fd_out f @ cmds = map (translate \<circ> ev_payload) (take k' ?es)"
      unfolding split out(2) K(4) by simp
    have dl: "ix_delivered ix = key_of ` set (take k' ?es)" unfolding sub out(1) by (simp add: K(3) image_Un)
    have "fed (f\<lparr> fd_indexer := ix, fd_out := fd_out f @ cmds \<rparr>) k'"
      unfolding fed_def Let_def
      using K(1,2) m dk o' dl out(1) by (simp add: k'_def)
    moreover have "k' = k + length (takeWhile (\<lambda>e. unat (ev_block e) + ?n \<le> unat (lg_head ?g)) (drop k ?es))" if "?c = k"
      using that by (simp add: k'_def m_def hz word_le_nat_alt)
    ultimately show ?thesis by blast
  qed
qed

lemma fed_with_log:
  assumes k: "fed f k" and keep: "take k (lg_entries (h (fd_log f))) = take k (lg_entries (fd_log f))"
    and len: "k \<le> length (lg_entries (h (fd_log f)))"
  shows "fed (with_log h f) k"
  using assms by (auto simp: fed_def Let_def with_log_def max_def word_le_nat_alt intro: order_trans)

lemma feed_start_ok: "feed_start f \<Longrightarrow> feed_ok f"
proof -
  assume "feed_start f"
  then obtain depth where f: "f = \<lparr> fd_log = chain_log_new, fd_indexer = indexer_new depth, fd_out = [], fd_high = 0 \<rparr>"
    by (auto simp: feed_start_def)
  have "fed f 0" by (simp add: f fed_def indexer_new_def)
  then show ?thesis by (auto simp: feed_ok_def f log_ok_new) (simp add: chain_log_new_def)
qed

lemma feed_log_step:
  assumes ok: "feed_ok f" and g: "log_ok (h (fd_log f))" and tx: "lg_next_tx (fd_log f) \<le> lg_next_tx (h (fd_log f))"
    and keep: "\<And>k. fed f k \<Longrightarrow> take k (lg_entries (h (fd_log f))) = take k (lg_entries (fd_log f)) \<and>
      k \<le> length (lg_entries (h (fd_log f)))"
  shows "feed_ok (with_log h f)"
proof -
  have "\<exists>k. fed (with_log h f) k" if "lg_next_tx (h (fd_log f)) < u_max"
  proof -
    have "lg_next_tx (fd_log f) < u_max" using tx that by (rule le_less_trans)
    with ok obtain k where "fed f k" by (auto simp: feed_ok_def)
    with keep fed_with_log show ?thesis by blast
  qed
  then show ?thesis using g by (simp add: feed_ok_def) (simp add: with_log_def)
qed

lemma fed_take_append: "fed f k \<Longrightarrow> take k (lg_entries (fd_log f) @ es) = take k (lg_entries (fd_log f)) \<and>
    k \<le> length (lg_entries (fd_log f) @ es)"
  by (simp add: fed_def Let_def)

lemma fed_length: "fed f k \<Longrightarrow> k \<le> length (lg_entries (fd_log f))"
  by (simp add: fed_def Let_def)

lemma feed_step_ok:
  assumes ok: "feed_ok f" and "feed_step f f'"
  shows "feed_ok f'"
  using assms(2)
proof (cases rule: feed_step.cases)
  case (feed_append p)
  show ?thesis unfolding feed_append
  proof (rule feed_log_step[OF ok])
    show "log_ok (log_append p (fd_log f))" using ok by (simp add: feed_ok_def log_ok_append)
  qed (auto simp: log_append_def saturating_inc_mono dest: fed_length)
next
  case (feed_transaction ps)
  show ?thesis unfolding feed_transaction(1)
  proof (rule feed_log_step[OF ok])
    show "log_ok (append_transaction ps (fd_log f))" using ok feed_transaction(2) by (simp add: feed_ok_def log_ok_transaction)
  qed (auto simp: append_transaction_def saturating_inc_mono dest: fed_length)
next
  case feed_mine
  show ?thesis unfolding feed_mine
  proof (rule feed_log_step[OF ok])
    show "log_ok (advance_block (fd_log f))" using ok by (simp add: feed_ok_def log_ok_advance)
  qed (simp_all add: advance_block_def fed_def Let_def)
next
  case (feed_reorg b)
  have srt: "sorted (map ev_block (lg_entries (fd_log f)))" using ok by (simp add: feed_ok_def log_ok_def)
  have "take k (lg_entries (reorg b (fd_log f))) = take k (lg_entries (fd_log f)) \<and> k \<le> length (lg_entries (reorg b (fd_log f)))"
    if k: "fed f k" for k
    unfolding reorg_def using take_filter_prefix[OF srt, of k b] k feed_reorg(2)
    by (fastforce simp: fed_def Let_def word_less_nat_alt)
  then show ?thesis unfolding feed_reorg(1)
    by (intro feed_log_step[OF ok]) (use ok in \<open>simp_all add: feed_ok_def log_ok_reorg\<close>, simp_all add: reorg_def)
next
  case feed_rewind
  then show ?thesis using ok by (auto simp: feed_ok_def fed_def Let_def rewind_def)
next
  case (feed_drain ix cmds)
  show ?thesis
  proof (cases "lg_next_tx (fd_log f) < u_max")
    case True
    with ok obtain k where "fed f k" by (auto simp: feed_ok_def)
    with fed_drain[OF _ True _ this feed_drain(2)] ok show ?thesis by (auto simp: feed_ok_def feed_drain(1))
  qed (use ok in \<open>auto simp: feed_ok_def feed_drain(1)\<close>)
qed

interpretation feed_system: inductive_invariant feed_start feed_step feed_ok
  by unfold_locales (auto intro: feed_start_ok feed_step_ok)

section \<open>Properties\<close>

text \<open>
  C23. Exactly once, in order, and never undone. In every state reached from an empty log and a fresh
  indexer by appending entries and transactions, mining, draining, losing the cursor, and
  reorganisations that stay within the confirmation depth of the highest block ever reached: the
  commands delivered so far are the translations of a prefix of the log as it is now, each entry once,
  in the order of the log, with no two of them under one key, although a rewound cursor has reread
  them and the chain may have been reorganised. (As long as the transaction counter has not saturated.)
\<close>

theorem commands_are_delivered_exactly_once:
  assumes "reaches feed_start feed_step f" and "lg_next_tx (fd_log f) < u_max"
  shows "\<exists>k \<le> length (lg_entries (fd_log f)).
    fd_out f = map (translate \<circ> ev_payload) (take k (lg_entries (fd_log f))) \<and>
    ix_delivered (fd_indexer f) = key_of ` set (take k (lg_entries (fd_log f))) \<and>
    distinct (map key_of (lg_entries (fd_log f)))"
proof -
  have ok: "feed_ok f" by (rule feed_system.reachable_inv[OF assms(1)])
  then obtain k where "fed f k" using assms(2) by (auto simp: feed_ok_def)
  then show ?thesis using ok assms(2) by (intro exI[of _ k]) (simp add: fed_def Let_def feed_ok_def log_ok_def)
qed

definition after_drain :: "feed \<Rightarrow> feed" where
  "after_drain f = (case drain (fd_log f) (fd_indexer f) of (ix, cmds) \<Rightarrow> f\<lparr> fd_indexer := ix, fd_out := fd_out f @ cmds \<rparr>)"

definition demo_feed0 :: feed where
  "demo_feed0 = \<lparr> fd_log = chain_log_new, fd_indexer = indexer_new 1, fd_out = [], fd_high = 0 \<rparr>"

definition demo_feed1 :: feed where
  "demo_feed1 = after_drain (with_log advance_block (with_log (log_append (BalanceChanged 1 500)) demo_feed0))"

definition demo_feed :: feed where
  "demo_feed = after_drain (demo_feed1\<lparr> fd_indexer := rewind (fd_indexer demo_feed1) \<rparr>)"

lemma reaches_drain: "reaches feed_start feed_step f \<Longrightarrow> reaches feed_start feed_step (after_drain f)"
proof -
  assume r: "reaches feed_start feed_step f"
  obtain ix cmds where "drain (fd_log f) (fd_indexer f) = (ix, cmds)" by (cases "drain (fd_log f) (fd_indexer f)")
  from reaches_step[of feed_start feed_step f, OF r feed_drain[OF this]] this show ?thesis by (simp add: after_drain_def)
qed

lemma demo_feed_reached: "reaches feed_start feed_step demo_feed"
proof -
  let ?R = "reaches feed_start feed_step"
  have "?R demo_feed0" by (rule reaches_start) (auto simp: feed_start_def demo_feed0_def)
  then have "?R (with_log (log_append (BalanceChanged 1 500)) demo_feed0)" by (rule reaches_step) (rule feed_append)
  then have "?R (with_log advance_block (with_log (log_append (BalanceChanged 1 500)) demo_feed0))" by (rule reaches_step) (rule feed_mine)
  then have "?R demo_feed1" unfolding demo_feed1_def by (rule reaches_drain)
  then have "?R (demo_feed1\<lparr> fd_indexer := rewind (fd_indexer demo_feed1) \<rparr>)" by (rule reaches_step) (rule feed_rewind)
  then show ?thesis unfolding demo_feed_def by (rule reaches_drain)
qed

theorem commands_are_delivered_exactly_once_witness:
  "fd_out (demo_feed) = [CreditAccount 1 500] \<and>
   (\<exists>k \<le> length (lg_entries (fd_log (demo_feed))).
      fd_out (demo_feed) = map (translate \<circ> ev_payload) (take k (lg_entries (fd_log (demo_feed)))))"
proof -
  have "fd_out (demo_feed) = [CreditAccount 1 500] \<and> lg_next_tx (fd_log (demo_feed)) < u_max" by code_simp
  with commands_are_delivered_exactly_once[OF demo_feed_reached] show ?thesis by blast
qed

lemma young_after:
  "sorted (map ev_block xs) \<Longrightarrow> \<forall>e \<in> set (dropWhile (\<lambda>e. unat (ev_block e) + n \<le> m) xs). \<not> unat (ev_block e) + n \<le> m"
proof (induction xs)
  case (Cons x xs)
  show ?case
  proof (cases "unat (ev_block x) + n \<le> m")
    case False
    have young: "\<not> unat (ev_block y) + n \<le> m" if "y \<in> set (x # xs)" for y
    proof -
      have "ev_block x \<le> ev_block y" using Cons.prems that by auto
      then have "unat (ev_block x) \<le> unat (ev_block y)" by (rule word_le_nat_alt[THEN iffD1])
      with False show ?thesis by linarith
    qed
    have "dropWhile (\<lambda>e. unat (ev_block e) + n \<le> m) (x # xs) = x # xs" using False by simp
    then show ?thesis using young by metis
  next
    case True
    have "\<forall>e \<in> set (dropWhile (\<lambda>e. unat (ev_block e) + n \<le> m) xs). \<not> unat (ev_block e) + n \<le> m"
      by (rule Cons.IH) (use Cons.prems in simp)
    moreover have "dropWhile (\<lambda>e. unat (ev_block e) + n \<le> m) (x # xs) = dropWhile (\<lambda>e. unat (ev_block e) + n \<le> m) xs"
      using True by simp
    ultimately show ?thesis by (rule ssubst[of _ _ "\<lambda>l. \<forall>e \<in> set l. \<not> unat (ev_block e) + n \<le> m", rotated])
  qed
qed simp

text \<open>
  One drain delivers every confirmed entry it has not delivered, and nothing else. On a log whose
  keys are distinct, \<open>drain\<close> translates, in order, the entries from the cursor on that are at least the
  confirmation depth below the head (stopping at the first that is not) and whose key is not in the
  dedup set; the cursor moves past all of these and their keys are remembered. On a log of a
  reachable chain the entries it stops at are all too young.
\<close>

theorem drain_delivers_the_confirmed:
  assumes "log_ok g" and "lg_next_tx g < u_max"
  shows "\<exists>ix' cmds. drain g ix = (ix', cmds) \<and>
    (let deep = (\<lambda>e. unat (ev_block e) + unat (ix_confirmations ix) \<le> unat (lg_head g));
         seen = takeWhile deep (drop (ix_cursor ix) (lg_entries g)) in
     cmds = map (translate \<circ> ev_payload) (filter (\<lambda>e. key_of e \<notin> ix_delivered ix) seen) \<and>
     ix' = ix\<lparr> ix_cursor := ix_cursor ix + length seen, ix_delivered := ix_delivered ix \<union> key_of ` set seen \<rparr> \<and>
     (\<forall>e \<in> set (drop (ix_cursor ix + length seen) (lg_entries g)). \<not> deep e))"
proof -
  let ?deep = "\<lambda>e. unat (ev_block e) + unat (ix_confirmations ix) \<le> unat (lg_head g)"
  let ?xs = "drop (ix_cursor ix) (lg_entries g)"
  have dist: "distinct (map key_of (lg_entries g))" and srt: "sorted (map ev_block (lg_entries g))"
    using assms by (simp_all add: log_ok_def)
  have "sorted (map ev_block ?xs)" using srt by (simp add: sorted_wrt_drop flip: drop_map)
  from young_after[OF this] have "\<forall>e \<in> set (drop (length (takeWhile ?deep ?xs)) ?xs). \<not> ?deep e"
    unfolding dropWhile_eq_drop .
  then have young: "\<forall>e \<in> set (drop (ix_cursor ix + length (takeWhile ?deep ?xs)) (lg_entries g)). \<not> ?deep e"
    unfolding drop_drop add.commute[of _ "ix_cursor ix"] .
  show ?thesis
  proof (cases "horizon ix (lg_head g)")
    case None
    have no: "\<not> ?deep e" for e
      using None by (simp add: horizon_def checked_sub_def word_le_nat_alt split: if_splits)
    have nil: "takeWhile ?deep ?xs = []"
      unfolding takeWhile_eq_Nil_iff using no by blast
    have "drain g ix = (ix, [])" unfolding drain_def None by simp
    then show ?thesis using young unfolding Let_def nil by simp
  next
    case (Some hz)
    have same: "(\<lambda>e. ev_block e \<le> hz) = ?deep"
    proof
      fix e
      have "unat (lg_head g) = unat hz + unat (ix_confirmations ix)"
        using Some by (auto simp: horizon_def checked_sub_Some_iff)
      then show "(ev_block e \<le> hz) = ?deep e" by (simp add: word_le_nat_alt)
    qed
    show ?thesis
      unfolding drain_spec[OF dist] Some option.case Let_def same using young by blast
  qed
qed

definition demo_log :: chain_log where
  "demo_log = advance_block (log_append (BalanceChanged 1 500) chain_log_new)"

theorem drain_delivers_the_confirmed_witness:
  "log_ok demo_log \<and> lg_next_tx demo_log < u_max \<and>
   (\<exists>ix'. drain demo_log (indexer_new 1) = (ix', [CreditAccount 1 500]))"
proof -
  have ok: "log_ok demo_log" unfolding demo_log_def by (intro log_ok_advance log_ok_append log_ok_new)
  have tx: "lg_next_tx demo_log < u_max" by code_simp
  have "snd (drain demo_log (indexer_new 1)) = [CreditAccount 1 500]" by code_simp
  with drain_delivers_the_confirmed[OF ok tx, of "indexer_new 1"] ok tx show ?thesis by auto
qed

end
