(* ===== verification/Custody.thy ===== *)
theory Custody
  imports Settlement_Bundle Chain_Log
begin

text \<open>
  The custody mock, \<open>crates/chain/src/custody.rs\<close>: balances, escrows, nonces and the withdrawal
  timelock, the queue of submitted bundles and the settlement transaction. The instant a call samples
  from custody's own clock is an argument. A \<open>BTreeMap\<close> is a partial function. The hook on entry to a
  settlement is a function with a state of its own, stored in the custody record as the code stores it.
\<close>

section \<open>Errors and results\<close>

datatype custody_error =
    CE_UnknownAccount
  | CE_InsufficientAvailable
  | WithdrawalAlreadyPending
  | NoWithdrawalPending
  | WithdrawalNotMatured
  | CE_AmountOverflow
  | UnknownEscrow
  | EscrowContractMismatch

datatype settle_error =
    NonceReused
  | QuoteExpired u8
  | SE_InsufficientFunds account_idx
  | EscrowCapacityExhausted
  | SE_UnknownAccount
  | SE_NoLegs
  | SE_TooManyLegs
  | SE_AmountOverflow

record settle_receipt =
  sr_escrows :: "escrow_id list"
  sr_n_escrows :: u8

record included_tx =
  tx_nonce :: nonce
  tx_outcome :: "settle_error + settle_receipt"
  tx_status_of :: tx_status

record submit_ack =
  ack_nonce :: nonce

section \<open>Balances\<close>

record balance =
  bal_balance :: amount
  bal_pending :: amount
  bal_matures_at :: ts

definition balance_default :: balance where
  "balance_default = \<lparr> bal_balance = 0, bal_pending = 0, bal_matures_at = 0 \<rparr>"

definition bal_available :: "balance \<Rightarrow> amount" where
  "bal_available x = saturating_sub (bal_balance x) (bal_pending x)"

definition pending_withdrawal :: "balance \<Rightarrow> (amount \<times> ts) option" where
  "pending_withdrawal x = (if bal_pending x = 0 then None else Some (bal_pending x, bal_matures_at x))"

section \<open>The custody ledger\<close>

record custody_ledger =
  cl_balances :: "balance list"
  cl_escrows :: "escrow list"
  cl_max_escrows :: nat
  cl_resolved :: "nonce \<rightharpoonup> tx_status"
  cl_pending :: "settlement_bundle list"
  cl_withdrawal_delay :: dur
  cl_deposited :: amount
  cl_withdrawn :: amount
  cl_log :: chain_log

definition cl_account :: "custody_ledger \<Rightarrow> account_idx \<Rightarrow> balance option" where
  "cl_account l account = get_idx (cl_balances l) account"

definition cl_balance :: "custody_ledger \<Rightarrow> account_idx \<Rightarrow> amount" where
  "cl_balance l account = (case cl_account l account of None \<Rightarrow> 0 | Some x \<Rightarrow> bal_balance x)"

definition cl_available :: "custody_ledger \<Rightarrow> account_idx \<Rightarrow> amount" where
  "cl_available l account = (case cl_account l account of None \<Rightarrow> 0 | Some x \<Rightarrow> bal_available x)"

definition cl_account_count :: "custody_ledger \<Rightarrow> u32" where
  "cl_account_count l = (let n = length (cl_balances l) in if n < 2 ^ 32 then word_of_nat n else u_max)"

definition log_balance :: "account_idx \<Rightarrow> custody_ledger \<Rightarrow> custody_ledger" where
  "log_balance account l = l\<lparr> cl_log := log_append (BalanceChanged account (cl_available l account)) (cl_log l) \<rparr>"

definition cl_escrow :: "custody_ledger \<Rightarrow> escrow_id \<Rightarrow> escrow option" where
  "cl_escrow l i = get_idx (cl_escrows l) i"

text \<open>The iterator over escrows skips an index that does not fit an escrow id.\<close>

definition cl_all_escrows :: "custody_ledger \<Rightarrow> (escrow_id \<times> escrow) list" where
  "cl_all_escrows l = somes (map (\<lambda>(index, x). if index < 2 ^ 32 then Some (word_of_nat index, x) else None)
     (enumerate 0 (cl_escrows l)))"

definition nonce_used :: "custody_ledger \<Rightarrow> nonce \<Rightarrow> bool" where
  "nonce_used l n \<longleftrightarrow> cl_resolved l n = Some TxSettled"

definition nonce_status :: "custody_ledger \<Rightarrow> nonce \<Rightarrow> tx_status" where
  "nonce_status l n =
     (case cl_resolved l n of
        Some status \<Rightarrow> status
      | None \<Rightarrow> if \<exists>b \<in> set (cl_pending l). bu_nonce b = n then TxPending else TxUnknown)"

definition pending_count :: "custody_ledger \<Rightarrow> nat" where
  "pending_count l = length (cl_pending l)"

definition balance_update :: "account_idx \<Rightarrow> (balance \<Rightarrow> balance) \<Rightarrow> custody_ledger \<Rightarrow> custody_ledger" where
  "balance_update account f l = l\<lparr> cl_balances := upd_idx (cl_balances l) account f \<rparr>"

definition deposit :: "account_idx \<Rightarrow> amount \<Rightarrow> custody_ledger \<Rightarrow> (custody_error + unit) \<times> custody_ledger" where
  "deposit account value l =
     (case amount_checked_add (cl_deposited l) value of
        None \<Rightarrow> (Inl CE_AmountOverflow, l)
      | Some deposited \<Rightarrow>
          (case cl_account l account of
             None \<Rightarrow> (Inl CE_UnknownAccount, l)
           | Some entry \<Rightarrow>
               (case amount_checked_add (bal_balance entry) value of
                  None \<Rightarrow> (Inl CE_AmountOverflow, l)
                | Some owed \<Rightarrow>
                    (Inr (), log_balance account
                      ((balance_update account (bal_balance_update (\<lambda>_. owed)) l)\<lparr> cl_deposited := deposited \<rparr>)))))"

definition request_withdrawal ::
  "account_idx \<Rightarrow> amount \<Rightarrow> ts \<Rightarrow> custody_ledger \<Rightarrow> (custody_error + ts) \<times> custody_ledger" where
  "request_withdrawal account value now l =
     (case cl_account l account of
        None \<Rightarrow> (Inl CE_UnknownAccount, l)
      | Some entry \<Rightarrow>
          if bal_pending entry \<noteq> 0 then (Inl WithdrawalAlreadyPending, l)
          else if value > bal_available entry then (Inl CE_InsufficientAvailable, l)
          else case ts_checked_add now (cl_withdrawal_delay l) of
              None \<Rightarrow> (Inl CE_AmountOverflow, l)
            | Some matures_at \<Rightarrow>
                (Inr matures_at, log_balance account
                  (balance_update account (\<lambda>x. x\<lparr> bal_pending := value, bal_matures_at := matures_at \<rparr>) l)))"

definition execute_withdrawal ::
  "account_idx \<Rightarrow> ts \<Rightarrow> custody_ledger \<Rightarrow> (custody_error + amount) \<times> custody_ledger" where
  "execute_withdrawal account now l =
     (case cl_account l account of
        None \<Rightarrow> (Inl CE_UnknownAccount, l)
      | Some entry \<Rightarrow>
          if bal_pending entry = 0 then (Inl NoWithdrawalPending, l)
          else if now < bal_matures_at entry then (Inl WithdrawalNotMatured, l)
          else
            let value = min (bal_pending entry) (bal_balance entry) in
            (Inr value, log_balance account
              ((balance_update account (\<lambda>x. x\<lparr> bal_balance := saturating_sub (bal_balance x) value, bal_pending := 0 \<rparr>) l)
                 \<lparr> cl_withdrawn := saturating_add (cl_withdrawn l) value \<rparr>)))"

definition execute_one :: "ts \<Rightarrow> nat \<Rightarrow> u32 \<times> custody_ledger \<Rightarrow> u32 \<times> custody_ledger" where
  "execute_one now index acc =
     (case execute_withdrawal (word_of_nat index) now (snd acc) of
        (Inl _, l) \<Rightarrow> (fst acc, l)
      | (Inr _, l) \<Rightarrow> (saturating_add (fst acc) 1, l))"

text \<open>The loop ends at the first index that does not fit a \<open>u32\<close>.\<close>

definition execute_matured_withdrawals :: "ts \<Rightarrow> custody_ledger \<Rightarrow> u32 \<times> custody_ledger" where
  "execute_matured_withdrawals now l =
     fold (execute_one now) (takeWhile (\<lambda>index. index < 2 ^ 32) [0..<length (cl_balances l)]) (0, l)"

definition credits_of :: "escrow \<Rightarrow> outcome \<Rightarrow> (account_idx \<times> amount) list" where
  "credits_of x out =
     (case payout_goes_to_requester out (es_side x) of
        Some True \<Rightarrow> [(es_requester x, escrow_notional x), (es_maker x, 0)]
      | Some False \<Rightarrow> [(es_maker x, escrow_notional x), (es_requester x, 0)]
      | None \<Rightarrow> [(es_requester x, es_requester_contribution x), (es_maker x, es_maker_contribution x)])"

definition credit_account :: "account_idx \<times> amount \<Rightarrow> custody_ledger \<Rightarrow> custody_ledger" where
  "credit_account c l =
     balance_update (fst c) (\<lambda>x. x\<lparr> bal_balance := saturating_add (bal_balance x) (snd c) \<rparr>) l"

definition custody_settle_escrow ::
  "escrow_id \<Rightarrow> contract_idx \<Rightarrow> outcome \<Rightarrow> custody_ledger \<Rightarrow> (custody_error + bool) \<times> custody_ledger" where
  "custody_settle_escrow i contract out l =
     (case cl_escrow l i of
        None \<Rightarrow> (Inl UnknownEscrow, l)
      | Some x \<Rightarrow>
          if es_contract x \<noteq> contract then (Inl EscrowContractMismatch, l)
          else if \<not> escrow_is_locked x then (Inr False, l)
          else
            let credits = credits_of x out;
                l1 = fold credit_account credits l;
                l2 = fold (log_balance \<circ> fst) credits l1
            in (Inr True, l2\<lparr> cl_escrows := upd_idx (cl_escrows l2) i (\<lambda>_. mark_settled
                 (escrow_locked (es_contract x) (es_side x) (es_size x) (es_requester x) (es_maker x)
                    (es_requester_contribution x) (es_maker_contribution x))) \<rparr>))"

section \<open>Debits\<close>

type_synonym debits = "(account_idx \<times> amount) option list"

definition debits_default :: debits where
  "debits_default = replicate (MAX_LEGS + 1) None"

fun debits_add :: "account_idx \<Rightarrow> amount \<Rightarrow> debits \<Rightarrow> debits option" where
  "debits_add account value [] = None"
| "debits_add account value (Some (existing, owed) # rest) =
     (if existing = account then
        (case amount_checked_add owed value of
           None \<Rightarrow> None
         | Some owed' \<Rightarrow> Some (Some (existing, owed') # rest))
      else
        (case debits_add account value rest of
           None \<Rightarrow> None
         | Some rest' \<Rightarrow> Some (Some (existing, owed) # rest')))"
| "debits_add account value (None # rest) = Some (Some (account, value) # rest)"

definition debits_entries :: "debits \<Rightarrow> (account_idx \<times> amount) list" where
  "debits_entries d = somes d"

section \<open>The settlement transaction\<close>

definition debit_leg :: "ts \<Rightarrow> account_idx \<Rightarrow> nat \<times> bundle_leg \<Rightarrow> debits \<Rightarrow> settle_error + debits" where
  "debit_leg now requester entry d =
     (let index = fst entry; leg = snd entry;
          leg_id = (if index < 2 ^ 8 then word_of_nat index else u_max) in
      if now \<ge> bl_quote_expiry leg then Inl (QuoteExpired leg_id)
      else
        and_then (ok_or (bl_maker_contribution leg) SE_AmountOverflow) (\<lambda>mc.
        and_then (ok_or (bl_requester_contribution leg) SE_AmountOverflow) (\<lambda>rc.
        and_then (ok_or (debits_add (bl_maker leg) mc d) SE_AmountOverflow) (\<lambda>d1.
        ok_or (debits_add requester rc d1) SE_AmountOverflow))))"

definition check_debit :: "custody_ledger \<Rightarrow> account_idx \<times> amount \<Rightarrow> unit \<Rightarrow> settle_error + unit" where
  "check_debit l entry _ =
     (if cl_account l (fst entry) = None then Inl SE_UnknownAccount
      else if cl_balance l (fst entry) < snd entry then Inl (SE_InsufficientFunds (fst entry))
      else Inr ())"

definition validate :: "custody_ledger \<Rightarrow> settlement_bundle \<Rightarrow> ts \<Rightarrow> settle_error + debits" where
  "validate l b now =
     (if bu_n_legs b = 0 then Inl SE_NoLegs
      else if unat (bu_n_legs b) > MAX_LEGS then Inl SE_TooManyLegs
      else if nonce_used l (bu_nonce b) then Inl NonceReused
      else
        and_then (fold_res (debit_leg now (bu_requester b)) (enumerate 0 (bundle_legs b)) debits_default) (\<lambda>d.
        and_then (fold_res (check_debit l) (debits_entries d) ()) (\<lambda>_. Inr d)))"

definition debit_account :: "account_idx \<times> amount \<Rightarrow> custody_ledger \<Rightarrow> custody_ledger" where
  "debit_account entry l =
     balance_update (fst entry) (\<lambda>x. x\<lparr> bal_balance := saturating_sub (bal_balance x) (snd entry) \<rparr>) l"

definition amount_or_zero :: "amount option \<Rightarrow> amount" where
  "amount_or_zero x = (case x of None \<Rightarrow> 0 | Some v \<Rightarrow> v)"

definition escrow_of_leg :: "account_idx \<Rightarrow> bundle_leg \<Rightarrow> escrow" where
  "escrow_of_leg requester leg =
     escrow_locked (bl_contract leg) (bl_side leg) (bl_size leg) requester (bl_maker leg)
       (amount_or_zero (bl_requester_contribution leg)) (amount_or_zero (bl_maker_contribution leg))"

definition form_escrow ::
  "account_idx \<Rightarrow> nat \<times> bundle_leg \<Rightarrow> escrow_id list \<times> custody_ledger \<Rightarrow> escrow_id list \<times> custody_ledger" where
  "form_escrow requester entry acc =
     (let l = snd acc; n = length (cl_escrows l);
          i = (if n < 2 ^ 32 then word_of_nat n else u_max)
      in ((fst acc)[fst entry := i], l\<lparr> cl_escrows := cl_escrows l @ [escrow_of_leg requester (snd entry)] \<rparr>))"

definition commit_settlement :: "settlement_bundle \<Rightarrow> debits \<Rightarrow> custody_ledger \<Rightarrow> settle_receipt \<times> custody_ledger" where
  "commit_settlement b d l =
     (let l1 = fold debit_account (debits_entries d) l;
          l2 = fold (log_balance \<circ> fst) (debits_entries d) l1;
          (escrows, l3) = fold (form_escrow (bu_requester b)) (enumerate 0 (bundle_legs b)) (replicate MAX_LEGS 0, l2)
      in (\<lparr> sr_escrows = escrows, sr_n_escrows = bu_n_legs b \<rparr>,
          l3\<lparr> cl_resolved := (cl_resolved l3)(bu_nonce b \<mapsto> TxSettled) \<rparr>))"

text \<open>A hook: its own state, and what it does to the ledger at the sampled instant.\<close>

type_synonym 'h settle_hook = "'h \<times> ('h \<Rightarrow> custody_ledger \<Rightarrow> ts \<Rightarrow> 'h \<times> custody_ledger)"

record 'h custody =
  cu_ledger :: custody_ledger
  cu_on_settle_entry :: "'h settle_hook option"

definition custody_new :: "dur \<Rightarrow> u32 \<Rightarrow> u32 \<Rightarrow> 'h custody" where
  "custody_new delay accounts escrows =
     \<lparr> cu_ledger = \<lparr> cl_balances = replicate (unat accounts) balance_default, cl_escrows = [],
         cl_max_escrows = unat escrows, cl_resolved = Map.empty, cl_pending = [],
         cl_withdrawal_delay = delay, cl_deposited = 0, cl_withdrawn = 0, cl_log = chain_log_new \<rparr>,
       cu_on_settle_entry = None \<rparr>"

definition on_settle_entry :: "'h settle_hook \<Rightarrow> 'h custody \<Rightarrow> 'h custody" where
  "on_settle_entry hook c = c\<lparr> cu_on_settle_entry := Some hook \<rparr>"

definition fire_hook :: "ts \<Rightarrow> 'h custody \<Rightarrow> 'h custody" where
  "fire_hook now c =
     (case cu_on_settle_entry c of
        None \<Rightarrow> c
      | Some (h, f) \<Rightarrow>
          (case f h (cu_ledger c) now of
             (h', l') \<Rightarrow> c\<lparr> cu_ledger := l', cu_on_settle_entry := Some (h', f) \<rparr>))"

definition precheck :: "ts \<Rightarrow> settlement_bundle \<Rightarrow> 'h custody \<Rightarrow> settle_error + unit" where
  "precheck now b c = and_then (validate (cu_ledger c) b now) (\<lambda>_. Inr ())"

definition settle :: "ts \<Rightarrow> settlement_bundle \<Rightarrow> 'h custody \<Rightarrow> (settle_error + settle_receipt) \<times> 'h custody" where
  "settle now b c =
     (let c1 = fire_hook now c; l = cu_ledger c1 in
      case validate l b now of
        Inl e \<Rightarrow> (Inl e, c1)
      | Inr d \<Rightarrow>
          if length (cl_escrows l) + unat (bu_n_legs b) > cl_max_escrows l then (Inl EscrowCapacityExhausted, c1)
          else case commit_settlement b d l of
              (receipt, l') \<Rightarrow> (Inr receipt, c1\<lparr> cu_ledger := l' \<rparr>))"

section \<open>The queue\<close>

definition submit :: "settlement_bundle \<Rightarrow> 'h custody \<Rightarrow> submit_ack \<times> 'h custody" where
  "submit b c = (\<lparr> ack_nonce = bu_nonce b \<rparr>, c\<lparr> cu_ledger := (cu_ledger c)\<lparr> cl_pending := cl_pending (cu_ledger c) @ [b] \<rparr> \<rparr>)"

definition include_next :: "ts \<Rightarrow> 'h custody \<Rightarrow> included_tx option \<times> 'h custody" where
  "include_next now c =
     (case cl_pending (cu_ledger c) of
        [] \<Rightarrow> (None, c)
      | b # rest \<Rightarrow>
          let n = bu_nonce b; c1 = c\<lparr> cu_ledger := (cu_ledger c)\<lparr> cl_pending := rest \<rparr> \<rparr> in
          (case cl_resolved (cu_ledger c1) n of
             Some existing \<Rightarrow> (Some \<lparr> tx_nonce = n, tx_outcome = Inl NonceReused, tx_status_of = existing \<rparr>, c1)
           | None \<Rightarrow>
               (case settle now b c1 of
                  (outcome, c2) \<Rightarrow>
                    let status = (case outcome of Inr _ \<Rightarrow> TxSettled | Inl _ \<Rightarrow> TxReverted);
                        l2 = cu_ledger c2;
                        l3 = l2\<lparr> cl_resolved := (case cl_resolved l2 n of
                               None \<Rightarrow> (cl_resolved l2)(n \<mapsto> status) | Some _ \<Rightarrow> cl_resolved l2) \<rparr>;
                        status' = nonce_status l3 n;
                        l4 = l3\<lparr> cl_log := log_append (SettlementResolved n status') (cl_log l3) \<rparr>
                    in (Some \<lparr> tx_nonce = n, tx_outcome = outcome, tx_status_of = status' \<rparr>, c2\<lparr> cu_ledger := l4 \<rparr>))))"

text \<open>
  The instants of the successive inclusions are \<open>clock k\<close>, \<open>clock (k + 1)\<close>, and so on. The loop is a
  partial function: \<open>None\<close> is a loop that does not end.
\<close>

partial_function (option) include_all ::
  "(nat \<Rightarrow> ts) \<Rightarrow> nat \<Rightarrow> included_tx list \<Rightarrow> 'h custody \<Rightarrow> (included_tx list \<times> 'h custody) option" where
  "include_all clock k included c =
     (case include_next (clock k) c of
        (None, c') \<Rightarrow> Some (included, c')
      | (Some tx, c') \<Rightarrow> include_all clock (Suc k) (included @ [tx]) c')"

definition drop_next_submission :: "'h custody \<Rightarrow> bool \<times> 'h custody" where
  "drop_next_submission c =
     (case cl_pending (cu_ledger c) of
        [] \<Rightarrow> (False, c)
      | _ # rest \<Rightarrow> (True, c\<lparr> cu_ledger := (cu_ledger c)\<lparr> cl_pending := rest \<rparr> \<rparr>))"

end
