(* ===== verification/Custody_Debits.thy ===== *)
theory Custody_Debits
  imports Custody
begin

text \<open>
  What the validation of a bundle accepts, and what the debits it returns add up to: the table of
  debits holds each account once, with everything the bundle owes from it.
\<close>

section \<open>The table of debits\<close>

definition owed_in :: "(account_idx \<times> amount) list \<Rightarrow> account_idx \<Rightarrow> nat" where
  "owed_in es a = (\<Sum>x\<leftarrow>es. if fst x = a then unat (snd x) else 0)"

definition debits_repr :: "debits \<Rightarrow> (account_idx \<times> amount) list \<Rightarrow> nat \<Rightarrow> bool" where
  "debits_repr d ps n \<longleftrightarrow> d = map Some ps @ replicate n None \<and> distinct (map fst ps)"

lemma owed_in_simps [simp]:
  "owed_in [] a = 0"
  "owed_in (x # es) a = (if fst x = a then unat (snd x) else 0) + owed_in es a"
  "owed_in (es @ fs) a = owed_in es a + owed_in fs a"
  by (simp_all add: owed_in_def)

lemma owed_in_absent: "a \<notin> fst ` set es \<Longrightarrow> owed_in es a = 0"
  by (induction es) auto

lemma owed_in_entry: "distinct (map fst es) \<Longrightarrow> x \<in> set es \<Longrightarrow> owed_in es (fst x) = unat (snd x)"
  by (induction es) (auto simp: owed_in_absent)

lemma debits_entries_repr [simp]: "debits_repr d ps n \<Longrightarrow> debits_entries d = ps"
  by (auto simp: debits_repr_def debits_entries_def)

lemma debits_add_repr:
  assumes "debits_add a v (map Some ps @ replicate n None) = Some d'" and "distinct (map fst ps)"
  shows "\<exists>ps' n'. debits_repr d' ps' n' \<and> length ps' + n' = length ps + n \<and>
    fst ` set ps' = insert a (fst ` set ps) \<and>
    (\<forall>x. owed_in ps' x = owed_in ps x + (if x = a then unat v else 0))"
  using assms
proof (induction ps arbitrary: d')
  case Nil
  then obtain m where n: "n = Suc m" by (cases n) simp_all
  with Nil show ?case
    by (intro exI[of _ "[(a, v)]"] exI[of _ m]) (auto simp: debits_repr_def)
next
  case (Cons p ps)
  show ?case
  proof (cases "fst p = a")
    case True
    with Cons.prems obtain t where t: "amount_checked_add (snd p) v = Some t"
      and d': "d' = map Some ((a, t) # ps) @ replicate n None"
      by (cases p) (auto split: option.splits)
    have "a \<notin> fst ` set ps" using Cons.prems(2) True by auto
    moreover have "unat t = unat (snd p) + unat v"
      using t by (simp add: amount_checked_add_def checked_add_Some_iff)
    ultimately show ?thesis using d' True Cons.prems(2)
      by (intro exI[of _ "(a, t) # ps"] exI[of _ n]) (auto simp: debits_repr_def)
  next
    case False
    with Cons.prems obtain e where e: "debits_add a v (map Some ps @ replicate n None) = Some e"
      and d': "d' = Some p # e" by (cases p) (auto split: option.splits)
    from Cons.IH[OF e] Cons.prems(2) obtain ps' n' where
      "debits_repr e ps' n'" "length ps' + n' = length ps + n" "fst ` set ps' = insert a (fst ` set ps)"
      "\<forall>x. owed_in ps' x = owed_in ps x + (if x = a then unat v else 0)" by auto
    with d' False Cons.prems(2) show ?thesis
      by (intro exI[of _ "p # ps'"] exI[of _ n']) (auto simp: debits_repr_def)
  qed
qed

lemma debits_add_Some:
  assumes "debits_add a v d = Some d'" and "debits_repr d ps n"
  shows "\<exists>ps' n'. debits_repr d' ps' n' \<and> length ps' + n' = length ps + n \<and>
    fst ` set ps' = insert a (fst ` set ps) \<and>
    (\<forall>x. owed_in ps' x = owed_in ps x + (if x = a then unat v else 0))"
  using assms debits_add_repr[of a v ps n d'] by (simp add: debits_repr_def)

lemma debits_add_None:
  assumes "debits_add a v d = None" and "debits_repr d ps n"
  shows "a \<in> fst ` set ps \<and> 2 ^ 64 \<le> owed_in ps a + unat v \<or> a \<notin> fst ` set ps \<and> n = 0"
proof -
  have "debits_add a v (map Some ps @ replicate n None) = None \<Longrightarrow> distinct (map fst ps) \<Longrightarrow> ?thesis"
  proof (induction ps)
    case Nil
    then show ?case by (cases n) simp_all
  next
    case (Cons p ps)
    show ?case
    proof (cases "fst p = a")
      case True
      with Cons.prems show ?thesis
        by (cases p) (auto simp: amount_checked_add_def checked_add_None_iff split: option.splits)
    next
      case False
      with Cons show ?thesis by (cases p) (auto split: option.splits)
    qed
  qed
  with assms show ?thesis by (simp add: debits_repr_def)
qed

section \<open>The loop over the legs\<close>

lemma debit_leg_Inr:
  assumes "debit_leg now r (k, x) d = Inr d'" and "debits_repr d ps n"
  shows "now < bl_quote_expiry x \<and> bl_fill_price x \<le> UNIT \<and>
    (\<exists>ps' n'. debits_repr d' ps' n' \<and> length ps' + n' = length ps + n \<and>
      fst ` set ps' = insert r (insert (bl_maker x) (fst ` set ps)) \<and>
      (\<forall>a. owed_in ps' a = owed_in ps a + leg_due r a x))"
proof -
  from assms(1) obtain mc rc d1 where live: "now < bl_quote_expiry x"
    and mc: "bl_maker_contribution x = Some mc" and rc: "bl_requester_contribution x = Some rc"
    and d1: "debits_add (bl_maker x) mc d = Some d1" and d2: "debits_add r rc d1 = Some d'"
    by (auto simp: debit_leg_def Let_def and_then_Inr_iff not_le split: if_splits)
  from debits_add_Some[OF d1 assms(2)] obtain ps1 n1 where 1: "debits_repr d1 ps1 n1"
    "length ps1 + n1 = length ps + n" "fst ` set ps1 = insert (bl_maker x) (fst ` set ps)"
    "\<forall>a. owed_in ps1 a = owed_in ps a + (if a = bl_maker x then unat mc else 0)" by blast
  from debits_add_Some[OF d2 1(1)] obtain ps2 n2 where 2: "debits_repr d' ps2 n2"
    "length ps2 + n2 = length ps1 + n1" "fst ` set ps2 = insert r (fst ` set ps1)"
    "\<forall>a. owed_in ps2 a = owed_in ps1 a + (if a = r then unat rc else 0)" by blast
  have p: "bl_fill_price x \<le> UNIT" and m: "unat mc = mc_nat x" and c: "unat rc = rc_nat x"
    using mc rc by (simp_all add: bl_contribution_Some_iff)
  have "\<forall>a. owed_in ps2 a = owed_in ps a + leg_due r a x"
    using 1(4) 2(4) m c by (auto simp: leg_due_def)
  moreover have "fst ` set ps2 = insert r (insert (bl_maker x) (fst ` set ps))" using 2(3) unfolding 1(3) .
  moreover have "length ps2 + n2 = length ps + n" using 1(2) 2(2) by linarith
  ultimately show ?thesis using live p 2(1) by blast
qed

lemma debit_leg_ok:
  assumes repr: "debits_repr d ps n" and live: "now < bl_quote_expiry x" and p: "bl_fill_price x \<le> UNIT"
    and fits: "\<forall>a. owed_in ps a + leg_due r a x < 2 ^ 64"
    and room: "card (insert r (insert (bl_maker x) (fst ` set ps))) \<le> length ps + n"
  shows "\<exists>d'. debit_leg now r (k, x) d = Inr d'"
proof -
  have mk: "mc_nat x < 2 ^ 64" using spec[OF fits, of "bl_maker x"] by (simp add: leg_due_def)
  have rq: "rc_nat x < 2 ^ 64" using spec[OF fits, of r] by (simp add: leg_due_def)
  obtain mc where mc: "bl_maker_contribution x = Some mc" "unat mc = mc_nat x"
    using word_with_unat[where 'a = 64, of "mc_nat x"] mk p by (auto simp: bl_contribution_Some_iff)
  obtain rc where rc: "bl_requester_contribution x = Some rc" "unat rc = rc_nat x"
    using word_with_unat[where 'a = 64, of "rc_nat x"] rq by (auto simp: bl_contribution_Some_iff)
  have card: "card (fst ` set es) = length es" if "distinct (map fst es)" for es :: "(account_idx \<times> amount) list"
    using distinct_card[OF that] by simp
  have "debits_add (bl_maker x) mc d \<noteq> None"
  proof
    assume "debits_add (bl_maker x) mc d = None"
    from debits_add_None[OF this repr] show False
    proof
      assume "bl_maker x \<in> fst ` set ps \<and> 2 ^ 64 \<le> owed_in ps (bl_maker x) + unat mc"
      moreover have "unat mc \<le> leg_due r (bl_maker x) x" using mc(2) by (simp add: leg_due_def)
      moreover have "owed_in ps (bl_maker x) + leg_due r (bl_maker x) x < 2 ^ 64" using fits by (rule spec)
      ultimately show False by linarith
    next
      assume full: "bl_maker x \<notin> fst ` set ps \<and> n = 0"
      then have "card (insert (bl_maker x) (fst ` set ps)) = Suc (length ps)"
        using card repr by (simp add: debits_repr_def)
      moreover have "card (insert (bl_maker x) (fst ` set ps)) \<le> card (insert r (insert (bl_maker x) (fst ` set ps)))"
        by (rule card_mono) auto
      ultimately show False using room full by simp
    qed
  qed
  then obtain d1 where d1: "debits_add (bl_maker x) mc d = Some d1" by blast
  from debits_add_Some[OF d1 repr] obtain ps1 n1 where 1: "debits_repr d1 ps1 n1"
    "length ps1 + n1 = length ps + n" "fst ` set ps1 = insert (bl_maker x) (fst ` set ps)"
    "\<forall>a. owed_in ps1 a = owed_in ps a + (if a = bl_maker x then unat mc else 0)" by blast
  have "debits_add r rc d1 \<noteq> None"
  proof
    assume "debits_add r rc d1 = None"
    from debits_add_None[OF this 1(1)] show False
    proof
      assume "r \<in> fst ` set ps1 \<and> 2 ^ 64 \<le> owed_in ps1 r + unat rc"
      then have "2 ^ 64 \<le> owed_in ps r + (if r = bl_maker x then unat mc else 0) + unat rc"
        using spec[OF 1(4), of r] by simp
      moreover have "(if r = bl_maker x then unat mc else 0) + unat rc = leg_due r r x"
        using mc(2) rc(2) by (simp add: leg_due_def)
      moreover have "owed_in ps r + leg_due r r x < 2 ^ 64" using fits by (rule spec)
      ultimately show False by linarith
    next
      assume full: "r \<notin> fst ` set ps1 \<and> n1 = 0"
      then have "card (insert r (fst ` set ps1)) = Suc (length ps1)"
        using card[of ps1] 1(1) by (simp add: debits_repr_def)
      with room full 1 show False by simp
    qed
  qed
  then show ?thesis using live mc(1) rc(1) d1 by (auto simp: debit_leg_def Let_def not_le)
qed

lemma debit_legs_Inr:
  assumes "fold_res (debit_leg now r) (enumerate k legs) d = Inr d'" and "debits_repr d ps n"
  shows "(\<forall>x \<in> set legs. now < bl_quote_expiry x \<and> bl_fill_price x \<le> UNIT) \<and>
    (\<exists>ps' n'. debits_repr d' ps' n' \<and> length ps' + n' = length ps + n \<and>
      fst ` set ps' = named_accounts r legs \<union> fst ` set ps \<and>
      (\<forall>a. owed_in ps' a = owed_in ps a + legs_due r legs a))"
  using assms
proof (induction legs arbitrary: k d ps n)
  case Nil
  then show ?case by (auto simp: named_accounts_def)
next
  case (Cons x legs)
  from Cons.prems(1) obtain d1 where d1: "debit_leg now r (k, x) d = Inr d1"
    and rest: "fold_res (debit_leg now r) (enumerate (Suc k) legs) d1 = Inr d'"
    by (auto simp: and_then_Inr_iff)
  from debit_leg_Inr[OF d1 Cons.prems(2)] obtain ps1 n1 where live: "now < bl_quote_expiry x" "bl_fill_price x \<le> UNIT"
    and 1: "debits_repr d1 ps1 n1" "length ps1 + n1 = length ps + n"
      "fst ` set ps1 = insert r (insert (bl_maker x) (fst ` set ps))"
      "\<forall>a. owed_in ps1 a = owed_in ps a + leg_due r a x" by blast
  from Cons.IH[OF rest 1(1)] obtain ps2 n2 where
    more: "\<forall>x \<in> set legs. now < bl_quote_expiry x \<and> bl_fill_price x \<le> UNIT"
    and 2: "debits_repr d' ps2 n2" "length ps2 + n2 = length ps1 + n1"
      "fst ` set ps2 = named_accounts r legs \<union> fst ` set ps1"
      "\<forall>a. owed_in ps2 a = owed_in ps1 a + legs_due r legs a" by blast
  have "fst ` set ps2 = named_accounts r (x # legs) \<union> fst ` set ps"
    using 1(3) 2(3) by (auto simp: named_accounts_def)
  moreover have "\<forall>a. owed_in ps2 a = owed_in ps a + legs_due r (x # legs) a"
    using 1(4) 2(4) by simp
  ultimately show ?case using live more 2(1,2) 1(2) by auto
qed

lemma debit_legs_ok:
  assumes "debits_repr d ps n" and "\<forall>x \<in> set legs. now < bl_quote_expiry x \<and> bl_fill_price x \<le> UNIT"
    and "\<forall>a. owed_in ps a + legs_due r legs a < 2 ^ 64"
    and "card (named_accounts r legs \<union> fst ` set ps) \<le> length ps + n"
  shows "\<exists>d'. fold_res (debit_leg now r) (enumerate k legs) d = Inr d'"
  using assms
proof (induction legs arbitrary: k d ps n)
  case Nil
  then show ?case by simp
next
  case (Cons x legs)
  have named: "named_accounts r (x # legs) \<union> fst ` set ps =
      named_accounts r legs \<union> insert r (insert (bl_maker x) (fst ` set ps))" by (auto simp: named_accounts_def)
  have "card (insert r (insert (bl_maker x) (fst ` set ps))) \<le> card (named_accounts r (x # legs) \<union> fst ` set ps)"
    unfolding named by (rule card_mono) (auto simp: named_accounts_def)
  then have room: "card (insert r (insert (bl_maker x) (fst ` set ps))) \<le> length ps + n"
    using Cons.prems(4) by simp
  have "\<forall>a. owed_in ps a + leg_due r a x < 2 ^ 64"
  proof
    fix a from spec[OF Cons.prems(3), of a] show "owed_in ps a + leg_due r a x < 2 ^ 64" by simp
  qed
  from debit_leg_ok[where now = now and k = k, OF Cons.prems(1) _ _ this room] Cons.prems(2)
  obtain d1 where d1: "debit_leg now r (k, x) d = Inr d1" by auto
  from debit_leg_Inr[OF d1 Cons.prems(1)] obtain ps1 n1 where 1: "debits_repr d1 ps1 n1"
      "length ps1 + n1 = length ps + n" "fst ` set ps1 = insert r (insert (bl_maker x) (fst ` set ps))"
      "\<forall>a. owed_in ps1 a = owed_in ps a + leg_due r a x" by blast
  have "\<exists>d'. fold_res (debit_leg now r) (enumerate (Suc k) legs) d1 = Inr d'"
    by (rule Cons.IH[OF 1(1)]) (use Cons.prems 1 named in \<open>simp_all add: add.assoc\<close>)
  then show ?case using d1 by simp
qed

lemma check_debits_iff:
  "fold_res (check_debit l) es () = Inr () \<longleftrightarrow> (\<forall>x \<in> set es. cl_account l (fst x) \<noteq> None \<and> snd x \<le> cl_balance l (fst x))"
  by (induction es) (auto simp: check_debit_def and_then_def not_less)

section \<open>What is accepted\<close>

text \<open>The conditions of a settlement, over natural numbers, with every account covering its sum.\<close>

definition acceptable :: "custody_ledger \<Rightarrow> settlement_bundle \<Rightarrow> ts \<Rightarrow> bool" where
  "acceptable l b now \<longleftrightarrow> 1 \<le> unat (bu_n_legs b) \<and> unat (bu_n_legs b) \<le> MAX_LEGS \<and>
     cl_resolved l (bu_nonce b) \<noteq> Some TxSettled \<and>
     (\<forall>x \<in> set (bundle_legs b). now < bl_quote_expiry x \<and> bl_fill_price x \<le> UNIT) \<and>
     (\<forall>a \<in> named_accounts (bu_requester b) (bundle_legs b). unat a < length (cl_balances l)) \<and>
     (\<forall>a. bundle_due b a \<le> unat (cl_balance l a))"

lemma debits_default_repr: "debits_repr debits_default [] (MAX_LEGS + 1)"
  by (simp add: debits_repr_def debits_default_def)

lemma cl_account_known: "cl_account l a \<noteq> None \<longleftrightarrow> unat a < length (cl_balances l)"
  by (auto simp: cl_account_def get_idx_None_iff)

lemmas cl_account_exists = cl_account_known[unfolded not_None_eq]

lemma card_named: "card (named_accounts r legs) \<le> length legs + 1"
proof -
  have "card (insert r (bl_maker ` set legs)) \<le> Suc (card (bl_maker ` set legs))" by (rule card_insert_le_m1) auto
  also have "card (bl_maker ` set legs) \<le> length legs" by (metis card_image_le card_length finite_set order_trans)
  finally show ?thesis by (auto simp: named_accounts_def)
qed

lemma bundle_legs_length: "length (bundle_legs b) \<le> unat (bu_n_legs b)"
  by (simp add: bundle_legs_def)

lemma validate_Inr:
  assumes "validate l b now = Inr d"
  shows "acceptable l b now \<and> (\<exists>n. debits_repr d (debits_entries d) n) \<and>
    fst ` set (debits_entries d) = named_accounts (bu_requester b) (bundle_legs b) \<and>
    (\<forall>a. owed_in (debits_entries d) a = bundle_due b a)"
proof -
  let ?legs = "bundle_legs b" and ?r = "bu_requester b"
  from assms have n0: "bu_n_legs b \<noteq> 0" and le: "unat (bu_n_legs b) \<le> MAX_LEGS" and nonce: "\<not> nonce_used l (bu_nonce b)"
    and d: "fold_res (debit_leg now ?r) (enumerate 0 ?legs) debits_default = Inr d"
    and ck: "fold_res (check_debit l) (debits_entries d) () = Inr ()"
    by (auto simp: validate_def and_then_Inr_iff split: if_splits)
  from debit_legs_Inr[OF d debits_default_repr] obtain ps n where
    live: "\<forall>x \<in> set ?legs. now < bl_quote_expiry x \<and> bl_fill_price x \<le> UNIT"
    and ps: "debits_repr d ps n" "fst ` set ps = named_accounts ?r ?legs" "\<forall>a. owed_in ps a = legs_due ?r ?legs a"
    by auto
  have e: "debits_entries d = ps" using ps(1) by simp
  have dist: "distinct (map fst ps)" using ps(1) by (simp add: debits_repr_def)
  have "bundle_due b a \<le> unat (cl_balance l a)" for a
  proof (cases "a \<in> fst ` set ps")
    case True
    then obtain x where x: "x \<in> set ps" "a = fst x" by auto
    then have "bundle_due b a = unat (snd x)" using owed_in_entry[OF dist x(1)] ps(3) by (simp add: bundle_due_def)
    with x ck show ?thesis unfolding check_debits_iff e by (simp add: word_le_nat_alt)
  next
    case False
    then show ?thesis using ps(2) legs_due_unnamed by (simp add: bundle_due_def)
  qed
  moreover have "\<forall>a \<in> named_accounts ?r ?legs. unat a < length (cl_balances l)"
    using ck unfolding check_debits_iff e ps(2)[symmetric] by (auto simp: cl_account_exists)
  moreover have "1 \<le> unat (bu_n_legs b)" using n0 by (simp add: Suc_le_eq unat_gt_0)
  ultimately show ?thesis
    using live le nonce ps e by (auto simp: acceptable_def nonce_used_def bundle_due_def)
qed

lemma validate_ok:
  assumes ok: "acceptable l b now"
  shows "\<exists>d. validate l b now = Inr d"
proof -
  let ?legs = "bundle_legs b" and ?r = "bu_requester b"
  have fits: "\<forall>a. owed_in [] a + legs_due ?r ?legs a < 2 ^ 64"
  proof
    fix a
    have "legs_due ?r ?legs a \<le> unat (cl_balance l a)" using ok by (simp add: acceptable_def bundle_due_def)
    also have "\<dots> < 2 ^ 64" using unat_lt_size[of "cl_balance l a"] by simp
    finally show "owed_in [] a + legs_due ?r ?legs a < 2 ^ 64" by simp
  qed
  have room: "card (named_accounts ?r ?legs \<union> fst ` set []) \<le> length [] + (MAX_LEGS + 1)"
    using card_named[of ?r ?legs] bundle_legs_length[of b] ok by (simp add: acceptable_def)
  from debit_legs_ok[OF debits_default_repr _ fits room, of now 0] ok
  obtain d where d: "fold_res (debit_leg now ?r) (enumerate 0 ?legs) debits_default = Inr d" by (auto simp: acceptable_def)
  from debit_legs_Inr[OF d debits_default_repr] obtain ps n where
    ps: "debits_repr d ps n" "fst ` set ps = named_accounts ?r ?legs" "\<forall>a. owed_in ps a = legs_due ?r ?legs a" by auto
  have dist: "distinct (map fst ps)" using ps(1) by (simp add: debits_repr_def)
  have "cl_account l (fst x) \<noteq> None \<and> snd x \<le> cl_balance l (fst x)" if x: "x \<in> set ps" for x
  proof
    have "fst x \<in> named_accounts ?r ?legs" using x ps(2) by auto
    then show "cl_account l (fst x) \<noteq> None" using ok by (simp add: cl_account_exists acceptable_def)
    have "unat (snd x) = bundle_due b (fst x)" using owed_in_entry[OF dist x] ps(3) by (simp add: bundle_due_def)
    then show "snd x \<le> cl_balance l (fst x)" using ok by (simp add: acceptable_def word_le_nat_alt)
  qed
  then have "fold_res (check_debit l) (debits_entries d) () = Inr ()"
    unfolding check_debits_iff debits_entries_repr[OF ps(1)] by blast
  moreover have "bu_n_legs b \<noteq> 0" "\<not> MAX_LEGS < unat (bu_n_legs b)" "\<not> nonce_used l (bu_nonce b)"
    using ok by (auto simp: acceptable_def nonce_used_def)
  ultimately show ?thesis using d by (simp add: validate_def)
qed

end
