(* ===== verification/Vault.thy ===== *)
theory Vault
  imports Config Refinement
begin

text \<open>
  The abstract specification of a settlement contract: every account has some free money, every
  escrow is a pot that two parties filled, and money is only ever brought in, taken out, locked by
  both parties of a pot, or paid out of a pot. All quantities are natural numbers.
\<close>

record pot =
  pot_requester :: account_idx
  pot_maker :: account_idx
  pot_rc :: nat
  pot_mc :: nat

record vault =
  v_free :: "account_idx \<Rightarrow> nat"
  v_pots :: "pot option list"
  v_in :: nat
  v_out :: nat

text \<open>Who gets a pot: one of its two parties, or each its own contribution.\<close>

datatype payout = ToRequester | ToMaker | Refund

fun share :: "payout \<Rightarrow> pot \<Rightarrow> account_idx \<Rightarrow> nat" where
  "share ToRequester p a = (if pot_requester p = a then pot_rc p + pot_mc p else 0)"
| "share ToMaker p a = (if pot_maker p = a then pot_rc p + pot_mc p else 0)"
| "share Refund p a = (if pot_requester p = a then pot_rc p else 0) + (if pot_maker p = a then pot_mc p else 0)"

definition pot_value :: "pot option \<Rightarrow> nat" where
  "pot_value x = (case x of None \<Rightarrow> 0 | Some p \<Rightarrow> pot_rc p + pot_mc p)"

definition fills :: "pot list \<Rightarrow> account_idx \<Rightarrow> nat" where
  "fills ps a = (\<Sum>p\<leftarrow>ps. share Refund p a)"

definition vault_start :: "vault \<Rightarrow> bool" where
  "vault_start v \<longleftrightarrow> v = \<lparr> v_free = (\<lambda>_. 0), v_pots = [], v_in = 0, v_out = 0 \<rparr>"

inductive vault_step :: "vault \<Rightarrow> vault \<Rightarrow> bool" where
  vault_deposit: "vault_step v (v\<lparr> v_free := (v_free v)(a := v_free v a + n), v_in := v_in v + n \<rparr>)"
| vault_withdraw: "n \<le> v_free v a \<Longrightarrow>
    vault_step v (v\<lparr> v_free := (v_free v)(a := v_free v a - n), v_out := v_out v + n \<rparr>)"
| vault_lock: "\<forall>a. fills ps a \<le> v_free v a \<Longrightarrow>
    vault_step v (v\<lparr> v_free := (\<lambda>a. v_free v a - fills ps a), v_pots := v_pots v @ map Some ps \<rparr>)"
| vault_pay: "i < length (v_pots v) \<Longrightarrow> v_pots v ! i = Some p \<Longrightarrow>
    vault_step v (v\<lparr> v_free := (\<lambda>a. v_free v a + share how p a), v_pots := (v_pots v)[i := None] \<rparr>)"

definition vault_conserved :: "vault \<Rightarrow> bool" where
  "vault_conserved v \<longleftrightarrow> (\<Sum>a\<in>UNIV. v_free v a) + sum_list (map pot_value (v_pots v)) + v_out v = v_in v"

lemma sum_share: "(\<Sum>a\<in>UNIV. share how p a) = pot_rc p + pot_mc p"
  by (cases how) (simp_all add: sum.distrib)

lemma sum_fills: "(\<Sum>a\<in>UNIV. fills ps a) = sum_list (map (pot_value \<circ> Some) ps)"
  by (induction ps) (simp_all add: fills_def sum.distrib sum_share pot_value_def del: share.simps)

lemma sum_change:
  fixes f :: "account_idx \<Rightarrow> nat"
  shows "(\<Sum>x\<in>UNIV. (f(a := n)) x) + f a = (\<Sum>x\<in>UNIV. f x) + n"
proof -
  have "(\<Sum>x\<in>UNIV. f x) = f a + (\<Sum>x\<in>UNIV - {a}. f x)" by (rule sum.remove) simp_all
  moreover have "(\<Sum>x\<in>UNIV. (f(a := n)) x) = n + (\<Sum>x\<in>UNIV - {a}. f x)"
    by (subst sum.remove[of _ a]) (auto intro!: sum.cong)
  ultimately show ?thesis by simp
qed

lemma sum_pots_paid:
  "i < length ps \<Longrightarrow> sum_list (map pot_value (ps[i := None])) + pot_value (ps ! i) = sum_list (map pot_value ps)"
  by (induction ps arbitrary: i) (auto simp: pot_value_def split: nat.splits)

lemma vault_step_conserved:
  assumes "vault_conserved v" and "vault_step v v'"
  shows "vault_conserved v'"
  using assms(2)
proof (cases rule: vault_step.cases)
  case (vault_deposit n a)
  with assms(1) sum_change[of "v_free v" a "v_free v a + n"] show ?thesis by (simp add: vault_conserved_def)
next
  case (vault_withdraw n a)
  with assms(1) sum_change[of "v_free v" a "v_free v a - n"] show ?thesis by (simp add: vault_conserved_def)
next
  case (vault_lock ps)
  have "(\<Sum>a\<in>UNIV. v_free v a - fills ps a) + (\<Sum>a\<in>UNIV. fills ps a) = (\<Sum>a\<in>UNIV. v_free v a)"
    using vault_lock(2) by (simp flip: sum.distrib)
  with assms(1) vault_lock sum_fills[of ps] show ?thesis by (simp add: vault_conserved_def comp_def)
next
  case (vault_pay i p how)
  have "(\<Sum>a\<in>UNIV. v_free v a + share how p a) = (\<Sum>a\<in>UNIV. v_free v a) + pot_value (Some p)"
    by (simp add: sum.distrib sum_share pot_value_def del: share.simps)
  with assms(1) vault_pay sum_pots_paid[of i "v_pots v"] show ?thesis by (simp add: vault_conserved_def)
qed

interpretation vault_system: inductive_invariant vault_start vault_step vault_conserved
proof unfold_locales
  show "vault_start v \<Longrightarrow> vault_conserved v" for v by (simp add: vault_start_def vault_conserved_def)
qed (rule vault_step_conserved)

lemma vault_free_bounded: "vault_conserved v \<Longrightarrow> v_free v a + v_out v \<le> v_in v"
proof -
  assume v: "vault_conserved v"
  have "v_free v a \<le> (\<Sum>a\<in>UNIV. v_free v a)" by (rule member_le_sum) simp_all
  with v show ?thesis by (simp add: vault_conserved_def)
qed

lemma vault_pot_bounded:
  assumes v: "vault_conserved v" and p: "Some p \<in> set (v_pots v)"
  shows "v_free v a + (pot_rc p + pot_mc p) \<le> v_in v"
proof -
  have "v_free v a \<le> (\<Sum>a\<in>UNIV. v_free v a)" by (rule member_le_sum) simp_all
  moreover have "pot_value (Some p) \<le> sum_list (map pot_value (v_pots v))"
    using p by (intro member_le_sum_list) auto
  ultimately show ?thesis using v by (simp add: vault_conserved_def pot_value_def)
qed

end
