(* ===== verification/Custody_Inv.thy ===== *)
theory Custody_Inv
  imports Custody_Debits Vault
begin

text \<open>
  Custody implements the vault: every public operation of the custody ledger is a run of the abstract
  settlement contract, with no saturation and no wrap-around anywhere, because all the money in it was
  deposited. The invariant of the ledger is the conservation of the vault with a well-formedness
  condition on escrows and tables.
\<close>

section \<open>Abstraction and invariant\<close>

definition pot_of :: "escrow \<Rightarrow> pot option" where
  "pot_of x = (if escrow_is_locked x then Some \<lparr> pot_requester = es_requester x, pot_maker = es_maker x,
     pot_rc = unat (es_requester_contribution x), pot_mc = unat (es_maker_contribution x) \<rparr> else None)"

definition held :: "custody_ledger \<Rightarrow> account_idx \<Rightarrow> nat" where
  "held l a = unat (cl_balance l a)"

definition vault_of :: "custody_ledger \<Rightarrow> vault" where
  "vault_of l = \<lparr> v_free = held l, v_pots = map pot_of (cl_escrows l),
     v_in = unat (cl_deposited l), v_out = unat (cl_withdrawn l) \<rparr>"

text \<open>An escrow names two known accounts and holds the two contributions of some fill price.\<close>

definition escrow_ok :: "custody_ledger \<Rightarrow> escrow \<Rightarrow> bool" where
  "escrow_ok l x \<longleftrightarrow> unat (es_requester x) < length (cl_balances l) \<and> unat (es_maker x) < length (cl_balances l) \<and>
     (\<exists>p. p \<le> 1000000 \<and> unat (es_requester_contribution x) = unat (es_size x) * p \<and>
        unat (es_maker_contribution x) = unat (es_size x) * (1000000 - p))"

definition tables_ok :: "custody_ledger \<Rightarrow> bool" where
  "tables_ok l \<longleftrightarrow> (\<forall>x \<in> set (cl_escrows l). escrow_ok l x) \<and> length (cl_escrows l) \<le> cl_max_escrows l \<and>
     cl_max_escrows l < 2 ^ 32 \<and> length (cl_balances l) < 2 ^ 32"

definition ledger_sound :: "custody_ledger \<Rightarrow> bool" where
  "ledger_sound l \<longleftrightarrow> vault_conserved (vault_of l) \<and> tables_ok l"

text \<open>A sound move: a run of the vault that leaves the tables in order and the queue and nonces alone.\<close>

definition sound_move :: "custody_ledger \<Rightarrow> custody_ledger \<Rightarrow> bool" where
  "sound_move l l' \<longleftrightarrow> vault_step\<^sup>*\<^sup>* (vault_of l) (vault_of l') \<and> (tables_ok l \<longrightarrow> tables_ok l') \<and>
     cl_resolved l' = cl_resolved l \<and> cl_pending l' = cl_pending l \<and> cl_max_escrows l' = cl_max_escrows l \<and>
     cl_withdrawal_delay l' = cl_withdrawal_delay l \<and> length (cl_balances l') = length (cl_balances l)"

lemma sound_move_refl [simp]: "sound_move l l"
  by (simp add: sound_move_def)

lemma sound_move_trans: "sound_move l m \<Longrightarrow> sound_move m n \<Longrightarrow> sound_move l n"
  unfolding sound_move_def by (auto intro: rtranclp_trans)

lemma sound_move_sound: "sound_move l l' \<Longrightarrow> ledger_sound l \<Longrightarrow> ledger_sound l'"
  unfolding sound_move_def ledger_sound_def using vault_system.invariant_along by blast

section \<open>Reading after writing\<close>

lemma cl_account_update:
  "cl_account (balance_update a f l) x = (if x = a then map_option f (cl_account l a) else cl_account l x)"
  by (simp add: cl_account_def balance_update_def)

lemma balance_update_frame [simp]:
  "cl_escrows (balance_update a f l) = cl_escrows l" "cl_resolved (balance_update a f l) = cl_resolved l"
  "cl_pending (balance_update a f l) = cl_pending l" "cl_max_escrows (balance_update a f l) = cl_max_escrows l"
  "cl_deposited (balance_update a f l) = cl_deposited l" "cl_withdrawn (balance_update a f l) = cl_withdrawn l"
  "cl_withdrawal_delay (balance_update a f l) = cl_withdrawal_delay l" "cl_log (balance_update a f l) = cl_log l"
  "length (cl_balances (balance_update a f l)) = length (cl_balances l)"
  by (simp_all add: balance_update_def)

lemma log_balance_frame [simp]:
  "cl_escrows (log_balance a l) = cl_escrows l" "cl_resolved (log_balance a l) = cl_resolved l"
  "cl_pending (log_balance a l) = cl_pending l" "cl_max_escrows (log_balance a l) = cl_max_escrows l"
  "cl_deposited (log_balance a l) = cl_deposited l" "cl_withdrawn (log_balance a l) = cl_withdrawn l"
  "cl_withdrawal_delay (log_balance a l) = cl_withdrawal_delay l" "cl_balances (log_balance a l) = cl_balances l"
  by (simp_all add: log_balance_def)

lemma reads_balances:
  "cl_balances l' = cl_balances l \<Longrightarrow> cl_account l' = cl_account l \<and> cl_balance l' = cl_balance l \<and>
     cl_available l' = cl_available l \<and> held l' = held l"
  by (simp add: cl_account_def cl_balance_def cl_available_def held_def fun_eq_iff)

lemma log_balance_reads [simp]:
  "cl_account (log_balance a l) = cl_account l" "held (log_balance a l) = held l"
  "cl_available (log_balance a l) = cl_available l"
  using reads_balances[of "log_balance a l" l] by simp_all

lemma log_balances_frame [simp]:
  "cl_escrows (fold (log_balance \<circ> f) es l) = cl_escrows l" "cl_resolved (fold (log_balance \<circ> f) es l) = cl_resolved l"
  "cl_pending (fold (log_balance \<circ> f) es l) = cl_pending l" "cl_max_escrows (fold (log_balance \<circ> f) es l) = cl_max_escrows l"
  "cl_deposited (fold (log_balance \<circ> f) es l) = cl_deposited l" "cl_withdrawn (fold (log_balance \<circ> f) es l) = cl_withdrawn l"
  "cl_withdrawal_delay (fold (log_balance \<circ> f) es l) = cl_withdrawal_delay l"
  "cl_balances (fold (log_balance \<circ> f) es l) = cl_balances l"
  by (induction es arbitrary: l) simp_all

lemma log_balances_reads [simp]:
  "cl_account (fold (log_balance \<circ> f) es l) = cl_account l" "held (fold (log_balance \<circ> f) es l) = held l"
  "cl_available (fold (log_balance \<circ> f) es l) = cl_available l"
  using reads_balances[of "fold (log_balance \<circ> f) es l" l] by simp_all

lemma held_update:
  "held (balance_update a f l) x = (if x = a then (case cl_account l a of None \<Rightarrow> 0 | Some e \<Rightarrow> unat (bal_balance (f e))) else held l x)"
  by (simp add: held_def cl_balance_def cl_account_update split: option.split)

lemma held_entry: "cl_account l a = Some e \<Longrightarrow> held l a = unat (bal_balance e)"
  by (simp add: held_def cl_balance_def)

lemma held_unknown: "cl_account l a = None \<Longrightarrow> held l a = 0"
  by (simp add: held_def cl_balance_def)

lemma tables_ok_frame:
  "cl_escrows l' = cl_escrows l \<Longrightarrow> cl_max_escrows l' = cl_max_escrows l \<Longrightarrow> length (cl_balances l') = length (cl_balances l) \<Longrightarrow>
   tables_ok l' = tables_ok l"
  by (simp add: tables_ok_def escrow_ok_def)

lemma sound_moveI:
  assumes "vault_step (vault_of l) (vault_of l')" and "cl_escrows l' = cl_escrows l"
    and "cl_resolved l' = cl_resolved l" "cl_pending l' = cl_pending l" "cl_max_escrows l' = cl_max_escrows l"
    "cl_withdrawal_delay l' = cl_withdrawal_delay l" "length (cl_balances l') = length (cl_balances l)"
  shows "sound_move l l'"
  using assms tables_ok_frame[of l' l] by (auto simp: sound_move_def)

section \<open>Deposits and withdrawals\<close>

lemma deposit_sound: "sound_move l (snd (deposit a v l))"
proof (cases "\<exists>dep e s. amount_checked_add (cl_deposited l) v = Some dep \<and> cl_account l a = Some e \<and>
    amount_checked_add (bal_balance e) v = Some s")
  case True
  then obtain dep e s where d: "amount_checked_add (cl_deposited l) v = Some dep" and e: "cl_account l a = Some e"
    and s: "amount_checked_add (bal_balance e) v = Some s" by blast
  let ?l = "snd (deposit a v l)"
  have l': "?l = log_balance a ((balance_update a (bal_balance_update (\<lambda>_. s)) l)\<lparr> cl_deposited := dep \<rparr>)"
    by (simp add: deposit_def d e s)
  have num: "unat dep = unat (cl_deposited l) + unat v" "unat s = unat (bal_balance e) + unat v"
    using d s by (simp_all add: amount_checked_add_def checked_add_Some_iff)
  have "held ?l x = ((held l)(a := held l a + unat v)) x" for x
  proof -
    have "held ?l x = held (balance_update a (bal_balance_update (\<lambda>_. s)) l) x"
      unfolding l' using reads_balances[of "(balance_update a (bal_balance_update (\<lambda>_. s)) l)\<lparr> cl_deposited := dep \<rparr>"
        "balance_update a (bal_balance_update (\<lambda>_. s)) l"] by simp
    then show ?thesis by (simp add: held_update e num held_entry)
  qed
  then have "vault_of ?l = (vault_of l)\<lparr> v_free := (v_free (vault_of l))(a := v_free (vault_of l) a + unat v),
      v_in := v_in (vault_of l) + unat v \<rparr>"
    by (simp add: vault_of_def fun_eq_iff) (simp add: l' num)
  then have "vault_step (vault_of l) (vault_of ?l)" using vault_deposit by metis
  then show ?thesis by (rule sound_moveI) (simp_all add: l')
next
  case False
  then have "snd (deposit a v l) = l" by (auto simp: deposit_def split: option.splits)
  then show ?thesis by simp
qed

lemma pending_write_sound:
  "sound_move l (log_balance a (balance_update a (\<lambda>x. x\<lparr> bal_pending := p, bal_matures_at := m \<rparr>) l))"
proof -
  let ?l = "log_balance a (balance_update a (\<lambda>x. x\<lparr> bal_pending := p, bal_matures_at := m \<rparr>) l)"
  have "held ?l = held l"
    by (rule ext) (simp add: held_update held_entry held_unknown split: option.split)
  then have "vault_of ?l = vault_of l" by (simp add: vault_of_def)
  then show ?thesis using tables_ok_frame[of ?l l] by (simp add: sound_move_def)
qed

lemma request_withdrawal_sound: "sound_move l (snd (request_withdrawal a v now l))"
  by (auto simp: request_withdrawal_def pending_write_sound split: option.split)

lemma execute_withdrawal_sound:
  assumes "ledger_sound l"
  shows "sound_move l (snd (execute_withdrawal a now l))"
proof (cases "\<exists>e. cl_account l a = Some e \<and> bal_pending e \<noteq> 0 \<and> bal_matures_at e \<le> now")
  case True
  then obtain e where e: "cl_account l a = Some e" "bal_pending e \<noteq> 0" "bal_matures_at e \<le> now" by blast
  let ?l = "snd (execute_withdrawal a now l)" and ?v = "min (bal_pending e) (bal_balance e)"
  let ?f = "\<lambda>x. x\<lparr> bal_balance := saturating_sub (bal_balance x) ?v, bal_pending := 0 \<rparr>"
  have l': "?l = log_balance a ((balance_update a ?f l)\<lparr> cl_withdrawn := saturating_add (cl_withdrawn l) ?v \<rparr>)"
    using e by (simp add: execute_withdrawal_def Let_def not_less[symmetric])
  have le: "unat ?v \<le> held l a" using e(1) by (simp add: held_entry min_def word_le_nat_alt)
  have "held l a + unat (cl_withdrawn l) \<le> unat (cl_deposited l)"
    using vault_free_bounded[of "vault_of l" a] assms by (simp add: ledger_sound_def vault_of_def)
  then have out: "unat (saturating_add (cl_withdrawn l) ?v) = unat (cl_withdrawn l) + unat ?v"
    using le unat_le_u_max[of "cl_deposited l"] by (simp add: unat_saturating_add)
  have "held ?l x = ((held l)(a := held l a - unat ?v)) x" for x
  proof -
    have "held ?l x = held (balance_update a ?f l) x"
      unfolding l' using reads_balances[of "(balance_update a ?f l)\<lparr> cl_withdrawn := saturating_add (cl_withdrawn l) ?v \<rparr>"
        "balance_update a ?f l"] by simp
    then show ?thesis by (simp add: held_update e(1) held_entry unat_saturating_sub)
  qed
  then have "vault_of ?l = (vault_of l)\<lparr> v_free := (v_free (vault_of l))(a := v_free (vault_of l) a - unat ?v),
      v_out := v_out (vault_of l) + unat ?v \<rparr>"
    by (simp add: vault_of_def fun_eq_iff) (simp add: l' out)
  moreover have "unat ?v \<le> v_free (vault_of l) a" using le by (simp add: vault_of_def)
  ultimately have "vault_step (vault_of l) (vault_of ?l)" using vault_withdraw by metis
  then show ?thesis by (rule sound_moveI) (simp_all add: l')
next
  case False
  then have "snd (execute_withdrawal a now l) = l"
    by (auto simp: execute_withdrawal_def Let_def not_less[symmetric] split: option.splits)
  then show ?thesis by simp
qed

lemma execute_one_snd: "snd (execute_one now k acc) = snd (execute_withdrawal (word_of_nat k) now (snd acc))"
  by (simp add: execute_one_def split: prod.split sum.split)

lemma execute_fold_sound:
  "ledger_sound (snd acc) \<Longrightarrow> sound_move (snd acc) (snd (fold (execute_one now) ks acc))"
proof (induction ks arbitrary: acc)
  case (Cons k ks)
  have one: "sound_move (snd acc) (snd (execute_one now k acc))"
    unfolding execute_one_snd by (rule execute_withdrawal_sound[OF Cons.prems])
  with Cons.IH[of "execute_one now k acc"] sound_move_sound[OF one Cons.prems] show ?case
    by (auto intro: sound_move_trans)
qed simp

lemma execute_matured_sound: "ledger_sound l \<Longrightarrow> sound_move l (snd (execute_matured_withdrawals now l))"
  unfolding execute_matured_withdrawals_def using execute_fold_sound[of "(0, l)"] by simp

section \<open>Paying an escrow out\<close>

lemma credit_account_frame [simp]:
  "cl_escrows (credit_account c l) = cl_escrows l" "cl_resolved (credit_account c l) = cl_resolved l"
  "cl_pending (credit_account c l) = cl_pending l" "cl_max_escrows (credit_account c l) = cl_max_escrows l"
  "cl_deposited (credit_account c l) = cl_deposited l" "cl_withdrawn (credit_account c l) = cl_withdrawn l"
  "cl_withdrawal_delay (credit_account c l) = cl_withdrawal_delay l" "cl_log (credit_account c l) = cl_log l"
  "length (cl_balances (credit_account c l)) = length (cl_balances l)"
  by (simp_all add: credit_account_def)

lemma held_credit:
  assumes "unat (fst c) < length (cl_balances l)" and "held l (fst c) + unat (snd c) < 2 ^ 64"
  shows "held (credit_account c l) x = held l x + (if fst c = x then unat (snd c) else 0)"
proof -
  obtain e where e: "cl_account l (fst c) = Some e" using assms(1) cl_account_exists[of l "fst c"] by auto
  then have "unat (saturating_add (bal_balance e) (snd c)) = unat (bal_balance e) + unat (snd c)"
    using assms(2) by (simp add: unat_saturating_add held_entry)
  then show ?thesis by (simp add: credit_account_def held_update e held_entry)
qed

lemma held_two_credits:
  assumes "unat (fst c) < length (cl_balances l)" "unat (fst d) < length (cl_balances l)"
    and "\<forall>x. held l x + (unat (snd c) + unat (snd d)) < 2 ^ 64"
  shows "held (credit_account d (credit_account c l)) x =
    held l x + (if fst c = x then unat (snd c) else 0) + (if fst d = x then unat (snd d) else 0)"
proof -
  have fits: "held l y + (unat (snd c) + unat (snd d)) < 2 ^ 64" for y using assms(3) by (rule spec)
  have 1: "held (credit_account c l) y = held l y + (if fst c = y then unat (snd c) else 0)" for y
    by (rule held_credit[OF assms(1)]) (use fits[of "fst c"] in linarith)
  have "held (credit_account c l) (fst d) + unat (snd d) < 2 ^ 64"
    unfolding 1 using fits[of "fst d"] by (simp split: if_split)
  from held_credit[OF _ this] assms(2) have "held (credit_account d (credit_account c l)) x =
      held (credit_account c l) x + (if fst d = x then unat (snd d) else 0)" by simp
  then show ?thesis unfolding 1 .
qed

fun payout_of :: "outcome \<Rightarrow> side \<Rightarrow> payout" where
  "payout_of out s = (case payout_goes_to_requester out s of Some True \<Rightarrow> ToRequester | Some False \<Rightarrow> ToMaker | None \<Rightarrow> Refund)"

definition the_pot :: "escrow \<Rightarrow> pot" where
  "the_pot x = \<lparr> pot_requester = es_requester x, pot_maker = es_maker x,
     pot_rc = unat (es_requester_contribution x), pot_mc = unat (es_maker_contribution x) \<rparr>"

lemma credits_share:
  assumes "unat (es_requester_contribution x) + unat (es_maker_contribution x) < 2 ^ 64"
  shows "\<exists>c d. credits_of x out = [c, d] \<and> {fst c, fst d} = {es_requester x, es_maker x} \<and>
    unat (snd c) + unat (snd d) = unat (es_requester_contribution x) + unat (es_maker_contribution x) \<and>
    (\<forall>a. (if fst c = a then unat (snd c) else 0) + (if fst d = a then unat (snd d) else 0) =
       share (payout_of out (es_side x)) (the_pot x) a)"
proof -
  have n: "unat (escrow_notional x) = unat (es_requester_contribution x) + unat (es_maker_contribution x)"
    using assms by (simp add: escrow_notional_def unat_saturating_add)
  show ?thesis
    by (cases "payout_goes_to_requester out (es_side x)")
      (auto simp: credits_of_def n the_pot_def split: bool.split)
qed

lemma settled_escrow: "pot_of (mark_settled y) = None"
  by (simp add: pot_of_def mark_settled_def escrow_is_locked_def)

definition paid_out :: "escrow \<Rightarrow> escrow" where
  "paid_out x = x\<lparr> es_state := EsSettled \<rparr>"

lemma paid_out_eq: "mark_settled (escrow_locked (es_contract x) (es_side x) (es_size x) (es_requester x) (es_maker x)
    (es_requester_contribution x) (es_maker_contribution x)) = paid_out x"
  by (simp add: mark_settled_def escrow_locked_def paid_out_def)

lemma settle_escrow_effect:
  fixes out :: outcome
  assumes "ledger_sound l" and x: "cl_escrow l i = Some x" "es_contract x = k" "escrow_is_locked x"
  defines "l' \<equiv> snd (custody_settle_escrow i k out l)"
  shows "(\<forall>a. held l' a = held l a + share (payout_of out (es_side x)) (the_pot x) a) \<and>
    cl_escrows l' = (cl_escrows l)[unat i := paid_out x] \<and> cl_resolved l' = cl_resolved l \<and>
    cl_pending l' = cl_pending l \<and> cl_max_escrows l' = cl_max_escrows l \<and> cl_deposited l' = cl_deposited l \<and>
    cl_withdrawn l' = cl_withdrawn l \<and> cl_withdrawal_delay l' = cl_withdrawal_delay l \<and>
    length (cl_balances l') = length (cl_balances l) \<and> fst (custody_settle_escrow i k out l) = Inr True"
proof -
  have i: "unat i < length (cl_escrows l)" "cl_escrows l ! unat i = x"
    using x(1) by (simp_all add: cl_escrow_def get_idx_Some_iff)
  have mem: "x \<in> set (cl_escrows l)" using i nth_mem by blast
  then have ok: "escrow_ok l x" using assms(1) by (simp add: ledger_sound_def tables_ok_def)
  have "Some (the_pot x) = pot_of x" using x(3) by (simp add: pot_of_def the_pot_def)
  then have pot: "Some (the_pot x) \<in> set (v_pots (vault_of l))" using mem by (simp add: vault_of_def)
  have fits: "held l a + (unat (es_requester_contribution x) + unat (es_maker_contribution x)) < 2 ^ 64" for a
    using vault_pot_bounded[OF _ pot, of a] assms(1) unat_lt_size[of "cl_deposited l"]
    by (simp add: ledger_sound_def vault_of_def the_pot_def)
  have "unat (es_requester_contribution x) + unat (es_maker_contribution x) < 2 ^ 64" using fits[of 0] by linarith
  from credits_share[OF this, of out] obtain c d where cd: "credits_of x out = [c, d]"
    "{fst c, fst d} = {es_requester x, es_maker x}"
    "unat (snd c) + unat (snd d) = unat (es_requester_contribution x) + unat (es_maker_contribution x)"
    "\<forall>a. (if fst c = a then unat (snd c) else 0) + (if fst d = a then unat (snd d) else 0) =
       share (payout_of out (es_side x)) (the_pot x) a" by blast
  have "fst c \<in> {es_requester x, es_maker x}" "fst d \<in> {es_requester x, es_maker x}" using cd(2) by auto
  then have known: "unat (fst c) < length (cl_balances l)" "unat (fst d) < length (cl_balances l)"
    using ok by (auto simp: escrow_ok_def)
  have h: "held (credit_account d (credit_account c l)) a =
      held l a + share (payout_of out (es_side x)) (the_pot x) a" for a
  proof -
    have "held (credit_account d (credit_account c l)) a =
        held l a + (if fst c = a then unat (snd c) else 0) + (if fst d = a then unat (snd d) else 0)"
      by (rule held_two_credits[OF known]) (unfold cd(3), use fits in blast)
    then show ?thesis using spec[OF cd(4), of a] by linarith
  qed
  let ?m = "fold (log_balance \<circ> fst) [c, d] (fold credit_account [c, d] l)"
  have res: "custody_settle_escrow i k out l = (Inr True, ?m\<lparr> cl_escrows := upd_idx (cl_escrows ?m) i (\<lambda>_. paid_out x) \<rparr>)"
    using x(2,3) by (simp only: custody_settle_escrow_def x(1) option.case cd(1) paid_out_eq Let_def if_False if_True not_True_eq_False simp_thms)
  have m: "cl_escrows ?m = cl_escrows l" "held ?m = held (credit_account d (credit_account c l))"
    "cl_resolved ?m = cl_resolved l" "cl_pending ?m = cl_pending l" "cl_max_escrows ?m = cl_max_escrows l"
    "cl_deposited ?m = cl_deposited l" "cl_withdrawn ?m = cl_withdrawn l" "cl_withdrawal_delay ?m = cl_withdrawal_delay l"
    "length (cl_balances ?m) = length (cl_balances l)"
    unfolding log_balances_frame log_balances_reads by simp_all
  have l': "l' = ?m\<lparr> cl_escrows := upd_idx (cl_escrows l) i (\<lambda>_. paid_out x) \<rparr>"
    unfolding l'_def res m(1) by simp
  have "held l' = held ?m" unfolding l' by (rule ext) (simp add: held_def cl_balance_def cl_account_def)
  moreover have "upd_idx (cl_escrows l) i (\<lambda>_. paid_out x) = (cl_escrows l)[unat i := paid_out x]"
    using i(1) by (simp add: upd_idx_def get_idx_def)
  ultimately show ?thesis using h m(2-) unfolding l' res by simp
qed

lemma custody_settle_escrow_sound:
  assumes "ledger_sound l"
  shows "sound_move l (snd (custody_settle_escrow i k out l))"
proof (cases "\<exists>x. cl_escrow l i = Some x \<and> es_contract x = k \<and> escrow_is_locked x")
  case True
  then obtain x where x: "cl_escrow l i = Some x" "es_contract x = k" "escrow_is_locked x" by blast
  let ?l = "snd (custody_settle_escrow i k out l)"
  note eff = settle_escrow_effect[OF assms x, of out]
  have i: "unat i < length (cl_escrows l)" "cl_escrows l ! unat i = x"
    using x(1) by (simp_all add: cl_escrow_def get_idx_Some_iff)
  have "vault_of ?l = (vault_of l)\<lparr> v_free := (\<lambda>a. v_free (vault_of l) a + share (payout_of out (es_side x)) (the_pot x) a),
      v_pots := (v_pots (vault_of l))[unat i := None] \<rparr>"
    using eff by (simp add: vault_of_def fun_eq_iff map_update paid_out_def pot_of_def escrow_is_locked_def del: share.simps payout_of.simps)
  moreover have "unat i < length (v_pots (vault_of l))" "v_pots (vault_of l) ! unat i = Some (the_pot x)"
    using i x(3) by (simp_all add: vault_of_def pot_of_def the_pot_def)
  ultimately have step: "vault_step (vault_of l) (vault_of ?l)" using vault_pay by metis
  have "tables_ok ?l" if "tables_ok l"
  proof -
    have "escrow_ok ?l y" if y: "y \<in> set (cl_escrows ?l)" for y
    proof -
      from y have "y = paid_out x \<or> y \<in> set (cl_escrows l)" using eff set_update_subset_insert by fastforce
      moreover have "escrow_ok l x" using \<open>tables_ok l\<close> i nth_mem by (fastforce simp: tables_ok_def)
      ultimately have "escrow_ok l y" using \<open>tables_ok l\<close> by (auto simp: tables_ok_def escrow_ok_def paid_out_def)
      then show ?thesis using eff by (simp add: escrow_ok_def)
    qed
    then show ?thesis using that eff by (simp add: tables_ok_def)
  qed
  then show ?thesis using step eff by (auto simp: sound_move_def)
next
  case False
  then have "snd (custody_settle_escrow i k out l) = l"
    by (auto simp: custody_settle_escrow_def split: option.splits)
  then show ?thesis by simp
qed

end
