(* ===== verification/Custody_Settle.thy ===== *)
theory Custody_Settle
  imports Custody_Inv
begin

text \<open>
  The settlement transaction against the vault: an accepted bundle is one locking step, a refused one
  nothing. Then custody as a transition system, and its refinement of the vault.
\<close>

section \<open>The commit of a settlement\<close>

lemma debit_account_frame [simp]:
  "cl_escrows (debit_account c l) = cl_escrows l" "cl_resolved (debit_account c l) = cl_resolved l"
  "cl_pending (debit_account c l) = cl_pending l" "cl_max_escrows (debit_account c l) = cl_max_escrows l"
  "cl_deposited (debit_account c l) = cl_deposited l" "cl_withdrawn (debit_account c l) = cl_withdrawn l"
  "cl_withdrawal_delay (debit_account c l) = cl_withdrawal_delay l" "cl_log (debit_account c l) = cl_log l"
  "length (cl_balances (debit_account c l)) = length (cl_balances l)"
  by (simp_all add: debit_account_def)

lemma held_debit: "held (debit_account c l) x = held l x - (if fst c = x then unat (snd c) else 0)"
  by (simp add: debit_account_def held_update held_entry held_unknown unat_saturating_sub split: option.split)

lemma held_debits: "held (fold debit_account es l) x = held l x - owed_in es x"
  by (induction es arbitrary: l) (simp_all add: held_debit)

lemma debits_frame [simp]:
  "cl_escrows (fold debit_account es l) = cl_escrows l" "cl_resolved (fold debit_account es l) = cl_resolved l"
  "cl_pending (fold debit_account es l) = cl_pending l" "cl_max_escrows (fold debit_account es l) = cl_max_escrows l"
  "cl_deposited (fold debit_account es l) = cl_deposited l" "cl_withdrawn (fold debit_account es l) = cl_withdrawn l"
  "cl_withdrawal_delay (fold debit_account es l) = cl_withdrawal_delay l" "cl_log (fold debit_account es l) = cl_log l"
  "length (cl_balances (fold debit_account es l)) = length (cl_balances l)"
  by (induction es arbitrary: l) simp_all

lemma form_escrows:
  assumes "length (cl_escrows l) + length legs \<le> 2 ^ 32"
  shows "snd (fold (form_escrow r) (enumerate k legs) (ids, l)) =
      l\<lparr> cl_escrows := cl_escrows l @ map (escrow_of_leg r) legs \<rparr> \<and>
    length (fst (fold (form_escrow r) (enumerate k legs) (ids, l))) = length ids \<and>
    (\<forall>j < length ids. fst (fold (form_escrow r) (enumerate k legs) (ids, l)) ! j =
       (if k \<le> j \<and> j < k + length legs then word_of_nat (length (cl_escrows l) + (j - k)) else ids ! j))"
  using assms
proof (induction legs arbitrary: k ids l)
  case (Cons x legs)
  let ?n = "length (cl_escrows l)"
  let ?l = "l\<lparr> cl_escrows := cl_escrows l @ [escrow_of_leg r x] \<rparr>" and ?ids = "ids[k := word_of_nat ?n]"
  have one: "form_escrow r (k, x) (ids, l) = (?ids, ?l)"
    using Cons.prems by (simp add: form_escrow_def Let_def)
  have len: "length (cl_escrows ?l) + length legs \<le> 2 ^ 32" using Cons.prems by simp
  note IH = Cons.IH[OF len, of "Suc k" ?ids]
  have "fst (fold (form_escrow r) (enumerate (Suc k) legs) (?ids, ?l)) ! j =
      (if k \<le> j \<and> j < k + length (x # legs) then word_of_nat (?n + (j - k)) else ids ! j)" if j: "j < length ids" for j
  proof -
    have "fst (fold (form_escrow r) (enumerate (Suc k) legs) (?ids, ?l)) ! j =
        (if Suc k \<le> j \<and> j < Suc k + length legs then word_of_nat (Suc ?n + (j - Suc k)) else ?ids ! j)"
      using IH j by simp
    also have "\<dots> = (if k \<le> j \<and> j < k + length (x # legs) then word_of_nat (?n + (j - k)) else ids ! j)"
    proof (cases "j = k")
      case True
      then show ?thesis using j by simp
    next
      case False
      then have "Suc ?n + (j - Suc k) = ?n + (j - k)" if "Suc k \<le> j" using that by linarith
      with False show ?thesis by (auto simp: nth_list_update)
    qed
    finally show ?thesis .
  qed
  then show ?case using IH by (simp add: one del: of_nat_add)
qed auto

lemma leg_due_member: "x \<in> set legs \<Longrightarrow> leg_due r a x \<le> legs_due r legs a"
  unfolding legs_due_def by (rule member_le_sum_list) simp_all

lemma acceptable_contributions:
  assumes "acceptable l b now" and x: "x \<in> set (bundle_legs b)"
  shows "unat (amount_or_zero (bl_requester_contribution x)) = rc_nat x \<and>
    unat (amount_or_zero (bl_maker_contribution x)) = mc_nat x"
proof -
  have due: "leg_due (bu_requester b) a x < 2 ^ 64" for a
  proof -
    have "leg_due (bu_requester b) a x \<le> unat (cl_balance l a)"
      using leg_due_member[OF x] assms(1) unfolding acceptable_def bundle_due_def by (blast intro: order_trans)
    also have "\<dots> < 2 ^ 64" using unat_lt_size[of "cl_balance l a"] by simp
    finally show ?thesis .
  qed
  have "mc_nat x \<le> leg_due (bu_requester b) (bl_maker x) x" "rc_nat x \<le> leg_due (bu_requester b) (bu_requester b) x"
    by (simp_all add: leg_due_def)
  with due have lt: "mc_nat x < 2 ^ 64" "rc_nat x < 2 ^ 64" by (blast intro: le_less_trans)+
  have p: "bl_fill_price x \<le> UNIT" using assms by (simp add: acceptable_def)
  obtain rc :: amount where "unat rc = rc_nat x" using word_with_unat[where 'a = 64, of "rc_nat x"] lt(2) by auto
  moreover obtain mc :: amount where "unat mc = mc_nat x" using word_with_unat[where 'a = 64, of "mc_nat x"] lt(1) by auto
  ultimately have "bl_requester_contribution x = Some rc" "bl_maker_contribution x = Some mc"
    "unat rc = rc_nat x" "unat mc = mc_nat x" using p by (simp_all add: bl_contribution_Some_iff)
  then show ?thesis by (simp add: amount_or_zero_def)
qed

definition settlement_pots :: "settlement_bundle \<Rightarrow> pot list" where
  "settlement_pots b = map (the_pot \<circ> escrow_of_leg (bu_requester b)) (bundle_legs b)"

lemma escrow_of_leg_simps [simp]:
  "es_requester (escrow_of_leg r x) = r" "es_maker (escrow_of_leg r x) = bl_maker x"
  "es_size (escrow_of_leg r x) = bl_size x" "es_contract (escrow_of_leg r x) = bl_contract x"
  "es_side (escrow_of_leg r x) = bl_side x" "escrow_is_locked (escrow_of_leg r x)"
  "es_requester_contribution (escrow_of_leg r x) = amount_or_zero (bl_requester_contribution x)"
  "es_maker_contribution (escrow_of_leg r x) = amount_or_zero (bl_maker_contribution x)"
  by (simp_all add: escrow_of_leg_def escrow_locked_def escrow_is_locked_def)

lemma fills_settlement:
  assumes "acceptable l b now"
  shows "fills (settlement_pots b) a = bundle_due b a"
proof -
  have "share Refund (the_pot (escrow_of_leg (bu_requester b) x)) a = leg_due (bu_requester b) a x"
    if "x \<in> set (bundle_legs b)" for x
    using acceptable_contributions[OF assms that] by (simp add: the_pot_def leg_due_def)
  then show ?thesis
    by (auto simp: fills_def settlement_pots_def bundle_due_def legs_due_def comp_def intro!: arg_cong[where f = sum_list] map_cong
        simp del: share.simps)
qed

text \<open>What an accepted settlement changes.\<close>

definition settled_by :: "settlement_bundle \<Rightarrow> custody_ledger \<Rightarrow> custody_ledger \<Rightarrow> bool" where
  "settled_by b l l' \<longleftrightarrow> (\<forall>a. held l' a = held l a - bundle_due b a) \<and>
     cl_escrows l' = cl_escrows l @ map (escrow_of_leg (bu_requester b)) (bundle_legs b) \<and>
     cl_resolved l' = (cl_resolved l)(bu_nonce b \<mapsto> TxSettled) \<and> cl_pending l' = cl_pending l \<and>
     cl_max_escrows l' = cl_max_escrows l \<and> cl_deposited l' = cl_deposited l \<and> cl_withdrawn l' = cl_withdrawn l \<and>
     cl_withdrawal_delay l' = cl_withdrawal_delay l \<and> length (cl_balances l') = length (cl_balances l)"

lemma commit_effect:
  assumes d: "validate l b now = Inr d" and room: "length (cl_escrows l) + length (bundle_legs b) \<le> 2 ^ 32"
  shows "settled_by b l (snd (commit_settlement b d l)) \<and>
    sr_n_escrows (fst (commit_settlement b d l)) = bu_n_legs b \<and>
    (\<forall>j < length (bundle_legs b). j < MAX_LEGS \<longrightarrow>
       sr_escrows (fst (commit_settlement b d l)) ! j = word_of_nat (length (cl_escrows l) + j))"
proof -
  let ?es = "debits_entries d"
  let ?l2 = "fold (log_balance \<circ> fst) ?es (fold debit_account ?es l)"
  let ?F = "fold (form_escrow (bu_requester b)) (enumerate 0 (bundle_legs b)) (replicate MAX_LEGS 0, ?l2)"
  have l2: "cl_escrows ?l2 = cl_escrows l" "\<And>a. held ?l2 a = held l a - bundle_due b a"
    using validate_Inr[OF d] by (simp_all add: held_debits)
  have F: "snd ?F = ?l2\<lparr> cl_escrows := cl_escrows l @ map (escrow_of_leg (bu_requester b)) (bundle_legs b) \<rparr>"
    "\<forall>j < MAX_LEGS. j < length (bundle_legs b) \<longrightarrow> fst ?F ! j = word_of_nat (length (cl_escrows l) + j)"
    using form_escrows[of ?l2 "bundle_legs b" "bu_requester b" 0 "replicate MAX_LEGS 0"] room unfolding l2(1) by simp_all
  have C: "commit_settlement b d l = (\<lparr> sr_escrows = fst ?F, sr_n_escrows = bu_n_legs b \<rparr>,
      (snd ?F)\<lparr> cl_resolved := (cl_resolved (snd ?F))(bu_nonce b \<mapsto> TxSettled) \<rparr>)"
    by (simp add: commit_settlement_def Let_def split: prod.split)
  let ?l' = "(snd ?F)\<lparr> cl_resolved := (cl_resolved (snd ?F))(bu_nonce b \<mapsto> TxSettled) \<rparr>"
  have l': "?l' = ?l2\<lparr> cl_escrows := cl_escrows l @ map (escrow_of_leg (bu_requester b)) (bundle_legs b),
      cl_resolved := (cl_resolved l)(bu_nonce b \<mapsto> TxSettled) \<rparr>"
    unfolding F(1) by simp
  have "cl_balances ?l' = cl_balances ?l2" unfolding l' by simp
  then have "held ?l' = held ?l2" using reads_balances by blast
  then have "\<forall>a. held ?l' a = held l a - bundle_due b a" using l2(2) by simp
  then have "settled_by b l ?l'" unfolding settled_by_def by (simp add: l')
  moreover have "\<forall>j < length (bundle_legs b). j < MAX_LEGS \<longrightarrow> fst ?F ! j = word_of_nat (length (cl_escrows l) + j)"
    using F(2) by blast
  ultimately show ?thesis unfolding C fst_conv snd_conv by simp
qed

lemma settled_vault:
  assumes acc: "acceptable l b now" and room: "length (cl_escrows l) + unat (bu_n_legs b) \<le> cl_max_escrows l"
    and s: "settled_by b l l'"
  shows "vault_step (vault_of l) (vault_of l') \<and> (tables_ok l \<longrightarrow> tables_ok l')"
proof
  have pots: "map pot_of (map (escrow_of_leg (bu_requester b)) (bundle_legs b)) = map Some (settlement_pots b)"
    by (simp add: settlement_pots_def pot_of_def the_pot_def)
  have "held l' = (\<lambda>a. held l a - bundle_due b a)" using s by (auto simp: settled_by_def)
  then have "vault_of l' = (vault_of l)\<lparr> v_free := (\<lambda>a. v_free (vault_of l) a - fills (settlement_pots b) a),
      v_pots := v_pots (vault_of l) @ map Some (settlement_pots b) \<rparr>"
    using s pots by (simp add: vault_of_def settled_by_def fills_settlement[OF acc])
  moreover have "\<forall>a. fills (settlement_pots b) a \<le> v_free (vault_of l) a"
    using acc by (simp add: fills_settlement[OF acc] vault_of_def held_def acceptable_def)
  ultimately show "vault_step (vault_of l) (vault_of l')" using vault_lock by metis
next
  show "tables_ok l \<longrightarrow> tables_ok l'"
  proof
    assume ok: "tables_ok l"
    have "escrow_ok l' (escrow_of_leg (bu_requester b) x)" if x: "x \<in> set (bundle_legs b)" for x
    proof -
      have "unat (bu_requester b) < length (cl_balances l)" "unat (bl_maker x) < length (cl_balances l)"
        using acc x by (auto simp: acceptable_def named_accounts_def split: if_splits)
      moreover have "bl_fill_price x \<le> UNIT" using acc x by (simp add: acceptable_def)
      ultimately show ?thesis using s acceptable_contributions[OF acc x]
        by (auto simp: escrow_ok_def settled_by_def rc_nat_def mc_nat_def word_le_nat_alt)
    qed
    moreover have "length (bundle_legs b) \<le> unat (bu_n_legs b)" by (rule bundle_legs_length)
    moreover have "escrow_ok l' y" if "escrow_ok l y" for y using that s by (simp add: escrow_ok_def settled_by_def)
    ultimately show "tables_ok l'" using ok s room by (auto simp: tables_ok_def settled_by_def)
  qed
qed

section \<open>Custody as a transition system\<close>

text \<open>
  The public operations of the ledger. \<open>log_mut\<close> hands the log out for anything: \<open>rewr\<close> says
  whether that is used for more than mining a block and reporting what happened outside custody.
\<close>

inductive ledger_call :: "bool \<Rightarrow> custody_ledger \<Rightarrow> custody_ledger \<Rightarrow> bool" for rewr :: bool where
  call_deposit: "ledger_call rewr l (snd (deposit a v l))"
| call_request: "ledger_call rewr l (snd (request_withdrawal a v now l))"
| call_execute: "ledger_call rewr l (snd (execute_withdrawal a now l))"
| call_matured: "ledger_call rewr l (snd (execute_matured_withdrawals now l))"
| call_settle_escrow: "ledger_call rewr l (snd (custody_settle_escrow i k out l))"
| call_mine: "ledger_call rewr l (l\<lparr> cl_log := advance_block (cl_log l) \<rparr>)"
| call_report: "(\<And>a v. p \<noteq> BalanceChanged a v) \<Longrightarrow> ledger_call rewr l (l\<lparr> cl_log := log_append p (cl_log l) \<rparr>)"
| call_log: "rewr \<Longrightarrow> ledger_call rewr l (l\<lparr> cl_log := g \<rparr>)"

lemma log_write_sound: "sound_move l (l\<lparr> cl_log := g \<rparr>)"
proof -
  have "vault_of (l\<lparr> cl_log := g \<rparr>) = vault_of l"
    using reads_balances[of "l\<lparr> cl_log := g \<rparr>" l] by (simp add: vault_of_def)
  then show ?thesis using tables_ok_frame[of "l\<lparr> cl_log := g \<rparr>" l] by (simp add: sound_move_def)
qed

lemma ledger_call_sound: "ledger_call w l l' \<Longrightarrow> ledger_sound l \<Longrightarrow> sound_move l l'"
  by (induction rule: ledger_call.induct)
    (auto intro: deposit_sound request_withdrawal_sound execute_withdrawal_sound execute_matured_sound
      custody_settle_escrow_sound log_write_sound)

lemma ledger_calls_sound: "(ledger_call w)\<^sup>*\<^sup>* l l' \<Longrightarrow> ledger_sound l \<Longrightarrow> sound_move l l'"
proof (induction rule: rtranclp_induct)
  case (step m n)
  from step.IH[OF step.prems] sound_move_sound[OF _ step.prems] ledger_call_sound[OF step(2)] show ?case
    by (blast intro: sound_move_trans)
qed simp

text \<open>A hook does what any caller of the ledger could do.\<close>

definition hook_ok :: "bool \<Rightarrow> 'h settle_hook \<Rightarrow> bool" where
  "hook_ok rewr hook \<longleftrightarrow> (\<forall>h l now. (ledger_call rewr)\<^sup>*\<^sup>* l (snd (snd hook h l now)))"

definition custody_start :: "'h custody \<Rightarrow> bool" where
  "custody_start c \<longleftrightarrow> (\<exists>delay accounts escrows. c = custody_new delay accounts escrows)"

text \<open>\<open>direct\<close> says whether \<open>settle\<close> is also called directly, past the queue.\<close>

inductive custody_step :: "bool \<Rightarrow> bool \<Rightarrow> 'h custody \<Rightarrow> 'h custody \<Rightarrow> bool" for direct rewr :: bool where
  step_ledger: "ledger_call rewr (cu_ledger c) l \<Longrightarrow> custody_step direct rewr c (c\<lparr> cu_ledger := l \<rparr>)"
| step_hook: "hook_ok rewr hook \<Longrightarrow> custody_step direct rewr c (on_settle_entry hook c)"
| step_submit: "custody_step direct rewr c (snd (submit b c))"
| step_include: "custody_step direct rewr c (snd (include_next now c))"
| step_drop: "custody_step direct rewr c (snd (drop_next_submission c))"
| step_settle: "direct \<Longrightarrow> custody_step direct rewr c (snd (settle now b c))"

definition custody_sound :: "bool \<Rightarrow> 'h custody \<Rightarrow> bool" where
  "custody_sound rewr c \<longleftrightarrow> ledger_sound (cu_ledger c) \<and>
     (\<forall>hook. cu_on_settle_entry c = Some hook \<longrightarrow> hook_ok rewr hook) \<and>
     (\<forall>n st. cl_resolved (cu_ledger c) n = Some st \<longrightarrow> tx_is_terminal st)"

lemma fire_hook_calls:
  assumes "\<forall>hook. cu_on_settle_entry c = Some hook \<longrightarrow> hook_ok w hook"
  shows "(ledger_call w)\<^sup>*\<^sup>* (cu_ledger c) (cu_ledger (fire_hook now c)) \<and>
    (\<forall>hook. cu_on_settle_entry (fire_hook now c) = Some hook \<longrightarrow> hook_ok w hook)"
proof (cases "cu_on_settle_entry c")
  case None
  then show ?thesis by (simp add: fire_hook_def)
next
  case (Some hook)
  obtain h f where hook: "hook = (h, f)" by (cases hook)
  obtain h' l' where f: "f h (cu_ledger c) now = (h', l')" by (cases "f h (cu_ledger c) now")
  have "hook_ok w (h, f)" using assms Some hook by blast
  then have calls: "(ledger_call w)\<^sup>*\<^sup>* l (snd (f h l now))" for h l now by (simp add: hook_ok_def)
  have "fire_hook now c = c\<lparr> cu_ledger := l', cu_on_settle_entry := Some (h', f) \<rparr>"
    by (simp add: fire_hook_def Some hook f)
  then show ?thesis using calls[of "cu_ledger c" h now] calls by (simp add: hook_ok_def f)
qed

lemma settle_cases:
  obtains (refused) e where "settle now b c = (Inl e, fire_hook now c)"
  | (accepted) d where "validate (cu_ledger (fire_hook now c)) b now = Inr d"
      "length (cl_escrows (cu_ledger (fire_hook now c))) + unat (bu_n_legs b) \<le> cl_max_escrows (cu_ledger (fire_hook now c))"
      "settle now b c = (Inr (fst (commit_settlement b d (cu_ledger (fire_hook now c)))),
         (fire_hook now c)\<lparr> cu_ledger := snd (commit_settlement b d (cu_ledger (fire_hook now c))) \<rparr>)"
proof (cases "validate (cu_ledger (fire_hook now c)) b now")
  case (Inl e)
  then show ?thesis by (intro refused[of e]) (simp add: settle_def Let_def)
next
  case (Inr d)
  let ?l = "cu_ledger (fire_hook now c)"
  show ?thesis
  proof (cases "length (cl_escrows ?l) + unat (bu_n_legs b) \<le> cl_max_escrows ?l")
    case True
    then show ?thesis by (intro accepted[OF Inr True]) (simp add: settle_def Let_def Inr split: prod.split)
  next
    case False
    then show ?thesis by (intro refused[of EscrowCapacityExhausted]) (simp add: settle_def Let_def Inr)
  qed
qed

text \<open>What one settlement does, in both outcomes.\<close>

lemma settle_effect:
  assumes ok: "custody_sound w c"
  shows "\<exists>m. (ledger_call w)\<^sup>*\<^sup>* (cu_ledger c) m \<and> ledger_sound m \<and> sound_move (cu_ledger c) m \<and>
    (\<forall>hook. cu_on_settle_entry (snd (settle now b c)) = Some hook \<longrightarrow> hook_ok w hook) \<and>
    (case fst (settle now b c) of
       Inl e \<Rightarrow> cu_ledger (snd (settle now b c)) = m
     | Inr r \<Rightarrow> acceptable m b now \<and> length (cl_escrows m) + unat (bu_n_legs b) \<le> cl_max_escrows m \<and>
         settled_by b m (cu_ledger (snd (settle now b c))) \<and> sr_n_escrows r = bu_n_legs b \<and>
         (\<forall>j < length (bundle_legs b). sr_escrows r ! j = word_of_nat (length (cl_escrows m) + j)))"
proof -
  let ?m = "cu_ledger (fire_hook now c)"
  have hooks: "\<forall>hook. cu_on_settle_entry c = Some hook \<longrightarrow> hook_ok w hook" and snd: "ledger_sound (cu_ledger c)"
    using ok by (simp_all add: custody_sound_def)
  note fh = fire_hook_calls[OF hooks, of now]
  have mv: "sound_move (cu_ledger c) ?m" using ledger_calls_sound[OF conjunct1[OF fh] snd] .
  have ms: "ledger_sound ?m" by (rule sound_move_sound[OF mv snd])
  show ?thesis
  proof (cases rule: settle_cases[of now b c])
    case (refused e)
    then show ?thesis using fh mv ms by (intro exI[of _ ?m]) simp
  next
    case (accepted d)
    have acc: "acceptable ?m b now" using validate_Inr[OF accepted(1)] by blast
    have len: "length (bundle_legs b) \<le> unat (bu_n_legs b)" by (rule bundle_legs_length)
    have "length (cl_escrows ?m) + length (bundle_legs b) \<le> 2 ^ 32"
      using accepted(2) len ms by (simp add: ledger_sound_def tables_ok_def)
    note eff = commit_effect[OF accepted(1) this]
    have "length (bundle_legs b) \<le> MAX_LEGS" using len acc by (simp add: acceptable_def)
    then show ?thesis using fh mv ms eff acc accepted(2) by (intro exI[of _ ?m]) (simp add: accepted(3))
  qed
qed

lemma resolved_terminal_upd:
  "\<forall>n st. f n = Some st \<longrightarrow> tx_is_terminal st \<Longrightarrow> tx_is_terminal s \<Longrightarrow>
   \<forall>n st. (f(k \<mapsto> s)) n = Some st \<longrightarrow> tx_is_terminal st"
  by simp

lemma settle_sound:
  assumes ok: "custody_sound w c"
  shows "vault_step\<^sup>*\<^sup>* (vault_of (cu_ledger c)) (vault_of (cu_ledger (snd (settle now b c)))) \<and>
    custody_sound w (snd (settle now b c))"
proof -
  from settle_effect[OF ok, of now b] obtain m where m: "ledger_sound m" "sound_move (cu_ledger c) m"
    and hooks: "\<forall>hook. cu_on_settle_entry (snd (settle now b c)) = Some hook \<longrightarrow> hook_ok w hook"
    and cases: "case fst (settle now b c) of
       Inl e \<Rightarrow> cu_ledger (snd (settle now b c)) = m
     | Inr r \<Rightarrow> acceptable m b now \<and> length (cl_escrows m) + unat (bu_n_legs b) \<le> cl_max_escrows m \<and>
         settled_by b m (cu_ledger (snd (settle now b c))) \<and> sr_n_escrows r = bu_n_legs b \<and>
         (\<forall>j < length (bundle_legs b). sr_escrows r ! j = word_of_nat (length (cl_escrows m) + j))" by blast
  let ?l = "cu_ledger (snd (settle now b c))"
  have term_m: "\<forall>n st. cl_resolved m n = Some st \<longrightarrow> tx_is_terminal st"
    using ok m(2) by (simp add: custody_sound_def sound_move_def)
  show ?thesis
  proof (cases "fst (settle now b c)")
    case (Inl e)
    then have "?l = m" using cases by simp
    then show ?thesis using m hooks term_m by (simp add: custody_sound_def sound_move_def)
  next
    case (Inr r)
    then have acc: "acceptable m b now" "length (cl_escrows m) + unat (bu_n_legs b) \<le> cl_max_escrows m" "settled_by b m ?l"
      using cases by simp_all
    from settled_vault[OF acc] have st: "vault_step (vault_of m) (vault_of ?l)" and tb: "tables_ok ?l"
      using m(1) by (auto simp: ledger_sound_def)
    have "vault_conserved (vault_of ?l)" using vault_step_conserved[OF _ st] m(1) by (simp add: ledger_sound_def)
    moreover have "\<forall>n s. cl_resolved ?l n = Some s \<longrightarrow> tx_is_terminal s"
      using acc(3) resolved_terminal_upd[OF term_m, of TxSettled] by (simp add: settled_by_def)
    moreover have "vault_step\<^sup>*\<^sup>* (vault_of (cu_ledger c)) (vault_of ?l)"
      using m(2) st by (auto simp: sound_move_def intro: rtranclp.rtrancl_into_rtrancl)
    ultimately show ?thesis using tb hooks by (simp add: custody_sound_def ledger_sound_def)
  qed
qed

text \<open>Writes to the queue, the answers and the log do not concern the vault.\<close>

lemma vault_of_frame [simp]:
  "vault_of (l\<lparr> cl_pending := p \<rparr>) = vault_of l" "vault_of (l\<lparr> cl_log := g \<rparr>) = vault_of l"
  "vault_of (l\<lparr> cl_resolved := r \<rparr>) = vault_of l"
  using reads_balances[of "l\<lparr> cl_pending := p \<rparr>" l] reads_balances[of "l\<lparr> cl_log := g \<rparr>" l]
    reads_balances[of "l\<lparr> cl_resolved := r \<rparr>" l] by (simp_all add: vault_of_def)

lemma ledger_sound_frame [simp]:
  "ledger_sound (l\<lparr> cl_pending := p \<rparr>) = ledger_sound l" "ledger_sound (l\<lparr> cl_log := g \<rparr>) = ledger_sound l"
  "ledger_sound (l\<lparr> cl_resolved := r \<rparr>) = ledger_sound l"
  by (simp_all add: ledger_sound_def tables_ok_def escrow_ok_def)

text \<open>The three ways an inclusion can go.\<close>

lemma include_next_cases:
  obtains (empty) "cl_pending (cu_ledger c) = []" "include_next now c = (None, c)"
  | (answered) b rest st where "cl_pending (cu_ledger c) = b # rest" "cl_resolved (cu_ledger c) (bu_nonce b) = Some st"
      "include_next now c = (Some \<lparr> tx_nonce = bu_nonce b, tx_outcome = Inl NonceReused, tx_status_of = st \<rparr>,
         c\<lparr> cu_ledger := (cu_ledger c)\<lparr> cl_pending := rest \<rparr> \<rparr>)"
  | (fresh) b rest out c2 st r where "cl_pending (cu_ledger c) = b # rest" "cl_resolved (cu_ledger c) (bu_nonce b) = None"
      "settle now b (c\<lparr> cu_ledger := (cu_ledger c)\<lparr> cl_pending := rest \<rparr> \<rparr>) = (out, c2)"
      "r = (case cl_resolved (cu_ledger c2) (bu_nonce b) of
          None \<Rightarrow> (cl_resolved (cu_ledger c2))(bu_nonce b \<mapsto> (case out of Inr _ \<Rightarrow> TxSettled | Inl _ \<Rightarrow> TxReverted))
        | Some _ \<Rightarrow> cl_resolved (cu_ledger c2))"
      "r (bu_nonce b) = Some st"
      "include_next now c = (Some \<lparr> tx_nonce = bu_nonce b, tx_outcome = out, tx_status_of = st \<rparr>,
         c2\<lparr> cu_ledger := (cu_ledger c2)\<lparr> cl_resolved := r, cl_log := log_append (SettlementResolved (bu_nonce b) st) (cl_log (cu_ledger c2)) \<rparr> \<rparr>)"
proof (cases "cl_pending (cu_ledger c)")
  case Nil
  then show ?thesis by (intro empty) (simp_all add: include_next_def)
next
  case (Cons b rest)
  let ?c1 = "c\<lparr> cu_ledger := (cu_ledger c)\<lparr> cl_pending := rest \<rparr> \<rparr>"
  show ?thesis
  proof (cases "cl_resolved (cu_ledger c) (bu_nonce b)")
    case (Some st)
    then show ?thesis by (intro answered[OF Cons Some]) (simp add: include_next_def Cons Let_def)
  next
    case None
    obtain out c2 where s: "settle now b ?c1 = (out, c2)" by (cases "settle now b ?c1")
    define r where "r = (case cl_resolved (cu_ledger c2) (bu_nonce b) of
          None \<Rightarrow> (cl_resolved (cu_ledger c2))(bu_nonce b \<mapsto> (case out of Inr _ \<Rightarrow> TxSettled | Inl _ \<Rightarrow> TxReverted))
        | Some _ \<Rightarrow> cl_resolved (cu_ledger c2))"
    have "\<exists>st. r (bu_nonce b) = Some st" by (simp add: r_def split: option.split)
    then obtain st where st: "r (bu_nonce b) = Some st" by blast
    have "include_next now c = (Some \<lparr> tx_nonce = bu_nonce b, tx_outcome = out, tx_status_of = st \<rparr>,
         c2\<lparr> cu_ledger := (cu_ledger c2)\<lparr> cl_resolved := r, cl_log := log_append (SettlementResolved (bu_nonce b) st) (cl_log (cu_ledger c2)) \<rparr> \<rparr>)"
      using None st by (simp add: include_next_def Cons Let_def s r_def[symmetric] nonce_status_def)
    with fresh[OF Cons None s r_def st] show ?thesis .
  qed
qed

lemma include_next_sound:
  assumes ok: "custody_sound w c"
  shows "vault_step\<^sup>*\<^sup>* (vault_of (cu_ledger c)) (vault_of (cu_ledger (snd (include_next now c)))) \<and>
    custody_sound w (snd (include_next now c))"
proof (cases rule: include_next_cases[of c now])
  case empty
  then show ?thesis using ok by simp
next
  case (answered b rest st)
  then show ?thesis using ok by (simp add: custody_sound_def)
next
  case (fresh b rest out c2 st r)
  have "custody_sound w (c\<lparr> cu_ledger := (cu_ledger c)\<lparr> cl_pending := rest \<rparr> \<rparr>)" using ok by (simp add: custody_sound_def)
  from settle_sound[OF this, of now b] fresh(3)
  have s: "vault_step\<^sup>*\<^sup>* (vault_of (cu_ledger c)) (vault_of (cu_ledger c2))" "custody_sound w c2" by simp_all
  have "\<forall>n st. r n = Some st \<longrightarrow> tx_is_terminal st"
    using s(2) unfolding fresh(4) by (auto simp: custody_sound_def split: option.splits sum.splits)
  then show ?thesis using s by (simp add: fresh(6) custody_sound_def)
qed

lemma custody_step_sound:
  assumes "custody_sound w c" and "custody_step d w c c'"
  shows "vault_step\<^sup>*\<^sup>* (vault_of (cu_ledger c)) (vault_of (cu_ledger c')) \<and> custody_sound w c'"
  using assms(2)
proof (cases rule: custody_step.cases)
  case (step_ledger l)
  have "ledger_sound (cu_ledger c)" using assms(1) by (simp add: custody_sound_def)
  note mv = ledger_call_sound[OF step_ledger(2) this]
  show ?thesis using mv sound_move_sound[OF mv] assms(1)
    by (simp add: step_ledger(1) custody_sound_def) (simp add: sound_move_def)
next
  case (step_hook hook)
  then show ?thesis using assms(1) by (simp add: custody_sound_def on_settle_entry_def)
next
  case (step_submit b)
  then show ?thesis using assms(1) by (simp add: custody_sound_def submit_def)
next
  case (step_include now)
  then show ?thesis using include_next_sound[OF assms(1)] by simp
next
  case step_drop
  then show ?thesis using assms(1) by (simp add: custody_sound_def drop_next_submission_def split: list.split)
next
  case (step_settle now b)
  then show ?thesis using settle_sound[OF assms(1)] by simp
qed

lemma custody_new_vault: "vault_start (vault_of (cu_ledger (custody_new delay accounts escrows)))"
  by (simp add: vault_start_def vault_of_def custody_new_def fun_eq_iff held_def cl_balance_def cl_account_def
      get_idx_replicate balance_default_def)

lemma custody_start_sound: "custody_start c \<Longrightarrow> custody_sound w c"
proof -
  assume "custody_start c"
  then obtain delay accounts escrows where c: "c = custody_new delay accounts escrows" by (auto simp: custody_start_def)
  have "vault_conserved (vault_of (cu_ledger c))" unfolding c by (rule vault_system.inv_start[OF custody_new_vault])
  then show ?thesis using unat_lt_size[of accounts] unat_lt_size[of escrows]
    by (simp add: custody_sound_def ledger_sound_def) (simp add: c custody_new_def tables_ok_def)
qed

interpretation custody_refines: refinement custody_start "custody_step direct rewr" "custody_sound rewr"
    vault_start vault_step "vault_of \<circ> cu_ledger" for direct rewr
proof unfold_locales
  fix c c' :: "'h custody"
  show "custody_start c \<Longrightarrow> custody_sound rewr c" by (rule custody_start_sound)
  show "custody_sound rewr c \<Longrightarrow> custody_step direct rewr c c' \<Longrightarrow> custody_sound rewr c'"
    by (simp add: custody_step_sound)
  show "custody_start c \<Longrightarrow> vault_start ((vault_of \<circ> cu_ledger) c)"
    by (auto simp: custody_start_def custody_new_vault)
  show "custody_sound rewr c \<Longrightarrow> custody_step direct rewr c c' \<Longrightarrow>
      vault_step\<^sup>*\<^sup>* ((vault_of \<circ> cu_ledger) c) ((vault_of \<circ> cu_ledger) c')"
    by (simp add: custody_step_sound)
qed

end
