(* ===== verification/Custody_Claims.thy ===== *)
theory Custody_Claims
  imports Custody_Settle
begin

text \<open>
  The properties of custody: conservation, refinement of the vault, well-formed escrows, atomic
  settlement, payout once, final answers, the timelock and the queue.
\<close>

section \<open>Conservation in the terms of the tables\<close>

lemma list_sum_of_words:
  fixes g :: "'a \<Rightarrow> nat"
  assumes "length xs \<le> 2 ^ 32"
  shows "(\<Sum>a\<in>UNIV. case get_idx xs (a :: u32) of None \<Rightarrow> 0 | Some x \<Rightarrow> g x) = (\<Sum>x\<leftarrow>xs. g x)"
proof -
  let ?A = "{a :: u32. unat a < length xs}"
  have img: "unat ` ?A = {..<length xs}"
  proof (rule set_eqI)
    fix k show "k \<in> unat ` ?A \<longleftrightarrow> k \<in> {..<length xs}"
    proof
      assume "k \<in> {..<length xs}"
      then have "k < length xs" "k < 2 ^ 32" using assms by simp_all
      then obtain a :: u32 where "unat a = k" using word_with_unat[where 'a = 32, of k] by auto
      then show "k \<in> unat ` ?A" using \<open>k < length xs\<close> by (auto intro!: image_eqI[of _ _ a])
    qed auto
  qed
  have "(\<Sum>a\<in>UNIV. case get_idx xs (a :: u32) of None \<Rightarrow> 0 | Some x \<Rightarrow> g x) = (\<Sum>a\<in>?A. g (xs ! unat a))"
    by (rule sum.mono_neutral_cong_right) (auto simp: get_idx_def)
  also have "\<dots> = (\<Sum>k\<in>{..<length xs}. g (xs ! k))"
    unfolding img[symmetric] by (rule sum.reindex[symmetric, unfolded comp_def]) (auto intro: inj_onI simp: word_unat_eq_iff)
  also have "\<dots> = (\<Sum>x\<leftarrow>xs. g x)"
    by (simp add: sum_list_sum_nth atLeast0LessThan)
  finally show ?thesis .
qed

lemma held_sum: "length (cl_balances l) \<le> 2 ^ 32 \<Longrightarrow> (\<Sum>a\<in>UNIV. held l a) = (\<Sum>x\<leftarrow>cl_balances l. unat (bal_balance x))"
proof -
  have "held l a = (case get_idx (cl_balances l) a of None \<Rightarrow> 0 | Some x \<Rightarrow> unat (bal_balance x))" for a
    by (simp add: held_def cl_balance_def cl_account_def split: option.split)
  then show "length (cl_balances l) \<le> 2 ^ 32 \<Longrightarrow> ?thesis"
    using list_sum_of_words[of "cl_balances l" "\<lambda>x. unat (bal_balance x)"] by (simp cong: sum.cong)
qed

lemma locked_contributions:
  assumes "ledger_sound l" and x: "x \<in> set (cl_escrows l)" "escrow_is_locked x"
  shows "unat (es_requester_contribution x) + unat (es_maker_contribution x) \<le> unat (cl_deposited l)" and
    "unat (escrow_notional x) = unat (es_requester_contribution x) + unat (es_maker_contribution x)" and
    "pot_value (pot_of x) = unat (escrow_notional x)"
proof -
  have "Some (the_pot x) \<in> set (v_pots (vault_of l))"
    using x image_eqI[of "pot_of x" pot_of x "set (cl_escrows l)"] by (simp add: vault_of_def pot_of_def the_pot_def)
  from vault_pot_bounded[OF _ this, of 0] assms(1)
  show le: "unat (es_requester_contribution x) + unat (es_maker_contribution x) \<le> unat (cl_deposited l)"
    by (simp add: ledger_sound_def vault_of_def the_pot_def)
  then show n: "unat (escrow_notional x) = unat (es_requester_contribution x) + unat (es_maker_contribution x)"
    using unat_le_u_max[of "cl_deposited l"] by (simp add: escrow_notional_def unat_saturating_add)
  show "pot_value (pot_of x) = unat (escrow_notional x)" using x(2) n by (simp add: pot_of_def pot_value_def)
qed

lemma locked_sum:
  assumes "ledger_sound l"
  shows "sum_list (map pot_value (v_pots (vault_of l))) =
    (\<Sum>x\<leftarrow>cl_escrows l. if escrow_is_locked x then unat (escrow_notional x) else 0)"
proof -
  have "pot_value (pot_of x) = (if escrow_is_locked x then unat (escrow_notional x) else 0)" if "x \<in> set (cl_escrows l)" for x
    using locked_contributions(3)[OF assms that] by (simp add: pot_of_def pot_value_def)
  then have "map (pot_value \<circ> pot_of) (cl_escrows l) = map (\<lambda>x. if escrow_is_locked x then unat (escrow_notional x) else 0) (cl_escrows l)"
    by simp
  then show ?thesis by (simp only: vault_of_def vault.simps map_map)
qed

lemma reachable_custody_sound: "reaches custody_start (custody_step direct rewr) c \<Longrightarrow> custody_sound rewr c"
  by (rule custody_refines.reachable_inv)

section \<open>A demonstration run\<close>

definition demo_leg :: "account_idx \<Rightarrow> price \<Rightarrow> bundle_leg" where
  "demo_leg maker p = \<lparr> bl_contract = 5, bl_side = SideYes, bl_size = 3, bl_maker = maker, bl_fill_price = p, bl_quote_expiry = 900 \<rparr>"

definition demo_bundle :: settlement_bundle where
  "demo_bundle = \<lparr> bu_nonce = \<lparr> n_request = 7, n_generation = 1 \<rparr>, bu_requester = 0,
     bu_legs = [demo_leg 1 400000, demo_leg 2 250000] @ replicate 6 bundle_leg_default, bu_n_legs = 2 \<rparr>"

type_synonym plain = "unit custody"

definition on_ledger :: "(custody_ledger \<Rightarrow> custody_ledger) \<Rightarrow> plain \<Rightarrow> plain" where
  "on_ledger f c = c\<lparr> cu_ledger := f (cu_ledger c) \<rparr>"

definition demo_funded :: plain where
  "demo_funded = on_ledger (snd \<circ> deposit 2 9000000) (on_ledger (snd \<circ> deposit 1 2000000) (on_ledger (snd \<circ> deposit 0 2000000) (custody_new 1000 4 16)))"

definition demo_settled :: plain where
  "demo_settled = snd (include_next 500 (snd (submit demo_bundle demo_funded)))"

lemma on_ledger_step: "ledger_call w (cu_ledger c) (f (cu_ledger c)) \<Longrightarrow> custody_step d w c (on_ledger f c)"
  unfolding on_ledger_def by (rule step_ledger)

lemma demo_funded_reached: "reaches custody_start (custody_step d w) demo_funded"
proof -
  let ?R = "reaches custody_start (custody_step d w) :: plain \<Rightarrow> bool"
  have "?R (custody_new 1000 4 16)" by (rule reaches_start) (auto simp: custody_start_def)
  then have "?R (on_ledger (snd \<circ> deposit 0 2000000) (custody_new 1000 4 16))"
    by (rule reaches_step) (rule on_ledger_step, simp add: call_deposit)
  then have "?R (on_ledger (snd \<circ> deposit 1 2000000) (on_ledger (snd \<circ> deposit 0 2000000) (custody_new 1000 4 16)))"
    by (rule reaches_step) (rule on_ledger_step, simp add: call_deposit)
  then show ?thesis unfolding demo_funded_def by (rule reaches_step) (rule on_ledger_step, simp add: call_deposit)
qed

lemma demo_settled_reached: "reaches custody_start (custody_step d w) demo_settled"
  unfolding demo_settled_def
  by (rule reaches_step[OF reaches_step[OF demo_funded_reached step_submit] step_include])

definition custody_summary :: "plain \<Rightarrow> nat list \<times> nat \<times> nat \<times> escrow list \<times> tx_status" where
  "custody_summary c = (map (unat \<circ> bal_balance) (cl_balances (cu_ledger c)), unat (cl_deposited (cu_ledger c)),
     unat (cl_withdrawn (cu_ledger c)), cl_escrows (cu_ledger c), nonce_status (cu_ledger c) (bu_nonce demo_bundle))"

definition demo_escrow :: "account_idx \<Rightarrow> amount \<Rightarrow> amount \<Rightarrow> escrow" where
  "demo_escrow maker rc mc = escrow_locked 5 SideYes 3 0 maker rc mc"

lemma demo_settled_summary:
  "custody_summary demo_settled = ([50000, 200000, 6750000, 0], 13000000, 0,
     [demo_escrow 1 1200000 1800000, demo_escrow 2 750000 2250000], TxSettled)"
  by code_simp

lemma demo_settled_facts:
  "map (unat \<circ> bal_balance) (cl_balances (cu_ledger demo_settled)) = [50000, 200000, 6750000, 0]"
  "unat (cl_deposited (cu_ledger demo_settled)) = 13000000"
  "cl_escrows (cu_ledger demo_settled) = [demo_escrow 1 1200000 1800000, demo_escrow 2 750000 2250000]"
  "nonce_status (cu_ledger demo_settled) (bu_nonce demo_bundle) = TxSettled"
  using demo_settled_summary by (simp_all only: custody_summary_def prod.inject)

lemma demo_outcomes:
  "is_ok (fst (settle 500 demo_bundle demo_funded)) \<and> \<not> is_ok (fst (settle 900 demo_bundle demo_funded)) \<and>
   cu_on_settle_entry demo_funded = None"
  by code_simp

section \<open>Properties\<close>

text \<open>
  C24. Money is conserved. In every state custody can reach, by any calls of its public operations in
  any order, at any instants, with any hooks, retries and direct settlements: what the accounts hold,
  what the locked escrows hold and what was ever withdrawn add up, as natural numbers, to what was
  ever deposited. No addition or subtraction on the way has saturated.
\<close>

theorem money_is_conserved:
  assumes "reaches custody_start (custody_step direct rewr) c"
  shows "(\<Sum>x\<leftarrow>cl_balances (cu_ledger c). unat (bal_balance x)) +
    (\<Sum>x\<leftarrow>cl_escrows (cu_ledger c). if escrow_is_locked x then unat (escrow_notional x) else 0) +
    unat (cl_withdrawn (cu_ledger c)) = unat (cl_deposited (cu_ledger c))"
proof -
  let ?l = "cu_ledger c"
  have s: "ledger_sound ?l" using reachable_custody_sound[OF assms] by (simp add: custody_sound_def)
  then have "(\<Sum>a\<in>UNIV. held ?l a) + sum_list (map pot_value (v_pots (vault_of ?l))) + unat (cl_withdrawn ?l) = unat (cl_deposited ?l)"
    by (simp add: ledger_sound_def vault_conserved_def) (simp add: vault_of_def)
  moreover have "length (cl_balances ?l) \<le> 2 ^ 32" using s by (simp add: ledger_sound_def tables_ok_def)
  ultimately show ?thesis unfolding locked_sum[OF s] by (simp add: held_sum)
qed

theorem money_is_conserved_witness:
  "map (unat \<circ> bal_balance) (cl_balances (cu_ledger demo_settled)) = [50000, 200000, 6750000, 0] \<and>
   (\<Sum>x\<leftarrow>cl_balances (cu_ledger demo_settled). unat (bal_balance x)) +
    (\<Sum>x\<leftarrow>cl_escrows (cu_ledger demo_settled). if escrow_is_locked x then unat (escrow_notional x) else 0) +
    unat (cl_withdrawn (cu_ledger demo_settled)) = 13000000"
  using money_is_conserved[OF demo_settled_reached] unfolding demo_settled_facts(1,2) by blast

text \<open>
  C36. Custody refines the vault. Read as free money per account and one pot per locked escrow, every
  reachable custody is a reachable state of the abstract settlement contract, and every run of custody
  operations is a run of it: money only moves by deposit, by withdrawal out of what the account holds,
  by locking pots both parties fill from what they hold, and by paying a pot once, to a party or back.
\<close>

theorem custody_refines_the_vault:
  assumes "reaches custody_start (custody_step direct rewr) c"
  shows "reaches vault_start vault_step (vault_of (cu_ledger c)) \<and>
    (\<forall>c'. (custody_step direct rewr)\<^sup>*\<^sup>* c c' \<longrightarrow> vault_step\<^sup>*\<^sup>* (vault_of (cu_ledger c)) (vault_of (cu_ledger c')))"
  using custody_refines.refines[OF assms] custody_refines.simulates_run[of direct rewr c] reachable_custody_sound[OF assms]
  by simp

theorem custody_refines_the_vault_witness:
  "reaches vault_start vault_step (vault_of (cu_ledger demo_settled)) \<and>
   v_pots (vault_of (cu_ledger demo_settled)) =
     [Some \<lparr> pot_requester = 0, pot_maker = 1, pot_rc = 1200000, pot_mc = 1800000 \<rparr>,
      Some \<lparr> pot_requester = 0, pot_maker = 2, pot_rc = 750000, pot_mc = 2250000 \<rparr>]"
proof -
  have "map pot_of (cl_escrows (cu_ledger demo_settled)) =
     [Some \<lparr> pot_requester = 0, pot_maker = 1, pot_rc = 1200000, pot_mc = 1800000 \<rparr>,
      Some \<lparr> pot_requester = 0, pot_maker = 2, pot_rc = 750000, pot_mc = 2250000 \<rparr>]"
    unfolding demo_settled_facts by (simp add: demo_escrow_def escrow_locked_def pot_of_def escrow_is_locked_def)
  with custody_refines_the_vault[OF demo_settled_reached] show ?thesis by (simp add: vault_of_def)
qed

text \<open>
  C37. Escrows are well formed. In every reachable custody an escrow names a requester and a maker of the
  account table, its two contributions are those of its size at one admissible price, so that they add
  up to \<open>size * UNIT\<close>; while it is locked its stored notional is exactly that sum; its index fits an
  escrow id, and there are never more escrows than the table was made for.
\<close>

theorem escrows_are_well_formed:
  assumes "reaches custody_start (custody_step direct rewr) c" and "x \<in> set (cl_escrows (cu_ledger c))"
  shows "unat (es_requester x) < length (cl_balances (cu_ledger c)) \<and> unat (es_maker x) < length (cl_balances (cu_ledger c)) \<and>
    (\<exists>p \<le> unat UNIT. unat (es_requester_contribution x) = unat (es_size x) * p \<and>
       unat (es_maker_contribution x) = unat (es_size x) * (unat UNIT - p)) \<and>
    (escrow_is_locked x \<longrightarrow> unat (escrow_notional x) = unat (es_size x) * unat UNIT) \<and>
    length (cl_escrows (cu_ledger c)) \<le> cl_max_escrows (cu_ledger c) \<and> cl_max_escrows (cu_ledger c) < 2 ^ 32"
proof -
  let ?l = "cu_ledger c"
  have s: "ledger_sound ?l" using reachable_custody_sound[OF assms(1)] by (simp add: custody_sound_def)
  then have t: "escrow_ok ?l x" "length (cl_escrows ?l) \<le> cl_max_escrows ?l" "cl_max_escrows ?l < 2 ^ 32"
    using assms(2) by (simp_all add: ledger_sound_def tables_ok_def)
  from t(1) obtain p where p: "p \<le> 1000000" "unat (es_requester_contribution x) = unat (es_size x) * p"
    "unat (es_maker_contribution x) = unat (es_size x) * (1000000 - p)" by (auto simp: escrow_ok_def)
  have "unat (es_requester_contribution x) + unat (es_maker_contribution x) = unat (es_size x) * 1000000"
    using p by (simp flip: distrib_left)
  with locked_contributions(2)[OF s assms(2)] t p show ?thesis by (auto simp: escrow_ok_def)
qed

theorem escrows_are_well_formed_witness:
  "cl_escrows (cu_ledger demo_settled) \<noteq> [] \<and>
   unat (escrow_notional (hd (cl_escrows (cu_ledger demo_settled)))) = 3000000"
proof -
  have d: "cl_escrows (cu_ledger demo_settled) \<noteq> [] \<and> escrow_is_locked (hd (cl_escrows (cu_ledger demo_settled))) \<and>
    unat (es_size (hd (cl_escrows (cu_ledger demo_settled)))) = 3"
    unfolding demo_settled_facts by (simp add: demo_escrow_def escrow_locked_def escrow_is_locked_def)
  then have "hd (cl_escrows (cu_ledger demo_settled)) \<in> set (cl_escrows (cu_ledger demo_settled))" by simp
  from escrows_are_well_formed[OF demo_settled_reached this] d show ?thesis by simp
qed

text \<open>
  C25. Settlement is atomic and decided by what is there when it is included. In every reachable custody,
  with \<open>m\<close> the ledger the entry hook leaves behind: \<open>settle\<close> succeeds exactly when \<open>m\<close> can accept
  the bundle (one to eight legs, nonce not settled, every quote live on custody's clock, every price
  admissible, every account it names known and holding the sum of all it owes) and the escrow table
  has room; then every account is debited exactly what it owes, one escrow per leg is formed, the
  receipt names them, and the nonce is settled; otherwise nothing but the hook has happened. The dry
  run \<open>precheck\<close> accepts exactly what the ledger accepts as it is.
\<close>

theorem settlement_is_atomic:
  assumes "reaches custody_start (custody_step direct rewr) c" and "m = cu_ledger (fire_hook now c)"
    and "l' = cu_ledger (snd (settle now b c))"
  shows "(is_ok (fst (settle now b c)) \<longleftrightarrow>
        acceptable m b now \<and> length (cl_escrows m) + unat (bu_n_legs b) \<le> cl_max_escrows m) \<and>
    (case fst (settle now b c) of
       Inl e \<Rightarrow> l' = m
     | Inr r \<Rightarrow> settled_by b m l' \<and> sr_n_escrows r = bu_n_legs b \<and>
         (\<forall>j < length (bundle_legs b). cl_escrow l' (sr_escrows r ! j) = Some (escrow_of_leg (bu_requester b) (bundle_legs b ! j)))) \<and>
    (is_ok (precheck now b c) \<longleftrightarrow> acceptable (cu_ledger c) b now) \<and>
    (cu_on_settle_entry c = None \<longrightarrow> m = cu_ledger c)"
proof -
  have ok: "custody_sound rewr c" by (rule reachable_custody_sound[OF assms(1)])
  have hooks: "\<forall>hook. cu_on_settle_entry c = Some hook \<longrightarrow> hook_ok rewr hook" and snd: "ledger_sound (cu_ledger c)"
    using ok by (simp_all add: custody_sound_def)
  have ms: "ledger_sound m"
    using sound_move_sound[OF ledger_calls_sound[OF conjunct1[OF fire_hook_calls[OF hooks]] snd] snd] by (simp add: assms(2))
  have iff: "(\<exists>d. validate l b now = Inr d) \<longleftrightarrow> acceptable l b now" for l using validate_Inr validate_ok by blast
  have pre: "is_ok (precheck now b c) \<longleftrightarrow> acceptable (cu_ledger c) b now"
    unfolding iff[symmetric] by (cases "validate (cu_ledger c) b now") (simp_all add: precheck_def)
  have hook: "cu_on_settle_entry c = None \<longrightarrow> m = cu_ledger c" by (simp add: assms(2) fire_hook_def)
  show ?thesis
  proof (cases rule: settle_cases[of now b c])
    case (refused e)
    have "\<not> (acceptable m b now \<and> length (cl_escrows m) + unat (bu_n_legs b) \<le> cl_max_escrows m)"
    proof
      assume a: "acceptable m b now \<and> length (cl_escrows m) + unat (bu_n_legs b) \<le> cl_max_escrows m"
      then obtain d where "validate m b now = Inr d" using iff by blast
      with a refused show False by (simp add: settle_def Let_def assms(2) split: prod.splits)
    qed
    then show ?thesis using refused pre hook assms(2,3) by simp
  next
    case (accepted d)
    let ?r = "fst (commit_settlement b d m)"
    have acc: "acceptable m b now" using accepted(1) iff by (auto simp: assms(2))
    have room: "length (cl_escrows m) + unat (bu_n_legs b) \<le> cl_max_escrows m" using accepted(2) by (simp add: assms(2))
    have len: "length (bundle_legs b) \<le> unat (bu_n_legs b)" by (rule bundle_legs_length)
    have small: "length (cl_escrows m) + length (bundle_legs b) < 2 ^ 32"
      using room len ms by (simp add: ledger_sound_def tables_ok_def)
    have st: "settle now b c = (Inr ?r, (fire_hook now c)\<lparr> cu_ledger := snd (commit_settlement b d m) \<rparr>)"
      using accepted(3) by (simp add: assms(2))
    then have l': "l' = snd (commit_settlement b d m)" by (simp add: assms(3))
    have eff: "settled_by b m l'" "sr_n_escrows ?r = bu_n_legs b"
      "\<forall>j < length (bundle_legs b). j < MAX_LEGS \<longrightarrow> sr_escrows ?r ! j = word_of_nat (length (cl_escrows m) + j)"
      unfolding l' using commit_effect[of m b now d] accepted(1) small by (simp_all add: assms(2))
    have "cl_escrow l' (sr_escrows ?r ! j) = Some (escrow_of_leg (bu_requester b) (bundle_legs b ! j))"
      if j: "j < length (bundle_legs b)" for j
    proof -
      have "length (bundle_legs b) \<le> MAX_LEGS" using len acc by (simp add: acceptable_def)
      then have "sr_escrows ?r ! j = word_of_nat (length (cl_escrows m) + j)" using eff(3) j by simp
      moreover have "unat (word_of_nat (length (cl_escrows m) + j) :: u32) = length (cl_escrows m) + j"
        by (rule unat_word_of_nat) (use small j in simp)
      moreover have "cl_escrows l' = cl_escrows m @ map (escrow_of_leg (bu_requester b)) (bundle_legs b)"
        using eff(1) by (simp add: settled_by_def)
      ultimately show ?thesis using j by (simp only: cl_escrow_def get_idx_def) (simp add: nth_append)
    qed
    then show ?thesis using acc room eff(1,2) pre hook st by simp
  qed
qed

theorem settlement_is_atomic_witness:
  "is_ok (fst (settle 500 demo_bundle demo_funded)) \<and> acceptable (cu_ledger demo_funded) demo_bundle 500 \<and>
   \<not> is_ok (fst (settle 900 demo_bundle demo_funded)) \<and>
   cu_ledger (snd (settle 900 demo_bundle demo_funded)) = cu_ledger demo_funded"
proof -
  have hook: "fire_hook now demo_funded = demo_funded" for now using demo_outcomes by (simp add: fire_hook_def)
  note atomic = settlement_is_atomic[OF demo_funded_reached refl refl, unfolded hook]
  have "acceptable (cu_ledger demo_funded) demo_bundle 500"
    using atomic[where now = 500 and b = demo_bundle] demo_outcomes by blast
  moreover have "cu_ledger (snd (settle 900 demo_bundle demo_funded)) = cu_ledger demo_funded"
    using atomic[where now = 900 and b = demo_bundle] demo_outcomes by (cases "fst (settle 900 demo_bundle demo_funded)") simp_all
  ultimately show ?thesis using demo_outcomes by blast
qed

end
