(* ===== verification/Custody_Answers.thy ===== *)
theory Custody_Answers
  imports Custody_Claims
begin

text \<open>
  Payout, answers, the queue and the timelock of custody: an escrow pays once, the fate of a nonce is
  final, including everything ends, and money asked for stays until it matures.
\<close>

section \<open>Answers\<close>

lemma settle_resolved:
  assumes ok: "custody_sound w c"
  shows "cl_pending (cu_ledger (snd (settle now b c))) = cl_pending (cu_ledger c) \<and>
    (cl_resolved (cu_ledger (snd (settle now b c))) = cl_resolved (cu_ledger c) \<or>
     cl_resolved (cu_ledger (snd (settle now b c))) = (cl_resolved (cu_ledger c))(bu_nonce b \<mapsto> TxSettled))"
proof -
  from settle_effect[OF ok, of now b] obtain m where m: "sound_move (cu_ledger c) m"
    and cases: "case fst (settle now b c) of
       Inl e \<Rightarrow> cu_ledger (snd (settle now b c)) = m
     | Inr r \<Rightarrow> acceptable m b now \<and> length (cl_escrows m) + unat (bu_n_legs b) \<le> cl_max_escrows m \<and>
         settled_by b m (cu_ledger (snd (settle now b c))) \<and> sr_n_escrows r = bu_n_legs b \<and>
         (\<forall>j < length (bundle_legs b). sr_escrows r ! j = word_of_nat (length (cl_escrows m) + j))" by blast
  show ?thesis
  proof (cases "fst (settle now b c)")
    case (Inl e)
    then show ?thesis using m cases by (simp add: sound_move_def)
  next
    case (Inr r)
    then show ?thesis using m cases by (simp add: sound_move_def settled_by_def)
  qed
qed

text \<open>What an inclusion does to the queue and to the answers.\<close>

lemma include_next_answers:
  assumes ok: "custody_sound w c" and q: "cl_pending (cu_ledger c) = b # rest"
  shows "\<exists>tx c'. include_next now c = (Some tx, c') \<and> cl_pending (cu_ledger c') = rest \<and> tx_nonce tx = bu_nonce b \<and>
    cl_resolved (cu_ledger c') (bu_nonce b) = Some (tx_status_of tx) \<and>
    (\<forall>n. n \<noteq> bu_nonce b \<or> cl_resolved (cu_ledger c) n \<noteq> None \<longrightarrow> cl_resolved (cu_ledger c') n = cl_resolved (cu_ledger c) n)"
proof (cases rule: include_next_cases[of c now])
  case empty
  then show ?thesis using q by simp
next
  case (answered b' rest' st)
  then show ?thesis using q by simp
next
  case (fresh b' rest' out c2 st r)
  let ?c1 = "c\<lparr> cu_ledger := (cu_ledger c)\<lparr> cl_pending := rest' \<rparr> \<rparr>"
  have "custody_sound w ?c1" using ok by (simp add: custody_sound_def)
  from settle_resolved[OF this, of now b'] fresh(3)
  have p2: "cl_pending (cu_ledger c2) = rest'" and r2: "cl_resolved (cu_ledger c2) = cl_resolved (cu_ledger c) \<or>
      cl_resolved (cu_ledger c2) = (cl_resolved (cu_ledger c))(bu_nonce b' \<mapsto> TxSettled)" by simp_all
  have keep: "r n = cl_resolved (cu_ledger c) n" if "n \<noteq> bu_nonce b' \<or> cl_resolved (cu_ledger c) n \<noteq> None" for n
  proof -
    have "n \<noteq> bu_nonce b'" using that fresh(2) by auto
    then show ?thesis using r2 unfolding fresh(4) by (auto split: option.split)
  qed
  have "b' = b" "rest' = rest" using q fresh(1) by simp_all
  with fresh(5,6) p2 keep show ?thesis by simp
qed

definition answer_kept :: "bool \<Rightarrow> nonce \<Rightarrow> tx_status \<Rightarrow> 'h custody \<Rightarrow> bool" where
  "answer_kept direct n st c \<longleftrightarrow> cl_resolved (cu_ledger c) n = Some st \<and> (st = TxSettled \<or> \<not> direct)"

lemma answer_kept_step:
  assumes ok: "custody_sound w c" and a: "answer_kept d n st c" and "custody_step d w c c'"
  shows "answer_kept d n st c'"
  using assms(3)
proof (cases rule: custody_step.cases)
  case (step_ledger l)
  have "ledger_sound (cu_ledger c)" using ok by (simp add: custody_sound_def)
  from ledger_call_sound[OF step_ledger(2) this] show ?thesis
    using a by (simp add: step_ledger(1) answer_kept_def sound_move_def)
next
  case (step_include now)
  show ?thesis
  proof (cases "cl_pending (cu_ledger c)")
    case Nil
    then show ?thesis using a by (simp add: step_include include_next_def)
  next
    case (Cons b rest)
    from include_next_answers[OF ok Cons, of now] obtain tx c1 where "include_next now c = (Some tx, c1)"
      and "\<forall>n. n \<noteq> bu_nonce b \<or> cl_resolved (cu_ledger c) n \<noteq> None \<longrightarrow> cl_resolved (cu_ledger c1) n = cl_resolved (cu_ledger c) n"
      by blast
    moreover have "cl_resolved (cu_ledger c) n \<noteq> None" using a by (simp add: answer_kept_def)
    ultimately have "cl_resolved (cu_ledger c1) n = cl_resolved (cu_ledger c) n" by blast
    then show ?thesis using a \<open>include_next now c = (Some tx, c1)\<close> by (simp add: step_include answer_kept_def)
  qed
next
  case (step_settle now b)
  then show ?thesis using settle_resolved[OF ok, of now b] a by (auto simp: answer_kept_def)
qed (use a in \<open>auto simp: answer_kept_def on_settle_entry_def submit_def drop_next_submission_def split: list.split\<close>)

lemma answer_kept_run:
  assumes "(custody_step d w)\<^sup>*\<^sup>* c c'" and "custody_sound w c" and "answer_kept d n st c"
  shows "answer_kept d n st c' \<and> custody_sound w c'"
  using assms
proof (induction rule: rtranclp_induct)
  case (step c1 c2)
  then have k: "answer_kept d n st c1" "custody_sound w c1" by simp_all
  with answer_kept_step[OF k(2,1) step(2)] custody_step_sound[OF k(2) step(2)] show ?case by blast
qed simp

lemma terminal_status: "nonce_status l n = st \<Longrightarrow> tx_is_terminal st \<Longrightarrow> cl_resolved l n = Some st"
  by (auto simp: nonce_status_def split: option.splits if_splits)

text \<open>A direct settlement under a nonce whose answer was a revert replaces that answer.\<close>

lemma direct_settlement_overwrites_a_revert:
  assumes "reaches custody_start (custody_step True rewr) c" and "nonce_status (cu_ledger c) (bu_nonce b) = TxReverted"
    and "is_ok (fst (settle now b c))"
  shows "custody_step True rewr c (snd (settle now b c)) \<and> nonce_status (cu_ledger (snd (settle now b c))) (bu_nonce b) = TxSettled"
proof -
  obtain r where r: "fst (settle now b c) = Inr r" using assms(3) by (cases "fst (settle now b c)") simp_all
  obtain m where "settled_by b m (cu_ledger (snd (settle now b c)))"
    using settle_effect[OF reachable_custody_sound[OF assms(1)], of now b] unfolding r by auto
  then have "cl_resolved (cu_ledger (snd (settle now b c))) (bu_nonce b) = Some TxSettled" by (simp add: settled_by_def)
  then show ?thesis by (auto simp: nonce_status_def intro: step_settle)
qed

section \<open>Including everything\<close>

lemma include_all_Cons:
  "include_next (clock k) c = (Some tx, c') \<Longrightarrow> include_all clock k acc c = include_all clock (Suc k) (acc @ [tx]) c'"
  by (subst include_all.simps) simp

lemma include_all_Nil: "cl_pending (cu_ledger c) = [] \<Longrightarrow> include_all clock k acc c = Some (acc, c)"
  by (subst include_all.simps) (simp add: include_next_def)

lemma include_all_runs:
  assumes "custody_sound w c"
  shows "\<exists>txs c'. include_all clock k acc c = Some (acc @ txs, c') \<and> cl_pending (cu_ledger c') = [] \<and> custody_sound w c' \<and>
    map tx_nonce txs = map bu_nonce (cl_pending (cu_ledger c)) \<and>
    (\<forall>tx \<in> set txs. cl_resolved (cu_ledger c') (tx_nonce tx) = Some (tx_status_of tx)) \<and>
    (\<forall>n. cl_resolved (cu_ledger c) n \<noteq> None \<longrightarrow> cl_resolved (cu_ledger c') n = cl_resolved (cu_ledger c) n)"
  using assms
proof (induction "cl_pending (cu_ledger c)" arbitrary: c k acc)
  case Nil
  then show ?case by (simp add: include_all_Nil)
next
  case (Cons b rest)
  from include_next_answers[OF Cons.prems Cons.hyps(2)[symmetric], of "clock k"] obtain tx c1 where
    one: "include_next (clock k) c = (Some tx, c1)" "cl_pending (cu_ledger c1) = rest" "tx_nonce tx = bu_nonce b"
      "cl_resolved (cu_ledger c1) (bu_nonce b) = Some (tx_status_of tx)"
      "\<forall>n. n \<noteq> bu_nonce b \<or> cl_resolved (cu_ledger c) n \<noteq> None \<longrightarrow> cl_resolved (cu_ledger c1) n = cl_resolved (cu_ledger c) n"
    by blast
  have s: "custody_sound w c1" using include_next_sound[OF Cons.prems, of "clock k"] one(1) by simp
  from Cons.hyps(1)[OF one(2)[symmetric] s, of "Suc k" "acc @ [tx]"] obtain txs c' where
    more: "include_all clock (Suc k) (acc @ [tx]) c1 = Some ((acc @ [tx]) @ txs, c')" "cl_pending (cu_ledger c') = []"
      "custody_sound w c'" "map tx_nonce txs = map bu_nonce (cl_pending (cu_ledger c1))"
      "\<forall>tx \<in> set txs. cl_resolved (cu_ledger c') (tx_nonce tx) = Some (tx_status_of tx)"
      "\<forall>n. cl_resolved (cu_ledger c1) n \<noteq> None \<longrightarrow> cl_resolved (cu_ledger c') n = cl_resolved (cu_ledger c1) n"
    by blast
  have "include_all clock k acc c = Some (acc @ (tx # txs), c')" unfolding include_all_Cons[where acc = acc and clock = clock and k = k, OF one(1)] more(1) by simp
  moreover have "map tx_nonce (tx # txs) = map bu_nonce (cl_pending (cu_ledger c))"
    using one(2,3) more(4) Cons.hyps(2) by (metis list.simps(9))
  moreover have "\<forall>t \<in> set (tx # txs). cl_resolved (cu_ledger c') (tx_nonce t) = Some (tx_status_of t)"
    using one(3,4) more(5,6) by auto
  moreover have "\<forall>n. cl_resolved (cu_ledger c) n \<noteq> None \<longrightarrow> cl_resolved (cu_ledger c') n = cl_resolved (cu_ledger c) n"
    using one(5) more(6) by metis
  ultimately show ?case using more(2,3) by blast
qed

section \<open>The timelock\<close>

text \<open>
  A run of ledger operations before a deadline, with what settlements debited an account on the way.
  Only the withdrawals sample an instant, and it is before the deadline.
\<close>

inductive run_before :: "ts \<Rightarrow> account_idx \<Rightarrow> custody_ledger \<Rightarrow> nat \<Rightarrow> custody_ledger \<Rightarrow> bool"
  for deadline :: ts and a :: account_idx and l :: custody_ledger where
  before_start: "run_before deadline a l 0 l"
| before_deposit: "run_before deadline a l n m \<Longrightarrow> run_before deadline a l n (snd (deposit x v m))"
| before_request: "run_before deadline a l n m \<Longrightarrow> run_before deadline a l n (snd (request_withdrawal x v now m))"
| before_execute: "run_before deadline a l n m \<Longrightarrow> now < deadline \<Longrightarrow> run_before deadline a l n (snd (execute_withdrawal x now m))"
| before_matured: "run_before deadline a l n m \<Longrightarrow> now < deadline \<Longrightarrow> run_before deadline a l n (snd (execute_matured_withdrawals now m))"
| before_escrow: "run_before deadline a l n m \<Longrightarrow> run_before deadline a l n (snd (custody_settle_escrow i k out m))"
| before_settle: "run_before deadline a l n m \<Longrightarrow> validate m b now = Inr d \<Longrightarrow>
    length (cl_escrows m) + unat (bu_n_legs b) \<le> cl_max_escrows m \<Longrightarrow>
    run_before deadline a l (n + bundle_due b a) (snd (commit_settlement b d m))"

definition lock_of :: "custody_ledger \<Rightarrow> account_idx \<Rightarrow> (amount \<times> ts) option" where
  "lock_of l a = Option.bind (cl_account l a) pending_withdrawal"

lemma lock_of_update:
  "(\<And>e. bal_pending (f e) = bal_pending e \<and> bal_matures_at (f e) = bal_matures_at e) \<Longrightarrow>
   lock_of (balance_update x f l) a = lock_of l a"
  by (auto simp: lock_of_def cl_account_update pending_withdrawal_def split: Option.bind_split)

lemma lock_of_frame:
  "cl_balances l' = cl_balances l \<Longrightarrow> lock_of l' a = lock_of l a"
  by (simp add: lock_of_def cl_account_def)

lemma lock_of_log [simp]: "lock_of (log_balance x l) a = lock_of l a" "lock_of (fold (log_balance \<circ> f) es l) a = lock_of l a"
  by (rule lock_of_frame; simp)+

lemma lock_of_deposit: "lock_of (snd (deposit x v l)) a = lock_of l a"
proof -
  have "lock_of ((balance_update x (bal_balance_update (\<lambda>_. s)) l)\<lparr> cl_deposited := d \<rparr>) a = lock_of l a" for s d
    by (subst lock_of_frame[of _ "balance_update x (bal_balance_update (\<lambda>_. s)) l"]) (simp_all add: lock_of_update)
  then show ?thesis by (simp add: deposit_def split: option.split)
qed

lemma lock_of_credits: "lock_of (fold credit_account es l) a = lock_of l a"
  by (induction es arbitrary: l) (simp_all add: credit_account_def lock_of_update)

lemma lock_of_debits: "lock_of (fold debit_account es l) a = lock_of l a"
  by (induction es arbitrary: l) (simp_all add: debit_account_def lock_of_update)

lemma lock_of_escrow: "lock_of (snd (custody_settle_escrow i k out l)) a = lock_of l a"
proof -
  have "lock_of (m\<lparr> cl_escrows := es \<rparr>) a = lock_of m a" for m es by (rule lock_of_frame) simp
  then show ?thesis by (simp add: custody_settle_escrow_def Let_def lock_of_credits split: option.split)
qed

lemma lock_of_request: "lock_of l a = Some w \<Longrightarrow> lock_of (snd (request_withdrawal x v now l)) a = Some w"
proof -
  assume w: "lock_of l a = Some w"
  show ?thesis
  proof (cases "x = a")
    case True
    then have "request_withdrawal x v now l = (Inl WithdrawalAlreadyPending, l)"
      using w by (auto simp: request_withdrawal_def lock_of_def pending_withdrawal_def split: Option.bind_splits option.splits if_splits)
    with w show ?thesis by simp
  next
    case False
    then have "lock_of (balance_update x f l) a = lock_of l a" for f by (simp add: lock_of_def cl_account_update)
    with w show ?thesis by (simp add: request_withdrawal_def Let_def split: option.split)
  qed
qed

lemma execute_locked:
  assumes "lock_of l a = Some (v, mat)" and "now < mat"
  shows "lock_of (snd (execute_withdrawal x now l)) a = Some (v, mat) \<and> held (snd (execute_withdrawal x now l)) a = held l a"
proof (cases "x = a")
  case True
  then have "snd (execute_withdrawal x now l) = l"
    using assms by (auto simp: execute_withdrawal_def lock_of_def pending_withdrawal_def split: Option.bind_splits option.splits if_splits)
  with assms show ?thesis by simp
next
  case False
  have "lock_of ((balance_update x f l)\<lparr> cl_withdrawn := z \<rparr>) a = lock_of l a \<and>
      held ((balance_update x f l)\<lparr> cl_withdrawn := z \<rparr>) a = held l a" for f z
  proof -
    have fr: "cl_balances ((balance_update x f l)\<lparr> cl_withdrawn := z \<rparr>) = cl_balances (balance_update x f l)" by simp
    show ?thesis
      using lock_of_frame[OF fr, of a] reads_balances[OF fr] False by (simp add: lock_of_def cl_account_update held_update)
  qed
  then show ?thesis using assms by (simp add: execute_withdrawal_def Let_def split: option.split)
qed

lemma execute_fold_locked:
  "lock_of (snd acc) a = Some (v, mat) \<Longrightarrow> now < mat \<Longrightarrow>
   lock_of (snd (fold (execute_one now) ks acc)) a = Some (v, mat) \<and> held (snd (fold (execute_one now) ks acc)) a = held (snd acc) a"
proof (induction ks arbitrary: acc)
  case (Cons k ks)
  have "lock_of (snd (execute_one now k acc)) a = Some (v, mat)" "held (snd (execute_one now k acc)) a = held (snd acc) a"
    unfolding execute_one_snd using execute_locked[OF Cons.prems] by simp_all
  with Cons.IH[of "execute_one now k acc"] Cons.prems(2) show ?case by simp
qed simp

lemma held_deposit: "held l a \<le> held (snd (deposit x v l)) a"
proof (cases "snd (deposit x v l) = l")
  case False
  then obtain dep e s where e: "cl_account l x = Some e" and s: "amount_checked_add (bal_balance e) v = Some s"
    and l': "snd (deposit x v l) = log_balance x ((balance_update x (bal_balance_update (\<lambda>_. s)) l)\<lparr> cl_deposited := dep \<rparr>)"
    by (auto simp: deposit_def split: option.splits)
  have "held (snd (deposit x v l)) a = held (balance_update x (bal_balance_update (\<lambda>_. s)) l) a"
    unfolding l' using reads_balances[of "(balance_update x (bal_balance_update (\<lambda>_. s)) l)\<lparr> cl_deposited := dep \<rparr>"
      "balance_update x (bal_balance_update (\<lambda>_. s)) l"] by simp
  also have "held l a \<le> \<dots>"
    using e s by (simp add: held_update held_entry amount_checked_add_def checked_add_Some_iff)
  finally show ?thesis .
qed simp

lemma held_escrow: "ledger_sound l \<Longrightarrow> held l a \<le> held (snd (custody_settle_escrow i k out l)) a"
proof (cases "\<exists>x. cl_escrow l i = Some x \<and> es_contract x = k \<and> escrow_is_locked x")
  case True
  then obtain x where x: "cl_escrow l i = Some x" "es_contract x = k" "escrow_is_locked x" by blast
  assume "ledger_sound l"
  from settle_escrow_effect[OF this x, of out] show ?thesis by simp
next
  case False
  then show ?thesis by (auto simp: custody_settle_escrow_def split: option.splits)
qed

lemma held_request: "held (snd (request_withdrawal x v now l)) a = held l a"
  by (auto simp: request_withdrawal_def held_update held_entry split: option.splits)

lemma run_before_keeps:
  assumes "run_before deadline a l n m" and "ledger_sound l" and "lock_of l a = Some (v, mat)" and "deadline \<le> mat"
  shows "ledger_sound m \<and> lock_of m a = Some (v, mat) \<and> held l a \<le> held m a + n"
  using assms
proof (induction rule: run_before.induct)
  case before_start
  then show ?case by simp
next
  case (before_deposit n m x v')
  have k: "ledger_sound m" "lock_of m a = Some (v, mat)" "held l a \<le> held m a + n" using before_deposit by simp_all
  with held_deposit[of m a x v'] sound_move_sound[OF deposit_sound k(1)] show ?case
    by (simp add: lock_of_deposit)
next
  case (before_request n m x v' now)
  have k: "ledger_sound m" "lock_of m a = Some (v, mat)" "held l a \<le> held m a + n" using before_request by simp_all
  with sound_move_sound[OF request_withdrawal_sound k(1)] lock_of_request[OF k(2)] show ?case by (simp add: held_request)
next
  case (before_execute n m now x)
  have k: "ledger_sound m" "lock_of m a = Some (v, mat)" "held l a \<le> held m a + n" using before_execute by simp_all
  have "now < mat" using before_execute by (auto intro: less_le_trans)
  from execute_locked[OF k(2) this] k sound_move_sound[OF execute_withdrawal_sound[OF k(1)] k(1)] show ?case by simp
next
  case (before_matured n m now)
  have k: "ledger_sound m" "lock_of m a = Some (v, mat)" "held l a \<le> held m a + n" using before_matured by simp_all
  have "now < mat" using before_matured by (auto intro: less_le_trans)
  from execute_fold_locked[of "(0, m)" a v mat now, OF _ this] k sound_move_sound[OF execute_matured_sound[OF k(1)] k(1)]
  show ?case by (simp add: execute_matured_withdrawals_def)
next
  case (before_escrow n m i k out)
  have k: "ledger_sound m" "lock_of m a = Some (v, mat)" "held l a \<le> held m a + n" using before_escrow by simp_all
  with held_escrow[OF k(1), of a] sound_move_sound[OF custody_settle_escrow_sound[OF k(1)] k(1)] show ?case
    by (simp add: lock_of_escrow) (meson add_le_mono1 order_trans)
next
  case (before_settle n m b now d)
  have k: "ledger_sound m" "lock_of m a = Some (v, mat)" "held l a \<le> held m a + n" using before_settle by simp_all
  have acc: "acceptable m b now" using validate_Inr[OF before_settle(2)] by blast
  have "length (cl_escrows m) + length (bundle_legs b) \<le> 2 ^ 32"
    using before_settle(3) bundle_legs_length[of b] k(1) by (simp add: ledger_sound_def tables_ok_def)
  from commit_effect[OF before_settle(2) this] have eff: "settled_by b m (snd (commit_settlement b d m))" by blast
  from settled_vault[OF acc before_settle(3) eff] k(1)
  have s: "ledger_sound (snd (commit_settlement b d m))" by (auto simp: ledger_sound_def intro: vault_step_conserved)
  have "bundle_due b a \<le> held m a" using acc by (simp add: acceptable_def held_def)
  then have h: "held l a \<le> held (snd (commit_settlement b d m)) a + (n + bundle_due b a)"
    using eff k(3) by (simp add: settled_by_def)
  have "cl_balances (snd (fold (form_escrow r) es (ids, l1))) = cl_balances l1" for r es ids l1
    by (induction es arbitrary: ids l1) (simp_all add: form_escrow_def Let_def)
  then have "cl_balances (snd (commit_settlement b d m)) = cl_balances (fold debit_account (debits_entries d) m)"
    by (simp add: commit_settlement_def Let_def split: prod.split) (metis log_balances_frame(8) snd_conv)
  from lock_of_frame[OF this] have "lock_of (snd (commit_settlement b d m)) a = lock_of m a" by (simp add: lock_of_debits)
  with k(2) h s show ?case by simp
qed

section \<open>Properties\<close>

text \<open>
  C32. An escrow pays exactly once, by the side of its leg. In every reachable custody, settling a locked
  escrow under its contract and an outcome credits the whole notional to the winner, or on a void
  outcome each contribution to who made it, and nobody else; it marks that escrow settled and touches
  no other; named with another contract it is refused and nothing moves; and settling it again, under
  whatever outcome, pays nothing.
\<close>

theorem escrow_pays_exactly_once:
  assumes "reaches custody_start (custody_step direct rewr) c" and "l = cu_ledger c"
    and "cl_escrow l i = Some x" and "escrow_is_locked x"
    and "l' = snd (custody_settle_escrow i (es_contract x) out l)"
  shows "fst (custody_settle_escrow i (es_contract x) out l) = Inr True \<and>
    (\<forall>a. unat (cl_balance l' a) = unat (cl_balance l a) +
       (case payout_goes_to_requester out (es_side x) of
          Some won \<Rightarrow> (if a = (if won then es_requester x else es_maker x) then unat (escrow_notional x) else 0)
        | None \<Rightarrow> (if a = es_requester x then unat (es_requester_contribution x) else 0) +
            (if a = es_maker x then unat (es_maker_contribution x) else 0))) \<and>
    (\<forall>j. cl_escrow l' j = (if j = i then Some (x\<lparr> es_state := EsSettled \<rparr>) else cl_escrow l j)) \<and>
    (\<forall>k out'. k \<noteq> es_contract x \<longrightarrow> custody_settle_escrow i k out' l = (Inl EscrowContractMismatch, l)) \<and>
    (\<forall>out'. custody_settle_escrow i (es_contract x) out' l' = (Inr False, l'))"
proof -
  have s: "ledger_sound l" using reachable_custody_sound[OF assms(1)] by (simp add: custody_sound_def assms(2))
  note eff = settle_escrow_effect[OF s assms(3) refl assms(4), of out, folded assms(5)]
  have i: "unat i < length (cl_escrows l)" "cl_escrows l ! unat i = x"
    using assms(3) by (simp_all add: cl_escrow_def get_idx_Some_iff)
  have "x \<in> set (cl_escrows l)" using i nth_mem by blast
  note n = locked_contributions(2)[OF s this assms(4)]
  have paid: "share (payout_of out (es_side x)) (the_pot x) a =
      (case payout_goes_to_requester out (es_side x) of
          Some won \<Rightarrow> (if a = (if won then es_requester x else es_maker x) then unat (escrow_notional x) else 0)
        | None \<Rightarrow> (if a = es_requester x then unat (es_requester_contribution x) else 0) +
            (if a = es_maker x then unat (es_maker_contribution x) else 0))" for a
    by (cases "payout_goes_to_requester out (es_side x)") (auto simp: the_pot_def n split: bool.split)
  have esc: "cl_escrow l' j = (if j = i then Some (x\<lparr> es_state := EsSettled \<rparr>) else cl_escrow l j)" for j
    using eff i(1) by (auto simp: cl_escrow_def get_idx_def paid_out_def word_unat_eq_iff)
  have mis: "custody_settle_escrow i k out' l = (Inl EscrowContractMismatch, l)" if "k \<noteq> es_contract x" for k out'
    using that by (simp add: custody_settle_escrow_def assms(3))
  have again: "custody_settle_escrow i (es_contract x) out' l' = (Inr False, l')" for out'
    by (simp add: custody_settle_escrow_def esc escrow_is_locked_def)
  show ?thesis using eff esc mis again unfolding paid held_def by blast
qed

lemma listed_balance:
  "unat a < length (cl_balances l) \<Longrightarrow> unat (cl_balance l a) = map (unat \<circ> bal_balance) (cl_balances l) ! unat a"
  by (simp add: cl_balance_def cl_account_def get_idx_def)

lemma demo_settled_length: "length (cl_balances (cu_ledger demo_settled)) = 4"
  using arg_cong[where f = length, OF demo_settled_facts(1)] by simp

theorem escrow_pays_exactly_once_witness:
  "unat (cl_balance (cu_ledger demo_settled) 0) = 50000 \<and>
   unat (cl_balance (snd (custody_settle_escrow 0 5 OutcomeYes (cu_ledger demo_settled))) 0) = 3050000 \<and>
   unat (cl_balance (snd (custody_settle_escrow 1 5 OutcomeVoid (cu_ledger demo_settled))) 2) = 9000000"
proof -
  let ?l = "cu_ledger demo_settled"
  have b: "unat (cl_balance ?l 0) = 50000" "unat (cl_balance ?l 2) = 6750000"
    using listed_balance[of 0 ?l] listed_balance[of 2 ?l] by (simp_all add: demo_settled_length demo_settled_facts(1))
  have e: "cl_escrow ?l 0 = Some (demo_escrow 1 1200000 1800000)" "cl_escrow ?l 1 = Some (demo_escrow 2 750000 2250000)"
    by (simp_all add: cl_escrow_def get_idx_def demo_settled_facts(3))
  have k: "escrow_is_locked (demo_escrow m r q)" "es_contract (demo_escrow m r q) = 5" "es_side (demo_escrow m r q) = SideYes"
    "es_requester (demo_escrow m r q) = 0" "es_maker (demo_escrow m r q) = m" "es_requester_contribution (demo_escrow m r q) = r"
    "es_maker_contribution (demo_escrow m r q) = q" for m r q
    by (simp_all add: demo_escrow_def escrow_locked_def escrow_is_locked_def)
  have n: "unat (escrow_notional (demo_escrow 1 1200000 1800000)) = 3000000"
    by (simp add: escrow_notional_def k unat_saturating_add)
  from escrow_pays_exactly_once[OF demo_settled_reached refl e(1) k(1) refl, of OutcomeYes]
  have "unat (cl_balance (snd (custody_settle_escrow 0 5 OutcomeYes ?l)) 0) = 3050000" by (simp add: k b n)
  moreover from escrow_pays_exactly_once[OF demo_settled_reached refl e(2) k(1) refl, of OutcomeVoid]
  have "unat (cl_balance (snd (custody_settle_escrow 1 5 OutcomeVoid ?l)) 2) = 9000000" by (simp add: k b)
  ultimately show ?thesis using b by blast
qed

text \<open>
  C33. A settled nonce stays settled, and a reverted one stays reverted while bundles settle through the
  queue. Once a reachable custody answers \<open>Settled\<close> for a nonce, it answers the same after every later
  run of its operations, direct calls of \<open>settle\<close> included; a \<open>Reverted\<close> answer is kept by every run
  without a direct call of \<open>settle\<close> (such a call can turn it into \<open>Settled\<close>, as the lemma above shows).
  A retry of a nonce with such an answer is reported as \<open>NonceReused\<close> together with it, and changes
  nothing but the queue it leaves.
\<close>

theorem answers_are_final:
  assumes "reaches custody_start (custody_step direct rewr) c" and "nonce_status (cu_ledger c) n = st"
    and "tx_is_terminal st" and "direct \<longrightarrow> st = TxSettled" and "(custody_step direct rewr)\<^sup>*\<^sup>* c c'"
  shows "nonce_status (cu_ledger c') n = st \<and>
    (\<forall>b rest now. cl_pending (cu_ledger c') = b # rest \<longrightarrow> bu_nonce b = n \<longrightarrow>
       include_next now c' = (Some \<lparr> tx_nonce = n, tx_outcome = Inl NonceReused, tx_status_of = st \<rparr>,
         c'\<lparr> cu_ledger := (cu_ledger c')\<lparr> cl_pending := rest \<rparr> \<rparr>))"
proof -
  have "answer_kept direct n st c"
    using terminal_status[OF assms(2,3)] assms(4) by (auto simp: answer_kept_def)
  from answer_kept_run[OF assms(5) reachable_custody_sound[OF assms(1)] this]
  have "cl_resolved (cu_ledger c') n = Some st" by (simp add: answer_kept_def)
  then show ?thesis by (auto simp: nonce_status_def include_next_def Let_def)
qed

theorem answers_are_final_witness:
  "nonce_status (cu_ledger (snd (include_next 600 (snd (submit demo_bundle demo_settled))))) (bu_nonce demo_bundle) = TxSettled"
proof -
  let ?c = "snd (include_next 600 (snd (submit demo_bundle demo_settled)))"
  have "(custody_step True True)\<^sup>*\<^sup>* demo_settled ?c"
    using step_submit step_include by (metis (no_types) rtranclp.rtrancl_into_rtrancl rtranclp.rtrancl_refl)
  from answers_are_final[OF demo_settled_reached demo_settled_facts(4) _ _ this] show ?thesis by simp
qed

text \<open>
  C35. Including everything ends and answers everything. In every reachable custody, whatever instants the
  inclusions sample and whatever the hooks do, \<open>include_all\<close> returns: the queue is empty, the included
  transactions are the queued bundles in order, each with the answer its nonce then has for good, and
  every answer there was before is unchanged.
\<close>

theorem include_all_answers_everything:
  assumes "reaches custody_start (custody_step direct rewr) c"
  shows "\<exists>txs c'. include_all clock k [] c = Some (txs, c') \<and> cl_pending (cu_ledger c') = [] \<and>
    map tx_nonce txs = map bu_nonce (cl_pending (cu_ledger c)) \<and>
    (\<forall>tx \<in> set txs. tx_is_terminal (tx_status_of tx) \<and> nonce_status (cu_ledger c') (tx_nonce tx) = tx_status_of tx) \<and>
    (\<forall>n. tx_is_terminal (nonce_status (cu_ledger c) n) \<longrightarrow> nonce_status (cu_ledger c') n = nonce_status (cu_ledger c) n)"
proof -
  from include_all_runs[OF reachable_custody_sound[OF assms], of clock k "[]"] obtain txs c' where
    r: "include_all clock k [] c = Some (txs, c')" "cl_pending (cu_ledger c') = []" "custody_sound rewr c'"
      "map tx_nonce txs = map bu_nonce (cl_pending (cu_ledger c))"
      "\<forall>tx \<in> set txs. cl_resolved (cu_ledger c') (tx_nonce tx) = Some (tx_status_of tx)"
      "\<forall>n. cl_resolved (cu_ledger c) n \<noteq> None \<longrightarrow> cl_resolved (cu_ledger c') n = cl_resolved (cu_ledger c) n" by auto
  have "tx_is_terminal (tx_status_of tx) \<and> nonce_status (cu_ledger c') (tx_nonce tx) = tx_status_of tx" if "tx \<in> set txs" for tx
    using r(5) r(3) that by (auto simp: custody_sound_def nonce_status_def)
  moreover have "nonce_status (cu_ledger c') n = nonce_status (cu_ledger c) n" if "tx_is_terminal (nonce_status (cu_ledger c) n)" for n
  proof -
    from terminal_status[OF refl that] obtain st where st: "cl_resolved (cu_ledger c) n = Some st" by blast
    then have "cl_resolved (cu_ledger c') n = Some st" using r(6) by simp
    with st show ?thesis by (simp add: nonce_status_def)
  qed
  ultimately show ?thesis using r by blast
qed

definition demo_queue :: plain where
  "demo_queue = snd (submit demo_bundle (snd (submit demo_bundle demo_funded)))"

lemma demo_queue_reached: "reaches custody_start (custody_step d w) demo_queue"
  unfolding demo_queue_def by (rule reaches_step[OF reaches_step[OF demo_funded_reached step_submit] step_submit])

lemma demo_queue_pending: "map bu_nonce (cl_pending (cu_ledger demo_queue)) = [bu_nonce demo_bundle, bu_nonce demo_bundle]"
  by code_simp

theorem include_all_answers_everything_witness:
  "\<exists>txs c'. include_all (\<lambda>_. 500) 0 [] demo_queue = Some (txs, c') \<and>
     map tx_nonce txs = [bu_nonce demo_bundle, bu_nonce demo_bundle]"
proof -
  from include_all_answers_everything[OF demo_queue_reached, of "\<lambda>_. 500" 0] obtain txs c' where
    r: "include_all (\<lambda>_. 500) 0 [] demo_queue = Some (txs, c')"
    "map tx_nonce txs = map bu_nonce (cl_pending (cu_ledger demo_queue))" by blast
  from r(2) have "map tx_nonce txs = [bu_nonce demo_bundle, bu_nonce demo_bundle]" unfolding demo_queue_pending .
  with r(1) show ?thesis by (intro exI conjI)
qed

text \<open>
  C34. Money asked for stays until it matures. When a withdrawal is granted it matures a full delay later;
  the account's availability drops at once and its balance not at all. Whatever happens in custody
  before that maturity (deposits, requests, matured withdrawals of anybody, payouts, settlements), the
  balance has lost nothing but what settlements debited, the request still stands, and it executes at
  maturity, in full or for what is left. With the venue's validated configuration, anything that can
  be owed from a quote or a settling request seen as much as the chain lag after the request is due
  before the maturity (a statement about the configuration and any instant \<open>due\<close>, not about a quote).
\<close>

theorem money_stays_until_maturity:
  assumes "reaches custody_start (custody_step direct rewr) c" and "l = cu_ledger c"
    and "request_withdrawal a v t l = (Inr matures, l1)" and "v \<noteq> 0" and "run_before matures a l1 n l2"
  shows "unat matures = unat t + unat (cl_withdrawal_delay l) \<and>
    unat (cl_available l1 a) + unat v = unat (cl_available l a) \<and> cl_balance l1 = cl_balance l \<and>
    unat (cl_balance l a) \<le> unat (cl_balance l2 a) + n \<and>
    (\<forall>now \<ge> matures. fst (execute_withdrawal a now l2) = Inr (min v (cl_balance l2 a))) \<and>
    (\<forall>cfg due. config_validate cfg = Inr () \<longrightarrow> cl_withdrawal_delay l = withdrawal_delay cfg \<longrightarrow>
       unat due \<le> unat t + chain_lag cfg + max (unat (max_quote_ttl cfg)) (escrow_window cfg) \<longrightarrow> due < matures)"
proof -
  have s: "ledger_sound l" using reachable_custody_sound[OF assms(1)] by (simp add: custody_sound_def assms(2))
  let ?f = "\<lambda>x. x\<lparr> bal_pending := v, bal_matures_at := matures \<rparr>"
  from assms(3) obtain e where e: "cl_account l a = Some e" "bal_pending e = 0" "v \<le> bal_available e"
    and mat: "ts_checked_add t (cl_withdrawal_delay l) = Some matures" and l1: "l1 = log_balance a (balance_update a ?f l)"
    by (auto simp: request_withdrawal_def split: option.splits if_splits)
  have m: "unat matures = unat t + unat (cl_withdrawal_delay l)" using mat by (simp add: ts_checked_add_def checked_add_Some_iff)
  have acc1: "cl_account l1 a = Some (?f e)" using e(1) by (simp add: l1 cl_account_update)
  have av: "unat (cl_available l1 a) + unat v = unat (cl_available l a)"
    using e acc1 by (simp add: cl_available_def bal_available_def unat_saturating_sub word_le_nat_alt)
  have "cl_balance l1 = cl_balance l"
    by (rule ext) (auto simp: l1 cl_balance_def cl_account_update split: option.split)
  moreover have s1: "ledger_sound l1" using sound_move_sound[OF request_withdrawal_sound s, of a v t] assms(3) by simp
  have "lock_of l1 a = Some (v, matures)" using acc1 assms(4) by (simp add: lock_of_def pending_withdrawal_def)
  from run_before_keeps[OF assms(5) s1 this] have k: "lock_of l2 a = Some (v, matures)" "held l1 a \<le> held l2 a + n" by simp_all
  have ex: "fst (execute_withdrawal a now l2) = Inr (min v (cl_balance l2 a))" if "matures \<le> now" for now
    using k(1) that by (auto simp: lock_of_def pending_withdrawal_def execute_withdrawal_def Let_def cl_balance_def not_less[symmetric]
        split: Option.bind_splits if_splits)
  have cfg: "due < matures" if "config_validate cfg = Inr ()" "cl_withdrawal_delay l = withdrawal_delay cfg"
    "unat due \<le> unat t + chain_lag cfg + max (unat (max_quote_ttl cfg)) (escrow_window cfg)" for cfg due
    using that m by (auto simp: validate_ok_iff startable_def word_less_nat_alt)
  ultimately show ?thesis using m av k(2) ex cfg by (simp add: held_def)
qed

lemma demo_request: "fst (request_withdrawal 1 1500000 100 (cu_ledger demo_funded)) = Inr 1100"
  by code_simp

theorem money_stays_until_maturity_witness:
  "\<exists>l1. request_withdrawal 1 1500000 100 (cu_ledger demo_funded) = (Inr 1100, l1) \<and>
     (\<forall>now \<ge> 1100. \<exists>paid. fst (execute_withdrawal 1 now (snd (deposit 1 7 l1))) = Inr paid)"
proof -
  obtain l1 where l1: "request_withdrawal 1 1500000 100 (cu_ledger demo_funded) = (Inr 1100, l1)"
    using demo_request by (cases "request_withdrawal 1 1500000 100 (cu_ledger demo_funded)") simp
  from money_stays_until_maturity[OF demo_funded_reached refl l1 _ before_deposit[OF before_start], of 1 7] l1
  show ?thesis by auto
qed

end
