(* ===== verification/Money_Moves.thy ===== *)
theory Money_Moves
  imports Engine_Runs
begin

text \<open>
  What the commands of the engine do to the money columns (free, reserved, committed) of the ledger. The
  locale \<open>money_relation\<close> states what a relation between two rows must admit to hold between the
  ledger before and after a command; its client lemmas go once through every operation of
  \<open>crates/core/src/ledger.rs\<close> and every handler of \<open>crates/core/src/engine.rs\<close>.
\<close>

section \<open>The money columns\<close>

type_synonym money_row = "amount \<times> amount \<times> amount"

definition row_of :: "mirrored_balance \<Rightarrow> money_row" where
  "row_of b = (mb_free b, mb_reserved b, mb_committed b)"

definition money_col :: "ledger \<Rightarrow> money_row list" where
  "money_col l = map row_of (l_accounts l)"

definition moves :: "(money_row \<Rightarrow> money_row \<Rightarrow> bool) \<Rightarrow> ledger \<Rightarrow> ledger \<Rightarrow> bool" where
  "moves R l l' \<longleftrightarrow> list_all2 R (money_col l) (money_col l')"

lemma money_col_account_update [simp]:
  "(\<And>b. row_of (f b) = row_of b) \<Longrightarrow> money_col (account_update a f l) = money_col l"
  by (simp add: money_col_def account_update_def upd_idx_def map_update get_idx_def list_update_same_conv nth_map)

lemma row_of_links [simp]: "row_of (expiry_head_update f b) = row_of b" "row_of (expiry_tail_update f b) = row_of b"
  by (simp_all add: row_of_def)

lemma money_col_frame [simp]:
  "money_col (reservation_at_update i g l) = money_col l"
  "money_col (set_owner_claim ow c l) = money_col l"
  "money_col (quote_update q qf l) = money_col l"
  "money_col (request_update r rf l) = money_col l"
  "money_col (remove_claim h l) = money_col l"
  "money_col (cp_close_quote q l) = money_col l"
  "money_col (l\<lparr> l_reservations := rs \<rparr>) = money_col l"
  "money_col (l\<lparr> l_quotes := qs \<rparr>) = money_col l"
  "money_col (l\<lparr> l_requests := rqs \<rparr>) = money_col l"
  "money_col (l\<lparr> l_contracts := cs \<rparr>) = money_col l"
  by (simp_all add: money_col_def quote_update_def request_update_def remove_claim_def cp_close_quote_def)

lemma money_col_links [simp]:
  "money_col (unlink_from_chain a i l) = money_col l"
  "money_col (splice_after a i p l) = money_col l" "money_col (splice_at_head a i l) = money_col l"
  "money_col (link_into_committed_list r i l) = money_col l"
  by (simp_all add: unlink_from_chain_def splice_after_def splice_at_head_def link_into_committed_list_def Let_def
      split: option.split prod.split)

lemma money_col_link_expiry: "link_into_expiry_chain a i x l = Some l' \<Longrightarrow> money_col l' = money_col l"
  by (auto simp: link_into_expiry_chain_def split: option.splits)

lemma money_col_insert_claim: "insert_claim a m ow x l = Inr (c, l') \<Longrightarrow> money_col l' = money_col l"
  by (auto simp: insert_claim_def split: sum.splits)

lemma money_col_leg_update [simp]: "money_col (leg_update r lid f l) = money_col l"
  by (simp add: leg_update_def)

lemma money_col_link_quote [simp]: "money_col (link_quote r lid q l) = money_col l"
  by (simp add: link_quote_def Let_def)

lemma money_col_unlink_walk: "unlink_walk r lid q cur l = Some l' \<Longrightarrow> money_col l' = money_col l"
proof (induction rule: unlink_walk.raw_induct[rotated, consumes 1])
  case (1 walk r lid q cur l l')
  then show ?case by (auto split: option.splits if_splits)
qed

lemma money_col_unlink_quote: "unlink_quote r lid q l = Some l' \<Longrightarrow> money_col l' = money_col l"
  by (auto simp: unlink_quote_def split: option.splits if_splits dest: money_col_unlink_walk)

lemma money_col_publish: "publish_selection r lid now lb = Some lb' \<Longrightarrow> money_col (fst lb') = money_col (fst lb)"
  by (auto simp: publish_selection_def Let_def split: option.splits sum.splits if_splits)

lemma money_col_register: "money_col (snd (register_contract l k d)) = money_col l"
  by (simp add: register_contract_def split: option.split)

lemma money_col_close_quotes [simp]: "money_col (fold cp_close_quote qs l) = money_col l"
  by (induction qs arbitrary: l) simp_all

lemma money_col_account: "money_col l' = money_col l \<Longrightarrow> map_option row_of (account l' a) = map_option row_of (account l a)"
  by (metis (no_types, lifting) account_def get_idx_def length_map money_col_def nth_map option.map)

lemma moves_frame [simp]:
  "moves R k (reservation_at_update i g l) = moves R k l" "moves R k (set_owner_claim ow c l) = moves R k l"
  "moves R k (quote_update q qf l) = moves R k l" "moves R k (request_update r rf l) = moves R k l"
  "moves R k (remove_claim h l) = moves R k l" "moves R k (cp_close_quote q l) = moves R k l"
  "moves R k (unlink_from_chain a i l) = moves R k l" "moves R k (link_into_committed_list r i l) = moves R k l"
  "moves R k (leg_update r lid lf l) = moves R k l" "moves R k (link_quote r lid q l) = moves R k l"
  "moves R k (fold cp_close_quote qs l) = moves R k l" "moves R k (l\<lparr> l_contracts := cs \<rparr>) = moves R k l"
  "moves R k (l\<lparr> l_quotes := quotes \<rparr>) = moves R k l" "moves R k (l\<lparr> l_requests := rqs \<rparr>) = moves R k l"
  by (simp_all add: moves_def)

lemma moves_unchanged:
  "moves R k l \<Longrightarrow> insert_claim a m ow x l = Inr (c, l') \<Longrightarrow> moves R k l'"
  "moves R k l \<Longrightarrow> unlink_quote r lid q l = Some l' \<Longrightarrow> moves R k l'"
  "moves R k (fst lb) \<Longrightarrow> publish_selection r lid now lb = Some lb' \<Longrightarrow> moves R k (fst lb')"
  "moves R k l \<Longrightarrow> moves R k (snd (register_contract l c' d))"
  by (simp_all add: moves_def money_col_insert_claim money_col_unlink_quote money_col_publish money_col_register)

section \<open>Relations between rows\<close>

locale money_relation =
  fixes R :: "money_row \<Rightarrow> money_row \<Rightarrow> bool"
  assumes same: "R x x"
    and trans: "R x y \<Longrightarrow> R y z \<Longrightarrow> R x z"
    and lower_reserved: "R (f, r, c) (f, saturating_sub r v, c)"
    and lower_committed: "R (f, r, c) (f, r, saturating_sub c v)"
    and admitted: "unat r \<le> unat r' \<Longrightarrow> unat r' + unat c \<le> unat f \<Longrightarrow> R (f, r, c) (f, r', c)"
begin

lemma moves_same [simp]: "moves R l l"
  by (simp add: moves_def same list_all2_refl)

lemma moves_trans: "moves R l l1 \<Longrightarrow> moves R l1 l2 \<Longrightarrow> moves R l l2"
  unfolding moves_def by (rule list_all2_trans[of R R R]) (auto intro: trans)

lemma moves_update:
  assumes "moves R k l" and "\<And>b. account l a = Some b \<Longrightarrow> R (row_of b) (row_of (f b))"
  shows "moves R k (account_update a f l)"
proof (rule moves_trans[OF assms(1)], cases "account l a")
  case None
  then have "account_update a f l = l" by (simp add: account_update_def account_def)
  then show "moves R l (account_update a f l)" by simp
next
  case (Some b)
  then have i: "unat a < length (l_accounts l)" "l_accounts l ! unat a = b" by (auto simp: account_def get_idx_Some_iff)
  have "l_accounts (account_update a f l) = (l_accounts l)[unat a := f b]"
    using Some by (simp add: account_update_def upd_idx_def account_def)
  then show "moves R l (account_update a f l)" using assms(2)[OF Some] i
    by (auto simp: moves_def money_col_def list_all2_conv_all_nth nth_list_update same)
qed

lemma moves_lower:
  "moves R k l \<Longrightarrow> moves R k (account_update a (\<lambda>b. set_reserved (saturating_sub (mb_reserved b) v) b) l)"
  "moves R k l \<Longrightarrow> moves R k (account_update a (\<lambda>b. set_committed (saturating_sub (mb_committed b) v) b) l)"
  by (rule moves_update, assumption, simp add: row_of_def set_reserved_def set_committed_def lower_reserved lower_committed)+

text \<open>The operations of the ledger.\<close>

lemma moves_cp_release: "moves R k l \<Longrightarrow> moves R k (cp_release c l)"
  by (auto simp: cp_release_def Let_def split: option.split intro!: moves_lower)

lemma moves_reclaim: "moves R k l \<Longrightarrow> moves R k (reclaim a i h r l)"
  by (auto simp: reclaim_def intro!: moves_lower)

lemma moves_reclaim_loop: "moves R k l \<Longrightarrow> moves R k (snd (reclaim_loop a now cur n l))"
proof (induction a now cur n l rule: reclaim_loop.induct)
  case (1 a now cur n l)
  then show ?case by (subst reclaim_loop.simps) (auto split: option.split intro!: moves_reclaim)
qed

lemma moves_release_expired: "moves R k l \<Longrightarrow> moves R k (snd (release_expired l a now))"
  using moves_reclaim_loop[of k l a now]
  by (auto simp: release_expired_def Let_def split: option.split prod.split) (metis snd_conv)

lemma moves_discharge_loop: "moves R k (fst ls) \<Longrightarrow> moves R k (fst (discharge_loop visit cur n ls))"
proof (induction visit cur n ls rule: discharge_loop.induct)
  case (1 visit cur n l st)
  have one: "moves R k (discharge_claim h r l)" for h r
    using 1(2) by (auto simp: discharge_claim_def intro!: moves_lower)
  show ?case by (subst discharge_loop.simps) (use 1 one in \<open>auto simp: Let_def split: option.split\<close>)
qed

lemma moves_discharge: "discharge_committed r visit (l, st) = x \<Longrightarrow> moves R k l \<Longrightarrow> moves R k (fst x)"
  using moves_discharge_loop[of k "(l, st)" visit]
  by (auto simp: discharge_committed_def Let_def split: prod.splits) (metis fst_conv)+

lemma moves_discharged: "moves R k l \<Longrightarrow> moves R k (fst (discharge_committed r visit (l, st)))"
  by (rule moves_discharge[OF refl])

lemma moves_link_claim:
  assumes k: "moves R k l1" and chk: "check_reservable l a m = Inr reserved" and l1: "money_col l1 = money_col l"
    and link: "link_claim a c x ow reserved l1 = Some l2"
  shows "moves R k l2"
proof -
  from link obtain l' where l': "link_into_expiry_chain a (h_index c) x l1 = Some l'"
    and l2: "l2 = set_owner_claim ow (Some c) (account_update a (set_reserved reserved) l')"
    by (auto simp: link_claim_def split: option.splits)
  have col: "money_col l' = money_col l" using money_col_link_expiry[OF l'] l1 by simp
  have "moves R k (account_update a (set_reserved reserved) l')"
  proof (rule moves_update)
    show "moves R k l'" using k col l1 by (simp add: moves_def)
    fix b assume b: "account l' a = Some b"
    from chk obtain b0 where b0: "account l a = Some b0" "unat reserved = unat (mb_reserved b0) + unat m"
      "unat (mb_reserved b0) + unat (mb_committed b0) + unat m \<le> unat (mb_free b0)" by (auto simp: check_reservable_spec)
    have "row_of b = row_of b0" using money_col_account[OF col, of a] b b0(1) by simp
    then show "R (row_of b) (row_of (set_reserved reserved b))"
      using b0(2,3) by (auto simp: row_of_def set_reserved_def intro!: admitted)
  qed
  then show ?thesis unfolding l2 by simp
qed

lemma moves_reserving:
  assumes "moves R k l" and "check_reservable l a m = Inr reserved" and "insert_claim a' m' ow x l1 = Inr (c, l2)"
    and "link_claim a c x' ow' reserved l2 = Some l3" and "money_col l1 = money_col l"
  shows "moves R k l3"
  by (rule moves_link_claim[OF _ assms(2) _ assms(4)]) (use assms money_col_insert_claim[OF assms(3)] in \<open>simp_all add: moves_def\<close>)

lemma moves_open_quote: "open_quote_reserving l q m = Some (res, l') \<Longrightarrow> moves R k l \<Longrightarrow> moves R k l'"
  by (auto simp: open_quote_reserving_def Let_def split: sum.splits if_splits option.splits
      intro: moves_unchanged(1)) (erule (3) moves_reserving, simp)

lemma moves_open_request: "open_request_reserving l q m = Some (res, l') \<Longrightarrow> moves R k l \<Longrightarrow> moves R k l'"
  by (auto simp: open_request_reserving_def Let_def split: sum.splits if_splits option.splits
      intro: moves_unchanged(1)) (erule (3) moves_reserving, simp)

text \<open>The handlers of the engine, a commit aside.\<close>

lemma moves_release_one: "release_one r lid now why h lb = Some lb' \<Longrightarrow> moves R k (fst lb) \<Longrightarrow> moves R k (fst lb')"
  by (auto simp: release_one_def Let_def split: option.splits intro: moves_cp_release dest!: moves_unchanged(2)[rotated])

lemma moves_fold_opt:
  assumes "\<And>x s s'. f x s = Some s' \<Longrightarrow> moves R k (fst s) \<Longrightarrow> moves R k (fst s')"
  shows "fold_opt f xs s = Some s' \<Longrightarrow> moves R k (fst s) \<Longrightarrow> moves R k (fst s')"
proof (induction xs arbitrary: s)
  case (Cons x xs)
  then obtain t where "f x s = Some t" "fold_opt f xs t = Some s'" by (auto simp: bind_eq_Some_conv)
  with Cons assms show ?case by blast
qed simp

lemma moves_release_leg: "release_leg r lid keep now why lb = Some lb' \<Longrightarrow> moves R k (fst lb) \<Longrightarrow> moves R k (fst lb')"
  unfolding release_leg_def
  by (auto split: option.splits intro: moves_fold_opt[OF moves_release_one])

lemma moves_release_legs:
  "fold_opt (\<lambda>lid. release_leg r lid keep now why) ids lb = Some lb' \<Longrightarrow> moves R k (fst lb) \<Longrightarrow> moves R k (fst lb')"
  by (rule moves_fold_opt[where f = "\<lambda>lid. release_leg r lid keep now why"]) (auto dest: moves_release_leg)

lemma moves_submit_request:
  "submit_request a dl legs n now w = Some (res, w') \<Longrightarrow> moves R (e_ledger (fst w)) (e_ledger (fst w'))"
  by (auto simp: submit_request_def Let_def split: if_splits sum.splits option.splits prod.splits intro: moves_open_request)

lemma moves_reject_request:
  "reject_request r now w = Some (res, w') \<Longrightarrow> moves R (e_ledger (fst w)) (e_ledger (fst w'))"
  by (auto simp: reject_request_def Let_def split: if_splits sum.splits option.splits prod.splits
      dest!: moves_release_legs intro: moves_cp_release)

lemma moves_replace: "replace_standing m r lid st lb = Some lb' \<Longrightarrow> moves R k (fst lb) \<Longrightarrow> moves R k (fst lb')"
  by (auto simp: replace_standing_def Let_def split: option.splits intro: moves_cp_release dest!: moves_unchanged(2)[rotated])

lemma moves_submit_quote:
  assumes "submit_quote m r lid p sz x now w = Some (res, w')"
  shows "moves R (e_ledger (fst w)) (e_ledger (fst w'))"
  using assms
  by (auto simp: submit_quote_def Let_def split: sum.splits option.splits prod.splits
      dest!: moves_replace moves_open_quote dest: moves_unchanged(3)[rotated])

lemma moves_poll: "moves R (e_ledger (fst w)) (e_ledger (fst (snd (poll_settlement n st now w))))"
proof -
  obtain e b where w: "w = (e, b)" by (cases w)
  show ?thesis
    by (auto simp: w poll_settlement_def close_consumed_quotes_def Let_def moves_discharged dest!: moves_discharge
        split: option.split request_state.split tx_status.split prod.split)
qed

lemma moves_resolution:
  "moves R (e_ledger (fst w)) (e_ledger (fst (snd (report_oracle_status k st w))))"
  "moves R (e_ledger (fst w)) (e_ledger (fst (snd (settle_escrow es k now w))))"
proof -
  obtain e b where w: "w = (e, b)" by (cases w)
  show "moves R (e_ledger (fst w)) (e_ledger (fst (snd (report_oracle_status k st w))))"
    by (simp add: w report_oracle_status_def upd_ledger_def set_oracle_status_def Let_def split: option.split oracle_status.split)
  show "moves R (e_ledger (fst w)) (e_ledger (fst (snd (settle_escrow es k now w))))"
    by (simp add: w settle_escrow_def Let_def split: option.split sum.split)
qed

lemma moves_register: "moves R (e_ledger (fst w)) (e_ledger (fst (snd (lift_ledger_op (\<lambda>l. register_contract l k d) w))))"
  using moves_unchanged(4)[where R = R and k = "e_ledger (fst w)" and l = "e_ledger (fst w)"]
  by (simp add: lift_ledger_op_def split: prod.split) (metis moves_same snd_conv)

lemma moves_normalised: "moves R (e_ledger e) (e_ledger (normalised c now e))"
proof -
  have "moves R k (e_ledger (fold (normalise now) as e))" if "moves R k (e_ledger e)" for as k e
    using that
  proof (induction as arbitrary: e)
    case (Cons a as)
    then show ?case by (simp add: Cons.IH normalise_def upd_ledger_def moves_release_expired)
  qed simp
  then show ?thesis by (simp add: normalised_def)
qed

lemma moves_dispatch:
  assumes "dispatch c now w = Some (res, w')" and "\<And>a v. c \<noteq> CreditAccount a v"
    and "\<And>r x n. c = AcceptRequest r x n \<Longrightarrow> moves R (e_ledger (fst w)) (e_ledger (fst w'))"
  shows "moves R (e_ledger (fst w)) (e_ledger (fst w'))"
proof (cases c)
  case (CreditAccount a v)
  with assms(2) show ?thesis by blast
next
  case (RegisterContract k d)
  with assms(1) moves_register[of w k d] show ?thesis by (simp add: dispatch_def)
next
  case (PollSettlement n st)
  with assms(1) moves_poll[of w n st now] show ?thesis by (simp add: dispatch_def)
next
  case (ReportOracleStatus k st)
  with assms(1) moves_resolution(1)[of w k st] show ?thesis by (simp add: dispatch_def)
next
  case (SettleEscrow es k)
  with assms(1) moves_resolution(2)[of w es k now] show ?thesis by (simp add: dispatch_def)
qed (use assms in \<open>auto simp: dispatch_def dest: moves_submit_request moves_reject_request moves_submit_quote\<close>)

lemma moves_apply:
  assumes "engine_apply c now (e, b) = Some (res, (e', b'))" and "\<And>a v. c \<noteq> CreditAccount a v"
    and "\<And>r x n. c = AcceptRequest r x n \<Longrightarrow> moves R (e_ledger (normalised c now e)) (e_ledger e')"
  shows "moves R (e_ledger e) (e_ledger e')"
proof -
  have "moves R (e_ledger (normalised c now e)) (e_ledger e')"
    using moves_dispatch[of c now "(normalised c now e, b)" res "(e', b')"] assms by (simp add: engine_apply_def)
  with moves_normalised show ?thesis by (rule moves_trans)
qed

end

text \<open>A relation that a commit respects on any ledger holds across every command but the mirror update.\<close>

locale committing_relation = money_relation +
  assumes commit: "R (f, r, c) (f, saturating_sub r v, saturating_add c k)"
begin

lemma moves_cp_commit: "moves R k l \<Longrightarrow> moves R k (cp_commit cl r m l)"
  by (auto simp: cp_commit_def Let_def split: option.split
      intro!: moves_update simp: row_of_def set_reserved_def set_committed_def commit)

lemma moves_accept_leg: "accept_leg r plan now i lb = Some lb' \<Longrightarrow> moves R k (fst lb) \<Longrightarrow> moves R k (fst lb')"
  by (auto simp: accept_leg_def commit_winner_def Let_def split: option.splits prod.splits
      dest!: moves_release_leg intro!: moves_cp_commit)

lemma moves_accept_request:
  "accept_request r exp n now w = Some (res, w') \<Longrightarrow> moves R (e_ledger (fst w)) (e_ledger (fst w'))"
  by (auto simp: accept_request_def Let_def split: sum.splits option.splits prod.splits
      dest!: moves_fold_opt[where f = "accept_leg r _ now", rotated] dest: moves_accept_leg intro: moves_cp_commit)

lemma moves_any_apply:
  assumes run: "engine_apply c now (e, b) = Some (res, (e', b'))" and "\<And>a v. c \<noteq> CreditAccount a v"
  shows "moves R (e_ledger e) (e_ledger e')"
proof (rule moves_apply[OF assms])
  fix r x n assume "c = AcceptRequest r x n"
  with run have "accept_request r x n now (normalised c now e, b) = Some (res, (e', b'))"
    by (simp add: engine_apply_def dispatch_def)
  from moves_accept_request[OF this] show "moves R (e_ledger (normalised c now e)) (e_ledger e')" by simp
qed

end

section \<open>The free column\<close>

definition free_col :: "ledger \<Rightarrow> amount list" where
  "free_col l = map mb_free (l_accounts l)"

text \<open>Keeping the free column is a relation between rows that every command but the mirror update respects.\<close>

interpretation free_rows: committing_relation "\<lambda>x y. fst y = fst x"
  by unfold_locales simp_all

lemma moves_free: "moves (\<lambda>x y. fst y = fst x) l l' \<longleftrightarrow> free_col l' = free_col l"
proof -
  have "list_all2 (\<lambda>x y. fst y = fst x) xs ys \<longleftrightarrow> map fst ys = map fst xs" for xs ys :: "money_row list"
    by (induction xs arbitrary: ys) (auto simp: list_all2_Cons1 Cons_eq_map_conv)
  then show ?thesis by (simp add: moves_def money_col_def free_col_def comp_def row_of_def)
qed

end
