(* ===== verification/Mirror.thy ===== *)
theory Mirror
  imports Money_Moves Custody_Settle
begin

text \<open>
  The mirror of custody inside the engine. The free column of the engine's ledger is written by the
  mirror update alone; custody's log carries every change of an availability; the indexer delivers it.
  Put together, the engine's free balances follow custody, whatever else the engine does meanwhile.
\<close>

section \<open>What a command does to the free column\<close>

definition credit_col :: "command \<Rightarrow> amount list \<Rightarrow> amount list" where
  "credit_col c col = (case c of CreditAccount a v \<Rightarrow> col[unat a := v] | _ \<Rightarrow> col)"

lemma free_col_credit: "free_col (snd (apply_mirror_update l a v)) = (free_col l)[unat a := v]"
proof (cases "account l a")
  case None
  then have "length (free_col l) \<le> unat a" by (simp add: account_def get_idx_None_iff free_col_def)
  with None show ?thesis by (simp add: apply_mirror_update_def list_update_beyond)
next
  case (Some b)
  then have "upd_idx (l_accounts l) a (set_free v) = (l_accounts l)[unat a := set_free v b]"
    by (simp add: account_def upd_idx_def)
  then show ?thesis using Some
    by (simp add: apply_mirror_update_def free_col_def account_update_def map_update set_free_def)
qed

lemma apply_free:
  assumes "engine_apply c now w = Some (res, w')"
  shows "free_col (e_ledger (fst w')) = credit_col c (free_col (e_ledger (fst w)))"
proof -
  obtain e b e' b' where w: "w = (e, b)" "w' = (e', b')" by (metis prod.collapse)
  show ?thesis
  proof (cases "\<exists>a v. c = CreditAccount a v")
    case True
    then obtain a v where c: "c = CreditAccount a v" by blast
    have "free_col (e_ledger (normalised c now e)) = free_col (e_ledger e)"
      using free_rows.moves_normalised[of e c now] by (simp add: moves_free)
    moreover have "e_ledger e' = snd (apply_mirror_update (e_ledger (normalised c now e)) a v)"
      using assms by (auto simp: w c engine_apply_def dispatch_def lift_ledger_op_def split: prod.splits)
    ultimately show ?thesis by (simp add: w c free_col_credit credit_col_def)
  next
    case False
    then have "free_col (e_ledger e') = free_col (e_ledger e)"
      using free_rows.moves_any_apply[of c now e b res e' b'] assms by (simp add: w moves_free)
    moreover have "credit_col c x = x" for x using False by (auto simp: credit_col_def split: command.split)
    ultimately show ?thesis by (simp add: w)
  qed
qed

lemma engine_start_free: "engine_start s \<Longrightarrow> \<exists>n. free_col (e_ledger (snd s)) = replicate n 0"
proof -
  assume "engine_start s"
  then obtain cfg l where l: "ledger_new cfg = Some l" "e_ledger (snd s) = l"
    by (auto simp: engine_start_def engine_new_cases)
  have "l_accounts l = replicate (unat (max_accounts cfg)) mirrored_balance_default"
    using l(1) by (auto simp: ledger_new_def bind_eq_Some_conv)
  then have "l_accounts (e_ledger (snd s)) = replicate (unat (max_accounts cfg)) mirrored_balance_default" by (simp add: l(2))
  then show ?thesis by (auto simp: free_col_def mirrored_balance_default_def map_replicate_const)
qed

section \<open>What the log says of an account\<close>

definition mirror_of :: "chain_event list \<Rightarrow> account_idx \<Rightarrow> amount" where
  "mirror_of es = fold (\<lambda>e m. case ev_payload e of BalanceChanged a v \<Rightarrow> m(a := v) | _ \<Rightarrow> m) es (\<lambda>_. 0)"

lemma mirror_of_snoc [simp]:
  "mirror_of [] = (\<lambda>_. 0)"
  "mirror_of (es @ [e]) = (case ev_payload e of BalanceChanged a v \<Rightarrow> (mirror_of es)(a := v) | _ \<Rightarrow> mirror_of es)"
  unfolding mirror_of_def by simp_all

lemma credit_mirror:
  "length (fold credit_col (map (translate \<circ> ev_payload) es) (replicate n 0)) = n \<and>
   (\<forall>a. unat a < n \<longrightarrow> fold credit_col (map (translate \<circ> ev_payload) es) (replicate n 0) ! unat a = mirror_of es a)"
proof (induction es rule: rev_induct)
  case (snoc e es)
  then show ?case
    by (cases "ev_payload e") (auto simp: credit_col_def nth_list_update word_unat_eq_iff)
qed simp

text \<open>The log is faithful: the last availability it carries for an account is the present one.\<close>

definition faithful :: "custody_ledger \<Rightarrow> bool" where
  "faithful l \<longleftrightarrow> mirror_of (lg_entries (cl_log l)) = cl_available l"

definition log_grows :: "chain_log \<Rightarrow> chain_log \<Rightarrow> bool" where
  "log_grows g g' \<longleftrightarrow> (\<lambda>g g'. (\<exists>p. g' = log_append p g) \<or> g' = advance_block g)\<^sup>*\<^sup>* g g'"

lemma log_grows_refl [simp]: "log_grows g g"
  by (simp add: log_grows_def)

lemma log_grows_trans: "log_grows g h \<Longrightarrow> log_grows h k \<Longrightarrow> log_grows g k"
  unfolding log_grows_def by (rule rtranclp_trans)

lemma log_grows_append: "log_grows g (log_append p g)"
  unfolding log_grows_def by (rule r_into_rtranclp) blast

lemma log_grows_mine: "log_grows g (advance_block g)"
  unfolding log_grows_def by (rule r_into_rtranclp) blast

lemma append_entries: "lg_entries (log_append p g) = lg_entries g @ [\<lparr> ev_block = lg_head g, ev_tx_hash = tx_hash_of (lg_next_tx g),
    ev_log_index = 0, ev_payload = p \<rparr>]"
  by (simp add: log_append_def)

text \<open>Writing balances and then reporting every account that changed keeps the log faithful.\<close>

lemma reported_mirror:
  "mirror_of (lg_entries (cl_log (fold log_balance as m))) =
     (\<lambda>a. if a \<in> set as then cl_available m a else mirror_of (lg_entries (cl_log m)) a) \<and>
   log_grows (cl_log m) (cl_log (fold log_balance as m)) \<and> cl_available (fold log_balance as m) = cl_available m"
proof (induction as rule: rev_induct)
  case (snoc x as)
  let ?m = "fold log_balance as m"
  have "cl_log (log_balance x ?m) = log_append (BalanceChanged x (cl_available ?m x)) (cl_log ?m)"
    by (simp add: log_balance_def)
  then show ?case using snoc log_grows_trans[OF _ log_grows_append]
    by (auto simp: append_entries fun_eq_iff)
qed simp

lemma faithful_reported:
  assumes "faithful l" and "cl_log m = cl_log l" and "\<And>a. a \<notin> set as \<Longrightarrow> cl_available m a = cl_available l a"
  shows "faithful (fold log_balance as m) \<and> log_grows (cl_log l) (cl_log (fold log_balance as m))"
  using reported_mirror[of as m] assms by (auto simp: faithful_def fun_eq_iff)

lemma faithful_reported1:
  assumes "faithful l" and "cl_log m = cl_log l" and "\<And>x. x \<noteq> a \<Longrightarrow> cl_available m x = cl_available l x"
  shows "faithful (log_balance a m) \<and> log_grows (cl_log l) (cl_log (log_balance a m))"
  using faithful_reported[of l m "[a]"] assms by simp

lemma available_update: "x \<noteq> a \<Longrightarrow> cl_available (balance_update a f l) x = cl_available l x"
  by (simp add: cl_available_def cl_account_update)

lemma available_frame:
  "cl_balances l' = cl_balances l \<Longrightarrow> cl_available l' = cl_available l"
  using reads_balances by blast

lemma faithful_frame: "cl_balances l' = cl_balances l \<Longrightarrow> cl_log l' = cl_log l \<Longrightarrow> faithful l' = faithful l"
  using available_frame[of l' l] by (simp add: faithful_def)

definition keeps_faith :: "custody_ledger \<Rightarrow> custody_ledger \<Rightarrow> bool" where
  "keeps_faith l l' \<longleftrightarrow> (faithful l \<longrightarrow> faithful l' \<and> log_grows (cl_log l) (cl_log l'))"

lemma keeps_faith_refl [simp]: "keeps_faith l l"
  by (simp add: keeps_faith_def)

lemma keeps_faith_trans: "keeps_faith l m \<Longrightarrow> keeps_faith m n \<Longrightarrow> keeps_faith l n"
  by (auto simp: keeps_faith_def intro: log_grows_trans)

lemma keeps_faith1:
  "cl_log m = cl_log l \<Longrightarrow> (\<And>x. x \<noteq> a \<Longrightarrow> cl_available m x = cl_available l x) \<Longrightarrow> keeps_faith l (log_balance a m)"
  unfolding keeps_faith_def using faithful_reported1 by blast

lemma deposit_faith: "keeps_faith l (snd (deposit a v l))"
proof -
  have "keeps_faith l (log_balance a ((balance_update a (bal_balance_update (\<lambda>_. s)) l)\<lparr> cl_deposited := d \<rparr>))" for s d
  proof (rule keeps_faith1)
    fix x assume "x \<noteq> a"
    then show "cl_available ((balance_update a (bal_balance_update (\<lambda>_. s)) l)\<lparr> cl_deposited := d \<rparr>) x = cl_available l x"
      using available_frame[of "(balance_update a (bal_balance_update (\<lambda>_. s)) l)\<lparr> cl_deposited := d \<rparr>"
        "balance_update a (bal_balance_update (\<lambda>_. s)) l"] by (simp add: available_update)
  qed simp
  then show ?thesis unfolding deposit_def by (auto split: option.split)
qed

lemma request_faith: "keeps_faith l (snd (request_withdrawal a v now l))"
proof -
  have "keeps_faith l (log_balance a (balance_update a f l))" for f
    by (rule keeps_faith1) (simp_all add: available_update)
  then show ?thesis by (simp add: request_withdrawal_def split: option.split)
qed

lemma execute_faith: "keeps_faith l (snd (execute_withdrawal a now l))"
proof -
  have "keeps_faith l (log_balance a ((balance_update a f l)\<lparr> cl_withdrawn := w \<rparr>))" for f w
  proof (rule keeps_faith1)
    fix x assume "x \<noteq> a"
    then show "cl_available ((balance_update a f l)\<lparr> cl_withdrawn := w \<rparr>) x = cl_available l x"
      using available_frame[of "(balance_update a f l)\<lparr> cl_withdrawn := w \<rparr>" "balance_update a f l"] by (simp add: available_update)
  qed simp
  then show ?thesis by (simp add: execute_withdrawal_def Let_def split: option.split)
qed

lemma matured_faith: "keeps_faith l (snd (execute_matured_withdrawals now l))"
proof -
  have "keeps_faith (snd acc) (snd (fold (execute_one now) ks acc))" for acc ks
  proof (induction ks arbitrary: acc)
    case (Cons k ks)
    have "keeps_faith (snd acc) (snd (execute_one now k acc))" unfolding execute_one_snd by (rule execute_faith)
    from keeps_faith_trans[OF this Cons.IH] show ?case by simp
  qed simp
  from this[of "(0, l)"] show ?thesis by (simp add: execute_matured_withdrawals_def)
qed

lemma available_credits: "a \<notin> fst ` set es \<Longrightarrow> cl_available (fold credit_account es l) a = cl_available l a"
  by (induction es arbitrary: l) (auto simp: credit_account_def available_update)

lemma available_debits: "a \<notin> fst ` set es \<Longrightarrow> cl_available (fold debit_account es l) a = cl_available l a"
  by (induction es arbitrary: l) (auto simp: debit_account_def available_update)

lemma credits_log [simp]: "cl_log (fold credit_account es l) = cl_log l"
  by (induction es arbitrary: l) simp_all

lemma fold_log_fst: "fold (log_balance \<circ> fst) es l = fold log_balance (map fst es) l"
  by (simp add: fold_map)

lemma settle_escrow_faith: "keeps_faith l (snd (custody_settle_escrow i k out l))"
proof -
  have "keeps_faith l ((fold (log_balance \<circ> fst) es (fold credit_account es l))\<lparr> cl_escrows := xs \<rparr>)" for es xs
  proof -
    let ?m = "fold (log_balance \<circ> fst) es (fold credit_account es l)"
    have "keeps_faith l ?m" unfolding keeps_faith_def fold_log_fst
      using faithful_reported[of l "fold credit_account es l" "map fst es"] available_credits by auto
    then show ?thesis using faithful_frame[of "?m\<lparr> cl_escrows := xs \<rparr>" ?m] by (simp add: keeps_faith_def)
  qed
  then show ?thesis by (simp add: custody_settle_escrow_def Let_def split: option.split)
qed

lemma form_escrow_frame:
  "cl_balances (snd (fold (form_escrow r) es acc)) = cl_balances (snd acc) \<and> cl_log (snd (fold (form_escrow r) es acc)) = cl_log (snd acc)"
  by (induction es arbitrary: acc) (simp_all add: form_escrow_def Let_def)

lemma commit_faith: "keeps_faith l (snd (commit_settlement b d l))"
proof -
  let ?es = "debits_entries d"
  let ?m = "fold (log_balance \<circ> fst) ?es (fold debit_account ?es l)"
  have "keeps_faith l ?m" unfolding keeps_faith_def fold_log_fst
    using faithful_reported[of l "fold debit_account ?es l" "map fst ?es"] available_debits by auto
  moreover have "cl_balances (snd (commit_settlement b d l)) = cl_balances ?m \<and> cl_log (snd (commit_settlement b d l)) = cl_log ?m"
  proof -
    let ?F = "fold (form_escrow (bu_requester b)) (enumerate 0 (bundle_legs b)) (replicate MAX_LEGS 0, ?m)"
    have "snd (commit_settlement b d l) = (snd ?F)\<lparr> cl_resolved := (cl_resolved (snd ?F))(bu_nonce b \<mapsto> TxSettled) \<rparr>"
      by (simp add: commit_settlement_def Let_def split: prod.split)
    then show ?thesis using form_escrow_frame[of "bu_requester b" "enumerate 0 (bundle_legs b)" "(replicate MAX_LEGS 0, ?m)"]
      by simp
  qed
  ultimately show ?thesis using faithful_frame[of "snd (commit_settlement b d l)" ?m] by (simp add: keeps_faith_def)
qed

lemma ledger_call_faith: "ledger_call False l l' \<Longrightarrow> keeps_faith l l'"
proof (induction rule: ledger_call.induct)
  case (call_mine l)
  have "mirror_of (lg_entries (advance_block g)) = mirror_of (lg_entries g)" for g by (simp add: advance_block_def)
  then show ?case using available_frame[of "l\<lparr> cl_log := advance_block (cl_log l) \<rparr>" l] log_grows_mine
    by (simp add: keeps_faith_def faithful_def)
next
  case (call_report p l)
  then show ?case using available_frame[of "l\<lparr> cl_log := log_append p (cl_log l) \<rparr>" l] log_grows_append
    by (auto simp: keeps_faith_def faithful_def append_entries split: chain_payload.split)
qed (simp_all add: deposit_faith request_faith execute_faith matured_faith settle_escrow_faith)

lemma ledger_calls_faith: "(ledger_call False)\<^sup>*\<^sup>* l l' \<Longrightarrow> keeps_faith l l'"
  by (induction rule: rtranclp_induct) (auto intro: keeps_faith_trans ledger_call_faith)

lemma settle_faith:
  assumes "custody_sound False c"
  shows "keeps_faith (cu_ledger c) (cu_ledger (snd (settle now b c)))"
proof -
  have "(ledger_call False)\<^sup>*\<^sup>* (cu_ledger c) (cu_ledger (fire_hook now c))"
    using assms fire_hook_calls unfolding custody_sound_def by blast
  note k = ledger_calls_faith[OF this]
  show ?thesis
    by (cases rule: settle_cases[of now b c]) (use k commit_faith keeps_faith_trans[OF k] in auto)
qed

lemma answer_faith:
  "faithful (l\<lparr> cl_resolved := r, cl_log := log_append (SettlementResolved n st) (cl_log l) \<rparr>) = faithful l"
  using available_frame[of "l\<lparr> cl_resolved := r, cl_log := log_append (SettlementResolved n st) (cl_log l) \<rparr>" l]
  by (simp add: faithful_def append_entries)

lemma queue_faith [simp]: "keeps_faith l (l\<lparr> cl_pending := q \<rparr>)" "faithful (l\<lparr> cl_pending := q \<rparr>) = faithful l"
  using faithful_frame[of "l\<lparr> cl_pending := q \<rparr>" l] by (simp_all add: keeps_faith_def)

lemma custody_step_faith:
  assumes ok: "custody_sound False c" and st: "custody_step d False c c'"
  shows "keeps_faith (cu_ledger c) (cu_ledger c')"
  using st
proof (cases rule: custody_step.cases)
  case (step_ledger l)
  then show ?thesis by (simp add: ledger_call_faith)
next
  case (step_include now)
  show ?thesis
  proof (cases rule: include_next_cases[of c now])
    case (fresh b rest out c2 st r)
    have "custody_sound False (c\<lparr> cu_ledger := (cu_ledger c)\<lparr> cl_pending := rest \<rparr> \<rparr>)" using ok by (simp add: custody_sound_def)
    from settle_faith[OF this, of now b] fresh(3)
    have "keeps_faith ((cu_ledger c)\<lparr> cl_pending := rest \<rparr>) (cu_ledger c2)" by simp
    then show ?thesis unfolding step_include fresh(6) keeps_faith_def
      by (auto simp: answer_faith intro: log_grows_trans log_grows_append)
  qed (simp_all add: step_include)
next
  case (step_settle now b)
  then show ?thesis by (simp add: settle_faith[OF ok])
qed (simp_all add: on_settle_entry_def submit_def drop_next_submission_def split: list.split)

section \<open>The market\<close>

text \<open>
  Custody and its log, the indexer, the commands the indexer has delivered, how many of them the engine
  has applied, and the engine with the instant of its last command. The engine applies the delivered
  commands in order; between them it applies anything a client may send, which is never a mirror
  update; everything else happens whenever it likes. Nobody rewrites the log.
\<close>

record 'h market =
  mk_custody :: "'h custody"
  mk_indexer :: indexer
  mk_delivered :: "command list"
  mk_applied :: nat
  mk_engine :: at_instant

definition from_client :: "command \<Rightarrow> bool" where
  "from_client c = (case c of CreditAccount _ _ \<Rightarrow> False | _ \<Rightarrow> True)"

definition market_start :: "'h market \<Rightarrow> bool" where
  "market_start m \<longleftrightarrow> custody_start (mk_custody m) \<and> (\<exists>depth. mk_indexer m = indexer_new depth) \<and>
     mk_delivered m = [] \<and> mk_applied m = 0 \<and> engine_start (mk_engine m)"

inductive market_step :: "'h market \<Rightarrow> 'h market \<Rightarrow> bool" where
  market_custody: "custody_step d False (mk_custody m) c \<Longrightarrow> market_step m (m\<lparr> mk_custody := c \<rparr>)"
| market_drain: "drain (cl_log (cu_ledger (mk_custody m))) (mk_indexer m) = (ix, cmds) \<Longrightarrow>
    market_step m (m\<lparr> mk_indexer := ix, mk_delivered := mk_delivered m @ cmds \<rparr>)"
| market_rewind: "market_step m (m\<lparr> mk_indexer := rewind (mk_indexer m) \<rparr>)"
| market_apply: "mk_applied m < length (mk_delivered m) \<Longrightarrow> mk_engine m = (t, e) \<Longrightarrow> t \<le> now \<Longrightarrow>
    engine_apply (mk_delivered m ! mk_applied m) now (e, b) = Some (res, (e', b')) \<Longrightarrow>
    market_step m (m\<lparr> mk_applied := Suc (mk_applied m), mk_engine := (now, e') \<rparr>)"
| market_client: "from_client c \<Longrightarrow> mk_engine m = (t, e) \<Longrightarrow> t \<le> now \<Longrightarrow>
    engine_apply c now (e, b) = Some (res, (e', b')) \<Longrightarrow> market_step m (m\<lparr> mk_engine := (now, e') \<rparr>)"

definition feed_of :: "'h market \<Rightarrow> feed" where
  "feed_of m = \<lparr> fd_log = cl_log (cu_ledger (mk_custody m)), fd_indexer = mk_indexer m, fd_out = mk_delivered m,
     fd_high = lg_head (cl_log (cu_ledger (mk_custody m))) \<rparr>"

definition market_ok :: "'h market \<Rightarrow> bool" where
  "market_ok m \<longleftrightarrow> custody_sound False (mk_custody m) \<and> faithful (cu_ledger (mk_custody m)) \<and>
     reaches feed_start feed_step (feed_of m) \<and> mk_applied m \<le> length (mk_delivered m) \<and>
     reaches engine_start engine_step (mk_engine m) \<and>
     (\<exists>n. free_col (e_ledger (snd (mk_engine m))) = fold credit_col (take (mk_applied m) (mk_delivered m)) (replicate n 0))"

lemma feed_grows:
  assumes "log_grows (fd_log f) g" and "fd_high f = lg_head (fd_log f)" and "reaches feed_start feed_step f"
  shows "reaches feed_start feed_step (f\<lparr> fd_log := g, fd_high := lg_head g \<rparr>)"
  using assms(1) unfolding log_grows_def
proof (induction rule: rtranclp_induct)
  case base
  have "f\<lparr> fd_log := fd_log f, fd_high := lg_head (fd_log f) \<rparr> = f" using assms(2) by simp
  then show ?case using assms(3) by simp
next
  case (step g h)
  let ?f = "f\<lparr> fd_log := g, fd_high := lg_head g \<rparr>"
  from step(2) consider (app) p where "h = log_append p g" | (mine) "h = advance_block g" by blast
  then have "feed_step ?f (f\<lparr> fd_log := h, fd_high := lg_head h \<rparr>)"
  proof cases
    case (app p)
    have "with_log (log_append p) ?f = f\<lparr> fd_log := h, fd_high := lg_head h \<rparr>"
      by (simp add: with_log_def app) (simp add: log_append_def)
    then show ?thesis using feed_append[of ?f p] by simp
  next
    case mine
    have "lg_head g \<le> lg_head (advance_block g)" by (simp add: advance_block_def saturating_inc_mono)
    then have "with_log advance_block ?f = f\<lparr> fd_log := h, fd_high := lg_head h \<rparr>"
      by (simp add: with_log_def mine max_def)
    then show ?thesis using feed_mine[of ?f] by simp
  qed
  with step.IH show ?case by (rule reaches_step)
qed

lemma market_start_ok: "market_start m \<Longrightarrow> market_ok m"
proof -
  assume m: "market_start m"
  then obtain delay accounts escrows depth where c: "mk_custody m = custody_new delay accounts escrows"
    and ix: "mk_indexer m = indexer_new depth" by (auto simp: market_start_def custody_start_def)
  have "faithful (cu_ledger (mk_custody m))"
    by (simp add: c faithful_def custody_new_def chain_log_new_def cl_available_def cl_account_def fun_eq_iff
        get_idx_replicate balance_default_def bal_available_def saturating_sub_def checked_sub_def)
  moreover have "feed_start (feed_of m)"
    using m by (simp add: feed_start_def feed_of_def market_start_def ix c) (simp add: custody_new_def chain_log_new_def)
  moreover have "custody_sound False (mk_custody m)" using m by (simp add: market_start_def custody_start_sound)
  moreover have "\<exists>n. free_col (e_ledger (snd (mk_engine m))) = replicate n 0"
    using m engine_start_free by (simp add: market_start_def)
  ultimately show ?thesis using m by (auto simp: market_ok_def market_start_def intro: reaches_start)
qed

lemma market_step_ok:
  assumes ok: "market_ok m" and "market_step m m'"
  shows "market_ok m'"
  using assms(2)
proof (cases rule: market_step.cases)
  case (market_custody d c)
  have s: "custody_sound False (mk_custody m)" "faithful (cu_ledger (mk_custody m))" "reaches feed_start feed_step (feed_of m)"
    using ok by (simp_all add: market_ok_def)
  from custody_step_faith[OF s(1) market_custody(2)] s(2) have f: "faithful (cu_ledger c)"
    "log_grows (cl_log (cu_ledger (mk_custody m))) (cl_log (cu_ledger c))" by (simp_all add: keeps_faith_def)
  have "reaches feed_start feed_step (feed_of m')"
    using feed_grows[of "feed_of m" "cl_log (cu_ledger c)"] f(2) s(3) by (simp add: feed_of_def market_custody(1))
  then show ?thesis using ok f(1) custody_step_sound[OF s(1) market_custody(2)] by (simp add: market_ok_def market_custody(1))
next
  case (market_drain ix cmds)
  have "feed_step (feed_of m) (feed_of m')"
    using feed_drain[of "feed_of m" ix cmds] market_drain(2) by (simp add: feed_of_def market_drain(1))
  then show ?thesis using ok by (auto simp: market_ok_def market_drain(1) intro: reaches_step)
next
  case market_rewind
  have "feed_step (feed_of m) (feed_of m')" using feed_rewind[of "feed_of m"] by (simp add: feed_of_def market_rewind)
  then show ?thesis using ok by (auto simp: market_ok_def market_rewind intro: reaches_step)
next
  case (market_apply t e now b res e' b')
  let ?c = "mk_delivered m ! mk_applied m"
  from ok obtain n where n: "free_col (e_ledger e) = fold credit_col (take (mk_applied m) (mk_delivered m)) (replicate n 0)"
    by (auto simp: market_ok_def market_apply(3))
  have "free_col (e_ledger e') = fold credit_col (take (Suc (mk_applied m)) (mk_delivered m)) (replicate n 0)"
    using apply_free[OF market_apply(5)] n market_apply(2) by (simp add: take_Suc_conv_app_nth)
  moreover have "engine_step (mk_engine m) (now, e')" unfolding market_apply(3) by (rule engine_applies[OF market_apply(4,5)])
  ultimately show ?thesis using ok market_apply(1,2)
    by (auto simp: market_ok_def feed_of_def intro: reaches_step)
next
  case (market_client c t e now b res e' b')
  have "credit_col c col = col" for col using market_client(2) by (simp add: from_client_def credit_col_def split: command.splits)
  then have "free_col (e_ledger e') = free_col (e_ledger e)" using apply_free[OF market_client(5)] by simp
  moreover have "engine_step (mk_engine m) (now, e')" unfolding market_client(3) by (rule engine_applies[OF market_client(4,5)])
  ultimately show ?thesis using ok market_client(1,3)
    by (auto simp: market_ok_def feed_of_def intro: reaches_step)
qed

interpretation market_system: inductive_invariant market_start market_step market_ok
  by unfold_locales (auto intro: market_start_ok market_step_ok)

lemma market_mirror:
  assumes "reaches market_start market_step m" and "lg_next_tx (cl_log (cu_ledger (mk_custody m))) < u_max"
    and "account (e_ledger (snd (mk_engine m))) a = Some entry"
  shows "mk_applied m \<le> length (lg_entries (cl_log (cu_ledger (mk_custody m))))"
    and "mb_free entry = mirror_of (take (mk_applied m) (lg_entries (cl_log (cu_ledger (mk_custody m))))) a"
    and "mirror_of (lg_entries (cl_log (cu_ledger (mk_custody m)))) a = cl_available (cu_ledger (mk_custody m)) a"
proof -
  let ?l = "cu_ledger (mk_custody m)"
  let ?es = "lg_entries (cl_log ?l)" and ?e = "e_ledger (snd (mk_engine m))"
  have ok: "market_ok m" by (rule market_system.reachable_inv[OF assms(1)])
  have "feed_ok (feed_of m)" using ok feed_system.reachable_inv by (simp add: market_ok_def)
  then obtain k where k: "k \<le> length ?es" "mk_delivered m = map (translate \<circ> ev_payload) (take k ?es)"
    using assms(2) by (auto simp: feed_ok_def feed_of_def fed_def Let_def)
  have le: "mk_applied m \<le> k" using ok k by (simp add: market_ok_def)
  from ok obtain n where "free_col ?e = fold credit_col (take (mk_applied m) (mk_delivered m)) (replicate n 0)"
    by (auto simp: market_ok_def)
  moreover have "take (mk_applied m) (mk_delivered m) = map (translate \<circ> ev_payload) (take (mk_applied m) ?es)"
    using le by (simp add: k(2) take_map min_def)
  ultimately have col: "free_col ?e = fold credit_col (map (translate \<circ> ev_payload) (take (mk_applied m) ?es)) (replicate n 0)"
    by simp
  have a: "unat a < length (free_col ?e)" "free_col ?e ! unat a = mb_free entry"
    using assms(3) by (simp_all add: account_def get_idx_Some_iff free_col_def)
  then show "mb_free entry = mirror_of (take (mk_applied m) ?es) a"
    using credit_mirror[of "take (mk_applied m) ?es" n] unfolding col by metis
  show "mirror_of ?es a = cl_available ?l a" using ok by (simp add: market_ok_def faithful_def)
  show "mk_applied m \<le> length ?es" using le k(1) by simp
qed

section \<open>Properties\<close>

text \<open>
  C26. The engine's mirror follows custody. In every reachable market (custody doing anything but rewriting
  its log, the indexer draining and losing its cursor at any time, the engine applying the delivered
  commands in order with any client commands and normalisation in between): the free balance of every
  account of the engine is the last availability custody logged for it among the entries applied so
  far; once every entry is applied it is custody's present availability of the account; and no command
  of a client ever moves it.
\<close>

theorem mirror_follows_custody:
  assumes "reaches market_start market_step m" and "lg_next_tx (cl_log (cu_ledger (mk_custody m))) < u_max"
    and "account (e_ledger (snd (mk_engine m))) a = Some entry"
  shows "mk_applied m \<le> length (lg_entries (cl_log (cu_ledger (mk_custody m)))) \<and>
    mb_free entry = mirror_of (take (mk_applied m) (lg_entries (cl_log (cu_ledger (mk_custody m))))) a \<and>
    (mk_applied m = length (lg_entries (cl_log (cu_ledger (mk_custody m)))) \<longrightarrow>
       mb_free entry = cl_available (cu_ledger (mk_custody m)) a)"
  using market_mirror[OF assms] by auto

definition demo_deposited :: "unit custody" where
  "demo_deposited = (custody_new 1000 3 4)\<lparr> cu_ledger := snd (deposit 1 500 (cu_ledger (custody_new 1000 3 4 :: unit custody))) \<rparr>"

lemma demo_log_values:
  "snd (drain (cl_log (cu_ledger demo_deposited)) (indexer_new 0)) = [CreditAccount 1 500] \<and>
   length (lg_entries (cl_log (cu_ledger demo_deposited))) = 1 \<and> lg_next_tx (cl_log (cu_ledger demo_deposited)) < u_max \<and>
   cl_available (cu_ledger demo_deposited) 1 = 500"
  by code_simp

lemma demo_market_reached:
  "\<exists>m :: unit market. reaches market_start market_step m \<and> mk_custody m = demo_deposited \<and> mk_applied m = 1 \<and>
     length (free_col (e_ledger (snd (mk_engine m)))) = 3"
proof -
  have valid: "config_validate demo_config = Inr ()" by code_simp
  have room: "max_accounts demo_config = 3" by (simp add: demo_config_def)
  from demo_reachable(1) obtain l where l: "ledger_new demo_config = Some l"
    by (auto simp: demo_run_def bind_eq_Some_conv)
  define e where "e = \<lparr> e_config = demo_config, e_ledger = l, e_next_arrival = 0 \<rparr>"
  have start: "engine_start (0, e)" using valid l by (auto simp: engine_start_def engine_new_cases e_def)
  have len: "length (free_col l) = 3"
    using l room by (auto simp: ledger_new_def bind_eq_Some_conv free_col_def)
  let ?R = "reaches market_start market_step :: unit market \<Rightarrow> bool"
  let ?m0 = "\<lparr> mk_custody = custody_new 1000 3 4, mk_indexer = indexer_new 0, mk_delivered = [], mk_applied = 0, mk_engine = (0, e) \<rparr> :: unit market"
  have r0: "?R ?m0" by (rule reaches_start) (auto simp: market_start_def custody_start_def start)
  have "custody_step True False (custody_new 1000 3 4) demo_deposited"
    unfolding demo_deposited_def by (rule step_ledger) (rule call_deposit)
  from reaches_step[OF r0 market_custody[of True ?m0, simplified, OF this]]
  have r1: "?R \<lparr> mk_custody = demo_deposited, mk_indexer = indexer_new 0, mk_delivered = [], mk_applied = 0, mk_engine = (0, e) \<rparr>"
    by simp
  obtain ix where ix: "drain (cl_log (cu_ledger demo_deposited)) (indexer_new 0) = (ix, [CreditAccount 1 500])"
    using demo_log_values by (metis prod.collapse)
  let ?m2 = "\<lparr> mk_custody = demo_deposited, mk_indexer = ix, mk_delivered = [CreditAccount 1 500], mk_applied = 0, mk_engine = (0, e) \<rparr>"
  have "market_step \<lparr> mk_custody = demo_deposited, mk_indexer = indexer_new 0, mk_delivered = [], mk_applied = 0, mk_engine = (0, e) \<rparr> ?m2"
    using market_drain[of "\<lparr> mk_custody = demo_deposited, mk_indexer = indexer_new 0, mk_delivered = [], mk_applied = 0, mk_engine = (0, e) \<rparr>" ix
      "[CreditAccount 1 500]"] ix by simp
  from reaches_step[OF r1 this] have r2: "?R ?m2" .
  have "engine_inv 0 e" using engine_start_inv[OF start] by simp
  from engine_apply_handled[OF this, of 1 "CreditAccount 1 500" "eb_with_capacity 4"]
  obtain res e' b' where ap: "engine_apply (CreditAccount 1 500) 1 (e, eb_with_capacity 4) = Some (res, (e', b'))" by auto
  have "market_step ?m2 (?m2\<lparr> mk_applied := Suc (mk_applied ?m2), mk_engine := (1, e') \<rparr>)"
    by (rule market_apply[of ?m2 0 e 1 "eb_with_capacity 4" res e' b']) (use ap in simp_all)
  from reaches_step[OF r2 this] have r3: "?R (?m2\<lparr> mk_applied := 1, mk_engine := (1, e') \<rparr>)" by simp
  have "free_col (e_ledger e') = credit_col (CreditAccount 1 500) (free_col l)" using apply_free[OF ap] by (simp add: e_def)
  then have "length (free_col (e_ledger e')) = 3" using len by (simp add: credit_col_def)
  with r3 show ?thesis by (intro exI[of _ "?m2\<lparr> mk_applied := 1, mk_engine := (1, e') \<rparr>"]) simp
qed

theorem mirror_follows_custody_witness:
  "\<exists>(m :: unit market) entry. reaches market_start market_step m \<and>
     account (e_ledger (snd (mk_engine m))) 1 = Some entry \<and> mb_free entry = 500"
proof -
  obtain m :: "unit market" where m: "reaches market_start market_step m" "mk_custody m = demo_deposited" "mk_applied m = 1"
    "length (free_col (e_ledger (snd (mk_engine m)))) = 3" using demo_market_reached by blast
  obtain entry where entry: "account (e_ledger (snd (mk_engine m))) 1 = Some entry"
    using m(4) by (auto simp: account_def get_idx_def free_col_def)
  have tx: "lg_next_tx (cl_log (cu_ledger (mk_custody m))) < u_max" using demo_log_values by (simp add: m(2))
  have "mk_applied m = length (lg_entries (cl_log (cu_ledger (mk_custody m))))" using demo_log_values by (simp add: m(2,3))
  then have "mb_free entry = cl_available (cu_ledger (mk_custody m)) 1" using mirror_follows_custody[OF m(1) tx entry] by blast
  then have "mb_free entry = 500" using demo_log_values by (simp add: m(2))
  with m(1) entry show ?thesis by blast
qed

end
