(* ===== verification/Settlement_Handoff.thy ===== *)
theory Settlement_Handoff
  imports Engine_Props Engine_Demo Custody_Debits
begin

text \<open>
  The settlement adapter (\<open>crates/runtime/src/settlement.rs\<close>): the one path from the engine to custody. It
  turns the \<open>SubmitIntent\<close> of an accepted request into a settlement transaction. The property relates
  the two systems: what the transaction debits each account is what the engine has committed of it.
\<close>

section \<open>The adapter\<close>

definition bundle_leg_of :: "intent_leg \<Rightarrow> bundle_leg" where
  "bundle_leg_of x = \<lparr> bl_contract = il_contract x, bl_side = il_side x, bl_size = il_size x,
     bl_maker = il_maker x, bl_fill_price = il_fill_price x, bl_quote_expiry = il_quote_expiry x \<rparr>"

definition convert_leg :: "nat \<times> intent_leg \<Rightarrow> bundle_leg list \<Rightarrow> bundle_leg list" where
  "convert_leg indexed converted = set_at converted (fst indexed) (bundle_leg_of (snd indexed))"

definition bundle_from :: "event \<Rightarrow> settlement_bundle option" where
  "bundle_from event =
     (case event of
        SubmitIntent r nonce requester legs n_legs \<Rightarrow>
          Some \<lparr> bu_nonce = nonce, bu_requester = requester,
            bu_legs = fold convert_leg (enumerate 0 (take (unat n_legs) legs)) (replicate MAX_LEGS bundle_leg_default),
            bu_n_legs = n_legs \<rparr>
      | _ \<Rightarrow> None)"

text \<open>The array is filled from its start, so its first entries are the converted legs.\<close>

lemma fold_convert_leg:
  "k + length xs \<le> length ys \<Longrightarrow>
   fold convert_leg (enumerate k xs) ys = take k ys @ map bundle_leg_of xs @ drop (k + length xs) ys"
proof (induction xs arbitrary: k ys)
  case (Cons x xs)
  then have "fold convert_leg (enumerate (Suc k) xs) (ys[k := bundle_leg_of x]) =
      take (Suc k) (ys[k := bundle_leg_of x]) @ map bundle_leg_of xs @ drop (Suc k + length xs) (ys[k := bundle_leg_of x])"
    by simp
  moreover have "convert_leg (k, x) ys = ys[k := bundle_leg_of x]" using Cons.prems by (simp add: convert_leg_def set_at_def)
  ultimately show ?case using Cons.prems by (simp add: take_Suc_conv_app_nth)
qed simp

lemma bundle_from_legs:
  assumes "bundle_from (SubmitIntent r nonce requester legs n) = Some bu" and "length legs = MAX_LEGS" and "unat n \<le> MAX_LEGS"
  shows "bu_nonce bu = nonce" and "bu_requester bu = requester" and "bu_n_legs bu = n"
    and "bundle_legs bu = map bundle_leg_of (take (unat n) legs)"
  using assms by (auto simp: bundle_from_def bundle_legs_def fold_convert_leg)

section \<open>What the engine has committed of each account\<close>

definition committed_from :: "ledger \<Rightarrow> req_idx \<Rightarrow> account_idx \<Rightarrow> (handle \<times> reservation) set" where
  "committed_from l r a = {(h, res). reservation l h = Some res \<and> committed_to res = Some r \<and> res_account res = a}"

definition account_at :: "claim_map \<Rightarrow> u32 \<Rightarrow> account_idx \<Rightarrow> bool" where
  "account_at v i a \<longleftrightarrow> (case v i of None \<Rightarrow> False | Some (g, b, rest) \<Rightarrow> b = a)"

lemma claimed_committed_from:
  "claimed (committed_from l r a) = (\<Sum>i\<in>on_list (claims l) r. if account_at (claims l) i a then amount_at (claims l) i else 0)"
proof -
  have "claimed (committed_from l r a) = sum (amount_at (claims l)) {i. i \<in> on_list (claims l) r \<and> account_at (claims l) i a}"
    unfolding committed_from_def
    by (rule claims_bij) (auto simp: on_list_def account_at_def claims_Some_iff kind_fields claims_def[of l] claim_of_def split: option.splits)
  also have "\<dots> = (\<Sum>i\<in>on_list (claims l) r. if account_at (claims l) i a then amount_at (claims l) i else 0)"
    by (simp flip: sum.inter_filter)
  finally show ?thesis .
qed

text \<open>The claim of the requester and those of the makers, by account.\<close>

lemma settling_by_account:
  assumes "market_inv cfg t None l" and "request l r = Some rec" and "rq_state rec = ReqSettling n d"
  obtains win fill where
    "\<forall>k<unat (rq_n_legs rec). \<exists>q. quote l (win k) = Some q \<and> q_request q = r \<and> q_leg q = word_of_nat k \<and> q_price q = fill k"
    and "\<forall>a. claimed (committed_from l r a) =
      (if rq_requester rec = a then \<Sum>k<unat (rq_n_legs rec). unat (leg_size (rq_legs rec ! k)) * unat (fill k) else 0) +
      (\<Sum>k<unat (rq_n_legs rec). if q_maker (the (quote l (win k))) = a
         then unat (leg_size (rq_legs rec ! k)) * (1000000 - unat (fill k)) else 0)"
    and "\<forall>k<unat (rq_n_legs rec). committed_from l r (q_maker (the (quote l (win k)))) \<noteq> {}"
    and "committed_from l r (rq_requester rec) \<noteq> {}"
proof -
  let ?n = "unat (rq_n_legs rec)" and ?sz = "\<lambda>k. unat (leg_size (rq_legs rec ! k))"
  obtain win fill c res qi where
    win: "\<forall>k<?n. \<exists>q. quote l (win k) = Some q \<and> q_request q = r \<and> q_leg q = word_of_nat k \<and>
       q_price q = fill k \<and> q_state q = QuoteConsumed \<and> backed t l (win k) q (leg_size (rq_legs rec ! k))"
    and c: "rq_claim rec = Some c" "reservation l c = Some res" "res_account res = rq_requester rec" "committed_to res = Some r"
    and fill: "unat (res_amount res) = (\<Sum>k<?n. ?sz k * unat (fill k))"
    and c_at: "claims l (h_index c) = Some (h_generation c, rq_requester rec, res_amount res, OwnerRequest r, OnCommitted r)"
    and at: "\<forall>k<?n. \<exists>g m. claims l (qi k) = Some (g, q_maker (the (quote l (win k))), m, OwnerQuote (win k), OnCommitted r) \<and>
       unat m = ?sz k * (1000000 - unat (fill k)) \<and> unat (fill k) \<le> 1000000"
    and list: "on_list (claims l) r = insert (h_index c) (qi ` {..<?n})"
    and fresh: "h_index c \<notin> qi ` {..<?n}" and inj: "inj_on qi {..<?n}"
    by (rule settling_claims[OF assms])
  have by_account: "claimed (committed_from l r a) = (if rq_requester rec = a then \<Sum>k<?n. ?sz k * unat (fill k) else 0) +
      (\<Sum>k<?n. if q_maker (the (quote l (win k))) = a then ?sz k * (1000000 - unat (fill k)) else 0)" for a
  proof -
    let ?f = "\<lambda>i. if account_at (claims l) i a then amount_at (claims l) i else 0"
    have "claimed (committed_from l r a) = ?f (h_index c) + (\<Sum>k<?n. ?f (qi k))"
      using fresh inj by (simp add: claimed_committed_from list sum.reindex)
    moreover have "?f (h_index c) = (if rq_requester rec = a then \<Sum>k<?n. ?sz k * unat (fill k) else 0)"
      using c_at fill by (simp add: account_at_def amount_at_def)
    moreover have "(\<Sum>k<?n. ?f (qi k)) = (\<Sum>k<?n. if q_maker (the (quote l (win k))) = a then ?sz k * (1000000 - unat (fill k)) else 0)"
      by (rule sum.cong) (use at in \<open>fastforce simp: account_at_def amount_at_def\<close>)+
    ultimately show ?thesis by simp
  qed
  have makers: "committed_from l r (q_maker (the (quote l (win k)))) \<noteq> {}" if k: "k < ?n" for k
  proof -
    from at[rule_format, OF k] obtain g m where "claims l (qi k) = Some (g, q_maker (the (quote l (win k))), m, OwnerQuote (win k), OnCommitted r)" by blast
    then show ?thesis by (auto simp: committed_from_def claims_Some_iff reservation_Some_iff kind_fields) (metis handle.select_convs)
  qed
  have req: "committed_from l r (rq_requester rec) \<noteq> {}" using c by (auto simp: committed_from_def)
  show thesis by (rule that[of win fill]) (use win by_account makers req in blast)+
qed

section \<open>The transaction of an accepted request\<close>

text \<open>What an accepted request leaves, beside what \<open>accepted_over_records\<close> says of its quotes.\<close>

lemma accepted_request:
  assumes inv: "engine_inv now e" and ok: "accept_request r expected n_legs now (e, b) = Some (Inr (), (e', b'))"
    and rec: "request (e_ledger e) r = Some rec"
  obtains rec' es intent where "market_inv (e_config e) now None (e_ledger e')" and "request (e_ledger e') r = Some rec'"
    and "rq_state rec' = ReqSettling (nonce_of r) (ts_saturating_add now (max_settling_time (e_config e)))"
    and "rq_requester rec' = rq_requester rec" and "rq_n_legs rec' = rq_n_legs rec"
    and "\<forall>k<unat (rq_n_legs rec). leg_size (rq_legs rec' ! k) = leg_size (rq_legs rec ! k)"
    and "eb_events b' = eb_events b @ es @ [SubmitIntent r (nonce_of r) (rq_requester rec) intent (rq_n_legs rec)]"
    and "length intent = MAX_LEGS" and "unat (rq_n_legs rec) \<le> MAX_LEGS" and "1 \<le> unat (rq_n_legs rec)"
    and "now < rq_deadline rec"
proof -
  let ?l = "e_ledger e" and ?st = "ReqSettling (nonce_of r) (ts_saturating_add now (max_settling_time (e_config e)))"
  note E = engine_invD[OF inv]
  obtain rec0 plan tot claim intent where chk: "check_accept e b r expected n_legs now = Some (Inr (rec0, plan, tot, claim, intent))"
    using ok by (auto simp: accept_request_def split: option.splits sum.splits prod.splits)
  have r0: "request ?l r = Some rec0" "now < rq_deadline rec0" and bi: "build_intent ?l rec0 plan = Inr intent"
    by (rule check_accept_accepts[OF chk], blast)+
  have [simp]: "rec0 = rec" using r0 rec by simp
  note N = running_legs[OF E(2) rec]
  obtain l3 es where e': "e' = e\<lparr>e_ledger := l3\<rparr>"
    and em: "emits b (es @ [SubmitIntent r (nonce_of r) (rq_requester rec) intent (rq_n_legs rec)]) b'"
    and mi: "market_inv (e_config e) now None l3"
    and rs: "requests_of l3 = (requests_of ?l)(r \<mapsto> request_set_state ?st (bare_request rec))"
    using accept_request_spec[OF inv chk] ok by auto
  from fun_cong[OF rs, of r] obtain rec' where rec': "request l3 r = Some rec'"
    and bare: "bare_request rec' = request_set_state ?st (bare_request rec)" by (auto simp: requests_of_def)
  have fields: "rq_state rec' = ?st" "rq_requester rec' = rq_requester rec" "rq_n_legs rec' = rq_n_legs rec"
    using arg_cong[OF bare, of rq_state] arg_cong[OF bare, of rq_requester] arg_cong[OF bare, of rq_n_legs] by simp_all
  note N' = running_legs[OF mi rec']
  have sizes: "leg_size (rq_legs rec' ! k) = leg_size (rq_legs rec ! k)" if k: "k < unat (rq_n_legs rec)" for k
  proof -
    have "map bare_leg (rq_legs rec') ! k = map bare_leg (rq_legs rec) ! k"
      using arg_cong[OF bare, of rq_legs] by (simp add: bare_request_def)
    moreover have "k < length (rq_legs rec)" "k < length (rq_legs rec')" using k N N' fields(3) by auto
    ultimately show ?thesis by (metis nth_map bare_leg_fields(3))
  qed
  have "length intent = MAX_LEGS"
    using intent_built[OF order_refl N(1,2)] bi by (simp add: build_intent_def intended_def)
  then show thesis
    using that[of rec' es intent] mi rec' fields sizes emits_events[OF em] N r0 unfolding e' by simp
qed

lemma legs_due_nth:
  assumes "n \<le> length xs"
  shows "legs_due r (map f (take n xs)) a = (\<Sum>k<n. leg_due r a (f (xs ! k)))"
  using assms by (simp add: legs_due_def sum_list_sum_nth atLeast0LessThan min_def)

lemma accepted_transaction:
  assumes inv: "engine_inv now e" and ok: "accept_request r expected n_legs now (e, b) = Some (Inr (), (e', b'))"
  defines "l' \<equiv> e_ledger e'"
  shows "\<exists>es ev bu. eb_events b' = eb_events b @ es @ [ev] \<and> bundle_from ev = Some bu \<and> bu_nonce bu = nonce_of r \<and>
    1 \<le> unat (bu_n_legs bu) \<and> unat (bu_n_legs bu) \<le> MAX_LEGS \<and>
    (\<forall>x\<in>set (bundle_legs bu). now < bl_quote_expiry x \<and> bl_fill_price x \<le> UNIT) \<and>
    (\<forall>a. bundle_due bu a = claimed (committed_from l' r a)) \<and>
    (\<forall>a\<in>named_accounts (bu_requester bu) (bundle_legs bu). committed_from l' r a \<noteq> {})"
proof -
  let ?l = "e_ledger e"
  from accepted_over_records[OF inv ok, folded l'_def] obtain rec win intent es where rec: "request ?l r = Some rec" and n: "n_legs = rq_n_legs rec"
    and legs: "\<forall>k < unat n_legs. \<exists>q q' leg view. request_leg rec (word_of_nat k) = Some leg \<and>
       best_quote ?l r (word_of_nat k) leg now (win k) q \<and>
       nth_opt expected k = Some view \<and> q_price q \<le> ef_price view \<and> q_price q \<le> leg_limit leg \<and>
       quote l' (win k) = Some q' \<and> bare_quote q' = bare_quote (quote_set_state QuoteConsumed q) \<and>
       intent ! k = \<lparr> il_contract = leg_contract leg, il_side = leg_side leg, il_size = leg_size leg, il_maker = q_maker q,
          il_fill_price = q_price q, il_quote_expiry = q_expires_at q \<rparr>"
    and gone: "\<forall>h q. quote ?l h = Some q \<longrightarrow> q_request q = r \<longrightarrow> h \<notin> win ` {..<unat n_legs} \<longrightarrow> quote l' h = None"
    and kept: "\<forall>h. (\<forall>q. quote ?l h = Some q \<longrightarrow> q_request q \<noteq> r) \<longrightarrow>
       map_option bare_quote (quote l' h) = map_option bare_quote (quote ?l h)"
    and ev: "eb_events b' = eb_events b @ es @ [SubmitIntent r (nonce_of r) (rq_requester rec) intent n_legs]"
    by (elim exE conjE) (rule that, assumption+)
  let ?n = "unat (rq_n_legs rec)" and ?req = "rq_requester rec" and ?sz = "\<lambda>k. unat (leg_size (rq_legs rec ! k))"
  obtain rec' es' intent' where mi: "market_inv (e_config e) now None l'" and rec': "request l' r = Some rec'"
    and st: "rq_state rec' = ReqSettling (nonce_of r) (ts_saturating_add now (max_settling_time (e_config e)))"
    and same: "rq_requester rec' = ?req" "rq_n_legs rec' = rq_n_legs rec" "\<forall>k<?n. leg_size (rq_legs rec' ! k) = leg_size (rq_legs rec ! k)"
    and ev': "eb_events b' = eb_events b @ es' @ [SubmitIntent r (nonce_of r) ?req intent' (rq_n_legs rec)]"
    and len: "length intent' = MAX_LEGS" and le: "?n \<le> MAX_LEGS" "1 \<le> ?n"
    by (rule accepted_request[OF inv ok rec, folded l'_def])
  have [simp]: "intent' = intent" using ev ev' n by simp
  obtain win' fill where
    W: "\<forall>k<?n. \<exists>q. quote l' (win' k) = Some q \<and> q_request q = r \<and> q_leg q = word_of_nat k \<and> q_price q = fill k"
    and A: "\<forall>a. claimed (committed_from l' r a) = (if ?req = a then \<Sum>k<?n. unat (leg_size (rq_legs rec' ! k)) * unat (fill k) else 0) +
      (\<Sum>k<?n. if q_maker (the (quote l' (win' k))) = a then unat (leg_size (rq_legs rec' ! k)) * (1000000 - unat (fill k)) else 0)"
    and M: "\<forall>k<?n. committed_from l' r (q_maker (the (quote l' (win' k)))) \<noteq> {}" and R: "committed_from l' r ?req \<noteq> {}"
    using settling_by_account[OF mi rec' st] unfolding same(1,2) by blast
  have lid: "k = j" if "word_of_nat k = (word_of_nat j :: leg_id)" "k < ?n" "j < ?n" for k j
    using that le leg_index[of k] leg_index[of j] by (metis order_less_le_trans)
  have won: "win' k = win k" if k: "k < ?n" for k
  proof -
    from W k obtain q where q: "quote l' (win' k) = Some q" "q_request q = r" "q_leg q = word_of_nat k" by blast
    have "\<exists>p. quote ?l (win' k) = Some p \<and> q_request p = r"
    proof (rule ccontr)
      assume no: "\<not> ?thesis"
      with kept have "map_option bare_quote (quote l' (win' k)) = map_option bare_quote (quote ?l (win' k))" by blast
      with q(1) obtain p where "quote ?l (win' k) = Some p" "bare_quote p = bare_quote q"
        by (cases "quote ?l (win' k)") auto
      with no q(2) show False by (metis bare_quote_fields(2))
    qed
    with gone q(1) n obtain j where j: "j < ?n" "win' k = win j" by fastforce
    from legs j(1) n obtain p p' leg where "best_quote ?l r (word_of_nat j) leg now (win j) p" "quote l' (win j) = Some p'"
      "bare_quote p' = bare_quote (quote_set_state QuoteConsumed p)" by blast
    moreover from this q j(2) have "p' = q" by simp
    ultimately have "q_leg q = word_of_nat j" by (metis best_quote_def on_leg_def bare_quote_fields(3) set_state_fields(3))
    with lid[OF _ k j(1)] q(3) j(2) show ?thesis by simp
  qed
  have leg: "\<exists>x. intent ! k = x \<and> il_size x = leg_size (rq_legs rec ! k) \<and> il_maker x = q_maker (the (quote l' (win' k))) \<and>
      il_fill_price x = fill k \<and> now < il_quote_expiry x \<and> fill k \<le> UNIT" if k: "k < ?n" for k
  proof -
    from legs k n obtain q q' leg where q: "request_leg rec (word_of_nat k) = Some leg" "best_quote ?l r (word_of_nat k) leg now (win k) q"
      "quote l' (win k) = Some q'" "bare_quote q' = bare_quote (quote_set_state QuoteConsumed q)"
      and x: "intent ! k = \<lparr> il_contract = leg_contract leg, il_side = leg_side leg, il_size = leg_size leg, il_maker = q_maker q,
          il_fill_price = q_price q, il_quote_expiry = q_expires_at q \<rparr>" by blast
    from arg_cong[OF q(4), of q_price] arg_cong[OF q(4), of q_maker] have f: "q_price q' = q_price q" "q_maker q' = q_maker q" by simp_all
    have "q_price q' \<le> UNIT" by (rule quote_record[OF mi q(3)])
    moreover have "leg = rq_legs rec ! k"
      using request_leg_index[OF k] running_legs[OF engine_invD(2)[OF inv] rec] q(1) by simp
    moreover have "q_price q' = fill k" using W k won[OF k] q(3) by auto
    ultimately show ?thesis using q x f won[OF k] by (auto simp: best_quote_def on_leg_def eligible_def quote_is_live_at_def not_le)
  qed
  let ?ev = "SubmitIntent r (nonce_of r) ?req intent (rq_n_legs rec)"
  obtain bu where bu: "bundle_from ?ev = Some bu" by (simp add: bundle_from_def)
  note B = bundle_from_legs[OF bu len[simplified] le(1)]
  have "bundle_due bu a = claimed (committed_from l' r a)" for a
  proof -
    have "bundle_due bu a = (\<Sum>k<?n. leg_due ?req a (bundle_leg_of (intent ! k)))"
      unfolding bundle_due_def B(2,4) by (rule legs_due_nth) (use len le in simp)
    also have "\<dots> = (\<Sum>k<?n. (if q_maker (the (quote l' (win' k))) = a then ?sz k * (1000000 - unat (fill k)) else 0) +
       (if ?req = a then ?sz k * unat (fill k) else 0))"
      by (rule sum.cong) (use leg in \<open>fastforce simp: leg_due_def bundle_leg_of_def mc_nat_def rc_nat_def\<close>)+
    also have "\<dots> = claimed (committed_from l' r a)" using same(3) by (simp add: A sum.distrib) (rule sum.cong, auto)
    finally show ?thesis .
  qed
  moreover have in_leg: "\<exists>k<?n. x = bundle_leg_of (intent ! k)" if "x \<in> set (bundle_legs bu)" for x
    using that len le unfolding B(4) by (auto simp: in_set_conv_nth) blast
  then have "\<forall>x\<in>set (bundle_legs bu). now < bl_quote_expiry x \<and> bl_fill_price x \<le> UNIT"
    using leg by (fastforce simp: bundle_leg_of_def)
  moreover have "\<forall>a\<in>named_accounts (bu_requester bu) (bundle_legs bu). committed_from l' r a \<noteq> {}"
  proof
    fix a assume "a \<in> named_accounts (bu_requester bu) (bundle_legs bu)"
    then consider "a = ?req" | x where "x \<in> set (bundle_legs bu)" "a = bl_maker x"
      unfolding B(2) by (auto simp: named_accounts_def split: if_splits)
    then show "committed_from l' r a \<noteq> {}"
    proof cases
      case 2
      from in_leg[OF 2(1)] obtain k where "k < ?n" "x = bundle_leg_of (intent ! k)" by blast
      with 2(2) leg M show ?thesis by (fastforce simp: bundle_leg_of_def)
    qed (use R in simp)
  qed
  ultimately show ?thesis using ev n bu B(1,3) le
    by (intro exI[of _ es] exI[of _ ?ev] exI[of _ bu]) simp
qed

text \<open>
  C3. What the engine commits is what settlement takes. After every successful \<open>AcceptRequest\<close> of a
  reachable engine the last event makes a transaction, for the nonce of the request, with quotes live at
  that instant, and for every account the transaction debits exactly the sum of the claims of that account
  the engine has committed to the request. Custody then accepts the transaction at every instant when
  the quotes are still live, if the nonce is not settled and every account with a committed claim is
  known and its balance covers its committed claims.
\<close>

theorem settlement_takes_what_is_committed:
  assumes "reachable_engine t e" and "t \<le> now"
    and "engine_apply (AcceptRequest r expected n_legs) now (e, b) = Some (Inr (), (e', b'))"
  defines "due \<equiv> \<lambda>a. claimed (committed_from (e_ledger e') r a)"
  shows "\<exists>es ev bu. eb_events b' = eb_events b @ es @ [ev] \<and> bundle_from ev = Some bu \<and> bu_nonce bu = nonce_of r \<and>
    (\<forall>x\<in>set (bundle_legs bu). now < bl_quote_expiry x) \<and> (\<forall>a. bundle_due bu a = due a) \<and>
    (\<forall>cl on_chain. (\<forall>x\<in>set (bundle_legs bu). on_chain < bl_quote_expiry x) \<longrightarrow>
       cl_resolved cl (nonce_of r) \<noteq> Some TxSettled \<longrightarrow>
       (\<forall>a. committed_from (e_ledger e') r a \<noteq> {} \<longrightarrow> unat a < length (cl_balances cl) \<and> due a \<le> unat (cl_balance cl a)) \<longrightarrow>
       (\<exists>d. validate cl bu on_chain = Inr d))"
proof -
  have "accept_request r expected n_legs now (normalised (AcceptRequest r expected n_legs) now e, b) = Some (Inr (), (e', b'))"
    using assms(3) by (simp add: engine_apply_def dispatch_def)
  from accepted_transaction[OF reachable_normalised[OF assms(1,2)] this] obtain es ev bu where
    ev: "eb_events b' = eb_events b @ es @ [ev]" and bu: "bundle_from ev = Some bu" "bu_nonce bu = nonce_of r"
    and n: "1 \<le> unat (bu_n_legs bu)" "unat (bu_n_legs bu) \<le> MAX_LEGS"
    and live: "\<forall>x\<in>set (bundle_legs bu). now < bl_quote_expiry x \<and> bl_fill_price x \<le> UNIT"
    and due: "\<forall>a. bundle_due bu a = claimed (committed_from (e_ledger e') r a)"
    and named: "\<forall>a\<in>named_accounts (bu_requester bu) (bundle_legs bu). committed_from (e_ledger e') r a \<noteq> {}"
    by blast
  have "\<exists>d. validate cl bu on_chain = Inr d"
    if "\<forall>x\<in>set (bundle_legs bu). on_chain < bl_quote_expiry x" "cl_resolved cl (nonce_of r) \<noteq> Some TxSettled"
      and cover: "\<forall>a. committed_from (e_ledger e') r a \<noteq> {} \<longrightarrow> unat a < length (cl_balances cl) \<and> due a \<le> unat (cl_balance cl a)"
    for cl on_chain
  proof (rule validate_ok)
    have "bundle_due bu a \<le> unat (cl_balance cl a)" for a
      using cover[rule_format, of a] by (cases "committed_from (e_ledger e') r a = {}") (simp_all add: due due_def, simp add: claimed_def)
    then show "acceptable cl bu on_chain"
      using that n live bu(2) named by (simp add: acceptable_def)
  qed
  with ev bu live due show ?thesis unfolding due_def by blast
qed

lemma desk_committed:
  assumes "reservation (e_ledger desk_settling) h = Some res"
  shows "res_account res = 0 \<or> res_account res = 2"
    and "claimed (committed_from (e_ledger desk_settling) r a) \<le> 5000000"
proof -
  let ?l = "e_ledger desk_settling"
  have wf: "slab_wf (l_reservations ?l)"
    using ledger_invD(1)[OF engine_invD(3)[OF reachable_engine_inv[OF desk_reachable(2)]]] by (simp add: slabs_wf_def)
  note all = set_slab_iter[OF wf]
  have "(h_index h, res_account res, res_amount res, is_committed res) \<in> set (claim_summary ?l)"
    using assms all by (force simp: claim_summary_def reservation_def)
  then show "res_account res = 0 \<or> res_account res = 2" by (auto simp: desk_values(6))
  have "claimed (committed_from ?l r a) \<le> claimed (set (slab_iter (l_reservations ?l)))"
    unfolding claimed_def by (rule sum_mono2[OF finite_set]) (auto simp: all committed_from_def reservation_def)
  also have "\<dots> = (\<Sum>(h, r)\<leftarrow>slab_iter (l_reservations ?l). unat (res_amount r))"
    unfolding claimed_def by (rule sum.distinct_set_conv_list) (use distinct_slab_iter[of "l_reservations ?l"] in \<open>simp add: distinct_map\<close>)
  also have "\<dots> = (\<Sum>(i, a, m, c)\<leftarrow>claim_summary ?l. unat m)" by (simp add: claim_summary_def comp_def case_prod_beta')
  also have "\<dots> = 5000000" by (simp add: desk_values(6))
  finally show "claimed (committed_from ?l r a) \<le> 5000000" .
qed

definition desk_custody :: custody_ledger where
  "desk_custody = snd (deposit 2 9000000 (snd (deposit 0 9000000 (cu_ledger (custody_new 1000 3 4 :: unit custody)))))"

lemma desk_custody_values:
  "length (cl_balances desk_custody) = 3 \<and> cl_balance desk_custody 0 = 9000000 \<and> cl_balance desk_custody 2 = 9000000 \<and>
   cl_resolved desk_custody (nonce_of demo_req) = None"
  by code_simp

theorem settlement_takes_what_is_committed_witness:
  "\<exists>b2 ev bu d. engine_apply desk_accept 20 (desk_open, eb_with_capacity 64) = Some (Inr (), (desk_settling, b2)) \<and>
     ev \<in> set (eb_events b2) \<and> bundle_from ev = Some bu \<and> validate desk_custody bu 20 = Inr d"
proof -
  obtain b2 where s: "engine_apply desk_accept 20 (desk_open, eb_with_capacity 64) = Some (Inr (), (desk_settling, b2))"
    by (rule desk_steps)
  have "(14 :: ts) \<le> 20" by simp
  from settlement_takes_what_is_committed[OF desk_reachable(1) this s[unfolded desk_accept_def]] obtain es ev bu where
    ev: "eb_events b2 = eb_events (eb_with_capacity 64) @ es @ [ev]" "bundle_from ev = Some bu"
    and live: "\<forall>x\<in>set (bundle_legs bu). 20 < bl_quote_expiry x"
    and ok: "\<forall>cl on_chain. (\<forall>x\<in>set (bundle_legs bu). on_chain < bl_quote_expiry x) \<longrightarrow>
       cl_resolved cl (nonce_of demo_req) \<noteq> Some TxSettled \<longrightarrow>
       (\<forall>a. committed_from (e_ledger desk_settling) demo_req a \<noteq> {} \<longrightarrow> unat a < length (cl_balances cl) \<and>
          claimed (committed_from (e_ledger desk_settling) demo_req a) \<le> unat (cl_balance cl a)) \<longrightarrow>
       (\<exists>d. validate cl bu on_chain = Inr d)" by blast
  have "unat a < length (cl_balances desk_custody) \<and>
      claimed (committed_from (e_ledger desk_settling) demo_req a) \<le> unat (cl_balance desk_custody a)"
    if "committed_from (e_ledger desk_settling) demo_req a \<noteq> {}" for a
  proof -
    from that obtain h res where "reservation (e_ledger desk_settling) h = Some res" "res_account res = a"
      by (auto simp: committed_from_def)
    with desk_committed(1) have "a = 0 \<or> a = 2" by blast
    moreover have "claimed (committed_from (e_ledger desk_settling) demo_req a) \<le> 5000000"
      using desk_committed(2)[OF \<open>reservation _ h = Some res\<close>] .
    ultimately show ?thesis using desk_custody_values by auto
  qed
  with ok live desk_custody_values obtain d where "validate desk_custody bu 20 = Inr d" by fastforce
  with s ev show ?thesis by fastforce
qed

end
