(* ===== verification/Channels.thy ===== *)
theory Channels
  imports Prelude
begin

text \<open>
  The hand-offs of \<open>crates/runtime/src/handoff.rs\<close>, over the bounded channels of the standard
  library (\<open>std::sync::mpsc::sync_channel\<close>) that carry them. A channel is its queue, its bound, the
  senders and the receiver still alive; a bound of zero is a rendezvous, where \<open>try_send\<close> succeeds only
  when the receiver is waiting for a message, and \<open>send\<close> blocks until the message is taken.
\<close>

section \<open>The bounded channel\<close>

record 'a channel =
  ch_bound :: nat
  ch_queue :: "'a list"
  ch_senders :: nat
  ch_receiver :: bool
  ch_waiting :: bool

datatype try_send_error = SendFull | SendDisconnected
datatype try_recv_error = RecvEmpty | RecvDisconnected

definition sync_channel :: "nat \<Rightarrow> 'a channel" where
  "sync_channel bound = \<lparr> ch_bound = bound, ch_queue = [], ch_senders = 1, ch_receiver = True, ch_waiting = False \<rparr>"

definition has_slot :: "'a channel \<Rightarrow> bool" where
  "has_slot k \<longleftrightarrow> (if ch_bound k = 0 then ch_queue k = [] \<and> ch_waiting k else length (ch_queue k) < ch_bound k)"

definition try_send :: "'a \<Rightarrow> 'a channel \<Rightarrow> (try_send_error + unit) \<times> 'a channel" where
  "try_send x k =
     (if \<not> ch_receiver k then (Inl SendDisconnected, k)
      else if has_slot k then (Inr (), k\<lparr> ch_queue := ch_queue k @ [x] \<rparr>)
      else (Inl SendFull, k))"

text \<open>
  A blocking send; \<open>None\<close> is a sender that goes on waiting. On a rendezvous channel the message of a
  blocked sender is there to be taken by \<open>try_recv\<close>, so it counts as sent from the moment it waits.
\<close>

definition send :: "'a \<Rightarrow> 'a channel \<Rightarrow> ((unit + unit) \<times> 'a channel) option" where
  "send x k =
     (if \<not> ch_receiver k then Some (Inl (), k)
      else if length (ch_queue k) < max 1 (ch_bound k) then Some (Inr (), k\<lparr> ch_queue := ch_queue k @ [x] \<rparr>)
      else None)"

text \<open>
  The receiving end. \<open>recv\<close> blocks where \<open>try_recv\<close> says empty: the receiver is then waiting, and its
  next turn finds a message or the channel closed.
\<close>

definition try_recv :: "'a channel \<Rightarrow> (try_recv_error + 'a) \<times> 'a channel" where
  "try_recv k =
     (case ch_queue k of
        x # xs \<Rightarrow> (Inr x, k\<lparr> ch_queue := xs \<rparr>)
      | [] \<Rightarrow> (Inl (if ch_senders k = 0 then RecvDisconnected else RecvEmpty), k))"

definition recv_turn :: "'a channel \<Rightarrow> 'a option \<times> 'a channel" where
  "recv_turn k =
     (case try_recv k of
        (Inr x, k') \<Rightarrow> (Some x, k'\<lparr> ch_waiting := False \<rparr>)
      | (Inl _, k') \<Rightarrow> (None, k'\<lparr> ch_waiting := True \<rparr>))"

definition drop_sender :: "'a channel \<Rightarrow> 'a channel" where
  "drop_sender k = k\<lparr> ch_senders := ch_senders k - 1 \<rparr>"

definition clone_sender :: "'a channel \<Rightarrow> 'a channel" where
  "clone_sender k = k\<lparr> ch_senders := Suc (ch_senders k) \<rparr>"

text \<open>Dropping the receiver drops what is still queued.\<close>

definition drop_receiver :: "'a channel \<Rightarrow> 'a channel" where
  "drop_receiver k = k\<lparr> ch_receiver := False, ch_queue := [], ch_waiting := False \<rparr>"

definition closed_and_drained :: "'a channel \<Rightarrow> bool" where
  "closed_and_drained k \<longleftrightarrow> \<not> ch_receiver k \<or> ch_queue k = [] \<and> ch_senders k = 0"

section \<open>What is handed off\<close>

record 'a sequenced =
  sq_sequence :: u64
  sq_event :: 'a

datatype halt_reason = ChannelClosed | LogUnrecordable

section \<open>A channel keeps what it takes\<close>

lemma try_send_cases:
  obtains (sent) "try_send x k = (Inr (), k\<lparr> ch_queue := ch_queue k @ [x] \<rparr>)" "ch_receiver k"
  | (refused) err where "try_send x k = (Inl err, k)"
  unfolding try_send_def by (metis (full_types))

text \<open>
  What has been received so far followed by what is queued: a send that is taken appends to it, and a
  receive leaves it as it is, so the receiver gets what was taken, in that order.
\<close>

lemma received_then_queued:
  "try_send x k = (Inr u, k') \<Longrightarrow> got @ ch_queue k' = (got @ ch_queue k) @ [x]"
  "try_send x k = (Inl err, k') \<Longrightarrow> k' = k"
  "recv_turn k = (Some y, k') \<Longrightarrow> (got @ [y]) @ ch_queue k' = got @ ch_queue k"
  "recv_turn k = (None, k') \<Longrightarrow> ch_queue k' = ch_queue k"
  by (auto simp: try_send_def recv_turn_def try_recv_def split: if_splits list.splits)

lemma ends_kept [simp]:
  "ch_receiver (snd (try_send x k)) = ch_receiver k" "ch_senders (snd (try_send x k)) = ch_senders k"
  "ch_receiver (snd (recv_turn k)) = ch_receiver k" "ch_senders (snd (recv_turn k)) = ch_senders k"
  "ch_receiver (drop_sender k) = ch_receiver k" "ch_queue (drop_sender k) = ch_queue k"
  "ch_receiver (clone_sender k) = ch_receiver k" "ch_queue (clone_sender k) = ch_queue k"
  "\<not> ch_receiver (drop_receiver k)"
  by (auto simp: try_send_def recv_turn_def try_recv_def drop_sender_def clone_sender_def drop_receiver_def split: list.split)

lemma send_ends: "send x k = Some (res, k') \<Longrightarrow> ch_receiver k' = ch_receiver k \<and> ch_senders k' = ch_senders k"
  by (auto simp: send_def split: if_splits)

lemma queue_bounded:
  "send x k = Some (res, k') \<Longrightarrow> length (ch_queue k) \<le> max 1 (ch_bound k) \<Longrightarrow> length (ch_queue k') \<le> max 1 (ch_bound k)"
  "length (ch_queue k) \<le> max 1 (ch_bound k) \<Longrightarrow> length (ch_queue (snd (try_send x k))) \<le> max 1 (ch_bound k)"
  by (auto simp: try_send_def has_slot_def send_def split: if_splits)

end
