(* ===== verification/Ledger_Checks.thy ===== *)
theory Ledger_Checks
  imports Ledger
begin

text \<open>
  The checks a debug build runs on the ledger of \<open>crates/core/src/ledger.rs\<close>. They re-derive every
  stored total and every link from the claims. A walk of the source that is bounded by a counter, or
  not bounded at all, is a \<open>partial_function\<close>: \<open>None\<close> is not returning, \<open>Inl\<close> a violation. The
  theory \<open>Ledger_Checked\<close> shows that the checks return and what they accept.
\<close>

section \<open>Checks that walk\<close>

type_synonym 'a checked = "(invariant_violation + 'a) option"

text \<open>The \<open>?\<close> operator on a walk, and a loop of walks with an early return.\<close>

definition walk_then :: "('e + 'a) option \<Rightarrow> ('a \<Rightarrow> ('e + 'b) option) \<Rightarrow> ('e + 'b) option" where
  "walk_then w f = (case w of None \<Rightarrow> None | Some (Inl e) \<Rightarrow> Some (Inl e) | Some (Inr v) \<Rightarrow> f v)"

fun fold_walk :: "('a \<Rightarrow> 's \<Rightarrow> ('e + 's) option) \<Rightarrow> 'a list \<Rightarrow> 's \<Rightarrow> ('e + 's) option" where
  "fold_walk f [] s = Some (Inr s)"
| "fold_walk f (x # xs) s = walk_then (f x s) (fold_walk f xs)"

definition index_of :: "nat \<Rightarrow> account_idx" where
  "index_of n = (if n < 2 ^ 32 then word_of_nat n else u_max)"

section \<open>The expiry chains\<close>

partial_function (option) expiry_walk ::
  "ledger \<Rightarrow> account_idx \<Rightarrow> amount \<Rightarrow> link \<Rightarrow> link \<Rightarrow> ts option \<Rightarrow> u32 \<Rightarrow> (amount \<times> link \<times> u32) checked" where
  "expiry_walk l a acc previous cursor last_expiry chained =
     (case link_index cursor of
        None \<Rightarrow> Some (Inr (acc, previous, chained))
      | Some at \<Rightarrow>
          (case reservation_at l at of
             None \<Rightarrow> Some (Inl (ChainLinksInconsistent a))
           | Some r \<Rightarrow>
               (case res_links r of
                  Committed _ _ _ \<Rightarrow> Some (Inl (CommittedClaimOnExpiryChain a))
                | Reserved expires_at prev nx \<Rightarrow>
                    if res_account r \<noteq> a then Some (Inl (ClaimOnForeignChain a))
                    else if prev \<noteq> previous then Some (Inl (ChainLinksInconsistent a))
                    else if (case last_expiry of None \<Rightarrow> False | Some was \<Rightarrow> expires_at < was)
                    then Some (Inl (ExpiryChainOutOfOrder a))
                    else (case amount_checked_add acc (res_amount r) of
                            None \<Rightarrow> Some (Inl (ReservedTotalMismatch a))
                          | Some acc2 \<Rightarrow>
                              (let chained' = saturating_add chained 1 in
                               if slab_capacity (l_reservations l) < chained'
                               then Some (Inl (ChainLinksInconsistent a))
                               else expiry_walk l a acc2 cursor nx (Some expires_at) chained')))))"

declare expiry_walk.simps [code]

definition check_expiry_chain :: "ledger \<Rightarrow> nat \<times> mirrored_balance \<Rightarrow> u32 \<Rightarrow> u32 checked" where
  "check_expiry_chain l indexed chained =
     (let a = index_of (fst indexed); entry = snd indexed in
      walk_then (expiry_walk l a 0 NIL (expiry_head entry) None chained) (\<lambda>(acc, previous, chained').
        if previous \<noteq> expiry_tail entry then Some (Inl (ChainLinksInconsistent a))
        else if acc \<noteq> mb_reserved entry then Some (Inl (ReservedTotalMismatch a))
        else Some (Inr chained')))"

definition check_expiry_chains :: "ledger \<Rightarrow> u32 checked" where
  "check_expiry_chains l = fold_walk (check_expiry_chain l) (enumerate 0 (l_accounts l)) 0"

section \<open>The committed lists\<close>

partial_function (option) committed_walk ::
  "ledger \<Rightarrow> req_idx \<Rightarrow> link \<Rightarrow> link \<Rightarrow> u32 \<Rightarrow> u32 checked" where
  "committed_walk l q previous cursor chained =
     (case link_index cursor of
        None \<Rightarrow> Some (Inr chained)
      | Some at \<Rightarrow>
          (case reservation_at l at of
             None \<Rightarrow> Some (Inl (ClaimOnForeignCommittedList q))
           | Some r \<Rightarrow>
               (case res_links r of
                  Reserved _ _ _ \<Rightarrow> Some (Inl (ReservedClaimOnCommittedList q))
                | Committed owner prev nx \<Rightarrow>
                    if owner \<noteq> q \<or> prev \<noteq> previous then Some (Inl (ClaimOnForeignCommittedList q))
                    else (let chained' = saturating_add chained 1 in
                          if slab_capacity (l_reservations l) < chained'
                          then Some (Inl (ClaimOnForeignCommittedList q))
                          else committed_walk l q cursor nx chained'))))"

declare committed_walk.simps [code]

definition check_committed_lists :: "ledger \<Rightarrow> u32 checked" where
  "check_committed_lists l =
     fold_walk (\<lambda>(q, record). committed_walk l q NIL (rq_committed_head record)) (slab_iter (l_requests l)) 0"

partial_function (option) total_walk :: "ledger \<Rightarrow> account_idx \<Rightarrow> link \<Rightarrow> amount \<Rightarrow> amount checked" where
  "total_walk l a cursor acc =
     (case link_index cursor of
        None \<Rightarrow> Some (Inr acc)
      | Some at \<Rightarrow>
          (case reservation_at l at of
             None \<Rightarrow> Some (Inr acc)
           | Some r \<Rightarrow>
               (case (if res_account r = a then amount_checked_add acc (res_amount r) else Some acc) of
                  None \<Rightarrow> Some (Inl (CommittedTotalMismatch a))
                | Some acc2 \<Rightarrow> total_walk l a (snd (neighbours r)) acc2)))"

declare total_walk.simps [code]

definition check_committed_total :: "ledger \<Rightarrow> nat \<times> mirrored_balance \<Rightarrow> unit \<Rightarrow> unit checked" where
  "check_committed_total l indexed u =
     (let a = index_of (fst indexed) in
      walk_then (fold_walk (\<lambda>(q, record). total_walk l a (rq_committed_head record)) (slab_iter (l_requests l)) 0)
        (\<lambda>acc. if acc \<noteq> mb_committed (snd indexed) then Some (Inl (CommittedTotalMismatch a)) else Some (Inr ())))"

definition check_committed_totals :: "ledger \<Rightarrow> unit checked" where
  "check_committed_totals l = fold_walk (check_committed_total l) (enumerate 0 (l_accounts l)) ()"

section \<open>Owners\<close>

definition check_claim_owner :: "ledger \<Rightarrow> res_idx \<times> reservation \<Rightarrow> unit \<Rightarrow> invariant_violation + unit" where
  "check_claim_owner l entry u =
     (case owner_claim l (res_owner_of (snd entry)) of
        None \<Rightarrow> Inl (OwnerDoesNotResolve (fst entry))
      | Some held \<Rightarrow> if held \<noteq> Some (fst entry) then Inl (OwnerDoesNotPointBack (fst entry)) else Inr ())"

definition check_owned_claim :: "ledger \<Rightarrow> res_owner \<Rightarrow> res_idx option \<Rightarrow> invariant_violation + unit" where
  "check_owned_claim l owner held =
     (case held of
        None \<Rightarrow> Inr ()
      | Some claim \<Rightarrow>
          (case reservation l claim of
             None \<Rightarrow> Inl (OwnerDoesNotPointBack claim)
           | Some r \<Rightarrow> if res_owner_of r \<noteq> owner then Inl (OwnerDoesNotPointBack claim) else Inr ()))"

definition check_owners :: "ledger \<Rightarrow> invariant_violation + unit" where
  "check_owners l =
     and_then (fold_res (check_claim_owner l) (slab_iter (l_reservations l)) ()) (\<lambda>_.
     and_then (fold_res (\<lambda>(h, q) _. check_owned_claim l (OwnerQuote h) (q_claim q)) (slab_iter (l_quotes l)) ()) (\<lambda>_.
     fold_res (\<lambda>(h, r) _. check_owned_claim l (OwnerRequest h) (rq_claim r)) (slab_iter (l_requests l)) ()))"

section \<open>The structural check\<close>

definition check_structural_invariants :: "ledger \<Rightarrow> unit checked" where
  "check_structural_invariants l =
     walk_then (check_expiry_chains l) (\<lambda>on_chains.
     walk_then (check_committed_lists l) (\<lambda>on_lists.
     walk_then (check_committed_totals l) (\<lambda>_.
       (let chained = saturating_add (saturating_add 0 on_chains) on_lists in
        if chained \<noteq> slab_len (l_reservations l) then Some (Inl ClaimNotOnExactlyOneChain)
        else Some (check_owners l)))))"

text \<open>After every mutation, in a debug build; \<open>None\<close> is the panic.\<close>

definition assert_invariants :: "bool \<Rightarrow> ledger \<Rightarrow> unit option" where
  "assert_invariants debug l =
     (if debug then (case check_structural_invariants l of Some (Inr u) \<Rightarrow> Some () | _ \<Rightarrow> None) else Some ())"

section \<open>Claims and the states of their owners\<close>

definition require_settling :: "ledger \<Rightarrow> req_idx \<Rightarrow> res_idx \<Rightarrow> invariant_violation + unit" where
  "require_settling l r claim =
     (case request l r of
        None \<Rightarrow> Inl (OwnerDoesNotResolve claim)
      | Some record \<Rightarrow> if rq_state record = ReqOpen then Inl (CommittedClaimRequestNotSettling claim) else Inr ())"

definition check_claim_state :: "ledger \<Rightarrow> res_idx \<times> reservation \<Rightarrow> unit \<Rightarrow> invariant_violation + unit" where
  "check_claim_state l entry u =
     (let claim = fst entry in
      case (committed_to (snd entry), res_owner_of (snd entry)) of
        (None, OwnerQuote q) \<Rightarrow>
          (case quote l q of
             None \<Rightarrow> Inl (OwnerDoesNotResolve claim)
           | Some record \<Rightarrow>
               if q_state record \<noteq> QuoteActive then Inl (ReservedClaimOwnerNotStanding claim) else Inr ())
      | (None, OwnerRequest r) \<Rightarrow>
          (case request l r of
             None \<Rightarrow> Inl (OwnerDoesNotResolve claim)
           | Some record \<Rightarrow>
               if rq_state record \<noteq> ReqOpen then Inl (ReservedClaimOwnerNotStanding claim) else Inr ())
      | (Some list, OwnerQuote q) \<Rightarrow>
          (case quote l q of
             None \<Rightarrow> Inl (OwnerDoesNotResolve claim)
           | Some record \<Rightarrow>
               if q_state record \<noteq> QuoteConsumed then Inl (CommittedClaimOwnerNotConsumed claim)
               else if q_request record \<noteq> list then Inl (ClaimOnForeignCommittedList list)
               else require_settling l list claim)
      | (Some list, OwnerRequest r) \<Rightarrow>
          if r \<noteq> list then Inl (ClaimOnForeignCommittedList list) else require_settling l list claim)"

definition check_claim_state_coherence :: "ledger \<Rightarrow> invariant_violation + unit" where
  "check_claim_state_coherence l = fold_res (check_claim_state l) (slab_iter (l_reservations l)) ()"

definition check_invariants :: "ledger \<Rightarrow> unit checked" where
  "check_invariants l = walk_then (check_structural_invariants l) (\<lambda>_. Some (check_claim_state_coherence l))"

section \<open>Coverage\<close>

definition check_claim_coverage_for :: "ledger \<Rightarrow> account_idx \<Rightarrow> invariant_violation + unit" where
  "check_claim_coverage_for l a =
     (case account l a of
        None \<Rightarrow> Inr ()
      | Some entry \<Rightarrow>
          and_then (ok_or (amount_checked_add (mb_reserved entry) (mb_committed entry)) (ClaimCoverageBroken a)) (\<lambda>claimed.
          if claimed > mb_free entry then Inl (ClaimCoverageBroken a) else Inr ()))"

definition check_entry_coverage :: "nat \<times> mirrored_balance \<Rightarrow> unit \<Rightarrow> invariant_violation + unit" where
  "check_entry_coverage indexed u =
     (let a = index_of (fst indexed); entry = snd indexed in
      and_then (ok_or (amount_checked_add (mb_reserved entry) (mb_committed entry)) (ClaimCoverageBroken a)) (\<lambda>claimed.
      if claimed > mb_free entry then Inl (ClaimCoverageBroken a) else Inr ()))"

definition check_claim_coverage :: "ledger \<Rightarrow> invariant_violation + unit" where
  "check_claim_coverage l = fold_res check_entry_coverage (enumerate 0 (l_accounts l)) ()"

section \<open>Normalisation\<close>

partial_function (option) normalised_walk :: "ledger \<Rightarrow> account_idx \<Rightarrow> ts \<Rightarrow> link \<Rightarrow> u32 \<Rightarrow> unit checked" where
  "normalised_walk l a now cursor steps =
     (case link_index cursor of
        None \<Rightarrow> Some (Inr ())
      | Some at \<Rightarrow>
          (case reservation_at l at of
             None \<Rightarrow> Some (Inr ())
           | Some r \<Rightarrow>
               if res_is_expired_at r now = Some True then Some (Inl (ExpiredClaimAfterNormalisation a))
               else (let steps' = saturating_add steps 1 in
                     if slab_capacity (l_reservations l) < steps' then Some (Inr ())
                     else normalised_walk l a now (snd (neighbours r)) steps')))"

declare normalised_walk.simps [code]

definition check_normalised :: "ledger \<Rightarrow> account_idx \<Rightarrow> ts \<Rightarrow> unit checked" where
  "check_normalised l a now =
     (case account l a of
        None \<Rightarrow> Some (Inr ())
      | Some entry \<Rightarrow> normalised_walk l a now (expiry_head entry) 0)"

definition assert_normalised :: "bool \<Rightarrow> ledger \<Rightarrow> account_idx \<Rightarrow> ts \<Rightarrow> unit option" where
  "assert_normalised debug l a now =
     (if debug then (case check_normalised l a now of Some (Inr u) \<Rightarrow> Some () | _ \<Rightarrow> None) else Some ())"

end
