(* ===== verification/Ledger_Checked.thy ===== *)
theory Ledger_Checked
  imports Ledger_Checks Ledger_Steps
begin

text \<open>
  The debug checks of the ledger decide its invariant: on well-formed slabs they always return, and
  they accept exactly the ledgers of \<open>ledger_inv\<close>. So a debug build never panics on a reachable ledger.
\<close>

section \<open>Loops of walks\<close>

lemma walk_then_simps [simp]:
  "walk_then None f = None" "walk_then (Some (Inl e)) f = Some (Inl e)" "walk_then (Some (Inr v)) f = f v"
  by (simp_all add: walk_then_def)

lemma walk_then_Inr_iff: "walk_then w f = Some (Inr v) \<longleftrightarrow> (\<exists>u. w = Some (Inr u) \<and> f u = Some (Inr v))"
  by (auto simp: walk_then_def split: option.split sum.split)

lemma walk_then_returns: "w \<noteq> None \<Longrightarrow> (\<And>v. w = Some (Inr v) \<Longrightarrow> f v \<noteq> None) \<Longrightarrow> walk_then w f \<noteq> None"
  by (auto simp: walk_then_def split: option.split sum.split)

lemma fold_walk_returns: "(\<And>x s. x \<in> set xs \<Longrightarrow> f x s \<noteq> None) \<Longrightarrow> fold_walk f xs s \<noteq> None"
proof (induction xs arbitrary: s)
  case (Cons x xs)
  show ?case unfolding fold_walk.simps by (rule walk_then_returns) (use Cons in \<open>simp_all del: not_None_eq\<close>)
qed simp

text \<open>A loop that counts: every body adds the length of some list to a counter of machine width.\<close>

lemma fold_walk_counts:
  fixes s s' :: "'b::len word" and P :: "'a \<Rightarrow> 'c list \<Rightarrow> bool"
  assumes "\<And>x s s'. x \<in> set xs \<Longrightarrow> f x s = Some (Inr s') \<longleftrightarrow>
      (\<exists>ys. P x ys \<and> unat s' = unat s + length ys \<and> (ys = [] \<or> unat s' \<le> cap))"
    and "unat s \<le> cap"
  shows "fold_walk f xs s = Some (Inr s') \<longleftrightarrow>
    (\<exists>yss. list_all2 P xs yss \<and> unat s' = unat s + length (concat yss) \<and> unat s' \<le> cap)"
  using assms
proof (induction xs arbitrary: s)
  case Nil
  then show ?case by (auto simp: word_unat_eq_iff)
next
  case (Cons x xs)
  have IH: "fold_walk f xs u = Some (Inr s') \<longleftrightarrow>
      (\<exists>yss. list_all2 P xs yss \<and> unat s' = unat u + length (concat yss) \<and> unat s' \<le> cap)" if "unat u \<le> cap" for u
    by (rule Cons.IH[OF Cons.prems(1) that]) simp
  have body: "f x s = Some (Inr u) \<longleftrightarrow> (\<exists>ys. P x ys \<and> unat u = unat s + length ys \<and> unat u \<le> cap)" for u
    using Cons.prems(1)[of x s u] Cons.prems(2) by auto
  show ?case
  proof
    assume "fold_walk f (x # xs) s = Some (Inr s')"
    then obtain u where u: "f x s = Some (Inr u)" "fold_walk f xs u = Some (Inr s')" by (auto simp: walk_then_Inr_iff)
    then obtain ys where ys: "P x ys" "unat u = unat s + length ys" "unat u \<le> cap" using body by auto
    with IH u(2) obtain yss where "list_all2 P xs yss" "unat s' = unat u + length (concat yss)" "unat s' \<le> cap" by auto
    with ys show "\<exists>yss. list_all2 P (x # xs) yss \<and> unat s' = unat s + length (concat yss) \<and> unat s' \<le> cap"
      by (intro exI[of _ "ys # yss"]) simp
  next
    assume "\<exists>yss. list_all2 P (x # xs) yss \<and> unat s' = unat s + length (concat yss) \<and> unat s' \<le> cap"
    then obtain ys yss where y: "P x ys" "list_all2 P xs yss" "unat s' = unat s + length ys + length (concat yss)" "unat s' \<le> cap"
      by (auto simp: list_all2_Cons1)
    obtain u :: "'b word" where u: "unat u = unat s + length ys" by (rule word_below[of "unat s + length ys" s']) (use y in auto)
    have "f x s = Some (Inr u)" using body[of u] y u by auto
    moreover have "fold_walk f xs u = Some (Inr s')" using IH[of u] y u by auto
    ultimately show "fold_walk f (x # xs) s = Some (Inr s')" by simp
  qed
qed

section \<open>The walk of an expiry chain\<close>

definition chain_amount :: "claim_map \<Rightarrow> u32 list \<Rightarrow> nat" where
  "chain_amount cl xs = (\<Sum>x\<leftarrow>xs. amount_at cl x)"

lemma chain_amount_simps [simp]:
  "chain_amount cl [] = 0" "chain_amount cl (x # xs) = amount_at cl x + chain_amount cl xs"
  by (simp_all add: chain_amount_def)

definition expiry_seg :: "ledger \<Rightarrow> account_idx \<Rightarrow> link \<Rightarrow> link \<Rightarrow> ts option \<Rightarrow> u32 list \<Rightarrow> link \<Rightarrow> bool" where
  "expiry_seg l a previous cursor was xs q \<longleftrightarrow> dseg (links l) previous cursor xs q NIL \<and> set xs \<subseteq> on_expiry (claims l) a \<and>
     sorted (map (expiry_at (claims l)) xs) \<and> (\<forall>e. was = Some e \<longrightarrow> xs \<noteq> [] \<longrightarrow> e \<le> expiry_at (claims l) (hd xs))"

lemma at_maps:
  assumes "reservation_at l i = Some r"
  shows "links l i = Some (neighbours r)" and "i \<in> on_expiry (claims l) a \<longleftrightarrow> res_account r = a \<and> (\<exists>e p n. res_links r = Reserved e p n)"
    and "i \<in> on_list (claims l) q \<longleftrightarrow> (\<exists>p n. res_links r = Committed q p n)"
    and "amount_at (claims l) i = unat (res_amount r)"
    and "res_links r = Reserved e p n \<Longrightarrow> expiry_at (claims l) i = e"
    and "i \<in> committed_of (claims l) a \<longleftrightarrow> res_account r = a \<and> (\<exists>q p n. res_links r = Committed q p n)"
proof -
  from assms obtain g where g: "slab_view (l_reservations l) i = Some (g, r)" by (auto simp: reservation_at_Some_iff)
  show "links l i = Some (neighbours r)" using g by (simp add: links_def)
  have k: "kind_of r = (case res_links r of Reserved e p n \<Rightarrow> OnExpiry e | Committed q p n \<Rightarrow> OnCommitted q)"
    by (simp add: kind_of_def split: claim_links.split)
  have c: "claims l i = Some (g, res_account r, res_amount r, res_owner_of r, kind_of r)"
    using g by (simp add: claims_def claim_of_def)
  show "i \<in> on_expiry (claims l) a \<longleftrightarrow> res_account r = a \<and> (\<exists>e p n. res_links r = Reserved e p n)"
    "i \<in> on_list (claims l) q \<longleftrightarrow> (\<exists>p n. res_links r = Committed q p n)"
    "i \<in> committed_of (claims l) a \<longleftrightarrow> res_account r = a \<and> (\<exists>q p n. res_links r = Committed q p n)"
    by (auto simp: member_defs c k split: claim_links.splits)
  show "amount_at (claims l) i = unat (res_amount r)" by (simp add: amount_at_def c)
  show "res_links r = Reserved e p n \<Longrightarrow> expiry_at (claims l) i = e" by (simp add: expiry_at_def c k)
qed

lemma at_vacant:
  assumes "reservation_at l i = None"
  shows "links l i = None"
  using assms by (auto simp: reservation_at_view links_def)

lemma sorted_Cons_hd: "sorted (map f (x # xs)) \<longleftrightarrow> sorted (map f xs) \<and> (xs \<noteq> [] \<longrightarrow> (f x :: 'a::linorder) \<le> f (hd xs))"
  by (cases xs) (auto intro: order_trans)

lemma expiry_seg_Nil [simp]: "expiry_seg l a p NIL was xs q \<longleftrightarrow> xs = [] \<and> q = p"
  by (cases xs) (auto simp: expiry_seg_def)

lemma expiry_seg_Cons:
  assumes "reservation_at l i = Some r" and "i \<noteq> NIL"
  shows "expiry_seg l a p i was xs q \<longleftrightarrow> (\<exists>e n ys. xs = i # ys \<and> res_links r = Reserved e p n \<and> res_account r = a \<and>
     (\<forall>w. was = Some w \<longrightarrow> w \<le> e) \<and> expiry_seg l a i n (Some e) ys q)"
proof (cases xs)
  case Nil
  with assms show ?thesis by (auto simp: expiry_seg_def)
next
  case (Cons x ys)
  show ?thesis
  proof (cases "res_links r")
    case (Reserved e p' n)
    note A = at_maps[OF assms(1)]
    have nb: "neighbours r = (p', n)" by (simp add: neighbours_def Reserved)
    show ?thesis unfolding Cons expiry_seg_def sorted_Cons_hd
      using A(1) A(2)[of a] A(5)[OF Reserved] Reserved nb assms(2) by auto
  next
    case (Committed q' p' n)
    then show ?thesis using at_maps(2)[OF assms(1), of a] by (auto simp: expiry_seg_def Cons)
  qed
qed

lemma expiry_walk_iff:
  assumes "slab_capacity (l_reservations l) < u_max"
  shows "expiry_walk l a acc p cursor was n \<noteq> None \<and>
    (expiry_walk l a acc p cursor was n = Some (Inr (acc', q, n')) \<longleftrightarrow>
      (\<exists>xs. expiry_seg l a p cursor was xs q \<and> unat acc' = unat acc + chain_amount (claims l) xs \<and>
         unat n' = unat n + length xs \<and> (xs = [] \<or> n' \<le> slab_capacity (l_reservations l))))"
proof (induction "Suc (unat (slab_capacity (l_reservations l))) - unat n" arbitrary: acc p cursor was n rule: less_induct)
  case less
  let ?cap = "slab_capacity (l_reservations l)"
  note step = expiry_walk.simps[of l a acc p cursor was n]
  show ?case
  proof (cases "cursor = NIL")
    case True
    then have w: "expiry_walk l a acc p cursor was n = Some (Inr (acc, p, n))" unfolding step by simp
    show ?thesis unfolding w unfolding True expiry_seg_Nil by (auto simp: word_unat_eq_iff)
  next
    case False
    then have idx: "link_index cursor = Some cursor" by simp
    show ?thesis
    proof (cases "reservation_at l cursor")
      case None
      have "\<not> expiry_seg l a p cursor was xs q" for xs
        using at_vacant[OF None] False by (cases xs) (auto simp: expiry_seg_def)
      moreover have "expiry_walk l a acc p cursor was n = Some (Inl (ChainLinksInconsistent a))" unfolding step idx option.case None ..
      ultimately show ?thesis by simp
    next
      case (Some r)
      note cons = expiry_seg_Cons[OF Some False]
      show ?thesis
      proof (cases "\<exists>e nx. res_links r = Reserved e p nx \<and> res_account r = a \<and> (\<forall>w. was = Some w \<longrightarrow> w \<le> e)")
        case no: False
        then have "\<not> expiry_seg l a p cursor was xs q" for xs using cons by blast
        moreover have "\<exists>v. expiry_walk l a acc p cursor was n = Some (Inl v)"
          unfolding step idx option.case Some using no by (auto split: claim_links.splits option.splits if_splits)
        ultimately show ?thesis by auto
      next
        case True
        then obtain e nx where r: "res_links r = Reserved e p nx" "res_account r = a" "\<forall>w. was = Some w \<longrightarrow> w \<le> e" by blast
        let ?n = "saturating_add n 1"
        have am: "amount_at (claims l) cursor = unat (res_amount r)" by (rule at_maps(4)[OF Some])
        have seg: "expiry_seg l a p cursor was xs q \<longleftrightarrow> (\<exists>ys. xs = cursor # ys \<and> expiry_seg l a cursor nx (Some e) ys q)" for xs
          using cons r by auto
        have go: "expiry_walk l a acc p cursor was n = (case amount_checked_add acc (res_amount r) of
              None \<Rightarrow> Some (Inl (ReservedTotalMismatch a))
            | Some acc2 \<Rightarrow> if ?cap < ?n then Some (Inl (ChainLinksInconsistent a))
               else expiry_walk l a acc2 cursor nx (Some e) ?n)"
          unfolding step idx option.case Some using r by (auto simp: Let_def not_le[symmetric] split: option.split)
        show ?thesis
        proof (cases "amount_checked_add acc (res_amount r)")
          case None
          then have "2 ^ 64 \<le> unat acc + unat (res_amount r)" by (simp add: amount_checked_add_def checked_add_None_iff)
          then have no: "unat acc' \<noteq> unat acc + chain_amount (claims l) (cursor # ys)" for ys
            using unat_lt_size[of acc'] am by simp
          have "(\<exists>xs. expiry_seg l a p cursor was xs q \<and> unat acc' = unat acc + chain_amount (claims l) xs \<and>
             unat n' = unat n + length xs \<and> (xs = [] \<or> n' \<le> ?cap)) = False"
            unfolding seg using no by blast
          then show ?thesis unfolding go None option.case by blast
        next
          case acc2: (Some acc2)
          then have a2: "unat acc2 = unat acc + unat (res_amount r)" by (simp add: amount_checked_add_def checked_add_Some_iff)
          show ?thesis
          proof (cases "?cap < ?n")
            case True
            have no: "\<not> (unat n' = unat n + length (cursor # ys) \<and> n' \<le> ?cap)" for ys
            proof
              assume n': "unat n' = unat n + length (cursor # ys) \<and> n' \<le> ?cap"
              then have "unat n + 1 \<le> unat n'" by simp
              then have "unat ?n \<le> unat n'" by (simp add: unat_saturating_add)
              with n' True show False by (simp add: word_le_nat_alt word_less_nat_alt)
            qed
            have "(\<exists>xs. expiry_seg l a p cursor was xs q \<and> unat acc' = unat acc + chain_amount (claims l) xs \<and>
               unat n' = unat n + length xs \<and> (xs = [] \<or> n' \<le> ?cap)) = False"
              unfolding seg using no by blast
            with True show ?thesis unfolding go acc2 option.case by simp
          next
            case within: False
            then have "?n < u_max" using assms by (auto simp: not_less)
            then have n1: "unat ?n = unat n + 1"
              by (auto simp: unat_saturating_add word_less_nat_alt unat_u_max min_def split: if_splits)
            have dec: "Suc (unat ?cap) - unat ?n < Suc (unat ?cap) - unat n"
              using within n1 by (simp add: word_less_nat_alt)
            have le: "(ys = [] \<or> n' \<le> ?cap) = (n' \<le> ?cap)" if "unat n' = Suc (unat n + length ys)" for ys :: "u32 list"
              using within that n1 by (cases ys) (auto simp: word_le_nat_alt word_less_nat_alt not_less)
            note IH = less[OF dec, of acc2 cursor nx "Some e"]
            have "(\<exists>ys. expiry_seg l a cursor nx (Some e) ys q \<and> unat acc' = unat acc2 + chain_amount (claims l) ys \<and>
                unat n' = unat ?n + length ys \<and> (ys = [] \<or> n' \<le> ?cap)) \<longleftrightarrow>
              (\<exists>xs. expiry_seg l a p cursor was xs q \<and> unat acc' = unat acc + chain_amount (claims l) xs \<and>
                unat n' = unat n + length xs \<and> (xs = [] \<or> n' \<le> ?cap))"
              unfolding seg by (auto simp: n1 a2 am le cong: conj_cong)
            with IH show ?thesis unfolding go acc2 using within by simp
          qed
        qed
      qed
    qed
  qed
qed

section \<open>The walks of a committed list\<close>

definition committed_seg :: "ledger \<Rightarrow> req_idx \<Rightarrow> link \<Rightarrow> link \<Rightarrow> u32 list \<Rightarrow> bool" where
  "committed_seg l q p cursor xs \<longleftrightarrow> (\<exists>t. dseg (links l) p cursor xs t NIL) \<and> set xs \<subseteq> on_list (claims l) q"

lemma committed_seg_Nil [simp]: "committed_seg l q p NIL xs \<longleftrightarrow> xs = []"
  by (cases xs) (auto simp: committed_seg_def)

lemma committed_seg_Cons:
  assumes "reservation_at l i = Some r" and "i \<noteq> NIL"
  shows "committed_seg l q p i xs \<longleftrightarrow> (\<exists>n ys. xs = i # ys \<and> res_links r = Committed q p n \<and> committed_seg l q i n ys)"
proof (cases xs)
  case Nil
  with assms show ?thesis by (auto simp: committed_seg_def)
next
  case (Cons x ys)
  note A = at_maps[OF assms(1)]
  show ?thesis using A(1) A(3)[of q] assms(2) unfolding Cons
    by (cases "res_links r") (auto simp: committed_seg_def neighbours_def)
qed

lemma committed_seg_vacant:
  assumes "reservation_at l i = None" and "i \<noteq> NIL"
  shows "\<not> committed_seg l q p i xs"
  using at_vacant[OF assms(1)] assms(2) by (cases xs) (auto simp: committed_seg_def)

lemma committed_walk_iff:
  assumes "slab_capacity (l_reservations l) < u_max"
  shows "committed_walk l q p cursor n \<noteq> None \<and>
    (committed_walk l q p cursor n = Some (Inr n') \<longleftrightarrow>
      (\<exists>xs. committed_seg l q p cursor xs \<and> unat n' = unat n + length xs \<and> (xs = [] \<or> n' \<le> slab_capacity (l_reservations l))))"
proof (induction "Suc (unat (slab_capacity (l_reservations l))) - unat n" arbitrary: p cursor n rule: less_induct)
  case less
  let ?cap = "slab_capacity (l_reservations l)" and ?n = "saturating_add n 1"
  note step = committed_walk.simps[of l q p cursor n]
  show ?case
  proof (cases "cursor = NIL")
    case True
    then have w: "committed_walk l q p cursor n = Some (Inr n)" unfolding step by simp
    show ?thesis unfolding w unfolding True committed_seg_Nil by (auto simp: word_unat_eq_iff)
  next
    case False
    then have idx: "link_index cursor = Some cursor" by simp
    show ?thesis
    proof (cases "reservation_at l cursor")
      case None
      have "committed_walk l q p cursor n = Some (Inl (ClaimOnForeignCommittedList q))" unfolding step idx option.case None ..
      with committed_seg_vacant[OF None False] show ?thesis by simp
    next
      case (Some r)
      note cons = committed_seg_Cons[OF Some False]
      show ?thesis
      proof (cases "\<exists>nx. res_links r = Committed q p nx")
        case no: False
        then have "\<not> committed_seg l q p cursor xs" for xs using cons by blast
        moreover have "\<exists>v. committed_walk l q p cursor n = Some (Inl v)"
          unfolding step idx option.case Some using no by (auto split: claim_links.splits if_splits)
        ultimately show ?thesis by auto
      next
        case True
        then obtain nx where r: "res_links r = Committed q p nx" by blast
        have seg: "committed_seg l q p cursor xs \<longleftrightarrow> (\<exists>ys. xs = cursor # ys \<and> committed_seg l q cursor nx ys)" for xs
          using cons r by auto
        have go: "committed_walk l q p cursor n = (if ?cap < ?n then Some (Inl (ClaimOnForeignCommittedList q))
            else committed_walk l q cursor nx ?n)"
          unfolding step idx option.case Some using r by (simp add: Let_def)
        show ?thesis
        proof (cases "?cap < ?n")
          case True
          have no: "\<not> (unat n' = unat n + length (cursor # ys) \<and> n' \<le> ?cap)" for ys
          proof
            assume n': "unat n' = unat n + length (cursor # ys) \<and> n' \<le> ?cap"
            then have "unat ?n \<le> unat n'" by (simp add: unat_saturating_add)
            with n' True show False by (simp add: word_le_nat_alt word_less_nat_alt)
          qed
          have "(\<exists>xs. committed_seg l q p cursor xs \<and> unat n' = unat n + length xs \<and> (xs = [] \<or> n' \<le> ?cap)) = False"
            unfolding seg using no by blast
          with True show ?thesis unfolding go by simp
        next
          case within: False
          then have "?n < u_max" using assms by (auto simp: not_less)
          then have n1: "unat ?n = unat n + 1"
            by (auto simp: unat_saturating_add word_less_nat_alt unat_u_max min_def split: if_splits)
          have dec: "Suc (unat ?cap) - unat ?n < Suc (unat ?cap) - unat n" using within n1 by (simp add: word_less_nat_alt)
          have le: "(ys = [] \<or> n' \<le> ?cap) = (n' \<le> ?cap)" if "unat n' = Suc (unat n + length ys)" for ys :: "u32 list"
            using within that n1 by (cases ys) (auto simp: word_le_nat_alt word_less_nat_alt not_less)
          have "(\<exists>ys. committed_seg l q cursor nx ys \<and> unat n' = unat ?n + length ys \<and> (ys = [] \<or> n' \<le> ?cap)) \<longleftrightarrow>
            (\<exists>xs. committed_seg l q p cursor xs \<and> unat n' = unat n + length xs \<and> (xs = [] \<or> n' \<le> ?cap))"
            unfolding seg by (auto simp: n1 le cong: conj_cong)
          with less[OF dec, of cursor nx] show ?thesis unfolding go using within by simp
        qed
      qed
    qed
  qed
qed

definition due_amount :: "claim_map \<Rightarrow> account_idx \<Rightarrow> u32 list \<Rightarrow> nat" where
  "due_amount cl a xs = (\<Sum>x\<leftarrow>xs. if x \<in> committed_of cl a then amount_at cl x else 0)"

lemma due_amount_simps [simp]:
  "due_amount cl a [] = 0"
  "due_amount cl a (x # xs) = (if x \<in> committed_of cl a then amount_at cl x else 0) + due_amount cl a xs"
  "due_amount cl a (xs @ ys) = due_amount cl a xs + due_amount cl a ys"
  by (simp_all add: due_amount_def)

lemma total_walk_iff:
  assumes "committed_seg l q p cursor xs"
  shows "total_walk l a cursor acc \<noteq> None \<and>
    (total_walk l a cursor acc = Some (Inr acc') \<longleftrightarrow> unat acc' = unat acc + due_amount (claims l) a xs)"
  using assms
proof (induction xs arbitrary: p cursor acc)
  case Nil
  then have c: "cursor = NIL" by (auto simp: committed_seg_def)
  then have "total_walk l a cursor acc = Some (Inr acc)" by (subst total_walk.simps) simp
  then show ?case by (auto simp: word_unat_eq_iff)
next
  case (Cons x xs)
  then have x: "cursor = x" "x \<noteq> NIL" by (auto simp: committed_seg_def)
  then obtain r where r: "reservation_at l x = Some r" using Cons.prems committed_seg_vacant[of l x] by fastforce
  from Cons.prems[unfolded x(1), unfolded committed_seg_Cons[OF r x(2)]] obtain n where
    n: "res_links r = Committed q p n" "committed_seg l q x n xs" by auto
  have idx: "link_index x = Some x" using x(2) by simp
  have nb: "snd (neighbours r) = n" using n(1) by (simp add: neighbours_def)
  have mem: "x \<in> committed_of (claims l) a \<longleftrightarrow> res_account r = a" and am: "amount_at (claims l) x = unat (res_amount r)"
    using at_maps(4,6)[OF r] n(1) by auto
  have go: "total_walk l a cursor acc = (case (if res_account r = a then amount_checked_add acc (res_amount r) else Some acc) of
      None \<Rightarrow> Some (Inl (CommittedTotalMismatch a)) | Some acc2 \<Rightarrow> total_walk l a n acc2)"
    unfolding x(1) total_walk.simps[of l a x acc] idx option.case r nb ..
  note IH = Cons.IH[OF n(2)]
  show ?case
  proof (cases "res_account r = a")
    case False
    then show ?thesis using IH[of acc] unfolding go by (simp add: mem)
  next
    case True
    show ?thesis
    proof (cases "amount_checked_add acc (res_amount r)")
      case None
      then have "2 ^ 64 \<le> unat acc + unat (res_amount r)" by (simp add: amount_checked_add_def checked_add_None_iff)
      with unat_lt_size[of acc'] None True show ?thesis unfolding go by (simp add: mem am)
    next
      case (Some acc2)
      then have "unat acc2 = unat acc + unat (res_amount r)" by (simp add: amount_checked_add_def checked_add_Some_iff)
      with Some True IH[of acc2] show ?thesis unfolding go by (simp add: mem am add.assoc)
    qed
  qed
qed

section \<open>The structural check\<close>

lemma all2_choice: "(\<exists>ys. list_all2 P xs ys) \<longleftrightarrow> (\<forall>x\<in>set xs. \<exists>y. P x y)"
proof
  assume "\<forall>x\<in>set xs. \<exists>y. P x y"
  then show "\<exists>ys. list_all2 P xs ys"
  proof (induction xs)
    case (Cons x xs)
    then obtain y ys where "P x y" "list_all2 P xs ys" by auto
    then show ?case by (intro exI[of _ "y # ys"]) simp
  qed (use list_all2_Nil in blast)
next
  assume "\<exists>ys. list_all2 P xs ys"
  then obtain ys where "list_all2 P xs ys" ..
  then show "\<forall>x\<in>set xs. \<exists>y. P x y" by (induction rule: list_all2_induct) auto
qed

lemma distinct_concat_all2:
  assumes "list_all2 P ks xss" and "distinct (map f ks)" and "\<And>k xs. P k xs \<Longrightarrow> distinct xs \<and> set xs \<subseteq> S (f k)"
    and "\<And>a b. a \<noteq> b \<Longrightarrow> S a \<inter> S b = {}"
  shows "distinct (concat xss)" and "set (concat xss) \<subseteq> (\<Union>k\<in>set ks. S (f k))"
proof -
  have "distinct (concat xss) \<and> set (concat xss) \<subseteq> (\<Union>k\<in>set ks. S (f k))" using assms(1,2)
  proof (induction rule: list_all2_induct)
    case (Cons k ks xs xss)
    have "set xs \<inter> set (concat xss) = {}"
    proof -
      have "S (f k) \<inter> (\<Union>k\<in>set ks. S (f k)) = {}" using assms(4) Cons.prems by fastforce
      with assms(3)[OF Cons.hyps(1)] Cons show ?thesis by fastforce
    qed
    with assms(3)[OF Cons.hyps(1)] Cons show ?case by auto
  qed simp
  then show "distinct (concat xss)" "set (concat xss) \<subseteq> (\<Union>k\<in>set ks. S (f k))" by blast+
qed

lemma in_concat_all2: "list_all2 P ks xss \<Longrightarrow> i \<in> set (concat xss) \<Longrightarrow> \<exists>k\<in>set ks. \<exists>xs. P k xs \<and> i \<in> set xs"
  by (induction rule: list_all2_induct) auto

lemma all2_in_concat: "list_all2 P ks xss \<Longrightarrow> k \<in> set ks \<Longrightarrow> \<exists>xs. P k xs \<and> set xs \<subseteq> set (concat xss)"
  by (induction rule: list_all2_induct) auto

lemma accounts_enumerated:
  assumes "length (l_accounts l) < 2 ^ 32"
  shows "(\<forall>x\<in>set (enumerate 0 (l_accounts l)). P (index_of (fst x)) (snd x)) \<longleftrightarrow> (\<forall>a entry. account l a = Some entry \<longrightarrow> P a entry)"
    and "distinct (map (\<lambda>x. index_of (fst x)) (enumerate 0 (l_accounts l)))"
proof -
  have idx: "unat (index_of k) = k" if "k < length (l_accounts l)" for k
    using that assms by (simp add: index_of_def unat_word_of_nat)
  then have inv: "index_of (unat a) = a" if "unat a < length (l_accounts l)" for a using that by (simp add: word_unat_eq_iff)
  show "(\<forall>x\<in>set (enumerate 0 (l_accounts l)). P (index_of (fst x)) (snd x)) \<longleftrightarrow> (\<forall>a entry. account l a = Some entry \<longrightarrow> P a entry)"
  proof safe
    fix a entry assume P: "\<forall>x\<in>set (enumerate 0 (l_accounts l)). P (index_of (fst x)) (snd x)" and "account l a = Some entry"
    then have a: "unat a < length (l_accounts l)" "l_accounts l ! unat a = entry" by (auto simp: account_def get_idx_Some_iff)
    then have "(unat a, entry) \<in> set (enumerate 0 (l_accounts l))" by (simp add: in_set_enumerate_eq)
    with P inv[OF a(1)] show "P a entry" by fastforce
  next
    fix k entry assume P: "\<forall>a entry. account l a = Some entry \<longrightarrow> P a entry" and "(k, entry) \<in> set (enumerate 0 (l_accounts l))"
    then have "k < length (l_accounts l)" "l_accounts l ! k = entry" by (auto simp: in_set_enumerate_eq)
    with idx[of k] P[rule_format, of "index_of k" entry] show "P (index_of (fst (k, entry))) (snd (k, entry))" by (simp add: account_def get_idx_Some_iff)
  qed
  have "inj_on (\<lambda>x. index_of (fst x)) (set (enumerate 0 (l_accounts l)))"
  proof (rule inj_onI)
    fix x y assume xy: "x \<in> set (enumerate 0 (l_accounts l))" "y \<in> set (enumerate 0 (l_accounts l))" "index_of (fst x) = index_of (fst y)"
    then have "fst x < length (l_accounts l)" "fst y < length (l_accounts l)" by (simp_all add: in_set_enumerate_eq)
    from idx[OF this(1)] idx[OF this(2)] xy(3) have "fst x = fst y" by metis
    moreover have "snd x = l_accounts l ! fst x" "snd y = l_accounts l ! fst y" using xy(1,2) by (simp_all add: in_set_enumerate_eq)
    ultimately show "x = y" by (metis prod.collapse)
  qed
  then show "distinct (map (\<lambda>x. index_of (fst x)) (enumerate 0 (l_accounts l)))" by (simp add: distinct_map)
qed

definition expiry_checked :: "ledger \<Rightarrow> nat \<times> mirrored_balance \<Rightarrow> u32 list \<Rightarrow> bool" where
  "expiry_checked l x xs \<longleftrightarrow> expiry_seg l (index_of (fst x)) NIL (expiry_head (snd x)) None xs (expiry_tail (snd x)) \<and>
     chain_amount (claims l) xs = unat (mb_reserved (snd x))"

definition list_checked :: "ledger \<Rightarrow> req_idx \<times> request \<Rightarrow> u32 list \<Rightarrow> bool" where
  "list_checked l x xs \<longleftrightarrow> committed_seg l (fst x) NIL (rq_committed_head (snd x)) xs"

lemma expiry_checked_members: "expiry_checked l x xs \<Longrightarrow> distinct xs \<and> set xs \<subseteq> on_expiry (claims l) (index_of (fst x))"
  by (auto simp: expiry_checked_def expiry_seg_def intro: dll_distinct)

lemma list_checked_members: "list_checked l x xs \<Longrightarrow> distinct xs \<and> set xs \<subseteq> on_list (claims l) (fst x)"
  by (auto simp: list_checked_def committed_seg_def intro: dll_distinct)

lemma check_expiry_chains_iff:
  assumes cap: "slab_capacity (l_reservations l) < u_max"
  shows "check_expiry_chains l \<noteq> None"
    and "check_expiry_chains l = Some (Inr n) \<longleftrightarrow>
      (\<exists>xss. list_all2 (expiry_checked l) (enumerate 0 (l_accounts l)) xss \<and> unat n = length (concat xss) \<and>
         n \<le> slab_capacity (l_reservations l))"
proof -
  note W = expiry_walk_iff[OF cap]
  have one: "check_expiry_chain l x s = Some (Inr s') \<longleftrightarrow>
      (\<exists>xs. expiry_checked l x xs \<and> unat s' = unat s + length xs \<and> (xs = [] \<or> unat s' \<le> unat (slab_capacity (l_reservations l))))" for x s s'
    using W[of "index_of (fst x)" 0 NIL "expiry_head (snd x)" None s "mb_reserved (snd x)" "expiry_tail (snd x)" s']
    by (auto simp: check_expiry_chain_def Let_def walk_then_Inr_iff expiry_checked_def word_le_nat_alt split: prod.splits if_splits)
  have "check_expiry_chain l x s \<noteq> None" for x s
    unfolding check_expiry_chain_def Let_def
    by (rule walk_then_returns) (use W in \<open>auto split: prod.splits\<close>)
  then show "check_expiry_chains l \<noteq> None" unfolding check_expiry_chains_def by (intro fold_walk_returns)
  show "check_expiry_chains l = Some (Inr n) \<longleftrightarrow>
      (\<exists>xss. list_all2 (expiry_checked l) (enumerate 0 (l_accounts l)) xss \<and> unat n = length (concat xss) \<and>
         n \<le> slab_capacity (l_reservations l))"
    unfolding check_expiry_chains_def
    using fold_walk_counts[where P = "expiry_checked l" and cap = "unat (slab_capacity (l_reservations l))" and xs = "enumerate 0 (l_accounts l)" and s = 0 and s' = n, OF one]
    by (simp add: word_le_nat_alt)
qed

lemma check_committed_lists_iff:
  assumes cap: "slab_capacity (l_reservations l) < u_max"
  shows "check_committed_lists l \<noteq> None"
    and "check_committed_lists l = Some (Inr n) \<longleftrightarrow>
      (\<exists>yss. list_all2 (list_checked l) (slab_iter (l_requests l)) yss \<and> unat n = length (concat yss) \<and>
         n \<le> slab_capacity (l_reservations l))"
proof -
  note W = committed_walk_iff[OF cap]
  let ?f = "\<lambda>(q, record). committed_walk l q NIL (rq_committed_head record)"
  have one: "?f x s = Some (Inr s') \<longleftrightarrow>
      (\<exists>xs. list_checked l x xs \<and> unat s' = unat s + length xs \<and> (xs = [] \<or> unat s' \<le> unat (slab_capacity (l_reservations l))))" for x s s'
    using W[of "fst x" NIL "rq_committed_head (snd x)" s s'] by (simp add: list_checked_def word_le_nat_alt split_beta)
  have "?f x s \<noteq> None" for x s using W by (simp add: split_beta)
  then show "check_committed_lists l \<noteq> None" unfolding check_committed_lists_def by (intro fold_walk_returns)
  show "check_committed_lists l = Some (Inr n) \<longleftrightarrow>
      (\<exists>yss. list_all2 (list_checked l) (slab_iter (l_requests l)) yss \<and> unat n = length (concat yss) \<and>
         n \<le> slab_capacity (l_reservations l))"
    unfolding check_committed_lists_def
    using fold_walk_counts[where P = "list_checked l" and cap = "unat (slab_capacity (l_reservations l))" and xs = "slab_iter (l_requests l)" and s = 0 and s' = n, OF one]
    by (simp add: word_le_nat_alt)
qed

lemma len64: "LENGTH(64) = 64"
  by simp

lemma fold_total_iff:
  assumes "list_all2 (list_checked l) rs yss"
  shows "fold_walk (\<lambda>(q, record). total_walk l a (rq_committed_head record)) rs acc \<noteq> None \<and>
    (fold_walk (\<lambda>(q, record). total_walk l a (rq_committed_head record)) rs acc = Some (Inr acc') \<longleftrightarrow>
       unat acc' = unat acc + due_amount (claims l) a (concat yss))"
  using assms
proof (induction arbitrary: acc rule: list_all2_induct)
  case Nil
  then show ?case by (auto simp: word_unat_eq_iff)
next
  case (Cons x rs ys yss)
  obtain q rec where x: "x = (q, rec)" by (cases x)
  let ?w = "total_walk l a (rq_committed_head rec) acc"
  have one: "?w \<noteq> None" "?w = Some (Inr u) \<longleftrightarrow> unat u = unat acc + due_amount (claims l) a ys" for u
    using total_walk_iff[of l q NIL "rq_committed_head rec" ys a acc u] Cons.hyps(1) by (auto simp: list_checked_def x)
  show ?case
  proof (cases "\<exists>u :: amount. unat u = unat acc + due_amount (claims l) a ys")
    case True
    then obtain u :: amount where u: "unat u = unat acc + due_amount (claims l) a ys" by blast
    with one have "?w = Some (Inr u)" by blast
    with Cons.IH[of u] u show ?thesis by (simp add: x add.assoc)
  next
    case False
    have big: "2 ^ 64 \<le> unat acc + due_amount (claims l) a ys"
    proof (rule ccontr)
      assume "\<not> ?thesis"
      then obtain u :: amount where "unat u = unat acc + due_amount (claims l) a ys"
        by (metis word_with_unat[where 'a = 64, of "unat acc + due_amount (claims l) a ys"] not_less len64)
      with False show False by blast
    qed
    from False one obtain e where "?w = Some (Inl e)" by (cases ?w) (auto split: sum.splits, metis old.sum.exhaust)
    moreover have "unat acc' \<noteq> unat acc + due_amount (claims l) a (ys @ concat yss)" using big unat_lt_size[of acc'] by simp
    ultimately show ?thesis by (simp add: x)
  qed
qed

lemma check_committed_totals_iff:
  assumes lists: "list_all2 (list_checked l) (slab_iter (l_requests l)) yss" and len: "length (l_accounts l) < 2 ^ 32"
  shows "check_committed_totals l \<noteq> None"
    and "check_committed_totals l = Some (Inr ()) \<longleftrightarrow>
      (\<forall>a entry. account l a = Some entry \<longrightarrow> unat (mb_committed entry) = due_amount (claims l) a (concat yss))"
proof -
  note T = fold_total_iff[OF lists]
  have one: "check_committed_total l x u = Some (Inr ()) \<longleftrightarrow>
      unat (mb_committed (snd x)) = due_amount (claims l) (index_of (fst x)) (concat yss)" for x u
    using T[of "index_of (fst x)" 0 "mb_committed (snd x)"]
    by (auto simp: check_committed_total_def Let_def walk_then_Inr_iff split: if_splits)
  have ret: "check_committed_total l x u \<noteq> None" for x u
    unfolding check_committed_total_def Let_def by (rule walk_then_returns) (use T in auto)
  then show "check_committed_totals l \<noteq> None" unfolding check_committed_totals_def by (intro fold_walk_returns)
  have "fold_walk (check_committed_total l) xs () = Some (Inr ()) \<longleftrightarrow>
      (\<forall>x\<in>set xs. unat (mb_committed (snd x)) = due_amount (claims l) (index_of (fst x)) (concat yss))" for xs
    by (induction xs) (auto simp: walk_then_Inr_iff one)
  then show "check_committed_totals l = Some (Inr ()) \<longleftrightarrow>
      (\<forall>a entry. account l a = Some entry \<longrightarrow> unat (mb_committed entry) = due_amount (claims l) a (concat yss))"
    unfolding check_committed_totals_def
    by (simp add: accounts_enumerated(1)[OF len, of "\<lambda>a entry. unat (mb_committed entry) = due_amount (claims l) a (concat yss)"])
qed

lemma fold_res_all:
  assumes "\<And>x. x \<in> set xs \<Longrightarrow> f x () = Inr () \<longleftrightarrow> P x"
  shows "fold_res f xs () = Inr () \<longleftrightarrow> (\<forall>x\<in>set xs. P x)"
  using assms by (induction xs) (auto simp: and_then_Inr_iff)

lemma check_owners_iff:
  assumes wf: "slabs_wf l"
  shows "check_owners l = Inr () \<longleftrightarrow> owners_ok (claims l) (owner_claim l)"
proof -
  have it: "set (slab_iter (l_reservations l)) = {(h, r). reservation l h = Some r}"
    "set (slab_iter (l_quotes l)) = {(h, q). quote l h = Some q}" "set (slab_iter (l_requests l)) = {(h, r). request l h = Some r}"
    using wf by (simp_all add: set_slab_iter slabs_wf_def reservation_def quote_def request_def)
  have held: "check_owned_claim l ow held = Inr () \<longleftrightarrow> (\<forall>c. held = Some c \<longrightarrow> (\<exists>r. reservation l c = Some r \<and> res_owner_of r = ow))" for ow held
    by (auto simp: check_owned_claim_def split: option.splits)
  have "check_owners l = Inr () \<longleftrightarrow>
      (\<forall>h r. reservation l h = Some r \<longrightarrow> owner_claim l (res_owner_of r) = Some (Some h)) \<and>
      (\<forall>h q c. quote l h = Some q \<longrightarrow> q_claim q = Some c \<longrightarrow> (\<exists>r. reservation l c = Some r \<and> res_owner_of r = OwnerQuote h)) \<and>
      (\<forall>h q c. request l h = Some q \<longrightarrow> rq_claim q = Some c \<longrightarrow> (\<exists>r. reservation l c = Some r \<and> res_owner_of r = OwnerRequest h))"
  proof -
    have 1: "fold_res (check_claim_owner l) (slab_iter (l_reservations l)) () = Inr () \<longleftrightarrow>
        (\<forall>x\<in>set (slab_iter (l_reservations l)). owner_claim l (res_owner_of (snd x)) = Some (Some (fst x)))"
      by (rule fold_res_all) (auto simp: check_claim_owner_def split: option.splits)
    have 2: "fold_res (\<lambda>(h, q) _. check_owned_claim l (OwnerQuote h) (q_claim q)) (slab_iter (l_quotes l)) () = Inr () \<longleftrightarrow>
        (\<forall>x\<in>set (slab_iter (l_quotes l)). \<forall>c. q_claim (snd x) = Some c \<longrightarrow> (\<exists>r. reservation l c = Some r \<and> res_owner_of r = OwnerQuote (fst x)))"
      by (rule fold_res_all) (auto simp: held)
    have 3: "fold_res (\<lambda>(h, q) _. check_owned_claim l (OwnerRequest h) (rq_claim q)) (slab_iter (l_requests l)) () = Inr () \<longleftrightarrow>
        (\<forall>x\<in>set (slab_iter (l_requests l)). \<forall>c. rq_claim (snd x) = Some c \<longrightarrow> (\<exists>r. reservation l c = Some r \<and> res_owner_of r = OwnerRequest (fst x)))"
      by (rule fold_res_all) (auto simp: held)
    show ?thesis unfolding check_owners_def by (simp add: and_then_Inr_iff 1 2 3) (auto simp: it)
  qed
  also have "\<dots> \<longleftrightarrow> (\<forall>h r. reservation l h = Some r \<longrightarrow> owner_claim l (res_owner_of r) = Some (Some h)) \<and>
      (\<forall>ow c. owner_claim l ow = Some (Some c) \<longrightarrow> (\<exists>r. reservation l c = Some r \<and> res_owner_of r = ow))"
    by (auto simp: owner_claim_def split: res_owner.splits)
  also have "\<dots> \<longleftrightarrow> owners_ok (claims l) (owner_claim l)"
  proof -
    have "(\<exists>a m k. claims l (h_index h) = Some (h_generation h, a, m, ow, k)) \<longleftrightarrow> (\<exists>r. reservation l h = Some r \<and> res_owner_of r = ow)" for h ow
      by (auto simp: claims_Some_iff reservation_Some_iff)
    then show ?thesis unfolding owners_ok_def by auto
  qed
  finally show ?thesis .
qed

text \<open>What the structural check accepts, over the chains it walks.\<close>

definition accepted_chains :: "ledger \<Rightarrow> u32 list list \<Rightarrow> u32 list list \<Rightarrow> bool" where
  "accepted_chains l xss yss \<longleftrightarrow> list_all2 (expiry_checked l) (enumerate 0 (l_accounts l)) xss \<and>
     list_all2 (list_checked l) (slab_iter (l_requests l)) yss \<and>
     (\<forall>a entry. account l a = Some entry \<longrightarrow> unat (mb_committed entry) = due_amount (claims l) a (concat yss)) \<and>
     set (concat xss) \<union> set (concat yss) = dom (claims l)"

lemma chains_distinct:
  assumes wf: "slabs_wf l" and E: "list_all2 (expiry_checked l) (enumerate 0 (l_accounts l)) xss"
    and C: "list_all2 (list_checked l) (slab_iter (l_requests l)) yss"
  shows "distinct (concat xss @ concat yss)" and "set (concat xss) \<subseteq> (\<Union>a. on_expiry (claims l) a)"
    and "set (concat yss) \<subseteq> (\<Union>q. on_list (claims l) q)"
proof -
  have len: "length (l_accounts l) < 2 ^ 32" using wf by (simp add: slabs_wf_def)
  note A = distinct_concat_all2[where S = "on_expiry (claims l)", OF E accounts_enumerated(2)[OF len] expiry_checked_members members_disjoint(1)]
  note B = distinct_concat_all2[where S = "on_list (claims l)", OF C distinct_slab_iter list_checked_members members_disjoint(3)]
  show xs: "set (concat xss) \<subseteq> (\<Union>a. on_expiry (claims l) a)" using A(2) by blast
  show ys: "set (concat yss) \<subseteq> (\<Union>q. on_list (claims l) q)" using B(2) by blast
  have "set (concat xss) \<inter> set (concat yss) = {}" using xs ys members_disjoint(2)[of "claims l"] by blast
  then show "distinct (concat xss @ concat yss)" using A(1) B(1) by simp
qed

lemma structural_iff:
  assumes wf: "slabs_wf l" and cap: "slab_capacity (l_reservations l) < u_max"
  shows "check_structural_invariants l \<noteq> None"
    and "check_structural_invariants l = Some (Inr ()) \<longleftrightarrow>
      (\<exists>xss yss. accepted_chains l xss yss) \<and> owners_ok (claims l) (owner_claim l)"
proof -
  let ?R = "l_reservations l"
  have len: "length (l_accounts l) < 2 ^ 32" and slots: "length (slots ?R) < 2 ^ 32" and live: "unat (slab_len ?R) = card (dom (claims l))"
    using wf by (auto simp: slabs_wf_def slab_wf_def slab_len_def dom_def claims_def)
  have room: "card (dom (claims l)) \<le> unat (slab_capacity ?R)"
    using occupied_card[of ?R] slots by (simp add: dom_def claims_def slab_capacity_def unat_word_of_nat)
  note E = check_expiry_chains_iff[OF cap] and C = check_committed_lists_iff[OF cap]
  have sum: "length (concat xss) + length (concat yss) = card (set (concat xss) \<union> set (concat yss))"
    "set (concat xss) \<union> set (concat yss) \<subseteq> dom (claims l)"
    if "list_all2 (expiry_checked l) (enumerate 0 (l_accounts l)) xss" "list_all2 (list_checked l) (slab_iter (l_requests l)) yss" for xss yss
  proof -
    note D = chains_distinct[OF wf that]
    from distinct_card[OF D(1)] show "length (concat xss) + length (concat yss) = card (set (concat xss) \<union> set (concat yss))" by simp
    show "set (concat xss) \<union> set (concat yss) \<subseteq> dom (claims l)" using D(2,3) by (auto simp: member_defs)
  qed
  show "check_structural_invariants l \<noteq> None" unfolding check_structural_invariants_def
  proof (intro walk_then_returns)
    show "check_expiry_chains l \<noteq> None" by (rule E(1))
    show "check_committed_lists l \<noteq> None" by (rule C(1))
    show "check_committed_totals l \<noteq> None" if "check_committed_lists l = Some (Inr m)" for m
      using that C(2) check_committed_totals_iff(1)[OF _ len] by blast
  qed (auto simp: Let_def)
  show "check_structural_invariants l = Some (Inr ()) \<longleftrightarrow>
      (\<exists>xss yss. accepted_chains l xss yss) \<and> owners_ok (claims l) (owner_claim l)"
  proof
    assume "check_structural_invariants l = Some (Inr ())"
    then obtain n m where n: "check_expiry_chains l = Some (Inr n)" and m: "check_committed_lists l = Some (Inr m)"
      and T: "check_committed_totals l = Some (Inr ())" and all: "saturating_add (saturating_add 0 n) m = slab_len ?R" and O: "check_owners l = Inr ()"
      by (auto simp: check_structural_invariants_def walk_then_Inr_iff Let_def split: if_splits)
    from n E(2) obtain xss where xss: "list_all2 (expiry_checked l) (enumerate 0 (l_accounts l)) xss" "unat n = length (concat xss)" by blast
    from m C(2) obtain yss where yss: "list_all2 (list_checked l) (slab_iter (l_requests l)) yss" "unat m = length (concat yss)" by blast
    note S = sum[OF xss(1) yss(1)]
    have "card (set (concat xss) \<union> set (concat yss)) \<le> card (dom (claims l))" by (rule card_mono[OF _ S(2)]) simp
    then have "unat n + unat m \<le> unat (slab_len ?R)" using S(1) xss(2) yss(2) live by simp
    moreover have "unat (slab_len ?R) = min (unat n + unat m) (2 ^ 32 - 1)"
      using arg_cong[OF all, of unat] unat_le_u_max[of n] by (simp add: unat_saturating_add)
    moreover have "unat (slab_len ?R) \<le> 2 ^ 32 - 1" using unat_le_u_max[of "slab_len ?R"] by simp
    ultimately have "card (set (concat xss) \<union> set (concat yss)) = card (dom (claims l))"
      using S(1) xss(2) yss(2) live by linarith
    then have "set (concat xss) \<union> set (concat yss) = dom (claims l)" by (intro card_subset_eq S(2)) simp_all
    with T xss(1) yss(1) show "(\<exists>xss yss. accepted_chains l xss yss) \<and> owners_ok (claims l) (owner_claim l)"
      using O check_owners_iff[OF wf] check_committed_totals_iff(2)[OF yss(1) len] unfolding accepted_chains_def by blast
  next
    assume "(\<exists>xss yss. accepted_chains l xss yss) \<and> owners_ok (claims l) (owner_claim l)"
    then obtain xss yss where ok: "list_all2 (expiry_checked l) (enumerate 0 (l_accounts l)) xss"
      "list_all2 (list_checked l) (slab_iter (l_requests l)) yss" "check_committed_totals l = Some (Inr ())"
      "set (concat xss) \<union> set (concat yss) = dom (claims l)" "check_owners l = Inr ()"
      using check_owners_iff[OF wf] check_committed_totals_iff(2)[OF _ len] unfolding accepted_chains_def by metis
    have total: "length (concat xss) + length (concat yss) = unat (slab_len ?R)" using sum(1)[OF ok(1,2)] ok(4) live by simp
    obtain n :: u32 where n: "unat n = length (concat xss)" by (rule word_below[of "length (concat xss)" "slab_len ?R"]) (use total in auto)
    obtain m :: u32 where m: "unat m = length (concat yss)" by (rule word_below[of "length (concat yss)" "slab_len ?R"]) (use total in auto)
    have "n \<le> slab_capacity ?R" "m \<le> slab_capacity ?R" using n m total room live by (simp_all add: word_le_nat_alt)
    with n m ok E(2) C(2) have "check_expiry_chains l = Some (Inr n)" "check_committed_lists l = Some (Inr m)" by blast+
    moreover have "unat (saturating_add (saturating_add 0 n) m) = unat (slab_len ?R)"
      using total n m unat_le_u_max[of n] unat_le_u_max[of "slab_len ?R"] by (simp add: unat_saturating_add)
    then have "saturating_add (saturating_add 0 n) m = slab_len ?R" by (simp add: word_unat_eq_iff)
    ultimately show "check_structural_invariants l = Some (Inr ())" using ok by (simp add: check_structural_invariants_def)
  qed
qed

section \<open>The check and the invariant\<close>

lemma due_amount_sum:
  assumes "distinct xs"
  shows "due_amount cl a xs = sum (amount_at cl) (set xs \<inter> committed_of cl a)"
  using assms by (simp add: due_amount_def sum_list_distinct_conv_sum_set sum.inter_restrict)

lemma chain_amount_sum: "distinct xs \<Longrightarrow> chain_amount cl xs = sum (amount_at cl) (set xs)"
  by (simp add: chain_amount_def sum_list_distinct_conv_sum_set)

definition totals_fit :: "ledger \<Rightarrow> bool" where
  "totals_fit l \<longleftrightarrow> (\<forall>a entry. account l a = Some entry \<longrightarrow> unat (mb_reserved entry) + unat (mb_committed entry) < 2 ^ 64)"

definition accounts_known :: "ledger \<Rightarrow> bool" where
  "accounts_known l \<longleftrightarrow> (\<forall>h res q. reservation l h = Some res \<longrightarrow> committed_to res = Some q \<longrightarrow> account l (res_account res) \<noteq> None)"

lemma accounts_known_iff: "accounts_known l \<longleftrightarrow> (\<forall>i g a m ow q. claims l i = Some (g, a, m, ow, OnCommitted q) \<longrightarrow> ends l a \<noteq> None)"
proof -
  have "(\<exists>h res. reservation l h = Some res \<and> committed_to res = Some q \<and> res_account res = a) \<longleftrightarrow>
      (\<exists>i g m ow. claims l i = Some (g, a, m, ow, OnCommitted q))" for q a
    by (auto simp: claims_Some_iff reservation_Some_iff kind_of_cases(2)) (metis handle.select_convs)
  then show ?thesis unfolding accounts_known_def by (auto simp: ends_def) (metis not_None_eq)+
qed

lemma enumerated_accounts:
  assumes "slabs_wf l" and "x \<in> set (enumerate 0 (l_accounts l))"
  shows "account l (index_of (fst x)) = Some (snd x)"
  using accounts_enumerated(1)[of l "\<lambda>a entry. account l a = Some entry"] assms by (simp add: slabs_wf_def)

lemma accounts_in_enumeration:
  assumes "slabs_wf l" and "account l a = Some entry"
  shows "(unat a, entry) \<in> set (enumerate 0 (l_accounts l))" and "index_of (unat a) = a"
  using assms by (auto simp: slabs_wf_def account_def get_idx_Some_iff in_set_enumerate_eq index_of_def word_unat_eq_iff unat_word_of_nat)

lemma iterated_requests:
  assumes "slabs_wf l"
  shows "(h, r) \<in> set (slab_iter (l_requests l)) \<longleftrightarrow> request l h = Some r"
  using assms by (simp add: slabs_wf_def set_slab_iter request_def)

text \<open>Under accepted chains every claim is on the chain of its account or the list of its request.\<close>

lemma accepted_covers:
  assumes wf: "slabs_wf l" and A: "accepted_chains l xss yss"
  shows "on_expiry (claims l) a \<subseteq> set (concat xss)" and "on_list (claims l) q \<subseteq> set (concat yss)"
    and "committed_of (claims l) a \<subseteq> set (concat yss)"
proof -
  note D = chains_distinct[OF wf, of xss yss] and U = A[unfolded accepted_chains_def]
  have dom: "on_expiry (claims l) a \<subseteq> dom (claims l)" "on_list (claims l) q \<subseteq> dom (claims l)" for a q
    by (auto simp: member_defs)
  show "on_expiry (claims l) a \<subseteq> set (concat xss)" using D(3) U dom(1)[of a] members_disjoint(2)[of "claims l" a] by blast
  have lists: "on_list (claims l) q \<subseteq> set (concat yss)" for q using D(2) U dom(2)[of q] members_disjoint(2)[of "claims l"] by blast
  then show "on_list (claims l) q \<subseteq> set (concat yss)" .
  show "committed_of (claims l) a \<subseteq> set (concat yss)" using lists by (fastforce simp: member_defs)
qed

lemma accepted_member:
  assumes wf: "slabs_wf l" and A: "accepted_chains l xss yss"
  shows "i \<in> on_expiry (claims l) a \<Longrightarrow> \<exists>entry xs. account l a = Some entry \<and>
      expiry_seg l a NIL (expiry_head entry) None xs (expiry_tail entry) \<and> i \<in> set xs"
    and "i \<in> on_list (claims l) q \<Longrightarrow> \<exists>rec ys. request l q = Some rec \<and> list_checked l (q, rec) ys \<and> i \<in> set ys"
proof -
  note U = A[unfolded accepted_chains_def]
  assume i: "i \<in> on_expiry (claims l) a"
  with accepted_covers(1)[OF wf A] obtain x xs where x: "x \<in> set (enumerate 0 (l_accounts l))" "expiry_checked l x xs" "i \<in> set xs"
    using in_concat_all2[OF conjunct1[OF U], of i] by blast
  with expiry_checked_members i have "index_of (fst x) = a" using members_disjoint(1)[of a "index_of (fst x)" "claims l"] by blast
  with x enumerated_accounts[OF wf x(1)] show "\<exists>entry xs. account l a = Some entry \<and>
      expiry_seg l a NIL (expiry_head entry) None xs (expiry_tail entry) \<and> i \<in> set xs"
    by (auto simp: expiry_checked_def)
next
  note U = A[unfolded accepted_chains_def]
  assume i: "i \<in> on_list (claims l) q"
  with accepted_covers(2)[OF wf A] obtain x ys where x: "x \<in> set (slab_iter (l_requests l))" "list_checked l x ys" "i \<in> set ys"
    using in_concat_all2[OF conjunct1[OF conjunct2[OF U]], of i] by blast
  with list_checked_members i have "fst x = q" using members_disjoint(3)[of q "fst x" "claims l"] by blast
  with x iterated_requests[OF wf, of q "snd x"] show "\<exists>rec ys. request l q = Some rec \<and> list_checked l (q, rec) ys \<and> i \<in> set ys"
    by (metis prod.collapse)
qed

lemma accepted_chain:
  assumes wf: "slabs_wf l" and A: "accepted_chains l xss yss" and acc: "account l a = Some entry"
  obtains xs where "expiry_chain (claims l) (links l) a (expiry_head entry) (expiry_tail entry) xs"
    and "unat (mb_reserved entry) = sum (amount_at (claims l)) (on_expiry (claims l) a)"
proof -
  note E = conjunct1[OF A[unfolded accepted_chains_def]]
  from all2_in_concat[OF E accounts_in_enumeration(1)[OF wf acc]] accounts_in_enumeration(2)[OF wf acc] obtain xs where
    xs: "expiry_seg l a NIL (expiry_head entry) None xs (expiry_tail entry)" "chain_amount (claims l) xs = unat (mb_reserved entry)"
    by (auto simp: expiry_checked_def)
  have "on_expiry (claims l) a \<subseteq> set xs"
  proof
    fix i assume "i \<in> on_expiry (claims l) a"
    from accepted_member(1)[OF wf A this] acc obtain zs where "expiry_seg l a NIL (expiry_head entry) None zs (expiry_tail entry)" "i \<in> set zs"
      by auto
    with xs(1) show "i \<in> set xs" by (auto simp: expiry_seg_def dest: dseg_unique)
  qed
  then have full: "set xs = on_expiry (claims l) a" using xs(1) by (auto simp: expiry_seg_def)
  have "distinct xs" using xs(1) by (auto simp: expiry_seg_def intro: dll_distinct)
  with full xs that[of xs] show thesis by (simp add: expiry_seg_def expiry_chain_def dll_def chain_amount_sum)
qed

lemma accepted_list:
  assumes wf: "slabs_wf l" and A: "accepted_chains l xss yss" and rec: "request l q = Some rec"
  shows "\<exists>ys. committed_list (claims l) (links l) q (rq_committed_head rec) ys"
proof -
  note C = conjunct1[OF conjunct2[OF A[unfolded accepted_chains_def]]]
  from all2_in_concat[OF C, of "(q, rec)"] rec iterated_requests[OF wf] obtain ys where ys: "list_checked l (q, rec) ys" by blast
  have "on_list (claims l) q \<subseteq> set ys"
  proof
    fix i assume "i \<in> on_list (claims l) q"
    from accepted_member(2)[OF wf A this] rec obtain zs where "list_checked l (q, rec) zs" "i \<in> set zs" by auto
    with ys show "i \<in> set ys" by (auto simp: list_checked_def committed_seg_def dest: dseg_unique)
  qed
  with ys show ?thesis by (auto simp: list_checked_def committed_seg_def committed_list_def dll_def)
qed

lemma accepted_inv:
  assumes wf: "slabs_wf l" and A: "accepted_chains l xss yss" and fit: "totals_fit l" and known: "accounts_known l"
  shows "expiry_ok (claims l) (links l) (ends l) \<and> committed_ok (claims l) (links l) (heads l) \<and>
    placed_ok (claims l) (ends l) (heads l) \<and> totals_ok (claims l) (money l)"
proof (intro conjI)
  let ?cl = "claims l"
  show "expiry_ok ?cl (links l) (ends l)"
    unfolding expiry_ok_def by (auto simp: ends_def elim!: accepted_chain[OF wf A])
  show "committed_ok ?cl (links l) (heads l)"
    unfolding committed_ok_def using accepted_list[OF wf A] by (auto simp: heads_def)
  show "placed_ok ?cl (ends l) (heads l)"
    unfolding placed_ok_def
  proof (intro allI impI conjI)
    fix i g a m ow k assume i: "?cl i = Some (g, a, m, ow, k)"
    show "i \<noteq> NIL" using i wf slab_view_NIL[of "l_reservations l"] by (auto simp: claims_def slabs_wf_def)
    show "heads l q \<noteq> None" if "k = OnCommitted q" for q
    proof -
      have "i \<in> on_list ?cl q" using i that by (auto simp: member_defs)
      from accepted_member(2)[OF wf A this] show ?thesis by (auto simp: heads_def)
    qed
    show "ends l a \<noteq> None"
    proof (cases k)
      case (OnCommitted q)
      with known i show ?thesis unfolding accounts_known_iff by blast
    next
      case (OnExpiry e)
      then have "i \<in> on_expiry ?cl a" using i by (auto simp: member_defs)
      from accepted_member(1)[OF wf A this] show ?thesis by (auto simp: ends_def)
    qed
  qed
  show "totals_ok ?cl (money l)"
    unfolding totals_ok_def
  proof (intro allI impI)
    fix a f r c assume "money l a = Some (f, r, c)"
    then obtain entry where acc: "account l a = Some entry" "r = mb_reserved entry" "c = mb_committed entry" by (auto simp: money_def)
    have "unat r = sum (amount_at ?cl) (on_expiry ?cl a)" by (rule accepted_chain[OF wf A acc(1)]) (simp add: acc(2))
    moreover have "set (concat yss) \<inter> committed_of ?cl a = committed_of ?cl a" using accepted_covers(3)[OF wf A] by blast
    then have "unat c = sum (amount_at ?cl) (committed_of ?cl a)"
      using A acc chains_distinct(1)[OF wf, of xss yss] by (simp add: accepted_chains_def due_amount_sum)
    ultimately show "unat r = sum (amount_at ?cl) (on_expiry ?cl a) \<and> unat c = sum (amount_at ?cl) (committed_of ?cl a) \<and>
        unat r + unat c < 2 ^ 64"
      using fit[unfolded totals_fit_def, rule_format, OF acc(1)] acc(2,3) by simp
  qed
qed

text \<open>Conversely the chains of the invariant are accepted.\<close>

lemma inv_chain:
  assumes inv: "ledger_inv l" and acc: "account l a = Some entry"
  shows "\<exists>xs. expiry_checked l (unat a, entry) xs \<and> set xs = on_expiry (claims l) a"
proof -
  note I = inv[unfolded ledger_inv_def]
  obtain xs where xs: "expiry_chain (claims l) (links l) a (expiry_head entry) (expiry_tail entry) xs"
    using I account_Some_maps(1)[OF acc] unfolding expiry_ok_def by blast
  then have "distinct xs" by (auto simp: expiry_chain_def dll_def intro: dll_distinct)
  moreover have "unat (mb_reserved entry) = sum (amount_at (claims l)) (on_expiry (claims l) a)"
    using I account_Some_maps(2)[OF acc] by (auto simp: totals_ok_def)
  moreover have "index_of (unat a) = a" using accounts_in_enumeration(2) I acc by blast
  ultimately show ?thesis
    using xs by (intro exI[of _ xs]) (simp add: expiry_chain_def expiry_checked_def expiry_seg_def dll_def chain_amount_sum)
qed

lemma inv_list:
  assumes "ledger_inv l" and "request l q = Some rec"
  shows "\<exists>ys. list_checked l (q, rec) ys \<and> set ys = on_list (claims l) q"
proof -
  have "heads l q = Some (rq_committed_head rec)" using assms(2) by (simp add: heads_def)
  with assms(1) obtain ys where "committed_list (claims l) (links l) q (rq_committed_head rec) ys"
    by (auto simp: ledger_inv_def committed_ok_def)
  then show ?thesis by (auto simp: committed_list_def list_checked_def committed_seg_def dll_def)
qed

lemma inv_accepted:
  assumes inv: "ledger_inv l"
  obtains xss yss where "accepted_chains l xss yss"
proof -
  let ?cl = "claims l" and ?as = "enumerate 0 (l_accounts l)" and ?rs = "slab_iter (l_requests l)"
  have wf: "slabs_wf l" and P: "placed_ok ?cl (ends l) (heads l)" and T: "totals_ok ?cl (money l)"
    using inv by (simp_all add: ledger_inv_def)
  have "\<forall>x\<in>set ?as. \<exists>xs. expiry_checked l x xs \<and> set xs = on_expiry ?cl (index_of (fst x))"
  proof
    fix x assume x: "x \<in> set ?as"
    have acc: "account l (index_of (fst x)) = Some (snd x)" by (rule enumerated_accounts[OF wf x])
    have "unat (index_of (fst x)) = fst x"
      using x wf by (simp add: in_set_enumerate_eq index_of_def unat_word_of_nat slabs_wf_def)
    with inv_chain[OF inv acc] show "\<exists>xs. expiry_checked l x xs \<and> set xs = on_expiry ?cl (index_of (fst x))" by simp
  qed
  then obtain xss where X: "list_all2 (\<lambda>x xs. expiry_checked l x xs \<and> set xs = on_expiry ?cl (index_of (fst x))) ?as xss"
    unfolding all2_choice[symmetric] by blast
  have "\<forall>x\<in>set ?rs. \<exists>ys. list_checked l x ys \<and> set ys = on_list ?cl (fst x)"
    using inv_list[OF inv] iterated_requests[OF wf] by fastforce
  then obtain yss where Y: "list_all2 (\<lambda>x ys. list_checked l x ys \<and> set ys = on_list ?cl (fst x)) ?rs yss"
    unfolding all2_choice[symmetric] by blast
  have E: "list_all2 (expiry_checked l) ?as xss" by (rule list_all2_mono[OF X]) simp
  have C: "list_all2 (list_checked l) ?rs yss" by (rule list_all2_mono[OF Y]) simp
  note D = chains_distinct[OF wf E C]
  have in_x: "on_expiry ?cl a \<subseteq> set (concat xss)" if "account l a = Some entry" for a entry
    using all2_in_concat[OF X accounts_in_enumeration(1)[OF wf that]] accounts_in_enumeration(2)[OF wf that] by auto
  have in_y: "on_list ?cl q \<subseteq> set (concat yss)" if "request l q = Some rec" for q rec
    using all2_in_concat[OF Y, of "(q, rec)"] that iterated_requests[OF wf] by auto
  have lists: "i \<in> set (concat yss)" if i: "?cl i = Some (g, a, m, ow, OnCommitted q)" for i g a m ow q
  proof -
    have "i \<in> on_list ?cl q" using i by (auto simp: member_defs)
    moreover obtain rec where "request l q = Some rec" using P i by (force simp: placed_ok_def heads_def)
    ultimately show ?thesis using in_y by blast
  qed
  have chains: "i \<in> set (concat xss)" if i: "?cl i = Some (g, a, m, ow, OnExpiry e)" for i g a m ow e
  proof -
    have "i \<in> on_expiry ?cl a" using i by (auto simp: member_defs)
    moreover obtain entry where "account l a = Some entry" using P i by (force simp: placed_ok_def ends_def)
    ultimately show ?thesis using in_x by blast
  qed
  have "dom ?cl \<subseteq> set (concat xss) \<union> set (concat yss)"
  proof
    fix i assume "i \<in> dom ?cl"
    then obtain g a m ow k where "?cl i = Some (g, a, m, ow, k)" by auto
    then show "i \<in> set (concat xss) \<union> set (concat yss)" using lists chains by (cases k) blast+
  qed
  moreover have "set (concat xss) \<union> set (concat yss) \<subseteq> dom ?cl" using D(2,3) by (auto simp: member_defs)
  moreover have "unat (mb_committed entry) = due_amount ?cl a (concat yss)" if acc: "account l a = Some entry" for a entry
  proof -
    have "set (concat yss) \<inter> committed_of ?cl a = committed_of ?cl a" using lists by (fastforce simp: member_defs)
    moreover have "unat (mb_committed entry) = sum (amount_at ?cl) (committed_of ?cl a)"
      using T account_Some_maps(2)[OF acc] by (auto simp: totals_ok_def)
    ultimately show ?thesis using D(1) by (simp add: due_amount_sum)
  qed
  ultimately show thesis using that[of xss yss] E C by (simp add: accepted_chains_def set_eq_subset)
qed

text \<open>
  C8. The structural check decides the invariant. On every ledger with well-formed slabs
  \<open>check_structural_invariants\<close> returns; and the ledger satisfies \<open>ledger_inv\<close> exactly when the check
  accepts it and the two things hold that the check leaves out: the reserved and committed totals of an
  account do not overflow together, and every committed claim is of a known account.
\<close>

theorem structural_check_decides_the_invariant:
  assumes "slabs_wf l"
  shows "(\<exists>answer. check_structural_invariants l = Some answer) \<and>
    (ledger_inv l \<longleftrightarrow> check_structural_invariants l = Some (Inr ()) \<and> totals_fit l \<and> accounts_known l)"
proof
  have cap: "slab_capacity (l_reservations l) < u_max"
    using assms slab_wf_capacity[of "l_reservations l"] by (simp add: slabs_wf_def NIL_def)
  note S = structural_iff[OF assms cap]
  show "\<exists>answer. check_structural_invariants l = Some answer" using S(1) by simp
  have "ledger_inv l \<Longrightarrow> totals_fit l"
    using account_Some_maps(2) by (fastforce simp: ledger_inv_def totals_fit_def totals_ok_def)
  moreover have "ledger_inv l \<Longrightarrow> accounts_known l"
    unfolding accounts_known_iff by (force simp: ledger_inv_def placed_ok_def)
  moreover have "ledger_inv l \<Longrightarrow> \<exists>xss yss. accepted_chains l xss yss" by (metis inv_accepted)
  ultimately show "ledger_inv l \<longleftrightarrow> check_structural_invariants l = Some (Inr ()) \<and> totals_fit l \<and> accounts_known l"
    unfolding S(2) using accepted_inv[OF assms] assms by (auto simp: ledger_inv_def)
qed

theorem structural_check_decides_the_invariant_witness:
  "check_structural_invariants demo_ledger = Some (Inr ())"
  using structural_check_decides_the_invariant[of demo_ledger] reachable_ledger_inv[OF demo_reachable(2)]
  by (simp add: ledger_inv_def)

text \<open>So the assertion a debug build makes after every mutation never fires.\<close>

lemma assertion_holds: "ledger_inv l \<Longrightarrow> assert_invariants debug l = Some ()"
proof -
  assume inv: "ledger_inv l"
  then have wf: "slabs_wf l" by (simp add: ledger_inv_def)
  have cap: "slab_capacity (l_reservations l) < u_max"
    using wf slab_wf_capacity[of "l_reservations l"] by (simp add: slabs_wf_def NIL_def)
  obtain xss yss where "accepted_chains l xss yss" by (rule inv_accepted[OF inv])
  with inv have "check_structural_invariants l = Some (Inr ())"
    unfolding structural_iff(2)[OF wf cap] by (auto simp: ledger_inv_def)
  then show ?thesis by (simp add: assert_invariants_def)
qed

end
