(* ===== verification/Coverage.thy ===== *)
theory Coverage
  imports Money_Moves Ledger_Checked Engine_Props Engine_Demo
begin

text \<open>
  Claim coverage: the free balance of an account covers its reserved and committed claims. Every command
  but the mirror update keeps it, for every account; a successful admission establishes it for its
  account. A mirror update can break it, and then it stays broken until claims are released.
\<close>

section \<open>What the check says\<close>

definition covered :: "ledger \<Rightarrow> account_idx \<Rightarrow> bool" where
  "covered l a \<longleftrightarrow> (\<forall>b. account l a = Some b \<longrightarrow> unat (mb_reserved b) + unat (mb_committed b) \<le> unat (mb_free b))"

lemma coverage_check_iff: "check_claim_coverage_for l a = Inr () \<longleftrightarrow> covered l a"
proof (cases "account l a")
  case None
  then show ?thesis by (simp add: check_claim_coverage_for_def covered_def)
next
  case (Some b)
  show ?thesis
  proof (cases "amount_checked_add (mb_reserved b) (mb_committed b)")
    case None
    then have "unat (mb_free b) < unat (mb_reserved b) + unat (mb_committed b)"
      using unat_lt_size[of "mb_free b"] by (simp add: amount_checked_add_def checked_add_None_iff)
    with None Some show ?thesis by (simp add: check_claim_coverage_for_def covered_def ok_or_def)
  next
    case (Some v)
    then have "unat v = unat (mb_reserved b) + unat (mb_committed b)" by (simp add: amount_checked_add_def checked_add_Some_iff)
    with Some \<open>account l a = Some b\<close> show ?thesis
      by (auto simp: check_claim_coverage_for_def covered_def ok_or_def word_less_nat_alt not_less)
  qed
qed

text \<open>The whole-table form asks it of every account.\<close>

lemma coverage_table_iff:
  assumes "slabs_wf l"
  shows "check_claim_coverage l = Inr () \<longleftrightarrow> (\<forall>a. check_claim_coverage_for l a = Inr ())"
proof -
  have one: "check_entry_coverage x () = Inr () \<longleftrightarrow> check_claim_coverage_for l (index_of (fst x)) = Inr ()"
    if "x \<in> set (enumerate 0 (l_accounts l))" for x
    using enumerated_accounts[OF assms that] by (simp add: check_entry_coverage_def check_claim_coverage_for_def Let_def)
  have "check_claim_coverage l = Inr () \<longleftrightarrow> (\<forall>x\<in>set (enumerate 0 (l_accounts l)). check_claim_coverage_for l (index_of (fst x)) = Inr ())"
    unfolding check_claim_coverage_def by (rule fold_res_all) (rule one)
  also have "\<dots> \<longleftrightarrow> (\<forall>a entry. account l a = Some entry \<longrightarrow> check_claim_coverage_for l a = Inr ())"
    using accounts_enumerated(1)[of l "\<lambda>a entry. check_claim_coverage_for l a = Inr ()"] assms by (simp add: slabs_wf_def)
  also have "\<dots> \<longleftrightarrow> (\<forall>a. check_claim_coverage_for l a = Inr ())"
    unfolding coverage_check_iff covered_def by blast
  finally show ?thesis .
qed

section \<open>A relation between rows\<close>

definition within :: "money_row \<Rightarrow> money_row \<Rightarrow> bool" where
  "within x y = (case x of (f, r, c) \<Rightarrow> case y of (f', r', c') \<Rightarrow>
     f' = f \<and> unat r' + unat c' \<le> max (unat r + unat c) (unat f))"

interpretation covering_rows: money_relation within
  by unfold_locales (auto simp: within_def unat_saturating_sub split: prod.splits)

lemma within_covered: "moves within l l' \<Longrightarrow> covered l a \<Longrightarrow> covered l' a"
proof -
  assume m: "moves within l l'" and c: "covered l a"
  have len: "length (l_accounts l') = length (l_accounts l)" using m by (auto simp: moves_def money_col_def dest: list_all2_lengthD)
  show "covered l' a" unfolding covered_def
  proof (intro allI impI)
    fix b' assume b': "account l' a = Some b'"
    then obtain b where b: "account l a = Some b" by (auto simp: account_def get_idx_def len split: if_splits)
    then have i: "unat a < length (l_accounts l)" "l_accounts l ! unat a = b" "l_accounts l' ! unat a = b'"
      using b' by (auto simp: account_def get_idx_Some_iff)
    with m len have "within (row_of b) (row_of b')" by (auto simp: moves_def money_col_def list_all2_conv_all_nth)
    with c b show "unat (mb_reserved b') + unat (mb_committed b') \<le> unat (mb_free b')"
      by (auto simp: within_def row_of_def covered_def)
  qed
qed

section \<open>Accepting shrinks the claims\<close>

definition shrinks :: "claim_map \<Rightarrow> claim_map \<Rightarrow> bool" where
  "shrinks cl cl' \<longleftrightarrow> (\<forall>i g a m ow k. cl' i = Some (g, a, m, ow, k) \<longrightarrow>
     (\<exists>g0 m0 ow0 k0. cl i = Some (g0, a, m0, ow0, k0) \<and> m \<le> m0))"

lemma total_of_account:
  assumes "ledger_inv l" and "account l a = Some b"
  shows "unat (mb_reserved b) + unat (mb_committed b) = sum (amount_at (claims l)) {i. \<exists>g m ow k. claims l i = Some (g, a, m, ow, k)}"
proof -
  have T: "totals_ok (claims l) (money l)" using assms(1) by (simp add: ledger_inv_def)
  have "{i. \<exists>g m ow k. claims l i = Some (g, a, m, ow, k)} = on_expiry (claims l) a \<union> committed_of (claims l) a"
    by (auto simp: member_defs) (metis claim_kind.exhaust)
  moreover have "on_expiry (claims l) a \<inter> committed_of (claims l) a = {}" by (auto simp: member_defs)
  ultimately show ?thesis using T account_Some_maps(2)[OF assms(2)] by (simp add: totals_ok_def sum.union_disjoint)
qed

lemma shrinks_total:
  assumes "ledger_inv l" and "ledger_inv l'" and "shrinks (claims l) (claims l')"
    and "account l a = Some b" and "account l' a = Some b'"
  shows "unat (mb_reserved b') + unat (mb_committed b') \<le> unat (mb_reserved b) + unat (mb_committed b)"
  unfolding total_of_account[OF assms(1,4)] total_of_account[OF assms(2,5)]
proof -
  let ?S = "{i. \<exists>g m ow k. claims l i = Some (g, a, m, ow, k)}" and ?S' = "{i. \<exists>g m ow k. claims l' i = Some (g, a, m, ow, k)}"
  have sub: "?S' \<subseteq> ?S" using assms(3) unfolding shrinks_def by fastforce
  have "sum (amount_at (claims l')) ?S' \<le> sum (amount_at (claims l)) ?S'"
  proof (rule sum_mono)
    fix i assume "i \<in> ?S'"
    then obtain g m ow k where i: "claims l' i = Some (g, a, m, ow, k)" by blast
    with assms(3) obtain g0 m0 ow0 k0 where "claims l i = Some (g0, a, m0, ow0, k0)" "m \<le> m0" unfolding shrinks_def by blast
    with i show "amount_at (claims l') i \<le> amount_at (claims l) i" by (simp add: amount_at_def word_le_nat_alt)
  qed
  also have "\<dots> \<le> sum (amount_at (claims l)) ?S" by (rule sum_mono2[OF _ sub]) simp_all
  finally show "sum (amount_at (claims l')) ?S' \<le> sum (amount_at (claims l)) ?S" .
qed

lemma accepted_shrinks:
  assumes "claims l claim_i = Some (g, a, m, OwnerRequest r, k)" and "tot \<le> m"
  shows "shrinks (claims l) ((accepted_claims r plan n qt (claims l))(claim_i \<mapsto> (g, a, tot, OwnerRequest r, k')))"
  unfolding shrinks_def
proof (intro allI impI)
  fix i g1 b m1 ow k1
  assume at: "((accepted_claims r plan n qt (claims l))(claim_i \<mapsto> (g, a, tot, OwnerRequest r, k'))) i = Some (g1, b, m1, ow, k1)"
  show "\<exists>g0 m0 ow0 k0. claims l i = Some (g0, b, m0, ow0, k0) \<and> m1 \<le> m0"
  proof (cases "i = claim_i")
    case True
    with at assms show ?thesis by auto
  next
    case False
    then have "accepted_claims r plan n qt (claims l) i = Some (g1, b, m1, ow, k1)" using at by simp
    then show ?thesis
      by (auto simp: accepted_claims_def split: option.splits res_owner.splits if_splits)
  qed
qed

lemma accept_within:
  assumes inv: "engine_inv now e" and ok: "accept_request r expected n_legs now (e, b) = Some (res, (e', b'))"
  shows "moves within (e_ledger e) (e_ledger e')"
proof (cases res)
  case (Inl err)
  then show ?thesis using refused_accept[of r expected n_legs now e b err "(e', b')"] ok by simp
next
  case (Inr u)
  let ?l = "e_ledger e" and ?l' = "e_ledger e'"
  obtain rec plan tot claim intent where chk: "check_accept e b r expected n_legs now = Some (Inr (rec, plan, tot, claim, intent))"
    using ok Inr by (auto simp: accept_request_def split: option.splits sum.splits prod.splits)
  obtain c where rec: "request ?l r = Some rec" and cl: "rq_claim rec = Some claim" "reservation ?l claim = Some c" "tot \<le> res_amount c"
    by (rule check_accept_accepts[OF chk])
  obtain l3 es where e': "e' = e\<lparr>e_ledger := l3\<rparr>" and inv3: "market_inv (e_config e) now None l3"
    and cs: "claims l3 = (accepted_claims r plan (unat (rq_n_legs rec)) (quotes_of ?l) (claims ?l))
      (h_index claim \<mapsto> (h_generation claim, rq_requester rec, tot, OwnerRequest r, OnCommitted r))"
    using accept_request_spec[OF inv chk] ok by auto
  obtain c' where "reservation ?l claim = Some c'" "res_account c' = rq_requester rec" "res_owner_of c' = OwnerRequest r"
    by (rule request_record[OF engine_invD(2)[OF inv] rec cl(1)])
  with cl(2,3) obtain m k where "claims ?l (h_index claim) = Some (h_generation claim, rq_requester rec, m, OwnerRequest r, k)" "tot \<le> m"
    by (auto simp: claims_Some_iff reservation_Some_iff)
  then have "shrinks (claims ?l) (claims l3)" unfolding cs by (rule accepted_shrinks)
  then have sh: "shrinks (claims ?l) (claims ?l')" by (simp add: e')
  have inv1: "ledger_inv ?l" "ledger_inv ?l'" using market_invD(1)[OF inv3] engine_invD(3)[OF inv] by (simp_all add: e')
  have same: "moves (\<lambda>x y. fst y = fst x) ?l ?l'" using free_rows.moves_accept_request[OF ok] by simp
  show ?thesis unfolding moves_def list_all2_conv_all_nth
  proof (intro conjI allI impI)
    show len: "length (money_col ?l) = length (money_col ?l')" using same by (simp add: moves_def list_all2_lengthD)
    fix i assume i: "i < length (money_col ?l)"
    then have i2: "i < 2 ^ 32" "i < length (l_accounts ?l)" "i < length (l_accounts ?l')"
      using inv1(1) len by (auto simp: ledger_inv_def slabs_wf_def money_col_def)
    obtain a :: account_idx where a: "unat a = i" by (rule word_with_unat[where 'a = 32, of i]) (use i2 in auto)
    have acc: "account ?l a = Some (l_accounts ?l ! i)" "account ?l' a = Some (l_accounts ?l' ! i)"
      using a i2 by (simp_all add: account_def get_idx_Some_iff)
    have "mb_free (l_accounts ?l' ! i) = mb_free (l_accounts ?l ! i)"
      using same i i2 by (auto simp: moves_def list_all2_conv_all_nth money_col_def row_of_def)
    with shrinks_total[OF inv1 sh acc] show "within (money_col ?l ! i) (money_col ?l' ! i)"
      using i2 by (simp add: money_col_def within_def row_of_def)
  qed
qed

lemma apply_within:
  assumes "reachable_engine t e" and "t \<le> now" and run: "engine_apply c now (e, b) = Some (res, (e', b'))" and "\<And>a v. c \<noteq> CreditAccount a v"
  shows "moves within (e_ledger e) (e_ledger e')"
proof (rule covering_rows.moves_apply[OF run assms(4)])
  fix r x n assume "c = AcceptRequest r x n"
  with run have "accept_request r x n now (normalised c now e, b) = Some (res, (e', b'))" by (simp add: engine_apply_def dispatch_def)
  from accept_within[OF reachable_normalised[OF assms(1,2)] this] show "moves within (e_ledger (normalised c now e)) (e_ledger e')" .
qed

section \<open>Admission establishes it\<close>

lemma covered_cong: "money_col l' = money_col l \<Longrightarrow> covered l' a \<longleftrightarrow> covered l a"
proof -
  assume c: "money_col l' = money_col l"
  have row: "row_of (l_accounts l' ! i) = row_of (l_accounts l ! i)"
    if "i < length (l_accounts l)" for i
    using c that by (auto simp: money_col_def list_eq_iff_nth_eq)
  have len: "length (l_accounts l') = length (l_accounts l)" using arg_cong[OF c, of length] by (simp add: money_col_def)
  show ?thesis using row[of "unat a"] by (auto simp: covered_def account_def get_idx_Some_iff len row_of_def)
qed

lemma link_claim_covers:
  assumes chk: "check_reservable l a m = Inr reserved" and l1: "money_col l1 = money_col l"
    and link: "link_claim a c x ow reserved l1 = Some l2"
  shows "covered l2 a"
proof -
  from link obtain l' where l': "link_into_expiry_chain a (h_index c) x l1 = Some l'"
    and l2: "l2 = set_owner_claim ow (Some c) (account_update a (set_reserved reserved) l')"
    by (auto simp: link_claim_def split: option.splits)
  have col: "money_col l' = money_col l" using money_col_link_expiry[OF l'] l1 by simp
  from chk obtain b0 where b0: "account l a = Some b0" "unat reserved = unat (mb_reserved b0) + unat m"
    "unat (mb_reserved b0) + unat (mb_committed b0) + unat m \<le> unat (mb_free b0)" by (auto simp: check_reservable_spec)
  have "covered (account_update a (set_reserved reserved) l') a"
    unfolding covered_def
  proof (intro allI impI)
    fix b assume "account (account_update a (set_reserved reserved) l') a = Some b"
    then obtain b1 where b1: "account l' a = Some b1" "b = set_reserved reserved b1" by (auto split: if_splits)
    have "row_of b1 = row_of b0" using money_col_account[OF col, of a] b1(1) b0(1) by simp
    with b0 b1(2) show "unat (mb_reserved b) + unat (mb_committed b) \<le> unat (mb_free b)" by (simp add: row_of_def set_reserved_def)
  qed
  then show ?thesis unfolding l2 by (subst covered_cong[of _ "account_update a (set_reserved reserved) l'"]) simp_all
qed

lemma admitted_covered:
  assumes "check_reservable l a m = Inr reserved" and "insert_claim a' m' ow x l1 = Inr (c, l2)"
    and "link_claim a c x' ow' reserved l2 = Some l3" and "money_col l1 = money_col l"
  shows "covered l3 a"
  by (rule link_claim_covers[OF assms(1) _ assms(3)]) (simp add: money_col_insert_claim[OF assms(2)] assms(4))

lemma open_covers:
  "open_quote_reserving l q m = Some (Inr x, l') \<Longrightarrow> covered l' (q_maker q)"
  "open_request_reserving l r m = Some (Inr y, l') \<Longrightarrow> covered l' (rq_requester r)"
  by (auto simp: open_quote_reserving_def open_request_reserving_def Let_def split: sum.splits if_splits option.splits)
    (erule (2) admitted_covered, simp)+

lemma publish_covers: "publish_selection r lid now (link_quote r lid q l, b) = Some (l', b') \<Longrightarrow> covered l a \<Longrightarrow> covered l' a"
  using money_col_publish[of r lid now "(link_quote r lid q l, b)" "(l', b')"] covered_cong[of l' l a] by simp

lemma submit_covers:
  "submit_quote a r lid p sz x now w = Some (Inr u, w') \<Longrightarrow> covered (e_ledger (fst w')) a"
  "submit_request a dl legs n now w = Some (Inr u, w') \<Longrightarrow> covered (e_ledger (fst w')) a"
  by (auto simp: submit_quote_def submit_request_def Let_def split: if_splits sum.splits option.splits prod.splits
      dest!: open_covers simp: quote_new_def request_new_def elim!: publish_covers)

section \<open>The property\<close>

definition admits_claim :: "command \<Rightarrow> account_idx \<Rightarrow> bool" where
  "admits_claim c a = (case c of SubmitQuote m _ _ _ _ _ \<Rightarrow> m = a | SubmitRequest r _ _ _ \<Rightarrow> r = a | _ \<Rightarrow> False)"

text \<open>
  C9. Claim coverage. A command other than the mirror update keeps the coverage of every account that
  has it, so it keeps the coverage of the whole table; and a quote or a request that is admitted leaves
  its account covered whatever it was before.
\<close>

theorem commands_keep_coverage:
  assumes "reachable_engine t e" and "t \<le> now" and "\<And>a v. c \<noteq> CreditAccount a v"
    and "engine_apply c now (e, b) = Some (res, (e', b'))"
  shows "(check_claim_coverage_for (e_ledger e) a = Inr () \<longrightarrow> check_claim_coverage_for (e_ledger e') a = Inr ())
    \<and> (check_claim_coverage (e_ledger e) = Inr () \<longrightarrow> check_claim_coverage (e_ledger e') = Inr ())
    \<and> (res = Inr () \<and> admits_claim c a \<longrightarrow> check_claim_coverage_for (e_ledger e') a = Inr ())"
proof -
  have r': "reachable_engine now e'" by (rule reaches_step[OF assms(1) engine_applies[OF assms(2,4)]])
  have wf: "slabs_wf (e_ledger e)" "slabs_wf (e_ledger e')"
    using engine_invD(3)[OF reachable_engine_inv[OF assms(1)]] engine_invD(3)[OF reachable_engine_inv[OF r']] by (simp_all add: ledger_inv_def)
  have keep: "covered (e_ledger e) k \<Longrightarrow> covered (e_ledger e') k" for k
    by (rule within_covered[OF apply_within[OF assms(1,2,4,3)]])
  have "covered (e_ledger e') a" if "res = Inr ()" "admits_claim c a"
    using that assms(4) submit_covers[where w' = "(e', b')"]
    by (auto simp: admits_claim_def engine_apply_def dispatch_def split: command.splits)
  with keep show ?thesis by (simp add: coverage_table_iff wf coverage_check_iff)
qed

lemma commands_keep_coverage_witness:
  "check_claim_coverage_for (e_ledger desk_open) 2 = Inr () \<and> check_claim_coverage_for (e_ledger desk_settling) 2 = Inr ()"
proof -
  obtain b1 b2 where s: "reachable_engine 13 desk_first"
    "engine_apply desk_cheaper 14 (desk_first, eb_with_capacity 64) = Some (Inr (), (desk_open, b1))"
    "engine_apply desk_accept 20 (desk_open, eb_with_capacity 64) = Some (Inr (), (desk_settling, b2))"
    by (rule desk_steps)
  have 1: "check_claim_coverage_for (e_ledger desk_open) 2 = Inr ()"
    using commands_keep_coverage[OF s(1) _ _ s(2), where a = 2] by (simp add: desk_cheaper_def admits_claim_def)
  with commands_keep_coverage[OF desk_reachable(1) _ _ s(3), where a = 2] show ?thesis by (simp add: desk_accept_def)
qed

end
