(* ===== verification/Clock.thy ===== *)
theory Clock
  imports Money_Types
begin

text \<open>
  The clocks of \<open>crates/core/src/clock.rs\<close> and \<open>crates/runtime/src/clock.rs\<close>. The engine and custody
  take the instant they sampled as an argument; this theory says where it comes from and that
  successive samples never run backwards. A read of a clock returns the instant and the clock after it
  (\<open>TickClock\<close> moves at every read, through a \<open>Cell\<close>).
\<close>

section \<open>The clocks\<close>

record test_clock =
  tc_now :: ts

definition test_clock_at :: "ts \<Rightarrow> test_clock" where
  "test_clock_at now = \<lparr> tc_now = now \<rparr>"

definition test_clock_advance :: "dur \<Rightarrow> test_clock \<Rightarrow> test_clock" where
  "test_clock_advance duration k = k\<lparr> tc_now := ts_saturating_add (tc_now k) duration \<rparr>"

text \<open>\<open>None\<close> is the panic of a debug build when a test turns the clock back.\<close>

definition test_clock_set :: "bool \<Rightarrow> ts \<Rightarrow> test_clock \<Rightarrow> test_clock option" where
  "test_clock_set debug now k = (if debug \<and> now < tc_now k then None else Some (k\<lparr> tc_now := now \<rparr>))"

definition test_clock_now :: "test_clock \<Rightarrow> ts \<times> test_clock" where
  "test_clock_now k = (tc_now k, k)"

record tick_clock =
  tk_next :: ts
  tk_step :: dur

definition tick_clock_new :: "ts \<Rightarrow> dur \<Rightarrow> tick_clock" where
  "tick_clock_new start step = \<lparr> tk_next = start, tk_step = step \<rparr>"

definition tick_clock_reads :: "tick_clock \<Rightarrow> ts \<Rightarrow> u64" where
  "tick_clock_reads k start = saturating_sub (tk_next k) start div max (tk_step k) 1"

definition tick_clock_now :: "tick_clock \<Rightarrow> ts \<times> tick_clock" where
  "tick_clock_now k = (tk_next k, k\<lparr> tk_next := ts_saturating_add (tk_next k) (tk_step k) \<rparr>)"

text \<open>The elapsed milliseconds since the origin come from the operating system, as a \<open>u128\<close>.\<close>

record monotonic_clock =
  mc_epoch :: ts

definition monotonic_starting_at :: "ts \<Rightarrow> monotonic_clock" where
  "monotonic_starting_at epoch = \<lparr> mc_epoch = epoch \<rparr>"

definition monotonic_new :: monotonic_clock where
  "monotonic_new = monotonic_starting_at 0"

definition elapsed_millis :: "u128 \<Rightarrow> dur" where
  "elapsed_millis x = (if unat x < 2 ^ 64 then word_of_nat (unat x) else u_max)"

definition monotonic_now :: "u128 \<Rightarrow> monotonic_clock \<Rightarrow> ts" where
  "monotonic_now elapsed k =
     ts_saturating_add (mc_epoch k) (elapsed_millis elapsed)"

section \<open>Samples never run backwards\<close>

text \<open>
  The interface: a clock has a floor below which no read falls, a read returns at least the floor and
  leaves the floor at least at what it returned.
\<close>

locale monotonic_reads =
  fixes read :: "'k \<Rightarrow> ts \<times> 'k"
    and floor_of :: "'k \<Rightarrow> ts"
  assumes read_floor: "read k = (t, k') \<Longrightarrow> floor_of k \<le> t \<and> t \<le> floor_of k'"
begin

lemma read_after:
  assumes "read k = (t, k')" and "read k' = (t', k'')"
  shows "t \<le> t'"
  using read_floor[OF assms(1)] read_floor[OF assms(2)] by (blast intro: order_trans)

text \<open>Setting or advancing the clock upwards between two reads keeps their order.\<close>

lemma read_after_raise:
  assumes "read k = (t, k')" and "floor_of k' \<le> floor_of k1" and "read k1 = (t', k'')"
  shows "t \<le> t'"
  using read_floor[OF assms(1)] read_floor[OF assms(3)] assms(2) by (blast intro: order_trans)

end

lemma ts_saturating_add_le: "t \<le> ts_saturating_add t d"
  by (simp add: ts_saturating_add_def word_le_nat_alt unat_saturating_add unat_le_u_max[where 'a = 64, simplified])

interpretation test_reads: monotonic_reads test_clock_now tc_now
  by unfold_locales (auto simp: test_clock_now_def)

interpretation tick_reads: monotonic_reads tick_clock_now tk_next
  by unfold_locales (auto simp: tick_clock_now_def ts_saturating_add_le)

lemma test_clock_raised:
  "tc_now k \<le> tc_now (test_clock_advance d k)"
  "test_clock_set True now k = Some k' \<Longrightarrow> tc_now k \<le> tc_now k'"
  by (auto simp: test_clock_advance_def ts_saturating_add_le test_clock_set_def split: if_splits)

lemma unat_elapsed: "unat (elapsed_millis x) = min (unat x) (2 ^ 64 - 1)"
proof (cases "unat x < 2 ^ 64")
  case True
  then have "elapsed_millis x = word_of_nat (unat x)" unfolding elapsed_millis_def by (rule if_P)
  moreover have "unat (word_of_nat (unat x) :: u64) = unat x" by (rule unat_word_of_nat) (use True in simp)
  ultimately have "unat (elapsed_millis x) = unat x" by (simp only:)
  with True show ?thesis by simp
next
  case False
  then show ?thesis by (simp add: elapsed_millis_def unat_u_max)
qed

text \<open>Later readings of the system timer give later instants.\<close>

lemma monotonic_now_mono: "elapsed \<le> elapsed' \<Longrightarrow> monotonic_now elapsed k \<le> monotonic_now elapsed' k"
  by (auto simp: monotonic_now_def ts_saturating_add_def word_le_nat_alt unat_saturating_add unat_elapsed)

end
