(* ===== verification/Ledger_Debug.thy ===== *)
theory Ledger_Debug
  imports Ledger_Checks
begin

text \<open>
  The moves of \<open>crates/core/src/ledger.rs\<close> that the engine makes, with the assertions the source puts
  in them. Every operation \<open>x\<close> of \<open>Ledger\<close> has a twin \<open>x_in debug\<close> here; \<open>None\<close> is a panic, and with
  \<open>debug = False\<close> no assertion is compiled in. The theory \<open>Ledger_Debug_Safe\<close> shows that on a ledger
  that satisfies the invariant the two builds do the same and no assertion fires.
\<close>

section \<open>Assertions\<close>

text \<open>\<open>debug_assert!(condition)\<close> before the rest, and \<open>assert_invariants\<close> after a mutation.\<close>

definition demand :: "bool \<Rightarrow> bool \<Rightarrow> 'a option \<Rightarrow> 'a option" where
  "demand debug condition rest = (if debug \<and> \<not> condition then None else rest)"

definition asserted :: "bool \<Rightarrow> ledger \<Rightarrow> ledger option" where
  "asserted debug l = map_option (\<lambda>_. l) (assert_invariants debug l)"

text \<open>\<open>Slab::insert\<close> asserts that the free list does not point at an occupied slot.\<close>

definition free_head_vacant :: "'a slab \<Rightarrow> bool" where
  "free_head_vacant s =
     (case get_idx (slots s) (free_head s) of
        None \<Rightarrow> True
      | Some slot \<Rightarrow> (case sl_state slot of Vacant _ \<Rightarrow> True | Occupied _ \<Rightarrow> False))"

definition slab_insert_in :: "bool \<Rightarrow> 'a slab \<Rightarrow> 'a \<Rightarrow> (slab_full + handle \<times> 'a slab) option" where
  "slab_insert_in debug s value = demand debug (free_head_vacant s) (Some (slab_insert s value))"

section \<open>Chain plumbing\<close>

definition set_owner_claim_in :: "bool \<Rightarrow> res_owner \<Rightarrow> res_idx option \<Rightarrow> ledger \<Rightarrow> ledger option" where
  "set_owner_claim_in debug owner claim l =
     demand debug (owner_claim l owner \<noteq> None) (Some (set_owner_claim owner claim l))"

partial_function (option) expiry_position_in :: "bool \<Rightarrow> ledger \<Rightarrow> ts \<Rightarrow> link \<Rightarrow> u32 option option" where
  "expiry_position_in debug l expires_at cursor =
     (case link_index cursor of
        None \<Rightarrow> Some None
      | Some candidate \<Rightarrow>
          (case reservation_at l candidate of
             None \<Rightarrow> demand debug False (Some None)
           | Some r \<Rightarrow>
               (case res_links r of
                  Committed _ _ _ \<Rightarrow> demand debug False (Some None)
                | Reserved theirs prev _ \<Rightarrow>
                    if theirs \<le> expires_at then Some (Some candidate)
                    else expiry_position_in debug l expires_at prev)))"

declare expiry_position_in.simps [code]

text \<open>\<open>Link::to\<close>, used by both splices on \<open>index\<close>, asserts that it is not the nil link.\<close>

definition link_into_expiry_chain_in :: "bool \<Rightarrow> account_idx \<Rightarrow> u32 \<Rightarrow> ts \<Rightarrow> ledger \<Rightarrow> ledger option" where
  "link_into_expiry_chain_in debug a index expires_at l =
     (case account l a of
        None \<Rightarrow> demand debug False (Some l)
      | Some entry \<Rightarrow>
          (case expiry_position_in debug l expires_at (expiry_tail entry) of
             None \<Rightarrow> None
           | Some after \<Rightarrow> demand debug (index \<noteq> NIL)
               (Some (case after of Some at \<Rightarrow> splice_after a index at l | None \<Rightarrow> splice_at_head a index l))))"

definition unlink_from_chain_in :: "bool \<Rightarrow> account_idx \<Rightarrow> u32 \<Rightarrow> ledger \<Rightarrow> ledger option" where
  "unlink_from_chain_in debug a index l =
     demand debug (reservation_at l index \<noteq> None) (Some (unlink_from_chain a index l))"

definition link_into_committed_list_in :: "bool \<Rightarrow> req_idx \<Rightarrow> u32 \<Rightarrow> ledger \<Rightarrow> ledger option" where
  "link_into_committed_list_in debug req index l =
     demand debug (index \<noteq> NIL) (Some (link_into_committed_list req index l))"

section \<open>Reserving against a fresh owner\<close>

definition link_claim_in ::
  "bool \<Rightarrow> account_idx \<Rightarrow> res_idx \<Rightarrow> ts \<Rightarrow> res_owner \<Rightarrow> amount \<Rightarrow> ledger \<Rightarrow> ledger option" where
  "link_claim_in debug a claim expires_at owner reserved l = do {
     l1 \<leftarrow> link_into_expiry_chain_in debug a (h_index claim) expires_at l;
     set_owner_claim_in debug owner (Some claim) (account_update a (set_reserved reserved) l1) }"

definition insert_claim_in ::
  "bool \<Rightarrow> account_idx \<Rightarrow> amount \<Rightarrow> res_owner \<Rightarrow> ts \<Rightarrow> ledger \<Rightarrow> (ledger_error + res_idx \<times> ledger) option" where
  "insert_claim_in debug a amount owner expires_at l = map_option
     (\<lambda>inserted. case inserted of
        Inl _ \<Rightarrow> Inl (SlabExhausted ReservationSlab)
      | Inr (claim, reservations) \<Rightarrow> Inr (claim, l\<lparr> l_reservations := reservations \<rparr>))
     (slab_insert_in debug (l_reservations l) (reservation_reserved a amount owner expires_at))"

definition open_quote_reserving_in :: "bool \<Rightarrow> ledger \<Rightarrow> quote \<Rightarrow> amount \<Rightarrow> (quote_idx \<times> res_idx) lres" where
  "open_quote_reserving_in debug l record amount =
     (let expires_at = q_expires_at record; a = q_maker record in
      case check_reservable l a amount of
        Inl e \<Rightarrow> Some (Inl e, l)
      | Inr reserved \<Rightarrow>
          if \<not> slab_has_room (l_quotes l) then Some (Inl (SlabExhausted QuoteSlab), l)
          else if \<not> slab_has_room (l_reservations l) then Some (Inl (SlabExhausted ReservationSlab), l)
          else (case slab_insert_in debug (l_quotes l) record of
                  None \<Rightarrow> None
                | Some (Inl _) \<Rightarrow> Some (Inl (SlabExhausted QuoteSlab), l)
                | Some (Inr (q, quotes)) \<Rightarrow>
                    (let l1 = l\<lparr> l_quotes := quotes \<rparr>; owner = OwnerQuote q in
                     case insert_claim_in debug a amount owner expires_at l1 of
                       None \<Rightarrow> None
                     | Some (Inl e) \<Rightarrow> Some (Inl e, l1)
                     | Some (Inr (claim, l2)) \<Rightarrow> do {
                         l3 \<leftarrow> link_claim_in debug a claim expires_at owner reserved l2;
                         l4 \<leftarrow> asserted debug l3;
                         Some (Inr (q, claim), l4) })))"

definition open_request_reserving_in :: "bool \<Rightarrow> ledger \<Rightarrow> request \<Rightarrow> amount \<Rightarrow> (req_idx \<times> res_idx) lres" where
  "open_request_reserving_in debug l record amount =
     (let expires_at = rq_deadline record; a = rq_requester record in
      case check_reservable l a amount of
        Inl e \<Rightarrow> Some (Inl e, l)
      | Inr reserved \<Rightarrow>
          if \<not> slab_has_room (l_requests l) then Some (Inl (SlabExhausted RequestSlab), l)
          else if \<not> slab_has_room (l_reservations l) then Some (Inl (SlabExhausted ReservationSlab), l)
          else (case slab_insert_in debug (l_requests l) record of
                  None \<Rightarrow> None
                | Some (Inl _) \<Rightarrow> Some (Inl (SlabExhausted RequestSlab), l)
                | Some (Inr (r, requests)) \<Rightarrow>
                    (let l1 = l\<lparr> l_requests := requests \<rparr>; owner = OwnerRequest r in
                     case insert_claim_in debug a amount owner expires_at l1 of
                       None \<Rightarrow> None
                     | Some (Inl e) \<Rightarrow> Some (Inl e, l1)
                     | Some (Inr (claim, l2)) \<Rightarrow> do {
                         l3 \<leftarrow> link_claim_in debug a claim expires_at owner reserved l2;
                         l4 \<leftarrow> asserted debug l3;
                         Some (Inr (r, claim), l4) })))"

section \<open>Normalisation\<close>

definition reclaim_in :: "bool \<Rightarrow> account_idx \<Rightarrow> u32 \<Rightarrow> handle \<Rightarrow> reservation \<Rightarrow> ledger \<Rightarrow> ledger option" where
  "reclaim_in debug a index h r l = do {
     l1 \<leftarrow> unlink_from_chain_in debug a index l;
     l2 \<leftarrow> set_owner_claim_in debug (res_owner_of r) None
             (account_update a (\<lambda>b. set_reserved (saturating_sub (mb_reserved b) (res_amount r)) b) l1);
     demand debug (fst (slab_remove (l_reservations l2) h) \<noteq> None) (Some (remove_claim h l2)) }"

lemma demand_Some: "demand debug condition rest = Some x \<longleftrightarrow> (debug \<longrightarrow> condition) \<and> rest = Some x"
  by (auto simp: demand_def)

lemma reclaim_in_Some: "reclaim_in debug a index h r l = Some l' \<Longrightarrow> l' = reclaim a index h r l"
  by (auto simp: reclaim_in_def reclaim_def unlink_from_chain_in_def set_owner_claim_in_def demand_Some bind_eq_Some_conv)

function reclaim_loop_in :: "bool \<Rightarrow> account_idx \<Rightarrow> ts \<Rightarrow> link \<Rightarrow> u32 \<Rightarrow> ledger \<Rightarrow> (u32 \<times> ledger) option" where
  "reclaim_loop_in debug a now cursor reclaimed l =
     (case link_index cursor of
        None \<Rightarrow> Some (reclaimed, l)
      | Some index \<Rightarrow>
          (case reservation_at l index of
             None \<Rightarrow> demand debug False (Some (reclaimed, l))
           | Some r \<Rightarrow>
               (case res_is_expired_at r now of
                  None \<Rightarrow> demand debug False (Some (reclaimed, l))
                | Some expired \<Rightarrow>
                    if \<not> expired then Some (reclaimed, l)
                    else
                      (case slab_handle_at (l_reservations l) index of
                         None \<Rightarrow> demand debug False (Some (reclaimed, l))
                       | Some h \<Rightarrow>
                           (case reclaim_in debug a index h r l of
                              None \<Rightarrow> None
                            | Some l' \<Rightarrow>
                                reclaim_loop_in debug a now (snd (neighbours r)) (saturating_add reclaimed 1) l')))))"
  by pat_completeness auto

termination
  by (relation "measure (\<lambda>(debug, a, now, cursor, reclaimed, l). card (occupied l))")
    (auto intro: card_reclaim dest!: reclaim_in_Some)

declare reclaim_loop_in.simps [simp del]

definition release_expired_in :: "bool \<Rightarrow> ledger \<Rightarrow> account_idx \<Rightarrow> ts \<Rightarrow> u32 lres" where
  "release_expired_in debug l a now =
     (case account l a of
        None \<Rightarrow> Some (Inl UnknownAccount, l)
      | Some entry \<Rightarrow> do {
          (reclaimed, l1) \<leftarrow> reclaim_loop_in debug a now (expiry_head entry) 0 l;
          _ \<leftarrow> assert_normalised debug l1 a now;
          l2 \<leftarrow> asserted debug l1;
          Some (Inr reclaimed, l2) })"

section \<open>The commit phase\<close>

definition cp_release_in :: "bool \<Rightarrow> res_idx \<Rightarrow> ledger \<Rightarrow> ledger option" where
  "cp_release_in debug claim l =
     (case reservation l claim of
        None \<Rightarrow> demand debug False (Some l)
      | Some r \<Rightarrow>
          if is_committed r then demand debug False (Some l)
          else
            (let a = res_account r; amount = res_amount r; owner = res_owner_of r in do {
             l1 \<leftarrow> unlink_from_chain_in debug a (h_index claim) l;
             l2 \<leftarrow> set_owner_claim_in debug owner None
                     (account_update a (\<lambda>b. set_reserved (saturating_sub (mb_reserved b) amount) b) l1);
             asserted debug (remove_claim claim l2) }))"

text \<open>\<open>set_amount\<close> asserts that a claim only shrinks.\<close>

definition cp_commit_in :: "bool \<Rightarrow> res_idx \<Rightarrow> req_idx \<Rightarrow> amount \<Rightarrow> ledger \<Rightarrow> ledger option" where
  "cp_commit_in debug claim req keep l =
     (case reservation l claim of
        None \<Rightarrow> demand debug False (Some l)
      | Some r \<Rightarrow>
          if is_committed r then demand debug False (Some l)
          else demand debug (keep \<le> res_amount r)
            (let a = res_account r;
                 reserved_before = res_amount r;
                 kept = min keep reserved_before
             in do {
               l1 \<leftarrow> unlink_from_chain_in debug a (h_index claim) l;
               l2 \<leftarrow> demand debug (case reservation_at l1 (h_index claim) of None \<Rightarrow> True | Some r1 \<Rightarrow> kept \<le> res_amount r1)
                       (Some (reservation_at_update (h_index claim) (set_amount kept) l1));
               l3 \<leftarrow> link_into_committed_list_in debug req (h_index claim) l2;
               asserted debug (account_update a
                 (\<lambda>b. set_committed (saturating_add (mb_committed b) kept)
                        (set_reserved (saturating_sub (mb_reserved b) reserved_before) b)) l3) }))"

definition cp_close_quote_in :: "bool \<Rightarrow> quote_idx \<Rightarrow> ledger \<Rightarrow> ledger option" where
  "cp_close_quote_in debug q l =
     demand debug (case quote l q of None \<Rightarrow> False | Some record \<Rightarrow> q_claim record = None)
       (asserted debug (cp_close_quote q l))"

definition discharge_claim_in :: "bool \<Rightarrow> handle \<Rightarrow> reservation \<Rightarrow> ledger \<Rightarrow> ledger option" where
  "discharge_claim_in debug h r l = map_option (remove_claim h)
     (set_owner_claim_in debug (res_owner_of r) None
       (account_update (res_account r)
         (\<lambda>b. set_committed (saturating_sub (mb_committed b) (res_amount r)) b) l))"

lemma discharge_claim_in_Some: "discharge_claim_in debug h r l = Some l' \<Longrightarrow> l' = discharge_claim h r l"
  by (auto simp: discharge_claim_in_def discharge_claim_def set_owner_claim_in_def demand_Some)

function discharge_loop_in ::
  "bool \<Rightarrow> (res_owner \<Rightarrow> amount \<Rightarrow> 's \<Rightarrow> 's) \<Rightarrow> link \<Rightarrow> u32 \<Rightarrow> ledger \<times> 's \<Rightarrow> (ledger \<times> 's) option" where
  "discharge_loop_in debug visit cursor steps (l, st) =
     (case link_index cursor of
        None \<Rightarrow> Some (l, st)
      | Some index \<Rightarrow>
          (case reservation_at l index of
             None \<Rightarrow> demand debug False (Some (l, st))
           | Some r \<Rightarrow>
               (case slab_handle_at (l_reservations l) index of
                  None \<Rightarrow> Some (l, st)
                | Some h \<Rightarrow>
                    (case discharge_claim_in debug h r l of
                       None \<Rightarrow> None
                     | Some l' \<Rightarrow>
                         (let st' = visit (res_owner_of r) (res_amount r) st;
                              steps' = saturating_add steps 1
                          in if steps' > slab_capacity (l_reservations l') then demand debug False (Some (l', st'))
                             else discharge_loop_in debug visit (snd (neighbours r)) steps' (l', st'))))))"
  by pat_completeness auto

termination
  by (relation "measure (\<lambda>(debug, visit, cursor, steps, l, st). card (occupied l))")
    (auto intro: card_discharge dest!: discharge_claim_in_Some)

declare discharge_loop_in.simps [simp del]

definition discharge_committed_in ::
  "bool \<Rightarrow> req_idx \<Rightarrow> (res_owner \<Rightarrow> amount \<Rightarrow> 's \<Rightarrow> 's) \<Rightarrow> ledger \<times> 's \<Rightarrow> (ledger \<times> 's) option" where
  "discharge_committed_in debug req visit ls =
     (let cursor = (case request (fst ls) req of None \<Rightarrow> NIL | Some r \<Rightarrow> rq_committed_head r) in do {
      (l1, st1) \<leftarrow> discharge_loop_in debug visit cursor 0 ls;
      l2 \<leftarrow> asserted debug (request_update req (\<lambda>r. request_set_claim None (request_set_head NIL r)) l1);
      Some (l2, st1) })"

end
