(* ===== verification/Engine_Debug.thy ===== *)
theory Engine_Debug
  imports Engine Ledger_Debug
begin

text \<open>
  The engine of \<open>crates/core/src/engine.rs\<close> with the assertions that a debug build compiles in: those
  of \<open>Engine::apply\<close> and its handlers, of the ledger moves they make (\<open>Ledger_Debug\<close>), of the event
  buffer's \<open>push\<close> and of the selection walk. Every handler \<open>x\<close> of \<open>Engine\<close> whose code path contains
  an assertion has a twin \<open>x_in debug\<close>; \<open>None\<close> is a panic. With \<open>debug = False\<close> no assertion is
  compiled in. The theory \<open>Engine_Debug_Safe\<close> shows that none of them fires on a reachable engine.
\<close>

section \<open>Leg chains\<close>

text \<open>The walk of \<open>best_on_leg\<close> counts its steps, and asserts that the count fits a byte.\<close>

definition chain_fits_byte :: "ledger \<Rightarrow> leg \<Rightarrow> bool" where
  "chain_fits_byte l leg =
     (case walk_leg l leg (\<lambda>_ steps. Suc steps) 0 of None \<Rightarrow> False | Some steps \<Rightarrow> steps < 2 ^ 8)"

definition best_on_leg_in :: "bool \<Rightarrow> ledger \<Rightarrow> leg \<Rightarrow> ts \<Rightarrow> (no_quote_reason + selection) option" where
  "best_on_leg_in debug l leg now = demand debug (chain_fits_byte l leg) (best_on_leg l leg now)"

definition link_quote_in :: "bool \<Rightarrow> req_idx \<Rightarrow> leg_id \<Rightarrow> quote_idx \<Rightarrow> ledger \<Rightarrow> ledger option" where
  "link_quote_in debug r lid q l = demand debug (h_index q \<noteq> NIL) (Some (link_quote r lid q l))"

definition publish_selection_in ::
  "bool \<Rightarrow> req_idx \<Rightarrow> leg_id \<Rightarrow> ts \<Rightarrow> ledger \<times> event_buffer \<Rightarrow> (ledger \<times> event_buffer) option" where
  "publish_selection_in debug r lid now lb =
     (let l = fst lb; b = snd lb in
      case leg_of l r lid of
        None \<Rightarrow> Some lb
      | Some leg \<Rightarrow>
          (case best_on_leg_in debug l leg now of
             None \<Rightarrow> None
           | Some (Inl _) \<Rightarrow> Some lb
           | Some (Inr best) \<Rightarrow>
               if leg_published leg = Some (sel_price best) then Some lb
               else Some (leg_update r lid (leg_published_update (\<lambda>_. Some (sel_price best))) l,
                          eb_push (BestSelectionChanged r lid (sel_price best)) b)))"

text \<open>The release of the claim a quote holds, if it holds one.\<close>

definition release_held_in :: "bool \<Rightarrow> res_idx option \<Rightarrow> ledger \<Rightarrow> ledger option" where
  "release_held_in debug held l = (case held of None \<Rightarrow> Some l | Some claim \<Rightarrow> cp_release_in debug claim l)"

definition release_one_in ::
  "bool \<Rightarrow> req_idx \<Rightarrow> leg_id \<Rightarrow> ts \<Rightarrow> quote_reject_reason \<Rightarrow> quote_idx \<Rightarrow> ledger \<times> event_buffer \<Rightarrow> (ledger \<times> event_buffer) option" where
  "release_one_in debug r lid now reason handle lb =
     (let l = fst lb; b = snd lb in
      case quote l handle of
        None \<Rightarrow> Some lb
      | Some q \<Rightarrow>
          (let maker = q_maker q;
               expired = (\<not> quote_is_live_at q now);
               b' = eb_push (if expired then QuoteExpired handle maker
                             else QuoteRejected handle maker reason) b
           in do {
             l1 \<leftarrow> release_held_in debug (q_claim q) l;
             l3 \<leftarrow> unlink_quote r lid handle (quote_update handle (quote_set_state QuoteReleased) l1);
             l4 \<leftarrow> cp_close_quote_in debug handle l3;
             Some (l4, b') }))"

definition release_leg_in ::
  "bool \<Rightarrow> req_idx \<Rightarrow> leg_id \<Rightarrow> selection option \<Rightarrow> ts \<Rightarrow> quote_reject_reason \<Rightarrow> ledger \<times> event_buffer \<Rightarrow> (ledger \<times> event_buffer) option" where
  "release_leg_in debug r lid keep now reason lb =
     (case leg_of (fst lb) r lid of
        None \<Rightarrow> demand debug False (Some lb)
      | Some leg \<Rightarrow>
          (case walk_leg (fst lb) leg (doom keep) (replicate MAX_QUOTES_PER_LEG None, 0) of
             None \<Rightarrow> None
           | Some (doomed, count) \<Rightarrow> demand debug (count \<le> MAX_QUOTES_PER_LEG)
               (fold_opt (release_one_in debug r lid now reason) (somes doomed) lb)))"

section \<open>The handlers\<close>

definition submit_request_in ::
  "bool \<Rightarrow> account_idx \<Rightarrow> ts \<Rightarrow> leg_spec list \<Rightarrow> u8 \<Rightarrow> ts \<Rightarrow> world \<Rightarrow> outcome_of" where
  "submit_request_in debug requester deadline legs n_legs now w =
     (let (e, b) = w; config = e_config e; l = e_ledger e in
      if n_legs = 0 then Some (Inl NoLegs, w)
      else if unat n_legs > unat (max_legs config) then Some (Inl TooManyLegs, w)
      else if deadline \<le> now then Some (Inl DeadlineInThePast, w)
      else if ts_saturating_sub deadline now > max_request_ttl config then Some (Inl DeadlineTooFar, w)
      else
        (case fold_res (admit_leg config l now legs) [0..<unat n_legs]
                (replicate MAX_LEGS leg_default, replicate MAX_LEGS open_leg_default, 0) of
           Inl err \<Rightarrow> Some (Inl err, w)
         | Inr (stored, opened, amount) \<Rightarrow>
             (case eb_headroom b 1 of
                Inl _ \<Rightarrow> Some (Inl EventBufferFull, w)
              | Inr _ \<Rightarrow>
                  (case open_request_reserving_in debug l (request_new requester deadline stored n_legs) amount of
                     None \<Rightarrow> None
                   | Some (Inl err, l') \<Rightarrow> Some (Inl (LedgerErr err), (e\<lparr> e_ledger := l' \<rparr>, b))
                   | Some (Inr (r, _), l') \<Rightarrow>
                       Some (Inr (), (e\<lparr> e_ledger := l' \<rparr>,
                                      eb_push (RequestOpened r deadline opened n_legs) b))))))"

definition reject_request_in :: "bool \<Rightarrow> req_idx \<Rightarrow> ts \<Rightarrow> world \<Rightarrow> outcome_of" where
  "reject_request_in debug r now w =
     (let (e, b) = w; l = e_ledger e in
      case request l r of
        None \<Rightarrow> Some (Inl UnknownRequest, w)
      | Some record \<Rightarrow>
          if rq_state record \<noteq> ReqOpen then Some (Inl RequestNotOpen, w)
          else
            let claim = rq_claim record;
                n_legs = rq_n_legs record;
                worst_case = unat n_legs * unat (max_quotes_per_leg (e_config e))
            in if worst_case \<ge> 2 ^ 64 then Some (Inl E_AmountOverflow, w)
               else
                 (case eb_headroom b worst_case of
                    Inl _ \<Rightarrow> Some (Inl EventBufferFull, w)
                  | Inr _ \<Rightarrow> do {
                      (l1, b1) \<leftarrow> fold_opt (\<lambda>lid. release_leg_in debug r lid None now RequestRejected) (leg_ids n_legs) (l, b);
                      l2 \<leftarrow> release_held_in debug claim l1;
                      Some (Inr (), (e\<lparr> e_ledger := request_update r (request_set_state ReqRejected) l2 \<rparr>, b1)) }))"

definition replace_standing_in ::
  "bool \<Rightarrow> account_idx \<Rightarrow> req_idx \<Rightarrow> leg_id \<Rightarrow> quote_idx option \<Rightarrow> ledger \<times> event_buffer \<Rightarrow> (ledger \<times> event_buffer) option" where
  "replace_standing_in debug maker r lid standing lb =
     (case standing of
        None \<Rightarrow> Some lb
      | Some q \<Rightarrow>
          (let l = fst lb; b' = eb_push (QuoteRejected q maker Replaced) (snd lb) in do {
             l1 \<leftarrow> release_held_in debug (Option.bind (quote l q) q_claim) l;
             l3 \<leftarrow> unlink_quote r lid q (quote_update q (quote_set_state QuoteReleased) l1);
             l4 \<leftarrow> cp_close_quote_in debug q l3;
             Some (l4, b') }))"

definition submit_quote_in ::
  "bool \<Rightarrow> account_idx \<Rightarrow> req_idx \<Rightarrow> leg_id \<Rightarrow> price \<Rightarrow> size \<Rightarrow> ts \<Rightarrow> ts \<Rightarrow> world \<Rightarrow> outcome_of" where
  "submit_quote_in debug maker r lid p sz expires_at now w =
     (let (e, b) = w in
      case check_quote e maker r lid p sz expires_at now of
        None \<Rightarrow> None
      | Some (Inl err) \<Rightarrow> Some (Inl err, w)
      | Some (Inr (leg, standing)) \<Rightarrow>
          (case maker_contribution (leg_size leg) p of
             None \<Rightarrow> Some (Inl E_AmountOverflow, w)
           | Some contribution \<Rightarrow>
               (case eb_headroom b 2 of
                  Inl _ \<Rightarrow> Some (Inl EventBufferFull, w)
                | Inr _ \<Rightarrow>
                    (case replace_standing_in debug maker r lid standing (e_ledger e, b) of
                       None \<Rightarrow> None
                     | Some (l1, b1) \<Rightarrow>
                         let arrival = e_next_arrival e;
                             e1 = e\<lparr> e_ledger := l1, e_next_arrival := saturating_add arrival 1 \<rparr>
                         in (case open_quote_reserving_in debug l1 (quote_new maker r lid p sz expires_at arrival) contribution of
                               None \<Rightarrow> None
                             | Some (Inl err, l2) \<Rightarrow> Some (Inl (LedgerErr err), (e1\<lparr> e_ledger := l2 \<rparr>, b1))
                             | Some (Inr (q, _), l2) \<Rightarrow> do {
                                 l3 \<leftarrow> link_quote_in debug r lid q l2;
                                 (l4, b2) \<leftarrow> publish_selection_in debug r lid now (l3, b1);
                                 Some (Inr (), (e1\<lparr> e_ledger := l4 \<rparr>, b2)) })))))"

text \<open>A leg of the plan: the selection walk is the first thing done with it.\<close>

definition plan_leg_in ::
  "bool \<Rightarrow> ledger \<Rightarrow> request \<Rightarrow> expected_fill list \<Rightarrow> ts \<Rightarrow> nat \<Rightarrow> selection option list \<times> amount
     \<Rightarrow> (engine_error + selection option list \<times> amount) option" where
  "plan_leg_in debug l record expected now index acc =
     demand debug (case nth_opt (request_legs record) index of None \<Rightarrow> True | Some leg \<Rightarrow> chain_fits_byte l leg)
       (plan_leg l record expected now index acc)"

definition plan_accept_in ::
  "bool \<Rightarrow> ledger \<Rightarrow> request \<Rightarrow> expected_fill list \<Rightarrow> ts \<Rightarrow> (engine_error + selection option list \<times> amount) option" where
  "plan_accept_in debug l record expected now =
     fold_plan (plan_leg_in debug l record expected now) [0..<unat (rq_n_legs record)] (replicate MAX_LEGS None, 0)"

text \<open>The checks before the commit: the guards, the plan (which can panic), and the rest of the checks.\<close>

definition check_accept_in ::
  "bool \<Rightarrow> engine \<Rightarrow> event_buffer \<Rightarrow> req_idx \<Rightarrow> expected_fill list \<Rightarrow> u8 \<Rightarrow> ts
     \<Rightarrow> (engine_error + request \<times> selection option list \<times> amount \<times> res_idx \<times> intent_leg list) option" where
  "check_accept_in debug e b r expected n_legs now =
     (let l = e_ledger e in
      case request l r of
        None \<Rightarrow> Some (Inl UnknownRequest)
      | Some record \<Rightarrow>
          if rq_state record \<noteq> ReqOpen then Some (Inl RequestNotOpen)
          else if now \<ge> rq_deadline record then Some (Inl RequestDeadlinePassed)
          else if n_legs \<noteq> rq_n_legs record then Some (Inl LegCountMismatch)
          else
            (case plan_accept_in debug l record expected now of
               None \<Rightarrow> None
             | Some (Inl err) \<Rightarrow> Some (Inl err)
             | Some (Inr (plan, requester_total)) \<Rightarrow> Some
                 (case rq_claim record of
                    None \<Rightarrow> Inl ReservationShortfall
                  | Some claim \<Rightarrow>
                      (case reservation l claim of
                         None \<Rightarrow> Inl ReservationShortfall
                       | Some c \<Rightarrow>
                           if requester_total > res_amount c then Inl ReservationShortfall
                           else
                             let worst_case = unat (rq_n_legs record) * unat (max_quotes_per_leg (e_config e)) + 1
                             in if worst_case \<ge> 2 ^ 64 then Inl E_AmountOverflow
                                else and_then (lift_buffer (eb_headroom b worst_case)) (\<lambda>_.
                                     and_then (build_intent l record plan) (\<lambda>intent.
                                       Inr (record, plan, requester_total, claim, intent)))))))"

definition commit_winner_in :: "bool \<Rightarrow> req_idx \<Rightarrow> selection \<Rightarrow> ledger \<Rightarrow> ledger option" where
  "commit_winner_in debug r winner l =
     (let claim = Option.bind (quote l (sel_quote winner)) q_claim;
          amount = (case Option.bind claim (reservation l) of None \<Rightarrow> 0 | Some c \<Rightarrow> res_amount c);
          l1 = quote_update (sel_quote winner) (quote_set_state QuoteConsumed) l
      in case claim of None \<Rightarrow> Some l1 | Some c \<Rightarrow> cp_commit_in debug c r amount l1)"

definition accept_leg_in ::
  "bool \<Rightarrow> req_idx \<Rightarrow> selection option list \<Rightarrow> ts \<Rightarrow> nat \<Rightarrow> ledger \<times> event_buffer \<Rightarrow> (ledger \<times> event_buffer) option" where
  "accept_leg_in debug r plan now index lb =
     (let winner = Option.bind (nth_opt plan index) (\<lambda>w. w) in
      case release_leg_in debug r (word_of_nat index) winner now Outbid lb of
        None \<Rightarrow> None
      | Some (l1, b1) \<Rightarrow>
          (case winner of
             None \<Rightarrow> Some (l1, b1)
           | Some s \<Rightarrow> map_option (\<lambda>l2. (l2, b1)) (commit_winner_in debug r s l1)))"

definition accept_request_in ::
  "bool \<Rightarrow> req_idx \<Rightarrow> expected_fill list \<Rightarrow> u8 \<Rightarrow> ts \<Rightarrow> world \<Rightarrow> outcome_of" where
  "accept_request_in debug r expected n_legs now w =
     (let (e, b) = w in
      case check_accept_in debug e b r expected n_legs now of
        None \<Rightarrow> None
      | Some (Inl err) \<Rightarrow> Some (Inl err, w)
      | Some (Inr (record, plan, requester_total, claim, intent)) \<Rightarrow> do {
          (l1, b1) \<leftarrow> fold_opt (accept_leg_in debug r plan now) [0..<unat (rq_n_legs record)] (e_ledger e, b);
          l2 \<leftarrow> cp_commit_in debug claim r requester_total l1;
          (let deadline = ts_saturating_add now (max_settling_time (e_config e));
               l3 = request_update r (request_set_state (ReqSettling (nonce_of r) deadline)) l2
           in Some (Inr (), (e\<lparr> e_ledger := l3 \<rparr>,
                eb_push (SubmitIntent r (nonce_of r) (rq_requester record) intent (rq_n_legs record)) b1))) })"

definition close_consumed_quotes_in :: "bool \<Rightarrow> req_idx \<Rightarrow> ledger \<Rightarrow> ledger option" where
  "close_consumed_quotes_in debug r l = fold_opt (cp_close_quote_in debug) (take MAX_LEGS (consumed_of l r)) l"

definition poll_settlement_in :: "bool \<Rightarrow> nonce \<Rightarrow> tx_status \<Rightarrow> ts \<Rightarrow> world \<Rightarrow> outcome_of" where
  "poll_settlement_in debug reported status now w =
     (let (e, b) = w; l = e_ledger e in
      case resolve_nonce e reported of
        None \<Rightarrow> Some (Inl StaleNonce, w)
      | Some r \<Rightarrow>
          (case request l r of
             None \<Rightarrow> Some (Inl UnknownRequest, w)
           | Some record \<Rightarrow>
               (case rq_state record of
                  ReqSettling n deadline \<Rightarrow>
                    if n \<noteq> reported then Some (Inl StaleNonce, w)
                    else
                      let unresolved = Some
                            (if now < deadline then (Inr (), w)
                             else if eb_headroom b 1 = Inr ()
                             then (Inr (), (e, eb_push (SettlementStalled r n status) b))
                             else (Inl EventBufferFull, w))
                      in (case status of
                            TxUnknown \<Rightarrow> unresolved
                          | TxPending \<Rightarrow> unresolved
                          | TxSettled \<Rightarrow>
                              if eb_headroom b 1 \<noteq> Inr () then Some (Inl EventBufferFull, w)
                              else do {
                                (l1, _) \<leftarrow> discharge_committed_in debug r (\<lambda>_ _ u. u) (l, ());
                                l3 \<leftarrow> close_consumed_quotes_in debug r (request_update r (request_set_state ReqEscrowed) l1);
                                Some (Inr (), (e\<lparr> e_ledger := l3 \<rparr>, eb_push (RequestEscrowed r n) b)) }
                          | TxReverted \<Rightarrow>
                              let worst_case = unat (rq_n_legs record) + 1
                              in if eb_headroom b worst_case \<noteq> Inr () then Some (Inl EventBufferFull, w)
                                 else do {
                                   (l1, nc) \<leftarrow> discharge_committed_in debug r notice (l, (replicate MAX_LEGS None, 0));
                                   (let notices = map (with_maker l1) (somes (fst nc));
                                        b1 = foldl (\<lambda>b (q, maker). eb_push (QuoteRejected q maker SettlementFailed) b) b notices
                                    in do {
                                      l2 \<leftarrow> close_consumed_quotes_in debug r l1;
                                      (let l3 = request_update r (request_set_state ReqSettlementFailed) l2
                                       in Some (Inr (), (e\<lparr> e_ledger := l3 \<rparr>, eb_push (RequestSettlementFailed r n) b1))) }) })
                | _ \<Rightarrow> Some (Inl RequestNotSettling, w))))"

section \<open>One command\<close>

definition dispatch_in :: "bool \<Rightarrow> command \<Rightarrow> ts \<Rightarrow> world \<Rightarrow> outcome_of" where
  "dispatch_in debug c now w =
     (case c of
        SubmitRequest requester deadline legs n_legs \<Rightarrow> submit_request_in debug requester deadline legs n_legs now w
      | RejectRequest r \<Rightarrow> reject_request_in debug r now w
      | SubmitQuote maker r lid p sz expires_at \<Rightarrow> submit_quote_in debug maker r lid p sz expires_at now w
      | AcceptRequest r expected n_legs \<Rightarrow> accept_request_in debug r expected n_legs now w
      | PollSettlement n status \<Rightarrow> poll_settlement_in debug n status now w
      | _ \<Rightarrow> dispatch c now w)"

definition normalise_in :: "bool \<Rightarrow> ts \<Rightarrow> account_idx \<Rightarrow> engine \<Rightarrow> engine option" where
  "normalise_in debug now a e =
     map_option (\<lambda>(_, l). e\<lparr> e_ledger := l \<rparr>) (release_expired_in debug (e_ledger e) a now)"

definition normalised_in :: "bool \<Rightarrow> command \<Rightarrow> ts \<Rightarrow> engine \<Rightarrow> engine option" where
  "normalised_in debug c now e = fold_opt (normalise_in debug now) (somes (touched_accounts e c)) e"

text \<open>The arms of \<open>apply\<close> that leave it by \<open>?\<close> or \<open>return\<close> skip the coherence check at its end.\<close>

definition returns_early :: "command \<Rightarrow> engine_error + unit \<Rightarrow> bool" where
  "returns_early c res =
     (case c of
        CreditAccount _ _ \<Rightarrow> res \<noteq> Inr ()
      | RegisterContract _ _ \<Rightarrow> res \<noteq> Inr ()
      | CancelQuote _ \<Rightarrow> res = Inl UnknownQuote
      | _ \<Rightarrow> False)"

text \<open>
  \<open>Engine::apply\<close>. A push without room is the panic of \<open>EventBuffer::push\<close>: it shows in
  \<open>eb_dropped\<close>, wherever in the handler it happened.
\<close>

definition engine_apply_in :: "bool \<Rightarrow> command \<Rightarrow> ts \<Rightarrow> world \<Rightarrow> outcome_of" where
  "engine_apply_in debug c now w =
     demand debug (eb_is_empty (snd w))
       (case normalised_in debug c now (fst w) of
          None \<Rightarrow> None
        | Some e1 \<Rightarrow>
            demand debug (eb_is_empty (snd w))
              (case dispatch_in debug c now (e1, snd w) of
                 None \<Rightarrow> None
               | Some (res, (e2, b2)) \<Rightarrow>
                   demand debug (eb_dropped b2 = eb_dropped (snd w))
                     (demand debug (returns_early c res \<or> check_claim_state_coherence (e_ledger e2) = Inr ())
                       (Some (res, (e2, b2))))))"

end
