(* ===== verification/Ledger_Debug_Safe.thy ===== *)
theory Ledger_Debug_Safe
  imports Ledger_Debug Ledger_Checked
begin

text \<open>
  The assertions of \<open>Ledger_Debug\<close> never fire: on a ledger that satisfies the invariant every move of
  a debug build does what the release build does, and returns. A move of the commit phase needs the
  precondition its comment in \<open>crates/core/src/ledger.rs\<close> states, such as a claim that is still
  reserved.
\<close>

named_theorems debug_safe \<open>moves of a debug build that are those of a release build\<close>

section \<open>Assertions\<close>

lemma demand_simps [simp]:
  "demand debug True rest = rest" "demand False condition rest = rest"
  by (simp_all add: demand_def)

lemma asserted_inv [debug_safe]: "ledger_inv l \<Longrightarrow> asserted debug l = Some l"
  by (simp add: asserted_def assertion_holds)

lemma free_head_vacant_wf: "slab_wf s \<Longrightarrow> free_head_vacant s"
proof (cases "slab_has_room s")
  case True
  assume "slab_wf s"
  from slab_no_room_unless_inserted[OF this True, of undefined] show ?thesis
    by (auto simp: slab_insert_def free_head_vacant_def Let_def split: option.splits slot_state.splits)
next
  case False
  assume "slab_wf s"
  with False get_idx_NIL[OF slab_wfD(1)[OF this]] show ?thesis by (simp add: free_head_vacant_def slab_has_room_def)
qed

lemma slab_insert_safe: "slab_wf s \<Longrightarrow> slab_insert_in debug s v = Some (slab_insert s v)"
  by (simp add: slab_insert_in_def free_head_vacant_wf)

lemma insert_claim_safe: "slabs_wf l \<Longrightarrow> insert_claim_in debug a m ow e l = Some (insert_claim a m ow e l)"
  by (simp add: insert_claim_in_def insert_claim_def slab_insert_safe slabs_wf_def)

section \<open>Reserving\<close>

lemma expiry_position_safe:
  assumes "dseg (links l) NIL h ys c k" and "\<And>y. y \<in> set ys \<Longrightarrow> y \<in> on_expiry (claims l) a"
  shows "expiry_position_in debug l e c = expiry_position l e c"
  using assms
proof (induction ys arbitrary: c k rule: rev_induct)
  case Nil
  then show ?case by (simp add: expiry_position.simps expiry_position_in.simps)
next
  case (snoc y ys)
  from snoc.prems(1) obtain c' k' where seg': "dseg (links l) NIL h ys c' k'"
    and last: "dseg (links l) c' k' [y] c k" unfolding dseg_append by blast
  from last have cy: "c = y" "y \<noteq> NIL" "k' = y" and y: "links l y = Some (c', k)"
    by (auto split: option.splits)
  with seg' have seg: "dseg (links l) NIL h ys c' y" by simp
  from snoc.prems(2)[of y] obtain g m ow ey where c: "claims l y = Some (g, a, m, ow, OnExpiry ey)"
    by (auto simp: on_expiry_def)
  then obtain r where r: "slab_view (l_reservations l) y = Some (g, r)" "kind_of r = OnExpiry ey"
    by (auto simp: claims_Some_iff)
  have "neighbours r = (c', k)" using links_view[OF r(1)] y by simp
  note k = res_links_expiry(1)[OF r(2) this]
  have "expiry_position_in debug l e c' = expiry_position l e c'"
    by (rule snoc.IH[OF seg]) (use snoc.prems(2) in simp)
  then show ?case
    using r(1) cy(2) k unfolding cy(1)
    by (simp add: expiry_position.simps[of l e y] expiry_position_in.simps[of debug l e y] reservation_at_view link_index_def)
qed

lemma link_claim_safe:
  assumes inv: "ledger_inv l" and ins: "insert_claim a m ow e l = Inr (h, l1)"
    and b: "account l a = Some b" and ow: "owner_claim l ow = Some None"
    and r': "unat r' = unat (mb_reserved b) + unat m" "unat r' + unat (mb_committed b) < 2 ^ 64"
  shows "\<exists>l'. link_claim_in debug a h e ow r' l1 = Some l' \<and> link_claim a h e ow r' l1 = Some l' \<and> ledger_inv l'"
proof -
  note D = ledger_invD[OF inv] and I = insert_claim_spec[OF ledger_invD(1)[OF inv] ins]
  have en: "ends l a = Some (expiry_head b, expiry_tail b)" using account_Some_maps[OF b] by auto
  obtain xs where xs: "expiry_chain (claims l) (links l) a (expiry_head b) (expiry_tail b) xs"
    using expiry_okE[OF D(2) en] .
  then have dl: "dll (links l) (expiry_head b) (expiry_tail b) xs" and st: "set xs = on_expiry (claims l) a"
    by (simp_all add: expiry_chain_def)
  have ni: "h_index h \<notin> set xs" using I(1) st by simp
  have dl1: "dll (links l1) (expiry_head b) (expiry_tail b) xs"
    by (rule dll_frame[OF dl]) (use ni in \<open>auto simp: I(5)\<close>)
  have st1: "y \<in> on_expiry (claims l1) a" if "y \<in> set xs" for y
    using that I(1) st by (auto simp: I(4))
  obtain l2 where l2: "link_into_expiry_chain a (h_index h) e l1 = Some l2" "owner_claim l2 = owner_claim l"
    using link_fresh_claim[OF inv ins en] by metis
  have "link_into_expiry_chain_in debug a (h_index h) e l1 = Some l2"
    using l2(1) b I(2,6) expiry_position_safe[OF dl1[unfolded dll_def] st1, of debug e]
    by (auto simp: link_into_expiry_chain_def link_into_expiry_chain_in_def split: option.splits)
  moreover have "owner_claim (account_update a (set_reserved r') l2) ow \<noteq> None" using ow by (simp add: effects l2(2))
  moreover obtain l' where "link_claim a h e ow r' l1 = Some l'" "ledger_inv l'"
    using link_claim_spec[OF inv ins b ow r'] by metis
  ultimately show ?thesis using l2(1) by (simp add: link_claim_in_def link_claim_def set_owner_claim_in_def)
qed

text \<open>The common part of the two operations that open an owner with its claim.\<close>

lemma reserve_fresh_owner:
  assumes inv: "ledger_inv l1" and cr: "check_reservable l a m = Inr r'" and acc: "account l1 a = account l a"
    and ow: "owner_claim l1 ow = Some None" and ins: "insert_claim a m ow e l1 = Inr (h, l2)"
  shows "\<exists>l'. link_claim_in debug a h e ow r' l2 = Some l' \<and> link_claim a h e ow r' l2 = Some l' \<and> asserted debug l' = Some l'"
proof -
  obtain b where b: "account l a = Some b" "unat r' = unat (mb_reserved b) + unat m"
    "unat (mb_reserved b) + unat (mb_committed b) + unat m \<le> unat (mb_free b)"
    using cr by (auto simp: check_reservable_spec)
  have fit: "unat r' + unat (mb_committed b) < 2 ^ 64" using b(2,3) unat_lt_size[of "mb_free b"] by simp
  from link_claim_safe[OF inv ins acc[unfolded b(1)] ow b(2) fit, of debug] asserted_inv show ?thesis by blast
qed

lemma open_quote_reserving_safe [debug_safe]:
  assumes inv: "ledger_inv l" and none: "q_claim rec = None"
  shows "open_quote_reserving_in debug l rec m = open_quote_reserving l rec m"
proof (cases "check_reservable l (q_maker rec) m")
  case (Inl err)
  then show ?thesis by (simp add: open_quote_reserving_def open_quote_reserving_in_def Let_def)
next
  case (Inr r')
  have wf: "slab_wf (l_quotes l)" using ledger_invD(1)[OF inv] by (simp add: slabs_wf_def)
  show ?thesis
  proof (cases "slab_insert (l_quotes l) rec")
    case (Inl err)
    with Inr wf show ?thesis
      by (simp add: open_quote_reserving_def open_quote_reserving_in_def Let_def slab_insert_safe)
  next
    case ins: (Inr x)
    obtain q qs where x: "x = (q, qs)" by (cases x)
    define l1 where "l1 = l\<lparr>l_quotes := qs\<rparr>"
    note Q = insert_quote_inv[OF inv ins[unfolded x] none, folded l1_def]
    have ow: "owner_claim l1 (OwnerQuote q) = Some None" using none by (simp add: owner_claim_def Q(2))
    show ?thesis
    proof (cases "insert_claim (q_maker rec) m (OwnerQuote q) (q_expires_at rec) l1")
      case (Inl err)
      with Inr wf ins x Q(1) show ?thesis
        by (simp add: open_quote_reserving_def open_quote_reserving_in_def Let_def slab_insert_safe insert_claim_safe
            ledger_invD(1) l1_def[symmetric])
    next
      case cl: (Inr y)
      obtain h l2 where y: "y = (h, l2)" by (cases y)
      have "account l1 (q_maker rec) = account l (q_maker rec)" by (simp add: Q(5))
      from reserve_fresh_owner[OF Q(1) Inr this ow cl[unfolded y], of debug]
      show ?thesis using Inr wf ins x cl y Q(1)
        by (auto simp: open_quote_reserving_def open_quote_reserving_in_def Let_def slab_insert_safe insert_claim_safe
            ledger_invD(1) l1_def[symmetric])
    qed
  qed
qed

lemma open_request_reserving_safe [debug_safe]:
  assumes inv: "ledger_inv l" and none: "rq_claim rec = None" "rq_committed_head rec = NIL"
  shows "open_request_reserving_in debug l rec m = open_request_reserving l rec m"
proof (cases "check_reservable l (rq_requester rec) m")
  case (Inl err)
  then show ?thesis by (simp add: open_request_reserving_def open_request_reserving_in_def Let_def)
next
  case (Inr r')
  have wf: "slab_wf (l_requests l)" using ledger_invD(1)[OF inv] by (simp add: slabs_wf_def)
  show ?thesis
  proof (cases "slab_insert (l_requests l) rec")
    case (Inl err)
    with Inr wf show ?thesis
      by (simp add: open_request_reserving_def open_request_reserving_in_def Let_def slab_insert_safe)
  next
    case ins: (Inr x)
    obtain q qs where x: "x = (q, qs)" by (cases x)
    define l1 where "l1 = l\<lparr>l_requests := qs\<rparr>"
    note Q = insert_request_inv[OF inv ins[unfolded x] none, folded l1_def]
    have ow: "owner_claim l1 (OwnerRequest q) = Some None" using none by (simp add: owner_claim_def Q(2))
    show ?thesis
    proof (cases "insert_claim (rq_requester rec) m (OwnerRequest q) (rq_deadline rec) l1")
      case (Inl err)
      with Inr wf ins x Q(1) show ?thesis
        by (simp add: open_request_reserving_def open_request_reserving_in_def Let_def slab_insert_safe insert_claim_safe
            ledger_invD(1) l1_def[symmetric])
    next
      case cl: (Inr y)
      obtain h l2 where y: "y = (h, l2)" by (cases y)
      have "account l1 (rq_requester rec) = account l (rq_requester rec)" by (simp add: Q(5))
      from reserve_fresh_owner[OF Q(1) Inr this ow cl[unfolded y], of debug]
      show ?thesis using Inr wf ins x cl y Q(1)
        by (auto simp: open_request_reserving_def open_request_reserving_in_def Let_def slab_insert_safe insert_claim_safe
            ledger_invD(1) l1_def[symmetric])
    qed
  qed
qed

section \<open>Normalisation\<close>

text \<open>A claim that resolves is unlinked, its owner resolves, and it is removed.\<close>

lemma unlink_safe: "reservation l h = Some r \<Longrightarrow> unlink_from_chain_in debug a (h_index h) l = Some (unlink_from_chain a (h_index h) l)"
  by (simp add: unlink_from_chain_in_def reservation_at_index)

lemma owner_after_unlink:
  assumes inv: "ledger_inv l" and r: "reservation l h = Some r"
  shows "owner_claim (account_update a f (unlink_from_chain b (h_index h) l)) (res_owner_of r) \<noteq> None"
proof -
  have "owner_claim l (res_owner_of r) = Some (Some h)" using claim_facts[OF inv r] by metis
  then show ?thesis using unlink_effect(6)[OF reservation_at_index[OF r], of _ _ b]
    by (cases "neighbours r") (simp add: effects)
qed

lemma reclaim_safe:
  assumes inv: "ledger_inv l" and r: "reservation l h = Some r"
  shows "reclaim_in debug a (h_index h) h r l = Some (reclaim a (h_index h) h r l)"
proof -
  let ?l1 = "unlink_from_chain a (h_index h) l"
  let ?l2 = "account_update a (\<lambda>b. set_reserved (saturating_sub (mb_reserved b) (res_amount r)) b) ?l1"
  let ?l3 = "set_owner_claim (res_owner_of r) None ?l2"
  obtain p n where "neighbours r = (p, n)" by (cases "neighbours r")
  from unlink_effect(1)[OF reservation_at_index[OF r] this, of a]
  have "claims ?l3 = claims l" by (simp add: effects)
  from reservation_survives[OF r this] obtain r3 where "slab_get (l_reservations ?l3) h = Some r3"
    by (auto simp: reservation_def)
  then have "fst (slab_remove (l_reservations ?l3) h) \<noteq> None"
    by (auto simp: slab_remove_def slab_get_def slab_resolve_def split: option.splits slot_state.splits if_splits)
  with unlink_safe[OF r, of debug a] owner_after_unlink[OF inv r] show ?thesis
    by (simp add: reclaim_in_def reclaim_def set_owner_claim_in_def)
qed

lemma reclaim_loop_safe:
  assumes "ledger_inv l" and "ends l a = Some (cursor, t)"
  shows "reclaim_loop_in debug a now cursor n l = Some (reclaim_loop a now cursor n l)"
  using assms
proof (induction a now cursor n l arbitrary: t rule: reclaim_loop.induct)
  case (1 a now cursor n l)
  note inv = 1(2)
  obtain xs where xs: "expiry_chain (claims l) (links l) a cursor t xs"
    using expiry_okE[OF ledger_invD(2)[OF inv] 1(3)] .
  show ?case
  proof (cases xs)
    case Nil
    with xs have "cursor = NIL" by (auto simp: expiry_chain_def)
    then show ?thesis by (simp add: reclaim_loop.simps reclaim_loop_in.simps)
  next
    case (Cons x rest)
    then have cx: "cursor = x" "x \<noteq> NIL" and xin: "x \<in> on_expiry (claims l) a"
      using xs by (auto simp: expiry_chain_def dll_def)
    then obtain g m ow e where c: "claims l x = Some (g, a, m, ow, OnExpiry e)" by (auto simp: on_expiry_def)
    then obtain r where v: "slab_view (l_reservations l) x = Some (g, r)"
      and r: "res_account r = a" "kind_of r = OnExpiry e" by (auto simp: claims_Some_iff)
    define h where "h = \<lparr>h_index = x, h_generation = g\<rparr>"
    have hr: "reservation l h = Some r" "slab_handle_at (l_reservations l) x = Some h"
      "reservation_at l x = Some r" "h_index h = x"
      using v by (auto simp: reservation_Some_iff slab_handle_at_view reservation_at_view h_def)
    have nc: "\<not> is_committed r" using r(2) by (simp add: kind_of_cases(3))
    have ex: "res_is_expired_at r now = Some (e \<le> now)" by (simp add: res_is_expired_at_kind r)
    define l1 where "l1 = reclaim a x h r l"
    have l1: "l1 = drop_reserved (lower_reserved (res_amount r)) h r l"
      unfolding l1_def by (rule reclaim_eq) (simp_all add: r hr)
    obtain b where b: "account l (res_account r) = Some b" using claim_facts[OF inv hr(1)] by metis
    note D = drop_lowered[OF inv hr(1) nc b disjI1[OF refl], folded l1]
    from xs Cons have "dll (links l) cursor t (x # rest)" by (simp add: expiry_chain_def)
    then have "fst (neighbours r) = NIL"
      using links_view[OF v] by (cases "neighbours r") (auto simp: dll_def)
    then obtain t' where en1: "ends l1 a = Some (snd (neighbours r), t')"
      using D(6) 1(3) r(1) by auto
    have cur: "link_index cursor = Some x" using cx by simp
    note IH0 = 1(1)[OF cur hr(3) ex _ hr(2), folded l1_def, OF _ D(1) en1]
    show ?thesis
      using IH0 cur hr ex reclaim_safe[OF inv hr(1), of debug a]
      by (subst reclaim_loop.simps, subst reclaim_loop_in.simps) (simp add: l1_def link_index_def)
  qed
qed

lemma normalised_walk_ok:
  assumes "dseg (links l) p cursor xs q NIL"
    and "\<And>x. x \<in> set xs \<Longrightarrow> \<exists>g b m ow e. claims l x = Some (g, b, m, ow, OnExpiry e) \<and> now < e"
  shows "normalised_walk l a now cursor steps = Some (Inr ())"
  using assms
proof (induction xs arbitrary: p cursor steps)
  case Nil
  then show ?case by (simp add: normalised_walk.simps)
next
  case (Cons x xs)
  then obtain n where x: "cursor = x" "x \<noteq> NIL" "links l x = Some (p, n)" "dseg (links l) x n xs q NIL"
    by (auto split: option.splits)
  from Cons.prems(2)[of x] obtain g b m ow e where c: "claims l x = Some (g, b, m, ow, OnExpiry e)" "now < e" by auto
  then obtain r where v: "slab_view (l_reservations l) x = Some (g, r)" and k: "kind_of r = OnExpiry e"
    by (auto simp: claims_Some_iff)
  have "neighbours r = (p, n)" using links_view[OF v] x(3) by simp
  then have "snd (neighbours r) = n" by simp
  moreover have "res_is_expired_at r now = Some False" using c(2) by (simp add: res_is_expired_at_kind k)
  moreover have "normalised_walk l a now n s = Some (Inr ())" for s
    by (rule Cons.IH[OF x(4)]) (use Cons.prems(2) in simp)
  ultimately show ?case
    using x(2) v unfolding x(1) by (simp add: normalised_walk.simps[of l a now x] reservation_at_view link_index_def Let_def)
qed

lemma release_expired_safe [debug_safe]:
  assumes inv: "ledger_inv l"
  shows "release_expired_in debug l a now = Some (release_expired l a now)"
proof (cases "account l a")
  case None
  then show ?thesis by (simp add: release_expired_in_def release_expired_def)
next
  case (Some b)
  obtain n l' where L: "reclaim_loop a now (expiry_head b) 0 l = (n, l')" "ledger_inv l'" "same_market l l'"
    "claims l' = (\<lambda>i. if i \<in> expired_of (claims l) a now then None else claims l i)"
    using reclaim_loop_spec[OF inv account_Some_maps(1)[OF Some], of now 0] by blast
  have loop: "reclaim_loop_in debug a now (expiry_head b) 0 l = Some (n, l')"
    using reclaim_loop_safe[OF inv account_Some_maps(1)[OF Some]] L(1) by simp
  have "check_normalised l' a now = Some (Inr ())"
  proof (cases "account l' a")
    case (Some b')
    obtain xs where xs: "expiry_chain (claims l') (links l') a (expiry_head b') (expiry_tail b') xs"
      using expiry_okE[OF ledger_invD(2)[OF L(2)] account_Some_maps(1)[OF Some]] .
    have "\<exists>g b m ow e. claims l' x = Some (g, b, m, ow, OnExpiry e) \<and> now < e" if x: "x \<in> set xs" for x
    proof -
      obtain g m ow e where c: "claims l' x = Some (g, a, m, ow, OnExpiry e)"
        using expiry_chain_members(1)[OF xs x] by blast
      then have "claims l x = Some (g, a, m, ow, OnExpiry e)" "x \<notin> expired_of (claims l) a now"
        by (auto simp: L(4) split: if_splits)
      then have "now < e" by (auto simp: expired_of_def on_expiry_def expiry_at_def)
      with c show ?thesis by blast
    qed
    with xs show ?thesis
      using normalised_walk_ok[of l' NIL "expiry_head b'" xs "expiry_tail b'" now a 0]
      by (simp add: check_normalised_def Some expiry_chain_def dll_def)
  qed (simp add: check_normalised_def)
  then show ?thesis
    using Some loop L(1,2) by (simp add: release_expired_in_def release_expired_def assert_normalised_def asserted_inv)
qed

section \<open>The commit phase\<close>

lemma cp_release_safe [debug_safe]:
  assumes inv: "ledger_inv l" and r: "reservation l h = Some r" "\<not> is_committed r"
  shows "cp_release_in debug h l = Some (cp_release h l)"
  using r unlink_safe[OF r(1), of debug "res_account r"] owner_after_unlink[OF inv r(1)]
    asserted_inv[OF cp_release_spec(1)[OF inv r], of debug]
  by (simp add: cp_release_in_def cp_release_def set_owner_claim_in_def Let_def)

lemma amount_after_unlink:
  assumes r: "reservation l h = Some r" and r1: "reservation_at (unlink_from_chain a (h_index h) l) (h_index h) = Some r1"
  shows "res_amount r1 = res_amount r"
proof -
  obtain p n where "neighbours r = (p, n)" by (cases "neighbours r")
  from unlink_effect(1)[OF reservation_at_index[OF r] this, of a]
  have "claims (unlink_from_chain a (h_index h) l) (h_index h) = claims l (h_index h)" by simp
  with r r1 show ?thesis by (auto simp: claims_def claim_of_def reservation_at_Some_iff reservation_Some_iff)
qed

lemma cp_commit_safe [debug_safe]:
  assumes inv: "ledger_inv l" and r: "reservation l h = Some r" "\<not> is_committed r"
    and q: "request l q \<noteq> None" and keep: "keep \<le> res_amount r"
  shows "cp_commit_in debug h q keep l = Some (cp_commit h q keep l)"
proof -
  obtain b where b: "account l (res_account r) = Some b" and nil: "h_index h \<noteq> NIL"
    using claim_facts[OF inv r(1)] by metis
  have "case reservation_at (unlink_from_chain (res_account r) (h_index h) l) (h_index h) of
      None \<Rightarrow> True | Some r1 \<Rightarrow> min keep (res_amount r) \<le> res_amount r1"
    using amount_after_unlink[OF r(1)] by (auto split: option.split)
  then show ?thesis
    using r keep nil unlink_safe[OF r(1), of debug "res_account r"]
      asserted_inv[OF cp_commit_spec(1)[OF inv r b q keep], of debug]
    by (simp add: cp_commit_in_def cp_commit_def link_into_committed_list_in_def Let_def)
qed

lemma cp_close_quote_safe [debug_safe]:
  assumes "ledger_inv l" and "quote l q = Some k" and "q_claim k = None"
  shows "cp_close_quote_in debug q l = Some (cp_close_quote q l)"
  using remove_quote_spec(1)[OF assms] assms(2,3) by (simp add: cp_close_quote_in_def cp_close_quote_def asserted_inv)

lemma discharge_claim_safe:
  assumes dis: "discharging q cursor (x # xs) l" and r: "reservation_at l x = Some r" "slab_handle_at (l_reservations l) x = Some h"
  shows "discharge_claim_in debug h r l = Some (discharge_claim h r l)"
proof -
  from r obtain g where v: "slab_view (l_reservations l) x = Some (g, r)" by (auto simp: reservation_at_Some_iff)
  with r(2) have h: "h_index h = x" "h_generation h = g" by (auto simp: slab_handle_at_view split: option.splits)
  have "claims l x = Some (g, res_account r, res_amount r, res_owner_of r, kind_of r)"
    using v by (simp add: claims_Some_iff)
  with h dis have "owner_claim l (res_owner_of r) = Some (Some h)"
    using owners_okD(1)[of "claims l" "owner_claim l" h] by (auto simp: discharging_def)
  then show ?thesis by (simp add: discharge_claim_in_def discharge_claim_def set_owner_claim_in_def effects)
qed

lemma discharge_loop_safe:
  assumes "discharging q cursor xs l"
    and "unat steps + length xs \<le> length (slots (l_reservations l))"
  shows "discharge_loop_in debug visit cursor steps (l, st) = Some (discharge_loop visit cursor steps (l, st))"
  using assms
proof (induction xs arbitrary: cursor steps l st)
  case Nil
  then have "cursor = NIL" by (auto simp: discharging_def list_rest_def)
  then show ?case by (simp add: discharge_loop.simps discharge_loop_in.simps)
next
  case (Cons x xs)
  obtain r h n where S: "cursor = x" "x \<noteq> NIL" "reservation_at l x = Some r"
    "slab_handle_at (l_reservations l) x = Some h" "snd (neighbours r) = n"
    "discharging q n xs (discharge_claim h r l)"
    by (rule discharge_step[OF Cons.prems(1)])
  have small: "length (slots (l_reservations l)) < 2 ^ 32"
    using Cons.prems(1) slab_wfD(1) by (auto simp: discharging_def slabs_wf_def)
  have us: "unat (saturating_add steps 1) = Suc (unat steps)"
    using Cons.prems(2) small unat_saturating_add_exact[of steps 1] by simp
  have "unat (slab_capacity (l_reservations (discharge_claim h r l))) = length (slots (l_reservations l))"
    using small by (simp add: slab_capacity_def unat_word_of_nat)
  then have go: "\<not> saturating_add steps 1 > slab_capacity (l_reservations (discharge_claim h r l))"
    using us Cons.prems(2) by (simp add: word_less_nat_alt)
  have IH: "discharge_loop_in debug visit n (saturating_add steps 1) (discharge_claim h r l, s)
      = Some (discharge_loop visit n (saturating_add steps 1) (discharge_claim h r l, s))" for s
    by (rule Cons.IH[OF S(6)]) (use us Cons.prems(2) in simp)
  show ?case
    using S(1-5) go IH discharge_claim_safe[OF Cons.prems(1) S(3,4), of debug]
    by (subst discharge_loop.simps, subst discharge_loop_in.simps) (simp add: link_index_def Let_def)
qed

lemma discharge_committed_safe [debug_safe]:
  assumes inv: "ledger_inv l" and q: "request l q = Some rq"
    and own: "\<And>i g a m k. claims l i = Some (g, a, m, OwnerRequest q, k) \<Longrightarrow> k = OnCommitted q"
  shows "discharge_committed_in debug q visit (l, st) = Some (discharge_committed q visit (l, st))"
proof -
  note D = ledger_invD[OF inv]
  obtain xs l' where xs: "set xs = on_list (claims l) q" "distinct xs"
    "committed_list (claims l) (links l) q (rq_committed_head rq) xs"
    "discharge_committed q visit (l, st) = (l', visit_all visit (claims l) xs st)" "ledger_inv l'"
    by (rule discharge_committed_spec[OF inv q, of visit st]) (rule own, assumption, rule that, assumption+)
  have "committed_ok (claims l) (links l) ((heads l)(q := None))"
    using D(3) by (auto simp: committed_ok_def)
  then have dis: "discharging q (rq_committed_head rq) xs l"
    using D list_rest_start[OF xs(3)] by (simp add: discharging_def)
  have "unat x < length (slots (l_reservations l))" if "x \<in> set xs" for x
    using that slab_view_range[of "l_reservations l" x] by (auto simp: xs(1) on_list_def claims_Some_iff)
  then have "length xs \<le> length (slots (l_reservations l))" by (rule distinct_indices_length[OF xs(2)])
  then have "discharge_loop_in debug visit (rq_committed_head rq) 0 (l, st)
      = Some (discharge_loop visit (rq_committed_head rq) 0 (l, st))"
    using discharge_loop_safe[OF dis, of 0] by simp
  then show ?thesis
    using q xs(4) asserted_inv[OF xs(5), of debug]
    by (auto simp: discharge_committed_in_def discharge_committed_def Let_def split: prod.splits)
qed

end
