(* ===== verification/Engine_Debug_Safe.thy ===== *)
theory Engine_Debug_Safe
  imports Engine_Debug Ledger_Debug_Safe Engine_Runs
begin

text \<open>
  The assertions of \<open>Engine_Debug\<close> never fire: on an engine that satisfies the invariant, with the
  buffer drained, \<open>Engine::apply\<close> of a debug build does what the release build does. In particular the
  ledger satisfies \<open>check_structural_invariants\<close> after each of its mutations, the account just
  normalised has no expired claim, the claims agree with the states of their owners after the command,
  and no event is pushed without room.
\<close>

section \<open>Releasing quotes\<close>

lemma release_held_active:
  assumes inv: "market_inv cfg t S l" and h: "quote l h = Some q" "q_state q = QuoteActive"
  shows "release_held_in debug (q_claim q) l = Some (case q_claim q of None \<Rightarrow> l | Some claim \<Rightarrow> cp_release claim l)"
proof (cases "q_claim q")
  case (Some c)
  obtain r where "reservation l c = Some r" "\<not> is_committed r" by (rule active_claim[OF inv h Some])
  then show ?thesis using Some market_invD(1)[OF inv] by (simp add: release_held_in_def cp_release_safe)
qed (simp add: release_held_in_def)

text \<open>The quote that is closed resolves and holds no claim any more.\<close>

lemma retire_safe:
  assumes inv: "market_inv cfg t S l" and h: "quote l h = Some q" "q_state q = QuoteActive"
  obtains l3 where "unlink_quote (q_request q) (q_leg q) h (let_go h q l) = Some l3"
    and "cp_close_quote_in debug h l3 = Some (cp_close_quote h l3)"
proof -
  obtain rec leg hs where rec: "request l (q_request q) = Some rec" "request_leg rec (q_leg q) = Some leg"
    and hs: "chain_at (max_quotes_per_leg cfg) (quote l) (q_request q) (q_leg q) leg hs" "h \<in> set hs"
    by (rule open_quote_context[OF inv h])
  note L = let_go_spec[OF inv h]
  have "leg_chain (quote l) (leg_quotes_head leg) hs" using hs(1) by (simp add: chain_at_def)
  then have chain2: "leg_chain (quote (let_go h q l)) (leg_quotes_head leg) hs"
    by (rule leg_chain_frame) (use h L(3) in \<open>auto simp: record_setters\<close>)
  have rec2: "request (let_go h q l) (q_request q) = Some rec" using rec L(2) by simp
  obtain l3 where u: "unlink_quote (q_request q) (q_leg q) h (let_go h q l) = Some l3" and inv3: "ledger_inv l3"
    and q3: "quotes_of l3 = quotes_of (let_go h q l)"
    by (rule unlink_quote_spec[OF L(1) rec2 rec(2) chain2 hs(2)]) blast
  obtain q' where "quote l3 h = Some q'" "q_claim q' = None"
    using fun_cong[OF q3, of h] L(3) by (auto simp: quotes_of_def dest: arg_cong[of _ _ q_claim])
  then show thesis using that[OF u cp_close_quote_safe[OF inv3]] by blast
qed

lemma release_one_safe:
  assumes inv: "market_inv cfg t S l" and h: "quotes_of l h = Some q" "q_state q = QuoteActive" "q_request q = r" "q_leg q = lid"
  shows "release_one_in debug r lid now reason h (l, b) = release_one r lid now reason h (l, b)"
proof -
  from h obtain q0 where q0: "quote l h = Some q0" "q_state q0 = QuoteActive" "q_request q0 = r" "q_leg q0 = lid"
    by (auto simp: quotes_of_Some)
  obtain l3 where "unlink_quote (q_request q0) (q_leg q0) h (let_go h q0 l) = Some l3"
    "cp_close_quote_in debug h l3 = Some (cp_close_quote h l3)" by (rule retire_safe[OF inv q0(1,2)])
  then show ?thesis using q0 release_held_active[OF inv q0(1,2), of debug]
    unfolding let_go_def by (simp add: release_one_in_def release_one_def Let_def)
qed

lemma release_many_safe:
  assumes "market_inv cfg t S l" and "\<forall>h \<in> set hs. active_at l r lid h" and "distinct hs"
  shows "fold_opt (release_one_in debug r lid now reason) hs (l, b) = fold_opt (release_one r lid now reason) hs (l, b)"
  using assms
proof (induction hs arbitrary: l b)
  case (Cons h hs)
  from Cons.prems(2) obtain q where q: "quotes_of l h = Some q" "q_state q = QuoteActive" "q_request q = r" "q_leg q = lid"
    by (auto simp: active_at_def)
  from release_one_spec[OF Cons.prems(1) q, of now reason b] obtain l1 where
    l1: "release_one r lid now reason h (l, b) = Some (l1, eb_push (release_event reason now (quotes_of l) h) b)"
      "market_inv cfg t S l1" "retires l {h} l1" by blast
  have "\<forall>k \<in> set hs. active_at l1 r lid k" using Cons.prems(2,3) l1(3) by (auto simp: active_at_def retires_def)
  from Cons.IH[OF l1(2) this] Cons.prems(3) show ?case by (simp add: release_one_safe[OF Cons.prems(1) q] l1(1))
qed simp

lemma release_leg_safe:
  assumes inv: "market_inv cfg t S l" and mq: "unat (max_quotes_per_leg cfg) \<le> MAX_QUOTES_PER_LEG"
    and rec: "requests_of l r = Some rec" "\<not> request_state_is_terminal (rq_state rec)" "request_leg rec lid = Some leg"
    and act: "\<And>h. h \<in> quotes_at (quotes_of l) r lid \<Longrightarrow> \<not> kept_is keep h \<Longrightarrow> active_at l r lid h"
  shows "release_leg_in debug r lid keep now reason (l, b) = release_leg r lid keep now reason (l, b)"
proof -
  from rec obtain rec0 leg0 where rec0: "request l r = Some rec0" "\<not> request_state_is_terminal (rq_state rec0)"
    "request_leg rec0 lid = Some leg0" by (auto simp: requests_of_Some)
  with market_invD(2)[OF inv] obtain hs where hs: "chain_at (max_quotes_per_leg cfg) (quote l) r lid leg0 hs"
    unfolding chains_ok_def by blast
  let ?ds = "filter (\<lambda>h. \<not> kept_is keep h) hs"
  have len: "length hs \<le> MAX_QUOTES_PER_LEG" and ch: "leg_chain (quote l) (leg_quotes_head leg0) hs"
    using hs mq by (auto simp: chain_at_def)
  have "walk_leg l leg0 (doom keep) (replicate MAX_QUOTES_PER_LEG None, 0)
      = Some (map Some ?ds @ replicate (MAX_QUOTES_PER_LEG - length ?ds) None, length ?ds)"
    using doom_fold[of "[]" hs MAX_QUOTES_PER_LEG keep] leg_walk_chain[OF ch, of "doom keep"] len
    by (simp add: walk_leg_def Let_def)
  moreover have "length ?ds \<le> MAX_QUOTES_PER_LEG" by (rule le_trans[OF length_filter_le len])
  moreover have "distinct ?ds" using leg_chain_distinct[OF quote_index_inj ch] by simp
  moreover have "\<forall>h \<in> set ?ds. active_at l r lid h" using hs act by (auto simp: chain_at_def quotes_at_bare)
  ultimately show ?thesis
    using rec0 release_many_safe[OF inv, of ?ds r lid debug now reason b]
    by (simp add: release_leg_in_def release_leg_def leg_of_def)
qed

lemma release_legs_safe:
  assumes "market_inv cfg t None l" and mq: "unat (max_quotes_per_leg cfg) \<le> MAX_QUOTES_PER_LEG"
    and rec: "requests_of l r = Some rec" "rq_state rec = ReqOpen"
    and "\<forall>lid \<in> set lids. request_leg rec lid \<noteq> None"
  shows "fold_opt (\<lambda>lid. release_leg_in debug r lid None now reason) lids (l, b)
    = fold_opt (\<lambda>lid. release_leg r lid None now reason) lids (l, b)"
  using assms
proof (induction lids arbitrary: l b)
  case (Cons lid lids)
  from Cons.prems(5) obtain leg where leg: "request_leg rec lid = Some leg" by auto
  have nt: "\<not> request_state_is_terminal (rq_state rec)" by (simp add: Cons.prems(4))
  note act = open_quotes_active[OF Cons.prems(1,3,4)]
  have same: "release_leg_in debug r lid None now reason (l, b) = release_leg r lid None now reason (l, b)"
    by (rule release_leg_safe[OF Cons.prems(1) mq Cons.prems(3) nt leg act])
  obtain l1 b1 where l1: "release_leg r lid None now reason (l, b) = Some (l1, b1)"
      "market_inv cfg t None l1" "requests_of l1 = requests_of l"
    using release_leg_spec[OF Cons.prems(1) mq Cons.prems(3) nt leg act, of None now reason b] by (auto simp: retires_def)
  with Cons.IH[OF l1(2) mq _ Cons.prems(4), of b1] Cons.prems(3,5) show ?case by (simp add: same)
qed simp

section \<open>Requests\<close>

lemma submit_request_safe:
  assumes inv: "engine_inv now e"
  shows "submit_request_in debug a deadline legs n now (e, b) = submit_request a deadline legs n now (e, b)"
  using open_request_reserving_safe[OF engine_invD(3)[OF inv], of "request_new a deadline stored n" debug for stored]
  by (simp add: submit_request_in_def submit_request_def Let_def split: sum.split option.split prod.split)

lemma release_held_open:
  assumes inv: "market_inv cfg t S l" and rec: "request l r = Some rec" "rq_state rec = ReqOpen"
  shows "release_held_in debug (rq_claim rec) l = Some (case rq_claim rec of None \<Rightarrow> l | Some c \<Rightarrow> cp_release c l)"
proof (cases "rq_claim rec")
  case (Some c)
  obtain res where "reservation l c = Some res" "\<not> is_committed res" by (rule open_request_claim[OF inv rec Some])
  then show ?thesis using Some market_invD(1)[OF inv] by (simp add: release_held_in_def cp_release_safe)
qed (simp add: release_held_in_def)

lemma reject_request_safe:
  assumes inv: "engine_inv now e"
  shows "reject_request_in debug r now (e, b) = reject_request r now (e, b)"
proof -
  note E = engine_invD[OF inv]
  let ?mq = "max_quotes_per_leg (e_config e)"
  have mq: "unat ?mq \<le> MAX_QUOTES_PER_LEG" using E(1) by (simp add: startable_def)
  show ?thesis
  proof (cases "\<exists>rec. request (e_ledger e) r = Some rec \<and> rq_state rec = ReqOpen")
    case False
    then show ?thesis by (auto simp: reject_request_def reject_request_in_def Let_def split: option.split)
  next
    case True
    then obtain rec where rec: "request (e_ledger e) r = Some rec" "rq_state rec = ReqOpen" by blast
    have rv: "requests_of (e_ledger e) r = Some (bare_request rec)" using rec by (simp add: requests_of_def)
    have st: "rq_state (bare_request rec) = ReqOpen" using rec by simp
    have legs: "\<forall>lid \<in> set (leg_ids (rq_n_legs rec)). request_leg (bare_request rec) lid \<noteq> None"
      using quotes_valid_leg(2)[OF E(2) rv] by auto
    from release_legs_spec[OF E(2) mq rv st legs, of now RequestRejected b] obtain l1 b1 where
      l1: "fold_opt (\<lambda>lid. release_leg r lid None now RequestRejected) (leg_ids (rq_n_legs rec)) (e_ledger e, b) = Some (l1, b1)"
        "market_inv (e_config e) now None l1" "requests_of l1 = requests_of (e_ledger e)" by (auto simp: retires_def)
    obtain rec1 where rec1: "request l1 r = Some rec1" "bare_request rec1 = bare_request rec"
      by (rule requests_of_same[OF l1(3) rec(1)])
    have "rq_state rec1 = ReqOpen" "rq_claim rec1 = rq_claim rec" using bare_request_eq[OF rec1(2)] rec(2) by simp_all
    with release_held_open[OF l1(2) rec1(1), of debug] show ?thesis
      using rec l1(1) release_legs_safe[OF E(2) mq rv st legs, of debug now RequestRejected b]
      by (simp add: reject_request_def reject_request_in_def Let_def split: sum.split)
  qed
qed

section \<open>Quotes\<close>

lemma replace_standing_safe:
  assumes inv: "market_inv cfg t None l" and rec: "request l r = Some rec" "rq_state rec = ReqOpen"
    and leg: "request_leg rec lid = Some leg" and st: "standing_quote_of l leg maker = Some standing"
  shows "replace_standing_in debug maker r lid standing (l, b) = replace_standing maker r lid standing (l, b)"
proof (cases standing)
  case None
  then show ?thesis by (simp add: replace_standing_in_def replace_standing_def)
next
  case (Some s)
  with standing_spec[OF inv rec leg, of maker] st obtain q where q: "quote l s = Some q" "q_state q = QuoteActive"
    "q_request q = r" "q_leg q = lid" by auto
  obtain l3 where "unlink_quote (q_request q) (q_leg q) s (let_go s q l) = Some l3"
    "cp_close_quote_in debug s l3 = Some (cp_close_quote s l3)" by (rule retire_safe[OF inv q(1,2)])
  then show ?thesis using Some q release_held_active[OF inv q(1,2), of debug]
    unfolding let_go_def by (simp add: replace_standing_in_def replace_standing_def Let_def)
qed

text \<open>A leg holds at most \<open>max_quotes_per_leg\<close> quotes, a byte.\<close>

lemma chain_fits:
  assumes "chain_at mq (quote l) r lid leg hs"
  shows "chain_fits_byte l leg"
proof -
  have "fold (\<lambda>_. Suc) hs n = n + length hs" for n by (induction hs arbitrary: n) simp_all
  moreover have "length hs < 2 ^ 8" using assms unat_lt_size[of mq] by (simp add: chain_at_def)
  ultimately show ?thesis
    using assms leg_walk_chain[of l "leg_quotes_head leg" hs "\<lambda>_. Suc" 0] by (simp add: chain_fits_byte_def walk_leg_def chain_at_def)
qed

lemma publish_safe:
  assumes inv: "market_inv cfg t S l" and rec: "request l r = Some rec" "\<not> request_state_is_terminal (rq_state rec)"
    and leg: "request_leg rec lid = Some leg"
  shows "publish_selection_in debug r lid now (l, b) = publish_selection r lid now (l, b)"
proof -
  obtain hs where "chain_at (max_quotes_per_leg cfg) (quote l) r lid leg hs" and lo: "leg_of l r lid = Some leg"
    by (rule leg_of_context[OF inv rec leg])
  from chain_fits[OF this(1)] lo show ?thesis by (simp add: publish_selection_in_def publish_selection_def best_on_leg_in_def)
qed

lemma submit_quote_safe:
  assumes inv: "engine_inv now e"
  shows "submit_quote_in debug maker r lid p sz x now (e, b) = submit_quote maker r lid p sz x now (e, b)"
proof -
  note E = engine_invD[OF inv]
  note defs = submit_quote_def[of maker r lid p sz x now "(e, b)", unfolded Let_def prod.case]
    submit_quote_in_def[of debug maker r lid p sz x now "(e, b)", unfolded Let_def prod.case]
  show ?thesis
  proof (cases "\<exists>leg standing m. check_quote e maker r lid p sz x now = Some (Inr (leg, standing)) \<and>
      maker_contribution (leg_size leg) p = Some m \<and> eb_headroom b 2 = Inr ()")
    case False
    then show ?thesis using headroom_cases[of b 2] by (auto simp: defs split: option.split sum.split)
  next
    case True
    then obtain leg standing m where chk: "check_quote e maker r lid p sz x now = Some (Inr (leg, standing))"
      and m: "maker_contribution (leg_size leg) p = Some m" and room: "eb_headroom b 2 = Inr ()" by blast
    obtain rec where rec: "request (e_ledger e) r = Some rec" "rq_state rec = ReqOpen" "request_leg rec lid = Some leg"
      and ok: "p \<le> UNIT" "leg_size leg \<le> sz" "standing_quote_of (e_ledger e) leg maker = Some standing"
        "standing = None \<Longrightarrow> leg_quote_count leg < max_quotes_per_leg (e_config e)"
      by (rule check_quote_accepts[OF chk]) blast
    obtain l1 b1 where l1: "replace_standing maker r lid standing (e_ledger e, b) = Some (l1, b1)"
      "market_inv (e_config e) now None l1" "retires (e_ledger e) (set_option standing) l1"
      "card (quotes_at (quotes_of l1) r lid) < unat (max_quotes_per_leg (e_config e))"
      "\<forall>h q. quotes_of l1 h = Some q \<longrightarrow> q_request q = r \<longrightarrow> q_leg q = lid \<longrightarrow> q_maker q \<noteq> maker"
      using replace_standing_spec[OF E(2) rec ok(3,4), of b] by blast
    have rs: "replace_standing_in debug maker r lid standing (e_ledger e, b) = Some (l1, b1)"
      using replace_standing_safe[OF E(2) rec ok(3), of debug b] l1(1) by simp
    let ?q = "quote_new maker r lid p sz x (e_next_arrival e)"
    note opened = open_quote_reserving_safe[OF market_invD(1)[OF l1(2)] quote_new_fields(9)[of maker r lid p sz x "e_next_arrival e"], of debug m]
    have "requests_of l1 = requests_of (e_ledger e)" using l1(3) by (simp add: retires_def)
    then obtain rec1 where rec1: "request l1 r = Some rec1" "bare_request rec1 = bare_request rec"
      by (rule requests_of_same[OF _ rec(1)])
    have "map_option bare_leg (request_leg rec1 lid) = Some (bare_leg leg)"
      using rec1(2) rec(3) by (metis bare_request_leg option.simps(9))
    then obtain leg1 where leg1: "request_leg rec1 lid = Some leg1" "bare_leg leg1 = bare_leg leg" by auto
    then have sz1: "leg_size leg1 = leg_size leg" by (metis bare_leg_fields(3))
    have open1: "rq_state rec1 = ReqOpen" using bare_request_eq[OF rec1(2)] rec(2) by simp
    have szle: "leg_size leg1 \<le> q_size ?q" using ok(2) sz1 by simp
    have m1: "maker_contribution (leg_size leg1) (q_price ?q) = Some m" using m sz1 by simp
    have fresh: "\<forall>k q'. quotes_of l1 k = Some q' \<longrightarrow> q_request q' = r \<longrightarrow> q_leg q' = lid \<longrightarrow> q_maker q' \<noteq> q_maker ?q"
      using l1(5) by simp
    have p: "q_price ?q \<le> UNIT" using ok(1) by simp
    have placed: "link_quote_in debug r lid h l2 = Some (link_quote r lid h l2) \<and>
        publish_selection_in debug r lid now (link_quote r lid h l2, b1) = publish_selection r lid now (link_quote r lid h l2, b1)"
      if op: "open_quote_reserving l1 ?q m = Some (Inr (h, c), l2)" for h c l2
    proof -
      note O = open_quote_market[OF l1(2) rec1(1) open1 leg1(1) szle quote_new_fields(2,3,8,9,10) p m1 fresh l1(4) op]
      from open_quote_reserving_spec[OF market_invD(1)[OF l1(2)] quote_new_fields(9), of maker r lid p sz x "e_next_arrival e" m] op
      have "ledger_inv l2" "quote l2 h = Some (quote_set_claim (Some c) ?q)" by auto
      then have nil: "h_index h \<noteq> NIL" by (rule quote_index_not_nil)
      obtain rec3 where rec3: "request (link_quote r lid h l2) r = Some rec3" "bare_request rec3 = bare_request rec1" using O(4) by blast
      have "map_option bare_leg (request_leg rec3 lid) = Some (bare_leg leg)"
        using rec3(2) leg1 by (metis bare_request_leg option.simps(9))
      then obtain leg3 where leg3: "request_leg rec3 lid = Some leg3" by auto
      have nt3: "\<not> request_state_is_terminal (rq_state rec3)" using bare_request_eq[OF rec3(2)] open1 by simp
      from publish_safe[OF O(1) rec3(1) nt3 leg3, of debug now b1] nil show ?thesis by (simp add: link_quote_in_def)
    qed
    show ?thesis
    proof (cases "open_quote_reserving l1 ?q m")
      case None
      then show ?thesis using opened by (simp add: defs chk m room rs l1(1))
    next
      case (Some y)
      obtain res l2 where y: "y = (res, l2)" by (cases y)
      show ?thesis
      proof (cases res)
        case (Inl err)
        then show ?thesis using opened Some y by (simp add: defs chk m room rs l1(1))
      next
        case (Inr z)
        obtain h c where z: "z = (h, c)" by (cases z)
        from placed[of h c l2] Some y Inr z show ?thesis using opened
          by (cases "publish_selection r lid now (link_quote r lid h l2, b1)")
            (simp_all add: defs chk m room rs l1(1) split: prod.split)
      qed
    qed
  qed
qed

section \<open>Acceptance\<close>

lemma fold_plan_cong:
  "(\<And>k s. k \<in> set ks \<Longrightarrow> f k s = g k s) \<Longrightarrow> fold_plan f ks s = fold_plan g ks s"
  by (induction ks arbitrary: s) (auto split: option.split sum.split)

lemma plan_safe:
  assumes inv: "market_inv cfg t S l" and rec: "request l r = Some rec" "\<not> request_state_is_terminal (rq_state rec)"
  shows "plan_accept_in debug l rec expected now = plan_accept l rec expected now"
  unfolding plan_accept_in_def plan_accept_def
proof (rule fold_plan_cong)
  note N = running_legs[OF inv rec(1)]
  fix k and s :: "selection option list \<times> amount" assume "k \<in> set [0..<unat (rq_n_legs rec)]"
  then have k: "k < unat (rq_n_legs rec)" by simp
  obtain hs where hs: "chain_at (max_quotes_per_leg cfg) (quote l) r (word_of_nat k) (rq_legs rec ! k) hs"
    by (rule leg_of_context[OF inv rec request_leg_index[OF k N(1,2)]])
  from chain_fits[OF this] show "plan_leg_in debug l rec expected now k s = plan_leg l rec expected now k s"
    using request_legs_nth[OF k N(1)] by (simp add: plan_leg_in_def)
qed

lemma check_accept_safe:
  assumes inv: "market_inv (e_config e) t None (e_ledger e)"
  shows "check_accept_in debug e b r expected n_legs now = check_accept e b r expected n_legs now"
proof (cases "\<exists>rec. request (e_ledger e) r = Some rec \<and> rq_state rec = ReqOpen")
  case True
  then obtain rec where rec: "request (e_ledger e) r = Some rec" "rq_state rec = ReqOpen" by blast
  then have "\<not> request_state_is_terminal (rq_state rec)" by simp
  from plan_safe[OF inv rec(1) this] rec show ?thesis by (simp add: check_accept_in_def check_accept_def Let_def)
next
  case False
  then show ?thesis by (auto simp: check_accept_in_def check_accept_def Let_def split: option.split)
qed

lemma commit_winner_safe:
  assumes inv: "market_inv cfg t (Some r) l" and q: "quotes_of l (sel_quote b) = Some q" "q_state q = QuoteActive" "q_request q = r"
    and c: "q_claim q = Some c"
  shows "commit_winner_in debug r b l = Some (commit_winner r b l)"
proof -
  note I = market_invD[OF inv]
  let ?w = "sel_quote b" and ?l1 = "quote_update (sel_quote b) (quote_set_state QuoteConsumed) l"
  from q(1) obtain q0 where q0: "quote l ?w = Some q0" "q = bare_quote q0" by (auto simp: quotes_of_Some)
  then have q0s: "q_state q0 = QuoteActive" "q_claim q0 = Some c" using q c by simp_all
  obtain res where res: "reservation l c = Some res" "\<not> is_committed res" by (rule active_claim[OF inv q0(1) q0s])
  have inv1: "ledger_inv ?l1" by (rule quote_update_inv[OF I(1)]) simp
  have res1: "reservation ?l1 c = Some res" using res(1) by (simp add: reservation_def)
  obtain rec where "requests_of l r = Some rec" using quote_okD[OF market_okD(1)[OF I(3)] q(1)] q(3) by metis
  then have "request ?l1 r \<noteq> None" by (auto simp: requests_of_def)
  from cp_commit_safe[OF inv1 res1 res(2) this order_refl] show ?thesis
    using q0 q0s res by (simp add: commit_winner_in_def commit_winner_def Let_def)
qed

lemma accept_leg_safe:
  assumes inv0: "market_inv cfg now None l0" and rec: "requests_of l0 r = Some rec" "rq_state rec = ReqOpen" "request_leg rec (word_of_nat k) = Some leg"
    and mq: "unat (max_quotes_per_leg cfg) \<le> MAX_QUOTES_PER_LEG" and k: "k < MAX_LEGS" "k < length plan" and b: "plan ! k = Some s"
    and q: "quotes_of l0 (sel_quote s) = Some q" "q_request q = r" "q_leg q = word_of_nat k" "q_state q = QuoteActive" "q_claim q = Some c"
    and inv: "market_inv cfg now (Some r) l" and acc: "accepting l0 r plan k l"
  shows "accept_leg_in debug r plan now k (l, b) = accept_leg r plan now k (l, b)"
proof -
  let ?lid = "word_of_nat k :: u8"
  have lid: "\<not> unat ?lid < k" using leg_index[OF k(1)] by simp
  have ql: "quotes_of l = accepted_quotes r plan k (quotes_of l0)" and rl: "requests_of l = requests_of l0"
    using acc by (simp_all add: accepting_def)
  have same: "quotes_of l h = Some x \<longleftrightarrow> quotes_of l0 h = Some x" if "q_leg x = ?lid" for h x
    using that lid unfolding ql by (auto simp: accepted_quotes_def split: option.splits if_splits)
  have nt: "\<not> request_state_is_terminal (rq_state rec)" using rec by simp
  have act: "active_at l r ?lid h" if "h \<in> quotes_at (quotes_of l) r ?lid" for h
  proof -
    from that have "h \<in> quotes_at (quotes_of l0) r ?lid" using same by (auto simp: quotes_at_def)
    from open_quotes_active[OF inv0 rec(1,2) this] show ?thesis using same by (auto simp: active_at_def)
  qed
  have rec': "requests_of l r = Some rec" using rec rl by simp
  have released: "release_leg_in debug r ?lid (Some s) now Outbid (l, b) = release_leg r ?lid (Some s) now Outbid (l, b)"
    by (rule release_leg_safe[OF inv mq rec' nt rec(3)]) (rule act)
  obtain l1 hs b1 where l1: "release_leg r ?lid (Some s) now Outbid (l, b) = Some (l1, b1)"
    "set hs = {h \<in> quotes_at (quotes_of l) r ?lid. \<not> kept_is (Some s) h}"
    "market_inv cfg now (Some r) l1" "retires l (set hs) l1"
    using release_leg_spec[OF inv mq rec' nt rec(3), where keep = "Some s" and reason = Outbid and now = now and b = b] act by blast
  have "quotes_of l1 (sel_quote s) = Some q"
    using l1(2,4) same[OF q(3)] q(1) by (simp add: retires_def kept_is_def)
  from commit_winner_safe[OF l1(3) this q(4,2,5), of debug] show ?thesis
    using released l1(1) b k(2) by (simp add: accept_leg_in_def accept_leg_def nth_opt_def)
qed

lemma accept_loop_safe:
  assumes inv0: "market_inv cfg now None l0" and rec: "request l0 r = Some rec" "rq_state rec = ReqOpen"
    and mq: "unat (max_quotes_per_leg cfg) \<le> MAX_QUOTES_PER_LEG"
    and pl: "planned l0 rec expected now (unat (rq_n_legs rec)) (plan, tot)" and n: "n \<le> unat (rq_n_legs rec)"
  shows "fold_opt (accept_leg_in debug r plan now) [0..<n] (l0, b) = fold_opt (accept_leg r plan now) [0..<n] (l0, b)"
  using n
proof (induction n)
  case (Suc n)
  then have n: "n < unat (rq_n_legs rec)" and IH: "fold_opt (accept_leg_in debug r plan now) [0..<n] (l0, b)
      = fold_opt (accept_leg r plan now) [0..<n] (l0, b)" by simp_all
  obtain l1 b1 where l1: "fold_opt (accept_leg r plan now) [0..<n] (l0, b) = Some (l1, b1)"
    "market_inv cfg now (Some r) l1" "accepting l0 r plan n l1"
    using accept_loop[OF inv0 rec mq pl, of n b] n by auto
  note N = running_legs[OF inv0 rec(1)]
  obtain s q c where w: "plan ! n = Some s" "quotes_of l0 (sel_quote s) = Some q" "q_request q = r" "q_leg q = word_of_nat n"
    "q_state q = QuoteActive" "q_claim q = Some c"
    by (rule planned_winner[OF inv0 rec pl n]) blast
  have rv: "requests_of l0 r = Some (bare_request rec)" using rec by (simp add: requests_of_def)
  have lg: "request_leg (bare_request rec) (word_of_nat n) = Some (bare_leg (rq_legs rec ! n))"
    using request_leg_index[OF n N(1,2)] by simp
  have nn: "n < MAX_LEGS" "n < length plan" using n N(2) pl by (auto simp: planned_def)
  have st: "rq_state (bare_request rec) = ReqOpen" using rec by simp
  from accept_leg_safe[OF inv0 rv st lg mq nn w(1-6) l1(2,3), of debug b1] IH l1(1) show ?case
    by (cases "accept_leg r plan now n (l1, b1)") (simp_all add: fold_opt_append)
qed simp

lemma accept_request_safe:
  assumes inv: "engine_inv now e"
  shows "accept_request_in debug r expected n_legs now (e, b) = accept_request r expected n_legs now (e, b)"
proof -
  note E = engine_invD[OF inv]
  let ?l0 = "e_ledger e" and ?mq = "max_quotes_per_leg (e_config e)"
  have mq: "unat ?mq \<le> MAX_QUOTES_PER_LEG" using E(1) by (simp add: startable_def)
  note check = check_accept_safe[OF E(2), of debug b r expected n_legs now]
  show ?thesis
  proof (cases "\<exists>x. check_accept e b r expected n_legs now = Some (Inr x)")
    case False
    then show ?thesis by (auto simp: accept_request_in_def accept_request_def check split: option.split sum.split)
  next
    case True
    then obtain rec plan tot claim intent where chk: "check_accept e b r expected n_legs now = Some (Inr (rec, plan, tot, claim, intent))"
      by auto
    obtain c where rec: "request ?l0 r = Some rec" "rq_state rec = ReqOpen"
      and pa: "plan_accept ?l0 rec expected now = Some (Inr (plan, tot))" and cl: "rq_claim rec = Some claim"
      and c: "reservation ?l0 claim = Some c" "tot \<le> res_amount c"
      by (rule check_accept_accepts[OF chk]) blast
    let ?n = "unat (rq_n_legs rec)"
    note N = running_legs[OF E(2) rec(1)]
    have pl: "planned ?l0 rec expected now ?n (plan, tot)"
      using plan_prefix[of ?n rec ?l0 expected now "(plan, tot)"] N pa unfolding plan_accept_def by simp
    obtain l1 b1 where l1: "fold_opt (accept_leg r plan now) [0..<?n] (?l0, b) = Some (l1, b1)"
      "market_inv (e_config e) now (Some r) l1" "accepting ?l0 r plan ?n l1"
      using accept_loop[OF E(2) rec mq pl order_refl, of b] by blast
    have rl1: "requests_of l1 = requests_of ?l0" using l1(3) by (simp add: accepting_def)
    obtain rec1 where rec1: "request l1 r = Some rec1" "bare_request rec1 = bare_request rec"
      by (rule requests_of_same[OF rl1 rec(1)])
    note R1 = bare_request_eq[OF rec1(2)]
    have st1: "rq_state rec1 = ReqOpen" "rq_claim rec1 = Some claim" using R1 rec cl by simp_all
    obtain res where res: "reservation l1 claim = Some res" "\<not> is_committed res" "unat (res_amount res) = worst_case rec1"
      by (rule open_request_claim[OF l1(2) rec1(1) st1])
    obtain res0 where "reservation ?l0 claim = Some res0" "unat (res_amount res0) = worst_case rec"
      by (rule open_request_claim[OF E(2) rec cl])
    then have "unat tot \<le> unat (res_amount res)"
      using c res(3) worst_case_views[OF l1(2) rec1(1)] worst_case_views[OF E(2) rec(1)] rec1(2) by (simp add: word_le_nat_alt)
    then have keep: "tot \<le> res_amount res" by (simp add: word_le_nat_alt)
    have rq: "request l1 r \<noteq> None" using rec1(1) by simp
    from cp_commit_safe[OF market_invD(1)[OF l1(2)] res(1,2) rq keep, of debug]
      accept_loop_safe[OF E(2) rec mq pl order_refl, of debug b] l1(1)
    show ?thesis by (simp add: accept_request_in_def accept_request_def check chk Let_def)
  qed
qed

section \<open>Settlement\<close>

lemma close_quotes_safe:
  assumes "ledger_inv l" and "distinct hs" and "\<forall>h \<in> set hs. \<exists>q. quote l h = Some q \<and> q_claim q = None"
  shows "fold_opt (cp_close_quote_in debug) hs l = Some (fold cp_close_quote hs l)"
  using assms
proof (induction hs arbitrary: l)
  case (Cons h hs)
  then obtain q where q: "quote l h = Some q" "q_claim q = None" by auto
  note R = remove_quote_spec[OF Cons.prems(1) q, folded cp_close_quote_def]
  have "\<forall>k \<in> set hs. \<exists>q. quote (cp_close_quote h l) k = Some q \<and> q_claim q = None"
    using Cons.prems(2,3) R(2) by auto
  from Cons.IH[OF R(1) _ this] Cons.prems(2) show ?case by (simp add: cp_close_quote_safe[OF Cons.prems(1) q])
qed simp

lemma close_consumed_safe:
  assumes inv: "ledger_inv l"
  shows "close_consumed_quotes_in debug r l = Some (close_consumed_quotes r l)"
proof -
  have "\<exists>q. quote l h = Some q \<and> q_claim q = None" if "h \<in> set (take MAX_LEGS (consumed_of l r))" for h
    using in_set_takeD[OF that] set_consumed_of(1)[OF inv] by auto
  moreover have "distinct (take MAX_LEGS (consumed_of l r))" using set_consumed_of(2)[OF inv] by simp
  ultimately show ?thesis
    using close_quotes_safe[OF inv] by (simp add: close_consumed_quotes_in_def close_consumed_quotes_def)
qed

lemma settle_safe:
  assumes inv: "market_inv cfg t None l" and rec: "request l r = Some rec" "rq_state rec = ReqSettling n d"
  obtains l1 s1 where "discharge_committed r visit (l, s) = (l1, s1)"
    and "discharge_committed_in debug r visit (l, s) = Some (l1, s1)" and "ledger_inv l1"
proof -
  note I = market_invD[OF inv]
  have rv: "requests_of l r = Some (bare_request rec)" using rec by (simp add: requests_of_def)
  have own: "k = OnCommitted r" if c: "claims l i = Some (g, a, m, OwnerRequest r, k)" for i g a m k
  proof -
    have "claim_ok (requests_of l) (quotes_of l) a m (OwnerRequest r) k" by (rule claim_okD[OF market_okD(4)[OF I(3)] c])
    then show ?thesis using rv rec by (cases k) (auto simp: claim_ok_def)
  qed
  obtain l1 s1 where "discharge_committed r visit (l, s) = (l1, s1)" "ledger_inv l1"
    by (rule discharge_settling[OF inv rec, where visit = visit and st = s]) blast
  moreover have "discharge_committed_in debug r visit (l, s) = Some (discharge_committed r visit (l, s))"
    by (rule discharge_committed_safe[OF I(1) rec(1)]) (rule own)
  ultimately show thesis using that by simp
qed

lemma poll_settlement_safe:
  assumes inv: "engine_inv now e"
  shows "poll_settlement_in debug reported status now (e, b) = Some (poll_settlement reported status now (e, b))"
proof (cases "\<exists>r rec n d. resolve_nonce e reported = Some r \<and> request (e_ledger e) r = Some rec \<and> rq_state rec = ReqSettling n d")
  case False
  then show ?thesis
    by (auto simp: poll_settlement_def poll_settlement_in_def Let_def split: option.split request_state.split)
next
  case True
  then obtain r rec n d where res: "resolve_nonce e reported = Some r"
    and rec: "request (e_ledger e) r = Some rec" "rq_state rec = ReqSettling n d" by blast
  note E = engine_invD[OF inv]
  obtain l1 s1 where settled: "discharge_committed r (\<lambda>_ _ u. u) (e_ledger e, ()) = (l1, s1)"
    "discharge_committed_in debug r (\<lambda>_ _ u. u) (e_ledger e, ()) = Some (l1, s1)" "ledger_inv l1"
    by (rule settle_safe[OF E(2) rec])
  have inv1: "ledger_inv (request_update r (request_set_state ReqEscrowed) l1)"
    by (rule request_update_inv[OF settled(3)]) (simp add: record_setters)
  obtain l2 s2 where reverted: "discharge_committed r notice (e_ledger e, (replicate MAX_LEGS None, 0)) = (l2, s2)"
    "discharge_committed_in debug r notice (e_ledger e, (replicate MAX_LEGS None, 0)) = Some (l2, s2)" "ledger_inv l2"
    by (rule settle_safe[OF E(2) rec])
  show ?thesis
    using res rec settled(1,2) reverted(1,2) close_consumed_safe[OF inv1, of debug r] close_consumed_safe[OF reverted(3), of debug r]
    by (cases status) (simp_all add: poll_settlement_def poll_settlement_in_def Let_def)
qed

section \<open>Claims and the states of their owners\<close>

text \<open>\<open>check_claim_state_coherence\<close>, the check at the end of \<open>Engine::apply\<close>, accepts every ledger of the invariant.\<close>

lemma claim_state_coherent:
  assumes inv: "market_inv cfg t None l"
  shows "check_claim_state_coherence l = Inr ()"
proof -
  note I = market_invD[OF inv]
  have wf: "slab_wf (l_reservations l)" using ledger_invD(1)[OF I(1)] by (simp add: slabs_wf_def)
  have "check_claim_state l (h, r) () = Inr ()" if hr: "(h, r) \<in> set (slab_iter (l_reservations l))" for h r
  proof -
    have r: "reservation l h = Some r" using hr set_slab_iter[OF wf] by (auto simp: reservation_def)
    have c: "claims l (h_index h) = Some (h_generation h, res_account r, res_amount r, res_owner_of r, kind_of r)"
      using claim_facts[OF I(1) r] by metis
    have ok: "claim_ok (requests_of l) (quotes_of l) (res_account r) (res_amount r) (res_owner_of r) (kind_of r)"
      by (rule claim_okD[OF market_okD(4)[OF I(3)] c])
    have settling: "require_settling l q h = Inr ()" if "requests_of l q = Some rec" "is_settling (rq_state rec)" for q rec
      using that by (auto simp: requests_of_Some require_settling_def)
    show ?thesis
    proof (cases "res_owner_of r")
      case (OwnerQuote qh)
      with ok obtain q where q: "quotes_of l qh = Some q" and st: "case kind_of r of OnExpiry e \<Rightarrow> q_state q = QuoteActive
          | OnCommitted p \<Rightarrow> p = q_request q \<and> q_state q = QuoteConsumed" by (cases "kind_of r") (auto simp: claim_ok_def)
      obtain q0 where q0: "quote l qh = Some q0" "q = bare_quote q0" using q by (auto simp: quotes_of_Some)
      obtain rec where rec: "requests_of l (q_request q) = Some rec" "q_state q = QuoteConsumed \<Longrightarrow> is_settling (rq_state rec)"
        by (rule quote_okD[OF market_okD(1)[OF I(3)] q]) auto
      show ?thesis
        using OwnerQuote q0 st settling[OF rec(1)] rec(2)
        by (auto simp: check_claim_state_def Let_def kind_of_def committed_to_def split: claim_links.splits)
    next
      case (OwnerRequest p)
      with ok obtain rec where rec: "requests_of l p = Some rec" and st: "case kind_of r of OnExpiry e \<Rightarrow> rq_state rec = ReqOpen
          | OnCommitted p' \<Rightarrow> p' = p \<and> is_settling (rq_state rec)" by (cases "kind_of r") (auto simp: claim_ok_def)
      obtain rec0 where rec0: "request l p = Some rec0" "rec = bare_request rec0" using rec by (auto simp: requests_of_Some)
      show ?thesis
        using OwnerRequest rec0 st settling[OF rec]
        by (auto simp: check_claim_state_def Let_def kind_of_def committed_to_def split: claim_links.splits)
    qed
  qed
  then show ?thesis unfolding check_claim_state_coherence_def by (subst fold_res_all) auto
qed

section \<open>One command\<close>

lemma dispatch_safe:
  assumes inv: "engine_inv now e"
  shows "dispatch_in debug c now (e, b) = dispatch c now (e, b)"
  by (cases c) (simp_all add: dispatch_in_def dispatch_def submit_request_safe[OF inv] reject_request_safe[OF inv]
      submit_quote_safe[OF inv] accept_request_safe[OF inv] poll_settlement_safe[OF inv])

lemma normalised_safe:
  assumes inv: "engine_inv t e" and t: "t \<le> now"
  shows "normalised_in debug c now e = Some (normalised c now e)"
proof -
  have "fold_opt (normalise_in debug now) as e = Some (fold (normalise now) as e)" if "engine_inv now e" for as e
    using that
  proof (induction as arbitrary: e)
    case (Cons a as)
    have "normalise_in debug now a e = Some (normalise now a e)"
      using release_expired_safe[OF engine_invD(3)[OF Cons.prems], of debug a now]
      by (simp add: normalise_in_def normalise_def upd_ledger_def split: prod.split)
    with Cons.IH[OF normalise_inv(1)[OF Cons.prems order_refl]] show ?case by simp
  qed simp
  from this[OF engine_inv_later[OF inv t]] show ?thesis by (simp add: normalised_in_def normalised_def)
qed

text \<open>The two builds agree on every command that is handed a drained buffer.\<close>

lemma engine_apply_safe:
  assumes inv: "engine_inv t e" and t: "t \<le> now" and drained: "eb_is_empty b"
  shows "engine_apply_in debug c now (e, b) = engine_apply c now (e, b)"
proof -
  note N = normalised_inv(1)[OF inv t, of c]
  obtain res e' b' es where out: "engine_apply c now (e, b) = Some (res, (e', b'))" "engine_inv now e'" "emits b es b'"
    using engine_apply_handled[OF inv t, of c b] by blast
  have "dispatch_in debug c now (normalised c now e, b) = Some (res, (e', b'))"
    using out(1) dispatch_safe[OF N, of debug c b] by (simp add: engine_apply_def)
  moreover have "check_claim_state_coherence (e_ledger e') = Inr ()"
    by (rule claim_state_coherent[OF engine_invD(2)[OF out(2)]])
  ultimately show ?thesis
    using drained emits_dropped[OF out(3)] normalised_safe[OF inv t, of debug c] out(1)
    by (simp add: engine_apply_in_def)
qed

end
