(* ===== verification/Venue.thy ===== *)
theory Venue
  imports Channels Coverage Clock Engine_Debug_Safe
begin

text \<open>
  The single-writer runtime of \<open>crates/runtime/src/venue.rs\<close>: one thread owns the engine and takes
  commands from a bounded channel; it hands every command it applied to a logger and every event to a
  publisher, over bounded channels, without ever blocking. The threads are the actions of a step
  relation, interleaved in any order. The properties say what the log is worth: replayed through a fresh
  engine it gives the engine of the round, except after a halt on a full log, where it is one command
  behind.
\<close>

section \<open>Data\<close>

record log_entry =
  en_sequence :: u64
  en_at :: ts
  en_command :: command
  en_outcome :: "engine_error + unit"

record runtime_capacities =
  command_channel :: nat
  event_ring :: nat
  event_buffer_room :: nat
  command_log :: nat

definition runtime_capacities_default :: runtime_capacities where
  "runtime_capacities_default =
     \<lparr> command_channel = 4, event_ring = 256, event_buffer_room = 64, command_log = 1024 \<rparr>"

text \<open>The locals of the engine thread, and how it stands.\<close>

record engine_round =
  er_engine :: engine
  er_events :: event_buffer
  er_sequence :: u64
  er_event_sequence :: u64
  er_coverage_checks :: u64
  er_emitted :: u64
  er_dropped :: u64

datatype engine_thread = Running | Halted halt_reason | Panicked

type_synonym sequenced_event = "event sequenced"

record venue =
  v_round :: engine_round
  v_thread :: engine_thread
  v_clock :: ts
  v_inbox :: "command channel"
  v_events :: "sequenced_event channel"
  v_entries :: "log_entry channel"
  v_published :: "sequenced_event list"
  v_log :: "log_entry list"

record round_outcome =
  ro_engine :: engine
  ro_log :: "log_entry list"
  ro_coverage_checks :: u64
  ro_events_dropped :: u64
  ro_events_emitted :: u64
  ro_halted :: halt_reason

section \<open>Starting\<close>

definition round_start :: "engine \<Rightarrow> runtime_capacities \<Rightarrow> engine_round" where
  "round_start e caps =
     \<lparr> er_engine = e, er_events = eb_with_capacity (event_buffer_room caps), er_sequence = 0,
       er_event_sequence = 0, er_coverage_checks = 0, er_emitted = 0, er_dropped = 0 \<rparr>"

definition venue_start :: "config \<Rightarrow> runtime_capacities \<Rightarrow> (config_error + venue) option" where
  "venue_start config caps =
     (case engine_new config of
        None \<Rightarrow> None
      | Some (Inl err) \<Rightarrow> Some (Inl err)
      | Some (Inr e) \<Rightarrow> Some (Inr
          \<lparr> v_round = round_start e caps, v_thread = Running, v_clock = 0,
            v_inbox = sync_channel (command_channel caps), v_events = sync_channel (event_ring caps),
            v_entries = sync_channel (command_log caps), v_published = [], v_log = [] \<rparr>))"

section \<open>The engine thread\<close>

definition hand_off_event :: "event \<Rightarrow> engine_round \<times> sequenced_event channel \<Rightarrow> engine_round \<times> sequenced_event channel" where
  "hand_off_event ev rk =
     (let (round, k) = rk;
          sequenced = \<lparr> sq_sequence = er_event_sequence round, sq_event = ev \<rparr>;
          round1 = round\<lparr> er_event_sequence := saturating_add (er_event_sequence round) 1 \<rparr>
      in case try_send sequenced k of
           (Inr _, k') \<Rightarrow> (round1\<lparr> er_emitted := saturating_add (er_emitted round1) 1 \<rparr>, k')
         | (Inl _, k') \<Rightarrow> (round1\<lparr> er_dropped := saturating_add (er_dropped round1) 1 \<rparr>, k'))"

text \<open>The loop's own debug assertion after a command, over the accounts the command names.\<close>

definition coverage_holds :: "command \<Rightarrow> engine \<Rightarrow> bool" where
  "coverage_holds c e =
     ((case c of CreditAccount _ _ \<Rightarrow> True | _ \<Rightarrow> False) \<or>
      list_all (\<lambda>a. check_claim_coverage_for (e_ledger e) a = Inr ()) (somes (touched_accounts e c)))"

text \<open>
  One command taken from the inbox, at the instant the clock gave. In a debug build the engine's own
  assertions are compiled in with the loop's. The thread's senders are dropped and its inbox closed when
  it ends, whichever way.
\<close>

definition end_thread :: "engine_thread \<Rightarrow> venue \<Rightarrow> venue" where
  "end_thread how v = v\<lparr> v_thread := how, v_inbox := drop_receiver (v_inbox v),
     v_events := drop_sender (v_events v), v_entries := drop_sender (v_entries v) \<rparr>"

definition run_command :: "bool \<Rightarrow> command \<Rightarrow> ts \<Rightarrow> venue \<Rightarrow> venue" where
  "run_command debug c now v =
     (let round = v_round v in
      case engine_apply_in debug c now (er_engine round, eb_clear (er_events round)) of
        None \<Rightarrow> end_thread Panicked v
      | Some (res, (e, b)) \<Rightarrow>
          (let round1 = round\<lparr> er_engine := e, er_events := b \<rparr>;
               entry = \<lparr> en_sequence = er_sequence round, en_at = now, en_command = c, en_outcome = res \<rparr>
           in case try_send entry (v_entries v) of
                (Inl _, _) \<Rightarrow> end_thread (Halted LogUnrecordable) (v\<lparr> v_round := round1 \<rparr>)
              | (Inr _, entries) \<Rightarrow>
                  (let (drained, b') = eb_drain b;
                       round2 = round1\<lparr> er_sequence := saturating_add (er_sequence round1) 1, er_events := b' \<rparr>;
                       (round3, events) = fold hand_off_event drained (round2, v_events v);
                       round4 = round3\<lparr> er_coverage_checks := saturating_add (er_coverage_checks round3) 1 \<rparr>;
                       v1 = v\<lparr> v_round := round4, v_events := events, v_entries := entries \<rparr>
                   in if debug \<and> \<not> coverage_holds c (er_engine round4) then end_thread Panicked v1 else v1)))"

text \<open>One turn of the loop; the clock is read only when there is a command.\<close>

definition engine_turn :: "bool \<Rightarrow> ts \<Rightarrow> venue \<Rightarrow> venue" where
  "engine_turn debug now v =
     (case try_recv (v_inbox v) of
        (Inr c, inbox) \<Rightarrow> run_command debug c now (v\<lparr> v_clock := now, v_inbox := inbox \<rparr>)
      | (Inl RecvEmpty, _) \<Rightarrow> v
      | (Inl RecvDisconnected, _) \<Rightarrow> end_thread (Halted ChannelClosed) v)"

section \<open>The other threads\<close>

definition publisher_turn :: "venue \<Rightarrow> venue" where
  "publisher_turn v =
     (case recv_turn (v_events v) of
        (Some ev, k) \<Rightarrow> v\<lparr> v_events := k, v_published := v_published v @ [ev] \<rparr>
      | (None, k) \<Rightarrow> v\<lparr> v_events := k \<rparr>)"

definition logger_turn :: "venue \<Rightarrow> venue" where
  "logger_turn v =
     (case recv_turn (v_entries v) of
        (Some entry, k) \<Rightarrow> v\<lparr> v_entries := k, v_log := v_log v @ [entry] \<rparr>
      | (None, k) \<Rightarrow> v\<lparr> v_entries := k \<rparr>)"

text \<open>
  What can happen next: a client clones or drops a handle or sends a command (there is no such action
  while a send would block), a thread takes a turn, a worker dies. A dead logger's log is lost.
\<close>

datatype venue_action =
    CloneHandle
  | DropHandle
  | SendCommand command
  | EngineTurn ts
  | PublisherTurn
  | LoggerTurn
  | PublisherDies
  | LoggerDies

definition venue_act :: "bool \<Rightarrow> venue_action \<Rightarrow> venue \<Rightarrow> venue option" where
  "venue_act debug act v =
     (case act of
        CloneHandle \<Rightarrow> if ch_senders (v_inbox v) = 0 then None else Some (v\<lparr> v_inbox := clone_sender (v_inbox v) \<rparr>)
      | DropHandle \<Rightarrow> if ch_senders (v_inbox v) = 0 then None else Some (v\<lparr> v_inbox := drop_sender (v_inbox v) \<rparr>)
      | SendCommand c \<Rightarrow>
          if ch_senders (v_inbox v) = 0 then None
          else map_option (\<lambda>(_, inbox). v\<lparr> v_inbox := inbox \<rparr>) (send c (v_inbox v))
      | EngineTurn now \<Rightarrow> if v_thread v = Running \<and> v_clock v \<le> now then Some (engine_turn debug now v) else None
      | PublisherTurn \<Rightarrow> if ch_receiver (v_events v) then Some (publisher_turn v) else None
      | LoggerTurn \<Rightarrow> if ch_receiver (v_entries v) then Some (logger_turn v) else None
      | PublisherDies \<Rightarrow> Some (v\<lparr> v_events := drop_receiver (v_events v) \<rparr>)
      | LoggerDies \<Rightarrow> Some (v\<lparr> v_entries := drop_receiver (v_entries v), v_log := [] \<rparr>))"

inductive venue_step :: "bool \<Rightarrow> venue \<Rightarrow> venue \<Rightarrow> bool" for debug where
  venue_acts: "venue_act debug act v = Some v' \<Longrightarrow> venue_step debug v v'"

definition venue_started :: "config \<Rightarrow> runtime_capacities \<Rightarrow> venue \<Rightarrow> bool" where
  "venue_started config caps v \<longleftrightarrow> venue_start config caps = Some (Inr v)"

text \<open>
  Joining: \<open>None\<close> while a thread is still running; otherwise \<open>Inl\<close> is the panic of the engine
  thread, \<open>Inr\<close> the outcome of the round.
\<close>

definition venue_join :: "venue \<Rightarrow> (unit + round_outcome) option" where
  "venue_join v =
     (case v_thread v of
        Running \<Rightarrow> None
      | Panicked \<Rightarrow> Some (Inl ())
      | Halted why \<Rightarrow>
          if closed_and_drained (v_entries v) \<and> closed_and_drained (v_events v) then
            Some (Inr \<lparr> ro_engine = er_engine (v_round v), ro_log = v_log v,
                        ro_coverage_checks = er_coverage_checks (v_round v), ro_events_dropped = er_dropped (v_round v),
                        ro_events_emitted = er_emitted (v_round v), ro_halted = why \<rparr>)
          else None)"

section \<open>Replay\<close>

text \<open>\<open>None\<close> is the panic of a debug build: an assertion of the engine, or a replay that disagrees with the log.\<close>

fun replay_entries :: "bool \<Rightarrow> log_entry list \<Rightarrow> world \<Rightarrow> world option" where
  "replay_entries debug [] w = Some w"
| "replay_entries debug (entry # log) w =
     (case engine_apply_in debug (en_command entry) (en_at entry) (fst w, eb_clear (snd w)) of
        None \<Rightarrow> None
      | Some (res, w') \<Rightarrow> if debug \<and> res \<noteq> en_outcome entry then None else replay_entries debug log w')"

definition replay :: "bool \<Rightarrow> config \<Rightarrow> log_entry list \<Rightarrow> nat \<Rightarrow> (config_error + engine) option" where
  "replay debug config log room =
     (case engine_new config of
        None \<Rightarrow> None
      | Some (Inl err) \<Rightarrow> Some (Inl err)
      | Some (Inr e) \<Rightarrow>
          (case replay_entries debug log (e, eb_with_capacity room) of
             None \<Rightarrow> None
           | Some w \<Rightarrow> Some (Inr (fst w))))"

section \<open>Counters\<close>

definition stamp :: "nat \<Rightarrow> u64" where
  "stamp i = word_of_nat (min i (2 ^ 64 - 1))"

lemma unat_stamp: "unat (stamp i) = min i (2 ^ 64 - 1)"
  unfolding stamp_def by (rule unat_word_of_nat) simp

lemma stamp_simps [simp]: "stamp 0 = 0" "saturating_add (stamp i) 1 = stamp (Suc i)"
proof -
  show "stamp 0 = 0" by (simp add: stamp_def)
  have "unat (saturating_add (stamp i) 1) = unat (stamp (Suc i))" by (simp add: unat_saturating_add unat_stamp)
  then show "saturating_add (stamp i) 1 = stamp (Suc i)" by (simp only: word_unat_eq_iff)
qed

section \<open>The log determines the engine\<close>

lemma eb_clear_cleared: "eb_clear b = eb_with_capacity (eb_capacity b)"
  by (simp add: eb_clear_def eb_with_capacity_def)

lemma replay_entries_append:
  "replay_entries debug (xs @ ys) w = Option.bind (replay_entries debug xs w) (replay_entries debug ys)"
  by (induction xs arbitrary: w) (auto split: option.split prod.split)

definition replays_to :: "config \<Rightarrow> nat \<Rightarrow> log_entry list \<Rightarrow> engine \<Rightarrow> bool" where
  "replays_to config room log e \<longleftrightarrow> (\<exists>e0 b. engine_new config = Some (Inr e0) \<and> eb_capacity b = room \<and>
     replay_entries True log (e0, eb_with_capacity room) = Some (e, b))"

lemma replays_to_replay: "replays_to config room log e \<Longrightarrow> replay True config log room = Some (Inr e)"
  by (auto simp: replays_to_def replay_def)

lemma replays_to_snoc:
  assumes "replays_to config room log e" and "engine_apply_in True c now (e, eb_with_capacity room) = Some (res, (e', b'))"
    and "eb_capacity b' = room"
  shows "replays_to config room (log @ [\<lparr> en_sequence = n, en_at = now, en_command = c, en_outcome = res \<rparr>]) e'"
  using assms by (auto simp: replays_to_def replay_entries_append eb_clear_cleared)

text \<open>The log in full: what the logger has, then what is on its way.\<close>

definition full_log :: "venue \<Rightarrow> log_entry list" where
  "full_log v = v_log v @ ch_queue (v_entries v)"

definition stamped :: "log_entry list \<Rightarrow> ts \<Rightarrow> bool" where
  "stamped log now \<longleftrightarrow> map en_sequence log = map stamp [0..<length log] \<and> sorted (map en_at log) \<and>
     (\<forall>entry\<in>set log. en_at entry \<le> now)"

lemma stamped_snoc:
  "stamped log t \<Longrightarrow> t \<le> now \<Longrightarrow> en_sequence entry = stamp (length log) \<Longrightarrow> en_at entry = now \<Longrightarrow> stamped (log @ [entry]) now"
  by (auto simp: stamped_def sorted_append intro: order_trans)

definition one_behind :: "config \<Rightarrow> nat \<Rightarrow> log_entry list \<Rightarrow> ts \<Rightarrow> engine \<Rightarrow> bool" where
  "one_behind config room log now e' \<longleftrightarrow> (\<exists>e c res b. replays_to config room log e \<and>
     engine_apply c now (e, eb_with_capacity room) = Some (res, (e', b)))"

definition log_inv :: "config \<Rightarrow> nat \<Rightarrow> venue \<Rightarrow> bool" where
  "log_inv config room v \<longleftrightarrow> stamped (full_log v) (v_clock v) \<and>
     (if v_thread v = Halted LogUnrecordable then one_behind config room (full_log v) (v_clock v) (er_engine (v_round v))
      else replays_to config room (full_log v) (er_engine (v_round v)) \<and> er_sequence (v_round v) = stamp (length (full_log v)))"

definition venue_inv :: "config \<Rightarrow> runtime_capacities \<Rightarrow> venue \<Rightarrow> bool" where
  "venue_inv config caps v \<longleftrightarrow> reachable_engine (v_clock v) (er_engine (v_round v)) \<and>
     eb_capacity (er_events (v_round v)) = event_buffer_room caps \<and>
     (ch_receiver (v_entries v) \<longrightarrow> log_inv config (event_buffer_room caps) v)"

section \<open>One command\<close>

lemma hand_off_frame [simp]:
  "er_engine (fst (hand_off_event ev rk)) = er_engine (fst rk)" "er_events (fst (hand_off_event ev rk)) = er_events (fst rk)"
  "er_sequence (fst (hand_off_event ev rk)) = er_sequence (fst rk)"
  by (simp_all add: hand_off_event_def Let_def split: prod.split sum.split)

lemma hand_offs_frame [simp]:
  "er_engine (fst (fold hand_off_event es rk)) = er_engine (fst rk)" "er_events (fst (fold hand_off_event es rk)) = er_events (fst rk)"
  "er_sequence (fst (fold hand_off_event es rk)) = er_sequence (fst rk)"
  by (induction es arbitrary: rk) simp_all

lemma emits_capacity: "emits b es b' \<Longrightarrow> eb_capacity b' = eb_capacity b"
proof -
  have "eb_capacity (fold eb_push es b) = eb_capacity b" by (induction es arbitrary: b) simp_all
  then show "emits b es b' \<Longrightarrow> eb_capacity b' = eb_capacity b" by (auto simp: emits_def push_events_def)
qed

lemma apply_in_round:
  assumes "reachable_engine t e" and "t \<le> now"
  obtains res e' b where "engine_apply c now (e, eb_with_capacity room) = Some (res, (e', b))"
    and "reachable_engine now e'" and "eb_capacity b = room"
    and "\<forall>debug. engine_apply_in debug c now (e, eb_with_capacity room) = Some (res, (e', b))"
proof -
  obtain res e' b es where ap: "engine_apply c now (e, eb_with_capacity room) = Some (res, (e', b))" "emits (eb_with_capacity room) es b"
    using engine_apply_handled[OF reachable_engine_inv[OF assms(1)] assms(2), of c "eb_with_capacity room"] by blast
  have "reachable_engine now e'" by (rule reaches_step[OF assms(1) engine_applies[OF assms(2) ap(1)]])
  moreover have "eb_capacity b = room" using emits_capacity[OF ap(2)] by (simp add: eb_with_capacity_def)
  moreover have "eb_is_empty (eb_with_capacity room)" by (simp add: eb_is_empty_def eb_with_capacity_def)
  then have "\<forall>debug. engine_apply_in debug c now (e, eb_with_capacity room) = Some (res, (e', b))"
    using engine_apply_safe[OF reachable_engine_inv[OF assms(1)] assms(2)] ap(1) by simp
  ultimately show thesis by (rule that[OF ap(1)])
qed

lemma end_thread_simps [simp]:
  "v_round (end_thread how v) = v_round v" "v_thread (end_thread how v) = how" "v_clock (end_thread how v) = v_clock v"
  "full_log (end_thread how v) = full_log v" "ch_receiver (v_entries (end_thread how v)) = ch_receiver (v_entries v)"
  by (simp_all add: end_thread_def full_log_def)

lemma run_command_cases:
  assumes inv: "venue_inv config caps v" and t: "v_clock v \<le> now" and w: "w = v\<lparr> v_clock := now, v_inbox := inbox \<rparr>"
  obtains (unrecorded) res e' b where
      "engine_apply c now (er_engine (v_round v), eb_with_capacity (event_buffer_room caps)) = Some (res, (e', b))"
      "reachable_engine now e'" "eb_capacity b = event_buffer_room caps"
      "run_command debug c now w = end_thread (Halted LogUnrecordable) (w\<lparr> v_round := (v_round v)\<lparr> er_engine := e', er_events := b \<rparr> \<rparr>)"
  | (recorded) res e' b entry round1 round3 events v1 where
      "engine_apply c now (er_engine (v_round v), eb_with_capacity (event_buffer_room caps)) = Some (res, (e', b))"
      "engine_apply_in True c now (er_engine (v_round v), eb_with_capacity (event_buffer_room caps)) = Some (res, (e', b))"
      "reachable_engine now e'" "eb_capacity b = event_buffer_room caps" "ch_receiver (v_entries v)"
      "entry = \<lparr> en_sequence = er_sequence (v_round v), en_at = now, en_command = c, en_outcome = res \<rparr>"
      "round1 = (v_round v)\<lparr> er_engine := e', er_sequence := saturating_add (er_sequence (v_round v)) 1, er_events := eb_clear b \<rparr>"
      "fold hand_off_event (eb_events b) (round1, v_events v) = (round3, events)"
      "v1 = w\<lparr> v_round := round3\<lparr> er_coverage_checks := saturating_add (er_coverage_checks round3) 1 \<rparr>, v_events := events,
         v_entries := (v_entries v)\<lparr> ch_queue := ch_queue (v_entries v) @ [entry] \<rparr> \<rparr>"
      "run_command debug c now w = (if debug \<and> \<not> coverage_holds c e' then end_thread Panicked v1 else v1)"
proof -
  let ?room = "event_buffer_room caps" and ?r = "v_round v"
  have r: "reachable_engine (v_clock v) (er_engine ?r)" "eb_clear (er_events ?r) = eb_with_capacity ?room"
    using inv by (auto simp: venue_inv_def eb_clear_cleared)
  obtain res e' b where ap: "engine_apply c now (er_engine ?r, eb_with_capacity ?room) = Some (res, (e', b))"
    "reachable_engine now e'" "eb_capacity b = ?room"
    and "\<forall>debug. engine_apply_in debug c now (er_engine ?r, eb_with_capacity ?room) = Some (res, (e', b))"
    by (rule apply_in_round[OF r(1) t])
  note dbg = this(4)[rule_format]
  define entry where "entry = \<lparr> en_sequence = er_sequence ?r, en_at = now, en_command = c, en_outcome = res \<rparr>"
  show thesis
  proof (cases rule: try_send_cases[of entry "v_entries v"])
    case (refused err)
    show thesis
      by (rule unrecorded[OF ap]) (use refused in \<open>simp add: w run_command_def Let_def r(2) dbg entry_def\<close>)
  next
    case sent
    define round1 where "round1 = ?r\<lparr> er_engine := e', er_sequence := saturating_add (er_sequence ?r) 1, er_events := eb_clear b \<rparr>"
    obtain round3 events where f: "fold hand_off_event (eb_events b) (round1, v_events v) = (round3, events)" by (metis prod.exhaust)
    have "er_engine round3 = e'" using arg_cong[OF f, of "\<lambda>x. er_engine (fst x)"] by (simp add: round1_def)
    then show thesis
      by (intro recorded[OF ap(1) dbg ap(2,3) sent(2) entry_def round1_def f refl])
        (use sent(1) f in \<open>simp add: w run_command_def Let_def r(2) dbg entry_def round1_def eb_drain_def\<close>)
  qed
qed

lemma run_command_inv:
  assumes inv: "venue_inv config caps v" and t: "v_clock v \<le> now" and run: "v_thread v = Running"
  shows "venue_inv config caps (run_command debug c now (v\<lparr> v_clock := now, v_inbox := inbox \<rparr>))"
proof -
  have L: "stamped (full_log v) (v_clock v)" "replays_to config (event_buffer_room caps) (full_log v) (er_engine (v_round v))"
    "er_sequence (v_round v) = stamp (length (full_log v))" if "ch_receiver (v_entries v)"
    using inv that run by (simp_all add: venue_inv_def log_inv_def)
  show ?thesis
  proof (cases rule: run_command_cases[where debug = debug and c = c and inbox = inbox, OF inv t refl, case_names unrecorded recorded])
    case (unrecorded res e' b)
    have late: "stamped (full_log v) now" if "ch_receiver (v_entries v)"
      using L(1)[OF that] t by (auto simp: stamped_def intro: order_trans)
    show ?thesis using unrecorded(1-3) L late
      by (simp add: unrecorded(4) venue_inv_def log_inv_def one_behind_def) (auto simp: full_log_def)
  next
    case (recorded res e' b entry round1 round3 events v1)
    note F = arg_cong[OF recorded(8), of "\<lambda>x. er_engine (fst x)"] arg_cong[OF recorded(8), of "\<lambda>x. er_events (fst x)"]
      arg_cong[OF recorded(8), of "\<lambda>x. er_sequence (fst x)"]
    have E: "er_engine (v_round v1) = e'" "er_events (v_round v1) = eb_clear b" "er_sequence (v_round v1) = stamp (Suc (length (full_log v)))"
      "v_clock v1 = now" "v_thread v1 = Running"
      using F L(3)[OF recorded(5)] run by (simp_all add: recorded(7,9))
    have full: "full_log v1 = full_log v @ [entry]" by (simp add: recorded(9) full_log_def)
    have "log_inv config (event_buffer_room caps) v1"
      unfolding log_inv_def full
      using stamped_snoc[OF L(1)[OF recorded(5)] t, of entry] replays_to_snoc[OF L(2)[OF recorded(5)] recorded(2,4)] L(3)[OF recorded(5)]
      by (simp add: E recorded(6))
    then have i1: "venue_inv config caps v1" using recorded(3,4) by (simp add: venue_inv_def E eb_clear_def)
    moreover have "venue_inv config caps (end_thread Panicked v1)"
      using i1 by (simp add: venue_inv_def log_inv_def E)
    ultimately show ?thesis by (simp add: recorded(10))
  qed
qed

section \<open>Every action\<close>

lemma venue_inv_cong:
  assumes "v_round v' = v_round v" and "v_clock v' = v_clock v" and "v_thread v' = v_thread v"
    and "ch_receiver (v_entries v') \<Longrightarrow> ch_receiver (v_entries v) \<and> full_log v' = full_log v"
  shows "venue_inv config caps v \<Longrightarrow> venue_inv config caps v'"
  using assms by (auto simp: venue_inv_def log_inv_def)

lemma engine_turn_inv:
  assumes inv: "venue_inv config caps v" and t: "v_clock v \<le> now" and run: "v_thread v = Running"
  shows "venue_inv config caps (engine_turn debug now v)"
proof -
  have "venue_inv config caps (end_thread (Halted ChannelClosed) v)"
    using inv run by (simp add: venue_inv_def log_inv_def)
  with inv run_command_inv[OF inv t run] show ?thesis
    by (auto simp: engine_turn_def split: prod.split sum.split try_recv_error.split)
qed

lemma worker_turns:
  "full_log (logger_turn v) = full_log v" "full_log (publisher_turn v) = full_log v"
  "ch_receiver (v_entries (logger_turn v)) = ch_receiver (v_entries v)"
  "v_round (logger_turn v) = v_round v" "v_clock (logger_turn v) = v_clock v" "v_thread (logger_turn v) = v_thread v"
  "v_round (publisher_turn v) = v_round v" "v_clock (publisher_turn v) = v_clock v" "v_thread (publisher_turn v) = v_thread v"
  "v_entries (publisher_turn v) = v_entries v" "v_log (publisher_turn v) = v_log v"
  by (auto simp: full_log_def logger_turn_def publisher_turn_def recv_turn_def try_recv_def split: list.splits)

lemma venue_act_inv:
  assumes inv: "venue_inv config caps v" and act: "venue_act debug act v = Some v'"
  shows "venue_inv config caps v'"
proof (cases act)
  case (EngineTurn now)
  then show ?thesis using act engine_turn_inv[OF inv, of now debug] by (auto simp: venue_act_def split: if_splits)
next
  case LoggerTurn
  then show ?thesis using act by (auto simp: venue_act_def worker_turns intro!: venue_inv_cong[OF _ _ _ _ inv] split: if_splits)
next
  case PublisherTurn
  then show ?thesis using act by (auto simp: venue_act_def worker_turns intro!: venue_inv_cong[OF _ _ _ _ inv] split: if_splits)
qed (use act in \<open>auto simp: venue_act_def full_log_def intro!: venue_inv_cong[OF _ _ _ _ inv]
    split: if_splits prod.splits sum.splits try_send_error.splits\<close>)

lemma venue_started_inv:
  assumes "venue_started config caps v"
  shows "venue_inv config caps v"
proof -
  obtain e where e: "engine_new config = Some (Inr e)"
    and v: "v_round v = round_start e caps" "v_thread v = Running" "v_clock v = 0" "v_log v = []" "v_entries v = sync_channel (command_log caps)"
    using assms by (auto simp: venue_started_def venue_start_def split: option.splits sum.splits)
  have "reachable_engine 0 e" using e by (auto intro!: reaches_start simp: engine_start_def)
  with e show ?thesis
    by (simp add: v venue_inv_def log_inv_def full_log_def sync_channel_def stamped_def replays_to_def round_start_def)
      (auto simp: eb_with_capacity_def)
qed

interpretation venue_system: inductive_invariant "venue_started config caps" "venue_step debug" "venue_inv config caps"
  for config caps debug
  by unfold_locales (auto simp: venue_started_inv elim!: venue_step.cases intro: venue_act_inv)

abbreviation reachable_venue :: "bool \<Rightarrow> config \<Rightarrow> runtime_capacities \<Rightarrow> venue \<Rightarrow> bool" where
  "reachable_venue debug config caps v \<equiv> reaches (venue_started config caps) (venue_step debug) v"

section \<open>What a round leaves behind\<close>

text \<open>
  C27. A round whose logger lived leaves a log that replays, without a disagreement: numbered from zero,
  at instants that do not run backwards, and leading a fresh engine to the engine of the round when every
  client hung up. After a halt on a full log queue it leads to the engine just before the last
  command, which was applied and not recorded.
\<close>

theorem round_replays:
  assumes "reachable_venue debug config caps v" and "venue_join v = Some (Inr out)" and "ch_receiver (v_entries v)"
  shows "(\<exists>e. replay True config (ro_log out) (event_buffer_room caps) = Some (Inr e) \<and>
       (case ro_halted out of
          ChannelClosed \<Rightarrow> e = ro_engine out
        | LogUnrecordable \<Rightarrow> \<exists>c now res b.
            engine_apply c now (e, eb_with_capacity (event_buffer_room caps)) = Some (res, (ro_engine out, b))))
     \<and> map en_sequence (ro_log out) = map stamp [0..<length (ro_log out)] \<and> sorted (map en_at (ro_log out))"
proof -
  obtain why where why: "v_thread v = Halted why" and closed: "closed_and_drained (v_entries v)"
    and out: "ro_log out = v_log v" "ro_engine out = er_engine (v_round v)" "ro_halted out = why"
    using assms(2) by (auto simp: venue_join_def split: engine_thread.splits if_splits)
  have log: "full_log v = ro_log out" using closed assms(3) by (simp add: closed_and_drained_def full_log_def out)
  have L: "log_inv config (event_buffer_room caps) v"
    using venue_system.reachable_inv[OF assms(1)] assms(3) by (simp add: venue_inv_def)
  show ?thesis
  proof (cases why)
    case ChannelClosed
    with L show ?thesis by (auto simp: log_inv_def log why stamped_def out dest!: replays_to_replay)
  next
    case LogUnrecordable
    with L obtain e c res b where "replays_to config (event_buffer_room caps) (v_log v) e"
      "engine_apply c (v_clock v) (e, eb_with_capacity (event_buffer_room caps)) = Some (res, (ro_engine out, b))"
      by (auto simp: log_inv_def log why one_behind_def out)
    moreover have "stamped (v_log v) (v_clock v)" using L by (simp add: log_inv_def log out)
    ultimately show ?thesis unfolding out LogUnrecordable halt_reason.case stamped_def
      by (blast dest: replays_to_replay)
  qed
qed

section \<open>The engine thread does not panic\<close>

lemma normalised_covered:
  assumes "reachable_engine t e" and "t \<le> now" and "engine_apply c now (e, b) = Some (res, (e', b'))"
    and "check_claim_coverage (e_ledger e) = Inr ()"
  shows "coverage_holds c e'"
proof (cases "\<exists>a v. c = CreditAccount a v")
  case False
  then have nc: "\<And>a v. c \<noteq> CreditAccount a v" by blast
  have wf: "slabs_wf (e_ledger e)" using engine_invD(3)[OF reachable_engine_inv[OF assms(1)]] by (simp add: ledger_inv_def)
  with assms(4) have "check_claim_coverage_for (e_ledger e) a = Inr ()" for a by (simp add: coverage_table_iff)
  then have "check_claim_coverage_for (e_ledger e') a = Inr ()" for a
    using within_covered[OF apply_within[OF assms(1,2,3) nc]] by (simp add: coverage_check_iff)
  then show ?thesis by (simp add: coverage_holds_def list_all_iff)
qed (auto simp: coverage_holds_def)

text \<open>
  C28. The thread that owns the engine never panics in a release build, and in a debug build not as long
  as claims are covered. A debug build compiles in the assertions of \<open>Engine::apply\<close> and its handlers (the
  buffer drained at the entry and not touched by normalisation, claims and their owners coherent at the
  exit), of every ledger and slab operation they call, of the event buffer and the selection walk, and
  of the loop itself (coverage): all but the last hold on every reachable engine, and coverage is kept by
  every command. What is left is the window after a mirror update has taken availability from under
  standing claims.
\<close>

theorem engine_thread_does_not_panic:
  assumes "reachable_venue debug config caps v" and "v_thread v = Running" and "v_clock v \<le> now"
    and "debug \<Longrightarrow> check_claim_coverage (e_ledger (er_engine (v_round v))) = Inr ()"
  shows "v_thread (engine_turn debug now v) \<noteq> Panicked"
proof -
  have inv: "venue_inv config caps v" by (rule venue_system.reachable_inv[OF assms(1)])
  have r: "reachable_engine (v_clock v) (er_engine (v_round v))" using inv by (simp add: venue_inv_def)
  have "v_thread (run_command debug c now (v\<lparr> v_clock := now, v_inbox := inbox \<rparr>)) \<noteq> Panicked" for c inbox
  proof (cases rule: run_command_cases[where debug = debug and c = c and inbox = inbox, OF inv assms(3) refl, case_names unrecorded recorded])
    case (recorded res e' b entry round1 round3 events v1)
    have "debug \<Longrightarrow> coverage_holds c e'" by (rule normalised_covered[OF r assms(3) recorded(1) assms(4)])
    then have "run_command debug c now (v\<lparr> v_clock := now, v_inbox := inbox \<rparr>) = v1" using recorded(10) by auto
    then show ?thesis using assms(2) by (simp add: recorded(9))
  qed simp
  then show ?thesis using assms(2) by (auto simp: engine_turn_def split: prod.split sum.split try_recv_error.split)
qed

section \<open>One round, evaluated\<close>

fun venue_run :: "bool \<Rightarrow> venue_action list \<Rightarrow> venue \<Rightarrow> venue option" where
  "venue_run debug [] v = Some v"
| "venue_run debug (act # acts) v = Option.bind (venue_act debug act v) (venue_run debug acts)"

lemma venue_run_reaches:
  "venue_run debug acts v = Some v' \<Longrightarrow> reachable_venue debug config caps v \<Longrightarrow> reachable_venue debug config caps v'"
proof (induction acts arbitrary: v)
  case (Cons act acts)
  then obtain v1 where "venue_act debug act v = Some v1" "venue_run debug acts v1 = Some v'" by (auto simp: bind_eq_Some_conv)
  with Cons show ?case by (blast intro: reaches_step venue_acts)
qed simp

definition round_of :: "bool \<Rightarrow> config \<Rightarrow> runtime_capacities \<Rightarrow> venue_action list \<Rightarrow> venue option" where
  "round_of debug config caps acts =
     (case venue_start config caps of Some (Inr v) \<Rightarrow> venue_run debug acts v | _ \<Rightarrow> None)"

lemma round_of_reachable: "round_of debug config caps acts = Some v \<Longrightarrow> reachable_venue debug config caps v"
proof -
  assume "round_of debug config caps acts = Some v"
  then obtain v0 where v0: "venue_started config caps v0" "venue_run debug acts v0 = Some v"
    by (auto simp: round_of_def venue_started_def split: option.splits sum.splits)
  from venue_run_reaches[OF v0(2) reaches_start] v0(1) show "reachable_venue debug config caps v" .
qed

definition two_credits :: "venue_action list" where
  "two_credits = [SendCommand (CreditAccount 0 9), SendCommand (CreditAccount 0 12), DropHandle,
     EngineTurn 10, EngineTurn 11, EngineTurn 12, LoggerTurn, LoggerTurn, PublisherTurn]"

lemma two_credits_joined:
  "(case round_of True desk_config runtime_capacities_default two_credits of
      None \<Rightarrow> False
    | Some v \<Rightarrow> ch_receiver (v_entries v) \<and>
        (case venue_join v of Some (Inr out) \<Rightarrow> ro_halted out = ChannelClosed \<and> length (ro_log out) = 2 | _ \<Rightarrow> False))"
  by code_simp

lemma round_replays_witness:
  "\<exists>v out. reachable_venue True desk_config runtime_capacities_default v \<and> venue_join v = Some (Inr out) \<and>
     length (ro_log out) = 2 \<and> replay True desk_config (ro_log out) 64 = Some (Inr (ro_engine out))"
proof -
  obtain v out where v: "round_of True desk_config runtime_capacities_default two_credits = Some v" "ch_receiver (v_entries v)"
    "venue_join v = Some (Inr out)" "ro_halted out = ChannelClosed" "length (ro_log out) = 2"
    using two_credits_joined by (auto split: option.splits sum.splits)
  note r = round_of_reachable[OF v(1)]
  have "replay True desk_config (ro_log out) 64 = Some (Inr (ro_engine out))"
    using round_replays[OF r v(3,2)] v(4) by (simp add: runtime_capacities_default_def)
  with r v(3,5) show ?thesis by blast
qed

lemma one_sent:
  "(case round_of True desk_config runtime_capacities_default [SendCommand (CreditAccount 0 9)] of
      None \<Rightarrow> False
    | Some v \<Rightarrow> v_thread v = Running \<and> v_clock v = 0 \<and> check_claim_coverage (e_ledger (er_engine (v_round v))) = Inr ())"
  by code_simp

lemma engine_thread_does_not_panic_witness:
  "\<exists>v. reachable_venue True desk_config runtime_capacities_default v \<and> v_thread v = Running \<and>
     v_thread (engine_turn True 10 v) \<noteq> Panicked"
proof -
  obtain v where v: "round_of True desk_config runtime_capacities_default [SendCommand (CreditAccount 0 9)] = Some v"
    "v_thread v = Running" "v_clock v = 0" "check_claim_coverage (e_ledger (er_engine (v_round v))) = Inr ()"
    using one_sent by (auto split: option.splits)
  note r = round_of_reachable[OF v(1)]
  from engine_thread_does_not_panic[OF r v(2) _ v(4), of 10] r v(2,3) show ?thesis by auto
qed

text \<open>
  The halt that is to protect the log comes after the command was applied: with room for one entry and
  a logger that is late, the second credit is in the engine and not in the log.
\<close>

lemma unrecorded_command_is_applied:
  "(case round_of False desk_config (runtime_capacities_default\<lparr> command_log := 1 \<rparr>)
       (remove1 (EngineTurn 12) two_credits) of
      None \<Rightarrow> False
    | Some v \<Rightarrow>
        (case venue_join v of
           Some (Inr out) \<Rightarrow> ro_halted out = LogUnrecordable \<and> map_option mb_free (account (e_ledger (ro_engine out)) 0) = Some 12 \<and>
             (case replay True desk_config (ro_log out) 64 of
                Some (Inr e) \<Rightarrow> map_option mb_free (account (e_ledger e) 0) = Some 9 | _ \<Rightarrow> False)
         | _ \<Rightarrow> False))"
  by code_simp

text \<open>
  The debug assertion is skipped after a mirror update only; the next command that names the account
  whose withdrawal is pending still fails it.
\<close>

definition withdrawal_window :: "venue_action list" where
  "withdrawal_window =
     concat (map (\<lambda>(now, c). [SendCommand c, EngineTurn now])
       [(10, CreditAccount 0 9000000), (11, RegisterContract 0 9000000),
        (12, SubmitRequest 0 5000 [\<lparr>ls_contract = 0, ls_side = SideYes, ls_size = 5, ls_limit = 600000\<rparr>] 1),
        (14, CreditAccount 0 100)]) @ [PublisherTurn, SendCommand (SubmitRequest 0 5000 [] 0)]"

lemma window_round:
  "(case round_of True desk_config runtime_capacities_default withdrawal_window of
      None \<Rightarrow> False
    | Some v \<Rightarrow> v_thread v = Running \<and> v_clock v = 14 \<and>
        v_thread (engine_turn True 15 v) = Panicked \<and> v_thread (engine_turn False 15 v) = Running \<and>
        ch_receiver (v_entries v) \<and> er_event_sequence (v_round v) = 1 \<and> map sq_sequence (v_published v) = [0])"
  by code_simp

definition window_venue :: venue where
  "window_venue = the (round_of True desk_config runtime_capacities_default withdrawal_window)"

lemma window_facts:
  "round_of True desk_config runtime_capacities_default withdrawal_window = Some window_venue"
  "v_thread window_venue = Running" "v_clock window_venue = 14"
  "v_thread (engine_turn True 15 window_venue) = Panicked" "v_thread (engine_turn False 15 window_venue) = Running"
  "ch_receiver (v_entries window_venue)" "er_event_sequence (v_round window_venue) = 1"
  "map sq_sequence (v_published window_venue) = [0]"
  using window_round by (auto simp: window_venue_def split: option.splits)

lemma assertion_fails_in_the_window:
  "reachable_venue True desk_config runtime_capacities_default window_venue \<and> v_thread window_venue = Running \<and>
     v_thread (engine_turn True 15 window_venue) = Panicked"
  using round_of_reachable[OF window_facts(1)] window_facts(2,4) by blast

end
