(* ===== verification/Venue_Events.thy ===== *)
theory Venue_Events
  imports Venue "HOL-Library.Sublist"
begin

text \<open>
  The event stream of \<open>crates/runtime/src/venue.rs\<close>. The events are those the logged commands emit; the
  publisher receives a subsequence of them, each with its position, and what is missing is counted.
\<close>

section \<open>What the log says was emitted\<close>

fun emitted_by :: "log_entry list \<Rightarrow> world \<Rightarrow> event list" where
  "emitted_by [] w = []"
| "emitted_by (entry # log) w =
     (case engine_apply_in True (en_command entry) (en_at entry) (fst w, eb_clear (snd w)) of
        None \<Rightarrow> []
      | Some (_, w') \<Rightarrow> eb_events (snd w') @ emitted_by log w')"

lemma emitted_by_snoc:
  assumes "replay_entries True log w = Some (e, b)"
    and "engine_apply_in True (en_command entry) (en_at entry) (e, eb_clear b) = Some (res, (e', b'))"
  shows "emitted_by (log @ [entry]) w = emitted_by log w @ eb_events b'"
  using assms(1)
proof (induction log arbitrary: w)
  case Nil
  with assms(2) show ?case by simp
next
  case (Cons x log)
  then show ?case by (auto split: option.splits prod.splits if_splits)
qed

definition events_of_log :: "config \<Rightarrow> nat \<Rightarrow> log_entry list \<Rightarrow> event list" where
  "events_of_log config room log =
     (case engine_new config of Some (Inr e) \<Rightarrow> emitted_by log (e, eb_with_capacity room) | _ \<Rightarrow> [])"

lemma events_of_log_Nil [simp]: "events_of_log config room [] = []"
  by (simp add: events_of_log_def split: option.split sum.split)

lemma events_of_log_snoc:
  assumes "replays_to config room log e" and "en_command entry = c" and "en_at entry = now"
    and "engine_apply_in True c now (e, eb_with_capacity room) = Some (res, (e', b'))"
  shows "events_of_log config room (log @ [entry]) = events_of_log config room log @ eb_events b'"
proof -
  obtain e0 b where e0: "engine_new config = Some (Inr e0)" "eb_capacity b = room" "replay_entries True log (e0, eb_with_capacity room) = Some (e, b)"
    using assms(1) by (auto simp: replays_to_def)
  have "engine_apply_in True (en_command entry) (en_at entry) (e, eb_clear b) = Some (res, (e', b'))"
    using assms(2-4) e0(2) by (simp add: eb_clear_cleared)
  from emitted_by_snoc[OF e0(3) this] show ?thesis by (simp add: events_of_log_def e0(1))
qed

section \<open>The stream\<close>

definition tagged :: "sequenced_event \<Rightarrow> nat \<times> event" where
  "tagged x = (unat (sq_sequence x), sq_event x)"

text \<open>
  \<open>E\<close> has been emitted and \<open>got\<close> published. The counters are exact while fewer than \<open>2 ^ 64 - 1\<close>
  events were emitted; from there on they stand still.
\<close>

definition stream_ok :: "event list \<Rightarrow> sequenced_event list \<Rightarrow> engine_round \<times> sequenced_event channel \<Rightarrow> bool" where
  "stream_ok E got rk \<longleftrightarrow> er_event_sequence (fst rk) = stamp (length E) \<and>
     (length E < 2 ^ 64 - 1 \<longrightarrow>
        unat (er_emitted (fst rk)) + unat (er_dropped (fst rk)) = length E \<and>
        subseq (map tagged (got @ ch_queue (snd rk))) (enumerate 0 E) \<and>
        (ch_receiver (snd rk) \<longrightarrow> length (got @ ch_queue (snd rk)) = unat (er_emitted (fst rk))))"

lemma hand_off_stream:
  assumes ok: "stream_ok E got rk"
  shows "stream_ok (E @ [ev]) got (hand_off_event ev rk)"
proof -
  obtain round k where rk: "rk = (round, k)" by (cases rk)
  let ?x = "\<lparr> sq_sequence = er_event_sequence round, sq_event = ev \<rparr>"
  have sq: "er_event_sequence round = stamp (length E)" using ok by (simp add: stream_ok_def rk)
  have old: "unat (er_emitted round) + unat (er_dropped round) = length E" "subseq (map tagged (got @ ch_queue k)) (enumerate 0 E)"
    "ch_receiver k \<Longrightarrow> length (got @ ch_queue k) = unat (er_emitted round)" "length E < 2 ^ 64 - 1"
    if "length (E @ [ev]) < 2 ^ 64 - 1" using ok that by (simp_all add: stream_ok_def rk)
  show ?thesis
  proof (cases rule: try_send_cases[of ?x k])
    case sent
    have tag: "tagged ?x = (length E, ev)" if "length (E @ [ev]) < 2 ^ 64 - 1"
      using old(4)[OF that] by (simp add: tagged_def sq unat_stamp)
    have up: "unat (saturating_add (er_emitted round) 1) = Suc (unat (er_emitted round))" if "length (E @ [ev]) < 2 ^ 64 - 1"
      using old(1,4)[OF that] by (simp add: unat_saturating_add)
    have "subseq (map tagged (got @ ch_queue k @ [?x])) (enumerate 0 (E @ [ev]))" if "length (E @ [ev]) < 2 ^ 64 - 1"
      using list_emb_append_mono[OF old(2)[OF that], of "[tagged ?x]" "[(length E, ev)]"] tag[OF that] by (simp add: enumerate_append_eq)
    with sent old up show ?thesis
      by (simp add: stream_ok_def rk hand_off_event_def Let_def sq)
  next
    case (refused err)
    have up: "unat (saturating_add (er_dropped round) 1) = Suc (unat (er_dropped round))" if "length (E @ [ev]) < 2 ^ 64 - 1"
      using old(1,4)[OF that] by (simp add: unat_saturating_add)
    have "subseq (map tagged (got @ ch_queue k)) (enumerate 0 (E @ [ev]))" if "length (E @ [ev]) < 2 ^ 64 - 1"
      using list_emb_prefix[OF old(2)[OF that]] by (simp add: enumerate_append_eq)
    with refused old up show ?thesis
      by (simp add: stream_ok_def rk hand_off_event_def Let_def sq)
  qed
qed

lemma hand_offs_stream: "stream_ok E got rk \<Longrightarrow> stream_ok (E @ es) got (fold hand_off_event es rk)"
proof (induction es arbitrary: E rk)
  case (Cons ev es)
  from Cons.IH[OF hand_off_stream[OF Cons.prems, of ev]] show ?case by simp
qed simp

text \<open>Only the counters, the publications and the channel matter.\<close>

lemma stream_ok_cong:
  assumes "stream_ok E got (round, k)" and "er_event_sequence round' = er_event_sequence round" "er_emitted round' = er_emitted round"
    "er_dropped round' = er_dropped round" and "got' @ ch_queue k' = got @ ch_queue k" and "ch_receiver k' = ch_receiver k"
  shows "stream_ok E got' (round', k')"
  using assms by (simp add: stream_ok_def)

lemma stream_ok_lost: "stream_ok E got (round, k) \<Longrightarrow> stream_ok E got (round, drop_receiver k)"
proof -
  assume ok: "stream_ok E got (round, k)"
  have "subseq (map tagged got) (map tagged (got @ ch_queue k))" unfolding map_append by (rule list_emb_prefix) simp
  then have "subseq (map tagged (got @ ch_queue k)) (enumerate 0 E) \<Longrightarrow> subseq (map tagged got) (enumerate 0 E)"
    by (rule subseq_order.trans)
  with ok show ?thesis by (simp add: stream_ok_def drop_receiver_def)
qed

section \<open>Every action\<close>

definition events_inv :: "config \<Rightarrow> runtime_capacities \<Rightarrow> venue \<Rightarrow> bool" where
  "events_inv config caps v \<longleftrightarrow> venue_inv config caps v \<and>
     (ch_receiver (v_entries v) \<longrightarrow>
        stream_ok (events_of_log config (event_buffer_room caps) (full_log v)) (v_published v) (v_round v, v_events v))"

lemma run_command_events:
  assumes inv: "events_inv config caps v" and t: "v_clock v \<le> now" and run: "v_thread v = Running"
  shows "events_inv config caps (run_command debug c now (v\<lparr> v_clock := now, v_inbox := inbox \<rparr>))"
proof -
  let ?room = "event_buffer_room caps"
  have vi: "venue_inv config caps v" using inv by (simp add: events_inv_def)
  have S: "stream_ok (events_of_log config ?room (full_log v)) (v_published v) (v_round v, v_events v)"
    and R: "replays_to config ?room (full_log v) (er_engine (v_round v))" if "ch_receiver (v_entries v)"
    using inv that run by (simp_all add: events_inv_def venue_inv_def log_inv_def)
  note vi' = run_command_inv[OF vi t run, of debug c inbox]
  show ?thesis
  proof (cases rule: run_command_cases[where debug = debug and c = c and inbox = inbox, OF vi t refl, case_names unrecorded recorded])
    case (unrecorded res e' b)
    have "stream_ok (events_of_log config ?room (full_log v)) (v_published v) ((v_round v)\<lparr>er_engine := e', er_events := b\<rparr>, drop_sender (v_events v))"
      if "ch_receiver (v_entries v)" by (rule stream_ok_cong[OF S[OF that]]) simp_all
    with vi' unrecorded(4) show ?thesis by (simp add: events_inv_def) (simp add: end_thread_def full_log_def)
  next
    case (recorded res e' b entry round1 round3 events v1)
    have E: "events_of_log config ?room (full_log v @ [entry]) = events_of_log config ?room (full_log v) @ eb_events b"
      by (rule events_of_log_snoc[OF R[OF recorded(5)] _ _ recorded(2)]) (simp_all add: recorded(6))
    have "stream_ok (events_of_log config ?room (full_log v)) (v_published v) (round1, v_events v)"
      by (rule stream_ok_cong[OF S[OF recorded(5)]]) (simp_all add: recorded(7))
    from hand_offs_stream[OF this, of "eb_events b"]
    have S3: "stream_ok (events_of_log config ?room (full_log v @ [entry])) (v_published v) (round3, events)" by (simp add: E recorded(8))
    have full: "full_log v1 = full_log v @ [entry]" by (simp add: recorded(9) full_log_def)
    have S1: "stream_ok (events_of_log config ?room (full_log v1)) (v_published v1) (v_round v1, v_events v1)"
      unfolding full by (rule stream_ok_cong[OF S3]) (simp_all add: recorded(9))
    then have "stream_ok (events_of_log config ?room (full_log v1)) (v_published v1) (v_round v1, drop_sender (v_events v1))"
      by (rule stream_ok_cong) simp_all
    with S1 vi' recorded(10) show ?thesis by (auto simp: events_inv_def) (simp add: end_thread_def full_log_def)
  qed
qed

lemma end_thread_events: "events_inv config caps v \<Longrightarrow> v_thread v = Running \<Longrightarrow> events_inv config caps (end_thread (Halted ChannelClosed) v)"
proof -
  assume inv: "events_inv config caps v" and run: "v_thread v = Running"
  have "venue_inv config caps (end_thread (Halted ChannelClosed) v)"
    using inv run by (simp add: events_inv_def venue_inv_def log_inv_def)
  moreover have "stream_ok (events_of_log config (event_buffer_room caps) (full_log v)) (v_published v) (v_round v, drop_sender (v_events v))"
    if "ch_receiver (v_entries v)" using inv that by (auto simp: events_inv_def intro: stream_ok_cong)
  ultimately show ?thesis by (simp add: events_inv_def) (simp add: end_thread_def full_log_def)
qed

lemma engine_turn_events:
  assumes "events_inv config caps v" and "v_clock v \<le> now" and "v_thread v = Running"
  shows "events_inv config caps (engine_turn debug now v)"
  using assms run_command_events[OF assms] end_thread_events
  by (auto simp: engine_turn_def split: prod.split sum.split try_recv_error.split)

lemma events_inv_cong:
  assumes "venue_inv config caps v'" and "v_round v' = v_round v" and "v_published v' @ ch_queue (v_events v') = v_published v @ ch_queue (v_events v)"
    and "ch_receiver (v_events v') = ch_receiver (v_events v)"
    and "ch_receiver (v_entries v') \<Longrightarrow> ch_receiver (v_entries v) \<and> full_log v' = full_log v"
  shows "events_inv config caps v \<Longrightarrow> events_inv config caps v'"
  using assms unfolding events_inv_def by (metis stream_ok_cong)

lemma publisher_turn_stream:
  "v_published (publisher_turn v) @ ch_queue (v_events (publisher_turn v)) = v_published v @ ch_queue (v_events v)"
  "ch_receiver (v_events (publisher_turn v)) = ch_receiver (v_events v)"
  "v_published (logger_turn v) = v_published v" "v_events (logger_turn v) = v_events v"
  by (auto simp: logger_turn_def publisher_turn_def recv_turn_def try_recv_def split: list.splits)

lemma venue_act_events:
  assumes inv: "events_inv config caps v" and act: "venue_act debug act v = Some v'"
  shows "events_inv config caps v'"
proof -
  have vi: "venue_inv config caps v'" using venue_act_inv[OF _ act] inv by (simp add: events_inv_def)
  show ?thesis
  proof (cases act)
    case (EngineTurn now)
    then show ?thesis using act engine_turn_events[OF inv, of now debug] by (auto simp: venue_act_def split: if_splits)
  next
    case LoggerTurn
    then have v': "v' = logger_turn v" using act by (simp add: venue_act_def split: if_splits)
    show ?thesis by (rule events_inv_cong[OF vi _ _ _ _ inv]) (simp_all add: v' worker_turns publisher_turn_stream)
  next
    case PublisherTurn
    then have v': "v' = publisher_turn v" using act by (simp add: venue_act_def split: if_splits)
    show ?thesis by (rule events_inv_cong[OF vi _ _ _ _ inv]) (simp_all add: v' worker_turns publisher_turn_stream)
  next
    case PublisherDies
    then have v': "v' = v\<lparr> v_events := drop_receiver (v_events v) \<rparr>" using act by (simp add: venue_act_def)
    from inv vi show ?thesis unfolding v' by (simp add: events_inv_def stream_ok_lost full_log_def)
  qed (use act vi in \<open>auto simp: venue_act_def full_log_def intro!: events_inv_cong[OF _ _ _ _ _ inv]
    split: if_splits prod.splits sum.splits try_send_error.splits\<close>)
qed

lemma venue_started_events:
  assumes "venue_started config caps v"
  shows "events_inv config caps v"
proof -
  have v: "v_round v = round_start (er_engine (v_round v)) caps" "v_published v = []" "v_events v = sync_channel (event_ring caps)" "full_log v = []"
    using assms by (auto simp: venue_started_def venue_start_def full_log_def sync_channel_def round_start_def split: option.splits sum.splits)
  have "stream_ok [] [] (round_start (er_engine (v_round v)) caps, sync_channel (event_ring caps))"
    by (simp add: stream_ok_def round_start_def sync_channel_def)
  with v venue_started_inv[OF assms] show ?thesis by (simp add: events_inv_def)
qed

interpretation venue_events: inductive_invariant "venue_started config caps" "venue_step debug" "events_inv config caps"
  for config caps debug
  by unfold_locales (auto simp: venue_started_events elim!: venue_step.cases intro: venue_act_events)

section \<open>What the publisher saw\<close>

text \<open>
  C29. The events published in a round are a subsequence of those the logged commands emit, each at the
  position its number says, so a gap shows wherever an event was lost; the two counters add up to all
  of them, and while the publisher lives it has been given exactly the counted ones.
\<close>

theorem lost_events_leave_a_gap:
  assumes "reachable_venue debug config caps v" and "ch_receiver (v_entries v)"
    and "emitted = events_of_log config (event_buffer_room caps) (full_log v)" and "length emitted < 2 ^ 64 - 1"
  shows "subseq (map tagged (v_published v)) (enumerate 0 emitted)
    \<and> unat (er_emitted (v_round v)) + unat (er_dropped (v_round v)) = length emitted
    \<and> (ch_receiver (v_events v) \<longrightarrow> length (v_published v) + length (ch_queue (v_events v)) = unat (er_emitted (v_round v)))"
proof -
  have "stream_ok emitted (v_published v) (v_round v, v_events v)"
    using venue_events.reachable_inv[OF assms(1)] assms(2,3) by (simp add: events_inv_def)
  with assms(4) have S: "subseq (map tagged (v_published v) @ map tagged (ch_queue (v_events v))) (enumerate 0 emitted)"
    "unat (er_emitted (v_round v)) + unat (er_dropped (v_round v)) = length emitted"
    "ch_receiver (v_events v) \<Longrightarrow> length (v_published v) + length (ch_queue (v_events v)) = unat (er_emitted (v_round v))"
    by (simp_all add: stream_ok_def)
  have "subseq (map tagged (v_published v)) (map tagged (v_published v) @ map tagged (ch_queue (v_events v)))" by (rule list_emb_prefix) simp
  with S show ?thesis by (blast intro: subseq_order.trans)
qed

lemma lost_events_leave_a_gap_witness:
  "length (v_published window_venue) = 1 \<and>
     subseq (map tagged (v_published window_venue)) (enumerate 0 (events_of_log desk_config 64 (full_log window_venue)))"
proof -
  let ?E = "events_of_log desk_config 64 (full_log window_venue)"
  note r = round_of_reachable[OF window_facts(1)]
  have room: "event_buffer_room runtime_capacities_default = 64" by (simp add: runtime_capacities_default_def)
  have "stamp (length ?E) = 1"
    using venue_events.reachable_inv[OF r] window_facts(6,7) by (simp add: events_inv_def stream_ok_def room)
  then have "length ?E = 1" using unat_stamp[of "length ?E"] by simp
  then have "length ?E < 2 ^ 64 - 1" by simp
  from lost_events_leave_a_gap[OF r window_facts(6) refl, unfolded room, OF this] arg_cong[OF window_facts(8), of length] show ?thesis by simp
qed

end
