(* ===== verification/Gateway.thy ===== *)
theory Gateway
  imports Engine "HOL-Library.AList"
begin

text \<open>
  The gateway of \<open>crates/runtime/src/gateway.rs\<close>: external account keys and contract descriptions become
  dense indices, assigned on first sight, and a new contract also a \<open>RegisterContract\<close> command for
  the engine. A \<open>BTreeMap\<close> is an association list without duplicate keys (the code looks up, inserts
  and counts). The lock around the registry is its poison flag.
\<close>

section \<open>State\<close>

type_synonym bytes = "u8 list"

record contract_ref =
  cr_description :: bytes
  cr_event_date :: ts
  cr_resolution_source :: bytes

record contract_registry =
  by_index :: "contract_ref list"

datatype gateway_error = ContractTableFull | AccountTableFull | G_TooManyLegs | RegistryUnavailable

record gateway =
  gw_contracts :: "(contract_ref \<times> contract_idx) list"
  gw_registry :: contract_registry
  gw_poisoned :: bool
  gw_max_contracts :: u32
  gw_accounts :: "(bytes \<times> account_idx) list"
  gw_max_accounts :: u32

definition describe :: "contract_registry \<Rightarrow> contract_idx \<Rightarrow> contract_ref option" where
  "describe reg c = get_idx (by_index reg) c"

definition registry_len :: "contract_registry \<Rightarrow> nat" where
  "registry_len reg = length (by_index reg)"

definition registry_is_empty :: "contract_registry \<Rightarrow> bool" where
  "registry_is_empty reg \<longleftrightarrow> by_index reg = []"

definition gateway_new :: "u32 \<Rightarrow> u32 \<Rightarrow> gateway" where
  "gateway_new accounts contracts =
     \<lparr> gw_contracts = [], gw_registry = \<lparr> by_index = [] \<rparr>, gw_poisoned = False, gw_max_contracts = contracts,
       gw_accounts = [], gw_max_accounts = accounts \<rparr>"

section \<open>Operations\<close>

definition next_index :: "nat \<Rightarrow> u32" where
  "next_index n = (if n < 2 ^ 32 then word_of_nat n else u_max)"

definition gateway_account :: "bytes \<Rightarrow> gateway \<Rightarrow> (gateway_error + account_idx) \<times> gateway" where
  "gateway_account key g =
     (case map_of (gw_accounts g) key of
        Some index \<Rightarrow> (Inr index, g)
      | None \<Rightarrow>
          (let index = next_index (length (gw_accounts g))
           in if index \<ge> gw_max_accounts g then (Inl AccountTableFull, g)
              else (Inr index, g\<lparr> gw_accounts := AList.update key index (gw_accounts g) \<rparr>)))"

definition gateway_contract :: "contract_ref \<Rightarrow> gateway \<Rightarrow> (gateway_error + contract_idx \<times> command option) \<times> gateway" where
  "gateway_contract reference g =
     (case map_of (gw_contracts g) reference of
        Some index \<Rightarrow> (Inr (index, None), g)
      | None \<Rightarrow>
          (let index = next_index (length (gw_contracts g))
           in if index \<ge> gw_max_contracts g then (Inl ContractTableFull, g)
              else
                (let g1 = g\<lparr> gw_contracts := AList.update reference index (gw_contracts g) \<rparr>
                 in if gw_poisoned g then (Inl RegistryUnavailable, g1)
                    else (Inr (index, Some (RegisterContract index (cr_event_date reference))),
                          g1\<lparr> gw_registry := \<lparr> by_index = by_index (gw_registry g1) @ [reference] \<rparr> \<rparr>))))"

text \<open>One turn of the leg loop of \<open>submit_request\<close>: the registrations so far and the leg array.\<close>

type_synonym external_leg = "contract_ref \<times> side \<times> size \<times> price"

definition leg_spec_default :: leg_spec where
  "leg_spec_default = \<lparr> ls_contract = 0, ls_side = SideYes, ls_size = 0, ls_limit = 0 \<rparr>"

definition resolve_leg :: "nat \<times> external_leg \<Rightarrow> (command list \<times> leg_spec list) \<times> gateway
    \<Rightarrow> gateway_error option \<times> (command list \<times> leg_spec list) \<times> gateway" where
  "resolve_leg leg acc =
     (let (index, (reference, side, sz, limit)) = leg; ((registrations, specs), g) = acc in
      case gateway_contract reference g of
        (Inl err, g') \<Rightarrow> (Some err, (registrations, specs), g')
      | (Inr (contract, registration), g') \<Rightarrow>
          (None, (case registration of None \<Rightarrow> registrations | Some r \<Rightarrow> registrations @ [r],
                  set_at specs index \<lparr> ls_contract = contract, ls_side = side, ls_size = sz, ls_limit = limit \<rparr>), g'))"

fun resolve_legs :: "(nat \<times> external_leg) list \<Rightarrow> (command list \<times> leg_spec list) \<times> gateway
    \<Rightarrow> gateway_error option \<times> (command list \<times> leg_spec list) \<times> gateway" where
  "resolve_legs [] acc = (None, acc)"
| "resolve_legs (leg # legs) acc =
     (case resolve_leg leg acc of
        (Some err, acc') \<Rightarrow> (Some err, acc')
      | (None, acc') \<Rightarrow> resolve_legs legs acc')"

definition gateway_submit_request ::
  "bytes \<Rightarrow> ts \<Rightarrow> external_leg list \<Rightarrow> gateway \<Rightarrow> (gateway_error + command list \<times> command) \<times> gateway" where
  "gateway_submit_request requester deadline legs g =
     (if length legs > MAX_LEGS then (Inl G_TooManyLegs, g)
      else
        (case gateway_account requester g of
           (Inl err, g1) \<Rightarrow> (Inl err, g1)
         | (Inr a, g1) \<Rightarrow>
             (case resolve_legs (enumerate 0 legs) (([], replicate MAX_LEGS leg_spec_default), g1) of
                (Some err, _, g2) \<Rightarrow> (Inl err, g2)
              | (None, (registrations, specs), g2) \<Rightarrow>
                  (Inr (registrations, SubmitRequest a deadline specs
                          (if length legs < 2 ^ 8 then word_of_nat (length legs) else u_max)), g2))))"

text \<open>A thread that panics while it holds the registry poisons its lock.\<close>

datatype gateway_call =
    CallAccount bytes
  | CallContract contract_ref
  | CallSubmit bytes ts "external_leg list"
  | Poison

definition gateway_after :: "gateway_call \<Rightarrow> gateway \<Rightarrow> gateway" where
  "gateway_after call g =
     (case call of
        CallAccount key \<Rightarrow> snd (gateway_account key g)
      | CallContract reference \<Rightarrow> snd (gateway_contract reference g)
      | CallSubmit requester deadline legs \<Rightarrow> snd (gateway_submit_request requester deadline legs g)
      | Poison \<Rightarrow> g\<lparr> gw_poisoned := True \<rparr>)"

inductive gateway_step :: "gateway \<Rightarrow> gateway \<Rightarrow> bool" where
  gateway_calls: "gateway_step g (gateway_after call g)"

definition gateway_start :: "gateway \<Rightarrow> bool" where
  "gateway_start g \<longleftrightarrow> (\<exists>accounts contracts. g = gateway_new accounts contracts)"

section \<open>Dense indices\<close>

text \<open>The index of a key is its position: the tables of accounts and contracts, and the registry.\<close>

definition dense :: "('k \<times> u32) list \<Rightarrow> u32 \<Rightarrow> bool" where
  "dense m limit \<longleftrightarrow> distinct (map fst m) \<and> map (unat \<circ> snd) m = [0..<length m] \<and> length m \<le> unat limit"

lemma AList_update_fresh: "map_of m k = None \<Longrightarrow> AList.update k v m = m @ [(k, v)]"
  by (induction m) (auto split: if_splits)

lemma dense_insert:
  assumes "dense m limit" and "map_of m k = None" and "next_index (length m) < limit"
  shows "dense (AList.update k (next_index (length m)) m) limit" and "unat (next_index (length m)) = length m"
proof -
  have len: "length m < 2 ^ 32" using assms(1) unat_lt_size[of limit] by (simp add: dense_def)
  then show n: "unat (next_index (length m)) = length m"
    unfolding next_index_def by (simp only: if_True) (rule unat_word_of_nat, simp)
  have "k \<notin> fst ` set m" using assms(2) by (simp add: map_of_eq_None_iff)
  then show "dense (AList.update k (next_index (length m)) m) limit"
    using assms n by (auto simp: dense_def AList_update_fresh word_less_nat_alt)
qed

lemma dense_lookup:
  assumes "dense m limit" and "map_of m k = Some i"
  shows "unat i < length m \<and> m ! unat i = (k, i)"
proof -
  from assms(2) obtain j where j: "j < length m" "m ! j = (k, i)" by (metis map_of_SomeD in_set_conv_nth)
  have "map (unat \<circ> snd) m ! j = j" using assms(1) j(1) by (simp add: dense_def)
  then have "unat i = j" using j by simp
  with j show ?thesis by simp
qed

lemma dense_injective: "dense m limit \<Longrightarrow> map_of m k = Some i \<Longrightarrow> map_of m k' = Some i \<Longrightarrow> k = k'"
  using dense_lookup[of m limit k i] dense_lookup[of m limit k' i] by simp

definition gateway_inv :: "gateway \<Rightarrow> bool" where
  "gateway_inv g \<longleftrightarrow> dense (gw_accounts g) (gw_max_accounts g) \<and> dense (gw_contracts g) (gw_max_contracts g) \<and>
     (\<not> gw_poisoned g \<longrightarrow> by_index (gw_registry g) = map fst (gw_contracts g)) \<and>
     (\<exists>n. by_index (gw_registry g) = take n (map fst (gw_contracts g)))"

lemma gateway_inv_account: "gateway_inv g \<Longrightarrow> gateway_inv (snd (gateway_account key g))"
  by (auto simp: gateway_account_def gateway_inv_def Let_def dense_insert(1) split: option.split)

lemma gateway_inv_contract: "gateway_inv g \<Longrightarrow> gateway_inv (snd (gateway_contract r g))"
proof -
  assume inv: "gateway_inv g"
  then obtain n where n: "by_index (gw_registry g) = take n (map fst (gw_contracts g))" by (auto simp: gateway_inv_def)
  show ?thesis
  proof (cases "map_of (gw_contracts g) r = None \<and> next_index (length (gw_contracts g)) < gw_max_contracts g")
    case False
    then have "snd (gateway_contract r g) = g" by (auto simp: gateway_contract_def Let_def not_less split: option.split)
    with inv show ?thesis by simp
  next
    case True
    have d: "dense (AList.update r (next_index (length (gw_contracts g))) (gw_contracts g)) (gw_max_contracts g)"
      by (rule dense_insert(1)) (use inv True in \<open>simp_all add: gateway_inv_def\<close>)
    have "\<exists>k. take n (map fst (gw_contracts g)) = take k (map fst (gw_contracts g) @ [r])"
      by (rule exI[of _ "min n (length (gw_contracts g))"]) (simp add: min_def)
    moreover have "\<exists>k. map fst (gw_contracts g) @ [r] = take k (map fst (gw_contracts g) @ [r])"
      by (rule exI[of _ "Suc (length (gw_contracts g))"]) simp
    ultimately show ?thesis
      using inv True d n by (auto simp: gateway_contract_def Let_def gateway_inv_def AList_update_fresh not_le)
  qed
qed

lemma resolve_legs_keeps:
  assumes "\<And>r g. P g \<Longrightarrow> P (snd (gateway_contract r g))" and "P (snd acc)"
  shows "P (snd (snd (resolve_legs legs acc)))"
  using assms(2)
proof (induction legs arbitrary: acc)
  case (Cons leg legs)
  obtain i r s z x regs specs g where la: "leg = (i, r, s, z, x)" "acc = ((regs, specs), g)" by (metis prod.exhaust)
  have "P (snd (snd (resolve_leg leg acc)))"
    using assms(1)[of g r] Cons.prems by (auto simp: la resolve_leg_def split: prod.split sum.split)
  with Cons.IH show ?case by (auto split: prod.split option.split)
qed simp

lemma gateway_inv_submit: "gateway_inv g \<Longrightarrow> gateway_inv (snd (gateway_submit_request a d legs g))"
  using gateway_inv_account[of g a] resolve_legs_keeps[of gateway_inv, OF gateway_inv_contract]
  by (auto simp: gateway_submit_request_def split: prod.split sum.split option.split) (metis snd_conv)+

interpretation gateway_system: inductive_invariant gateway_start gateway_step gateway_inv
proof unfold_locales
  show "gateway_start g \<Longrightarrow> gateway_inv g" for g
    by (auto simp: gateway_start_def gateway_new_def gateway_inv_def dense_def)
  show "gateway_inv g \<Longrightarrow> gateway_step g g' \<Longrightarrow> gateway_inv g'" for g g'
    by (auto simp: gateway_after_def gateway_inv_account gateway_inv_contract gateway_inv_submit elim!: gateway_step.cases split: gateway_call.split)
      (auto simp: gateway_inv_def)
qed

section \<open>What is known stays known\<close>

definition knows :: "contract_ref \<Rightarrow> contract_idx \<Rightarrow> gateway \<Rightarrow> bool" where
  "knows r i g \<longleftrightarrow> gateway_inv g \<and> map_of (gw_contracts g) r = Some i"

lemma knows_contract: "knows r i g \<Longrightarrow> knows r i (snd (gateway_contract r' g))"
proof -
  assume k: "knows r i g"
  then have "map_of (gw_contracts (snd (gateway_contract r' g))) r = Some i"
    by (auto simp: knows_def gateway_contract_def Let_def AList_update_fresh split: option.split)
  with k gateway_inv_contract show ?thesis by (simp add: knows_def)
qed

lemma account_contracts [simp]: "gw_contracts (snd (gateway_account key g)) = gw_contracts g"
  by (simp add: gateway_account_def Let_def split: option.split)

lemma knows_account: "knows r i g \<Longrightarrow> knows r i (snd (gateway_account key g))"
  by (simp add: knows_def gateway_inv_account)

lemma knows_submit: "knows r i g \<Longrightarrow> knows r i (snd (gateway_submit_request a d legs g))"
  using knows_account[of r i g a] resolve_legs_keeps[of "knows r i", OF knows_contract]
  by (auto simp: gateway_submit_request_def split: prod.split sum.split option.split) (metis snd_conv)+

interpretation gateway_known: inductive_invariant "\<lambda>s. knows r i s" gateway_step "knows r i"
  for r i
proof unfold_locales
  show "knows r i g \<Longrightarrow> gateway_step g g' \<Longrightarrow> knows r i g'" for g g'
    by (auto simp: gateway_after_def knows_account knows_contract knows_submit elim!: gateway_step.cases split: gateway_call.split)
      (auto simp: knows_def gateway_inv_def)
qed

lemma contract_knows:
  assumes "gateway_inv g" and "gateway_contract r g = (Inr (i, cmd), g')"
  shows "knows r i g'"
  using assms gateway_inv_contract[OF assms(1), of r]
  by (auto simp: knows_def gateway_contract_def Let_def AList_update_fresh map_add_def split: option.splits if_splits)

lemma known_contract: "knows r i g \<Longrightarrow> gateway_contract r g = (Inr (i, None), g)"
  by (simp add: knows_def gateway_contract_def)

lemma known_described: "knows r i g \<Longrightarrow> \<not> gw_poisoned g \<Longrightarrow> describe (gw_registry g) i = Some r"
  using dense_lookup[of "gw_contracts g" "gw_max_contracts g" r i]
  by (simp add: knows_def gateway_inv_def describe_def get_idx_Some_iff)

text \<open>
  C30. Contract identity is byte equality. Whatever happened to the gateway in between, two contracts get
  the same index exactly when description, event date and source are all the same; the second time no
  registration is issued; and while the registry's lock is sound the index describes back to the
  contract.
\<close>

theorem one_index_per_contract:
  assumes "reaches gateway_start gateway_step g" and "gateway_contract r g = (Inr (i, cmd), g1)"
    and "gateway_step\<^sup>*\<^sup>* g1 g2" and "gateway_contract r' g2 = (Inr (i', cmd'), g3)"
  shows "(i' = i \<longleftrightarrow> r' = r) \<and> (r' = r \<longrightarrow> cmd' = None) \<and> (\<not> gw_poisoned g2 \<longrightarrow> describe (gw_registry g3) i = Some r)"
proof -
  have k1: "knows r i g1" by (rule contract_knows[OF gateway_system.reachable_inv[OF assms(1)] assms(2)])
  have k2: "knows r i g2" by (rule gateway_known.invariant_along[OF assms(3) k1])
  have k3: "knows r i g3" "knows r' i' g3"
    using knows_contract[OF k2, of r'] contract_knows[OF _ assms(4)] k2 assms(4) by (auto simp: knows_def)
  have inj: "i' = i \<longleftrightarrow> r' = r" using k3 dense_injective by (auto simp: knows_def gateway_inv_def)
  have "gw_poisoned g3 = gw_poisoned g2" using assms(4)
    by (auto simp: gateway_contract_def Let_def split: option.splits if_splits)
  then have "\<not> gw_poisoned g2 \<Longrightarrow> describe (gw_registry g3) i = Some r" using known_described[OF k3(1)] by simp
  moreover have "r' = r \<longrightarrow> cmd' = None" using known_contract[OF k2] assms(4) by auto
  ultimately show ?thesis using inj by blast
qed

definition rain :: contract_ref where
  "rain = \<lparr> cr_description = [114, 97, 105, 110], cr_event_date = 900, cr_resolution_source = [1] \<rparr>"

definition snow :: contract_ref where
  "snow = rain\<lparr> cr_description := [115, 110, 111, 119] \<rparr>"

lemma one_index_per_contract_witness:
  "describe (gw_registry (snd (gateway_contract snow (snd (gateway_contract rain (gateway_new 4 4)))))) 0 = Some rain"
proof -
  let ?g = "gateway_new 4 4"
  have c: "gateway_contract rain ?g = (Inr (0, Some (RegisterContract 0 900)), snd (gateway_contract rain ?g))"
    "gateway_contract snow (snd (gateway_contract rain ?g))
      = (Inr (1, Some (RegisterContract 1 900)), snd (gateway_contract snow (snd (gateway_contract rain ?g))))"
    "\<not> gw_poisoned (snd (gateway_contract rain ?g))" by code_simp+
  have "reaches gateway_start gateway_step ?g" by (rule reaches_start) (auto simp: gateway_start_def)
  from one_index_per_contract[OF this c(1) rtranclp.rtrancl_refl c(2)] c(3) show ?thesis by blast
qed

section \<open>A request is resolved\<close>

text \<open>The registration commands of the contracts from a position on.\<close>

definition registrations_from :: "nat \<Rightarrow> gateway \<Rightarrow> command list" where
  "registrations_from n g = map (\<lambda>(r, i). RegisterContract i (cr_event_date r)) (drop n (gw_contracts g))"

definition resolved :: "gateway \<Rightarrow> external_leg \<Rightarrow> leg_spec \<Rightarrow> bool" where
  "resolved g leg spec = (case leg of (r, s, z, x) \<Rightarrow>
     map_of (gw_contracts g) r = Some (ls_contract spec) \<and> ls_side spec = s \<and> ls_size spec = z \<and> ls_limit spec = x)"

lemma contract_extends:
  assumes "gateway_contract r g = (Inr (i, cmd), g')"
  shows "\<exists>new. gw_contracts g' = gw_contracts g @ new \<and> (case cmd of None \<Rightarrow> [] | Some c \<Rightarrow> [c]) = map (\<lambda>(r, i). RegisterContract i (cr_event_date r)) new
    \<and> map_of (gw_contracts g') r = Some i \<and> gw_accounts g' = gw_accounts g"
  using assms by (auto simp: gateway_contract_def Let_def AList_update_fresh map_add_def split: option.splits if_splits)

lemma resolve_legs_resolves:
  assumes "resolve_legs legs ((regs, specs), g) = (None, (regs', specs'), g')" and "distinct (map fst legs)"
  shows "\<exists>new. gw_contracts g' = gw_contracts g @ new \<and> regs' = regs @ map (\<lambda>(r, i). RegisterContract i (cr_event_date r)) new
    \<and> gw_accounts g' = gw_accounts g \<and> length specs' = length specs
    \<and> (\<forall>k leg. (k, leg) \<in> set legs \<longrightarrow> k < length specs \<longrightarrow> resolved g' leg (specs' ! k))
    \<and> (\<forall>k. k \<notin> fst ` set legs \<longrightarrow> k < length specs \<longrightarrow> specs' ! k = specs ! k)"
  using assms
proof (induction legs arbitrary: regs specs g)
  case (Cons x legs)
  obtain k r s z l where x: "x = (k, (r, s, z, l))" by (metis prod.exhaust)
  obtain i cmd g1 where c: "gateway_contract r g = (Inr (i, cmd), g1)"
    using Cons.prems(1) by (auto simp: x resolve_leg_def split: prod.splits sum.splits)
  define spec where "spec = \<lparr> ls_contract = i, ls_side = s, ls_size = z, ls_limit = l \<rparr>"
  have rest: "resolve_legs legs ((case cmd of None \<Rightarrow> regs | Some c \<Rightarrow> regs @ [c], set_at specs k spec), g1) = (None, (regs', specs'), g')"
    using Cons.prems(1) c by (simp add: x resolve_leg_def spec_def)
  have d: "distinct (map fst legs)" "k \<notin> fst ` set legs" using Cons.prems(2) by (auto simp: x)
  obtain new1 where n1: "gw_contracts g1 = gw_contracts g @ new1" "map_of (gw_contracts g1) r = Some i" "gw_accounts g1 = gw_accounts g"
    "(case cmd of None \<Rightarrow> [] | Some c \<Rightarrow> [c]) = map (\<lambda>(r, i). RegisterContract i (cr_event_date r)) new1"
    using contract_extends[OF c] by blast
  have regs1: "(case cmd of None \<Rightarrow> regs | Some c \<Rightarrow> regs @ [c]) = regs @ map (\<lambda>(r, i). RegisterContract i (cr_event_date r)) new1"
    unfolding n1(4)[symmetric] by (simp split: option.split)
  obtain new2 where n2: "gw_contracts g' = gw_contracts g1 @ new2" "gw_accounts g' = gw_accounts g1" "length specs' = length (set_at specs k spec)"
    "regs' = (case cmd of None \<Rightarrow> regs | Some c \<Rightarrow> regs @ [c]) @ map (\<lambda>(r, i). RegisterContract i (cr_event_date r)) new2"
    "\<forall>k' leg. (k', leg) \<in> set legs \<longrightarrow> k' < length (set_at specs k spec) \<longrightarrow> resolved g' leg (specs' ! k')"
    "\<forall>k'. k' \<notin> fst ` set legs \<longrightarrow> k' < length (set_at specs k spec) \<longrightarrow> specs' ! k' = set_at specs k spec ! k'"
    using Cons.IH[OF rest d(1)] by blast
  have len: "length (set_at specs k spec) = length specs" by (simp add: set_at_def)
  have "map_of (gw_contracts g') r = Some i" by (simp add: n2(1) n1(2) map_add_def)
  then have here: "k < length specs \<Longrightarrow> resolved g' (r, s, z, l) (specs' ! k)"
    using n2(6) d(2) by (simp add: len resolved_def) (simp add: set_at_def spec_def)
  have other: "specs' ! k' = specs ! k'" if "k' \<notin> fst ` set (x # legs)" "k' < length specs" for k'
    using n2(6) that by (auto simp: len x) (auto simp: set_at_def)
  show ?case
    by (rule exI[of _ "new1 @ new2"]) (use n1 n2 regs1 here other len in \<open>auto simp: x\<close>)
qed simp

text \<open>
  C31. A request the gateway lets through names, leg by leg, the indices of exactly the contracts it was
  given, with the given sides, sizes and limits and nothing in the unused slots; and the registrations
  that go before it are those of exactly the contracts that are new, in the order of their indices.
\<close>

theorem request_is_resolved:
  assumes "gateway_submit_request key deadline legs g = (Inr (regs, cmd), g')"
  shows "\<exists>a specs. cmd = SubmitRequest a deadline specs (word_of_nat (length legs)) \<and> length legs \<le> MAX_LEGS
    \<and> map_of (gw_accounts g') key = Some a \<and> length specs = MAX_LEGS
    \<and> (\<forall>k<length legs. resolved g' (legs ! k) (specs ! k))
    \<and> (\<forall>k. length legs \<le> k \<and> k < MAX_LEGS \<longrightarrow> specs ! k = leg_spec_default)
    \<and> regs = registrations_from (length (gw_contracts g)) g'"
proof -
  have small: "length legs \<le> MAX_LEGS" using assms by (auto simp: gateway_submit_request_def split: if_splits)
  obtain a g1 where a: "gateway_account key g = (Inr a, g1)"
    using assms by (auto simp: gateway_submit_request_def split: if_splits prod.splits sum.splits)
  obtain specs where run: "resolve_legs (enumerate 0 legs) (([], replicate MAX_LEGS leg_spec_default), g1) = (None, (regs, specs), g')"
    and cmd: "cmd = SubmitRequest a deadline specs (word_of_nat (length legs))"
    using assms a small by (auto simp: gateway_submit_request_def MAX_LEGS_def split: if_splits prod.splits sum.splits option.splits)
  have d: "distinct (map fst (enumerate 0 legs))" by simp
  obtain new where R: "gw_contracts g' = gw_contracts g1 @ new" "regs = map (\<lambda>(r, i). RegisterContract i (cr_event_date r)) new"
    "gw_accounts g' = gw_accounts g1" "length specs = MAX_LEGS"
    "\<forall>k leg. (k, leg) \<in> set (enumerate 0 legs) \<longrightarrow> k < MAX_LEGS \<longrightarrow> resolved g' leg (specs ! k)"
    "\<forall>k. k \<notin> fst ` set (enumerate 0 legs) \<longrightarrow> k < MAX_LEGS \<longrightarrow> specs ! k = replicate MAX_LEGS leg_spec_default ! k"
    using resolve_legs_resolves[OF run d] by (auto simp del: map_fst_enumerate)
  have "map_of (gw_accounts g1) key = Some a"
    using a by (auto simp: gateway_account_def Let_def AList_update_fresh map_add_def split: option.splits if_splits)
  moreover have "resolved g' (legs ! k) (specs ! k)" if "k < length legs" for k
  proof -
    have "(k, legs ! k) \<in> set (enumerate 0 legs)" using that by (simp add: in_set_enumerate_eq)
    with R(5) that small show ?thesis by (meson less_le_trans)
  qed
  moreover have "specs ! k = leg_spec_default" if "length legs \<le> k" "k < MAX_LEGS" for k
    using R(6) that by (auto simp: in_set_enumerate_eq image_iff)
  moreover have "regs = registrations_from (length (gw_contracts g)) g'"
    using R(1,2) arg_cong[OF a, of "\<lambda>x. gw_contracts (snd x)"] by (simp add: registrations_from_def)
  ultimately show ?thesis using small cmd R(3,4) by auto
qed

lemma request_is_resolved_witness:
  "fst (gateway_submit_request [7] 500 [(rain, SideYes, 5, 600000)] (gateway_new 4 4))
     = Inr ([RegisterContract 0 900], SubmitRequest 0 500
         (\<lparr> ls_contract = 0, ls_side = SideYes, ls_size = 5, ls_limit = 600000 \<rparr> # replicate 7 leg_spec_default) 1)
   \<and> map_of (gw_accounts (snd (gateway_submit_request [7] 500 [(rain, SideYes, 5, 600000)] (gateway_new 4 4)))) [7] = Some 0"
proof -
  let ?s = "gateway_submit_request [7] 500 [(rain, SideYes, 5, 600000)] (gateway_new 4 4)"
  have s: "fst ?s = Inr ([RegisterContract 0 900], SubmitRequest 0 500
      (\<lparr> ls_contract = 0, ls_side = SideYes, ls_size = 5, ls_limit = 600000 \<rparr> # replicate 7 leg_spec_default) 1)" by code_simp
  from request_is_resolved[OF prod_eqI[of ?s "(_, snd ?s)", simplified, OF s]] s show ?thesis by simp
qed

section \<open>A refused request\<close>

text \<open>
  A leg that does not fit the contract table refuses the request, and the registrations of the legs
  before it are lost: their contracts are known to the gateway from then on, so no later request
  announces them to the engine.
\<close>

lemma refused_request_loses_registrations:
  "(let (res, g) = gateway_submit_request [7] 500 [(rain, SideYes, 5, 600000), (snow, SideYes, 5, 600000)] (gateway_new 4 1)
    in res = Inl ContractTableFull \<and>
       (case fst (gateway_submit_request [7] 500 [(rain, SideYes, 5, 600000)] g) of Inr (regs, _) \<Rightarrow> regs = [] | _ \<Rightarrow> False))"
  by code_simp

end
