(* ===== verification/Harness.thy ===== *)
theory Harness
  imports Mirror Settlement_Handoff Custody_Claims Oracle Clock
begin

text \<open>
  The harness of \<open>crates/runtime/src/harness.rs\<close>: one engine, one custody, one oracle, each on its own
  clock, and the wires between them. Here are its state, its calls, and the checks that span both
  systems; the theory \<open>Harness_Safe\<close> shows which of them never fail. The clocks are the settable test
  clocks every user of the harness gives it.
\<close>

section \<open>State\<close>

datatype cross_system_violation =
    ConservationBroken
  | CoverageBroken account_idx
  | MirrorDisagrees account_idx
  | EscrowContributionsWrong escrow_id

datatype harness_error = H_Engine engine_error | H_Custody custody_error

record 'h harness =
  hn_engine :: engine
  hn_engine_clock :: test_clock
  hn_custody :: "'h custody"
  hn_custody_clock :: test_clock
  hn_events :: event_buffer
  hn_pending :: "settlement_bundle list"
  hn_escrows :: "escrow_id list"
  hn_oracle :: oracle_state
  hn_oracle_clock :: test_clock
  hn_payouts :: "event list"
  hn_indexer :: indexer
  hn_stalled :: bool
  hn_in_flight :: "settlement_bundle list"
  hn_emitted :: "event list"

definition harness_new :: "config \<Rightarrow> test_clock \<Rightarrow> test_clock \<Rightarrow> test_clock \<Rightarrow> (config_error + 'h harness) option" where
  "harness_new config engine_clock custody_clock oracle_clock =
     (case engine_new config of
        None \<Rightarrow> None
      | Some (Inl err) \<Rightarrow> Some (Inl err)
      | Some (Inr e) \<Rightarrow> Some (Inr
          \<lparr> hn_engine = e, hn_engine_clock = engine_clock,
            hn_custody = custody_new (withdrawal_delay config) (max_accounts config) (max_escrows config),
            hn_custody_clock = custody_clock, hn_events = eb_with_capacity 64, hn_pending = [], hn_escrows = [],
            hn_oracle = oracle_new (Config.challenge_window config) (escalation_authority config), hn_oracle_clock = oracle_clock,
            hn_payouts = [], hn_indexer = indexer_new (ucast (confirmations config)), hn_stalled = False,
            hn_in_flight = [], hn_emitted = [] \<rparr>))"

abbreviation hn_ledger :: "'h harness \<Rightarrow> custody_ledger" where
  "hn_ledger h \<equiv> cu_ledger (hn_custody h)"

definition with_ledger :: "custody_ledger \<Rightarrow> 'h harness \<Rightarrow> 'h harness" where
  "with_ledger l h = h\<lparr> hn_custody := (hn_custody h)\<lparr> cu_ledger := l \<rparr> \<rparr>"

section \<open>The checks that span both systems\<close>

definition add_held :: "amount \<Rightarrow> amount \<Rightarrow> cross_system_violation \<Rightarrow> cross_system_violation + amount" where
  "add_held acc v err = ok_or (amount_checked_add acc v) err"

definition harness_check_conservation :: "'h harness \<Rightarrow> cross_system_violation + unit" where
  "harness_check_conservation h =
     (let l = hn_ledger h in
      and_then (fold_res (\<lambda>index acc. add_held acc (cl_balance l (word_of_nat index)) ConservationBroken)
                  [0..<unat (cl_account_count l)] 0) (\<lambda>acc.
      and_then (fold_res (\<lambda>(i, x) acc. if escrow_is_locked x then add_held acc (escrow_notional x) ConservationBroken
                                       else Inr acc) (cl_all_escrows l) acc) (\<lambda>acc.
      and_then (ok_or (amount_checked_sub (cl_deposited l) (cl_withdrawn l)) ConservationBroken) (\<lambda>expected.
      if acc \<noteq> expected then Inl ConservationBroken else Inr ()))))"

definition check_contributions :: "escrow_id \<times> escrow \<Rightarrow> unit \<Rightarrow> cross_system_violation + unit" where
  "check_contributions entry u =
     (let (i, x) = entry in
      and_then (ok_or (amount_checked_add (es_requester_contribution x) (es_maker_contribution x)) (EscrowContributionsWrong i)) (\<lambda>total.
      and_then (ok_or (notional (es_size x)) (EscrowContributionsWrong i)) (\<lambda>n.
      if total \<noteq> n then Inl (EscrowContributionsWrong i) else Inr ())))"

definition harness_check_contributions :: "'h harness \<Rightarrow> cross_system_violation + unit" where
  "harness_check_contributions h = fold_res check_contributions (cl_all_escrows (hn_ledger h)) ()"

definition back_with :: "account_idx \<Rightarrow> escrow_id \<times> escrow \<Rightarrow> amount \<Rightarrow> cross_system_violation + amount" where
  "back_with a entry backing =
     (let x = snd entry in
      if \<not> escrow_is_locked x then Inr backing
      else and_then (if es_requester x = a then add_held backing (es_requester_contribution x) (CoverageBroken a) else Inr backing)
             (\<lambda>backing. if es_maker x = a then add_held backing (es_maker_contribution x) (CoverageBroken a) else Inr backing))"

definition check_backed :: "'h harness \<Rightarrow> nat \<Rightarrow> unit \<Rightarrow> cross_system_violation + unit" where
  "check_backed h index u =
     (let a = word_of_nat index; l = hn_ledger h in
      case account (e_ledger (hn_engine h)) a of
        None \<Rightarrow> Inr ()
      | Some entry \<Rightarrow>
          and_then (ok_or (amount_checked_add (mb_reserved entry) (mb_committed entry)) (CoverageBroken a)) (\<lambda>claimed.
          and_then (fold_res (back_with a) (cl_all_escrows l) (cl_balance l a)) (\<lambda>backing.
          if claimed > backing then Inl (CoverageBroken a) else Inr ())))"

definition harness_check_coverage :: "'h harness \<Rightarrow> cross_system_violation + unit" where
  "harness_check_coverage h = fold_res (check_backed h) [0..<unat (cl_account_count (hn_ledger h))] ()"

definition lagless :: "'h harness \<Rightarrow> bool" where
  "lagless h \<longleftrightarrow> confirmations (e_config (hn_engine h)) = 0 \<and> max_indexer_lag (e_config (hn_engine h)) = 0 \<and> \<not> hn_stalled h"

definition was_published :: "chain_log \<Rightarrow> account_idx \<Rightarrow> amount \<Rightarrow> bool" where
  "was_published g a v \<longleftrightarrow> list_ex (\<lambda>e. ev_payload e = BalanceChanged a v) (lg_entries g)"

definition check_mirrored :: "'h harness \<Rightarrow> nat \<Rightarrow> unit \<Rightarrow> cross_system_violation + unit" where
  "check_mirrored h index u =
     (let a = word_of_nat index; l = hn_ledger h in
      case account (e_ledger (hn_engine h)) a of
        None \<Rightarrow> Inr ()
      | Some entry \<Rightarrow>
          if lagless h then (if mb_free entry \<noteq> cl_available l a then Inl (MirrorDisagrees a) else Inr ())
          else if mb_free entry = 0 then Inr ()
          else if was_published (cl_log l) a (mb_free entry) then Inr () else Inl (MirrorDisagrees a))"

definition harness_check_mirror :: "'h harness \<Rightarrow> cross_system_violation + unit" where
  "harness_check_mirror h = fold_res (check_mirrored h) [0..<unat (cl_account_count (hn_ledger h))] ()"

definition check_settlement_invariants :: "'h harness \<Rightarrow> cross_system_violation + unit" where
  "check_settlement_invariants h =
     and_then (harness_check_conservation h) (\<lambda>_. and_then (harness_check_contributions h) (\<lambda>_. harness_check_mirror h))"

definition check_cross_system_invariants :: "'h harness \<Rightarrow> cross_system_violation + unit" where
  "check_cross_system_invariants h =
     and_then (harness_check_conservation h) (\<lambda>_. and_then (harness_check_contributions h) (\<lambda>_.
     and_then (harness_check_coverage h) (\<lambda>_. harness_check_mirror h)))"

section \<open>Calls\<close>

text \<open>
  A call returns its value and the harness, or the violation it panics with and the harness it leaves; \<open>None\<close> is a call that does
  not return, or the panic of a clock turned back and of a venue stalled against its configuration.
\<close>

type_synonym ('h, 'a) hres = "(cross_system_violation \<times> 'h harness + 'a \<times> 'h harness) option"

definition then_call :: "('h, 'a) hres \<Rightarrow> ('a \<Rightarrow> 'h harness \<Rightarrow> ('h, 'b) hres) \<Rightarrow> ('h, 'b) hres" where
  "then_call r f = (case r of None \<Rightarrow> None | Some (Inl v) \<Rightarrow> Some (Inl v) | Some (Inr (a, h)) \<Rightarrow> f a h)"

definition asserting :: "('h harness \<Rightarrow> cross_system_violation + unit) \<Rightarrow> 'a \<Rightarrow> 'h harness \<Rightarrow> ('h, 'a) hres" where
  "asserting check a h = (case check h of Inl v \<Rightarrow> Some (Inl (v, h)) | Inr _ \<Rightarrow> Some (Inr (a, h)))"

text \<open>The wire out of the engine: bundles and payouts are picked off the event stream.\<close>

definition is_settle_intent :: "event \<Rightarrow> bool" where
  "is_settle_intent ev = (case ev of SettleIntent _ _ _ \<Rightarrow> True | _ \<Rightarrow> False)"

definition pick_up :: "event list \<Rightarrow> 'h harness \<Rightarrow> 'h harness" where
  "pick_up emitted h = h\<lparr> hn_pending := hn_pending h @ somes (map bundle_from emitted),
     hn_payouts := hn_payouts h @ filter is_settle_intent emitted, hn_emitted := hn_emitted h @ emitted \<rparr>"

definition engine_takes :: "command \<Rightarrow> 'h harness \<Rightarrow> ((engine_error + unit) \<times> 'h harness) option" where
  "engine_takes c h =
     (case engine_apply c (tc_now (hn_engine_clock h)) (hn_engine h, eb_clear (hn_events h)) of
        None \<Rightarrow> None
      | Some (res, (e, b)) \<Rightarrow>
          (let (emitted, b') = eb_drain b in Some (res, pick_up emitted (h\<lparr> hn_engine := e, hn_events := b' \<rparr>))))"

definition deliver :: "command list \<Rightarrow> 'h harness \<Rightarrow> 'h harness option" where
  "deliver cs h = fold_opt (\<lambda>c h. map_option snd (engine_takes c h)) cs h"

definition pump_indexer :: "'h harness \<Rightarrow> ('h, nat) hres" where
  "pump_indexer h =
     (if hn_stalled h then Some (Inr (0, h))
      else (let (ix, cs) = drain (cl_log (hn_ledger h)) (hn_indexer h) in
            case deliver cs (h\<lparr> hn_indexer := ix \<rparr>) of
              None \<Rightarrow> None
            | Some h' \<Rightarrow> asserting check_settlement_invariants (length cs) h'))"

definition harness_deposit :: "account_idx \<Rightarrow> amount \<Rightarrow> 'h harness \<Rightarrow> ('h, harness_error + unit) hres" where
  "harness_deposit a v h =
     (case deposit a v (hn_ledger h) of
        (Inl err, l) \<Rightarrow> Some (Inr (Inl (H_Custody err), with_ledger l h))
      | (Inr _, l) \<Rightarrow> then_call (pump_indexer (with_ledger l h)) (\<lambda>_ h. Some (Inr (Inr (), h))))"

definition harness_request_withdrawal :: "account_idx \<Rightarrow> amount \<Rightarrow> 'h harness \<Rightarrow> ('h, harness_error + ts) hres" where
  "harness_request_withdrawal a v h =
     (case request_withdrawal a v (tc_now (hn_custody_clock h)) (hn_ledger h) of
        (Inl err, l) \<Rightarrow> Some (Inr (Inl (H_Custody err), with_ledger l h))
      | (Inr matures, l) \<Rightarrow> then_call (pump_indexer (with_ledger l h)) (\<lambda>_. asserting check_cross_system_invariants (Inr matures)))"

definition harness_execute_withdrawal :: "account_idx \<Rightarrow> 'h harness \<Rightarrow> ('h, harness_error + amount) hres" where
  "harness_execute_withdrawal a h =
     (case execute_withdrawal a (tc_now (hn_custody_clock h)) (hn_ledger h) of
        (Inl err, l) \<Rightarrow> Some (Inr (Inl (H_Custody err), with_ledger l h))
      | (Inr v, l) \<Rightarrow> then_call (pump_indexer (with_ledger l h)) (\<lambda>_. asserting check_settlement_invariants (Inr v)))"

definition harness_apply :: "command \<Rightarrow> 'h harness \<Rightarrow> ('h, harness_error + unit) hres" where
  "harness_apply c h =
     (case engine_takes c h of
        None \<Rightarrow> None
      | Some (res, h') \<Rightarrow> asserting check_cross_system_invariants (case res of Inl err \<Rightarrow> Inl (H_Engine err) | Inr _ \<Rightarrow> Inr ()) h')"

definition submit_pending :: "'h harness \<Rightarrow> submit_ack list \<times> 'h harness" where
  "submit_pending h =
     fold (\<lambda>b (acks, h). case submit b (hn_custody h) of
             (ack, c) \<Rightarrow> (acks @ [ack], h\<lparr> hn_in_flight := hn_in_flight h @ [b], hn_custody := c \<rparr>))
       (hn_pending h) ([], h\<lparr> hn_pending := [] \<rparr>)"

definition resubmit :: "req_idx \<Rightarrow> 'h harness \<Rightarrow> (harness_error + submit_ack) \<times> 'h harness" where
  "resubmit r h =
     (case find (\<lambda>b. n_request (bu_nonce b) = h_index r) (hn_in_flight h) of
        None \<Rightarrow> (Inl (H_Engine RequestNotSettling), h)
      | Some b \<Rightarrow> (case submit b (hn_custody h) of (ack, c) \<Rightarrow> (Inr ack, h\<lparr> hn_custody := c \<rparr>)))"

definition append_payload :: "chain_payload \<Rightarrow> 'h harness \<Rightarrow> 'h harness" where
  "append_payload p h = with_ledger ((hn_ledger h)\<lparr> cl_log := log_append p (cl_log (hn_ledger h)) \<rparr>) h"

definition harness_report_oracle_status :: "contract_idx \<Rightarrow> 'h harness \<Rightarrow> ('h, oracle_status) hres" where
  "harness_report_oracle_status k h =
     (let status = status_of (hn_oracle h) k
      in then_call (pump_indexer (append_payload (OracleStatusReported k status) h)) (\<lambda>_ h. Some (Inr (status, h))))"

definition request_escrow_settlement :: "escrow_id \<Rightarrow> contract_idx \<Rightarrow> outcome \<Rightarrow> 'h harness \<Rightarrow> ('h, unit) hres" where
  "request_escrow_settlement i k out h =
     then_call (pump_indexer (append_payload (EscrowSettled i k out) h)) (\<lambda>_ h. Some (Inr ((), h)))"

definition pay_out :: "event \<Rightarrow> (custody_error + bool) list \<times> custody_ledger \<Rightarrow> (custody_error + bool) list \<times> custody_ledger" where
  "pay_out intent acc =
     (case intent of
        SettleIntent i k out \<Rightarrow>
          (case custody_settle_escrow i k out (snd acc) of (res, l) \<Rightarrow> (fst acc @ [res], l))
      | _ \<Rightarrow> acc)"

definition apply_payouts :: "'h harness \<Rightarrow> ('h, (custody_error + bool) list) hres" where
  "apply_payouts h =
     (let (outcomes, l) = fold pay_out (hn_payouts h) ([], hn_ledger h)
      in then_call (pump_indexer (with_ledger l (h\<lparr> hn_payouts := [] \<rparr>))) (\<lambda>_. asserting check_settlement_invariants outcomes))"

definition lose_next_submission :: "'h harness \<Rightarrow> bool \<times> 'h harness" where
  "lose_next_submission h = (case drop_next_submission (hn_custody h) of (dropped, c) \<Rightarrow> (dropped, h\<lparr> hn_custody := c \<rparr>))"

definition formed_by :: "included_tx \<Rightarrow> escrow_id list" where
  "formed_by tx = (case tx_outcome tx of Inl _ \<Rightarrow> [] | Inr receipt \<Rightarrow> take (unat (sr_n_escrows receipt)) (sr_escrows receipt))"

definition harness_include_all :: "'h harness \<Rightarrow> ('h, included_tx list) hres" where
  "harness_include_all h =
     (case include_all (\<lambda>_. tc_now (hn_custody_clock h)) 0 [] (hn_custody h) of
        None \<Rightarrow> None
      | Some (included, c) \<Rightarrow>
          then_call (pump_indexer (h\<lparr> hn_custody := c, hn_escrows := hn_escrows h @ concat (map formed_by included) \<rparr>))
            (\<lambda>_. asserting check_settlement_invariants included))"

definition settle_pending :: "'h harness \<Rightarrow> ('h, (settle_error + settle_receipt) list) hres" where
  "settle_pending h = then_call (harness_include_all (snd (submit_pending h))) (\<lambda>included h. Some (Inr (map tx_outcome included, h)))"

definition harness_poll_settlement :: "req_idx \<Rightarrow> 'h harness \<Rightarrow> ('h, harness_error + tx_status) hres" where
  "harness_poll_settlement r h =
     (case Option.bind (request (e_ledger (hn_engine h)) r) (\<lambda>record. request_state_nonce (rq_state record)) of
        None \<Rightarrow> Some (Inr (Inl (H_Engine RequestNotSettling), h))
      | Some n \<Rightarrow>
          (let status = nonce_status (hn_ledger h) n in
           if tx_is_terminal status then Some (Inr (Inr status, h))
           else then_call (harness_apply (PollSettlement n status) h) (\<lambda>res h.
             Some (Inr (case res of Inl err \<Rightarrow> Inl err | Inr _ \<Rightarrow> Inr status, h)))))"

definition harness_advance_block :: "'h harness \<Rightarrow> ('h, nat) hres" where
  "harness_advance_block h = pump_indexer (with_ledger ((hn_ledger h)\<lparr> cl_log := advance_block (cl_log (hn_ledger h)) \<rparr>) h)"

definition stall_indexer :: "'h harness \<Rightarrow> ('h, unit) hres" where
  "stall_indexer h = (if max_indexer_lag (e_config (hn_engine h)) > 0 then Some (Inr ((), h\<lparr> hn_stalled := True \<rparr>)) else None)"

definition resume_indexer :: "'h harness \<Rightarrow> ('h, unit) hres" where
  "resume_indexer h = then_call (pump_indexer (h\<lparr> hn_stalled := False \<rparr>)) (\<lambda>_. asserting check_settlement_invariants ())"

definition set_both_clocks :: "ts \<Rightarrow> 'h harness \<Rightarrow> 'h harness option" where
  "set_both_clocks now h =
     (case test_clock_set True now (hn_engine_clock h) of
        None \<Rightarrow> None
      | Some k \<Rightarrow> map_option (\<lambda>k'. h\<lparr> hn_engine_clock := k, hn_custody_clock := k' \<rparr>) (test_clock_set True now (hn_custody_clock h)))"

definition locked_escrows :: "'h harness \<Rightarrow> (escrow_id \<times> escrow) list" where
  "locked_escrows h = filter (\<lambda>(_, x). escrow_is_locked x) (cl_all_escrows (hn_ledger h))"

section \<open>Any call\<close>

text \<open>
  What a test does with the harness. The parts it hands out for writing (\<open>custody_mut\<close> with its ledger
  and its log, \<open>indexer_mut\<close>, \<open>oracle_mut\<close> and the clocks) are used through their own public methods.
  A call of a method of custody that reads its clock is the same method of the ledger at that instant.
\<close>

datatype ledger_write =
    WDeposit account_idx amount
  | WRequest account_idx amount ts
  | WExecute account_idx ts
  | WExecuteMatured ts
  | WSettleEscrow escrow_id contract_idx outcome
  | WAppend chain_payload
  | WAppendTransaction "chain_payload list"
  | WAdvanceBlock
  | WReorg u64

definition write_log :: "(chain_log \<Rightarrow> chain_log) \<Rightarrow> custody_ledger \<Rightarrow> custody_ledger" where
  "write_log f l = l\<lparr> cl_log := f (cl_log l) \<rparr>"

definition write_ledger :: "ledger_write \<Rightarrow> custody_ledger \<Rightarrow> custody_ledger" where
  "write_ledger op l =
     (case op of
        WDeposit a v \<Rightarrow> snd (deposit a v l)
      | WRequest a v now \<Rightarrow> snd (request_withdrawal a v now l)
      | WExecute a now \<Rightarrow> snd (execute_withdrawal a now l)
      | WExecuteMatured now \<Rightarrow> snd (execute_matured_withdrawals now l)
      | WSettleEscrow i k out \<Rightarrow> snd (custody_settle_escrow i k out l)
      | WAppend p \<Rightarrow> write_log (log_append p) l
      | WAppendTransaction ps \<Rightarrow> write_log (append_transaction ps) l
      | WAdvanceBlock \<Rightarrow> write_log advance_block l
      | WReorg block \<Rightarrow> write_log (reorg block) l)"

datatype 'h custody_write =
    WLedger ledger_write
  | WHook "'h settle_hook"
  | WSubmit settlement_bundle
  | WIncludeNext
  | WIncludeAll
  | WSettle settlement_bundle

definition write_custody :: "ts \<Rightarrow> 'h custody_write \<Rightarrow> 'h custody \<Rightarrow> 'h custody option" where
  "write_custody now op c =
     (case op of
        WLedger op \<Rightarrow> Some (c\<lparr> cu_ledger := write_ledger op (cu_ledger c) \<rparr>)
      | WHook hook \<Rightarrow> Some (on_settle_entry hook c)
      | WSubmit b \<Rightarrow> Some (snd (submit b c))
      | WIncludeNext \<Rightarrow> Some (snd (include_next now c))
      | WIncludeAll \<Rightarrow> map_option snd (include_all (\<lambda>_. now) 0 [] c)
      | WSettle b \<Rightarrow> Some (snd (settle now b c)))"

datatype 'h harness_call =
    HDeposit account_idx amount
  | HRequestWithdrawal account_idx amount
  | HExecuteWithdrawal account_idx
  | HApply command
  | HSubmitPending
  | HResubmit req_idx
  | HReportOracle contract_idx
  | HRequestEscrowSettlement escrow_id contract_idx outcome
  | HApplyPayouts
  | HLose
  | HIncludeAll
  | HSettlePending
  | HPoll req_idx
  | HPump
  | HAdvanceBlock
  | HStall
  | HResume
  | HSetClocks ts
  | HAdvanceClocks dur dur dur
  | HOracle oracle_call
  | HCustody "'h custody_write"
  | HRewind
  | HForget
  | HDrain chain_log

definition no_value :: "('h, 'a) hres \<Rightarrow> (cross_system_violation \<times> 'h harness + 'h harness) option" where
  "no_value r = map_option (\<lambda>x. case x of Inl v \<Rightarrow> Inl v | Inr (_, h) \<Rightarrow> Inr h) r"

definition harness_do :: "'h harness_call \<Rightarrow> 'h harness \<Rightarrow> (cross_system_violation \<times> 'h harness + 'h harness) option" where
  "harness_do call h =
     (case call of
        HDeposit a v \<Rightarrow> no_value (harness_deposit a v h)
      | HRequestWithdrawal a v \<Rightarrow> no_value (harness_request_withdrawal a v h)
      | HExecuteWithdrawal a \<Rightarrow> no_value (harness_execute_withdrawal a h)
      | HApply c \<Rightarrow> no_value (harness_apply c h)
      | HSubmitPending \<Rightarrow> Some (Inr (snd (submit_pending h)))
      | HResubmit r \<Rightarrow> Some (Inr (snd (resubmit r h)))
      | HReportOracle k \<Rightarrow> no_value (harness_report_oracle_status k h)
      | HRequestEscrowSettlement i k out \<Rightarrow> no_value (request_escrow_settlement i k out h)
      | HApplyPayouts \<Rightarrow> no_value (apply_payouts h)
      | HLose \<Rightarrow> Some (Inr (snd (lose_next_submission h)))
      | HIncludeAll \<Rightarrow> no_value (harness_include_all h)
      | HSettlePending \<Rightarrow> no_value (settle_pending h)
      | HPoll r \<Rightarrow> no_value (harness_poll_settlement r h)
      | HPump \<Rightarrow> no_value (pump_indexer h)
      | HAdvanceBlock \<Rightarrow> no_value (harness_advance_block h)
      | HStall \<Rightarrow> no_value (stall_indexer h)
      | HResume \<Rightarrow> no_value (resume_indexer h)
      | HSetClocks now \<Rightarrow> map_option Inr (set_both_clocks now h)
      | HAdvanceClocks d1 d2 d3 \<Rightarrow> Some (Inr (h\<lparr> hn_engine_clock := test_clock_advance d1 (hn_engine_clock h),
          hn_custody_clock := test_clock_advance d2 (hn_custody_clock h), hn_oracle_clock := test_clock_advance d3 (hn_oracle_clock h) \<rparr>))
      | HOracle c \<Rightarrow> Some (Inr (h\<lparr> hn_oracle := oracle_exec (tc_now (hn_oracle_clock h), c) (hn_oracle h) \<rparr>))
      | HCustody op \<Rightarrow> map_option (\<lambda>c. Inr (h\<lparr> hn_custody := c \<rparr>)) (write_custody (tc_now (hn_custody_clock h)) op (hn_custody h))
      | HRewind \<Rightarrow> Some (Inr (h\<lparr> hn_indexer := rewind (hn_indexer h) \<rparr>))
      | HForget \<Rightarrow> Some (Inr (h\<lparr> hn_indexer := forget_everything (hn_indexer h) \<rparr>))
      | HDrain g \<Rightarrow> Some (Inr (h\<lparr> hn_indexer := fst (drain g (hn_indexer h)) \<rparr>)))"

end
