(* ===== verification/Harness_Safe.thy ===== *)
theory Harness_Safe
  imports Harness
begin

text \<open>
  What the harness of \<open>crates/runtime/src/harness.rs\<close> can rely on: every run of it is a run of the market
  of \<open>Mirror\<close>, so conservation, escrow contributions and mirror agreement hold whenever it checks them.
\<close>

section \<open>Conservation and contributions\<close>

lemma fold_res_all_ok: "(\<And>x. x \<in> set xs \<Longrightarrow> f x () = Inr ()) \<Longrightarrow> fold_res f xs () = Inr ()"
  by (induction xs) (auto simp: and_then_def)

lemma add_held_fits: "unat a + unat v < 2 ^ 64 \<Longrightarrow> \<exists>s. add_held a v err = Inr s \<and> unat s = unat a + unat v"
  by (simp add: add_held_def amount_checked_add_def ok_or_def checked_add_def unat_word_ariths)

lemma fold_held:
  assumes "unat s + (\<Sum>x\<leftarrow>xs. unat (v x)) < 2 ^ 64"
    and "\<And>x s. x \<in> set xs \<Longrightarrow> f x s = add_held s (v x) err \<or> v x = 0 \<and> f x s = Inr s"
  shows "\<exists>s'. fold_res f xs s = Inr s' \<and> unat s' = unat s + (\<Sum>x\<leftarrow>xs. unat (v x))"
  using assms
proof (induction xs arbitrary: s)
  case (Cons x xs)
  obtain t where t: "f x s = Inr t" "unat t = unat s + unat (v x)"
    using Cons.prems(2)[of x s] add_held_fits[of s "v x" err] Cons.prems(1) by auto
  have "unat t + (\<Sum>x\<leftarrow>xs. unat (v x)) < 2 ^ 64" using t(2) Cons.prems(1) by simp
  from Cons.IH[OF this] Cons.prems(2) show ?case by (auto simp: t and_then_def)
qed simp

lemma all_escrows_map:
  assumes "ledger_sound l"
  shows "map snd (cl_all_escrows l) = cl_escrows l"
proof -
  have len: "length (cl_escrows l) < 2 ^ 32" using assms by (simp add: ledger_sound_def tables_ok_def)
  have "map snd (somes (map (\<lambda>(index, x). if index < 2 ^ 32 then Some (word_of_nat index :: escrow_id, x) else None) (enumerate k xs))) = xs"
    if "k + length xs \<le> 2 ^ 32" for k and xs :: "escrow list"
    using that by (induction xs arbitrary: k) auto
  from this[of 0 "cl_escrows l"] len show ?thesis by (simp add: cl_all_escrows_def)
qed

lemma conservation_checked:
  assumes "ledger_sound (hn_ledger h)"
  shows "harness_check_conservation h = Inr ()"
proof -
  let ?l = "hn_ledger h"
  let ?pot = "\<lambda>x. if escrow_is_locked x then escrow_notional x else 0"
  have small: "length (cl_balances ?l) < 2 ^ 32" using assms by (simp add: ledger_sound_def tables_ok_def)
  then have count: "unat (cl_account_count ?l) = length (cl_balances ?l)"
    by (simp add: cl_account_count_def Let_def unat_word_of_nat)
  have "(\<Sum>a\<in>UNIV. held ?l a) + sum_list (map pot_value (v_pots (vault_of ?l))) + unat (cl_withdrawn ?l) = unat (cl_deposited ?l)"
    using assms by (simp add: ledger_sound_def vault_conserved_def) (simp add: vault_of_def)
  then have total: "(\<Sum>x\<leftarrow>cl_balances ?l. unat (bal_balance x)) + (\<Sum>x\<leftarrow>cl_escrows ?l. if escrow_is_locked x then unat (escrow_notional x) else 0)
      + unat (cl_withdrawn ?l) = unat (cl_deposited ?l)"
    unfolding locked_sum[OF assms] using small by (simp add: held_sum)
  have pots: "(\<Sum>x\<leftarrow>cl_escrows ?l. if escrow_is_locked x then unat (escrow_notional x) else 0) = (\<Sum>x\<leftarrow>cl_all_escrows ?l. unat (?pot (snd x)))"
  proof -
    have "(\<Sum>x\<leftarrow>cl_all_escrows ?l. unat (?pot (snd x))) = sum_list (map (\<lambda>x. unat (?pot x)) (map snd (cl_all_escrows ?l)))" by (simp add: comp_def)
    also have "\<dots> = (\<Sum>x\<leftarrow>cl_escrows ?l. if escrow_is_locked x then unat (escrow_notional x) else 0)"
      unfolding all_escrows_map[OF assms] by (rule arg_cong[of _ _ sum_list], rule map_cong) simp_all
    finally show ?thesis by simp
  qed
  have bals: "(\<Sum>i\<leftarrow>[0..<length (cl_balances ?l)]. unat (cl_balance ?l (word_of_nat i))) = (\<Sum>x\<leftarrow>cl_balances ?l. unat (bal_balance x))"
  proof -
    have "map (\<lambda>i. unat (cl_balance ?l (word_of_nat i))) [0..<length (cl_balances ?l)] = map (\<lambda>x. unat (bal_balance x)) (cl_balances ?l)"
    proof (rule nth_equalityI)
      fix i assume "i < length (map (\<lambda>i. unat (cl_balance ?l (word_of_nat i))) [0..<length (cl_balances ?l)])"
      then have i: "i < length (cl_balances ?l)" by simp
      have "unat (word_of_nat i :: account_idx) = i" by (rule unat_word_of_nat) (use i small in simp)
      then have "cl_balance ?l (word_of_nat i) = bal_balance (cl_balances ?l ! i)"
        using i by (simp add: cl_balance_def cl_account_def get_idx_def)
      then show "map (\<lambda>i. unat (cl_balance ?l (word_of_nat i))) [0..<length (cl_balances ?l)] ! i = map (\<lambda>x. unat (bal_balance x)) (cl_balances ?l) ! i"
        using i by simp
    qed simp
    then show ?thesis by simp
  qed
  have dep: "unat (cl_deposited ?l) < 2 ^ 64" using unat_lt_size[of "cl_deposited ?l"] by simp
  obtain s1 where s1: "fold_res (\<lambda>index acc. add_held acc (cl_balance ?l (word_of_nat index)) ConservationBroken) [0..<length (cl_balances ?l)] 0 = Inr s1"
    "unat s1 = (\<Sum>x\<leftarrow>cl_balances ?l. unat (bal_balance x))"
    using fold_held[of 0 "\<lambda>i. cl_balance ?l (word_of_nat i)" "[0..<length (cl_balances ?l)]"
        "\<lambda>index acc. add_held acc (cl_balance ?l (word_of_nat index)) ConservationBroken" ConservationBroken] total dep by (auto simp: bals)
  obtain s2 where s2: "fold_res (\<lambda>(i, x) acc. if escrow_is_locked x then add_held acc (escrow_notional x) ConservationBroken else Inr acc) (cl_all_escrows ?l) s1 = Inr s2"
    "unat s2 = unat s1 + (\<Sum>x\<leftarrow>cl_all_escrows ?l. unat (?pot (snd x)))"
    using fold_held[of s1 "\<lambda>x. ?pot (snd x)" "cl_all_escrows ?l"
        "\<lambda>(i, x) acc. if escrow_is_locked x then add_held acc (escrow_notional x) ConservationBroken else Inr acc" ConservationBroken] total dep s1(2) pots
    by fastforce
  have sub: "amount_checked_sub (cl_deposited ?l) (cl_withdrawn ?l) = Some s2"
    using total s1(2) s2(2) pots by (simp add: amount_checked_sub_def checked_sub_Some_iff)
  show ?thesis
    by (simp add: harness_check_conservation_def Let_def count s1(1) s2(1) sub and_then_def ok_or_def)
qed

text \<open>
  The two contributions of an escrow add up within 64 bits while it is locked, because the vault holds
  them; they stay what they were when it is paid.
\<close>

definition bounded_escrows :: "custody_ledger \<Rightarrow> bool" where
  "bounded_escrows l \<longleftrightarrow> (\<forall>x\<in>set (cl_escrows l). unat (es_requester_contribution x) + unat (es_maker_contribution x) < 2 ^ 64)"

lemma bounded_escrows_from:
  assumes "ledger_sound l'" and "bounded_escrows l"
    and "\<And>x'. x' \<in> set (cl_escrows l') \<Longrightarrow> escrow_is_locked x' \<or> (\<exists>x\<in>set (cl_escrows l).
      es_requester_contribution x' = es_requester_contribution x \<and> es_maker_contribution x' = es_maker_contribution x)"
  shows "bounded_escrows l'"
  unfolding bounded_escrows_def
proof
  fix x' assume x': "x' \<in> set (cl_escrows l')"
  from assms(3)[OF this] show "unat (es_requester_contribution x') + unat (es_maker_contribution x') < 2 ^ 64"
  proof
    assume "escrow_is_locked x'"
    from locked_contributions(1)[OF assms(1) x' this] unat_lt_size[of "cl_deposited l'"] show ?thesis by simp
  next
    assume "\<exists>x\<in>set (cl_escrows l). es_requester_contribution x' = es_requester_contribution x \<and> es_maker_contribution x' = es_maker_contribution x"
    with assms(2) show ?thesis by (auto simp: bounded_escrows_def)
  qed
qed

lemma escrows_frame:
  "cl_escrows (snd (deposit a v l)) = cl_escrows l" "cl_escrows (snd (request_withdrawal a v now l)) = cl_escrows l"
  "cl_escrows (snd (execute_withdrawal a now l)) = cl_escrows l" "cl_escrows (snd (execute_matured_withdrawals now l)) = cl_escrows l"
proof -
  show "cl_escrows (snd (deposit a v l)) = cl_escrows l" by (simp add: deposit_def log_balance_def balance_update_def split: option.split)
  show "cl_escrows (snd (request_withdrawal a v now l)) = cl_escrows l"
    by (simp add: request_withdrawal_def log_balance_def balance_update_def split: option.split)
  have ex: "cl_escrows (snd (execute_withdrawal a now l)) = cl_escrows l" for a l
    by (simp add: execute_withdrawal_def Let_def log_balance_def balance_update_def split: option.split)
  then show "cl_escrows (snd (execute_withdrawal a now l)) = cl_escrows l" .
  have "cl_escrows (snd (fold (execute_one now) ks acc)) = cl_escrows (snd acc)" for acc ks
    by (induction ks arbitrary: acc) (simp_all add: execute_one_snd ex)
  then show "cl_escrows (snd (execute_matured_withdrawals now l)) = cl_escrows l" by (simp add: execute_matured_withdrawals_def)
qed

lemma paid_escrows:
  assumes "ledger_sound l" and "x' \<in> set (cl_escrows (snd (custody_settle_escrow i k out l)))"
  shows "\<exists>x\<in>set (cl_escrows l). es_requester_contribution x' = es_requester_contribution x \<and> es_maker_contribution x' = es_maker_contribution x"
proof (cases "\<exists>x. cl_escrow l i = Some x \<and> es_contract x = k \<and> escrow_is_locked x")
  case True
  then obtain x where x: "cl_escrow l i = Some x" "es_contract x = k" "escrow_is_locked x" by blast
  have "x \<in> set (cl_escrows l)" using x(1) nth_mem by (fastforce simp: cl_escrow_def get_idx_Some_iff)
  moreover have "x' = paid_out x \<or> x' \<in> set (cl_escrows l)"
    using assms(2) settle_escrow_effect[OF assms(1) x, of out] set_update_subset_insert by fastforce
  ultimately show ?thesis by (auto simp: paid_out_def)
next
  case False
  then have "snd (custody_settle_escrow i k out l) = l" by (auto simp: custody_settle_escrow_def split: option.split)
  with assms(2) show ?thesis by auto
qed

lemma call_bounded: "ledger_call w l l' \<Longrightarrow> ledger_sound l \<Longrightarrow> bounded_escrows l \<Longrightarrow> bounded_escrows l'"
proof (induction rule: ledger_call.induct)
  case (call_settle_escrow l i k out)
  show ?case using call_settle_escrow(2) paid_escrows[OF call_settle_escrow(1)] by (fastforce simp: bounded_escrows_def)
qed (simp_all add: bounded_escrows_def escrows_frame)

lemma calls_bounded: "(ledger_call w)\<^sup>*\<^sup>* l l' \<Longrightarrow> ledger_sound l \<Longrightarrow> bounded_escrows l \<Longrightarrow> bounded_escrows l'"
proof (induction rule: rtranclp_induct)
  case (step m n)
  have "ledger_sound m" by (rule sound_move_sound[OF ledger_calls_sound[OF step(1)]]) (rule step.prems(1))+
  with step show ?case by (blast intro: call_bounded)
qed

lemma settle_bounded:
  assumes ok: "custody_sound w c" and "bounded_escrows (cu_ledger c)"
  shows "bounded_escrows (cu_ledger (snd (settle now b c)))"
proof -
  let ?l = "cu_ledger (snd (settle now b c))"
  from settle_effect[OF ok, of now b] obtain m where m: "(ledger_call w)\<^sup>*\<^sup>* (cu_ledger c) m"
    and cases: "case fst (settle now b c) of Inl e \<Rightarrow> ?l = m
      | Inr r \<Rightarrow> acceptable m b now \<and> length (cl_escrows m) + unat (bu_n_legs b) \<le> cl_max_escrows m \<and> settled_by b m ?l \<and>
          sr_n_escrows r = bu_n_legs b \<and> (\<forall>j < length (bundle_legs b). sr_escrows r ! j = word_of_nat (length (cl_escrows m) + j))"
    by blast
  have s: "ledger_sound (cu_ledger c)" "ledger_sound ?l"
    using ok settle_sound[OF ok, of now b] by (simp_all add: custody_sound_def)
  have bm: "bounded_escrows m" by (rule calls_bounded[OF m s(1) assms(2)])
  show ?thesis
  proof (cases "fst (settle now b c)")
    case (Inl e)
    with cases bm show ?thesis by simp
  next
    case (Inr r)
    with cases have e: "cl_escrows ?l = cl_escrows m @ map (escrow_of_leg (bu_requester b)) (bundle_legs b)" by (simp add: settled_by_def)
    show ?thesis
      by (rule bounded_escrows_from[OF s(2) bm]) (auto simp: e escrow_of_leg_def escrow_locked_def escrow_is_locked_def)
  qed
qed

lemma bounded_cong: "cl_escrows l' = cl_escrows l \<Longrightarrow> bounded_escrows l' = bounded_escrows l"
  by (simp add: bounded_escrows_def)

lemma custody_step_bounded:
  assumes ok: "custody_sound w c" and b: "bounded_escrows (cu_ledger c)" and st: "custody_step d w c c'"
  shows "bounded_escrows (cu_ledger c')"
  using st
proof (cases rule: custody_step.cases)
  case (step_ledger l)
  then show ?thesis using call_bounded[OF step_ledger(2)] ok b by (simp add: custody_sound_def)
next
  case (step_include now)
  show ?thesis
  proof (cases rule: include_next_cases[of c now])
    case (fresh bu rest out c2 st r)
    let ?c1 = "c\<lparr> cu_ledger := (cu_ledger c)\<lparr> cl_pending := rest \<rparr> \<rparr>"
    have "custody_sound w ?c1" using ok by (simp add: custody_sound_def)
    moreover have "bounded_escrows (cu_ledger ?c1)" using b by (simp add: bounded_escrows_def)
    ultimately have "bounded_escrows (cu_ledger (snd (settle now bu ?c1)))" by (rule settle_bounded)
    then have "bounded_escrows (cu_ledger c2)" using fresh(3) by simp
    then show ?thesis unfolding step_include fresh(6) by (simp add: bounded_escrows_def)
  qed (use b in \<open>simp_all add: step_include bounded_escrows_def\<close>)
next
  case (step_settle now bu)
  then show ?thesis by (simp add: settle_bounded[OF ok b])
qed (use b in \<open>simp_all add: on_settle_entry_def submit_def drop_next_submission_def bounded_escrows_def split: list.split\<close>)

lemma contributions_checked:
  assumes "ledger_sound (hn_ledger h)" and "bounded_escrows (hn_ledger h)"
  shows "harness_check_contributions h = Inr ()"
  unfolding harness_check_contributions_def
proof (rule fold_res_all_ok)
  fix e assume e: "e \<in> set (cl_all_escrows (hn_ledger h))"
  obtain i x where ix: "e = (i, x)" by (cases e)
  have x: "x \<in> set (cl_escrows (hn_ledger h))"
    using e all_escrows_map[OF assms(1), symmetric] by (force simp: ix)
  then have "escrow_ok (hn_ledger h) x" using assms(1) by (simp add: ledger_sound_def tables_ok_def)
  then obtain p where p: "p \<le> 1000000" "unat (es_requester_contribution x) = unat (es_size x) * p"
    "unat (es_maker_contribution x) = unat (es_size x) * (1000000 - p)" by (auto simp: escrow_ok_def)
  have sum: "unat (es_requester_contribution x) + unat (es_maker_contribution x) = unat (es_size x) * 1000000"
    using p by (simp flip: distrib_left)
  have lt: "unat (es_requester_contribution x) + unat (es_maker_contribution x) < 2 ^ 64" using assms(2) x by (simp add: bounded_escrows_def)
  obtain t where t: "amount_checked_add (es_requester_contribution x) (es_maker_contribution x) = Some t"
    using lt by (auto simp: amount_checked_add_def checked_add_def split: if_splits)
  then have ut: "unat t = unat (es_size x) * 1000000" using sum by (simp add: amount_checked_add_def checked_add_Some_iff)
  have "notional (es_size x) = Some t"
    unfolding notional_def size_checked_mul_Some_iff using ut by (simp add: UNIT_def)
  with t show "check_contributions e () = Inr ()" by (simp add: ix check_contributions_def and_then_def ok_or_def)
qed

section \<open>A harness run is a market run\<close>

definition log_full :: "'h harness \<Rightarrow> bool" where
  "log_full h \<longleftrightarrow> lg_next_tx (cl_log (hn_ledger h)) = u_max"

text \<open>The market behind a harness, with the commands drained but not yet given to the engine.\<close>

definition wired :: "'h market \<Rightarrow> command list \<Rightarrow> 'h harness \<Rightarrow> bool" where
  "wired m cs h \<longleftrightarrow> reaches market_start market_step m \<and> mk_custody m = hn_custody h \<and> mk_indexer m = hn_indexer h \<and>
     (\<exists>t \<le> tc_now (hn_engine_clock h). mk_engine m = (t, hn_engine h)) \<and>
     drop (mk_applied m) (mk_delivered m) = cs \<and> bounded_escrows (hn_ledger h) \<and>
     ix_confirmations (hn_indexer h) = ucast (confirmations (e_config (hn_engine h))) \<and>
     (hn_stalled h \<longrightarrow> 0 < max_indexer_lag (e_config (hn_engine h)))"

definition all_applied :: "'h market \<Rightarrow> bool" where
  "all_applied m \<longleftrightarrow> mk_applied m = length (lg_entries (cl_log (cu_ledger (mk_custody m))))"

definition linked :: "'h harness \<Rightarrow> bool" where
  "linked h \<longleftrightarrow> (\<exists>m. wired m [] h)"

definition harness_ok :: "'h harness \<Rightarrow> bool" where
  "harness_ok h \<longleftrightarrow> (\<exists>m. wired m [] h \<and> (lagless h \<and> \<not> log_full h \<longrightarrow> all_applied m))"

lemma harness_ok_linked: "harness_ok h \<Longrightarrow> linked h"
  by (auto simp: harness_ok_def linked_def)

text \<open>What the engine's commands leave alone.\<close>

definition same_wires :: "'h harness \<Rightarrow> 'h harness \<Rightarrow> bool" where
  "same_wires h h' \<longleftrightarrow> hn_custody h' = hn_custody h \<and> hn_indexer h' = hn_indexer h \<and> hn_stalled h' = hn_stalled h \<and>
     hn_engine_clock h' = hn_engine_clock h \<and> e_config (hn_engine h') = e_config (hn_engine h)"

lemma same_wires_kept:
  "same_wires h h' \<Longrightarrow> lagless h' = lagless h" "same_wires h h' \<Longrightarrow> log_full h' = log_full h"
  by (simp_all add: same_wires_def lagless_def log_full_def)

lemma wired_invariants:
  assumes "wired m cs h"
  shows "custody_sound False (hn_custody h)" and "ledger_sound (hn_ledger h)"
    and "reachable_engine (fst (mk_engine m)) (hn_engine h)" and "mk_applied m \<le> length (mk_delivered m)"
proof -
  have "Mirror.market_ok m" using assms market_system.reachable_inv unfolding wired_def by blast
  then have ok: "custody_sound False (hn_custody h)" "reaches engine_start engine_step (mk_engine m)" "mk_applied m \<le> length (mk_delivered m)"
    using assms by (simp_all add: Mirror.market_ok_def wired_def)
  then show "custody_sound False (hn_custody h)" "ledger_sound (hn_ledger h)" "mk_applied m \<le> length (mk_delivered m)"
    by (simp_all add: custody_sound_def)
  show "reachable_engine (fst (mk_engine m)) (hn_engine h)" using ok(2) assms by (auto simp: wired_def)
qed

lemma engine_takes_runs:
  assumes "wired m cs h"
  obtains t e' b res b' h' where "mk_engine m = (t, hn_engine h)" "t \<le> tc_now (hn_engine_clock h)"
    "engine_apply c (tc_now (hn_engine_clock h)) (hn_engine h, b) = Some (res, (e', b'))"
    "engine_takes c h = Some (res, h')" "hn_engine h' = e'" "same_wires h h'"
proof -
  from assms obtain t where t: "mk_engine m = (t, hn_engine h)" "t \<le> tc_now (hn_engine_clock h)" by (auto simp: wired_def)
  have "engine_inv t (hn_engine h)" using wired_invariants(3)[OF assms] reachable_engine_inv t(1) by simp
  from engine_apply_handled[OF this t(2), of c "eb_clear (hn_events h)"] obtain res e' b' where
    run: "engine_apply c (tc_now (hn_engine_clock h)) (hn_engine h, eb_clear (hn_events h)) = Some (res, (e', b'))"
      "e_config e' = e_config (hn_engine h)" by blast
  obtain emitted b'' where "eb_drain b' = (emitted, b'')" by (cases "eb_drain b'")
  then have takes: "engine_takes c h = Some (res, pick_up emitted (h\<lparr> hn_engine := e', hn_events := b'' \<rparr>))"
    by (simp add: engine_takes_def run(1))
  show thesis by (rule that[OF t run(1) takes]) (simp_all add: pick_up_def same_wires_def run(2))
qed

lemma wired_moved:
  assumes "wired m cs h" and "market_step m m'" and "same_wires h h'"
    and "mk_custody m' = mk_custody m" and "mk_indexer m' = mk_indexer m"
    and "mk_engine m' = (tc_now (hn_engine_clock h), hn_engine h')" and "drop (mk_applied m') (mk_delivered m') = cs'"
  shows "wired m' cs' h'"
proof -
  have "reaches market_start market_step m" using assms(1) by (simp add: wired_def)
  from reaches_step[OF this assms(2)] have "reaches market_start market_step m'" .
  then show ?thesis using assms(1,3-7) by (simp add: wired_def same_wires_def)
qed

lemma client_takes:
  assumes w: "wired m [] h" and "from_client c"
  obtains res h' m' where "engine_takes c h = Some (res, h')" "wired m' [] h'" "same_wires h h'" "all_applied m' = all_applied m"
proof -
  obtain t e' b res b' h' where
    r: "mk_engine m = (t, hn_engine h)" "t \<le> tc_now (hn_engine_clock h)"
      "engine_apply c (tc_now (hn_engine_clock h)) (hn_engine h, b) = Some (res, (e', b'))"
      "engine_takes c h = Some (res, h')" "hn_engine h' = e'" "same_wires h h'" by (rule engine_takes_runs[OF w])
  let ?m = "m\<lparr> mk_engine := (tc_now (hn_engine_clock h), e') \<rparr>"
  have "market_step m ?m" by (rule market_client[OF assms(2) r(1,2,3)])
  then have "wired ?m [] h'" by (rule wired_moved[OF w _ r(6)]) (use w r(5) in \<open>simp_all add: wired_def\<close>)
  then show thesis using that[OF r(4) _ r(6)] by (simp add: all_applied_def)
qed

lemma deliveries_run:
  assumes "wired m cs h"
  shows "\<exists>h' m'. deliver cs h = Some h' \<and> wired m' [] h' \<and> same_wires h h' \<and> mk_applied m' = length (mk_delivered m') \<and>
    mk_delivered m' = mk_delivered m"
  using assms
proof (induction cs arbitrary: m h)
  case Nil
  then have "mk_applied m = length (mk_delivered m)" using wired_invariants(4)[OF Nil] by (simp add: wired_def)
  with Nil show ?case by (auto simp: deliver_def same_wires_def)
next
  case (Cons c cs)
  obtain t e' b res b' h1 where
    r: "mk_engine m = (t, hn_engine h)" "t \<le> tc_now (hn_engine_clock h)"
      "engine_apply c (tc_now (hn_engine_clock h)) (hn_engine h, b) = Some (res, (e', b'))"
      "engine_takes c h = Some (res, h1)" "hn_engine h1 = e'" "same_wires h h1" by (rule engine_takes_runs[OF Cons.prems])
  have at: "drop (mk_applied m) (mk_delivered m) = c # cs" using Cons.prems by (simp add: wired_def)
  then have lt: "mk_applied m < length (mk_delivered m)" by (cases "mk_applied m < length (mk_delivered m)") simp_all
  then have c: "mk_delivered m ! mk_applied m = c" "drop (Suc (mk_applied m)) (mk_delivered m) = cs"
    using at Cons_nth_drop_Suc[OF lt] by simp_all
  let ?m = "m\<lparr> mk_applied := Suc (mk_applied m), mk_engine := (tc_now (hn_engine_clock h), e') \<rparr>"
  have "market_step m ?m" by (rule market_apply[OF lt r(1,2)]) (use r(3) c in simp)
  then have "wired ?m cs h1" by (rule wired_moved[OF Cons.prems _ r(6)]) (use r(5) c(2) in simp_all)
  from Cons.IH[OF this] obtain h' m' where "deliver cs h1 = Some h'" "wired m' [] h'" "same_wires h1 h'"
    "mk_applied m' = length (mk_delivered m')" "mk_delivered m' = mk_delivered m" by auto
  moreover from this(3) r(6) have "same_wires h h'" by (simp add: same_wires_def)
  moreover have "deliver (c # cs) h = deliver cs h1" by (simp add: deliver_def r(4))
  ultimately show ?case by auto
qed

section \<open>Pumping the indexer\<close>

lemma not_max_less: "(x :: u64) \<noteq> u_max \<longleftrightarrow> x < u_max"
  by (simp add: u_max_def word_order.not_eq_extremum)

lemma drain_confirmations: "drain g ix = (ix', cmds) \<Longrightarrow> ix_confirmations ix' = ix_confirmations ix"
proof -
  have "ix_confirmations (fst (drain_loop hz xs acc)) = ix_confirmations (fst acc)" for hz xs acc
    by (induction hz xs acc rule: drain_loop.induct) (simp_all add: Let_def)
  from this[of _ _ "(ix, [])"] show "drain g ix = (ix', cmds) \<Longrightarrow> ?thesis"
    by (auto simp: drain_def split: option.splits) (metis fst_conv)
qed

lemma drain_to_the_end:
  assumes "log_ok g" and "lg_next_tx g < u_max" and "ix_confirmations ix = 0" and "drain g ix = (ix', cmds)"
  shows "length (lg_entries g) \<le> ix_cursor ix'"
proof -
  have "distinct (map key_of (lg_entries g))" and low: "\<forall>e \<in> set (lg_entries g). ev_block e \<le> lg_head g"
    using assms(1,2) by (simp_all add: log_ok_def)
  moreover have "horizon ix (lg_head g) = Some (lg_head g)" by (simp add: horizon_def checked_sub_def assms(3))
  moreover have "takeWhile (\<lambda>e. ev_block e \<le> lg_head g) (drop (ix_cursor ix) (lg_entries g)) = drop (ix_cursor ix) (lg_entries g)"
    unfolding takeWhile_eq_all_conv using low by (auto dest: in_set_dropD)
  ultimately have "ix_cursor ix' = ix_cursor ix + length (drop (ix_cursor ix) (lg_entries g))"
    using drain_spec[of g ix] assms(4) by (auto simp: Let_def simp del: takeWhile_eq_all_conv)
  then show ?thesis by simp
qed

lemma pumped:
  assumes w: "wired m [] h" and d: "drain (cl_log (hn_ledger h)) (hn_indexer h) = (ix, cs)"
  obtains h' m' where "deliver cs (h\<lparr> hn_indexer := ix \<rparr>) = Some h'" "wired m' [] h'"
    "lagless h' \<and> \<not> log_full h' \<longrightarrow> all_applied m'" "hn_stalled h' = hn_stalled h"
proof -
  let ?g = "cl_log (hn_ledger h)"
  let ?m1 = "m\<lparr> mk_indexer := ix, mk_delivered := mk_delivered m @ cs \<rparr>" and ?h1 = "h\<lparr> hn_indexer := ix \<rparr>"
  have m: "mk_custody m = hn_custody h" "mk_indexer m = hn_indexer h" "reaches market_start market_step m" using w by (simp_all add: wired_def)
  have "market_step m ?m1" by (rule market_drain) (use d m in simp)
  from reaches_step[OF m(3) this] have r: "reaches market_start market_step ?m1" .
  have all: "mk_applied m = length (mk_delivered m)" using wired_invariants(4)[OF w] w by (simp add: wired_def)
  have "wired ?m1 cs ?h1" using w r drain_confirmations[OF d] by (simp add: wired_def all)
  from deliveries_run[OF this] obtain h' m' where del: "deliver cs ?h1 = Some h'" "wired m' [] h'" "same_wires ?h1 h'"
    "mk_applied m' = length (mk_delivered m')" "mk_delivered m' = mk_delivered m @ cs" by auto
  have c: "hn_custody h' = hn_custody h" "mk_custody m' = hn_custody h" using del(2,3) by (simp_all add: same_wires_def wired_def)
  have "all_applied m'" if lag: "lagless h'" and room: "\<not> log_full h'"
  proof -
    have "Mirror.market_ok ?m1" by (rule market_system.reachable_inv[OF r])
    then have f: "feed_ok (feed_of ?m1)" using feed_system.reachable_inv by (simp add: Mirror.market_ok_def)
    have tx: "lg_next_tx ?g < u_max" using room by (simp add: log_full_def c not_max_less)
    have deep: "ix_confirmations (hn_indexer h) = 0"
      using lag w del(3) by (simp add: lagless_def same_wires_def wired_def)
    have lok: "log_ok ?g" using f by (simp add: feed_ok_def feed_of_def m(1))
    from f tx obtain k where k: "fed (feed_of ?m1) k" by (auto simp: feed_ok_def feed_of_def m(1))
    then have k': "k \<le> length (lg_entries ?g)" "ix_cursor ix \<le> k" "length (mk_delivered m @ cs) = k"
      by (simp_all add: fed_def Let_def feed_of_def m(1))
    with drain_to_the_end[OF lok tx deep d] show ?thesis by (simp add: all_applied_def del(4,5) c(2))
  qed
  with that[OF del(1,2)] del(3) show thesis by (simp add: same_wires_def)
qed

section \<open>The checks hold\<close>

lemma mirror_published: "mirror_of es a = 0 \<or> list_ex (\<lambda>e. ev_payload e = BalanceChanged a (mirror_of es a)) es"
  by (induction es rule: rev_induct) (auto split: chain_payload.split)

lemma mirror_checked:
  assumes w: "wired m [] h" and room: "\<not> log_full h" and all: "lagless h \<longrightarrow> all_applied m"
  shows "harness_check_mirror h = Inr ()"
  unfolding harness_check_mirror_def
proof (rule fold_res_all_ok)
  fix i
  let ?a = "word_of_nat i :: account_idx" and ?l = "hn_ledger h"
  show "check_mirrored h i () = Inr ()"
  proof (cases "account (e_ledger (hn_engine h)) ?a")
    case (Some entry)
    have m: "mk_custody m = hn_custody h" "reaches market_start market_step m" "account (e_ledger (snd (mk_engine m))) ?a = Some entry"
      using w Some by (auto simp: wired_def)
    have "lg_next_tx (cl_log (cu_ledger (mk_custody m))) < u_max" using room by (simp add: log_full_def m(1) not_max_less)
    note mm = market_mirror[OF m(2) this m(3), unfolded m(1)]
    let ?es = "lg_entries (cl_log ?l)"
    have "mb_free entry = cl_available ?l ?a" if "lagless h"
      using mm all that by (simp add: all_applied_def m(1))
    moreover have "mb_free entry = 0 \<or> was_published (cl_log ?l) ?a (mb_free entry)"
      using mirror_published[of "take (mk_applied m) ?es" ?a] mm(2)
      by (auto simp: was_published_def list_ex_iff dest: in_set_takeD)
    ultimately show ?thesis by (auto simp: check_mirrored_def Let_def Some)
  qed (simp add: check_mirrored_def Let_def)
qed

lemma coverage_only:
  "harness_check_coverage h = Inr () \<or> (\<exists>a. harness_check_coverage h = Inl (CoverageBroken a))"
proof -
  have folded: "(\<exists>s. fold_res (back_with a) xs v = Inr s) \<or> fold_res (back_with a) xs v = Inl (CoverageBroken a)" for a v xs
  proof (induction xs arbitrary: v)
    case (Cons x xs)
    have "(\<exists>s. back_with a x v = Inr s) \<or> back_with a x v = Inl (CoverageBroken a)"
      by (auto simp: back_with_def Let_def and_then_def add_held_def ok_or_def split: option.splits)
    then show ?case
    proof
      assume "\<exists>s. back_with a x v = Inr s"
      then obtain s where "back_with a x v = Inr s" ..
      then show ?thesis using Cons.IH[of s] by (simp add: and_then_def)
    qed (simp add: and_then_def)
  qed simp
  have one: "check_backed h i () = Inr () \<or> (\<exists>a. check_backed h i () = Inl (CoverageBroken a))" for i
    using folded[of "word_of_nat i" "cl_all_escrows (hn_ledger h)" "cl_balance (hn_ledger h) (word_of_nat i)"]
    by (auto simp: check_backed_def Let_def and_then_def ok_or_def split: option.split)
  have "fold_res (check_backed h) ks () = Inr () \<or> (\<exists>a. fold_res (check_backed h) ks () = Inl (CoverageBroken a))" for ks
  proof (induction ks)
    case (Cons i ks)
    with one[of i] show ?case by (auto simp: and_then_def)
  qed simp
  then show ?thesis unfolding harness_check_coverage_def by blast
qed

end
