(* ===== verification/Harness_Claims.thy ===== *)
theory Harness_Claims
  imports Harness_Safe Custody_Answers Engine_Demo
begin

text \<open>
  Every call of the harness of \<open>crates/runtime/src/harness.rs\<close> from every state a test can reach: which
  ones return, and which assertions can fire. It depends on how a test uses the parts the harness hands
  out for writing, so there are three kinds of test: one that keeps to the calls of the harness, one that
  also moves money and queues settlements directly on custody, and one that writes the log, the indexer
  and the engine's mirror as well.
\<close>

section \<open>What a test may reach\<close>

datatype access = OwnCalls | DirectMoves | FullAccess

definition may_write :: "access \<Rightarrow> 'h custody_write \<Rightarrow> bool" where
  "may_write acc op =
     (case op of
        WHook hook \<Rightarrow> hook_ok (acc = FullAccess) hook
      | WLedger w \<Rightarrow>
          (case w of
             WAppend p \<Rightarrow> acc = FullAccess \<or> acc = DirectMoves \<and> (case p of BalanceChanged _ _ \<Rightarrow> False | _ \<Rightarrow> True)
           | WAppendTransaction _ \<Rightarrow> acc = FullAccess
           | WReorg _ \<Rightarrow> acc = FullAccess
           | _ \<Rightarrow> acc \<noteq> OwnCalls)
      | _ \<Rightarrow> acc \<noteq> OwnCalls)"

definition may_call :: "access \<Rightarrow> 'h harness_call \<Rightarrow> bool" where
  "may_call acc call =
     (case call of
        HApply c \<Rightarrow> acc = FullAccess \<or> from_client c
      | HCustody op \<Rightarrow> may_write acc op
      | HForget \<Rightarrow> acc = FullAccess
      | HDrain _ \<Rightarrow> acc = FullAccess
      | _ \<Rightarrow> True)"

lemma full_access: "may_call FullAccess call \<longleftrightarrow> (case call of HCustody (WHook hook) \<Rightarrow> hook_ok True hook | _ \<Rightarrow> True)"
  by (simp add: may_call_def may_write_def split: harness_call.split custody_write.split ledger_write.split)

section \<open>States\<close>

text \<open>
  Whatever is done to the log and the indexer, custody stays sound and the engine is a reachable one at an
  instant its clock has not gone back behind.
\<close>

definition sound_parts :: "'h harness \<Rightarrow> bool" where
  "sound_parts h \<longleftrightarrow> custody_sound True (hn_custody h) \<and> bounded_escrows (hn_ledger h) \<and>
     (\<exists>t \<le> tc_now (hn_engine_clock h). reachable_engine t (hn_engine h))"

definition wires :: "access \<Rightarrow> 'h harness \<Rightarrow> bool" where
  "wires acc h \<longleftrightarrow> (if acc = FullAccess then sound_parts h else linked h)"

definition good :: "access \<Rightarrow> 'h harness \<Rightarrow> bool" where
  "good acc h \<longleftrightarrow> (if acc = OwnCalls then harness_ok h else wires acc h)"

lemma hook_ok_mono: "hook_ok False hook \<Longrightarrow> hook_ok w hook"
proof -
  assume ok: "hook_ok False hook"
  have "ledger_call w l l'" if "ledger_call False l l'" for l l'
    using that by (induction rule: ledger_call.induct) (auto intro: ledger_call.intros)
  then have "ledger_call False \<le> ledger_call w" by (simp add: predicate2I)
  then have "(ledger_call False)\<^sup>*\<^sup>* l l' \<Longrightarrow> (ledger_call w)\<^sup>*\<^sup>* l l'" for l l'
    by (rule rtranclp_mono[THEN predicate2D])
  with ok show ?thesis by (simp add: hook_ok_def)
qed

lemma linked_sound:
  assumes "linked h"
  shows "custody_sound w (hn_custody h)" and "sound_parts h"
proof -
  from assms obtain m where m: "wired m [] h" by (auto simp: linked_def)
  show s: "custody_sound w (hn_custody h)" for w
    using wired_invariants(1)[OF m] hook_ok_mono by (auto simp: custody_sound_def)
  obtain t where "mk_engine m = (t, hn_engine h)" "t \<le> tc_now (hn_engine_clock h)" using m by (auto simp: wired_def)
  moreover have "bounded_escrows (hn_ledger h)" using m by (simp add: wired_def)
  ultimately show "sound_parts h" using s wired_invariants(3)[OF m] by (auto simp: sound_parts_def)
qed

lemma good_wires: "good acc h \<Longrightarrow> wires acc h"
  by (auto simp: good_def wires_def harness_ok_linked split: if_splits)

lemma ok_good: "harness_ok h \<Longrightarrow> good acc h"
  by (simp add: good_def wires_def harness_ok_linked linked_sound)

lemma wires_sound:
  assumes "wires acc h"
  shows "custody_sound (acc = FullAccess) (hn_custody h)" and "ledger_sound (hn_ledger h)" and "bounded_escrows (hn_ledger h)"
    and "sound_parts h"
proof -
  show "custody_sound (acc = FullAccess) (hn_custody h)" "sound_parts h"
    using assms linked_sound by (auto simp: wires_def sound_parts_def split: if_splits)
  then show "ledger_sound (hn_ledger h)" "bounded_escrows (hn_ledger h)" by (simp_all add: sound_parts_def custody_sound_def)
qed

section \<open>Results\<close>

text \<open>
  Mirror agreement is only in danger where the test writes the log or the mirror, where the log has used
  up its numbers, and, in a venue without lag, where money was moved past the pump.
\<close>

definition mirror_in_danger :: "access \<Rightarrow> 'h harness \<Rightarrow> bool" where
  "mirror_in_danger acc h \<longleftrightarrow> log_full h \<or> acc = FullAccess \<or> acc = DirectMoves \<and> lagless h"

definition may_fail :: "access \<Rightarrow> bool \<Rightarrow> cross_system_violation \<Rightarrow> 'h harness \<Rightarrow> bool" where
  "may_fail acc coverage v h \<longleftrightarrow> coverage \<and> (\<exists>a. v = CoverageBroken a) \<or> mirror_in_danger acc h \<and> (\<exists>a. v = MirrorDisagrees a)"

definition fine :: "access \<Rightarrow> bool \<Rightarrow> ('h, 'a) hres \<Rightarrow> bool" where
  "fine acc coverage r \<longleftrightarrow> (case r of None \<Rightarrow> False | Some (Inl (v, h)) \<Rightarrow> may_fail acc coverage v h | Some (Inr (_, h)) \<Rightarrow> good acc h)"

lemma fine_simps [simp]:
  "\<not> fine acc w None" "fine acc w (Some (Inr (a, h))) = good acc h"
  "fine acc w (Some (Inl (v, h))) = may_fail acc w v h"
  by (simp_all add: fine_def)

lemma mirror_only:
  "harness_check_mirror h = Inr () \<or> (\<exists>a. harness_check_mirror h = Inl (MirrorDisagrees a))"
proof -
  have one: "check_mirrored h i () = Inr () \<or> (\<exists>a. check_mirrored h i () = Inl (MirrorDisagrees a))" for i
    by (auto simp: check_mirrored_def Let_def split: option.split)
  have "fold_res (check_mirrored h) ks () = Inr () \<or> (\<exists>a. fold_res (check_mirrored h) ks () = Inl (MirrorDisagrees a))" for ks
  proof (induction ks)
    case (Cons i ks)
    with one[of i] show ?case by (auto simp: and_then_def)
  qed simp
  then show ?thesis unfolding harness_check_mirror_def by blast
qed

lemma mirror_holds:
  assumes "good acc h" and "\<not> mirror_in_danger acc h"
  shows "harness_check_mirror h = Inr ()"
proof -
  have room: "\<not> log_full h" using assms(2) by (simp add: mirror_in_danger_def)
  have "\<exists>m. wired m [] h \<and> (lagless h \<longrightarrow> all_applied m)"
  proof (cases "acc = OwnCalls")
    case True
    then show ?thesis using assms(1) room by (auto simp: good_def harness_ok_def)
  next
    case False
    with assms show ?thesis by (cases acc) (auto simp: good_def wires_def linked_def mirror_in_danger_def)
  qed
  then show ?thesis using mirror_checked[OF _ room] by blast
qed

lemma money_checks:
  assumes "good acc h"
  shows "harness_check_conservation h = Inr ()" "harness_check_contributions h = Inr ()"
  using wires_sound[OF good_wires[OF assms]] by (simp_all add: conservation_checked contributions_checked)

lemma fine_asserting: "good acc h \<Longrightarrow> fine acc w (asserting check_settlement_invariants a h)"
  using mirror_only[of h] mirror_holds[of acc h]
  by (cases "mirror_in_danger acc h")
    (auto simp: asserting_def check_settlement_invariants_def and_then_def money_checks[of acc h] may_fail_def)

lemma fine_asserting_all: "good acc h \<Longrightarrow> fine acc True (asserting check_cross_system_invariants a h)"
  using coverage_only[of h] mirror_only[of h] mirror_holds[of acc h]
  by (cases "mirror_in_danger acc h")
    (auto simp: asserting_def check_cross_system_invariants_def and_then_def money_checks[of acc h] may_fail_def)

lemma fine_then: "fine acc w r \<Longrightarrow> (\<And>a h. good acc h \<Longrightarrow> fine acc w (f a h)) \<Longrightarrow> fine acc w (then_call r f)"
  by (auto simp: fine_def[of acc w r] then_call_def split: option.splits sum.splits)

section \<open>Commands and the pump\<close>

lemma sound_takes:
  assumes "sound_parts h"
  obtains res h' where "engine_takes c h = Some (res, h')" "sound_parts h'" "hn_stalled h' = hn_stalled h"
proof -
  from assms obtain t where t: "t \<le> tc_now (hn_engine_clock h)" "reachable_engine t (hn_engine h)" by (auto simp: sound_parts_def)
  from engine_apply_handled[OF reachable_engine_inv[OF t(2)] t(1), of c "eb_clear (hn_events h)"] obtain res e' b' where
    run: "engine_apply c (tc_now (hn_engine_clock h)) (hn_engine h, eb_clear (hn_events h)) = Some (res, (e', b'))" by blast
  have r: "reachable_engine (tc_now (hn_engine_clock h)) e'" by (rule reaches_step[OF t(2) engine_applies[OF t(1) run]])
  obtain emitted b'' where "eb_drain b' = (emitted, b'')" by (cases "eb_drain b'")
  then have "engine_takes c h = Some (res, pick_up emitted (h\<lparr> hn_engine := e', hn_events := b'' \<rparr>))"
    by (simp add: engine_takes_def run)
  then show thesis by (rule that) (use assms r in \<open>auto simp: sound_parts_def pick_up_def\<close>)
qed

lemma sound_deliver:
  "sound_parts h \<Longrightarrow> \<exists>h'. deliver cs h = Some h' \<and> sound_parts h'"
proof (induction cs arbitrary: h)
  case (Cons c cs)
  obtain res h1 where one: "engine_takes c h = Some (res, h1)" "sound_parts h1" by (rule sound_takes[OF Cons.prems])
  from Cons.IH[OF this(2)] show ?case by (simp add: deliver_def one(1))
qed (simp add: deliver_def)

lemma fine_pump:
  assumes "wires acc h"
  shows "fine acc w (pump_indexer h)"
proof (cases "hn_stalled h")
  case True
  have "harness_ok h" if "linked h" using that True by (auto simp: linked_def harness_ok_def lagless_def)
  then have "good acc h" using assms ok_good[of h acc] by (auto simp: good_def wires_def split: if_splits)
  then show ?thesis by (simp add: pump_indexer_def True)
next
  case False
  obtain ix cs where d: "drain (cl_log (hn_ledger h)) (hn_indexer h) = (ix, cs)" by (cases "drain (cl_log (hn_ledger h)) (hn_indexer h)")
  have "\<exists>h'. deliver cs (h\<lparr> hn_indexer := ix \<rparr>) = Some h' \<and> good acc h'"
  proof (cases "acc = FullAccess")
    case True
    then have "sound_parts (h\<lparr> hn_indexer := ix \<rparr>)" using assms by (simp add: wires_def sound_parts_def)
    from sound_deliver[OF this, of cs] show ?thesis by (simp add: good_def wires_def True)
  next
    case other: False
    then obtain m where m: "wired m [] h" using assms by (auto simp: wires_def linked_def)
    obtain h' m' where "deliver cs (h\<lparr> hn_indexer := ix \<rparr>) = Some h'" "wired m' [] h'"
      "lagless h' \<and> \<not> log_full h' \<longrightarrow> all_applied m'" by (rule pumped[OF m d])
    moreover from this have "good acc h'" by (intro ok_good) (auto simp: harness_ok_def)
    ultimately show ?thesis by blast
  qed
  then show ?thesis using fine_asserting[of acc] by (auto simp: pump_indexer_def False d)
qed

section \<open>The calls\<close>

text \<open>A step of custody, with the log grown or as it was.\<close>

lemma linked_custody:
  assumes "linked h" and "custody_step d False (hn_custody h) c"
  shows "linked (h\<lparr> hn_custody := c \<rparr>)"
proof -
  obtain m where m: "wired m [] h" using assms(1) by (auto simp: linked_def)
  have c: "mk_custody m = hn_custody h" "reaches market_start market_step m" using m by (simp_all add: wired_def)
  have "market_step m (m\<lparr> mk_custody := c \<rparr>)" by (rule market_custody) (use assms(2) c in simp)
  from reaches_step[OF c(2) this] have r: "reaches market_start market_step (m\<lparr> mk_custody := c \<rparr>)" .
  have "bounded_escrows (hn_ledger h)" using m by (simp add: wired_def)
  from custody_step_bounded[OF wired_invariants(1)[OF m] this assms(2)] have b: "bounded_escrows (cu_ledger c)" .
  have "wired (m\<lparr> mk_custody := c \<rparr>) [] (h\<lparr> hn_custody := c \<rparr>)" using m r b by (simp add: wired_def)
  then show ?thesis unfolding linked_def by (rule exI)
qed

lemma ok_custody:
  assumes "harness_ok h" and "custody_step d False (hn_custody h) c" and "cl_log (cu_ledger c) = cl_log (hn_ledger h)"
  shows "harness_ok (h\<lparr> hn_custody := c \<rparr>)"
proof -
  obtain m where m: "wired m [] h" "lagless h \<and> \<not> log_full h \<longrightarrow> all_applied m" using assms(1) by (auto simp: harness_ok_def)
  have c: "mk_custody m = hn_custody h" "reaches market_start market_step m" using m by (simp_all add: wired_def)
  have "market_step m (m\<lparr> mk_custody := c \<rparr>)" by (rule market_custody) (use assms(2) c in simp)
  from reaches_step[OF c(2) this] have r: "reaches market_start market_step (m\<lparr> mk_custody := c \<rparr>)" .
  have "bounded_escrows (hn_ledger h)" using m by (simp add: wired_def)
  from custody_step_bounded[OF wired_invariants(1)[OF m(1)] this assms(2)] have b: "bounded_escrows (cu_ledger c)" .
  have "wired (m\<lparr> mk_custody := c \<rparr>) [] (h\<lparr> hn_custody := c \<rparr>)" using m(1) r b by (simp add: wired_def)
  moreover have "all_applied (m\<lparr> mk_custody := c \<rparr>) = all_applied m" by (simp add: all_applied_def c assms(3))
  moreover have "lagless (h\<lparr> hn_custody := c \<rparr>) = lagless h" "log_full (h\<lparr> hn_custody := c \<rparr>) = log_full h"
    by (simp_all add: lagless_def log_full_def assms(3))
  ultimately show ?thesis using m(2) unfolding harness_ok_def by blast
qed

lemma sound_custody:
  assumes "sound_parts h" and "custody_step d True (hn_custody h) c"
  shows "sound_parts (h\<lparr> hn_custody := c \<rparr>)"
  using assms(1) custody_step_sound[of True, OF _ assms(2)] custody_step_bounded[of True, OF _ _ assms(2)]
  by (auto simp: sound_parts_def)

lemma wires_custody:
  "wires acc h \<Longrightarrow> custody_step d (acc = FullAccess) (hn_custody h) c \<Longrightarrow> wires acc (h\<lparr> hn_custody := c \<rparr>)"
  by (auto simp: wires_def sound_custody linked_custody)

lemma wires_custodies:
  assumes "(custody_step d (acc = FullAccess))\<^sup>*\<^sup>* (hn_custody h) c" and "wires acc h"
  shows "wires acc (h\<lparr> hn_custody := c \<rparr>)"
  using assms
proof (induction rule: rtranclp_induct)
  case (step c c')
  from step.IH[OF step.prems] wires_custody[of acc "h\<lparr> hn_custody := c \<rparr>" d c'] step(2) show ?case by simp
qed simp

lemma good_custody:
  assumes "good acc h" and "custody_step d (acc = FullAccess) (hn_custody h) c"
    and "acc = OwnCalls \<Longrightarrow> cl_log (cu_ledger c) = cl_log (hn_ledger h)"
  shows "good acc (h\<lparr> hn_custody := c \<rparr>)"
  using assms ok_custody[of h d c] wires_custody[of acc h d c] by (auto simp: good_def)

lemma wires_ledger: "wires acc h \<Longrightarrow> ledger_call (acc = FullAccess) (hn_ledger h) l \<Longrightarrow> wires acc (with_ledger l h)"
  unfolding with_ledger_def by (rule wires_custody[where d = False]) (auto intro: step_ledger)

lemma with_same_ledger [simp]: "with_ledger (hn_ledger h) h = h"
  by (simp add: with_ledger_def)

text \<open>The wires' own queues are not part of either system.\<close>

lemma queues_apart:
  "good acc (h\<lparr> hn_pending := q \<rparr>) = good acc h" "good acc (h\<lparr> hn_in_flight := q \<rparr>) = good acc h"
  "good acc (h\<lparr> hn_oracle := o1 \<rparr>) = good acc h" "wires acc (h\<lparr> hn_payouts := p \<rparr>) = wires acc h"
  "wires acc (h\<lparr> hn_escrows := e \<rparr>) = wires acc h"
  by (simp_all add: good_def wires_def sound_parts_def harness_ok_def linked_def wired_def lagless_def log_full_def)

lemma deposit_fine:
  assumes "good acc h"
  shows "fine acc w (harness_deposit a v h)"
proof (cases "deposit a v (hn_ledger h)")
  case (Pair res l)
  show ?thesis
  proof (cases res)
    case (Inl err)
    then have "l = hn_ledger h" using Pair by (auto simp: deposit_def split: option.splits)
    then show ?thesis using assms by (simp add: harness_deposit_def Pair Inl)
  next
    case (Inr u)
    have "ledger_call (acc = FullAccess) (hn_ledger h) l" using call_deposit[of _ "hn_ledger h" a v] by (simp add: Pair)
    from wires_ledger[OF good_wires[OF assms] this] show ?thesis
      by (simp add: harness_deposit_def Pair Inr fine_then fine_pump)
  qed
qed

lemma request_fine:
  assumes "good acc h"
  shows "fine acc True (harness_request_withdrawal a v h)"
proof (cases "request_withdrawal a v (tc_now (hn_custody_clock h)) (hn_ledger h)")
  case (Pair res l)
  show ?thesis
  proof (cases res)
    case (Inl err)
    then have "l = hn_ledger h" using Pair by (auto simp: request_withdrawal_def split: option.splits if_splits)
    then show ?thesis using assms by (simp add: harness_request_withdrawal_def Pair Inl)
  next
    case (Inr t)
    have "ledger_call (acc = FullAccess) (hn_ledger h) l"
      using call_request[of _ "hn_ledger h" a v "tc_now (hn_custody_clock h)"] by (simp add: Pair)
    from wires_ledger[OF good_wires[OF assms] this] show ?thesis
      by (simp add: harness_request_withdrawal_def Pair Inr fine_then fine_pump fine_asserting_all)
  qed
qed

lemma execute_fine:
  assumes "good acc h"
  shows "fine acc w (harness_execute_withdrawal a h)"
proof (cases "execute_withdrawal a (tc_now (hn_custody_clock h)) (hn_ledger h)")
  case (Pair res l)
  show ?thesis
  proof (cases res)
    case (Inl err)
    then have "l = hn_ledger h" using Pair by (auto simp: execute_withdrawal_def Let_def split: option.splits if_splits)
    then show ?thesis using assms by (simp add: harness_execute_withdrawal_def Pair Inl)
  next
    case (Inr t)
    have "ledger_call (acc = FullAccess) (hn_ledger h) l"
      using call_execute[of _ "hn_ledger h" a "tc_now (hn_custody_clock h)"] by (simp add: Pair)
    from wires_ledger[OF good_wires[OF assms] this] show ?thesis
      by (simp add: harness_execute_withdrawal_def Pair Inr fine_then fine_pump fine_asserting)
  qed
qed

lemma apply_fine:
  assumes "good acc h" and "acc = FullAccess \<or> from_client c"
  shows "fine acc True (harness_apply c h)"
proof -
  have "\<exists>res h'. engine_takes c h = Some (res, h') \<and> good acc h'"
  proof (cases "acc = FullAccess")
    case True
    then have "sound_parts h" using assms(1) by (simp add: good_def wires_def)
    then obtain res h' where "engine_takes c h = Some (res, h')" "sound_parts h'" by (rule sound_takes)
    then show ?thesis by (simp add: good_def wires_def True)
  next
    case other: False
    then obtain m where m: "wired m [] h" "acc = OwnCalls \<Longrightarrow> lagless h \<and> \<not> log_full h \<longrightarrow> all_applied m"
      using assms(1) by (cases acc) (auto simp: good_def wires_def harness_ok_def linked_def)
    have c: "from_client c" using assms(2) other by simp
    obtain res h' m' where r: "engine_takes c h = Some (res, h')" "wired m' [] h'" "same_wires h h'" "all_applied m' = all_applied m"
      by (rule client_takes[OF m(1) c])
    have "acc = OwnCalls \<Longrightarrow> harness_ok h'" using r m(2) same_wires_kept[OF r(3)] unfolding harness_ok_def by auto
    then have "good acc h'" using r(2) other by (auto simp: good_def wires_def linked_def)
    with r(1) show ?thesis by blast
  qed
  then show ?thesis using fine_asserting_all[of acc] by (auto simp: harness_apply_def)
qed

lemma report_fine:
  assumes "wires acc h" and "\<And>a v. p \<noteq> BalanceChanged a v"
  shows "fine acc w (pump_indexer (append_payload p h))"
  unfolding append_payload_def
  by (rule fine_pump, rule wires_ledger[OF assms(1)]) (rule call_report, rule assms(2))

lemma submits_ok:
  "good acc h \<Longrightarrow> good acc (snd (fold (\<lambda>b (acks, h). case submit b (hn_custody h) of
     (ack, c) \<Rightarrow> (acks @ [ack], h\<lparr> hn_in_flight := hn_in_flight h @ [b], hn_custody := c \<rparr>)) bs (acks, h)))"
proof (induction bs arbitrary: acks h)
  case (Cons b bs)
  obtain ack c where s: "submit b (hn_custody h) = (ack, c)" by (cases "submit b (hn_custody h)")
  have "custody_step False (acc = FullAccess) (hn_custody h) c" using step_submit[of False _ "hn_custody h" b] by (simp add: s)
  moreover have "cl_log (cu_ledger c) = cl_log (hn_ledger h)" using s by (auto simp: submit_def)
  ultimately have "good acc (h\<lparr> hn_custody := c \<rparr>)" using good_custody[OF Cons.prems] by blast
  then have "good acc ((h\<lparr> hn_custody := c \<rparr>)\<lparr> hn_in_flight := hn_in_flight h @ [b] \<rparr>)" by (simp only: queues_apart)
  moreover have "(h\<lparr> hn_custody := c \<rparr>)\<lparr> hn_in_flight := hn_in_flight h @ [b] \<rparr> = h\<lparr> hn_in_flight := hn_in_flight h @ [b], hn_custody := c \<rparr>" by simp
  ultimately have "good acc (h\<lparr> hn_in_flight := hn_in_flight h @ [b], hn_custody := c \<rparr>)" by (simp only:)
  then show ?case using Cons.IH by (simp add: s)
qed simp

lemma submit_pending_ok: "good acc h \<Longrightarrow> good acc (snd (submit_pending h))"
  unfolding submit_pending_def by (rule submits_ok) (simp add: queues_apart)

lemma resubmit_ok:
  assumes "good acc h"
  shows "good acc (snd (resubmit r h))"
proof (cases "find (\<lambda>b. n_request (bu_nonce b) = h_index r) (hn_in_flight h)")
  case (Some b)
  obtain ack c where s: "submit b (hn_custody h) = (ack, c)" by (cases "submit b (hn_custody h)")
  have "custody_step False (acc = FullAccess) (hn_custody h) c" using step_submit[of False _ "hn_custody h" b] by (simp add: s)
  moreover have "cl_log (cu_ledger c) = cl_log (hn_ledger h)" using s by (auto simp: submit_def)
  ultimately show ?thesis using good_custody[OF assms] by (simp add: resubmit_def Some s)
qed (use assms in \<open>simp add: resubmit_def\<close>)

lemma lose_ok:
  assumes "good acc h"
  shows "good acc (snd (lose_next_submission h))"
proof -
  obtain d c where s: "drop_next_submission (hn_custody h) = (d, c)" by (cases "drop_next_submission (hn_custody h)")
  have "custody_step False (acc = FullAccess) (hn_custody h) c" using step_drop[of False _ "hn_custody h"] by (simp add: s)
  moreover have "cl_log (cu_ledger c) = cl_log (hn_ledger h)" using s by (auto simp: drop_next_submission_def split: list.splits)
  ultimately show ?thesis using good_custody[OF assms] by (simp add: lose_next_submission_def s)
qed

lemma include_all_steps:
  assumes "custody_sound w c"
  shows "\<exists>txs c'. include_all clock k acc c = Some (txs, c') \<and> (custody_step False w)\<^sup>*\<^sup>* c c'"
  using assms
proof (induction "cl_pending (cu_ledger c)" arbitrary: c k acc)
  case Nil
  then show ?case by (auto simp: include_all_Nil)
next
  case (Cons b rest)
  from include_next_answers[OF Cons.prems Cons.hyps(2)[symmetric], of "clock k"] obtain tx c1 where
    one: "include_next (clock k) c = (Some tx, c1)" "cl_pending (cu_ledger c1) = rest" by blast
  have st: "custody_step False w c c1" using step_include[of False w c "clock k"] by (simp add: one(1))
  have "custody_sound w c1" using custody_step_sound[OF Cons.prems st] by blast
  from Cons.hyps(1)[OF one(2)[symmetric] this, of "Suc k" "acc @ [tx]"] obtain txs c' where
    "include_all clock (Suc k) (acc @ [tx]) c1 = Some (txs, c')" "(custody_step False w)\<^sup>*\<^sup>* c1 c'" by blast
  then show ?case using converse_rtranclp_into_rtranclp[of "custody_step False w", OF st]
    by (auto simp: include_all_Cons[where acc = acc and clock = clock and k = k, OF one(1)])
qed

lemma include_fine:
  assumes "good acc h"
  shows "fine acc w (harness_include_all h)"
proof -
  note wr = good_wires[OF assms]
  from include_all_steps[OF wires_sound(1)[OF wr]] obtain txs c where
    inc: "include_all (\<lambda>_. tc_now (hn_custody_clock h)) 0 [] (hn_custody h) = Some (txs, c)"
      "(custody_step False (acc = FullAccess))\<^sup>*\<^sup>* (hn_custody h) c" by blast
  have "wires acc ((h\<lparr> hn_custody := c \<rparr>)\<lparr> hn_escrows := hn_escrows h @ concat (map formed_by txs) \<rparr>)"
    unfolding queues_apart by (rule wires_custodies[OF inc(2) wr])
  then show ?thesis by (simp add: harness_include_all_def inc(1) fine_then fine_pump fine_asserting)
qed

lemma payouts_calls:
  "(ledger_call w)\<^sup>*\<^sup>* (snd acc) (snd (fold pay_out evs acc))"
proof (induction evs arbitrary: acc)
  case (Cons ev evs)
  have "(ledger_call w)\<^sup>*\<^sup>* (snd acc) (snd (pay_out ev acc))"
  proof (cases ev)
    case (SettleIntent i k out)
    have "snd (pay_out ev acc) = snd (custody_settle_escrow i k out (snd acc))"
      by (simp add: pay_out_def SettleIntent split: prod.split)
    then show ?thesis using call_settle_escrow[of w "snd acc" i k out] by auto
  qed (simp_all add: pay_out_def)
  from rtranclp_trans[OF this Cons.IH[of "pay_out ev acc"]] show ?case by simp
qed simp

lemma wires_ledgers:
  assumes "(ledger_call (acc = FullAccess))\<^sup>*\<^sup>* (hn_ledger h) l" and "wires acc h"
  shows "wires acc (with_ledger l h)"
  using assms
proof (induction rule: rtranclp_induct)
  case (step l l')
  have "ledger_call (acc = FullAccess) (hn_ledger (with_ledger l h)) l'" using step(2) by (simp add: with_ledger_def)
  from wires_ledger[OF step.IH[OF step.prems] this] show ?case by (simp add: with_ledger_def)
qed simp

lemma payouts_fine:
  assumes "good acc h"
  shows "fine acc w (apply_payouts h)"
proof -
  let ?h = "h\<lparr> hn_payouts := [] \<rparr>"
  obtain res l where f: "fold pay_out (hn_payouts h) ([], hn_ledger h) = (res, l)"
    by (cases "fold pay_out (hn_payouts h) ([], hn_ledger h)")
  have "(ledger_call (acc = FullAccess))\<^sup>*\<^sup>* (hn_ledger ?h) l" using payouts_calls[of _ "([], hn_ledger h)" "hn_payouts h"] by (simp add: f)
  moreover have "wires acc ?h" using good_wires[OF assms] by (simp add: queues_apart)
  ultimately have "wires acc (with_ledger l ?h)" by (rule wires_ledgers)
  then show ?thesis by (simp add: apply_payouts_def f fine_then fine_pump fine_asserting)
qed

lemma poll_fine:
  assumes "good acc h"
  shows "fine acc True (harness_poll_settlement r h)"
proof (cases "Option.bind (request (e_ledger (hn_engine h)) r) (\<lambda>record. request_state_nonce (rq_state record))")
  case (Some n)
  have "fine acc True (harness_apply (PollSettlement n (nonce_status (hn_ledger h) n)) h)"
    by (rule apply_fine[OF assms]) (simp add: from_client_def)
  then show ?thesis using assms by (simp add: harness_poll_settlement_def Let_def Some fine_then)
qed (use assms in \<open>simp add: harness_poll_settlement_def\<close>)

lemma mine_fine:
  assumes "good acc h"
  shows "fine acc w (harness_advance_block h)"
  unfolding harness_advance_block_def
  by (rule fine_pump, rule wires_ledger[OF good_wires[OF assms]]) (rule call_mine)

lemma resume_fine:
  assumes "good acc h"
  shows "fine acc w (resume_indexer h)"
proof -
  have "linked (h\<lparr> hn_stalled := False \<rparr>)" if l: "linked h"
  proof -
    from l obtain m where "wired m [] h" by (auto simp: linked_def)
    then have "wired m [] (h\<lparr> hn_stalled := False \<rparr>)" by (simp add: wired_def)
    then show ?thesis unfolding linked_def by (rule exI)
  qed
  then have "wires acc (h\<lparr> hn_stalled := False \<rparr>)" using good_wires[OF assms] by (auto simp: wires_def sound_parts_def)
  then show ?thesis by (simp add: resume_indexer_def fine_then fine_pump fine_asserting)
qed

lemma stall_ok:
  assumes g: "good acc h" and lag: "0 < max_indexer_lag (e_config (hn_engine h))"
  shows "good acc (h\<lparr> hn_stalled := True \<rparr>)"
proof -
  have "wired m [] h \<Longrightarrow> wired m [] (h\<lparr> hn_stalled := True \<rparr>)" for m using lag by (simp add: wired_def)
  then have "linked h \<Longrightarrow> harness_ok (h\<lparr> hn_stalled := True \<rparr>)" by (auto simp: linked_def harness_ok_def lagless_def)
  moreover have "sound_parts h \<Longrightarrow> sound_parts (h\<lparr> hn_stalled := True \<rparr>)" by (simp add: sound_parts_def)
  ultimately show ?thesis using good_wires[OF g] ok_good[of "h\<lparr> hn_stalled := True \<rparr>" acc]
    by (auto simp: good_def wires_def split: if_splits)
qed

lemma clocks_ok:
  assumes "good acc h" and "tc_now (hn_engine_clock h) \<le> tc_now k"
  shows "good acc (h\<lparr> hn_engine_clock := k, hn_custody_clock := k', hn_oracle_clock := k'' \<rparr>)"
proof -
  let ?h = "h\<lparr> hn_engine_clock := k, hn_custody_clock := k', hn_oracle_clock := k'' \<rparr>"
  have "wired m [] h \<Longrightarrow> wired m [] ?h" for m using assms(2) by (auto simp: wired_def)
  then have "harness_ok h \<Longrightarrow> harness_ok ?h" "linked h \<Longrightarrow> linked ?h"
    by (auto simp: harness_ok_def linked_def lagless_def log_full_def)
  moreover have "sound_parts h \<Longrightarrow> sound_parts ?h" using assms(2) by (auto simp: sound_parts_def intro: order_trans)
  ultimately show ?thesis using assms(1) by (auto simp: good_def wires_def split: if_splits)
qed

lemma rewind_ok:
  assumes "good acc h"
  shows "good acc (h\<lparr> hn_indexer := rewind (hn_indexer h) \<rparr>)"
proof -
  let ?h = "h\<lparr> hn_indexer := rewind (hn_indexer h) \<rparr>"
  have r: "\<exists>m'. wired m' [] ?h \<and> all_applied m' = all_applied m" if m: "wired m [] h" for m
  proof -
    have c: "mk_indexer m = hn_indexer h" "reaches market_start market_step m" using m by (simp_all add: wired_def)
    let ?m = "m\<lparr> mk_indexer := rewind (hn_indexer h) \<rparr>"
    have "market_step m ?m" using market_rewind[of m] by (simp add: c(1))
    from reaches_step[OF c(2) this] have r: "reaches market_start market_step ?m" .
    have "wired ?m [] ?h" using m r by (simp add: wired_def rewind_def)
    moreover have "all_applied ?m = all_applied m" by (simp add: all_applied_def)
    ultimately show ?thesis by blast
  qed
  then have "linked h \<Longrightarrow> linked ?h" by (auto simp: linked_def)
  moreover have "harness_ok h \<Longrightarrow> harness_ok ?h" using r unfolding harness_ok_def by (fastforce simp: lagless_def log_full_def)
  moreover have "sound_parts h \<Longrightarrow> sound_parts ?h" by (simp add: sound_parts_def)
  ultimately show ?thesis using assms by (auto simp: good_def wires_def split: if_splits)
qed

text \<open>What is done to custody directly.\<close>

lemma ledger_written:
  "may_write acc (WLedger w) \<Longrightarrow> ledger_call (acc = FullAccess) l (write_ledger w l)"
  by (auto simp: may_write_def write_ledger_def write_log_def intro: ledger_call.intros
      split: ledger_write.splits chain_payload.splits)

lemma custody_written:
  assumes "good acc h" and may: "may_write acc op"
  shows "\<exists>c. write_custody now op (hn_custody h) = Some c \<and> good acc (h\<lparr> hn_custody := c \<rparr>)"
proof -
  note wr = good_wires[OF assms(1)]
  have wide: "good acc = wires acc" if "acc \<noteq> OwnCalls" using that by (simp add: good_def fun_eq_iff)
  note one = wires_custody[OF wr, of True]
  show ?thesis
  proof (cases op)
    case (WLedger w)
    then have "acc \<noteq> OwnCalls" using may by (auto simp: may_write_def split: ledger_write.splits)
    with one[OF step_ledger[OF ledger_written]] may show ?thesis by (simp add: WLedger write_custody_def wide)
  next
    case (WHook hook)
    have "custody_step True (acc = FullAccess) (hn_custody h) (on_settle_entry hook (hn_custody h))"
      by (rule step_hook) (use may in \<open>simp add: may_write_def WHook\<close>)
    from good_custody[OF assms(1) this] show ?thesis by (simp add: write_custody_def WHook) (simp add: on_settle_entry_def)
  next
    case WIncludeAll
    then have "acc \<noteq> OwnCalls" using may by (simp add: may_write_def)
    moreover from include_all_steps[OF wires_sound(1)[OF wr]] obtain txs c where
      "include_all (\<lambda>_. now) 0 [] (hn_custody h) = Some (txs, c)" "(custody_step False (acc = FullAccess))\<^sup>*\<^sup>* (hn_custody h) c" by blast
    ultimately show ?thesis using wires_custodies[OF _ wr] by (simp add: WIncludeAll write_custody_def wide)
  next
    case (WSubmit b)
    then show ?thesis using may one[OF step_submit] by (simp add: write_custody_def wide may_write_def)
  next
    case WIncludeNext
    then show ?thesis using may one[OF step_include] by (simp add: write_custody_def wide may_write_def)
  next
    case (WSettle b)
    then show ?thesis using may one[OF step_settle] by (simp add: write_custody_def wide may_write_def)
  qed
qed

lemma indexer_written: "good FullAccess h \<Longrightarrow> good FullAccess (h\<lparr> hn_indexer := ix \<rparr>)"
  by (simp add: good_def wires_def sound_parts_def)

section \<open>Reachable harnesses\<close>

definition checks_coverage :: "'h harness_call \<Rightarrow> bool" where
  "checks_coverage call = (case call of HRequestWithdrawal _ _ \<Rightarrow> True | HApply _ \<Rightarrow> True | HPoll _ \<Rightarrow> True | _ \<Rightarrow> False)"

definition misused :: "'h harness_call \<Rightarrow> 'h harness \<Rightarrow> bool" where
  "misused call h = (case call of
     HSetClocks now \<Rightarrow> now < tc_now (hn_engine_clock h) \<or> now < tc_now (hn_custody_clock h)
   | HStall \<Rightarrow> max_indexer_lag (e_config (hn_engine h)) = 0
   | _ \<Rightarrow> False)"

definition harness_start :: "'h harness \<Rightarrow> bool" where
  "harness_start h \<longleftrightarrow> (\<exists>config k1 k2 k3. harness_new config k1 k2 k3 = Some (Inr h))"

inductive harness_step :: "access \<Rightarrow> 'h harness \<Rightarrow> 'h harness \<Rightarrow> bool" for acc where
  harness_calls: "may_call acc call \<Longrightarrow> harness_do call h = Some (Inr h') \<Longrightarrow> harness_step acc h h'"

text \<open>The result of any call, its value left out.\<close>

definition all_fine :: "access \<Rightarrow> bool \<Rightarrow> (cross_system_violation \<times> 'h harness + 'h harness) option \<Rightarrow> bool" where
  "all_fine acc coverage r \<longleftrightarrow> (case r of None \<Rightarrow> False | Some (Inl (v, h)) \<Rightarrow> may_fail acc coverage v h | Some (Inr h) \<Rightarrow> good acc h)"

lemma all_fine_simps [simp]:
  "all_fine acc w (Some (Inr h)) = good acc h" "all_fine acc w (no_value r) = fine acc w r"
  by (auto simp: all_fine_def fine_def no_value_def split: option.split sum.split)

lemma start_ok:
  assumes "harness_start h"
  shows "harness_ok h"
proof -
  from assms obtain config k1 k2 k3 where new: "harness_new config k1 k2 k3 = Some (Inr h)" by (auto simp: harness_start_def)
  then obtain e where e: "engine_new config = Some (Inr e)" by (auto simp: harness_new_def split: option.splits sum.splits)
  have h: "hn_engine h = e" "hn_custody h = custody_new (withdrawal_delay config) (max_accounts config) (max_escrows config)"
    "hn_indexer h = indexer_new (ucast (confirmations config))" "\<not> hn_stalled h" "hn_engine_clock h = k1"
    using new e by (auto simp: harness_new_def)
  have cfg: "e_config e = config" using e by (auto simp: engine_new_cases)
  let ?m = "\<lparr> mk_custody = hn_custody h, mk_indexer = hn_indexer h, mk_delivered = [], mk_applied = 0, mk_engine = (0, e) \<rparr>"
  have start: "market_start ?m" using e by (auto simp: market_start_def h(2,3) custody_start_def engine_start_def)
  have empty: "cl_escrows (hn_ledger h) = []" "lg_entries (cl_log (hn_ledger h)) = []"
    by (simp_all add: h(2) custody_new_def chain_log_new_def)
  have "reaches market_start market_step ?m" using start by (rule reaches_start)
  then have "wired ?m [] h" using h(4)
    by (simp add: wired_def h(1,5) cfg bounded_escrows_def empty(1)) (simp add: h(3) indexer_new_def)
  moreover have "all_applied ?m" by (simp add: all_applied_def empty(2))
  ultimately show ?thesis unfolding harness_ok_def by blast
qed

lemma call_fine:
  assumes ok: "good acc h" and may: "may_call acc call" and use: "\<not> misused call h"
  shows "all_fine acc (checks_coverage call) (harness_do call h)"
proof (cases call)
  case (HReportOracle k)
  then show ?thesis using report_fine[OF good_wires[OF ok]]
    by (simp add: harness_do_def harness_report_oracle_status_def Let_def fine_then)
next
  case (HRequestEscrowSettlement i k out)
  then show ?thesis using report_fine[OF good_wires[OF ok]]
    by (simp add: harness_do_def request_escrow_settlement_def fine_then)
next
  case HSettlePending
  then show ?thesis using include_fine[OF submit_pending_ok[OF ok]]
    by (simp add: harness_do_def settle_pending_def fine_then)
next
  case (HSetClocks now)
  let ?k = "\<lparr> tc_now = now \<rparr>"
  have "tc_now (hn_engine_clock h) \<le> now" using use by (simp add: HSetClocks misused_def not_less)
  then have "good acc (h\<lparr> hn_engine_clock := ?k, hn_custody_clock := ?k, hn_oracle_clock := hn_oracle_clock h \<rparr>)"
    by (intro clocks_ok[OF ok]) simp
  moreover have "test_clock_set True now k = (if now < tc_now k then None else Some ?k)" for k
    by (cases k) (simp add: test_clock_set_def)
  ultimately show ?thesis using use by (simp add: harness_do_def HSetClocks misused_def set_both_clocks_def)
next
  case (HAdvanceClocks d1 d2 d3)
  have "t \<le> ts_saturating_add t d" for t d
    using unat_lt_size[of t] by (simp add: ts_saturating_add_def word_le_nat_alt unat_saturating_add)
  then show ?thesis using clocks_ok[OF ok, of "test_clock_advance d1 (hn_engine_clock h)"]
    by (simp add: harness_do_def HAdvanceClocks test_clock_advance_def)
next
  case (HCustody op)
  then show ?thesis using custody_written[OF ok, of op "tc_now (hn_custody_clock h)"] may
    by (auto simp: harness_do_def may_call_def)
next
  case HStall
  then show ?thesis using use stall_ok[OF ok] by (simp add: harness_do_def stall_indexer_def misused_def word_neq_0_conv)
next
  case (HApply c)
  then show ?thesis using apply_fine[OF ok] may by (simp add: harness_do_def may_call_def checks_coverage_def)
next
  case HForget
  then show ?thesis using may ok indexer_written by (simp add: harness_do_def may_call_def)
next
  case (HDrain g)
  then show ?thesis using may ok indexer_written by (simp add: harness_do_def may_call_def)
qed (simp_all add: harness_do_def checks_coverage_def deposit_fine[OF ok] request_fine[OF ok] execute_fine[OF ok]
      submit_pending_ok[OF ok] resubmit_ok[OF ok] payouts_fine[OF ok] lose_ok[OF ok] include_fine[OF ok] poll_fine[OF ok]
      fine_pump[OF good_wires[OF ok]] mine_fine[OF ok] resume_fine[OF ok] queues_apart ok rewind_ok[OF ok])

lemma misuse_panics:
  assumes "misused call h"
  shows "harness_do call h = None"
proof (cases call)
  case (HSetClocks now)
  with assms show ?thesis by (auto simp: misused_def harness_do_def set_both_clocks_def test_clock_set_def)
next
  case HStall
  with assms show ?thesis by (simp add: misused_def harness_do_def stall_indexer_def no_value_def)
qed (use assms in \<open>simp_all add: misused_def\<close>)

interpretation harness_system: inductive_invariant harness_start "harness_step acc" "good acc" for acc
proof unfold_locales
  fix h h' :: "'h harness"
  show "harness_start h \<Longrightarrow> good acc h" by (rule ok_good[OF start_ok])
  assume ok: "good acc h" and "harness_step acc h h'"
  from this(2) obtain call where call: "may_call acc call" "harness_do call h = Some (Inr h')" by (auto elim: harness_step.cases)
  then have "\<not> misused call h" using misuse_panics[of call h] by auto
  from call_fine[OF ok call(1) this] show "good acc h'" by (simp add: call(2))
qed

section \<open>Property\<close>

text \<open>
  C4. The checks that span both systems, over everything a test can do with the harness and the parts it
  hands out, from a state it can reach. A call returns, unless it turns a clock back or stalls a venue
  configured without lag, which panic. Of the assertions made on the way, conservation of money and the
  contributions of escrows never fire, whatever the test writes; claim coverage can only fire where it
  is checked, in \<open>apply\<close>, \<open>poll_settlement\<close> and \<open>request_withdrawal\<close>; and mirror agreement can only fire
  if the test has forged the log, the indexer's memory or a mirror update (\<open>FullAccess\<close>), if it has moved
  money past the pump of a venue without lag (\<open>DirectMoves\<close>), or when the log has used up its 2^64
  transaction numbers. After every call that returns, the checks that cannot fire hold.
\<close>

theorem harness_checks_hold:
  assumes "reaches harness_start (harness_step acc) h" and "may_call acc call"
  shows "case harness_do call h of
      None \<Rightarrow> misused call h
    | Some (Inl (v, h')) \<Rightarrow> checks_coverage call \<and> (\<exists>a. v = CoverageBroken a) \<or> mirror_in_danger acc h' \<and> (\<exists>a. v = MirrorDisagrees a)
    | Some (Inr h') \<Rightarrow> harness_check_conservation h' = Inr () \<and> harness_check_contributions h' = Inr () \<and>
        (mirror_in_danger acc h' \<or> harness_check_mirror h' = Inr ())"
proof (cases "misused call h")
  case True
  then show ?thesis by (simp add: misuse_panics)
next
  case False
  from call_fine[OF harness_system.reachable_inv[OF assms(1)] assms(2) False] mirror_holds money_checks
  show ?thesis by (auto simp: all_fine_def may_fail_def split: option.splits sum.splits)
qed

text \<open>
  The danger is real: in a venue without lag, a deposit made on custody directly makes the next
  command panic on the mirror.
\<close>

definition demo_harness :: "unit harness option" where
  "demo_harness = (case harness_new demo_config (test_clock_at 5) (test_clock_at 5) (test_clock_at 5) of Some (Inr h) \<Rightarrow> Some h | _ \<Rightarrow> None)"

lemma direct_deposit_breaks_the_mirror:
  "(case demo_harness of None \<Rightarrow> False
    | Some h \<Rightarrow>
        (case harness_do (HCustody (WLedger (WDeposit 1 500))) h of
           Some (Inr h1) \<Rightarrow> (case harness_do (HApply (RegisterContract 0 9000000)) h1 of
              Some (Inl (v, _)) \<Rightarrow> v = MirrorDisagrees 1 | _ \<Rightarrow> False)
         | _ \<Rightarrow> False))"
  by code_simp

lemma direct_deposit_is_a_direct_move:
  "may_call DirectMoves (HCustody (WLedger (WDeposit a v)))" "\<not> may_call OwnCalls (HCustody (WLedger (WDeposit a v)))"
  by (simp_all add: may_call_def may_write_def)

lemma demo_harness_deposit:
  "(case demo_harness of None \<Rightarrow> False
    | Some h \<Rightarrow> (case harness_do (HDeposit 1 500) h of Some (Inr h') \<Rightarrow> lg_next_tx (cl_log (hn_ledger h')) \<noteq> u_max | _ \<Rightarrow> False))"
  by code_simp

theorem harness_checks_hold_witness:
  "\<exists>h h' :: unit harness. harness_start h \<and> harness_do (HDeposit 1 500) h = Some (Inr h') \<and> harness_check_conservation h' = Inr () \<and>
     harness_check_mirror h' = Inr ()"
proof -
  from demo_harness_deposit obtain h h' where h: "demo_harness = Some h" "harness_do (HDeposit 1 500) h = Some (Inr h')"
    "lg_next_tx (cl_log (hn_ledger h')) \<noteq> u_max" by (auto split: option.splits sum.splits)
  have start: "harness_start h" using h(1) unfolding demo_harness_def harness_start_def by (auto split: option.splits sum.splits)
  have "may_call OwnCalls (HDeposit 1 500 :: unit harness_call)" by (simp add: may_call_def)
  from harness_checks_hold[OF reaches_start[of harness_start h "harness_step OwnCalls", OF start] this] start h(2,3)
  show ?thesis by (auto simp: mirror_in_danger_def log_full_def)
qed

end
