(* ===== verification/Spec2Isabelle.thy ===== *)
theory Spec2Isabelle
  imports Engine_Claims Oracle_Engine Custody_Answers Mirror Settlement_Handoff Venue_Events Gateway Harness_Claims
begin

text \<open>
  A verification development for a request-for-quote venue: participants request prices on baskets of
  event contracts, makers quote, a single-writer engine matches, a custody contract settles, an oracle
  resolves. The program is the Rust workspace under \<open>src/crates\<close>; paths below are relative to it.

  \<^bold>\<open>The program and its parts.\<close> \<open>core\<close> holds the engine, which owns one ledger of claims on mirrored
  capital and applies one command at a time at an instant it is given. \<open>chain\<close> holds custody (balances,
  escrows, the settlement transaction), the chain log with its indexer, and the oracle. The two do not
  see each other: \<open>runtime\<close> connects them. A \<open>SubmitIntent\<close> event becomes a bundle for custody; custody
  writes every change of an availability and every answer into its log; the indexer turns confirmed
  entries into commands; the venue runs the engine on one thread between a command channel, a logger
  and a publisher; the gateway turns external names into indices.

  \<^bold>\<open>How code becomes definitions.\<close> A struct is a record, an enum a datatype, a \<open>w\<close>-bit integer a \<open>w\<close>-bit
  word with the checked and saturating operations of the sources (\<open>Prelude\<close>). A method takes the state
  and returns it. \<open>Result<T, E>\<close> is \<open>'e + 'a\<close> with \<open>Inl\<close> the error; a map is a partial function, an
  arena a list of slots. An operation that walks links returns an option, where \<open>None\<close> is not returning:
  the walks are partial functions, without fuel, and totality is proved where the invariant gives it.
  A panic of the sources is \<open>None\<close> too, or a value of its own where it matters. Arrays of fixed size are
  lists of that length (\<open>MAX_LEGS\<close> 8, \<open>MAX_QUOTES_PER_LEG\<close> 16); a write past the end is ignored, as
  \<open>get_mut\<close> does. Definitions without a flag \<open>debug\<close> are the release build; those with it, the twins
  \<open>x_in\<close> of \<open>Ledger_Debug\<close> and \<open>Engine_Debug\<close> among them, compile the debug assertions in. The event
  buffer counts the pushes it refused (\<open>eb_dropped\<close>, a ghost): each is a lost event in a release build
  and a panic in a debug build. An instant a clock gives is an argument; \<open>Clock\<close> says where it comes from.

  \<^bold>\<open>core, data.\<close> \<open>Money_Types\<close> (\<open>core/src/types.rs\<close>: amounts, prices, sizes, instants and the two
  contributions of a leg), \<open>Config\<close> (\<open>config.rs\<close>: the policy and its validation, with the equivalence to
  bounds over natural numbers), \<open>Slab\<close> (\<open>slab.rs\<close>: the arena with generations; a locale for handle
  stores, interpreted on it), \<open>Chains\<close> (the link type of \<open>account.rs\<close> and segments of doubly linked
  chains), \<open>Claims\<close> (\<open>account.rs\<close>, \<open>reservation.rs\<close>), \<open>Market_Records\<close> (\<open>quote.rs\<close>, \<open>request.rs\<close>,
  \<open>settlement.rs\<close>), \<open>Contract\<close> (\<open>contract.rs\<close>: oracle statuses that only move up and the derived
  outcome), \<open>Commands\<close> (\<open>command.rs\<close>, \<open>event.rs\<close>), \<open>Clock\<close> (\<open>clock.rs\<close> of \<open>core\<close> and \<open>runtime\<close>; a locale
  says that samples never run backwards, interpreted on the test and tick clocks).

  \<^bold>\<open>core, the ledger\<close> (\<open>ledger.rs\<close>). \<open>Ledger\<close> has every operation. \<open>Claim_Structure\<close> states the chains and
  totals over maps from slot to claim, \<open>Ledger_Inv\<close> and \<open>Ledger_Commit\<close> prove every operation keeps them,
  \<open>Ledger_Steps\<close> has the step relation and the properties over all reachable ledgers: totals are sums,
  a reservation is all or nothing, normalisation reclaims exactly the expired, committed capital stays.
  \<open>Ledger_Checks\<close> has the checks of debug builds and \<open>Ledger_Checked\<close> shows that they return and accept
  exactly the ledgers whose structure is consistent. \<open>Ledger_Debug\<close> has the operations the engine calls
  with their debug assertions, and \<open>Ledger_Debug_Safe\<close> shows that none fires on a consistent ledger.
  \<open>Money_Moves\<close> carries a relation between money rows
  through every operation and handler once, in a locale; \<open>Coverage\<close> and \<open>Mirror\<close> interpret it, for the
  coverage of claims by free capital and for the free column. \<open>Contract_Moves\<close> says what a command can
  do to the contract table.

  \<^bold>\<open>core, the engine\<close> (\<open>selection.rs\<close>, \<open>engine.rs\<close>). \<open>Selection\<close> and \<open>Engine\<close> have the walks of a leg and
  every command handler. \<open>Leg_Chain\<close> gives the walks their meaning on a chain; \<open>Market_Inv\<close> ties quotes,
  requests and claims together; \<open>Quote_Moves\<close> and \<open>Market_Moves\<close> say what the building blocks of the
  handlers do to it; \<open>Engine_Inv\<close>, \<open>Engine_Quotes\<close>, \<open>Engine_Accept\<close>, \<open>Engine_Settle\<close> and \<open>Engine_Poll\<close>
  prove one handler after the other total, within its event headroom and invariant-preserving;
  \<open>Engine_Runs\<close> has the transition system of commands at non-decreasing instants, \<open>Engine_Props\<close> reads
  the invariant back in the terms of the code, \<open>Engine_Demo\<close> evaluates one concrete run, and
  \<open>Engine_Claims\<close> states the properties of every reachable engine. \<open>Engine_Debug\<close> is \<open>Engine::apply\<close> in
  a debug build, and \<open>Engine_Debug_Safe\<close> shows that none of its assertions fires on a reachable engine:
  the two builds agree, and claims and their owners are coherent after every command.

  \<^bold>\<open>chain.\<close> \<open>Settlement_Bundle\<close> (\<open>chain/src/bundle.rs\<close>, \<open>escrow.rs\<close>) and \<open>Custody\<close> (\<open>custody.rs\<close>) have the
  data and operations; a settlement hook is a state with a function on the ledger. \<open>Vault\<close> is the
  abstract settlement contract over natural numbers, \<open>Refinement\<close> the locale of a refinement,
  \<open>Custody_Debits\<close>, \<open>Custody_Inv\<close> and \<open>Custody_Settle\<close> show that custody refines the vault;
  \<open>Custody_Claims\<close> and \<open>Custody_Answers\<close> state conservation, atomic settlement, single payout, final
  answers, the timelock and termination of \<open>include_all\<close>. \<open>Chain_Log\<close> (\<open>log.rs\<close>, \<open>indexer.rs\<close>) has
  delivery exactly once under reorganisations within the confirmation depth; \<open>Oracle\<close> (\<open>oracle.rs\<close>)
  justifies every final answer and refines the status machine of the engine; \<open>Oracle_Engine\<close> puts it
  beside the whole engine, with reports late and in any order, and ties the outcomes the engine acts on
  to the oracle's answers.

  \<^bold>\<open>runtime.\<close> \<open>Settlement_Handoff\<close> (\<open>runtime/src/settlement.rs\<close>): what a bundle debits is what the engine
  committed. \<open>Mirror\<close>: engine, custody, log and indexer as one system, in which the engine's free
  balances follow custody. \<open>Channels\<close> (\<open>handoff.rs\<close> and the bounded channel of the standard library),
  \<open>Venue\<close> and \<open>Venue_Events\<close> (\<open>venue.rs\<close>): the threads as actions interleaved in any order; the log
  replays, the engine thread does not panic while claims are covered, a lost event leaves a gap. A
  client's blocking send is an action that is not enabled while it blocks; on a channel of bound 0 it
  hands one message over.
  \<open>Gateway\<close> (\<open>gateway.rs\<close>): one index per contract, and requests resolved to exactly their contracts.
  \<open>Harness\<close> (\<open>harness.rs\<close>): every call and check of the rig the tests and scenarios run on, with the
  settable clocks they give it, and the public methods of the parts it hands out for writing;
  \<open>Harness_Safe\<close> shows that its runs are runs of the market of \<open>Mirror\<close>, and \<open>Harness_Claims\<close> which
  checks of both systems hold after every call, for a test that keeps to the calls of the harness, one
  that also moves money on custody directly, and one that writes the log and the mirror too.

  \<^bold>\<open>How the proofs are organised.\<close> Reachability is the predicate \<open>reaches\<close> of \<open>Prelude\<close>, and the locale
  \<open>inductive_invariant\<close> carries an invariant over it; it is interpreted for the slab, the ledger, the
  engine, custody, the log, the oracle beside the engine, the market, the venue, the gateway and the
  harness. A property quantifies over
  reachable states and rests on lemmas of its component; its witness evaluates a concrete run.

  \<^bold>\<open>Bounds.\<close> Properties hold at the width of the sources. Where a 64-bit counter saturates (transaction
  numbers of the log, event numbers) the property says so as a hypothesis. Slabs have less than
  \<open>2 ^ 32 - 1\<close> slots, which every validated configuration gives.

  \<^bold>\<open>What modelling showed.\<close> A maker whose better quote the ledger refuses loses the standing one
  (\<open>Engine_Claims\<close>); a halt on a full log leaves one applied command unrecorded, and the coverage
  assertion can fail on a correct system (\<open>Venue\<close>); a refused request of the gateway loses the
  registrations of its earlier legs (\<open>Gateway\<close>); a directly called \<open>settle\<close> overwrites a revert
  (\<open>Custody_Answers\<close>).

  \<^bold>\<open>Not modelled.\<close> The build script \<open>core/build.rs\<close>, which scans source text; \<open>scenarios\<close>,
  programs that print runs of the other crates, and the tests; spawning
  and scheduling of threads beyond their interleaving; derived formatting and hashing; getters that
  return a field, which are the record fields; the debug assertions of the public ledger operations
  that the engine never calls (\<open>reserve\<close>, \<open>release\<close>, \<open>commit\<close>, \<open>close_quote\<close>, \<open>close_request\<close>). The capacity of a vector is the one asked for.
\<close>

end
